(* ===== verification/Prelude.thy ===== *)
theory Prelude
  imports Main "HOL-Library.Word" "HOL-Library.Monad_Syntax" "HOL-Library.Multiset"
begin

text \<open>
  Shared ground of the development: the memory the C code runs on, the shape predicates of
  linked structures in that memory, and the generic lemmas the components rest on.

  Pointers are natural numbers, 0 is NULL.  A component's nodes live in a \<open>heap\<close>, a partial
  map from addresses to node records.  An operation of the code is a function that takes the
  memory and returns \<open>Some\<close> of its result with the memory after it; \<open>None\<close> is undefined
  behaviour (a NULL or dangling pointer is dereferenced, a cell is freed twice) or a loop that
  does not end.  So every theorem that says an operation returns \<open>Some\<close> says that it is memory
  safe and that it terminates.

  The allocator is outside the program.  Its answers are the list \<open>answers\<close>: each call of
  \<open>malloc\<close> consumes one answer.  An answer that is not a fresh address (0, or an address that
  is in use) and an exhausted list are the answer NULL, so any sequence of answers a correct
  allocator can give is covered, failures and reuse of freed addresses included.
\<close>

type_synonym addr = nat
type_synonym val = nat
type_synonym c_uint = "32 word"

text \<open>Facts that unfold the memory operations, and facts that carry shapes over updates.\<close>

named_theorems mem_simps
named_theorems shape_frame

section \<open>Memory\<close>

record 'n mem =
  heap :: "addr \<rightharpoonup> 'n"
  answers :: "addr list"

definition load :: "addr \<Rightarrow> 'n mem \<Rightarrow> 'n option" where
  "load p m = (if p = 0 then None else heap m p)"

definition store :: "addr \<Rightarrow> 'n \<Rightarrow> 'n mem \<Rightarrow> 'n mem option" where
  "store p n m =
     (if p = 0 then None
      else case heap m p of None \<Rightarrow> None | Some _ \<Rightarrow> Some (m\<lparr>heap := (heap m)(p \<mapsto> n)\<rparr>))"

definition free :: "addr \<Rightarrow> 'n mem \<Rightarrow> 'n mem option" where
  "free p m =
     (if p = 0 then Some m
      else case heap m p of None \<Rightarrow> None | Some _ \<Rightarrow> Some (m\<lparr>heap := (heap m)(p := None)\<rparr>))"

definition malloc :: "'n \<Rightarrow> 'n mem \<Rightarrow> addr \<times> 'n mem" where
  "malloc n m =
     (case answers m of
        [] \<Rightarrow> (0, m\<lparr>answers := []\<rparr>)
      | a # as \<Rightarrow>
          if a = 0 \<or> heap m a \<noteq> None then (0, m\<lparr>answers := as\<rparr>)
          else (a, m\<lparr>heap := (heap m)(a \<mapsto> n), answers := as\<rparr>))"

text \<open>
  Blocks that hold one structure or one array are not cells of the heap: such a block is a
  value of the model, and only whether its allocation succeeded matters.
\<close>

definition malloc_block :: "'n mem \<Rightarrow> bool \<times> 'n mem" where
  "malloc_block m =
     (case answers m of [] \<Rightarrow> (False, m) | a # as \<Rightarrow> (a \<noteq> 0, m\<lparr>answers := as\<rparr>))"

lemma load_Some [mem_simps]: "p \<noteq> 0 \<Longrightarrow> heap m p = Some n \<Longrightarrow> load p m = Some n"
  by (simp add: load_def)

lemma store_Some [mem_simps]:
  "p \<noteq> 0 \<Longrightarrow> heap m p = Some n \<Longrightarrow> store p n' m = Some (m\<lparr>heap := (heap m)(p \<mapsto> n')\<rparr>)"
  by (simp add: store_def)

lemma free_Some [mem_simps]:
  "p \<noteq> 0 \<Longrightarrow> heap m p = Some n \<Longrightarrow> free p m = Some (m\<lparr>heap := (heap m)(p := None)\<rparr>)"
  by (simp add: free_def)

lemma load_null [simp]: "load 0 m = None"
  by (simp add: load_def)

lemma store_null [simp]: "store 0 n m = None"
  by (simp add: store_def)

lemma free_null [simp]: "free 0 m = Some m"
  by (simp add: free_def)

lemma heap_update_id [simp]: "m\<lparr>heap := heap m\<rparr> = m"
  by simp

text \<open>
  The two outcomes of an allocation.  Either way the cells in use are unchanged, and a
  returned address was not in use.
\<close>

definition can_alloc :: "'n mem \<Rightarrow> bool" where
  "can_alloc m = (case answers m of [] \<Rightarrow> False | a # _ \<Rightarrow> a \<noteq> 0 \<and> heap m a = None)"

lemma malloc_cases:
  obtains (fail) m' where "malloc n m = (0, m')" "\<not> can_alloc m" "heap m' = heap m"
    "answers m' = tl (answers m)"
  | (ok) a m' where "malloc n m = (a, m')" "can_alloc m" "a = hd (answers m)" "a \<noteq> 0"
    "heap m a = None" "heap m' = (heap m)(a \<mapsto> n)" "answers m' = tl (answers m)"
proof (cases "answers m")
  case Nil
  then have "malloc n m = (0, m\<lparr>answers := []\<rparr>)" "\<not> can_alloc m"
    by (simp_all add: malloc_def can_alloc_def)
  with Nil show ?thesis by (intro fail [of "m\<lparr>answers := []\<rparr>"]) simp_all
next
  case (Cons a as)
  show ?thesis
  proof (cases "a = 0 \<or> heap m a \<noteq> None")
    case True
    then have "malloc n m = (0, m\<lparr>answers := as\<rparr>)" "\<not> can_alloc m"
      using Cons by (auto simp: malloc_def can_alloc_def)
    with Cons show ?thesis by (intro fail [of "m\<lparr>answers := as\<rparr>"]) simp_all
  next
    case False
    then have "malloc n m = (a, m\<lparr>heap := (heap m)(a \<mapsto> n), answers := as\<rparr>)" "can_alloc m"
      using Cons by (auto simp: malloc_def can_alloc_def)
    with Cons False show ?thesis
      by (intro ok [of a "m\<lparr>heap := (heap m)(a \<mapsto> n), answers := as\<rparr>"]) simp_all
  qed
qed

text \<open>
  An allocator that can serve \<open>n\<close> more requests whatever the program frees meanwhile: its
  answers are distinct addresses, none of them in use.
\<close>

definition ample :: "nat \<Rightarrow> 'n mem \<Rightarrow> bool" where
  "ample n m \<longleftrightarrow> n \<le> length (answers m) \<and> distinct (answers m) \<and>
     0 \<notin> set (answers m) \<and> (\<forall>a \<in> set (answers m). heap m a = None)"

lemma ample_can_alloc: "ample (Suc n) m \<Longrightarrow> can_alloc m"
  by (cases "answers m") (auto simp: ample_def can_alloc_def)

lemma ample_alloc:
  "ample (Suc n) m \<Longrightarrow> answers m' = tl (answers m) \<Longrightarrow>
   (\<And>b. b \<noteq> hd (answers m) \<Longrightarrow> heap m b = None \<Longrightarrow> heap m' b = None) \<Longrightarrow> ample n m'"
  by (cases "answers m") (simp_all add: ample_def, metis)

lemma ample_keep:
  "ample n m \<Longrightarrow> answers m' = answers m \<Longrightarrow>
   (\<And>b. heap m b = None \<Longrightarrow> heap m' b = None) \<Longrightarrow> ample n m'"
  by (auto simp: ample_def)

lemma ample_le: "ample n m \<Longrightarrow> k \<le> n \<Longrightarrow> ample k m"
  by (auto simp: ample_def)

section \<open>Singly linked chains\<close>

text \<open>
  \<open>chain nx h p as q\<close>: following the link field \<open>nx\<close> from \<open>p\<close> visits the cells \<open>as\<close>, in that
  order, and arrives at \<open>q\<close>.
\<close>

fun chain :: "('n \<Rightarrow> addr) \<Rightarrow> (addr \<rightharpoonup> 'n) \<Rightarrow> addr \<Rightarrow> addr list \<Rightarrow> addr \<Rightarrow> bool" where
  "chain nx h p [] q \<longleftrightarrow> p = q"
| "chain nx h p (a # as) q \<longleftrightarrow>
     p = a \<and> a \<noteq> 0 \<and> (case h a of None \<Rightarrow> False | Some n \<Rightarrow> chain nx h (nx n) as q)"

lemma chain_Cons:
  "chain nx h p (a # as) q \<longleftrightarrow> p = a \<and> a \<noteq> 0 \<and> (\<exists>n. h a = Some n \<and> chain nx h (nx n) as q)"
  by (auto split: option.splits)

declare chain.simps(2) [simp del]

lemma chain_null [simp]: "chain nx h 0 as 0 \<longleftrightarrow> as = []"
  by (cases as) (auto simp: chain_Cons)

lemma chain_nonnull:
  assumes "chain nx h p as 0" "p \<noteq> 0"
  obtains n as' where "as = p # as'" "h p = Some n" "chain nx h (nx n) as' 0"
  using assms by (cases as) (auto simp: chain_Cons)

lemma chain_append [simp]:
  "chain nx h p (as @ bs) q \<longleftrightarrow> (\<exists>r. chain nx h p as r \<and> chain nx h r bs q)"
  by (induction as arbitrary: p) (auto simp: chain_Cons)

lemma chain_upd [simp, shape_frame]:
  "a \<notin> set as \<Longrightarrow> chain nx (h(a := v)) p as q \<longleftrightarrow> chain nx h p as q"
  by (induction as arbitrary: p) (auto simp: chain_Cons)

lemma chain_cong:
  "(\<And>a. a \<in> set as \<Longrightarrow> h' a = h a) \<Longrightarrow> chain nx h p as q \<Longrightarrow> chain nx h' p as q"
  by (induction as arbitrary: p) (auto simp: chain_Cons)

lemma chain_upd_same_link [shape_frame]:
  "chain nx h p as q \<Longrightarrow> h a = Some n \<Longrightarrow> nx n' = nx n \<Longrightarrow> chain nx (h(a \<mapsto> n')) p as q"
  by (induction as arbitrary: p) (auto simp: chain_Cons)

lemma chain_in_heap: "chain nx h p as q \<Longrightarrow> a \<in> set as \<Longrightarrow> \<exists>n. h a = Some n"
  by (induction as arbitrary: p) (auto simp: chain_Cons)

lemma chain_fresh: "chain nx h p as q \<Longrightarrow> h a = None \<Longrightarrow> a \<notin> set as"
  by (auto dest: chain_in_heap)

lemma chain_not_null: "chain nx h p as q \<Longrightarrow> 0 \<notin> set as"
  by (induction as arbitrary: p) (auto simp: chain_Cons)

lemma chain_unique: "chain nx h p as 0 \<Longrightarrow> chain nx h p bs 0 \<Longrightarrow> as = bs"
proof (induction as arbitrary: p bs)
  case Nil
  then show ?case by (cases bs) (auto simp: chain_Cons)
next
  case (Cons a as)
  then show ?case by (cases bs) (auto simp: chain_Cons)
qed

lemma chain_upd_last:
  assumes "chain nx h p (as @ [a]) q" "a \<notin> set as" "nx n' = q'"
  shows "chain nx (h(a \<mapsto> n')) p (as @ [a]) q'"
  using assms by (auto simp: chain_Cons)

lemma chain_distinct: "chain nx h p as 0 \<Longrightarrow> distinct as"
proof (induction as arbitrary: p)
  case Nil
  show ?case by simp
next
  case (Cons a as)
  then obtain n where n: "h a = Some n" "chain nx h (nx n) as 0" and a: "a \<noteq> 0"
    by (auto simp: chain_Cons)
  have "a \<notin> set as"
  proof
    assume "a \<in> set as"
    then obtain us vs where as: "as = us @ a # vs" by (auto simp: in_set_conv_decomp)
    with n have "chain nx h (nx n) vs 0" by (auto simp: chain_Cons)
    with n(2) have "as = vs" by (rule chain_unique)
    with as show False by simp
  qed
  with Cons.IH n show ?case by auto
qed

text \<open>The list of values held by a list of cells.\<close>

definition datas :: "('n \<Rightarrow> 'v) \<Rightarrow> (addr \<rightharpoonup> 'n) \<Rightarrow> addr list \<Rightarrow> 'v list" where
  "datas f h as = map (\<lambda>a. f (the (h a))) as"

lemma datas_simps [simp]:
  "datas f h [] = []"
  "datas f h (a # as) = f (the (h a)) # datas f h as"
  "datas f h (as @ bs) = datas f h as @ datas f h bs"
  "length (datas f h as) = length as"
  by (simp_all add: datas_def)

lemma datas_empty [simp]: "datas f h as = [] \<longleftrightarrow> as = []"
  by (simp add: datas_def)

lemma datas_upd [simp, shape_frame]: "a \<notin> set as \<Longrightarrow> datas f (h(a := v)) as = datas f h as"
  by (induction as) auto

lemma datas_upd_same [shape_frame]:
  "h a = Some n \<Longrightarrow> f n' = f n \<Longrightarrow> datas f (h(a \<mapsto> n')) as = datas f h as"
  by (induction as) auto

lemma datas_cong: "(\<And>a. a \<in> set as \<Longrightarrow> h' a = h a) \<Longrightarrow> datas f h' as = datas f h as"
  by (simp add: datas_def)

text \<open>
  \<open>relinked f A m m'\<close>: between the two memories only the links of the cells \<open>A\<close> changed; the
  field \<open>f\<close> of every cell is what it was.
\<close>

definition relinked :: "('n \<Rightarrow> 'v) \<Rightarrow> addr set \<Rightarrow> 'n mem \<Rightarrow> 'n mem \<Rightarrow> bool" where
  "relinked f A m m' \<longleftrightarrow> answers m' = answers m \<and> (\<forall>b. b \<notin> A \<longrightarrow> heap m' b = heap m b) \<and>
     (\<forall>b. map_option f (heap m' b) = map_option f (heap m b))"

lemma relinked_refl [simp]: "relinked f A m m"
  by (simp add: relinked_def)

lemma relinked_trans:
  "relinked f A m m' \<Longrightarrow> relinked f B m' m'' \<Longrightarrow> A \<subseteq> C \<Longrightarrow> B \<subseteq> C \<Longrightarrow> relinked f C m m''"
  unfolding relinked_def by (metis subsetD)

lemma relinked_mono: "relinked f A m m' \<Longrightarrow> A \<subseteq> B \<Longrightarrow> relinked f B m m'"
  unfolding relinked_def by blast

lemma relinked_store:
  "heap m a = Some n \<Longrightarrow> f n' = f n \<Longrightarrow> a \<in> A \<Longrightarrow>
   relinked f A m (m\<lparr>heap := (heap m)(a \<mapsto> n')\<rparr>)"
  by (auto simp: relinked_def)

lemma relinked_answers: "relinked f A m m' \<Longrightarrow> answers m' = answers m"
  by (simp add: relinked_def)

lemma relinked_frame: "relinked f A m m' \<Longrightarrow> b \<notin> A \<Longrightarrow> heap m' b = heap m b"
  by (simp add: relinked_def)

lemma relinked_None: "relinked f A m m' \<Longrightarrow> heap m' b = None \<longleftrightarrow> heap m b = None"
  unfolding relinked_def by (metis option.map_disc_iff)

lemma relinked_field: "relinked f A m m' \<Longrightarrow> heap m b = Some n \<Longrightarrow> \<exists>n'. heap m' b = Some n' \<and> f n' = f n"
  unfolding relinked_def by (metis map_option_eq_Some)

lemma datas_same_field:
  assumes "\<And>b. b \<in> set as \<Longrightarrow> map_option f (h' b) = map_option f (h b)" "set as \<subseteq> dom h"
  shows "datas f h' as = datas f h as"
  unfolding datas_def
proof (rule map_cong [OF refl])
  fix b assume "b \<in> set as"
  with assms have "map_option f (h' b) = map_option f (h b)" "h b \<noteq> None" by auto
  then show "f (the (h' b)) = f (the (h b))"
    by (cases "h b"; cases "h' b") auto
qed

lemma relinked_key: "relinked f A m m' \<Longrightarrow> f (the (heap m' b)) = f (the (heap m b))"
  unfolding relinked_def by (cases "heap m b"; cases "heap m' b") (auto dest: spec [where x = b])

lemma relinked_datas:
  "relinked f A m m' \<Longrightarrow> set as \<subseteq> dom (heap m) \<Longrightarrow> datas f (heap m') as = datas f (heap m) as"
  by (rule datas_same_field) (simp_all add: relinked_def)

lemma relinked_chain:
  "relinked f A m m' \<Longrightarrow> set as \<inter> A = {} \<Longrightarrow> chain nx (heap m) p as q \<Longrightarrow> chain nx (heap m') p as q"
  by (rule chain_cong) (auto simp: relinked_def)

lemma chain_dom: "chain nx h p as q \<Longrightarrow> set as \<subseteq> dom h"
  by (auto dest: chain_in_heap)

section \<open>Doubly linked segments\<close>

text \<open>
  \<open>dseg nx pv h r p as l q\<close>: from \<open>p\<close>, the cells \<open>as\<close> are linked in both directions; the first
  one points back to \<open>r\<close>, the last one is \<open>l\<close> (\<open>r\<close> itself for the empty segment) and points
  forward to \<open>q\<close>.
\<close>

fun dseg ::
  "('n \<Rightarrow> addr) \<Rightarrow> ('n \<Rightarrow> addr) \<Rightarrow> (addr \<rightharpoonup> 'n) \<Rightarrow> addr \<Rightarrow> addr \<Rightarrow> addr list \<Rightarrow> addr \<Rightarrow> addr \<Rightarrow> bool"
where
  "dseg nx pv h r p [] l q \<longleftrightarrow> p = q \<and> l = r"
| "dseg nx pv h r p (a # as) l q \<longleftrightarrow>
     p = a \<and> a \<noteq> 0 \<and>
     (case h a of None \<Rightarrow> False | Some n \<Rightarrow> pv n = r \<and> dseg nx pv h a (nx n) as l q)"

lemma dseg_Cons:
  "dseg nx pv h r p (a # as) l q \<longleftrightarrow>
     p = a \<and> a \<noteq> 0 \<and> (\<exists>n. h a = Some n \<and> pv n = r \<and> dseg nx pv h a (nx n) as l q)"
  by (auto split: option.splits)

declare dseg.simps(2) [simp del]

lemma dseg_append [simp]:
  "dseg nx pv h r p (as @ bs) l q \<longleftrightarrow>
     (\<exists>k s. dseg nx pv h r p as k s \<and> dseg nx pv h k s bs l q)"
  by (induction as arbitrary: r p) (auto simp: dseg_Cons)

lemma dseg_snoc:
  "dseg nx pv h r p (as @ [a]) l q \<longleftrightarrow>
     l = a \<and> a \<noteq> 0 \<and> (\<exists>n. h a = Some n \<and> nx n = q \<and> dseg nx pv h r p as (pv n) a)"
  by (auto simp: dseg_Cons)

lemma dseg_upd [simp, shape_frame]:
  "a \<notin> set as \<Longrightarrow> dseg nx pv (h(a := v)) r p as l q \<longleftrightarrow> dseg nx pv h r p as l q"
  by (induction as arbitrary: r p) (auto simp: dseg_Cons)

lemma dseg_cong:
  "(\<And>a. a \<in> set as \<Longrightarrow> h' a = h a) \<Longrightarrow> dseg nx pv h r p as l q \<Longrightarrow> dseg nx pv h' r p as l q"
  by (induction as arbitrary: r p) (auto simp: dseg_Cons)

lemma relinked_dseg:
  "relinked f A m m' \<Longrightarrow> set as \<inter> A = {} \<Longrightarrow> dseg nx pv (heap m) r p as l q \<Longrightarrow>
   dseg nx pv (heap m') r p as l q"
  by (rule dseg_cong) (auto simp: relinked_def)

lemma dseg_chain: "dseg nx pv h r p as l q \<Longrightarrow> chain nx h p as q"
  by (induction as arbitrary: r p) (auto simp: dseg_Cons chain_Cons)

lemma dseg_distinct: "dseg nx pv h r p as l 0 \<Longrightarrow> distinct as"
  by (blast dest: dseg_chain chain_distinct)

lemma dseg_fresh: "dseg nx pv h r p as l q \<Longrightarrow> h a = None \<Longrightarrow> a \<notin> set as"
  by (blast dest: dseg_chain chain_fresh)

lemma dseg_not_null: "dseg nx pv h r p as l q \<Longrightarrow> 0 \<notin> set as"
  by (blast dest: dseg_chain chain_not_null)

lemma dseg_null [simp]: "dseg nx pv h r 0 as l 0 \<longleftrightarrow> as = [] \<and> l = r"
  by (cases as) (auto simp: dseg_Cons)

text \<open>The last cell of a segment that ends in a cell other than where it starts from.\<close>

lemma dseg_last:
  assumes "dseg nx pv h r p as l q" "as \<noteq> []"
  obtains n as' where "as = as' @ [l]" "l \<noteq> 0" "h l = Some n" "nx n = q"
    "dseg nx pv h r p as' (pv n) l"
  using assms by (cases as rule: rev_cases) (auto simp: dseg_snoc simp del: dseg_append)

lemma dseg_nonempty: "dseg nx pv h r p as l 0 \<Longrightarrow> p \<noteq> 0 \<longleftrightarrow> as \<noteq> []"
  by (cases as) (auto simp: dseg_Cons)

lemma dseg_tail_nonempty: "dseg nx pv h 0 p as l q \<Longrightarrow> l \<noteq> 0 \<longleftrightarrow> as \<noteq> []"
  by (cases as rule: rev_cases) (auto simp: dseg_snoc simp del: dseg_append)

text \<open>Updating the back link of the first cell, or the forward link of the last one.\<close>

lemma dseg_upd_first:
  assumes "dseg nx pv h r p as l q" "as \<noteq> []" "distinct as" "h p = Some n"
    "nx n' = nx n" "pv n' = r'"
  shows "dseg nx pv (h(p \<mapsto> n')) r' p as l q"
  using assms by (cases as) (auto simp: dseg_Cons)

lemma dseg_upd_last:
  assumes "dseg nx pv h r p as l q" "as \<noteq> []" "distinct as" "h l = Some n"
    "nx n' = q'" "pv n' = pv n"
  shows "dseg nx pv (h(l \<mapsto> n')) r p as l q'"
  using assms by (cases as rule: rev_cases) (auto simp: dseg_snoc simp del: dseg_append)

section \<open>Comparison results\<close>

text \<open>
  A C comparison function returns an \<open>int\<close>, here an integer in the range of that type.
  Negating the least one wraps around to itself.
\<close>

definition c_neg :: "int \<Rightarrow> int" where
  "c_neg x = (if x = - (2 ^ 31) then x else - x)"

lemma c_neg_simps [simp]: "x \<noteq> - (2 ^ 31) \<Longrightarrow> c_neg x = - x"
  by (simp add: c_neg_def)

section \<open>Ownership\<close>

text \<open>
  A structure that owns the cells \<open>as\<close> of the memory: what is left without them is the heap
  \<open>h\<close>, which no operation on the structure touches.
\<close>

definition owned :: "(addr \<rightharpoonup> 'n) \<Rightarrow> 'n mem \<Rightarrow> addr set \<Rightarrow> bool" where
  "owned h m A \<longleftrightarrow> (\<forall>b. h b = (if b \<in> A then None else heap m b))"

lemma owned_empty [simp]: "owned h m {} \<longleftrightarrow> heap m = h"
  by (auto simp: owned_def)

text \<open>
  Together with an allocator that can serve \<open>n\<close> more requests; the cells \<open>A\<close> are in use.  An
  operation allocates the next answer, or frees some of the cells and rewrites others.
\<close>

definition serves :: "(addr \<rightharpoonup> 'n) \<Rightarrow> nat \<Rightarrow> 'n mem \<Rightarrow> addr set \<Rightarrow> bool" where
  "serves h n m A \<longleftrightarrow> ample n m \<and> owned h m A \<and> A \<subseteq> dom (heap m)"

lemma serves_le: "serves h n m A \<Longrightarrow> k \<le> n \<Longrightarrow> serves h k m A"
  by (auto simp: serves_def intro: ample_le)

lemma serves_can_alloc: "serves h (Suc n) m A \<Longrightarrow> can_alloc m"
  by (auto simp: serves_def intro: ample_can_alloc)

lemma serves_alloc:
  assumes s: "serves h (Suc n) m A" and ans: "answers m' = tl (answers m)"
    and frame: "\<And>b. b \<notin> insert (hd (answers m)) A \<Longrightarrow> heap m' b = heap m b"
    and used: "insert (hd (answers m)) A \<subseteq> dom (heap m')"
  shows "serves h n m' (insert (hd (answers m)) A)"
proof -
  have am: "ample (Suc n) m" and own: "owned h m A" and A: "A \<subseteq> dom (heap m)"
    using s by (auto simp: serves_def)
  have fresh: "heap m (hd (answers m)) = None"
    using am by (cases "answers m") (auto simp: ample_def)
  have "ample n m'"
    by (rule ample_alloc [OF am ans]) (metis A domIff frame insert_iff subsetD)
  moreover have "owned h m' (insert (hd (answers m)) A)"
    using own fresh frame by (auto simp: owned_def)
  ultimately show ?thesis using used by (simp add: serves_def)
qed

lemma serves_free:
  assumes s: "serves h n m A" and ans: "answers m' = answers m"
    and frame: "\<And>b. b \<notin> A \<Longrightarrow> heap m' b = heap m b"
    and freed: "\<And>b. b \<in> D \<Longrightarrow> heap m' b = None" and used: "A - D \<subseteq> dom (heap m')"
  shows "serves h n m' (A - D)"
proof -
  have am: "ample n m" and own: "owned h m A" and A: "A \<subseteq> dom (heap m)"
    using s by (auto simp: serves_def)
  have "ample n m'"
    by (rule ample_keep [OF am ans]) (metis A domIff frame subsetD)
  moreover have "owned h m' (A - D)"
    using own freed frame by (auto simp: owned_def)
  ultimately show ?thesis using used by (simp add: serves_def)
qed

lemma serves_relinked:
  assumes "serves h n m A" "relinked f A m m'"
  shows "serves h n m' A"
proof -
  have "A \<subseteq> dom (heap m')"
    using assms relinked_None [OF assms(2)] by (auto simp: serves_def dom_def)
  with serves_free [of h n m A m' "{}"] assms show ?thesis
    by (simp add: relinked_answers relinked_frame)
qed

lemma serves_block:
  assumes "serves h (Suc n) m A"
  shows "fst (malloc_block m)" "serves h n (snd (malloc_block m)) A"
  using assms by (cases "answers m"; auto simp: malloc_block_def serves_def ample_def owned_def)+

lemma serves_release:
  assumes "serves h n m A" "heap m' = (\<lambda>b. if b \<in> A then None else heap m b)"
  shows "heap m' = h"
  using assms by (auto simp: serves_def owned_def fun_eq_iff)

section \<open>Sequences of operations\<close>

text \<open>
  An interface of the code is a type of operations.  \<open>run step ops s\<close> performs a sequence of
  them on the implementation, \<open>spec_run spec ops a\<close> on the abstract data type; both collect
  the results.
\<close>

primrec run :: "('o \<Rightarrow> 's \<Rightarrow> ('r \<times> 's) option) \<Rightarrow> 'o list \<Rightarrow> 's \<Rightarrow> ('r list \<times> 's) option" where
  "run step [] s = Some ([], s)"
| "run step (x # xs) s = do {
     (r, s) \<leftarrow> step x s;
     (rs, s) \<leftarrow> run step xs s;
     Some (r # rs, s)
   }"

primrec spec_run :: "('o \<Rightarrow> 'a \<Rightarrow> 'r \<times> 'a) \<Rightarrow> 'o list \<Rightarrow> 'a \<Rightarrow> 'r list \<times> 'a" where
  "spec_run spec [] a = ([], a)"
| "spec_run spec (x # xs) a =
     (let (r, a) = spec x a; (rs, a) = spec_run spec xs a in (r # rs, a))"

text \<open>
  The contract between an implementation and its abstract data type: \<open>rep n s a\<close> says that
  the state \<open>s\<close> represents \<open>a\<close> and that the environment can serve \<open>n\<close> more operations.  In the
  first form the contract holds for the calls that satisfy \<open>pre\<close>, in the second for all.
\<close>

locale guarded_refinement =
  fixes step :: "'o \<Rightarrow> 's \<Rightarrow> ('r \<times> 's) option"
    and spec :: "'o \<Rightarrow> 'a \<Rightarrow> 'r \<times> 'a"
    and pre :: "'o \<Rightarrow> bool"
    and rep :: "nat \<Rightarrow> 's \<Rightarrow> 'a \<Rightarrow> bool"
  assumes guarded_step: "rep (Suc n) s a \<Longrightarrow> pre x \<Longrightarrow>
    \<exists>s'. step x s = Some (fst (spec x a), s') \<and> rep n s' (snd (spec x a))"
begin

lemma guarded_run:
  "rep (length xs + n) s a \<Longrightarrow> list_all pre xs \<Longrightarrow>
   \<exists>s'. run step xs s = Some (fst (spec_run spec xs a), s') \<and> rep n s' (snd (spec_run spec xs a))"
proof (induction xs arbitrary: s a)
  case Nil
  then show ?case by simp
next
  case (Cons x xs)
  from Cons.prems obtain s1 where s1: "step x s = Some (fst (spec x a), s1)"
    "rep (length xs + n) s1 (snd (spec x a))"
    using guarded_step [of "length xs + n" s a x] by auto
  from Cons.IH [OF s1(2)] Cons.prems(2) obtain s2 where
    "run step xs s1 = Some (fst (spec_run spec xs (snd (spec x a))), s2)"
    "rep n s2 (snd (spec_run spec xs (snd (spec x a))))" by auto
  with s1 show ?case by (simp add: split_beta)
qed

end

locale adt_refinement =
  fixes step :: "'o \<Rightarrow> 's \<Rightarrow> ('r \<times> 's) option"
    and spec :: "'o \<Rightarrow> 'a \<Rightarrow> 'r \<times> 'a"
    and rep :: "nat \<Rightarrow> 's \<Rightarrow> 'a \<Rightarrow> bool"
  assumes step_refines:
    "rep (Suc n) s a \<Longrightarrow> \<exists>s'. step x s = Some (fst (spec x a), s') \<and> rep n s' (snd (spec x a))"

sublocale adt_refinement \<subseteq> guarded_refinement step spec "\<lambda>_. True" rep
  by unfold_locales (rule step_refines)

context adt_refinement
begin

lemma run_refines:
  "rep (length xs + n) s a \<Longrightarrow>
   \<exists>s'. run step xs s = Some (fst (spec_run spec xs a), s') \<and> rep n s' (snd (spec_run spec xs a))"
  by (rule guarded_run) (simp_all add: list_all_iff)

lemma run_returns: "rep (length xs) s a \<Longrightarrow> run step xs s \<noteq> None"
  using run_refines [of xs 0 s a] by auto

end

text \<open>
  The contract with an abstract data type that leaves choices open: \<open>spec x a r a'\<close> says that the
  operation \<open>x\<close> may answer \<open>r\<close> and turn \<open>a\<close> into \<open>a'\<close>.
\<close>

primrec spec_runs :: "('o \<Rightarrow> 'a \<Rightarrow> 'r \<Rightarrow> 'a \<Rightarrow> bool) \<Rightarrow> 'o list \<Rightarrow> 'a \<Rightarrow> 'r list \<Rightarrow> 'a \<Rightarrow> bool" where
  "spec_runs spec [] a rs b \<longleftrightarrow> rs = [] \<and> b = a"
| "spec_runs spec (x # xs) a rs b \<longleftrightarrow>
     (\<exists>r rs' a'. rs = r # rs' \<and> spec x a r a' \<and> spec_runs spec xs a' rs' b)"

locale relational_refinement =
  fixes step :: "'o \<Rightarrow> 's \<Rightarrow> ('r \<times> 's) option"
    and spec :: "'o \<Rightarrow> 'a \<Rightarrow> 'r \<Rightarrow> 'a \<Rightarrow> bool"
    and rep :: "nat \<Rightarrow> 's \<Rightarrow> 'a \<Rightarrow> bool"
  assumes related_step:
    "rep (Suc n) s a \<Longrightarrow> \<exists>r s' a'. step x s = Some (r, s') \<and> spec x a r a' \<and> rep n s' a'"
begin

lemma related_run:
  "rep (length xs + n) s a \<Longrightarrow>
   \<exists>rs s' b. run step xs s = Some (rs, s') \<and> spec_runs spec xs a rs b \<and> rep n s' b"
proof (induction xs arbitrary: s a)
  case Nil
  then show ?case by auto
next
  case (Cons x xs)
  from Cons.prems obtain r s1 a1 where s1: "step x s = Some (r, s1)" "spec x a r a1" "rep (length xs + n) s1 a1"
    using related_step [of "length xs + n" s a x] by auto
  from Cons.IH [OF s1(3)] obtain rs s2 b where "run step xs s1 = Some (rs, s2)" "spec_runs spec xs a1 rs b" "rep n s2 b"
    by blast
  with s1 show ?case by (intro exI [of _ "r # rs"] exI [of _ s2] exI [of _ b]) auto
qed

end

end
