(* ===== verification/Queue.thy ===== *)
theory Queue
  imports Prelude
begin

text \<open>
  The double-ended queue of \<open>libcalg/src/queue.c\<close>: a list of entries linked in both
  directions, with a pointer to each end.  Every function of the file is a definition here;
  the entries live in the heap, the \<open>Queue\<close> structure is the record \<open>queue\<close> that an operation
  takes and returns.
\<close>

section \<open>The code\<close>

record queue_entry =
  qe_data :: val
  qe_prev :: addr
  qe_next :: addr

record queue =
  q_head :: addr
  q_tail :: addr

type_synonym qmem = "queue_entry mem"

definition queue_new :: "qmem \<Rightarrow> queue option \<times> qmem" where
  "queue_new m =
     (let (ok, m) = malloc_block m
      in if ok then (Some \<lparr>q_head = 0, q_tail = 0\<rparr>, m) else (None, m))"

definition queue_is_empty :: "queue \<Rightarrow> bool" where
  "queue_is_empty queue \<longleftrightarrow> q_head queue = 0"

definition queue_push_head :: "queue \<Rightarrow> val \<Rightarrow> qmem \<Rightarrow> (bool \<times> queue \<times> qmem) option" where
  "queue_push_head queue data m =
     (let (new_entry, m) = malloc \<lparr>qe_data = data, qe_prev = 0, qe_next = q_head queue\<rparr> m
      in if new_entry = 0 then Some (False, queue, m)
         else if q_head queue = 0
         then Some (True, queue\<lparr>q_head := new_entry, q_tail := new_entry\<rparr>, m)
         else do {
           e \<leftarrow> load (q_head queue) m;
           m \<leftarrow> store (q_head queue) (e\<lparr>qe_prev := new_entry\<rparr>) m;
           Some (True, queue\<lparr>q_head := new_entry\<rparr>, m)
         })"

definition queue_pop_head :: "queue \<Rightarrow> qmem \<Rightarrow> (val \<times> queue \<times> qmem) option" where
  "queue_pop_head queue m =
     (if queue_is_empty queue then Some (0, queue, m)
      else do {
        let entry = q_head queue;
        e \<leftarrow> load entry m;
        let queue = queue\<lparr>q_head := qe_next e\<rparr>;
        let result = qe_data e;
        (queue, m) \<leftarrow>
          (if q_head queue = 0 then Some (queue\<lparr>q_tail := 0\<rparr>, m)
           else do {
             f \<leftarrow> load (q_head queue) m;
             m \<leftarrow> store (q_head queue) (f\<lparr>qe_prev := 0\<rparr>) m;
             Some (queue, m)
           });
        m \<leftarrow> free entry m;
        Some (result, queue, m)
      })"

definition queue_peek_head :: "queue \<Rightarrow> qmem \<Rightarrow> val option" where
  "queue_peek_head queue m =
     (if queue_is_empty queue then Some 0
      else do { e \<leftarrow> load (q_head queue) m; Some (qe_data e) })"

definition queue_push_tail :: "queue \<Rightarrow> val \<Rightarrow> qmem \<Rightarrow> (bool \<times> queue \<times> qmem) option" where
  "queue_push_tail queue data m =
     (let (new_entry, m) = malloc \<lparr>qe_data = data, qe_prev = q_tail queue, qe_next = 0\<rparr> m
      in if new_entry = 0 then Some (False, queue, m)
         else if q_tail queue = 0
         then Some (True, queue\<lparr>q_head := new_entry, q_tail := new_entry\<rparr>, m)
         else do {
           e \<leftarrow> load (q_tail queue) m;
           m \<leftarrow> store (q_tail queue) (e\<lparr>qe_next := new_entry\<rparr>) m;
           Some (True, queue\<lparr>q_tail := new_entry\<rparr>, m)
         })"

definition queue_pop_tail :: "queue \<Rightarrow> qmem \<Rightarrow> (val \<times> queue \<times> qmem) option" where
  "queue_pop_tail queue m =
     (if queue_is_empty queue then Some (0, queue, m)
      else do {
        let entry = q_tail queue;
        e \<leftarrow> load entry m;
        let queue = queue\<lparr>q_tail := qe_prev e\<rparr>;
        let result = qe_data e;
        (queue, m) \<leftarrow>
          (if q_tail queue = 0 then Some (queue\<lparr>q_head := 0\<rparr>, m)
           else do {
             f \<leftarrow> load (q_tail queue) m;
             m \<leftarrow> store (q_tail queue) (f\<lparr>qe_next := 0\<rparr>) m;
             Some (queue, m)
           });
        m \<leftarrow> free entry m;
        Some (result, queue, m)
      })"

definition queue_peek_tail :: "queue \<Rightarrow> qmem \<Rightarrow> val option" where
  "queue_peek_tail queue m =
     (if queue_is_empty queue then Some 0
      else do { e \<leftarrow> load (q_tail queue) m; Some (qe_data e) })"

text \<open>The loop of \<open>queue_free\<close>; the queue structure itself is a block and disappears with it.\<close>

partial_function (option) queue_free :: "queue \<Rightarrow> qmem \<Rightarrow> qmem option" where
  "queue_free queue m =
     (if queue_is_empty queue then Some m
      else do {
        (_, queue, m) \<leftarrow> queue_pop_head queue m;
        queue_free queue m
      })"

section \<open>What a queue in memory represents\<close>

definition queue_rep :: "qmem \<Rightarrow> queue \<Rightarrow> addr list \<Rightarrow> val list \<Rightarrow> bool" where
  "queue_rep m q as xs \<longleftrightarrow>
     dseg qe_next qe_prev (heap m) 0 (q_head q) as (q_tail q) 0 \<and> datas qe_data (heap m) as = xs"

lemma queue_rep_length: "queue_rep m q as xs \<Longrightarrow> length xs = length as"
  by (auto simp: queue_rep_def)

lemma queue_rep_distinct: "queue_rep m q as xs \<Longrightarrow> distinct as"
  by (auto simp: queue_rep_def dest: dseg_distinct)

lemma queue_rep_used: "queue_rep m q as xs \<Longrightarrow> b \<in> set as \<Longrightarrow> heap m b \<noteq> None"
  by (auto simp: queue_rep_def dest: dseg_fresh)

lemma queue_is_empty_rep: "queue_rep m q as xs \<Longrightarrow> queue_is_empty q \<longleftrightarrow> xs = []"
  by (cases as) (auto simp: queue_rep_def queue_is_empty_def dseg_Cons)

lemma queue_new_spec:
  "queue_new m = (r, m') \<Longrightarrow> heap m' = heap m \<and> (case r of None \<Rightarrow> True | Some q \<Rightarrow> queue_rep m' q [] [])"
  by (auto simp: queue_new_def malloc_block_def queue_rep_def split: list.splits if_splits)

text \<open>Each operation: it returns, and it does to the represented list what its name says.\<close>

lemma queue_push_head_spec:
  assumes rep: "queue_rep m q as xs"
  shows "\<exists>q' m'. queue_push_head q x m = Some (can_alloc m, q', m') \<and>
    answers m' = tl (answers m) \<and>
    (if can_alloc m
     then queue_rep m' q' (hd (answers m) # as) (x # xs) \<and>
       (\<forall>b. b \<notin> set (hd (answers m) # as) \<longrightarrow> heap m' b = heap m b)
     else q' = q \<and> heap m' = heap m)"
proof (cases rule: malloc_cases [of "\<lparr>qe_data = x, qe_prev = 0, qe_next = q_head q\<rparr>" m])
  case (fail m')
  then show ?thesis by (auto simp: queue_push_head_def)
next
  case (ok a m')
  show ?thesis
  proof (cases as)
    case Nil
    with ok rep show ?thesis
      by (auto simp: queue_push_head_def queue_rep_def dseg_Cons)
  next
    case (Cons b bs)
    with rep obtain e where b: "q_head q = b" "b \<noteq> 0" "heap m b = Some e" "qe_prev e = 0"
      and bs: "dseg qe_next qe_prev (heap m) b (qe_next e) bs (q_tail q) 0"
      by (auto simp: queue_rep_def dseg_Cons)
    have "distinct as" using rep by (rule queue_rep_distinct)
    moreover have "a \<notin> set as"
      using rep ok(5) by (auto simp: queue_rep_def dest: dseg_fresh)
    ultimately show ?thesis
      using ok b bs rep Cons
      by (auto simp: queue_push_head_def queue_rep_def dseg_Cons mem_simps)
  qed
qed

lemma queue_push_tail_spec:
  assumes rep: "queue_rep m q as xs"
  shows "\<exists>q' m'. queue_push_tail q x m = Some (can_alloc m, q', m') \<and>
    answers m' = tl (answers m) \<and>
    (if can_alloc m
     then queue_rep m' q' (as @ [hd (answers m)]) (xs @ [x]) \<and>
       (\<forall>b. b \<notin> set (hd (answers m) # as) \<longrightarrow> heap m' b = heap m b)
     else q' = q \<and> heap m' = heap m)"
proof (cases rule: malloc_cases [of "\<lparr>qe_data = x, qe_prev = q_tail q, qe_next = 0\<rparr>" m])
  case (fail m')
  then show ?thesis by (auto simp: queue_push_tail_def)
next
  case (ok a m')
  show ?thesis
  proof (cases as rule: rev_cases)
    case Nil
    with ok rep show ?thesis
      by (auto simp: queue_push_tail_def queue_rep_def dseg_Cons)
  next
    case (snoc bs b)
    with rep obtain e where b: "q_tail q = b" "b \<noteq> 0" "heap m b = Some e" "qe_next e = 0"
      and bs: "dseg qe_next qe_prev (heap m) 0 (q_head q) bs (qe_prev e) b"
      by (auto simp: queue_rep_def dseg_snoc simp del: dseg_append)
    have "distinct as" using rep by (rule queue_rep_distinct)
    moreover have "a \<notin> set as"
      using rep ok(5) by (auto simp: queue_rep_def dest: dseg_fresh)
    ultimately show ?thesis
      using ok b bs rep snoc
      by (auto simp: queue_push_tail_def queue_rep_def dseg_Cons mem_simps)
  qed
qed

lemma queue_pop_head_empty: "queue_rep m q as [] \<Longrightarrow> queue_pop_head q m = Some (0, q, m)"
  by (simp add: queue_pop_head_def queue_is_empty_rep)

lemma queue_pop_head_spec:
  assumes rep: "queue_rep m q (a # as) (x # xs)"
  shows "\<exists>q' m'. queue_pop_head q m = Some (x, q', m') \<and> queue_rep m' q' as xs \<and>
    heap m' a = None \<and> answers m' = answers m \<and> (\<forall>b. b \<notin> set (a # as) \<longrightarrow> heap m' b = heap m b)"
proof -
  from rep obtain e where a: "q_head q = a" "a \<noteq> 0" "heap m a = Some e"
    and as: "dseg qe_next qe_prev (heap m) a (qe_next e) as (q_tail q) 0"
    by (auto simp: queue_rep_def dseg_Cons)
  have dist: "distinct (a # as)" using rep by (rule queue_rep_distinct)
  show ?thesis
  proof (cases as)
    case Nil
    with a as rep show ?thesis
      by (auto simp: queue_pop_head_def queue_is_empty_def queue_rep_def mem_simps)
  next
    case (Cons b bs)
    with as obtain f where b: "qe_next e = b" "b \<noteq> 0" "heap m b = Some f" "qe_prev f = a"
      and bs: "dseg qe_next qe_prev (heap m) b (qe_next f) bs (q_tail q) 0"
      by (auto simp: dseg_Cons)
    show ?thesis
      using a b bs rep Cons dist
      by (auto simp: queue_pop_head_def queue_is_empty_def queue_rep_def dseg_Cons mem_simps)
  qed
qed

lemma queue_pop_tail_empty: "queue_rep m q as [] \<Longrightarrow> queue_pop_tail q m = Some (0, q, m)"
  by (simp add: queue_pop_tail_def queue_is_empty_rep)

lemma queue_pop_tail_spec:
  assumes rep: "queue_rep m q (as @ [a]) (xs @ [x])"
  shows "\<exists>q' m'. queue_pop_tail q m = Some (x, q', m') \<and> queue_rep m' q' as xs \<and>
    heap m' a = None \<and> answers m' = answers m \<and> (\<forall>b. b \<notin> set (a # as) \<longrightarrow> heap m' b = heap m b)"
proof -
  from rep obtain e where a: "q_tail q = a" "a \<noteq> 0" "heap m a = Some e" "qe_next e = 0"
    and as: "dseg qe_next qe_prev (heap m) 0 (q_head q) as (qe_prev e) a"
    by (auto simp: queue_rep_def dseg_snoc simp del: dseg_append)
  have dist: "distinct (as @ [a])" using rep by (rule queue_rep_distinct)
  have ne: "q_head q \<noteq> 0" using queue_is_empty_rep [OF rep] by (simp add: queue_is_empty_def)
  show ?thesis
  proof (cases as rule: rev_cases)
    case Nil
    with a as ne rep show ?thesis
      by (auto simp: queue_pop_tail_def queue_is_empty_def queue_rep_def mem_simps)
  next
    case (snoc bs b)
    with as obtain f where b: "qe_prev e = b" "b \<noteq> 0" "heap m b = Some f" "qe_next f = a"
      and bs: "dseg qe_next qe_prev (heap m) 0 (q_head q) bs (qe_prev f) b"
      by (auto simp: dseg_snoc simp del: dseg_append)
    show ?thesis
      using a b bs rep snoc dist ne
      by (auto simp: queue_pop_tail_def queue_is_empty_def queue_rep_def dseg_Cons mem_simps)
  qed
qed

lemma queue_peek_head_spec:
  "queue_rep m q as xs \<Longrightarrow> queue_peek_head q m = Some (case xs of [] \<Rightarrow> 0 | x # _ \<Rightarrow> x)"
  by (cases as)
    (auto simp: queue_peek_head_def queue_is_empty_def queue_rep_def dseg_Cons mem_simps)

lemma queue_peek_tail_spec:
  "queue_rep m q as xs \<Longrightarrow> queue_peek_tail q m = Some (if xs = [] then 0 else last xs)"
  using queue_is_empty_rep [of m q as xs]
  by (cases as rule: rev_cases)
    (auto simp: queue_peek_tail_def queue_rep_def dseg_snoc mem_simps simp del: dseg_append)

text \<open>Freeing a queue gives back exactly its entries.\<close>

lemma queue_free_spec:
  "queue_rep m q as xs \<Longrightarrow>
   \<exists>m'. queue_free q m = Some m' \<and> heap m' = (\<lambda>b. if b \<in> set as then None else heap m b)"
proof (induction as arbitrary: m q xs)
  case Nil
  then show ?case
    by (subst queue_free.simps) (simp add: queue_is_empty_def queue_rep_def)
next
  case (Cons a as)
  from Cons.prems obtain x xs' where xs: "xs = x # xs'"
    by (cases xs) (auto simp: queue_rep_def)
  have dist: "distinct (a # as)" using Cons.prems by (rule queue_rep_distinct)
  from queue_pop_head_spec Cons.prems xs obtain q' m' where
    pop: "queue_pop_head q m = Some (x, q', m')" "queue_rep m' q' as xs'" "heap m' a = None"
      "\<And>b. b \<notin> set (a # as) \<Longrightarrow> heap m' b = heap m b" by metis
  from Cons.IH [OF pop(2)] obtain m'' where
    m'': "queue_free q' m' = Some m''"
      "heap m'' = (\<lambda>b. if b \<in> set as then None else heap m' b)" by blast
  have "\<not> queue_is_empty q" using Cons.prems xs by (simp add: queue_is_empty_rep)
  then have "queue_free q m = Some m''"
    using pop m'' by (subst queue_free.simps) simp
  moreover have "heap m'' = (\<lambda>b. if b \<in> set (a # as) then None else heap m b)"
    using m'' pop dist by (auto simp: fun_eq_iff)
  ultimately show ?case by blast
qed

section \<open>The queue implements a double-ended queue\<close>

datatype deque_op =
  Push_Head val | Push_Tail val | Pop_Head | Pop_Tail | Peek_Head | Peek_Tail | Is_Empty

text \<open>
  One call, with its result as a number: a \<open>QueueValue\<close>, or the truth value a C function
  returns as an \<open>int\<close>.
\<close>

fun queue_step :: "deque_op \<Rightarrow> queue \<times> qmem \<Rightarrow> (val \<times> queue \<times> qmem) option" where
  "queue_step (Push_Head x) (q, m) = do { (r, s) \<leftarrow> queue_push_head q x m; Some (of_bool r, s) }"
| "queue_step (Push_Tail x) (q, m) = do { (r, s) \<leftarrow> queue_push_tail q x m; Some (of_bool r, s) }"
| "queue_step Pop_Head (q, m) = queue_pop_head q m"
| "queue_step Pop_Tail (q, m) = queue_pop_tail q m"
| "queue_step Peek_Head (q, m) = do { x \<leftarrow> queue_peek_head q m; Some (x, q, m) }"
| "queue_step Peek_Tail (q, m) = do { x \<leftarrow> queue_peek_tail q m; Some (x, q, m) }"
| "queue_step Is_Empty (q, m) = Some (of_bool (queue_is_empty q), q, m)"

text \<open>The abstract data type: a list, with 0 (\<open>QUEUE_NULL\<close>) for the value of an empty one.\<close>

fun deque_spec :: "deque_op \<Rightarrow> val list \<Rightarrow> val \<times> val list" where
  "deque_spec (Push_Head x) xs = (1, x # xs)"
| "deque_spec (Push_Tail x) xs = (1, xs @ [x])"
| "deque_spec Pop_Head xs = (if xs = [] then 0 else hd xs, tl xs)"
| "deque_spec Pop_Tail xs = (if xs = [] then 0 else last xs, butlast xs)"
| "deque_spec Peek_Head xs = (if xs = [] then 0 else hd xs, xs)"
| "deque_spec Peek_Tail xs = (if xs = [] then 0 else last xs, xs)"
| "deque_spec Is_Empty xs = (of_bool (xs = []), xs)"

definition queue_in :: "(addr \<rightharpoonup> queue_entry) \<Rightarrow> nat \<Rightarrow> queue \<times> qmem \<Rightarrow> val list \<Rightarrow> bool" where
  "queue_in h n s xs \<longleftrightarrow> (\<exists>as. queue_rep (snd s) (fst s) as xs \<and> serves h n (snd s) (set as))"

lemma queue_in_le: "queue_in h n s xs \<Longrightarrow> k \<le> n \<Longrightarrow> queue_in h k s xs"
  by (auto simp: queue_in_def intro: serves_le)

lemma queue_inE:
  assumes "queue_in h n (q, m) xs"
  obtains as where "queue_rep m q as xs" "serves h n m (set as)"
  using assms by (auto simp: queue_in_def)

lemma queue_rep_dom: "queue_rep m q as xs \<Longrightarrow> set as \<subseteq> dom (heap m)"
  by (auto simp: queue_rep_def dest: dseg_chain chain_in_heap)

lemma queue_in_alloc:
  assumes "serves h (Suc n) m (set as)" "queue_rep m' q as' xs"
    "set as' = insert (hd (answers m)) (set as)" "answers m' = tl (answers m)"
    "\<And>b. b \<notin> set (hd (answers m) # as) \<Longrightarrow> heap m' b = heap m b"
  shows "queue_in h n (q, m') xs"
  using serves_alloc [OF assms(1,4)] assms queue_rep_dom [OF assms(2)]
  by (auto simp: queue_in_def)

lemma queue_in_free:
  assumes "serves h n m (insert a (set as))" "queue_rep m' q as xs" "a \<notin> set as"
    "answers m' = answers m" "heap m' a = None"
    "\<And>b. b \<notin> set (a # as) \<Longrightarrow> heap m' b = heap m b"
  shows "queue_in h n (q, m') xs"
  using serves_free [OF assms(1,4), of "{a}"] assms queue_rep_dom [OF assms(2)]
  by (auto simp: queue_in_def)

lemma queue_push_head_in:
  assumes "queue_in h (Suc n) (q, m) xs"
  shows "\<exists>q' m'. queue_push_head q x m = Some (True, q', m') \<and> queue_in h n (q', m') (x # xs)"
  using assms
proof (rule queue_inE)
  fix as assume rep: "queue_rep m q as xs" and srv: "serves h (Suc n) m (set as)"
  with queue_push_head_spec [OF rep, of x] serves_can_alloc [OF srv] show ?thesis
    by (auto intro!: queue_in_alloc [OF srv])
qed

lemma queue_push_tail_in:
  assumes "queue_in h (Suc n) (q, m) xs"
  shows "\<exists>q' m'. queue_push_tail q x m = Some (True, q', m') \<and> queue_in h n (q', m') (xs @ [x])"
  using assms
proof (rule queue_inE)
  fix as assume rep: "queue_rep m q as xs" and srv: "serves h (Suc n) m (set as)"
  with queue_push_tail_spec [OF rep, of x] serves_can_alloc [OF srv] show ?thesis
    by (auto intro!: queue_in_alloc [OF srv])
qed

lemma queue_pop_head_in:
  assumes "queue_in h n (q, m) xs"
  shows "\<exists>q' m'. queue_pop_head q m = Some (if xs = [] then 0 else hd xs, q', m') \<and>
    queue_in h n (q', m') (tl xs)"
proof (cases xs)
  case Nil
  with assms show ?thesis by (auto simp: queue_in_def queue_pop_head_empty)
next
  case (Cons x ys)
  with assms obtain a as where rep: "queue_rep m q (a # as) (x # ys)"
    and srv: "serves h n m (set (a # as))"
    by (elim queue_inE) (metis length_0_conv list.distinct(1) neq_Nil_conv queue_rep_length)
  have "a \<notin> set as" using queue_rep_distinct [OF rep] by simp
  moreover obtain q' m' where "queue_pop_head q m = Some (x, q', m')" "queue_rep m' q' as ys"
    "heap m' a = None" "answers m' = answers m" "\<And>b. b \<notin> set (a # as) \<Longrightarrow> heap m' b = heap m b"
    using queue_pop_head_spec [OF rep] by blast
  ultimately show ?thesis
    using queue_in_free [of h n m a as m' q' ys] srv Cons by simp
qed

lemma queue_pop_tail_in:
  assumes "queue_in h n (q, m) xs"
  shows "\<exists>q' m'. queue_pop_tail q m = Some (if xs = [] then 0 else last xs, q', m') \<and>
    queue_in h n (q', m') (butlast xs)"
proof (cases xs rule: rev_cases)
  case Nil
  with assms show ?thesis by (auto simp: queue_in_def queue_pop_tail_empty)
next
  case (snoc ys x)
  with assms obtain a as where rep: "queue_rep m q (as @ [a]) (ys @ [x])"
    and srv: "serves h n m (set (as @ [a]))"
    by (elim queue_inE)
      (metis append_is_Nil_conv length_0_conv not_Cons_self2 queue_rep_length rev_exhaust)
  have "a \<notin> set as" using queue_rep_distinct [OF rep] by simp
  moreover obtain q' m' where "queue_pop_tail q m = Some (x, q', m')" "queue_rep m' q' as ys"
    "heap m' a = None" "answers m' = answers m" "\<And>b. b \<notin> set (a # as) \<Longrightarrow> heap m' b = heap m b"
    using queue_pop_tail_spec [OF rep] by blast
  ultimately show ?thesis
    using queue_in_free [of h n m a as m' q' ys] srv snoc by simp
qed

lemma queue_step_refines:
  assumes "queue_in h (Suc n) s xs"
  shows "\<exists>s'. queue_step op s = Some (fst (deque_spec op xs), s') \<and>
    queue_in h n s' (snd (deque_spec op xs))"
proof -
  obtain q m where s: "s = (q, m)" by (cases s)
  have le: "queue_in h n (q, m) xs" using assms s by (auto intro: queue_in_le)
  then obtain as where rep: "queue_rep m q as xs" by (auto simp: queue_in_def)
  show ?thesis
  proof (cases op)
    case (Push_Head x)
    with queue_push_head_in [of h n q m xs x] assms s show ?thesis by auto
  next
    case (Push_Tail x)
    with queue_push_tail_in [of h n q m xs x] assms s show ?thesis by auto
  next
    case Pop_Head
    with queue_pop_head_in [OF le] s show ?thesis by auto
  next
    case Pop_Tail
    with queue_pop_tail_in [OF le] s show ?thesis by auto
  qed (use le s queue_peek_head_spec [OF rep] queue_peek_tail_spec [OF rep]
         queue_is_empty_rep [OF rep] in \<open>auto split: list.splits\<close>)
qed

interpretation queue_adt: adt_refinement queue_step deque_spec "queue_in h" for h
  by unfold_locales (rule queue_step_refines)

lemma queue_new_in:
  assumes "ample (Suc n) m"
  obtains q m' where "queue_new m = (Some q, m')" "queue_in (heap m) n (q, m') []"
proof -
  from assms obtain a as where "answers m = a # as" "a \<noteq> 0"
    by (cases "answers m") (auto simp: ample_def)
  with assms have "queue_new m = (Some \<lparr>q_head = 0, q_tail = 0\<rparr>, m\<lparr>answers := as\<rparr>)"
    "queue_in (heap m) n (\<lparr>q_head = 0, q_tail = 0\<rparr>, m\<lparr>answers := as\<rparr>) []"
    by (auto simp: queue_new_def malloc_block_def queue_in_def queue_rep_def ample_def serves_def)
  with that show ?thesis by blast
qed



text \<open>after any sequence of operations \<open>queue_free\<close> returns, without touching a freed
  entry, and the heap is again the one the queue was created in: no entry leaks.\<close>

theorem queue_free_no_leak:
  assumes "ample (Suc (length ops)) m" "queue_new m = (Some q, m')"
    "run queue_step ops (q, m') = Some (rs, q', m'')"
  shows "\<exists>m3. queue_free q' m'' = Some m3 \<and> heap m3 = heap m"
proof -
  from assms(1,2) have "queue_in (heap m) (length ops) (q, m') []"
    using queue_new_in [OF assms(1)] by (metis fst_conv option.inject snd_conv)
  with assms(3) queue_adt.run_refines [of "heap m" ops 0 "(q, m')" "[]"]
  have "\<exists>xs. queue_in (heap m) 0 (q', m'') xs" by auto
  then obtain as xs where "queue_rep m'' q' as xs" "serves (heap m) 0 m'' (set as)"
    by (auto simp: queue_in_def)
  with queue_free_spec [of m'' q' as xs] show ?thesis
    by (blast dest: serves_release)
qed

theorem queue_free_no_leak_witness:
  "\<exists>q m' q' m'' m3. queue_new \<lparr>heap = [4 \<mapsto> \<lparr>qe_data = 1, qe_prev = 0, qe_next = 0\<rparr>],
      answers = [5, 9, 3, 7]\<rparr> = (Some q, m') \<and>
    run queue_step [Push_Tail 10, Push_Head 20] (q, m') = Some ([1, 1], q', m'') \<and>
    heap m'' 9 = Some \<lparr>qe_data = 10, qe_prev = 3, qe_next = 0\<rparr> \<and>
    queue_free q' m'' = Some m3 \<and>
    heap m3 = [4 \<mapsto> \<lparr>qe_data = 1, qe_prev = 0, qe_next = 0\<rparr>]"
proof -
  let ?m = "\<lparr>heap = [4 \<mapsto> \<lparr>qe_data = 1, qe_prev = 0, qe_next = 0\<rparr>], answers = [5, 9, 3, 7]\<rparr> :: qmem"
  let ?ops = "[Push_Tail 10, Push_Head 20]"
  have am: "ample (Suc (length ?ops)) ?m" by (simp add: ample_def)
  obtain q m' q' m'' where run: "queue_new ?m = (Some q, m')"
    "run queue_step ?ops (q, m') = Some ([1, 1], q', m'')"
    "heap m'' 9 = Some \<lparr>qe_data = 10, qe_prev = 3, qe_next = 0\<rparr>"
    by (simp add: queue_new_def malloc_block_def queue_push_tail_def queue_push_head_def
        malloc_def mem_simps)
  from queue_free_no_leak [OF am run(1,2)] run show ?thesis by fastforce
qed

end
