(* ===== verification/Compare.thy ===== *)
theory Compare
  imports Prelude
begin

text \<open>
  The comparison and hash functions of libcalg (\<open>compare-int.c\<close>, \<open>compare-pointer.c\<close>,
  \<open>compare-string.c\<close>, \<open>hash-int.c\<close>, \<open>hash-pointer.c\<close>, \<open>hash-string.c\<close>) and the two contracts
  the containers put on the callbacks they are given: a comparison is a total preorder, and a
  hash respects its equality.  The callbacks take pointers; the integers or strings they point
  to are the argument \<open>ints\<close> or \<open>strs\<close>.  A string is the list of its bytes; the byte after the
  last one of the list is the terminating 0.
\<close>

section \<open>The contracts of callbacks\<close>

locale comparator =
  fixes cmp :: "val \<Rightarrow> val \<Rightarrow> int"
  assumes cmp_flip: "cmp a b < 0 \<longleftrightarrow> 0 < cmp b a"
    and cmp_trans: "cmp a b \<le> 0 \<Longrightarrow> cmp b c \<le> 0 \<Longrightarrow> cmp a c \<le> 0"
begin

lemma cmp_refl [simp]: "cmp a a = 0"
  using cmp_flip [of a a] by linarith

lemma cmp_le_flip: "cmp a b \<le> 0 \<longleftrightarrow> 0 \<le> cmp b a"
  using cmp_flip [of b a] by linarith

lemma cmp_total: "cmp a b \<le> 0 \<or> cmp b a \<le> 0"
  using cmp_flip [of b a] by linarith

lemma cmp_zero_sym: "cmp a b = 0 \<longleftrightarrow> cmp b a = 0"
  using cmp_flip [of a b] cmp_flip [of b a] by linarith

lemma cmp_less_trans: "cmp a b < 0 \<Longrightarrow> cmp b c \<le> 0 \<Longrightarrow> cmp a c < 0"
  by (smt (verit, best) cmp_flip cmp_trans)

lemma cmp_less_trans2: "cmp a b \<le> 0 \<Longrightarrow> cmp b c < 0 \<Longrightarrow> cmp a c < 0"
  by (smt (verit, best) cmp_flip cmp_trans)

lemma cmp_zero_trans: "cmp a b = 0 \<Longrightarrow> cmp b c = 0 \<Longrightarrow> cmp a c = 0"
  by (smt (verit, best) cmp_flip cmp_trans)

text \<open>Equal keys compare alike with every other key.\<close>

lemma cmp_zero_cong: "cmp a b = 0 \<Longrightarrow> cmp a c < 0 \<longleftrightarrow> cmp b c < 0"
  by (smt (verit, best) cmp_flip cmp_trans)

lemma cmp_zero_cong0: "cmp a b = 0 \<Longrightarrow> cmp a c = 0 \<longleftrightarrow> cmp b c = 0"
  by (metis cmp_zero_sym cmp_zero_trans)

end

locale hashing =
  fixes hash :: "val \<Rightarrow> c_uint"
    and eq :: "val \<Rightarrow> val \<Rightarrow> bool"
  assumes eq_refl: "eq a a"
    and eq_sym: "eq a b \<Longrightarrow> eq b a"
    and eq_trans: "eq a b \<Longrightarrow> eq b c \<Longrightarrow> eq a c"
    and eq_hash: "eq a b \<Longrightarrow> hash a = hash b"
begin

lemma eq_commute: "eq a b \<longleftrightarrow> eq b a"
  by (blast intro: eq_sym)

lemma eq_cong: "eq a b \<Longrightarrow> eq a c \<longleftrightarrow> eq b c"
  by (blast intro: eq_sym eq_trans)

lemma hash_neq: "hash a \<noteq> hash b \<Longrightarrow> \<not> eq a b"
  by (blast dest: eq_hash)

end

section \<open>Integers and pointers\<close>

type_synonym c_int = "32 word"

definition int_equal :: "(addr \<Rightarrow> c_int) \<Rightarrow> val \<Rightarrow> val \<Rightarrow> bool" where
  "int_equal ints l1 l2 \<longleftrightarrow> ints l1 = ints l2"

definition int_compare :: "(addr \<Rightarrow> c_int) \<Rightarrow> val \<Rightarrow> val \<Rightarrow> int" where
  "int_compare ints l1 l2 =
     (if sint (ints l1) < sint (ints l2) then -1
      else if sint (ints l1) > sint (ints l2) then 1 else 0)"

definition pointer_equal :: "val \<Rightarrow> val \<Rightarrow> bool" where
  "pointer_equal l1 l2 \<longleftrightarrow> l1 = l2"

definition pointer_compare :: "val \<Rightarrow> val \<Rightarrow> int" where
  "pointer_compare l1 l2 = (if l1 < l2 then -1 else if l1 > l2 then 1 else 0)"

definition int_hash :: "(addr \<Rightarrow> c_int) \<Rightarrow> val \<Rightarrow> c_uint" where
  "int_hash ints l = ints l"

text \<open>The cast of a pointer to \<open>unsigned long\<close> keeps it, the one to \<open>unsigned int\<close> truncates.\<close>

definition pointer_hash :: "val \<Rightarrow> c_uint" where
  "pointer_hash l = ucast (of_nat l :: 64 word)"

interpretation int_cmp: comparator "int_compare ints" for ints
  by unfold_locales (auto simp: int_compare_def split: if_splits)

interpretation pointer_cmp: comparator pointer_compare
  by unfold_locales (auto simp: pointer_compare_def split: if_splits)

interpretation int_hashing: hashing "int_hash ints" "int_equal ints" for ints
  by unfold_locales (auto simp: int_hash_def int_equal_def)

interpretation pointer_hashing: hashing pointer_hash pointer_equal
  by unfold_locales (auto simp: pointer_hash_def pointer_equal_def)

section \<open>Strings\<close>

type_synonym byte = "8 word"
type_synonym c_string = "byte list"

text \<open>The byte a \<open>char *\<close> points to, and the pointer advanced by one.\<close>

definition deref :: "c_string \<Rightarrow> byte" where
  "deref s = (case s of [] \<Rightarrow> 0 | c # _ \<Rightarrow> c)"

lemma deref_simps [simp]: "deref [] = 0" "deref (c # s) = c"
  by (simp_all add: deref_def)

lemma deref_nonzero: "deref s \<noteq> 0 \<Longrightarrow> length (tl s) < length s"
  by (cases s) auto

text \<open>
  \<open>strcmp\<close> of the C library compares bytes as \<open>unsigned char\<close>; \<open>tolower\<close> maps the letters
  of the "C" locale and keeps every other value.
\<close>

function (sequential) strcmp :: "c_string \<Rightarrow> c_string \<Rightarrow> int" where
  "strcmp s1 s2 =
     (if deref s1 \<noteq> deref s2 then uint (deref s1) - uint (deref s2)
      else if deref s1 = 0 then 0
      else strcmp (tl s1) (tl s2))"
  by pat_completeness auto
termination
  by (relation "measure (\<lambda>(s1, s2). length s1)") (use deref_nonzero in auto)

declare strcmp.simps [simp del]

definition tolower :: "int \<Rightarrow> int" where
  "tolower c = (if 65 \<le> c \<and> c \<le> 90 then c + 32 else c)"

lemma tolower_zero [simp]: "tolower 0 = 0" and tolower_eq_zero [simp]: "tolower c = 0 \<longleftrightarrow> c = 0"
  by (auto simp: tolower_def)

definition string_equal :: "(addr \<Rightarrow> c_string) \<Rightarrow> val \<Rightarrow> val \<Rightarrow> bool" where
  "string_equal strs s1 s2 \<longleftrightarrow> strcmp (strs s1) (strs s2) = 0"

definition string_compare :: "(addr \<Rightarrow> c_string) \<Rightarrow> val \<Rightarrow> val \<Rightarrow> int" where
  "string_compare strs s1 s2 =
     (let result = strcmp (strs s1) (strs s2)
      in if result < 0 then -1 else if result > 0 then 1 else 0)"

text \<open>The loop of \<open>string_nocase_compare\<close>: here \<open>*p\<close> is a \<open>char\<close>, which is signed.\<close>

function (sequential) nocase_loop :: "c_string \<Rightarrow> c_string \<Rightarrow> int" where
  "nocase_loop p1 p2 =
     (let c1 = tolower (sint (deref p1)); c2 = tolower (sint (deref p2))
      in if c1 \<noteq> c2 then (if c1 < c2 then -1 else 1)
         else if c1 = 0 then 0
         else nocase_loop (tl p1) (tl p2))"
  by pat_completeness auto
termination
  by (relation "measure (\<lambda>(p1, p2). length p1)")
    (auto simp del: length_tl intro!: deref_nonzero)

declare nocase_loop.simps [simp del]

definition string_nocase_compare :: "(addr \<Rightarrow> c_string) \<Rightarrow> val \<Rightarrow> val \<Rightarrow> int" where
  "string_nocase_compare strs s1 s2 = nocase_loop (strs s1) (strs s2)"

definition string_nocase_equal :: "(addr \<Rightarrow> c_string) \<Rightarrow> val \<Rightarrow> val \<Rightarrow> bool" where
  "string_nocase_equal strs s1 s2 \<longleftrightarrow> string_nocase_compare strs s1 s2 = 0"

text \<open>The djb2 hash, and the same with \<open>tolower\<close> on every byte (here an \<open>unsigned char\<close>).\<close>

function (sequential) djb2 :: "(byte \<Rightarrow> c_uint) \<Rightarrow> c_string \<Rightarrow> c_uint \<Rightarrow> c_uint" where
  "djb2 f p result =
     (if deref p = 0 then result
      else djb2 f (tl p) (push_bit 5 result + result + f (deref p)))"
  by pat_completeness auto
termination
  by (relation "measure (\<lambda>(f, p, result). length p)") (use deref_nonzero in auto)

declare djb2.simps [simp del]

definition string_hash :: "(addr \<Rightarrow> c_string) \<Rightarrow> val \<Rightarrow> c_uint" where
  "string_hash strs s = djb2 ucast (strs s) 5381"

definition string_nocase_hash :: "(addr \<Rightarrow> c_string) \<Rightarrow> val \<Rightarrow> c_uint" where
  "string_nocase_hash strs s = djb2 (\<lambda>c. word_of_int (tolower (uint c))) (strs s) 5381"

section \<open>The string callbacks keep the contracts\<close>

text \<open>
  Both comparisons are the lexicographic comparison of the strings under a key on bytes that
  is 0 for the terminating byte only.
\<close>

function (sequential) lexcmp :: "(byte \<Rightarrow> int) \<Rightarrow> c_string \<Rightarrow> c_string \<Rightarrow> int" where
  "lexcmp key s1 s2 =
     (if key (deref s1) < key (deref s2) then -1
      else if key (deref s1) > key (deref s2) then 1
      else if deref s1 = 0 then 0
      else lexcmp key (tl s1) (tl s2))"
  by pat_completeness auto
termination
  by (relation "measure (\<lambda>(key, s1, s2). length s1)") (use deref_nonzero in auto)

declare lexcmp.simps [simp del]

lemma lexcmp_flip: "(\<And>c. key c = 0 \<longleftrightarrow> c = 0) \<Longrightarrow> lexcmp key s2 s1 = - lexcmp key s1 s2"
proof (induction key s1 s2 rule: lexcmp.induct)
  case (1 key s1 s2)
  then show ?case
    by (subst (1 2) lexcmp.simps) (simp, metis)
qed

lemma lexcmp_trans:
  "(\<And>c. key c = 0 \<longleftrightarrow> c = 0) \<Longrightarrow> lexcmp key s1 s2 \<le> 0 \<Longrightarrow> lexcmp key s2 s3 \<le> 0 \<Longrightarrow>
   lexcmp key s1 s3 \<le> 0"
proof (induction key s1 s2 arbitrary: s3 rule: lexcmp.induct)
  case (1 key s1 s2)
  note key = "1.prems"(1)
  show ?case
    using "1.prems"(2,3) "1.IH" [OF _ _ _ key, of "tl s3"] key [of "deref s1"] key [of "deref s2"]
    by (subst (asm) lexcmp.simps [of key s1 s2], subst (asm) lexcmp.simps [of key s2 s3],
        subst lexcmp.simps [of key s1 s3]) (auto split: if_splits)
qed

lemma strcmp_lexcmp: "sgn (strcmp s1 s2) = lexcmp uint s1 s2"
proof (induction s1 s2 rule: strcmp.induct)
  case (1 s1 s2)
  then show ?case
    by (subst strcmp.simps, subst lexcmp.simps) (auto simp: sgn_if word_uint_eq_iff)
qed

lemma nocase_lexcmp: "nocase_loop p1 p2 = lexcmp (\<lambda>c. tolower (sint c)) p1 p2"
proof (induction p1 p2 rule: nocase_loop.induct)
  case (1 p1 p2)
  then show ?case
    by (subst nocase_loop.simps, subst lexcmp.simps) (auto simp: Let_def signed_eq_0_iff)
qed

lemma string_compare_lexcmp: "string_compare strs a b = lexcmp uint (strs a) (strs b)"
  by (simp add: string_compare_def Let_def sgn_if flip: strcmp_lexcmp)

lemma djb2_lexcmp:
  assumes "\<And>c. key c = 0 \<longleftrightarrow> c = 0" and "\<And>c d. key c = key d \<Longrightarrow> f c = f d"
  shows "lexcmp key s1 s2 = 0 \<Longrightarrow> djb2 f s1 r = djb2 f s2 r"
  using assms
proof (induction key s1 s2 arbitrary: r rule: lexcmp.induct)
  case (1 key s1 s2)
  have same: "key (deref s1) = key (deref s2)"
    and step: "deref s1 \<noteq> 0 \<Longrightarrow> lexcmp key (tl s1) (tl s2) = 0"
    using "1.prems"(1) by (auto simp: lexcmp.simps [of key s1 s2] split: if_splits)
  have f: "f (deref s1) = f (deref s2)" by (rule "1.prems"(3) [OF same])
  have z: "deref s1 = 0 \<longleftrightarrow> deref s2 = 0"
    using same "1.prems"(2) [of "deref s1"] "1.prems"(2) [of "deref s2"] by simp
  show ?case
  proof (cases "deref s1 = 0")
    case True
    with z show ?thesis by (simp add: djb2.simps [of f s1] djb2.simps [of f s2])
  next
    case False
    have "djb2 f (tl s1) r' = djb2 f (tl s2) r'" for r'
      using "1.IH" [OF _ _ False step [OF False] "1.prems"(2,3)] same by simp
    with False z f show ?thesis by (simp add: djb2.simps [of f s1] djb2.simps [of f s2])
  qed
qed

text \<open>The bytes of a string: those before the terminating 0.\<close>

definition cstr :: "c_string \<Rightarrow> byte list" where
  "cstr s = takeWhile (\<lambda>c. c \<noteq> 0) s"

lemma cstr_step: "cstr s = (if deref s = 0 then [] else deref s # cstr (tl s))"
  by (cases s) (auto simp: cstr_def)

lemma lexcmp_eq_cstr:
  "(\<And>c. key c = 0 \<longleftrightarrow> c = 0) \<Longrightarrow>
   lexcmp key s1 s2 = 0 \<longleftrightarrow> map key (cstr s1) = map key (cstr s2)"
proof (induction key s1 s2 rule: lexcmp.induct)
  case (1 key s1 s2)
  note key = "1.prems" [of "deref s1"] "1.prems" [of "deref s2"]
  show ?case
    using "1.IH" [OF _ _ _ "1.prems"] key
    by (auto simp: lexcmp.simps [of key s1 s2] cstr_step [of s1] cstr_step [of s2])
qed

lemma sint_byte: "sint (c :: byte) = (if uint c < 128 then uint c else uint c - 256)"
proof -
  have "uint c = sint c mod 256" by (simp add: uint_sint take_bit_eq_mod)
  moreover have "- 128 \<le> sint c" "sint c < 128"
    using sint_ge [of c] sint_lt [of c] by simp_all
  moreover have "sint c mod 256 = sint c + 256" if "sint c < 0"
    using that calculation(2) mod_pos_pos_trivial [of "sint c + 256" 256] by simp
  ultimately show ?thesis by (cases "sint c < 0") (simp_all add: mod_pos_pos_trivial)
qed

lemma tolower_sint: "tolower (sint (c :: byte)) = (if uint c < 128 then tolower (uint c) else uint c - 256)"
  unfolding sint_byte using uint_lt2p [of c] by (auto simp: tolower_def)

lemma tolower_uint: "uint (c :: byte) < 128 \<Longrightarrow> 0 \<le> tolower (uint c) \<and> tolower (uint c) < 128"
  "128 \<le> uint c \<Longrightarrow> tolower (uint c) = uint c"
  by (auto simp: tolower_def)

lemma nocase_key:
  "tolower (sint (c :: byte)) = tolower (sint (d :: byte)) \<longleftrightarrow> tolower (uint c) = tolower (uint d)"
  using tolower_uint [of c] tolower_uint [of d] uint_lt2p [of c] uint_lt2p [of d]
  by (auto simp: tolower_sint)

lemma lexcmp_comparator:
  assumes "\<And>c. key c = 0 \<longleftrightarrow> c = 0"
  shows "comparator (\<lambda>a b. lexcmp key (strs a) (strs b))"
proof
  fix a b
  show "lexcmp key (strs a) (strs b) < 0 \<longleftrightarrow> 0 < lexcmp key (strs b) (strs a)"
    using lexcmp_flip [of key "strs a" "strs b", OF assms] by linarith
next
  fix a b c
  show "lexcmp key (strs a) (strs b) \<le> 0 \<Longrightarrow> lexcmp key (strs b) (strs c) \<le> 0 \<Longrightarrow>
      lexcmp key (strs a) (strs c) \<le> 0"
    by (rule lexcmp_trans [OF assms])
qed

lemma string_compare_eq: "string_compare strs = (\<lambda>a b. lexcmp uint (strs a) (strs b))"
  by (simp add: fun_eq_iff string_compare_lexcmp)

lemma string_nocase_compare_eq:
  "string_nocase_compare strs = (\<lambda>a b. lexcmp (\<lambda>c. tolower (sint c)) (strs a) (strs b))"
  by (simp add: fun_eq_iff string_nocase_compare_def nocase_lexcmp)

interpretation string_cmp: comparator "string_compare strs" for strs
  unfolding string_compare_eq by (rule lexcmp_comparator) (rule uint_0_iff)

interpretation string_nocase_cmp: comparator "string_nocase_compare strs" for strs
  unfolding string_nocase_compare_eq by (rule lexcmp_comparator) (simp add: signed_eq_0_iff)

lemma string_equal_cstr: "string_equal strs a b \<longleftrightarrow> cstr (strs a) = cstr (strs b)"
proof -
  have "string_equal strs a b \<longleftrightarrow> lexcmp uint (strs a) (strs b) = 0"
    by (simp add: string_equal_def flip: strcmp_lexcmp) (simp add: sgn_0_0)
  also have "\<dots> \<longleftrightarrow> map uint (cstr (strs a)) = map uint (cstr (strs b))"
    by (rule lexcmp_eq_cstr) (rule uint_0_iff)
  also have "\<dots> \<longleftrightarrow> cstr (strs a) = cstr (strs b)"
    by (rule inj_map_eq_map) (simp add: inj_def word_uint_eq_iff)
  finally show ?thesis .
qed

lemma string_nocase_equal_key:
  "string_nocase_equal strs a b \<longleftrightarrow>
   map (\<lambda>c. tolower (sint c)) (cstr (strs a)) = map (\<lambda>c. tolower (sint c)) (cstr (strs b))"
  unfolding string_nocase_equal_def string_nocase_compare_eq
  by (rule lexcmp_eq_cstr) (simp add: signed_eq_0_iff)

lemma string_equal_hash: "string_equal strs a b \<Longrightarrow> string_hash strs a = string_hash strs b"
  unfolding string_hash_def string_equal_def
  by (rule djb2_lexcmp [of uint]) (simp_all add: uint_0_iff flip: strcmp_lexcmp, metis word_uint_eq_iff)

lemma string_nocase_equal_hash:
  "string_nocase_equal strs a b \<Longrightarrow> string_nocase_hash strs a = string_nocase_hash strs b"
  unfolding string_nocase_hash_def string_nocase_equal_def string_nocase_compare_eq
  by (rule djb2_lexcmp [of "\<lambda>c. tolower (sint c)"])
    (simp_all add: signed_eq_0_iff nocase_key)

interpretation string_hashing: hashing "string_hash strs" "string_equal strs" for strs
  by unfold_locales (auto simp: string_equal_cstr intro: string_equal_hash)

interpretation string_nocase_hashing:
    hashing "string_nocase_hash strs" "string_nocase_equal strs" for strs
  by unfold_locales (auto simp: string_nocase_equal_key intro: string_nocase_equal_hash)

text \<open>C5: two strings are equal for \<open>string_nocase_equal\<close> exactly if their bytes agree after
  \<open>tolower\<close>, and then \<open>string_nocase_hash\<close> gives them one hash, although the comparison
  reads the bytes as signed characters and the hash as unsigned ones.\<close>

theorem string_nocase_consistent:
  "(string_nocase_equal strs a b \<longleftrightarrow>
     map (\<lambda>c. tolower (uint c)) (cstr (strs a)) = map (\<lambda>c. tolower (uint c)) (cstr (strs b))) \<and>
   (string_nocase_equal strs a b \<longrightarrow> string_nocase_hash strs a = string_nocase_hash strs b)"
proof -
  have "map (\<lambda>c. tolower (sint c)) xs = map (\<lambda>c. tolower (sint c)) ys \<longleftrightarrow>
    map (\<lambda>c. tolower (uint c)) xs = map (\<lambda>c. tolower (uint c)) ys" for xs ys :: "byte list"
    by (simp add: list_eq_iff_nth_eq nocase_key cong: conj_cong)
  then have "string_nocase_equal strs a b \<longleftrightarrow>
     map (\<lambda>c. tolower (uint c)) (cstr (strs a)) = map (\<lambda>c. tolower (uint c)) (cstr (strs b))"
    by (simp add: string_nocase_equal_key)
  then show ?thesis by (blast intro: string_nocase_equal_hash)
qed

theorem string_nocase_consistent_witness:
  "string_nocase_equal (\<lambda>p. if p = 1 then [65, 0xE9, 122] else [97, 0xE9, 90]) 1 2 \<and>
   string_nocase_hash (\<lambda>p. if p = 1 then [65, 0xE9, 122] else [97, 0xE9, 90]) 1 =
   string_nocase_hash (\<lambda>p. if p = 1 then [65, 0xE9, 122] else [97, 0xE9, 90]) 2"
  using string_nocase_consistent [of "\<lambda>p. if p = 1 then [65, 0xE9, 122] else [97, 0xE9, 90]" 1 2]
  by (simp add: cstr_def tolower_def)

end
