(* ===== verification/Sequence.thy ===== *)
theory Sequence
  imports Compare
begin

text \<open>
  What the two list modules of libcalg, \<open>list.c\<close> and \<open>slist.c\<close>, promise their callers: the
  operations on a sequence of values, the iterator over it, and the order \<open>list_sort\<close> and
  \<open>slist_sort\<close> produce.  The modules refine these definitions.
\<close>

section \<open>Slots\<close>

text \<open>
  A pointer to a list pointer (\<open>ListEntry **\<close>) is the address of the caller's list variable or
  of the \<open>next\<close> field of an entry.
\<close>

datatype slot = List_Var | Next_Of addr

fun slot_get :: "('n \<Rightarrow> addr) \<Rightarrow> slot \<Rightarrow> addr \<Rightarrow> 'n mem \<Rightarrow> addr option" where
  "slot_get nx List_Var list m = Some list"
| "slot_get nx (Next_Of p) list m = do { e \<leftarrow> load p m; Some (nx e) }"

fun slot_set ::
  "(addr \<Rightarrow> 'n \<Rightarrow> 'n) \<Rightarrow> slot \<Rightarrow> addr \<Rightarrow> addr \<Rightarrow> 'n mem \<Rightarrow> (addr \<times> 'n mem) option"
where
  "slot_set upd List_Var q list m = Some (q, m)"
| "slot_set upd (Next_Of p) q list m = do {
     e \<leftarrow> load p m;
     m \<leftarrow> store p (upd q e) m;
     Some (list, m)
   }"

text \<open>The slot that holds the address of the entry after the entries \<open>us\<close>.\<close>

definition slot_after :: "addr list \<Rightarrow> slot" where
  "slot_after us = (if us = [] then List_Var else Next_Of (last us))"

lemma slot_after_simps [simp]: "slot_after [] = List_Var" "slot_after (us @ [a]) = Next_Of a"
  by (simp_all add: slot_after_def)

lemma slot_get_after:
  "chain nx (heap m) p us q \<Longrightarrow> slot_get nx (slot_after us) p m = Some q"
  by (cases us rule: rev_cases) (auto simp: chain_Cons mem_simps)

lemma slot_set_after:
  assumes "chain nx (heap m) p us q" "distinct us" "\<And>r e. nx (upd r e) = r" "\<And>r e. f (upd r e) = f e"
  shows "\<exists>p' m'. slot_set upd (slot_after us) r p m = Some (p', m') \<and>
    chain nx (heap m') p' us r \<and> relinked f (set us) m m'"
proof (cases us rule: rev_cases)
  case Nil
  then show ?thesis by simp
next
  case (snoc vs a)
  with assms(1) obtain e where "a \<noteq> 0" "heap m a = Some e" by (auto simp: chain_Cons)
  moreover have "chain nx ((heap m)(a \<mapsto> upd r e)) p us r"
    unfolding snoc by (rule chain_upd_last) (use assms snoc in auto)
  ultimately show ?thesis
    using snoc assms(4) by (auto simp: mem_simps intro: relinked_store)
qed

text \<open>An iterator: where the pointer to the current entry is stored, and the current entry.\<close>

record list_iterator =
  it_prev_next :: slot
  it_current :: addr

text \<open>
  The two functions of the iterator that only read are the same in both modules.  An entry that
  is no longer the one its slot holds was removed.
\<close>

definition iter_has_more :: "('n \<Rightarrow> addr) \<Rightarrow> list_iterator \<Rightarrow> addr \<Rightarrow> 'n mem \<Rightarrow> bool option" where
  "iter_has_more nx iter list m = do {
     p \<leftarrow> slot_get nx (it_prev_next iter) list m;
     if it_current iter = 0 \<or> it_current iter \<noteq> p then Some (p \<noteq> 0)
     else do { e \<leftarrow> load (it_current iter) m; Some (nx e \<noteq> 0) }
   }"

definition iter_next ::
  "('n \<Rightarrow> addr) \<Rightarrow> ('n \<Rightarrow> val) \<Rightarrow> list_iterator \<Rightarrow> addr \<Rightarrow> 'n mem \<Rightarrow> (val \<times> list_iterator) option"
where
  "iter_next nx dt iter list m = do {
     p \<leftarrow> slot_get nx (it_prev_next iter) list m;
     iter \<leftarrow>
       (if it_current iter = 0 \<or> it_current iter \<noteq> p then Some (iter\<lparr>it_current := p\<rparr>)
        else do {
          e \<leftarrow> load (it_current iter) m;
          Some \<lparr>it_prev_next = Next_Of (it_current iter), it_current = nx e\<rparr>
        });
     if it_current iter = 0 then Some (0, iter)
     else do { e \<leftarrow> load (it_current iter) m; Some (dt e, iter) }
   }"

text \<open>The entries an iterator has passed, the one it stands on if there is one, and the rest.\<close>

definition iter_at :: "list_iterator \<Rightarrow> addr list \<Rightarrow> addr list \<Rightarrow> bool" where
  "iter_at it us cs \<longleftrightarrow> it_prev_next it = slot_after us \<and>
     (cs = [] \<and> it_current it = 0 \<or> cs = [it_current it])"

lemma iter_at_cases:
  assumes "iter_at it us cs" "chain nx (heap m) p (us @ cs @ vs) 0"
  obtains (between) q where "cs = []" "it_current it = 0" "slot_get nx (it_prev_next it) p m = Some q"
      "chain nx (heap m) q vs 0" "chain nx (heap m) p us q"
    | (on) a e where "cs = [a]" "it_current it = a" "a \<noteq> 0" "heap m a = Some e"
      "slot_get nx (it_prev_next it) p m = Some a" "chain nx (heap m) (nx e) vs 0"
      "chain nx (heap m) p us a"
proof -
  from assms(2) obtain q where q: "chain nx (heap m) p us q" "chain nx (heap m) q (cs @ vs) 0"
    by auto
  with assms(1) slot_get_after [OF q(1)] that show ?thesis
    by (auto simp: iter_at_def chain_Cons)
qed

lemma iter_has_more_spec:
  assumes "iter_at it us cs" "chain nx (heap m) p (us @ cs @ vs) 0"
  shows "iter_has_more nx it p m = Some (vs \<noteq> [])"
  using assms
proof (cases rule: iter_at_cases)
  case (between q)
  then show ?thesis by (cases vs) (auto simp: iter_has_more_def chain_Cons)
next
  case (on a e)
  then show ?thesis by (cases vs) (auto simp: iter_has_more_def chain_Cons mem_simps)
qed

lemma iter_next_spec:
  assumes "iter_at it us cs" "chain nx (heap m) p (us @ cs @ vs) 0"
  shows "\<exists>it'. iter_next nx dt it p m =
      Some (if vs = [] then 0 else dt (the (heap m (hd vs))), it') \<and> iter_at it' (us @ cs) (take 1 vs)"
  using assms
proof (cases rule: iter_at_cases)
  case (between q)
  with assms show ?thesis
    by (cases vs) (auto simp: iter_next_def iter_at_def chain_Cons mem_simps)
next
  case (on a e)
  with assms show ?thesis
    by (cases vs) (auto simp: iter_next_def iter_at_def chain_Cons mem_simps)
qed

section \<open>Loops over a list\<close>

text \<open>
  The loops the two modules share, over the field \<open>nx\<close> that links the entries and the field
  \<open>dt\<close> that holds the value: to free the entries, to find the last entry, the one after \<open>k\<close>
  others or the first that matches, to count the entries and to copy the values out.
\<close>

partial_function (option) free_loop :: "('n \<Rightarrow> addr) \<Rightarrow> addr \<Rightarrow> 'n mem \<Rightarrow> 'n mem option" where
  "free_loop nx entry m =
     (if entry = 0 then Some m
      else do {
        e \<leftarrow> load entry m;
        m \<leftarrow> free entry m;
        free_loop nx (nx e) m
      })"

partial_function (option) last_loop :: "('n \<Rightarrow> addr) \<Rightarrow> addr \<Rightarrow> 'n mem \<Rightarrow> addr option" where
  "last_loop nx rover m = do {
     e \<leftarrow> load rover m;
     if nx e = 0 then Some rover else last_loop nx (nx e) m
   }"

primrec nth_loop :: "('n \<Rightarrow> addr) \<Rightarrow> nat \<Rightarrow> addr \<Rightarrow> 'n mem \<Rightarrow> addr option" where
  "nth_loop nx 0 entry m = Some entry"
| "nth_loop nx (Suc k) entry m =
     (if entry = 0 then Some 0
      else do { e \<leftarrow> load entry m; nth_loop nx k (nx e) m })"

partial_function (option) length_loop :: "('n \<Rightarrow> addr) \<Rightarrow> addr \<Rightarrow> c_uint \<Rightarrow> 'n mem \<Rightarrow> c_uint option"
where
  "length_loop nx entry n m =
     (if entry = 0 then Some n
      else do { e \<leftarrow> load entry m; length_loop nx (nx e) (n + 1) m })"

primrec copy_loop ::
  "('n \<Rightarrow> addr) \<Rightarrow> ('n \<Rightarrow> val) \<Rightarrow> nat \<Rightarrow> addr \<Rightarrow> 'n mem \<Rightarrow> val list option"
where
  "copy_loop nx dt 0 rover m = Some []"
| "copy_loop nx dt (Suc k) rover m = do {
     e \<leftarrow> load rover m;
     xs \<leftarrow> copy_loop nx dt k (nx e) m;
     Some (dt e # xs)
   }"

partial_function (option) find_loop ::
  "('n \<Rightarrow> addr) \<Rightarrow> ('n \<Rightarrow> val) \<Rightarrow> (val \<Rightarrow> val \<Rightarrow> bool) \<Rightarrow> val \<Rightarrow> addr \<Rightarrow> 'n mem \<Rightarrow> addr option"
where
  "find_loop nx dt callback d rover m =
     (if rover = 0 then Some 0
      else do {
        e \<leftarrow> load rover m;
        if callback (dt e) d then Some rover
        else find_loop nx dt callback d (nx e) m
      })"

lemma free_loop_spec:
  "chain nx (heap m) p as 0 \<Longrightarrow>
   \<exists>m'. free_loop nx p m = Some m' \<and> heap m' = (\<lambda>b. if b \<in> set as then None else heap m b)"
proof (induction as arbitrary: m p)
  case Nil
  then show ?case by (subst free_loop.simps) simp
next
  case (Cons a as)
  have "a \<notin> set as" using chain_distinct [OF Cons.prems] by simp
  moreover obtain e where e: "p = a" "a \<noteq> 0" "heap m a = Some e"
    "chain nx (heap m) (nx e) as 0" using Cons.prems by (auto simp: chain_Cons)
  let ?m = "m\<lparr>heap := (heap m)(a := None)\<rparr>"
  have "chain nx (heap ?m) (nx e) as 0" using e calculation by simp
  from Cons.IH [OF this] obtain m' where
    "free_loop nx (nx e) ?m = Some m'"
    "heap m' = (\<lambda>b. if b \<in> set as then None else heap ?m b)" by blast
  moreover from this e have "free_loop nx p m = Some m'"
    by (subst free_loop.simps) (simp add: mem_simps)
  ultimately show ?case by (auto simp: fun_eq_iff)
qed

lemma last_loop_spec: "chain nx (heap m) p (as @ [a]) 0 \<Longrightarrow> last_loop nx p m = Some a"
proof (induction as arbitrary: p)
  case Nil
  then show ?case by (subst last_loop.simps) (auto simp: chain_Cons mem_simps)
next
  case (Cons b as)
  then show ?case
    by (subst last_loop.simps) (cases as; auto simp: chain_Cons mem_simps)
qed

lemma nth_loop_spec:
  "chain nx (heap m) p as 0 \<Longrightarrow> nth_loop nx k p m = Some (if k < length as then as ! k else 0)"
proof (induction k arbitrary: p as)
  case 0
  then show ?case by (cases as) (auto simp: chain_Cons)
next
  case (Suc k)
  then show ?case by (cases as) (auto simp: chain_Cons mem_simps)
qed

lemma length_loop_spec:
  "chain nx (heap m) p as 0 \<Longrightarrow> length_loop nx p n m = Some (n + of_nat (length as))"
proof (induction as arbitrary: p n)
  case Nil
  then show ?case by (subst length_loop.simps) simp
next
  case (Cons a as)
  then show ?case by (subst length_loop.simps) (auto simp: chain_Cons mem_simps ac_simps)
qed

lemma copy_loop_spec:
  "chain nx (heap m) p as 0 \<Longrightarrow> k \<le> length as \<Longrightarrow>
   copy_loop nx dt k p m = Some (take k (datas dt (heap m) as))"
proof (induction k arbitrary: p as)
  case 0
  then show ?case by simp
next
  case (Suc k)
  then show ?case by (cases as) (auto simp: chain_Cons mem_simps)
qed

lemma unat_of_nat_le: "unat (of_nat n :: c_uint) \<le> n"
  by (simp add: unat_of_nat)

lemma find_loop_spec:
  "chain nx (heap m) p as 0 \<Longrightarrow> find_loop nx dt callback d p m =
     Some (case List.find (\<lambda>a. callback (dt (the (heap m a))) d) as of None \<Rightarrow> 0 | Some a \<Rightarrow> a)"
proof (induction as arbitrary: p)
  case Nil
  then show ?case by (subst find_loop.simps) simp
next
  case (Cons a as)
  then show ?case by (subst find_loop.simps) (auto simp: chain_Cons mem_simps)
qed

lemma datas_filter:
  "datas f h (filter (\<lambda>a. P (f (the (h a)))) as) = filter P (datas f h as)"
  by (induction as) (auto simp: datas_def)

lemma find_datas:
  "List.find P (datas f h as) =
   map_option (\<lambda>a. f (the (h a))) (List.find (\<lambda>a. P (f (the (h a)))) as)"
  by (induction as) (auto simp: datas_def)

text \<open>What a removal leaves: the cells \<open>D\<close> of \<open>as\<close> are freed, all others keep their values.\<close>

definition without :: "('n \<Rightarrow> 'v) \<Rightarrow> addr set \<Rightarrow> addr list \<Rightarrow> 'n mem \<Rightarrow> 'n mem \<Rightarrow> bool" where
  "without f D as m m' \<longleftrightarrow> answers m' = answers m \<and> (\<forall>b \<in> D. heap m' b = None) \<and>
     (\<forall>b. b \<notin> set as \<longrightarrow> heap m' b = heap m b) \<and>
     (\<forall>b. b \<notin> D \<longrightarrow> map_option f (heap m' b) = map_option f (heap m b))"

lemma without_datas:
  assumes "without f D as m m'" "set bs \<inter> D = {}" "set bs \<subseteq> dom (heap m)"
  shows "datas f (heap m') bs = datas f (heap m) bs"
  using assms by (intro datas_same_field) (auto simp: without_def)

lemma serves_without:
  assumes "serves h n m (set as)" "without f D as m m'" "set as - D \<subseteq> dom (heap m')"
  shows "serves h n m' (set as - D)"
  by (rule serves_free [OF assms(1)]) (use assms(2,3) in \<open>auto simp: without_def\<close>)

section \<open>The operations of a sequence\<close>

datatype seq_op =
  Prepend val | Append val | Nth_Data c_uint | Length | Remove_Nth c_uint |
  Remove_Data val | Find_Data val | To_Array | Sort

text \<open>
  The order the two sorting functions produce: the first value is the pivot, and the values
  before and after it are collected in reverse before they are sorted.
\<close>

function (sequential) pivot_sort :: "('a \<Rightarrow> 'a \<Rightarrow> int) \<Rightarrow> 'a list \<Rightarrow> 'a list" where
  "pivot_sort cmp [] = []"
| "pivot_sort cmp (x # xs) =
     pivot_sort cmp (rev (filter (\<lambda>y. cmp y x < 0) xs)) @
     x # pivot_sort cmp (rev (filter (\<lambda>y. \<not> cmp y x < 0) xs))"
  by pat_completeness auto
termination
  by (relation "measure (\<lambda>(cmp, xs). length xs)") (auto simp: less_Suc_eq_le)

lemma pivot_sort_single [simp]: "pivot_sort cmp [x] = [x]"
  by simp

lemma mset_pivot_sort: "mset (pivot_sort cmp xs) = mset xs"
  by (induction cmp xs rule: pivot_sort.induct) (auto simp: multiset_partition [symmetric])

lemma set_pivot_sort [simp]: "set (pivot_sort cmp xs) = set xs"
  by (metis mset_pivot_sort set_mset_mset)

lemma length_pivot_sort [simp]: "length (pivot_sort cmp xs) = length xs"
  by (metis mset_pivot_sort size_mset)

lemma distinct_pivot_sort [simp]: "distinct (pivot_sort cmp xs) = distinct xs"
  by (metis mset_pivot_sort mset_eq_imp_distinct_iff)

lemma pivot_sort_map:
  "pivot_sort cmp (map f xs) = map f (pivot_sort (\<lambda>a b. cmp (f a) (f b)) xs)"
proof (induction "\<lambda>a b. cmp (f a) (f b)" xs rule: pivot_sort.induct)
  case 1
  show ?case by simp
next
  case (2 x xs)
  then show ?case by (simp add: filter_map comp_def flip: rev_map)
qed

context comparator
begin

lemma sorted_pivot_sort: "sorted_wrt (\<lambda>a b. cmp a b \<le> 0) (pivot_sort cmp xs)"
proof (induction "length xs" arbitrary: xs rule: less_induct)
  case less
  show ?case
  proof (cases xs)
    case Nil
    then show ?thesis by simp
  next
    case (Cons x ys)
    let ?lo = "rev (filter (\<lambda>y. cmp y x < 0) ys)" and ?hi = "rev (filter (\<lambda>y. \<not> cmp y x < 0) ys)"
    have "length ?lo < length xs" "length ?hi < length xs"
      using Cons by (simp_all add: less_Suc_eq_le)
    then have "sorted_wrt (\<lambda>a b. cmp a b \<le> 0) (pivot_sort cmp ?lo)"
      "sorted_wrt (\<lambda>a b. cmp a b \<le> 0) (pivot_sort cmp ?hi)"
      using less by blast+
    moreover have "cmp a b \<le> 0" if "cmp a x < 0" "\<not> cmp b x < 0" for a b
      using that cmp_flip [of b x] cmp_le_flip [of x b] cmp_trans [of a x b] by linarith
    ultimately show ?thesis
      using Cons cmp_le_flip [of x] by (auto simp: sorted_wrt_append)
  qed
qed

end

fun seq_spec ::
  "(val \<Rightarrow> val \<Rightarrow> bool) \<Rightarrow> (val \<Rightarrow> val \<Rightarrow> int) \<Rightarrow> seq_op \<Rightarrow> val list \<Rightarrow> val list \<times> val list"
where
  "seq_spec eq cmp (Prepend x) xs = ([1], x # xs)"
| "seq_spec eq cmp (Append x) xs = ([1], xs @ [x])"
| "seq_spec eq cmp (Nth_Data n) xs = ([if unat n < length xs then xs ! unat n else 0], xs)"
| "seq_spec eq cmp Length xs = ([unat (of_nat (length xs) :: c_uint)], xs)"
| "seq_spec eq cmp (Remove_Nth n) xs =
     ([of_bool (unat n < length xs)], take (unat n) xs @ drop (Suc (unat n)) xs)"
| "seq_spec eq cmp (Remove_Data d) xs =
     ([unat (of_nat (length (filter (\<lambda>x. eq x d) xs)) :: c_uint)], filter (\<lambda>x. \<not> eq x d) xs)"
| "seq_spec eq cmp (Find_Data d) xs =
     ([case List.find (\<lambda>x. eq x d) xs of None \<Rightarrow> 0 | Some x \<Rightarrow> x], xs)"
| "seq_spec eq cmp To_Array xs = (take (unat (of_nat (length xs) :: c_uint)) xs, xs)"
| "seq_spec eq cmp Sort xs = ([], pivot_sort cmp xs)"

section \<open>The iterator\<close>

text \<open>
  An iterator has passed some values, may stand on one, and has the rest before it.  The value
  it stands on can be removed.
\<close>

datatype iter_op = Has_More | Next | Remove

type_synonym iter_state = "val list \<times> val option \<times> val list"

fun iter_spec :: "iter_op \<Rightarrow> iter_state \<Rightarrow> val \<times> iter_state" where
  "iter_spec Has_More (ps, c, rs) = (of_bool (rs \<noteq> []), ps, c, rs)"
| "iter_spec Next (ps, c, rs) =
     (let ps = (case c of None \<Rightarrow> ps | Some x \<Rightarrow> ps @ [x])
      in case rs of [] \<Rightarrow> (0, ps, None, []) | y # ys \<Rightarrow> (y, ps, Some y, ys))"
| "iter_spec Remove (ps, c, rs) = (0, ps, None, rs)"

definition iter_list :: "iter_state \<Rightarrow> val list" where
  "iter_list s = (case s of (ps, c, rs) \<Rightarrow> ps @ (case c of None \<Rightarrow> [] | Some x \<Rightarrow> [x]) @ rs)"

text \<open>
  The calls of the usual loop over a list that removes the values a predicate selects:
  \<open>while (has_more) { x = next; if (P x) remove; }\<close>.
\<close>

fun filter_calls :: "(val \<Rightarrow> bool) \<Rightarrow> val list \<Rightarrow> iter_op list" where
  "filter_calls P [] = [Has_More]"
| "filter_calls P (x # xs) = Has_More # Next # (if P x then [Remove] else []) @ filter_calls P xs"

fun filter_results :: "(val \<Rightarrow> bool) \<Rightarrow> val list \<Rightarrow> val list" where
  "filter_results P [] = [0]"
| "filter_results P (x # xs) = 1 # x # (if P x then [0] else []) @ filter_results P xs"

lemma spec_run_append:
  "spec_run spec (xs @ ys) a =
     (let (r1, a) = spec_run spec xs a; (r2, a) = spec_run spec ys a in (r1 @ r2, a))"
  by (induction xs arbitrary: a) (auto simp: split_beta Let_def)

lemma filter_calls_spec:
  "\<exists>ps' c'. spec_run iter_spec (filter_calls P rs) (ps, c, rs) =
     (filter_results P rs, ps', c', []) \<and>
   iter_list (ps', c', []) = iter_list (ps, c, []) @ filter (\<lambda>x. \<not> P x) rs"
proof (induction rs arbitrary: ps c)
  case Nil
  show ?case by (auto simp: iter_list_def)
next
  case (Cons x rs)
  let ?ps = "case c of None \<Rightarrow> ps | Some x \<Rightarrow> ps @ [x]"
  have ps: "iter_list (?ps, None, []) = iter_list (ps, c, [])"
    by (auto simp: iter_list_def split: option.splits)
  show ?case
    using Cons.IH [of ?ps None] Cons.IH [of ?ps "Some x"] ps
    by (auto simp: iter_list_def Let_def split: option.splits)
qed

section \<open>The interface of a list module\<close>

text \<open>
  The functions of a list module.  Those that the code gives a \<open>ListEntry **\<close> return the new
  value of the list variable.
\<close>

record 'n list_ops =
  op_prepend :: "addr \<Rightarrow> val \<Rightarrow> 'n mem \<Rightarrow> (addr \<times> addr \<times> 'n mem) option"
  op_append :: "addr \<Rightarrow> val \<Rightarrow> 'n mem \<Rightarrow> (addr \<times> addr \<times> 'n mem) option"
  op_nth_entry :: "addr \<Rightarrow> c_uint \<Rightarrow> 'n mem \<Rightarrow> addr option"
  op_nth_data :: "addr \<Rightarrow> c_uint \<Rightarrow> 'n mem \<Rightarrow> val option"
  op_length :: "addr \<Rightarrow> 'n mem \<Rightarrow> c_uint option"
  op_to_array :: "addr \<Rightarrow> 'n mem \<Rightarrow> (val list option \<times> 'n mem) option"
  op_remove_entry :: "addr \<Rightarrow> addr \<Rightarrow> 'n mem \<Rightarrow> (bool \<times> addr \<times> 'n mem) option"
  op_remove_data :: "addr \<Rightarrow> (val \<Rightarrow> val \<Rightarrow> bool) \<Rightarrow> val \<Rightarrow> 'n mem \<Rightarrow> (c_uint \<times> addr \<times> 'n mem) option"
  op_find_data :: "addr \<Rightarrow> (val \<Rightarrow> val \<Rightarrow> bool) \<Rightarrow> val \<Rightarrow> 'n mem \<Rightarrow> addr option"
  op_data :: "addr \<Rightarrow> 'n mem \<Rightarrow> val option"
  op_sort :: "(val \<Rightarrow> val \<Rightarrow> int) \<Rightarrow> addr \<Rightarrow> 'n mem \<Rightarrow> (addr \<times> 'n mem) option"
  op_free :: "addr \<Rightarrow> 'n mem \<Rightarrow> 'n mem option"
  op_iter_has_more :: "list_iterator \<Rightarrow> addr \<Rightarrow> 'n mem \<Rightarrow> bool option"
  op_iter_next :: "list_iterator \<Rightarrow> addr \<Rightarrow> 'n mem \<Rightarrow> (val \<times> list_iterator) option"
  op_iter_remove :: "list_iterator \<Rightarrow> addr \<Rightarrow> 'n mem \<Rightarrow> (list_iterator \<times> addr \<times> 'n mem) option"

text \<open>
  One call.  \<open>Remove_Nth\<close> passes the result of \<open>nth_entry\<close> to \<open>remove_entry\<close>, and \<open>Find_Data\<close>
  reads the entry that \<open>find_data\<close> returns.
\<close>

fun seq_step ::
  "'n list_ops \<Rightarrow> (val \<Rightarrow> val \<Rightarrow> bool) \<Rightarrow> (val \<Rightarrow> val \<Rightarrow> int) \<Rightarrow> seq_op \<Rightarrow> addr \<times> 'n mem \<Rightarrow>
   (val list \<times> addr \<times> 'n mem) option"
where
  "seq_step l eq cmp (Prepend x) (p, m) = do {
     (a, s) \<leftarrow> op_prepend l p x m; Some ([of_bool (a \<noteq> 0)], s) }"
| "seq_step l eq cmp (Append x) (p, m) = do {
     (a, s) \<leftarrow> op_append l p x m; Some ([of_bool (a \<noteq> 0)], s) }"
| "seq_step l eq cmp (Nth_Data n) (p, m) = do { x \<leftarrow> op_nth_data l p n m; Some ([x], p, m) }"
| "seq_step l eq cmp Length (p, m) = do { n \<leftarrow> op_length l p m; Some ([unat n], p, m) }"
| "seq_step l eq cmp (Remove_Nth n) (p, m) = do {
     a \<leftarrow> op_nth_entry l p n m;
     (r, s) \<leftarrow> op_remove_entry l p a m;
     Some ([of_bool r], s) }"
| "seq_step l eq cmp (Remove_Data d) (p, m) = do {
     (n, s) \<leftarrow> op_remove_data l p eq d m; Some ([unat n], s) }"
| "seq_step l eq cmp (Find_Data d) (p, m) = do {
     a \<leftarrow> op_find_data l p eq d m;
     if a = 0 then Some ([0], p, m) else do { x \<leftarrow> op_data l a m; Some ([x], p, m) } }"
| "seq_step l eq cmp To_Array (p, m) = do {
     (array, m) \<leftarrow> op_to_array l p m;
     Some (case array of None \<Rightarrow> [] | Some xs \<Rightarrow> xs, p, m) }"
| "seq_step l eq cmp Sort (p, m) = do { s \<leftarrow> op_sort l cmp p m; Some ([], s) }"

fun iter_step ::
  "'n list_ops \<Rightarrow> iter_op \<Rightarrow> list_iterator \<times> addr \<times> 'n mem \<Rightarrow>
   (val \<times> list_iterator \<times> addr \<times> 'n mem) option"
where
  "iter_step l Has_More (it, p, m) = do {
     b \<leftarrow> op_iter_has_more l it p m; Some (of_bool b, it, p, m) }"
| "iter_step l Next (it, p, m) = do { (x, it) \<leftarrow> op_iter_next l it p m; Some (x, it, p, m) }"
| "iter_step l Remove (it, p, m) = do { s \<leftarrow> op_iter_remove l it p m; Some (0, s) }"

text \<open>
  What a module promises of its functions: \<open>at m p as\<close> says that the list at \<open>p\<close> consists of
  the entries \<open>as\<close>, which are linked by the field \<open>nx\<close> and hold their value in the field \<open>dt\<close>.
\<close>

locale list_module =
  fixes l :: "'n list_ops"
    and at :: "'n mem \<Rightarrow> addr \<Rightarrow> addr list \<Rightarrow> bool"
    and nx :: "'n \<Rightarrow> addr" and dt :: "'n \<Rightarrow> val"
  assumes at_null: "at m 0 []"
    and at_chain: "at m p as \<Longrightarrow> chain nx (heap m) p as 0"
    and at_heap: "at m p as \<Longrightarrow> heap m' = heap m \<Longrightarrow> at m' p as"
    and prepend: "at m p as \<Longrightarrow> can_alloc m \<Longrightarrow> hd (answers m) = a \<Longrightarrow>
      \<exists>p' m'. op_prepend l p x m = Some (a, p', m') \<and> at m' p' (a # as) \<and>
        datas dt (heap m') (a # as) = x # datas dt (heap m) as \<and>
        answers m' = tl (answers m) \<and> (\<forall>b. b \<notin> set (a # as) \<longrightarrow> heap m' b = heap m b)"
    and append: "at m p as \<Longrightarrow> can_alloc m \<Longrightarrow> hd (answers m) = a \<Longrightarrow>
      \<exists>p' m'. op_append l p x m = Some (a, p', m') \<and> at m' p' (as @ [a]) \<and>
        datas dt (heap m') (as @ [a]) = datas dt (heap m) as @ [x] \<and>
        answers m' = tl (answers m) \<and> (\<forall>b. b \<notin> set (a # as) \<longrightarrow> heap m' b = heap m b)"
    and nth_entry: "at m p as \<Longrightarrow>
      op_nth_entry l p n m = Some (if unat n < length as then as ! unat n else 0)"
    and nth_data: "at m p as \<Longrightarrow>
      op_nth_data l p n m = Some (if unat n < length as then datas dt (heap m) as ! unat n else 0)"
    and list_length: "at m p as \<Longrightarrow> op_length l p m = Some (of_nat (length as))"
    and to_array: "at m p as \<Longrightarrow> op_to_array l p m =
      Some (if fst (malloc_block m)
            then Some (take (unat (of_nat (length as) :: c_uint)) (datas dt (heap m) as)) else None,
            snd (malloc_block m))"
    and find_data: "at m p as \<Longrightarrow> op_find_data l p eq d m =
      Some (case List.find (\<lambda>a. eq (dt (the (heap m a))) d) as of None \<Rightarrow> 0 | Some a \<Rightarrow> a)"
    and data: "a \<noteq> 0 \<Longrightarrow> heap m a = Some e \<Longrightarrow> op_data l a m = Some (dt e)"
    and remove_null: "op_remove_entry l p 0 m = Some (False, p, m)"
    and remove_entry: "at m p (us @ a # vs) \<Longrightarrow>
      \<exists>p' m'. op_remove_entry l p a m = Some (True, p', m') \<and> at m' p' (us @ vs) \<and>
        without dt {a} (us @ a # vs) m m'"
    and remove_data: "at m p as \<Longrightarrow>
      \<exists>p' m'. op_remove_data l p eq d m =
          Some (of_nat (length (filter (\<lambda>a. eq (dt (the (heap m a))) d) as)), p', m') \<and>
        at m' p' (filter (\<lambda>a. \<not> eq (dt (the (heap m a))) d) as) \<and>
        without dt (set (filter (\<lambda>a. eq (dt (the (heap m a))) d) as)) as m m'"
    and sort: "at m p as \<Longrightarrow>
      \<exists>p' m' as'. op_sort l cmp p m = Some (p', m') \<and> at m' p' as' \<and> set as' = set as \<and>
        datas dt (heap m') as' = pivot_sort cmp (datas dt (heap m) as) \<and> relinked dt (set as) m m'"
    and free_all: "at m p as \<Longrightarrow>
      \<exists>m'. op_free l p m = Some m' \<and> heap m' = (\<lambda>b. if b \<in> set as then None else heap m b)"
    and has_more: "iter_at it us cs \<Longrightarrow> at m p (us @ cs @ vs) \<Longrightarrow>
      op_iter_has_more l it p m = Some (vs \<noteq> [])"
    and iter_next: "iter_at it us cs \<Longrightarrow> at m p (us @ cs @ vs) \<Longrightarrow>
      \<exists>it'. op_iter_next l it p m = Some (if vs = [] then 0 else dt (the (heap m (hd vs))), it') \<and>
        iter_at it' (us @ cs) (take 1 vs)"
    and iter_remove: "iter_at it us cs \<Longrightarrow> at m p (us @ cs @ vs) \<Longrightarrow>
      \<exists>it' p' m'. op_iter_remove l it p m = Some (it', p', m') \<and> iter_at it' us [] \<and>
        at m' p' (us @ vs) \<and> without dt (set cs) (us @ cs @ vs) m m'"
begin

abbreviation vals :: "'n mem \<Rightarrow> addr list \<Rightarrow> val list" where
  "vals m as \<equiv> datas dt (heap m) as"

definition seq_in :: "(addr \<rightharpoonup> 'n) \<Rightarrow> nat \<Rightarrow> addr \<times> 'n mem \<Rightarrow> val list \<Rightarrow> bool" where
  "seq_in h n s xs \<longleftrightarrow> (\<exists>as. at (snd s) (fst s) as \<and> vals (snd s) as = xs \<and>
     serves h n (snd s) (set as))"

lemma seq_inI: "at m p as \<Longrightarrow> vals m as = xs \<Longrightarrow> serves h n m (set as) \<Longrightarrow> seq_in h n (p, m) xs"
  by (auto simp: seq_in_def)

lemma seq_inE:
  assumes "seq_in h n (p, m) xs"
  obtains as where "at m p as" "vals m as = xs" "serves h n m (set as)"
  using assms by (auto simp: seq_in_def)

lemma seq_in_le: "seq_in h n s xs \<Longrightarrow> k \<le> n \<Longrightarrow> seq_in h k s xs"
  by (auto simp: seq_in_def intro: serves_le)

lemma seq_in_null: "ample n m \<Longrightarrow> seq_in (heap m) n (0, m) []"
  by (rule seq_inI [OF at_null]) (simp_all add: serves_def)

lemma at_distinct: "at m p as \<Longrightarrow> distinct as"
  by (blast dest: at_chain chain_distinct)

lemma at_dom: "at m p as \<Longrightarrow> set as \<subseteq> dom (heap m)"
  by (blast dest: at_chain chain_dom)

text \<open>A call that adds an entry, and one that removes some.\<close>

lemma seq_in_add:
  assumes "serves h (Suc n) m (set as)" "at m' p' as'" "vals m' as' = xs"
    "set as' = insert (hd (answers m)) (set as)" "answers m' = tl (answers m)"
    "\<forall>b. b \<notin> set (hd (answers m) # as) \<longrightarrow> heap m' b = heap m b"
  shows "seq_in h n (p', m') xs"
  using serves_alloc [OF assms(1,5)] assms at_dom [OF assms(2)] by (auto intro: seq_inI)

lemma seq_in_without:
  assumes "serves h n m (set as)" "without dt D as m m'" "at m' p' bs" "set bs = set as - D"
    "at m p as"
  shows "seq_in h n (p', m') (vals m bs)"
proof (rule seq_inI [OF assms(3)])
  show "vals m' bs = vals m bs"
    by (rule without_datas [OF assms(2)]) (use assms(4) at_dom [OF assms(5)] in auto)
  show "serves h n m' (set bs)"
    using serves_without [OF assms(1,2)] assms(4) at_dom [OF assms(3)] by simp
qed

lemma prepend_in:
  assumes "seq_in h (Suc n) (p, m) xs"
  shows "\<exists>s. seq_step l eq cmp (Prepend x) (p, m) = Some ([1], s) \<and> seq_in h n s (x # xs)"
  using assms
proof (rule seq_inE)
  fix as assume as: "at m p as" "vals m as = xs" and srv: "serves h (Suc n) m (set as)"
  note can = serves_can_alloc [OF srv]
  from prepend [OF as(1) can refl, of x] obtain p' m' where r:
    "op_prepend l p x m = Some (hd (answers m), p', m')" "at m' p' (hd (answers m) # as)"
    "vals m' (hd (answers m) # as) = x # vals m as" "answers m' = tl (answers m)"
    "\<forall>b. b \<notin> set (hd (answers m) # as) \<longrightarrow> heap m' b = heap m b" by blast
  have "seq_in h n (p', m') (x # xs)"
    by (rule seq_in_add [OF srv r(2)]) (use r as in simp_all)
  with r(1) can show ?thesis by (auto simp: can_alloc_def split: list.splits)
qed

lemma append_in:
  assumes "seq_in h (Suc n) (p, m) xs"
  shows "\<exists>s. seq_step l eq cmp (Append x) (p, m) = Some ([1], s) \<and> seq_in h n s (xs @ [x])"
  using assms
proof (rule seq_inE)
  fix as assume as: "at m p as" "vals m as = xs" and srv: "serves h (Suc n) m (set as)"
  note can = serves_can_alloc [OF srv]
  from append [OF as(1) can refl, of x] obtain p' m' where r:
    "op_append l p x m = Some (hd (answers m), p', m')" "at m' p' (as @ [hd (answers m)])"
    "vals m' (as @ [hd (answers m)]) = vals m as @ [x]" "answers m' = tl (answers m)"
    "\<forall>b. b \<notin> set (hd (answers m) # as) \<longrightarrow> heap m' b = heap m b" by blast
  have "seq_in h n (p', m') (xs @ [x])"
    by (rule seq_in_add [OF srv r(2)]) (use r as in simp_all)
  with r(1) can show ?thesis by (auto simp: can_alloc_def split: list.splits)
qed

lemma remove_nth_in:
  assumes "seq_in h n (p, m) xs"
  shows "\<exists>s. seq_step l eq cmp (Remove_Nth k) (p, m) = Some ([of_bool (unat k < length xs)], s) \<and>
    seq_in h n s (take (unat k) xs @ drop (Suc (unat k)) xs)"
  using assms
proof (rule seq_inE)
  fix as assume as: "at m p as" "vals m as = xs" and srv: "serves h n m (set as)"
  then have len: "length as = length xs" by auto
  show ?thesis
  proof (cases "unat k < length as")
    case False
    with as len assms nth_entry [OF as(1), of k] show ?thesis by (simp add: remove_null)
  next
    case True
    define us e vs where "us = take (unat k) as" and "e = as ! unat k" and "vs = drop (Suc (unat k)) as"
    have split: "as = us @ e # vs" using True by (simp add: us_def e_def vs_def id_take_nth_drop)
    have dist: "distinct as" using as(1) by (rule at_distinct)
    from remove_entry [of m p us e vs] as(1) split obtain p' m' where r:
      "op_remove_entry l p e m = Some (True, p', m')" "at m' p' (us @ vs)"
      "without dt {e} as m m'" by auto
    from seq_in_without [OF srv r(3,2) _ as(1)] split dist
    have "seq_in h n (p', m') (vals m (us @ vs))" by auto
    moreover have "vals m (us @ vs) = take (unat k) xs @ drop (Suc (unat k)) xs"
      using as(2) by (auto simp: us_def vs_def datas_def take_map drop_map)
    ultimately show ?thesis
      using nth_entry [OF as(1), of k] True r(1) len by (auto simp: e_def)
  qed
qed

lemma remove_data_in:
  assumes "seq_in h n (p, m) xs"
  shows "\<exists>s. seq_step l eq cmp (Remove_Data d) (p, m) =
      Some ([unat (of_nat (length (filter (\<lambda>x. eq x d) xs)) :: c_uint)], s) \<and>
    seq_in h n s (filter (\<lambda>x. \<not> eq x d) xs)"
  using assms
proof (rule seq_inE)
  fix as assume as: "at m p as" "vals m as = xs" and srv: "serves h n m (set as)"
  let ?P = "\<lambda>a. eq (dt (the (heap m a))) d"
  from remove_data [OF as(1), of eq d] obtain p' m' where r:
    "op_remove_data l p eq d m = Some (of_nat (length (filter ?P as)), p', m')"
    "at m' p' (filter (\<lambda>a. \<not> ?P a) as)" "without dt (set (filter ?P as)) as m m'" by blast
  have "seq_in h n (p', m') (vals m (filter (\<lambda>a. \<not> ?P a) as))"
    by (rule seq_in_without [OF srv r(3,2) _ as(1)]) auto
  with r(1) show ?thesis
    unfolding as(2) [symmetric] by (auto simp flip: datas_filter)
qed

lemma find_data_in:
  assumes "at m p as"
  shows "seq_step l eq cmp (Find_Data d) (p, m) =
    Some ([case List.find (\<lambda>x. eq x d) (vals m as) of None \<Rightarrow> 0 | Some x \<Rightarrow> x], p, m)"
proof (cases "List.find (\<lambda>a. eq (dt (the (heap m a))) d) as")
  case None
  with assms show ?thesis by (simp add: find_data find_datas)
next
  case (Some a)
  then have "a \<in> set as" by (auto simp: find_Some_iff)
  with at_chain [OF assms] obtain e where "a \<noteq> 0" "heap m a = Some e"
    by (metis chain_in_heap chain_not_null)
  with Some assms data [of a m e] show ?thesis by (simp add: find_data find_datas)
qed

lemma to_array_in:
  assumes "seq_in h (Suc n) (p, m) xs"
  shows "\<exists>s. seq_step l eq cmp To_Array (p, m) =
      Some (take (unat (of_nat (length xs) :: c_uint)) xs, s) \<and> seq_in h n s xs"
  using assms
proof (rule seq_inE)
  fix as assume as: "at m p as" "vals m as = xs" and srv: "serves h (Suc n) m (set as)"
  have "heap (snd (malloc_block m)) = heap m"
    by (auto simp: malloc_block_def split: list.splits)
  then have "seq_in h n (p, snd (malloc_block m)) xs"
    using as serves_block [OF srv] by (auto intro!: seq_inI [of _ _ as] intro: at_heap)
  moreover have "length as = length xs" using as(2) by auto
  ultimately show ?thesis
    using to_array [OF as(1)] serves_block [OF srv] as(2) by auto
qed

lemma sort_in:
  assumes "seq_in h n (p, m) xs"
  shows "\<exists>s. seq_step l eq cmp Sort (p, m) = Some ([], s) \<and> seq_in h n s (pivot_sort cmp xs)"
  using assms
proof (rule seq_inE)
  fix as assume as: "at m p as" "vals m as = xs" and srv: "serves h n m (set as)"
  from sort [OF as(1), of cmp] obtain p' m' as' where r:
    "op_sort l cmp p m = Some (p', m')" "at m' p' as'" "set as' = set as"
    "vals m' as' = pivot_sort cmp (vals m as)" "relinked dt (set as) m m'" by blast
  from serves_relinked [OF srv r(5)] r as show ?thesis by (auto intro!: seq_inI [of _ _ as'])
qed

lemma seq_step_refines:
  assumes "seq_in h (Suc n) s xs"
  shows "\<exists>s'. seq_step l eq cmp op s = Some (fst (seq_spec eq cmp op xs), s') \<and>
    seq_in h n s' (snd (seq_spec eq cmp op xs))"
proof -
  obtain p m where s: "s = (p, m)" by (cases s)
  have le: "seq_in h n (p, m) xs" using assms s by (auto intro: seq_in_le)
  then obtain as where as: "at m p as" "vals m as = xs" by (auto simp: seq_in_def)
  then have len: "length as = length xs" by auto
  show ?thesis
  proof (cases op)
    case (Prepend x)
    with prepend_in [of h n p m xs eq cmp x] assms s show ?thesis by simp
  next
    case (Append x)
    with append_in [of h n p m xs eq cmp x] assms s show ?thesis by simp
  next
    case (Nth_Data k)
    with le s as len nth_data [OF as(1), of k] show ?thesis by auto
  next
    case Length
    with le s len list_length [OF as(1)] show ?thesis by auto
  next
    case (Remove_Nth k)
    with remove_nth_in [OF le, of eq cmp k] s show ?thesis by simp
  next
    case (Remove_Data d)
    with remove_data_in [OF le, of eq cmp d] s show ?thesis by simp
  next
    case (Find_Data d)
    with find_data_in [OF as(1), of eq cmp d] as(2) le s show ?thesis by simp
  next
    case To_Array
    with to_array_in [of h n p m xs eq cmp] assms s show ?thesis by simp
  next
    case Sort
    with sort_in [OF le, of eq cmp] s show ?thesis by simp
  qed
qed

text \<open>The same for the iterator.\<close>

definition iter_in ::
  "(addr \<rightharpoonup> 'n) \<Rightarrow> nat \<Rightarrow> list_iterator \<times> addr \<times> 'n mem \<Rightarrow> iter_state \<Rightarrow> bool"
where
  "iter_in h n s t \<longleftrightarrow> (case s of (it, p, m) \<Rightarrow> \<exists>us cs vs. iter_at it us cs \<and> at m p (us @ cs @ vs) \<and>
     t = (vals m us, if cs = [] then None else Some (hd (vals m cs)), vals m vs) \<and>
     serves h n m (set (us @ cs @ vs)))"

lemma iter_inI:
  "iter_at it us cs \<Longrightarrow> at m p (us @ cs @ vs) \<Longrightarrow>
   t = (vals m us, if cs = [] then None else Some (hd (vals m cs)), vals m vs) \<Longrightarrow>
   serves h n m (set (us @ cs @ vs)) \<Longrightarrow> iter_in h n (it, p, m) t"
  unfolding iter_in_def by blast

lemma iter_inE:
  assumes "iter_in h n (it, p, m) t"
  obtains us cs vs where "iter_at it us cs" "at m p (us @ cs @ vs)"
    "t = (vals m us, if cs = [] then None else Some (hd (vals m cs)), vals m vs)"
    "serves h n m (set (us @ cs @ vs))"
  using assms by (auto simp: iter_in_def)

lemma iter_step_refines:
  assumes "iter_in h (Suc n) s t"
  shows "\<exists>s'. iter_step l op s = Some (fst (iter_spec op t), s') \<and>
    iter_in h n s' (snd (iter_spec op t))"
proof -
  obtain it p m where s: "s = (it, p, m)" by (cases s)
  with assms obtain us cs vs where it: "iter_at it us cs" and at: "at m p (us @ cs @ vs)"
    and t: "t = (vals m us, if cs = [] then None else Some (hd (vals m cs)), vals m vs)"
    and srv: "serves h (Suc n) m (set (us @ cs @ vs))" by (auto elim: iter_inE)
  have srv': "serves h n m (set (us @ cs @ vs))" using srv by (rule serves_le) simp
  have len: "cs = [] \<or> (\<exists>a. cs = [a])" using it by (auto simp: iter_at_def)
  show ?thesis
  proof (cases op)
    case Has_More
    with has_more [OF it at] s t iter_inI [OF it at t srv'] show ?thesis by auto
  next
    case Next
    from iter_next [OF it at] obtain it' where
      it': "op_iter_next l it p m = Some (if vs = [] then 0 else dt (the (heap m (hd vs))), it')"
      "iter_at it' (us @ cs) (take 1 vs)" by blast
    have "at m p ((us @ cs) @ take 1 vs @ tl vs)" using at by (cases vs) simp_all
    then have "iter_in h n (it', p, m) (snd (iter_spec Next t))"
      by (rule iter_inI [OF it'(2)]) (use t len srv' in \<open>cases vs; auto\<close>)+
    with Next it'(1) s t len show ?thesis by (cases vs) (auto simp: Let_def)
  next
    case Remove
    from iter_remove [OF it at] obtain it' p' m' where
      r: "op_iter_remove l it p m = Some (it', p', m')" "iter_at it' us []" "at m' p' (us @ vs)"
        "without dt (set cs) (us @ cs @ vs) m m'" by blast
    have dist: "distinct (us @ cs @ vs)" and dom: "set (us @ cs @ vs) \<subseteq> dom (heap m)"
      using at by (blast dest: at_distinct at_dom)+
    have eqs: "vals m' us = vals m us" "vals m' vs = vals m vs"
      by (rule without_datas [OF r(4)]; use dist dom in auto)+
    have "set (us @ cs @ vs) - set cs = set (us @ [] @ vs)" using dist by auto
    with serves_without [OF srv' r(4)] at_dom [OF r(3)]
    have "serves h n m' (set (us @ [] @ vs))" by simp
    then have "iter_in h n (it', p', m') (snd (iter_spec Remove t))"
      using r(3) eqs t by (intro iter_inI [OF r(2)]) simp_all
    with Remove r(1) s t show ?thesis by simp
  qed
qed

lemma iterate_in:
  "it = \<lparr>it_prev_next = List_Var, it_current = 0\<rparr> \<Longrightarrow> seq_in h n (p, m) xs \<Longrightarrow>
   iter_in h n (it, p, m) ([], None, xs)"
  by (elim seq_inE, rule iter_inI [of _ "[]" "[]"]) (auto simp: iter_at_def)

lemma iter_in_list:
  assumes "iter_in h n (it, p, m) t"
  shows "seq_in h n (p, m) (iter_list t)"
  using assms
proof (rule iter_inE)
  fix us cs vs
  assume *: "iter_at it us cs" "at m p (us @ cs @ vs)" "serves h n m (set (us @ cs @ vs))"
    and t: "t = (vals m us, if cs = [] then None else Some (hd (vals m cs)), vals m vs)"
  have "vals m (us @ cs @ vs) = iter_list t"
    using * t by (auto simp: iter_list_def iter_at_def)
  with * show ?thesis by (blast intro: seq_inI)
qed

lemma free_in:
  assumes "seq_in h n (p, m) xs"
  shows "\<exists>m'. op_free l p m = Some m' \<and> heap m' = h"
  using assms free_all by (elim seq_inE) (blast dest: serves_release)

end

sublocale list_module \<subseteq> seq: adt_refinement "seq_step l eq cmp" "seq_spec eq cmp" "seq_in h"
  for eq cmp h
  by unfold_locales (rule seq_step_refines)

sublocale list_module \<subseteq> iter: adt_refinement "iter_step l" iter_spec "iter_in h" for h
  by unfold_locales (rule iter_step_refines)

context list_module
begin

lemma is_sequence:
  "ample (length ops) m \<Longrightarrow>
   \<exists>p' m'. run (seq_step l eq cmp) ops (0, m) =
     Some (fst (spec_run (seq_spec eq cmp) ops []), p', m')"
  using seq.run_refines [of "heap m" ops 0 "(0, m)" "[]" eq cmp] seq_in_null [of "length ops" m]
  by auto

lemma sort_correct:
  assumes "comparator cmp" "at m p as"
  shows "\<exists>p' m' as'. op_sort l cmp p m = Some (p', m') \<and> at m' p' as' \<and>
    set as' = set as \<and> mset (vals m' as') = mset (vals m as) \<and>
    sorted_wrt (\<lambda>a b. cmp a b \<le> 0) (vals m' as') \<and>
    (\<forall>b. b \<notin> set as \<longrightarrow> heap m' b = heap m b) \<and>
    (\<forall>b. map_option dt (heap m' b) = map_option dt (heap m b))"
  using sort [OF assms(2), of cmp] mset_pivot_sort [of cmp "vals m as"]
    comparator.sorted_pivot_sort [OF assms(1), of "vals m as"]
  unfolding relinked_def by metis

lemma iter_filters:
  assumes "ample n m" "run (seq_step l eq cmp) ops (0, m) = Some (rs, p, m1)"
    "snd (spec_run (seq_spec eq cmp) ops []) = xs" "length ops + length (filter_calls P xs) \<le> n"
    "it0 = \<lparr>it_prev_next = List_Var, it_current = 0\<rparr>"
  shows "\<exists>it p' m2 as m3. run (iter_step l) (filter_calls P xs) (it0, p, m1) =
      Some (filter_results P xs, it, p', m2) \<and>
    at m2 p' as \<and> vals m2 as = filter (\<lambda>x. \<not> P x) xs \<and> op_free l p' m2 = Some m3 \<and> heap m3 = heap m"
proof -
  have "seq_in (heap m) (length ops + length (filter_calls P xs)) (0, m) []"
    using seq_in_null [OF assms(1)] assms(4) by (rule seq_in_le)
  from seq.run_refines [OF this, of eq cmp] assms(2,3)
  have "seq_in (heap m) (length (filter_calls P xs)) (p, m1) xs" by auto
  from iter.run_refines [of "heap m" "filter_calls P xs" 0, simplified, OF iterate_in [OF assms(5) this]]
    filter_calls_spec [of P xs "[]" None]
  obtain it p' m2 t where r: "run (iter_step l) (filter_calls P xs) (it0, p, m1) =
      Some (filter_results P xs, it, p', m2)" "iter_in (heap m) 0 (it, p', m2) t"
    "iter_list t = filter (\<lambda>x. \<not> P x) xs"
    by (force simp: iter_list_def)
  from iter_in_list [OF r(2)] have s: "seq_in (heap m) 0 (p', m2) (iter_list t)" .
  with r(3) free_in [OF s] r(1) show ?thesis by (elim seq_inE) auto
qed

end

end
