(* ===== verification/SList.thy ===== *)
theory SList
  imports Sequence
begin

text \<open>
  The singly linked list of \<open>libcalg/src/slist.c\<close>, every function of the file.  The caller's
  list variable is the argument \<open>list\<close>, the address of the first entry; an operation that the
  code gives a \<open>SListEntry **\<close> returns its new value.
\<close>

section \<open>The code\<close>

record slist_entry =
  se_data :: val
  se_next :: addr

type_synonym smem = "slist_entry mem"

definition slist_free :: "addr \<Rightarrow> smem \<Rightarrow> smem option" where
  "slist_free list m = free_loop se_next list m"

definition slist_prepend :: "addr \<Rightarrow> val \<Rightarrow> smem \<Rightarrow> addr \<times> addr \<times> smem" where
  "slist_prepend list data m =
     (let (newentry, m) = malloc \<lparr>se_data = data, se_next = list\<rparr> m
      in if newentry = 0 then (0, list, m) else (newentry, newentry, m))"

definition slist_append :: "addr \<Rightarrow> val \<Rightarrow> smem \<Rightarrow> (addr \<times> addr \<times> smem) option" where
  "slist_append list data m =
     (let (newentry, m) = malloc \<lparr>se_data = data, se_next = 0\<rparr> m
      in if newentry = 0 then Some (0, list, m)
         else if list = 0 then Some (newentry, newentry, m)
         else do {
           rover \<leftarrow> last_loop se_next list m;
           e \<leftarrow> load rover m;
           m \<leftarrow> store rover (e\<lparr>se_next := newentry\<rparr>) m;
           Some (newentry, list, m)
         })"

definition slist_data :: "addr \<Rightarrow> smem \<Rightarrow> val option" where
  "slist_data listentry m = do { e \<leftarrow> load listentry m; Some (se_data e) }"

definition slist_next :: "addr \<Rightarrow> smem \<Rightarrow> addr option" where
  "slist_next listentry m = do { e \<leftarrow> load listentry m; Some (se_next e) }"

definition slist_nth_entry :: "addr \<Rightarrow> c_uint \<Rightarrow> smem \<Rightarrow> addr option" where
  "slist_nth_entry list n m = nth_loop se_next (unat n) list m"

definition slist_nth_data :: "addr \<Rightarrow> c_uint \<Rightarrow> smem \<Rightarrow> val option" where
  "slist_nth_data list n m = do {
     entry \<leftarrow> slist_nth_entry list n m;
     if entry = 0 then Some 0 else do { e \<leftarrow> load entry m; Some (se_data e) }
   }"

definition slist_length :: "addr \<Rightarrow> smem \<Rightarrow> c_uint option" where
  "slist_length list m = length_loop se_next list 0 m"

definition slist_to_array :: "addr \<Rightarrow> smem \<Rightarrow> (val list option \<times> smem) option" where
  "slist_to_array list m = do {
     length \<leftarrow> slist_length list m;
     let (ok, m) = malloc_block m;
     if \<not> ok then Some (None, m)
     else do { array \<leftarrow> copy_loop se_next se_data (unat length) list m; Some (Some array, m) }
   }"

text \<open>The search for the entry before \<open>entry\<close>, 0 if the end is reached.\<close>

partial_function (option) slist_find_prev :: "addr \<Rightarrow> addr \<Rightarrow> smem \<Rightarrow> addr option" where
  "slist_find_prev rover entry m =
     (if rover = 0 then Some 0
      else do {
        r \<leftarrow> load rover m;
        if se_next r \<noteq> entry then slist_find_prev (se_next r) entry m else Some rover
      })"

definition slist_remove_entry :: "addr \<Rightarrow> addr \<Rightarrow> smem \<Rightarrow> (bool \<times> addr \<times> smem) option" where
  "slist_remove_entry list entry m =
     (if list = 0 \<or> entry = 0 then Some (False, list, m)
      else if list = entry then do {
        e \<leftarrow> load entry m;
        m \<leftarrow> free entry m;
        Some (True, se_next e, m)
      }
      else do {
        rover \<leftarrow> slist_find_prev list entry m;
        if rover = 0 then Some (False, list, m)
        else do {
          e \<leftarrow> load entry m;
          r \<leftarrow> load rover m;
          m \<leftarrow> store rover (r\<lparr>se_next := se_next e\<rparr>) m;
          m \<leftarrow> free entry m;
          Some (True, list, m)
        }
      })"

text \<open>Reading and writing through a \<open>SListEntry **\<close>.\<close>

abbreviation slist_slot_get :: "slot \<Rightarrow> addr \<Rightarrow> smem \<Rightarrow> addr option" where
  "slist_slot_get \<equiv> slot_get se_next"

abbreviation slist_slot_set :: "slot \<Rightarrow> addr \<Rightarrow> addr \<Rightarrow> smem \<Rightarrow> (addr \<times> smem) option" where
  "slist_slot_set \<equiv> slot_set (\<lambda>q. se_next_update (\<lambda>_. q))"

partial_function (option) slist_remove_loop ::
  "(val \<Rightarrow> val \<Rightarrow> bool) \<Rightarrow> val \<Rightarrow> slot \<Rightarrow> c_uint \<Rightarrow> addr \<Rightarrow> smem \<Rightarrow> (c_uint \<times> addr \<times> smem) option"
where
  "slist_remove_loop callback data rover entries_removed list m = do {
     cur \<leftarrow> slist_slot_get rover list m;
     if cur = 0 then Some (entries_removed, list, m)
     else do {
       e \<leftarrow> load cur m;
       if callback (se_data e) data then do {
         m \<leftarrow> free cur m;
         (list, m) \<leftarrow> slist_slot_set rover (se_next e) list m;
         slist_remove_loop callback data rover (entries_removed + 1) list m
       }
       else slist_remove_loop callback data (Next_Of cur) entries_removed list m
     }
   }"

definition slist_remove_data ::
  "addr \<Rightarrow> (val \<Rightarrow> val \<Rightarrow> bool) \<Rightarrow> val \<Rightarrow> smem \<Rightarrow> (c_uint \<times> addr \<times> smem) option"
where
  "slist_remove_data list callback data m = slist_remove_loop callback data List_Var 0 list m"

text \<open>The loop that distributes the entries after the pivot over the two lists.\<close>

partial_function (option) slist_partition ::
  "(val \<Rightarrow> val \<Rightarrow> int) \<Rightarrow> addr \<Rightarrow> addr \<Rightarrow> addr \<Rightarrow> addr \<Rightarrow> smem \<Rightarrow> (addr \<times> addr \<times> smem) option"
where
  "slist_partition compare_func pivot rover less_list more_list m =
     (if rover = 0 then Some (less_list, more_list, m)
      else do {
        r \<leftarrow> load rover m;
        p \<leftarrow> load pivot m;
        if compare_func (se_data r) (se_data p) < 0 then do {
          m \<leftarrow> store rover (r\<lparr>se_next := less_list\<rparr>) m;
          slist_partition compare_func pivot (se_next r) rover more_list m
        }
        else do {
          m \<leftarrow> store rover (r\<lparr>se_next := more_list\<rparr>) m;
          slist_partition compare_func pivot (se_next r) less_list rover m
        }
      })"

text \<open>Returns the last entry, and the new value of the list variable.\<close>

partial_function (option) slist_sort_internal ::
  "(val \<Rightarrow> val \<Rightarrow> int) \<Rightarrow> addr \<Rightarrow> smem \<Rightarrow> (addr \<times> addr \<times> smem) option"
where
  "slist_sort_internal compare_func list m =
     (if list = 0 then Some (list, list, m)
      else do {
        h \<leftarrow> load list m;
        if se_next h = 0 then Some (list, list, m)
        else do {
          let pivot = list;
          (less_list, more_list, m) \<leftarrow> slist_partition compare_func pivot (se_next h) 0 0 m;
          (less_list_end, less_list, m) \<leftarrow> slist_sort_internal compare_func less_list m;
          (more_list_end, more_list, m) \<leftarrow> slist_sort_internal compare_func more_list m;
          (list, m) \<leftarrow>
            (if less_list = 0 then Some (pivot, m)
             else do {
               e \<leftarrow> load less_list_end m;
               m \<leftarrow> store less_list_end (e\<lparr>se_next := pivot\<rparr>) m;
               Some (less_list, m)
             });
          p \<leftarrow> load pivot m;
          m \<leftarrow> store pivot (p\<lparr>se_next := more_list\<rparr>) m;
          Some (if more_list = 0 then pivot else more_list_end, list, m)
        }
      })"

definition slist_sort :: "(val \<Rightarrow> val \<Rightarrow> int) \<Rightarrow> addr \<Rightarrow> smem \<Rightarrow> (addr \<times> smem) option" where
  "slist_sort compare_func list m = do {
     (_, list, m) \<leftarrow> slist_sort_internal compare_func list m;
     Some (list, m)
   }"

definition slist_find_data ::
  "addr \<Rightarrow> (val \<Rightarrow> val \<Rightarrow> bool) \<Rightarrow> val \<Rightarrow> smem \<Rightarrow> addr option"
where
  "slist_find_data list callback data m = find_loop se_next se_data callback data list m"

definition slist_iterate :: list_iterator where
  "slist_iterate = \<lparr>it_prev_next = List_Var, it_current = 0\<rparr>"

definition slist_iter_has_more :: "list_iterator \<Rightarrow> addr \<Rightarrow> smem \<Rightarrow> bool option" where
  "slist_iter_has_more iter list m = iter_has_more se_next iter list m"

definition slist_iter_next ::
  "list_iterator \<Rightarrow> addr \<Rightarrow> smem \<Rightarrow> (val \<times> list_iterator) option"
where
  "slist_iter_next iter list m = iter_next se_next se_data iter list m"

definition slist_iter_remove ::
  "list_iterator \<Rightarrow> addr \<Rightarrow> smem \<Rightarrow> (list_iterator \<times> addr \<times> smem) option"
where
  "slist_iter_remove iter list m =
     (if it_current iter = 0 then Some (iter, list, m)
      else do {
        p \<leftarrow> slist_slot_get (it_prev_next iter) list m;
        if it_current iter \<noteq> p then Some (iter, list, m)
        else do {
          e \<leftarrow> load (it_current iter) m;
          (list, m) \<leftarrow> slist_slot_set (it_prev_next iter) (se_next e) list m;
          m \<leftarrow> free (it_current iter) m;
          Some (iter\<lparr>it_current := 0\<rparr>, list, m)
        }
      })"

section \<open>The functions on a represented list\<close>

abbreviation slist_at :: "smem \<Rightarrow> addr \<Rightarrow> addr list \<Rightarrow> bool" where
  "slist_at m p as \<equiv> chain se_next (heap m) p as 0"

abbreviation slist_datas :: "smem \<Rightarrow> addr list \<Rightarrow> val list" where
  "slist_datas m as \<equiv> datas se_data (heap m) as"

lemma slist_at_Cons:
  assumes "slist_at m p (a # as)"
  obtains e where "p = a" "a \<noteq> 0" "heap m a = Some e" "slist_at m (se_next e) as" "a \<notin> set as"
proof -
  from assms have "distinct (a # as)" by (rule chain_distinct)
  with assms that show ?thesis by (auto simp: chain_Cons)
qed

lemma slist_nth_entry_spec:
  "slist_at m p as \<Longrightarrow> slist_nth_entry p n m = Some (if unat n < length as then as ! unat n else 0)"
  by (simp add: slist_nth_entry_def nth_loop_spec)

lemma slist_nth_data_spec:
  assumes "slist_at m p as"
  shows "slist_nth_data p n m =
    Some (if unat n < length as then slist_datas m as ! unat n else 0)"
proof (cases "unat n < length as")
  case True
  then have "as ! unat n \<in> set as" by simp
  with assms chain_in_heap chain_not_null obtain e where
    "heap m (as ! unat n) = Some e" "as ! unat n \<noteq> 0" by metis
  with True assms show ?thesis
    by (simp add: slist_nth_data_def slist_nth_entry_spec datas_def mem_simps)
qed (use assms in \<open>simp add: slist_nth_data_def slist_nth_entry_spec\<close>)

lemma slist_length_spec: "slist_at m p as \<Longrightarrow> slist_length p m = Some (of_nat (length as))"
  by (simp add: slist_length_def length_loop_spec)

lemma slist_to_array_spec:
  assumes "slist_at m p as"
  shows "slist_to_array p m =
    Some (if fst (malloc_block m)
          then Some (take (unat (of_nat (length as) :: c_uint)) (slist_datas m as)) else None,
          snd (malloc_block m))"
proof -
  have "heap (snd (malloc_block m)) = heap m"
    by (auto simp: malloc_block_def split: list.splits)
  with assms have "slist_at (snd (malloc_block m)) p as" by simp
  from copy_loop_spec [OF this unat_of_nat_le] assms show ?thesis
    by (auto simp: slist_to_array_def slist_length_spec split_beta malloc_block_def split: list.splits)
qed

lemma slist_find_data_spec:
  "slist_at m p as \<Longrightarrow> slist_find_data p callback d m =
     Some (case List.find (\<lambda>a. callback (se_data (the (heap m a))) d) as of None \<Rightarrow> 0 | Some a \<Rightarrow> a)"
  by (simp add: slist_find_data_def find_loop_spec)

section \<open>Adding entries\<close>

lemma slist_prepend_spec:
  assumes "slist_at m p as"
  shows "\<exists>p' m'. slist_prepend p x m = (if can_alloc m then hd (answers m) else 0, p', m') \<and>
    answers m' = tl (answers m) \<and>
    (if can_alloc m
     then heap m (hd (answers m)) = None \<and> slist_at m' p' (hd (answers m) # as) \<and>
       slist_datas m' (hd (answers m) # as) = x # slist_datas m as \<and>
       (\<forall>b. b \<noteq> hd (answers m) \<longrightarrow> heap m' b = heap m b)
     else p' = p \<and> heap m' = heap m)"
proof (cases rule: malloc_cases [of "\<lparr>se_data = x, se_next = p\<rparr>" m])
  case (fail m')
  then show ?thesis by (simp add: slist_prepend_def)
next
  case (ok a m')
  moreover have "a \<notin> set as" using assms ok(5) by (rule chain_fresh)
  ultimately show ?thesis using assms by (simp add: slist_prepend_def chain_Cons)
qed

lemma slist_append_spec:
  assumes "slist_at m p as"
  shows "\<exists>p' m'. slist_append p x m = Some (if can_alloc m then hd (answers m) else 0, p', m') \<and>
    answers m' = tl (answers m) \<and>
    (if can_alloc m
     then heap m (hd (answers m)) = None \<and> slist_at m' p' (as @ [hd (answers m)]) \<and>
       slist_datas m' (as @ [hd (answers m)]) = slist_datas m as @ [x] \<and>
       (\<forall>b. b \<notin> set (hd (answers m) # as) \<longrightarrow> heap m' b = heap m b)
     else p' = p \<and> heap m' = heap m)"
proof (cases rule: malloc_cases [of "\<lparr>se_data = x, se_next = 0\<rparr>" m])
  case (fail m')
  then show ?thesis by (simp add: slist_append_def)
next
  case (ok a m')
  have a: "a \<notin> set as" using assms ok(5) by (rule chain_fresh)
  show ?thesis
  proof (cases as rule: rev_cases)
    case Nil
    with ok assms show ?thesis by (simp add: slist_append_def chain_Cons)
  next
    case (snoc us l)
    have at: "slist_at m' p (us @ [l])" using assms a ok snoc by simp
    have "distinct as" using assms by (rule chain_distinct)
    with assms snoc a obtain e where e: "p \<noteq> 0" "l \<noteq> 0" "heap m l = Some e" "l \<notin> set us" "l \<noteq> a"
      by (cases us) (auto simp: chain_Cons)
    have link: "chain se_next ((heap m')(l \<mapsto> e\<lparr>se_next := a\<rparr>)) p (us @ [l]) a"
      by (rule chain_upd_last [OF at]) (use e in simp_all)
    show ?thesis
      using ok snoc e a link last_loop_spec [OF at]
      by (auto simp: slist_append_def mem_simps chain_Cons simp del: chain_append)
        (auto simp: chain_Cons)
  qed
qed

section \<open>Removing entries\<close>

lemma slist_find_prev_spec:
  "slist_at m p (us @ a # e # vs) \<Longrightarrow> slist_find_prev p e m = Some a"
proof (induction us arbitrary: p)
  case Nil
  then show ?case by (subst slist_find_prev.simps) (auto simp: chain_Cons mem_simps)
next
  case (Cons b us)
  from Cons.prems have "distinct (b # us @ a # e # vs)" by (metis append_Cons chain_distinct)
  with Cons show ?case
    by (subst slist_find_prev.simps) (cases us; auto simp: chain_Cons mem_simps)
qed

lemma slist_find_prev_none:
  "slist_at m p as \<Longrightarrow> e \<notin> set as \<Longrightarrow> e \<noteq> 0 \<Longrightarrow> slist_find_prev p e m = Some 0"
proof (induction as arbitrary: p)
  case Nil
  then show ?case by (subst slist_find_prev.simps) simp
next
  case (Cons a as)
  then show ?case
    by (subst slist_find_prev.simps) (cases as; auto simp: chain_Cons mem_simps)
qed

lemma slist_remove_entry_spec:
  assumes at: "slist_at m p (us @ e # vs)"
  shows "\<exists>p' m'. slist_remove_entry p e m = Some (True, p', m') \<and> slist_at m' p' (us @ vs) \<and>
    without se_data {e} (us @ e # vs) m m'"
proof -
  have dist: "distinct (us @ e # vs)" using at by (rule chain_distinct)
  from at obtain en where e: "e \<noteq> 0" "heap m e = Some en" "chain se_next (heap m) p us e"
    "slist_at m (se_next en) vs" by (auto simp: chain_Cons)
  show ?thesis
  proof (cases us rule: rev_cases)
    case Nil
    with e dist show ?thesis
      by (auto simp: slist_remove_entry_def mem_simps without_def)
  next
    case (snoc ws a)
    with e obtain an where a: "a \<noteq> 0" "heap m a = Some an" by (auto simp: chain_Cons)
    let ?h = "(heap m)(a \<mapsto> an\<lparr>se_next := se_next en\<rparr>)"
    have "p \<noteq> 0" "p \<noteq> e" using e snoc dist by (cases ws; auto simp: chain_Cons)+
    moreover have "slist_find_prev p e m = Some a"
      using at snoc slist_find_prev_spec [of m p ws a e vs] by simp
    ultimately have "slist_remove_entry p e m = Some (True, p, m\<lparr>heap := ?h(e := None)\<rparr>)"
      using e a snoc dist by (auto simp: slist_remove_entry_def mem_simps)
    moreover have "chain se_next ?h p us (se_next en)"
      unfolding snoc by (rule chain_upd_last) (use e snoc dist in auto)
    then have "chain se_next (?h(e := None)) p us (se_next en)"
      using dist by (simp del: fun_upd_apply)
    moreover have "chain se_next (?h(e := None)) (se_next en) vs 0"
      using e dist snoc by (simp del: fun_upd_apply)
    ultimately have "chain se_next (?h(e := None)) p (us @ vs) 0"
      and "slist_remove_entry p e m = Some (True, p, m\<lparr>heap := ?h(e := None)\<rparr>)"
      by (auto simp del: fun_upd_apply)
    moreover have "without se_data {e} (us @ e # vs) m (m\<lparr>heap := ?h(e := None)\<rparr>)"
      using a snoc by (auto simp: without_def)
    ultimately show ?thesis by auto
  qed
qed

lemma slist_remove_entry_absent:
  "slist_at m p as \<Longrightarrow> e \<notin> set as \<Longrightarrow> slist_remove_entry p e m = Some (False, p, m)"
  using slist_find_prev_none [of m p as e]
  by (cases as) (auto simp: slist_remove_entry_def chain_Cons)

text \<open>The loop of \<open>slist_remove_data\<close>, after the entries \<open>us\<close> it keeps.\<close>

lemma slist_remove_loop_spec:
  assumes "chain se_next (heap m) p us q" "chain se_next (heap m) q vs 0" "distinct (us @ vs)"
  shows "\<exists>p' m'. slist_remove_loop callback d (slot_after us) n p m =
      Some (n + of_nat (length (filter (\<lambda>a. callback (se_data (the (heap m a))) d) vs)), p', m') \<and>
    slist_at m' p' (us @ filter (\<lambda>a. \<not> callback (se_data (the (heap m a))) d) vs) \<and>
    without se_data (set (filter (\<lambda>a. callback (se_data (the (heap m a))) d) vs)) (us @ vs) m m'"
  using assms
proof (induction vs arbitrary: us n p q m)
  case Nil
  then show ?case
    using slot_get_after [OF Nil.prems(1)]
    by (subst slist_remove_loop.simps) (auto simp: without_def)
next
  case (Cons a vs)
  from Cons.prems(2) obtain e where e: "q = a" "a \<noteq> 0" "heap m a = Some e"
    "slist_at m (se_next e) vs" by (auto simp: chain_Cons)
  note get = slot_get_after [OF Cons.prems(1)]
  let ?rem = "\<lambda>m a. callback (se_data (the (heap m a))) d"
  show ?case
  proof (cases "callback (se_data e) d")
    case True
    let ?m = "m\<lparr>heap := (heap m)(a := None)\<rparr>"
    have "chain se_next (heap ?m) p us q" using Cons.prems by simp
    from slot_set_after [OF this, of "\<lambda>q. se_next_update (\<lambda>_. q)" se_data "se_next e"] Cons.prems(3)
    obtain p1 m1 where set: "slist_slot_set (slot_after us) (se_next e) p ?m = Some (p1, m1)"
      "chain se_next (heap m1) p1 us (se_next e)" "relinked se_data (set us) ?m m1" by auto
    have same: "heap m1 b = heap m b" if "b \<in> set vs" for b
    proof -
      have "b \<notin> set us" "b \<noteq> a" using that Cons.prems(3) by auto
      with relinked_frame [OF set(3), of b] show ?thesis by simp
    qed
    have "slist_at ?m (se_next e) vs" using e Cons.prems(3) by simp
    moreover have "set vs \<inter> set us = {}" using Cons.prems(3) by auto
    ultimately have "chain se_next (heap m1) (se_next e) vs 0"
      using relinked_chain [OF set(3)] by blast
    from Cons.IH [OF set(2) this, of "n + 1"] Cons.prems(3) obtain p' m' where IH:
      "slist_remove_loop callback d (slot_after us) (n + 1) p1 m1 =
        Some (n + 1 + of_nat (length (filter (?rem m1) vs)), p', m')"
      "slist_at m' p' (us @ filter (\<lambda>a. \<not> ?rem m1 a) vs)"
      "without se_data (set (filter (?rem m1) vs)) (us @ vs) m1 m'" by auto
    have eqs: "filter (?rem m1) vs = filter (?rem m) vs"
      "filter (\<lambda>a. \<not> ?rem m1 a) vs = filter (\<lambda>a. \<not> ?rem m a) vs"
      using same by (auto intro: filter_cong)
    have "slist_remove_loop callback d (slot_after us) n p m =
        Some (n + 1 + of_nat (length (filter (?rem m) vs)), p', m')"
      using get e True set(1) IH(1) eqs by (subst slist_remove_loop.simps) (simp add: mem_simps)
    moreover have "without se_data (set (filter (?rem m) (a # vs))) (us @ a # vs) m m'"
      using set(3) IH(3) e True Cons.prems(3) unfolding eqs
      by (auto simp: without_def relinked_def)
    ultimately show ?thesis using IH(2) e True eqs by (auto simp: ac_simps)
  next
    case False
    have "chain se_next (heap m) p (us @ [a]) (se_next e)" using Cons.prems(1) e by (auto simp: chain_Cons)
    from Cons.IH [OF this e(4), of n] Cons.prems(3) obtain p' m' where
      "slist_remove_loop callback d (slot_after (us @ [a])) n p m =
        Some (n + of_nat (length (filter (?rem m) vs)), p', m')"
      "slist_at m' p' ((us @ [a]) @ filter (\<lambda>a. \<not> ?rem m a) vs)"
      "without se_data (set (filter (?rem m) vs)) ((us @ [a]) @ vs) m m'" by auto
    then show ?thesis
      using get e False by (subst slist_remove_loop.simps) (auto simp: mem_simps)
  qed
qed

lemma slist_remove_data_spec:
  assumes "slist_at m p as"
  shows "\<exists>p' m'. slist_remove_data p callback d m =
      Some (of_nat (length (filter (\<lambda>a. callback (se_data (the (heap m a))) d) as)), p', m') \<and>
    slist_at m' p' (filter (\<lambda>a. \<not> callback (se_data (the (heap m a))) d) as) \<and>
    without se_data (set (filter (\<lambda>a. callback (se_data (the (heap m a))) d) as)) as m m'"
  using slist_remove_loop_spec [of m p "[]" p as callback d 0] assms chain_distinct [OF assms]
  by (simp add: slist_remove_data_def)

section \<open>Sorting\<close>

lemma slist_partition_spec:
  assumes "slist_at m rover rs" "slist_at m lp ls" "slist_at m mp ms"
    "distinct (rs @ ls @ ms)" "pivot \<notin> set rs" "pivot \<noteq> 0" "heap m pivot = Some pn"
  shows "\<exists>lp' mp' m'. slist_partition cmp pivot rover lp mp m = Some (lp', mp', m') \<and>
    slist_at m' lp' (rev (filter (\<lambda>a. cmp (se_data (the (heap m a))) (se_data pn) < 0) rs) @ ls) \<and>
    slist_at m' mp' (rev (filter (\<lambda>a. \<not> cmp (se_data (the (heap m a))) (se_data pn) < 0) rs) @ ms) \<and>
    relinked se_data (set rs) m m'"
  using assms
proof (induction rs arbitrary: rover lp mp ls ms m)
  case Nil
  then show ?case by (subst slist_partition.simps) simp
next
  case (Cons a rs)
  from Cons.prems(1) obtain e where e: "rover = a" "a \<noteq> 0" "heap m a = Some e"
    "slist_at m (se_next e) rs" "a \<notin> set rs" by (rule slist_at_Cons)
  let ?lo = "\<lambda>m a. cmp (se_data (the (heap m a))) (se_data pn) < 0"
  let ?m = "\<lambda>q. m\<lparr>heap := (heap m)(a \<mapsto> e\<lparr>se_next := q\<rparr>)\<rparr>"
  have rel: "relinked se_data {a} m (?m q)" for q
    by (rule relinked_store) (use e in simp_all)
  have keys: "se_data (the (heap (?m q) b)) = se_data (the (heap m b))" for q b
    using e by simp
  have frames: "slist_at (?m q) (se_next e) rs" "slist_at (?m q) lp ls" "slist_at (?m q) mp ms"
    "heap (?m q) pivot = Some pn" for q
    using Cons.prems e by auto
  have hd: "slist_at (?m lp) a (a # ls)" "slist_at (?m mp) a (a # ms)"
    using Cons.prems e by (simp_all add: chain_Cons)
  show ?case
  proof (cases "cmp (se_data e) (se_data pn) < 0")
    case True
    from Cons.IH [OF frames(1) hd(1) frames(3)] Cons.prems(4-) frames(4) obtain l' o' m' where
      "slist_partition cmp pivot (se_next e) a mp (?m lp) = Some (l', o', m')"
      "slist_at m' l' (rev (filter (?lo m) rs) @ a # ls)"
      "slist_at m' o' (rev (filter (\<lambda>a. \<not> ?lo m a) rs) @ ms)"
      "relinked se_data (set rs) (?m lp) m'"
      unfolding keys by auto
    moreover from this(4) have "relinked se_data (set (a # rs)) m m'"
      by (rule relinked_trans [OF rel]) auto
    ultimately show ?thesis
      using e True Cons.prems by (subst slist_partition.simps) (simp add: mem_simps)
  next
    case False
    from Cons.IH [OF frames(1,2) hd(2)] Cons.prems(4-) frames(4) obtain l' o' m' where
      "slist_partition cmp pivot (se_next e) lp a (?m mp) = Some (l', o', m')"
      "slist_at m' l' (rev (filter (?lo m) rs) @ ls)"
      "slist_at m' o' (rev (filter (\<lambda>a. \<not> ?lo m a) rs) @ a # ms)"
      "relinked se_data (set rs) (?m mp) m'"
      unfolding keys by auto
    moreover from this(4) have "relinked se_data (set (a # rs)) m m'"
      by (rule relinked_trans [OF rel]) auto
    ultimately show ?thesis
      using e False Cons.prems by (subst slist_partition.simps) (simp add: mem_simps)
  qed
qed

abbreviation slist_key :: "smem \<Rightarrow> addr \<Rightarrow> val" where
  "slist_key m a \<equiv> se_data (the (heap m a))"

text \<open>Joining the sorted parts around the pivot.\<close>

lemma slist_join_spec:
  assumes lo: "slist_at m lp ls" and hi: "slist_at m mp ms" and pv: "heap m pivot = Some pn" "pivot \<noteq> 0"
    and dist: "distinct (ls @ pivot # ms)" and le: "ls \<noteq> [] \<Longrightarrow> le = last ls"
  shows "\<exists>p' m' m''. (if lp = 0 then Some (pivot, m)
       else do { e \<leftarrow> load le m; m \<leftarrow> store le (e\<lparr>se_next := pivot\<rparr>) m; Some (lp, m) }) = Some (p', m') \<and>
     heap m' pivot = Some pn \<and> store pivot (pn\<lparr>se_next := mp\<rparr>) m' = Some m'' \<and>
     slist_at m'' p' (ls @ pivot # ms) \<and> relinked se_data (set (ls @ [pivot])) m m''"
proof (cases ls rule: rev_cases)
  case Nil
  with lo have "lp = 0" by simp
  with Nil hi pv dist show ?thesis
    by (auto simp: mem_simps chain_Cons intro: relinked_store)
next
  case (snoc us a)
  with lo obtain e where e: "a \<noteq> 0" "heap m a = Some e" by (auto simp: chain_Cons)
  have ne: "lp \<noteq> 0" using lo snoc by (cases us) (auto simp: chain_Cons)
  let ?m1 = "m\<lparr>heap := (heap m)(a \<mapsto> e\<lparr>se_next := pivot\<rparr>)\<rparr>"
  let ?m2 = "?m1\<lparr>heap := (heap ?m1)(pivot \<mapsto> pn\<lparr>se_next := mp\<rparr>)\<rparr>"
  have "chain se_next (heap ?m1) lp ls pivot"
    using lo snoc dist by (simp del: fun_upd_apply chain_append add: chain_upd_last)
  then have "chain se_next (heap ?m2) lp ls pivot"
    using dist by (simp del: fun_upd_apply)
  moreover have "slist_at ?m2 mp ms" using hi dist snoc by simp
  ultimately have "slist_at ?m2 lp (ls @ pivot # ms)" using pv by (auto simp: chain_Cons)
  moreover have "relinked se_data {a} m ?m1" by (rule relinked_store) (use e in simp_all)
  moreover have "relinked se_data {pivot} ?m1 ?m2"
    by (rule relinked_store) (use pv dist snoc in simp_all)
  ultimately have "relinked se_data (set (ls @ [pivot])) m ?m2" "slist_at ?m2 lp (ls @ pivot # ms)"
    using snoc by (auto intro: relinked_trans)
  then show ?thesis
    using ne le snoc e pv dist by (auto simp: mem_simps)
qed

lemma slist_sort_internal_spec:
  "slist_at m p as \<Longrightarrow>
   \<exists>l p' m'. slist_sort_internal cmp p m = Some (l, p', m') \<and>
     slist_at m' p' (pivot_sort (\<lambda>a b. cmp (slist_key m a) (slist_key m b)) as) \<and>
     (as \<noteq> [] \<longrightarrow> l = last (pivot_sort (\<lambda>a b. cmp (slist_key m a) (slist_key m b)) as)) \<and>
     relinked se_data (set as) m m'"
proof (induction "length as" arbitrary: m p as rule: less_induct)
  case less
  let ?k = "\<lambda>a b. cmp (slist_key m a) (slist_key m b)"
  show ?case
  proof (cases as)
    case Nil
    with less.prems show ?thesis by (subst slist_sort_internal.simps) simp
  next
    case (Cons a rs)
    with less.prems obtain e where e: "p = a" "a \<noteq> 0" "heap m a = Some e"
      "slist_at m (se_next e) rs" "a \<notin> set rs" by (metis slist_at_Cons)
    have dist: "distinct (a # rs)" using less.prems Cons by (metis chain_distinct)
    show ?thesis
    proof (cases "rs = []")
      case True
      with e Cons less.prems show ?thesis
        by (subst slist_sort_internal.simps) (simp add: mem_simps)
    next
      case False
      then have ne: "se_next e \<noteq> 0" using e(4) by (metis chain_null)
      define lo hi where "lo = rev (filter (\<lambda>b. ?k b a < 0) rs)"
        and "hi = rev (filter (\<lambda>b. \<not> ?k b a < 0) rs)"
      have key: "slist_key m a = se_data e" using e by simp
      from slist_partition_spec [of m "se_next e" rs 0 "[]" 0 "[]" a e cmp] e dist
      obtain lp mp m1 where part: "slist_partition cmp a (se_next e) 0 0 m = Some (lp, mp, m1)"
        "slist_at m1 lp lo" "slist_at m1 mp hi" "relinked se_data (set rs) m m1"
        unfolding lo_def hi_def key by auto
      have sets: "set lo \<inter> set hi = {}" "set lo \<union> set hi = set rs" "length lo < length as"
        "length hi < length as" "distinct lo" "distinct hi"
        using Cons dist by (auto simp: lo_def hi_def less_Suc_eq_le)
      note k1 = relinked_key [OF part(4)]
      from less.hyps [OF sets(3) part(2)] obtain le lp' m2 where sl:
        "slist_sort_internal cmp lp m1 = Some (le, lp', m2)" "slist_at m2 lp' (pivot_sort ?k lo)"
        "lo \<noteq> [] \<Longrightarrow> le = last (pivot_sort ?k lo)" "relinked se_data (set lo) m1 m2"
        unfolding k1 by blast
      note k2 = relinked_key [OF sl(4)]
      have "slist_at m2 mp hi" by (rule relinked_chain [OF sl(4) _ part(3)]) (use sets in auto)
      from less.hyps [OF sets(4) this] obtain me mp' m3 where sm:
        "slist_sort_internal cmp mp m2 = Some (me, mp', m3)" "slist_at m3 mp' (pivot_sort ?k hi)"
        "hi \<noteq> [] \<Longrightarrow> me = last (pivot_sort ?k hi)" "relinked se_data (set hi) m2 m3"
        unfolding k1 k2 by blast
      have lo3: "slist_at m3 lp' (pivot_sort ?k lo)"
        by (rule relinked_chain [OF sm(4) _ sl(2)]) (use sets in auto)
      have "a \<notin> set lo" "a \<notin> set hi" using sets dist by auto
      then have a3: "heap m3 a = Some e"
        using e(3,5) part(4) sl(4) sm(4) by (simp add: relinked_def)
      have "distinct (pivot_sort ?k lo @ a # pivot_sort ?k hi)"
        using sets \<open>a \<notin> set lo\<close> \<open>a \<notin> set hi\<close> by simp
      from slist_join_spec [OF lo3 sm(2) a3 e(2) this, of le] sl(3) obtain p' m4 m5 where join:
        "(if lp' = 0 then Some (a, m3)
          else do { e \<leftarrow> load le m3; m \<leftarrow> store le (e\<lparr>se_next := a\<rparr>) m3; Some (lp', m) }) = Some (p', m4)"
        "heap m4 a = Some e" "store a (e\<lparr>se_next := mp'\<rparr>) m4 = Some m5"
        "slist_at m5 p' (pivot_sort ?k lo @ a # pivot_sort ?k hi)"
        "relinked se_data (set (pivot_sort ?k lo @ [a])) m3 m5"
        by (metis (no_types, lifting) set_pivot_sort set_empty2)
      have "slist_sort_internal cmp p m = Some (if mp' = 0 then a else me, p', m5)"
        using e ne part(1) sl(1) sm(1) join(1-3)
        by (subst slist_sort_internal.simps) (simp add: mem_simps)
      moreover have "(if mp' = 0 then a else me) = last (pivot_sort ?k as)"
      proof (cases "hi = []")
        case True
        with sm(2) have "mp' = 0" by simp
        with True Cons show ?thesis by (simp add: hi_def)
      next
        case False
        then have hi: "pivot_sort ?k hi \<noteq> []" by (metis set_pivot_sort set_empty2)
        with sm(2) have "mp' \<noteq> 0" by (metis chain_null)
        with False hi sm(3) Cons show ?thesis by (simp add: hi_def)
      qed
      moreover have "relinked se_data (set as) m m5"
      proof -
        have "relinked se_data (set as) m m2"
          by (rule relinked_trans [OF part(4) sl(4)]) (use Cons sets in auto)
        then have "relinked se_data (set as) m m3"
          by (rule relinked_trans [OF _ sm(4)]) (use Cons sets in auto)
        then show ?thesis
          by (rule relinked_trans [OF _ join(5)]) (use Cons sets in auto)
      qed
      moreover have "pivot_sort ?k as = pivot_sort ?k lo @ a # pivot_sort ?k hi"
        using Cons by (simp add: lo_def hi_def)
      ultimately show ?thesis using join(4) by auto
    qed
  qed
qed

lemma slist_sort_spec:
  assumes "slist_at m p as"
  shows "\<exists>p' m' as'. slist_sort cmp p m = Some (p', m') \<and> slist_at m' p' as' \<and> set as' = set as \<and>
     slist_datas m' as' = pivot_sort cmp (slist_datas m as) \<and> relinked se_data (set as) m m'"
proof -
  let ?k = "\<lambda>a b. cmp (slist_key m a) (slist_key m b)"
  from slist_sort_internal_spec [OF assms, of cmp] obtain l p' m' where
    sort: "slist_sort_internal cmp p m = Some (l, p', m')" "slist_at m' p' (pivot_sort ?k as)"
      "relinked se_data (set as) m m'" by blast
  have "slist_datas m' (pivot_sort ?k as) = slist_datas m (pivot_sort ?k as)"
    by (rule relinked_datas [OF sort(3)]) (use chain_dom [OF assms] in simp)
  also have "\<dots> = pivot_sort cmp (slist_datas m as)"
    by (simp add: datas_def pivot_sort_map)
  finally show ?thesis
    using sort by (auto simp: slist_sort_def intro!: exI [of _ "pivot_sort ?k as"])
qed

section \<open>The module keeps the contract of a list module\<close>

lemma slist_iter_remove_spec:
  assumes it: "iter_at it us cs" and at: "slist_at m p (us @ cs @ vs)"
  shows "\<exists>it' p' m'. slist_iter_remove it p m = Some (it', p', m') \<and> iter_at it' us [] \<and>
    slist_at m' p' (us @ vs) \<and> without se_data (set cs) (us @ cs @ vs) m m'"
  using it at
proof (cases rule: iter_at_cases)
  case (between q)
  with it at show ?thesis
    by (auto simp: slist_iter_remove_def without_def iter_at_def)
next
  case (on a e)
  have dist: "distinct (us @ a # vs)" using chain_distinct [OF at] on(1) by simp
  then have dus: "distinct us" by simp
  from slot_set_after [OF on(7) dus, of "\<lambda>q. se_next_update (\<lambda>_. q)" se_data "se_next e"]
  obtain p' m' where set: "slist_slot_set (slot_after us) (se_next e) p m = Some (p', m')"
    "chain se_next (heap m') p' us (se_next e)" "relinked se_data (set us) m m'" by auto
  have a': "heap m' a = Some e" using relinked_frame [OF set(3), of a] dist on(4) by simp
  have "slist_at m' (se_next e) vs"
    by (rule relinked_chain [OF set(3) _ on(6)]) (use dist in auto)
  with set(2) dist have "chain se_next ((heap m')(a := None)) p' us (se_next e)"
    "chain se_next ((heap m')(a := None)) (se_next e) vs 0" by simp_all
  then have "slist_at (m'\<lparr>heap := (heap m')(a := None)\<rparr>) p' (us @ vs)" by auto
  moreover have "without se_data {a} (us @ a # vs) m (m'\<lparr>heap := (heap m')(a := None)\<rparr>)"
    using set(3) by (auto simp: without_def relinked_def)
  ultimately show ?thesis
    using on a' set(1) it by (auto simp: slist_iter_remove_def iter_at_def mem_simps)
qed

definition slist_ops :: "slist_entry list_ops" where
  "slist_ops = \<lparr>op_prepend = (\<lambda>p x m. Some (slist_prepend p x m)), op_append = slist_append,
     op_nth_entry = slist_nth_entry, op_nth_data = slist_nth_data, op_length = slist_length,
     op_to_array = slist_to_array, op_remove_entry = slist_remove_entry,
     op_remove_data = slist_remove_data, op_find_data = slist_find_data, op_data = slist_data,
     op_sort = slist_sort, op_free = slist_free, op_iter_has_more = slist_iter_has_more,
     op_iter_next = slist_iter_next, op_iter_remove = slist_iter_remove\<rparr>"

lemma slist_ops_simps [simp]:
  "op_prepend slist_ops p x m = Some (slist_prepend p x m)" "op_append slist_ops = slist_append"
  "op_nth_entry slist_ops = slist_nth_entry" "op_nth_data slist_ops = slist_nth_data"
  "op_length slist_ops = slist_length" "op_to_array slist_ops = slist_to_array"
  "op_remove_entry slist_ops = slist_remove_entry" "op_remove_data slist_ops = slist_remove_data"
  "op_find_data slist_ops = slist_find_data" "op_data slist_ops = slist_data"
  "op_sort slist_ops = slist_sort" "op_free slist_ops = slist_free"
  "op_iter_has_more slist_ops = slist_iter_has_more" "op_iter_next slist_ops = slist_iter_next"
  "op_iter_remove slist_ops = slist_iter_remove"
  by (simp_all add: slist_ops_def)

interpretation slist: list_module slist_ops slist_at se_next se_data
proof (unfold_locales, goal_cases)
  case (4 m p as a x)
  with slist_prepend_spec [of m p as x] show ?case by auto
next
  case (5 m p as a x)
  with slist_append_spec [of m p as x] show ?case by (auto simp del: chain_append)
next
  case (13 m p us a vs)
  with slist_remove_entry_spec show ?case by simp
next
  case (14 m p as eq d)
  with slist_remove_data_spec show ?case by simp
next
  case (15 m p as cmp)
  with slist_sort_spec show ?case by simp
next
  case (16 m p as)
  then show ?case by (simp add: slist_free_def free_loop_spec)
next
  case (18 it us cs m p vs)
  with iter_next_spec [of it us cs se_next m p vs se_data] show ?case
    by (simp only: slist_ops_simps slist_iter_next_def)
next
  case (19 it us cs m p vs)
  with slist_iter_remove_spec show ?case by simp
qed (simp_all add: slist_nth_entry_spec slist_nth_data_spec slist_length_spec slist_to_array_spec
      slist_find_data_spec slist_data_def mem_simps slist_remove_entry_def
      slist_iter_has_more_def iter_has_more_spec
    del: chain_append)

section \<open>Properties\<close>



text \<open>C3: with a comparison function that keeps its contract \<open>slist_sort\<close> returns a list of the
  same entries in which the values are sorted and are the ones it was given; only links of
  these entries change.\<close>

theorem slist_sort_correct:
  assumes "comparator cmp" "chain se_next (heap m) p as 0"
  shows "\<exists>p' m' as'. slist_sort cmp p m = Some (p', m') \<and> chain se_next (heap m') p' as' 0 \<and>
    set as' = set as \<and> mset (slist_datas m' as') = mset (slist_datas m as) \<and>
    sorted_wrt (\<lambda>a b. cmp a b \<le> 0) (slist_datas m' as') \<and>
    (\<forall>b. b \<notin> set as \<longrightarrow> heap m' b = heap m b) \<and>
    (\<forall>b. map_option se_data (heap m' b) = map_option se_data (heap m b))"
  using slist.sort_correct [OF assms] by simp

theorem slist_sort_correct_witness:
  "\<exists>p' m' as'. slist_sort pointer_compare 1
      \<lparr>heap = [1 \<mapsto> \<lparr>se_data = 30, se_next = 2\<rparr>, 2 \<mapsto> \<lparr>se_data = 20, se_next = 0\<rparr>], answers = []\<rparr> =
      Some (p', m') \<and>
    chain se_next (heap m') p' as' 0 \<and> set as' = {1, 2} \<and>
    mset (slist_datas m' as') = {#30, 20#} \<and>
    sorted_wrt (\<lambda>a b. pointer_compare a b \<le> 0) (slist_datas m' as')"
proof -
  let ?m = "\<lparr>heap = [1 \<mapsto> \<lparr>se_data = 30, se_next = 2\<rparr>, 2 \<mapsto> \<lparr>se_data = 20, se_next = 0\<rparr>], answers = []\<rparr> :: smem"
  have "chain se_next (heap ?m) 1 [1, 2] 0" by (simp add: chain_Cons)
  from slist_sort_correct [OF pointer_cmp.comparator_axioms this] show ?thesis by auto
qed

text \<open>The loop that steps an iterator over a list and removes the values that satisfy a
  predicate returns; it sees every value once, in order, leaves the others in the list, and
  \<open>slist_free\<close> on what is left restores the heap from before the list was built.\<close>

theorem slist_iter_filters:
  assumes "ample n m" "run (seq_step slist_ops eq cmp) ops (0, m) = Some (rs, p, m1)"
    "snd (spec_run (seq_spec eq cmp) ops []) = xs" "length ops + length (filter_calls P xs) \<le> n"
  shows "\<exists>it p' m2 as m3. run (iter_step slist_ops) (filter_calls P xs) (slist_iterate, p, m1) =
      Some (filter_results P xs, it, p', m2) \<and>
    chain se_next (heap m2) p' as 0 \<and> slist_datas m2 as = filter (\<lambda>x. \<not> P x) xs \<and>
    slist_free p' m2 = Some m3 \<and> heap m3 = heap m"
  using slist.iter_filters [OF assms slist_iterate_def] by simp

theorem slist_iter_filters_witness:
  "\<exists>p m1 it p' m2 as m3. run (seq_step slist_ops (=) pointer_compare) [Append 4, Append 7, Append 6]
      (0, \<lparr>heap = Map.empty, answers = [9 ..< 40]\<rparr>) = Some ([[1], [1], [1]], p, m1) \<and>
    run (iter_step slist_ops) [Has_More, Next, Remove, Has_More, Next, Has_More, Next, Remove, Has_More]
      (slist_iterate, p, m1) = Some ([1, 4, 0, 1, 7, 1, 6, 0, 0], it, p', m2) \<and>
    chain se_next (heap m2) p' as 0 \<and> slist_datas m2 as = [7] \<and>
    slist_free p' m2 = Some m3 \<and> heap m3 = Map.empty"
proof -
  let ?m = "\<lparr>heap = Map.empty, answers = [9 ..< 40]\<rparr> :: smem"
  let ?ops = "[Append 4, Append 7, Append 6]"
  have am: "ample 31 ?m" "ample (length ?ops) ?m" by (auto simp: ample_def)
  have spec: "fst (spec_run (seq_spec (=) pointer_compare) ?ops []) = [[1], [1], [1]]" by simp
  from slist.is_sequence [OF am(2), of "(=)" pointer_compare, unfolded spec] obtain p m1 where
    r: "run (seq_step slist_ops (=) pointer_compare) ?ops (0, ?m) = Some ([[1], [1], [1]], p, m1)"
    by blast
  from slist_iter_filters [OF am(1) r, of "[4, 7, 6]" even] r show ?thesis by fastforce
qed

end
