(* ===== verification/LinkedList.thy ===== *)
theory LinkedList
  imports Sequence
begin

text \<open>
  The doubly linked list of \<open>libcalg/src/list.c\<close>, every function of the file.  The caller's
  list variable is the argument \<open>list\<close>; an operation that the code gives a \<open>ListEntry **\<close>
  returns its new value.
\<close>

section \<open>The code\<close>

record list_entry =
  le_data :: val
  le_prev :: addr
  le_next :: addr

type_synonym lmem = "list_entry mem"

definition list_free :: "addr \<Rightarrow> lmem \<Rightarrow> lmem option" where
  "list_free list m = free_loop le_next list m"

text \<open>The statement \<open>if (entry != NULL) entry->prev = prev;\<close> of several functions.\<close>

definition list_set_prev :: "addr \<Rightarrow> addr \<Rightarrow> lmem \<Rightarrow> lmem option" where
  "list_set_prev entry prev m =
     (if entry = 0 then Some m
      else do { e \<leftarrow> load entry m; store entry (e\<lparr>le_prev := prev\<rparr>) m })"

definition list_prepend :: "addr \<Rightarrow> val \<Rightarrow> lmem \<Rightarrow> (addr \<times> addr \<times> lmem) option" where
  "list_prepend list data m =
     (let (newentry, m) = malloc \<lparr>le_data = data, le_prev = 0, le_next = list\<rparr> m
      in if newentry = 0 then Some (0, list, m)
         else do {
           m \<leftarrow> list_set_prev list newentry m;
           Some (newentry, newentry, m)
         })"

definition list_append :: "addr \<Rightarrow> val \<Rightarrow> lmem \<Rightarrow> (addr \<times> addr \<times> lmem) option" where
  "list_append list data m =
     (let (newentry, m) = malloc \<lparr>le_data = data, le_prev = 0, le_next = 0\<rparr> m
      in if newentry = 0 then Some (0, list, m)
         else if list = 0 then Some (newentry, newentry, m)
         else do {
           rover \<leftarrow> last_loop le_next list m;
           m \<leftarrow> list_set_prev newentry rover m;
           e \<leftarrow> load rover m;
           m \<leftarrow> store rover (e\<lparr>le_next := newentry\<rparr>) m;
           Some (newentry, list, m)
         })"

definition list_data :: "addr \<Rightarrow> lmem \<Rightarrow> val option" where
  "list_data listentry m =
     (if listentry = 0 then Some 0 else do { e \<leftarrow> load listentry m; Some (le_data e) })"

definition list_prev :: "addr \<Rightarrow> lmem \<Rightarrow> addr option" where
  "list_prev listentry m =
     (if listentry = 0 then Some 0 else do { e \<leftarrow> load listentry m; Some (le_prev e) })"

definition list_next :: "addr \<Rightarrow> lmem \<Rightarrow> addr option" where
  "list_next listentry m =
     (if listentry = 0 then Some 0 else do { e \<leftarrow> load listentry m; Some (le_next e) })"

definition list_nth_entry :: "addr \<Rightarrow> c_uint \<Rightarrow> lmem \<Rightarrow> addr option" where
  "list_nth_entry list n m = nth_loop le_next (unat n) list m"

definition list_nth_data :: "addr \<Rightarrow> c_uint \<Rightarrow> lmem \<Rightarrow> val option" where
  "list_nth_data list n m = do {
     entry \<leftarrow> list_nth_entry list n m;
     if entry = 0 then Some 0 else do { e \<leftarrow> load entry m; Some (le_data e) }
   }"

definition list_length :: "addr \<Rightarrow> lmem \<Rightarrow> c_uint option" where
  "list_length list m = length_loop le_next list 0 m"

definition list_to_array :: "addr \<Rightarrow> lmem \<Rightarrow> (val list option \<times> lmem) option" where
  "list_to_array list m = do {
     length \<leftarrow> list_length list m;
     let (ok, m) = malloc_block m;
     if \<not> ok then Some (None, m)
     else do { array \<leftarrow> copy_loop le_next le_data (unat length) list m; Some (Some array, m) }
   }"

abbreviation list_slot_get :: "slot \<Rightarrow> addr \<Rightarrow> lmem \<Rightarrow> addr option" where
  "list_slot_get \<equiv> slot_get le_next"

abbreviation list_slot_set :: "slot \<Rightarrow> addr \<Rightarrow> addr \<Rightarrow> lmem \<Rightarrow> (addr \<times> lmem) option" where
  "list_slot_set \<equiv> slot_set (\<lambda>q. le_next_update (\<lambda>_. q))"

text \<open>
  The three places that take an entry out of a list write its successor to the list variable or
  to the \<open>next\<close> field of its predecessor, and its predecessor to the \<open>prev\<close> field of its
  successor if there is one.
\<close>

definition list_unlink :: "slot \<Rightarrow> addr \<Rightarrow> addr \<Rightarrow> lmem \<Rightarrow> (addr \<times> lmem) option" where
  "list_unlink slot entry list m = do {
     e \<leftarrow> load entry m;
     (list, m) \<leftarrow> list_slot_set slot (le_next e) list m;
     e \<leftarrow> load entry m;
     m \<leftarrow> list_set_prev (le_next e) (le_prev e) m;
     Some (list, m)
   }"

definition list_prev_slot :: "list_entry \<Rightarrow> slot" where
  "list_prev_slot e = (if le_prev e = 0 then List_Var else Next_Of (le_prev e))"

definition list_remove_entry :: "addr \<Rightarrow> addr \<Rightarrow> lmem \<Rightarrow> (bool \<times> addr \<times> lmem) option" where
  "list_remove_entry list entry m =
     (if list = 0 \<or> entry = 0 then Some (False, list, m)
      else do {
        e \<leftarrow> load entry m;
        (list, m) \<leftarrow> list_unlink (list_prev_slot e) entry list m;
        m \<leftarrow> free entry m;
        Some (True, list, m)
      })"

partial_function (option) list_remove_loop ::
  "(val \<Rightarrow> val \<Rightarrow> bool) \<Rightarrow> val \<Rightarrow> addr \<Rightarrow> c_uint \<Rightarrow> addr \<Rightarrow> lmem \<Rightarrow> (c_uint \<times> addr \<times> lmem) option"
where
  "list_remove_loop callback data rover entries_removed list m =
     (if rover = 0 then Some (entries_removed, list, m)
      else do {
        e \<leftarrow> load rover m;
        if callback (le_data e) data then do {
          (list, m) \<leftarrow> list_unlink (list_prev_slot e) rover list m;
          m \<leftarrow> free rover m;
          list_remove_loop callback data (le_next e) (entries_removed + 1) list m
        }
        else list_remove_loop callback data (le_next e) entries_removed list m
      })"

definition list_remove_data ::
  "addr \<Rightarrow> (val \<Rightarrow> val \<Rightarrow> bool) \<Rightarrow> val \<Rightarrow> lmem \<Rightarrow> (c_uint \<times> addr \<times> lmem) option"
where
  "list_remove_data list callback data m = list_remove_loop callback data list 0 list m"

text \<open>The loop that distributes the entries after the pivot over the two lists.\<close>

definition list_push :: "addr \<Rightarrow> addr \<Rightarrow> lmem \<Rightarrow> lmem option" where
  "list_push rover list m = do {
     r \<leftarrow> load rover m;
     m \<leftarrow> store rover (r\<lparr>le_prev := 0, le_next := list\<rparr>) m;
     list_set_prev list rover m
   }"

partial_function (option) list_partition ::
  "(val \<Rightarrow> val \<Rightarrow> int) \<Rightarrow> addr \<Rightarrow> addr \<Rightarrow> addr \<Rightarrow> addr \<Rightarrow> lmem \<Rightarrow> (addr \<times> addr \<times> lmem) option"
where
  "list_partition compare_func pivot rover less_list more_list m =
     (if rover = 0 then Some (less_list, more_list, m)
      else do {
        r \<leftarrow> load rover m;
        p \<leftarrow> load pivot m;
        if compare_func (le_data r) (le_data p) < 0 then do {
          m \<leftarrow> list_push rover less_list m;
          list_partition compare_func pivot (le_next r) rover more_list m
        }
        else do {
          m \<leftarrow> list_push rover more_list m;
          list_partition compare_func pivot (le_next r) less_list rover m
        }
      })"

text \<open>The statements that put the sorted parts around the pivot.\<close>

definition list_join :: "addr \<Rightarrow> addr \<Rightarrow> addr \<Rightarrow> addr \<Rightarrow> lmem \<Rightarrow> (addr \<times> lmem) option" where
  "list_join pivot less_list less_list_end more_list m = do {
     p \<leftarrow> load pivot m;
     (list, m) \<leftarrow>
       (if less_list = 0 then do {
          m \<leftarrow> store pivot (p\<lparr>le_prev := 0\<rparr>) m;
          Some (pivot, m)
        }
        else do {
          m \<leftarrow> store pivot (p\<lparr>le_prev := less_list_end\<rparr>) m;
          e \<leftarrow> load less_list_end m;
          m \<leftarrow> store less_list_end (e\<lparr>le_next := pivot\<rparr>) m;
          Some (less_list, m)
        });
     p \<leftarrow> load pivot m;
     m \<leftarrow> store pivot (p\<lparr>le_next := more_list\<rparr>) m;
     m \<leftarrow> list_set_prev more_list pivot m;
     Some (list, m)
   }"

text \<open>Returns the last entry, and the new value of the list variable.\<close>

partial_function (option) list_sort_internal ::
  "(val \<Rightarrow> val \<Rightarrow> int) \<Rightarrow> addr \<Rightarrow> lmem \<Rightarrow> (addr \<times> addr \<times> lmem) option"
where
  "list_sort_internal compare_func list m =
     (if list = 0 then Some (list, list, m)
      else do {
        h \<leftarrow> load list m;
        if le_next h = 0 then Some (list, list, m)
        else do {
          let pivot = list;
          (less_list, more_list, m) \<leftarrow> list_partition compare_func pivot (le_next h) 0 0 m;
          (less_list_end, less_list, m) \<leftarrow> list_sort_internal compare_func less_list m;
          (more_list_end, more_list, m) \<leftarrow> list_sort_internal compare_func more_list m;
          (list, m) \<leftarrow> list_join pivot less_list less_list_end more_list m;
          Some (if more_list = 0 then pivot else more_list_end, list, m)
        }
      })"

definition list_sort :: "(val \<Rightarrow> val \<Rightarrow> int) \<Rightarrow> addr \<Rightarrow> lmem \<Rightarrow> (addr \<times> lmem) option" where
  "list_sort compare_func list m = do {
     (_, list, m) \<leftarrow> list_sort_internal compare_func list m;
     Some (list, m)
   }"

definition list_find_data :: "addr \<Rightarrow> (val \<Rightarrow> val \<Rightarrow> bool) \<Rightarrow> val \<Rightarrow> lmem \<Rightarrow> addr option" where
  "list_find_data list callback data m = find_loop le_next le_data callback data list m"

definition list_iterate :: list_iterator where
  "list_iterate = \<lparr>it_prev_next = List_Var, it_current = 0\<rparr>"

definition list_iter_has_more :: "list_iterator \<Rightarrow> addr \<Rightarrow> lmem \<Rightarrow> bool option" where
  "list_iter_has_more iter list m = iter_has_more le_next iter list m"

definition list_iter_next :: "list_iterator \<Rightarrow> addr \<Rightarrow> lmem \<Rightarrow> (val \<times> list_iterator) option" where
  "list_iter_next iter list m = iter_next le_next le_data iter list m"

definition list_iter_remove ::
  "list_iterator \<Rightarrow> addr \<Rightarrow> lmem \<Rightarrow> (list_iterator \<times> addr \<times> lmem) option"
where
  "list_iter_remove iter list m = do {
     p \<leftarrow> list_slot_get (it_prev_next iter) list m;
     if it_current iter = 0 \<or> it_current iter \<noteq> p then Some (iter, list, m)
     else do {
       (list, m) \<leftarrow> list_unlink (it_prev_next iter) (it_current iter) list m;
       m \<leftarrow> free (it_current iter) m;
       Some (iter\<lparr>it_current := 0\<rparr>, list, m)
     }
   }"

section \<open>Reading a represented list\<close>

abbreviation list_seg ::
  "(addr \<rightharpoonup> list_entry) \<Rightarrow> addr \<Rightarrow> addr \<Rightarrow> addr list \<Rightarrow> addr \<Rightarrow> addr \<Rightarrow> bool"
where
  "list_seg \<equiv> dseg le_next le_prev"

definition list_at :: "lmem \<Rightarrow> addr \<Rightarrow> addr list \<Rightarrow> bool" where
  "list_at m p as \<longleftrightarrow> (\<exists>l. list_seg (heap m) 0 p as l 0)"

abbreviation list_datas :: "lmem \<Rightarrow> addr list \<Rightarrow> val list" where
  "list_datas m as \<equiv> datas le_data (heap m) as"

abbreviation list_key :: "lmem \<Rightarrow> addr \<Rightarrow> val" where
  "list_key m a \<equiv> le_data (the (heap m a))"

lemma list_at_chain: "list_at m p as \<Longrightarrow> chain le_next (heap m) p as 0"
  by (auto simp: list_at_def dest: dseg_chain)

lemma list_at_distinct: "list_at m p as \<Longrightarrow> distinct as"
  by (blast dest: list_at_chain chain_distinct)

lemma list_at_Nil [simp]: "list_at m p [] \<longleftrightarrow> p = 0"
  by (auto simp: list_at_def)

lemma relinked_list_at:
  "relinked f A m m' \<Longrightarrow> set as \<inter> A = {} \<Longrightarrow> list_at m p as \<Longrightarrow> list_at m' p as"
  unfolding list_at_def by (blast intro: relinked_dseg)

lemma list_free_spec:
  "list_at m p as \<Longrightarrow>
   \<exists>m'. list_free p m = Some m' \<and> heap m' = (\<lambda>b. if b \<in> set as then None else heap m b)"
  by (simp add: list_free_def free_loop_spec list_at_chain)

lemma list_nth_entry_spec:
  "list_at m p as \<Longrightarrow> list_nth_entry p n m = Some (if unat n < length as then as ! unat n else 0)"
  by (simp add: list_nth_entry_def nth_loop_spec list_at_chain)

lemma list_nth_data_spec:
  assumes "list_at m p as"
  shows "list_nth_data p n m = Some (if unat n < length as then list_datas m as ! unat n else 0)"
proof (cases "unat n < length as")
  case True
  then have "as ! unat n \<in> set as" by simp
  with list_at_chain [OF assms] chain_in_heap chain_not_null obtain e where
    "heap m (as ! unat n) = Some e" "as ! unat n \<noteq> 0" by metis
  with True assms show ?thesis
    by (simp add: list_nth_data_def list_nth_entry_spec datas_def mem_simps)
qed (use assms in \<open>simp add: list_nth_data_def list_nth_entry_spec\<close>)

lemma list_length_spec: "list_at m p as \<Longrightarrow> list_length p m = Some (of_nat (length as))"
  using length_loop_spec [OF list_at_chain, of m p as 0] by (simp add: list_length_def)

lemma list_to_array_spec:
  assumes "list_at m p as"
  shows "list_to_array p m =
    Some (if fst (malloc_block m)
          then Some (take (unat (of_nat (length as) :: c_uint)) (list_datas m as)) else None,
          snd (malloc_block m))"
proof -
  have "heap (snd (malloc_block m)) = heap m"
    by (auto simp: malloc_block_def split: list.splits)
  with assms have "chain le_next (heap (snd (malloc_block m))) p as 0" by (simp add: list_at_chain)
  from copy_loop_spec [OF this unat_of_nat_le] assms show ?thesis
    by (auto simp: list_to_array_def list_length_spec split_beta malloc_block_def split: list.splits)
qed

lemma list_find_data_spec:
  "list_at m p as \<Longrightarrow> list_find_data p callback d m =
     Some (case List.find (\<lambda>a. callback (list_key m a) d) as of None \<Rightarrow> 0 | Some a \<Rightarrow> a)"
  by (simp add: list_find_data_def find_loop_spec list_at_chain)

section \<open>Linking and unlinking\<close>

lemma list_set_prev_spec:
  assumes "list_seg (heap m) r p as l 0"
  shows "\<exists>m'. list_set_prev p r' m = Some m' \<and>
    list_seg (heap m') r' p as (if as = [] then r' else l) 0 \<and> relinked le_data (set as) m m'"
proof (cases as)
  case Nil
  with assms show ?thesis by (simp add: list_set_prev_def)
next
  case (Cons a as')
  with assms obtain e where "p = a" "a \<noteq> 0" "heap m a = Some e" by (auto simp: dseg_Cons)
  moreover have "list_seg ((heap m)(p \<mapsto> e\<lparr>le_prev := r'\<rparr>)) r' p as l 0"
    by (rule dseg_upd_first [OF assms]) (use Cons calculation dseg_distinct [OF assms] in simp_all)
  ultimately show ?thesis
    using Cons by (auto simp: list_set_prev_def mem_simps intro: relinked_store)
qed

lemma list_slot_set_spec:
  assumes "list_seg (heap m) 0 p us k q" "distinct us"
  shows "\<exists>p' m'. list_slot_set (slot_after us) r p m = Some (p', m') \<and>
    list_seg (heap m') 0 p' us k r \<and> relinked le_data (set us) m m'"
proof (cases us rule: rev_cases)
  case Nil
  with assms show ?thesis by simp
next
  case (snoc vs a)
  with assms obtain e where "k = a" "a \<noteq> 0" "heap m a = Some e"
    by (auto simp: dseg_snoc simp del: dseg_append)
  moreover have "list_seg ((heap m)(k \<mapsto> e\<lparr>le_next := r\<rparr>)) 0 p us k r"
    by (rule dseg_upd_last [OF assms(1)]) (use snoc assms calculation in simp_all)
  ultimately show ?thesis
    using snoc by (auto simp: mem_simps intro: relinked_store)
qed

lemma list_prev_slot_after:
  "list_seg h 0 p us (le_prev e) q \<Longrightarrow> list_prev_slot e = slot_after us"
  by (cases us rule: rev_cases)
    (auto simp: list_prev_slot_def dseg_snoc simp del: dseg_append)

text \<open>A list in memory, with the point between the entries \<open>us\<close> and \<open>vs\<close>.\<close>

definition list_split :: "lmem \<Rightarrow> addr \<Rightarrow> addr list \<Rightarrow> addr \<Rightarrow> addr \<Rightarrow> addr list \<Rightarrow> bool" where
  "list_split m p us k q vs \<longleftrightarrow>
     list_seg (heap m) 0 p us k q \<and> (\<exists>l. list_seg (heap m) k q vs l 0)"

lemma list_at_split: "list_at m p (us @ vs) \<longleftrightarrow> (\<exists>k q. list_split m p us k q vs)"
  by (auto simp: list_at_def list_split_def)

lemma list_split_Cons:
  assumes "list_split m p us k q (a # vs)"
  obtains e l where "q = a" "a \<noteq> 0" "heap m a = Some e" "le_prev e = k"
    "list_seg (heap m) 0 p us k a" "list_seg (heap m) a (le_next e) vs l 0" "list_prev_slot e = slot_after us"
proof -
  from assms obtain e l where e: "q = a" "a \<noteq> 0" "heap m a = Some e" "le_prev e = k"
    "list_seg (heap m) 0 p us k a" "list_seg (heap m) a (le_next e) vs l 0"
    by (auto simp: list_split_def dseg_Cons)
  with that list_prev_slot_after [of "heap m" p us e a] show ?thesis by simp
qed

lemma list_unlink_spec:
  assumes at: "list_split m p us k a (a # vs)" and e: "heap m a = Some e"
  shows "\<exists>p' m'. list_unlink (slot_after us) a p m = Some (p', m') \<and>
    list_split m' p' us k (le_next e) vs \<and> relinked le_data (set (us @ vs)) m m'"
  using at
proof (rule list_split_Cons)
  fix e' l
  assume *: "a \<noteq> 0" "heap m a = Some e'" "le_prev e' = k"
    and us: "list_seg (heap m) 0 p us k a" and "list_seg (heap m) a (le_next e') vs l 0"
  with e have vs: "list_seg (heap m) a (le_next e) vs l 0" and k: "le_prev e = k" by simp_all
  have dist: "distinct (us @ a # vs)" using at list_at_split list_at_distinct by blast
  from list_slot_set_spec [OF us, of "le_next e"] dist obtain p' m1 where set:
    "list_slot_set (slot_after us) (le_next e) p m = Some (p', m1)"
    "list_seg (heap m1) 0 p' us k (le_next e)" "relinked le_data (set us) m m1" by auto
  have a1: "heap m1 a = Some e" using relinked_frame [OF set(3), of a] dist e by simp
  have "list_seg (heap m1) a (le_next e) vs l 0"
    by (rule relinked_dseg [OF set(3) _ vs]) (use dist in auto)
  from list_set_prev_spec [OF this, of k] obtain m2 where prev:
    "list_set_prev (le_next e) k m1 = Some m2"
    "list_seg (heap m2) k (le_next e) vs (if vs = [] then k else l) 0"
    "relinked le_data (set vs) m1 m2" by blast
  have "list_seg (heap m2) 0 p' us k (le_next e)"
    by (rule relinked_dseg [OF prev(3) _ set(2)]) (use dist in auto)
  with prev(2) have "list_split m2 p' us k (le_next e) vs" by (auto simp: list_split_def)
  moreover have "relinked le_data (set (us @ vs)) m m2"
    by (rule relinked_trans [OF set(3) prev(3)]) auto
  ultimately show ?thesis
    using e *(1) k set(1) prev(1) a1 by (auto simp: list_unlink_def mem_simps)
qed

text \<open>And freeing the entry that was taken out.\<close>

lemma list_unlink_free:
  assumes at: "list_split m p us k a (a # vs)" and e: "heap m a = Some e"
  shows "\<exists>p' m' m''. list_unlink (slot_after us) a p m = Some (p', m') \<and> free a m' = Some m'' \<and>
    list_split m'' p' us k (le_next e) vs \<and> without le_data {a} (us @ a # vs) m m''"
proof -
  from list_unlink_spec [OF assms] obtain p' m' where m':
    "list_unlink (slot_after us) a p m = Some (p', m')"
    "list_split m' p' us k (le_next e) vs" "relinked le_data (set (us @ vs)) m m'" by blast
  have dist: "distinct (us @ a # vs)" using at list_at_split list_at_distinct by blast
  then have "heap m' a = Some e" using relinked_frame [OF m'(3), of a] e by simp
  moreover have "a \<noteq> 0" using at by (rule list_split_Cons)
  moreover have "list_split (m'\<lparr>heap := (heap m')(a := None)\<rparr>) p' us k (le_next e) vs"
    using m'(2) dist by (simp add: list_split_def del: fun_upd_apply)
  moreover have "without le_data {a} (us @ a # vs) m (m'\<lparr>heap := (heap m')(a := None)\<rparr>)"
    using m'(3) by (auto simp: without_def relinked_def)
  ultimately show ?thesis using m'(1) by (simp add: mem_simps)
qed

lemma list_remove_entry_spec:
  assumes at: "list_at m p (us @ a # vs)"
  shows "\<exists>p' m'. list_remove_entry p a m = Some (True, p', m') \<and> list_at m' p' (us @ vs) \<and>
    without le_data {a} (us @ a # vs) m m'"
proof -
  have "p \<noteq> 0" using at by (rule contrapos_pn) (simp add: list_at_def del: dseg_append)
  moreover from at obtain k q where sp: "list_split m p us k q (a # vs)"
    by (auto simp: list_at_split simp del: dseg_append)
  then obtain e where e: "q = a" "a \<noteq> 0" "heap m a = Some e" "list_prev_slot e = slot_after us"
    by (rule list_split_Cons)
  moreover obtain p' m1 m2 where "list_unlink (slot_after us) a p m = Some (p', m1)"
    "free a m1 = Some m2" "list_split m2 p' us k (le_next e) vs" "without le_data {a} (us @ a # vs) m m2"
    using list_unlink_free sp e by blast
  ultimately show ?thesis
    by (auto simp: list_remove_entry_def mem_simps list_at_split)
qed

lemma list_remove_loop_spec:
  assumes "list_split m p us k q vs"
  shows "\<exists>p' m'. list_remove_loop callback d q n p m =
      Some (n + of_nat (length (filter (\<lambda>a. callback (list_key m a) d) vs)), p', m') \<and>
    list_at m' p' (us @ filter (\<lambda>a. \<not> callback (list_key m a) d) vs) \<and>
    without le_data (set (filter (\<lambda>a. callback (list_key m a) d) vs)) (us @ vs) m m'"
  using assms
proof (induction vs arbitrary: us k n p q m)
  case Nil
  then show ?case
    by (subst list_remove_loop.simps) (auto simp: without_def list_split_def list_at_def)
next
  case (Cons a vs)
  from Cons.prems obtain e l where e: "q = a" "a \<noteq> 0" "heap m a = Some e" "le_prev e = k"
    "list_seg (heap m) 0 p us k a" "list_seg (heap m) a (le_next e) vs l 0" "list_prev_slot e = slot_after us"
    by (rule list_split_Cons)
  have dist: "distinct (us @ a # vs)" using Cons.prems list_at_split list_at_distinct by blast
  let ?rem = "\<lambda>m a. callback (list_key m a) d"
  show ?case
  proof (cases "callback (le_data e) d")
    case True
    obtain p1 m1 m2 where u: "list_unlink (slot_after us) a p m = Some (p1, m1)"
      "free a m1 = Some m2" "list_split m2 p1 us k (le_next e) vs" "without le_data {a} (us @ a # vs) m m2"
      using list_unlink_free [of m p us k a vs e] Cons.prems e by blast
    have same: "list_key m2 b = list_key m b" if "b \<in> set vs" for b
    proof -
      have "map_option le_data (heap m2 b) = map_option le_data (heap m b)"
        using u(4) that dist by (auto simp: without_def)
      then show ?thesis by (cases "heap m2 b"; cases "heap m b") auto
    qed
    from Cons.IH [OF u(3), of "n + 1"] obtain p' m' where IH:
      "list_remove_loop callback d (le_next e) (n + 1) p1 m2 =
        Some (n + 1 + of_nat (length (filter (?rem m2) vs)), p', m')"
      "list_at m' p' (us @ filter (\<lambda>a. \<not> ?rem m2 a) vs)"
      "without le_data (set (filter (?rem m2) vs)) (us @ vs) m2 m'" by auto
    have eqs: "filter (?rem m2) vs = filter (?rem m) vs"
      "filter (\<lambda>a. \<not> ?rem m2 a) vs = filter (\<lambda>a. \<not> ?rem m a) vs"
      using same by (auto intro: filter_cong)
    have "list_remove_loop callback d q n p m =
        Some (n + 1 + of_nat (length (filter (?rem m) vs)), p', m')"
      using e True u(1,2) IH(1) eqs by (subst list_remove_loop.simps) (simp add: mem_simps)
    moreover have "without le_data (set (filter (?rem m) (a # vs))) (us @ a # vs) m m'"
      using u(4) IH(3) e True dist unfolding eqs by (auto simp: without_def)
    ultimately show ?thesis using IH(2) e True eqs by (auto simp: ac_simps)
  next
    case False
    have "list_split m p (us @ [a]) a (le_next e) vs"
      using e by (auto simp: list_split_def dseg_Cons)
    from Cons.IH [OF this, of n] obtain p' m' where
      "list_remove_loop callback d (le_next e) n p m =
        Some (n + of_nat (length (filter (?rem m) vs)), p', m')"
      "list_at m' p' (us @ a # filter (\<lambda>a. \<not> ?rem m a) vs)"
      "without le_data (set (filter (?rem m) vs)) (us @ a # vs) m m'" by auto
    then show ?thesis
      using e False by (subst list_remove_loop.simps) (auto simp: mem_simps)
  qed
qed

lemma list_remove_data_spec:
  assumes "list_at m p as"
  shows "\<exists>p' m'. list_remove_data p callback d m =
      Some (of_nat (length (filter (\<lambda>a. callback (list_key m a) d) as)), p', m') \<and>
    list_at m' p' (filter (\<lambda>a. \<not> callback (list_key m a) d) as) \<and>
    without le_data (set (filter (\<lambda>a. callback (list_key m a) d) as)) as m m'"
proof -
  have "list_split m p [] 0 p as" using assms by (simp add: list_split_def list_at_def)
  from list_remove_loop_spec [OF this, of callback d 0] show ?thesis
    by (simp add: list_remove_data_def)
qed

section \<open>Adding entries\<close>

lemma list_prepend_spec:
  assumes at: "list_at m p as" and can: "can_alloc m" "hd (answers m) = a"
  shows "\<exists>p' m'. list_prepend p x m = Some (a, p', m') \<and> list_at m' p' (a # as) \<and>
    list_datas m' (a # as) = x # list_datas m as \<and>
    answers m' = tl (answers m) \<and> (\<forall>b. b \<notin> set (a # as) \<longrightarrow> heap m' b = heap m b)"
proof (cases rule: malloc_cases [of "\<lparr>le_data = x, le_prev = 0, le_next = p\<rparr>" m])
  case (fail m')
  with can show ?thesis by simp
next
  case (ok b m1)
  with can have b: "b = a" by simp
  have fresh: "a \<notin> set as" using at ok(5) b by (auto simp: list_at_def dest: dseg_fresh)
  from at obtain l where "list_seg (heap m) 0 p as l 0" by (auto simp: list_at_def)
  then have "list_seg (heap m1) 0 p as l 0" using ok b fresh by simp
  from list_set_prev_spec [OF this, of a] obtain m2 where m2: "list_set_prev p a m1 = Some m2"
    "list_seg (heap m2) a p as (if as = [] then a else l) 0" "relinked le_data (set as) m1 m2"
    by blast
  have "heap m2 a = heap m1 a" using relinked_frame [OF m2(3) fresh] .
  moreover have "list_datas m2 as = list_datas m1 as"
    by (rule relinked_datas [OF m2(3)])
      (use chain_dom [OF list_at_chain [OF at]] ok in auto)
  ultimately have "list_at m2 a (a # as)" "list_datas m2 (a # as) = x # list_datas m as"
    using m2(2) ok b fresh by (auto simp: list_at_def dseg_Cons)
  with ok b m2(1) relinked_answers [OF m2(3)] relinked_frame [OF m2(3)] show ?thesis
    by (auto simp: list_prepend_def)
qed

lemma list_append_spec:
  assumes at: "list_at m p as" and can: "can_alloc m" "hd (answers m) = a"
  shows "\<exists>p' m'. list_append p x m = Some (a, p', m') \<and> list_at m' p' (as @ [a]) \<and>
    list_datas m' (as @ [a]) = list_datas m as @ [x] \<and>
    answers m' = tl (answers m) \<and> (\<forall>b. b \<notin> set (a # as) \<longrightarrow> heap m' b = heap m b)"
proof (cases rule: malloc_cases [of "\<lparr>le_data = x, le_prev = 0, le_next = 0\<rparr>" m])
  case (fail m')
  with can show ?thesis by simp
next
  case (ok b m1)
  with can have b: "b = a" by simp
  have fresh: "a \<notin> set as" using at ok(5) b by (auto simp: list_at_def dest: dseg_fresh)
  show ?thesis
  proof (cases as rule: rev_cases)
    case Nil
    with at ok b show ?thesis by (auto simp: list_append_def list_at_def dseg_Cons)
  next
    case (snoc us c)
    from at obtain l where seg: "list_seg (heap m) 0 p as l 0" by (auto simp: list_at_def)
    with snoc obtain e where e: "l = c" "c \<noteq> 0" "heap m c = Some e"
      by (auto simp: dseg_snoc simp del: dseg_append)
    have p: "p \<noteq> 0" using seg snoc dseg_nonempty by blast
    have "distinct as" using at by (rule list_at_distinct)
    let ?m2 = "m1\<lparr>heap := (heap m1)(a \<mapsto> \<lparr>le_data = x, le_prev = c, le_next = 0\<rparr>)\<rparr>"
    let ?m3 = "?m2\<lparr>heap := (heap ?m2)(c \<mapsto> e\<lparr>le_next := a\<rparr>)\<rparr>"
    have ac: "a \<noteq> c" using fresh snoc by auto
    have "list_seg (heap m1) 0 p as l 0" using seg ok b fresh by simp
    then have last: "last_loop le_next p m1 = Some c"
      using snoc last_loop_spec [of le_next m1 p us c] dseg_chain by fastforce
    have "list_seg (heap ?m2) 0 p as c 0" using seg ok b fresh e by simp
    then have "list_seg ((heap ?m2)(c \<mapsto> e\<lparr>le_next := a\<rparr>)) 0 p as c a"
      by (rule dseg_upd_last) (use snoc \<open>distinct as\<close> ok b e ac in simp_all)
    then have "list_seg (heap ?m3) 0 p as c a" by (simp del: fun_upd_apply)
    then have "list_at ?m3 p (as @ [a])"
      using ok b ac by (auto simp: list_at_def dseg_Cons intro!: exI [of _ a])
    moreover have "list_datas ?m3 (as @ [a]) = list_datas m as @ [x]"
      using ok b ac e fresh by (simp add: datas_upd_same)
    moreover have "list_append p x m = Some (a, p, ?m3)"
      using ok b p last e ac by (simp add: list_append_def list_set_prev_def mem_simps)
    moreover have "answers ?m3 = tl (answers m)" using ok by simp
    moreover have "\<forall>b. b \<notin> set (a # as) \<longrightarrow> heap ?m3 b = heap m b" using ok b snoc by simp
    ultimately show ?thesis by blast
  qed
qed

section \<open>Sorting\<close>

lemma list_push_spec:
  assumes "list_at m p as" "heap m x = Some e" "x \<noteq> 0" "x \<notin> set as"
  shows "\<exists>m'. list_push x p m = Some m' \<and> list_at m' x (x # as) \<and>
    relinked le_data (set (x # as)) m m'"
proof -
  let ?m1 = "m\<lparr>heap := (heap m)(x \<mapsto> e\<lparr>le_prev := 0, le_next := p\<rparr>)\<rparr>"
  from assms obtain l where "list_seg (heap ?m1) 0 p as l 0" by (auto simp: list_at_def)
  from list_set_prev_spec [OF this, of x] obtain m2 where m2: "list_set_prev p x ?m1 = Some m2"
    "list_seg (heap m2) x p as (if as = [] then x else l) 0" "relinked le_data (set as) ?m1 m2"
    by blast
  have "heap m2 x = Some (e\<lparr>le_prev := 0, le_next := p\<rparr>)"
    using relinked_frame [OF m2(3), of x] assms by simp
  with m2(2) assms have "list_at m2 x (x # as)" by (auto simp: list_at_def dseg_Cons)
  moreover have "relinked le_data {x} m ?m1" by (rule relinked_store) (use assms in simp_all)
  then have "relinked le_data (set (x # as)) m m2" using m2(3) by (rule relinked_trans) auto
  ultimately show ?thesis using assms m2(1) by (simp add: list_push_def mem_simps)
qed

lemma list_partition_spec:
  assumes "chain le_next (heap m) rover rs 0" "list_at m lp ls" "list_at m mp ms"
    "distinct (rs @ ls @ ms)" "pivot \<notin> set (rs @ ls @ ms)" "pivot \<noteq> 0" "heap m pivot = Some pn"
  shows "\<exists>lp' mp' m'. list_partition cmp pivot rover lp mp m = Some (lp', mp', m') \<and>
    list_at m' lp' (rev (filter (\<lambda>a. cmp (list_key m a) (le_data pn) < 0) rs) @ ls) \<and>
    list_at m' mp' (rev (filter (\<lambda>a. \<not> cmp (list_key m a) (le_data pn) < 0) rs) @ ms) \<and>
    relinked le_data (set (rs @ ls @ ms)) m m'"
  using assms
proof (induction rs arbitrary: rover lp mp ls ms m)
  case Nil
  then show ?case by (subst list_partition.simps) simp
next
  case (Cons a rs)
  let ?lo = "\<lambda>m a. cmp (list_key m a) (le_data pn) < 0"
  from Cons.prems(1) obtain e where e: "rover = a" "a \<noteq> 0" "heap m a = Some e"
    "chain le_next (heap m) (le_next e) rs 0" by (auto simp: chain_Cons)
  show ?case
  proof (cases "cmp (le_data e) (le_data pn) < 0")
    case True
    from list_push_spec [OF Cons.prems(2) e(3,2)] Cons.prems(4) obtain m1 where m1:
      "list_push a lp m = Some m1" "list_at m1 a (a # ls)" "relinked le_data (set (a # ls)) m m1"
      by auto
    have "chain le_next (heap m1) (le_next e) rs 0"
      by (rule relinked_chain [OF m1(3) _ e(4)]) (use Cons.prems(4) in auto)
    moreover have "list_at m1 mp ms"
      by (rule relinked_list_at [OF m1(3) _ Cons.prems(3)]) (use Cons.prems(4) in auto)
    moreover have "heap m1 pivot = Some pn"
      using relinked_frame [OF m1(3), of pivot] Cons.prems(5,7) by simp
    ultimately obtain l' o' m' where IH:
      "list_partition cmp pivot (le_next e) a mp m1 = Some (l', o', m')"
      "list_at m' l' (rev (filter (?lo m) rs) @ a # ls)"
      "list_at m' o' (rev (filter (\<lambda>a. \<not> ?lo m a) rs) @ ms)"
      "relinked le_data (set (rs @ (a # ls) @ ms)) m1 m'"
      using Cons.IH [of m1 "le_next e" a "a # ls" mp ms] m1(2) Cons.prems(4-6)
      unfolding relinked_key [OF m1(3)] by auto
    have "relinked le_data (set ((a # rs) @ ls @ ms)) m m'"
      by (rule relinked_trans [OF m1(3) IH(4)]) auto
    with IH(1-3) show ?thesis
      using e True m1(1) Cons.prems(6,7) by (subst list_partition.simps) (simp add: mem_simps)
  next
    case False
    from list_push_spec [OF Cons.prems(3) e(3,2)] Cons.prems(4) obtain m1 where m1:
      "list_push a mp m = Some m1" "list_at m1 a (a # ms)" "relinked le_data (set (a # ms)) m m1"
      by auto
    have "chain le_next (heap m1) (le_next e) rs 0"
      by (rule relinked_chain [OF m1(3) _ e(4)]) (use Cons.prems(4) in auto)
    moreover have "list_at m1 lp ls"
      by (rule relinked_list_at [OF m1(3) _ Cons.prems(2)]) (use Cons.prems(4) in auto)
    moreover have "heap m1 pivot = Some pn"
      using relinked_frame [OF m1(3), of pivot] Cons.prems(5,7) by simp
    ultimately obtain l' o' m' where IH:
      "list_partition cmp pivot (le_next e) lp a m1 = Some (l', o', m')"
      "list_at m' l' (rev (filter (?lo m) rs) @ ls)"
      "list_at m' o' (rev (filter (\<lambda>a. \<not> ?lo m a) rs) @ a # ms)"
      "relinked le_data (set (rs @ ls @ a # ms)) m1 m'"
      using Cons.IH [of m1 "le_next e" lp ls a "a # ms"] m1(2) Cons.prems(4-6)
      unfolding relinked_key [OF m1(3)] by auto
    have "relinked le_data (set ((a # rs) @ ls @ ms)) m m'"
      by (rule relinked_trans [OF m1(3) IH(4)]) auto
    with IH(1-3) show ?thesis
      using e False m1(1) Cons.prems(6,7) by (subst list_partition.simps) (simp add: mem_simps)
  qed
qed

text \<open>The pivot is hooked to the end of the first part, and the second part to the pivot.\<close>

lemma list_join_spec:
  assumes lo: "list_seg (heap m) 0 lp ls le 0" and hi: "list_seg (heap m) 0 mp ms me 0"
    and pv: "heap m pivot = Some pn" "pivot \<noteq> 0" and dist: "distinct (ls @ pivot # ms)"
  shows "\<exists>p' m'. list_join pivot lp le mp m = Some (p', m') \<and>
    list_seg (heap m') 0 p' (ls @ pivot # ms) (if mp = 0 then pivot else me) 0 \<and>
    relinked le_data (set (ls @ pivot # ms)) m m'"
proof -
  let ?p1 = "pn\<lparr>le_prev := le\<rparr>" and ?p3 = "pn\<lparr>le_prev := le, le_next := mp\<rparr>"
  let ?m1 = "m\<lparr>heap := (heap m)(pivot \<mapsto> ?p1)\<rparr>"
  have r1: "relinked le_data {pivot} m ?m1" by (rule relinked_store) (use pv in simp_all)
  have dls: "distinct ls" using dist by simp
  have "list_seg (heap ?m1) 0 lp ls le 0" using lo dist by simp
  from list_slot_set_spec [OF this dls, of pivot] obtain p' m2 where m2:
    "list_slot_set (slot_after ls) pivot lp ?m1 = Some (p', m2)"
    "list_seg (heap m2) 0 p' ls le pivot" "relinked le_data (set ls) ?m1 m2" by blast
  have pv2: "heap m2 pivot = Some ?p1" using relinked_frame [OF m2(3), of pivot] dist by simp
  let ?m3 = "m2\<lparr>heap := (heap m2)(pivot \<mapsto> ?p3)\<rparr>"
  have r3: "relinked le_data {pivot} m2 ?m3" by (rule relinked_store [OF pv2]) simp_all
  have "relinked le_data (set (ls @ [pivot])) m m2" by (rule relinked_trans [OF r1 m2(3)]) auto
  then have r: "relinked le_data (set (ls @ [pivot])) m ?m3" by (rule relinked_trans [OF _ r3]) auto
  have "list_seg (heap ?m3) 0 mp ms me 0"
    by (rule relinked_dseg [OF r _ hi]) (use dist in auto)
  from list_set_prev_spec [OF this, of pivot] obtain m4 where m4:
    "list_set_prev mp pivot ?m3 = Some m4"
    "list_seg (heap m4) pivot mp ms (if ms = [] then pivot else me) 0" "relinked le_data (set ms) ?m3 m4"
    by blast
  have "list_seg (heap m4) 0 p' ls le pivot"
    by (rule relinked_dseg [OF m4(3)]) (use dist m2(2) in auto)
  moreover have "heap m4 pivot = Some ?p3" using relinked_frame [OF m4(3), of pivot] dist by simp
  moreover have "mp = 0 \<longleftrightarrow> ms = []" using hi dseg_nonempty by blast
  ultimately have "list_seg (heap m4) 0 p' (ls @ pivot # ms) (if mp = 0 then pivot else me) 0"
    using m4(2) pv(2) by (auto simp: dseg_Cons)
  moreover have "relinked le_data (set (ls @ pivot # ms)) m m4"
    by (rule relinked_trans [OF r m4(3)]) auto
  moreover have "list_join pivot lp le mp m = Some (p', m4)"
  proof (cases "ls = []")
    case True
    with lo have "lp = 0" "le = 0" by simp_all
    with True m2(1) pv pv2 m4(1) show ?thesis by (auto simp: list_join_def mem_simps)
  next
    case False
    with lo obtain n where l: "le = last ls" "heap m le = Some n" "le \<noteq> 0" "le \<in> set ls"
      by (rule dseg_last [of _ _ _ _ _ _ _ 0]) auto
    have "lp \<noteq> 0" using lo False dseg_nonempty by blast
    moreover have "le \<noteq> pivot" using l dist by auto
    ultimately show ?thesis
      using m2(1) l pv pv2 m4(1) False
      by (auto simp: list_join_def mem_simps slot_after_def)
  qed
  ultimately show ?thesis by blast
qed

lemma list_sort_internal_spec:
  "list_at m p as \<Longrightarrow>
   \<exists>l p' m'. list_sort_internal cmp p m = Some (l, p', m') \<and>
     list_seg (heap m') 0 p' (pivot_sort (\<lambda>a b. cmp (list_key m a) (list_key m b)) as) l 0 \<and>
     relinked le_data (set as) m m'"
proof (induction "length as" arbitrary: m p as rule: less_induct)
  case less
  let ?k = "\<lambda>a b. cmp (list_key m a) (list_key m b)"
  show ?case
  proof (cases as)
    case Nil
    with less.prems show ?thesis by (subst list_sort_internal.simps) simp
  next
    case (Cons a rs)
    with less.prems obtain e l where e: "p = a" "a \<noteq> 0" "heap m a = Some e"
      and seg: "list_seg (heap m) 0 p as l 0" and rs: "list_seg (heap m) a (le_next e) rs l 0"
      by (auto simp: list_at_def dseg_Cons)
    have dist: "distinct (a # rs)" using less.prems Cons list_at_distinct by blast
    show ?thesis
    proof (cases "rs = []")
      case True
      with e Cons rs seg show ?thesis
        by (subst list_sort_internal.simps) (simp add: mem_simps)
    next
      case False
      then have ne: "le_next e \<noteq> 0" using rs dseg_nonempty by blast
      define lo hi where "lo = rev (filter (\<lambda>b. ?k b a < 0) rs)"
        and "hi = rev (filter (\<lambda>b. \<not> ?k b a < 0) rs)"
      have key: "list_key m a = le_data e" using e by simp
      from list_partition_spec [OF dseg_chain [OF rs], of 0 "[]" 0 "[]" a e cmp] e dist
      obtain lp mp m1 where part: "list_partition cmp a (le_next e) 0 0 m = Some (lp, mp, m1)"
        "list_at m1 lp lo" "list_at m1 mp hi" "relinked le_data (set rs) m m1"
        unfolding lo_def hi_def key by auto
      have sets: "set lo \<inter> set hi = {}" "set lo \<union> set hi = set rs" "length lo < length as"
        "length hi < length as" "distinct lo" "distinct hi" "a \<notin> set lo" "a \<notin> set hi"
        using Cons dist by (auto simp: lo_def hi_def less_Suc_eq_le)
      note k1 = relinked_key [OF part(4)]
      from less.hyps [OF sets(3) part(2)] obtain le lp' m2 where sl:
        "list_sort_internal cmp lp m1 = Some (le, lp', m2)"
        "list_seg (heap m2) 0 lp' (pivot_sort ?k lo) le 0" "relinked le_data (set lo) m1 m2"
        unfolding k1 by blast
      note k2 = relinked_key [OF sl(3)]
      have "list_at m2 mp hi" by (rule relinked_list_at [OF sl(3) _ part(3)]) (use sets in auto)
      from less.hyps [OF sets(4) this] obtain me mp' m3 where sm:
        "list_sort_internal cmp mp m2 = Some (me, mp', m3)"
        "list_seg (heap m3) 0 mp' (pivot_sort ?k hi) me 0" "relinked le_data (set hi) m2 m3"
        unfolding k1 k2 by blast
      have lo3: "list_seg (heap m3) 0 lp' (pivot_sort ?k lo) le 0"
        by (rule relinked_dseg [OF sm(3) _ sl(2)]) (use sets in auto)
      have "relinked le_data (set as) m m2"
        by (rule relinked_trans [OF part(4) sl(3)]) (use Cons sets in auto)
      then have r3: "relinked le_data (set as) m m3"
        by (rule relinked_trans [OF _ sm(3)]) (use Cons sets in auto)
      have a3: "heap m3 a = Some e"
        using e(3) sets dist part(4) sl(3) sm(3) by (simp add: relinked_def)
      have "distinct (pivot_sort ?k lo @ a # pivot_sort ?k hi)" using sets by simp
      from list_join_spec [OF lo3 sm(2) a3 e(2) this] obtain p' m4 where join:
        "list_join a lp' le mp' m3 = Some (p', m4)"
        "list_seg (heap m4) 0 p' (pivot_sort ?k lo @ a # pivot_sort ?k hi) (if mp' = 0 then a else me) 0"
        "relinked le_data (set (pivot_sort ?k lo @ a # pivot_sort ?k hi)) m3 m4" by blast
      have "list_sort_internal cmp p m = Some (if mp' = 0 then a else me, p', m4)"
        using e ne part(1) sl(1) sm(1) join(1)
        by (subst list_sort_internal.simps) (simp add: mem_simps)
      moreover have "relinked le_data (set as) m m4"
        by (rule relinked_trans [OF r3 join(3)]) (use Cons sets in auto)
      moreover have "pivot_sort ?k as = pivot_sort ?k lo @ a # pivot_sort ?k hi"
        using Cons by (simp add: lo_def hi_def)
      ultimately show ?thesis using join(2) by auto
    qed
  qed
qed

lemma list_sort_spec:
  assumes "list_at m p as"
  shows "\<exists>p' m' as'. list_sort cmp p m = Some (p', m') \<and> list_at m' p' as' \<and> set as' = set as \<and>
     list_datas m' as' = pivot_sort cmp (list_datas m as) \<and> relinked le_data (set as) m m'"
proof -
  let ?k = "\<lambda>a b. cmp (list_key m a) (list_key m b)"
  from list_sort_internal_spec [OF assms, of cmp] obtain l p' m' where
    sort: "list_sort_internal cmp p m = Some (l, p', m')"
      "list_seg (heap m') 0 p' (pivot_sort ?k as) l 0" "relinked le_data (set as) m m'" by blast
  have "list_datas m' (pivot_sort ?k as) = list_datas m (pivot_sort ?k as)"
    by (rule relinked_datas [OF sort(3)]) (use chain_dom [OF list_at_chain [OF assms]] in simp)
  also have "\<dots> = pivot_sort cmp (list_datas m as)"
    by (simp add: datas_def pivot_sort_map)
  finally show ?thesis
    using sort by (auto simp: list_sort_def list_at_def intro!: exI [of _ "pivot_sort ?k as"])
qed

section \<open>The module keeps the contract of a list module\<close>

lemma list_iter_remove_spec:
  assumes it: "iter_at it us cs" and at: "list_at m p (us @ cs @ vs)"
  shows "\<exists>it' p' m'. list_iter_remove it p m = Some (it', p', m') \<and> iter_at it' us [] \<and>
    list_at m' p' (us @ vs) \<and> without le_data (set cs) (us @ cs @ vs) m m'"
  using it list_at_chain [OF at]
proof (cases rule: iter_at_cases)
  case (between q)
  with it at show ?thesis
    by (auto simp: list_iter_remove_def without_def iter_at_def)
next
  case (on a e)
  with at obtain k q where sp: "list_split m p us k q (a # vs)"
    by (auto simp: list_at_split simp del: dseg_append)
  moreover from sp have "q = a" by (rule list_split_Cons)
  ultimately obtain p' m1 m2 where u: "list_unlink (slot_after us) a p m = Some (p', m1)"
    "free a m1 = Some m2" "list_split m2 p' us k (le_next e) vs" "without le_data {a} (us @ a # vs) m m2"
    using list_unlink_free on(4) by blast
  from u(3) have "list_at m2 p' (us @ vs)" by (auto simp: list_at_split)
  with on u it show ?thesis by (auto simp: list_iter_remove_def iter_at_def)
qed

definition list_fns :: "list_entry list_ops" where
  "list_fns = \<lparr>op_prepend = list_prepend, op_append = list_append,
     op_nth_entry = list_nth_entry, op_nth_data = list_nth_data, op_length = list_length,
     op_to_array = list_to_array, op_remove_entry = list_remove_entry,
     op_remove_data = list_remove_data, op_find_data = list_find_data, op_data = list_data,
     op_sort = list_sort, op_free = list_free, op_iter_has_more = list_iter_has_more,
     op_iter_next = list_iter_next, op_iter_remove = list_iter_remove\<rparr>"

lemma list_fns_simps [simp]:
  "op_prepend list_fns = list_prepend" "op_append list_fns = list_append"
  "op_nth_entry list_fns = list_nth_entry" "op_nth_data list_fns = list_nth_data"
  "op_length list_fns = list_length" "op_to_array list_fns = list_to_array"
  "op_remove_entry list_fns = list_remove_entry" "op_remove_data list_fns = list_remove_data"
  "op_find_data list_fns = list_find_data" "op_data list_fns = list_data"
  "op_sort list_fns = list_sort" "op_free list_fns = list_free"
  "op_iter_has_more list_fns = list_iter_has_more" "op_iter_next list_fns = list_iter_next"
  "op_iter_remove list_fns = list_iter_remove"
  by (simp_all add: list_fns_def)

interpretation linked: list_module list_fns list_at le_next le_data
proof (unfold_locales, goal_cases)
  case 2
  then show ?case unfolding list_fns_simps by (rule list_at_chain)
next
  case 4
  then show ?case unfolding list_fns_simps by (rule list_prepend_spec)
next
  case 5
  then show ?case unfolding list_fns_simps by (rule list_append_spec)
next
  case 6
  then show ?case unfolding list_fns_simps by (rule list_nth_entry_spec)
next
  case 7
  then show ?case unfolding list_fns_simps by (rule list_nth_data_spec)
next
  case 8
  then show ?case unfolding list_fns_simps by (rule list_length_spec)
next
  case 9
  then show ?case unfolding list_fns_simps by (rule list_to_array_spec)
next
  case 10
  then show ?case unfolding list_fns_simps by (rule list_find_data_spec)
next
  case 13
  then show ?case unfolding list_fns_simps by (rule list_remove_entry_spec)
next
  case 14
  then show ?case unfolding list_fns_simps by (rule list_remove_data_spec)
next
  case 15
  then show ?case unfolding list_fns_simps by (rule list_sort_spec)
next
  case 16
  then show ?case unfolding list_fns_simps by (rule list_free_spec)
next
  case 19
  then show ?case unfolding list_fns_simps by (rule list_iter_remove_spec)
next
  case (17 it us cs m p vs)
  then show ?case
    unfolding list_fns_simps list_iter_has_more_def by (blast intro: iter_has_more_spec list_at_chain)
next
  case (18 it us cs m p vs)
  then show ?case
    unfolding list_fns_simps list_iter_next_def by (blast intro: iter_next_spec list_at_chain)
qed (simp_all add: list_at_def list_data_def mem_simps list_remove_entry_def)

section \<open>Properties\<close>



text \<open>with a comparison function that keeps its contract \<open>list_sort\<close> returns a list of the
  same entries, linked in both directions, in which the values are sorted and are the ones it
  was given; no other entry changes.\<close>

theorem list_sort_correct:
  assumes "comparator cmp" "dseg le_next le_prev (heap m) 0 p as l 0"
  shows "\<exists>p' m' as' l'. list_sort cmp p m = Some (p', m') \<and>
    dseg le_next le_prev (heap m') 0 p' as' l' 0 \<and>
    set as' = set as \<and> mset (list_datas m' as') = mset (list_datas m as) \<and>
    sorted_wrt (\<lambda>a b. cmp a b \<le> 0) (list_datas m' as') \<and>
    (\<forall>b. b \<notin> set as \<longrightarrow> heap m' b = heap m b)"
proof -
  have "list_at m p as" using assms(2) by (auto simp: list_at_def)
  from linked.sort_correct [OF assms(1) this] show ?thesis by (fastforce simp: list_at_def)
qed

theorem list_sort_correct_witness:
  "\<exists>p' m' as' l'. list_sort pointer_compare 1
      \<lparr>heap = [1 \<mapsto> \<lparr>le_data = 30, le_prev = 0, le_next = 2\<rparr>,
        2 \<mapsto> \<lparr>le_data = 20, le_prev = 1, le_next = 0\<rparr>], answers = []\<rparr> = Some (p', m') \<and>
    dseg le_next le_prev (heap m') 0 p' as' l' 0 \<and> set as' = {1, 2} \<and>
    mset (list_datas m' as') = {#30, 20#} \<and>
    sorted_wrt (\<lambda>a b. pointer_compare a b \<le> 0) (list_datas m' as')"
proof -
  let ?m = "\<lparr>heap = [1 \<mapsto> \<lparr>le_data = 30, le_prev = 0, le_next = 2\<rparr>,
        2 \<mapsto> \<lparr>le_data = 20, le_prev = 1, le_next = 0\<rparr>], answers = []\<rparr> :: lmem"
  have "dseg le_next le_prev (heap ?m) 0 1 [1, 2] 2 0" by (simp add: dseg_Cons)
  from list_sort_correct [OF pointer_cmp.comparator_axioms this] show ?thesis by auto
qed

text \<open>the loop that steps an iterator over a doubly linked list and removes the values that
  satisfy a predicate returns; it sees every value once, in order, leaves the others in a list
  that is linked in both directions, and \<open>list_free\<close> on it restores the heap from before the
  list was built.\<close>

theorem list_iter_filters:
  assumes "ample n m" "run (seq_step list_fns eq cmp) ops (0, m) = Some (rs, p, m1)"
    "snd (spec_run (seq_spec eq cmp) ops []) = xs" "length ops + length (filter_calls P xs) \<le> n"
  shows "\<exists>it p' m2 as l m3. run (iter_step list_fns) (filter_calls P xs) (list_iterate, p, m1) =
      Some (filter_results P xs, it, p', m2) \<and>
    dseg le_next le_prev (heap m2) 0 p' as l 0 \<and> list_datas m2 as = filter (\<lambda>x. \<not> P x) xs \<and>
    list_free p' m2 = Some m3 \<and> heap m3 = heap m"
  using linked.iter_filters [OF assms list_iterate_def] by (auto simp: list_at_def)

theorem list_iter_filters_witness:
  "\<exists>p m1 it p' m2 as l m3. run (seq_step list_fns (=) pointer_compare) [Append 4, Append 7, Prepend 6]
      (0, \<lparr>heap = Map.empty, answers = [9 ..< 40]\<rparr>) = Some ([[1], [1], [1]], p, m1) \<and>
    run (iter_step list_fns) [Has_More, Next, Remove, Has_More, Next, Remove, Has_More, Next, Has_More]
      (list_iterate, p, m1) = Some ([1, 6, 0, 1, 4, 0, 1, 7, 0], it, p', m2) \<and>
    dseg le_next le_prev (heap m2) 0 p' as l 0 \<and> list_datas m2 as = [7] \<and>
    list_free p' m2 = Some m3 \<and> heap m3 = Map.empty"
proof -
  let ?m = "\<lparr>heap = Map.empty, answers = [9 ..< 40]\<rparr> :: lmem"
  let ?ops = "[Append 4, Append 7, Prepend 6]"
  have am: "ample 31 ?m" "ample (length ?ops) ?m" by (auto simp: ample_def)
  have spec: "fst (spec_run (seq_spec (=) pointer_compare) ?ops []) = [[1], [1], [1]]" by simp
  from linked.is_sequence [OF am(2), of "(=)" pointer_compare, unfolded spec] obtain p m1 where
    r: "run (seq_step list_fns (=) pointer_compare) ?ops (0, ?m) = Some ([[1], [1], [1]], p, m1)"
    by blast
  from list_iter_filters [OF am(1) r, of "[6, 4, 7]" even] r show ?thesis by fastforce
qed

end
