(* ===== verification/Arrays.thy ===== *)
theory Arrays
  imports Prelude
begin

text \<open>
  Arrays in blocks of memory.  A cell holds \<open>None\<close> until it is written; reading such a cell, or
  any access outside the block, is undefined behaviour and makes the operation \<open>None\<close>.
\<close>

section \<open>Access\<close>

type_synonym 'a cells = "'a option list"

definition array_new :: "nat \<Rightarrow> 'a cells" where
  "array_new n = replicate n None"

definition array_get :: "'a cells \<Rightarrow> nat \<Rightarrow> 'a option" where
  "array_get arr i = (if i < length arr then arr ! i else None)"

definition array_set :: "'a cells \<Rightarrow> nat \<Rightarrow> 'a \<Rightarrow> 'a cells option" where
  "array_set arr i x = (if i < length arr then Some (arr[i := Some x]) else None)"

text \<open>\<open>memmove\<close> of \<open>n\<close> cells, which may overlap; \<open>realloc\<close> keeps the cells that fit.\<close>

definition array_move :: "'a cells \<Rightarrow> nat \<Rightarrow> nat \<Rightarrow> nat \<Rightarrow> 'a cells option" where
  "array_move arr dst src n =
     (if dst + n \<le> length arr \<and> src + n \<le> length arr
      then Some (take dst arr @ take n (drop src arr) @ drop (dst + n) arr) else None)"

definition array_resize :: "'a cells \<Rightarrow> nat \<Rightarrow> 'a cells" where
  "array_resize arr n = take n arr @ replicate (n - length arr) None"

lemma array_new_length [simp]: "length (array_new n) = n"
  by (simp add: array_new_def)

lemma array_resize_length [simp]: "length (array_resize arr n) = n"
  by (simp add: array_resize_def)

lemma array_set_length: "array_set arr i x = Some arr' \<Longrightarrow> length arr' = length arr"
  by (auto simp: array_set_def split: if_splits)

text \<open>The cell after the cells \<open>us\<close>.\<close>

lemma array_get_at: "i = length us \<Longrightarrow> array_get (us @ c # vs) i = c"
  by (simp add: array_get_def)

lemma array_set_at: "i = length us \<Longrightarrow> array_set (us @ c # vs) i x = Some (us @ Some x # vs)"
  by (simp add: array_set_def)

section \<open>The values an array holds\<close>

definition holds :: "'a cells \<Rightarrow> 'a list \<Rightarrow> bool" where
  "holds arr xs \<longleftrightarrow> length xs \<le> length arr \<and> take (length xs) arr = map Some xs"

lemma holds_split: "holds arr xs \<longleftrightarrow> (\<exists>rest. arr = map Some xs @ rest)"
proof
  assume "holds arr xs"
  then have "arr = map Some xs @ drop (length xs) arr"
    unfolding holds_def by (metis append_take_drop_id)
  then show "\<exists>rest. arr = map Some xs @ rest" ..
qed (auto simp: holds_def)

lemma holds_Nil [simp]: "holds arr []"
  by (simp add: holds_def)

lemma holds_length: "holds arr xs \<Longrightarrow> length xs \<le> length arr"
  by (simp add: holds_def)

lemma holds_get: "holds arr xs \<Longrightarrow> i < length xs \<Longrightarrow> array_get arr i = Some (xs ! i)"
  by (auto simp: holds_split array_get_def nth_append)

lemma holds_set:
  "holds arr xs \<Longrightarrow> i < length xs \<Longrightarrow>
   \<exists>arr'. array_set arr i x = Some arr' \<and> holds arr' (xs[i := x]) \<and> length arr' = length arr"
  by (auto simp: holds_split array_set_def list_update_append map_update)

lemma holds_push:
  "holds arr xs \<Longrightarrow> length xs < length arr \<Longrightarrow>
   \<exists>arr'. array_set arr (length xs) x = Some arr' \<and> holds arr' (xs @ [x]) \<and> length arr' = length arr"
  by (auto simp: holds_split array_set_def list_update_append neq_Nil_conv split: nat.splits)

lemma holds_resize: "holds arr xs \<Longrightarrow> length xs \<le> n \<Longrightarrow> holds (array_resize arr n) xs"
  by (auto simp: holds_split array_resize_def)

lemma holds_take: "holds arr xs \<Longrightarrow> holds arr (take n xs)"
  by (simp add: holds_def take_map min_def) (metis min.absorb1 nat_le_linear take_all take_map take_take)

section \<open>Allocators of blocks\<close>

text \<open>An allocator that grants the next \<open>n\<close> requests for a block.\<close>

definition grants :: "nat \<Rightarrow> 'n mem \<Rightarrow> bool" where
  "grants n m \<longleftrightarrow> n \<le> length (answers m) \<and> 0 \<notin> set (take n (answers m))"

lemma grants_le: "grants n m \<Longrightarrow> k \<le> n \<Longrightarrow> grants k m"
  by (auto simp: grants_def dest: set_take_subset_set_take [THEN subsetD])

lemma grants_block:
  assumes "grants (Suc n) m"
  obtains m' where "malloc_block m = (True, m')" "grants n m'" "heap m' = heap m"
proof -
  from assms obtain a as where "answers m = a # as" by (cases "answers m") (auto simp: grants_def)
  with assms that [of "m\<lparr>answers := as\<rparr>"] show ?thesis
    by (auto simp: malloc_block_def grants_def)
qed

end
