(* ===== verification/ArrayList.thy ===== *)
theory ArrayList
  imports Arrays Compare
begin

text \<open>
  The automatically resizing array of \<open>libcalg/src/arraylist.c\<close>, every function of the file.
  The structure is the record \<open>arraylist\<close>; its data array is a block whose size in cells is
  the length of the list \<open>al_data\<close>.
\<close>

section \<open>The code\<close>

record arraylist =
  al_data :: "val cells"
  al_length :: c_uint
  al_alloced :: c_uint

type_synonym amem = "unit mem"


definition arraylist_enlarge :: "arraylist \<Rightarrow> amem \<Rightarrow> bool \<times> arraylist \<times> amem" where
  "arraylist_enlarge al m =
     (let newsize = al_alloced al * 2;
          (ok, m) = malloc_block m
      in if \<not> ok then (False, al, m)
         else (True, al\<lparr>al_data := array_resize (al_data al) (unat newsize), al_alloced := newsize\<rparr>, m))"

definition arraylist_insert ::
  "arraylist \<Rightarrow> c_uint \<Rightarrow> val \<Rightarrow> amem \<Rightarrow> (bool \<times> arraylist \<times> amem) option"
where
  "arraylist_insert al index data m =
     (if index > al_length al then Some (False, al, m)
      else
        let (ok, al, m) =
          (if al_length al + 1 > al_alloced al then arraylist_enlarge al m else (True, al, m))
        in if \<not> ok then Some (False, al, m)
           else do {
             d \<leftarrow> array_move (al_data al) (unat (index + 1)) (unat index) (unat (al_length al - index));
             d \<leftarrow> array_set d (unat index) data;
             Some (True, al\<lparr>al_data := d, al_length := al_length al + 1\<rparr>, m)
           })"



definition arraylist_remove_range :: "arraylist \<Rightarrow> c_uint \<Rightarrow> c_uint \<Rightarrow> arraylist option" where
  "arraylist_remove_range al index len =
     (if index > al_length al \<or> index + len > al_length al then Some al
      else do {
        d \<leftarrow> array_move (al_data al) (unat index) (unat (index + len))
               (unat (al_length al - (index + len)));
        Some (al\<lparr>al_data := d, al_length := al_length al - len\<rparr>)
      })"





text \<open>
  The loop that divides the items \<open>off + i\<close>, of which \<open>k\<close> are left, around the pivot.  The
  counters stay below the length of the list, so they do not wrap.
\<close>

primrec arraylist_divide ::
  "nat \<Rightarrow> (val \<Rightarrow> val \<Rightarrow> int) \<Rightarrow> val \<Rightarrow> nat \<Rightarrow> nat \<Rightarrow> nat \<Rightarrow> val cells \<Rightarrow> (nat \<times> val cells) option"
where
  "arraylist_divide 0 compare_func pivot off i list1_length d = Some (list1_length, d)"
| "arraylist_divide (Suc k) compare_func pivot off i list1_length d = do {
     tmp \<leftarrow> array_get d (off + i);
     if compare_func tmp pivot < 0 then do {
       y \<leftarrow> array_get d (off + list1_length);
       d \<leftarrow> array_set d (off + i) y;
       d \<leftarrow> array_set d (off + list1_length) tmp;
       arraylist_divide k compare_func pivot off (i + 1) (list1_length + 1) d
     }
     else arraylist_divide k compare_func pivot off (i + 1) list1_length d
   }"

text \<open>\<open>list_data\<close> is the part of the array that starts at \<open>off\<close>.\<close>

partial_function (option) arraylist_sort_internal ::
  "(val \<Rightarrow> val \<Rightarrow> int) \<Rightarrow> nat \<Rightarrow> nat \<Rightarrow> val cells \<Rightarrow> val cells option"
where
  "arraylist_sort_internal compare_func off list_length d =
     (if list_length \<le> 1 then Some d
      else do {
        pivot \<leftarrow> array_get d (off + (list_length - 1));
        (list1_length, d) \<leftarrow> arraylist_divide (list_length - 1) compare_func pivot off 0 0 d;
        let list2_length = list_length - list1_length - 1;
        x \<leftarrow> array_get d (off + list1_length);
        d \<leftarrow> array_set d (off + (list_length - 1)) x;
        d \<leftarrow> array_set d (off + list1_length) pivot;
        d \<leftarrow> arraylist_sort_internal compare_func off list1_length d;
        arraylist_sort_internal compare_func (off + (list1_length + 1)) list2_length d
      })"

definition arraylist_sort :: "(val \<Rightarrow> val \<Rightarrow> int) \<Rightarrow> arraylist \<Rightarrow> arraylist option" where
  "arraylist_sort compare_func al = do {
     d \<leftarrow> arraylist_sort_internal compare_func 0 (unat (al_length al)) (al_data al);
     Some (al\<lparr>al_data := d\<rparr>)
   }"

section \<open>What an array list represents\<close>

definition arraylist_rep :: "arraylist \<Rightarrow> val list \<Rightarrow> bool" where
  "arraylist_rep al xs \<longleftrightarrow> holds (al_data al) xs \<and> unat (al_length al) = length xs \<and>
     length (al_data al) = unat (al_alloced al) \<and> al_alloced al \<noteq> 0"

lemma arraylist_rep_length: "arraylist_rep al xs \<Longrightarrow> length xs \<le> unat (al_alloced al)"
  by (auto simp: arraylist_rep_def dest: holds_length)


text \<open>The room for one more value.\<close>

lemma arraylist_enlarge_rep:
  assumes rep: "arraylist_rep al xs" and small: "length xs < 2 ^ 31" and full: "al_length al + 1 > al_alloced al"
  shows "\<exists>ok al' m'. arraylist_enlarge al m = (ok, al', m') \<and> (\<not> ok \<longrightarrow> al' = al) \<and>
    (ok \<longrightarrow> arraylist_rep al' xs \<and> length xs < unat (al_alloced al')) \<and> al_length al' = al_length al \<and>
    (grants (Suc n) m \<longrightarrow> ok \<and> grants n m')"
proof -
  have "unat (al_length al + 1) = length xs + 1"
    using rep small by (simp add: arraylist_rep_def unat_word_ariths)
  then have eq: "unat (al_alloced al) = length xs"
    using full arraylist_rep_length [OF rep] by (simp add: word_less_nat_alt)
  then have dbl: "unat (al_alloced al * 2) = 2 * length xs"
    using small by (simp add: unat_word_ariths)
  have pos: "0 < length xs"
    using rep eq by (metis arraylist_rep_def gr0I unat_eq_zero)
  obtain ok m' where mb: "malloc_block m = (ok, m')" by fastforce
  have "grants (Suc n) m \<longrightarrow> ok \<and> grants n m'"
    using mb by (auto elim!: grants_block)
  moreover have "al_alloced al * 2 \<noteq> 0"
    using dbl pos by (metis mult_eq_0_iff unat_0 zero_neq_numeral less_numeral_extra(3))
  then have "arraylist_rep (al\<lparr>al_data := array_resize (al_data al) (unat (al_alloced al * 2)),
      al_alloced := al_alloced al * 2\<rparr>) xs"
    using rep dbl by (auto simp: arraylist_rep_def intro: holds_resize)
  ultimately show ?thesis
    using mb dbl pos by (auto simp: arraylist_enlarge_def Let_def)
qed

lemma holds_insert:
  assumes "holds d xs" "length xs < length d" "i \<le> length xs"
  shows "\<exists>d' d''. array_move d (i + 1) i (length xs - i) = Some d' \<and> array_set d' i x = Some d'' \<and>
    holds d'' (take i xs @ x # drop i xs) \<and> length d'' = length d"
proof -
  from assms obtain rest where d: "d = map Some xs @ rest" "rest \<noteq> []"
    by (auto simp: holds_split)
  let ?d' = "take (i + 1) d @ take (length xs - i) (drop i d) @ drop (i + 1 + (length xs - i)) d"
  have "array_move d (i + 1) i (length xs - i) = Some ?d'"
    using assms by (simp add: array_move_def)
  moreover have "array_set ?d' i x = Some (?d'[i := Some x])"
    using assms by (simp add: array_set_def)
  moreover have "take (Suc i) d = take i d @ [d ! i]"
    using assms by (simp add: take_Suc_conv_app_nth)
  then have "?d'[i := Some x] = map Some (take i xs @ x # drop i xs) @ drop (length xs + 1) d"
    using assms d by (simp add: list_update_append min_def take_map drop_map)
  then have "holds (?d'[i := Some x]) (take i xs @ x # drop i xs)"
    unfolding holds_split by blast
  ultimately show ?thesis using assms by auto
qed


lemma arraylist_insert_spec:
  assumes rep: "arraylist_rep al xs" and small: "length xs < 2 ^ 31" and i: "unat i \<le> length xs"
  shows "\<exists>ok al' m'. arraylist_insert al i x m = Some (ok, al', m') \<and>
    (if ok then arraylist_rep al' (take (unat i) xs @ x # drop (unat i) xs) else al' = al) \<and>
    (grants (Suc n) m \<longrightarrow> ok \<and> grants n m')"
proof -
  let ?full = "al_length al + 1 > al_alloced al"
  have len: "unat (al_length al) = length xs" using rep by (simp add: arraylist_rep_def)
  have len1: "unat (al_length al + 1) = length xs + 1"
    using len small by (simp add: unat_word_ariths)
  have notfull: "length xs < unat (al_alloced al)" if "\<not> ?full"
    using that len1 by (simp add: word_less_nat_alt not_less)
  obtain ok al1 m1 where r: "(if ?full then arraylist_enlarge al m else (True, al, m)) = (ok, al1, m1)"
    by (metis prod_cases3)
  have al1: "(\<not> ok \<longrightarrow> al1 = al) \<and> (ok \<longrightarrow> arraylist_rep al1 xs \<and> length xs < unat (al_alloced al1)) \<and>
    al_length al1 = al_length al \<and> (grants (Suc n) m \<longrightarrow> ok \<and> grants n m1)"
  proof (cases ?full)
    case True
    with r arraylist_enlarge_rep [OF rep small True, of m n] show ?thesis by auto
  next
    case False
    with r rep notfull show ?thesis by (auto intro: grants_le)
  qed
  have le: "\<not> i > al_length al" using i len by (simp add: word_less_nat_alt)
  show ?thesis
  proof (cases ok)
    case False
    with r le al1 show ?thesis by (auto simp: arraylist_insert_def)
  next
    case True
    with al1 have rep1: "arraylist_rep al1 xs" and room: "length xs < unat (al_alloced al1)" by auto
    have idx: "unat (i + 1) = unat i + 1" using i small by (simp add: unat_word_ariths)
    have sub: "unat (al_length al1 - i) = length xs - unat i"
      using al1 len le by (simp add: unat_sub not_less)
    from holds_insert [of "al_data al1" xs "unat i" x] rep1 room i obtain d' d'' where d:
      "array_move (al_data al1) (unat i + 1) (unat i) (length xs - unat i) = Some d'"
      "array_set d' (unat i) x = Some d''"
      "holds d'' (take (unat i) xs @ x # drop (unat i) xs)" "length d'' = length (al_data al1)"
      by (auto simp: arraylist_rep_def)
    have "arraylist_insert al i x m = Some (True, al1\<lparr>al_data := d'', al_length := al_length al1 + 1\<rparr>, m1)"
      unfolding arraylist_insert_def r Let_def using le True d idx sub by simp
    moreover have "arraylist_rep (al1\<lparr>al_data := d'', al_length := al_length al1 + 1\<rparr>)
        (take (unat i) xs @ x # drop (unat i) xs)"
      using rep1 d len1 al1 i by (simp add: arraylist_rep_def)
    ultimately show ?thesis using al1 True by auto
  qed
qed







section \<open>Sorting\<close>

text \<open>
  Before each round the items seen so far are \<open>lo\<close>, which come before the pivot, and then \<open>hi\<close>,
  which do not.
\<close>

lemma arraylist_divide_spec:
  assumes "length pre = off" "\<forall>a \<in> set lo. cmp a pivot < 0" "\<forall>a \<in> set hi. \<not> cmp a pivot < 0"
  shows "\<exists>lo' hi'. arraylist_divide (length rest) cmp pivot off (length lo + length hi) (length lo)
      (pre @ map Some (lo @ hi @ rest) @ post) =
      Some (length lo', pre @ map Some (lo' @ hi') @ post) \<and>
    mset (lo' @ hi') = mset (lo @ hi @ rest) \<and>
    (\<forall>a \<in> set lo'. cmp a pivot < 0) \<and> (\<forall>a \<in> set hi'. \<not> cmp a pivot < 0)"
  using assms
proof (induction rest arbitrary: lo hi)
  case Nil
  then show ?case by auto
next
  case (Cons x rest)
  have get: "array_get (pre @ map Some (lo @ hi @ x # rest) @ post) (off + (length lo + length hi)) = Some x"
    using array_get_at [of _ "pre @ map Some (lo @ hi)" "Some x" "map Some rest @ post"] Cons.prems(1)
    by simp
  show ?case
  proof (cases "cmp x pivot < 0")
    case False
    with Cons.IH [of lo "hi @ [x]"] Cons.prems get show ?thesis by simp
  next
    case True
    show ?thesis
    proof (cases hi)
      case Nil
      with Cons.IH [of "lo @ [x]" "[]"] Cons.prems True get
        array_set_at [of _ "pre @ map Some lo" "Some x" "map Some rest @ post" x]
      show ?thesis by simp
    next
      case (Cons y hs)
      have "array_get (pre @ map Some (lo @ hi @ x # rest) @ post) (off + length lo) = Some y"
        using array_get_at [of _ "pre @ map Some lo" "Some y" "map Some (hs @ x # rest) @ post"]
          Cons.prems(1) Cons by simp
      moreover have "array_set (pre @ map Some (lo @ hi @ x # rest) @ post) (off + (length lo + length hi)) y =
          Some (pre @ map Some (lo @ hi @ y # rest) @ post)"
        using array_set_at [of _ "pre @ map Some (lo @ hi)" "Some x" "map Some rest @ post" y]
          Cons.prems(1) by simp
      moreover have "array_set (pre @ map Some (lo @ hi @ y # rest) @ post) (off + length lo) x =
          Some (pre @ map Some ((lo @ [x]) @ (hs @ [y]) @ rest) @ post)"
        using array_set_at [of _ "pre @ map Some lo" "Some y" "map Some (hs @ y # rest) @ post" x]
          Cons.prems(1) Cons by simp
      moreover obtain lo' hi' where
        "arraylist_divide (length rest) cmp pivot off (length (lo @ [x]) + length (hs @ [y])) (length (lo @ [x]))
          (pre @ map Some ((lo @ [x]) @ (hs @ [y]) @ rest) @ post) =
          Some (length lo', pre @ map Some (lo' @ hi') @ post)"
        "mset (lo' @ hi') = mset ((lo @ [x]) @ (hs @ [y]) @ rest)"
        "\<forall>a \<in> set lo'. cmp a pivot < 0" "\<forall>a \<in> set hi'. \<not> cmp a pivot < 0"
        using Cons.IH [of "lo @ [x]" "hs @ [y]"] Cons.prems Cons True by auto
      ultimately show ?thesis
        using get True Cons by (intro exI [of _ lo'] exI [of _ hi']) simp
    qed
  qed
qed

lemma arraylist_sort_internal_spec:
  assumes "length pre = off"
  shows "\<exists>ys. arraylist_sort_internal cmp off (length xs) (pre @ map Some xs @ post) =
      Some (pre @ map Some ys @ post) \<and> mset ys = mset xs \<and>
    (comparator cmp \<longrightarrow> sorted_wrt (\<lambda>a b. cmp a b \<le> 0) ys)"
  using assms
proof (induction "length xs" arbitrary: xs pre off post rule: less_induct)
  case less
  show ?case
  proof (cases "length xs \<le> 1")
    case True
    then have "sorted_wrt (\<lambda>a b. cmp a b \<le> 0) xs" by (cases xs) auto
    with True show ?thesis by (subst arraylist_sort_internal.simps) auto
  next
    case False
    then obtain zs p where xs: "xs = zs @ [p]" by (cases xs rule: rev_cases) auto
    from arraylist_divide_spec [of pre off "[]" cmp p "[]" zs "Some p # post"] less.prems
    obtain lo hi where dv: "arraylist_divide (length zs) cmp p off 0 0 (pre @ map Some xs @ post) =
        Some (length lo, pre @ map Some (lo @ hi) @ Some p # post)"
      and ms: "mset (lo @ hi) = mset zs"
      and lo: "\<forall>a \<in> set lo. cmp a p < 0" and hi: "\<forall>a \<in> set hi. \<not> cmp a p < 0"
      by (auto simp: xs)
    have len: "length lo + length hi = length zs" using ms by (metis length_append size_mset)
    have get: "array_get (pre @ map Some xs @ post) (off + (length xs - 1)) = Some p"
      using array_get_at [of _ "pre @ map Some zs" "Some p" post] less.prems by (simp add: xs)
    define hs where "hs = (if hi = [] then [] else tl hi @ [hd hi])"
    have mid: "\<exists>x d. array_get (pre @ map Some (lo @ hi) @ Some p # post) (off + length lo) = Some x \<and>
        array_set (pre @ map Some (lo @ hi) @ Some p # post) (off + (length xs - 1)) x = Some d \<and>
        array_set d (off + length lo) p = Some (pre @ map Some (lo @ p # hs) @ post)"
    proof (cases hi)
      case Nil
      then show ?thesis
        using array_get_at [of _ "pre @ map Some lo" "Some p" post] less.prems len
          array_set_at [of _ "pre @ map Some lo" "Some p" post p] by (simp add: xs hs_def)
    next
      case (Cons y ys)
      then show ?thesis
        using array_get_at [of _ "pre @ map Some lo" "Some y" "map Some ys @ Some p # post"]
          array_set_at [of _ "pre @ map Some (lo @ hi)" "Some p" post y]
          array_set_at [of _ "pre @ map Some lo" "Some y" "map Some (ys @ [y]) @ post" p] less.prems
        by (simp add: xs hs_def len [symmetric])
    qed
    have hs: "mset hs = mset hi" "length hs = length hi" "set hs = set hi"
      by (cases hi; auto simp: hs_def)+
    have short: "length lo < length xs" "length hs < length xs" using len hs(2) by (simp_all add: xs)
    from less.hyps [OF short(1) less.prems, of "Some p # map Some hs @ post"] obtain ls where ls:
      "arraylist_sort_internal cmp off (length lo) (pre @ map Some (lo @ p # hs) @ post) =
        Some (pre @ map Some ls @ Some p # map Some hs @ post)" "mset ls = mset lo"
      "comparator cmp \<longrightarrow> sorted_wrt (\<lambda>a b. cmp a b \<le> 0) ls" by auto
    have "length (pre @ map Some (ls @ [p])) = off + (length lo + 1)"
      using ls(2) less.prems by (simp flip: size_mset)
    from less.hyps [OF short(2) this, of post] obtain ms where ms':
      "arraylist_sort_internal cmp (off + (length lo + 1)) (length hs)
        (pre @ map Some ls @ Some p # map Some hs @ post) =
        Some (pre @ map Some (ls @ p # ms) @ post)" "mset ms = mset hs"
      "comparator cmp \<longrightarrow> sorted_wrt (\<lambda>a b. cmp a b \<le> 0) ms" by auto
    have l2: "length xs - length lo - 1 = length hs" using len hs(2) by (simp add: xs)
    from mid obtain x d where "array_get (pre @ map Some (lo @ hi) @ Some p # post) (off + length lo) = Some x"
      "array_set (pre @ map Some (lo @ hi) @ Some p # post) (off + (length xs - 1)) x = Some d"
      "array_set d (off + length lo) p = Some (pre @ map Some (lo @ p # hs) @ post)" by blast
    then have run: "arraylist_sort_internal cmp off (length xs) (pre @ map Some xs @ post) =
        Some (pre @ map Some (ls @ p # ms) @ post)"
      using False get dv ls(1) ms'(1) l2
      by (subst arraylist_sort_internal.simps) (simp add: xs)
    have "mset (ls @ p # ms) = mset xs" using ls(2) ms'(2) hs(1) ms by (simp add: xs)
    moreover have "sorted_wrt (\<lambda>a b. cmp a b \<le> 0) (ls @ p # ms)" if c: "comparator cmp"
    proof -
      note flip = comparator.cmp_flip [OF c] and le_flip = comparator.cmp_le_flip [OF c]
        and trans = comparator.cmp_trans [OF c]
      have "set ls = set lo" "set ms = set hi" using ls(2) ms'(2) hs(3) by (metis set_mset_mset)+
      moreover have "cmp a p \<le> 0" if "cmp a p < 0" for a using that by simp
      moreover have "cmp p b \<le> 0" if "\<not> cmp b p < 0" for b using that le_flip [of p b] by simp
      moreover have "cmp a b \<le> 0" if "cmp a p < 0" "\<not> cmp b p < 0" for a b
        using that flip [of b p] le_flip [of p b] trans [of a p b] by linarith
      ultimately show ?thesis
        using ls(3) ms'(3) c lo hi by (auto simp: sorted_wrt_append)
    qed
    ultimately show ?thesis using run by blast
  qed
qed

lemma arraylist_sort_spec:
  assumes "arraylist_rep al xs"
  shows "\<exists>al' ys. arraylist_sort cmp al = Some al' \<and> arraylist_rep al' ys \<and> mset ys = mset xs \<and>
    (comparator cmp \<longrightarrow> sorted_wrt (\<lambda>a b. cmp a b \<le> 0) ys)"
proof -
  from assms obtain rest where d: "al_data al = map Some xs @ rest"
    by (auto simp: arraylist_rep_def holds_split)
  from arraylist_sort_internal_spec [of "[]" 0 cmp xs rest] obtain ys where
    ys: "arraylist_sort_internal cmp 0 (length xs) (map Some xs @ rest) = Some (map Some ys @ rest)"
    "mset ys = mset xs" "comparator cmp \<longrightarrow> sorted_wrt (\<lambda>a b. cmp a b \<le> 0) ys" by auto
  moreover have "length ys = length xs" using ys(2) by (metis size_mset)
  ultimately show ?thesis
    using assms d by (auto simp: arraylist_sort_def arraylist_rep_def holds_split)
qed

section \<open>The array list implements a sequence of values\<close>










section \<open>Properties\<close>



text \<open>when memory runs out, an insertion reports failure and leaves the array list as it was;
  otherwise it inserts the value at the index.\<close>

theorem arraylist_insert_total:
  assumes "arraylist_rep al xs" "length xs < 2 ^ 31" "unat i \<le> length xs"
  shows "\<exists>ok al' m'. arraylist_insert al i x m = Some (ok, al', m') \<and>
    (if ok then arraylist_rep al' (take (unat i) xs @ x # drop (unat i) xs) else al' = al)"
  using arraylist_insert_spec [OF assms] by blast

theorem arraylist_insert_total_witness:
  "\<exists>ok al' m'. arraylist_insert \<lparr>al_data = [Some 4], al_length = 1, al_alloced = 1\<rparr> 1 7
      \<lparr>heap = Map.empty, answers = [0]\<rparr> = Some (ok, al', m') \<and>
    (if ok then arraylist_rep al' [4, 7] else al' = \<lparr>al_data = [Some 4], al_length = 1, al_alloced = 1\<rparr>)"
proof -
  have "arraylist_rep \<lparr>al_data = [Some 4], al_length = 1, al_alloced = 1\<rparr> [4]"
    by (simp add: arraylist_rep_def holds_def)
  from arraylist_insert_total [OF this, of 1 7 "\<lparr>heap = Map.empty, answers = [0]\<rparr>"]
  obtain ok al' m' where "arraylist_insert \<lparr>al_data = [Some 4], al_length = 1, al_alloced = 1\<rparr> 1 7
      \<lparr>heap = Map.empty, answers = [0]\<rparr> = Some (ok, al', m')"
    "if ok then arraylist_rep al' (take (unat (1 :: c_uint)) [4] @ 7 # drop (unat (1 :: c_uint)) [4])
     else al' = \<lparr>al_data = [Some 4], al_length = 1, al_alloced = 1\<rparr>" by auto
  then show ?thesis by (cases ok) auto
qed

text \<open>C7: \<open>arraylist_sort\<close> returns, and permutes the values; they are sorted if the comparison
  function keeps its contract.\<close>

theorem arraylist_sort_correct:
  assumes "arraylist_rep al xs"
  shows "\<exists>al' ys. arraylist_sort cmp al = Some al' \<and> arraylist_rep al' ys \<and> mset ys = mset xs \<and>
    (comparator cmp \<longrightarrow> sorted_wrt (\<lambda>a b. cmp a b \<le> 0) ys)"
  using assms by (rule arraylist_sort_spec)

theorem arraylist_sort_correct_witness:
  "\<exists>al' ys. arraylist_sort pointer_compare
      \<lparr>al_data = [Some 4, Some 9, Some 2, None], al_length = 3, al_alloced = 4\<rparr> = Some al' \<and>
    arraylist_rep al' ys \<and> mset ys = {#4, 9, 2#} \<and> sorted_wrt (\<lambda>a b. pointer_compare a b \<le> 0) ys"
proof -
  have "arraylist_rep \<lparr>al_data = [Some 4, Some 9, Some 2, None], al_length = 3, al_alloced = 4\<rparr> [4, 9, 2]"
    by (simp add: arraylist_rep_def holds_def)
  from arraylist_sort_correct [OF this, of pointer_compare] pointer_cmp.comparator_axioms
  show ?thesis by auto
qed

text \<open>the test of \<open>arraylist_remove_range\<close> adds index and length in 32 bits: a range that
  wraps around passes it, and the call makes the array list longer and repeats a value.\<close>

theorem arraylist_remove_range_wraps:
  "arraylist_remove_range \<lparr>al_data = [Some 4, Some 9, None], al_length = 2, al_alloced = 3\<rparr> 1 0xFFFFFFFF =
     Some \<lparr>al_data = [Some 4, Some 4, Some 9], al_length = 3, al_alloced = 3\<rparr>"
  by code_simp

end
