(* ===== verification/PriorityQueue.thy ===== *)
theory PriorityQueue
  imports Arrays Compare
begin

text \<open>
  The contract that the two heaps of libcalg, \<open>binary-heap.c\<close> and \<open>binomial-heap.c\<close>, keep: a
  multiset of values from which the least one is taken.  Both compare with a comparison
  function that they negate for a heap of type MAX.
\<close>

section \<open>Heap types\<close>

datatype heap_type = Heap_Min | Heap_Max

text \<open>The function \<open>binary_heap_cmp\<close>, and \<open>binomial_heap_cmp\<close>.\<close>

definition heap_cmp :: "heap_type \<Rightarrow> (val \<Rightarrow> val \<Rightarrow> int) \<Rightarrow> val \<Rightarrow> val \<Rightarrow> int" where
  "heap_cmp heap_type compare_func data1 data2 =
     (if heap_type = Heap_Min then compare_func data1 data2 else c_neg (compare_func data1 data2))"

text \<open>
  The comparison is a good one if the comparison function is, and its results can be negated.
\<close>

definition good_cmp :: "heap_type \<Rightarrow> (val \<Rightarrow> val \<Rightarrow> int) \<Rightarrow> bool" where
  "good_cmp t cmp \<longleftrightarrow> comparator cmp \<and> (t = Heap_Max \<longrightarrow> (\<forall>a b. cmp a b \<noteq> - (2 ^ 31)))"

lemma comparator_heap_cmp:
  assumes "good_cmp t cmp"
  shows "comparator (heap_cmp t cmp)"
proof (cases t)
  case Heap_Min
  with assms show ?thesis by (simp add: good_cmp_def heap_cmp_def [abs_def])
next
  case Heap_Max
  with assms have c: "comparator cmp" and eq: "heap_cmp t cmp = (\<lambda>a b. - cmp a b)"
    by (auto simp: good_cmp_def heap_cmp_def fun_eq_iff)
  show ?thesis
    unfolding eq
    using comparator.cmp_flip [OF c] comparator.cmp_trans [OF c] comparator.cmp_le_flip [OF c]
    by unfold_locales (auto simp: not_less) 
qed

section \<open>The contract\<close>

text \<open>
  Inserting the values of a list, and taking values until the count is used up.
\<close>

primrec pq_insert_all :: "('s \<Rightarrow> val \<Rightarrow> (bool \<times> 's) option) \<Rightarrow> val list \<Rightarrow> 's \<Rightarrow> 's option" where
  "pq_insert_all ins [] s = Some s"
| "pq_insert_all ins (x # xs) s = do {
     (ok, s) \<leftarrow> ins s x;
     if ok then pq_insert_all ins xs s else None
   }"

primrec pq_pop_all :: "('s \<Rightarrow> (val \<times> 's) option) \<Rightarrow> nat \<Rightarrow> 's \<Rightarrow> (val list \<times> 's) option" where
  "pq_pop_all pop 0 s = Some ([], s)"
| "pq_pop_all pop (Suc k) s = do {
     (x, s) \<leftarrow> pop s;
     (xs, s) \<leftarrow> pq_pop_all pop k s;
     Some (x # xs, s)
   }"

text \<open>
  \<open>rep n s V\<close>: the state \<open>s\<close> holds the values \<open>V\<close>, and \<open>n\<close> more operations can be served.
\<close>

locale priority_queue =
  fixes cmp :: "val \<Rightarrow> val \<Rightarrow> int"
    and ins :: "'s \<Rightarrow> val \<Rightarrow> (bool \<times> 's) option"
    and pop :: "'s \<Rightarrow> (val \<times> 's) option"
    and entries :: "'s \<Rightarrow> c_uint"
    and rep :: "nat \<Rightarrow> 's \<Rightarrow> val multiset \<Rightarrow> bool"
  assumes insert_rep: "rep (Suc n) s V \<Longrightarrow> \<exists>s'. ins s x = Some (True, s') \<and> rep n s' (add_mset x V)"
    and pop_empty: "rep (Suc n) s {#} \<Longrightarrow> \<exists>s'. pop s = Some (0, s') \<and> rep n s' {#}"
    and pop_rep: "rep (Suc n) s V \<Longrightarrow> V \<noteq> {#} \<Longrightarrow>
      \<exists>x s'. pop s = Some (x, s') \<and> x \<in># V \<and> (\<forall>y \<in># V. cmp x y \<le> 0) \<and> rep n s' (V - {#x#})"
    and entries_rep: "rep n s V \<Longrightarrow> entries s = of_nat (size V)"
begin

lemma insert_all_rep:
  "rep (length xs + n) s V \<Longrightarrow> \<exists>s'. pq_insert_all ins xs s = Some s' \<and> rep n s' (mset xs + V)"
proof (induction xs arbitrary: s V)
  case Nil
  then show ?case by simp
next
  case (Cons x xs)
  then obtain s1 where "ins s x = Some (True, s1)" "rep (length xs + n) s1 (add_mset x V)"
    using insert_rep [of "length xs + n" s V x] by auto
  with Cons.IH [of s1 "add_mset x V"] show ?case by auto
qed

lemma pop_all_rep:
  "rep (size V + n) s V \<Longrightarrow>
   \<exists>ys s'. pq_pop_all pop (size V) s = Some (ys, s') \<and> mset ys = V \<and>
     sorted_wrt (\<lambda>a b. cmp a b \<le> 0) ys \<and> rep n s' {#}"
proof (induction "size V" arbitrary: s V)
  case 0
  then show ?case by simp
next
  case (Suc k)
  have "rep (Suc (k + n)) s V" using Suc.prems unfolding Suc.hyps(2) [symmetric] by simp
  moreover have "V \<noteq> {#}" using Suc.hyps(2) by auto
  ultimately obtain x s1 where s1: "pop s = Some (x, s1)" "x \<in># V"
    "\<forall>y \<in># V. cmp x y \<le> 0" "rep (k + n) s1 (V - {#x#})" using pop_rep by blast
  have k: "k = size (V - {#x#})" using Suc.hyps(2) s1(2) by (simp add: size_Diff_singleton)
  with Suc.hyps(1) [OF k, of s1] s1(4) have "\<exists>ys s2. pq_pop_all pop k s1 = Some (ys, s2) \<and>
      mset ys = V - {#x#} \<and> sorted_wrt (\<lambda>a b. cmp a b \<le> 0) ys \<and> rep n s2 {#}" by metis
  then obtain ys s2 where "pq_pop_all pop k s1 = Some (ys, s2)" "mset ys = V - {#x#}"
    "sorted_wrt (\<lambda>a b. cmp a b \<le> 0) ys" "rep n s2 {#}" by blast
  moreover from this(2) have "\<forall>y \<in> set ys. cmp x y \<le> 0"
    using s1(3) by (metis in_diffD set_mset_mset)
  ultimately show ?case
    using s1(1,2) by (simp flip: Suc.hyps(2))
qed

text \<open>Values that go in come out in order.\<close>

lemma heap_sorts:
  assumes "rep (length xs + length xs) s {#}"
  shows "\<exists>s1 ys s2. pq_insert_all ins xs s = Some s1 \<and> entries s1 = of_nat (length xs) \<and>
    pq_pop_all pop (length xs) s1 = Some (ys, s2) \<and> mset ys = mset xs \<and>
    sorted_wrt (\<lambda>a b. cmp a b \<le> 0) ys \<and> entries s2 = 0"
proof -
  from insert_all_rep [OF assms] obtain s1 where s1: "pq_insert_all ins xs s = Some s1"
    "rep (length xs) s1 (mset xs)" by auto
  from pop_all_rep [of "mset xs" 0 s1] s1(2) obtain ys s2 where
    "pq_pop_all pop (length xs) s1 = Some (ys, s2)" "mset ys = mset xs"
    "sorted_wrt (\<lambda>a b. cmp a b \<le> 0) ys" "rep 0 s2 {#}" by auto
  with s1 entries_rep [OF s1(2)] entries_rep [of 0 s2 "{#}"] show ?thesis by simp
qed

end

end
