(* ===== verification/BinaryHeap.thy ===== *)
theory BinaryHeap
  imports PriorityQueue
begin

text \<open>
  The binary heap of \<open>libcalg/src/binary-heap.c\<close>, every function of the file: a complete tree in
  an array, in which the parent of the value at index \<open>i\<close> is at \<open>(i - 1) / 2\<close>.
\<close>

section \<open>The code\<close>

record binary_heap =
  bh_type :: heap_type
  bh_values :: "val cells"
  bh_num_values :: c_uint
  bh_alloced_size :: c_uint
  bh_compare_func :: "val \<Rightarrow> val \<Rightarrow> int"

type_synonym bmem = "unit mem"

definition binary_heap_cmp :: "binary_heap \<Rightarrow> val \<Rightarrow> val \<Rightarrow> int" where
  "binary_heap_cmp hp data1 data2 =
     (if bh_type hp = Heap_Min then bh_compare_func hp data1 data2
      else c_neg (bh_compare_func hp data1 data2))"

definition binary_heap_new ::
  "heap_type \<Rightarrow> (val \<Rightarrow> val \<Rightarrow> int) \<Rightarrow> bmem \<Rightarrow> binary_heap option \<times> bmem"
where
  "binary_heap_new heap_type compare_func m =
     (let (ok, m) = malloc_block m
      in if \<not> ok then (None, m)
         else let (ok, m) = malloc_block m
              in if \<not> ok then (None, m)
                 else (Some \<lparr>bh_type = heap_type, bh_values = array_new 16, bh_num_values = 0,
                         bh_alloced_size = 16, bh_compare_func = compare_func\<rparr>, m))"

text \<open>The loop that moves the hole at \<open>index\<close> up, over the array of the values.\<close>

partial_function (option) binary_heap_up ::
  "(val \<Rightarrow> val \<Rightarrow> int) \<Rightarrow> val \<Rightarrow> c_uint \<Rightarrow> val cells \<Rightarrow> (c_uint \<times> val cells) option"
where
  "binary_heap_up cmp value index values =
     (if index > 0 then do {
        let parent = (index - 1) div 2;
        p \<leftarrow> array_get values (unat parent);
        if cmp p value < 0 then Some (index, values)
        else do {
          values \<leftarrow> array_set values (unat index) p;
          binary_heap_up cmp value parent values
        }
      }
      else Some (index, values))"

definition binary_heap_insert ::
  "binary_heap \<Rightarrow> val \<Rightarrow> bmem \<Rightarrow> (bool \<times> binary_heap \<times> bmem) option"
where
  "binary_heap_insert hp value m =
     (let (ok, hp, m) =
        (if bh_num_values hp \<ge> bh_alloced_size hp then
           let new_size = bh_alloced_size hp * 2;
               (ok, m) = malloc_block m
           in if \<not> ok then (False, hp, m)
              else (True, hp\<lparr>bh_alloced_size := new_size,
                      bh_values := array_resize (bh_values hp) (unat new_size)\<rparr>, m)
         else (True, hp, m))
      in if \<not> ok then Some (False, hp, m)
         else do {
           let index = bh_num_values hp;
           let hp = hp\<lparr>bh_num_values := index + 1\<rparr>;
           (index, values) \<leftarrow> binary_heap_up (binary_heap_cmp hp) value index (bh_values hp);
           values \<leftarrow> array_set values (unat index) value;
           Some (True, hp\<lparr>bh_values := values\<rparr>, m)
         })"

text \<open>
  The child that takes the place of the hole at \<open>index\<close>, if one does; the conditions read the
  array only if the tests before them succeed.
\<close>

definition binary_heap_child ::
  "(val \<Rightarrow> val \<Rightarrow> int) \<Rightarrow> val \<Rightarrow> c_uint \<Rightarrow> c_uint \<Rightarrow> val cells \<Rightarrow> c_uint option option"
where
  "binary_heap_child cmp new_value num index values = do {
     let child1 = index * 2 + 1;
     let child2 = index * 2 + 2;
     left \<leftarrow> (if child1 < num
             then do { x \<leftarrow> array_get values (unat child1); Some (cmp new_value x > 0) }
             else Some False);
     if left then do {
       right \<leftarrow> (if child2 < num
                then do {
                  x \<leftarrow> array_get values (unat child1);
                  y \<leftarrow> array_get values (unat child2);
                  Some (cmp x y > 0)
                }
                else Some False);
       Some (Some (if right then child2 else child1))
     }
     else do {
       right \<leftarrow> (if child2 < num
                then do { y \<leftarrow> array_get values (unat child2); Some (cmp new_value y > 0) }
                else Some False);
       Some (if right then Some child2 else None)
     }
   }"

text \<open>The loop that moves it down.\<close>

partial_function (option) binary_heap_down ::
  "(val \<Rightarrow> val \<Rightarrow> int) \<Rightarrow> val \<Rightarrow> c_uint \<Rightarrow> c_uint \<Rightarrow> val cells \<Rightarrow> val cells option"
where
  "binary_heap_down cmp new_value num index values = do {
     child \<leftarrow> binary_heap_child cmp new_value num index values;
     case child of
       None \<Rightarrow> array_set values (unat index) new_value
     | Some next_index \<Rightarrow> do {
         x \<leftarrow> array_get values (unat next_index);
         values \<leftarrow> array_set values (unat index) x;
         binary_heap_down cmp new_value num next_index values
       }
   }"

definition binary_heap_pop :: "binary_heap \<Rightarrow> (val \<times> binary_heap) option" where
  "binary_heap_pop hp =
     (if bh_num_values hp = 0 then Some (0, hp)
      else do {
        result \<leftarrow> array_get (bh_values hp) 0;
        new_value \<leftarrow> array_get (bh_values hp) (unat (bh_num_values hp - 1));
        let hp = hp\<lparr>bh_num_values := bh_num_values hp - 1\<rparr>;
        values \<leftarrow> binary_heap_down (binary_heap_cmp hp) new_value (bh_num_values hp) 0 (bh_values hp);
        Some (result, hp\<lparr>bh_values := values\<rparr>)
      })"

definition binary_heap_num_entries :: "binary_heap \<Rightarrow> c_uint" where
  "binary_heap_num_entries hp = bh_num_values hp"

section \<open>Heap order\<close>

abbreviation parent :: "nat \<Rightarrow> nat" where
  "parent i \<equiv> (i - 1) div 2"

definition heap_ordered :: "(val \<Rightarrow> val \<Rightarrow> int) \<Rightarrow> val list \<Rightarrow> bool" where
  "heap_ordered cmp xs \<longleftrightarrow> (\<forall>j. 0 < j \<and> j < length xs \<longrightarrow> cmp (xs ! parent j) (xs ! j) \<le> 0)"

text \<open>
  In order but for the value at \<open>i\<close> and its parent (\<open>up\<close>), or its children (\<open>down\<close>); the values
  next to \<open>i\<close> are in order without it.
\<close>

definition ordered_up :: "(val \<Rightarrow> val \<Rightarrow> int) \<Rightarrow> val list \<Rightarrow> nat \<Rightarrow> bool" where
  "ordered_up cmp xs i \<longleftrightarrow>
     (\<forall>j. 0 < j \<and> j < length xs \<and> j \<noteq> i \<longrightarrow> cmp (xs ! parent j) (xs ! j) \<le> 0) \<and>
     (\<forall>j. 0 < i \<and> 0 < j \<and> j < length xs \<and> parent j = i \<longrightarrow> cmp (xs ! parent i) (xs ! j) \<le> 0)"

definition ordered_down :: "(val \<Rightarrow> val \<Rightarrow> int) \<Rightarrow> val list \<Rightarrow> nat \<Rightarrow> bool" where
  "ordered_down cmp xs i \<longleftrightarrow>
     (\<forall>j. 0 < j \<and> j < length xs \<and> parent j \<noteq> i \<longrightarrow> cmp (xs ! parent j) (xs ! j) \<le> 0) \<and>
     (\<forall>j. 0 < i \<and> 0 < j \<and> j < length xs \<and> parent j = i \<longrightarrow> cmp (xs ! parent i) (xs ! j) \<le> 0)"

abbreviation swap :: "nat \<Rightarrow> nat \<Rightarrow> val list \<Rightarrow> val list" where
  "swap i k xs \<equiv> xs[i := xs ! k, k := xs ! i]"

lemma parent_less: "0 < i \<Longrightarrow> parent i < i"
  by auto

context comparator
begin

lemma ordered_up_stop:
  "ordered_up cmp xs i \<Longrightarrow> i = 0 \<or> cmp (xs ! parent i) (xs ! i) \<le> 0 \<Longrightarrow> heap_ordered cmp xs"
  unfolding ordered_up_def heap_ordered_def by blast

lemma ordered_up_swap:
  assumes up: "ordered_up cmp xs i" and i: "0 < i" "i < length xs"
    and le: "cmp (xs ! i) (xs ! parent i) \<le> 0"
  shows "ordered_up cmp (swap i (parent i) xs) (parent i)"
proof -
  let ?p = "parent i" and ?ys = "swap i (parent i) xs"
  have p: "?p < i" using i(1) by (rule parent_less)
  have ord: "cmp (xs ! parent j) (xs ! j) \<le> 0" if "0 < j" "j < length xs" "j \<noteq> i" for j
    using up that unfolding ordered_up_def by blast
  have grand: "cmp (xs ! ?p) (xs ! j) \<le> 0" if "0 < j" "j < length xs" "parent j = i" for j
    using up that i(1) unfolding ordered_up_def by blast
  have ys: "?ys ! j = (if j = ?p then xs ! i else if j = i then xs ! ?p else xs ! j)"
    if "j < length xs" for j using that i p by (simp add: nth_list_update)
  show ?thesis
    unfolding ordered_up_def length_list_update
  proof (intro conjI allI impI; elim conjE)
    fix j assume j: "0 < j" "j < length xs" "j \<noteq> ?p"
    have pj: "parent j < j" using j(1) by (rule parent_less)
    consider "j = i" | "j \<noteq> i" "parent j = i" | "j \<noteq> i" "parent j = ?p" | "parent j \<noteq> i" "parent j \<noteq> ?p" "j \<noteq> i"
      by blast
    then show "cmp (?ys ! parent j) (?ys ! j) \<le> 0"
    proof cases
      case 1
      with le j ys i p show ?thesis by simp
    next
      case 2
      with grand [OF j(1,2)] j ys i p show ?thesis by simp
    next
      case 3
      with cmp_trans [OF le] ord [OF j(1,2)] j ys i p show ?thesis by simp
    next
      case 4
      with ord [OF j(1,2)] j ys i pj show ?thesis by simp
    qed
  next
    fix j assume j: "0 < ?p" "0 < j" "j < length xs" "parent j = ?p"
    have pp: "parent ?p < ?p" using j(1) by (rule parent_less)
    have top: "cmp (xs ! parent ?p) (xs ! ?p) \<le> 0" using ord [OF j(1)] p i by simp
    show "cmp (?ys ! parent ?p) (?ys ! j) \<le> 0"
    proof (cases "j = i")
      case True
      with top ys pp p i j show ?thesis by simp
    next
      case False
      moreover have "j \<noteq> ?p" using j parent_less [of j] by auto
      ultimately show ?thesis using cmp_trans [OF top] ord [OF j(2,3)] j ys pp p i by simp
    qed
  qed
qed

lemma ordered_down_stop:
  "ordered_down cmp xs i \<Longrightarrow> (\<And>j. 0 < j \<Longrightarrow> j < length xs \<Longrightarrow> parent j = i \<Longrightarrow> cmp (xs ! i) (xs ! j) \<le> 0) \<Longrightarrow>
   heap_ordered cmp xs"
  unfolding ordered_down_def heap_ordered_def by blast

lemma ordered_down_swap:
  assumes down: "ordered_down cmp xs i" and k: "0 < k" "k < length xs" "parent k = i"
    and le: "cmp (xs ! k) (xs ! i) \<le> 0"
    and least: "\<And>j. 0 < j \<Longrightarrow> j < length xs \<Longrightarrow> parent j = i \<Longrightarrow> cmp (xs ! k) (xs ! j) \<le> 0"
  shows "ordered_down cmp (swap i k xs) k"
proof -
  let ?ys = "swap i k xs"
  have i: "i < k" using parent_less [OF k(1)] k(3) by simp
  have ord: "cmp (xs ! parent j) (xs ! j) \<le> 0" if "0 < j" "j < length xs" "parent j \<noteq> i" for j
    using down that unfolding ordered_down_def by blast
  have grand: "cmp (xs ! parent i) (xs ! k) \<le> 0" if "0 < i"
    using down that k unfolding ordered_down_def by blast
  have ys: "?ys ! j = (if j = k then xs ! i else if j = i then xs ! k else xs ! j)"
    if "j < length xs" for j using that i k by (simp add: nth_list_update)
  show ?thesis
    unfolding ordered_down_def length_list_update
  proof (intro conjI allI impI; elim conjE)
    fix j assume j: "0 < j" "j < length xs" "parent j \<noteq> k"
    have pj: "parent j < j" using j(1) by (rule parent_less)
    consider "j = k" | "j = i" | "j \<noteq> k" "j \<noteq> i" "parent j = i" | "j \<noteq> k" "j \<noteq> i" "parent j \<noteq> i" by blast
    then show "cmp (?ys ! parent j) (?ys ! j) \<le> 0"
    proof cases
      case 1
      with le k i ys show ?thesis by simp
    next
      case 2
      with grand j k i ys pj show ?thesis by simp
    next
      case 3
      with least [OF j(1,2)] j i ys show ?thesis by simp
    next
      case 4
      with ord [OF j(1,2)] j ys pj show ?thesis by simp
    qed
  next
    fix j assume j: "0 < k" "0 < j" "j < length xs" "parent j = k"
    have "k < j" using parent_less [OF j(2)] j(4) by simp
    with ord [OF j(2,3)] j k i ys show "cmp (?ys ! parent k) (?ys ! j) \<le> 0" by simp
  qed
qed

text \<open>The first value of a heap is a least one.\<close>

lemma heap_ordered_first:
  assumes "heap_ordered cmp xs"
  shows "j < length xs \<Longrightarrow> cmp (xs ! 0) (xs ! j) \<le> 0"
proof (induction j rule: less_induct)
  case (less j)
  show ?case
  proof (cases "j = 0")
    case False
    with less.prems have "cmp (xs ! 0) (xs ! parent j) \<le> 0"
      by (intro less.IH parent_less) auto
    moreover have "cmp (xs ! parent j) (xs ! j) \<le> 0"
      using assms less.prems False by (simp add: heap_ordered_def)
    ultimately show ?thesis by (rule cmp_trans)
  qed simp
qed

end

section \<open>The loops\<close>

lemma holds_update: "holds d xs \<Longrightarrow> i < length xs \<Longrightarrow> holds (d[i := Some x]) (xs[i := x])"
  by (auto simp: holds_split list_update_append map_update)

text \<open>An array with a hole at \<open>i\<close>, which stands for the value \<open>v\<close>.\<close>

definition hole :: "val cells \<Rightarrow> nat \<Rightarrow> val \<Rightarrow> val list \<Rightarrow> bool" where
  "hole d i v xs \<longleftrightarrow> i < length d \<and> i < length xs \<and> xs ! i = v \<and> holds (d[i := Some v]) xs"

lemma hole_get:
  assumes "hole d i v xs" "j < length xs" "j \<noteq> i"
  shows "array_get d j = Some (xs ! j)"
proof -
  have h: "holds (d[i := Some v]) xs" using assms(1) by (simp add: hole_def)
  with holds_get [OF h assms(2)] holds_length [OF h] assms(2,3) show ?thesis
    by (simp add: array_get_def)
qed

lemma hole_fill: "hole d i v xs \<Longrightarrow> array_set d i v = Some (d[i := Some v])"
  by (simp add: hole_def array_set_def)

lemma hole_move:
  assumes "hole d i v xs" "j < length xs" "j \<noteq> i"
  shows "array_set d i (xs ! j) = Some (d[i := Some (xs ! j)])"
    "hole (d[i := Some (xs ! j)]) j v (swap i j xs)" "mset (swap i j xs) = mset xs"
proof -
  have d: "i < length d" "i < length xs" "xs ! i = v" "holds (d[i := Some v]) xs"
    using assms(1) by (simp_all add: hole_def)
  show "array_set d i (xs ! j) = Some (d[i := Some (xs ! j)])"
    using d by (simp add: array_set_def)
  have "holds (d[i := Some (xs ! j)]) (xs[i := xs ! j])"
    using holds_update [OF d(4,2), of "xs ! j"] by simp
  then have "holds (d[i := Some (xs ! j), j := Some v]) (swap i j xs)"
    using holds_update [of "d[i := Some (xs ! j)]" "xs[i := xs ! j]" j v] assms(2) d(3) by simp
  moreover have "j < length d" using assms(2) holds_length [OF d(4)] by simp
  ultimately show "hole (d[i := Some (xs ! j)]) j v (swap i j xs)"
    using assms d by (simp add: hole_def)
  show "mset (swap i j xs) = mset xs" using mset_swap [OF assms(2) d(2)] by simp
qed

lemma ordered_up_push:
  assumes "heap_ordered cmp xs"
  shows "ordered_up cmp (xs @ [v]) (length xs)"
  unfolding ordered_up_def
proof (intro conjI allI impI; elim conjE)
  fix j assume j: "0 < j" "j < length (xs @ [v])" "j \<noteq> length xs"
  then have "j < length xs" by simp
  moreover from parent_less [OF j(1)] this have "parent j < length xs" by (rule less_trans)
  ultimately show "cmp ((xs @ [v]) ! parent j) ((xs @ [v]) ! j) \<le> 0"
    using assms j(1) by (simp add: nth_append heap_ordered_def)
next
  fix j assume "0 < j" "j < length (xs @ [v])" "parent j = length xs"
  with parent_less [of j] show "cmp ((xs @ [v]) ! parent (length xs)) ((xs @ [v]) ! j) \<le> 0" by simp
qed

context comparator
begin

lemma binary_heap_up_spec:
  "hole d (unat index) v xs \<Longrightarrow> ordered_up cmp xs (unat index) \<Longrightarrow>
   \<exists>index' d' d'' ys. binary_heap_up cmp v index d = Some (index', d') \<and>
     array_set d' (unat index') v = Some d'' \<and> holds d'' ys \<and> length d'' = length d \<and>
     mset ys = mset xs \<and> heap_ordered cmp ys"
proof (induction "unat index" arbitrary: index d xs rule: less_induct)
  case less
  note hole = less.prems(1)
  have fill: "array_set d (unat index) v = Some (d[unat index := Some v])" "holds (d[unat index := Some v]) xs"
    using hole_fill [OF hole] hole by (simp_all add: hole_def)
  show ?case
  proof (cases "index = 0")
    case True
    with fill less.prems show ?thesis
      by (subst binary_heap_up.simps) (auto intro: ordered_up_stop)
  next
    case False
    then have pos: "0 < unat index" "0 < index" by (simp_all add: unat_gt_0 word_gt_0)
    let ?par = "(index - 1) div 2"
    have "1 \<le> index" using pos(2) by (simp add: word_le_nat_alt word_less_nat_alt)
    then have par: "unat ?par = parent (unat index)" by (simp add: unat_div unat_sub)
    have lt: "parent (unat index) < unat index" using pos(1) by (rule parent_less)
    have inside: "unat index < length xs" using hole by (simp add: hole_def)
    have get: "array_get d (unat ?par) = Some (xs ! parent (unat index))"
      using hole_get [OF hole, of "parent (unat index)"] lt inside par by simp
    show ?thesis
    proof (cases "cmp (xs ! parent (unat index)) v < 0")
      case True
      then have "heap_ordered cmp xs"
        using hole by (intro ordered_up_stop [OF less.prems(2)]) (simp add: hole_def)
      with True fill get pos show ?thesis
        by (subst binary_heap_up.simps) auto
    next
      case False
      then have le: "cmp (xs ! unat index) (xs ! parent (unat index)) \<le> 0"
        using hole cmp_le_flip by (simp add: hole_def)
      note move = hole_move [OF hole, of "parent (unat index)"]
      have "hole (d[unat index := Some (xs ! parent (unat index))]) (unat ?par) v
          (swap (unat index) (parent (unat index)) xs)"
        using move lt inside unfolding par by simp
      moreover have "ordered_up cmp (swap (unat index) (parent (unat index)) xs) (unat ?par)"
        unfolding par by (rule ordered_up_swap [OF less.prems(2) pos(1) inside le])
      moreover have "unat ?par < unat index" using par lt by simp
      ultimately obtain index' d' d'' ys where
        "binary_heap_up cmp v ?par (d[unat index := Some (xs ! parent (unat index))]) = Some (index', d')"
        "array_set d' (unat index') v = Some d''" "holds d'' ys" "length d'' = length d"
        "mset ys = mset (swap (unat index) (parent (unat index)) xs)" "heap_ordered cmp ys"
        using less.hyps by (metis length_list_update)
      with move lt inside get False pos show ?thesis
        by (subst binary_heap_up.simps) auto
    qed
  qed
qed

lemma parent_children: "0 < j \<and> parent j = i \<longleftrightarrow> j = 2 * i + 1 \<or> j = 2 * i + 2" for i j :: nat
  by presburger

lemma binary_heap_child_spec:
  assumes hole: "hole d (unat index) v xs" and num: "unat num = length xs" "length xs < 2 ^ 31"
  shows "\<exists>r. binary_heap_child cmp v num index d = Some r \<and>
    (case r of
      None \<Rightarrow> \<forall>j. 0 < j \<and> j < length xs \<and> parent j = unat index \<longrightarrow> cmp v (xs ! j) \<le> 0
    | Some k \<Rightarrow> 0 < unat k \<and> unat k < length xs \<and> parent (unat k) = unat index \<and> cmp (xs ! unat k) v \<le> 0 \<and>
        (\<forall>j. 0 < j \<and> j < length xs \<and> parent j = unat index \<longrightarrow> cmp (xs ! unat k) (xs ! j) \<le> 0))"
proof -
  let ?i = "unat index"
  have i: "?i < length xs" using hole by (simp add: hole_def)
  have c: "unat (index * 2 + 1) = 2 * ?i + 1" "unat (index * 2 + 2) = 2 * ?i + 2"
    using i num(2) by (simp_all add: unat_word_ariths)
  have lt: "index * 2 + 1 < num \<longleftrightarrow> 2 * ?i + 1 < length xs" "index * 2 + 2 < num \<longleftrightarrow> 2 * ?i + 2 < length xs"
    using c num(1) by (simp_all add: word_less_nat_alt)
  have get: "array_get d (2 * ?i + 1) = Some (xs ! (2 * ?i + 1))" if "2 * ?i + 1 < length xs"
    using hole_get [OF hole that] by simp
  have get2: "array_get d (2 * ?i + 2) = Some (xs ! (2 * ?i + 2))" if "2 * ?i + 2 < length xs"
    using hole_get [OF hole that] by simp
  define least where "least x \<longleftrightarrow>
    (\<forall>j. 0 < j \<and> j < length xs \<and> parent j = ?i \<longrightarrow> cmp x (xs ! j) \<le> 0)" for x
  have children: "least x \<longleftrightarrow> (2 * ?i + 1 < length xs \<longrightarrow> cmp x (xs ! (2 * ?i + 1)) \<le> 0) \<and>
      (2 * ?i + 2 < length xs \<longrightarrow> cmp x (xs ! (2 * ?i + 2)) \<le> 0)" for x
  proof -
    have "least x \<longleftrightarrow> (\<forall>j. (j = 2 * ?i + 1 \<or> j = 2 * ?i + 2) \<and> j < length xs \<longrightarrow> cmp x (xs ! j) \<le> 0)"
      unfolding least_def by (rule iff_allI) (simp only: parent_children [symmetric] conj_ac)
    then show ?thesis by blast
  qed
  have le: "cmp b a \<le> 0" if "cmp a b > 0" for a b using that cmp_flip [of b a] by simp
  define l r where "l = xs ! (2 * ?i + 1)" and "r = xs ! (2 * ?i + 2)"
  let ?L = "2 * ?i + 1 < length xs" and ?R = "2 * ?i + 2 < length xs"
  have eq: "binary_heap_child cmp v num index d = Some
      (if ?L \<and> cmp v l > 0 then Some (if ?R \<and> cmp l r > 0 then index * 2 + 2 else index * 2 + 1)
       else if ?R \<and> cmp v r > 0 then Some (index * 2 + 2) else None)"
  proof (cases ?L)
    case L: True
    show ?thesis
      using L get [OF L] get2 unfolding binary_heap_child_def Let_def lt c l_def r_def
      by (cases ?R) simp_all
  next
    case L: False
    then have "\<not> ?R" by simp
    with L show ?thesis unfolding binary_heap_child_def Let_def lt c by simp
  qed
  have trans: "cmp r l \<le> 0" if "0 < cmp v r" "cmp v l \<le> 0"
    using le [OF that(1)] that(2) by (rule cmp_trans)
  have trans2: "cmp r v \<le> 0" if "0 < cmp v l" "0 < cmp l r"
    using le [OF that(2)] le [OF that(1)] by (rule cmp_trans)
  have kids: "least x \<longleftrightarrow> (?L \<longrightarrow> cmp x l \<le> 0) \<and> (?R \<longrightarrow> cmp x r \<le> 0)" for x
    by (simp add: children l_def r_def)
  obtain a b where ab: "unat (index * 2 + 1) = a" "unat (index * 2 + 2) = b" "0 < a" "0 < b"
    "parent a = ?i" "parent b = ?i" "xs ! a = l" "xs ! b = r" "?L \<longleftrightarrow> a < length xs" "?R \<longleftrightarrow> b < length xs"
    using c by (auto simp: l_def r_def)
  have "case (if ?L \<and> cmp v l > 0 then Some (if ?R \<and> cmp l r > 0 then index * 2 + 2 else index * 2 + 1)
       else if ?R \<and> cmp v r > 0 then Some (index * 2 + 2) else None) of
      None \<Rightarrow> least v
    | Some k \<Rightarrow> 0 < unat k \<and> unat k < length xs \<and> parent (unat k) = ?i \<and> cmp (xs ! unat k) v \<le> 0 \<and>
        least (xs ! unat k)"
    using trans trans2 le [of v l] le [of v r] le [of l r]
    unfolding ab(9,10) kids
    by (auto simp: ab(1-4,7,8) ab(5,6) [unfolded One_nat_def] not_less)
  then show ?thesis unfolding eq least_def by blast
qed

lemma binary_heap_down_spec:
  "hole d (unat index) v xs \<Longrightarrow> ordered_down cmp xs (unat index) \<Longrightarrow>
   unat num = length xs \<Longrightarrow> length xs < 2 ^ 31 \<Longrightarrow>
   \<exists>d' ys. binary_heap_down cmp v num index d = Some d' \<and> holds d' ys \<and> length d' = length d \<and>
     mset ys = mset xs \<and> heap_ordered cmp ys"
proof (induction "length xs - unat index" arbitrary: index d xs rule: less_induct)
  case less
  note hole = less.prems(1)
  from binary_heap_child_spec [OF hole less.prems(3,4)] obtain r where
    r: "binary_heap_child cmp v num index d = Some r" and
    r': "case r of
      None \<Rightarrow> \<forall>j. 0 < j \<and> j < length xs \<and> parent j = unat index \<longrightarrow> cmp v (xs ! j) \<le> 0
    | Some k \<Rightarrow> 0 < unat k \<and> unat k < length xs \<and> parent (unat k) = unat index \<and> cmp (xs ! unat k) v \<le> 0 \<and>
        (\<forall>j. 0 < j \<and> j < length xs \<and> parent j = unat index \<longrightarrow> cmp (xs ! unat k) (xs ! j) \<le> 0)" by blast
  have v: "xs ! unat index = v" "holds (d[unat index := Some v]) xs" using hole by (simp_all add: hole_def)
  show ?case
  proof (cases r)
    case None
    with r' v have "heap_ordered cmp xs" by (intro ordered_down_stop [OF less.prems(2)]) simp
    with None r v hole_fill [OF hole] show ?thesis by (subst binary_heap_down.simps) auto
  next
    case (Some k)
    with r' have k: "0 < unat k" "unat k < length xs" "parent (unat k) = unat index" "cmp (xs ! unat k) v \<le> 0"
      and least: "\<And>j. 0 < j \<Longrightarrow> j < length xs \<Longrightarrow> parent j = unat index \<Longrightarrow> cmp (xs ! unat k) (xs ! j) \<le> 0"
      by auto
    have lt: "unat index < unat k" using parent_less [OF k(1)] k(3) by simp
    have dl: "length xs - unat k < length xs - unat index" using lt k(2) by linarith
    note move = hole_move [OF hole k(2)]
    have "ordered_down cmp (swap (unat index) (unat k) xs) (unat k)"
      using ordered_down_swap [OF less.prems(2) k(1-3) _ least] k(4) v by simp
    with less.hyps [of "swap (unat index) (unat k) xs" k "d[unat index := Some (xs ! unat k)]"]
      move lt k(2) dl less.prems(3,4)
    obtain d' ys where "binary_heap_down cmp v num k (d[unat index := Some (xs ! unat k)]) = Some d'"
      "holds d' ys" "length d' = length d" "mset ys = mset xs" "heap_ordered cmp ys" by auto
    moreover have "array_get d (unat k) = Some (xs ! unat k)" using hole_get [OF hole k(2)] lt by simp
    ultimately show ?thesis
      using Some r move(1) lt by (subst binary_heap_down.simps) auto
  qed
qed

end

section \<open>What a binary heap represents\<close>

lemma binary_heap_cmp_eq: "binary_heap_cmp hp = heap_cmp (bh_type hp) (bh_compare_func hp)"
  by (simp add: binary_heap_cmp_def heap_cmp_def fun_eq_iff)

definition binary_heap_rep :: "binary_heap \<Rightarrow> val multiset \<Rightarrow> bool" where
  "binary_heap_rep hp V \<longleftrightarrow> (\<exists>xs. V = mset xs \<and> holds (bh_values hp) xs \<and>
     unat (bh_num_values hp) = length xs \<and> length (bh_values hp) = unat (bh_alloced_size hp) \<and>
     bh_alloced_size hp \<noteq> 0 \<and> heap_ordered (binary_heap_cmp hp) xs)"

lemma binary_heap_new_spec:
  assumes "grants (Suc (Suc n)) m"
  obtains hp m' where "binary_heap_new t cmp m = (Some hp, m')" "binary_heap_rep hp {#}" "grants n m'"
    "bh_type hp = t" "bh_compare_func hp = cmp"
proof -
  from assms obtain m1 where m1: "malloc_block m = (True, m1)" "grants (Suc n) m1"
    by (rule grants_block)
  from m1(2) obtain m2 where "malloc_block m1 = (True, m2)" "grants n m2" by (rule grants_block)
  with m1(1) that show ?thesis
    by (simp add: binary_heap_new_def Let_def binary_heap_rep_def heap_ordered_def)
qed

lemma binary_heap_insert_spec:
  assumes good: "comparator (binary_heap_cmp hp)" and rep: "binary_heap_rep hp V" and small: "size V < 2 ^ 31"
  shows "\<exists>ok hp' m'. binary_heap_insert hp v m = Some (ok, hp', m') \<and>
    bh_type hp' = bh_type hp \<and> bh_compare_func hp' = bh_compare_func hp \<and>
    (if ok then binary_heap_rep hp' (add_mset v V) else hp' = hp) \<and>
    (grants (Suc n) m \<longrightarrow> ok \<and> grants n m')"
proof -
  from rep obtain xs where V: "V = mset xs" and xs: "holds (bh_values hp) xs"
    and num: "unat (bh_num_values hp) = length xs"
    and alloced: "length (bh_values hp) = unat (bh_alloced_size hp)" "bh_alloced_size hp \<noteq> 0"
    and ord: "heap_ordered (binary_heap_cmp hp) xs" by (auto simp: binary_heap_rep_def)
  have len: "length xs < 2 ^ 31" using small V by simp
  let ?full = "bh_num_values hp \<ge> bh_alloced_size hp"
  let ?grow = "let new_size = bh_alloced_size hp * 2; (ok, m) = malloc_block m
      in if \<not> ok then (False, hp, m)
         else (True, hp\<lparr>bh_alloced_size := new_size,
                 bh_values := array_resize (bh_values hp) (unat new_size)\<rparr>, m)"
  obtain ok hp1 m1 where r: "(if ?full then ?grow else (True, hp, m)) = (ok, hp1, m1)"
    by (rule prod_cases3 [of "if ?full then ?grow else (True, hp, m)"])
  have hp1: "bh_type hp1 = bh_type hp \<and> bh_compare_func hp1 = bh_compare_func hp \<and>
    bh_num_values hp1 = bh_num_values hp \<and> (\<not> ok \<longrightarrow> hp1 = hp) \<and>
    (ok \<longrightarrow> holds (bh_values hp1) xs \<and> length xs < length (bh_values hp1) \<and>
      length (bh_values hp1) = unat (bh_alloced_size hp1) \<and> bh_alloced_size hp1 \<noteq> 0) \<and>
    (grants (Suc n) m \<longrightarrow> ok \<and> grants n m1)"
  proof (cases ?full)
    case False
    with r num alloced xs show ?thesis by (auto simp: word_le_nat_alt intro: grants_le)
  next
    case True
    then have eq: "unat (bh_alloced_size hp) = length xs"
      using num alloced holds_length [OF xs] by (simp add: word_le_nat_alt)
    from eq have dbl: "unat (bh_alloced_size hp * 2) = 2 * length xs"
      using len by (simp add: unat_word_ariths)
    have pos: "0 < length xs" using eq alloced(2) by (metis gr0I unat_eq_zero)
    have nz: "bh_alloced_size hp * 2 \<noteq> 0"
      using dbl pos by (metis mult_eq_0_iff unat_0 zero_neq_numeral less_numeral_extra(3))
    obtain ok' m' where mb: "malloc_block m = (ok', m')" by fastforce
    have gr: "grants (Suc n) m \<longrightarrow> ok' \<and> grants n m'" using mb by (auto elim!: grants_block)
    from r True mb have r': "(ok, hp1, m1) = (if \<not> ok' then (False, hp, m')
      else (True, hp\<lparr>bh_alloced_size := bh_alloced_size hp * 2,
        bh_values := array_resize (bh_values hp) (unat (bh_alloced_size hp * 2))\<rparr>, m'))"
      by (simp add: Let_def)
    show ?thesis
    proof (cases ok')
      case False
      with r' gr show ?thesis by simp
    next
      case True
      with r' gr pos nz dbl holds_resize [OF xs, of "2 * length xs"] show ?thesis by simp
    qed
  qed
  show ?thesis
  proof (cases ok)
    case False
    with hp1 show ?thesis unfolding binary_heap_insert_def r by auto
  next
    case True
    with hp1 have h1: "holds (bh_values hp1) xs" "length xs < length (bh_values hp1)"
      "length (bh_values hp1) = unat (bh_alloced_size hp1)" "bh_alloced_size hp1 \<noteq> 0"
      "bh_num_values hp1 = bh_num_values hp" by auto
    have cmp: "binary_heap_cmp hp1 = binary_heap_cmp hp"
      "binary_heap_cmp (hp1\<lparr>bh_num_values := k\<rparr>) = binary_heap_cmp hp" for k
      using hp1 by (simp_all add: binary_heap_cmp_eq)
    from holds_push [OF h1(1,2), of v] have "holds ((bh_values hp1)[length xs := Some v]) (xs @ [v])"
      by (auto simp: array_set_def split: if_splits)
    then have hole: "hole (bh_values hp1) (unat (bh_num_values hp)) v (xs @ [v])"
      using num h1(2) by (simp add: hole_def)
    have "ordered_up (binary_heap_cmp hp) (xs @ [v]) (unat (bh_num_values hp))"
      unfolding num by (rule ordered_up_push [OF ord])
    from comparator.binary_heap_up_spec [OF good hole this] obtain i d' d'' ys where up:
      "binary_heap_up (binary_heap_cmp hp) v (bh_num_values hp) (bh_values hp1) = Some (i, d')"
      "array_set d' (unat i) v = Some d''" "holds d'' ys" "length d'' = length (bh_values hp1)"
      "mset ys = mset (xs @ [v])" "heap_ordered (binary_heap_cmp hp) ys" by blast
    let ?hp2 = "hp1\<lparr>bh_num_values := bh_num_values hp + 1, bh_values := d''\<rparr>"
    have "unat (bh_num_values hp + 1) = length ys"
      using num len mset_eq_length [OF up(5)] by (simp add: unat_word_ariths)
    then have "binary_heap_rep ?hp2 (add_mset v V)"
      using up h1 hp1 V by (auto simp: binary_heap_rep_def binary_heap_cmp_eq intro!: exI [of _ ys])
    moreover have "binary_heap_insert hp v m = Some (True, ?hp2, m1)"
      unfolding binary_heap_insert_def r using True h1(5) up(1,2) cmp by (simp add: Let_def)
    ultimately show ?thesis using True hp1 by auto
  qed
qed

lemma binary_heap_pop_empty: "binary_heap_rep hp {#} \<Longrightarrow> binary_heap_pop hp = Some (0, hp)"
  by (auto simp: binary_heap_rep_def binary_heap_pop_def unat_eq_0)

lemma binary_heap_pop_spec:
  assumes good: "comparator (binary_heap_cmp hp)" and rep: "binary_heap_rep hp V"
    and small: "size V < 2 ^ 31" and ne: "V \<noteq> {#}"
  shows "\<exists>x hp'. binary_heap_pop hp = Some (x, hp') \<and> x \<in># V \<and>
    (\<forall>y \<in># V. binary_heap_cmp hp x y \<le> 0) \<and> binary_heap_rep hp' (V - {#x#}) \<and>
    bh_type hp' = bh_type hp \<and> bh_compare_func hp' = bh_compare_func hp"
proof -
  from rep obtain xs where V: "V = mset xs" and xs: "holds (bh_values hp) xs"
    and num: "unat (bh_num_values hp) = length xs"
    and alloced: "length (bh_values hp) = unat (bh_alloced_size hp)" "bh_alloced_size hp \<noteq> 0"
    and ord: "heap_ordered (binary_heap_cmp hp) xs" by (auto simp: binary_heap_rep_def)
  have len: "length xs < 2 ^ 31" using small V by simp
  have ne': "xs \<noteq> []" using ne V by simp
  define zs v where "zs = butlast xs" and "v = last xs"
  have xs_eq: "xs = zs @ [v]" using ne' by (simp add: zs_def v_def)
  have nz: "bh_num_values hp \<noteq> 0" using num ne' by auto
  have sub: "unat (bh_num_values hp - 1) = length zs"
    using num nz xs_eq by (simp add: unat_minus_one)
  have get0: "array_get (bh_values hp) 0 = Some (xs ! 0)"
    using holds_get [OF xs, of 0] ne' by simp
  have getl: "array_get (bh_values hp) (length zs) = Some v"
    using holds_get [OF xs, of "length zs"] xs_eq by simp
  have min: "\<forall>y \<in># V. binary_heap_cmp hp (xs ! 0) y \<le> 0"
    using comparator.heap_ordered_first [OF good ord] V by (auto simp: in_set_conv_nth)
  have cmp: "binary_heap_cmp (hp\<lparr>bh_num_values := k\<rparr>) = binary_heap_cmp hp" for k
    by (simp add: binary_heap_cmp_eq)
  have "\<exists>d' ys. binary_heap_down (binary_heap_cmp hp) v (bh_num_values hp - 1) 0 (bh_values hp) = Some d' \<and>
    holds d' ys \<and> length d' = length (bh_values hp) \<and> mset ys = V - {#xs ! 0#} \<and> length ys = length zs \<and>
    heap_ordered (binary_heap_cmp hp) ys"
  proof (cases "zs = []")
    case True
    then have "bh_num_values hp - 1 = 0" using sub by (simp add: unat_eq_0)
    moreover have "0 < length (bh_values hp)" using alloced by (simp add: unat_gt_0)
    ultimately have "binary_heap_down (binary_heap_cmp hp) v (bh_num_values hp - 1) 0 (bh_values hp) =
        Some ((bh_values hp)[0 := Some v])"
      by (subst binary_heap_down.simps) (simp add: binary_heap_child_def array_set_def)
    then show ?thesis using True V xs_eq by (auto simp: heap_ordered_def intro!: exI [of _ "[]"])
  next
    case False
    let ?us = "zs[0 := v]"
    have hzs: "holds (bh_values hp) zs" using holds_take [OF xs, of "length zs"] xs_eq by simp
    then have hole: "hole (bh_values hp) (unat 0) v ?us"
      using False holds_update [OF hzs, of 0 v] holds_length [OF hzs] by (auto simp: hole_def)
    have "binary_heap_cmp hp (zs ! parent j) (zs ! j) \<le> 0" if "0 < j" "j < length zs" for j
    proof -
      have "parent j < length zs" using parent_less [OF that(1)] that(2) by (rule less_trans)
      moreover have "binary_heap_cmp hp (xs ! parent j) (xs ! j) \<le> 0"
        using ord that xs_eq by (simp add: heap_ordered_def)
      ultimately show ?thesis using that(2) by (simp add: xs_eq nth_append)
    qed
    then have "ordered_down (binary_heap_cmp hp) ?us (unat 0)"
      unfolding ordered_down_def by (auto simp: nth_list_update)
    from comparator.binary_heap_down_spec [OF good hole this, of "bh_num_values hp - 1"] sub len xs_eq
    obtain d' ys where "binary_heap_down (binary_heap_cmp hp) v (bh_num_values hp - 1) 0 (bh_values hp) = Some d'"
      "holds d' ys" "length d' = length (bh_values hp)" and ys: "mset ys = mset ?us"
      "heap_ordered (binary_heap_cmp hp) ys" by auto
    moreover have "mset ?us = V - {#xs ! 0#}"
      using False V xs_eq by (cases zs) simp_all
    moreover have "length ys = length zs" using mset_eq_length [OF ys(1)] by simp
    ultimately show ?thesis by auto
  qed
  then obtain d' ys where d': "binary_heap_down (binary_heap_cmp hp) v (bh_num_values hp - 1) 0 (bh_values hp) = Some d'"
    "holds d' ys" "length d' = length (bh_values hp)" "mset ys = V - {#xs ! 0#}" "length ys = length zs"
    "heap_ordered (binary_heap_cmp hp) ys" by blast
  let ?hp = "hp\<lparr>bh_num_values := bh_num_values hp - 1, bh_values := d'\<rparr>"
  have "binary_heap_pop hp = Some (xs ! 0, ?hp)"
    using nz get0 getl d'(1) sub cmp by (simp add: binary_heap_pop_def Let_def)
  moreover have "binary_heap_rep ?hp (V - {#xs ! 0#})"
    using d' sub alloced by (auto simp: binary_heap_rep_def binary_heap_cmp_eq intro!: exI [of _ ys])
  ultimately show ?thesis using min ne' V by auto
qed

section \<open>The binary heap keeps the contract of a priority queue\<close>

definition binary_heap_ins :: "binary_heap \<times> bmem \<Rightarrow> val \<Rightarrow> (bool \<times> binary_heap \<times> bmem) option" where
  "binary_heap_ins s v = binary_heap_insert (fst s) v (snd s)"

definition binary_heap_take :: "binary_heap \<times> bmem \<Rightarrow> (val \<times> binary_heap \<times> bmem) option" where
  "binary_heap_take s = do { (x, hp) \<leftarrow> binary_heap_pop (fst s); Some (x, hp, snd s) }"

definition binary_heap_in ::
  "heap_type \<Rightarrow> (val \<Rightarrow> val \<Rightarrow> int) \<Rightarrow> nat \<Rightarrow> binary_heap \<times> bmem \<Rightarrow> val multiset \<Rightarrow> bool"
where
  "binary_heap_in t cmp n s V \<longleftrightarrow> good_cmp t cmp \<and> bh_type (fst s) = t \<and> bh_compare_func (fst s) = cmp \<and>
     binary_heap_rep (fst s) V \<and> grants n (snd s) \<and> size V + n < 2 ^ 31"

lemma binary_heap_in_cmp:
  assumes "binary_heap_in t cmp n s V"
  shows "comparator (binary_heap_cmp (fst s))" "binary_heap_cmp (fst s) = heap_cmp t cmp"
  using assms comparator_heap_cmp by (auto simp: binary_heap_in_def binary_heap_cmp_eq)

interpretation binary_heap_pq: priority_queue "heap_cmp t cmp" binary_heap_ins binary_heap_take
    "\<lambda>s. binary_heap_num_entries (fst s)" "binary_heap_in t cmp" for t cmp
proof
  fix n s V x
  assume "binary_heap_in t cmp (Suc n) s V"
  moreover note c = binary_heap_in_cmp [OF this]
  ultimately show "\<exists>s'. binary_heap_ins s x = Some (True, s') \<and> binary_heap_in t cmp n s' (add_mset x V)"
    using binary_heap_insert_spec [OF c(1), of V x "snd s" n]
    by (fastforce simp: binary_heap_in_def binary_heap_ins_def)
next
  fix n s
  assume "binary_heap_in t cmp (Suc n) s {#}"
  then show "\<exists>s'. binary_heap_take s = Some (0, s') \<and> binary_heap_in t cmp n s' {#}"
    by (auto simp: binary_heap_in_def binary_heap_take_def binary_heap_pop_empty intro: grants_le)
next
  fix n s V
  assume "binary_heap_in t cmp (Suc n) s V" "V \<noteq> {#}"
  moreover note c = binary_heap_in_cmp [OF this(1)]
  ultimately obtain x hp' where "binary_heap_pop (fst s) = Some (x, hp')" "x \<in># V"
    "\<forall>y \<in># V. heap_cmp t cmp x y \<le> 0" "binary_heap_rep hp' (V - {#x#})"
    "bh_type hp' = t" "bh_compare_func hp' = cmp"
    using binary_heap_pop_spec [OF c(1), of V] by (fastforce simp: binary_heap_in_def)
  moreover have "size (V - {#x#}) + n < 2 ^ 31" "grants n (snd s)"
    using \<open>binary_heap_in t cmp (Suc n) s V\<close> calculation(2)
    by (auto simp: binary_heap_in_def size_Diff_singleton intro: grants_le)
  ultimately show "\<exists>x s'. binary_heap_take s = Some (x, s') \<and> x \<in># V \<and>
      (\<forall>y \<in># V. heap_cmp t cmp x y \<le> 0) \<and> binary_heap_in t cmp n s' (V - {#x#})"
    using \<open>binary_heap_in t cmp (Suc n) s V\<close> by (auto simp: binary_heap_take_def binary_heap_in_def)
next
  fix n s V
  assume "binary_heap_in t cmp n s V"
  then have "unat (bh_num_values (fst s)) = size V" by (auto simp: binary_heap_in_def binary_heap_rep_def)
  then show "binary_heap_num_entries (fst s) = of_nat (size V)"
    unfolding binary_heap_num_entries_def by (simp add: word_unat_eq_iff flip: \<open>unat (bh_num_values (fst s)) = size V\<close>)
qed

lemma binary_heap_new_in:
  assumes "good_cmp t cmp" "grants (Suc (Suc n)) m" "n < 2 ^ 31"
  obtains hp m' where "binary_heap_new t cmp m = (Some hp, m')" "binary_heap_in t cmp n (hp, m') {#}"
  using assms(1,3) by (auto simp: binary_heap_in_def intro: binary_heap_new_spec [OF assms(2), of t cmp])

section \<open>Properties\<close>

text \<open>C8: values inserted into a new heap come out in the order of the comparison function, or in
  the reverse order for a heap of type MAX, each as often as it went in; the comparison function
  must keep its contract, and for a MAX heap its results must be negatable.\<close>

theorem binary_heap_sorts:
  assumes "good_cmp t cmp" "grants (2 + 2 * length xs) m" "2 * length xs < 2 ^ 31"
  shows "\<exists>hp m' s1 ys s2. binary_heap_new t cmp m = (Some hp, m') \<and>
    pq_insert_all binary_heap_ins xs (hp, m') = Some s1 \<and>
    binary_heap_num_entries (fst s1) = of_nat (length xs) \<and>
    pq_pop_all binary_heap_take (length xs) s1 = Some (ys, s2) \<and>
    mset ys = mset xs \<and> sorted_wrt (\<lambda>a b. heap_cmp t cmp a b \<le> 0) ys \<and>
    binary_heap_num_entries (fst s2) = 0"
proof -
  have "grants (Suc (Suc (length xs + length xs))) m" "length xs + length xs < 2 ^ 31"
    using assms(2,3) by (simp_all add: mult_2)
  then obtain hp m' where "binary_heap_new t cmp m = (Some hp, m')"
    "binary_heap_in t cmp (length xs + length xs) (hp, m') {#}"
    using binary_heap_new_in [OF assms(1)] by blast
  with binary_heap_pq.heap_sorts show ?thesis by blast
qed

theorem binary_heap_sorts_witness:
  "\<exists>hp m' s1 ys s2. binary_heap_new Heap_Max pointer_compare \<lparr>heap = Map.empty, answers = [1 ..< 20]\<rparr> = (Some hp, m') \<and>
    pq_insert_all binary_heap_ins [5, 9, 7] (hp, m') = Some s1 \<and>
    binary_heap_num_entries (fst s1) = 3 \<and>
    pq_pop_all binary_heap_take 3 s1 = Some (ys, s2) \<and> mset ys = {#5, 9, 7#} \<and>
    sorted_wrt (\<lambda>a b. heap_cmp Heap_Max pointer_compare a b \<le> 0) ys \<and>
    binary_heap_num_entries (fst s2) = 0"
proof -
  let ?xs = "[5, 9, 7] :: val list" and ?m = "\<lparr>heap = Map.empty, answers = [1 ..< 20]\<rparr> :: bmem"
  have good: "good_cmp Heap_Max pointer_compare"
    using pointer_cmp.comparator_axioms by (simp add: good_cmp_def pointer_compare_def)
  have g: "grants (2 + 2 * length ?xs) ?m" "2 * length ?xs < 2 ^ 31" by (simp_all add: grants_def upt_rec)
  have eqs: "length ?xs = 3" "mset ?xs = {#5, 9, 7#}" "of_nat 3 = (3 :: c_uint)" by simp_all
  from binary_heap_sorts [OF good g] show ?thesis unfolding eqs .
qed

text \<open>An insertion that finds no memory to grow reports failure and leaves the heap as it
  was; otherwise the heap holds the value as well.\<close>

theorem binary_heap_insert_total:
  assumes "good_cmp (bh_type hp) (bh_compare_func hp)" "binary_heap_rep hp V" "size V < 2 ^ 31"
  shows "\<exists>ok hp' m'. binary_heap_insert hp v m = Some (ok, hp', m') \<and>
    (if ok then binary_heap_rep hp' (add_mset v V) else hp' = hp)"
  using binary_heap_insert_spec [OF _ assms(2,3)] comparator_heap_cmp [OF assms(1)]
  unfolding binary_heap_cmp_eq by blast

theorem binary_heap_insert_total_witness:
  "\<exists>ok hp' m'. binary_heap_insert \<lparr>bh_type = Heap_Min, bh_values = [Some 4], bh_num_values = 1,
      bh_alloced_size = 1, bh_compare_func = pointer_compare\<rparr> 3 \<lparr>heap = Map.empty, answers = [8]\<rparr> =
      Some (ok, hp', m') \<and> (ok \<and> binary_heap_rep hp' {#3, 4#} \<or> \<not> ok)"
proof -
  let ?hp = "\<lparr>bh_type = Heap_Min, bh_values = [Some 4], bh_num_values = 1,
      bh_alloced_size = 1, bh_compare_func = pointer_compare\<rparr>"
  have "binary_heap_rep ?hp {#4#}"
    by (auto simp: binary_heap_rep_def holds_def heap_ordered_def intro!: exI [of _ "[4]"])
  moreover have "good_cmp (bh_type ?hp) (bh_compare_func ?hp)"
    using pointer_cmp.comparator_axioms by (simp add: good_cmp_def)
  ultimately show ?thesis
    using binary_heap_insert_total [of ?hp "{#4#}" 3 "\<lparr>heap = Map.empty, answers = [8]\<rparr>"] by fastforce
qed

text \<open>\<open>binary_heap_cmp\<close> negates the result of the comparison function for a heap of type MAX;
  with one that keeps its contract but returns the least \<open>int\<close>, such a heap gives the least value first.\<close>

theorem binary_heap_max_int_min:
  fixes cmp :: "val \<Rightarrow> val \<Rightarrow> int"
  defines "cmp \<equiv> \<lambda>a b. if a < b then - (2 ^ 31) else if b < a then 1 else 0"
  shows "comparator cmp \<and>
    (do { (_, hp, _) \<leftarrow> binary_heap_insert \<lparr>bh_type = Heap_Max, bh_values = [Some 4, None],
            bh_num_values = 1, bh_alloced_size = 2, bh_compare_func = cmp\<rparr> 8 m;
          (x, _) \<leftarrow> binary_heap_pop hp;
          Some x }) = Some 4"
proof
  show "comparator cmp" by unfold_locales (auto simp: cmp_def split: if_splits)
  have neg: "c_neg (cmp 4 8) = - (2 ^ 31)" "c_neg (cmp 8 4) = -1" by (simp_all add: cmp_def c_neg_def)
  show "(do { (_, hp, _) \<leftarrow> binary_heap_insert \<lparr>bh_type = Heap_Max, bh_values = [Some 4, None],
            bh_num_values = 1, bh_alloced_size = 2, bh_compare_func = cmp\<rparr> 8 m;
          (x, _) \<leftarrow> binary_heap_pop hp;
          Some x }) = Some 4"
    by (simp add: binary_heap_insert_def binary_heap_up.simps array_get_def array_set_def
        binary_heap_cmp_def neg binary_heap_pop_def binary_heap_down.simps binary_heap_child_def
        word_le_nat_alt word_less_nat_alt)
qed

end
