(* ===== verification/Buckets.thy ===== *)
theory Buckets
  imports Sequence
begin

text \<open>
  Chained hash tables: an array of chains of entries.  \<open>hash-table.c\<close> and \<open>set.c\<close> contain the
  same loops over such a table, given here over the field \<open>nx\<close> that links the entries of a
  chain, the function \<open>upd\<close> that writes it and the function \<open>hf\<close> that gives the hash of an
  entry.  The array of a table comes from \<open>calloc\<close>, so that its cells start as NULL.
\<close>

section \<open>The loops\<close>

definition tab_get :: "addr list \<Rightarrow> nat \<Rightarrow> addr option" where
  "tab_get tab i = (if i < length tab then Some (tab ! i) else None)"

definition tab_set :: "addr list \<Rightarrow> nat \<Rightarrow> addr \<Rightarrow> addr list option" where
  "tab_set tab i p = (if i < length tab then Some (tab[i := p]) else None)"

text \<open>Linking all entries of a chain into a new table, and the chains of a table.\<close>

partial_function (option) rehash_chain ::
  "('n \<Rightarrow> addr) \<Rightarrow> (addr \<Rightarrow> 'n \<Rightarrow> 'n) \<Rightarrow> ('n \<Rightarrow> c_uint) \<Rightarrow> c_uint \<Rightarrow> addr \<Rightarrow> addr list \<Rightarrow> 'n mem \<Rightarrow>
   (addr list \<times> 'n mem) option"
where
  "rehash_chain nx upd hf table_size rover tab m =
     (if rover = 0 then Some (tab, m)
      else do {
        e \<leftarrow> load rover m;
        let index = unat (hf e mod table_size);
        head \<leftarrow> tab_get tab index;
        m \<leftarrow> store rover (upd head e) m;
        tab \<leftarrow> tab_set tab index rover;
        rehash_chain nx upd hf table_size (nx e) tab m
      })"

primrec rehash ::
  "('n \<Rightarrow> addr) \<Rightarrow> (addr \<Rightarrow> 'n \<Rightarrow> 'n) \<Rightarrow> ('n \<Rightarrow> c_uint) \<Rightarrow> c_uint \<Rightarrow> addr list \<Rightarrow> addr list \<Rightarrow> 'n mem \<Rightarrow>
   (addr list \<times> 'n mem) option"
where
  "rehash nx upd hf table_size [] tab m = Some (tab, m)"
| "rehash nx upd hf table_size (rover # old) tab m = do {
     (tab, m) \<leftarrow> rehash_chain nx upd hf table_size rover tab m;
     rehash nx upd hf table_size old tab m
   }"

text \<open>Taking the first entry that satisfies \<open>P\<close> out of a chain; the slot starts at the table.\<close>

partial_function (option) unlink_first ::
  "('n \<Rightarrow> addr) \<Rightarrow> (addr \<Rightarrow> 'n \<Rightarrow> 'n) \<Rightarrow> ('n \<Rightarrow> bool) \<Rightarrow> slot \<Rightarrow> addr \<Rightarrow> 'n mem \<Rightarrow>
   (addr \<times> addr \<times> 'n mem) option"
where
  "unlink_first nx upd P rover head m = do {
     entry \<leftarrow> slot_get nx rover head m;
     if entry = 0 then Some (0, head, m)
     else do {
       e \<leftarrow> load entry m;
       if P e then do {
         (head, m) \<leftarrow> slot_set upd rover (nx e) head m;
         Some (entry, head, m)
       }
       else unlink_first nx upd P (Next_Of entry) head m
     }
   }"

text \<open>
  Freeing all entries.  A call of a registered free function is the address of the function with
  its argument; \<open>calls\<close> gives the calls that an entry causes.
\<close>

type_synonym call = "addr \<times> val"

partial_function (option) free_chain ::
  "('n \<Rightarrow> addr) \<Rightarrow> ('n \<Rightarrow> 'c list) \<Rightarrow> addr \<Rightarrow> 'c list \<Rightarrow> 'n mem \<Rightarrow> ('c list \<times> 'n mem) option"
where
  "free_chain nx calls rover log m =
     (if rover = 0 then Some (log, m)
      else do {
        e \<leftarrow> load rover m;
        m \<leftarrow> free rover m;
        free_chain nx calls (nx e) (log @ calls e) m
      })"

primrec free_table ::
  "('n \<Rightarrow> addr) \<Rightarrow> ('n \<Rightarrow> 'c list) \<Rightarrow> addr list \<Rightarrow> 'c list \<Rightarrow> 'n mem \<Rightarrow> ('c list \<times> 'n mem) option"
where
  "free_table nx calls [] log m = Some (log, m)"
| "free_table nx calls (rover # tab) log m = do {
     (log, m) \<leftarrow> free_chain nx calls rover log m;
     free_table nx calls tab log m
   }"

text \<open>The first non-empty chain from chain \<open>c\<close> on, and its number.\<close>

function next_chain :: "addr list \<Rightarrow> nat \<Rightarrow> addr \<times> nat" where
  "next_chain tab c =
     (if c < length tab then if tab ! c \<noteq> 0 then (tab ! c, c) else next_chain tab (c + 1)
      else (0, c))"
  by pat_completeness auto
termination
  by (relation "measure (\<lambda>(tab, c). length tab - c)") auto

declare next_chain.simps [simp del]

text \<open>An iterator over the entries, and its step past the entry \<open>e\<close>.\<close>

record chain_iter =
  ci_entry :: addr
  ci_chain :: nat

definition iter_advance :: "('n \<Rightarrow> addr) \<Rightarrow> addr list \<Rightarrow> 'n \<Rightarrow> chain_iter \<Rightarrow> chain_iter" where
  "iter_advance nx tab e iter =
     (if nx e \<noteq> 0 then iter\<lparr>ci_entry := nx e\<rparr>
      else let (p, chain) = next_chain tab (ci_chain iter + 1)
           in iter\<lparr>ci_entry := p, ci_chain := chain\<rparr>)"

section \<open>What a table represents\<close>

text \<open>The entries of its chains, each in the chain of its hash.\<close>

definition buckets ::
  "('n \<Rightarrow> addr) \<Rightarrow> ('n \<Rightarrow> c_uint) \<Rightarrow> 'n mem \<Rightarrow> c_uint \<Rightarrow> addr list \<Rightarrow> addr list list \<Rightarrow> bool"
where
  "buckets nx hf m table_size tab bs \<longleftrightarrow>
     length tab = unat table_size \<and> length bs = length tab \<and>
     (\<forall>i < length bs. chain nx (heap m) (tab ! i) (bs ! i) 0) \<and> distinct (concat bs) \<and>
     (\<forall>i < length bs. \<forall>a \<in> set (bs ! i). unat (hf (the (heap m a)) mod table_size) = i)"

lemma buckets_new: "buckets nx hf m n (replicate (unat n) 0) (replicate (unat n) [])"
proof -
  have "concat (replicate k []) = []" for k by (induction k) auto
  then show ?thesis by (simp add: buckets_def)
qed

lemma nth_subset_concat: "i < length bs \<Longrightarrow> set (bs ! i) \<subseteq> set (concat bs)"
  by (simp add: UN_upper)

lemma in_concat_obtain:
  assumes "a \<in> set (concat bs)"
  obtains i where "i < length bs" "a \<in> set (bs ! i)"
proof -
  from assms obtain b where "b \<in> set bs" "a \<in> set b" by auto
  with that show ?thesis by (metis in_set_conv_nth)
qed

lemma set_concat_update:
  "i < length bs \<Longrightarrow> distinct (concat bs) \<Longrightarrow>
   set (concat (bs[i := as])) = set (concat bs) - set (bs ! i) \<union> set as"
proof (induction bs arbitrary: i)
  case (Cons b bs)
  show ?case
  proof (cases i)
    case 0
    with Cons.prems show ?thesis by auto
  next
    case (Suc j)
    with Cons.prems have j: "j < length bs" "distinct (concat bs)" "set b \<inter> set (concat bs) = {}"
      by auto
    with nth_subset_concat [OF j(1)] have "set b - set (bs ! j) = set b" by blast
    with Cons.IH [OF j(1,2)] Suc show ?thesis by (simp add: Un_Diff Un_assoc del: set_concat) 
  qed
qed simp

lemma distinct_concat_update:
  assumes "i < length bs" "distinct (concat bs)" "distinct as"
    "set as \<inter> (set (concat bs) - set (bs ! i)) = {}"
  shows "distinct (concat (bs[i := as]))"
  using assms
proof (induction bs arbitrary: i)
  case (Cons b bs)
  show ?case
  proof (cases i)
    case 0
    with Cons.prems show ?thesis by auto
  next
    case (Suc j)
    with Cons.prems have j: "j < length bs" "distinct (concat bs)" "set b \<inter> set (concat bs) = {}"
      by auto
    note sub = nth_subset_concat [OF j(1)]
    have "set (bs ! j) \<inter> set b = {}" using sub j(3) by blast
    with Cons.prems(4) Suc have as: "set as \<inter> (set (concat bs) - set (bs ! j)) = {}" "set as \<inter> set b = {}"
      by (auto simp del: set_concat)
    have "set (concat (bs[j := as])) \<inter> set b = {}"
      unfolding set_concat_update [OF j(1,2)] using as(2) j(3) by blast
    with Cons.IH [OF j(1,2) Cons.prems(3) as(1)] Cons.prems(2) Suc show ?thesis
      by (auto simp del: set_concat)
  qed
qed simp

lemma mset_concat_update:
  "i < length bs \<Longrightarrow> mset (concat (bs[i := as])) + mset (bs ! i) = mset (concat bs) + mset as"
proof (induction bs arbitrary: i)
  case (Cons b bs)
  then show ?case by (cases i) (auto simp: ac_simps)
qed simp

lemma concat_nth_disjoint:
  assumes "distinct (concat bs)" "i < length bs" "j < length bs" "i \<noteq> j"
  shows "set (bs ! i) \<inter> set (bs ! j) = {}"
  using assms
proof (induction bs arbitrary: i j)
  case (Cons b bs)
  have b: "distinct (concat bs)" "set b \<inter> set (concat bs) = {}" using Cons.prems(1) by auto
  show ?case
  proof (cases i)
    case 0
    with Cons.prems obtain k where "j = Suc k" "k < length bs" by (cases j) auto
    with 0 b(2) nth_subset_concat [of k bs] show ?thesis by auto
  next
    case (Suc i')
    show ?thesis
    proof (cases j)
      case 0
      with Suc Cons.prems b(2) nth_subset_concat [of i' bs] show ?thesis by auto
    next
      case (Suc j')
      with \<open>i = Suc i'\<close> Cons.prems Cons.IH [OF b(1), of i' j'] show ?thesis by simp
    qed
  qed
qed simp

lemma in_concat_nth: "i < length bs \<Longrightarrow> a \<in> set (bs ! i) \<Longrightarrow> a \<in> set (concat bs)"
  using nth_subset_concat by blast

lemma buckets_chain:
  "buckets nx hf m n tab bs \<Longrightarrow> i < length bs \<Longrightarrow> chain nx (heap m) (tab ! i) (bs ! i) 0"
  by (simp add: buckets_def)

lemma buckets_dom: "buckets nx hf m n tab bs \<Longrightarrow> set (concat bs) \<subseteq> dom (heap m)"
proof
  fix a assume b: "buckets nx hf m n tab bs" and "a \<in> set (concat bs)"
  from this(2) obtain i where "i < length bs" "a \<in> set (bs ! i)" by (rule in_concat_obtain)
  with buckets_chain [OF b] chain_in_heap show "a \<in> dom (heap m)" by fastforce
qed

lemma buckets_distinct: "buckets nx hf m n tab bs \<Longrightarrow> distinct (concat bs)"
  by (simp add: buckets_def)

lemma buckets_hash:
  assumes "buckets nx hf m n tab bs" "a \<in> set (concat bs)"
  shows "a \<in> set (bs ! unat (hf (the (heap m a)) mod n))" "unat (hf (the (heap m a)) mod n) < length bs"
proof -
  from assms(2) obtain i where "i < length bs" "a \<in> set (bs ! i)" by (rule in_concat_obtain)
  moreover from this assms(1) have "unat (hf (the (heap m a)) mod n) = i" by (simp add: buckets_def)
  ultimately show "a \<in> set (bs ! unat (hf (the (heap m a)) mod n))" "unat (hf (the (heap m a)) mod n) < length bs"
    by simp_all
qed

lemma buckets_index:
  "buckets nx hf m n tab bs \<Longrightarrow> n \<noteq> 0 \<Longrightarrow> unat (k mod n) < length bs"
  by (simp add: buckets_def unat_mod unat_gt_0)

text \<open>Replacing one chain, when the others are untouched.\<close>

lemma buckets_update:
  assumes b: "buckets nx hf m n tab bs" and i: "i < length bs"
    and p: "chain nx (heap m') p as 0"
    and new: "set as \<inter> (set (concat bs) - set (bs ! i)) = {}"
    and frame: "\<And>a. a \<in> set (concat bs) - set (bs ! i) \<Longrightarrow> heap m' a = heap m a"
    and hash: "\<And>a. a \<in> set as \<Longrightarrow> unat (hf (the (heap m' a)) mod n) = i"
  shows "buckets nx hf m' n (tab[i := p]) (bs[i := as])"
proof -
  have dist: "distinct (concat bs)" using b by (rule buckets_distinct)
  have same: "heap m' a = heap m a" if "j < length bs" "j \<noteq> i" "a \<in> set (bs ! j)" for a j
  proof (rule frame)
    show "a \<in> set (concat bs) - set (bs ! i)"
      using concat_nth_disjoint [OF dist that(1) i that(2)] that in_concat_nth [OF that(1,3)] by auto
  qed
  have "chain nx (heap m') (tab[i := p] ! j) (bs[i := as] ! j) 0" if "j < length bs" for j
  proof (cases "j = i")
    case True
    with p i b show ?thesis by (simp add: buckets_def)
  next
    case False
    have "chain nx (heap m') (tab ! j) (bs ! j) 0"
      by (rule chain_cong [OF _ buckets_chain [OF b that]]) (rule same [OF that False])
    with False show ?thesis by simp
  qed
  moreover have "unat (hf (the (heap m' a)) mod n) = j"
    if "j < length bs" "a \<in> set (bs[i := as] ! j)" for a j
  proof (cases "j = i")
    case True
    with that hash show ?thesis by simp
  next
    case False
    with that same [of j a] b show ?thesis by (simp add: buckets_def)
  qed
  ultimately show ?thesis
    using b distinct_concat_update [OF i dist chain_distinct [OF p] new]
    by (simp add: buckets_def)
qed

text \<open>Changing links inside no chain, and values without changing hashes, keeps a table.\<close>

lemma buckets_relinked:
  assumes "buckets nx hf m n tab bs" "relinked dt A m m'" "set (concat bs) \<inter> A = {}"
  shows "buckets nx hf m' n tab bs"
proof -
  have same: "heap m' a = heap m a" if "i < length bs" "a \<in> set (bs ! i)" for i a
    using assms(2,3) in_concat_nth [OF that] by (auto intro: relinked_frame)
  show ?thesis
    unfolding buckets_def
  proof (intro conjI allI impI ballI)
    fix i assume i: "i < length bs"
    show "chain nx (heap m') (tab ! i) (bs ! i) 0"
      by (rule chain_cong [OF _ buckets_chain [OF assms(1) i]]) (rule same [OF i])
    fix a assume a: "a \<in> set (bs ! i)"
    show "unat (hf (the (heap m' a)) mod n) = i"
      using assms(1) i a same [OF i a] by (simp add: buckets_def)
  qed (use assms(1) in \<open>simp_all add: buckets_def\<close>)
qed

text \<open>A table as a list of chains.\<close>

abbreviation chains :: "('n \<Rightarrow> addr) \<Rightarrow> 'n mem \<Rightarrow> addr list \<Rightarrow> addr list list \<Rightarrow> bool" where
  "chains nx m tab bs \<equiv> list_all2 (\<lambda>p as. chain nx (heap m) p as 0) tab bs"

lemma buckets_chains: "buckets nx hf m n tab bs \<Longrightarrow> chains nx m tab bs"
  by (simp add: buckets_def list_all2_conv_all_nth)

lemma chains_cong:
  assumes "chains nx m tab bs" "\<And>b. b \<in> set (concat bs) \<Longrightarrow> heap m' b = heap m b"
  shows "chains nx m' tab bs"
  using assms
proof (induction rule: list_all2_induct)
  case (Cons p tab as bs)
  have "chain nx (heap m') p as 0" by (rule chain_cong [OF _ Cons.hyps(1)]) (use Cons.prems in simp)
  moreover have "chains nx m' tab bs" by (rule Cons.IH) (use Cons.prems in auto)
  ultimately show ?case by simp
qed simp

lemma chains_relinked:
  assumes "chains nx m tab bs" "relinked dt A m m'" "set (concat bs) \<inter> A = {}"
  shows "chains nx m' tab bs"
  by (rule chains_cong [OF assms(1)]) (use relinked_frame [OF assms(2)] assms(3) in blast)

section \<open>The loops on a represented table\<close>

lemma rehash_chain_spec:
  assumes laws: "\<And>q e. nx (upd q e) = q" "\<And>q e. dt (upd q e) = dt e" "\<And>q e. hf (upd q e) = hf e"
    and n: "n \<noteq> 0"
  shows "buckets nx hf m n tab bs \<Longrightarrow> chain nx (heap m) rover as 0 \<Longrightarrow> set as \<inter> set (concat bs) = {} \<Longrightarrow>
    \<exists>tab' bs' m'. rehash_chain nx upd hf n rover tab m = Some (tab', m') \<and>
      buckets nx hf m' n tab' bs' \<and> mset (concat bs') = mset as + mset (concat bs) \<and>
      relinked dt (set as) m m'"
proof (induction as arbitrary: m tab bs rover)
  case Nil
  then show ?case by (subst rehash_chain.simps) auto
next
  case (Cons a as)
  have dist: "distinct (a # as)" using Cons.prems(2) by (rule chain_distinct)
  from Cons.prems(2) obtain e where e: "rover = a" "a \<noteq> 0" "heap m a = Some e"
    "chain nx (heap m) (nx e) as 0" by (auto simp: chain_Cons)
  define i where "i = unat (hf e mod n)"
  have i: "i < length bs" using buckets_index [OF Cons.prems(1) n] by (simp add: i_def)
  then have it: "i < length tab" using Cons.prems(1) by (simp add: buckets_def)
  have fresh: "a \<notin> set (concat bs)" using Cons.prems(3) by auto
  then have fresh_i: "a \<notin> set (bs ! i)" using in_concat_nth [OF i] by blast
  let ?m = "m\<lparr>heap := (heap m)(a \<mapsto> upd (tab ! i) e)\<rparr>"
  have rel: "relinked dt {a} m ?m" by (rule relinked_store [OF e(3)]) (simp_all add: laws)
  have "chain nx (heap ?m) a (a # bs ! i) 0"
    using buckets_chain [OF Cons.prems(1) i] fresh_i e(2) by (simp add: chain_Cons laws)
  then have b: "buckets nx hf ?m n (tab[i := a]) (bs[i := a # bs ! i])"
  proof (rule buckets_update [OF Cons.prems(1) i])
    show "set (a # bs ! i) \<inter> (set (concat bs) - set (bs ! i)) = {}" using fresh by auto
    show "heap ?m b = heap m b" if "b \<in> set (concat bs) - set (bs ! i)" for b using that fresh by auto
    show "unat (hf (the (heap ?m b)) mod n) = i" if "b \<in> set (a # bs ! i)" for b
      using that fresh_i Cons.prems(1) i by (auto simp: laws i_def buckets_def)
  qed
  have set: "set (concat (bs[i := a # bs ! i])) = insert a (set (concat bs))"
    using set_concat_update [OF i buckets_distinct [OF Cons.prems(1)], of "a # bs ! i"]
      nth_subset_concat [OF i] by auto
  have "chain nx (heap ?m) (nx e) as 0" using e(4) dist by simp
  moreover have "set as \<inter> set (concat (bs[i := a # bs ! i])) = {}"
    unfolding set using Cons.prems(3) dist by auto
  ultimately obtain tab' bs' m' where IH: "rehash_chain nx upd hf n (nx e) (tab[i := a]) ?m = Some (tab', m')"
    "buckets nx hf m' n tab' bs'" "mset (concat bs') = mset as + mset (concat (bs[i := a # bs ! i]))"
    "relinked dt (set as) ?m m'"
    using Cons.IH [OF b] by blast
  have "rehash_chain nx upd hf n rover tab m = Some (tab', m')"
    using e IH(1) it by (subst rehash_chain.simps) (simp add: mem_simps tab_get_def tab_set_def i_def)
  moreover have "mset (concat bs') = mset (a # as) + mset (concat bs)"
    using IH(3) mset_concat_update [OF i, of "a # bs ! i"] by simp
  moreover have "relinked dt (set (a # as)) m m'" by (rule relinked_trans [OF rel IH(4)]) auto
  ultimately show ?case using IH(2) by blast
qed

lemma rehash_spec:
  assumes laws: "\<And>q e. nx (upd q e) = q" "\<And>q e. dt (upd q e) = dt e" "\<And>q e. hf (upd q e) = hf e"
    and n: "n \<noteq> 0"
  shows "chains nx m old obs \<Longrightarrow> distinct (concat obs) \<Longrightarrow> buckets nx hf m n tab bs \<Longrightarrow>
    set (concat obs) \<inter> set (concat bs) = {} \<Longrightarrow>
    \<exists>tab' bs' m'. rehash nx upd hf n old tab m = Some (tab', m') \<and> buckets nx hf m' n tab' bs' \<and>
      mset (concat bs') = mset (concat obs) + mset (concat bs) \<and> relinked dt (set (concat obs)) m m'"
proof (induction old arbitrary: m obs tab bs)
  case Nil
  then show ?case by auto
next
  case (Cons p old)
  then obtain as obs' where obs: "obs = as # obs'" "chain nx (heap m) p as 0" "chains nx m old obs'"
    by (auto simp: list_all2_Cons1)
  have disj: "set as \<inter> set (concat bs) = {}" "set (concat obs') \<inter> set (concat bs) = {}"
    "set (concat obs') \<inter> set as = {}" using Cons.prems(2,4) obs(1) by auto
  from rehash_chain_spec [OF laws n Cons.prems(3) obs(2) disj(1)] obtain tab1 bs1 m1 where r1:
    "rehash_chain nx upd hf n p tab m = Some (tab1, m1)" "buckets nx hf m1 n tab1 bs1"
    "mset (concat bs1) = mset as + mset (concat bs)" "relinked dt (set as) m m1" by blast
  have "set (concat bs1) = set as \<union> set (concat bs)"
    using r1(3) by (metis set_mset_mset set_mset_union)
  with disj have "set (concat obs') \<inter> set (concat bs1) = {}" by auto
  with Cons.IH [OF chains_relinked [OF obs(3) r1(4) disj(3)] _ r1(2)] Cons.prems(2) obs(1)
  obtain tab' bs' m' where r2: "rehash nx upd hf n old tab1 m1 = Some (tab', m')"
    "buckets nx hf m' n tab' bs'" "mset (concat bs') = mset (concat obs') + mset (concat bs1)"
    "relinked dt (set (concat obs')) m1 m'" by auto
  have "relinked dt (set (concat obs)) m m'"
    by (rule relinked_trans [OF r1(4) r2(4)]) (auto simp: obs(1))
  with r1 r2 obs(1) show ?case by (auto simp: ac_simps)
qed

lemma unlink_first_none:
  "chain nx (heap m) p us q \<Longrightarrow> chain nx (heap m) q vs 0 \<Longrightarrow> \<forall>a \<in> set vs. \<not> P (the (heap m a)) \<Longrightarrow>
   unlink_first nx upd P (slot_after us) p m = Some (0, p, m)"
proof (induction vs arbitrary: us q)
  case Nil
  then show ?case using slot_get_after [OF Nil.prems(1)] by (subst unlink_first.simps) simp
next
  case (Cons a vs)
  from Cons.prems(2) obtain e where e: "q = a" "a \<noteq> 0" "heap m a = Some e" "chain nx (heap m) (nx e) vs 0"
    by (auto simp: chain_Cons)
  have "chain nx (heap m) p (us @ [a]) (nx e)" using Cons.prems(1) e by (auto simp: chain_Cons)
  from Cons.IH [OF this e(4)] Cons.prems(3) e slot_get_after [OF Cons.prems(1)] show ?case
    by (subst unlink_first.simps) (simp add: mem_simps)
qed

lemma unlink_first_found:
  assumes laws: "\<And>q e. nx (upd q e) = q" "\<And>q e. dt (upd q e) = dt e"
  shows "chain nx (heap m) p us q \<Longrightarrow> chain nx (heap m) q (vs @ a # ws) 0 \<Longrightarrow> distinct (us @ vs @ a # ws) \<Longrightarrow>
    \<forall>b \<in> set vs. \<not> P (the (heap m b)) \<Longrightarrow> P (the (heap m a)) \<Longrightarrow>
    \<exists>p' m'. unlink_first nx upd P (slot_after us) p m = Some (a, p', m') \<and> a \<noteq> 0 \<and>
      chain nx (heap m') p' (us @ vs @ ws) 0 \<and> relinked dt (set (us @ vs)) m m'"
proof (induction vs arbitrary: us q)
  case Nil
  from Nil.prems(2) have "chain nx (heap m) q (a # ws) 0" by simp
  then obtain e where e: "q = a" "a \<noteq> 0" "heap m a = Some e" "chain nx (heap m) (nx e) ws 0"
    unfolding chain_Cons by blast
  have dus: "distinct us" using Nil.prems(3) by simp
  from slot_set_after [where upd = upd and f = dt and r = "nx e", OF Nil.prems(1) dus] laws obtain p' m' where set:
    "slot_set upd (slot_after us) (nx e) p m = Some (p', m')" "chain nx (heap m') p' us (nx e)"
    "relinked dt (set us) m m'" by blast
  have "chain nx (heap m') (nx e) ws 0"
    by (rule relinked_chain [OF set(3) _ e(4)]) (use Nil.prems(3) in auto)
  with set(2) have "chain nx (heap m') p' (us @ ws) 0" by auto
  with set e Nil.prems(5) slot_get_after [OF Nil.prems(1)] show ?case
    by (subst unlink_first.simps) (simp add: mem_simps)
next
  case (Cons b vs)
  from Cons.prems(2) obtain e where e: "q = b" "b \<noteq> 0" "heap m b = Some e" "chain nx (heap m) (nx e) (vs @ a # ws) 0"
    by (auto simp: chain_Cons)
  have "chain nx (heap m) p (us @ [b]) (nx e)" using Cons.prems(1) e by (auto simp: chain_Cons)
  from Cons.IH [OF this e(4)] Cons.prems(3-5) obtain p' m' where
    "unlink_first nx upd P (slot_after (us @ [b])) p m = Some (a, p', m')" "a \<noteq> 0"
    "chain nx (heap m') p' ((us @ [b]) @ vs @ ws) 0" "relinked dt (set ((us @ [b]) @ vs)) m m'" by auto
  with e Cons.prems(4) slot_get_after [OF Cons.prems(1)] show ?case
    by (subst unlink_first.simps) (simp add: mem_simps)
qed

lemma free_chain_spec:
  "chain nx (heap m) p as 0 \<Longrightarrow>
   \<exists>m'. free_chain nx calls p log m = Some (log @ concat (map (\<lambda>a. calls (the (heap m a))) as), m') \<and>
     heap m' = (\<lambda>b. if b \<in> set as then None else heap m b)"
proof (induction as arbitrary: m p log)
  case Nil
  then show ?case by (subst free_chain.simps) simp
next
  case (Cons a as)
  have fresh: "a \<notin> set as" using chain_distinct [OF Cons.prems] by simp
  from Cons.prems obtain e where e: "p = a" "a \<noteq> 0" "heap m a = Some e" "chain nx (heap m) (nx e) as 0"
    by (auto simp: chain_Cons)
  let ?m = "m\<lparr>heap := (heap m)(a := None)\<rparr>"
  have "chain nx (heap ?m) (nx e) as 0" using e fresh by simp
  from Cons.IH [OF this, of "log @ calls e"] obtain m' where IH:
    "free_chain nx calls (nx e) (log @ calls e) ?m =
      Some ((log @ calls e) @ concat (map (\<lambda>a. calls (the (heap ?m a))) as), m')"
    "heap m' = (\<lambda>b. if b \<in> set as then None else heap ?m b)" by blast
  have same: "map (\<lambda>a. calls (the (heap ?m a))) as = map (\<lambda>a. calls (the (heap m a))) as"
    using fresh by auto
  have "free_chain nx calls p log m =
      Some (log @ concat (map (\<lambda>a. calls (the (heap m a))) (a # as)), m')"
    using e IH(1) unfolding same by (subst free_chain.simps) (simp add: mem_simps)
  with IH(2) show ?case by (auto simp: fun_eq_iff)
qed

lemma free_table_spec:
  "chains nx m tab bs \<Longrightarrow> distinct (concat bs) \<Longrightarrow>
   \<exists>m'. free_table nx calls tab log m =
       Some (log @ concat (map (\<lambda>a. calls (the (heap m a))) (concat bs)), m') \<and>
     heap m' = (\<lambda>b. if b \<in> set (concat bs) then None else heap m b)"
proof (induction tab arbitrary: m bs log)
  case Nil
  then show ?case by simp
next
  case (Cons p tab)
  then obtain as bs' where bs: "bs = as # bs'" "chain nx (heap m) p as 0" "chains nx m tab bs'"
    by (auto simp: list_all2_Cons1)
  have disj: "set as \<inter> set (concat bs') = {}" "distinct (concat bs')" using Cons.prems(2) bs(1) by auto
  from free_chain_spec [OF bs(2), of calls log] obtain m1 where m1:
    "free_chain nx calls p log m = Some (log @ concat (map (\<lambda>a. calls (the (heap m a))) as), m1)"
    "heap m1 = (\<lambda>b. if b \<in> set as then None else heap m b)" by blast
  have same: "heap m1 b = heap m b" if "b \<in> set (concat bs')" for b using m1(2) that disj(1) by auto
  have "chains nx m1 tab bs'" by (rule chains_cong [OF bs(3)]) (rule same)
  from Cons.IH [OF this disj(2)] obtain m' where m':
    "free_table nx calls tab (log @ concat (map (\<lambda>a. calls (the (heap m a))) as)) m1 =
      Some ((log @ concat (map (\<lambda>a. calls (the (heap m a))) as)) @
        concat (map (\<lambda>a. calls (the (heap m1 a))) (concat bs')), m')"
    "heap m' = (\<lambda>b. if b \<in> set (concat bs') then None else heap m1 b)" by blast
  have eq: "map (\<lambda>a. calls (the (heap m1 a))) (concat bs') = map (\<lambda>a. calls (the (heap m a))) (concat bs')"
    using same by (intro map_cong) auto
  have "heap m' = (\<lambda>b. if b \<in> set (concat bs) then None else heap m b)"
    using m'(2) m1(2) bs(1) by (auto simp: fun_eq_iff)
  with m1(1) m'(1) bs(1) show ?case unfolding eq by simp
qed

section \<open>Iteration\<close>

lemma next_chain_spec:
  assumes "length bs = length tab" "\<forall>i < length bs. tab ! i = 0 \<longleftrightarrow> bs ! i = []"
  shows "\<exists>p c'. next_chain tab c = (p, c') \<and>
    (p = 0 \<and> concat (drop c bs) = [] \<or>
     c' < length bs \<and> p = tab ! c' \<and> p \<noteq> 0 \<and> concat (drop c bs) = bs ! c' @ concat (drop (Suc c') bs))"
  using assms
proof (induction tab c rule: next_chain.induct)
  case (1 tab c)
  show ?case
  proof (cases "c < length tab \<and> tab ! c = 0")
    case True
    then have "bs ! c = []" using "1.prems"(1) "1.prems"(2) [rule_format, of c] by simp
    moreover have "drop c bs = bs ! c # drop (Suc c) bs"
      using True "1.prems"(1) Cons_nth_drop_Suc [of c bs] by simp
    ultimately have "concat (drop c bs) = concat (drop (Suc c) bs)" by simp
    with 1 True show ?thesis by (subst next_chain.simps) simp
  next
    case False
    with "1.prems" Cons_nth_drop_Suc [of c bs] show ?thesis
      by (subst next_chain.simps) (auto simp flip: Cons_nth_drop_Suc)
  qed
qed

definition iter_rest ::
  "('n \<Rightarrow> addr) \<Rightarrow> 'n mem \<Rightarrow> addr list list \<Rightarrow> chain_iter \<Rightarrow> addr list \<Rightarrow> bool"
where
  "iter_rest nx m bs it rest \<longleftrightarrow> ci_entry it = 0 \<and> rest = [] \<or>
     ci_chain it < length bs \<and> (\<exists>vs. vs \<noteq> [] \<and> chain nx (heap m) (ci_entry it) vs 0 \<and>
       rest = vs @ concat (drop (Suc (ci_chain it)) bs))"

lemma iter_rest_entry: "iter_rest nx m bs it rest \<Longrightarrow> ci_entry it \<noteq> 0 \<longleftrightarrow> rest \<noteq> []"
  by (auto simp: iter_rest_def)

lemma iter_rest_Cons:
  assumes "iter_rest nx m bs it (a # rest)"
  obtains e where "ci_entry it = a" "a \<noteq> 0" "heap m a = Some e"
  using assms by (auto simp: iter_rest_def chain_Cons neq_Nil_conv)

lemma buckets_null:
  "buckets nx hf m n tab bs \<Longrightarrow> \<forall>i < length bs. tab ! i = 0 \<longleftrightarrow> bs ! i = []"
  using buckets_chain by (metis chain.simps(1) chain_null)

lemma iter_rest_first:
  assumes b: "buckets nx hf m n tab bs" and it: "next_chain tab 0 = (ci_entry it, c)"
    and chain: "ci_entry it \<noteq> 0 \<Longrightarrow> ci_chain it = c"
  shows "iter_rest nx m bs it (concat bs)"
proof -
  have "length bs = length tab" using b by (simp add: buckets_def)
  from next_chain_spec [OF this buckets_null [OF b], of 0] it chain
  consider "ci_entry it = 0" "concat bs = []"
    | "c < length bs" "ci_entry it = tab ! c" "ci_entry it \<noteq> 0" "ci_chain it = c"
      "concat bs = bs ! c @ concat (drop (Suc c) bs)" by auto
  then show ?thesis
  proof cases
    case 2
    with buckets_chain [OF b 2(1)] buckets_null [OF b] show ?thesis
      unfolding iter_rest_def by (metis (no_types, lifting))
  qed (simp add: iter_rest_def)
qed

lemma iter_rest_advance:
  assumes b: "buckets nx hf m n tab bs" and it: "iter_rest nx m bs it (a # rest)" and e: "heap m a = Some e"
  shows "iter_rest nx m bs (iter_advance nx tab e it) rest"
proof -
  from it e obtain vs where c: "ci_chain it < length bs" "chain nx (heap m) (nx e) vs 0"
    "rest = vs @ concat (drop (Suc (ci_chain it)) bs)"
    by (auto simp: iter_rest_def chain_Cons neq_Nil_conv)
  show ?thesis
  proof (cases "vs = []")
    case False
    then have "nx e \<noteq> 0" using c(2) by (metis chain_null)
    with False c show ?thesis by (auto simp: iter_rest_def iter_advance_def)
  next
    case True
    have "length bs = length tab" using b by (simp add: buckets_def)
    from next_chain_spec [OF this buckets_null [OF b], of "Suc (ci_chain it)"] obtain p c' where
      nc: "next_chain tab (Suc (ci_chain it)) = (p, c')" and
      p: "p = 0 \<and> concat (drop (Suc (ci_chain it)) bs) = [] \<or>
       c' < length bs \<and> p = tab ! c' \<and> p \<noteq> 0 \<and>
       concat (drop (Suc (ci_chain it)) bs) = bs ! c' @ concat (drop (Suc c') bs)" by blast
    have adv: "iter_advance nx tab e it = it\<lparr>ci_entry := p, ci_chain := c'\<rparr>"
      using nc True c(2) by (simp add: iter_advance_def)
    from p show ?thesis
    proof
      assume "p = 0 \<and> concat (drop (Suc (ci_chain it)) bs) = []"
      with True c(3) adv show ?thesis by (simp add: iter_rest_def)
    next
      assume p: "c' < length bs \<and> p = tab ! c' \<and> p \<noteq> 0 \<and>
        concat (drop (Suc (ci_chain it)) bs) = bs ! c' @ concat (drop (Suc c') bs)"
      then have "bs ! c' \<noteq> []" "chain nx (heap m) p (bs ! c') 0"
        using buckets_chain [OF b, of c'] buckets_null [OF b] by auto
      with p True c(3) adv show ?thesis by (auto simp: iter_rest_def)
    qed
  qed
qed

section \<open>A table of entries with distinct keys\<close>

text \<open>
  A table that holds the entries \<open>as\<close>, in any order; \<open>kf\<close> gives the key of an entry, and no two
  entries have equal keys.
\<close>

definition table_rep ::
  "('n \<Rightarrow> addr) \<Rightarrow> ('n \<Rightarrow> val) \<Rightarrow> (val \<Rightarrow> c_uint) \<Rightarrow> (val \<Rightarrow> val \<Rightarrow> bool) \<Rightarrow> 'n mem \<Rightarrow> c_uint \<Rightarrow>
   addr list \<Rightarrow> addr list \<Rightarrow> bool"
where
  "table_rep nx kf hash eq m n tab as \<longleftrightarrow> n \<noteq> 0 \<and>
     (\<exists>bs. buckets nx (\<lambda>e. hash (kf e)) m n tab bs \<and> mset (concat bs) = mset as) \<and>
     (\<forall>a \<in> set as. \<forall>b \<in> set as. eq (kf (the (heap m a))) (kf (the (heap m b))) \<longrightarrow> a = b)"

lemma table_repE:
  assumes "table_rep nx kf hash eq m n tab as"
  obtains bs where "buckets nx (\<lambda>e. hash (kf e)) m n tab bs" "mset (concat bs) = mset as"
    "set (concat bs) = set as" "distinct as" "n \<noteq> 0"
proof -
  from assms obtain bs where b: "buckets nx (\<lambda>e. hash (kf e)) m n tab bs" "mset (concat bs) = mset as" "n \<noteq> 0"
    by (auto simp: table_rep_def)
  from that [OF b(1,2) mset_eq_setD [OF b(2)] _ b(3)] buckets_distinct [OF b(1)]
    mset_eq_imp_distinct_iff [OF b(2)] show ?thesis by blast
qed

lemma table_rep_dom: "table_rep nx kf hash eq m n tab as \<Longrightarrow> set as \<subseteq> dom (heap m)"
  by (elim table_repE) (use buckets_dom in blast)

lemma table_rep_not_null:
  assumes "table_rep nx kf hash eq m n tab as" "a \<in> set as"
  shows "a \<noteq> 0"
  using assms(1)
proof (rule table_repE)
  fix bs assume b: "buckets nx (\<lambda>e. hash (kf e)) m n tab bs" "set (concat bs) = set as"
  from assms(2) b(2) have "a \<in> set (concat bs)" by (simp del: set_concat)
  then obtain i where "i < length bs" "a \<in> set (bs ! i)" by (rule in_concat_obtain)
  with buckets_chain [OF b(1)] chain_not_null show ?thesis by metis
qed

lemma table_rep_distinct: "table_rep nx kf hash eq m n tab as \<Longrightarrow> distinct as"
  by (elim table_repE)

lemma table_rep_heap:
  assumes "table_rep nx kf hash eq m n tab as" and h: "heap m' = heap m"
  shows "table_rep nx kf hash eq m' n tab as"
proof -
  have "buckets nx hf m' n tab bs = buckets nx hf m n tab bs" for hf bs
    unfolding buckets_def h by (rule refl)
  with assms(1) show ?thesis unfolding table_rep_def h by simp
qed

lemma table_rep_cong:
  assumes "table_rep nx kf hash eq m n tab as" and h: "\<And>a. a \<in> set as \<Longrightarrow> heap m' a = heap m a"
  shows "table_rep nx kf hash eq m' n tab as"
  using assms(1)
proof (rule table_repE)
  fix bs assume b: "buckets nx (\<lambda>e. hash (kf e)) m n tab bs" "mset (concat bs) = mset as"
    "set (concat bs) = set as" "n \<noteq> 0"
  have same: "heap m' a = heap m a" if "i < length bs" "a \<in> set (bs ! i)" for i a
    using in_concat_nth [OF that] b(3) h by blast
  have "buckets nx (\<lambda>e. hash (kf e)) m' n tab bs"
    unfolding buckets_def
  proof (intro conjI allI impI ballI)
    fix i assume i: "i < length bs"
    show "chain nx (heap m') (tab ! i) (bs ! i) 0"
      by (rule chain_cong [OF _ buckets_chain [OF b(1) i]]) (rule same [OF i])
    fix a assume a: "a \<in> set (bs ! i)"
    show "unat (hash (kf (the (heap m' a))) mod n) = i"
      using b(1) i a same [OF i a] by (simp add: buckets_def)
  qed (use b(1) in \<open>simp_all add: buckets_def\<close>)
  with b(2,4) assms(1) show ?thesis unfolding table_rep_def by (auto simp: h)
qed

lemma table_rep_new:
  assumes "n \<noteq> 0"
  shows "table_rep nx kf hash eq m n (replicate (unat n) 0) []"
proof -
  have "mset (concat (replicate k [])) = mset []" for k by (induction k) auto
  then show ?thesis using buckets_new assms unfolding table_rep_def by fastforce
qed

lemma find_the_only:
  assumes "a \<in> set xs" "P a" "\<forall>b \<in> set xs. P b \<longrightarrow> b = a"
  shows "List.find P xs = Some a"
proof (cases "List.find P xs")
  case None
  with assms(1,2) show ?thesis by (simp add: find_None_iff)
next
  case (Some c)
  then have "c \<in> set xs" "P c" by (auto simp: find_Some_iff)
  with assms(3) Some show ?thesis by blast
qed

context hashing
begin

text \<open>The chain where a key belongs, and what a search in it finds.\<close>

lemma table_chain:
  assumes "table_rep nx kf hash eq m n tab as" and i: "i = unat (hash k mod n)"
  obtains bs where "buckets nx (\<lambda>e. hash (kf e)) m n tab bs" "mset (concat bs) = mset as"
    "set (concat bs) = set as" "i < length bs" "tab_get tab i = Some (tab ! i)"
    "chain nx (heap m) (tab ! i) (bs ! i) 0"
    "\<And>a. a \<in> set as \<Longrightarrow> eq (kf (the (heap m a))) k \<Longrightarrow> a \<in> set (bs ! i)"
  using assms(1)
proof (rule table_repE)
  fix bs assume b: "buckets nx (\<lambda>e. hash (kf e)) m n tab bs" "mset (concat bs) = mset as"
    "set (concat bs) = set as" "n \<noteq> 0"
  have i': "i < length bs" using buckets_index [OF b(1,4)] i by simp
  show ?thesis
  proof (rule that)
    show "tab_get tab i = Some (tab ! i)" using i' b(1) by (simp add: tab_get_def buckets_def)
    show "a \<in> set (bs ! i)" if "a \<in> set as" "eq (kf (the (heap m a))) k" for a
    proof -
      have "a \<in> set (concat bs)" unfolding b(3) by (rule that(1))
      from buckets_hash(1) [OF b(1) this] eq_hash [OF that(2)] i show ?thesis by simp
    qed
  qed (fact b(1) b(2) b(3) i' buckets_chain [OF b(1) i'])+
qed

lemma table_find:
  assumes t: "table_rep nx kf hash eq m n tab as" and i: "i = unat (hash k mod n)"
    and cb: "\<And>a b. cb a b \<longleftrightarrow> eq a b"
  shows "\<exists>head. tab_get tab i = Some head \<and> find_loop nx kf cb k head m =
    Some (case List.find (\<lambda>a. eq (kf (the (heap m a))) k) as of None \<Rightarrow> 0 | Some a \<Rightarrow> a)"
  using t i
proof (rule table_chain)
  fix bs assume b: "set (concat bs) = set as" "i < length bs" "tab_get tab i = Some (tab ! i)"
    "chain nx (heap m) (tab ! i) (bs ! i) 0"
    and here: "\<And>a. a \<in> set as \<Longrightarrow> eq (kf (the (heap m a))) k \<Longrightarrow> a \<in> set (bs ! i)"
  let ?P = "\<lambda>a. eq (kf (the (heap m a))) k"
  have sub: "set (bs ! i) \<subseteq> set as" using nth_subset_concat [OF b(2)] b(1) by simp
  have only: "c = a" if "a \<in> set as" "?P a" "c \<in> set as" "?P c" for a c
  proof -
    have "eq (kf (the (heap m c))) (kf (the (heap m a)))"
      using that eq_sym eq_trans by blast
    with t that show ?thesis by (simp add: table_rep_def)
  qed
  have "List.find ?P (bs ! i) = List.find ?P as"
  proof (cases "\<exists>a \<in> set as. ?P a")
    case True
    then obtain a where a: "a \<in> set as" "?P a" by blast
    have "List.find ?P as = Some a" by (rule find_the_only [where P = "?P", OF a]) (use a only in blast)
    moreover have "List.find ?P (bs ! i) = Some a"
      by (rule find_the_only [where P = "?P", OF here [OF a] a(2)]) (use a only sub in blast)
    ultimately show ?thesis by simp
  next
    case False
    then have "List.find ?P as = None" "List.find ?P (bs ! i) = None"
      using sub unfolding find_None_iff by blast+
    then show ?thesis by simp
  qed
  then show ?thesis using b(3) find_loop_spec [OF b(4), of kf cb k] cb by simp
qed

lemma table_unique:
  assumes t: "table_rep nx kf hash eq m n tab as" and a: "a \<in> set as" "eq (kf (the (heap m a))) k"
    and b: "b \<in> set as"
  shows "eq (kf (the (heap m b))) k \<longleftrightarrow> b = a"
proof
  assume "eq (kf (the (heap m b))) k"
  from eq_trans [OF this eq_sym [OF a(2)]] show "b = a"
    using t a(1) b unfolding table_rep_def by blast
qed (use a in simp)

text \<open>Adding an entry at the start of its chain.\<close>

lemma table_add:
  assumes t: "table_rep nx kf hash eq m n tab as" and i: "i = unat (hash k mod n)"
    and e: "kf e = k" "nx e = tab ! i" and a: "a \<noteq> 0" "heap m a = None" "heap m' = (heap m)(a \<mapsto> e)"
    and absent: "\<And>b. b \<in> set as \<Longrightarrow> \<not> eq (kf (the (heap m b))) k"
  shows "table_rep nx kf hash eq m' n (tab[i := a]) (a # as)" "tab_set tab i a = Some (tab[i := a])"
proof -
  from t i obtain bs where b: "buckets nx (\<lambda>e. hash (kf e)) m n tab bs" "mset (concat bs) = mset as"
    "set (concat bs) = set as" "i < length bs" "chain nx (heap m) (tab ! i) (bs ! i) 0"
    by (rule table_chain)
  have fresh: "a \<notin> set as" using table_rep_dom [OF t] a(2) by auto
  then have fresh_i: "a \<notin> set (bs ! i)" using in_concat_nth [OF b(4)] b(3) by blast
  have "chain nx (heap m') a (a # bs ! i) 0" using b(5) e a fresh_i by (simp add: chain_Cons)
  then have "buckets nx (\<lambda>e. hash (kf e)) m' n (tab[i := a]) (bs[i := a # bs ! i])"
  proof (rule buckets_update [OF b(1,4)])
    show "set (a # bs ! i) \<inter> (set (concat bs) - set (bs ! i)) = {}" using fresh b(3) by auto
    show "heap m' c = heap m c" if "c \<in> set (concat bs) - set (bs ! i)" for c
      using that fresh a(3) b(3) by auto
    show "unat (hash (kf (the (heap m' c))) mod n) = i" if "c \<in> set (a # bs ! i)" for c
      using that fresh_i a(3) e(1) i b(1,4) by (auto simp: buckets_def)
  qed
  moreover have "mset (concat (bs[i := a # bs ! i])) = mset (a # as)"
    using mset_concat_update [OF b(4), of "a # bs ! i"] b(2) by simp
  moreover have "c = d" if "c \<in> set (a # as)" "d \<in> set (a # as)"
    "eq (kf (the (heap m' c))) (kf (the (heap m' d)))" for c d
    using that t absent fresh a(3) e(1) eq_sym by (auto simp: table_rep_def split: if_splits)
  ultimately show "table_rep nx kf hash eq m' n (tab[i := a]) (a # as)"
    using t unfolding table_rep_def by blast
  show "tab_set tab i a = Some (tab[i := a])" using b(1,4) by (simp add: tab_set_def buckets_def)
qed

text \<open>Overwriting the data of an entry, with an equal key.\<close>

lemma table_overwrite:
  assumes t: "table_rep nx kf hash eq m n tab as" and a: "a \<in> set as" "heap m a = Some e"
    and e': "nx e' = nx e" "eq (kf e) (kf e')" and m': "heap m' = (heap m)(a \<mapsto> e')"
  shows "table_rep nx kf hash eq m' n tab as"
  using t
proof (rule table_repE)
  fix bs assume b: "buckets nx (\<lambda>e. hash (kf e)) m n tab bs" "mset (concat bs) = mset as" "n \<noteq> 0"
  have key: "eq (kf (the (heap m c))) (kf (the (heap m' c)))" for c
    using a(2) e'(2) m' eq_refl by simp
  have "buckets nx (\<lambda>e. hash (kf e)) m' n tab bs"
    unfolding buckets_def
  proof (intro conjI allI impI ballI)
    fix i assume i: "i < length bs"
    show "chain nx (heap m') (tab ! i) (bs ! i) 0"
      unfolding m' using buckets_chain [OF b(1) i] a(2) e'(1) by (simp add: chain_upd_same_link)
    fix c assume c: "c \<in> set (bs ! i)"
    have "unat (hash (kf (the (heap m c))) mod n) = i" using b(1) i c by (simp add: buckets_def)
    then show "unat (hash (kf (the (heap m' c))) mod n) = i" using eq_hash [OF key [of c]] by simp
  qed (use b(1) in \<open>simp_all add: buckets_def\<close>)
  moreover have "c = d" if "c \<in> set as" "d \<in> set as" "eq (kf (the (heap m' c))) (kf (the (heap m' d)))" for c d
  proof -
    have "eq (kf (the (heap m c))) (kf (the (heap m d)))"
      using key that(3) eq_sym eq_trans by blast
    with t that(1,2) show ?thesis by (simp add: table_rep_def)
  qed
  ultimately show ?thesis using b unfolding table_rep_def by blast
qed

text \<open>Taking an entry out of its chain and freeing it, or finding none.\<close>

lemma table_unlink_none:
  assumes t: "table_rep nx kf hash eq m n tab as" and i: "i = unat (hash k mod n)"
    and P: "\<And>e. P e \<longleftrightarrow> eq (kf e) k" and absent: "\<And>b. b \<in> set as \<Longrightarrow> \<not> eq (kf (the (heap m b))) k"
  shows "\<exists>head. tab_get tab i = Some head \<and> unlink_first nx upd P List_Var head m = Some (0, head, m)"
  using t i
proof (rule table_chain)
  fix bs assume b: "set (concat bs) = set as" "i < length bs" "tab_get tab i = Some (tab ! i)"
    "chain nx (heap m) (tab ! i) (bs ! i) 0"
  have "\<forall>a \<in> set (bs ! i). \<not> P (the (heap m a))" using absent in_concat_nth [OF b(2)] b(1) P by blast
  with unlink_first_none [of nx m "tab ! i" "[]" "tab ! i" "bs ! i" P upd] b(3,4) show ?thesis by simp
qed

lemma table_unlink:
  assumes laws: "\<And>q e. nx (upd q e) = q" "\<And>q e. dt (upd q e) = dt e"
    and t: "table_rep nx kf hash eq m n tab (us @ a # vs)" and i: "i = unat (hash k mod n)"
    and kf: "\<And>e. kf e = kd (dt e)" and P: "\<And>e. P e \<longleftrightarrow> eq (kf e) k" and a: "eq (kf (the (heap m a))) k"
  shows "\<exists>head p' m' m'' e. tab_get tab i = Some head \<and>
    unlink_first nx upd P List_Var head m = Some (a, p', m') \<and> a \<noteq> 0 \<and> tab_set tab i p' = Some (tab[i := p']) \<and>
    heap m' a = heap m a \<and> free a m' = Some m'' \<and>
    table_rep nx kf hash eq m'' n (tab[i := p']) (us @ vs) \<and> without dt {a} (us @ a # vs) m m''"
  using t i
proof (rule table_chain)
  let ?as = "us @ a # vs"
  fix bs assume b: "buckets nx (\<lambda>e. hash (kf e)) m n tab bs" "mset (concat bs) = mset ?as"
    "set (concat bs) = set ?as" "i < length bs" "tab_get tab i = Some (tab ! i)"
    "chain nx (heap m) (tab ! i) (bs ! i) 0"
    and here: "\<And>b. b \<in> set ?as \<Longrightarrow> eq (kf (the (heap m b))) k \<Longrightarrow> b \<in> set (bs ! i)"
  have dist: "distinct ?as" using t by (rule table_rep_distinct)
  have uniq: "b = c" if "b \<in> set ?as" "c \<in> set ?as" "eq (kf (the (heap m b))) (kf (the (heap m c)))" for b c
    using t that unfolding table_rep_def by blast
  from here [of a] a obtain xs ys where xy: "bs ! i = xs @ a # ys" by (auto simp: in_set_conv_decomp)
  have dxy: "distinct (xs @ a # ys)" using chain_distinct [OF b(6)] xy by simp
  have sub: "set (xs @ a # ys) \<subseteq> set ?as" using nth_subset_concat [OF b(4)] b(3) xy by simp
  have "\<forall>c \<in> set xs. \<not> P (the (heap m c))"
  proof (intro ballI notI)
    fix c assume c: "c \<in> set xs" "P (the (heap m c))"
    then have "eq (kf (the (heap m c))) (kf (the (heap m a)))" using a P eq_sym eq_trans by blast
    with uniq [of c a] sub c(1) dxy show False by auto
  qed
  with unlink_first_found [where dt = dt, OF laws, of m "tab ! i" "[]" "tab ! i" xs a ys P] b(6) xy dxy a P
  obtain p' m' where u: "unlink_first nx upd P List_Var (tab ! i) m = Some (a, p', m')" "a \<noteq> 0"
    "chain nx (heap m') p' (xs @ ys) 0" "relinked dt (set xs) m m'" by auto
  have am: "heap m' a = heap m a" using relinked_frame [OF u(4), of a] dxy by simp
  obtain e where e: "heap m a = Some e" using table_rep_dom [OF t] by auto
  let ?m = "m'\<lparr>heap := (heap m')(a := None)\<rparr>"
  have free: "free a m' = Some ?m" using am e u(2) by (simp add: mem_simps)
  have key: "kf (the (heap m' c)) = kf (the (heap m c))" for c
    using relinked_key [OF u(4), of c] by (simp add: kf)
  have "chain nx (heap ?m) p' (xs @ ys) 0" using u(3) dxy by (simp del: chain_append)
  then have "buckets nx (\<lambda>e. hash (kf e)) ?m n (tab[i := p']) (bs[i := xs @ ys])"
  proof (rule buckets_update [OF b(1,4)])
    show "set (xs @ ys) \<inter> (set (concat bs) - set (bs ! i)) = {}" using xy by auto
    show "heap ?m c = heap m c" if "c \<in> set (concat bs) - set (bs ! i)" for c
      using that xy relinked_frame [OF u(4), of c] by auto
    show "unat (hash (kf (the (heap ?m c))) mod n) = i" if "c \<in> set (xs @ ys)" for c
    proof -
      have "c \<noteq> a" "c \<in> set (bs ! i)" using that dxy xy by auto
      with key b(1,4) show ?thesis by (simp add: buckets_def)
    qed
  qed
  moreover have "mset (concat (bs[i := xs @ ys])) = mset (us @ vs)"
    using mset_concat_update [OF b(4), of "xs @ ys"] b(2) xy by simp
  moreover have "c = d" if "c \<in> set (us @ vs)" "d \<in> set (us @ vs)"
    "eq (kf (the (heap ?m c))) (kf (the (heap ?m d)))" for c d
  proof -
    have "c \<noteq> a" "d \<noteq> a" using that(1,2) dist by auto
    with that uniq [of c d] show ?thesis by (simp add: key)
  qed
  ultimately have "table_rep nx kf hash eq ?m n (tab[i := p']) (us @ vs)"
    using t unfolding table_rep_def by blast
  moreover have "without dt {a} ?as m ?m"
    using u(4) sub by (auto simp: without_def relinked_def)
  moreover have "tab_set tab i p' = Some (tab[i := p'])" using b(1,4) by (simp add: tab_set_def buckets_def)
  ultimately show ?thesis using b(5) u(1,2) am free by blast
qed

text \<open>Moving all entries to a new table.\<close>

lemma table_rehash:
  assumes laws: "\<And>q e. nx (upd q e) = q" "\<And>q e. dt (upd q e) = dt e" and kf: "\<And>e. kf e = kd (dt e)"
    and t: "table_rep nx kf hash eq m n tab as" and n': "n' \<noteq> 0"
  shows "\<exists>tab' m'. rehash nx upd (\<lambda>e. hash (kf e)) n' tab (replicate (unat n') 0) m = Some (tab', m') \<and>
    table_rep nx kf hash eq m' n' tab' as \<and> relinked dt (set as) m m'"
  using t
proof (rule table_repE)
  fix bs assume b: "buckets nx (\<lambda>e. hash (kf e)) m n tab bs" "mset (concat bs) = mset as"
    "set (concat bs) = set as" "n \<noteq> 0"
  have nil: "concat (replicate (unat n') []) = []" by (induction "unat n'") auto
  have hf: "hash (kf (upd q e)) = hash (kf e)" for q e by (simp add: kf laws)
  from rehash_spec [where dt = dt and hf = "\<lambda>e. hash (kf e)", OF laws hf n' buckets_chains [OF b(1)]
      buckets_distinct [OF b(1)] buckets_new] nil
  obtain tab' bs' m' where r: "rehash nx upd (\<lambda>e. hash (kf e)) n' tab (replicate (unat n') 0) m = Some (tab', m')"
    "buckets nx (\<lambda>e. hash (kf e)) m' n' tab' bs'" "mset (concat bs') = mset (concat bs)"
    "relinked dt (set (concat bs)) m m'" by auto
  have key: "kf (the (heap m' a)) = kf (the (heap m a))" for a
    using relinked_key [OF r(4), of a] by (simp add: kf)
  have "table_rep nx kf hash eq m' n' tab' as"
    using r(2,3) b(2) n' t by (auto simp: table_rep_def key)
  with r b(3) show ?thesis by auto
qed

end

lemma table_free:
  assumes "table_rep nx kf hash eq m n tab as"
  shows "\<exists>m' cs. free_table nx calls tab log m = Some (log @ cs, m') \<and>
    mset cs = mset (concat (map (\<lambda>a. calls (the (heap m a))) as)) \<and>
    heap m' = (\<lambda>b. if b \<in> set as then None else heap m b)"
  using assms
proof (rule table_repE)
  fix bs assume b: "buckets nx (\<lambda>e. hash (kf e)) m n tab bs" "mset (concat bs) = mset as"
    "set (concat bs) = set as"
  have "mset (concat (map f xs)) = mset (concat (map f ys))" if "mset xs = mset ys" for f :: "addr \<Rightarrow> 'c list" and xs ys
    using that by (simp add: mset_concat flip: sum_mset_sum_list)
  with free_table_spec [OF buckets_chains [OF b(1)] buckets_distinct [OF b(1)], of calls log] b(2,3)
  show ?thesis by (auto simp del: set_concat)
qed

section \<open>Sizes of a table\<close>

text \<open>
  Both modules contain the same array of sizes and enlarge a table when it is more than a third
  full.  A table that was allocated with the size of index \<open>idx\<close> holds \<open>k\<close> entries; the index
  stays below the number of sizes as long as \<open>k\<close> is below \<open>2 ^ 28\<close>.
\<close>

definition table_primes :: "c_uint list" where
  "table_primes =
     [193, 389, 769, 1543, 3079, 6151, 12289, 24593, 49157, 98317, 196613, 393241, 786433,
      1572869, 3145739, 6291469, 12582917, 25165843, 50331653, 100663319, 201326611, 402653189,
      805306457, 1610612741]"

definition sized :: "c_uint \<Rightarrow> c_uint \<Rightarrow> nat \<Rightarrow> bool" where
  "sized idx n k \<longleftrightarrow> unat idx \<le> 22 \<and> n = table_primes ! unat idx \<and> 3 * k < unat n + 3"

lemma length_table_primes [simp]: "length table_primes = 24"
  by (simp add: table_primes_def)

lemma table_primes_double: "i \<le> 21 \<Longrightarrow> unat (table_primes ! i) + 193 \<le> unat (table_primes ! Suc i)"
proof -
  have "list_all2 (\<lambda>a b. unat a + 193 \<le> unat b) (butlast table_primes) (tl table_primes)"
    by (simp add: table_primes_def)
  from list_all2_nthD [OF this, of i] show "i \<le> 21 \<Longrightarrow> ?thesis"
    by (simp add: nth_butlast nth_tl)
qed

lemma table_primes_pos: "i \<le> 23 \<Longrightarrow> 193 \<le> unat (table_primes ! i)"
proof -
  have "list_all (\<lambda>p. 193 \<le> unat p) table_primes" by (simp add: table_primes_def)
  then show "i \<le> 23 \<Longrightarrow> 193 \<le> unat (table_primes ! i)" by (simp add: list_all_length)
qed

lemma sized_new [simp]: "sized 0 193 0"
  by (simp add: sized_def table_primes_def)

lemma sized_nonzero: "sized idx n k \<Longrightarrow> n \<noteq> 0"
  using table_primes_pos [of "unat idx"] by (auto simp: sized_def)

lemma sized_in_primes: "sized idx n k \<Longrightarrow> n \<in> set table_primes"
  by (auto simp: sized_def intro!: nth_mem)

lemma sized_load: "sized idx n k \<Longrightarrow> 3 * k < unat n + 3"
  unfolding sized_def by (elim conjE)

lemma sized_le: "sized idx n k \<Longrightarrow> j \<le> k \<Longrightarrow> sized idx n j"
  unfolding sized_def by linarith

lemma sized_Suc: "sized idx n k \<Longrightarrow> 3 * k < unat n \<Longrightarrow> sized idx n (Suc k)"
  by (simp add: sized_def)

lemma unat_of_bounded: "k < 2 ^ 28 \<Longrightarrow> unat (of_nat k :: c_uint) = k"
  by (simp add: unat_of_nat)

lemma of_nat_pred: "0 < n \<Longrightarrow> (of_nat n :: c_uint) - 1 = of_nat (n - 1)"
  by (simp add: of_nat_diff)

lemma sized_full:
  assumes "sized idx n k" "k < 2 ^ 28"
  shows "(of_nat k * 3) div n > 0 \<longleftrightarrow> unat n \<le> 3 * k"
proof -
  have "unat (of_nat k * 3 :: c_uint) = k * 3"
    using assms(2) by (simp add: unat_word_ariths unat_of_bounded)
  moreover have "0 < unat n" using sized_nonzero [OF assms(1)] by (simp add: unat_gt_0)
  ultimately show ?thesis
    by (simp add: word_less_nat_alt unat_div div_greater_zero_iff mult.commute)
qed

lemma sized_grow:
  assumes "sized idx n k" "unat n \<le> 3 * k" "k < 2 ^ 28"
  shows "idx + 1 < 24" "sized (idx + 1) (table_primes ! unat (idx + 1)) k"
    "3 * k < unat (table_primes ! unat (idx + 1))"
proof -
  have "unat (table_primes ! 22) = 805306457" by (simp add: table_primes_def)
  with assms have "unat idx \<noteq> 22" by (auto simp: sized_def)
  with assms(1) have i: "unat idx \<le> 21" by (simp add: sized_def)
  then have s: "unat (idx + 1) = Suc (unat idx)" by (simp add: unat_word_ariths)
  show "idx + 1 < 24" using i s by (simp add: word_less_nat_alt)
  show *: "3 * k < unat (table_primes ! unat (idx + 1))"
    using assms(1) table_primes_double [OF i] unfolding sized_def s by (elim conjE) simp
  show "sized (idx + 1) (table_primes ! unat (idx + 1)) k"
    using * i by (simp add: sized_def s)
qed

end
