(* ===== verification/HashTable.thy ===== *)
theory HashTable
  imports Buckets
begin

text \<open>
  The hash table of \<open>libcalg/src/hash-table.c\<close>, every function of the file: a map from keys to
  values, with an array of chains of entries that is enlarged when it is more than a third full.
  The loops over the chains are those of \<open>Buckets\<close>.

  A registered free function is its address (0 is NULL); the program calls it and does not look
  at what it does, so each operation returns the list of the calls it makes, a call being the
  address with the argument.
\<close>

section \<open>The code\<close>

record hash_table_pair =
  hp_key :: val
  hp_value :: val

record hash_table_entry =
  he_pair :: hash_table_pair
  he_next :: addr

record hash_table =
  ht_table :: "addr list"
  ht_table_size :: c_uint
  ht_hash_func :: "val \<Rightarrow> c_uint"
  ht_equal_func :: "val \<Rightarrow> val \<Rightarrow> bool"
  ht_key_free_func :: addr
  ht_value_free_func :: addr
  ht_entries :: c_uint
  ht_prime_index :: c_uint

type_synonym hmem = "hash_table_entry mem"

abbreviation he_key :: "hash_table_entry \<Rightarrow> val" where
  "he_key e \<equiv> hp_key (he_pair e)"

abbreviation he_value :: "hash_table_entry \<Rightarrow> val" where
  "he_value e \<equiv> hp_value (he_pair e)"

abbreviation he_link :: "addr \<Rightarrow> hash_table_entry \<Rightarrow> hash_table_entry" where
  "he_link p e \<equiv> e\<lparr>he_next := p\<rparr>"

definition hash_table_primes :: "c_uint list" where
  "hash_table_primes =
     [193, 389, 769, 1543, 3079, 6151, 12289, 24593, 49157, 98317,
      196613, 393241, 786433, 1572869, 3145739, 6291469,
      12582917, 25165843, 50331653, 100663319, 201326611,
      402653189, 805306457, 1610612741]"

definition hash_table_num_primes :: c_uint where
  "hash_table_num_primes = of_nat (length hash_table_primes)"

definition hash_table_allocate_table :: "hash_table \<Rightarrow> hmem \<Rightarrow> bool \<times> hash_table \<times> hmem" where
  "hash_table_allocate_table ht m =
     (let new_table_size =
            (if ht_prime_index ht < hash_table_num_primes
             then hash_table_primes ! unat (ht_prime_index ht)
             else ht_entries ht * 10);
          ht = ht\<lparr>ht_table_size := new_table_size\<rparr>;
          (ok, m) = malloc_block m
      in (ok, ht\<lparr>ht_table := if ok then replicate (unat new_table_size) 0 else []\<rparr>, m))"

text \<open>A call of a free function, if one is registered, and those that destroying an entry makes.\<close>

definition free_call :: "addr \<Rightarrow> val \<Rightarrow> call list" where
  "free_call f x = (if f \<noteq> 0 then [(f, x)] else [])"

definition hash_table_entry_calls :: "hash_table \<Rightarrow> hash_table_entry \<Rightarrow> call list" where
  "hash_table_entry_calls ht e =
     free_call (ht_key_free_func ht) (he_key e) @ free_call (ht_value_free_func ht) (he_value e)"

definition hash_table_free_entry :: "hash_table \<Rightarrow> addr \<Rightarrow> hmem \<Rightarrow> (call list \<times> hmem) option" where
  "hash_table_free_entry ht entry m = do {
     e \<leftarrow> load entry m;
     m \<leftarrow> free entry m;
     Some (hash_table_entry_calls ht e, m)
   }"

definition hash_table_new ::
  "(val \<Rightarrow> c_uint) \<Rightarrow> (val \<Rightarrow> val \<Rightarrow> bool) \<Rightarrow> hmem \<Rightarrow> hash_table option \<times> hmem"
where
  "hash_table_new hash_func equal_func m =
     (let (ok, m) = malloc_block m
      in if \<not> ok then (None, m)
         else let (ok, ht, m) = hash_table_allocate_table
                \<lparr>ht_table = [], ht_table_size = 0, ht_hash_func = hash_func,
                 ht_equal_func = equal_func, ht_key_free_func = 0, ht_value_free_func = 0,
                 ht_entries = 0, ht_prime_index = 0\<rparr> m
              in (if ok then Some ht else None, m))"


definition hash_table_register_free_functions :: "hash_table \<Rightarrow> addr \<Rightarrow> addr \<Rightarrow> hash_table" where
  "hash_table_register_free_functions ht key_free_func value_free_func =
     ht\<lparr>ht_key_free_func := key_free_func, ht_value_free_func := value_free_func\<rparr>"

definition hash_table_enlarge :: "hash_table \<Rightarrow> hmem \<Rightarrow> (bool \<times> hash_table \<times> hmem) option" where
  "hash_table_enlarge ht m =
     (let old_table = ht_table ht; old_table_size = ht_table_size ht;
          old_prime_index = ht_prime_index ht;
          (ok, ht, m) = hash_table_allocate_table (ht\<lparr>ht_prime_index := ht_prime_index ht + 1\<rparr>) m
      in if \<not> ok then
           Some (False, ht\<lparr>ht_table := old_table, ht_table_size := old_table_size,
                          ht_prime_index := old_prime_index\<rparr>, m)
         else do {
           (tab, m) \<leftarrow> rehash he_next he_link (\<lambda>e. ht_hash_func ht (he_key e)) (ht_table_size ht)
             old_table (ht_table ht) m;
           Some (True, ht\<lparr>ht_table := tab\<rparr>, m)
         })"

text \<open>The index of a key; a division by zero is undefined.\<close>

definition hash_table_index :: "hash_table \<Rightarrow> val \<Rightarrow> nat option" where
  "hash_table_index ht key =
     (if ht_table_size ht = 0 then None else Some (unat (ht_hash_func ht key mod ht_table_size ht)))"

text \<open>The part of \<open>hash_table_insert\<close> after the table has been enlarged.\<close>

definition hash_table_put ::
  "hash_table \<Rightarrow> val \<Rightarrow> val \<Rightarrow> hmem \<Rightarrow> (bool \<times> call list \<times> hash_table \<times> hmem) option"
where
  "hash_table_put ht key value m = do {
     index \<leftarrow> hash_table_index ht key;
     head \<leftarrow> tab_get (ht_table ht) index;
     rover \<leftarrow> find_loop he_next he_key (ht_equal_func ht) key head m;
     if rover \<noteq> 0 then do {
       e \<leftarrow> load rover m;
       m \<leftarrow> store rover (e\<lparr>he_pair := \<lparr>hp_key = key, hp_value = value\<rparr>\<rparr>) m;
       Some (True, free_call (ht_value_free_func ht) (he_value e) @
         free_call (ht_key_free_func ht) (he_key e), ht, m)
     }
     else (let (newentry, m) = malloc \<lparr>he_pair = \<lparr>hp_key = key, hp_value = value\<rparr>, he_next = head\<rparr> m
       in if newentry = 0 then Some (False, [], ht, m)
          else do {
            tab \<leftarrow> tab_set (ht_table ht) index newentry;
            Some (True, [], ht\<lparr>ht_table := tab, ht_entries := ht_entries ht + 1\<rparr>, m)
          })
   }"

definition hash_table_insert ::
  "hash_table \<Rightarrow> val \<Rightarrow> val \<Rightarrow> hmem \<Rightarrow> (bool \<times> call list \<times> hash_table \<times> hmem) option"
where
  "hash_table_insert ht key value m =
     (if ht_table_size ht = 0 then None
      else do {
        (ok, ht, m) \<leftarrow>
          (if (ht_entries ht * 3) div ht_table_size ht > 0 then hash_table_enlarge ht m
           else Some (True, ht, m));
        if \<not> ok then Some (False, [], ht, m) else hash_table_put ht key value m
      })"

definition hash_table_lookup :: "hash_table \<Rightarrow> val \<Rightarrow> hmem \<Rightarrow> val option" where
  "hash_table_lookup ht key m = do {
     index \<leftarrow> hash_table_index ht key;
     head \<leftarrow> tab_get (ht_table ht) index;
     rover \<leftarrow> find_loop he_next he_key (\<lambda>k d. ht_equal_func ht d k) key head m;
     if rover \<noteq> 0 then do { e \<leftarrow> load rover m; Some (he_value e) } else Some 0
   }"

definition hash_table_remove ::
  "hash_table \<Rightarrow> val \<Rightarrow> hmem \<Rightarrow> (bool \<times> call list \<times> hash_table \<times> hmem) option"
where
  "hash_table_remove ht key m = do {
     index \<leftarrow> hash_table_index ht key;
     head \<leftarrow> tab_get (ht_table ht) index;
     (entry, head, m) \<leftarrow>
       unlink_first he_next he_link (\<lambda>e. ht_equal_func ht key (he_key e)) List_Var head m;
     if entry = 0 then Some (False, [], ht, m)
     else do {
       tab \<leftarrow> tab_set (ht_table ht) index head;
       (calls, m) \<leftarrow> hash_table_free_entry ht entry m;
       Some (True, calls, ht\<lparr>ht_table := tab, ht_entries := ht_entries ht - 1\<rparr>, m)
     }
   }"

definition hash_table_num_entries :: "hash_table \<Rightarrow> c_uint" where
  "hash_table_num_entries ht = ht_entries ht"

text \<open>\<open>iterator\<close> is what the iterator held before: the chain is not set for an empty table.\<close>

definition hash_table_iterate :: "hash_table \<Rightarrow> chain_iter \<Rightarrow> chain_iter" where
  "hash_table_iterate ht iterator =
     (let (p, chain) = next_chain (ht_table ht) 0
      in if p \<noteq> 0 then iterator\<lparr>ci_entry := p, ci_chain := chain\<rparr> else iterator\<lparr>ci_entry := 0\<rparr>)"

definition hash_table_iter_has_more :: "chain_iter \<Rightarrow> bool" where
  "hash_table_iter_has_more iterator \<longleftrightarrow> ci_entry iterator \<noteq> 0"

definition hash_table_iter_next ::
  "hash_table \<Rightarrow> chain_iter \<Rightarrow> hmem \<Rightarrow> (hash_table_pair \<times> chain_iter) option"
where
  "hash_table_iter_next ht iterator m =
     (if ci_entry iterator = 0 then Some (\<lparr>hp_key = 0, hp_value = 0\<rparr>, iterator)
      else do {
        e \<leftarrow> load (ci_entry iterator) m;
        Some (he_pair e, iter_advance he_next (ht_table ht) e iterator)
      })"

section \<open>What a hash table represents\<close>

text \<open>
  The pairs of its entries, with the entries \<open>as\<close> in some order; the counters are right, and the
  size of the table is the one the load allows.
\<close>

abbreviation he_data :: "hash_table_entry \<Rightarrow> val \<times> val" where
  "he_data e \<equiv> (he_key e, he_value e)"

definition hash_table_rep :: "hmem \<Rightarrow> hash_table \<Rightarrow> addr list \<Rightarrow> (val \<times> val) list \<Rightarrow> bool" where
  "hash_table_rep m ht as ps \<longleftrightarrow>
     table_rep he_next he_key (ht_hash_func ht) (ht_equal_func ht) m (ht_table_size ht) (ht_table ht) as \<and>
     datas he_data (heap m) as = ps \<and> ht_entries ht = of_nat (length as) \<and>
     sized (ht_prime_index ht) (ht_table_size ht) (length as) \<and> length as < 2 ^ 28"

lemma hash_table_primes_eq: "hash_table_primes = table_primes"
  by (simp add: hash_table_primes_def table_primes_def)

lemma hash_table_num_primes_eq: "hash_table_num_primes = 24"
  by (simp add: hash_table_num_primes_def hash_table_primes_eq)

lemmas he_laws = hash_table_entry.simps hash_table_entry.update_convs

lemma hash_table_rep_length: "hash_table_rep m ht as ps \<Longrightarrow> length ps = length as"
  by (auto simp: hash_table_rep_def)

lemma hash_table_rep_dom: "hash_table_rep m ht as ps \<Longrightarrow> set as \<subseteq> dom (heap m)"
  by (auto simp: hash_table_rep_def dest!: table_rep_dom)

lemma hash_table_rep_distinct: "hash_table_rep m ht as ps \<Longrightarrow> distinct as"
  by (auto simp: hash_table_rep_def dest: table_rep_distinct)

lemma hash_table_rep_heap: "hash_table_rep m ht as ps \<Longrightarrow> heap m' = heap m \<Longrightarrow> hash_table_rep m' ht as ps"
  unfolding hash_table_rep_def by (auto intro: table_rep_heap)

lemma hash_table_index_rep:
  "hash_table_rep m ht as ps \<Longrightarrow>
   hash_table_index ht k = Some (unat (ht_hash_func ht k mod ht_table_size ht))"
  by (auto simp: hash_table_index_def hash_table_rep_def table_rep_def)

lemma hash_table_new_spec:
  "hash_table_new hash eq m = (r, m') \<Longrightarrow> heap m' = heap m \<and>
     (case r of None \<Rightarrow> True
      | Some ht \<Rightarrow> hash_table_rep m' ht [] [] \<and> ht_hash_func ht = hash \<and> ht_equal_func ht = eq)"
  by (auto simp: hash_table_new_def hash_table_allocate_table_def malloc_block_def
      hash_table_num_primes_eq hash_table_primes_eq table_primes_def Let_def hash_table_rep_def
      intro: table_rep_new [where n = 193, simplified] split: list.splits if_splits)


definition same_functions :: "hash_table \<Rightarrow> hash_table \<Rightarrow> bool" where
  "same_functions ht ht' \<longleftrightarrow>
     ht_hash_func ht' = ht_hash_func ht \<and> ht_equal_func ht' = ht_equal_func ht \<and>
     ht_key_free_func ht' = ht_key_free_func ht \<and> ht_value_free_func ht' = ht_value_free_func ht"

text \<open>Enlarging: it allocates one block, and moves all entries if that succeeds.\<close>

lemma hash_table_enlarge_spec:
  assumes hash: "hashing (ht_hash_func ht) (ht_equal_func ht)" and rep: "hash_table_rep m ht as ps"
    and full: "unat (ht_table_size ht) \<le> 3 * length as"
  shows "\<exists>ht' m'. hash_table_enlarge ht m = Some (fst (malloc_block m), ht', m') \<and>
    relinked he_data (set as) (snd (malloc_block m)) m' \<and> hash_table_rep m' ht' as ps \<and>
    (if fst (malloc_block m) then 3 * length as < unat (ht_table_size ht') else ht' = ht) \<and>
    same_functions ht ht'"
proof -
  let ?i = "ht_prime_index ht + 1"
  let ?n = "table_primes ! unat ?i"
  obtain ok m0 where m0: "malloc_block m = (ok, m0)" by (rule prod.exhaust)
  then have h0: "heap m0 = heap m" by (auto simp: malloc_block_def split: list.splits)
  from rep have t: "table_rep he_next he_key (ht_hash_func ht) (ht_equal_func ht) m0 (ht_table_size ht) (ht_table ht) as"
    and s: "sized (ht_prime_index ht) (ht_table_size ht) (length as)" "length as < 2 ^ 28"
    using h0 by (auto simp: hash_table_rep_def intro: table_rep_heap)
  note grow = sized_grow [OF s(1) full s(2)]
  have n0: "?n \<noteq> 0" using sized_nonzero [OF grow(2)] .
  show ?thesis
  proof (cases ok)
    case False
    with m0 rep h0 show ?thesis
      by (auto simp: hash_table_enlarge_def hash_table_allocate_table_def Let_def same_functions_def
          intro: hash_table_rep_heap)
  next
    case True
    from hashing.table_rehash [where dt = he_data and kd = fst and upd = he_link, OF hash _ _ _ t n0]
    obtain tab' m' where r: "rehash he_next he_link (\<lambda>e. ht_hash_func ht (he_key e)) ?n (ht_table ht)
        (replicate (unat ?n) 0) m0 = Some (tab', m')"
      "table_rep he_next he_key (ht_hash_func ht) (ht_equal_func ht) m' ?n tab' as"
      "relinked he_data (set as) m0 m'" by auto
    have "datas he_data (heap m') as = ps"
      using relinked_datas [OF r(3)] rep hash_table_rep_dom [OF rep] h0 by (simp add: hash_table_rep_def)
    with True m0 r grow rep show ?thesis
      by (simp add: hash_table_enlarge_def hash_table_allocate_table_def Let_def hash_table_rep_def
          hash_table_num_primes_eq hash_table_primes_eq same_functions_def)
  qed
qed

text \<open>The entry with a key, and what a search for the key finds.\<close>

definition find_key :: "(val \<Rightarrow> val \<Rightarrow> bool) \<Rightarrow> val \<Rightarrow> (val \<times> 'v) list \<Rightarrow> (val \<times> 'v) option" where
  "find_key eq k ps = List.find (\<lambda>p. eq (fst p) k) ps"

lemma find_key_cases:
  assumes rep: "hash_table_rep m ht as ps"
  obtains (none) "find_key (ht_equal_func ht) k ps = None"
      "\<And>b. b \<in> set as \<Longrightarrow> \<not> ht_equal_func ht (he_key (the (heap m b))) k"
      "List.find (\<lambda>a. ht_equal_func ht (he_key (the (heap m a))) k) as = None"
  | (some) a e where "a \<in> set as" "heap m a = Some e" "a \<noteq> 0" "ht_equal_func ht (he_key e) k"
      "find_key (ht_equal_func ht) k ps = Some (he_data e)"
      "List.find (\<lambda>a. ht_equal_func ht (he_key (the (heap m a))) k) as = Some a"
proof -
  let ?P = "\<lambda>a. ht_equal_func ht (he_key (the (heap m a))) k"
  have ps: "find_key (ht_equal_func ht) k ps = map_option (\<lambda>a. he_data (the (heap m a))) (List.find ?P as)"
    using rep by (auto simp: find_key_def hash_table_rep_def find_datas)
  show ?thesis
  proof (cases "List.find ?P as")
    case None
    then have "\<And>b. b \<in> set as \<Longrightarrow> \<not> ?P b" by (auto simp: find_None_iff)
    with None ps none show ?thesis by simp
  next
    case (Some a)
    then have a: "a \<in> set as" "?P a" by (auto simp: find_Some_iff)
    then obtain e where e: "heap m a = Some e" using hash_table_rep_dom [OF rep] by auto
    have "a \<noteq> 0"
    proof -
      from rep have "table_rep he_next he_key (ht_hash_func ht) (ht_equal_func ht) m (ht_table_size ht) (ht_table ht) as"
        by (simp add: hash_table_rep_def)
      then show ?thesis using a(1) by (metis table_rep_not_null)
    qed
    with a e Some ps some show ?thesis by simp
  qed
qed

lemma hash_table_find:
  assumes hash: "hashing (ht_hash_func ht) (ht_equal_func ht)" and rep: "hash_table_rep m ht as ps"
    and cb: "\<And>a b. cb a b \<longleftrightarrow> ht_equal_func ht a b"
    and i: "i = unat (ht_hash_func ht k mod ht_table_size ht)"
  shows "\<exists>head. tab_get (ht_table ht) i = Some head \<and>
    find_loop he_next he_key cb k head m =
      Some (case List.find (\<lambda>a. ht_equal_func ht (he_key (the (heap m a))) k) as of None \<Rightarrow> 0 | Some a \<Rightarrow> a)"
  by (rule hashing.table_find [OF hash _ i cb]) (use rep in \<open>simp add: hash_table_rep_def\<close>)

lemma hash_table_lookup_spec:
  assumes hash: "hashing (ht_hash_func ht) (ht_equal_func ht)" and rep: "hash_table_rep m ht as ps"
  shows "hash_table_lookup ht k m =
    Some (case find_key (ht_equal_func ht) k ps of None \<Rightarrow> 0 | Some p \<Rightarrow> snd p)"
proof -
  have "ht_equal_func ht b a \<longleftrightarrow> ht_equal_func ht a b" for a b
    using hash by (rule hashing.eq_commute)
  from hash_table_find [OF hash rep this refl, of k] obtain head where
    f: "tab_get (ht_table ht) (unat (ht_hash_func ht k mod ht_table_size ht)) = Some head"
    "find_loop he_next he_key (\<lambda>k d. ht_equal_func ht d k) k head m =
      Some (case List.find (\<lambda>a. ht_equal_func ht (he_key (the (heap m a))) k) as of None \<Rightarrow> 0 | Some a \<Rightarrow> a)" by blast
  show ?thesis
    using rep
  proof (cases rule: find_key_cases [where k = k])
    case none
    with f show ?thesis by (simp add: hash_table_lookup_def hash_table_index_rep [OF rep])
  next
    case (some a e)
    with f show ?thesis by (simp add: hash_table_lookup_def hash_table_index_rep [OF rep] mem_simps)
  qed
qed

text \<open>Putting a pair into the represented map, and taking the pair of a key out of it.\<close>

definition put_pair ::
  "(val \<Rightarrow> val \<Rightarrow> bool) \<Rightarrow> val \<Rightarrow> val \<Rightarrow> (val \<times> val) list \<Rightarrow> (val \<times> val) list"
where
  "put_pair eq k v ps =
     (if find_key eq k ps = None then (k, v) # ps
      else map (\<lambda>p. if eq (fst p) k then (k, v) else p) ps)"

definition drop_key :: "(val \<Rightarrow> val \<Rightarrow> bool) \<Rightarrow> val \<Rightarrow> (val \<times> 'v) list \<Rightarrow> (val \<times> 'v) list" where
  "drop_key eq k ps = filter (\<lambda>p. \<not> eq (fst p) k) ps"

lemma hash_table_overwrite_spec:
  assumes hash: "hashing (ht_hash_func ht) (ht_equal_func ht)" and rep: "hash_table_rep m ht as ps"
    and a: "a \<in> set as" "heap m a = Some e" "ht_equal_func ht (he_key e) k"
      "find_key (ht_equal_func ht) k ps \<noteq> None"
    and m': "m' = m\<lparr>heap := (heap m)(a \<mapsto> e\<lparr>he_pair := \<lparr>hp_key = k, hp_value = v\<rparr>\<rparr>)\<rparr>"
  shows "hash_table_rep m' ht as (put_pair (ht_equal_func ht) k v ps)"
proof -
  let ?e = "e\<lparr>he_pair := \<lparr>hp_key = k, hp_value = v\<rparr>\<rparr>"
  from rep have t: "table_rep he_next he_key (ht_hash_func ht) (ht_equal_func ht) m (ht_table_size ht) (ht_table ht) as"
    and ps: "datas he_data (heap m) as = ps" by (simp_all add: hash_table_rep_def)
  have h': "heap m' = (heap m)(a \<mapsto> ?e)" by (simp add: m')
  have "he_next ?e = he_next e" "ht_equal_func ht (he_key e) (he_key ?e)" using a(3) by simp_all
  from hashing.table_overwrite [OF hash t a(1,2) this h']
  have "table_rep he_next he_key (ht_hash_func ht) (ht_equal_func ht) m' (ht_table_size ht) (ht_table ht) as" .
  moreover have "datas he_data (heap m') as = map (\<lambda>p. if ht_equal_func ht (fst p) k then (k, v) else p) ps"
  proof -
    have "he_data (the (heap m' b)) =
        (if ht_equal_func ht (he_key (the (heap m b))) k then (k, v) else he_data (the (heap m b)))"
      if "b \<in> set as" for b
      using hashing.table_unique [OF hash t a(1), of k b] a(2,3) that by (simp add: h')
    then show ?thesis unfolding ps [symmetric] by (simp add: datas_def)
  qed
  ultimately show ?thesis using rep a(4) by (simp add: hash_table_rep_def put_pair_def)
qed

lemma hash_table_add_spec:
  assumes hash: "hashing (ht_hash_func ht) (ht_equal_func ht)" and rep: "hash_table_rep m ht as ps"
    and absent: "find_key (ht_equal_func ht) k ps = None"
      "\<And>b. b \<in> set as \<Longrightarrow> \<not> ht_equal_func ht (he_key (the (heap m b))) k"
    and room: "3 * length as < unat (ht_table_size ht)" "Suc (length as) < 2 ^ 28"
    and i: "i = unat (ht_hash_func ht k mod ht_table_size ht)"
    and a: "a \<noteq> 0" "heap m a = None"
      "heap m' = (heap m)(a \<mapsto> \<lparr>he_pair = \<lparr>hp_key = k, hp_value = v\<rparr>, he_next = ht_table ht ! i\<rparr>)"
  shows "tab_set (ht_table ht) i a = Some ((ht_table ht)[i := a])"
    "hash_table_rep m' (ht\<lparr>ht_table := (ht_table ht)[i := a], ht_entries := ht_entries ht + 1\<rparr>) (a # as)
       (put_pair (ht_equal_func ht) k v ps)"
proof -
  let ?e = "\<lparr>he_pair = \<lparr>hp_key = k, hp_value = v\<rparr>, he_next = ht_table ht ! i\<rparr>"
  from rep have t: "table_rep he_next he_key (ht_hash_func ht) (ht_equal_func ht) m (ht_table_size ht) (ht_table ht) as"
    by (simp add: hash_table_rep_def)
  have "he_key ?e = k" "he_next ?e = ht_table ht ! i" by simp_all
  note add = hashing.table_add [OF hash t i this a absent(2)]
  from add(2) show "tab_set (ht_table ht) i a = Some ((ht_table ht)[i := a])" by simp
  have "a \<notin> set as" using hash_table_rep_dom [OF rep] a(2) by auto
  with a(3) rep have "datas he_data (heap m') (a # as) = (k, v) # ps" by (simp add: hash_table_rep_def)
  with add(1) rep room absent(1)
  show "hash_table_rep m' (ht\<lparr>ht_table := (ht_table ht)[i := a], ht_entries := ht_entries ht + 1\<rparr>) (a # as)
       (put_pair (ht_equal_func ht) k v ps)"
    by (simp add: hash_table_rep_def put_pair_def sized_Suc)
qed

definition put_calls :: "(val \<Rightarrow> val \<Rightarrow> bool) \<Rightarrow> addr \<Rightarrow> addr \<Rightarrow> val \<Rightarrow> (val \<times> val) list \<Rightarrow> call list" where
  "put_calls eq kf vf k ps =
     (case find_key eq k ps of None \<Rightarrow> [] | Some (k', v') \<Rightarrow> free_call vf v' @ free_call kf k')"

text \<open>
  Putting a pair allocates an entry if the key is new.  In each case the table is as it should
  be afterwards; an allocator that can serve one request more makes it succeed.
\<close>

lemma serves_rewritten:
  assumes "serves h n m A" "answers m' = answers m" "\<And>b. b \<notin> A \<Longrightarrow> heap m' b = heap m b" "A \<subseteq> dom (heap m')"
  shows "serves h n m' A"
  using serves_free [OF assms(1-3), of "{}"] assms(4) by simp

lemma hash_table_put_spec:
  assumes hash: "hashing (ht_hash_func ht) (ht_equal_func ht)" and rep: "hash_table_rep m ht as ps"
    and room: "3 * length as < unat (ht_table_size ht)" "Suc (length as) < 2 ^ 28"
  shows "\<exists>ok calls ht' m' as'. hash_table_put ht k v m = Some (ok, calls, ht', m') \<and> same_functions ht ht' \<and>
    (if ok then calls = put_calls (ht_equal_func ht) (ht_key_free_func ht) (ht_value_free_func ht) k ps \<and>
       hash_table_rep m' ht' as' (put_pair (ht_equal_func ht) k v ps)
     else calls = [] \<and> hash_table_rep m' ht' as' ps) \<and>
    (\<forall>h n. serves h (Suc n) m (set as) \<longrightarrow> ok \<and> serves h n m' (set as'))"
proof -
  define i where i: "i = unat (ht_hash_func ht k mod ht_table_size ht)"
  from hash_table_find [OF hash rep refl i] obtain head where
    f: "tab_get (ht_table ht) i = Some head"
    "find_loop he_next he_key (ht_equal_func ht) k head m =
      Some (case List.find (\<lambda>a. ht_equal_func ht (he_key (the (heap m a))) k) as of None \<Rightarrow> 0 | Some a \<Rightarrow> a)" by blast
  have idx: "hash_table_index ht k = Some i" by (simp add: i hash_table_index_rep [OF rep])
  have head: "head = ht_table ht ! i" using f(1) by (simp add: tab_get_def split: if_splits)
  show ?thesis
    using rep
  proof (cases rule: find_key_cases [where k = k])
    case none
    note nf = f(2) [unfolded none(3), simplified]
    show ?thesis
    proof (cases rule: malloc_cases [of "\<lparr>he_pair = \<lparr>hp_key = k, hp_value = v\<rparr>, he_next = head\<rparr>" m])
      case (fail m')
      then have "hash_table_put ht k v m = Some (False, [], ht, m')" "hash_table_rep m' ht as ps"
        using hash_table_rep_heap [OF rep fail(3)] by (simp_all add: hash_table_put_def idx f(1) nf)
      moreover have "\<not> serves h (Suc n) m (set as)" for h n using fail(2) serves_can_alloc by blast
      ultimately show ?thesis
        by (intro exI [of _ False] exI [of _ "[]"] exI [of _ ht] exI [of _ m'] exI [of _ as])
          (simp add: same_functions_def)
    next
      case (ok a m')
      let ?ht = "ht\<lparr>ht_table := (ht_table ht)[i := a], ht_entries := ht_entries ht + 1\<rparr>"
      note add = hash_table_add_spec [OF hash rep none(1,2) room i ok(4,5) ok(6) [unfolded head]]
      have "hash_table_put ht k v m = Some (True, [], ?ht, m')"
        using ok(1,4) add(1) by (simp add: hash_table_put_def idx f(1) nf)
      moreover have "serves h n m' (set (a # as))" if "serves h (Suc n) m (set as)" for h n
        using serves_alloc [OF that ok(7)] ok(3,6) hash_table_rep_dom [OF add(2)] by simp
      ultimately show ?thesis using add(2)
        by (intro exI [of _ True] exI [of _ "[]"] exI [of _ ?ht] exI [of _ m'] exI [of _ "a # as"])
          (simp add: same_functions_def put_calls_def none(1))
    qed
  next
    case (some a e)
    note nf = f(2) [unfolded some(6), simplified]
    let ?calls = "put_calls (ht_equal_func ht) (ht_key_free_func ht) (ht_value_free_func ht) k ps"
    let ?m = "m\<lparr>heap := (heap m)(a \<mapsto> e\<lparr>he_pair := \<lparr>hp_key = k, hp_value = v\<rparr>\<rparr>)\<rparr>"
    have "hash_table_put ht k v m = Some (True, ?calls, ht, ?m)"
      using some by (simp add: hash_table_put_def idx f(1) nf mem_simps put_calls_def)
    moreover have r: "hash_table_rep ?m ht as (put_pair (ht_equal_func ht) k v ps)"
      by (rule hash_table_overwrite_spec [OF hash rep some(1,2,4) _ refl]) (simp add: some(5))
    moreover have "serves h n ?m (set as)" if "serves h (Suc n) m (set as)" for h n
    proof (rule serves_rewritten)
      show "serves h n m (set as)" using that by (rule serves_le) simp
    qed (use some(1) hash_table_rep_dom [OF r] in auto)
    ultimately show ?thesis
      by (intro exI [of _ True] exI [of _ ?calls] exI [of _ ht] exI [of _ ?m] exI [of _ as])
        (simp add: same_functions_def)
  qed
qed

text \<open>An insertion whatever the allocator answers.\<close>

lemma hash_table_rep_same:
  "hash_table_rep m ht as ps \<Longrightarrow> sized (ht_prime_index ht) (ht_table_size ht) (length ps) \<and> ht_table_size ht \<noteq> 0 \<and>
   ht_entries ht = of_nat (length ps) \<and> length ps < 2 ^ 28"
  using hash_table_rep_length by (auto simp: hash_table_rep_def table_rep_def)

lemma hash_table_insert_spec:
  assumes hash: "hashing (ht_hash_func ht) (ht_equal_func ht)" and rep: "hash_table_rep m ht as ps"
    and room: "Suc (length ps) < 2 ^ 28"
  shows "\<exists>ok calls ht' m' as'. hash_table_insert ht k v m = Some (ok, calls, ht', m') \<and> same_functions ht ht' \<and>
    (if ok then calls = put_calls (ht_equal_func ht) (ht_key_free_func ht) (ht_value_free_func ht) k ps \<and>
       hash_table_rep m' ht' as' (put_pair (ht_equal_func ht) k v ps)
     else calls = [] \<and> hash_table_rep m' ht' as' ps) \<and>
    (\<forall>h n. serves h (Suc (Suc n)) m (set as) \<longrightarrow> ok \<and> serves h n m' (set as'))"
proof -
  note r = hash_table_rep_same [OF rep] hash_table_rep_length [OF rep]
  have full: "(ht_entries ht * 3) div ht_table_size ht > 0 \<longleftrightarrow> unat (ht_table_size ht) \<le> 3 * length as"
    using sized_full r by metis
  show ?thesis
  proof (cases "unat (ht_table_size ht) \<le> 3 * length as")
    case False
    from hash_table_put_spec [OF hash rep, of k v] False room r obtain ok calls ht' m' as' where p:
      "hash_table_put ht k v m = Some (ok, calls, ht', m')" "same_functions ht ht'"
      "if ok then calls = put_calls (ht_equal_func ht) (ht_key_free_func ht) (ht_value_free_func ht) k ps \<and>
         hash_table_rep m' ht' as' (put_pair (ht_equal_func ht) k v ps)
       else calls = [] \<and> hash_table_rep m' ht' as' ps"
      "\<And>h n. serves h (Suc n) m (set as) \<Longrightarrow> ok \<and> serves h n m' (set as')" by auto
    have "hash_table_insert ht k v m = Some (ok, calls, ht', m')"
      using p(1) r False full by (simp add: hash_table_insert_def)
    moreover have "ok \<and> serves h n m' (set as')" if "serves h (Suc (Suc n)) m (set as)" for h n
      using p(4) [of h "Suc n"] that by (auto intro: serves_le)
    ultimately show ?thesis using p(2,3) by blast
  next
    case True
    from hash_table_enlarge_spec [OF hash rep True] obtain ht1 m1 where e:
      "hash_table_enlarge ht m = Some (fst (malloc_block m), ht1, m1)"
      "relinked he_data (set as) (snd (malloc_block m)) m1" "hash_table_rep m1 ht1 as ps"
      "if fst (malloc_block m) then 3 * length as < unat (ht_table_size ht1) else ht1 = ht"
      "same_functions ht ht1" by blast
    have ins: "hash_table_insert ht k v m =
        (if fst (malloc_block m) then hash_table_put ht1 k v m1 else Some (False, [], ht1, m1))"
      using e(1) r True full by (simp add: hash_table_insert_def)
    have srv: "fst (malloc_block m) \<and> serves h n m1 (set as)" if "serves h (Suc n) m (set as)" for h n
      using serves_block [OF that] serves_relinked e(2) by blast
    show ?thesis
    proof (cases "fst (malloc_block m)")
      case False
      with ins e(3,5) srv show ?thesis
        by (intro exI [of _ False] exI [of _ "[]"] exI [of _ ht1] exI [of _ m1] exI [of _ as]) auto
    next
      case ok: True
      have hash1: "hashing (ht_hash_func ht1) (ht_equal_func ht1)" and fs: "ht_equal_func ht1 = ht_equal_func ht"
        "ht_key_free_func ht1 = ht_key_free_func ht" "ht_value_free_func ht1 = ht_value_free_func ht"
        using hash e(5) by (simp_all add: same_functions_def)
      from hash_table_put_spec [OF hash1 e(3), of k v, unfolded fs] ok e(4) room r obtain ok' calls ht' m' as' where p:
        "hash_table_put ht1 k v m1 = Some (ok', calls, ht', m')" "same_functions ht1 ht'"
        "if ok' then calls = put_calls (ht_equal_func ht) (ht_key_free_func ht) (ht_value_free_func ht) k ps \<and>
           hash_table_rep m' ht' as' (put_pair (ht_equal_func ht) k v ps)
         else calls = [] \<and> hash_table_rep m' ht' as' ps"
        "\<And>h n. serves h (Suc n) m1 (set as) \<Longrightarrow> ok' \<and> serves h n m' (set as')"
        by auto
      have "hash_table_insert ht k v m = Some (ok', calls, ht', m')" using ins ok p(1) by simp
      moreover have "same_functions ht ht'" using e(5) p(2) by (simp add: same_functions_def)
      moreover have "ok' \<and> serves h n m' (set as')" if "serves h (Suc (Suc n)) m (set as)" for h n
        using p(4) srv that by blast
      ultimately show ?thesis using p(3) by blast
    qed
  qed
qed

lemma hash_table_remove_none:
  assumes hash: "hashing (ht_hash_func ht) (ht_equal_func ht)" and rep: "hash_table_rep m ht as ps"
    and none: "find_key (ht_equal_func ht) k ps = None"
      "\<And>b. b \<in> set as \<Longrightarrow> \<not> ht_equal_func ht (he_key (the (heap m b))) k"
  shows "hash_table_remove ht k m = Some (False, [], ht, m)"
proof -
  from rep have t: "table_rep he_next he_key (ht_hash_func ht) (ht_equal_func ht) m (ht_table_size ht) (ht_table ht) as"
    by (simp add: hash_table_rep_def)
  have P: "ht_equal_func ht k (he_key e) \<longleftrightarrow> ht_equal_func ht (he_key e) k" for e
    using hash by (rule hashing.eq_commute)
  from hashing.table_unlink_none [where P = "\<lambda>e. ht_equal_func ht k (he_key e)" and upd = he_link,
      OF hash t refl P none(2)]
  show ?thesis by (auto simp: hash_table_remove_def hash_table_index_rep [OF rep])
qed

lemma hash_table_remove_some:
  assumes hash: "hashing (ht_hash_func ht) (ht_equal_func ht)" and rep: "hash_table_rep m ht as ps"
    and some: "a \<in> set as" "heap m a = Some e" "ht_equal_func ht (he_key e) k"
  shows "\<exists>ht' m' as'. hash_table_remove ht k m =
      Some (True, free_call (ht_key_free_func ht) (he_key e) @ free_call (ht_value_free_func ht) (he_value e), ht', m') \<and>
    hash_table_rep m' ht' as' (drop_key (ht_equal_func ht) k ps) \<and> set as' = set as - {a} \<and>
    without he_data {a} as m m' \<and>
    same_functions ht ht'"
proof -
  define i where i: "i = unat (ht_hash_func ht k mod ht_table_size ht)"
  from some(1) obtain us vs where as: "as = us @ a # vs" by (auto simp: in_set_conv_decomp)
  from rep have t: "table_rep he_next he_key (ht_hash_func ht) (ht_equal_func ht) m (ht_table_size ht) (ht_table ht) (us @ a # vs)"
    by (simp add: hash_table_rep_def as)
  have P: "ht_equal_func ht k (he_key e) \<longleftrightarrow> ht_equal_func ht (he_key e) k" for e
    using hash by (rule hashing.eq_commute)
  have ea: "ht_equal_func ht (he_key (the (heap m a))) k" using some(2,3) by simp
  from hashing.table_unlink [where dt = he_data and kd = fst and upd = he_link and
      P = "\<lambda>e. ht_equal_func ht k (he_key e)", OF hash _ _ t i _ P ea] obtain head p' m1 m2 where u:
    "tab_get (ht_table ht) i = Some head"
    "unlink_first he_next he_link (\<lambda>e. ht_equal_func ht k (he_key e)) List_Var head m = Some (a, p', m1)"
    "a \<noteq> 0" "tab_set (ht_table ht) i p' = Some ((ht_table ht)[i := p'])" "heap m1 a = heap m a"
    "free a m1 = Some m2"
    "table_rep he_next he_key (ht_hash_func ht) (ht_equal_func ht) m2 (ht_table_size ht) ((ht_table ht)[i := p']) (us @ vs)"
    "without he_data {a} as m m2" by (auto simp: as)
  let ?ht = "ht\<lparr>ht_table := (ht_table ht)[i := p'], ht_entries := ht_entries ht - 1\<rparr>"
  have "load a m1 = Some e" using u(3,5) some(2) by (simp add: mem_simps)
  with u have r: "hash_table_remove ht k m = Some (True, free_call (ht_key_free_func ht) (he_key e) @
      free_call (ht_value_free_func ht) (he_value e), ?ht, m2)"
    by (simp add: hash_table_remove_def hash_table_index_rep [OF rep] i hash_table_free_entry_def
        hash_table_entry_calls_def)
  have dist: "distinct as" using rep by (rule hash_table_rep_distinct)
  have dom: "set as \<subseteq> dom (heap m)" using rep by (rule hash_table_rep_dom)
  have "ht_equal_func ht (he_key (the (heap m b))) k \<longleftrightarrow> b = a" if "b \<in> set as" for b
    using hashing.table_unique [OF hash t _ ea, of b] that by (simp add: as)
  then have "filter (\<lambda>b. \<not> ht_equal_func ht (fst (he_data (the (heap m b)))) k) as = filter (\<lambda>b. b \<noteq> a) as"
    by (intro filter_cong) simp_all
  also have "filter (\<lambda>b. b \<noteq> a) us = us \<and> filter (\<lambda>b. b \<noteq> a) vs = vs"
    using dist by (auto simp: as filter_id_conv)
  then have "filter (\<lambda>b. b \<noteq> a) as = us @ vs" by (simp add: as)
  finally have rest: "filter (\<lambda>b. \<not> ht_equal_func ht (fst (he_data (the (heap m b)))) k) as = us @ vs" .
  have "datas he_data (heap m2) (us @ vs) = datas he_data (heap m) (us @ vs)"
    by (rule without_datas [OF u(8)]) (use dist dom in \<open>auto simp: as\<close>)
  also have "\<dots> = drop_key (ht_equal_func ht) k ps"
    using rep datas_filter [of he_data "heap m" "\<lambda>p. \<not> ht_equal_func ht (fst p) k" as]
    unfolding rest by (simp add: drop_key_def hash_table_rep_def)
  finally have ps: "datas he_data (heap m2) (us @ vs) = drop_key (ht_equal_func ht) k ps" .
  have "hash_table_rep m2 ?ht (us @ vs) (drop_key (ht_equal_func ht) k ps)"
    using rep u(7) ps of_nat_pred [of "length as"] by (auto simp: hash_table_rep_def as elim: sized_le)
  moreover have "set (us @ vs) = set as - {a}" using dist by (auto simp: as)
  ultimately show ?thesis using r u(8)
    by (intro exI [of _ ?ht] exI [of _ m2] exI [of _ "us @ vs"]) (simp add: same_functions_def)
qed

section \<open>The hash table implements a map\<close>

datatype hash_table_op = HT_Insert val val | HT_Lookup val | HT_Remove val | HT_Num_Entries

text \<open>One call, with its result as a number and the calls of free functions it makes.\<close>

fun hash_table_step ::
  "hash_table_op \<Rightarrow> hash_table \<times> hmem \<Rightarrow> ((val \<times> call list) \<times> hash_table \<times> hmem) option"
where
  "hash_table_step (HT_Insert k v) (ht, m) = do {
     (ok, calls, ht, m) \<leftarrow> hash_table_insert ht k v m;
     Some ((of_bool ok, calls), ht, m)
   }"
| "hash_table_step (HT_Lookup k) (ht, m) = do { v \<leftarrow> hash_table_lookup ht k m; Some ((v, []), ht, m) }"
| "hash_table_step (HT_Remove k) (ht, m) = do {
     (ok, calls, ht, m) \<leftarrow> hash_table_remove ht k m;
     Some ((of_bool ok, calls), ht, m)
   }"
| "hash_table_step HT_Num_Entries (ht, m) = Some ((unat (hash_table_num_entries ht), []), ht, m)"

text \<open>
  The abstract data type: the pairs of a map, no two of them with equal keys, with the addresses
  \<open>kf\<close> and \<open>vf\<close> of the free functions.
\<close>

fun map_spec ::
  "(val \<Rightarrow> val \<Rightarrow> bool) \<Rightarrow> addr \<Rightarrow> addr \<Rightarrow> hash_table_op \<Rightarrow> (val \<times> val) list \<Rightarrow>
   (val \<times> call list) \<times> (val \<times> val) list"
where
  "map_spec eq kf vf (HT_Insert k v) ps = ((1, put_calls eq kf vf k ps), put_pair eq k v ps)"
| "map_spec eq kf vf (HT_Lookup k) ps =
     ((case find_key eq k ps of None \<Rightarrow> 0 | Some p \<Rightarrow> snd p, []), ps)"
| "map_spec eq kf vf (HT_Remove k) ps =
     (case find_key eq k ps of
        None \<Rightarrow> ((0, []), ps)
      | Some (k', v') \<Rightarrow> ((1, free_call kf k' @ free_call vf v'), drop_key eq k ps))"
| "map_spec eq kf vf HT_Num_Entries ps = ((length ps, []), ps)"

definition hash_table_in ::
  "(val \<Rightarrow> c_uint) \<Rightarrow> (val \<Rightarrow> val \<Rightarrow> bool) \<Rightarrow> addr \<Rightarrow> addr \<Rightarrow> (addr \<rightharpoonup> hash_table_entry) \<Rightarrow> nat \<Rightarrow>
   hash_table \<times> hmem \<Rightarrow> (val \<times> val) list \<Rightarrow> bool"
where
  "hash_table_in hash eq kf vf h n s ps \<longleftrightarrow> hashing hash eq \<and>
     ht_hash_func (fst s) = hash \<and> ht_equal_func (fst s) = eq \<and>
     ht_key_free_func (fst s) = kf \<and> ht_value_free_func (fst s) = vf \<and> length ps + n < 2 ^ 28 \<and>
     (\<exists>as. hash_table_rep (snd s) (fst s) as ps \<and> serves h (2 * n) (snd s) (set as))"

lemma hash_table_inE:
  assumes "hash_table_in hash eq kf vf h n (ht, m) ps"
  obtains as where "hashing (ht_hash_func ht) (ht_equal_func ht)" "hash_table_rep m ht as ps"
    "serves h (2 * n) m (set as)" "ht_hash_func ht = hash" "ht_equal_func ht = eq"
    "ht_key_free_func ht = kf" "ht_value_free_func ht = vf" "length ps + n < 2 ^ 28"
  using assms by (auto simp: hash_table_in_def)

lemma hash_table_inI:
  assumes "hash_table_in hash eq kf vf h n' (ht, m) ps'" "same_functions ht ht'" "hash_table_rep m' ht' as ps"
    "serves h (2 * n) m' (set as)" "length ps + n < 2 ^ 28"
  shows "hash_table_in hash eq kf vf h n (ht', m') ps"
  using assms by (auto simp: hash_table_in_def same_functions_def)

lemma hash_table_in_le: "hash_table_in hash eq kf vf h n s ps \<Longrightarrow> k \<le> n \<Longrightarrow> hash_table_in hash eq kf vf h k s ps"
proof -
  assume "k \<le> n"
  then have "serves h (2 * n) m A \<Longrightarrow> serves h (2 * k) m A" for m :: hmem and A by (elim serves_le) simp
  then show "hash_table_in hash eq kf vf h n s ps \<Longrightarrow> ?thesis"
    using \<open>k \<le> n\<close> by (auto simp: hash_table_in_def)
qed

lemma length_put_pair: "length (put_pair eq k v ps) \<le> Suc (length ps)"
  by (simp add: put_pair_def)

lemma length_drop_key: "length (drop_key eq k ps) \<le> length ps"
  by (simp add: drop_key_def)

lemma hash_table_insert_in:
  assumes "hash_table_in hash eq kf vf h (Suc n) (ht, m) ps"
  shows "\<exists>ht' m'. hash_table_insert ht k v m = Some (True, put_calls eq kf vf k ps, ht', m') \<and>
    hash_table_in hash eq kf vf h n (ht', m') (put_pair eq k v ps)"
  using assms
proof (rule hash_table_inE)
  fix as assume hash: "hashing (ht_hash_func ht) (ht_equal_func ht)" and rep: "hash_table_rep m ht as ps"
    and srv: "serves h (2 * Suc n) m (set as)" and fs: "ht_equal_func ht = eq"
    "ht_key_free_func ht = kf" "ht_value_free_func ht = vf" and len: "length ps + Suc n < 2 ^ 28"
  have "serves h (Suc (Suc (2 * n))) m (set as)" using srv by simp
  with hash_table_insert_spec [OF hash rep, of k v] len obtain ht' m' as' where p:
    "hash_table_insert ht k v m = Some (True, put_calls eq kf vf k ps, ht', m')" "same_functions ht ht'"
    "hash_table_rep m' ht' as' (put_pair eq k v ps)" "serves h (2 * n) m' (set as')"
    unfolding fs by fastforce
  moreover have "length (put_pair eq k v ps) + n < 2 ^ 28" using len length_put_pair [of eq k v ps] by linarith
  ultimately show ?thesis using hash_table_inI [OF assms p(2,3,4)] by blast
qed

lemma hash_table_remove_in:
  assumes "hash_table_in hash eq kf vf h n (ht, m) ps"
  shows "\<exists>s. hash_table_step (HT_Remove k) (ht, m) = Some (fst (map_spec eq kf vf (HT_Remove k) ps), s) \<and>
    hash_table_in hash eq kf vf h n s (snd (map_spec eq kf vf (HT_Remove k) ps))"
  using assms
proof (rule hash_table_inE)
  fix as assume hash: "hashing (ht_hash_func ht) (ht_equal_func ht)" and rep: "hash_table_rep m ht as ps"
    and srv: "serves h (2 * n) m (set as)" and fs: "ht_equal_func ht = eq"
    "ht_key_free_func ht = kf" "ht_value_free_func ht = vf" and len: "length ps + n < 2 ^ 28"
  from rep show ?thesis
  proof (cases rule: find_key_cases [where k = k])
    case none
    with hash_table_remove_none [OF hash rep none(1,2)] assms fs show ?thesis by simp
  next
    case (some a e)
    from hash_table_remove_some [OF hash rep some(1,2,4)] obtain ht' m' as' where r:
      "hash_table_remove ht k m = Some (True, free_call kf (he_key e) @ free_call vf (he_value e), ht', m')"
      "hash_table_rep m' ht' as' (drop_key eq k ps)" "set as' = set as - {a}"
      "without he_data {a} as m m'" "same_functions ht ht'" unfolding fs by blast
    have "serves h (2 * n) m' (set as')"
      using serves_without [OF srv r(4)] hash_table_rep_dom [OF r(2)] r(3) by simp
    moreover have "length (drop_key eq k ps) + n < 2 ^ 28" using len length_drop_key [of eq k ps] by linarith
    ultimately have "hash_table_in hash eq kf vf h n (ht', m') (drop_key eq k ps)"
      using hash_table_inI [OF assms r(5,2)] by blast
    with r(1) some(5) fs show ?thesis by simp
  qed
qed

lemma hash_table_step_refines:
  assumes "hash_table_in hash eq kf vf h (Suc n) s ps"
  shows "\<exists>s'. hash_table_step op s = Some (fst (map_spec eq kf vf op ps), s') \<and>
    hash_table_in hash eq kf vf h n s' (snd (map_spec eq kf vf op ps))"
proof -
  obtain ht m where s: "s = (ht, m)" by (cases s)
  have le: "hash_table_in hash eq kf vf h n (ht, m) ps" using assms s by (auto intro: hash_table_in_le)
  then obtain as where a: "hashing (ht_hash_func ht) (ht_equal_func ht)" "hash_table_rep m ht as ps"
    "ht_equal_func ht = eq" by (rule hash_table_inE)
  show ?thesis
  proof (cases op)
    case (HT_Insert k v)
    with hash_table_insert_in [of hash eq kf vf h n ht m ps k v] assms s show ?thesis by auto
  next
    case (HT_Lookup k)
    with hash_table_lookup_spec [OF a(1,2), of k] le s a(3) show ?thesis by simp
  next
    case (HT_Remove k)
    with hash_table_remove_in [OF le, of k] s show ?thesis by simp
  next
    case HT_Num_Entries
    with hash_table_rep_same [OF a(2)] le s show ?thesis
      by (simp add: hash_table_num_entries_def unat_of_bounded)
  qed
qed

interpretation hash_table_adt: adt_refinement hash_table_step "map_spec eq kf vf" "hash_table_in hash eq kf vf h"
  for hash eq kf vf h
  by unfold_locales (rule hash_table_step_refines)

lemma hash_table_new_in:
  assumes hash: "hashing hash eq" and am: "ample (2 + 2 * n) m" and n: "n < 2 ^ 28"
  obtains ht m' where "hash_table_new hash eq m = (Some ht, m')"
    "hash_table_in hash eq kf vf (heap m) n (hash_table_register_free_functions ht kf vf, m') []"
proof -
  from am obtain a b as where ans: "answers m = a # b # as" "a \<noteq> 0" "b \<noteq> 0"
    by (cases "answers m" rule: remdups_adj.cases) (auto simp: ample_def)
  obtain r m' where new: "hash_table_new hash eq m = (r, m')" by (rule prod.exhaust)
  with ans have m': "m' = m\<lparr>answers := as\<rparr>" and "r \<noteq> None"
    by (auto simp: hash_table_new_def hash_table_allocate_table_def malloc_block_def Let_def)
  then obtain ht where ht: "r = Some ht" by auto
  have "serves (heap m) (2 * n) m' {}" using am ans m' by (auto simp: serves_def ample_def)
  with hash_table_new_spec [OF new] ht hash n
  have "hash_table_in hash eq kf vf (heap m) n (hash_table_register_free_functions ht kf vf, m') []"
    by (auto simp: hash_table_in_def hash_table_register_free_functions_def hash_table_rep_def intro!: exI [of _ "[]"])
  with new ht that show ?thesis by blast
qed

lemma hash_table_run_in:
  assumes "hashing hash eq" "ample (2 + 2 * length ops) m" "length ops < 2 ^ 28"
    "hash_table_new hash eq m = (Some ht, m')"
  shows "\<exists>ht' m''. run hash_table_step ops (hash_table_register_free_functions ht kf vf, m') =
      Some (fst (spec_run (map_spec eq kf vf) ops []), ht', m'') \<and>
    hash_table_in hash eq kf vf (heap m) 0 (ht', m'') (snd (spec_run (map_spec eq kf vf) ops []))"
proof -
  from hash_table_new_in [OF assms(1-3)] assms(4)
  have "hash_table_in hash eq kf vf (heap m) (length ops) (hash_table_register_free_functions ht kf vf, m') []"
    by (metis option.inject prod.inject)
  with hash_table_adt.run_refines [of hash eq kf vf "heap m" ops 0
      "(hash_table_register_free_functions ht kf vf, m')" "[]"]
  show ?thesis by (simp add: split_paired_Ex)
qed

text \<open>The loop of a caller that reads all pairs with the iterator.\<close>

partial_function (option) hash_table_iter_all ::
  "hash_table \<Rightarrow> chain_iter \<Rightarrow> hmem \<Rightarrow> hash_table_pair list option"
where
  "hash_table_iter_all ht iterator m =
     (if hash_table_iter_has_more iterator then do {
        (pair, iterator) \<leftarrow> hash_table_iter_next ht iterator m;
        pairs \<leftarrow> hash_table_iter_all ht iterator m;
        Some (pair # pairs)
      }
      else Some [])"

lemma hash_table_iter_all_spec:
  assumes b: "buckets he_next hf m n (ht_table ht) bs"
  shows "iter_rest he_next m bs it rest \<Longrightarrow>
    hash_table_iter_all ht it m = Some (map (\<lambda>a. he_pair (the (heap m a))) rest)"
proof (induction rest arbitrary: it)
  case Nil
  then have "ci_entry it = 0" using iter_rest_entry by blast
  then show ?case by (subst hash_table_iter_all.simps) (simp add: hash_table_iter_has_more_def)
next
  case (Cons a rest)
  from Cons.prems obtain e where e: "ci_entry it = a" "a \<noteq> 0" "heap m a = Some e" by (rule iter_rest_Cons)
  from Cons.IH [OF iter_rest_advance [OF b Cons.prems e(3)]] e show ?case
    by (subst hash_table_iter_all.simps)
      (simp add: hash_table_iter_has_more_def hash_table_iter_next_def mem_simps)
qed

lemma hash_table_iterate_spec:
  assumes "hash_table_rep m ht as ps"
  shows "\<exists>qs. hash_table_iter_all ht (hash_table_iterate ht it) m = Some qs \<and>
    mset (map (\<lambda>q. (hp_key q, hp_value q)) qs) = mset ps"
proof -
  from assms have t: "table_rep he_next he_key (ht_hash_func ht) (ht_equal_func ht) m (ht_table_size ht) (ht_table ht) as"
    and ps: "datas he_data (heap m) as = ps" by (simp_all add: hash_table_rep_def)
  from t show ?thesis
  proof (rule table_repE)
    fix bs assume b: "buckets he_next (\<lambda>e. ht_hash_func ht (he_key e)) m (ht_table_size ht) (ht_table ht) bs"
      and perm: "mset (concat bs) = mset as"
    obtain p c where nc: "next_chain (ht_table ht) 0 = (p, c)" by (rule prod.exhaust)
    have "iter_rest he_next m bs (hash_table_iterate ht it) (concat bs)"
      by (rule iter_rest_first [OF b, of _ c]) (auto simp: hash_table_iterate_def nc)
    note all = hash_table_iter_all_spec [OF b this]
    have "mset (map (\<lambda>q. (hp_key q, hp_value q)) (map (\<lambda>a. he_pair (the (heap m a))) (concat bs))) =
        image_mset (\<lambda>a. he_data (the (heap m a))) (mset (concat bs))"
      by (simp add: multiset.map_comp comp_def del: mset_concat)
    also have "\<dots> = mset ps" unfolding perm by (simp add: datas_def flip: ps)
    finally show ?thesis using all by blast
  qed
qed

section \<open>Properties\<close>





text \<open>Reading a hash table with the iterator gives every pair of the map exactly once; what the
  iterator held before does not matter.\<close>

theorem hash_table_iterates:
  assumes "hashing hash eq" "ample (2 + 2 * length ops) m" "length ops < 2 ^ 28"
    "hash_table_new hash eq m = (Some ht, m')"
    "run hash_table_step ops (hash_table_register_free_functions ht kf vf, m') = Some (rs, ht', m'')"
  shows "\<exists>qs. hash_table_iter_all ht' (hash_table_iterate ht' it) m'' = Some qs \<and>
    mset (map (\<lambda>q. (hp_key q, hp_value q)) qs) = mset (snd (spec_run (map_spec eq kf vf) ops []))"
proof -
  from hash_table_run_in [OF assms(1-4), of kf vf] assms(5)
  have "hash_table_in hash eq kf vf (heap m) 0 (ht', m'') (snd (spec_run (map_spec eq kf vf) ops []))" by auto
  then show ?thesis by (rule hash_table_inE) (rule hash_table_iterate_spec)
qed

theorem hash_table_iterates_witness:
  "\<exists>ht m' s qs. hash_table_new pointer_hash pointer_equal \<lparr>heap = Map.empty, answers = [8 ..< 30]\<rparr> = (Some ht, m') \<and>
    run hash_table_step [HT_Insert 5 10, HT_Insert 198 20]
      (hash_table_register_free_functions ht 0 0, m') = Some ([(1, []), (1, [])], s) \<and>
    hash_table_iter_all (fst s) (hash_table_iterate (fst s) \<lparr>ci_entry = 77, ci_chain = 78\<rparr>) (snd s) = Some qs \<and>
    mset (map (\<lambda>q. (hp_key q, hp_value q)) qs) = {#(5, 10), (198, 20)#}"
proof -
  let ?ops = "[HT_Insert 5 10, HT_Insert 198 20]"
  let ?m = "\<lparr>heap = Map.empty, answers = [8 ..< 30]\<rparr> :: hmem"
  note hash = pointer_hashing.hashing_axioms
  have spec: "spec_run (map_spec pointer_equal 0 0) ?ops [] = ([(1, []), (1, [])], [(198, 20), (5, 10)])"
    by code_simp
  have am: "ample (2 + 2 * length ?ops) ?m" by (simp add: ample_def upt_rec)
  have len: "length ?ops < 2 ^ 28" by simp
  obtain ht m' where new: "hash_table_new pointer_hash pointer_equal ?m = (Some ht, m')"
    using hash_table_new_in [OF hash am len] .
  from hash_table_run_in [OF hash am len new, of 0 0] obtain ht' m'' where run:
    "run hash_table_step ?ops (hash_table_register_free_functions ht 0 0, m') =
      Some ([(1, []), (1, [])], ht', m'')" unfolding spec by auto
  from hash_table_iterates [OF hash am len new run, of "\<lparr>ci_entry = 77, ci_chain = 78\<rparr>"] new run show ?thesis
    unfolding spec snd_conv by (fastforce simp: add_mset_commute)
qed

text \<open>the size of the table is always one of the primes and the table is at most a third full,
  up to one entry: the sizes do not run out and no index is taken modulo 0.\<close>

theorem hash_table_load_bound:
  assumes "hashing hash eq" "ample (2 + 2 * length ops) m" "length ops < 2 ^ 28"
    "hash_table_new hash eq m = (Some ht, m')"
    "run hash_table_step ops (hash_table_register_free_functions ht kf vf, m') = Some (rs, ht', m'')"
  shows "ht_table_size ht' \<in> set hash_table_primes \<and> length (ht_table ht') = unat (ht_table_size ht') \<and>
    3 * unat (ht_entries ht') < unat (ht_table_size ht') + 3"
proof -
  from hash_table_run_in [OF assms(1-4), of kf vf] assms(5)
  have "hash_table_in hash eq kf vf (heap m) 0 (ht', m'') (snd (spec_run (map_spec eq kf vf) ops []))" by auto
  then obtain as ps where rep: "hash_table_rep m'' ht' as ps" by (rule hash_table_inE)
  then have "length (ht_table ht') = unat (ht_table_size ht')"
    by (auto simp: hash_table_rep_def table_rep_def buckets_def)
  moreover from hash_table_rep_same [OF rep]
  have "sized (ht_prime_index ht') (ht_table_size ht') (unat (ht_entries ht'))" by (simp add: unat_of_bounded)
  then have "ht_table_size ht' \<in> set table_primes" "3 * unat (ht_entries ht') < unat (ht_table_size ht') + 3"
    by (rule sized_in_primes, rule sized_load)
  ultimately show ?thesis by (simp add: hash_table_primes_eq)
qed

theorem hash_table_load_bound_witness:
  "\<exists>ht m' ht' m''. hash_table_new pointer_hash pointer_equal \<lparr>heap = Map.empty, answers = [8 ..< 30]\<rparr> = (Some ht, m') \<and>
    run hash_table_step [HT_Insert 5 10, HT_Insert 198 20]
      (hash_table_register_free_functions ht 0 0, m') = Some ([(1, []), (1, [])], ht', m'') \<and>
    ht_table_size ht' \<in> set hash_table_primes \<and> 3 * unat (ht_entries ht') < unat (ht_table_size ht') + 3"
proof -
  let ?ops = "[HT_Insert 5 10, HT_Insert 198 20]"
  let ?m = "\<lparr>heap = Map.empty, answers = [8 ..< 30]\<rparr> :: hmem"
  note hash = pointer_hashing.hashing_axioms
  have spec: "spec_run (map_spec pointer_equal 0 0) ?ops [] = ([(1, []), (1, [])], [(198, 20), (5, 10)])"
    by code_simp
  have am: "ample (2 + 2 * length ?ops) ?m" by (simp add: ample_def upt_rec)
  have len: "length ?ops < 2 ^ 28" by simp
  obtain ht m' where new: "hash_table_new pointer_hash pointer_equal ?m = (Some ht, m')"
    using hash_table_new_in [OF hash am len] .
  from hash_table_run_in [OF hash am len new, of 0 0] obtain ht' m'' where run:
    "run hash_table_step ?ops (hash_table_register_free_functions ht 0 0, m') =
      Some ([(1, []), (1, [])], ht', m'')" unfolding spec by auto
  from hash_table_load_bound [OF hash am len new run] new run show ?thesis by blast
qed

text \<open>whatever the allocator answers, an insertion returns; if it reports failure, the table
  still represents the same map, even when it had been enlarged before.\<close>

theorem hash_table_insert_total:
  assumes "hashing (ht_hash_func ht) (ht_equal_func ht)" "hash_table_rep m ht as ps" "Suc (length ps) < 2 ^ 28"
  shows "\<exists>ok calls ht' m' as'. hash_table_insert ht k v m = Some (ok, calls, ht', m') \<and>
    hash_table_rep m' ht' as' (if ok then put_pair (ht_equal_func ht) k v ps else ps) \<and>
    (\<not> ok \<longrightarrow> calls = [])"
proof -
  from hash_table_insert_spec [OF assms, of k v] obtain ok calls ht' m' as' where r:
    "hash_table_insert ht k v m = Some (ok, calls, ht', m')"
    "if ok then calls = put_calls (ht_equal_func ht) (ht_key_free_func ht) (ht_value_free_func ht) k ps \<and>
       hash_table_rep m' ht' as' (put_pair (ht_equal_func ht) k v ps)
     else calls = [] \<and> hash_table_rep m' ht' as' ps" by blast
  then have "hash_table_rep m' ht' as' (if ok then put_pair (ht_equal_func ht) k v ps else ps) \<and>
    (\<not> ok \<longrightarrow> calls = [])" by (cases ok) simp_all
  with r(1) show ?thesis by blast
qed

theorem hash_table_insert_total_witness:
  "\<exists>ht m' calls ht' m'' as'. hash_table_new pointer_hash pointer_equal \<lparr>heap = Map.empty, answers = [1, 2]\<rparr> = (Some ht, m') \<and>
    hash_table_insert ht 5 10 m' = Some (False, calls, ht', m'') \<and> hash_table_rep m'' ht' as' []"
proof -
  obtain r m' where new: "hash_table_new pointer_hash pointer_equal (\<lparr>heap = Map.empty, answers = [1, 2]\<rparr> :: hmem) = (r, m')"
    by (rule prod.exhaust)
  then obtain ht where ht: "r = Some ht" "m' = \<lparr>heap = Map.empty, answers = []\<rparr>" "ht_table ht = replicate 193 0"
    "ht_table_size ht = 193" "ht_entries ht = 0"
    by (auto simp: hash_table_new_def hash_table_allocate_table_def malloc_block_def Let_def
        hash_table_num_primes_eq hash_table_primes_eq table_primes_def)
  from hash_table_new_spec [OF new] ht(1) have rep: "hash_table_rep m' ht [] []"
    and fs: "ht_hash_func ht = pointer_hash" "ht_equal_func ht = pointer_equal" by auto
  have "hashing (ht_hash_func ht) (ht_equal_func ht)" unfolding fs by (rule pointer_hashing.hashing_axioms)
  from hash_table_insert_total [OF this rep, of 5 10] obtain ok calls ht' m'' as' where r:
    "hash_table_insert ht 5 10 m' = Some (ok, calls, ht', m'')"
    "hash_table_rep m'' ht' as' (if ok then put_pair (ht_equal_func ht) 5 10 [] else [])" by auto
  have "\<not> ok" using r(1) ht
    by (auto simp: hash_table_insert_def hash_table_put_def hash_table_index_def tab_get_def malloc_def
        word_less_nat_alt find_loop.simps unat_mod split: if_splits)
  with r new ht(1) show ?thesis by auto
qed

end
