(* ===== verification/HashSet.thy ===== *)
theory HashSet
  imports Buckets Arrays
begin

text \<open>
  The set of \<open>libcalg/src/set.c\<close>, every function of the file: a chained hash table of values, with
  union and intersection built from iteration, queries and insertions.  The loops over the
  chains are those of \<open>Buckets\<close>; a registered free function is its address, and each operation
  returns the list of the calls of it.
\<close>

section \<open>The code\<close>

record set_entry =
  se_data :: val
  se_next :: addr

record hset =
  st_table :: "addr list"
  st_entries :: c_uint
  st_table_size :: c_uint
  st_prime_index :: c_uint
  st_hash_func :: "val \<Rightarrow> c_uint"
  st_equal_func :: "val \<Rightarrow> val \<Rightarrow> bool"
  st_free_func :: addr

type_synonym smem = "set_entry mem"

abbreviation se_link :: "addr \<Rightarrow> set_entry \<Rightarrow> set_entry" where
  "se_link p e \<equiv> e\<lparr>se_next := p\<rparr>"

definition set_primes :: "c_uint list" where
  "set_primes =
     [193, 389, 769, 1543, 3079, 6151, 12289, 24593, 49157, 98317,
      196613, 393241, 786433, 1572869, 3145739, 6291469,
      12582917, 25165843, 50331653, 100663319, 201326611,
      402653189, 805306457, 1610612741]"

definition set_num_primes :: c_uint where
  "set_num_primes = of_nat (length set_primes)"

definition set_allocate_table :: "hset \<Rightarrow> smem \<Rightarrow> bool \<times> hset \<times> smem" where
  "set_allocate_table st m =
     (let st = st\<lparr>st_table_size := if st_prime_index st < set_num_primes
                    then set_primes ! unat (st_prime_index st) else st_entries st * 10\<rparr>;
          (ok, m) = malloc_block m
      in (ok, st\<lparr>st_table := if ok then replicate (unat (st_table_size st)) 0 else []\<rparr>, m))"

definition set_entry_calls :: "hset \<Rightarrow> set_entry \<Rightarrow> call list" where
  "set_entry_calls st e = (if st_free_func st \<noteq> 0 then [(st_free_func st, se_data e)] else [])"

definition set_free_entry :: "hset \<Rightarrow> addr \<Rightarrow> smem \<Rightarrow> (call list \<times> smem) option" where
  "set_free_entry st entry m = do {
     e \<leftarrow> load entry m;
     m \<leftarrow> free entry m;
     Some (set_entry_calls st e, m)
   }"

definition set_new ::
  "(val \<Rightarrow> c_uint) \<Rightarrow> (val \<Rightarrow> val \<Rightarrow> bool) \<Rightarrow> smem \<Rightarrow> hset option \<times> smem"
where
  "set_new hash_func equal_func m =
     (let (ok, m) = malloc_block m
      in if \<not> ok then (None, m)
         else let (ok, st, m) = set_allocate_table
                \<lparr>st_table = [], st_entries = 0, st_table_size = 0, st_prime_index = 0,
                 st_hash_func = hash_func, st_equal_func = equal_func, st_free_func = 0\<rparr> m
              in (if ok then Some st else None, m))"

definition set_free :: "hset \<Rightarrow> smem \<Rightarrow> (call list \<times> smem) option" where
  "set_free st m = free_table se_next (set_entry_calls st) (st_table st) [] m"

definition set_register_free_function :: "hset \<Rightarrow> addr \<Rightarrow> hset" where
  "set_register_free_function st free_func = st\<lparr>st_free_func := free_func\<rparr>"

definition set_enlarge :: "hset \<Rightarrow> smem \<Rightarrow> (bool \<times> hset \<times> smem) option" where
  "set_enlarge st m =
     (let old_table = st_table st; old_table_size = st_table_size st;
          old_prime_index = st_prime_index st;
          (ok, st, m) = set_allocate_table (st\<lparr>st_prime_index := st_prime_index st + 1\<rparr>) m
      in if \<not> ok then
           Some (False, st\<lparr>st_table := old_table, st_table_size := old_table_size,
                          st_prime_index := old_prime_index\<rparr>, m)
         else do {
           (tab, m) \<leftarrow> rehash se_next se_link (\<lambda>e. st_hash_func st (se_data e)) (st_table_size st)
             old_table (st_table st) m;
           Some (True, st\<lparr>st_table := tab\<rparr>, m)
         })"

text \<open>The index of a value; a division by zero is undefined.\<close>

definition set_index :: "hset \<Rightarrow> val \<Rightarrow> nat option" where
  "set_index st data =
     (if st_table_size st = 0 then None else Some (unat (st_hash_func st data mod st_table_size st)))"

text \<open>The part of \<open>set_insert\<close> after the table has been enlarged.\<close>

definition set_put :: "hset \<Rightarrow> val \<Rightarrow> smem \<Rightarrow> (bool \<times> hset \<times> smem) option" where
  "set_put st data m = do {
     index \<leftarrow> set_index st data;
     head \<leftarrow> tab_get (st_table st) index;
     rover \<leftarrow> find_loop se_next se_data (\<lambda>x d. st_equal_func st d x) data head m;
     if rover \<noteq> 0 then Some (False, st, m)
     else (let (newentry, m) = malloc \<lparr>se_data = data, se_next = head\<rparr> m
       in if newentry = 0 then Some (False, st, m)
          else do {
            tab \<leftarrow> tab_set (st_table st) index newentry;
            Some (True, st\<lparr>st_table := tab, st_entries := st_entries st + 1\<rparr>, m)
          })
   }"

definition set_insert :: "hset \<Rightarrow> val \<Rightarrow> smem \<Rightarrow> (bool \<times> hset \<times> smem) option" where
  "set_insert st data m =
     (if st_table_size st = 0 then None
      else do {
        (ok, st, m) \<leftarrow>
          (if (st_entries st * 3) div st_table_size st > 0 then set_enlarge st m
           else Some (True, st, m));
        if \<not> ok then Some (False, st, m) else set_put st data m
      })"

definition set_remove :: "hset \<Rightarrow> val \<Rightarrow> smem \<Rightarrow> (bool \<times> call list \<times> hset \<times> smem) option" where
  "set_remove st data m = do {
     index \<leftarrow> set_index st data;
     head \<leftarrow> tab_get (st_table st) index;
     (entry, head, m) \<leftarrow> unlink_first se_next se_link (\<lambda>e. st_equal_func st data (se_data e)) List_Var head m;
     if entry = 0 then Some (False, [], st, m)
     else do {
       tab \<leftarrow> tab_set (st_table st) index head;
       let st = st\<lparr>st_table := tab, st_entries := st_entries st - 1\<rparr>;
       (calls, m) \<leftarrow> set_free_entry st entry m;
       Some (True, calls, st, m)
     }
   }"

definition set_query :: "hset \<Rightarrow> val \<Rightarrow> smem \<Rightarrow> bool option" where
  "set_query st data m = do {
     index \<leftarrow> set_index st data;
     head \<leftarrow> tab_get (st_table st) index;
     rover \<leftarrow> find_loop se_next se_data (\<lambda>x d. st_equal_func st d x) data head m;
     Some (rover \<noteq> 0)
   }"

definition set_num_entries :: "hset \<Rightarrow> c_uint" where
  "set_num_entries st = st_entries st"

text \<open>The two loops of \<open>set_to_array\<close>, over a chain and over the chains of the table.\<close>

partial_function (option) set_copy_chain ::
  "addr \<Rightarrow> nat \<Rightarrow> val cells \<Rightarrow> smem \<Rightarrow> (nat \<times> val cells) option"
where
  "set_copy_chain rover array_counter array m =
     (if rover = 0 then Some (array_counter, array)
      else do {
        e \<leftarrow> load rover m;
        array \<leftarrow> array_set array array_counter (se_data e);
        set_copy_chain (se_next e) (array_counter + 1) array m
      })"

primrec set_copy_table ::
  "addr list \<Rightarrow> nat \<Rightarrow> val cells \<Rightarrow> smem \<Rightarrow> (nat \<times> val cells) option"
where
  "set_copy_table [] array_counter array m = Some (array_counter, array)"
| "set_copy_table (rover # tab) array_counter array m = do {
     (array_counter, array) \<leftarrow> set_copy_chain rover array_counter array m;
     set_copy_table tab array_counter array m
   }"

definition set_to_array :: "hset \<Rightarrow> smem \<Rightarrow> (val cells option \<times> smem) option" where
  "set_to_array st m =
     (let (ok, m) = malloc_block m
      in if \<not> ok then Some (None, m)
         else do {
           (_, array) \<leftarrow> set_copy_table (st_table st) 0 (array_new (unat (st_entries st))) m;
           Some (Some array, m)
         })"

definition set_iterate :: "hset \<Rightarrow> chain_iter" where
  "set_iterate st = (let (p, chain) = next_chain (st_table st) 0 in \<lparr>ci_entry = p, ci_chain = chain\<rparr>)"

definition set_iter_has_more :: "chain_iter \<Rightarrow> bool" where
  "set_iter_has_more iterator \<longleftrightarrow> ci_entry iterator \<noteq> 0"

definition set_iter_next :: "hset \<Rightarrow> chain_iter \<Rightarrow> smem \<Rightarrow> (val \<times> chain_iter) option" where
  "set_iter_next st iterator m =
     (if ci_entry iterator = 0 then Some (0, iterator)
      else do {
        e \<leftarrow> load (ci_entry iterator) m;
        Some (se_data e, iter_advance se_next (st_table st) e iterator)
      })"

text \<open>
  The loops of \<open>set_union\<close> and \<open>set_intersection\<close>: each value of \<open>st\<close> for which \<open>wanted\<close> holds is
  inserted into \<open>new_set\<close>, until an insertion fails.
\<close>

partial_function (option) set_add_all ::
  "(val \<Rightarrow> hset \<Rightarrow> smem \<Rightarrow> bool option) \<Rightarrow> hset \<Rightarrow> chain_iter \<Rightarrow> hset \<Rightarrow> smem \<Rightarrow>
   (bool \<times> hset \<times> smem) option"
where
  "set_add_all wanted st iterator new_set m =
     (if set_iter_has_more iterator then do {
        (value, iterator) \<leftarrow> set_iter_next st iterator m;
        w \<leftarrow> wanted value new_set m;
        if w then do {
          (ok, new_set, m) \<leftarrow> set_insert new_set value m;
          if ok then set_add_all wanted st iterator new_set m else Some (False, new_set, m)
        }
        else set_add_all wanted st iterator new_set m
      }
      else Some (True, new_set, m))"



definition set_intersection :: "hset \<Rightarrow> hset \<Rightarrow> smem \<Rightarrow> (hset option \<times> smem) option" where
  "set_intersection set1 set2 m =
     (case set_new (st_hash_func set1) (st_equal_func set2) m of
        (None, m) \<Rightarrow> Some (None, m)
      | (Some new_set, m) \<Rightarrow> do {
          (ok, new_set, m) \<leftarrow>
            set_add_all (\<lambda>value _ m. set_query set2 value m) set1 (set_iterate set1) new_set m;
          if \<not> ok then do { (_, m) \<leftarrow> set_free new_set m; Some (None, m) }
          else Some (Some new_set, m)
        })"

section \<open>What a set represents\<close>

text \<open>The values of its entries, with the entries \<open>as\<close> in some order, no two of them equal.\<close>

definition set_rep :: "smem \<Rightarrow> hset \<Rightarrow> addr list \<Rightarrow> val list \<Rightarrow> bool" where
  "set_rep m st as xs \<longleftrightarrow>
     table_rep se_next se_data (st_hash_func st) (st_equal_func st) m (st_table_size st) (st_table st) as \<and>
     datas se_data (heap m) as = xs \<and> st_entries st = of_nat (length as) \<and>
     sized (st_prime_index st) (st_table_size st) (length as) \<and> length as < 2 ^ 28"

definition in_values :: "(val \<Rightarrow> val \<Rightarrow> bool) \<Rightarrow> val \<Rightarrow> val list \<Rightarrow> bool" where
  "in_values eq v xs \<longleftrightarrow> (\<exists>x \<in> set xs. eq x v)"

definition add_value :: "(val \<Rightarrow> val \<Rightarrow> bool) \<Rightarrow> val \<Rightarrow> val list \<Rightarrow> val list" where
  "add_value eq v xs = (if in_values eq v xs then xs else v # xs)"

definition drop_value :: "(val \<Rightarrow> val \<Rightarrow> bool) \<Rightarrow> val \<Rightarrow> val list \<Rightarrow> val list" where
  "drop_value eq v xs = filter (\<lambda>x. \<not> eq x v) xs"

definition same_set_functions :: "hset \<Rightarrow> hset \<Rightarrow> bool" where
  "same_set_functions st st' \<longleftrightarrow> st_hash_func st' = st_hash_func st \<and>
     st_equal_func st' = st_equal_func st \<and> st_free_func st' = st_free_func st"

lemma set_primes_eq: "set_primes = table_primes"
  by (simp add: set_primes_def table_primes_def)

lemma set_num_primes_eq: "set_num_primes = 24"
  by (simp add: set_num_primes_def set_primes_eq)

lemma set_rep_table:
  "set_rep m st as xs \<Longrightarrow>
   table_rep se_next se_data (st_hash_func st) (st_equal_func st) m (st_table_size st) (st_table st) as"
  by (simp add: set_rep_def)

lemma set_rep_length: "set_rep m st as xs \<Longrightarrow> length xs = length as"
  by (auto simp: set_rep_def)

lemma set_rep_dom: "set_rep m st as xs \<Longrightarrow> set as \<subseteq> dom (heap m)"
  by (drule set_rep_table) (rule table_rep_dom)

lemma set_rep_heap: "set_rep m st as xs \<Longrightarrow> heap m' = heap m \<Longrightarrow> set_rep m' st as xs"
  unfolding set_rep_def by (auto intro: table_rep_heap)

lemma set_rep_facts:
  "set_rep m st as xs \<Longrightarrow> sized (st_prime_index st) (st_table_size st) (length xs) \<and> st_table_size st \<noteq> 0 \<and>
   st_entries st = of_nat (length xs) \<and> length xs < 2 ^ 28"
  by (auto simp: set_rep_def table_rep_def)

lemma set_index_rep:
  "set_rep m st as xs \<Longrightarrow> set_index st v = Some (unat (st_hash_func st v mod st_table_size st))"
  by (auto simp: set_index_def set_rep_def table_rep_def)

lemma set_new_spec:
  "set_new hash eq m = (r, m') \<Longrightarrow> heap m' = heap m \<and>
     (case r of None \<Rightarrow> True
      | Some st \<Rightarrow> set_rep m' st [] [] \<and> st_hash_func st = hash \<and> st_equal_func st = eq \<and> st_free_func st = 0)"
  by (auto simp: set_new_def set_allocate_table_def malloc_block_def
      set_num_primes_eq set_primes_eq table_primes_def Let_def set_rep_def
      intro: table_rep_new [where n = 193, simplified] split: list.splits if_splits)

lemma set_free_spec:
  assumes "set_rep m st as xs"
  shows "\<exists>calls m'. set_free st m = Some (calls, m') \<and>
    mset calls = mset (if st_free_func st \<noteq> 0 then map (Pair (st_free_func st)) xs else []) \<and>
    heap m' = (\<lambda>b. if b \<in> set as then None else heap m b)"
proof -
  have "concat (map (\<lambda>a. set_entry_calls st (the (heap m a))) as) =
      (if st_free_func st \<noteq> 0 then map (Pair (st_free_func st)) xs else [])"
    using assms by (auto simp: set_rep_def datas_def set_entry_calls_def comp_def)
  with table_free [OF set_rep_table [OF assms], of "set_entry_calls st" "[]"]
  show ?thesis by (auto simp: set_free_def)
qed

lemma set_enlarge_spec:
  assumes hash: "hashing (st_hash_func st) (st_equal_func st)" and rep: "set_rep m st as xs"
    and full: "unat (st_table_size st) \<le> 3 * length as"
  shows "\<exists>st' m'. set_enlarge st m = Some (fst (malloc_block m), st', m') \<and>
    relinked se_data (set as) (snd (malloc_block m)) m' \<and> set_rep m' st' as xs \<and>
    (if fst (malloc_block m) then 3 * length as < unat (st_table_size st') else st' = st) \<and>
    same_set_functions st st'"
proof -
  let ?i = "st_prime_index st + 1"
  let ?n = "table_primes ! unat ?i"
  obtain ok m0 where m0: "malloc_block m = (ok, m0)" by (rule prod.exhaust)
  then have h0: "heap m0 = heap m" by (auto simp: malloc_block_def split: list.splits)
  from set_rep_heap [OF rep h0] have t: "table_rep se_next se_data (st_hash_func st) (st_equal_func st) m0 (st_table_size st) (st_table st) as"
    by (rule set_rep_table)
  from rep have s: "sized (st_prime_index st) (st_table_size st) (length as)" "length as < 2 ^ 28"
    by (simp_all add: set_rep_def)
  note grow = sized_grow [OF s(1) full s(2)]
  have n0: "?n \<noteq> 0" using sized_nonzero [OF grow(2)] .
  show ?thesis
  proof (cases ok)
    case False
    with m0 rep h0 show ?thesis
      by (auto simp: set_enlarge_def set_allocate_table_def Let_def same_set_functions_def intro: set_rep_heap)
  next
    case True
    from hashing.table_rehash [where dt = se_data and kd = id and upd = se_link, OF hash _ _ _ t n0]
    obtain tab' m' where r: "rehash se_next se_link (\<lambda>e. st_hash_func st (se_data e)) ?n (st_table st)
        (replicate (unat ?n) 0) m0 = Some (tab', m')"
      "table_rep se_next se_data (st_hash_func st) (st_equal_func st) m' ?n tab' as"
      "relinked se_data (set as) m0 m'" by auto
    have "datas se_data (heap m') as = xs"
      using relinked_datas [OF r(3)] rep set_rep_dom [OF rep] h0 by (simp add: set_rep_def)
    with True m0 r grow rep show ?thesis
      by (simp add: set_enlarge_def set_allocate_table_def Let_def set_rep_def
          set_num_primes_eq set_primes_eq same_set_functions_def)
  qed
qed

lemma heap_malloc_block [simp]: "heap (snd (malloc_block m)) = heap m"
  by (auto simp: malloc_block_def split: list.splits)

text \<open>What a search finds.\<close>

lemma set_find:
  assumes hash: "hashing (st_hash_func st) (st_equal_func st)" and rep: "set_rep m st as xs"
    and i: "i = unat (st_hash_func st v mod st_table_size st)"
  shows "\<exists>head rover. tab_get (st_table st) i = Some head \<and> head = st_table st ! i \<and>
    find_loop se_next se_data (\<lambda>x d. st_equal_func st d x) v head m = Some rover \<and>
    (rover \<noteq> 0 \<longleftrightarrow> in_values (st_equal_func st) v xs)"
proof -
  have cb: "st_equal_func st b a \<longleftrightarrow> st_equal_func st a b" for a b
    using hash by (rule hashing.eq_commute)
  let ?P = "\<lambda>a. st_equal_func st (se_data (the (heap m a))) v"
  from hashing.table_find [OF hash set_rep_table [OF rep] i cb] obtain head where f:
    "tab_get (st_table st) i = Some head"
    "find_loop se_next se_data (\<lambda>x d. st_equal_func st d x) v head m =
       Some (case List.find ?P as of None \<Rightarrow> 0 | Some a \<Rightarrow> a)" by blast
  have "head = st_table st ! i" using f(1) by (simp add: tab_get_def split: if_splits)
  moreover have "(case List.find ?P as of None \<Rightarrow> 0 | Some a \<Rightarrow> a) \<noteq> 0 \<longleftrightarrow> (\<exists>a \<in> set as. ?P a)"
  proof (cases "List.find ?P as")
    case None
    then have "\<not> (\<exists>a \<in> set as. ?P a)" by (auto simp: find_None_iff)
    with None show ?thesis by simp
  next
    case (Some a)
    then have "a \<in> set as" "?P a" by (auto simp: find_Some_iff)
    with Some table_rep_not_null [OF set_rep_table [OF rep]] show ?thesis by auto
  qed
  moreover have "(\<exists>a \<in> set as. ?P a) \<longleftrightarrow> in_values (st_equal_func st) v xs"
    using rep by (auto simp: set_rep_def in_values_def datas_def)
  ultimately show ?thesis using f by blast
qed

lemma set_query_spec:
  assumes "hashing (st_hash_func st) (st_equal_func st)" "set_rep m st as xs"
  shows "set_query st v m = Some (in_values (st_equal_func st) v xs)"
  using set_find [OF assms refl, of v] by (auto simp: set_query_def set_index_rep [OF assms(2)])

text \<open>
  Adding a value: the result tells whether an entry was added; when the allocator can serve the
  requests, that is whether the value was new.
\<close>

lemma set_put_spec:
  assumes hash: "hashing (st_hash_func st) (st_equal_func st)" and rep: "set_rep m st as xs"
    and room: "3 * length as < unat (st_table_size st)" "Suc (length as) < 2 ^ 28"
  shows "\<exists>ok st' m' as'. set_put st v m = Some (ok, st', m') \<and> same_set_functions st st' \<and>
    set_rep m' st' as' (if ok then v # xs else xs) \<and> (ok \<longrightarrow> \<not> in_values (st_equal_func st) v xs) \<and>
    (\<forall>h n. serves h (Suc n) m (set as) \<longrightarrow>
       (ok \<longleftrightarrow> \<not> in_values (st_equal_func st) v xs) \<and> serves h n m' (set as')) \<and>
    (\<forall>h. owned h m (set as) \<longrightarrow> owned h m' (set as'))"
proof -
  define i where i: "i = unat (st_hash_func st v mod st_table_size st)"
  note t = set_rep_table [OF rep]
  from set_find [OF hash rep i] obtain head rover where f: "tab_get (st_table st) i = Some head"
    "head = st_table st ! i" "find_loop se_next se_data (\<lambda>x d. st_equal_func st d x) v head m = Some rover"
    "rover \<noteq> 0 \<longleftrightarrow> in_values (st_equal_func st) v xs" by blast
  have idx: "set_index st v = Some i" by (simp add: i set_index_rep [OF rep])
  show ?thesis
  proof (cases "rover = 0")
    case False
    then have "set_put st v m = Some (False, st, m)" using f by (simp add: set_put_def idx)
    moreover have "serves h n m (set as)" if "serves h (Suc n) m (set as)" for h n
      using that by (rule serves_le) simp
    ultimately show ?thesis using rep f(4) False
      by (intro exI [of _ False] exI [of _ st] exI [of _ m] exI [of _ as]) (simp add: same_set_functions_def)
  next
    case True
    then have new: "\<not> in_values (st_equal_func st) v xs" using f(4) by blast
    then have absent: "\<And>b. b \<in> set as \<Longrightarrow> \<not> st_equal_func st (se_data (the (heap m b))) v"
      using rep by (auto simp: set_rep_def in_values_def datas_def)
    show ?thesis
    proof (cases rule: malloc_cases [of "\<lparr>se_data = v, se_next = head\<rparr>" m])
      case (fail m')
      then have "set_put st v m = Some (False, st, m')" "set_rep m' st as xs"
        using True f set_rep_heap [OF rep fail(3)] by (simp_all add: set_put_def idx)
      moreover have "\<not> serves h (Suc n) m (set as)" for h n using fail(2) serves_can_alloc by blast
      ultimately show ?thesis using fail(3)
        by (intro exI [of _ False] exI [of _ st] exI [of _ m'] exI [of _ as])
          (simp add: same_set_functions_def owned_def)
    next
      case (ok a m')
      let ?st = "st\<lparr>st_table := (st_table st)[i := a], st_entries := st_entries st + 1\<rparr>"
      have "se_data \<lparr>se_data = v, se_next = head\<rparr> = v" "se_next \<lparr>se_data = v, se_next = head\<rparr> = st_table st ! i"
        using f(2) by simp_all
      note add = hashing.table_add [OF hash t i this ok(4-6) absent]
      have put: "set_put st v m = Some (True, ?st, m')"
        using ok(1,4) add(2) True f by (simp add: set_put_def idx)
      have "a \<notin> set as" using set_rep_dom [OF rep] ok(5) by auto
      with ok(6) rep have "datas se_data (heap m') (a # as) = v # xs" by (simp add: set_rep_def)
      with add(1) rep room have rep': "set_rep m' ?st (a # as) (v # xs)" by (simp add: set_rep_def sized_Suc)
      have "serves h n m' (set (a # as))" if "serves h (Suc n) m (set as)" for h n
        using serves_alloc [OF that ok(7)] ok(3,6) set_rep_dom [OF rep'] by simp
      moreover have "owned h m' (set (a # as))" if "owned h m (set as)" for h
        using that ok(5,6) by (auto simp: owned_def)
      ultimately show ?thesis using put rep' new
        by (intro exI [of _ True] exI [of _ ?st] exI [of _ m'] exI [of _ "a # as"]) (simp add: same_set_functions_def)
    qed
  qed
qed

lemma set_insert_spec:
  assumes hash: "hashing (st_hash_func st) (st_equal_func st)" and rep: "set_rep m st as xs"
    and room: "Suc (length xs) < 2 ^ 28"
  shows "\<exists>ok st' m' as'. set_insert st v m = Some (ok, st', m') \<and> same_set_functions st st' \<and>
    set_rep m' st' as' (if ok then v # xs else xs) \<and> (ok \<longrightarrow> \<not> in_values (st_equal_func st) v xs) \<and>
    (\<forall>h n. serves h (Suc (Suc n)) m (set as) \<longrightarrow>
       (ok \<longleftrightarrow> \<not> in_values (st_equal_func st) v xs) \<and> serves h n m' (set as')) \<and>
    (\<forall>h. owned h m (set as) \<longrightarrow> owned h m' (set as'))"
proof -
  note r = set_rep_facts [OF rep] set_rep_length [OF rep]
  have full: "(st_entries st * 3) div st_table_size st > 0 \<longleftrightarrow> unat (st_table_size st) \<le> 3 * length as"
    using sized_full r by metis
  show ?thesis
  proof (cases "unat (st_table_size st) \<le> 3 * length as")
    case False
    from set_put_spec [OF hash rep, of v] False room r obtain ok st' m' as' where p:
      "set_put st v m = Some (ok, st', m')" "same_set_functions st st'"
      "set_rep m' st' as' (if ok then v # xs else xs)" "ok \<longrightarrow> \<not> in_values (st_equal_func st) v xs"
      "\<And>h n. serves h (Suc n) m (set as) \<Longrightarrow>
         (ok \<longleftrightarrow> \<not> in_values (st_equal_func st) v xs) \<and> serves h n m' (set as')"
      "\<And>h. owned h m (set as) \<Longrightarrow> owned h m' (set as')" by auto
    have "set_insert st v m = Some (ok, st', m')" using p(1) r False full by (simp add: set_insert_def)
    moreover have "(ok \<longleftrightarrow> \<not> in_values (st_equal_func st) v xs) \<and> serves h n m' (set as')"
      if "serves h (Suc (Suc n)) m (set as)" for h n
      using p(5) [of h "Suc n"] that by (auto intro: serves_le)
    ultimately show ?thesis using p(2-4,6) by blast
  next
    case True
    from set_enlarge_spec [OF hash rep True] obtain st1 m1 where e:
      "set_enlarge st m = Some (fst (malloc_block m), st1, m1)"
      "relinked se_data (set as) (snd (malloc_block m)) m1" "set_rep m1 st1 as xs"
      "if fst (malloc_block m) then 3 * length as < unat (st_table_size st1) else st1 = st"
      "same_set_functions st st1" by blast
    have ins: "set_insert st v m =
        (if fst (malloc_block m) then set_put st1 v m1 else Some (False, st1, m1))"
      using e(1) r True full by (simp add: set_insert_def)
    have srv: "fst (malloc_block m) \<and> serves h n m1 (set as)" if "serves h (Suc n) m (set as)" for h n
      using serves_block [OF that] serves_relinked e(2) by blast
    have own: "owned h m1 (set as)" if "owned h m (set as)" for h
      using that relinked_frame [OF e(2)] heap_malloc_block [of m] by (simp add: owned_def)
    show ?thesis
    proof (cases "fst (malloc_block m)")
      case False
      with ins e(3,5) srv own show ?thesis
        by (intro exI [of _ False] exI [of _ st1] exI [of _ m1] exI [of _ as]) auto
    next
      case ok: True
      have hash1: "hashing (st_hash_func st1) (st_equal_func st1)" and fs: "st_equal_func st1 = st_equal_func st"
        using hash e(5) by (simp_all add: same_set_functions_def)
      from set_put_spec [OF hash1 e(3), of v, unfolded fs] ok e(4) room r obtain ok' st' m' as' where p:
        "set_put st1 v m1 = Some (ok', st', m')" "same_set_functions st1 st'"
        "set_rep m' st' as' (if ok' then v # xs else xs)" "ok' \<longrightarrow> \<not> in_values (st_equal_func st) v xs"
        "\<And>h n. serves h (Suc n) m1 (set as) \<Longrightarrow>
           (ok' \<longleftrightarrow> \<not> in_values (st_equal_func st) v xs) \<and> serves h n m' (set as')"
        "\<And>h. owned h m1 (set as) \<Longrightarrow> owned h m' (set as')" by auto
      have "set_insert st v m = Some (ok', st', m')" using ins ok p(1) by simp
      moreover have "same_set_functions st st'" using e(5) p(2) by (simp add: same_set_functions_def)
      moreover have "(ok' \<longleftrightarrow> \<not> in_values (st_equal_func st) v xs) \<and> serves h n m' (set as')"
        if "serves h (Suc (Suc n)) m (set as)" for h n
        using p(5) srv that by blast
      ultimately show ?thesis using p(3,4) p(6) [OF own] by blast
    qed
  qed
qed

lemma set_remove_none:
  assumes hash: "hashing (st_hash_func st) (st_equal_func st)" and rep: "set_rep m st as xs"
    and none: "\<not> in_values (st_equal_func st) v xs"
  shows "set_remove st v m = Some (False, [], st, m)"
proof -
  have absent: "\<And>b. b \<in> set as \<Longrightarrow> \<not> st_equal_func st (se_data (the (heap m b))) v"
    using rep none by (auto simp: set_rep_def in_values_def datas_def)
  have P: "st_equal_func st v (se_data e) \<longleftrightarrow> st_equal_func st (se_data e) v" for e
    using hash by (rule hashing.eq_commute)
  from hashing.table_unlink_none [where P = "\<lambda>e. st_equal_func st v (se_data e)" and upd = se_link,
      OF hash set_rep_table [OF rep] refl P absent]
  show ?thesis by (auto simp: set_remove_def set_index_rep [OF rep])
qed

lemma set_remove_some:
  assumes hash: "hashing (st_hash_func st) (st_equal_func st)" and rep: "set_rep m st as xs"
    and some: "in_values (st_equal_func st) v xs"
  shows "\<exists>x st' m' as' a. x \<in> set xs \<and> st_equal_func st x v \<and> set_remove st v m =
      Some (True, if st_free_func st \<noteq> 0 then [(st_free_func st, x)] else [], st', m') \<and>
    set_rep m' st' as' (drop_value (st_equal_func st) v xs) \<and> set as' = set as - {a} \<and>
    without se_data {a} as m m' \<and> same_set_functions st st'"
proof -
  define i where i: "i = unat (st_hash_func st v mod st_table_size st)"
  from some rep obtain a where a: "a \<in> set as" "st_equal_func st (se_data (the (heap m a))) v"
    by (auto simp: in_values_def set_rep_def datas_def)
  then obtain e where e: "heap m a = Some e" using set_rep_dom [OF rep] by auto
  from a(1) obtain us vs where as: "as = us @ a # vs" by (auto simp: in_set_conv_decomp)
  note t = set_rep_table [OF rep]
  have P: "st_equal_func st v (se_data e) \<longleftrightarrow> st_equal_func st (se_data e) v" for e
    using hash by (rule hashing.eq_commute)
  from hashing.table_unlink [where dt = se_data and kd = id and upd = se_link and
      P = "\<lambda>e. st_equal_func st v (se_data e)", OF hash _ _ t [unfolded as] i _ P a(2)] obtain head p' m1 m2 where u:
    "tab_get (st_table st) i = Some head"
    "unlink_first se_next se_link (\<lambda>e. st_equal_func st v (se_data e)) List_Var head m = Some (a, p', m1)"
    "a \<noteq> 0" "tab_set (st_table st) i p' = Some ((st_table st)[i := p'])" "heap m1 a = heap m a"
    "free a m1 = Some m2"
    "table_rep se_next se_data (st_hash_func st) (st_equal_func st) m2 (st_table_size st) ((st_table st)[i := p']) (us @ vs)"
    "without se_data {a} as m m2" by (auto simp: as)
  let ?st = "st\<lparr>st_table := (st_table st)[i := p'], st_entries := st_entries st - 1\<rparr>"
  have "load a m1 = Some e" using u(3,5) e by (simp add: mem_simps)
  with u have r: "set_remove st v m =
      Some (True, if st_free_func st \<noteq> 0 then [(st_free_func st, se_data e)] else [], ?st, m2)"
    by (simp add: set_remove_def set_index_rep [OF rep] i set_free_entry_def set_entry_calls_def)
  have dist: "distinct as" using t by (rule table_rep_distinct)
  have dom: "set as \<subseteq> dom (heap m)" using rep by (rule set_rep_dom)
  have "st_equal_func st (se_data (the (heap m b))) v \<longleftrightarrow> b = a" if "b \<in> set as" for b
    using hashing.table_unique [OF hash t a that] .
  then have "filter (\<lambda>b. \<not> st_equal_func st (se_data (the (heap m b))) v) as = filter (\<lambda>b. b \<noteq> a) as"
    by (intro filter_cong) simp_all
  also have "filter (\<lambda>b. b \<noteq> a) us = us \<and> filter (\<lambda>b. b \<noteq> a) vs = vs"
    using dist by (auto simp: as filter_id_conv)
  then have "filter (\<lambda>b. b \<noteq> a) as = us @ vs" by (simp add: as)
  finally have rest: "filter (\<lambda>b. \<not> st_equal_func st (se_data (the (heap m b))) v) as = us @ vs" .
  have "datas se_data (heap m2) (us @ vs) = datas se_data (heap m) (us @ vs)"
    by (rule without_datas [OF u(8)]) (use dist dom in \<open>auto simp: as\<close>)
  also have "\<dots> = drop_value (st_equal_func st) v xs"
    using rep datas_filter [of se_data "heap m" "\<lambda>x. \<not> st_equal_func st x v" as]
    unfolding rest by (simp add: drop_value_def set_rep_def)
  finally have xs: "datas se_data (heap m2) (us @ vs) = drop_value (st_equal_func st) v xs" .
  have "set_rep m2 ?st (us @ vs) (drop_value (st_equal_func st) v xs)"
    using rep u(7) xs of_nat_pred [of "length as"] by (auto simp: set_rep_def as elim: sized_le)
  moreover have "set (us @ vs) = set as - {a}" using dist by (auto simp: as)
  moreover have "se_data e \<in> set xs" using rep a(1) e by (force simp: set_rep_def datas_def)
  ultimately show ?thesis using r u(8) a(2) e
    by (intro exI [of _ "se_data e"] exI [of _ ?st] exI [of _ m2] exI [of _ "us @ vs"] exI [of _ a])
      (simp add: same_set_functions_def)
qed

section \<open>The set implements a finite set of values\<close>

datatype set_op = Set_Insert val | Set_Remove val | Set_Query val | Set_Num_Entries

text \<open>One call, with its result as a number and the calls of the free function it makes.\<close>

fun set_step :: "set_op \<Rightarrow> hset \<times> smem \<Rightarrow> ((nat \<times> nat) \<times> hset \<times> smem) option" where
  "set_step (Set_Insert v) (st, m) = do {
     (ok, st, m) \<leftarrow> set_insert st v m;
     Some ((of_bool ok, 0), st, m)
   }"
| "set_step (Set_Remove v) (st, m) = do {
     (ok, calls, st, m) \<leftarrow> set_remove st v m;
     Some ((of_bool ok, length calls), st, m)
   }"
| "set_step (Set_Query v) (st, m) = do { q \<leftarrow> set_query st v m; Some ((of_bool q, 0), st, m) }"
| "set_step Set_Num_Entries (st, m) = Some ((unat (set_num_entries st), 0), st, m)"

text \<open>
  The abstract data type: values, no two of them equal.  A removal calls the free function, if
  one is registered, once.
\<close>

fun set_spec ::
  "(val \<Rightarrow> val \<Rightarrow> bool) \<Rightarrow> addr \<Rightarrow> set_op \<Rightarrow> val list \<Rightarrow> (nat \<times> nat) \<times> val list"
where
  "set_spec eq f (Set_Insert v) xs = ((of_bool (\<not> in_values eq v xs), 0), add_value eq v xs)"
| "set_spec eq f (Set_Remove v) xs =
     ((of_bool (in_values eq v xs), of_bool (in_values eq v xs \<and> f \<noteq> 0)), drop_value eq v xs)"
| "set_spec eq f (Set_Query v) xs = ((of_bool (in_values eq v xs), 0), xs)"
| "set_spec eq f Set_Num_Entries xs = ((length xs, 0), xs)"

definition set_in ::
  "(val \<Rightarrow> c_uint) \<Rightarrow> (val \<Rightarrow> val \<Rightarrow> bool) \<Rightarrow> addr \<Rightarrow> (addr \<rightharpoonup> set_entry) \<Rightarrow> nat \<Rightarrow>
   hset \<times> smem \<Rightarrow> val list \<Rightarrow> bool"
where
  "set_in hash eq f h n s xs \<longleftrightarrow> hashing hash eq \<and>
     st_hash_func (fst s) = hash \<and> st_equal_func (fst s) = eq \<and> st_free_func (fst s) = f \<and>
     length xs + n < 2 ^ 28 \<and>
     (\<exists>as. set_rep (snd s) (fst s) as xs \<and> serves h (2 * n) (snd s) (set as))"

lemma set_inE:
  assumes "set_in hash eq f h n (st, m) xs"
  obtains as where "hashing (st_hash_func st) (st_equal_func st)" "set_rep m st as xs"
    "serves h (2 * n) m (set as)" "st_hash_func st = hash" "st_equal_func st = eq"
    "st_free_func st = f" "length xs + n < 2 ^ 28"
  using assms by (auto simp: set_in_def)

lemma set_inI:
  assumes "set_in hash eq f h n' (st, m) xs'" "same_set_functions st st'" "set_rep m' st' as xs"
    "serves h (2 * n) m' (set as)" "length xs + n < 2 ^ 28"
  shows "set_in hash eq f h n (st', m') xs"
  using assms by (auto simp: set_in_def same_set_functions_def)

lemma set_in_le:
  assumes "set_in hash eq f h n s xs" "k \<le> n"
  shows "set_in hash eq f h k s xs"
proof -
  have "serves h (2 * n) m A \<Longrightarrow> serves h (2 * k) m A" for m :: smem and A
    by (elim serves_le) (use assms(2) in simp)
  then show ?thesis using assms by (auto simp: set_in_def)
qed

lemma set_insert_in:
  assumes "set_in hash eq f h (Suc n) (st, m) xs"
  shows "\<exists>st' m'. set_insert st v m = Some (\<not> in_values eq v xs, st', m') \<and>
    set_in hash eq f h n (st', m') (add_value eq v xs)"
  using assms
proof (rule set_inE)
  fix as assume hash: "hashing (st_hash_func st) (st_equal_func st)" and rep: "set_rep m st as xs"
    and srv: "serves h (2 * Suc n) m (set as)" and fs: "st_equal_func st = eq" and len: "length xs + Suc n < 2 ^ 28"
  have "serves h (Suc (Suc (2 * n))) m (set as)" using srv by simp
  with set_insert_spec [OF hash rep, of v] len obtain st' m' as' where p:
    "set_insert st v m = Some (\<not> in_values eq v xs, st', m')" "same_set_functions st st'"
    "set_rep m' st' as' (if \<not> in_values eq v xs then v # xs else xs)" "serves h (2 * n) m' (set as')"
    unfolding fs by fastforce
  then have "set_rep m' st' as' (add_value eq v xs)" by (simp add: add_value_def split: if_splits)
  moreover have "length (add_value eq v xs) + n < 2 ^ 28" using len by (simp add: add_value_def)
  ultimately show ?thesis using set_inI [OF assms p(2) _ p(4)] p(1) by blast
qed

lemma drop_value_absent: "\<not> in_values eq v xs \<Longrightarrow> drop_value eq v xs = xs"
  by (auto simp: in_values_def drop_value_def filter_id_conv)

lemma set_remove_in:
  assumes "set_in hash eq f h n (st, m) xs"
  shows "\<exists>s. set_step (Set_Remove v) (st, m) = Some (fst (set_spec eq f (Set_Remove v) xs), s) \<and>
    set_in hash eq f h n s (drop_value eq v xs)"
  using assms
proof (rule set_inE)
  fix as assume hash: "hashing (st_hash_func st) (st_equal_func st)" and rep: "set_rep m st as xs"
    and srv: "serves h (2 * n) m (set as)" and fs: "st_equal_func st = eq" "st_free_func st = f"
    and len: "length xs + n < 2 ^ 28"
  show ?thesis
  proof (cases "in_values eq v xs")
    case False
    with set_remove_none [OF hash rep, unfolded fs] assms show ?thesis by (simp add: drop_value_absent)
  next
    case True
    from set_remove_some [OF hash rep, unfolded fs, OF True] obtain x st' m' as' a where r:
      "set_remove st v m = Some (True, if f \<noteq> 0 then [(f, x)] else [], st', m')"
      "set_rep m' st' as' (drop_value eq v xs)" "set as' = set as - {a}"
      "without se_data {a} as m m'" "same_set_functions st st'" by blast
    have "serves h (2 * n) m' (set as')"
      using serves_without [OF srv r(4)] set_rep_dom [OF r(2)] r(3) by simp
    moreover have "length (drop_value eq v xs) + n < 2 ^ 28"
      using len length_filter_le [of "\<lambda>x. \<not> eq x v" xs] unfolding drop_value_def by linarith
    ultimately have "set_in hash eq f h n (st', m') (drop_value eq v xs)"
      using set_inI [OF assms r(5,2)] by blast
    with r(1) True show ?thesis by simp
  qed
qed

lemma set_step_refines:
  assumes "set_in hash eq f h (Suc n) s xs"
  shows "\<exists>s'. set_step op s = Some (fst (set_spec eq f op xs), s') \<and>
    set_in hash eq f h n s' (snd (set_spec eq f op xs))"
proof -
  obtain st m where s: "s = (st, m)" by (cases s)
  have le: "set_in hash eq f h n (st, m) xs" using assms s by (auto intro: set_in_le)
  then obtain as where a: "hashing (st_hash_func st) (st_equal_func st)" "set_rep m st as xs"
    "st_equal_func st = eq" by (rule set_inE)
  show ?thesis
  proof (cases op)
    case (Set_Insert v)
    with set_insert_in [of hash eq f h n st m xs v] assms s show ?thesis by auto
  next
    case (Set_Remove v)
    with set_remove_in [OF le, of v] s show ?thesis by simp
  next
    case (Set_Query v)
    with set_query_spec [OF a(1,2), of v] le s a(3) show ?thesis by simp
  next
    case Set_Num_Entries
    with set_rep_facts [OF a(2)] le s show ?thesis by (simp add: set_num_entries_def unat_of_bounded)
  qed
qed

interpretation set_adt: adt_refinement set_step "set_spec eq f" "set_in hash eq f h" for hash eq f h
  by unfold_locales (rule set_step_refines)

lemma set_new_in:
  assumes hash: "hashing hash eq" and am: "ample (2 + 2 * n) m" and n: "n < 2 ^ 28"
  obtains st m' where "set_new hash eq m = (Some st, m')" "heap m' = heap m"
    "\<And>f. set_in hash eq f (heap m) n (set_register_free_function st f, m') []"
    "set_in hash eq 0 (heap m) n (st, m') []"
proof -
  from am obtain a b as where ans: "answers m = a # b # as" "a \<noteq> 0" "b \<noteq> 0"
    by (cases "answers m" rule: remdups_adj.cases) (auto simp: ample_def)
  obtain r m' where new: "set_new hash eq m = (r, m')" by (rule prod.exhaust)
  with ans have m': "m' = m\<lparr>answers := as\<rparr>" and "r \<noteq> None"
    by (auto simp: set_new_def set_allocate_table_def malloc_block_def Let_def)
  then obtain st where st: "r = Some st" by auto
  have srv: "serves (heap m) (2 * n) m' {}" using am ans m' by (auto simp: serves_def ample_def)
  have "set_in hash eq f (heap m) n (set_register_free_function st f, m') []" for f
    using set_new_spec [OF new] st hash n srv
    by (auto simp: set_in_def set_register_free_function_def set_rep_def intro!: exI [of _ "[]"])
  moreover have "set_in hash eq 0 (heap m) n (st, m') []"
    using set_new_spec [OF new] st hash n srv
    by (auto simp: set_in_def set_rep_def intro!: exI [of _ "[]"])
  ultimately show ?thesis using that new st m' by simp
qed

section \<open>Iteration, union and intersection\<close>

lemma set_rep_cong:
  assumes "set_rep m st as xs" "\<And>a. a \<in> set as \<Longrightarrow> heap m' a = heap m a"
  shows "set_rep m' st as xs"
proof -
  have "datas se_data (heap m') as = datas se_data (heap m) as" by (rule datas_cong) (rule assms(2))
  with assms(1) table_rep_cong [OF set_rep_table [OF assms(1)] assms(2)] show ?thesis
    by (simp add: set_rep_def)
qed

lemma owned_keeps: "owned h m A \<Longrightarrow> h a = Some e \<Longrightarrow> heap m a = Some e"
  by (auto simp: owned_def split: if_splits)

text \<open>The chains of a set with the order in which the iterator gives its values.\<close>

definition set_chains :: "smem \<Rightarrow> hset \<Rightarrow> addr list list \<Rightarrow> bool" where
  "set_chains m st bs \<longleftrightarrow> buckets se_next (\<lambda>e. st_hash_func st (se_data e)) m (st_table_size st) (st_table st) bs"

lemma set_rep_chains:
  assumes "set_rep m st as xs"
  obtains bs where "set_chains m st bs" "mset (concat bs) = mset as"
    "mset (datas se_data (heap m) (concat bs)) = mset xs"
proof -
  from set_rep_table [OF assms] obtain bs where b: "set_chains m st bs" "mset (concat bs) = mset as"
    by (auto simp: set_chains_def elim: table_repE)
  have "mset (datas se_data (heap m) (concat bs)) = mset (datas se_data (heap m) as)"
    by (simp add: datas_def b(2) del: mset_concat)
  with that b assms show ?thesis by (simp add: set_rep_def)
qed

lemma set_iterate_spec: "set_chains m st bs \<Longrightarrow> iter_rest se_next m bs (set_iterate st) (concat bs)"
  unfolding set_chains_def
  by (rule iter_rest_first [of _ _ _ _ _ _ _ "snd (next_chain (st_table st) 0)"])
    (auto simp: set_iterate_def split: prod.splits)

lemma set_iter_next_spec:
  assumes "set_chains m0 st bs" "iter_rest se_next m0 bs it (a # rest)" "owned (heap m0) m A"
  shows "\<exists>it'. set_iter_has_more it \<and> set_iter_next st it m = Some (se_data (the (heap m0 a)), it') \<and>
    iter_rest se_next m0 bs it' rest"
proof -
  from assms(2) obtain e where e: "ci_entry it = a" "a \<noteq> 0" "heap m0 a = Some e" by (rule iter_rest_Cons)
  note owned_keeps [OF assms(3) e(3)]
  with e iter_rest_advance [OF assms(1) [unfolded set_chains_def] assms(2) e(3)] show ?thesis
    by (simp add: set_iter_next_def set_iter_has_more_def mem_simps)
qed

text \<open>
  Adding the values \<open>vs\<close> for which \<open>W\<close> holds; \<open>fresh\<close> says that none of them is in the set when
  it is added.
\<close>

primrec add_all :: "(val \<Rightarrow> val list \<Rightarrow> bool) \<Rightarrow> val list \<Rightarrow> val list \<Rightarrow> val list" where
  "add_all W [] xs = xs"
| "add_all W (v # vs) xs = add_all W vs (if W v xs then v # xs else xs)"

primrec fresh :: "(val \<Rightarrow> val list \<Rightarrow> bool) \<Rightarrow> (val \<Rightarrow> val \<Rightarrow> bool) \<Rightarrow> val list \<Rightarrow> val list \<Rightarrow> bool" where
  "fresh W eq [] xs \<longleftrightarrow> True"
| "fresh W eq (v # vs) xs \<longleftrightarrow>
     (W v xs \<longrightarrow> \<not> in_values eq v xs) \<and> fresh W eq vs (if W v xs then v # xs else xs)"

definition builds :: "(val \<Rightarrow> c_uint) \<Rightarrow> (val \<Rightarrow> val \<Rightarrow> bool) \<Rightarrow> smem \<Rightarrow> hset \<Rightarrow> smem \<Rightarrow> addr list \<Rightarrow> val list \<Rightarrow> bool" where
  "builds hash eq m0 new m as xs \<longleftrightarrow> set_rep m new as xs \<and> owned (heap m0) m (set as) \<and>
     st_hash_func new = hash \<and> st_equal_func new = eq \<and> st_free_func new = 0"

lemma set_add_all_spec:
  assumes hash: "hashing hash eq" and st: "set_chains m0 st bs"
    and wanted: "\<And>v new m as xs. builds hash eq m0 new m as xs \<Longrightarrow> wanted v new m = Some (W v xs)"
  shows "iter_rest se_next m0 bs it rest \<Longrightarrow> builds hash eq m0 new m as xs \<Longrightarrow>
    vs = datas se_data (heap m0) rest \<Longrightarrow> fresh W eq vs xs \<Longrightarrow> length xs + length vs < 2 ^ 28 \<Longrightarrow>
    \<exists>ok new' m' as' xs'. set_add_all wanted st it new m = Some (ok, new', m') \<and>
      builds hash eq m0 new' m' as' xs' \<and> (ok \<longrightarrow> xs' = add_all W vs xs) \<and>
      (\<forall>n. serves (heap m0) (2 * length vs + n) m (set as) \<longrightarrow> ok \<and> serves (heap m0) n m' (set as'))"
proof (induction rest arbitrary: it new m as xs vs)
  case Nil
  then have "\<not> set_iter_has_more it" using iter_rest_entry [of se_next m0 bs it "[]"] by (simp add: set_iter_has_more_def)
  then have "set_add_all wanted st it new m = Some (True, new, m)" by (subst set_add_all.simps) simp
  with Nil show ?case
    by (intro exI [of _ True] exI [of _ new] exI [of _ m] exI [of _ as] exI [of _ xs]) simp
next
  case (Cons a rest)
  let ?v = "se_data (the (heap m0 a))" and ?vs = "datas se_data (heap m0) rest"
  have vs: "vs = ?v # ?vs" using Cons.prems(3) by simp
  have b: "set_rep m new as xs" "owned (heap m0) m (set as)" "st_hash_func new = hash"
    "st_equal_func new = eq" "st_free_func new = 0" using Cons.prems(2) by (simp_all add: builds_def)
  from set_iter_next_spec [OF st Cons.prems(1) b(2)] obtain it' where it:
    "set_iter_has_more it" "set_iter_next st it m = Some (?v, it')" "iter_rest se_next m0 bs it' rest" by blast
  note w = wanted [OF Cons.prems(2), of ?v]
  show ?case
  proof (cases "W ?v xs")
    case False
    have "set_add_all wanted st it new m = set_add_all wanted st it' new m"
      using it w False by (subst set_add_all.simps) simp
    moreover have "fresh W eq ?vs xs" "length xs + length ?vs < 2 ^ 28"
      using Cons.prems(4,5) False unfolding vs by simp_all
    note Cons.IH [OF it(3) Cons.prems(2) refl this]
    moreover have "serves (heap m0) (2 * length ?vs + n) m (set as)"
      if "serves (heap m0) (2 * length vs + n) m (set as)" for n
      using that by (rule serves_le) (simp add: vs)
    ultimately show ?thesis using False unfolding vs by simp blast
  next
    case True
    have "hashing (st_hash_func new) (st_equal_func new)" "Suc (length xs) < 2 ^ 28"
      using hash b(3,4) Cons.prems(5) by (simp_all add: vs)
    from set_insert_spec [OF this(1) b(1) this(2), of ?v] obtain ok new1 m1 as1 where i:
      "set_insert new ?v m = Some (ok, new1, m1)" "same_set_functions new new1"
      "set_rep m1 new1 as1 (if ok then ?v # xs else xs)"
      "\<And>h n. serves h (Suc (Suc n)) m (set as) \<Longrightarrow> (ok \<longleftrightarrow> \<not> in_values eq ?v xs) \<and> serves h n m1 (set as1)"
      "\<And>h. owned h m (set as) \<Longrightarrow> owned h m1 (set as1)" unfolding b(4) by blast
    have new: "\<not> in_values eq ?v xs" and fr: "fresh W eq ?vs (?v # xs)"
      using Cons.prems(4) True unfolding vs by simp_all
    have b1: "builds hash eq m0 new1 m1 as1 (if ok then ?v # xs else xs)"
      using i(2,3) i(5) [OF b(2)] b(3-5) by (simp add: builds_def same_set_functions_def)
    have srv: "ok \<and> serves (heap m0) (2 * length ?vs + n) m1 (set as1)"
      if "serves (heap m0) (2 * length vs + n) m (set as)" for n
      using i(4) [of "heap m0" "2 * length ?vs + n"] that new by (simp add: vs)
    show ?thesis
    proof (cases ok)
      case False
      then have "set_add_all wanted st it new m = Some (False, new1, m1)"
        using it w True i(1) by (subst set_add_all.simps) simp
      with b1 srv False show ?thesis
        by (intro exI [of _ False] exI [of _ new1] exI [of _ m1] exI [of _ as1] exI [of _ xs]) auto
    next
      case ok: True
      then have "set_add_all wanted st it new m = set_add_all wanted st it' new1 m1"
        using it w True i(1) by (subst set_add_all.simps) simp
      moreover have b2: "builds hash eq m0 new1 m1 as1 (?v # xs)" using b1 ok by simp
      have "length (?v # xs) + length ?vs < 2 ^ 28" using Cons.prems(5) by (simp add: vs)
      note Cons.IH [OF it(3) b2 refl fr this]
      ultimately show ?thesis using srv True unfolding vs by simp blast
    qed
  qed
qed

lemma fresh_distinct:
  "sorted_wrt (\<lambda>a b. \<not> eq a b) vs \<Longrightarrow> \<forall>v \<in> set vs. \<not> in_values eq v xs \<Longrightarrow> fresh W eq vs xs"
  by (induction vs arbitrary: xs) (auto simp: in_values_def)


lemma add_all_filter: "add_all (\<lambda>v _. P v) vs xs = rev (filter P vs) @ xs"
  by (induction vs arbitrary: xs) auto

lemma in_values_simps [simp]:
  "\<not> in_values eq v []" "in_values eq v (xs @ ys) \<longleftrightarrow> in_values eq v xs \<or> in_values eq v ys"
  "in_values eq v (rev xs) \<longleftrightarrow> in_values eq v xs"
  "in_values eq v (x # xs) \<longleftrightarrow> eq x v \<or> in_values eq v xs"
  by (auto simp: in_values_def)

lemma in_values_perm: "mset xs = mset ys \<Longrightarrow> in_values eq v xs \<longleftrightarrow> in_values eq v ys"
  unfolding in_values_def by (simp only: mset_eq_setD [of xs ys])

lemma length_add_all: "length (add_all W vs xs) \<le> length vs + length xs"
proof (induction vs arbitrary: xs)
  case (Cons v vs)
  from Cons.IH [of xs] Cons.IH [of "v # xs"] show ?case by auto
qed simp

lemma sorted_wrt_unique:
  "distinct as \<Longrightarrow> \<forall>a \<in> set as. \<forall>b \<in> set as. R a b \<longrightarrow> a = b \<Longrightarrow> sorted_wrt (\<lambda>a b. \<not> R a b) as"
  by (induction as) auto

context hashing
begin

lemma in_values_cong: "eq u v \<Longrightarrow> in_values eq u xs \<longleftrightarrow> in_values eq v xs"
  unfolding in_values_def by (blast intro: eq_trans eq_sym)

lemma in_values_union:
  "in_values eq v (add_all (\<lambda>v xs. \<not> in_values eq v xs) vs xs) \<longleftrightarrow> in_values eq v vs \<or> in_values eq v xs"
proof (induction vs arbitrary: xs)
  case (Cons u vs)
  show ?case
  proof (cases "in_values eq u xs")
    case True
    with Cons.IH [of xs] in_values_cong [of u v xs] show ?thesis by auto
  qed (use Cons.IH [of "u # xs"] in auto)
qed simp

lemma in_values_filter:
  "in_values eq v (filter (\<lambda>x. in_values eq x ys) xs) \<longleftrightarrow> in_values eq v xs \<and> in_values eq v ys"
  using in_values_cong by (auto simp: in_values_def [of eq v "filter _ _"] in_values_def [of eq v xs])

lemma distinct_values:
  assumes "set_rep m st as xs" "st_equal_func st = eq" "mset (concat bs) = mset as"
  shows "sorted_wrt (\<lambda>a b. \<not> eq a b) (datas se_data (heap m) (concat bs))"
proof -
  have "distinct (concat bs)" using table_rep_distinct [OF set_rep_table [OF assms(1)]] assms(3)
    by (metis mset_eq_imp_distinct_iff)
  moreover have "\<forall>a \<in> set (concat bs). \<forall>b \<in> set (concat bs).
      eq (se_data (the (heap m a))) (se_data (the (heap m b))) \<longrightarrow> a = b"
    using set_rep_table [OF assms(1)] assms(2) mset_eq_setD [OF assms(3)]
    unfolding table_rep_def by (simp del: set_concat)
  ultimately have "sorted_wrt (\<lambda>a b. \<not> eq (se_data (the (heap m a))) (se_data (the (heap m b)))) (concat bs)"
    by (rule sorted_wrt_unique)
  then show ?thesis by (simp add: datas_def sorted_wrt_map)
qed

end

text \<open>
  Union and intersection: whatever the allocator answers, the call returns, and no cell that was
  in use is changed.  If it fails, everything it allocated has been freed.
\<close>

lemma set_new_builds:
  assumes "set_new hash eq m = (r, m')"
  shows "heap m' = heap m \<and> (case r of None \<Rightarrow> True | Some new \<Rightarrow> builds hash eq m new m' [] []) \<and>
    (hashing hash eq \<longrightarrow> ample (2 + 2 * n) m \<longrightarrow> n < 2 ^ 28 \<longrightarrow> r \<noteq> None \<and> serves (heap m) (2 * n) m' {})"
proof -
  have "r \<noteq> None \<and> serves (heap m) (2 * n) m' {}"
    if "hashing hash eq" "ample (2 + 2 * n) m" "n < 2 ^ 28"
  proof -
    from set_new_in [OF that] obtain st where "r = Some st" "set_in hash eq 0 (heap m) n (st, m') []"
      using assms by (metis prod.inject)
    then show ?thesis by (auto simp: set_in_def set_rep_def)
  qed
  with set_new_spec [OF assms] show ?thesis by (auto simp: builds_def split: option.splits)
qed

lemma builds_free:
  assumes "builds hash eq m0 new m as xs"
  shows "\<exists>m'. set_free new m = Some ([], m') \<and> heap m' = heap m0"
proof -
  from assms have rep: "set_rep m new as xs" and own: "owned (heap m0) m (set as)" and f: "st_free_func new = 0"
    by (simp_all add: builds_def)
  from set_free_spec [OF rep] f obtain m' where "set_free new m = Some ([], m')"
    "heap m' = (\<lambda>b. if b \<in> set as then None else heap m b)" by auto
  moreover have "(\<lambda>b. if b \<in> set as then None else heap m b) = heap m0"
    using own by (auto simp: owned_def fun_eq_iff)
  ultimately show ?thesis by simp
qed

lemma builds_query:
  assumes "hashing (st_hash_func st) (st_equal_func st)" "set_rep m0 st bs ys" "builds hash eq m0 new m as xs"
  shows "set_query st v m = Some (in_values (st_equal_func st) v ys)"
proof -
  have own: "owned (heap m0) m (set as)" using assms(3) by (simp add: builds_def)
  have "heap m a = heap m0 a" if a: "a \<in> set bs" for a
  proof -
    from a obtain e where "heap m0 a = Some e" using set_rep_dom [OF assms(2)] by blast
    then show ?thesis using owned_keeps [OF own] by simp
  qed
  from set_query_spec [OF assms(1) set_rep_cong [OF assms(2) this]] show ?thesis .
qed


lemma set_add_all_rep:
  assumes hash: "hashing hash eq" and st: "set_rep m0 st bs ys" and b: "builds hash eq m0 new m as xs"
    and wanted: "\<And>v new m as xs. builds hash eq m0 new m as xs \<Longrightarrow> wanted v new m = Some (W v xs)"
    and fresh: "\<And>vs. mset vs = mset ys \<Longrightarrow>
      (st_equal_func st = eq \<Longrightarrow> sorted_wrt (\<lambda>a b. \<not> eq a b) vs) \<Longrightarrow> fresh W eq vs xs"
    and len: "length xs + length ys < 2 ^ 28"
  shows "\<exists>vs ok new' m' as' xs'. set_add_all wanted st (set_iterate st) new m = Some (ok, new', m') \<and>
    mset vs = mset ys \<and> builds hash eq m0 new' m' as' xs' \<and> (ok \<longrightarrow> xs' = add_all W vs xs) \<and>
    (\<forall>n. serves (heap m0) (2 * length ys + n) m (set as) \<longrightarrow> ok \<and> serves (heap m0) n m' (set as'))"
proof -
  from set_rep_chains [OF st] obtain cs where cs: "set_chains m0 st cs" "mset (concat cs) = mset bs"
    "mset (datas se_data (heap m0) (concat cs)) = mset ys" .
  let ?vs = "datas se_data (heap m0) (concat cs)"
  have l: "length ?vs = length ys" using cs(3) by (metis size_mset)
  have fr: "fresh W eq ?vs xs"
    by (rule fresh [OF cs(3)]) (rule hashing.distinct_values [OF hash st _ cs(2)])
  have len': "length xs + length ?vs < 2 ^ 28" using len l by simp
  have "\<exists>ok new' m' as' xs'. set_add_all wanted st (set_iterate st) new m = Some (ok, new', m') \<and>
      builds hash eq m0 new' m' as' xs' \<and> (ok \<longrightarrow> xs' = add_all W ?vs xs) \<and>
      (\<forall>n. serves (heap m0) (2 * length ?vs + n) m (set as) \<longrightarrow> ok \<and> serves (heap m0) n m' (set as'))"
    by (rule set_add_all_spec [OF hash cs(1) _ set_iterate_spec [OF cs(1)] b refl fr len']) (rule wanted)
  with cs(3) show ?thesis unfolding l by blast
qed


lemma set_intersection_spec:
  assumes hash: "hashing (st_hash_func s1) (st_equal_func s1)"
    and same: "st_hash_func s2 = st_hash_func s1" "st_equal_func s2 = st_equal_func s1"
    and s1: "set_rep m s1 as xs" and s2: "set_rep m s2 bs ys" and len: "length xs < 2 ^ 28"
  shows "\<exists>r m'. set_intersection s1 s2 m = Some (r, m') \<and>
    (case r of None \<Rightarrow> heap m' = heap m
     | Some new \<Rightarrow> \<exists>cs zs. builds (st_hash_func s1) (st_equal_func s1) m new m' cs zs \<and>
         (\<forall>v. in_values (st_equal_func s1) v zs \<longleftrightarrow>
            in_values (st_equal_func s1) v xs \<and> in_values (st_equal_func s1) v ys)) \<and>
    (ample (2 + 2 * length xs) m \<longrightarrow> r \<noteq> None)"
proof -
  let ?h = "st_hash_func s1" and ?eq = "st_equal_func s1"
  let ?W = "\<lambda>v _. in_values ?eq v ys"
  let ?query = "\<lambda>value (_ :: hset) m. set_query s2 value m"
  obtain r0 m1 where new: "set_new ?h ?eq m = (r0, m1)" by (rule prod.exhaust)
  note n = set_new_builds [OF new, of "length xs"]
  show ?thesis
  proof (cases r0)
    case None
    with n new hash len same show ?thesis by (auto simp: set_intersection_def)
  next
    case (Some new0)
    with n have b0: "builds ?h ?eq m new0 m1 [] []" by simp
    have hash2: "hashing (st_hash_func s2) (st_equal_func s2)" using hash same by simp
    have q: "?query v new m' = Some (?W v zs)" if "builds ?h ?eq m new m' cs zs" for v new m' cs zs
      using builds_query [OF hash2 s2 that] by (simp add: same)
    have "\<exists>vs ok new' m' as' xs'. set_add_all ?query s1 (set_iterate s1) new0 m1 = Some (ok, new', m') \<and>
        mset vs = mset xs \<and> builds ?h ?eq m new' m' as' xs' \<and> (ok \<longrightarrow> xs' = add_all ?W vs []) \<and>
        (\<forall>n. serves (heap m) (2 * length xs + n) m1 (set []) \<longrightarrow> ok \<and> serves (heap m) n m' (set as'))"
      by (rule set_add_all_rep [OF hash s1 b0 q]) (use len in \<open>simp_all add: fresh_distinct\<close>)
    then obtain vs ok1 new1 m2 as1 zs where a1:
      "set_add_all ?query s1 (set_iterate s1) new0 m1 = Some (ok1, new1, m2)"
      "mset vs = mset xs" "builds ?h ?eq m new1 m2 as1 zs" "ok1 \<longrightarrow> zs = add_all ?W vs []"
      "\<And>n. serves (heap m) (2 * length xs + n) m1 {} \<Longrightarrow> ok1 \<and> serves (heap m) n m2 (set as1)" by auto
    have am1: "ok1" if "ample (2 + 2 * length xs) m"
      using n hash len a1(5) [of 0] that by auto
    have vals: "in_values ?eq v zs \<longleftrightarrow> in_values ?eq v xs \<and> in_values ?eq v ys" if ok1 for v
      using a1(4) that hashing.in_values_filter [OF hash, of v ys vs] in_values_perm [OF a1(2), of ?eq v]
      by (simp add: add_all_filter)
    show ?thesis
    proof (cases ok1)
      case False
      with am1 builds_free [OF a1(3)] Some new a1(1) same show ?thesis by (auto simp: set_intersection_def)
    next
      case True
      with a1(1,3) vals Some new same show ?thesis by (auto simp: set_intersection_def)
    qed
  qed
qed

section \<open>The array of all values\<close>

lemma set_copy_chain_spec:
  "chain se_next (heap m) p as 0 \<Longrightarrow> holds arr zs \<Longrightarrow> length zs + length as \<le> length arr \<Longrightarrow>
   \<exists>arr'. set_copy_chain p (length zs) arr m = Some (length zs + length as, arr') \<and>
     holds arr' (zs @ datas se_data (heap m) as) \<and> length arr' = length arr"
proof (induction as arbitrary: p zs arr)
  case Nil
  then show ?case by (subst set_copy_chain.simps) simp
next
  case (Cons a as)
  from Cons.prems(1) obtain e where e: "p = a" "a \<noteq> 0" "heap m a = Some e" "chain se_next (heap m) (se_next e) as 0"
    by (auto simp: chain_Cons)
  from holds_push [OF Cons.prems(2), of "se_data e"] Cons.prems(3) obtain arr1 where a1:
    "array_set arr (length zs) (se_data e) = Some arr1" "holds arr1 (zs @ [se_data e])" "length arr1 = length arr" by auto
  from Cons.IH [OF e(4) a1(2)] Cons.prems(3) a1(3) e a1(1) show ?case
    by (subst set_copy_chain.simps) (auto simp: mem_simps)
qed

lemma set_copy_table_spec:
  "chains se_next m tab bs \<Longrightarrow> holds arr zs \<Longrightarrow> length zs + length (concat bs) \<le> length arr \<Longrightarrow>
   \<exists>k arr'. set_copy_table tab (length zs) arr m = Some (k, arr') \<and>
     holds arr' (zs @ datas se_data (heap m) (concat bs)) \<and> length arr' = length arr"
proof (induction tab arbitrary: bs zs arr)
  case Nil
  then show ?case by auto
next
  case (Cons p tab)
  then obtain as bs' where bs: "bs = as # bs'" "chain se_next (heap m) p as 0" "chains se_next m tab bs'"
    by (auto simp: list_all2_Cons1)
  have "length zs + length as \<le> length arr" using Cons.prems(3) bs(1) by simp
  from set_copy_chain_spec [OF bs(2) Cons.prems(2) this] obtain arr1 where a1:
    "set_copy_chain p (length zs) arr m = Some (length (zs @ datas se_data (heap m) as), arr1)"
    "holds arr1 (zs @ datas se_data (heap m) as)" "length arr1 = length arr" by auto
  from Cons.IH [OF bs(3) a1(2)] Cons.prems(3) a1(1,3) bs(1) show ?case by auto
qed

lemma set_to_array_spec:
  assumes "set_rep m st as xs"
  shows "\<exists>r m'. set_to_array st m = Some (r, m') \<and> heap m' = heap m \<and>
    (case r of None \<Rightarrow> \<not> fst (malloc_block m)
     | Some arr \<Rightarrow> \<exists>ys. arr = map Some ys \<and> mset ys = mset xs)"
proof -
  obtain ok m' where m': "malloc_block m = (ok, m')" by (rule prod.exhaust)
  then have h: "heap m' = heap m" using heap_malloc_block [of m] by simp
  show ?thesis
  proof (cases ok)
    case False
    with m' h show ?thesis by (simp add: set_to_array_def)
  next
    case True
    from set_rep_chains [OF set_rep_heap [OF assms h]] obtain bs where b: "set_chains m' st bs"
      "mset (datas se_data (heap m') (concat bs)) = mset xs" .
    let ?ys = "datas se_data (heap m') (concat bs)" and ?n = "unat (st_entries st)"
    have n: "?n = length (concat bs)"
      using set_rep_facts [OF assms] b(2) unat_of_bounded by (metis datas_simps(4) size_mset)
    have "chains se_next m' (st_table st) bs" using b(1) buckets_chains by (auto simp: set_chains_def)
    from set_copy_table_spec [OF this, of "array_new ?n" "[]"] n obtain k arr where c:
      "set_copy_table (st_table st) 0 (array_new ?n) m' = Some (k, arr)" "holds arr ?ys" "length arr = ?n" by auto
    have "arr = map Some ?ys" using c(2,3) n unfolding holds_def by (metis datas_simps(4) order_refl take_all)
    with c(1) True m' h b(2) show ?thesis by (auto simp: set_to_array_def)
  qed
qed

section \<open>Properties\<close>




text \<open>Sets built by operations, for the examples.\<close>

lemma set_build:
  fixes ops :: "set_op list" and m :: smem
  assumes "hashing hash eq" "ample (2 + 2 * (length ops + n)) m" "length ops + n < 2 ^ 28"
  obtains st m' as where "set_rep m' st as (snd (spec_run (set_spec eq 0) ops []))"
    "st_hash_func st = hash" "st_equal_func st = eq" "ample (2 * n) m'" "owned (heap m) m' (set as)"
proof -
  from set_new_in [OF assms] obtain st m1 where "set_in hash eq 0 (heap m) (length ops + n) (st, m1) []" .
  from set_adt.run_refines [OF this] obtain st' m' where
    "set_in hash eq 0 (heap m) n (st', m') (snd (spec_run (set_spec eq 0) ops []))" by auto
  then obtain as where "set_rep m' st' as (snd (spec_run (set_spec eq 0) ops []))"
    "serves (heap m) (2 * n) m' (set as)" "st_hash_func st' = hash" "st_equal_func st' = eq" by (rule set_inE)
  with that show ?thesis by (simp add: serves_def)
qed

lemma set_build_two:
  fixes ops1 ops2 :: "set_op list" and m :: smem
  assumes "hashing hash eq" "ample (4 + 2 * (length ops1 + length ops2 + n)) m"
    "length ops1 + (1 + length ops2 + n) < 2 ^ 28"
  obtains s1 s2 m' as bs where "set_rep m' s1 as (snd (spec_run (set_spec eq 0) ops1 []))"
    "set_rep m' s2 bs (snd (spec_run (set_spec eq 0) ops2 []))"
    "st_hash_func s1 = hash" "st_equal_func s1 = eq" "st_hash_func s2 = hash" "st_equal_func s2 = eq"
    "ample (2 * n) m'"
proof -
  have "ample (2 + 2 * (length ops1 + (1 + length ops2 + n))) m" using assms(2) by (rule ample_le) simp
  from set_build [OF assms(1) this assms(3)] obtain s1 m1 as where
    s1: "set_rep m1 s1 as (snd (spec_run (set_spec eq 0) ops1 []))" "st_hash_func s1 = hash"
      "st_equal_func s1 = eq" "ample (2 * (1 + length ops2 + n)) m1" .
  have "ample (2 + 2 * (length ops2 + n)) m1" "length ops2 + n < 2 ^ 28" using s1(4) assms(3) by simp_all
  from set_build [OF assms(1) this] obtain s2 m2 bs where
    s2: "set_rep m2 s2 bs (snd (spec_run (set_spec eq 0) ops2 []))" "st_hash_func s2 = hash"
      "st_equal_func s2 = eq" "ample (2 * n) m2" "owned (heap m1) m2 (set bs)" .
  have "heap m2 a = heap m1 a" if a: "a \<in> set as" for a
  proof -
    obtain e where "heap m1 a = Some e" using a set_rep_dom [OF s1(1)] by blast
    then show ?thesis using owned_keeps [OF s2(5)] by simp
  qed
  from set_rep_cong [OF s1(1) this] that s1 s2 show ?thesis by blast
qed



text \<open>the same for \<open>set_intersection\<close> and the values both sets hold.\<close>

theorem set_intersection_correct:
  assumes "hashing (st_hash_func s1) (st_equal_func s1)" "st_hash_func s2 = st_hash_func s1"
    "st_equal_func s2 = st_equal_func s1" "set_rep m s1 as xs" "set_rep m s2 bs ys" "length xs < 2 ^ 28"
  shows "\<exists>r m'. set_intersection s1 s2 m = Some (r, m') \<and>
    (case r of None \<Rightarrow> heap m' = heap m
     | Some new \<Rightarrow> \<forall>v. set_query s1 v m' = Some (in_values (st_equal_func s1) v xs) \<and>
         set_query s2 v m' = Some (in_values (st_equal_func s1) v ys) \<and>
         set_query new v m' = Some (in_values (st_equal_func s1) v xs \<and> in_values (st_equal_func s1) v ys)) \<and>
    (ample (2 + 2 * length xs) m \<longrightarrow> r \<noteq> None)"
proof -
  have hash2: "hashing (st_hash_func s2) (st_equal_func s2)" using assms(1-3) by simp
  from set_intersection_spec [OF assms] obtain r m' where u: "set_intersection s1 s2 m = Some (r, m')"
    "case r of None \<Rightarrow> heap m' = heap m
     | Some new \<Rightarrow> \<exists>cs zs. builds (st_hash_func s1) (st_equal_func s1) m new m' cs zs \<and>
         (\<forall>v. in_values (st_equal_func s1) v zs \<longleftrightarrow>
            in_values (st_equal_func s1) v xs \<and> in_values (st_equal_func s1) v ys)"
    "ample (2 + 2 * length xs) m \<longrightarrow> r \<noteq> None" by blast
  show ?thesis
  proof (cases r)
    case None
    with u show ?thesis by auto
  next
    case (Some new)
    with u(2) obtain cs zs where b: "builds (st_hash_func s1) (st_equal_func s1) m new m' cs zs"
      "\<And>v. in_values (st_equal_func s1) v zs \<longleftrightarrow>
         in_values (st_equal_func s1) v xs \<and> in_values (st_equal_func s1) v ys" by auto
    have "set_query new v m' = Some (in_values (st_equal_func s1) v zs)" for v
      using set_query_spec [of new m' cs zs v] b(1) assms(1) by (simp add: builds_def)
    with builds_query [OF assms(1,4) b(1)] builds_query [OF hash2 assms(5) b(1)] b(2) u(1,3) Some assms(3)
    show ?thesis by simp
  qed
qed

theorem set_intersection_correct_witness:
  "\<exists>s1 s2 m as bs new m'. set_rep m s1 as [198, 5] \<and> set_rep m s2 bs [7, 198] \<and>
    set_intersection s1 s2 m = Some (Some new, m') \<and> set_query s2 7 m' = Some True \<and>
    set_query new 198 m' = Some True \<and> set_query new 7 m' = Some False \<and> set_query new 8 m' = Some False"
proof -
  let ?ops1 = "[Set_Insert 5, Set_Insert 198]" and ?ops2 = "[Set_Insert 198, Set_Insert 7]"
  note hash = pointer_hashing.hashing_axioms
  have spec: "snd (spec_run (set_spec pointer_equal 0) ?ops1 []) = [198, 5]"
    "snd (spec_run (set_spec pointer_equal 0) ?ops2 []) = [7, 198]" by code_simp+
  have am: "ample (4 + 2 * (length ?ops1 + length ?ops2 + 5)) \<lparr>heap = Map.empty, answers = [1 ..< 60]\<rparr>"
    by (simp add: ample_def upt_rec)
  have len: "length ?ops1 + (1 + length ?ops2 + 5) < 2 ^ 28" by simp
  from set_build_two [OF hash am len] obtain s1 s2 m as bs where
    s: "set_rep m s1 as [198, 5]" "set_rep m s2 bs [7, 198]" "st_hash_func s1 = pointer_hash"
      "st_equal_func s1 = pointer_equal" "st_hash_func s2 = pointer_hash" "st_equal_func s2 = pointer_equal"
      "ample (2 * 5) m" unfolding spec .
  have h: "hashing (st_hash_func s1) (st_equal_func s1)" unfolding s(3,4) by (rule hash)
  have f: "st_hash_func s2 = st_hash_func s1" "st_equal_func s2 = st_equal_func s1" using s by simp_all
  have len2: "length [198, 5 :: val] < 2 ^ 28" and am2: "ample (2 + 2 * (length [198, 5 :: val])) m"
    using s(7) by (simp_all add: ample_def)
  from set_intersection_correct [OF h f s(1,2) len2] am2 obtain new m' where u:
    "set_intersection s1 s2 m = Some (Some new, m')"
    "\<forall>v. set_query s1 v m' = Some (in_values (st_equal_func s1) v [198, 5]) \<and>
       set_query s2 v m' = Some (in_values (st_equal_func s1) v [7, 198]) \<and>
       set_query new v m' = Some (in_values (st_equal_func s1) v [198, 5] \<and> in_values (st_equal_func s1) v [7, 198])"
    by (auto split: option.splits)
  show ?thesis
    by (rule exI [of _ s1], rule exI [of _ s2], rule exI [of _ m], rule exI [of _ as], rule exI [of _ bs],
        rule exI [of _ new], rule exI [of _ m']) (simp add: s(1,2,4) u pointer_equal_def)
qed

text \<open>The function \<open>set_to_array\<close> gives an array of exactly the values of the set, each once.\<close>

theorem set_to_array_correct:
  assumes "set_rep m st as xs"
  shows "\<exists>r m'. set_to_array st m = Some (r, m') \<and> heap m' = heap m \<and>
    (case r of None \<Rightarrow> \<not> fst (malloc_block m) | Some arr \<Rightarrow> \<exists>ys. arr = map Some ys \<and> mset ys = mset xs)"
  using assms by (rule set_to_array_spec)

theorem set_to_array_correct_witness:
  "\<exists>st m as m' arr ys. set_rep m st as [198, 5] \<and> set_to_array st m = Some (Some arr, m') \<and>
    arr = map Some ys \<and> mset ys = {#5, 198#}"
proof -
  let ?ops = "[Set_Insert 5, Set_Insert 198]"
  have spec: "snd (spec_run (set_spec pointer_equal 0) ?ops []) = [198, 5]" by code_simp
  have am: "ample (2 + 2 * (length ?ops + 5)) \<lparr>heap = Map.empty, answers = [1 ..< 60]\<rparr>"
    by (simp add: ample_def upt_rec)
  have len: "length ?ops + 5 < 2 ^ 28" by simp
  from set_build [OF pointer_hashing.hashing_axioms am len] obtain st m as where
    s: "set_rep m st as [198, 5]" "ample (2 * 5) m" unfolding spec .
  have "fst (malloc_block m)" using s(2) by (cases "answers m") (auto simp: ample_def malloc_block_def)
  with set_to_array_correct [OF s(1)] obtain arr m' ys where
    "set_to_array st m = Some (Some arr, m')" "arr = map Some ys" "mset ys = mset [198, 5]"
    by (auto split: option.splits)
  with s(1) show ?thesis by (fastforce simp: add_mset_commute)
qed

end
