(* ===== verification/BinTree.thy ===== *)
theory BinTree
  imports "HOL-Library.Tree" Compare Arrays
begin

text \<open>
  Binary trees with parent links.  The AVL tree and the red-black tree contain the same pointer
  operations on nodes with an array of two children and a link to the parent; they are given
  here over the record \<open>l\<close> of the field accesses of a node type, with the predicates that relate
  nodes in memory to a tree of addresses.
\<close>

section \<open>Nodes\<close>

datatype side = Side_Left | Side_Right

text \<open>\<open>1 - side\<close>.\<close>

primrec opp :: "side \<Rightarrow> side" where
  "opp Side_Left = Side_Right"
| "opp Side_Right = Side_Left"

record 'n tree_ops =
  t_child :: "'n \<Rightarrow> side \<Rightarrow> addr"
  t_set_child :: "side \<Rightarrow> addr \<Rightarrow> 'n \<Rightarrow> 'n"
  t_parent :: "'n \<Rightarrow> addr"
  t_set_parent :: "addr \<Rightarrow> 'n \<Rightarrow> 'n"

text \<open>The variable that holds a pointer to a subtree: the root field or a child field.\<close>

datatype tree_slot = Root_Slot | Child_Slot addr side

section \<open>The operations\<close>

definition node_side :: "'n tree_ops \<Rightarrow> addr \<Rightarrow> 'n mem \<Rightarrow> side option" where
  "node_side l node m = do {
     e \<leftarrow> load node m;
     p \<leftarrow> load (t_parent l e) m;
     Some (if t_child l p Side_Left = node then Side_Left else Side_Right)
   }"

text \<open>Replace \<open>node1\<close> with \<open>node2\<close> at its parent; the result is the new root.\<close>

definition tree_replace :: "'n tree_ops \<Rightarrow> addr \<Rightarrow> addr \<Rightarrow> addr \<Rightarrow> 'n mem \<Rightarrow> (addr \<times> 'n mem) option" where
  "tree_replace l root node1 node2 m = do {
     m \<leftarrow> (if node2 \<noteq> 0 then do {
             e1 \<leftarrow> load node1 m;
             e2 \<leftarrow> load node2 m;
             store node2 (t_set_parent l (t_parent l e1) e2) m
           }
           else Some m);
     e1 \<leftarrow> load node1 m;
     if t_parent l e1 = 0 then Some (node2, m)
     else do {
       side \<leftarrow> node_side l node1 m;
       p \<leftarrow> load (t_parent l e1) m;
       m \<leftarrow> store (t_parent l e1) (t_set_child l side node2 p) m;
       Some (root, m)
     }
   }"

text \<open>The part of a rotation after \<open>new_root\<close> took the place of \<open>node\<close>.\<close>

definition rotate_links :: "'n tree_ops \<Rightarrow> addr \<Rightarrow> addr \<Rightarrow> side \<Rightarrow> 'n mem \<Rightarrow> 'n mem option" where
  "rotate_links l node new_root direction m = do {
     r \<leftarrow> load new_root m;
     n \<leftarrow> load node m;
     m \<leftarrow> store node (t_set_child l (opp direction) (t_child l r direction) n) m;
     r \<leftarrow> load new_root m;
     m \<leftarrow> store new_root (t_set_child l direction node r) m;
     n \<leftarrow> load node m;
     m \<leftarrow> store node (t_set_parent l new_root n) m;
     n \<leftarrow> load node m;
     let c = t_child l n (opp direction);
     if c \<noteq> 0 then do {
       e \<leftarrow> load c m;
       store c (t_set_parent l node e) m
     }
     else Some m
   }"

definition slot_read :: "'n tree_ops \<Rightarrow> tree_slot \<Rightarrow> addr \<Rightarrow> 'n mem \<Rightarrow> addr option" where
  "slot_read l slot root m =
     (case slot of
        Root_Slot \<Rightarrow> Some root
      | Child_Slot a side \<Rightarrow> do { e \<leftarrow> load a m; Some (t_child l e side) })"

definition slot_write :: "'n tree_ops \<Rightarrow> tree_slot \<Rightarrow> addr \<Rightarrow> addr \<Rightarrow> 'n mem \<Rightarrow> (addr \<times> 'n mem) option" where
  "slot_write l slot p root m =
     (case slot of
        Root_Slot \<Rightarrow> Some (p, m)
      | Child_Slot a side \<Rightarrow> do {
          e \<leftarrow> load a m;
          m \<leftarrow> store a (t_set_child l side p e) m;
          Some (root, m)
        })"

text \<open>The walk down to the place of a new node: its parent, and the variable to set.\<close>

partial_function (option) find_slot ::
  "'n tree_ops \<Rightarrow> ('n \<Rightarrow> bool) \<Rightarrow> addr \<Rightarrow> tree_slot \<Rightarrow> addr \<Rightarrow> 'n mem \<Rightarrow> (addr \<times> tree_slot) option"
where
  "find_slot l goes_left previous slot root m = do {
     p \<leftarrow> slot_read l slot root m;
     if p = 0 then Some (previous, slot)
     else do {
       e \<leftarrow> load p m;
       find_slot l goes_left p (Child_Slot p (if goes_left e then Side_Left else Side_Right)) root m
     }
   }"

text \<open>The search for a node; \<open>diff\<close> compares the key that is looked for with that of a node.\<close>

partial_function (option) find_node ::
  "'n tree_ops \<Rightarrow> ('n \<Rightarrow> int) \<Rightarrow> addr \<Rightarrow> 'n mem \<Rightarrow> addr option"
where
  "find_node l diff node m =
     (if node = 0 then Some 0
      else do {
        e \<leftarrow> load node m;
        if diff e = 0 then Some node
        else find_node l diff (t_child l e (if diff e < 0 then Side_Left else Side_Right)) m
      })"

partial_function (option) free_subtree :: "'n tree_ops \<Rightarrow> addr \<Rightarrow> 'n mem \<Rightarrow> 'n mem option" where
  "free_subtree l node m =
     (if node = 0 then Some m
      else do {
        e \<leftarrow> load node m;
        m \<leftarrow> free_subtree l (t_child l e Side_Left) m;
        e \<leftarrow> load node m;
        m \<leftarrow> free_subtree l (t_child l e Side_Right) m;
        free node m
      })"

declare find_slot.simps [code] find_node.simps [code] free_subtree.simps [code]

section \<open>Trees in memory\<close>

text \<open>A node \<open>a\<close> with the subtree \<open>t\<close> on the given side and \<open>u\<close> on the other one.\<close>

definition node_at :: "side \<Rightarrow> addr tree \<Rightarrow> addr \<Rightarrow> addr tree \<Rightarrow> addr tree" where
  "node_at s t a u = (case s of Side_Left \<Rightarrow> Node t a u | Side_Right \<Rightarrow> Node u a t)"

fun tree_at :: "'n tree_ops \<Rightarrow> (addr \<rightharpoonup> 'n) \<Rightarrow> addr \<Rightarrow> addr \<Rightarrow> addr tree \<Rightarrow> bool" where
  "tree_at l h q p Leaf \<longleftrightarrow> p = 0"
| "tree_at l h q p (Node t a u) \<longleftrightarrow> p = a \<and> a \<noteq> 0 \<and>
     (\<exists>e. h a = Some e \<and> t_parent l e = q \<and>
        tree_at l h a (t_child l e Side_Left) t \<and> tree_at l h a (t_child l e Side_Right) u)"

text \<open>
  The context of a subtree: the nodes on the way to the root, each with the side the way comes
  from and the other subtree.  \<open>ctx_at l h root p q c\<close>: in the hole is the pointer \<open>p\<close>, and \<open>q\<close>
  is the node above it.
\<close>

type_synonym ctx = "(side \<times> addr \<times> addr tree) list"

fun ctx_at :: "'n tree_ops \<Rightarrow> (addr \<rightharpoonup> 'n) \<Rightarrow> addr \<Rightarrow> addr \<Rightarrow> addr \<Rightarrow> ctx \<Rightarrow> bool" where
  "ctx_at l h root p q [] \<longleftrightarrow> root = p \<and> q = 0"
| "ctx_at l h root p q ((s, a, u) # c) \<longleftrightarrow> q = a \<and> a \<noteq> 0 \<and>
     (\<exists>e. h a = Some e \<and> t_child l e s = p \<and> tree_at l h a (t_child l e (opp s)) u \<and>
        ctx_at l h root a (t_parent l e) c)"

fun plug :: "addr tree \<Rightarrow> ctx \<Rightarrow> addr tree" where
  "plug t [] = t"
| "plug t ((s, a, u) # c) = plug (node_at s t a u) c"

fun ctx_nodes :: "ctx \<Rightarrow> addr list" where
  "ctx_nodes [] = []"
| "ctx_nodes ((s, a, u) # c) = a # inorder u @ ctx_nodes c"

text \<open>The nodes before and after the hole in the order of the tree.\<close>

fun before :: "ctx \<Rightarrow> addr list" where
  "before [] = []"
| "before ((s, a, u) # c) = (case s of Side_Left \<Rightarrow> before c | Side_Right \<Rightarrow> before c @ inorder u @ [a])"

fun after :: "ctx \<Rightarrow> addr list" where
  "after [] = []"
| "after ((s, a, u) # c) = (case s of Side_Left \<Rightarrow> a # inorder u @ after c | Side_Right \<Rightarrow> after c)"

lemma opp_opp [simp]: "opp (opp s) = s"
  by (cases s) simp_all

lemma opp_neq [simp]: "opp s \<noteq> s" "s \<noteq> opp s"
  by (cases s; simp)+

lemma side_cases: "s' = s \<or> s' = opp s"
  by (cases s; cases s'; simp)

lemma node_at_opp: "node_at (opp s) t a u = node_at s u a t"
  by (cases s) (simp_all add: node_at_def)

lemma inorder_node_at [simp]: "inorder (node_at s t a u) =
    (case s of Side_Left \<Rightarrow> inorder t @ a # inorder u | Side_Right \<Rightarrow> inorder u @ a # inorder t)"
  by (simp add: node_at_def split: side.splits)

lemma set_tree_node_at [simp]: "set_tree (node_at s t a u) = insert a (set_tree t \<union> set_tree u)"
  by (auto simp: node_at_def split: side.splits)

lemma node_at_neq_Leaf [simp]: "node_at s t a u \<noteq> Leaf"
  by (simp add: node_at_def split: side.splits)

lemma height_node_at [simp]: "height (node_at s t a u) = Suc (max (height t) (height u))"
  by (simp add: node_at_def max.commute split: side.splits)

lemma node_at_cases: "t \<noteq> Leaf \<Longrightarrow> (\<And>x a y. t = node_at s x a y \<Longrightarrow> P) \<Longrightarrow> P"
  by (cases t; cases s) (auto simp: node_at_def)

lemma tree_at_node_at [simp]: "tree_at l h q p (node_at s t a u) \<longleftrightarrow> p = a \<and> a \<noteq> 0 \<and>
     (\<exists>e. h a = Some e \<and> t_parent l e = q \<and>
        tree_at l h a (t_child l e s) t \<and> tree_at l h a (t_child l e (opp s)) u)"
  by (cases s) (auto simp: node_at_def)

lemma inorder_plug: "inorder (plug t c) = before c @ inorder t @ after c"
  by (induction t c rule: plug.induct) (auto split: side.splits)

lemma mset_ctx_nodes: "mset (ctx_nodes c) = mset (before c) + mset (after c)"
  by (induction c rule: ctx_nodes.induct) (auto split: side.splits)

lemma set_ctx_nodes: "set (ctx_nodes c) = set (before c) \<union> set (after c)"
  by (metis mset_ctx_nodes set_mset_mset set_mset_union)

lemma distinct_plug:
  "distinct (inorder (plug t c)) \<longleftrightarrow>
     distinct (inorder t) \<and> distinct (ctx_nodes c) \<and> set_tree t \<inter> set (ctx_nodes c) = {}"
proof -
  have "mset (inorder (plug t c)) = mset (inorder t @ ctx_nodes c)"
    by (simp add: inorder_plug mset_ctx_nodes)
  from mset_eq_imp_distinct_iff [OF this] show ?thesis by simp
qed

lemma set_plug: "set_tree (plug t c) = set_tree t \<union> set (ctx_nodes c)"
  using inorder_plug [of t c] set_ctx_nodes [of c] by (metis set_append set_inorder sup_assoc sup_commute)

lemma tree_at_plug: "tree_at l h 0 root (plug t c) \<longleftrightarrow> (\<exists>p q. tree_at l h q p t \<and> ctx_at l h root p q c)"
proof (induction t c rule: plug.induct)
  case (2 t s a u c)
  then show ?case by (auto simp del: tree_at.simps)
qed auto

lemma plug_append: "plug t (c @ c') = plug (plug t c) c'"
  by (induction t c rule: plug.induct) simp_all

lemma tree_at_plug_append:
  "(\<exists>p q. tree_at l h q p t \<and> ctx_at l h root p q (c @ c')) \<longleftrightarrow>
   (\<exists>p q. tree_at l h q p (plug t c) \<and> ctx_at l h root p q c')"
proof (induction t c rule: plug.induct)
  case (2 t s a u c)
  then show ?case by (auto simp del: tree_at.simps)
qed simp

lemma plug_at: "a \<in> set_tree t \<Longrightarrow> \<exists>l r c. t = plug (Node l a r) c"
proof (induction t)
  case (Node t b u)
  then consider "a = b" | "a \<in> set_tree t" | "a \<in> set_tree u" by auto
  then show ?case
  proof cases
    case 1
    then have "Node t b u = plug (Node t a u) []" by simp
    then show ?thesis by blast
  next
    case 2
    with Node.IH(1) obtain l r c where "t = plug (Node l a r) c" by blast
    then have "Node t b u = plug (Node l a r) (c @ [(Side_Left, b, u)])" by (simp add: plug_append node_at_def)
    then show ?thesis by blast
  next
    case 3
    with Node.IH(2) obtain l r c where "u = plug (Node l a r) c" by blast
    then have "Node t b u = plug (Node l a r) (c @ [(Side_Right, b, t)])" by (simp add: plug_append node_at_def)
    then show ?thesis by blast
  qed
qed simp

lemma tree_at_dom: "tree_at l h q p t \<Longrightarrow> set_tree t \<subseteq> dom h"
proof (induction t arbitrary: q p)
  case (Node t a u)
  then obtain e where "h a = Some e" "set_tree t \<subseteq> dom h" "set_tree u \<subseteq> dom h" by auto
  then show ?case by auto
qed simp

lemma tree_at_nonzero: "tree_at l h q p t \<Longrightarrow> 0 \<notin> set_tree t"
  by (induction t arbitrary: q p) auto

lemma ctx_nodes_append [simp]: "ctx_nodes (c @ c') = ctx_nodes c @ ctx_nodes c'"
  by (induction c rule: ctx_nodes.induct) simp_all

lemma tree_at_root: "tree_at l h q p t \<Longrightarrow> p = 0 \<and> t = Leaf \<or> p \<noteq> 0 \<and> p \<in> set_tree t"
  by (cases t) auto

lemma tree_at_null: "tree_at l h q p t \<Longrightarrow> p = 0 \<longleftrightarrow> t = Leaf"
  by (cases t) auto

lemma ctx_at_dom: "ctx_at l h root p q c \<Longrightarrow> set (ctx_nodes c) \<subseteq> dom h"
proof (induction l h root p q c rule: ctx_at.induct)
  case (2 l h root p q s a u c)
  then show ?case using tree_at_dom by fastforce
qed simp

lemma ctx_at_parent: "ctx_at l h root p q c \<Longrightarrow> q \<noteq> 0 \<longleftrightarrow> c \<noteq> []"
  by (cases c) auto

lemma ctx_at_parent_in: "ctx_at l h root p q c \<Longrightarrow> q = 0 \<or> q \<in> set (ctx_nodes c)"
  by (cases c) auto

lemma tree_at_cong: "(\<And>b. b \<in> set_tree t \<Longrightarrow> h' b = h b) \<Longrightarrow> tree_at l h q p t \<Longrightarrow> tree_at l h' q p t"
  by (induction t arbitrary: q p) auto

lemma ctx_at_cong:
  "(\<And>b. b \<in> set (ctx_nodes c) \<Longrightarrow> h' b = h b) \<Longrightarrow> ctx_at l h root p q c \<Longrightarrow> ctx_at l h' root p q c"
proof (induction l h root p q c rule: ctx_at.induct)
  case (2 l h root p q s a u c)
  from 2(3) obtain e where e: "q = a" "a \<noteq> 0" "h a = Some e" "t_child l e s = p"
    "tree_at l h a (t_child l e (opp s)) u" "ctx_at l h root a (t_parent l e) c" by auto
  have "ctx_at l h' root a (t_parent l e) c" by (rule 2(1) [OF _ e(6)]) (simp add: 2(2))
  moreover have "tree_at l h' a (t_child l e (opp s)) u" by (rule tree_at_cong [OF _ e(5)]) (simp add: 2(2))
  moreover have "h' a = Some e" using 2(2) e(3) by simp
  ultimately show ?case using e by simp
qed simp

lemma tree_at_upd [simp]: "a \<notin> set_tree t \<Longrightarrow> tree_at l (h(a := v)) q p t \<longleftrightarrow> tree_at l h q p t"
  by (induction t arbitrary: q p) auto

lemma ctx_at_upd [simp]: "a \<notin> set (ctx_nodes c) \<Longrightarrow> ctx_at l (h(a := v)) root p q c \<longleftrightarrow> ctx_at l h root p q c"
  by (induction c arbitrary: p q rule: ctx_nodes.induct) auto

text \<open>A change of a node that keeps its links keeps the shapes.\<close>

lemma tree_at_upd_same:
  "h a = Some e \<Longrightarrow> t_child l e' = t_child l e \<Longrightarrow> t_parent l e' = t_parent l e \<Longrightarrow>
   tree_at l (h(a \<mapsto> e')) q p t \<longleftrightarrow> tree_at l h q p t"
  by (induction t arbitrary: q p) auto

lemma ctx_at_upd_same:
  "h a = Some e \<Longrightarrow> t_child l e' = t_child l e \<Longrightarrow> t_parent l e' = t_parent l e \<Longrightarrow>
   ctx_at l (h(a \<mapsto> e')) root p q c \<longleftrightarrow> ctx_at l h root p q c"
  by (induction c arbitrary: p q rule: ctx_nodes.induct) (auto simp: tree_at_upd_same)

text \<open>
  The search follows the comparisons down: it ends at a node that compares equal, or in a
  leaf.  \<open>search\<close> is the walk on trees.
\<close>

fun search :: "(addr \<Rightarrow> int) \<Rightarrow> addr tree \<Rightarrow> addr" where
  "search d Leaf = 0"
| "search d (Node t a u) = (if d a = 0 then a else if d a < 0 then search d t else search d u)"

text \<open>The walk to the place of a new node, as a context of the tree.\<close>

fun descend :: "(addr \<Rightarrow> bool) \<Rightarrow> addr tree \<Rightarrow> ctx \<Rightarrow> ctx" where
  "descend g Leaf c = c"
| "descend g (Node t a u) c =
     (if g a then descend g t ((Side_Left, a, u) # c) else descend g u ((Side_Right, a, t) # c))"

lemma descend_cong: "(\<And>a. a \<in> set_tree t \<Longrightarrow> g' a = g a) \<Longrightarrow> descend g' t c = descend g t c"
  by (induction g t c rule: descend.induct) simp_all

lemma plug_descend: "plug Leaf (descend g t c) = plug t c"
  by (induction g t c rule: descend.induct) (auto simp: node_at_def)

fun slot_of :: "ctx \<Rightarrow> tree_slot" where
  "slot_of [] = Root_Slot"
| "slot_of ((s, a, u) # c) = Child_Slot a s"

lemma relinked_comp: "relinked f A m m' \<Longrightarrow> relinked (\<lambda>e. g (f e)) A m m'"
  unfolding relinked_def using option.map_comp [of g f] unfolding comp_def by metis

text \<open>The nodes that a replacement below the context writes.\<close>

definition hole_nodes :: "addr \<Rightarrow> ctx \<Rightarrow> addr set" where
  "hole_nodes p c = (if p = 0 then {} else {p}) \<union> set (take 1 (ctx_nodes c))"

lemma hole_nodes_simps [simp]:
  "hole_nodes p [] = (if p = 0 then {} else {p})"
  "hole_nodes p ((s, a, u) # c) = (if p = 0 then {a} else {p, a})"
  by (auto simp: hole_nodes_def)

lemma hole_nodes_subset: "hole_nodes p c \<subseteq> insert p (set (ctx_nodes c))"
  using set_take_subset [of 1 "ctx_nodes c"] by (auto simp: hole_nodes_def)

lemma ctx_at_parent_eq: "ctx_at l h root p q c \<Longrightarrow> q = (case c of [] \<Rightarrow> 0 | (s, a, u) # _ \<Rightarrow> a)"
  by (cases c) auto

section \<open>The contract of the field accesses\<close>

text \<open>\<open>dt\<close> gives what the pointer operations do not change.\<close>

locale tree_links =
  fixes l :: "'n tree_ops"
    and dt :: "'n \<Rightarrow> 'v"
  assumes child_set_child [simp]: "t_child l (t_set_child l s p e) s' = (if s' = s then p else t_child l e s')"
    and parent_set_child [simp]: "t_parent l (t_set_child l s p e) = t_parent l e"
    and child_set_parent [simp]: "t_child l (t_set_parent l q e) = t_child l e"
    and parent_set_parent [simp]: "t_parent l (t_set_parent l q e) = q"
    and dt_set_child [simp]: "dt (t_set_child l s p e) = dt e"
    and dt_set_parent [simp]: "dt (t_set_parent l q e) = dt e"
begin

lemma tree_at_set_parent:
  "tree_at l h q p t \<Longrightarrow> h p = Some e \<Longrightarrow> t \<noteq> Leaf \<Longrightarrow> distinct (inorder t) \<Longrightarrow>
   tree_at l (h(p \<mapsto> t_set_parent l q' e)) q' p t"
  by (cases t) auto

text \<open>On which side of its parent a node is.\<close>

lemma node_side_spec:
  assumes "heap m n = Some e" "n \<noteq> 0" "ctx_at l (heap m) root n (t_parent l e) ((s, a, u) # c)"
    "n \<notin> set (ctx_nodes ((s, a, u) # c))"
  shows "node_side l n m = Some s"
proof -
  from assms(3) obtain f where f: "t_parent l e = a" "a \<noteq> 0" "heap m a = Some f" "t_child l f s = n"
    "tree_at l (heap m) a (t_child l f (opp s)) u" by auto
  have "t_child l f (opp s) \<noteq> n" using tree_at_root [OF f(5)] assms(2,4) by auto
  with f assms(1,2) show ?thesis by (cases s) (auto simp: node_side_def mem_simps)
qed

text \<open>Replacing the node in a hole: the context is kept, and the new node points to its parent.\<close>

lemma tree_replace_spec:
  assumes c: "ctx_at l (heap m) root n1 q c" and n1: "heap m n1 = Some e1" "t_parent l e1 = q" "n1 \<noteq> 0"
    and n2: "n2 = 0 \<or> heap m n2 = Some e2" "n1 \<noteq> n2"
    and fresh: "n1 \<notin> set (ctx_nodes c)" "n2 \<notin> set (ctx_nodes c)" "distinct (ctx_nodes c)"
  shows "\<exists>root' m'. tree_replace l root n1 n2 m = Some (root', m') \<and> ctx_at l (heap m') root' n2 q c \<and>
    (n2 \<noteq> 0 \<longrightarrow> heap m' n2 = Some (t_set_parent l q e2)) \<and>
    (\<forall>b. b \<noteq> n2 \<longrightarrow> (q \<noteq> 0 \<longrightarrow> b \<noteq> q) \<longrightarrow> heap m' b = heap m b) \<and>
    relinked dt (hole_nodes n2 c) m m'"
proof -
  define m1 where "m1 = (if n2 \<noteq> 0 then m\<lparr>heap := (heap m)(n2 \<mapsto> t_set_parent l q e2)\<rparr> else m)"
  have st: "(if n2 \<noteq> 0 then do {
             e1 \<leftarrow> load n1 m;
             e2 \<leftarrow> load n2 m;
             store n2 (t_set_parent l (t_parent l e1) e2) m
           }
           else Some m) = Some m1"
    using n1 n2 by (auto simp: m1_def mem_simps)
  have h1: "heap m1 n1 = Some e1" "\<And>b. b \<noteq> n2 \<Longrightarrow> heap m1 b = heap m b"
    "n2 \<noteq> 0 \<longrightarrow> heap m1 n2 = Some (t_set_parent l q e2)" "ctx_at l (heap m1) root n1 q c"
    using n1 n2 c fresh(2) by (auto simp: m1_def)
  have r1: "relinked dt (if n2 = 0 then {} else {n2}) m m1"
    using n2 by (auto simp: m1_def intro: relinked_store)
  show ?thesis
  proof (cases c)
    case Nil
    then have "tree_replace l root n1 n2 m = Some (n2, m1)"
      using c n1 st h1(1) by (simp add: tree_replace_def mem_simps)
    moreover have "relinked dt (hole_nodes n2 c) m m1"
      using r1 Nil by (cases "n2 = 0") simp_all
    ultimately show ?thesis using h1 Nil c by auto
  next
    case (Cons x c')
    obtain s a u where x: "x = (s, a, u)" by (cases x)
    from h1(4) Cons x obtain f where f: "q = a" "a \<noteq> 0" "heap m1 a = Some f" "t_child l f s = n1"
      "tree_at l (heap m1) a (t_child l f (opp s)) u" "ctx_at l (heap m1) root a (t_parent l f) c'" by auto
    have dist: "a \<notin> set_tree u" "a \<notin> set (ctx_nodes c')" "a \<noteq> n2" using fresh(2,3) Cons x by auto
    have "node_side l n1 m1 = Some s"
      by (rule node_side_spec [where root = root, OF h1(1) n1(3)]) (use h1(4) n1(2) Cons x fresh(1) in simp_all)
    let ?m = "m1\<lparr>heap := (heap m1)(a \<mapsto> t_set_child l s n2 f)\<rparr>"
    have "tree_replace l root n1 n2 m = Some (root, ?m)"
      using n1 st h1(1) f \<open>node_side l n1 m1 = Some s\<close> by (simp add: tree_replace_def mem_simps)
    moreover have "ctx_at l (heap ?m) root n2 q c" using f dist Cons x by simp
    moreover have "relinked dt (hole_nodes n2 c) m ?m"
      by (rule relinked_trans [OF r1 relinked_store [where A = "{a}", OF f(3)]]) (use Cons x in auto)
    ultimately show ?thesis using h1 f(1,2) dist by auto
  qed
qed

text \<open>The second half of a rotation.\<close>

lemma rotate_links_spec:
  assumes a: "heap m a = Some n" "a \<noteq> 0" "t_child l n (opp d) = b"
    and b: "heap m b = Some r" "b \<noteq> 0" "t_parent l r = q"
    and at: "tree_at l (heap m) a (t_child l n d) A" "tree_at l (heap m) b (t_child l r d) C"
      "tree_at l (heap m) b (t_child l r (opp d)) E"
    and dist: "distinct (inorder (node_at d A a (node_at d C b E)))"
  shows "\<exists>m'. rotate_links l a b d m = Some m' \<and>
    tree_at l (heap m') q b (node_at d (node_at d A a C) b E) \<and>
    relinked dt (insert a (insert b (set_tree C))) m m' \<and>
    (\<exists>n' r'. heap m' a = Some n' \<and> heap m' b = Some r')"
proof -
  have ds: "a \<noteq> b" "a \<notin> set_tree A" "b \<notin> set_tree A" "a \<notin> set_tree C" "b \<notin> set_tree C" "a \<notin> set_tree E"
    "b \<notin> set_tree E" "set_tree C \<inter> set_tree A = {}" "set_tree C \<inter> set_tree E = {}" "distinct (inorder C)"
    using dist by (auto split: side.splits)
  define c where "c = t_child l r d"
  let ?n = "t_set_parent l b (t_set_child l (opp d) c n)" and ?r = "t_set_child l d a r"
  let ?h = "(heap m)(a \<mapsto> ?n, b \<mapsto> ?r)"
  have c0: "c = 0 \<longleftrightarrow> C = Leaf" using tree_at_null [OF at(2)] by (simp add: c_def)
  have r1: "relinked dt (insert a (insert b (set_tree C))) m (m\<lparr>heap := ?h\<rparr>)"
    using a(1) b(1) by (auto simp: relinked_def)
  have at': "tree_at l ?h a (t_child l n d) A" "tree_at l ?h b c C" "tree_at l ?h b (t_child l r (opp d)) E"
    using at ds by (simp_all add: c_def)
  show ?thesis
  proof (cases "C = Leaf")
    case True
    then have "rotate_links l a b d m = Some (m\<lparr>heap := ?h\<rparr>)"
      using a b ds(1) c0 by (simp add: rotate_links_def mem_simps c_def fun_upd_twist Let_def)
    moreover have "tree_at l ?h q b (node_at d (node_at d A a C) b E)"
      using at' a b ds c0 True by simp
    ultimately show ?thesis using r1 ds(1) by (intro exI [of _ "m\<lparr>heap := ?h\<rparr>"]) simp
  next
    case False
    then have cn: "c \<noteq> 0" "c \<in> set_tree C" using c0 tree_at_root [OF at(2)] by (auto simp: c_def)
    then obtain e where e: "heap m c = Some e" using tree_at_dom [OF at(2)] by auto
    have ne: "c \<noteq> a" "c \<noteq> b" "c \<notin> set_tree A" "c \<notin> set_tree E" using cn ds by auto
    let ?h' = "?h(c \<mapsto> t_set_parent l a e)"
    have "rotate_links l a b d m = Some (m\<lparr>heap := ?h'\<rparr>)"
      using a b ds(1) cn(1) e ne by (simp add: rotate_links_def mem_simps c_def fun_upd_twist Let_def)
    moreover have "tree_at l ?h' a c C"
      by (rule tree_at_set_parent [OF at'(2)]) (use e ne False ds(10) in simp_all)
    then have "tree_at l ?h' q b (node_at d (node_at d A a C) b E)"
      using at' a b ds ne by simp
    moreover have "relinked dt (insert a (insert b (set_tree C))) m (m\<lparr>heap := ?h'\<rparr>)"
      using r1 e ne cn(2) by (auto simp: relinked_def)
    ultimately show ?thesis using ds(1) ne by (intro exI [of _ "m\<lparr>heap := ?h'\<rparr>"]) simp
  qed
qed

lemma free_subtree_spec:
  "tree_at l (heap m) q p t \<Longrightarrow> distinct (inorder t) \<Longrightarrow>
   \<exists>m'. free_subtree l p m = Some m' \<and> heap m' = (\<lambda>b. if b \<in> set_tree t then None else heap m b)"
proof (induction t arbitrary: q p m)
  case Leaf
  then show ?case by (subst free_subtree.simps) simp
next
  case (Node t a u)
  from Node.prems obtain e where e: "p = a" "a \<noteq> 0" "heap m a = Some e"
    "tree_at l (heap m) a (t_child l e Side_Left) t" "tree_at l (heap m) a (t_child l e Side_Right) u" by auto
  have ds: "a \<notin> set_tree t" "a \<notin> set_tree u" "set_tree t \<inter> set_tree u = {}"
    "distinct (inorder t)" "distinct (inorder u)" using Node.prems(2) by auto
  from Node.IH(1) [OF e(4) ds(4)] obtain m1 where m1: "free_subtree l (t_child l e Side_Left) m = Some m1"
    "heap m1 = (\<lambda>b. if b \<in> set_tree t then None else heap m b)" by blast
  have "tree_at l (heap m1) a (t_child l e Side_Right) u"
    by (rule tree_at_cong [OF _ e(5)]) (use m1(2) ds(3) in auto)
  from Node.IH(2) [OF this ds(5)] obtain m2 where m2: "free_subtree l (t_child l e Side_Right) m1 = Some m2"
    "heap m2 = (\<lambda>b. if b \<in> set_tree u then None else heap m1 b)" by blast
  let ?m = "m2\<lparr>heap := (heap m2)(a := None)\<rparr>"
  have "heap m1 a = Some e" "heap m2 a = Some e" using e(3) m1(2) m2(2) ds by auto
  then have "free_subtree l p m = Some ?m"
    using e m1(1) m2(1) by (subst free_subtree.simps) (simp add: mem_simps)
  moreover have "heap ?m = (\<lambda>b. if b \<in> set_tree (Node t a u) then None else heap m b)"
    using m1(2) m2(2) by (auto simp: fun_eq_iff)
  ultimately show ?case by blast
qed

lemma find_node_spec:
  "tree_at l (heap m) q p t \<Longrightarrow> find_node l diff p m = Some (search (\<lambda>a. diff (the (heap m a))) t)"
proof (induction t arbitrary: q p)
  case Leaf
  then show ?case by (subst find_node.simps) simp
next
  case (Node t a u)
  then obtain e where e: "p = a" "a \<noteq> 0" "heap m a = Some e"
    "tree_at l (heap m) a (t_child l e Side_Left) t" "tree_at l (heap m) a (t_child l e Side_Right) u" by auto
  from Node.IH(1) [OF e(4)] Node.IH(2) [OF e(5)] e show ?case
    by (subst find_node.simps) (simp add: mem_simps)
qed

lemma slot_read_spec: "ctx_at l (heap m) root p q c \<Longrightarrow> slot_read l (slot_of c) root m = Some p"
  by (cases c rule: slot_of.cases) (auto simp: slot_read_def mem_simps)

lemma find_slot_spec:
  "tree_at l (heap m) q p t \<Longrightarrow> ctx_at l (heap m) root p q c \<Longrightarrow>
   \<exists>q'. find_slot l goes_left q (slot_of c) root m = Some (q', slot_of (descend (\<lambda>a. goes_left (the (heap m a))) t c)) \<and>
     ctx_at l (heap m) root 0 q' (descend (\<lambda>a. goes_left (the (heap m a))) t c)"
proof (induction t arbitrary: p q c)
  case Leaf
  then show ?case using slot_read_spec [OF Leaf.prems(2)] by (subst find_slot.simps) simp
next
  case (Node t a u)
  let ?g = "\<lambda>a. goes_left (the (heap m a))"
  from Node.prems(1) obtain e where e: "p = a" "a \<noteq> 0" "heap m a = Some e" "t_parent l e = q"
    "tree_at l (heap m) a (t_child l e Side_Left) t" "tree_at l (heap m) a (t_child l e Side_Right) u" by auto
  note r = slot_read_spec [OF Node.prems(2)]
  show ?case
  proof (cases "goes_left e")
    case True
    have "ctx_at l (heap m) root (t_child l e Side_Left) a ((Side_Left, a, u) # c)"
      using e Node.prems(2) by simp
    from Node.IH(1) [OF e(5) this] True r e show ?thesis
      by (subst find_slot.simps) (simp add: mem_simps)
  next
    case False
    have "ctx_at l (heap m) root (t_child l e Side_Right) a ((Side_Right, a, t) # c)"
      using e Node.prems(2) by simp
    from Node.IH(2) [OF e(6) this] False r e show ?thesis
      by (subst find_slot.simps) (simp add: mem_simps)
  qed
qed

text \<open>Writing into the hole.\<close>

lemma slot_write_spec:
  assumes "ctx_at l (heap m) root p0 q c" "distinct (ctx_nodes c)"
  shows "\<exists>root' m'. slot_write l (slot_of c) p root m = Some (root', m') \<and> ctx_at l (heap m') root' p q c \<and>
    relinked dt (set (take 1 (ctx_nodes c))) m m'"
proof (cases c rule: slot_of.cases)
  case 1
  with assms show ?thesis by (auto simp: slot_write_def)
next
  case (2 s a u c')
  with assms(1) obtain e where e: "q = a" "a \<noteq> 0" "heap m a = Some e" "t_child l e s = p0"
    "tree_at l (heap m) a (t_child l e (opp s)) u" "ctx_at l (heap m) root a (t_parent l e) c'" by auto
  let ?m = "m\<lparr>heap := (heap m)(a \<mapsto> t_set_child l s p e)\<rparr>"
  have "slot_write l (slot_of c) p root m = Some (root, ?m)" using e 2 by (simp add: slot_write_def mem_simps)
  moreover have "ctx_at l (heap ?m) root p q c" using e assms(2) 2 by simp
  moreover have "relinked dt (set (take 1 (ctx_nodes c))) m ?m"
    by (rule relinked_store [OF e(3)]) (simp_all add: 2)
  ultimately show ?thesis by blast
qed

end

section \<open>Search trees\<close>

text \<open>\<open>k\<close> gives the key of a node.\<close>

definition ordered :: "(val \<Rightarrow> val \<Rightarrow> int) \<Rightarrow> ('a \<Rightarrow> val) \<Rightarrow> 'a list \<Rightarrow> bool" where
  "ordered cmp k as \<longleftrightarrow> sorted_wrt (\<lambda>a b. cmp (k a) (k b) \<le> 0) as"

lemma ordered_append [simp]: "ordered cmp k (as @ bs) \<longleftrightarrow>
    ordered cmp k as \<and> ordered cmp k bs \<and> (\<forall>a \<in> set as. \<forall>b \<in> set bs. cmp (k a) (k b) \<le> 0)"
  by (simp add: ordered_def sorted_wrt_append)

lemma ordered_Cons [simp]: "ordered cmp k (a # as) \<longleftrightarrow> (\<forall>b \<in> set as. cmp (k a) (k b) \<le> 0) \<and> ordered cmp k as"
  by (simp add: ordered_def)

lemma ordered_Nil [simp]: "ordered cmp k []"
  by (simp add: ordered_def)

lemma ordered_map: "ordered cmp k (map f as) \<longleftrightarrow> ordered cmp (\<lambda>a. k (f a)) as"
  by (simp add: ordered_def sorted_wrt_map)

text \<open>The walk down splits the tree in front of the first node that satisfies \<open>g\<close>.\<close>

lemma before_descend:
  "sorted_wrt (\<lambda>a b. g a \<longrightarrow> g b) (inorder t) \<Longrightarrow>
   before (descend g t c) = before c @ takeWhile (\<lambda>a. \<not> g a) (inorder t) \<and>
   after (descend g t c) = dropWhile (\<lambda>a. \<not> g a) (inorder t) @ after c"
proof (induction g t c rule: descend.induct)
  case (2 g t a u c)
  from 2(3) have s: "sorted_wrt (\<lambda>a b. g a \<longrightarrow> g b) (inorder t)" "sorted_wrt (\<lambda>a b. g a \<longrightarrow> g b) (inorder u)"
    and p: "\<forall>x \<in> set (inorder t). \<forall>y \<in> set ([a] @ inorder u). g x \<longrightarrow> g y"
    unfolding inorder.simps sorted_wrt_append sorted_wrt.simps by - (elim conjE, assumption)+
  have s3: "g a" if "b \<in> set (inorder t)" "g b" for b
    by (rule p [rule_format, OF that(1) _ that(2)]) simp
  show ?case
  proof (cases "g a")
    case True
    with 2(1) [OF _ s(1)] show ?thesis by (simp add: takeWhile_tail dropWhile_append3)
  next
    case False
    then have "\<And>b. b \<in> set (inorder t) \<Longrightarrow> \<not> g b" using s3 by blast
    then have "takeWhile (\<lambda>a. \<not> g a) (inorder t @ xs) = inorder t @ takeWhile (\<lambda>a. \<not> g a) xs"
      "dropWhile (\<lambda>a. \<not> g a) (inorder t @ xs) = dropWhile (\<lambda>a. \<not> g a) xs" for xs
      by (auto intro!: takeWhile_append2 dropWhile_append2)
    with False 2(2) [OF _ s(2)] show ?thesis by simp
  qed
qed simp

context comparator
begin

lemma search_correct:
  "ordered cmp k (inorder t) \<Longrightarrow> 0 \<notin> set_tree t \<Longrightarrow>
   r = search (\<lambda>a. cmp key (k a)) t \<Longrightarrow>
   if r = 0 then \<forall>a \<in> set_tree t. cmp key (k a) \<noteq> 0 else r \<in> set_tree t \<and> cmp key (k r) = 0"
proof (induction t)
  case (Node t a u)
  have o: "\<And>b. b \<in> set_tree t \<Longrightarrow> cmp (k b) (k a) \<le> 0" "\<And>b. b \<in> set_tree u \<Longrightarrow> cmp (k a) (k b) \<le> 0"
    "ordered cmp k (inorder t)" "ordered cmp k (inorder u)"
    using Node.prems(1) by simp_all
  have z: "0 \<notin> set_tree t" "0 \<notin> set_tree u" "a \<noteq> 0" using Node.prems(2) by auto
  consider "cmp key (k a) = 0" | "cmp key (k a) < 0" | "cmp key (k a) > 0" by linarith
  then show ?case
  proof cases
    case 1
    with Node.prems(2,3) show ?thesis by simp
  next
    case 2
    have r: "r = search (\<lambda>a. cmp key (k a)) t" using 2 Node.prems(3) by simp
    have "cmp key (k b) \<noteq> 0" if "b \<in> set_tree u" for b
      using cmp_less_trans [OF 2 o(2) [OF that]] by simp
    with 2 Node.IH(1) [OF o(3) z(1) r] show ?thesis by (cases "r = 0") auto
  next
    case 3
    have r: "r = search (\<lambda>a. cmp key (k a)) u" using 3 Node.prems(3) by simp
    have "cmp key (k b) \<noteq> 0" if "b \<in> set_tree t" for b
      using cmp_less_trans2 [OF o(1) [OF that], of key] 3 cmp_flip cmp_zero_sym by (metis less_irrefl)
    with 3 Node.IH(2) [OF o(4) z(2) r] show ?thesis by (cases "r = 0") auto
  qed
qed simp

text \<open>Nodes with larger keys stay larger along the order.\<close>

lemma smaller_mono:
  assumes "ordered cmp k as"
  shows "sorted_wrt (\<lambda>a b. cmp key (k a) < 0 \<longrightarrow> cmp key (k b) < 0) as"
  using assms unfolding ordered_def by (rule sorted_wrt_mono_rel [rotated]) (blast intro: cmp_less_trans)

lemma ordered_insert:
  assumes "ordered cmp k as" "k a = key"
  shows "ordered cmp k (takeWhile (\<lambda>b. \<not> cmp key (k b) < 0) as @ a # dropWhile (\<lambda>b. \<not> cmp key (k b) < 0) as)"
proof -
  let ?P = "\<lambda>b. \<not> cmp key (k b) < 0"
  have "ordered cmp k (takeWhile ?P as @ dropWhile ?P as)" using assms(1) by simp
  then have o: "ordered cmp k (takeWhile ?P as)" "ordered cmp k (dropWhile ?P as)"
    "\<forall>b \<in> set (takeWhile ?P as). \<forall>c \<in> set (dropWhile ?P as). cmp (k b) (k c) \<le> 0"
    unfolding ordered_append by blast+
  have "cmp (k b) key \<le> 0" if "b \<in> set (takeWhile ?P as)" for b
    using set_takeWhileD [OF that] cmp_le_flip [of "k b" key] by linarith
  moreover have "cmp key (k c) \<le> 0" if "c \<in> set (dropWhile ?P as)" for c
  proof (cases "dropWhile ?P as")
    case (Cons d ds)
    then have "cmp key (k d) < 0" using hd_dropWhile [of ?P as] by auto
    moreover have "cmp (k d) (k c) \<le> 0" using that o(2) Cons by auto
    ultimately show ?thesis using cmp_less_trans by fastforce
  next
    case Nil
    from that show ?thesis unfolding Nil by simp
  qed
  ultimately show ?thesis using o assms(2) by simp
qed

end

end
