(* ===== verification/AVLTree.thy ===== *)
theory AVLTree
  imports BinTree
begin

text \<open>
  The AVL tree of \<open>libcalg/src/avl-tree.c\<close>, every function of the file.  The pointer operations
  are those of \<open>BinTree\<close>; the heights stored in the nodes are updated where the code does it,
  in the order of the code.
\<close>

section \<open>The code\<close>

record avl_tree_node =
  av_left :: addr
  av_right :: addr
  av_parent :: addr
  av_key :: val
  av_value :: val
  av_height :: int

record avl_tree =
  at_root_node :: addr
  at_compare_func :: "val \<Rightarrow> val \<Rightarrow> int"
  at_num_nodes :: c_uint

type_synonym avmem = "avl_tree_node mem"

definition avl_ops :: "avl_tree_node tree_ops" where
  "avl_ops =
     \<lparr>t_child = (\<lambda>e s. case s of Side_Left \<Rightarrow> av_left e | Side_Right \<Rightarrow> av_right e),
      t_set_child = (\<lambda>s p e. case s of Side_Left \<Rightarrow> e\<lparr>av_left := p\<rparr> | Side_Right \<Rightarrow> e\<lparr>av_right := p\<rparr>),
      t_parent = av_parent, t_set_parent = (\<lambda>q e. e\<lparr>av_parent := q\<rparr>)\<rparr>"

abbreviation av_child :: "avl_tree_node \<Rightarrow> side \<Rightarrow> addr" where
  "av_child \<equiv> t_child avl_ops"



definition avl_tree_subtree_height :: "addr \<Rightarrow> avmem \<Rightarrow> int option" where
  "avl_tree_subtree_height node m =
     (if node = 0 then Some 0 else do { e \<leftarrow> load node m; Some (av_height e) })"

definition avl_tree_update_height :: "addr \<Rightarrow> avmem \<Rightarrow> avmem option" where
  "avl_tree_update_height node m = do {
     e \<leftarrow> load node m;
     left_height \<leftarrow> avl_tree_subtree_height (av_left e) m;
     right_height \<leftarrow> avl_tree_subtree_height (av_right e) m;
     store node (e\<lparr>av_height := if left_height > right_height then left_height + 1 else right_height + 1\<rparr>) m
   }"

definition avl_tree_node_replace ::
  "avl_tree \<Rightarrow> addr \<Rightarrow> addr \<Rightarrow> avmem \<Rightarrow> (avl_tree \<times> avmem) option"
where
  "avl_tree_node_replace tree node1 node2 m = do {
     (root, m) \<leftarrow> tree_replace avl_ops (at_root_node tree) node1 node2 m;
     e1 \<leftarrow> load node1 m;
     m \<leftarrow> (if av_parent e1 \<noteq> 0 then avl_tree_update_height (av_parent e1) m else Some m);
     Some (tree\<lparr>at_root_node := root\<rparr>, m)
   }"

definition avl_tree_rotate ::
  "avl_tree \<Rightarrow> addr \<Rightarrow> side \<Rightarrow> avmem \<Rightarrow> (addr \<times> avl_tree \<times> avmem) option"
where
  "avl_tree_rotate tree node direction m = do {
     e \<leftarrow> load node m;
     let new_root = av_child e (opp direction);
     (tree, m) \<leftarrow> avl_tree_node_replace tree node new_root m;
     m \<leftarrow> rotate_links avl_ops node new_root direction m;
     m \<leftarrow> avl_tree_update_height new_root m;
     m \<leftarrow> avl_tree_update_height node m;
     Some (new_root, tree, m)
   }"

text \<open>
  The two branches of \<open>avl_tree_node_balance\<close> that rotate: the child on the side opposite to
  \<open>direction\<close> is too high.
\<close>

definition avl_tree_lean ::
  "avl_tree \<Rightarrow> addr \<Rightarrow> side \<Rightarrow> avmem \<Rightarrow> (addr \<times> avl_tree \<times> avmem) option"
where
  "avl_tree_lean tree node direction m = do {
     e \<leftarrow> load node m;
     let child = av_child e (opp direction);
     c \<leftarrow> load child m;
     outer \<leftarrow> avl_tree_subtree_height (av_child c (opp direction)) m;
     inner \<leftarrow> avl_tree_subtree_height (av_child c direction) m;
     (tree, m) \<leftarrow>
       (if outer < inner then do {
          (_, tree, m) \<leftarrow> avl_tree_rotate tree child (opp direction) m;
          Some (tree, m)
        }
        else Some (tree, m));
     avl_tree_rotate tree node direction m
   }"

definition avl_tree_node_balance ::
  "avl_tree \<Rightarrow> addr \<Rightarrow> avmem \<Rightarrow> (addr \<times> avl_tree \<times> avmem) option"
where
  "avl_tree_node_balance tree node m = do {
     e \<leftarrow> load node m;
     right_height \<leftarrow> avl_tree_subtree_height (av_right e) m;
     left_height \<leftarrow> avl_tree_subtree_height (av_left e) m;
     let diff = right_height - left_height;
     (node, tree, m) \<leftarrow>
       (if diff \<ge> 2 then avl_tree_lean tree node Side_Left m
        else if diff \<le> - 2 then avl_tree_lean tree node Side_Right m
        else Some (node, tree, m));
     m \<leftarrow> avl_tree_update_height node m;
     Some (node, tree, m)
   }"

partial_function (option) avl_tree_balance_to_root ::
  "avl_tree \<Rightarrow> addr \<Rightarrow> avmem \<Rightarrow> (avl_tree \<times> avmem) option"
where
  "avl_tree_balance_to_root tree rover m =
     (if rover = 0 then Some (tree, m)
      else do {
        (rover, tree, m) \<leftarrow> avl_tree_node_balance tree rover m;
        e \<leftarrow> load rover m;
        avl_tree_balance_to_root tree (av_parent e) m
      })"

definition avl_tree_insert ::
  "avl_tree \<Rightarrow> val \<Rightarrow> val \<Rightarrow> avmem \<Rightarrow> (addr \<times> avl_tree \<times> avmem) option"
where
  "avl_tree_insert tree key v m = do {
     (previous_node, rover) \<leftarrow>
       find_slot avl_ops (\<lambda>e. at_compare_func tree key (av_key e) < 0) 0 Root_Slot (at_root_node tree) m;
     let (new_node, m) = malloc \<lparr>av_left = 0, av_right = 0, av_parent = previous_node, av_key = key,
           av_value = v, av_height = 1\<rparr> m;
     if new_node = 0 then Some (0, tree, m)
     else do {
       (root, m) \<leftarrow> slot_write avl_ops rover new_node (at_root_node tree) m;
       (tree, m) \<leftarrow> avl_tree_balance_to_root (tree\<lparr>at_root_node := root\<rparr>) previous_node m;
       Some (new_node, tree\<lparr>at_num_nodes := at_num_nodes tree + 1\<rparr>, m)
     }
   }"

text \<open>The search towards the centre of \<open>avl_tree_node_get_replacement\<close>.\<close>

partial_function (option) avl_tree_innermost :: "side \<Rightarrow> addr \<Rightarrow> avmem \<Rightarrow> addr option" where
  "avl_tree_innermost side result m = do {
     e \<leftarrow> load result m;
     if av_child e (opp side) \<noteq> 0 then avl_tree_innermost side (av_child e (opp side)) m
     else Some result
   }"

definition avl_tree_node_get_replacement ::
  "avl_tree \<Rightarrow> addr \<Rightarrow> avmem \<Rightarrow> (addr \<times> avl_tree \<times> avmem) option"
where
  "avl_tree_node_get_replacement tree node m = do {
     e \<leftarrow> load node m;
     if av_left e = 0 \<and> av_right e = 0 then Some (0, tree, m)
     else do {
       left_height \<leftarrow> avl_tree_subtree_height (av_left e) m;
       right_height \<leftarrow> avl_tree_subtree_height (av_right e) m;
       let side = (if left_height < right_height then Side_Right else Side_Left);
       result \<leftarrow> avl_tree_innermost side (av_child e side) m;
       r \<leftarrow> load result m;
       (tree, m) \<leftarrow> avl_tree_node_replace tree result (av_child r side) m;
       r \<leftarrow> load result m;
       m \<leftarrow> avl_tree_update_height (av_parent r) m;
       Some (result, tree, m)
     }
   }"

text \<open>One round of the loop that copies the children of \<open>node\<close> into \<open>swap_node\<close>.\<close>

definition avl_tree_copy_child :: "addr \<Rightarrow> addr \<Rightarrow> side \<Rightarrow> avmem \<Rightarrow> avmem option" where
  "avl_tree_copy_child swap_node node side m = do {
     e \<leftarrow> load node m;
     s \<leftarrow> load swap_node m;
     m \<leftarrow> store swap_node (t_set_child avl_ops side (av_child e side) s) m;
     if av_child e side \<noteq> 0 then do {
       c \<leftarrow> load (av_child e side) m;
       store (av_child e side) (c\<lparr>av_parent := swap_node\<rparr>) m
     }
     else Some m
   }"

definition avl_tree_remove_node :: "avl_tree \<Rightarrow> addr \<Rightarrow> avmem \<Rightarrow> (avl_tree \<times> avmem) option" where
  "avl_tree_remove_node tree node m = do {
     (swap_node, tree, m) \<leftarrow> avl_tree_node_get_replacement tree node m;
     (balance_startpoint, tree, m) \<leftarrow>
       (if swap_node = 0 then do {
          (tree, m) \<leftarrow> avl_tree_node_replace tree node 0 m;
          e \<leftarrow> load node m;
          Some (av_parent e, tree, m)
        }
        else do {
          s \<leftarrow> load swap_node m;
          let balance_startpoint = (if av_parent s = node then swap_node else av_parent s);
          m \<leftarrow> avl_tree_copy_child swap_node node Side_Left m;
          m \<leftarrow> avl_tree_copy_child swap_node node Side_Right m;
          e \<leftarrow> load node m;
          s \<leftarrow> load swap_node m;
          m \<leftarrow> store swap_node (s\<lparr>av_height := av_height e\<rparr>) m;
          (tree, m) \<leftarrow> avl_tree_node_replace tree node swap_node m;
          Some (balance_startpoint, tree, m)
        });
     m \<leftarrow> free node m;
     avl_tree_balance_to_root (tree\<lparr>at_num_nodes := at_num_nodes tree - 1\<rparr>) balance_startpoint m
   }"

definition avl_tree_lookup_node :: "avl_tree \<Rightarrow> val \<Rightarrow> avmem \<Rightarrow> addr option" where
  "avl_tree_lookup_node tree key m =
     find_node avl_ops (\<lambda>e. at_compare_func tree key (av_key e)) (at_root_node tree) m"

definition avl_tree_remove :: "avl_tree \<Rightarrow> val \<Rightarrow> avmem \<Rightarrow> (bool \<times> avl_tree \<times> avmem) option" where
  "avl_tree_remove tree key m = do {
     node \<leftarrow> avl_tree_lookup_node tree key m;
     if node = 0 then Some (False, tree, m)
     else do { (tree, m) \<leftarrow> avl_tree_remove_node tree node m; Some (True, tree, m) }
   }"


definition avl_tree_root_node :: "avl_tree \<Rightarrow> addr" where
  "avl_tree_root_node tree = at_root_node tree"

definition avl_tree_node_key :: "addr \<Rightarrow> avmem \<Rightarrow> val option" where
  "avl_tree_node_key node m = do { e \<leftarrow> load node m; Some (av_key e) }"

definition avl_tree_node_value :: "addr \<Rightarrow> avmem \<Rightarrow> val option" where
  "avl_tree_node_value node m = do { e \<leftarrow> load node m; Some (av_value e) }"

definition avl_tree_node_child :: "addr \<Rightarrow> side \<Rightarrow> avmem \<Rightarrow> addr option" where
  "avl_tree_node_child node side m = do { e \<leftarrow> load node m; Some (av_child e side) }"

definition avl_tree_node_parent :: "addr \<Rightarrow> avmem \<Rightarrow> addr option" where
  "avl_tree_node_parent node m = do { e \<leftarrow> load node m; Some (av_parent e) }"




section \<open>Heights\<close>

interpretation avl_links: tree_links avl_ops "\<lambda>e. (av_key e, av_value e, av_height e)"
  by unfold_locales (auto simp: avl_ops_def split: side.splits)

abbreviation av_data :: "avl_tree_node \<Rightarrow> val \<times> val" where
  "av_data e \<equiv> (av_key e, av_value e)"

text \<open>The heights stored in the nodes of a tree are right.\<close>

fun heights :: "(addr \<rightharpoonup> avl_tree_node) \<Rightarrow> addr tree \<Rightarrow> bool" where
  "heights h Leaf \<longleftrightarrow> True"
| "heights h (Node t a u) \<longleftrightarrow>
     map_option av_height (h a) = Some (int (height (Node t a u))) \<and> heights h t \<and> heights h u"

declare heights.simps(2) [simp del]

lemma avl_ops_simps [simp]:
  "av_child e Side_Left = av_left e" "av_child e Side_Right = av_right e" "t_parent avl_ops e = av_parent e"
  "av_child (e\<lparr>av_height := x\<rparr>) = av_child e" "av_parent (e\<lparr>av_height := x\<rparr>) = av_parent e"
  "av_height (t_set_child avl_ops s p e) = av_height e" "av_height (t_set_parent avl_ops q e) = av_height e"
  "av_parent (t_set_parent avl_ops q e) = q" "av_parent (t_set_child avl_ops s p e) = av_parent e"
  by (auto simp: avl_ops_def fun_eq_iff split: side.splits)

lemma heights_node_at: "heights h (node_at s t a u) \<longleftrightarrow>
    map_option av_height (h a) = Some (int (Suc (max (height t) (height u)))) \<and> heights h t \<and> heights h u"
  by (cases s) (auto simp: node_at_def heights.simps max.commute)

lemma heights_cong:
  "(\<And>b. b \<in> set_tree t \<Longrightarrow> map_option av_height (h' b) = map_option av_height (h b)) \<Longrightarrow> heights h t \<Longrightarrow> heights h' t"
  by (induction t) (auto simp: heights.simps)

lemma heights_upd [simp]: "a \<notin> set_tree t \<Longrightarrow> heights (h(a := v)) t \<longleftrightarrow> heights h t"
  by (induction t) (auto simp: heights.simps)

lemma subtree_height_spec:
  "tree_at avl_ops (heap m) q p t \<Longrightarrow> heights (heap m) t \<Longrightarrow> avl_tree_subtree_height p m = Some (int (height t))"
  by (cases t) (auto simp: avl_tree_subtree_height_def heights.simps mem_simps)

lemma subtree_height_ex: "p = 0 \<or> p \<in> dom (heap m) \<Longrightarrow> \<exists>x. avl_tree_subtree_height p m = Some x"
  by (auto simp: avl_tree_subtree_height_def mem_simps)

lemma tree_at_ptr: "tree_at l h q p t \<Longrightarrow> p = 0 \<or> p \<in> dom h"
  by (cases t) auto

text \<open>Updating one height.\<close>

lemma update_height_ex:
  assumes "heap m a = Some e" "a \<noteq> 0" "\<And>s. av_child e s = 0 \<or> av_child e s \<in> dom (heap m)"
  shows "\<exists>x. avl_tree_update_height a m = Some (m\<lparr>heap := (heap m)(a \<mapsto> e\<lparr>av_height := x\<rparr>)\<rparr>)"
proof -
  have c: "av_left e = 0 \<or> av_left e \<in> dom (heap m)" "av_right e = 0 \<or> av_right e \<in> dom (heap m)"
    using assms(3) [of Side_Left] assms(3) [of Side_Right] by simp_all
  then obtain x y where "avl_tree_subtree_height (av_left e) m = Some x"
    "avl_tree_subtree_height (av_right e) m = Some y" using subtree_height_ex by metis
  with assms(1,2) show ?thesis by (auto simp: avl_tree_update_height_def mem_simps)
qed

lemma update_height_spec:
  assumes "heap m a = Some e" "a \<noteq> 0" "tree_at avl_ops (heap m) a (av_child e s) t"
    "tree_at avl_ops (heap m) a (av_child e (opp s)) u" "heights (heap m) t" "heights (heap m) u"
    "a \<notin> set_tree t" "a \<notin> set_tree u"
  shows "\<exists>e'. avl_tree_update_height a m = Some (m\<lparr>heap := (heap m)(a \<mapsto> e')\<rparr>) \<and>
    (\<exists>x. e' = e\<lparr>av_height := x\<rparr>) \<and> heights ((heap m)(a \<mapsto> e')) (node_at s t a u)"
proof -
  have "avl_tree_subtree_height (av_child e s) m = Some (int (height t))"
    "avl_tree_subtree_height (av_child e (opp s)) m = Some (int (height u))"
    using assms subtree_height_spec by blast+
  with assms show ?thesis
    by (cases s) (auto simp: avl_tree_update_height_def mem_simps heights_node_at)
qed

section \<open>Replacing and rotating\<close>

lemma node_replace_spec:
  assumes c: "ctx_at avl_ops (heap m) (at_root_node tree) n1 q c" and n1: "heap m n1 = Some e1" "av_parent e1 = q" "n1 \<noteq> 0"
    and n2: "n2 = 0 \<or> heap m n2 = Some e2" "n1 \<noteq> n2"
    and fresh: "n1 \<notin> set (ctx_nodes c)" "n2 \<notin> set (ctx_nodes c)" "distinct (ctx_nodes c)"
  shows "\<exists>root' m'. avl_tree_node_replace tree n1 n2 m = Some (tree\<lparr>at_root_node := root'\<rparr>, m') \<and>
    ctx_at avl_ops (heap m') root' n2 q c \<and>
    (n2 \<noteq> 0 \<longrightarrow> heap m' n2 = Some (t_set_parent avl_ops q e2)) \<and>
    (\<forall>b. b \<noteq> n2 \<longrightarrow> (q \<noteq> 0 \<longrightarrow> b \<noteq> q) \<longrightarrow> heap m' b = heap m b) \<and> relinked av_data (hole_nodes n2 c) m m'"
proof -
  have "t_parent avl_ops e1 = q" using n1(2) by simp
  from avl_links.tree_replace_spec [OF c n1(1) this n1(3) n2 fresh] obtain root' m1 where r:
    "tree_replace avl_ops (at_root_node tree) n1 n2 m = Some (root', m1)" "ctx_at avl_ops (heap m1) root' n2 q c"
    "n2 \<noteq> 0 \<longrightarrow> heap m1 n2 = Some (t_set_parent avl_ops q e2)"
    "\<forall>b. b \<noteq> n2 \<longrightarrow> (q \<noteq> 0 \<longrightarrow> b \<noteq> q) \<longrightarrow> heap m1 b = heap m b"
    "relinked (\<lambda>e. (av_key e, av_value e, av_height e)) (hole_nodes n2 c) m m1" by blast
  from relinked_comp [OF r(5), of "\<lambda>(k, v, _). (k, v)"] have r5: "relinked av_data (hole_nodes n2 c) m m1" by simp
  have n1m: "heap m1 n1 = Some e1"
    using r(4) n1(1) n2(2) ctx_at_parent_in [OF c] fresh(1) by auto
  show ?thesis
  proof (cases c)
    case Nil
    then have "q = 0" using c by simp
    then have "avl_tree_node_replace tree n1 n2 m = Some (tree\<lparr>at_root_node := root'\<rparr>, m1)"
      using r(1) n1m n1(2,3) by (simp add: avl_tree_node_replace_def mem_simps)
    with r r5 show ?thesis by blast
  next
    case (Cons x c')
    obtain s a u where x: "x = (s, a, u)" by (cases x)
    from r(2) Cons x obtain f where f: "q = a" "a \<noteq> 0" "heap m1 a = Some f" "av_child f s = n2"
      "tree_at avl_ops (heap m1) a (av_child f (opp s)) u" by auto
    have an: "a \<noteq> n2" using fresh(2) Cons x by auto
    have "av_child f s' = 0 \<or> av_child f s' \<in> dom (heap m1)" for s'
      using side_cases [of s' s] f(4) r(3) tree_at_ptr [OF f(5)] by auto
    from update_height_ex [OF f(3,2) this] obtain h where up:
      "avl_tree_update_height a m1 = Some (m1\<lparr>heap := (heap m1)(a \<mapsto> f\<lparr>av_height := h\<rparr>)\<rparr>)" by blast
    let ?m = "m1\<lparr>heap := (heap m1)(a \<mapsto> f\<lparr>av_height := h\<rparr>)\<rparr>"
    have "avl_tree_node_replace tree n1 n2 m = Some (tree\<lparr>at_root_node := root'\<rparr>, ?m)"
      using r(1) n1m n1(2,3) f(1,2) up by (simp add: avl_tree_node_replace_def mem_simps)
    moreover have "ctx_at avl_ops (heap ?m) root' n2 q c"
      using r(2) ctx_at_upd_same [of "heap m1" a f avl_ops "f\<lparr>av_height := h\<rparr>"] f(3) by simp
    moreover have "relinked av_data (hole_nodes n2 c) m ?m"
      by (rule relinked_trans [OF r5 relinked_store [where A = "{a}", OF f(3)]]) (use Cons x in auto)
    moreover have "n2 \<noteq> 0 \<longrightarrow> heap ?m n2 = Some (t_set_parent avl_ops q e2)" using r(3) an by simp
    moreover have "\<forall>b. b \<noteq> n2 \<longrightarrow> (q \<noteq> 0 \<longrightarrow> b \<noteq> q) \<longrightarrow> heap ?m b = heap m b" using r(4) f(1,2) by simp
    ultimately show ?thesis by blast
  qed
qed

text \<open>A rotation: the three subtrees keep their heights, and the lower node gets the right one.\<close>

lemma rotate_spec:
  assumes at: "tree_at avl_ops (heap m) q a (node_at d A a (node_at d C b E))"
    and c: "ctx_at avl_ops (heap m) (at_root_node tree) a q c"
    and hs: "heights (heap m) A" "heights (heap m) C" "heights (heap m) E"
    and dist: "distinct (inorder (plug (node_at d A a (node_at d C b E)) c))"
  shows "\<exists>root' m'. avl_tree_rotate tree a d m = Some (b, tree\<lparr>at_root_node := root'\<rparr>, m') \<and>
    tree_at avl_ops (heap m') q b (node_at d (node_at d A a C) b E) \<and>
    ctx_at avl_ops (heap m') root' b q c \<and>
    heights (heap m') (node_at d A a C) \<and> heights (heap m') E \<and>
    relinked av_data (insert a (insert b (set_tree C \<union> set (take 1 (ctx_nodes c))))) m m' \<and>
    (\<forall>x. x \<noteq> a \<longrightarrow> x \<noteq> b \<longrightarrow> x \<notin> set (take 1 (ctx_nodes c)) \<longrightarrow>
       map_option av_height (heap m' x) = map_option av_height (heap m x))"
proof -
  let ?T = "node_at d A a (node_at d C b E)"
  let ?Q = "set (take 1 (ctx_nodes c))"
  have ds: "distinct (inorder ?T)" "distinct (ctx_nodes c)" "set_tree ?T \<inter> set (ctx_nodes c) = {}"
    using dist unfolding distinct_plug by blast+
  have ns: "a \<noteq> b" "a \<notin> set_tree A" "b \<notin> set_tree A" "a \<notin> set_tree C" "b \<notin> set_tree C" "a \<notin> set_tree E"
    "b \<notin> set_tree E"
    using ds(1) by (auto split: side.splits)
  have cs: "a \<notin> set (ctx_nodes c)" "b \<notin> set (ctx_nodes c)" "set_tree A \<inter> set (ctx_nodes c) = {}"
    "set_tree C \<inter> set (ctx_nodes c) = {}" "set_tree E \<inter> set (ctx_nodes c) = {}" using ds(3) by auto
  from at obtain n r where n: "heap m a = Some n" "a \<noteq> 0" "av_parent n = q" "tree_at avl_ops (heap m) a (av_child n d) A"
    and r: "av_child n (opp d) = b" "b \<noteq> 0" "heap m b = Some r" "av_parent r = a"
      "tree_at avl_ops (heap m) b (av_child r d) C" "tree_at avl_ops (heap m) b (av_child r (opp d)) E" by auto
  from node_replace_spec [OF c n(1,3,2) disjI2 [OF r(3)] ns(1) cs(1,2) ds(2)] r(2) obtain root' m1 where
    m1: "avl_tree_node_replace tree a b m = Some (tree\<lparr>at_root_node := root'\<rparr>, m1)"
      "ctx_at avl_ops (heap m1) root' b q c" "heap m1 b = Some (t_set_parent avl_ops q r)"
      "\<And>x. x \<noteq> b \<Longrightarrow> (q \<noteq> 0 \<Longrightarrow> x \<noteq> q) \<Longrightarrow> heap m1 x = heap m x" "relinked av_data (hole_nodes b c) m m1" by blast
  have q: "q = 0 \<or> q \<in> ?Q" using ctx_at_parent_eq [OF c] by (auto split: list.splits)
  have Q: "?Q \<subseteq> set (ctx_nodes c)" by (rule set_take_subset)
  have same: "heap m1 x = heap m x" if "x \<noteq> b" "x \<notin> set (ctx_nodes c)" for x
    using m1(4) that q Q by blast
  have at1: "tree_at avl_ops (heap m1) a (av_child n d) A" "tree_at avl_ops (heap m1) b (av_child r d) C"
    "tree_at avl_ops (heap m1) b (av_child r (opp d)) E"
    by (rule tree_at_cong [OF same]; use n r ns cs in blast)+
  have n1: "heap m1 a = Some n" using same ns cs n by simp
  let ?r = "t_set_parent avl_ops q r"
  have "av_child ?r = av_child r" "t_parent avl_ops ?r = q" by simp_all
  with avl_links.rotate_links_spec [OF n1 n(2) r(1) m1(3) r(2) _ at1(1), of q C E] at1(2,3) ds(1) obtain m2 n' r' where m2:
    "rotate_links avl_ops a b d m1 = Some m2" "tree_at avl_ops (heap m2) q b (node_at d (node_at d A a C) b E)"
    "relinked (\<lambda>e. (av_key e, av_value e, av_height e)) (insert a (insert b (set_tree C))) m1 m2" by auto
  have ctx2: "ctx_at avl_ops (heap m2) root' b q c"
    by (rule ctx_at_cong [OF _ m1(2)], rule relinked_frame [OF m2(3)]) (use cs in auto)
  have h12: "map_option av_height (heap m2 x) = map_option av_height (heap m1 x)" for x
    using relinked_comp [OF m2(3), of "\<lambda>(_, _, x). x"] by (simp add: relinked_def)
  have hs2: "heights (heap m2) A" "heights (heap m2) C" "heights (heap m2) E"
    by (rule heights_cong [OF _ hs(1)] heights_cong [OF _ hs(2)] heights_cong [OF _ hs(3)];
        simp add: h12; rule arg_cong [where f = "map_option av_height"], rule same; use ns cs in blast)+
  from m2(2) obtain e2 f2 where e2: "heap m2 b = Some e2" "av_child e2 d = a" "tree_at avl_ops (heap m2) b (av_child e2 (opp d)) E"
    and f2: "heap m2 a = Some f2" "tree_at avl_ops (heap m2) a (av_child f2 d) A"
      "tree_at avl_ops (heap m2) a (av_child f2 (opp d)) C" by auto
  have "av_child e2 s' = 0 \<or> av_child e2 s' \<in> dom (heap m2)" for s'
    using side_cases [of s' d] e2(2) f2(1) tree_at_ptr [OF e2(3)] by auto
  from update_height_ex [OF e2(1) r(2) this] obtain x where up1:
    "avl_tree_update_height b m2 = Some (m2\<lparr>heap := (heap m2)(b \<mapsto> e2\<lparr>av_height := x\<rparr>)\<rparr>)" by blast
  define m3 where "m3 = m2\<lparr>heap := (heap m2)(b \<mapsto> e2\<lparr>av_height := x\<rparr>)\<rparr>"
  have f3: "heap m3 a = Some f2" "tree_at avl_ops (heap m3) a (av_child f2 d) A"
    "tree_at avl_ops (heap m3) a (av_child f2 (opp d)) C" "heights (heap m3) A" "heights (heap m3) C" "heights (heap m3) E"
    using f2 ns hs2 by (simp_all add: m3_def)
  from update_height_spec [OF f3(1) n(2) f3(2-5) ns(2,4)] obtain f4 y where up2:
    "avl_tree_update_height a m3 = Some (m3\<lparr>heap := (heap m3)(a \<mapsto> f4)\<rparr>)" "f4 = f2\<lparr>av_height := y\<rparr>"
    "heights ((heap m3)(a \<mapsto> f4)) (node_at d A a C)" by blast
  let ?m = "m3\<lparr>heap := (heap m3)(a \<mapsto> f4)\<rparr>"
  have "avl_tree_rotate tree a d m = Some (b, tree\<lparr>at_root_node := root'\<rparr>, ?m)"
    using n r(1) m1(1) m2(1) up1 up2(1) by (simp add: avl_tree_rotate_def mem_simps m3_def)
  moreover have "tree_at avl_ops (heap ?m) q b (node_at d (node_at d A a C) b E)"
    using m2(2) tree_at_upd_same [of "heap m2" b e2 avl_ops "e2\<lparr>av_height := x\<rparr>"] e2(1)
      tree_at_upd_same [of "heap m3" a f2 avl_ops f4] f3(1) up2(2) by (simp add: m3_def del: tree_at_node_at)
  moreover have "ctx_at avl_ops (heap ?m) root' b q c" using ctx2 cs by (simp add: m3_def)
  moreover have "heights (heap ?m) E" using f3(6) ns by simp
  moreover have "relinked av_data (insert a (insert b (set_tree C \<union> ?Q))) m ?m"
  proof -
    from relinked_comp [OF m2(3), of "\<lambda>(k, v, _). (k, v)"]
    have "relinked av_data (insert a (insert b (set_tree C))) m1 m2" by simp
    moreover have "relinked av_data {b} m2 m3" unfolding m3_def by (rule relinked_store [OF e2(1)]) simp_all
    moreover have "relinked av_data {a} m3 ?m" by (rule relinked_store [OF f3(1)]) (simp_all add: up2(2))
    ultimately have "relinked av_data (insert a (insert b (set_tree C))) m1 ?m"
      by (meson relinked_trans insertCI empty_subsetI insert_subset subset_refl)
    from relinked_trans [OF m1(5) this, of "insert a (insert b (set_tree C \<union> ?Q))"] show ?thesis
      using r(2) by (auto simp: hole_nodes_def)
  qed
  moreover have "map_option av_height (heap ?m x) = map_option av_height (heap m x)"
    if "x \<noteq> a" "x \<noteq> b" "x \<notin> ?Q" for x
  proof -
    have "heap m1 x = heap m x" using m1(4) that q by blast
    with that h12 [of x] show ?thesis by (simp add: m3_def)
  qed
  moreover have "heights (heap ?m) (node_at d A a C)" using up2(3) by simp
  ultimately show ?thesis by (intro exI [of _ root'] exI [of _ ?m] conjI allI impI) assumption+
qed

section \<open>Balancing\<close>

text \<open>The balancing of a node, on trees of addresses.\<close>

fun rot :: "side \<Rightarrow> addr tree \<Rightarrow> addr tree" where
  "rot Side_Left (Node A a (Node C b E)) = Node (Node A a C) b E"
| "rot Side_Right (Node (Node E b C) a A) = Node E b (Node C a A)"
| "rot _ t = t"

fun lean :: "side \<Rightarrow> addr tree \<Rightarrow> addr tree" where
  "lean Side_Left (Node A a (Node C b E)) =
     rot Side_Left (Node A a (if height E < height C then rot Side_Right (Node C b E) else Node C b E))"
| "lean Side_Right (Node (Node E b C) a A) =
     rot Side_Right (Node (if height E < height C then rot Side_Left (Node E b C) else Node E b C) a A)"
| "lean _ t = t"

definition balance :: "addr tree \<Rightarrow> addr \<Rightarrow> addr tree \<Rightarrow> addr tree" where
  "balance t a u =
     (if height u \<ge> height t + 2 then lean Side_Left (Node t a u)
      else if height t \<ge> height u + 2 then lean Side_Right (Node t a u)
      else Node t a u)"

fun bal_up :: "addr tree \<Rightarrow> ctx \<Rightarrow> addr tree" where
  "bal_up t [] = t"
| "bal_up t ((s, a, u) # c) = bal_up (case s of Side_Left \<Rightarrow> balance t a u | Side_Right \<Rightarrow> balance u a t) c"

text \<open>The AVL condition.\<close>

fun avl :: "'a tree \<Rightarrow> bool" where
  "avl Leaf \<longleftrightarrow> True"
| "avl (Node t a u) \<longleftrightarrow> height t \<le> height u + 1 \<and> height u \<le> height t + 1 \<and> avl t \<and> avl u"

lemma rot_node_at: "rot d (node_at d A a (node_at d C b E)) = node_at d (node_at d A a C) b E"
  by (cases d) (simp_all add: node_at_def)

lemma lean_node_at: "lean d (node_at d A a (node_at d C b E)) =
    rot d (node_at d A a (if height E < height C then rot (opp d) (node_at d C b E) else node_at d C b E))"
  by (cases d) (simp_all add: node_at_def)

lemma balance_node_at:
  "height t \<ge> height u + 2 \<Longrightarrow> (case s of Side_Left \<Rightarrow> balance t a u | Side_Right \<Rightarrow> balance u a t) = lean (opp s) (node_at s t a u)"
  by (auto simp: balance_def node_at_def split: side.splits)

lemma inorder_rot [simp]: "inorder (rot d t) = inorder t"
  by (induction d t rule: rot.induct) simp_all

lemma inorder_lean [simp]: "inorder (lean d t) = inorder t"
  by (induction d t rule: lean.induct) simp_all

lemma inorder_balance [simp]: "inorder (balance t a u) = inorder t @ a # inorder u"
  by (simp add: balance_def)

lemma inorder_bal_up: "inorder (bal_up t c) = before c @ inorder t @ after c"
  by (induction t c rule: bal_up.induct) (simp_all split: side.splits)

text \<open>Balancing repairs a difference of two, and changes the height by at most one.\<close>

lemma balance_avl:
  assumes "avl t" "avl u" "height t \<le> height u + 2" "height u \<le> height t + 2"
  shows "avl (balance t a u) \<and> max (height t) (height u) \<le> height (balance t a u) \<and>
    height (balance t a u) \<le> Suc (max (height t) (height u)) \<and>
    (height t \<le> height u + 1 \<and> height u \<le> height t + 1 \<longrightarrow> balance t a u = Node t a u)"
proof -
  consider "height u = height t + 2" | "height t = height u + 2"
    | "height t \<le> height u + 1" "height u \<le> height t + 1" using assms(3,4) by linarith
  then show ?thesis
  proof cases
    case 1
    then obtain C b E where u: "u = Node C b E" by (cases u) auto
    show ?thesis
    proof (cases "height E < height C")
      case True
      then obtain x y z where "C = Node x y z" by (cases C) auto
      with 1 True u assms show ?thesis by (auto simp: balance_def)
    next
      case False
      with 1 u assms show ?thesis by (auto simp: balance_def)
    qed
  next
    case 2
    then obtain E b C where t: "t = Node E b C" by (cases t) auto
    show ?thesis
    proof (cases "height E < height C")
      case True
      then obtain x y z where "C = Node x y z" by (cases C) auto
      with 2 True t assms show ?thesis by (auto simp: balance_def)
    next
      case False
      with 2 t assms show ?thesis by (auto simp: balance_def)
    qed
  next
    case 3
    with assms show ?thesis by (auto simp: balance_def)
  qed
qed

text \<open>
  Balancing on the way to the root, below which the tree \<open>t\<close> took the place of a tree \<open>u\<close> whose
  height differs by at most one.
\<close>

lemma avl_plug: "avl (plug t c) \<Longrightarrow> avl t"
  by (induction t c rule: plug.induct) (auto simp: node_at_def split: side.splits)

lemma avl_plug_cong: "avl (plug t c) \<Longrightarrow> avl u \<Longrightarrow> height u = height t \<Longrightarrow> avl (plug u c)"
proof (induction t c arbitrary: u rule: plug.induct)
  case (2 t s a v c)
  show ?case
    using 2(1) [of "node_at s u a v"] 2(2-4) avl_plug [of "node_at s t a v" c]
    by (cases s) (auto simp: node_at_def)
qed simp

lemma bal_up_avl:
  "avl (plug u c) \<Longrightarrow> avl t \<Longrightarrow> height t \<le> height u + 1 \<Longrightarrow> height u \<le> height t + 1 \<Longrightarrow>
   avl (bal_up t c) \<and> height (bal_up t c) \<le> height (plug u c) + 1 \<and> height (plug u c) \<le> height (bal_up t c) + 1"
proof (induction u c arbitrary: t rule: plug.induct)
  case (2 u s a v c)
  have o: "avl (node_at s u a v)"
    using avl_plug 2(2) by simp
  let ?b = "case s of Side_Left \<Rightarrow> balance t a v | Side_Right \<Rightarrow> balance v a t"
  have "avl ?b \<and> height ?b \<le> height (node_at s u a v) + 1 \<and> height (node_at s u a v) \<le> height ?b + 1"
    using o 2(3-5) balance_avl [of t v a] balance_avl [of v t a] by (cases s) (auto simp: node_at_def)
  with 2(1) [of ?b] 2(2) show ?case by simp
qed simp

section \<open>Balancing in memory\<close>

definition path :: "ctx \<Rightarrow> addr list" where
  "path c = map (\<lambda>(s, a, u). a) c"

definition ctx_heights :: "(addr \<rightharpoonup> avl_tree_node) \<Rightarrow> ctx \<Rightarrow> bool" where
  "ctx_heights h c \<longleftrightarrow> (\<forall>(s, a, u) \<in> set c. heights h u)"

text \<open>The subtree \<open>t\<close> at \<open>p\<close> below \<open>q\<close>, in the context \<open>c\<close>; the heights beside the context are right.\<close>

definition focus :: "avmem \<Rightarrow> addr \<Rightarrow> addr tree \<Rightarrow> addr \<Rightarrow> addr \<Rightarrow> ctx \<Rightarrow> bool" where
  "focus m root t p q c \<longleftrightarrow> tree_at avl_ops (heap m) q p t \<and> ctx_at avl_ops (heap m) root p q c \<and>
     distinct (inorder (plug t c)) \<and> ctx_heights (heap m) c"

lemma path_simps [simp]: "path [] = []" "path ((s, a, u) # c) = a # path c"
  by (simp_all add: path_def)

lemma ctx_heights_simps [simp]: "ctx_heights h []"
  "ctx_heights h ((s, a, u) # c) \<longleftrightarrow> heights h u \<and> ctx_heights h c"
  by (auto simp: ctx_heights_def)

lemma path_subset: "set (path c) \<subseteq> set (ctx_nodes c)"
  by (induction c rule: ctx_nodes.induct) auto

lemma take_path: "set (take 1 (ctx_nodes c)) \<subseteq> set (path c)"
  by (cases c rule: ctx_nodes.cases) auto

text \<open>The heights beside the context only depend on the nodes off the path.\<close>

lemma ctx_heights_cong:
  "(\<And>x. x \<in> set (ctx_nodes c) \<Longrightarrow> x \<notin> set (path c) \<Longrightarrow>
      map_option av_height (h' x) = map_option av_height (h x)) \<Longrightarrow>
   distinct (ctx_nodes c) \<Longrightarrow> ctx_heights h c \<Longrightarrow> ctx_heights h' c"
proof (induction c rule: ctx_nodes.induct)
  case (2 s a u c)
  have d: "distinct (ctx_nodes c)" "a \<notin> set_tree u" "set_tree u \<inter> set (ctx_nodes c) = {}" "a \<notin> set (ctx_nodes c)"
    using 2(3) by auto
  have "heights h' u"
    by (rule heights_cong [where h = h]) (use 2(2,4) d path_subset [of c] in auto)
  moreover have "ctx_heights h' c"
    by (rule 2(1)) (use 2(2,4) d path_subset [of c] in auto)
  ultimately show ?case by simp
qed simp

lemma path_append [simp]: "path (c @ c') = path c @ path c'"
  by (simp add: path_def)

lemma focus_nonzero: "focus m root t p q c \<Longrightarrow> 0 \<notin> set_tree (plug t c)"
  unfolding focus_def by (metis tree_at_nonzero tree_at_plug)

lemma focus_up:
  "focus m root t p q ((s, a, u) # c) \<Longrightarrow>
   \<exists>q'. focus m root (node_at s t a u) a q' c \<and> q = a \<and> heights (heap m) u"
  by (auto simp: focus_def)

lemma focus_parent: "focus m root t p q c \<Longrightarrow> focus m' root' t' p' q' c \<Longrightarrow> q' = q"
  unfolding focus_def by (metis ctx_at_parent_eq)

lemma focus_rotate:
  assumes f: "focus m (at_root_node tree) (node_at d A a (node_at d C b E)) a q c"
    and hs: "heights (heap m) A" "heights (heap m) C" "heights (heap m) E"
  shows "\<exists>root' m'. avl_tree_rotate tree a d m = Some (b, tree\<lparr>at_root_node := root'\<rparr>, m') \<and>
    focus m' root' (node_at d (node_at d A a C) b E) b q c \<and>
    heights (heap m') (node_at d A a C) \<and> heights (heap m') E \<and>
    relinked av_data (set_tree (plug (node_at d A a (node_at d C b E)) c)) m m'"
proof -
  let ?T = "node_at d A a (node_at d C b E)" and ?U = "node_at d (node_at d A a C) b E"
  from f have at: "tree_at avl_ops (heap m) q a ?T" and c: "ctx_at avl_ops (heap m) (at_root_node tree) a q c"
    and dist: "distinct (inorder (plug ?T c))" and ch: "ctx_heights (heap m) c" by (simp_all add: focus_def del: tree_at_node_at)
  from rotate_spec [OF at c hs dist] obtain root' m' where r:
    "avl_tree_rotate tree a d m = Some (b, tree\<lparr>at_root_node := root'\<rparr>, m')"
    "tree_at avl_ops (heap m') q b ?U" "ctx_at avl_ops (heap m') root' b q c"
    "heights (heap m') (node_at d A a C)" "heights (heap m') E"
    "relinked av_data (insert a (insert b (set_tree C \<union> set (take 1 (ctx_nodes c))))) m m'"
    "\<forall>x. x \<noteq> a \<longrightarrow> x \<noteq> b \<longrightarrow> x \<notin> set (take 1 (ctx_nodes c)) \<longrightarrow>
       map_option av_height (heap m' x) = map_option av_height (heap m x)"
    by (elim exE conjE) blast
  have dc: "distinct (ctx_nodes c)" "a \<notin> set (ctx_nodes c)" "b \<notin> set (ctx_nodes c)"
    using dist unfolding distinct_plug by auto
  have "ctx_heights (heap m') c"
    by (rule ctx_heights_cong [OF _ dc(1) ch], rule r(7) [rule_format]) (use dc take_path [of c] in auto)
  moreover have "inorder (plug ?U c) = inorder (plug ?T c)" by (simp add: inorder_plug split: side.splits)
  ultimately have "focus m' root' ?U b q c" using r(2,3) dist by (simp add: focus_def del: tree_at_node_at)
  moreover have "relinked av_data (set_tree (plug ?T c)) m m'"
    by (rule relinked_mono [OF r(6)]) (use set_take_subset [of 1 "ctx_nodes c"] in \<open>auto simp: set_plug\<close>)
  ultimately show ?thesis using r by blast
qed

lemma relinked_whole:
  assumes "relinked av_data (set_tree (plug t c)) m m1" "relinked av_data (set_tree (plug u c')) m1 m2"
    "inorder (plug u c') = inorder (plug t c)"
  shows "relinked av_data (set_tree (plug t c)) m m2"
proof -
  from assms(3) have "set_tree (plug u c') = set_tree (plug t c)" by (metis set_inorder)
  with assms(1,2) show ?thesis by (auto intro: relinked_trans)
qed

lemma lean_spec:
  assumes f: "focus m (at_root_node tree) (node_at d A a B) a q c"
    and hs: "heights (heap m) A" "heights (heap m) B" and hi: "height B \<ge> height A + 2"
  shows "\<exists>b x y root' m'. avl_tree_lean tree a d m = Some (b, tree\<lparr>at_root_node := root'\<rparr>, m') \<and>
    lean d (node_at d A a B) = node_at d x b y \<and> focus m' root' (node_at d x b y) b q c \<and>
    heights (heap m') x \<and> heights (heap m') y \<and>
    relinked av_data (set_tree (plug (node_at d A a B) c)) m m'"
proof -
  from hi have "B \<noteq> Leaf" by auto
  then obtain C b E where B: "B = node_at d C b E" by (rule node_at_cases)
  from f B obtain n r where n: "heap m a = Some n" "a \<noteq> 0" "av_child n (opp d) = b"
    and r: "b \<noteq> 0" "heap m b = Some r" "tree_at avl_ops (heap m) b (av_child r d) C"
      "tree_at avl_ops (heap m) b (av_child r (opp d)) E" by (auto simp: focus_def)
  from hs(2) B have hh: "heights (heap m) C" "heights (heap m) E" by (simp_all add: heights_node_at)
  note ht = subtree_height_spec [OF r(3) hh(1)] subtree_height_spec [OF r(4) hh(2)]
  show ?thesis
  proof (cases "height E < height C")
    case False
    from focus_rotate [OF f [unfolded B] hs(1) hh] obtain root' m' where m':
      "avl_tree_rotate tree a d m = Some (b, tree\<lparr>at_root_node := root'\<rparr>, m')"
      "focus m' root' (node_at d (node_at d A a C) b E) b q c" "heights (heap m') (node_at d A a C)"
      "heights (heap m') E" "relinked av_data (set_tree (plug (node_at d A a B) c)) m m'" by (simp only: B) blast
    from False n r ht m'(1) have "avl_tree_lean tree a d m = Some (b, tree\<lparr>at_root_node := root'\<rparr>, m')"
      by (simp add: avl_tree_lean_def mem_simps Let_def)
    moreover have "lean d (node_at d A a B) = node_at d (node_at d A a C) b E"
      using False by (simp add: B lean_node_at rot_node_at)
    ultimately show ?thesis using m' by blast
  next
    case True
    then have "C \<noteq> Leaf" by auto
    then obtain x z y where C: "C = node_at d x z y" by (rule node_at_cases)
    have Bo: "B = node_at (opp d) E b (node_at (opp d) y z x)" by (simp add: B C node_at_opp)
    have fb: "focus m (at_root_node tree) B b a ((opp d, a, A) # c)"
      using f n by (auto simp: focus_def node_at_opp B hs(1))
    from hh(1) have hc: "heights (heap m) y" "heights (heap m) x" by (simp_all add: C heights_node_at)
    from focus_rotate [OF fb [unfolded Bo] hh(2) hc] obtain root1 m1 where m1:
      "avl_tree_rotate tree b (opp d) m = Some (z, tree\<lparr>at_root_node := root1\<rparr>, m1)"
      "focus m1 root1 (node_at (opp d) (node_at (opp d) E b y) z x) z a ((opp d, a, A) # c)"
      "heights (heap m1) (node_at (opp d) E b y)" "heights (heap m1) x"
      "relinked av_data (set_tree (plug B ((opp d, a, A) # c))) m m1" by (simp only: Bo) blast
    let ?Y = "node_at (opp d) E b y"
    obtain q' where "focus m1 root1 (node_at d A a (node_at d x z ?Y)) a q' c" "heights (heap m1) A"
      using focus_up [OF m1(2)] by (auto simp: node_at_opp)
    with focus_parent [OF f] have f1: "focus m1 root1 (node_at d A a (node_at d x z ?Y)) a q c" by metis
    from f1 have "focus m1 (at_root_node (tree\<lparr>at_root_node := root1\<rparr>)) (node_at d A a (node_at d x z ?Y)) a q c" by simp
    from focus_rotate [OF this \<open>heights (heap m1) A\<close> m1(4,3)] obtain root' m' where m':
      "avl_tree_rotate (tree\<lparr>at_root_node := root1\<rparr>) a d m1 = Some (z, tree\<lparr>at_root_node := root'\<rparr>, m')"
      "focus m' root' (node_at d (node_at d A a x) z ?Y) z q c" "heights (heap m') (node_at d A a x)"
      "heights (heap m') ?Y" "relinked av_data (set_tree (plug (node_at d A a (node_at d x z ?Y)) c)) m1 m'"
      by auto
    from True n r ht m1(1) m'(1) have "avl_tree_lean tree a d m = Some (z, tree\<lparr>at_root_node := root'\<rparr>, m')"
      by (simp add: avl_tree_lean_def mem_simps Let_def)
    moreover have "lean d (node_at d A a B) = node_at d (node_at d A a x) z ?Y"
    proof -
      have "rot (opp d) B = node_at d x z ?Y"
        unfolding Bo rot_node_at by (simp add: node_at_opp)
      then show ?thesis using True unfolding B lean_node_at by (simp add: rot_node_at)
    qed
    moreover have "relinked av_data (set_tree (plug (node_at d A a B) c)) m m'"
    proof (rule relinked_whole)
      show "relinked av_data (set_tree (plug (node_at d A a B) c)) m m1"
        using m1(5) by (simp add: node_at_opp)
      show "inorder (plug (node_at d A a (node_at d x z ?Y)) c) = inorder (plug (node_at d A a B) c)"
        by (simp add: inorder_plug B C node_at_opp split: side.splits)
    qed (rule m'(5))
    ultimately show ?thesis using m' by blast
  qed
qed

text \<open>\<open>avl_tree_node_balance\<close> does what \<open>balance\<close> does, and leaves the right heights.\<close>

lemma node_balance_spec:
  assumes f: "focus m (at_root_node tree) (Node t a u) a q c"
    and hs: "heights (heap m) t" "heights (heap m) u"
  shows "\<exists>b root' m'. avl_tree_node_balance tree a m = Some (b, tree\<lparr>at_root_node := root'\<rparr>, m') \<and>
    focus m' root' (balance t a u) b q c \<and> heights (heap m') (balance t a u) \<and>
    relinked av_data (set_tree (plug (Node t a u) c)) m m'"
proof -
  from f obtain n where n: "heap m a = Some n" "a \<noteq> 0" "tree_at avl_ops (heap m) a (av_left n) t"
    "tree_at avl_ops (heap m) a (av_right n) u" by (auto simp: focus_def)
  note ht = subtree_height_spec [OF n(3) hs(1)] subtree_height_spec [OF n(4) hs(2)]
  have "\<exists>s b x y root1 m1.
    (if int (height u) - int (height t) \<ge> 2 then avl_tree_lean tree a Side_Left m
     else if int (height u) - int (height t) \<le> - 2 then avl_tree_lean tree a Side_Right m
     else Some (a, tree, m)) = Some (b, tree\<lparr>at_root_node := root1\<rparr>, m1) \<and>
    balance t a u = node_at s x b y \<and> focus m1 root1 (node_at s x b y) b q c \<and>
    heights (heap m1) x \<and> heights (heap m1) y \<and> relinked av_data (set_tree (plug (Node t a u) c)) m m1"
  proof -
    consider "height u \<ge> height t + 2" | "height t \<ge> height u + 2" | "height u < height t + 2" "height t < height u + 2"
      by linarith
    then show ?thesis
    proof cases
      case 1
      have N: "Node t a u = node_at Side_Left t a u" by (simp add: node_at_def)
      from lean_spec [OF f [unfolded N] hs 1] obtain b x y root' m' where
        "avl_tree_lean tree a Side_Left m = Some (b, tree\<lparr>at_root_node := root'\<rparr>, m')"
        "lean Side_Left (node_at Side_Left t a u) = node_at Side_Left x b y"
        "focus m' root' (node_at Side_Left x b y) b q c" "heights (heap m') x" "heights (heap m') y"
        "relinked av_data (set_tree (plug (node_at Side_Left t a u) c)) m m'" by blast
      with 1 show ?thesis
        by (intro exI [of _ Side_Left] exI [of _ b] exI [of _ x] exI [of _ y] exI [of _ root'] exI [of _ m'])
          (simp add: balance_def N)
    next
      case 2
      have N: "Node t a u = node_at Side_Right u a t" by (simp add: node_at_def)
      from lean_spec [OF f [unfolded N] hs(2,1) 2] obtain b x y root' m' where
        "avl_tree_lean tree a Side_Right m = Some (b, tree\<lparr>at_root_node := root'\<rparr>, m')"
        "lean Side_Right (node_at Side_Right u a t) = node_at Side_Right x b y"
        "focus m' root' (node_at Side_Right x b y) b q c" "heights (heap m') x" "heights (heap m') y"
        "relinked av_data (set_tree (plug (node_at Side_Right u a t) c)) m m'" by blast
      with 2 show ?thesis
        by (intro exI [of _ Side_Right] exI [of _ b] exI [of _ x] exI [of _ y] exI [of _ root'] exI [of _ m'])
          (simp add: balance_def N)
    next
      case 3
      have N: "Node t a u = node_at Side_Left t a u" by (simp add: node_at_def)
      from 3 f hs show ?thesis
        by (intro exI [of _ Side_Left] exI [of _ a] exI [of _ t] exI [of _ u] exI [of _ "at_root_node tree"] exI [of _ m])
          (auto simp: balance_def N)
    qed
  qed
  then obtain s b x y root1 m1 where l:
    "(if int (height u) - int (height t) \<ge> 2 then avl_tree_lean tree a Side_Left m
     else if int (height u) - int (height t) \<le> - 2 then avl_tree_lean tree a Side_Right m
     else Some (a, tree, m)) = Some (b, tree\<lparr>at_root_node := root1\<rparr>, m1)"
    "balance t a u = node_at s x b y" "focus m1 root1 (node_at s x b y) b q c"
    "heights (heap m1) x" "heights (heap m1) y" "relinked av_data (set_tree (plug (Node t a u) c)) m m1"
    by (elim exE conjE) blast
  from l(3) obtain e where e: "heap m1 b = Some e" "b \<noteq> 0" "tree_at avl_ops (heap m1) b (av_child e s) x"
    "tree_at avl_ops (heap m1) b (av_child e (opp s)) y" by (auto simp: focus_def)
  have db: "b \<notin> set_tree x" "b \<notin> set_tree y" "b \<notin> set (ctx_nodes c)"
    using l(3) unfolding focus_def distinct_plug by (auto split: side.splits)
  from update_height_spec [OF e l(4,5) db(1,2)] obtain e' z where up:
    "avl_tree_update_height b m1 = Some (m1\<lparr>heap := (heap m1)(b \<mapsto> e')\<rparr>)" "e' = e\<lparr>av_height := z\<rparr>"
    "heights ((heap m1)(b \<mapsto> e')) (node_at s x b y)" by blast
  let ?m = "m1\<lparr>heap := (heap m1)(b \<mapsto> e')\<rparr>"
  have links: "av_child e' = av_child e" "t_parent avl_ops e' = t_parent avl_ops e" by (simp_all add: up(2))
  have "avl_tree_node_balance tree a m = Some (b, tree\<lparr>at_root_node := root1\<rparr>, ?m)"
    using n ht l(1) up(1) by (simp add: avl_tree_node_balance_def mem_simps Let_def)
  moreover have "focus ?m root1 (balance t a u) b q c"
  proof -
    have "ctx_heights (heap ?m) c"
      by (rule ctx_heights_cong [where h = "heap m1"]) (use l(3) db(3) in \<open>auto simp: focus_def distinct_plug\<close>)
    with l(3) show ?thesis
      unfolding l(2) focus_def using tree_at_upd_same [of "heap m1" b e, OF e(1) links]
        ctx_at_upd_same [of "heap m1" b e, OF e(1) links] by (simp del: tree_at_node_at)
  qed
  moreover have "relinked av_data (set_tree (plug (Node t a u) c)) m ?m"
  proof (rule relinked_whole [OF l(6)])
    show "relinked av_data (set_tree (plug (balance t a u) c)) m1 ?m"
      by (rule relinked_store [OF e(1)]) (simp_all add: up(2) l(2) set_plug)
    show "inorder (plug (balance t a u) c) = inorder (plug (Node t a u) c)" by (simp add: inorder_plug)
  qed
  ultimately show ?thesis using up(3) l(2) by (intro exI [of _ b] exI [of _ root1] exI [of _ ?m]) simp
qed

text \<open>Balancing on the whole way to the root.\<close>

lemma balance_to_root_spec:
  "focus m (at_root_node tree) t p q c \<Longrightarrow> heights (heap m) t \<Longrightarrow>
   \<exists>root' m'. avl_tree_balance_to_root tree q m = Some (tree\<lparr>at_root_node := root'\<rparr>, m') \<and>
     tree_at avl_ops (heap m') 0 root' (bal_up t c) \<and> heights (heap m') (bal_up t c) \<and>
     relinked av_data (set_tree (plug t c)) m m'"
proof (induction t c arbitrary: tree m p q rule: bal_up.induct)
  case (1 t)
  then show ?case
    by (subst avl_tree_balance_to_root.simps, intro exI [of _ p] exI [of _ m]) (auto simp: focus_def)
next
  case (2 t s a u c)
  let ?x = "case s of Side_Left \<Rightarrow> t | Side_Right \<Rightarrow> u"
  let ?y = "case s of Side_Left \<Rightarrow> u | Side_Right \<Rightarrow> t"
  from focus_up [OF 2(2)] obtain q1 where f: "focus m (at_root_node tree) (Node ?x a ?y) a q1 c" "q = a"
    "heights (heap m) u" by (auto simp: node_at_def split: side.splits)
  have hs: "heights (heap m) ?x" "heights (heap m) ?y" using 2(3) f(3) by (cases s; simp)+
  from node_balance_spec [OF f(1) hs] obtain b root1 m1 where m1:
    "avl_tree_node_balance tree a m = Some (b, tree\<lparr>at_root_node := root1\<rparr>, m1)"
    "focus m1 root1 (balance ?x a ?y) b q1 c" "heights (heap m1) (balance ?x a ?y)"
    "relinked av_data (set_tree (plug (Node ?x a ?y) c)) m m1" by blast
  have eq: "(case s of Side_Left \<Rightarrow> balance t a u | Side_Right \<Rightarrow> balance u a t) = balance ?x a ?y"
    by (cases s) simp_all
  have pl: "plug t ((s, a, u) # c) = plug (Node ?x a ?y) c" by (cases s) (simp_all add: node_at_def)
  from m1(2,3) 2(1) [of m1 "tree\<lparr>at_root_node := root1\<rparr>" b q1] obtain root' m' where m':
    "avl_tree_balance_to_root (tree\<lparr>at_root_node := root1\<rparr>) q1 m1 = Some (tree\<lparr>at_root_node := root'\<rparr>, m')"
    "tree_at avl_ops (heap m') 0 root' (bal_up (balance ?x a ?y) c)" "heights (heap m') (bal_up (balance ?x a ?y) c)"
    "relinked av_data (set_tree (plug (balance ?x a ?y) c)) m1 m'" by (auto simp: eq)
  from m1(2) have "balance ?x a ?y \<noteq> Leaf" using inorder_balance [of ?x a ?y] by (metis append_is_Nil_conv inorder.simps(1) list.distinct(1))
  with m1(2) obtain e where e: "heap m1 b = Some e" "b \<noteq> 0" "av_parent e = q1"
    unfolding focus_def by (cases "balance ?x a ?y") auto
  have a0: "a \<noteq> 0" using f(1) by (simp add: focus_def)
  have "avl_tree_balance_to_root tree q m = Some (tree\<lparr>at_root_node := root'\<rparr>, m')"
    using m1(1) m'(1) e a0 f(2) by (subst avl_tree_balance_to_root.simps) (simp add: mem_simps)
  moreover have "relinked av_data (set_tree (plug t ((s, a, u) # c))) m m'"
    unfolding pl by (rule relinked_whole [OF m1(4) m'(4)]) (simp add: inorder_plug)
  ultimately show ?case using m'(2,3) eq by auto
qed

section \<open>The representation\<close>

definition av_entry :: "avmem \<Rightarrow> addr \<Rightarrow> val \<times> val" where
  "av_entry m a = av_data (the (heap m a))"

text \<open>
  \<open>avl_rep m tree t es\<close>: in memory is the tree of nodes \<open>t\<close>, with the right links, heights and
  number of nodes; it satisfies the AVL condition, and its entries \<open>es\<close> are in the order of
  their keys.
\<close>

definition avl_rep :: "avmem \<Rightarrow> avl_tree \<Rightarrow> addr tree \<Rightarrow> (val \<times> val) list \<Rightarrow> bool" where
  "avl_rep m tree t es \<longleftrightarrow> tree_at avl_ops (heap m) 0 (at_root_node tree) t \<and> distinct (inorder t) \<and>
     heights (heap m) t \<and> avl t \<and> at_num_nodes tree = of_nat (size t) \<and>
     es = map (av_entry m) (inorder t) \<and> ordered (at_compare_func tree) fst es"

text \<open>Insertion behind the entries whose keys are not larger.\<close>

definition insert_entry :: "(val \<Rightarrow> val \<Rightarrow> int) \<Rightarrow> val \<Rightarrow> val \<Rightarrow> (val \<times> val) list \<Rightarrow> (val \<times> val) list" where
  "insert_entry cmp key v es =
     takeWhile (\<lambda>e. \<not> cmp key (fst e) < 0) es @ (key, v) # dropWhile (\<lambda>e. \<not> cmp key (fst e) < 0) es"

lemma relinked_entry: "relinked av_data A m m' \<Longrightarrow> av_entry m' a = av_entry m a"
  unfolding av_entry_def by (rule relinked_key)

lemma takeWhile_entries:
  "takeWhile (\<lambda>e. P (fst e)) (map (av_entry m) as) = map (av_entry m) (takeWhile (\<lambda>a. P (av_key (the (heap m a)))) as)"
  "dropWhile (\<lambda>e. P (fst e)) (map (av_entry m) as) = map (av_entry m) (dropWhile (\<lambda>a. P (av_key (the (heap m a)))) as)"
  by (simp_all add: takeWhile_map dropWhile_map o_def av_entry_def)

lemma heights_plug: "heights h (plug t c) \<Longrightarrow> heights h t \<and> ctx_heights h c"
  by (induction t c rule: plug.induct) (auto simp: heights_node_at)

text \<open>A new node at the end of the way down.\<close>

lemma avl_link_leaf:
  assumes at: "tree_at avl_ops (heap m) 0 (at_root_node tree) t" and dist: "distinct (inorder t)" and hs: "heights (heap m) t"
    and c: "plug Leaf c = t" "ctx_at avl_ops (heap m) (at_root_node tree) 0 q c"
    and a: "a \<noteq> 0" "heap m a = None"
    and m1: "heap m1 = (heap m)(a \<mapsto> n)" and n: "av_left n = 0" "av_right n = 0" "av_parent n = q" "av_height n = 1"
  shows "\<exists>root m2 tree' m'. slot_write avl_ops (slot_of c) a (at_root_node tree) m1 = Some (root, m2) \<and>
    avl_tree_balance_to_root (tree\<lparr>at_root_node := root\<rparr>) q m2 = Some (tree', m') \<and>
    tree_at avl_ops (heap m') 0 (at_root_node tree') (bal_up (Node Leaf a Leaf) c) \<and>
    heights (heap m') (bal_up (Node Leaf a Leaf) c) \<and> relinked av_data (insert a (set_tree t)) m1 m' \<and>
    at_compare_func tree' = at_compare_func tree \<and> at_num_nodes tree' = at_num_nodes tree"
proof -
  let ?T = "Node Leaf a Leaf"
  have fr: "a \<notin> set_tree t" using tree_at_dom [OF at] a(2) by auto
  have ct: "set (ctx_nodes c) = set_tree t" "distinct (ctx_nodes c)"
    using c(1) dist set_plug [of Leaf c] distinct_plug [of Leaf c] by simp_all
  have "ctx_at avl_ops (heap m1) (at_root_node tree) 0 q c" using c(2) ct fr by (simp add: m1)
  from avl_links.slot_write_spec [OF this ct(2)] obtain root m2 where m2:
    "slot_write avl_ops (slot_of c) a (at_root_node tree) m1 = Some (root, m2)"
    "ctx_at avl_ops (heap m2) root a q c"
    "relinked (\<lambda>e. (av_key e, av_value e, av_height e)) (set (take 1 (ctx_nodes c))) m1 m2" by blast
  have tk: "set (take 1 (ctx_nodes c)) \<subseteq> set_tree t" using set_take_subset [of 1 "ctx_nodes c"] ct(1) by simp
  have "a \<notin> set (take 1 (ctx_nodes c))" using tk fr by blast
  then have m2a: "heap m2 a = Some n" using relinked_frame [OF m2(3)] by (simp add: m1)
  have "ctx_heights (heap m2) c"
  proof (rule ctx_heights_cong [OF _ ct(2)])
    show "ctx_heights (heap m) c" using heights_plug [of "heap m" Leaf c] c(1) hs by simp
    show "map_option av_height (heap m2 x) = map_option av_height (heap m x)" if "x \<in> set (ctx_nodes c)" for x
      using relinked_comp [OF m2(3), of "\<lambda>(_, _, h). h"] that fr ct(1) by (auto simp: relinked_def m1)
  qed
  then have "focus m2 (at_root_node (tree\<lparr>at_root_node := root\<rparr>)) ?T a q c"
    using m2(2) m2a n a(1) fr ct unfolding focus_def distinct_plug by simp
  from balance_to_root_spec [OF this] obtain root' m' where m':
    "avl_tree_balance_to_root (tree\<lparr>at_root_node := root\<rparr>) q m2 = Some (tree\<lparr>at_root_node := root'\<rparr>, m')"
    "tree_at avl_ops (heap m') 0 root' (bal_up ?T c)" "heights (heap m') (bal_up ?T c)"
    "relinked av_data (set_tree (plug ?T c)) m2 m'"
    using m2a n by (auto simp: heights.simps)
  have "relinked av_data (set (take 1 (ctx_nodes c))) m1 m2"
    using relinked_comp [OF m2(3), of "\<lambda>(k, v, _). (k, v)"] by simp
  then have "relinked av_data (insert a (set_tree t)) m1 m'"
    by (rule relinked_trans [OF _ m'(4)]) (use tk ct in \<open>auto simp: set_plug\<close>)
  with m2(1) m' show ?thesis by simp
qed

lemma avl_tree_insert_ok:
  assumes cmp: "comparator (at_compare_func tree)" and rep: "avl_rep m tree t es"
  shows "\<exists>tree' m'. avl_tree_insert tree key v m = Some (if can_alloc m then hd (answers m) else 0, tree', m') \<and>
    answers m' = tl (answers m) \<and> at_compare_func tree' = at_compare_func tree \<and>
    (if can_alloc m
     then (\<exists>t'. avl_rep m' tree' t' (insert_entry (at_compare_func tree) key v es) \<and>
             set_tree t' = insert (hd (answers m)) (set_tree t)) \<and>
       (\<forall>b. b \<notin> insert (hd (answers m)) (set_tree t) \<longrightarrow> heap m' b = heap m b)
     else tree' = tree \<and> heap m' = heap m)"
proof -
  let ?cmp = "at_compare_func tree"
  let ?k = "\<lambda>a. av_key (the (heap m a))"
  let ?g = "\<lambda>a. ?cmp key (?k a) < 0"
  let ?c = "descend ?g t []"
  from rep have at: "tree_at avl_ops (heap m) 0 (at_root_node tree) t" and dist: "distinct (inorder t)"
    and hs: "heights (heap m) t" and av: "avl t" and num: "at_num_nodes tree = of_nat (size t)"
    and es: "es = map (av_entry m) (inorder t)" and ord: "ordered ?cmp fst es"
    unfolding avl_rep_def by blast+
  have pl: "plug Leaf ?c = t" by (simp add: plug_descend)
  from avl_links.find_slot_spec [OF at, of "at_root_node tree" "[]" "\<lambda>e. ?cmp key (av_key e) < 0"] obtain q where q:
    "find_slot avl_ops (\<lambda>e. ?cmp key (av_key e) < 0) 0 Root_Slot (at_root_node tree) m = Some (q, slot_of ?c)"
    "ctx_at avl_ops (heap m) (at_root_node tree) 0 q ?c" by auto
  let ?n = "\<lparr>av_left = 0, av_right = 0, av_parent = q, av_key = key, av_value = v, av_height = 1\<rparr>"
  show ?thesis
  proof (cases rule: malloc_cases [of ?n m])
    case (fail m1)
    with q(1) show ?thesis by (simp add: avl_tree_insert_def)
  next
    case (ok a m1)
    from avl_link_leaf [OF at dist hs pl q(2) ok(4,5,6)] obtain root m2 tree' m' where r:
      "slot_write avl_ops (slot_of ?c) a (at_root_node tree) m1 = Some (root, m2)"
      "avl_tree_balance_to_root (tree\<lparr>at_root_node := root\<rparr>) q m2 = Some (tree', m')"
      "tree_at avl_ops (heap m') 0 (at_root_node tree') (bal_up (Node Leaf a Leaf) ?c)"
      "heights (heap m') (bal_up (Node Leaf a Leaf) ?c)" "relinked av_data (insert a (set_tree t)) m1 m'"
      "at_compare_func tree' = ?cmp" "at_num_nodes tree' = at_num_nodes tree" by auto
    let ?t = "bal_up (Node Leaf a Leaf) ?c" and ?tree = "tree'\<lparr>at_num_nodes := at_num_nodes tree' + 1\<rparr>"
    have fr: "a \<notin> set_tree t" using tree_at_dom [OF at] ok(5) by auto
    have "ordered ?cmp ?k (inorder t)"
      using ord unfolding es ordered_map by (simp add: av_entry_def)
    from before_descend [OF comparator.smaller_mono [OF cmp this], of key "[]"]
    have ba: "inorder ?t = takeWhile (\<lambda>a. \<not> ?g a) (inorder t) @ a # dropWhile (\<lambda>a. \<not> ?g a) (inorder t)"
      by (simp add: inorder_bal_up)
    have mt: "mset (inorder ?t) = add_mset a (mset (inorder t))"
    proof -
      have "mset (inorder t) = mset (takeWhile P (inorder t)) + mset (dropWhile P (inorder t))" for P
        by (metis mset_append takeWhile_dropWhile_id)
      from this [of "\<lambda>a. \<not> ?g a"] show ?thesis unfolding ba by simp
    qed
    have sz: "size ?t = Suc (size t)" using arg_cong [OF mt, of size] by (simp flip: length_inorder)
    have st: "set_tree ?t = insert a (set_tree t)" using arg_cong [OF mt, of set_mset] by simp
    have dt: "distinct (inorder ?t)"
      using mset_eq_imp_distinct_iff [of "inorder ?t" "a # inorder t"] mt fr dist by simp
    have ent: "av_entry m' x = (if x = a then (key, v) else av_entry m x)" for x
      using relinked_entry [OF r(5), of x] by (simp add: av_entry_def ok(6))
    have "map (av_entry m') (inorder ?t) = insert_entry ?cmp key v es"
    proof -
      have "av_entry m' x = av_entry m x" if "x \<in> set (inorder t)" for x using that fr ent by auto
      then have tw: "map (av_entry m') (takeWhile P (inorder t)) = map (av_entry m) (takeWhile P (inorder t))"
        "map (av_entry m') (dropWhile P (inorder t)) = map (av_entry m) (dropWhile P (inorder t))" for P
        by (auto dest: set_takeWhileD set_dropWhileD)
      show ?thesis
        unfolding ba insert_entry_def es takeWhile_entries [of "\<lambda>k. \<not> ?cmp key k < 0"] map_append list.map tw ent [of a]
        by simp
    qed
    moreover have "ordered ?cmp fst (insert_entry ?cmp key v es)"
      unfolding insert_entry_def by (rule comparator.ordered_insert [OF cmp ord]) simp
    moreover have "avl ?t" using bal_up_avl [of Leaf ?c "Node Leaf a Leaf"] av pl by simp
    ultimately have "avl_rep m' ?tree ?t (insert_entry ?cmp key v es)"
      unfolding avl_rep_def using r(3,4,6,7) dt sz num by simp
    moreover have "avl_tree_insert tree key v m = Some (a, ?tree, m')"
      using q(1) ok(1,4) r(1,2) by (simp add: avl_tree_insert_def)
    moreover have "answers m' = tl (answers m)" using relinked_answers [OF r(5)] ok(7) by simp
    moreover have "heap m' b = heap m b" if "b \<notin> insert a (set_tree t)" for b
      using relinked_frame [OF r(5) that] that ok(6) by simp
    ultimately show ?thesis using st r(6) ok(2,3) by auto
  qed
qed

section \<open>Removal\<close>

text \<open>Replacing a node that has at most one child, on the side \<open>s\<close>, with that child.\<close>

lemma unlink_spec:
  assumes f: "focus m (at_root_node tree) (node_at s w b Leaf) b q c" and hs: "heights (heap m) w"
    and e: "heap m b = Some e"
  shows "\<exists>root' m'. avl_tree_node_replace tree b (av_child e s) m = Some (tree\<lparr>at_root_node := root'\<rparr>, m') \<and>
    focus m' root' w (av_child e s) q c \<and> heights (heap m') w \<and> heap m' b = Some e \<and>
    relinked av_data (set_tree (plug (node_at s w b Leaf) c)) m m'"
proof -
  let ?p = "av_child e s"
  from f e have b: "b \<noteq> 0" "av_parent e = q" "tree_at avl_ops (heap m) b ?p w"
    and c: "ctx_at avl_ops (heap m) (at_root_node tree) b q c" and ch: "ctx_heights (heap m) c"
    by (auto simp: focus_def)
  have ds: "distinct (inorder w)" "b \<notin> set_tree w" "distinct (ctx_nodes c)" "b \<notin> set (ctx_nodes c)"
    "set_tree w \<inter> set (ctx_nodes c) = {}" "distinct (inorder (plug w c))"
    using f unfolding focus_def distinct_plug by (auto split: side.splits)
  note p = tree_at_root [OF b(3)]
  have c0: "0 \<notin> set (ctx_nodes c)" using focus_nonzero [OF f] by (simp add: set_plug)
  have pn: "?p = 0 \<or> heap m ?p = Some (the (heap m ?p))" "b \<noteq> ?p" "?p \<notin> set (ctx_nodes c)"
    using p tree_at_dom [OF b(3)] b(1) ds c0 by auto
  from node_replace_spec [OF c e b(2,1) pn(1,2) ds(4) pn(3) ds(3)] obtain root' m' where r:
    "avl_tree_node_replace tree b ?p m = Some (tree\<lparr>at_root_node := root'\<rparr>, m')"
    "ctx_at avl_ops (heap m') root' ?p q c"
    "?p \<noteq> 0 \<longrightarrow> heap m' ?p = Some (t_set_parent avl_ops q (the (heap m ?p)))"
    "\<forall>x. x \<noteq> ?p \<longrightarrow> (q \<noteq> 0 \<longrightarrow> x \<noteq> q) \<longrightarrow> heap m' x = heap m x" "relinked av_data (hole_nodes ?p c) m m'" by blast
  have same: "heap m' x = heap m x" if "x \<noteq> ?p \<or> ?p = 0" "x \<notin> set (path c)" for x
    by (rule relinked_frame [OF r(5)]) (use that take_path [of c] in \<open>auto simp: hole_nodes_def\<close>)
  have hsame: "map_option av_height (heap m' x) = map_option av_height (heap m x)" if "x \<notin> set (path c)" for x
  proof (cases "x = ?p \<and> ?p \<noteq> 0")
    case True
    with r(3) pn(1) show ?thesis by (metis avl_ops_simps(7) option.simps(9))
  qed (use same that in auto)
  note pc = path_subset [of c]
  have "tree_at avl_ops (heap m') q ?p w"
  proof (cases "w = Leaf")
    case False
    then have p0: "?p \<noteq> 0" "?p \<in> set_tree w" using p by auto
    have "tree_at avl_ops ((heap m)(?p \<mapsto> t_set_parent avl_ops q (the (heap m ?p)))) q ?p w"
      by (rule avl_links.tree_at_set_parent [OF b(3) _ False ds(1)]) (use p0 pn(1) in simp)
    then show ?thesis
      by (rule tree_at_cong [rotated]) (use r(3) p0 same ds(5) pc in auto)
  qed (use b(3) in simp)
  moreover have "heights (heap m') w"
    by (rule heights_cong [OF _ hs], rule hsame) (use ds(5) pc in auto)
  moreover have "ctx_heights (heap m') c"
    by (rule ctx_heights_cong [OF _ ds(3) ch], rule hsame)
  moreover have "heap m' b = Some e" using same [of b] pn(2) ds(4) pc e by auto
  moreover have "relinked av_data (set_tree (plug (node_at s w b Leaf) c)) m m'"
    by (rule relinked_mono [OF r(5)])
      (use p set_take_subset [of 1 "ctx_nodes c"] in \<open>auto simp: hole_nodes_def set_plug\<close>)
  ultimately show ?thesis using r(1,2) ds(6)
    by (intro exI [of _ root'] exI [of _ m']) (simp add: focus_def)
qed

text \<open>The innermost node of the subtree \<open>t\<close> on the side \<open>s\<close>.\<close>

lemma innermost_spec:
  "tree_at avl_ops (heap m) q p t \<Longrightarrow> t \<noteq> Leaf \<Longrightarrow>
   \<exists>b w cs. avl_tree_innermost s p m = Some b \<and> t = plug (node_at s w b Leaf) cs \<and> (\<forall>x \<in> set cs. fst x = opp s)"
proof (induction t arbitrary: q p)
  case (Node l a r)
  define x where "x = (case s of Side_Left \<Rightarrow> l | Side_Right \<Rightarrow> r)"
  define y where "y = (case s of Side_Left \<Rightarrow> r | Side_Right \<Rightarrow> l)"
  have t: "Node l a r = node_at s x a y" by (simp add: x_def y_def node_at_def split: side.splits)
  from Node.prems(1) [unfolded t] obtain e where e: "p = a" "a \<noteq> 0" "heap m a = Some e"
    "tree_at avl_ops (heap m) a (av_child e (opp s)) y" by auto
  have IH: "tree_at avl_ops (heap m) q p y \<Longrightarrow> y \<noteq> Leaf \<Longrightarrow> \<exists>b w cs. avl_tree_innermost s p m = Some b \<and>
      y = plug (node_at s w b Leaf) cs \<and> (\<forall>x \<in> set cs. fst x = opp s)" for q p
    using Node.IH by (cases s) (auto simp: y_def)
  show ?case
  proof (cases "y = Leaf")
    case True
    with e have "avl_tree_innermost s p m = Some a"
      by (subst avl_tree_innermost.simps) (simp add: mem_simps)
    moreover have "Node l a r = plug (node_at s x a Leaf) []" using t True by simp
    ultimately show ?thesis by (intro exI [of _ a] exI [of _ x] exI [of _ "[]"]) simp
  next
    case False
    from IH [OF e(4) False] obtain b w cs where b: "avl_tree_innermost s (av_child e (opp s)) m = Some b"
      "y = plug (node_at s w b Leaf) cs" "\<forall>x \<in> set cs. fst x = opp s" by blast
    have "av_child e (opp s) \<noteq> 0" using tree_at_null [OF e(4)] False by simp
    with e b(1) have "avl_tree_innermost s p m = Some b"
      by (subst avl_tree_innermost.simps) (simp add: mem_simps)
    moreover have "Node l a r = plug (node_at s w b Leaf) (cs @ [(opp s, a, x)])"
      by (simp add: plug_append b(2) [symmetric] t node_at_opp)
    ultimately show ?thesis using b(3)
      by (intro exI [of _ b] exI [of _ w] exI [of _ "cs @ [(opp s, a, x)]"]) simp
  qed
qed simp

lemma update_height_harmless:
  assumes f: "focus m root t p q c" and c: "c \<noteq> []" and hs: "heights (heap m) t"
  shows "\<exists>m'. avl_tree_update_height q m = Some m' \<and> focus m' root t p q c \<and> heights (heap m') t \<and>
    (\<forall>x. x \<noteq> q \<longrightarrow> heap m' x = heap m x) \<and> relinked av_data (set (path c)) m m'"
proof -
  obtain s a u c' where cc: "c = (s, a, u) # c'" using c by (cases c) auto
  from f cc obtain e where e: "q = a" "a \<noteq> 0" "heap m a = Some e" "av_child e s = p"
    "tree_at avl_ops (heap m) a (av_child e (opp s)) u" by (auto simp: focus_def)
  have d: "a \<notin> set_tree t" "distinct (ctx_nodes c)"
    using f cc unfolding focus_def distinct_plug by auto
  have "av_child e s' = 0 \<or> av_child e s' \<in> dom (heap m)" for s'
    using side_cases [of s' s] e tree_at_ptr [OF e(5)] f tree_at_ptr unfolding focus_def by metis
  from update_height_ex [OF e(3,2) this] obtain x where up:
    "avl_tree_update_height a m = Some (m\<lparr>heap := (heap m)(a \<mapsto> e\<lparr>av_height := x\<rparr>)\<rparr>)" by blast
  let ?m = "m\<lparr>heap := (heap m)(a \<mapsto> e\<lparr>av_height := x\<rparr>)\<rparr>"
  have "ctx_heights (heap ?m) c"
    by (rule ctx_heights_cong [OF _ d(2)]) (use f cc in \<open>auto simp: focus_def\<close>)
  then have "focus ?m root t p q c"
    using f tree_at_upd_same [of "heap m" a e avl_ops "e\<lparr>av_height := x\<rparr>"]
      ctx_at_upd_same [of "heap m" a e avl_ops "e\<lparr>av_height := x\<rparr>"] e(3) by (simp add: focus_def)
  moreover have "heights (heap ?m) t" using hs d(1) by simp
  moreover have "relinked av_data (set (path c)) m ?m" by (rule relinked_store [OF e(3)]) (simp_all add: cc)
  ultimately show ?thesis using up e(1) by (intro exI [of _ ?m]) simp
qed

lemma get_replacement_spec:
  assumes f: "focus m (at_root_node tree) (Node L a R) p q c" and ne: "L \<noteq> Leaf \<or> R \<noteq> Leaf"
    and hs: "heights (heap m) L" "heights (heap m) R"
  shows "\<exists>side U w b cs root' m' pw qb e.
    avl_tree_node_get_replacement tree a m = Some (b, tree\<lparr>at_root_node := root'\<rparr>, m') \<and>
    Node L a R = node_at side (plug (node_at side w b Leaf) cs) a U \<and> (\<forall>x \<in> set cs. fst x = opp side) \<and>
    focus m' root' w pw qb (cs @ (side, a, U) # c) \<and> heights (heap m') w \<and>
    heap m' b = Some e \<and> av_parent e = qb \<and>
    relinked av_data (set_tree (plug (Node L a R) c)) m m'"
proof -
  define side where "side = (if height L < height R then Side_Right else Side_Left)"
  define S where "S = (case side of Side_Left \<Rightarrow> L | Side_Right \<Rightarrow> R)"
  define U where "U = (case side of Side_Left \<Rightarrow> R | Side_Right \<Rightarrow> L)"
  have N: "Node L a R = node_at side S a U" by (simp add: S_def U_def node_at_def split: side.splits)
  have S: "S \<noteq> Leaf" using ne by (auto simp: S_def side_def)
  have hS: "heights (heap m) S" "heights (heap m) U" using hs by (auto simp: S_def U_def split: side.splits)
  from f obtain n where n: "p = a" "a \<noteq> 0" "heap m a = Some n" "tree_at avl_ops (heap m) a (av_left n) L"
    "tree_at avl_ops (heap m) a (av_right n) R" by (auto simp: focus_def)
  note ht = subtree_height_spec [OF n(4) hs(1)] subtree_height_spec [OF n(5) hs(2)]
  have nS: "tree_at avl_ops (heap m) a (av_child n side) S" using n(4,5) by (auto simp: S_def split: side.splits)
  from innermost_spec [OF nS S] obtain b w cs where b: "avl_tree_innermost side (av_child n side) m = Some b"
    "S = plug (node_at side w b Leaf) cs" "\<forall>x \<in> set cs. fst x = opp side" by blast
  let ?C = "cs @ (side, a, U) # c"
  have pl: "plug (Node L a R) c = plug (node_at side w b Leaf) ?C" by (simp add: plug_append b(2) N)
  from f N have "\<exists>p q. tree_at avl_ops (heap m) q p S \<and> ctx_at avl_ops (heap m) (at_root_node tree) p q ((side, a, U) # c)"
    by (auto simp: focus_def)
  then obtain pb qb where pb: "tree_at avl_ops (heap m) qb pb (node_at side w b Leaf)"
    "ctx_at avl_ops (heap m) (at_root_node tree) pb qb ?C"
    unfolding b(2) tree_at_plug_append [symmetric] by blast
  have "heights (heap m) (node_at side w b Leaf)" and hcs: "ctx_heights (heap m) cs"
    using heights_plug [of "heap m" "node_at side w b Leaf" cs] hS(1) b(2) by simp_all
  then have hw: "heights (heap m) w" by (simp add: heights_node_at)
  have pbb: "pb = b" using pb(1) by simp
  have "ctx_heights (heap m) ?C" using f hS(2) hcs by (auto simp: focus_def ctx_heights_def)
  then have fb: "focus m (at_root_node tree) (node_at side w b Leaf) b qb ?C"
    using pb f pl unfolding pbb focus_def by simp
  from pb(1) obtain e where e: "heap m b = Some e" "b \<noteq> 0" "av_parent e = qb" by auto
  from unlink_spec [OF fb hw e(1)] obtain root1 m1 where m1:
    "avl_tree_node_replace tree b (av_child e side) m = Some (tree\<lparr>at_root_node := root1\<rparr>, m1)"
    "focus m1 root1 w (av_child e side) qb ?C" "heights (heap m1) w" "heap m1 b = Some e"
    "relinked av_data (set_tree (plug (node_at side w b Leaf) ?C)) m m1" by blast
  from update_height_harmless [OF m1(2) _ m1(3)] obtain m2 where m2:
    "avl_tree_update_height qb m1 = Some m2" "focus m2 root1 w (av_child e side) qb ?C"
    "heights (heap m2) w" "\<forall>x. x \<noteq> qb \<longrightarrow> heap m2 x = heap m1 x" "relinked av_data (set (path ?C)) m1 m2" by auto
  have "qb \<in> set (ctx_nodes ?C)" using ctx_at_parent_in [OF pb(2)] ctx_at_parent [OF pb(2)] by auto
  then have "b \<noteq> qb" using fb unfolding focus_def distinct_plug by auto
  then have "heap m2 b = Some e" using m2(4) m1(4) by simp
  moreover have "avl_tree_node_get_replacement tree a m = Some (b, tree\<lparr>at_root_node := root1\<rparr>, m2)"
  proof -
    have "\<not> (av_left n = 0 \<and> av_right n = 0)"
      using ne tree_at_null [OF n(4)] tree_at_null [OF n(5)] by blast
    moreover have "(if int (height L) < int (height R) then Side_Right else Side_Left) = side" by (simp add: side_def)
    ultimately show ?thesis
      using n(2,3) ht b(1) e m1(1,4) m2(1)
      by (simp add: avl_tree_node_get_replacement_def mem_simps Let_def del: of_nat_less_iff)
  qed
  moreover have "relinked av_data (set_tree (plug (Node L a R) c)) m m2"
    unfolding pl by (rule relinked_trans [OF m1(5) m2(5)]) (use path_subset [of ?C] in \<open>simp_all only: set_plug subset_refl, blast\<close>)
  moreover have "Node L a R = node_at side (plug (node_at side w b Leaf) cs) a U" by (simp add: N b(2))
  ultimately show ?thesis using m2(2,3) b(3) e(3) by blast
qed

text \<open>The children of the removed node \<open>a\<close> get the parent \<open>b\<close>.\<close>

lemma copy_child_spec:
  assumes a: "heap m a = Some e" "a \<noteq> 0" and b: "heap m b = Some f" "b \<noteq> 0" "a \<noteq> b"
    and at: "tree_at avl_ops (heap m) a (av_child e s) t" and ds: "distinct (inorder t)" "a \<notin> set_tree t" "b \<notin> set_tree t"
  shows "\<exists>m'. avl_tree_copy_child b a s m = Some m' \<and> tree_at avl_ops (heap m') b (av_child e s) t \<and>
    heap m' b = Some (t_set_child avl_ops s (av_child e s) f) \<and> heap m' a = Some e \<and>
    relinked (\<lambda>e. (av_key e, av_value e, av_height e)) (insert b (set_tree t)) m m'"
proof -
  let ?p = "av_child e s" and ?f = "t_set_child avl_ops s (av_child e s) f"
  let ?m = "m\<lparr>heap := (heap m)(b \<mapsto> ?f)\<rparr>"
  have at1: "tree_at avl_ops (heap ?m) a ?p t" using at ds(3) by simp
  have r1: "relinked (\<lambda>e. (av_key e, av_value e, av_height e)) (insert b (set_tree t)) m ?m"
    by (rule relinked_store [OF b(1)]) (cases s; simp_all add: avl_ops_def)+
  show ?thesis
  proof (cases "t = Leaf")
    case True
    then have "avl_tree_copy_child b a s m = Some ?m"
      using a b at by (simp add: avl_tree_copy_child_def mem_simps)
    with True at a b r1 show ?thesis by (intro exI [of _ ?m]) simp
  next
    case False
    then have p: "?p \<noteq> 0" "?p \<in> set_tree t" using tree_at_root [OF at] by auto
    then obtain g where g: "heap m ?p = Some g" using tree_at_dom [OF at] by auto
    have ne: "?p \<noteq> b" "?p \<noteq> a" using p ds by auto
    let ?m' = "m\<lparr>heap := (heap m)(b \<mapsto> ?f, ?p \<mapsto> t_set_parent avl_ops b g)\<rparr>"
    have "avl_tree_copy_child b a s m = Some ?m'"
      using a b p g ne by (simp add: avl_tree_copy_child_def mem_simps avl_ops_def)
    moreover have "tree_at avl_ops (heap ?m') b ?p t"
      using avl_links.tree_at_set_parent [OF at1 _ False ds(1), of g b] g ne by simp
    moreover have "relinked (\<lambda>e. (av_key e, av_value e, av_height e)) (insert b (set_tree t)) m ?m'"
      using r1 g ne p(2) by (auto simp: relinked_def avl_ops_def)
    ultimately show ?thesis using a b(1,3) ne by (intro exI [of _ ?m']) auto
  qed
qed

text \<open>Putting the node \<open>b\<close>, which is not in the tree, into the place of \<open>a\<close>.\<close>

lemma swap_in_spec:
  assumes at: "tree_at avl_ops (heap m) q p (Node L a R)" and c: "ctx_at avl_ops (heap m) (at_root_node tree) p q c"
    and dist: "distinct (inorder (plug (Node L a R) c))"
    and b: "heap m b = Some f" "b \<noteq> 0" "b \<notin> set_tree (plug (Node L a R) c)"
  shows "\<exists>m1 m2 m3 e g root' m'. avl_tree_copy_child b a Side_Left m = Some m1 \<and>
    avl_tree_copy_child b a Side_Right m1 = Some m2 \<and> heap m2 a = Some e \<and> heap m2 b = Some g \<and>
    store b (g\<lparr>av_height := av_height e\<rparr>) m2 = Some m3 \<and>
    avl_tree_node_replace tree a b m3 = Some (tree\<lparr>at_root_node := root'\<rparr>, m') \<and>
    tree_at avl_ops (heap m') q b (Node L b R) \<and> ctx_at avl_ops (heap m') root' b q c \<and> heap m' a = Some e \<and>
    (\<forall>x. x \<noteq> b \<longrightarrow> x \<notin> set (path c) \<longrightarrow> map_option av_height (heap m' x) = map_option av_height (heap m x)) \<and>
    relinked av_data (insert b (set_tree (plug (Node L a R) c))) m m'"
proof -
  let ?dt = "\<lambda>e. (av_key e, av_value e, av_height e)"
  have ds: "distinct (inorder L)" "distinct (inorder R)" "a \<notin> set_tree L" "a \<notin> set_tree R" "set_tree L \<inter> set_tree R = {}"
    "a \<notin> set (ctx_nodes c)" "set_tree L \<inter> set (ctx_nodes c) = {}" "set_tree R \<inter> set (ctx_nodes c) = {}"
    "distinct (ctx_nodes c)"
    using dist unfolding distinct_plug by auto
  have bs: "b \<notin> set_tree L" "b \<notin> set_tree R" "a \<noteq> b" "b \<noteq> a" "b \<notin> set (ctx_nodes c)" using b(3) by (auto simp: set_plug)
  from at obtain e where e: "p = a" "a \<noteq> 0" "heap m a = Some e" "av_parent e = q"
    "tree_at avl_ops (heap m) a (av_child e Side_Left) L" "tree_at avl_ops (heap m) a (av_child e Side_Right) R" by auto
  from copy_child_spec [OF e(3,2) b(1,2) bs(3) e(5) ds(1,3) bs(1)] obtain m1 where m1:
    "avl_tree_copy_child b a Side_Left m = Some m1" "tree_at avl_ops (heap m1) b (av_child e Side_Left) L"
    "heap m1 b = Some (t_set_child avl_ops Side_Left (av_child e Side_Left) f)" "heap m1 a = Some e"
    "relinked ?dt (insert b (set_tree L)) m m1" by blast
  note fr1 = relinked_frame [OF m1(5)]
  have R1: "tree_at avl_ops (heap m1) a (av_child e Side_Right) R"
    by (rule tree_at_cong [OF fr1 e(6)]) (use ds(5) bs in auto)
  from copy_child_spec [OF m1(4) e(2) m1(3) b(2) bs(3) R1 ds(2,4) bs(2)] obtain m2 where m2:
    "avl_tree_copy_child b a Side_Right m1 = Some m2" "tree_at avl_ops (heap m2) b (av_child e Side_Right) R"
    "heap m2 b = Some (t_set_child avl_ops Side_Right (av_child e Side_Right) (t_set_child avl_ops Side_Left (av_child e Side_Left) f))"
    "heap m2 a = Some e" "relinked ?dt (insert b (set_tree R)) m1 m2" by blast
  define g where "g = t_set_child avl_ops Side_Right (av_child e Side_Right) (t_set_child avl_ops Side_Left (av_child e Side_Left) f)"
  have gc: "av_left g = av_left e" "av_right g = av_right e" by (simp_all add: g_def avl_ops_def)
  have L2: "tree_at avl_ops (heap m2) b (av_left e) L"
    by (rule tree_at_cong [OF relinked_frame [OF m2(5)]]) (use m1(2) ds(5) bs in auto)
  let ?g = "g\<lparr>av_height := av_height e\<rparr>"
  define m3 where "m3 = m2\<lparr>heap := (heap m2)(b \<mapsto> ?g)\<rparr>"
  have r2: "relinked ?dt (insert b (set_tree L \<union> set_tree R)) m m2"
    by (rule relinked_trans [OF m1(5) m2(5)]) auto
  have c3: "ctx_at avl_ops (heap m3) (at_root_node tree) a q c"
  proof -
    have "ctx_at avl_ops (heap m2) (at_root_node tree) p q c"
      by (rule ctx_at_cong [OF relinked_frame [OF r2] c]) (use ds bs in auto)
    then show ?thesis using bs(5) e(1) by (simp add: m3_def)
  qed
  have h3: "heap m3 a = Some e" "heap m3 b = Some ?g" "tree_at avl_ops (heap m3) b (av_left e) L"
    "tree_at avl_ops (heap m3) b (av_right e) R"
    using m2(2,4) L2 bs by (simp_all add: m3_def)
  from node_replace_spec [OF c3 h3(1) e(4,2) disjI2 [OF h3(2)] bs(3) ds(6) bs(5) ds(9)] b(2) obtain root' m' where r:
    "avl_tree_node_replace tree a b m3 = Some (tree\<lparr>at_root_node := root'\<rparr>, m')"
    "ctx_at avl_ops (heap m') root' b q c" "heap m' b = Some (t_set_parent avl_ops q ?g)"
    "\<forall>x. x \<noteq> b \<longrightarrow> (q \<noteq> 0 \<longrightarrow> x \<noteq> q) \<longrightarrow> heap m' x = heap m3 x" "relinked av_data (hole_nodes b c) m3 m'" by blast
  have hb: "hole_nodes b c \<subseteq> insert b (set (path c))" using take_path [of c] b(2) by (auto simp: hole_nodes_def)
  have same: "heap m' x = heap m3 x" if "x \<noteq> b" "x \<notin> set (path c)" for x
    by (rule relinked_frame [OF r(5)]) (use that hb in auto)
  note pc = path_subset [of c]
  have "tree_at avl_ops (heap m') b (av_left e) L" "tree_at avl_ops (heap m') b (av_right e) R"
    by (rule tree_at_cong [OF same h3(3)] tree_at_cong [OF same h3(4)]; use bs ds(7,8) pc in blast)+
  then have at': "tree_at avl_ops (heap m') q b (Node L b R)" using r(3) b(2) gc by (simp add: avl_ops_def)
  have "relinked av_data (insert b (set_tree (plug (Node L a R) c))) m m'"
  proof -
    have "relinked av_data (insert b (set_tree L \<union> set_tree R)) m m2"
      using relinked_comp [OF r2, of "\<lambda>(k, v, _). (k, v)"] by simp
    moreover have "relinked av_data {b} m2 m3" unfolding m3_def
      by (rule relinked_store [of _ _ g]) (simp_all add: m2(3) g_def)
    ultimately have "relinked av_data (insert b (set_tree L \<union> set_tree R)) m m3"
      by (rule relinked_trans) auto
    then show ?thesis
      by (rule relinked_trans [OF _ r(5)]) (use hb pc in \<open>auto simp: set_plug\<close>)
  qed
  moreover have "map_option av_height (heap m' x) = map_option av_height (heap m x)" if "x \<noteq> b" "x \<notin> set (path c)" for x
    using same [OF that] relinked_comp [OF r2, of "\<lambda>(_, _, h). h"] that(1) by (simp add: relinked_def m3_def)
  moreover have "heap m' a = Some e" using same [of a] bs ds(6) pc h3(1) by auto
  moreover have "store b ?g m2 = Some m3" using m2(3) b(2) by (simp add: m3_def mem_simps)
  moreover have "heap m2 b = Some g" using m2(3) by (simp add: g_def)
  ultimately show ?thesis using m1(1) m2(1,4) r(1,2) at'
    by (intro exI [of _ m1] exI [of _ m2] exI [of _ m3] exI [of _ e] exI [of _ g] exI [of _ root'] exI [of _ m'])
      (simp del: tree_at.simps)
qed

text \<open>What is left when the unlinked node has been freed.\<close>

lemma avl_finish:
  assumes f: "focus m (at_root_node tree) t p q c" and hs: "heights (heap m) t" and a: "a \<notin> set_tree (plug t c)"
    and m1: "heap m1 = (heap m)(a := None)" "answers m1 = answers m"
  shows "\<exists>root' m'. avl_tree_balance_to_root tree q m1 = Some (tree\<lparr>at_root_node := root'\<rparr>, m') \<and>
     tree_at avl_ops (heap m') 0 root' (bal_up t c) \<and> heights (heap m') (bal_up t c) \<and>
     relinked av_data (set_tree (plug t c)) m1 m'"
proof -
  from a have at: "a \<notin> set_tree t" "a \<notin> set (ctx_nodes c)" by (simp_all add: set_plug)
  have "ctx_heights (heap m1) c"
    by (rule ctx_heights_cong [where h = "heap m"]) (use f at in \<open>auto simp: focus_def distinct_plug m1(1)\<close>)
  then have "focus m1 (at_root_node tree) t p q c" using f at by (simp add: focus_def m1(1))
  moreover have "heights (heap m1) t" using hs at by (simp add: m1(1))
  ultimately show ?thesis by (rule balance_to_root_spec)
qed

text \<open>Removing the node \<open>a\<close>: the states in front of the balancing.\<close>

lemma remove_leaf_start:
  assumes f: "focus m (at_root_node tree) (Node Leaf a Leaf) p q c"
  shows "\<exists>root' m' e. avl_tree_node_get_replacement tree a m = Some (0, tree, m) \<and>
    avl_tree_node_replace tree a 0 m = Some (tree\<lparr>at_root_node := root'\<rparr>, m') \<and>
    heap m' a = Some e \<and> av_parent e = q \<and> focus m' root' Leaf 0 q c \<and>
    relinked av_data (set_tree (plug (Node Leaf a Leaf) c)) m m'"
proof -
  have N: "Node Leaf a Leaf = node_at Side_Left Leaf a Leaf" by (simp add: node_at_def)
  from f obtain e where e: "p = a" "a \<noteq> 0" "heap m a = Some e" "av_parent e = q" "av_left e = 0" "av_right e = 0"
    by (auto simp: focus_def)
  from unlink_spec [OF f [unfolded e(1) N] _ e(3)] obtain root' m' where
    "avl_tree_node_replace tree a 0 m = Some (tree\<lparr>at_root_node := root'\<rparr>, m')" "focus m' root' Leaf 0 q c"
    "heap m' a = Some e" "relinked av_data (set_tree (plug (Node Leaf a Leaf) c)) m m'"
    using e(5) by (auto simp: N)
  moreover have "avl_tree_node_get_replacement tree a m = Some (0, tree, m)"
    using e by (simp add: avl_tree_node_get_replacement_def mem_simps)
  ultimately show ?thesis using e(4) by blast
qed

lemma remove_inner_start:
  assumes f: "focus m (at_root_node tree) (Node L a R) p q c" and ne: "L \<noteq> Leaf \<or> R \<noteq> Leaf"
    and hs: "heights (heap m) L" "heights (heap m) R"
  shows "\<exists>side U w b cs root' m' pw m1 m2 m3 e g s tree1 ma qb.
    avl_tree_node_get_replacement tree a m = Some (b, tree1, ma) \<and> heap ma b = Some s \<and> b \<noteq> 0 \<and>
    (if av_parent s = a then b else av_parent s) = qb \<and>
    avl_tree_copy_child b a Side_Left ma = Some m1 \<and> avl_tree_copy_child b a Side_Right m1 = Some m2 \<and>
    heap m2 a = Some e \<and> heap m2 b = Some g \<and> store b (g\<lparr>av_height := av_height e\<rparr>) m2 = Some m3 \<and>
    avl_tree_node_replace tree1 a b m3 = Some (tree\<lparr>at_root_node := root'\<rparr>, m') \<and> heap m' a \<noteq> None \<and>
    Node L a R = node_at side (plug (node_at side w b Leaf) cs) a U \<and> (\<forall>x \<in> set cs. fst x = opp side) \<and>
    focus m' root' w pw qb (cs @ (side, b, U) # c) \<and> heights (heap m') w \<and>
    relinked av_data (set_tree (plug (Node L a R) c)) m m'"
proof -
  from get_replacement_spec [OF f ne hs] obtain side U w b cs root1 ma pw qb e0 where r:
    "avl_tree_node_get_replacement tree a m = Some (b, tree\<lparr>at_root_node := root1\<rparr>, ma)"
    "Node L a R = node_at side (plug (node_at side w b Leaf) cs) a U" "\<forall>x \<in> set cs. fst x = opp side"
    "focus ma root1 w pw qb (cs @ (side, a, U) # c)" "heights (heap ma) w"
    "heap ma b = Some e0" "av_parent e0 = qb"
    "relinked av_data (set_tree (plug (Node L a R) c)) m ma" by (elim exE conjE) blast
  let ?tree1 = "tree\<lparr>at_root_node := root1\<rparr>"
  let ?S = "plug (node_at side w b Leaf) cs" and ?T = "plug w cs"
  have dist: "distinct (inorder (plug (Node L a R) c))" using f by (simp add: focus_def)
  obtain L' R' where LR: "node_at side ?T x U = Node L' x R'" for x
    by (cases side) (simp_all add: node_at_def)
  have in_set: "set_tree (plug (Node L a R) c) = insert b (set_tree (plug (Node L' a R') c))"
    unfolding r(2) set_plug by (auto simp: set_plug LR [symmetric])
  have b: "b \<notin> set_tree (plug (Node L' a R') c)" "b \<noteq> 0"
  proof -
    have "distinct (inorder (plug (node_at side w b Leaf) (cs @ (side, a, U) # c)))"
      using dist by (simp add: plug_append r(2))
    then have "b \<notin> set_tree (plug w (cs @ (side, a, U) # c))"
      unfolding distinct_plug set_plug by (auto split: side.splits)
    then show "b \<notin> set_tree (plug (Node L' a R') c)" by (simp add: plug_append LR)
    have "b \<in> set_tree (plug (Node L a R) c)" using in_set by blast
    then show "b \<noteq> 0" using focus_nonzero [OF f] by metis
  qed
  have "\<exists>p q. tree_at avl_ops (heap ma) q p w \<and> ctx_at avl_ops (heap ma) root1 p q (cs @ (side, a, U) # c)"
    using r(4) by (auto simp: focus_def)
  then obtain p1 q1 where at: "tree_at avl_ops (heap ma) q1 p1 (Node L' a R')"
    "ctx_at avl_ops (heap ma) (at_root_node ?tree1) p1 q1 c"
    unfolding tree_at_plug_append LR [symmetric] by auto
  have d1: "distinct (inorder (plug (Node L' a R') c))"
    using r(4) by (simp add: focus_def plug_append LR)
  from swap_in_spec [OF at d1 r(6) b(2,1)] obtain m1 m2 m3 e g root' m' where s:
    "avl_tree_copy_child b a Side_Left ma = Some m1" "avl_tree_copy_child b a Side_Right m1 = Some m2"
    "heap m2 a = Some e" "heap m2 b = Some g" "store b (g\<lparr>av_height := av_height e\<rparr>) m2 = Some m3"
    "avl_tree_node_replace ?tree1 a b m3 = Some (tree\<lparr>at_root_node := root'\<rparr>, m')"
    "tree_at avl_ops (heap m') q1 b (Node L' b R')" "ctx_at avl_ops (heap m') root' b q1 c" "heap m' a = Some e"
    "\<forall>x. x \<noteq> b \<longrightarrow> x \<notin> set (path c) \<longrightarrow> map_option av_height (heap m' x) = map_option av_height (heap ma x)"
    "relinked av_data (insert b (set_tree (plug (Node L' a R') c))) ma m'" by auto
  let ?C = "cs @ (side, b, U) # c"
  have "\<exists>p q. tree_at avl_ops (heap m') q p w \<and> ctx_at avl_ops (heap m') root' p q ?C"
    unfolding tree_at_plug_append using s(7,8) unfolding LR [symmetric] by auto
  then obtain pw' qb' where pw: "tree_at avl_ops (heap m') qb' pw' w" "ctx_at avl_ops (heap m') root' pw' qb' ?C" by blast
  have da: "distinct (inorder (plug w (cs @ (side, a, U) # c)))" using r(4) by (simp add: focus_def)
  have ds: "distinct (ctx_nodes (cs @ (side, a, U) # c))" "set_tree w \<inter> set (ctx_nodes (cs @ (side, a, U) # c)) = {}"
    using da unfolding distinct_plug by blast+
  have bC: "b \<notin> set_tree w" "b \<notin> set (ctx_nodes cs)" "b \<notin> set_tree U" "b \<notin> set (ctx_nodes c)"
    using b(1) unfolding LR [symmetric] by (auto simp: set_plug)
  have dC: "distinct (inorder (plug w ?C))" "distinct (ctx_nodes ?C)"
    using da bC unfolding distinct_plug by auto
  have same: "map_option av_height (heap m' x) = map_option av_height (heap ma x)" if "x \<noteq> b" "x \<notin> set (path c)" for x
    using s(10) that by blast
  have "ctx_heights (heap m') ?C"
  proof (rule ctx_heights_cong [OF _ dC(2)])
    show "ctx_heights (heap ma) ?C" using r(4) by (auto simp: focus_def ctx_heights_def)
  qed (rule same, auto)
  then have f': "focus m' root' w pw' qb' ?C" using pw dC(1) by (simp add: focus_def)
  have hw: "heights (heap m') w"
    by (rule heights_cong [OF same r(5)]) (use bC ds(2) path_subset [of c] in auto)
  have start: "(if av_parent e0 = a then b else av_parent e0) = qb'"
  proof -
    from r(4) have "qb = (case cs @ (side, a, U) # c of [] \<Rightarrow> 0 | (s, a, u) # _ \<Rightarrow> a)"
      unfolding focus_def by (blast dest: ctx_at_parent_eq)
    moreover note ctx_at_parent_eq [OF pw(2)]
    moreover have "a \<notin> set (ctx_nodes cs)" using ds(1) by auto
    ultimately show ?thesis using r(7) by (cases cs rule: ctx_nodes.cases) auto
  qed
  have rel: "relinked av_data (set_tree (plug (Node L a R) c)) m m'"
    by (rule relinked_trans [OF r(8) s(11)]) (simp_all add: in_set)
  have am: "heap m' a \<noteq> None" using s(9) by simp
  show ?thesis
    by (intro exI conjI, rule r(1), rule r(6), rule b(2), rule start, rule s(1), rule s(2), rule s(3), rule s(4),
        rule s(5), rule s(6), rule am, rule r(2), rule r(3), rule f', rule hw, rule rel)
qed

lemma avl_upd_swap: "tree\<lparr>at_root_node := r, at_num_nodes := n\<rparr> = tree\<lparr>at_num_nodes := n, at_root_node := r\<rparr>"
  by simp

lemma one_sided:
  "\<forall>x \<in> set c. fst x = Side_Right \<Longrightarrow> after c = []" "\<forall>x \<in> set c. fst x = Side_Left \<Longrightarrow> before c = []"
  by (induction c rule: ctx_nodes.induct) auto

text \<open>The removal of a node, for any tree with the right heights.\<close>

lemma remove_core:
  assumes f: "focus m (at_root_node tree) (Node L a R) a q c" and hs: "heights (heap m) L" "heights (heap m) R"
  shows "\<exists>root' m' t'. avl_tree_remove_node tree a m =
      Some (tree\<lparr>at_num_nodes := at_num_nodes tree - 1, at_root_node := root'\<rparr>, m') \<and>
    tree_at avl_ops (heap m') 0 root' t' \<and> heights (heap m') t' \<and>
    inorder t' = before c @ inorder L @ inorder R @ after c \<and> (avl (plug (Node L a R) c) \<longrightarrow> avl t') \<and>
    (\<exists>m1 m2. relinked av_data (set_tree (plug (Node L a R) c)) m m1 \<and> heap m2 = (heap m1)(a := None) \<and>
       answers m2 = answers m1 \<and> relinked av_data (set_tree t') m2 m')"
proof -
  let ?tree = "\<lambda>root. tree\<lparr>at_num_nodes := at_num_nodes tree - 1, at_root_node := root\<rparr>"
  have a0: "a \<noteq> 0" using f by (simp add: focus_def)
  have finish: "\<exists>root' m'. avl_tree_balance_to_root (?tree root1) qb m2 = Some (?tree root', m') \<and>
       tree_at avl_ops (heap m') 0 root' (bal_up t C) \<and> heights (heap m') (bal_up t C) \<and>
       relinked av_data (set_tree (bal_up t C)) m2 m'"
    if "focus m1 root1 t p qb C" "heights (heap m1) t" "a \<notin> set_tree (plug t C)" "heap m2 = (heap m1)(a := None)"
      "answers m2 = answers m1" for root1 qb t C m1 m2 p
  proof -
    from that(1) have "focus m1 (at_root_node (?tree root1)) t p qb C" by simp
    moreover have "set_tree (bal_up t C) = set_tree (plug t C)"
      using inorder_bal_up [of t C] inorder_plug [of t C] by (metis set_inorder)
    ultimately show ?thesis using avl_finish [OF _ that(2-5), of "?tree root1" p qb] by simp
  qed
  have dist: "distinct (inorder (plug (Node L a R) c))" using f by (simp add: focus_def)
  show ?thesis
  proof (cases "L = Leaf \<and> R = Leaf")
    case True
    with f have f0: "focus m (at_root_node tree) (Node Leaf a Leaf) a q c" by simp
    from remove_leaf_start [OF f0] obtain root1 m1 e where r:
      "avl_tree_node_get_replacement tree a m = Some (0, tree, m)"
      "avl_tree_node_replace tree a 0 m = Some (tree\<lparr>at_root_node := root1\<rparr>, m1)"
      "heap m1 a = Some e" "av_parent e = q" "focus m1 root1 Leaf 0 q c"
      "relinked av_data (set_tree (plug (Node Leaf a Leaf) c)) m m1" by blast
    let ?m2 = "m1\<lparr>heap := (heap m1)(a := None)\<rparr>"
    have "a \<notin> set_tree (plug Leaf c)" using dist unfolding distinct_plug set_plug by auto
    from finish [OF r(5) _ this, of ?m2] obtain root' m' where m':
      "avl_tree_balance_to_root (?tree root1) q ?m2 = Some (?tree root', m')"
      "tree_at avl_ops (heap m') 0 root' (bal_up Leaf c)" "heights (heap m') (bal_up Leaf c)"
      "relinked av_data (set_tree (bal_up Leaf c)) ?m2 m'" by auto
    have "avl_tree_remove_node tree a m = Some (?tree root', m')"
      using r m'(1) a0 by (simp add: avl_tree_remove_node_def mem_simps avl_upd_swap)
    moreover have "inorder (bal_up Leaf c) = before c @ inorder L @ inorder R @ after c"
      using True by (simp add: inorder_bal_up)
    moreover have "avl (plug (Node L a R) c) \<longrightarrow> avl (bal_up Leaf c)"
      using bal_up_avl [of "Node Leaf a Leaf" c Leaf] True by simp
    moreover have "relinked av_data (set_tree (plug (Node L a R) c)) m m1" using r(6) True by simp
    ultimately show ?thesis using m'(2-4)
      by (intro exI [of _ root'] exI [of _ m'] exI [of _ "bal_up Leaf c"] conjI exI [of _ m1] exI [of _ ?m2]) simp_all
  next
    case False
    then have "L \<noteq> Leaf \<or> R \<noteq> Leaf" by simp
    from remove_inner_start [OF f this hs] obtain side U w b cs root1 m1 pw n1 n2 n3 e g s tree1 ma qb where r:
      "avl_tree_node_get_replacement tree a m = Some (b, tree1, ma)" "heap ma b = Some s" "b \<noteq> 0"
      "(if av_parent s = a then b else av_parent s) = qb"
      "avl_tree_copy_child b a Side_Left ma = Some n1" "avl_tree_copy_child b a Side_Right n1 = Some n2"
      "heap n2 a = Some e" "heap n2 b = Some g" "store b (g\<lparr>av_height := av_height e\<rparr>) n2 = Some n3"
      "avl_tree_node_replace tree1 a b n3 = Some (tree\<lparr>at_root_node := root1\<rparr>, m1)" "heap m1 a \<noteq> None"
      "Node L a R = node_at side (plug (node_at side w b Leaf) cs) a U" "\<forall>x \<in> set cs. fst x = opp side"
      "focus m1 root1 w pw qb (cs @ (side, b, U) # c)" "heights (heap m1) w"
      "relinked av_data (set_tree (plug (Node L a R) c)) m m1" by (elim exE conjE) blast
    let ?C = "cs @ (side, b, U) # c"
    let ?m2 = "m1\<lparr>heap := (heap m1)(a := None)\<rparr>"
    have ord: "inorder (plug w ?C) = before c @ inorder L @ inorder R @ after c"
      using r(12,13) by (cases side) (auto simp: plug_append inorder_plug node_at_def one_sided)
    have "a \<notin> set_tree (plug w ?C)"
      using dist unfolding distinct_plug set_inorder [symmetric] ord by (auto simp: set_ctx_nodes)
    from finish [OF r(14,15) this, of ?m2] obtain root' m' where m':
      "avl_tree_balance_to_root (?tree root1) qb ?m2 = Some (?tree root', m')"
      "tree_at avl_ops (heap m') 0 root' (bal_up w ?C)" "heights (heap m') (bal_up w ?C)"
      "relinked av_data (set_tree (bal_up w ?C)) ?m2 m'" by auto
    have "avl_tree_remove_node tree a m = Some (?tree root', m')"
      using r(1-11) m'(1) a0 by (auto simp: avl_tree_remove_node_def mem_simps Let_def avl_upd_swap)
    moreover have "inorder (bal_up w ?C) = before c @ inorder L @ inorder R @ after c"
      using ord by (simp add: inorder_bal_up inorder_plug)
    moreover have "avl (plug (Node L a R) c) \<longrightarrow> avl (bal_up w ?C)"
    proof
      assume "avl (plug (Node L a R) c)"
      then have av: "avl (plug (node_at side (plug (node_at side w b Leaf) cs) a U) c)" using r(12) by simp
      have "avl (plug (node_at side (plug (node_at side w b Leaf) cs) b U) c)"
        by (rule avl_plug_cong [OF av]) (use avl_plug [OF av] in \<open>cases side; simp add: node_at_def\<close>)+
      then have "avl (plug (node_at side w b Leaf) ?C)" by (simp add: plug_append)
      moreover from this have "avl (node_at side w b Leaf)" by (rule avl_plug)
      then have "avl w \<and> height w \<le> 1" by (cases side) (simp_all add: node_at_def)
      ultimately show "avl (bal_up w ?C)" using bal_up_avl [of "node_at side w b Leaf" ?C w] by simp
    qed
    ultimately show ?thesis using m'(2-4) r(16)
      by (intro exI [of _ root'] exI [of _ m'] exI [of _ "bal_up w ?C"] conjI exI [of _ m1] exI [of _ ?m2]) simp_all
  qed
qed

section \<open>The operations\<close>

lemma avl_rep_unfold:
  assumes "avl_rep m tree t es"
  shows "tree_at avl_ops (heap m) 0 (at_root_node tree) t" "distinct (inorder t)" "heights (heap m) t" "avl t"
    "at_num_nodes tree = of_nat (size t)" "es = map (av_entry m) (inorder t)" "ordered (at_compare_func tree) fst es"
  using assms unfolding avl_rep_def by blast+



lemma ordered_del: "ordered cmp f (xs @ y # zs) \<Longrightarrow> ordered cmp f (xs @ zs)"
  by simp

lemma map_option_av: "map_option f x = map_option f y \<Longrightarrow> x \<noteq> None \<Longrightarrow> f (the x) = f (the y)"
  by (cases x; cases y) simp_all

lemma avl_tree_remove_node_ok:
  assumes rep: "avl_rep m tree t es" and a: "a \<in> set_tree t"
  shows "\<exists>tree' m' t' xs ys. avl_tree_remove_node tree a m = Some (tree', m') \<and>
    es = xs @ av_entry m a # ys \<and> avl_rep m' tree' t' (xs @ ys) \<and> set_tree t' = set_tree t - {a} \<and>
    at_compare_func tree' = at_compare_func tree \<and> answers m' = answers m \<and> heap m' a = None \<and>
    (\<forall>b. b \<notin> set_tree t \<longrightarrow> heap m' b = heap m b)"
proof -
  note at = avl_rep_unfold [OF rep]
  from plug_at [OF a] obtain L R c where t: "t = plug (Node L a R) c" by blast
  from at(1) obtain p q where pq: "tree_at avl_ops (heap m) q p (Node L a R)"
    "ctx_at avl_ops (heap m) (at_root_node tree) p q c" unfolding t tree_at_plug by blast
  have hp: "heights (heap m) (Node L a R)" "ctx_heights (heap m) c" using heights_plug at(3) t by blast+
  have f: "focus m (at_root_node tree) (Node L a R) a q c" using pq hp at(2) t by (simp add: focus_def)
  have hs: "heights (heap m) L" "heights (heap m) R" using hp(1) by (simp_all add: heights.simps)
  from remove_core [OF f hs] obtain root' m' t' m1 m2 where r:
    "avl_tree_remove_node tree a m = Some (tree\<lparr>at_num_nodes := at_num_nodes tree - 1, at_root_node := root'\<rparr>, m')"
    "tree_at avl_ops (heap m') 0 root' t'" "heights (heap m') t'"
    "inorder t' = before c @ inorder L @ inorder R @ after c" "avl (plug (Node L a R) c) \<longrightarrow> avl t'"
    "relinked av_data (set_tree (plug (Node L a R) c)) m m1" "heap m2 = (heap m1)(a := None)"
    "answers m2 = answers m1" "relinked av_data (set_tree t') m2 m'" by (elim exE conjE) blast
  let ?xs = "before c @ inorder L" and ?ys = "inorder R @ after c"
  have it: "inorder t = ?xs @ a # ?ys" "inorder t' = ?xs @ ?ys" using r(4) t by (simp_all add: inorder_plug)
  have st: "set_tree t' = set_tree t - {a}" "set_tree t = insert a (set_tree t')" "a \<notin> set_tree t'"
    using at(2) unfolding set_inorder [symmetric] it by auto
  have ent: "av_entry m' x = av_entry m x" if "x \<noteq> a" for x
    using relinked_entry [OF r(9), of x] relinked_entry [OF r(6), of x] that by (simp add: av_entry_def r(7))
  let ?xe = "map (av_entry m) ?xs" and ?ye = "map (av_entry m) ?ys"
  have es: "es = ?xe @ av_entry m a # ?ye" using at(6) it by simp
  have "map (av_entry m') (inorder t') = ?xe @ ?ye"
  proof -
    have "map (av_entry m') (inorder t') = map (av_entry m) (inorder t')"
    proof (intro map_cong refl)
      show "av_entry m' x = av_entry m x" if "x \<in> set (inorder t')" for x using that st(3) by (intro ent) auto
    qed
    then show ?thesis by (simp add: it(2))
  qed
  moreover have "ordered (at_compare_func tree) fst (?xe @ ?ye)" using at(7) unfolding es by (rule ordered_del)
  moreover have "size t = Suc (size t')" using it by (metis length_inorder length_append length_Cons add_Suc_right)
  moreover have "distinct (inorder t')" using at(2) unfolding it by simp
  ultimately have "avl_rep m' (tree\<lparr>at_num_nodes := at_num_nodes tree - 1, at_root_node := root'\<rparr>) t' (?xe @ ?ye)"
    unfolding avl_rep_def using r(2,3,5) at(4,5) t by simp
  moreover have "answers m' = answers m"
    using relinked_answers [OF r(9)] relinked_answers [OF r(6)] r(8) by simp
  moreover have "heap m' a = None" using relinked_frame [OF r(9)] st(3) r(7) by simp
  moreover have "heap m' b = heap m b" if "b \<notin> set_tree t" for b
    using relinked_frame [OF r(9), of b] relinked_frame [OF r(6), of b] that st(2) t r(7) by simp
  ultimately show ?thesis using r(1) es st(1)
    by (intro exI [of _ "tree\<lparr>at_num_nodes := at_num_nodes tree - 1, at_root_node := root'\<rparr>"] exI [of _ m']
        exI [of _ t'] exI [of _ ?xe] exI [of _ ?ye]) simp
qed

text \<open>The search finds an entry with an equal key, if there is one.\<close>

lemma avl_tree_lookup_node_ok:
  assumes cmp: "comparator (at_compare_func tree)" and rep: "avl_rep m tree t es"
  shows "\<exists>a. avl_tree_lookup_node tree key m = Some a \<and>
    (if a = 0 then \<forall>e \<in> set es. at_compare_func tree key (fst e) \<noteq> 0
     else a \<in> set_tree t \<and> at_compare_func tree key (fst (av_entry m a)) = 0)"
proof -
  let ?cmp = "at_compare_func tree" and ?k = "\<lambda>a. fst (av_entry m a)"
  note at = avl_rep_unfold [OF rep]
  have "ordered ?cmp ?k (inorder t)" using at(7) unfolding at(6) ordered_map .
  from comparator.search_correct [OF cmp this tree_at_nonzero [OF at(1)] refl, of key]
  have *: "if search (\<lambda>a. ?cmp key (?k a)) t = 0 then \<forall>a \<in> set_tree t. ?cmp key (?k a) \<noteq> 0
    else search (\<lambda>a. ?cmp key (?k a)) t \<in> set_tree t \<and> ?cmp key (?k (search (\<lambda>a. ?cmp key (?k a)) t)) = 0" .
  have "avl_tree_lookup_node tree key m = Some (search (\<lambda>a. ?cmp key (?k a)) t)"
    using avl_links.find_node_spec [OF at(1), of "\<lambda>e. ?cmp key (av_key e)"] by (simp add: avl_tree_lookup_node_def av_entry_def)
  with * show ?thesis by (auto simp: at(6))
qed





section \<open>The contract\<close>







lemma length_insert_entry [simp]: "length (insert_entry cmp k v es) = Suc (length es)"
proof -
  have "length (takeWhile P es) + length (dropWhile P es) = length es" for P
    by (metis length_append takeWhile_dropWhile_id)
  then show ?thesis by (simp add: insert_entry_def)
qed






section \<open>Properties\<close>

text \<open>C14: \<open>avl_tree_insert\<close> returns for every answer of the allocator.  When it gets a node the tree
  has the new entry behind those with keys that are not larger, in the order of the keys, it
  is an AVL tree with the right heights and links, and only its own nodes were written; when
  it does not, it returns a null pointer and changes nothing.\<close>

theorem avl_tree_insert_correct:
  assumes "comparator (at_compare_func tree)" "avl_rep m tree t es"
  shows "\<exists>node tree' m'. avl_tree_insert tree key v m = Some (node, tree', m') \<and>
    (if node \<noteq> 0
     then heap m node = None \<and>
       (\<exists>t'. avl_rep m' tree' t' (insert_entry (at_compare_func tree) key v es) \<and>
          set_tree t' = insert node (set_tree t)) \<and>
       (\<forall>b. b \<noteq> node \<longrightarrow> b \<notin> set_tree t \<longrightarrow> heap m' b = heap m b)
     else \<not> can_alloc m \<and> tree' = tree \<and> heap m' = heap m)"
proof -
  have "can_alloc m \<Longrightarrow> hd (answers m) \<noteq> 0 \<and> heap m (hd (answers m)) = None"
    by (auto simp: can_alloc_def split: list.splits)
  then show ?thesis using avl_tree_insert_ok [OF assms, of key v] by (cases "can_alloc m") auto
qed

text \<open>A tree with the keys 3 and 5; a further key that is larger needs a rotation.\<close>

definition avl_sample :: "avmem" where
  "avl_sample =
     \<lparr>heap = [1 \<mapsto> \<lparr>av_left = 0, av_right = 2, av_parent = 0, av_key = 3, av_value = 30, av_height = 2\<rparr>,
              2 \<mapsto> \<lparr>av_left = 0, av_right = 0, av_parent = 1, av_key = 5, av_value = 50, av_height = 1\<rparr>],
      answers = [7, 8, 9]\<rparr>"

definition avl_sample_tree :: avl_tree where
  "avl_sample_tree = \<lparr>at_root_node = 1, at_compare_func = pointer_compare, at_num_nodes = 2\<rparr>"

lemma avl_sample_rep: "avl_rep avl_sample avl_sample_tree (Node Leaf 1 (Node Leaf 2 Leaf)) [(3, 30), (5, 50)]"
  by (simp add: avl_rep_def avl_sample_def avl_sample_tree_def heights.simps av_entry_def pointer_compare_def)

lemma avl_sample_cmp: "comparator (at_compare_func avl_sample_tree)"
  by (simp add: avl_sample_tree_def pointer_cmp.comparator_axioms)

theorem avl_tree_insert_correct_witness:
  "\<exists>node tree' m' t'. avl_tree_insert avl_sample_tree 7 70 avl_sample = Some (node, tree', m') \<and>
     avl_rep m' tree' t' [(3, 30), (5, 50), (7, 70)] \<and> set_tree t' = {node, 1, 2}"
proof -
  have "can_alloc avl_sample" by (simp add: can_alloc_def avl_sample_def)
  moreover have "insert_entry (at_compare_func avl_sample_tree) 7 70 [(3, 30), (5, 50)] = [(3, 30), (5, 50), (7, 70)]"
    by (simp add: insert_entry_def avl_sample_tree_def pointer_compare_def)
  ultimately show ?thesis using avl_tree_insert_correct [OF avl_sample_cmp avl_sample_rep, of 7 70]
    by (force split: if_splits)
qed

text \<open>C15: \<open>avl_tree_remove\<close> returns, and tells whether there was an entry with an equal key.  If so, one
  such entry is gone from the sequence, the other entries keep their order, the tree is again an AVL
  tree with the right heights and links, and exactly one node was freed; if not, nothing changed.\<close>

theorem avl_tree_remove_correct:
  assumes cmp: "comparator (at_compare_func tree)" and rep: "avl_rep m tree t es"
  shows "\<exists>ok tree' m'. avl_tree_remove tree key m = Some (ok, tree', m') \<and>
    (if ok
     then \<exists>xs e ys t' node. es = xs @ e # ys \<and> at_compare_func tree key (fst e) = 0 \<and>
       avl_rep m' tree' t' (xs @ ys) \<and> node \<in> set_tree t \<and> set_tree t' = set_tree t - {node} \<and>
       heap m' node = None \<and> (\<forall>b. b \<notin> set_tree t \<longrightarrow> heap m' b = heap m b)
     else (\<forall>e \<in> set es. at_compare_func tree key (fst e) \<noteq> 0) \<and> tree' = tree \<and> m' = m)"
proof -
  from avl_tree_lookup_node_ok [OF assms, of key] obtain a where a:
    "avl_tree_lookup_node tree key m = Some a" "if a = 0 then \<forall>e \<in> set es. at_compare_func tree key (fst e) \<noteq> 0
     else a \<in> set_tree t \<and> at_compare_func tree key (fst (av_entry m a)) = 0" by blast
  show ?thesis
  proof (cases "a = 0")
    case True
    with a show ?thesis
      by (intro exI [of _ False] exI [of _ tree] exI [of _ m]) (simp add: avl_tree_remove_def)
  next
    case False
    with a(2) have an: "a \<in> set_tree t" "at_compare_func tree key (fst (av_entry m a)) = 0" by simp_all
    from avl_tree_remove_node_ok [OF rep an(1)] obtain tree' m' t' xs ys where r:
      "avl_tree_remove_node tree a m = Some (tree', m')" "es = xs @ av_entry m a # ys" "avl_rep m' tree' t' (xs @ ys)"
      "set_tree t' = set_tree t - {a}" "heap m' a = None" "\<forall>b. b \<notin> set_tree t \<longrightarrow> heap m' b = heap m b" by blast
    have "avl_tree_remove tree key m = Some (True, tree', m')" using a(1) False r(1) by (simp add: avl_tree_remove_def)
    moreover have "\<exists>xs e ys t' node. es = xs @ e # ys \<and> at_compare_func tree key (fst e) = 0 \<and>
       avl_rep m' tree' t' (xs @ ys) \<and> node \<in> set_tree t \<and> set_tree t' = set_tree t - {node} \<and>
       heap m' node = None \<and> (\<forall>b. b \<notin> set_tree t \<longrightarrow> heap m' b = heap m b)"
      by (intro exI conjI, rule r(2), rule an(2), rule r(3), rule an(1), rule r(4), rule r(5), rule r(6))
    ultimately show ?thesis
      by (intro exI [of _ True] exI [of _ tree'] exI [of _ m'] conjI) (simp_all only: if_True)
  qed
qed

theorem avl_tree_remove_correct_witness:
  "\<exists>tree' m' t'. avl_tree_remove avl_sample_tree 3 avl_sample = Some (True, tree', m') \<and>
     avl_rep m' tree' t' [(5, 50)]"
proof -
  have "\<not> (\<forall>e \<in> set [(3, 30), (5, 50)]. at_compare_func avl_sample_tree 3 (fst e) \<noteq> 0)"
    by (simp add: avl_sample_tree_def pointer_compare_def)
  then obtain tree' m' xs e ys t' where r: "avl_tree_remove avl_sample_tree 3 avl_sample = Some (True, tree', m')"
    "[(3, 30), (5, 50)] = xs @ e # ys" "at_compare_func avl_sample_tree 3 (fst e) = 0" "avl_rep m' tree' t' (xs @ ys)"
    using avl_tree_remove_correct [OF avl_sample_cmp avl_sample_rep, of 3] by (metis (full_types))
  have "xs @ ys = [(5, 50)]"
    using r(2,3) by (auto simp: Cons_eq_append_conv avl_sample_tree_def pointer_compare_def)
  with r(1,4) show ?thesis by auto
qed





text \<open>\<open>avl_tree_balance_to_root\<close> terminates and computes the purely functional balancing of the
  trees on the way from a node to the root, whatever the heights that are stored in the nodes on
  that way: it recomputes them, and rotates once or twice where two heights differ by two or
  more.\<close>

theorem avl_tree_balance_to_root_correct:
  assumes "focus m (at_root_node tree) t p q c" "heights (heap m) t"
  shows "\<exists>root' m'. avl_tree_balance_to_root tree q m = Some (tree\<lparr>at_root_node := root'\<rparr>, m') \<and>
     tree_at avl_ops (heap m') 0 root' (bal_up t c) \<and> heights (heap m') (bal_up t c) \<and>
     inorder (bal_up t c) = inorder (plug t c) \<and> relinked av_data (set_tree (plug t c)) m m'"
  using balance_to_root_spec [OF assms] inorder_bal_up [of t c] inorder_plug [of t c] by simp

theorem avl_tree_balance_to_root_correct_witness:
  "\<exists>root' m'. avl_tree_balance_to_root avl_sample_tree 1 avl_sample = Some (avl_sample_tree\<lparr>at_root_node := root'\<rparr>, m') \<and>
     tree_at avl_ops (heap m') 0 root' (Node Leaf 1 (Node Leaf 2 Leaf))"
proof -
  have "focus avl_sample (at_root_node avl_sample_tree) (Node Leaf 2 Leaf) 2 1 [(Side_Right, 1, Leaf)]"
    by (simp add: focus_def avl_sample_def avl_sample_tree_def node_at_def)
  moreover have "heights (heap avl_sample) (Node Leaf 2 Leaf)" by (simp add: heights.simps avl_sample_def)
  ultimately show ?thesis
    using avl_tree_balance_to_root_correct [of avl_sample avl_sample_tree "Node Leaf 2 Leaf" 2 1 "[(Side_Right, 1, Leaf)]"]
    by (auto simp: balance_def)
qed

end
