(* ===== verification/RBTree.thy ===== *)
theory RBTree
  imports BinTree
begin

text \<open>
  The red-black tree of \<open>libcalg/src/rb-tree.c\<close>, every function of the file.  The pointer
  operations are those of \<open>BinTree\<close>.  As in the code, an insertion compares values while a lookup
  compares keys, and the removal of a node and the conversion to an array are empty.
\<close>

section \<open>The code\<close>

datatype rb_color = Rb_Red | Rb_Black

record rb_tree_node =
  rn_color :: rb_color
  rn_key :: val
  rn_value :: val
  rn_parent :: addr
  rn_left :: addr
  rn_right :: addr

record rb_tree =
  rt_root_node :: addr
  rt_compare_func :: "val \<Rightarrow> val \<Rightarrow> int"
  rt_num_nodes :: c_int

type_synonym rbmem = "rb_tree_node mem"

definition rb_ops :: "rb_tree_node tree_ops" where
  "rb_ops =
     \<lparr>t_child = (\<lambda>e s. case s of Side_Left \<Rightarrow> rn_left e | Side_Right \<Rightarrow> rn_right e),
      t_set_child = (\<lambda>s p e. case s of Side_Left \<Rightarrow> e\<lparr>rn_left := p\<rparr> | Side_Right \<Rightarrow> e\<lparr>rn_right := p\<rparr>),
      t_parent = rn_parent, t_set_parent = (\<lambda>q e. e\<lparr>rn_parent := q\<rparr>)\<rparr>"

abbreviation rn_child :: "rb_tree_node \<Rightarrow> side \<Rightarrow> addr" where
  "rn_child \<equiv> t_child rb_ops"

definition rb_tree_node_side :: "addr \<Rightarrow> rbmem \<Rightarrow> side option" where
  "rb_tree_node_side node m = node_side rb_ops node m"

definition rb_tree_node_sibling :: "addr \<Rightarrow> rbmem \<Rightarrow> addr option" where
  "rb_tree_node_sibling node m = do {
     side \<leftarrow> rb_tree_node_side node m;
     e \<leftarrow> load node m;
     p \<leftarrow> load (rn_parent e) m;
     Some (rn_child p (opp side))
   }"

definition rb_tree_node_uncle :: "addr \<Rightarrow> rbmem \<Rightarrow> addr option" where
  "rb_tree_node_uncle node m = do {
     e \<leftarrow> load node m;
     rb_tree_node_sibling (rn_parent e) m
   }"

definition rb_tree_node_replace :: "rb_tree \<Rightarrow> addr \<Rightarrow> addr \<Rightarrow> rbmem \<Rightarrow> (rb_tree \<times> rbmem) option" where
  "rb_tree_node_replace tree node1 node2 m = do {
     (root, m) \<leftarrow> tree_replace rb_ops (rt_root_node tree) node1 node2 m;
     Some (tree\<lparr>rt_root_node := root\<rparr>, m)
   }"

definition rb_tree_rotate :: "rb_tree \<Rightarrow> addr \<Rightarrow> side \<Rightarrow> rbmem \<Rightarrow> (addr \<times> rb_tree \<times> rbmem) option" where
  "rb_tree_rotate tree node direction m = do {
     e \<leftarrow> load node m;
     let new_root = rn_child e (opp direction);
     (tree, m) \<leftarrow> rb_tree_node_replace tree node new_root m;
     m \<leftarrow> rotate_links rb_ops node new_root direction m;
     Some (new_root, tree, m)
   }"



definition rb_set_color :: "rb_color \<Rightarrow> addr \<Rightarrow> rbmem \<Rightarrow> rbmem option" where
  "rb_set_color color node m = do { e \<leftarrow> load node m; store node (e\<lparr>rn_color := color\<rparr>) m }"

definition rb_tree_insert_case5 :: "rb_tree \<Rightarrow> addr \<Rightarrow> rbmem \<Rightarrow> (rb_tree \<times> rbmem) option" where
  "rb_tree_insert_case5 tree node m = do {
     e \<leftarrow> load node m;
     let parent = rn_parent e;
     p \<leftarrow> load parent m;
     let grandparent = rn_parent p;
     side \<leftarrow> rb_tree_node_side node m;
     (_, tree, m) \<leftarrow> rb_tree_rotate tree grandparent (opp side) m;
     m \<leftarrow> rb_set_color Rb_Black parent m;
     m \<leftarrow> rb_set_color Rb_Red grandparent m;
     Some (tree, m)
   }"

definition rb_tree_insert_case4 :: "rb_tree \<Rightarrow> addr \<Rightarrow> rbmem \<Rightarrow> (rb_tree \<times> rbmem) option" where
  "rb_tree_insert_case4 tree node m = do {
     side \<leftarrow> rb_tree_node_side node m;
     e \<leftarrow> load node m;
     parent_side \<leftarrow> rb_tree_node_side (rn_parent e) m;
     (next_node, tree, m) \<leftarrow>
       (if side \<noteq> parent_side then do {
          (_, tree, m) \<leftarrow> rb_tree_rotate tree (rn_parent e) (opp side) m;
          Some (rn_parent e, tree, m)
        }
        else Some (node, tree, m));
     rb_tree_insert_case5 tree next_node m
   }"

text \<open>The cases 1, 2 and 3 call each other in a cycle; they are one recursive function here.\<close>

partial_function (option) rb_tree_insert_case1 :: "rb_tree \<Rightarrow> addr \<Rightarrow> rbmem \<Rightarrow> (rb_tree \<times> rbmem) option" where
  "rb_tree_insert_case1 tree node m = do {
     e \<leftarrow> load node m;
     if rn_parent e = 0 then do {
       m \<leftarrow> rb_set_color Rb_Black node m;
       Some (tree, m)
     }
     else do {
       p \<leftarrow> load (rn_parent e) m;
       if rn_color p = Rb_Black then Some (tree, m)
       else do {
         let grandparent = rn_parent p;
         uncle \<leftarrow> rb_tree_node_uncle node m;
         uncle_red \<leftarrow> (if uncle \<noteq> 0 then do { u \<leftarrow> load uncle m; Some (rn_color u = Rb_Red) } else Some False);
         if uncle_red then do {
           m \<leftarrow> rb_set_color Rb_Black (rn_parent e) m;
           m \<leftarrow> rb_set_color Rb_Black uncle m;
           m \<leftarrow> rb_set_color Rb_Red grandparent m;
           rb_tree_insert_case1 tree grandparent m
         }
         else rb_tree_insert_case4 tree node m
       }
     }
   }"

definition rb_tree_insert :: "rb_tree \<Rightarrow> val \<Rightarrow> val \<Rightarrow> rbmem \<Rightarrow> (addr \<times> rb_tree \<times> rbmem) option" where
  "rb_tree_insert tree key v m =
     (let (node, m) = malloc \<lparr>rn_color = Rb_Red, rn_key = key, rn_value = v, rn_parent = 0, rn_left = 0,
            rn_right = 0\<rparr> m
      in if node = 0 then Some (0, tree, m)
         else do {
           (parent, rover) \<leftarrow>
             find_slot rb_ops (\<lambda>e. rt_compare_func tree v (rn_value e) < 0) 0 Root_Slot (rt_root_node tree) m;
           (root, m) \<leftarrow> slot_write rb_ops rover node (rt_root_node tree) m;
           e \<leftarrow> load node m;
           m \<leftarrow> store node (e\<lparr>rn_parent := parent\<rparr>) m;
           (tree, m) \<leftarrow> rb_tree_insert_case1 (tree\<lparr>rt_root_node := root\<rparr>) node m;
           Some (node, tree\<lparr>rt_num_nodes := rt_num_nodes tree + 1\<rparr>, m)
         })"





definition rb_tree_root_node :: "rb_tree \<Rightarrow> addr" where
  "rb_tree_root_node tree = rt_root_node tree"

definition rb_tree_node_key :: "addr \<Rightarrow> rbmem \<Rightarrow> val option" where
  "rb_tree_node_key node m = do { e \<leftarrow> load node m; Some (rn_key e) }"

definition rb_tree_node_value :: "addr \<Rightarrow> rbmem \<Rightarrow> val option" where
  "rb_tree_node_value node m = do { e \<leftarrow> load node m; Some (rn_value e) }"

definition rb_tree_node_child :: "addr \<Rightarrow> side \<Rightarrow> rbmem \<Rightarrow> addr option" where
  "rb_tree_node_child node side m = do { e \<leftarrow> load node m; Some (rn_child e side) }"

definition rb_tree_node_parent :: "addr \<Rightarrow> rbmem \<Rightarrow> addr option" where
  "rb_tree_node_parent node m = do { e \<leftarrow> load node m; Some (rn_parent e) }"

definition rb_tree_to_array :: "rb_tree \<Rightarrow> val cells option" where
  "rb_tree_to_array tree = None"


section \<open>Colours\<close>

interpretation rb_links: tree_links rb_ops "\<lambda>e. ((rn_key e, rn_value e), rn_color e)"
  by unfold_locales (auto simp: rb_ops_def split: side.splits)

abbreviation rn_data :: "rb_tree_node \<Rightarrow> (val \<times> val) \<times> rb_color" where
  "rn_data e \<equiv> ((rn_key e, rn_value e), rn_color e)"

lemma rb_ops_simps [simp]:
  "rn_child e Side_Left = rn_left e" "rn_child e Side_Right = rn_right e" "t_parent rb_ops e = rn_parent e"
  "rn_child (e\<lparr>rn_color := x\<rparr>) = rn_child e" "rn_parent (e\<lparr>rn_color := x\<rparr>) = rn_parent e"
  "rn_parent (t_set_parent rb_ops q e) = q" "t_set_parent rb_ops q e = e\<lparr>rn_parent := q\<rparr>"
  by (auto simp: rb_ops_def fun_eq_iff split: side.splits)

definition colored :: "(addr \<rightharpoonup> rb_tree_node) \<Rightarrow> rb_color \<Rightarrow> addr \<Rightarrow> bool" where
  "colored h x a \<longleftrightarrow> map_option rn_color (h a) = Some x"

text \<open>The root is black or there is none.\<close>

fun black_top :: "(addr \<rightharpoonup> rb_tree_node) \<Rightarrow> addr tree \<Rightarrow> bool" where
  "black_top h Leaf \<longleftrightarrow> True"
| "black_top h (Node t a u) \<longleftrightarrow> colored h Rb_Black a"

text \<open>A red-black tree with \<open>n\<close> black nodes on every way down.\<close>

fun rb_ok :: "(addr \<rightharpoonup> rb_tree_node) \<Rightarrow> nat \<Rightarrow> addr tree \<Rightarrow> bool" where
  "rb_ok h n Leaf \<longleftrightarrow> n = 0"
| "rb_ok h n (Node t a u) \<longleftrightarrow>
     colored h Rb_Red a \<and> black_top h t \<and> black_top h u \<and> rb_ok h n t \<and> rb_ok h n u \<or>
     colored h Rb_Black a \<and> (\<exists>k. n = Suc k \<and> rb_ok h k t \<and> rb_ok h k u)"

definition ctx_black :: "(addr \<rightharpoonup> rb_tree_node) \<Rightarrow> ctx \<Rightarrow> bool" where
  "ctx_black h c \<longleftrightarrow> (case c of [] \<Rightarrow> True | (_, a, _) # _ \<Rightarrow> colored h Rb_Black a)"

text \<open>
  A context that completes a tree with \<open>n\<close> black nodes on every way down: below a red node the
  context has a black one.
\<close>

fun ctx_ok :: "(addr \<rightharpoonup> rb_tree_node) \<Rightarrow> nat \<Rightarrow> ctx \<Rightarrow> bool" where
  "ctx_ok h n [] \<longleftrightarrow> True"
| "ctx_ok h n ((s, a, u) # c) \<longleftrightarrow> rb_ok h n u \<and>
     (colored h Rb_Red a \<and> black_top h u \<and> c \<noteq> [] \<and> ctx_black h c \<and> ctx_ok h n c \<or>
      colored h Rb_Black a \<and> ctx_ok h (Suc n) c)"

lemma ctx_black_simps [simp]: "ctx_black h []" "ctx_black h ((s, a, u) # c) \<longleftrightarrow> colored h Rb_Black a"
  by (simp_all add: ctx_black_def)

lemma colored_fun: "colored h Rb_Red a \<Longrightarrow> \<not> colored h Rb_Black a"
  by (auto simp: colored_def)

lemma black_top_node_at [simp]: "black_top h (node_at s t a u) \<longleftrightarrow> colored h Rb_Black a"
  by (simp add: node_at_def split: side.splits)

lemma rb_ok_node_at [simp]: "rb_ok h n (node_at s t a u) \<longleftrightarrow>
     colored h Rb_Red a \<and> black_top h t \<and> black_top h u \<and> rb_ok h n t \<and> rb_ok h n u \<or>
     colored h Rb_Black a \<and> (\<exists>k. n = Suc k \<and> rb_ok h k t \<and> rb_ok h k u)"
  by (auto simp: node_at_def split: side.splits)

lemma colored_cong: "map_option rn_color (h' a) = map_option rn_color (h a) \<Longrightarrow> colored h' x a \<longleftrightarrow> colored h x a"
  by (simp add: colored_def)

lemma black_top_cong:
  "(\<And>b. b \<in> set_tree t \<Longrightarrow> map_option rn_color (h' b) = map_option rn_color (h b)) \<Longrightarrow> black_top h' t \<longleftrightarrow> black_top h t"
  by (cases t) (auto simp: colored_def)

lemma rb_ok_cong:
  "(\<And>b. b \<in> set_tree t \<Longrightarrow> map_option rn_color (h' b) = map_option rn_color (h b)) \<Longrightarrow> rb_ok h' n t \<longleftrightarrow> rb_ok h n t"
proof (induction t arbitrary: n)
  case (Node t a u)
  have "black_top h' t \<longleftrightarrow> black_top h t" "black_top h' u \<longleftrightarrow> black_top h u"
    by (rule black_top_cong; use Node.prems in simp)+
  moreover have "rb_ok h' n t \<longleftrightarrow> rb_ok h n t" "rb_ok h' n u \<longleftrightarrow> rb_ok h n u" for n
    using Node by simp_all
  moreover have "colored h' x a \<longleftrightarrow> colored h x a" for x using Node.prems by (simp add: colored_def)
  ultimately show ?case by simp
qed simp

lemma ctx_black_cong:
  "(\<And>b. b \<in> set (ctx_nodes c) \<Longrightarrow> map_option rn_color (h' b) = map_option rn_color (h b)) \<Longrightarrow>
   ctx_black h' c \<longleftrightarrow> ctx_black h c"
  by (cases c rule: ctx_nodes.cases) (simp_all add: colored_def)

lemma ctx_ok_cong:
  "(\<And>b. b \<in> set (ctx_nodes c) \<Longrightarrow> map_option rn_color (h' b) = map_option rn_color (h b)) \<Longrightarrow>
   ctx_ok h' n c \<longleftrightarrow> ctx_ok h n c"
proof (induction h n c rule: ctx_ok.induct)
  case (2 h n s a u c)
  have "black_top h' u \<longleftrightarrow> black_top h u" by (rule black_top_cong) (use 2(3) in simp)
  moreover have "rb_ok h' n u \<longleftrightarrow> rb_ok h n u" by (rule rb_ok_cong) (use 2(3) in simp)
  moreover have "colored h' x a \<longleftrightarrow> colored h x a" for x using 2(3) by (simp add: colored_def)
  moreover have "ctx_black h' c \<longleftrightarrow> ctx_black h c" by (rule ctx_black_cong) (use 2(3) in simp)
  moreover have "ctx_ok h' n c \<longleftrightarrow> ctx_ok h n c" "ctx_ok h' (Suc n) c \<longleftrightarrow> ctx_ok h (Suc n) c"
    using 2 by simp_all
  ultimately show ?case by simp
qed simp

text \<open>A tree in a context.\<close>

lemma rb_ok_plug:
  "rb_ok h n t \<Longrightarrow> ctx_ok h n c \<Longrightarrow> black_top h t \<or> ctx_black h c \<Longrightarrow> \<exists>k. rb_ok h k (plug t c)"
proof (induction t c arbitrary: n rule: plug.induct)
  case (1 t)
  then show ?case by auto
next
  case (2 t s a u c)
  from 2(3) consider
      (red) "colored h Rb_Red a" "black_top h u" "rb_ok h n u" "ctx_black h c" "ctx_ok h n c"
    | (black) "colored h Rb_Black a" "rb_ok h n u" "ctx_ok h (Suc n) c"
    unfolding ctx_ok.simps by blast
  then show ?case
  proof cases
    case red
    then have "black_top h t" using 2(4) colored_fun [OF red(1)] by simp
    with red 2(2) have "rb_ok h n (node_at s t a u)" by simp
    from 2(1) [OF this red(5)] red(4) show ?thesis by simp
  next
    case black
    with 2(2) have "rb_ok h (Suc n) (node_at s t a u)" by simp
    from 2(1) [OF this black(3)] black(1) show ?thesis by simp
  qed
qed

lemma black_top_plug: "c \<noteq> [] \<Longrightarrow> ctx_ok h n c \<Longrightarrow> black_top h (plug t c)"
proof (induction t c arbitrary: n rule: plug.induct)
  case (2 t s a u c)
  show ?case
  proof (cases "c = []")
    case False
    with 2(3) have "ctx_ok h n c \<or> ctx_ok h (Suc n) c" by auto
    with 2(1) [OF False] show ?thesis by auto
  qed (use 2(3) in simp)
qed simp

lemma plug_rb_ok:
  "rb_ok h k (plug t c) \<Longrightarrow> black_top h (plug t c) \<Longrightarrow>
   \<exists>n. rb_ok h n t \<and> ctx_ok h n c \<and> (black_top h t \<or> c \<noteq> [] \<and> ctx_black h c)"
proof (induction t c rule: plug.induct)
  case (2 t s a u c)
  from 2(2,3) have "rb_ok h k (plug (node_at s t a u) c)" "black_top h (plug (node_at s t a u) c)" by simp_all
  from 2(1) [OF this] obtain n where n: "rb_ok h n (node_at s t a u)" "ctx_ok h n c"
    "colored h Rb_Black a \<or> c \<noteq> [] \<and> ctx_black h c" unfolding black_top_node_at by blast
  from n(1) show ?case unfolding rb_ok_node_at
  proof (elim disjE conjE exE)
    assume r: "colored h Rb_Red a" "black_top h t" "black_top h u" "rb_ok h n t" "rb_ok h n u"
    with n(2,3) colored_fun [OF r(1)] have "ctx_ok h n ((s, a, u) # c)" by simp
    with r(2,4) show ?thesis by blast
  next
    fix i assume b: "colored h Rb_Black a" "n = Suc i" "rb_ok h i t" "rb_ok h i u"
    with n(2) have "ctx_ok h i ((s, a, u) # c)" by simp
    with b(1,3) show ?thesis by auto
  qed
qed auto

section \<open>Rotating and painting\<close>

definition rb_focus :: "rbmem \<Rightarrow> addr \<Rightarrow> addr tree \<Rightarrow> addr \<Rightarrow> addr \<Rightarrow> ctx \<Rightarrow> bool" where
  "rb_focus m root t p q c \<longleftrightarrow> tree_at rb_ops (heap m) q p t \<and> ctx_at rb_ops (heap m) root p q c \<and>
     distinct (inorder (plug t c))"

abbreviation rn_entry :: "rb_tree_node \<Rightarrow> val \<times> val" where
  "rn_entry e \<equiv> (rn_key e, rn_value e)"

lemma rb_focus_up:
  "rb_focus m root t p q ((s, a, u) # c) \<Longrightarrow> \<exists>q'. rb_focus m root (node_at s t a u) a q' c \<and> q = a"
  by (auto simp: rb_focus_def)

lemma rb_focus_down:
  "rb_focus m root (node_at s t a u) p q c \<Longrightarrow> \<exists>p'. rb_focus m root t p' a ((s, a, u) # c)"
  by (auto simp: rb_focus_def)

lemma rb_focus_nonzero: "rb_focus m root t p q c \<Longrightarrow> 0 \<notin> set_tree (plug t c)"
  unfolding rb_focus_def by (metis tree_at_nonzero tree_at_plug)

lemma rb_focus_dom: "rb_focus m root t p q c \<Longrightarrow> set_tree (plug t c) \<subseteq> dom (heap m)"
  unfolding rb_focus_def set_plug using tree_at_dom ctx_at_dom by blast

lemma rb_rotate_spec:
  assumes f: "rb_focus m (rt_root_node tree) (node_at d A a (node_at d C b E)) a q c"
  shows "\<exists>root' m'. rb_tree_rotate tree a d m = Some (b, tree\<lparr>rt_root_node := root'\<rparr>, m') \<and>
    rb_focus m' root' (node_at d (node_at d A a C) b E) b q c \<and>
    relinked rn_data (set_tree (plug (node_at d A a (node_at d C b E)) c)) m m'"
proof -
  let ?T = "node_at d A a (node_at d C b E)" and ?U = "node_at d (node_at d A a C) b E"
  from f have at: "tree_at rb_ops (heap m) q a ?T" and c: "ctx_at rb_ops (heap m) (rt_root_node tree) a q c"
    and dist: "distinct (inorder (plug ?T c))" unfolding rb_focus_def by blast+
  have ds: "distinct (inorder ?T)" "distinct (ctx_nodes c)" "set_tree ?T \<inter> set (ctx_nodes c) = {}"
    using dist unfolding distinct_plug by blast+
  have ns: "a \<noteq> b" "a \<notin> set_tree A" "b \<notin> set_tree A" "a \<notin> set_tree C" "b \<notin> set_tree C" "a \<notin> set_tree E"
    "b \<notin> set_tree E"
    using ds(1) by (auto split: side.splits)
  have cs: "a \<notin> set (ctx_nodes c)" "b \<notin> set (ctx_nodes c)" "set_tree A \<inter> set (ctx_nodes c) = {}"
    "set_tree C \<inter> set (ctx_nodes c) = {}" "set_tree E \<inter> set (ctx_nodes c) = {}" using ds(3) by auto
  from at obtain n r where n: "heap m a = Some n" "a \<noteq> 0" "t_parent rb_ops n = q" "tree_at rb_ops (heap m) a (rn_child n d) A"
    and r: "rn_child n (opp d) = b" "b \<noteq> 0" "heap m b = Some r" "rn_parent r = a"
      "tree_at rb_ops (heap m) b (rn_child r d) C" "tree_at rb_ops (heap m) b (rn_child r (opp d)) E"
    by auto
  from rb_links.tree_replace_spec [OF c n(1,3,2) disjI2 [OF r(3)] ns(1) cs(1,2) ds(2)] r(2) obtain root' m1 where
    m1: "tree_replace rb_ops (rt_root_node tree) a b m = Some (root', m1)"
      "ctx_at rb_ops (heap m1) root' b q c" "heap m1 b = Some (t_set_parent rb_ops q r)"
      "relinked rn_data (hole_nodes b c) m m1" by auto
  have hn: "hole_nodes b c \<subseteq> insert b (set (ctx_nodes c))" by (rule hole_nodes_subset)
  have same: "heap m1 x = heap m x" if "x \<noteq> b" "x \<notin> set (ctx_nodes c)" for x
    by (rule relinked_frame [OF m1(4)]) (use that hn in blast)
  have at1: "tree_at rb_ops (heap m1) a (rn_child n d) A" "tree_at rb_ops (heap m1) b (rn_child r d) C"
    "tree_at rb_ops (heap m1) b (rn_child r (opp d)) E"
    by (rule tree_at_cong [OF same]; use n r ns cs in blast)+
  have n1: "heap m1 a = Some n" using same ns cs n by simp
  let ?r = "t_set_parent rb_ops q r"
  have "rn_child ?r = rn_child r" "t_parent rb_ops ?r = q" by (simp_all only: rb_links.child_set_parent rb_links.parent_set_parent)
  with rb_links.rotate_links_spec [OF n1 n(2) r(1) m1(3) r(2) _ at1(1), of q C E] at1(2,3) ds(1) obtain m2 where m2:
    "rotate_links rb_ops a b d m1 = Some m2" "tree_at rb_ops (heap m2) q b ?U"
    "relinked rn_data (insert a (insert b (set_tree C))) m1 m2" by auto
  have "ctx_at rb_ops (heap m2) root' b q c"
    by (rule ctx_at_cong [OF _ m1(2)], rule relinked_frame [OF m2(3)]) (use cs in auto)
  moreover have "inorder (plug ?U c) = inorder (plug ?T c)" by (simp add: inorder_plug split: side.splits)
  ultimately have "rb_focus m2 root' ?U b q c" using m2(2) dist unfolding rb_focus_def by simp
  moreover have "relinked rn_data (set_tree (plug ?T c)) m m2"
    by (rule relinked_trans [OF m1(4) m2(3)]) (use hn in \<open>auto simp: set_plug\<close>)
  moreover have "rb_tree_rotate tree a d m = Some (b, tree\<lparr>rt_root_node := root'\<rparr>, m2)"
    using n r(1) m1(1) m2(1) by (simp add: rb_tree_rotate_def rb_tree_node_replace_def mem_simps Let_def)
  ultimately show ?thesis by blast
qed

text \<open>Painting a node.\<close>

lemma rb_set_color_spec:
  assumes f: "rb_focus m root t p q c" and a: "a \<in> set_tree (plug t c)"
  shows "\<exists>m'. rb_set_color x a m = Some m' \<and> rb_focus m' root t p q c \<and>
    (\<forall>b. map_option rn_color (heap m' b) = (if b = a then Some x else map_option rn_color (heap m b))) \<and>
    relinked rn_entry (set_tree (plug t c)) m m'"
proof -
  from rb_focus_dom [OF f] a obtain e where e: "heap m a = Some e" by auto
  have a0: "a \<noteq> 0" using rb_focus_nonzero [OF f] a by metis
  let ?e = "e\<lparr>rn_color := x\<rparr>"
  let ?m = "m\<lparr>heap := (heap m)(a \<mapsto> ?e)\<rparr>"
  have "rb_set_color x a m = Some ?m" using e a0 by (simp add: rb_set_color_def mem_simps)
  moreover have "rb_focus ?m root t p q c"
    using f tree_at_upd_same [of "heap m" a e rb_ops ?e] ctx_at_upd_same [of "heap m" a e rb_ops ?e] e
    by (simp add: rb_focus_def)
  moreover have "relinked rn_entry (set_tree (plug t c)) m ?m" by (rule relinked_store [OF e]) (simp_all add: a)
  ultimately show ?thesis by (intro exI [of _ ?m]) simp
qed

lemma rb_node_side:
  assumes "rb_focus m root t p q ((s, a, u) # c)" "p \<noteq> 0"
  shows "rb_tree_node_side p m = Some s"
proof -
  from assms obtain e where e: "heap m p = Some e" "rn_parent e = q" "p \<in> set_tree t"
    unfolding rb_focus_def by (cases t) auto
  have "p \<notin> set (ctx_nodes ((s, a, u) # c))" using assms(1) e(3) unfolding rb_focus_def distinct_plug by blast
  with e assms show ?thesis
    unfolding rb_tree_node_side_def rb_focus_def
    by (intro rb_links.node_side_spec [where root = root and e = e]) simp_all
qed

section \<open>Repairing the colours\<close>

lemma rb_focus_node: "rb_focus m root (node_at s t a u) p q c \<Longrightarrow>
    p = a \<and> a \<noteq> 0 \<and> (\<exists>e. heap m a = Some e \<and> rn_parent e = q)"
  by (auto simp: rb_focus_def)

lemma relinked_color: "relinked rn_data A m m' \<Longrightarrow> map_option rn_color (heap m' x) = map_option rn_color (heap m x)"
  using relinked_comp [of rn_data A m m' snd] by (simp add: relinked_def)

lemma relinked_rn_entry: "relinked rn_data A m m' \<Longrightarrow> relinked rn_entry A m m'"
  using relinked_comp [of rn_data A m m' fst] by simp

lemma rb_insert_case5_spec:
  assumes f: "rb_focus m (rt_root_node tree) (node_at s (node_at s (Node L x R) p v) g u) g q c"
    and ok: "rb_ok (heap m) k (Node L x R)" "colored (heap m) Rb_Red x" "rb_ok (heap m) k v" "black_top (heap m) v"
      "rb_ok (heap m) k u" "black_top (heap m) u" "ctx_ok (heap m) (Suc k) c"
  shows "\<exists>root' m'. rb_tree_insert_case5 tree x m = Some (tree\<lparr>rt_root_node := root'\<rparr>, m') \<and>
    (let t' = plug (node_at s (Node L x R) p (node_at s v g u)) c in
      tree_at rb_ops (heap m') 0 root' t' \<and> (\<exists>k. rb_ok (heap m') k t') \<and> black_top (heap m') t' \<and>
      relinked rn_entry (set_tree t') m m')"
proof -
  let ?t = "Node L x R"
  let ?P = "node_at s ?t p v" and ?U = "node_at s ?t p (node_at s v g u)"
  from rb_focus_down [OF f] obtain pp where fp: "rb_focus m (rt_root_node tree) ?P pp g ((s, g, u) # c)" by blast
  from rb_focus_down [OF fp] obtain px where fx: "rb_focus m (rt_root_node tree) ?t px p ((s, p, v) # (s, g, u) # c)" by blast
  have x: "px = x" "x \<noteq> 0" using fx by (simp_all add: rb_focus_def)
  obtain e where e: "heap m x = Some e" "rn_parent e = p" using fx by (auto simp: rb_focus_def)
  obtain f' where f': "heap m p = Some f'" "rn_parent f' = g" "p \<noteq> 0" using rb_focus_node [OF fp] by blast
  have side: "rb_tree_node_side x m = Some s" using rb_node_side [OF fx] x by simp
  have N: "node_at s ?P g u = node_at (opp s) u g (node_at (opp s) v p ?t)" by (simp add: node_at_opp)
  have N': "node_at (opp s) (node_at (opp s) u g v) p ?t = ?U" by (simp add: node_at_opp)
  from rb_rotate_spec [OF f [unfolded N]] obtain root' m1 where m1:
    "rb_tree_rotate tree g (opp s) m = Some (p, tree\<lparr>rt_root_node := root'\<rparr>, m1)" "rb_focus m1 root' ?U p q c"
    "relinked rn_data (set_tree (plug (node_at s ?P g u) c)) m m1" unfolding N' N by blast
  have pin: "p \<in> set_tree (plug ?U c)" "g \<in> set_tree (plug ?U c)" by (simp_all add: set_plug)
  from rb_set_color_spec [OF m1(2) pin(1), of Rb_Black] obtain m2 where m2: "rb_set_color Rb_Black p m1 = Some m2"
    "rb_focus m2 root' ?U p q c"
    "\<forall>b. map_option rn_color (heap m2 b) = (if b = p then Some Rb_Black else map_option rn_color (heap m1 b))"
    "relinked rn_entry (set_tree (plug ?U c)) m1 m2" by blast
  from rb_set_color_spec [OF m2(2) pin(2), of Rb_Red] obtain m3 where m3: "rb_set_color Rb_Red g m2 = Some m3"
    "rb_focus m3 root' ?U p q c"
    "\<forall>b. map_option rn_color (heap m3 b) = (if b = g then Some Rb_Red else map_option rn_color (heap m2 b))"
    "relinked rn_entry (set_tree (plug ?U c)) m2 m3" by blast
  have col: "map_option rn_color (heap m3 b) =
      (if b = g then Some Rb_Red else if b = p then Some Rb_Black else map_option rn_color (heap m b))" for b
    using m3(3) m2(3) relinked_color [OF m1(3), of b] by simp
  have ds: "distinct (inorder ?U)" "set_tree ?U \<inter> set (ctx_nodes c) = {}" "p \<noteq> g"
    using m3(2) unfolding rb_focus_def distinct_plug by (auto split: side.splits)
  have keep: "map_option rn_color (heap m3 b) = map_option rn_color (heap m b)" if "b \<noteq> g" "b \<noteq> p" for b
    using col that by simp
  have nin: "g \<notin> set_tree ?t" "p \<notin> set_tree ?t" "g \<notin> set_tree v" "p \<notin> set_tree v" "g \<notin> set_tree u" "p \<notin> set_tree u"
    "g \<notin> set (ctx_nodes c)" "p \<notin> set (ctx_nodes c)"
    using ds by (auto split: side.splits)
  have new: "rb_ok (heap m3) k ?t" "rb_ok (heap m3) k v" "rb_ok (heap m3) k u" "ctx_ok (heap m3) (Suc k) c"
    using ok rb_ok_cong [of ?t "heap m3" "heap m"] rb_ok_cong [of v "heap m3" "heap m"] rb_ok_cong [of u "heap m3" "heap m"]
      ctx_ok_cong [of c "heap m3" "heap m"] keep nin by metis+
  have blk: "black_top (heap m3) v" "black_top (heap m3) u"
    using ok black_top_cong [of v "heap m3" "heap m"] black_top_cong [of u "heap m3" "heap m"] keep nin by metis+
  have cp: "colored (heap m3) Rb_Black p" "colored (heap m3) Rb_Red g" using col ds(3) by (simp_all add: colored_def)
  have "rb_ok (heap m3) (Suc k) ?U" using new(1,2,3) blk cp by (simp del: rb_ok.simps)
  then have "\<exists>i. rb_ok (heap m3) i (plug ?U c)" by (rule rb_ok_plug [OF _ new(4)]) (simp add: cp)
  moreover have "black_top (heap m3) (plug ?U c)" using black_top_plug [OF _ new(4), of ?U] cp(1) by (cases "c = []") simp_all
  moreover have "tree_at rb_ops (heap m3) 0 root' (plug ?U c)"
    using m3(2) unfolding rb_focus_def tree_at_plug by blast
  moreover have "relinked rn_entry (set_tree (plug ?U c)) m m3"
  proof -
    have e: "set_tree (plug (node_at s ?P g u) c) = set_tree (plug ?U c)" by (auto simp: set_plug)
    have "relinked rn_entry (set_tree (plug ?U c)) m m1"
      using relinked_rn_entry [OF m1(3)] unfolding e .
    from relinked_trans [OF relinked_trans [OF this m2(4) subset_refl subset_refl] m3(4) subset_refl subset_refl]
    show ?thesis .
  qed
  moreover have "rb_tree_insert_case5 tree x m = Some (tree\<lparr>rt_root_node := root'\<rparr>, m3)"
    using x e f' side m1(1) m2(1) m3(1) by (simp add: rb_tree_insert_case5_def mem_simps Let_def)
  ultimately show ?thesis
    unfolding Let_def by - (rule exI [of _ root'], rule exI [of _ m3], intro conjI; assumption)
qed

lemma rb_insert_case4_spec:
  assumes f: "rb_focus m (rt_root_node tree) (node_at s2 (node_at s (Node L x R) p v) g u) g q c"
    and ok: "rb_ok (heap m) k (Node L x R)" "colored (heap m) Rb_Red x" "colored (heap m) Rb_Red p"
      "rb_ok (heap m) k v" "black_top (heap m) v" "rb_ok (heap m) k u" "black_top (heap m) u" "ctx_ok (heap m) (Suc k) c"
  shows "\<exists>root' m' t'. rb_tree_insert_case4 tree x m = Some (tree\<lparr>rt_root_node := root'\<rparr>, m') \<and>
    tree_at rb_ops (heap m') 0 root' t' \<and> (\<exists>k. rb_ok (heap m') k t') \<and> black_top (heap m') t' \<and>
    inorder t' = inorder (plug (node_at s2 (node_at s (Node L x R) p v) g u) c) \<and>
    relinked rn_entry (set_tree t') m m'"
proof -
  let ?t = "Node L x R"
  let ?T = "node_at s2 (node_at s ?t p v) g u"
  from rb_focus_down [OF f] obtain pp where fp: "rb_focus m (rt_root_node tree) (node_at s ?t p v) pp g ((s2, g, u) # c)" by blast
  from rb_focus_down [OF fp] obtain px where fx: "rb_focus m (rt_root_node tree) ?t px p ((s, p, v) # (s2, g, u) # c)" by blast
  have x: "px = x" "x \<noteq> 0" using fx by (simp_all add: rb_focus_def)
  obtain e where e: "heap m x = Some e" "rn_parent e = p" using fx by (auto simp: rb_focus_def)
  obtain f' where f': "heap m p = Some f'" "rn_parent f' = g" "p \<noteq> 0" "pp = p" using rb_focus_node [OF fp] by blast
  have side: "rb_tree_node_side x m = Some s" using rb_node_side [OF fx] x by simp
  have pside: "rb_tree_node_side p m = Some s2" using rb_node_side [OF fp] f' by simp
  show ?thesis
  proof (cases "s = s2")
    case True
    from rb_insert_case5_spec [OF f [folded True] ok(1,2,4-8)] obtain root' m' where r:
      "rb_tree_insert_case5 tree x m = Some (tree\<lparr>rt_root_node := root'\<rparr>, m')"
      "tree_at rb_ops (heap m') 0 root' (plug (node_at s ?t p (node_at s v g u)) c)"
      "\<exists>k. rb_ok (heap m') k (plug (node_at s ?t p (node_at s v g u)) c)"
      "black_top (heap m') (plug (node_at s ?t p (node_at s v g u)) c)"
      "relinked rn_entry (set_tree (plug (node_at s ?t p (node_at s v g u)) c)) m m'"
      unfolding Let_def by (elim exE conjE) blast
    have "rb_tree_insert_case4 tree x m = Some (tree\<lparr>rt_root_node := root'\<rparr>, m')"
      using side pside True x e r(1) by (simp add: rb_tree_insert_case4_def mem_simps)
    moreover have "inorder (plug (node_at s ?t p (node_at s v g u)) c) = inorder (plug ?T c)"
      unfolding True by (simp add: inorder_plug split: side.splits)
    ultimately show ?thesis using r(2-5) by blast
  next
    case False
    then have s: "s = opp s2" using side_cases by blast
    obtain C E where CE: "?t = node_at s2 C x E" by (cases s2) (auto simp: node_at_def)
    have N: "node_at s ?t p v = node_at s2 v p (node_at s2 C x E)" unfolding s CE by (simp add: node_at_opp)
    obtain L' R' where LR: "node_at s2 v p C = Node L' p R'" by (cases s2) (auto simp: node_at_def)
    from rb_rotate_spec [OF fp [unfolded N f'(4)]] obtain root1 m1 where m1:
      "rb_tree_rotate tree p s2 m = Some (x, tree\<lparr>rt_root_node := root1\<rparr>, m1)"
      "rb_focus m1 root1 (node_at s2 (node_at s2 v p C) x E) x g ((s2, g, u) # c)"
      "relinked rn_data (set_tree (plug (node_at s2 v p (node_at s2 C x E)) ((s2, g, u) # c))) m m1" by blast
    from rb_focus_up [OF m1(2)] obtain q' where
      f1: "rb_focus m1 (rt_root_node (tree\<lparr>rt_root_node := root1\<rparr>)) (node_at s2 (node_at s2 (Node L' p R') x E) g u) g q' c"
      unfolding LR by auto
    have col: "map_option rn_color (heap m1 b) = map_option rn_color (heap m b)" for b by (rule relinked_color [OF m1(3)])
    have CEok: "rb_ok (heap m) k C" "black_top (heap m) C" "rb_ok (heap m) k E" "black_top (heap m) E"
      using ok(1,2) colored_fun [OF ok(2)] unfolding CE rb_ok_node_at by blast+
    have k: "rb_ok (heap m1) i t = rb_ok (heap m) i t" "black_top (heap m1) t = black_top (heap m) t"
      "ctx_ok (heap m1) i d = ctx_ok (heap m) i d" "colored (heap m1) y b = colored (heap m) y b" for i t d y b
      using rb_ok_cong [of t "heap m1" "heap m" i] black_top_cong [of t "heap m1" "heap m"]
        ctx_ok_cong [of d "heap m1" "heap m" i] colored_cong [of "heap m1" b "heap m"] col by auto
    have "rb_ok (heap m1) k (Node L' p R')"
      unfolding LR [symmetric] k using ok(3,4,5) CEok by (simp del: rb_ok.simps)
    from rb_insert_case5_spec [OF f1 this] ok CEok obtain root' m' where r:
      "rb_tree_insert_case5 (tree\<lparr>rt_root_node := root1\<rparr>) p m1 = Some (tree\<lparr>rt_root_node := root'\<rparr>, m')"
      "tree_at rb_ops (heap m') 0 root' (plug (node_at s2 (Node L' p R') x (node_at s2 E g u)) c)"
      "\<exists>k. rb_ok (heap m') k (plug (node_at s2 (Node L' p R') x (node_at s2 E g u)) c)"
      "black_top (heap m') (plug (node_at s2 (Node L' p R') x (node_at s2 E g u)) c)"
      "relinked rn_entry (set_tree (plug (node_at s2 (Node L' p R') x (node_at s2 E g u)) c)) m1 m'"
      unfolding Let_def k by auto
    have "rb_tree_insert_case4 tree x m = Some (tree\<lparr>rt_root_node := root'\<rparr>, m')"
      using side pside False s x e m1(1) r(1) by (simp add: rb_tree_insert_case4_def mem_simps)
    moreover have io: "inorder (plug (node_at s2 (Node L' p R') x (node_at s2 E g u)) c) = inorder (plug ?T c)"
      unfolding N LR [symmetric] by (simp add: inorder_plug split: side.splits)
    moreover have "relinked rn_entry (set_tree (plug (node_at s2 (Node L' p R') x (node_at s2 E g u)) c)) m m'"
    proof -
      have e: "set_tree (plug (node_at s2 v p (node_at s2 C x E)) ((s2, g, u) # c)) =
          set_tree (plug (node_at s2 (Node L' p R') x (node_at s2 E g u)) c)"
        unfolding LR [symmetric] by (auto simp: set_plug)
      from relinked_trans [OF relinked_rn_entry [OF m1(3), unfolded e] r(5) subset_refl subset_refl]
      show ?thesis .
    qed
    ultimately show ?thesis using r(2-4) by blast
  qed
qed

lemma rb_uncle:
  assumes f: "rb_focus m root t n p ((s, p, v) # (s2, g, u) # c)" and n: "n \<noteq> 0"
  shows "\<exists>pu. rb_tree_node_uncle n m = Some pu \<and> tree_at rb_ops (heap m) g pu u"
proof -
  obtain e where e: "heap m n = Some e" "rn_parent e = p" using f n unfolding rb_focus_def by (cases t) auto
  from rb_focus_up [OF f] obtain q where f2: "rb_focus m root (node_at s t p v) p g ((s2, g, u) # c)"
    by (auto dest: rb_focus_up simp: rb_focus_def)
  from rb_focus_node [OF f2] obtain f' where f': "p \<noteq> 0" "heap m p = Some f'" "rn_parent f' = g" by blast
  from f2 obtain h where h: "g \<noteq> 0" "heap m g = Some h" "tree_at rb_ops (heap m) g (rn_child h (opp s2)) u"
    by (auto simp: rb_focus_def)
  have "rb_tree_node_side p m = Some s2" by (rule rb_node_side [OF f2 f'(1)])
  then show ?thesis
    using e f' h n by (simp add: rb_tree_node_uncle_def rb_tree_node_sibling_def mem_simps)
qed

text \<open>A red node takes the place of the hole; the tree below it is a red-black tree.\<close>

lemma rb_insert_case1_spec:
  "rb_focus m (rt_root_node tree) (Node L n R) n q c \<Longrightarrow> colored (heap m) Rb_Red n \<Longrightarrow>
   rb_ok (heap m) k (Node L n R) \<Longrightarrow> ctx_ok (heap m) k c \<Longrightarrow>
   \<exists>root' m' t'. rb_tree_insert_case1 tree n m = Some (tree\<lparr>rt_root_node := root'\<rparr>, m') \<and>
     tree_at rb_ops (heap m') 0 root' t' \<and> (\<exists>k. rb_ok (heap m') k t') \<and> black_top (heap m') t' \<and>
     inorder t' = inorder (plug (Node L n R) c) \<and> relinked rn_entry (set_tree t') m m'"
proof (induction c arbitrary: m tree L n R q k rule: length_induct)
  case (1 c)
  note IH = 1(1) and f = 1(2) and red = 1(3) and ok = 1(4) and cok = 1(5)
  from f obtain e where e: "heap m n = Some e" "n \<noteq> 0" "rn_parent e = q" by (auto simp: rb_focus_def)
  have q0: "q = 0 \<longleftrightarrow> c = []" using f ctx_at_parent unfolding rb_focus_def by blast
  show ?case
  proof (cases c)
    case Nil
    have "n \<in> set_tree (plug (Node L n R) c)" using Nil by simp
    from rb_set_color_spec [OF f this, of Rb_Black] obtain m1 where m1: "rb_set_color Rb_Black n m = Some m1"
      "rb_focus m1 (rt_root_node tree) (Node L n R) n q c"
      "\<forall>b. map_option rn_color (heap m1 b) = (if b = n then Some Rb_Black else map_option rn_color (heap m b))"
      "relinked rn_entry (set_tree (plug (Node L n R) c)) m m1" by blast
    have ds: "n \<notin> set_tree L" "n \<notin> set_tree R" using f Nil by (auto simp: rb_focus_def)
    have "rb_ok (heap m1) k L = rb_ok (heap m) k L" "rb_ok (heap m1) k R = rb_ok (heap m) k R"
      by (rule rb_ok_cong; use m1(3) ds in auto)+
    then have "rb_ok (heap m1) k L" "rb_ok (heap m1) k R" using ok colored_fun [OF red] by simp_all
    then have "rb_ok (heap m1) (Suc k) (Node L n R)" "black_top (heap m1) (Node L n R)"
      using m1(3) by (simp_all add: colored_def)
    moreover have "rb_tree_insert_case1 tree n m = Some (tree\<lparr>rt_root_node := rt_root_node tree\<rparr>, m1)"
      using e q0 Nil m1(1) by (subst rb_tree_insert_case1.simps) (simp add: mem_simps)
    moreover have "tree_at rb_ops (heap m1) 0 (rt_root_node tree) (Node L n R)"
      using m1(2) Nil unfolding rb_focus_def by (metis ctx_at.simps(1))
    moreover have "relinked rn_entry (set_tree (Node L n R)) m m1" "inorder (Node L n R) = inorder (plug (Node L n R) c)"
      using m1(4) Nil by simp_all
    ultimately show ?thesis by blast
  next
    case (Cons x c1)
    obtain s p v where x: "x = (s, p, v)" by (cases x)
    have fc: "rb_focus m (rt_root_node tree) (Node L n R) n q ((s, p, v) # c1)" using f Cons x by simp
    from rb_focus_up [OF fc] obtain q1 where f1: "rb_focus m (rt_root_node tree) (node_at s (Node L n R) p v) p q1 c1"
      and q: "q = p" by blast
    from rb_focus_node [OF f1] obtain f' where f': "p \<noteq> 0" "heap m p = Some f'" "rn_parent f' = q1" by blast
    show ?thesis
    proof (cases "colored (heap m) Rb_Black p")
      case True
      then have cb: "rn_color f' = Rb_Black" "ctx_black (heap m) c" using f' Cons x by (simp_all add: colored_def)
      have "rb_tree_insert_case1 tree n m = Some (tree\<lparr>rt_root_node := rt_root_node tree\<rparr>, m)"
        using e f' q cb(1) by (subst rb_tree_insert_case1.simps) (simp add: mem_simps)
      moreover have "\<exists>k. rb_ok (heap m) k (plug (Node L n R) c)" by (rule rb_ok_plug [OF ok cok]) (simp add: cb(2))
      moreover have "black_top (heap m) (plug (Node L n R) c)" by (rule black_top_plug [OF _ cok]) (simp add: Cons)
      moreover have "tree_at rb_ops (heap m) 0 (rt_root_node tree) (plug (Node L n R) c)"
        using f unfolding rb_focus_def tree_at_plug by blast
      ultimately show ?thesis using relinked_refl by blast
    next
      case False
      then have cr: "colored (heap m) Rb_Red p" "rn_color f' \<noteq> Rb_Black"
        and v: "rb_ok (heap m) k v" "black_top (heap m) v" and c1: "c1 \<noteq> []" "ctx_black (heap m) c1" "ctx_ok (heap m) k c1"
        using cok f' unfolding Cons x by (auto simp: colored_def)
      from c1(1) obtain y c2 where y: "c1 = y # c2" by (cases c1) auto
      obtain s2 g u where y': "y = (s2, g, u)" by (cases y)
      note c1y = y [unfolded y']
      have g: "colored (heap m) Rb_Black g" "rb_ok (heap m) k u" "ctx_ok (heap m) (Suc k) c2"
        using c1 colored_fun unfolding c1y by auto
      from rb_focus_up [OF f1 [unfolded c1y]] obtain q2 where
        f2: "rb_focus m (rt_root_node tree) (node_at s2 (node_at s (Node L n R) p v) g u) g q2 c2" and q1: "q1 = g" by blast
      from rb_uncle [OF fc [unfolded c1y q] e(2)] obtain pu where pu: "rb_tree_node_uncle n m = Some pu"
        "tree_at rb_ops (heap m) g pu u" by blast
      show ?thesis
      proof (cases "black_top (heap m) u")
        case True
        have nu: "pu \<noteq> 0 \<Longrightarrow> \<exists>w. heap m pu = Some w \<and> rn_color w \<noteq> Rb_Red"
          using pu(2) True by (cases u) (auto simp: colored_def)
        have "rb_tree_insert_case1 tree n m = rb_tree_insert_case4 tree n m"
          using e f' q cr(2) pu(1) nu by (subst rb_tree_insert_case1.simps) (auto simp: mem_simps Let_def)
        moreover have "plug (Node L n R) c = plug (node_at s2 (node_at s (Node L n R) p v) g u) c2"
          by (simp add: Cons x c1y)
        ultimately show ?thesis using rb_insert_case4_spec [OF f2 ok red cr(1) v g(2) True g(3)] by simp
      next
        case False
        then obtain ul w ur where u: "u = Node ul w ur" by (cases u) auto
        have "pu = w" "w \<noteq> 0" using pu(2) u by simp_all
        moreover from False g(2) u have wr: "colored (heap m) Rb_Red w" by (auto simp: colored_def)
        ultimately have w: "pu = w" "w \<noteq> 0" "\<exists>z. heap m w = Some z \<and> rn_color z = Rb_Red" by (auto simp: colored_def)
        let ?T = "node_at s2 (node_at s (Node L n R) p v) g u"
        obtain L' R' where LR: "?T = Node L' g R'" by (cases s2) (auto simp: node_at_def)
        have ins: "p \<in> set_tree (plug ?T c2)" "w \<in> set_tree (plug ?T c2)" "g \<in> set_tree (plug ?T c2)"
          by (simp_all add: set_plug u)
        from rb_set_color_spec [OF f2 ins(1), of Rb_Black] obtain m1 where m1: "rb_set_color Rb_Black p m = Some m1"
          "rb_focus m1 (rt_root_node tree) ?T g q2 c2"
          "\<forall>b. map_option rn_color (heap m1 b) = (if b = p then Some Rb_Black else map_option rn_color (heap m b))"
          "relinked rn_entry (set_tree (plug ?T c2)) m m1" by blast
        from rb_set_color_spec [OF m1(2) ins(2), of Rb_Black] obtain m2 where m2: "rb_set_color Rb_Black w m1 = Some m2"
          "rb_focus m2 (rt_root_node tree) ?T g q2 c2"
          "\<forall>b. map_option rn_color (heap m2 b) = (if b = w then Some Rb_Black else map_option rn_color (heap m1 b))"
          "relinked rn_entry (set_tree (plug ?T c2)) m1 m2" by blast
        from rb_set_color_spec [OF m2(2) ins(3), of Rb_Red] obtain m3 where m3: "rb_set_color Rb_Red g m2 = Some m3"
          "rb_focus m3 (rt_root_node tree) ?T g q2 c2"
          "\<forall>b. map_option rn_color (heap m3 b) = (if b = g then Some Rb_Red else map_option rn_color (heap m2 b))"
          "relinked rn_entry (set_tree (plug ?T c2)) m2 m3" by blast
        have ds: "distinct (inorder ?T)" "set_tree ?T \<inter> set (ctx_nodes c2) = {}"
          using f2 unfolding rb_focus_def distinct_plug by blast+
        have pwg: "p \<noteq> g" "w \<noteq> g" "p \<noteq> w" using ds(1) u by (auto split: side.splits)
        have keep: "map_option rn_color (heap m3 b) = map_option rn_color (heap m b)" if "b \<noteq> g" "b \<noteq> p" "b \<noteq> w" for b
          using m3(3) m2(3) m1(3) that by simp
        have same: "rb_ok (heap m3) i t = rb_ok (heap m) i t" "black_top (heap m3) t = black_top (heap m) t"
          if "g \<notin> set_tree t" "p \<notin> set_tree t" "w \<notin> set_tree t" for i t
          by (rule rb_ok_cong black_top_cong, rule keep; use that in auto)+
        have nin: "g \<notin> set_tree (Node L n R)" "p \<notin> set_tree (Node L n R)" "w \<notin> set_tree (Node L n R)"
          "g \<notin> set_tree v" "p \<notin> set_tree v" "w \<notin> set_tree v" "g \<notin> set_tree ul" "p \<notin> set_tree ul" "w \<notin> set_tree ul"
          "g \<notin> set_tree ur" "p \<notin> set_tree ur" "w \<notin> set_tree ur"
          using ds(1) u by (auto split: side.splits)
        have cols: "colored (heap m3) Rb_Black p" "colored (heap m3) Rb_Black w" "colored (heap m3) Rb_Red g"
          using m3(3) m2(3) m1(3) pwg by (simp_all add: colored_def)
        have "rb_ok (heap m) k ul" "rb_ok (heap m) k ur"
          using g(2) colored_fun [OF wr] unfolding u by simp_all
        then have "rb_ok (heap m3) (Suc k) u" unfolding u using cols(2) same(1) nin by simp
        moreover have "rb_ok (heap m3) (Suc k) (node_at s (Node L n R) p v)"
          using cols(1) same(1) [OF nin(1-3)] same(1) [OF nin(4-6)] ok v(1) by (simp del: rb_ok.simps)
        ultimately have okT: "rb_ok (heap m3) (Suc k) (Node L' g R')"
          unfolding LR [symmetric] using cols u by (simp del: rb_ok.simps)
        have cok2: "ctx_ok (heap m3) (Suc k) c2"
        proof -
          have "ctx_ok (heap m3) (Suc k) c2 = ctx_ok (heap m) (Suc k) c2"
            by (rule ctx_ok_cong, rule keep) (use ds(2) u in auto)
          with g(3) show ?thesis by simp
        qed
        have "length c2 < length c" by (simp add: Cons c1y)
        from IH [rule_format, OF this m3(2) [unfolded LR] cols(3) okT cok2] obtain root' m' t' where r:
          "rb_tree_insert_case1 tree g m3 = Some (tree\<lparr>rt_root_node := root'\<rparr>, m')" "tree_at rb_ops (heap m') 0 root' t'"
          "\<exists>k. rb_ok (heap m') k t'" "black_top (heap m') t'" "inorder t' = inorder (plug (Node L' g R') c2)"
          "relinked rn_entry (set_tree t') m3 m'" by blast
        have "rb_tree_insert_case1 tree n m = Some (tree\<lparr>rt_root_node := root'\<rparr>, m')"
          using e f' q q1 cr(2) pu(1) w m1(1) m2(1) m3(1) r(1)
          by (subst rb_tree_insert_case1.simps) (auto simp: mem_simps Let_def)
        moreover have pl: "inorder t' = inorder (plug (Node L n R) c)" using r(5) by (simp add: Cons x c1y LR)
        moreover have "relinked rn_entry (set_tree t') m m'"
        proof -
          have "set_tree t' = set_tree (plug ?T c2)" using r(5) unfolding LR by (metis set_inorder)
          note eq = this [symmetric]
          from relinked_trans [OF relinked_trans [OF relinked_trans [OF m1(4) m2(4) subset_refl subset_refl] m3(4) subset_refl subset_refl, unfolded eq] r(6) subset_refl subset_refl]
          show ?thesis .
        qed
        ultimately show ?thesis using r(2-4) by blast
      qed
    qed
  qed
qed

section \<open>The representation\<close>

definition rb_entry :: "rbmem \<Rightarrow> addr \<Rightarrow> val \<times> val" where
  "rb_entry m a = rn_entry (the (heap m a))"

text \<open>
  \<open>rb_rep m tree t es\<close>: in memory is the red-black tree of nodes \<open>t\<close> with a black root, the right
  links and number of nodes; its entries \<open>es\<close> are in the order of their values.
\<close>

definition rb_rep :: "rbmem \<Rightarrow> rb_tree \<Rightarrow> addr tree \<Rightarrow> (val \<times> val) list \<Rightarrow> bool" where
  "rb_rep m tree t es \<longleftrightarrow> tree_at rb_ops (heap m) 0 (rt_root_node tree) t \<and> distinct (inorder t) \<and>
     (\<exists>k. rb_ok (heap m) k t) \<and> black_top (heap m) t \<and> rt_num_nodes tree = of_nat (size t) \<and>
     es = map (rb_entry m) (inorder t) \<and> ordered (rt_compare_func tree) snd es"

lemma rb_rep_unfold:
  assumes "rb_rep m tree t es"
  shows "tree_at rb_ops (heap m) 0 (rt_root_node tree) t" "distinct (inorder t)" "\<exists>k. rb_ok (heap m) k t"
    "black_top (heap m) t" "rt_num_nodes tree = of_nat (size t)" "es = map (rb_entry m) (inorder t)"
    "ordered (rt_compare_func tree) snd es"
  using assms unfolding rb_rep_def by blast+

text \<open>Insertion behind the entries whose values are not larger.\<close>

definition insert_by_value :: "(val \<Rightarrow> val \<Rightarrow> int) \<Rightarrow> val \<Rightarrow> val \<Rightarrow> (val \<times> val) list \<Rightarrow> (val \<times> val) list" where
  "insert_by_value cmp key v es =
     takeWhile (\<lambda>e. \<not> cmp v (snd e) < 0) es @ (key, v) # dropWhile (\<lambda>e. \<not> cmp v (snd e) < 0) es"

lemma rb_link_leaf:
  assumes at: "tree_at rb_ops (heap m) 0 root t" and dist: "distinct (inorder t)" and ok: "rb_ok (heap m) k t" "black_top (heap m) t"
    and c: "plug Leaf c = t" "ctx_at rb_ops (heap m) root 0 q c"
    and a: "a \<noteq> 0" "heap m a = None"
    and m1: "heap m1 = (heap m)(a \<mapsto> n)" and n: "rn_left n = 0" "rn_right n = 0" "rn_color n = Rb_Red"
  shows "\<exists>root' m2 m3. slot_write rb_ops (slot_of c) a root m1 = Some (root', m2) \<and> heap m2 a = Some n \<and>
    store a (n\<lparr>rn_parent := q\<rparr>) m2 = Some m3 \<and> rb_focus m3 root' (Node Leaf a Leaf) a q c \<and>
    colored (heap m3) Rb_Red a \<and> rb_ok (heap m3) 0 (Node Leaf a Leaf) \<and> ctx_ok (heap m3) 0 c \<and>
    relinked rn_entry (insert a (set_tree t)) m1 m3"
proof -
  have fr: "a \<notin> set_tree t" using tree_at_dom [OF at] a(2) by auto
  have ct: "set (ctx_nodes c) = set_tree t" "distinct (ctx_nodes c)"
    using c(1) dist set_plug [of Leaf c] distinct_plug [of Leaf c] by simp_all
  have "ctx_at rb_ops (heap m1) root 0 q c" using c(2) ct fr by (simp add: m1)
  from rb_links.slot_write_spec [OF this ct(2)] obtain root' m2 where m2:
    "slot_write rb_ops (slot_of c) a root m1 = Some (root', m2)" "ctx_at rb_ops (heap m2) root' a q c"
    "relinked rn_data (set (take 1 (ctx_nodes c))) m1 m2" by blast
  have tk: "set (take 1 (ctx_nodes c)) \<subseteq> set_tree t" using set_take_subset [of 1 "ctx_nodes c"] ct(1) by simp
  have "a \<notin> set (take 1 (ctx_nodes c))" using tk fr by blast
  then have m2a: "heap m2 a = Some n" using relinked_frame [OF m2(3)] by (simp add: m1)
  let ?n = "n\<lparr>rn_parent := q\<rparr>"
  let ?m = "m2\<lparr>heap := (heap m2)(a \<mapsto> ?n)\<rparr>"
  have col: "map_option rn_color (heap ?m b) = map_option rn_color (heap m b)" if "b \<noteq> a" for b
    using relinked_color [OF m2(3), of b] that by (simp add: m1)
  have "rb_focus ?m root' (Node Leaf a Leaf) a q c"
    using m2(2) a(1) n fr ct unfolding rb_focus_def distinct_plug by simp
  moreover have "colored (heap ?m) Rb_Red a" using n by (simp add: colored_def)
  moreover have "ctx_ok (heap ?m) 0 c"
  proof -
    from plug_rb_ok [of "heap m" k Leaf c] ok c(1) have "ctx_ok (heap m) 0 c" by auto
    moreover have "ctx_ok (heap ?m) 0 c = ctx_ok (heap m) 0 c"
      by (rule ctx_ok_cong, rule col) (use ct(1) fr in auto)
    ultimately show ?thesis by simp
  qed
  moreover have "relinked rn_entry (insert a (set_tree t)) m1 ?m"
  proof (rule relinked_trans [OF relinked_rn_entry [OF m2(3)]])
    show "relinked rn_entry {a} m2 ?m" by (rule relinked_store [OF m2a]) simp_all
  qed (use tk in auto)
  moreover have "store a ?n m2 = Some ?m" using m2a a(1) by (simp add: mem_simps)
  ultimately show ?thesis using m2(1) m2a by (intro exI [of _ root'] exI [of _ m2] exI [of _ ?m]) simp
qed

lemma rb_tree_insert_ok:
  assumes cmp: "comparator (rt_compare_func tree)" and rep: "rb_rep m tree t es"
  shows "\<exists>tree' m'. rb_tree_insert tree key v m = Some (if can_alloc m then hd (answers m) else 0, tree', m') \<and>
    answers m' = tl (answers m) \<and> rt_compare_func tree' = rt_compare_func tree \<and>
    (if can_alloc m
     then (\<exists>t'. rb_rep m' tree' t' (insert_by_value (rt_compare_func tree) key v es) \<and>
             set_tree t' = insert (hd (answers m)) (set_tree t)) \<and>
       (\<forall>b. b \<notin> insert (hd (answers m)) (set_tree t) \<longrightarrow> heap m' b = heap m b)
     else tree' = tree \<and> heap m' = heap m)"
proof -
  let ?cmp = "rt_compare_func tree"
  let ?k = "\<lambda>a. rn_value (the (heap m a))"
  let ?g = "\<lambda>a. ?cmp v (?k a) < 0"
  let ?c = "descend ?g t []"
  note at = rb_rep_unfold [OF rep]
  let ?n = "\<lparr>rn_color = Rb_Red, rn_key = key, rn_value = v, rn_parent = 0, rn_left = 0, rn_right = 0\<rparr>"
  show ?thesis
  proof (cases rule: malloc_cases [of ?n m])
    case (fail m1)
    then show ?thesis by (simp add: rb_tree_insert_def)
  next
    case (ok a m1)
    have fr: "a \<notin> set_tree t" using tree_at_dom [OF at(1)] ok(5) by auto
    have pl: "plug Leaf ?c = t" by (simp add: plug_descend)
    have at1: "tree_at rb_ops (heap m1) 0 (rt_root_node tree) t" using at(1) fr by (simp add: ok(6))
    have dsc: "descend (\<lambda>a. ?cmp v (rn_value (the (heap m1 a))) < 0) t [] = ?c"
      by (rule descend_cong) (use fr in \<open>auto simp: ok(6)\<close>)
    from rb_links.find_slot_spec [OF at1, of "rt_root_node tree" "[]" "\<lambda>e. ?cmp v (rn_value e) < 0"] obtain q where q:
      "find_slot rb_ops (\<lambda>e. ?cmp v (rn_value e) < 0) 0 Root_Slot (rt_root_node tree) m1 = Some (q, slot_of ?c)"
      "ctx_at rb_ops (heap m1) (rt_root_node tree) 0 q ?c" unfolding dsc by auto
    have "set (ctx_nodes ?c) = set_tree t" using set_plug [of Leaf ?c] pl by simp
    with q(2) fr have q2: "ctx_at rb_ops (heap m) (rt_root_node tree) 0 q ?c" by (simp add: ok(6))
    from at(3) obtain k where k: "rb_ok (heap m) k t" by blast
    from rb_link_leaf [OF at(1,2) k at(4) pl q2 ok(4,5,6)] obtain root1 m2 m3 where r:
      "slot_write rb_ops (slot_of ?c) a (rt_root_node tree) m1 = Some (root1, m2)" "heap m2 a = Some ?n"
      "store a (?n\<lparr>rn_parent := q\<rparr>) m2 = Some m3" "rb_focus m3 root1 (Node Leaf a Leaf) a q ?c"
      "colored (heap m3) Rb_Red a" "rb_ok (heap m3) 0 (Node Leaf a Leaf)" "ctx_ok (heap m3) 0 ?c"
      "relinked rn_entry (insert a (set_tree t)) m1 m3" by auto
    have r4: "rb_focus m3 (rt_root_node (tree\<lparr>rt_root_node := root1\<rparr>)) (Node Leaf a Leaf) a q ?c" using r(4) by simp
    from rb_insert_case1_spec [OF r4 r(5,6,7)] obtain root' m' t' where f:
      "rb_tree_insert_case1 (tree\<lparr>rt_root_node := root1\<rparr>) a m3 = Some (tree\<lparr>rt_root_node := root'\<rparr>, m')"
      "tree_at rb_ops (heap m') 0 root' t'" "\<exists>k. rb_ok (heap m') k t'" "black_top (heap m') t'"
      "inorder t' = inorder (plug (Node Leaf a Leaf) ?c)" "relinked rn_entry (set_tree t') m3 m'" by auto
    let ?tree = "tree\<lparr>rt_root_node := root', rt_num_nodes := rt_num_nodes tree + 1\<rparr>"
    have "ordered ?cmp ?k (inorder t)" using at(7) unfolding at(6) ordered_map by (simp add: rb_entry_def)
    from before_descend [OF comparator.smaller_mono [OF cmp this], of v "[]"]
    have ba: "inorder t' = takeWhile (\<lambda>a. \<not> ?g a) (inorder t) @ a # dropWhile (\<lambda>a. \<not> ?g a) (inorder t)"
      by (simp add: f(5) inorder_plug)
    have mt: "mset (inorder t') = add_mset a (mset (inorder t))"
    proof -
      have "mset (inorder t) = mset (takeWhile P (inorder t)) + mset (dropWhile P (inorder t))" for P
        by (metis mset_append takeWhile_dropWhile_id)
      from this [of "\<lambda>a. \<not> ?g a"] show ?thesis unfolding ba by simp
    qed
    have sz: "size t' = Suc (size t)" using arg_cong [OF mt, of size] by (simp flip: length_inorder)
    have st: "set_tree t' = insert a (set_tree t)" using arg_cong [OF mt, of set_mset] by simp
    have dt: "distinct (inorder t')"
      using mset_eq_imp_distinct_iff [of "inorder t'" "a # inorder t"] mt fr at(2) by simp
    have rel: "relinked rn_entry (insert a (set_tree t)) m1 m'"
      by (rule relinked_trans [OF r(8) f(6)]) (simp_all add: st)
    have ent: "rb_entry m' x = (if x = a then (key, v) else rb_entry m x)" for x
      using relinked_key [OF rel, of x] by (simp add: rb_entry_def ok(6))
    have "map (rb_entry m') (inorder t') = insert_by_value ?cmp key v es"
    proof -
      have "rb_entry m' x = rb_entry m x" if "x \<in> set (inorder t)" for x using that fr ent by auto
      then have tw: "map (rb_entry m') (takeWhile P (inorder t)) = map (rb_entry m) (takeWhile P (inorder t))"
        "map (rb_entry m') (dropWhile P (inorder t)) = map (rb_entry m) (dropWhile P (inorder t))" for P
        by (auto dest: set_takeWhileD set_dropWhileD)
      have te: "takeWhile (\<lambda>e. \<not> ?cmp v (snd e) < 0) es = map (rb_entry m) (takeWhile (\<lambda>a. \<not> ?g a) (inorder t))"
        "dropWhile (\<lambda>e. \<not> ?cmp v (snd e) < 0) es = map (rb_entry m) (dropWhile (\<lambda>a. \<not> ?g a) (inorder t))"
        unfolding at(6) by (simp_all add: takeWhile_map dropWhile_map o_def rb_entry_def)
      show ?thesis
        unfolding ba insert_by_value_def te map_append list.map tw ent [of a] by simp
    qed
    moreover have "ordered ?cmp snd (insert_by_value ?cmp key v es)"
      unfolding insert_by_value_def by (rule comparator.ordered_insert [OF cmp at(7)]) simp
    ultimately have "rb_rep m' ?tree t' (insert_by_value ?cmp key v es)"
      unfolding rb_rep_def using f(2,3,4) dt sz at(5) by simp
    moreover have "rb_tree_insert tree key v m = Some (a, ?tree, m')"
      using q(1) ok(1,4) r(1,2,3) f(1) by (simp add: rb_tree_insert_def mem_simps)
    moreover have "answers m' = tl (answers m)" using relinked_answers [OF rel] ok(7) by simp
    moreover have "heap m' b = heap m b" if "b \<notin> insert a (set_tree t)" for b
      using relinked_frame [OF rel that] that ok(6) by simp
    ultimately show ?thesis using st ok(2,3) by auto
  qed
qed


text \<open>The height of a red-black tree.\<close>

lemma rb_ok_height: "rb_ok h n t \<Longrightarrow> height t \<le> 2 * n + (if black_top h t then 0 else 1) \<and> 2 ^ n \<le> size t + 1"
proof (induction t arbitrary: n)
  case (Node t a u)
  show ?case
  proof (cases "colored h Rb_Black a")
    case True
    with Node.prems obtain k where k: "n = Suc k" "rb_ok h k t" "rb_ok h k u" by (auto simp: colored_def)
    with Node.IH(1) [OF k(2)] Node.IH(2) [OF k(3)] True show ?thesis by (auto split: if_splits)
  next
    case False
    with Node.prems have k: "rb_ok h n t" "rb_ok h n u" "black_top h t" "black_top h u" by auto
    with Node.IH(1) [OF k(1)] Node.IH(2) [OF k(2)] False show ?thesis by auto
  qed
qed simp


lemma rb_rep_length: "rb_rep m tree t es \<Longrightarrow> length es = size t"
  by (simp add: rb_rep_def)

lemma rb_rep_height: "rb_rep m tree t es \<Longrightarrow> 2 ^ (height t div 2) \<le> length es + 1"
proof -
  assume rep: "rb_rep m tree t es"
  from rb_rep_unfold(3,4) [OF rep] obtain k where "rb_ok (heap m) k t" "black_top (heap m) t" by blast
  with rb_ok_height have k: "height t \<le> 2 * k" "2 ^ k \<le> size t + 1" by fastforce+
  from k(1) have "height t div 2 \<le> k" by linarith
  then have "(2::nat) ^ (height t div 2) \<le> 2 ^ k" by (rule power_increasing) simp
  also note k(2)
  finally show ?thesis using rb_rep_length [OF rep] by simp
qed


section \<open>The contract\<close>












section \<open>Properties\<close>

text \<open>C17: \<open>rb_tree_insert\<close> returns for every answer of the allocator.  When it gets a node the tree has
  the new entry behind those with values that are not larger, it is a red-black tree with a black
  root and the right links, its height is at most twice the binary logarithm of the number of
  entries plus one, and only its own nodes were written; when it does not, it returns a null
  pointer and changes nothing.\<close>

theorem rb_tree_insert_correct:
  assumes "comparator (rt_compare_func tree)" "rb_rep m tree t es"
  shows "\<exists>node tree' m'. rb_tree_insert tree key v m = Some (node, tree', m') \<and>
    (if node \<noteq> 0
     then heap m node = None \<and>
       (\<exists>t'. rb_rep m' tree' t' (insert_by_value (rt_compare_func tree) key v es) \<and>
          set_tree t' = insert node (set_tree t) \<and> 2 ^ (height t' div 2) \<le> length es + 2) \<and>
       (\<forall>b. b \<noteq> node \<longrightarrow> b \<notin> set_tree t \<longrightarrow> heap m' b = heap m b)
     else \<not> can_alloc m \<and> tree' = tree \<and> heap m' = heap m)"
proof -
  have ca: "can_alloc m \<Longrightarrow> hd (answers m) \<noteq> 0 \<and> heap m (hd (answers m)) = None"
    by (auto simp: can_alloc_def split: list.splits)
  have "length (takeWhile P es) + length (dropWhile P es) = length es" for P
    by (metis length_append takeWhile_dropWhile_id)
  then have "length (insert_by_value (rt_compare_func tree) key v es) = length es + 1" by (simp add: insert_by_value_def)
  then have hb: "2 ^ (height t' div 2) \<le> length es + 2"
    if "rb_rep m' tree' t' (insert_by_value (rt_compare_func tree) key v es)" for m' tree' t'
    using rb_rep_height [OF that] by simp
  show ?thesis
  proof (cases "can_alloc m")
    case True
    with rb_tree_insert_ok [OF assms, of key v] obtain tree' m' t' where r:
      "rb_tree_insert tree key v m = Some (hd (answers m), tree', m')"
      "rb_rep m' tree' t' (insert_by_value (rt_compare_func tree) key v es)"
      "set_tree t' = insert (hd (answers m)) (set_tree t)"
      "\<forall>b. b \<notin> insert (hd (answers m)) (set_tree t) \<longrightarrow> heap m' b = heap m b" by auto
    with ca [OF True] hb [OF r(2)] show ?thesis by - (intro exI conjI, rule r(1), auto)
  next
    case False
    with rb_tree_insert_ok [OF assms, of key v] obtain m' where
      "rb_tree_insert tree key v m = Some (0, tree, m')" "heap m' = heap m" by auto
    with False show ?thesis by (intro exI [of _ 0] exI [of _ tree] exI [of _ m']) simp
  qed
qed

definition rb_sample :: "rbmem" where
  "rb_sample =
     \<lparr>heap = [1 \<mapsto> \<lparr>rn_color = Rb_Black, rn_key = 3, rn_value = 30, rn_parent = 0, rn_left = 0, rn_right = 2\<rparr>,
              2 \<mapsto> \<lparr>rn_color = Rb_Red, rn_key = 5, rn_value = 50, rn_parent = 1, rn_left = 0, rn_right = 0\<rparr>],
      answers = [7, 8, 9]\<rparr>"

definition rb_sample_tree :: rb_tree where
  "rb_sample_tree = \<lparr>rt_root_node = 1, rt_compare_func = pointer_compare, rt_num_nodes = 2\<rparr>"

lemma rb_sample_rep: "rb_rep rb_sample rb_sample_tree (Node Leaf 1 (Node Leaf 2 Leaf)) [(3, 30), (5, 50)]"
  by (auto simp: rb_rep_def rb_sample_def rb_sample_tree_def rb_entry_def pointer_compare_def colored_def intro: exI [of _ 1])

theorem rb_tree_insert_correct_witness:
  "\<exists>node tree' m' t'. rb_tree_insert rb_sample_tree 7 70 rb_sample = Some (node, tree', m') \<and>
     rb_rep m' tree' t' [(3, 30), (5, 50), (7, 70)] \<and> set_tree t' = {node, 1, 2}"
proof -
  have "can_alloc rb_sample" by (simp add: can_alloc_def rb_sample_def)
  moreover have "insert_by_value (rt_compare_func rb_sample_tree) 7 70 [(3, 30), (5, 50)] = [(3, 30), (5, 50), (7, 70)]"
    by (simp add: insert_by_value_def rb_sample_tree_def pointer_compare_def)
  moreover have "comparator (rt_compare_func rb_sample_tree)"
    by (simp add: rb_sample_tree_def pointer_cmp.comparator_axioms)
  ultimately show ?thesis using rb_tree_insert_correct [OF _ rb_sample_rep, of 7 70]
    by (force split: if_splits)
qed



declare rb_tree_insert_case1.simps [code]


end
