(* ===== verification/BloomFilter.thy ===== *)
theory BloomFilter
  imports Compare Arrays
begin

text \<open>
  The Bloom filter of \<open>libcalg/src/bloom-filter.c\<close>, every function of the file but
  \<open>bloom_filter_free\<close>, which only gives two blocks back.  The code compares hash functions as
  pointers, so a filter holds the address of its function; the functions at the addresses
  are the parameter \<open>hashes\<close>.
\<close>

unbundle bit_operations_syntax

section \<open>The code\<close>

record bloom_filter =
  bf_hash_func :: addr
  bf_table :: "byte list"
  bf_table_size :: c_uint
  bf_num_functions :: c_uint

definition salts :: "c_uint list" where
  "salts =
     [
      0x1953c322, 0x588ccf17, 0x64bf600c, 0xa6be3f3d,
      0x341a02ea, 0x15b03217, 0x3b062858, 0x5956fd06,
      0x18b5624f, 0xe3be0b46, 0x20ffcd5c, 0xa35dfd2b,
      0x1fc4a9bf, 0x57c45d5c, 0xa8661c4a, 0x4f1b74d2,
      0x5a6dde13, 0x3b18dac6, 0x05a8afbf, 0xbbda2fe2,
      0xa2520d78, 0xe7934849, 0xd541bc75, 0x09a55b57,
      0x9b345ae2, 0xfc2d26af, 0x38679cef, 0x81bd1e0d,
      0x654681ae, 0x4b3d87ad, 0xd5ff10fb, 0x23b32f67,
      0xafc7e366, 0xdd955ead, 0xe7c34b1c, 0xfeace0a6,
      0xeb16f09d, 0x3c57a72d, 0x2c8294c5, 0xba92662a,
      0xcd5b2d14, 0x743936c8, 0x2489beff, 0xc6c56e00,
      0x74a4f606, 0xb244a94a, 0x5edfc423, 0xf1901934,
      0x24af7691, 0xf6c98b25, 0xea25af46, 0x76d5f2e6,
      0x5e33cdf2, 0x445eb357, 0x88556bd2, 0x70d1da7a,
      0x54449368, 0x381020bc, 0x1c0520bf, 0xf7e44942,
      0xa27e2a58, 0x66866fc5, 0x12519ce7, 0x437a8456
     ]"

definition table_get :: "'a list \<Rightarrow> nat \<Rightarrow> 'a option" where
  "table_get t i = (if i < length t then Some (t ! i) else None)"

text \<open>\<open>(table_size + 7) / 8\<close>, on 32-bit words.\<close>

definition bloom_array_size :: "c_uint \<Rightarrow> nat" where
  "bloom_array_size table_size = unat ((table_size + 7) div 8)"

definition bloom_filter_new :: "c_uint \<Rightarrow> addr \<Rightarrow> c_uint \<Rightarrow> 'n mem \<Rightarrow> bloom_filter option \<times> 'n mem" where
  "bloom_filter_new table_size hash_func num_functions m =
     (if num_functions > of_nat (length salts) then (None, m)
      else let (ok, m) = malloc_block m
      in if \<not> ok then (None, m)
      else let (ok, m) = malloc_block m
      in if \<not> ok then (None, m)
      else (Some \<lparr>bf_hash_func = hash_func, bf_table = replicate (bloom_array_size table_size) 0,
              bf_table_size = table_size, bf_num_functions = num_functions\<rparr>, m))"

text \<open>The index of the \<open>i\<close>-th hash in the table; the remainder of a division by zero is undefined.\<close>

definition bloom_index :: "c_uint \<Rightarrow> c_uint \<Rightarrow> nat \<Rightarrow> c_uint option" where
  "bloom_index table_size hash i = do {
     salt \<leftarrow> table_get salts i;
     let subhash = hash XOR salt;
     if table_size = 0 then None else Some (subhash mod table_size)
   }"

primrec bloom_set_bits :: "c_uint \<Rightarrow> c_uint \<Rightarrow> nat list \<Rightarrow> byte list \<Rightarrow> byte list option" where
  "bloom_set_bits table_size hash [] table = Some table"
| "bloom_set_bits table_size hash (i # is) table = do {
     index \<leftarrow> bloom_index table_size hash i;
     let b = push_bit (unat (index mod 8)) 1;
     old \<leftarrow> table_get table (unat (index div 8));
     bloom_set_bits table_size hash is (table[unat (index div 8) := old OR b])
   }"

definition bloom_filter_insert :: "(addr \<Rightarrow> val \<Rightarrow> c_uint) \<Rightarrow> bloom_filter \<Rightarrow> val \<Rightarrow> bloom_filter option" where
  "bloom_filter_insert hashes bloomfilter v = do {
     let hash = hashes (bf_hash_func bloomfilter) v;
     table \<leftarrow> bloom_set_bits (bf_table_size bloomfilter) hash [0 ..< unat (bf_num_functions bloomfilter)]
                (bf_table bloomfilter);
     Some (bloomfilter\<lparr>bf_table := table\<rparr>)
   }"

primrec bloom_test_bits :: "c_uint \<Rightarrow> c_uint \<Rightarrow> nat list \<Rightarrow> byte list \<Rightarrow> bool option" where
  "bloom_test_bits table_size hash [] table = Some True"
| "bloom_test_bits table_size hash (i # is) table = do {
     index \<leftarrow> bloom_index table_size hash i;
     b \<leftarrow> table_get table (unat (index div 8));
     let bt = push_bit (unat (index mod 8)) 1;
     if b AND bt = 0 then Some False else bloom_test_bits table_size hash is table
   }"

definition bloom_filter_query :: "(addr \<Rightarrow> val \<Rightarrow> c_uint) \<Rightarrow> bloom_filter \<Rightarrow> val \<Rightarrow> bool option" where
  "bloom_filter_query hashes bloomfilter v = do {
     let hash = hashes (bf_hash_func bloomfilter) v;
     bloom_test_bits (bf_table_size bloomfilter) hash [0 ..< unat (bf_num_functions bloomfilter)] (bf_table bloomfilter)
   }"

text \<open>\<open>memcpy\<close> of the first \<open>n\<close> bytes.\<close>

definition copy_bytes :: "byte list \<Rightarrow> byte list \<Rightarrow> nat \<Rightarrow> byte list option" where
  "copy_bytes dst src n = (if n \<le> length dst \<and> n \<le> length src then Some (take n src @ drop n dst) else None)"

definition bloom_filter_read :: "bloom_filter \<Rightarrow> byte list \<Rightarrow> byte list option" where
  "bloom_filter_read bloomfilter array =
     copy_bytes array (bf_table bloomfilter) (bloom_array_size (bf_table_size bloomfilter))"

definition bloom_filter_load :: "bloom_filter \<Rightarrow> byte list \<Rightarrow> bloom_filter option" where
  "bloom_filter_load bloomfilter array = do {
     table \<leftarrow> copy_bytes (bf_table bloomfilter) array (bloom_array_size (bf_table_size bloomfilter));
     Some (bloomfilter\<lparr>bf_table := table\<rparr>)
   }"

text \<open>The loop that fills the table of a union or an intersection.\<close>

primrec bloom_merge :: "(byte \<Rightarrow> byte \<Rightarrow> byte) \<Rightarrow> byte list \<Rightarrow> byte list \<Rightarrow> nat list \<Rightarrow> byte list \<Rightarrow> byte list option" where
  "bloom_merge f table1 table2 [] table = Some table"
| "bloom_merge f table1 table2 (i # is) table = do {
     b1 \<leftarrow> table_get table1 i;
     b2 \<leftarrow> table_get table2 i;
     _ \<leftarrow> table_get table i;
     bloom_merge f table1 table2 is (table[i := f b1 b2])
   }"

definition bloom_filter_union :: "bloom_filter \<Rightarrow> bloom_filter \<Rightarrow> 'n mem \<Rightarrow> (bloom_filter option \<times> 'n mem) option" where
  "bloom_filter_union filter1 filter2 m =
     (if bf_table_size filter1 \<noteq> bf_table_size filter2 \<or> bf_num_functions filter1 \<noteq> bf_num_functions filter2
         \<or> bf_hash_func filter1 \<noteq> bf_hash_func filter2 then Some (None, m)
      else let (result, m) = bloom_filter_new (bf_table_size filter1) (bf_hash_func filter1) (bf_num_functions filter1) m
      in case result of
           None \<Rightarrow> Some (None, m)
         | Some result \<Rightarrow> do {
             table \<leftarrow> bloom_merge (OR) (bf_table filter1) (bf_table filter2)
                        [0 ..< bloom_array_size (bf_table_size filter1)] (bf_table result);
             Some (Some (result\<lparr>bf_table := table\<rparr>), m)
           })"

definition bloom_filter_intersection ::
  "bloom_filter \<Rightarrow> bloom_filter \<Rightarrow> 'n mem \<Rightarrow> (bloom_filter option \<times> 'n mem) option"
where
  "bloom_filter_intersection filter1 filter2 m =
     (if bf_table_size filter1 \<noteq> bf_table_size filter2 \<or> bf_num_functions filter1 \<noteq> bf_num_functions filter2
         \<or> bf_hash_func filter1 \<noteq> bf_hash_func filter2 then Some (None, m)
      else let (result, m) = bloom_filter_new (bf_table_size filter1) (bf_hash_func filter1) (bf_num_functions filter1) m
      in case result of
           None \<Rightarrow> Some (None, m)
         | Some result \<Rightarrow> do {
             table \<leftarrow> bloom_merge (AND) (bf_table filter1) (bf_table filter2)
                        [0 ..< bloom_array_size (bf_table_size filter1)] (bf_table result);
             Some (Some (result\<lparr>bf_table := table\<rparr>), m)
           })"

section \<open>The bits of a table\<close>

definition table_bits :: "byte list \<Rightarrow> nat set" where
  "table_bits t = {i. i div 8 < length t \<and> bit (t ! (i div 8)) (i mod 8)}"

text \<open>The bits of a value.\<close>

definition value_bits :: "c_uint \<Rightarrow> c_uint \<Rightarrow> nat \<Rightarrow> nat set" where
  "value_bits table_size hash n = (\<lambda>i. unat ((hash XOR (salts ! i)) mod table_size)) ` {..< n}"

lemma length_salts [simp]: "length salts = 64"
  by (simp add: salts_def)

lemma table_bits_replicate [simp]: "table_bits (replicate n 0) = {}"
  by (auto simp: table_bits_def)



lemma bloom_index_spec:
  "i < 64 \<Longrightarrow> table_size \<noteq> 0 \<Longrightarrow> bloom_index table_size hash i = Some ((hash XOR (salts ! i)) mod table_size)"
  by (simp add: bloom_index_def table_get_def)

lemma index_in_table:
  assumes "(s :: c_uint) \<noteq> 0" "unat s \<le> 8 * length t"
  shows "unat (x mod s) div 8 < length t"
proof -
  have "unat (x mod s) < unat s"
    using assms(1) by (simp add: unat_mod unat_gt_0)
  with assms(2) show ?thesis by linarith
qed

lemma unat_index: "unat ((x :: c_uint) div 8) = unat x div 8" "unat (x mod 8) = unat x mod 8"
  by (simp_all add: unat_div unat_mod)


lemma bloom_test_bits_spec:
  "table_size \<noteq> 0 \<Longrightarrow> unat table_size \<le> 8 * length table \<Longrightarrow> set is \<subseteq> {..< 64} \<Longrightarrow>
   bloom_test_bits table_size hash is table =
     Some ((\<lambda>i. unat ((hash XOR (salts ! i)) mod table_size)) ` set is \<subseteq> table_bits table)"
proof (induction "is")
  case (Cons i "is")
  let ?x = "(hash XOR (salts ! i)) mod table_size"
  have l: "unat ?x div 8 < length table" by (rule index_in_table [OF Cons.prems(1,2)])
  have "(table ! (unat ?x div 8) AND 2 ^ (unat ?x mod 8) = 0) \<longleftrightarrow> unat ?x \<notin> table_bits table"
    using l by (simp add: table_bits_def and_exp_eq_0_iff_not_bit)
  moreover have "bloom_index table_size hash i = Some ?x" using Cons.prems by (simp add: bloom_index_spec)
  ultimately show ?case using Cons l by (simp add: table_get_def unat_index Let_def)
qed simp

section \<open>The contract\<close>

text \<open>The table has all bits, and there are salts for all functions.\<close>

definition bloom_ok :: "bloom_filter \<Rightarrow> bool" where
  "bloom_ok f \<longleftrightarrow> bf_table_size f \<noteq> 0 \<and> unat (bf_num_functions f) \<le> 64 \<and>
     length (bf_table f) = bloom_array_size (bf_table_size f) \<and> unat (bf_table_size f) \<le> 8 * length (bf_table f)"

definition bloom_bits :: "(addr \<Rightarrow> val \<Rightarrow> c_uint) \<Rightarrow> bloom_filter \<Rightarrow> val \<Rightarrow> nat set" where
  "bloom_bits hashes f v =
     value_bits (bf_table_size f) (hashes (bf_hash_func f) v) (unat (bf_num_functions f))"

definition same_kind :: "bloom_filter \<Rightarrow> bloom_filter \<Rightarrow> bool" where
  "same_kind f g \<longleftrightarrow> bf_table_size f = bf_table_size g \<and> bf_num_functions f = bf_num_functions g \<and>
     bf_hash_func f = bf_hash_func g"

lemma bloom_bits_same: "same_kind f g \<Longrightarrow> bloom_bits hashes f = bloom_bits hashes g"
  by (simp add: bloom_bits_def same_kind_def fun_eq_iff)

lemma same_kind_refl [simp]: "same_kind f f"
  by (simp add: same_kind_def)

lemma bloom_filter_query_ok:
  "bloom_ok f \<Longrightarrow> bloom_filter_query hashes f v = Some (bloom_bits hashes f v \<subseteq> table_bits (bf_table f))"
  by (subst bloom_filter_query_def)
    (auto simp: bloom_ok_def bloom_bits_def value_bits_def bloom_test_bits_spec lessThan_atLeast0)


lemma bloom_array_size: "unat s \<le> 2 ^ 32 - 8 \<Longrightarrow> bloom_array_size s = (unat s + 7) div 8"
  by (simp add: bloom_array_size_def unat_div unat_plus_if_size word_size)




text \<open>The loop of a union or intersection works bytewise.\<close>

lemma bloom_merge_map2:
  assumes "length t1 = n" "length t2 = n" "length t = n" "i \<le> n"
  shows "bloom_merge f t1 t2 [i ..< n] t = Some (take i t @ drop i (map2 f t1 t2))"
  using assms(3,4)
proof (induction "n - i" arbitrary: i t)
  case 0
  then show ?case using assms by simp
next
  case (Suc k)
  then have i: "i < n" by simp
  let ?t = "t[i := f (t1 ! i) (t2 ! i)]"
  have "bloom_merge f t1 t2 [Suc i ..< n] ?t = Some (take (Suc i) ?t @ drop (Suc i) (map2 f t1 t2))"
    by (rule Suc.hyps(1)) (use Suc i in simp_all)
  moreover have "take (Suc i) ?t @ drop (Suc i) (map2 f t1 t2) = take i t @ drop i (map2 f t1 t2)"
    using i Suc.prems(1) assms(1,2)
    by (intro nth_equalityI) (auto simp: nth_append nth_list_update less_Suc_eq)
  ultimately show ?case using i Suc.prems(1) assms(1,2) by (simp add: upt_conv_Cons table_get_def)
qed

lemma table_bits_map2:
  assumes "length t1 = length t2"
  shows "table_bits (map2 (OR) t1 t2) = table_bits t1 \<union> table_bits t2"
    "table_bits (map2 (AND) t1 t2) = table_bits t1 \<inter> table_bits t2"
  using assms by (auto simp: table_bits_def bit_or_iff bit_and_iff)

section \<open>Properties\<close>



text \<open>C23: The union of two filters of the same kind answers a query for every value that either one has, and
  their intersection answers it exactly when both do; for filters of different kinds both
  return a null pointer, as they do when an allocation fails.\<close>

theorem bloom_filter_merge_correct:
  assumes "bloom_ok f" "bloom_ok g"
  shows "\<exists>r1 r2 m1 m2. bloom_filter_union f g m = Some (r1, m1) \<and> bloom_filter_intersection f g m = Some (r2, m2) \<and>
    (if same_kind f g \<and> fst (malloc_block m) \<and> fst (malloc_block (snd (malloc_block m)))
     then \<exists>u i. r1 = Some u \<and> r2 = Some i \<and> bloom_ok u \<and> bloom_ok i \<and> same_kind u f \<and> same_kind i f \<and>
       (\<forall>v a b. bloom_filter_query hashes f v = Some a \<and> bloom_filter_query hashes g v = Some b \<longrightarrow>
          bloom_filter_query hashes i v = Some (a \<and> b) \<and>
          (a \<or> b \<longrightarrow> bloom_filter_query hashes u v = Some True))
     else r1 = None \<and> r2 = None)"
proof (cases "same_kind f g \<and> fst (malloc_block m) \<and> fst (malloc_block (snd (malloc_block m)))")
  case True
  let ?n = "bloom_array_size (bf_table_size f)"
  let ?u = "f\<lparr>bf_table := map2 (OR) (bf_table f) (bf_table g)\<rparr>"
  let ?i = "f\<lparr>bf_table := map2 (AND) (bf_table f) (bf_table g)\<rparr>"
  have k: "same_kind f g" using True by simp
  have len: "length (bf_table f) = ?n" "length (bf_table g) = ?n" using assms k by (simp_all add: bloom_ok_def same_kind_def)
  have nf: "\<not> bf_num_functions f > 64" using assms(1) by (simp add: bloom_ok_def word_le_nat_alt not_less)
  have mg: "bloom_merge h (bf_table f) (bf_table g) [0 ..< ?n] (replicate ?n 0) = Some (map2 h (bf_table f) (bf_table g))" for h
    using bloom_merge_map2 [OF len, of "replicate ?n 0" 0 h] by simp
  obtain m2 where new: "bloom_filter_new (bf_table_size f) (bf_hash_func f) (bf_num_functions f) m =
      (Some (f\<lparr>bf_table := replicate ?n 0\<rparr>), m2)"
    using True nf by (cases "malloc_block m"; cases "malloc_block (snd (malloc_block m))")
      (auto simp: bloom_filter_new_def Let_def)
  have ops: "bloom_filter_union f g m = Some (Some ?u, m2)" "bloom_filter_intersection f g m = Some (Some ?i, m2)"
    using k mg new by (simp_all add: bloom_filter_union_def bloom_filter_intersection_def same_kind_def)
  have ok: "bloom_ok ?u" "bloom_ok ?i" using assms(1) len by (simp_all add: bloom_ok_def)
  have kinds: "same_kind ?u f" "same_kind ?i f" by (simp_all add: same_kind_def)
  have qs: "bloom_filter_query hashes ?i v = Some (a \<and> b) \<and> (a \<or> b \<longrightarrow> bloom_filter_query hashes ?u v = Some True)"
    if "bloom_filter_query hashes f v = Some a" "bloom_filter_query hashes g v = Some b" for v a b
  proof -
    have "bloom_bits hashes ?u = bloom_bits hashes f" "bloom_bits hashes ?i = bloom_bits hashes f"
      "bloom_bits hashes g = bloom_bits hashes f"
      by (rule bloom_bits_same [OF kinds(1)], rule bloom_bits_same [OF kinds(2)], rule bloom_bits_same [OF k, symmetric])
    moreover have "length (bf_table f) = length (bf_table g)" using len by simp
    ultimately show ?thesis
      using that assms ok by (auto simp: bloom_filter_query_ok table_bits_map2)
  qed
  show ?thesis
    unfolding if_P [OF True]
    by (intro exI conjI, rule ops(1), rule ops(2), rule refl, rule refl, rule ok(1), rule ok(2), rule kinds(1),
        rule kinds(2), use qs in blast)
next
  case False
  show ?thesis
  proof (cases "same_kind f g")
    case True
    with False have "fst (bloom_filter_new (bf_table_size f) (bf_hash_func f) (bf_num_functions f) m) = None"
      by (auto simp: bloom_filter_new_def Let_def split: prod.splits)
    with True False show ?thesis
      by (cases "bloom_filter_new (bf_table_size f) (bf_hash_func f) (bf_num_functions f) m")
        (auto simp: bloom_filter_union_def bloom_filter_intersection_def same_kind_def)
  next
    case kinds: False
    then show ?thesis
      using False by (auto simp: bloom_filter_union_def bloom_filter_intersection_def same_kind_def)
  qed
qed

theorem bloom_filter_merge_correct_witness:
  "\<exists>u m'. bloom_filter_union \<lparr>bf_hash_func = 1, bf_table = [5], bf_table_size = 8, bf_num_functions = 2\<rparr>
     \<lparr>bf_hash_func = 1, bf_table = [3], bf_table_size = 8, bf_num_functions = 2\<rparr>
     (\<lparr>heap = Map.empty, answers = [1, 2]\<rparr> :: unit mem) = Some (Some u, m') \<and> bloom_ok u"
proof -
  let ?f = "\<lparr>bf_hash_func = 1, bf_table = [5], bf_table_size = 8, bf_num_functions = 2\<rparr>"
  let ?g = "\<lparr>bf_hash_func = 1, bf_table = [3], bf_table_size = 8, bf_num_functions = 2\<rparr>"
  let ?m = "\<lparr>heap = Map.empty, answers = [1, 2]\<rparr> :: unit mem"
  have "bloom_ok ?f" "bloom_ok ?g" by (simp_all add: bloom_ok_def bloom_array_size)
  moreover have "same_kind ?f ?g" "fst (malloc_block ?m)" "fst (malloc_block (snd (malloc_block ?m)))"
    by (simp_all add: same_kind_def malloc_block_def)
  ultimately show ?thesis using bloom_filter_merge_correct [of ?f ?g ?m "\<lambda>_ v. of_nat v"] by auto
qed

text \<open>Reading a filter into a buffer and loading the buffer into a filter of the same kind gives the same
  filter, and the bytes of the buffer behind the table are kept.\<close>

theorem bloom_filter_read_load:
  assumes "bloom_ok f" "bloom_ok g" "same_kind f g" "length (bf_table f) \<le> length array"
  shows "\<exists>array'. bloom_filter_read f array = Some array' \<and> length array' = length array \<and>
    drop (length (bf_table f)) array' = drop (length (bf_table f)) array \<and> bloom_filter_load g array' = Some f"
proof -
  let ?n = "bloom_array_size (bf_table_size f)"
  have len: "length (bf_table f) = ?n" "length (bf_table g) = ?n" "bf_table_size g = bf_table_size f"
    using assms(1-3) by (simp_all add: bloom_ok_def same_kind_def)
  have "bloom_filter_read f array = Some (bf_table f @ drop ?n array)"
    using len assms(4) by (simp add: bloom_filter_read_def copy_bytes_def)
  moreover have "bloom_filter_load g (bf_table f @ drop ?n array) = Some (g\<lparr>bf_table := bf_table f\<rparr>)"
    using len by (simp add: bloom_filter_load_def copy_bytes_def)
  moreover have "g\<lparr>bf_table := bf_table f\<rparr> = f" using assms(3) by (simp add: same_kind_def)
  ultimately show ?thesis using len assms(4) by simp
qed

theorem bloom_filter_read_load_witness:
  "\<exists>array'. bloom_filter_read \<lparr>bf_hash_func = 1, bf_table = [5], bf_table_size = 8, bf_num_functions = 2\<rparr> [0, 9] = Some array' \<and>
     bloom_filter_load \<lparr>bf_hash_func = 1, bf_table = [0], bf_table_size = 8, bf_num_functions = 2\<rparr> array' =
       Some \<lparr>bf_hash_func = 1, bf_table = [5], bf_table_size = 8, bf_num_functions = 2\<rparr>"
proof -
  let ?f = "\<lparr>bf_hash_func = 1, bf_table = [5], bf_table_size = 8, bf_num_functions = 2\<rparr>"
  let ?g = "\<lparr>bf_hash_func = 1, bf_table = [0], bf_table_size = 8, bf_num_functions = 2\<rparr>"
  have "bloom_ok ?f" "bloom_ok ?g" "same_kind ?f ?g" by (simp_all add: bloom_ok_def bloom_array_size same_kind_def)
  then show ?thesis using bloom_filter_read_load [of ?f ?g "[0, 9]"] by auto
qed

text \<open>The computation of the number of bytes wraps around for a table of more than \<open>2 ^ 32 - 8\<close> bits: a
  filter of \<open>2 ^ 32 - 1\<close> bits gets a table without any byte, and the first insertion, whatever the
  hash function and the value, accesses memory outside it.\<close>

theorem bloom_filter_new_wraps:
  "\<exists>f. fst (bloom_filter_new 0xFFFFFFFF h 1 (\<lparr>heap = Map.empty, answers = [1, 2]\<rparr> :: unit mem)) = Some f \<and>
     bf_table f = [] \<and> (\<forall>hashes v. bloom_filter_insert hashes f v = None \<and> bloom_filter_query hashes f v = None)"
proof -
  let ?f = "\<lparr>bf_hash_func = h, bf_table = [], bf_table_size = 0xFFFFFFFF, bf_num_functions = 1\<rparr>"
  have "bloom_array_size 0xFFFFFFFF = 0" by (simp add: bloom_array_size_def)
  then have "fst (bloom_filter_new 0xFFFFFFFF h 1 (\<lparr>heap = Map.empty, answers = [1, 2]\<rparr> :: unit mem)) = Some ?f"
    by (simp add: bloom_filter_new_def malloc_block_def Let_def)
  moreover have "bloom_filter_insert hashes ?f v = None" "bloom_filter_query hashes ?f v = None" for hashes v
    by (simp_all add: bloom_filter_insert_def bloom_filter_query_def bloom_index_def table_get_def Let_def)
  ultimately show ?thesis by (intro exI [of _ ?f]) simp
qed

end
