(* ===== verification/TrieMap.thy ===== *)
theory TrieMap
  imports "HOL-Library.Sublist" Compare
begin

text \<open>
  The trie of \<open>libcalg/src/trie.c\<close>, every function of the file.  A key is the memory from the
  pointer on, a list of bytes; reading behind its end is undefined.  The 256 links of a node are
  a function on bytes.
\<close>

section \<open>The code\<close>

record trie_node =
  tn_data :: addr
  tn_use_count :: c_uint
  tn_next :: "byte \<Rightarrow> addr"

record trie =
  tr_root_node :: addr

type_synonym tmem = "trie_node mem"

text \<open>The variable that holds a link: the root field or a link of a node.\<close>

datatype trie_slot = Trie_Root | Trie_Next addr byte

definition trie_slot_read :: "trie_slot \<Rightarrow> trie \<Rightarrow> tmem \<Rightarrow> addr option" where
  "trie_slot_read slot trie m =
     (case slot of
        Trie_Root \<Rightarrow> Some (tr_root_node trie)
      | Trie_Next a c \<Rightarrow> do { e \<leftarrow> load a m; Some (tn_next e c) })"

definition trie_slot_write :: "trie_slot \<Rightarrow> addr \<Rightarrow> trie \<Rightarrow> tmem \<Rightarrow> (trie \<times> tmem) option" where
  "trie_slot_write slot p trie m =
     (case slot of
        Trie_Root \<Rightarrow> Some (trie\<lparr>tr_root_node := p\<rparr>, m)
      | Trie_Next a c \<Rightarrow> do {
          e \<leftarrow> load a m;
          m \<leftarrow> store a (e\<lparr>tn_next := (tn_next e)(c := p)\<rparr>) m;
          Some (trie, m)
        })"

definition trie_new :: "tmem \<Rightarrow> trie option \<times> tmem" where
  "trie_new m = (let (ok, m) = malloc_block m in if \<not> ok then (None, m) else (Some \<lparr>tr_root_node = 0\<rparr>, m))"








primrec trie_find_end_binary_loop :: "nat \<Rightarrow> byte list \<Rightarrow> addr \<Rightarrow> tmem \<Rightarrow> addr option" where
  "trie_find_end_binary_loop 0 key node m = Some node"
| "trie_find_end_binary_loop (Suc n) key node m =
     (if node = 0 then Some 0
      else case key of
        [] \<Rightarrow> None
      | c # cs \<Rightarrow> do { e \<leftarrow> load node m; trie_find_end_binary_loop n cs (tn_next e c) m })"

definition trie_find_end_binary :: "trie \<Rightarrow> byte list \<Rightarrow> nat \<Rightarrow> tmem \<Rightarrow> addr option" where
  "trie_find_end_binary trie key key_length m = trie_find_end_binary_loop key_length key (tr_root_node trie) m"

text \<open>Decrease the use count of a node, and free the node when that makes it zero.\<close>

definition trie_release :: "addr \<Rightarrow> trie_slot option \<Rightarrow> trie \<Rightarrow> tmem \<Rightarrow> (bool \<times> trie \<times> tmem) option" where
  "trie_release node prev trie m = do {
     e \<leftarrow> load node m;
     m \<leftarrow> store node (e\<lparr>tn_use_count := tn_use_count e - 1\<rparr>) m;
     if tn_use_count e - 1 = 0 then do {
       m \<leftarrow> free node m;
       (trie, m) \<leftarrow> (case prev of None \<Rightarrow> Some (trie, m) | Some slot \<Rightarrow> trie_slot_write slot 0 trie m);
       Some (True, trie, m)
     }
     else Some (False, trie, m)
   }"

primrec trie_rollback_loop ::
  "byte list \<Rightarrow> addr \<Rightarrow> trie_slot option \<Rightarrow> trie \<Rightarrow> tmem \<Rightarrow> (trie \<times> tmem) option"
where
  "trie_rollback_loop [] node prev trie m = (if node = 0 then Some (trie, m) else None)"
| "trie_rollback_loop (c # cs) node prev trie m =
     (if node = 0 then Some (trie, m)
      else do {
        e \<leftarrow> load node m;
        let next_node = tn_next e c;
        (freed, trie, m) \<leftarrow> trie_release node prev trie m;
        trie_rollback_loop cs next_node (if freed then None else Some (Trie_Next node c)) trie m
      })"

definition trie_insert_rollback :: "trie \<Rightarrow> byte list \<Rightarrow> tmem \<Rightarrow> (trie \<times> tmem) option" where
  "trie_insert_rollback trie key m = trie_rollback_loop key (tr_root_node trie) (Some Trie_Root) trie m"

text \<open>One round of the insertion: the node in \<open>rover\<close>, created when there is none, and counted.\<close>

definition trie_insert_node :: "trie_slot \<Rightarrow> trie \<Rightarrow> tmem \<Rightarrow> (addr \<times> trie \<times> tmem) option" where
  "trie_insert_node rover trie m = do {
     node \<leftarrow> trie_slot_read rover trie m;
     (node, trie, m) \<leftarrow>
       (if node = 0
        then let (node, m) = malloc \<lparr>tn_data = 0, tn_use_count = 0, tn_next = (\<lambda>_. 0)\<rparr> m
          in if node = 0 then Some (0, trie, m)
             else do { (trie, m) \<leftarrow> trie_slot_write rover node trie m; Some (node, trie, m) }
        else Some (node, trie, m));
     if node = 0 then Some (0, trie, m)
     else do {
       e \<leftarrow> load node m;
       m \<leftarrow> store node (e\<lparr>tn_use_count := tn_use_count e + 1\<rparr>) m;
       Some (node, trie, m)
     }
   }"

text \<open>
  The loops of \<open>trie_insert\<close> and \<open>trie_insert_binary\<close>: \<open>stop\<close> tells, from the current character and
  the number of characters left, whether the end of the key is reached.  The result is false
  when an allocation failed.
\<close>

primrec trie_insert_loop ::
  "(byte \<Rightarrow> nat \<Rightarrow> bool) \<Rightarrow> val \<Rightarrow> byte list \<Rightarrow> nat \<Rightarrow> trie_slot \<Rightarrow> trie \<Rightarrow> tmem \<Rightarrow> (bool \<times> trie \<times> tmem) option"
where
  "trie_insert_loop stop v [] n rover trie m = do {
     (node, trie, m) \<leftarrow> trie_insert_node rover trie m;
     if node = 0 then Some (False, trie, m) else None
   }"
| "trie_insert_loop stop v (c # cs) n rover trie m = do {
     (node, trie, m) \<leftarrow> trie_insert_node rover trie m;
     if node = 0 then Some (False, trie, m)
     else if stop c n then do {
       e \<leftarrow> load node m;
       m \<leftarrow> store node (e\<lparr>tn_data := v\<rparr>) m;
       Some (True, trie, m)
     }
     else trie_insert_loop stop v cs (n - 1) (Trie_Next node c) trie m
   }"


definition binary_stop :: "byte \<Rightarrow> nat \<Rightarrow> bool" where
  "binary_stop c n \<longleftrightarrow> n = 0"

text \<open>The part of both functions after the search, which found \<open>node\<close>.\<close>

definition trie_insert_at ::
  "(byte \<Rightarrow> nat \<Rightarrow> bool) \<Rightarrow> byte list \<Rightarrow> nat \<Rightarrow> val \<Rightarrow> addr \<Rightarrow> trie \<Rightarrow> tmem \<Rightarrow> (bool \<times> trie \<times> tmem) option"
where
  "trie_insert_at stop key n v node trie m = do {
     present \<leftarrow> (if node \<noteq> 0 then do { e \<leftarrow> load node m; Some (tn_data e \<noteq> 0) } else Some False);
     if present then do {
       e \<leftarrow> load node m;
       m \<leftarrow> store node (e\<lparr>tn_data := v\<rparr>) m;
       Some (True, trie, m)
     }
     else do {
       (ok, trie, m) \<leftarrow> trie_insert_loop stop v key n Trie_Root trie m;
       if ok then Some (True, trie, m)
       else do { (trie, m) \<leftarrow> trie_insert_rollback trie key m; Some (False, trie, m) }
     }
   }"


definition trie_insert_binary :: "trie \<Rightarrow> byte list \<Rightarrow> nat \<Rightarrow> val \<Rightarrow> tmem \<Rightarrow> (bool \<times> trie \<times> tmem) option" where
  "trie_insert_binary trie key key_length v m =
     (if v = 0 then Some (False, trie, m)
      else do {
        node \<leftarrow> trie_find_end_binary trie key key_length m;
        trie_insert_at binary_stop key key_length v node trie m
      })"








section \<open>Nodes and paths\<close>

text \<open>
  The nodes of a trie are known by their paths: \<open>P\<close> is the set of the paths, \<open>N\<close> gives the
  address of a node, \<open>C\<close> its use count and \<open>D\<close> its data.
\<close>

definition link :: "byte list set \<Rightarrow> (byte list \<Rightarrow> addr) \<Rightarrow> byte list \<Rightarrow> addr" where
  "link P N p = (if p \<in> P then N p else 0)"

definition node_for :: "byte list set \<Rightarrow> (byte list \<Rightarrow> addr) \<Rightarrow> (byte list \<Rightarrow> nat) \<Rightarrow> (byte list \<Rightarrow> val) \<Rightarrow> byte list \<Rightarrow> trie_node" where
  "node_for P N C D p = \<lparr>tn_data = D p, tn_use_count = of_nat (C p), tn_next = (\<lambda>c. link P N (p @ [c]))\<rparr>"

definition trie_at ::
  "(addr \<rightharpoonup> trie_node) \<Rightarrow> addr \<Rightarrow> byte list set \<Rightarrow> (byte list \<Rightarrow> addr) \<Rightarrow> (byte list \<Rightarrow> nat) \<Rightarrow> (byte list \<Rightarrow> val) \<Rightarrow> bool"
where
  "trie_at h root P N C D \<longleftrightarrow> root = link P N [] \<and> finite P \<and> inj_on N P \<and>
     (\<forall>p c. p @ [c] \<in> P \<longrightarrow> p \<in> P) \<and> (\<forall>p \<in> P. N p \<noteq> 0 \<and> h (N p) = Some (node_for P N C D p))"

lemma trie_atD:
  assumes "trie_at h root P N C D"
  shows "root = link P N []" "finite P" "inj_on N P" "p @ [c] \<in> P \<Longrightarrow> p \<in> P" "p \<in> P \<Longrightarrow> N p \<noteq> 0"
    "p \<in> P \<Longrightarrow> h (N p) = Some (node_for P N C D p)"
  using assms by (auto simp: trie_at_def)

lemma trie_at_inj: "trie_at h root P N C D \<Longrightarrow> p \<in> P \<Longrightarrow> q \<in> P \<Longrightarrow> N p = N q \<longleftrightarrow> p = q"
  by (meson inj_on_def trie_atD(3))

lemma trie_at_closed: "trie_at h root P N C D \<Longrightarrow> p @ q \<in> P \<Longrightarrow> p \<in> P"
proof (induction q rule: rev_induct)
  case (snoc c q)
  from trie_atD(4) [OF snoc.prems(1), of "p @ q" c] snoc show ?case by simp
qed simp

lemma link_in: "p \<in> P \<Longrightarrow> link P N p = N p" and link_out: "p \<notin> P \<Longrightarrow> link P N p = 0"
  by (simp_all add: link_def)

lemma trie_at_link0: "trie_at h root P N C D \<Longrightarrow> link P N p = 0 \<longleftrightarrow> p \<notin> P"
  by (auto simp: link_def dest: trie_atD(5))

lemma trie_at_load: "trie_at (heap m) root P N C D \<Longrightarrow> p \<in> P \<Longrightarrow> load (N p) m = Some (node_for P N C D p)"
  by (rule load_Some) (blast dest: trie_atD)+

lemma node_for_simps [simp]:
  "tn_data (node_for P N C D p) = D p" "tn_use_count (node_for P N C D p) = of_nat (C p)"
  "tn_next (node_for P N C D p) c = link P N (p @ [c])"
  by (simp_all add: node_for_def)

lemma trie_at_cong:
  "trie_at h root P N C D \<Longrightarrow> (\<And>p. p \<in> P \<Longrightarrow> h' (N p) = h (N p)) \<Longrightarrow>
   (\<And>p. p \<in> P \<Longrightarrow> C' p = C p \<and> D' p = D p) \<Longrightarrow> trie_at h' root P N C' D'"
  by (simp add: trie_at_def node_for_def)

text \<open>The variable with the link to a path.\<close>

definition slot_for :: "(byte list \<Rightarrow> addr) \<Rightarrow> byte list \<Rightarrow> trie_slot" where
  "slot_for N p = (if p = [] then Trie_Root else Trie_Next (N (butlast p)) (last p))"

lemma slot_for_simps [simp]: "slot_for N [] = Trie_Root" "slot_for N (p @ [c]) = Trie_Next (N p) c"
  by (simp_all add: slot_for_def)

definition reachable :: "byte list set \<Rightarrow> byte list \<Rightarrow> bool" where
  "reachable P p \<longleftrightarrow> p = [] \<or> butlast p \<in> P"

lemma reachable_simps [simp]: "reachable P []" "reachable P (p @ [c]) \<longleftrightarrow> p \<in> P"
  by (simp_all add: reachable_def)

lemma slot_read_for:
  assumes "trie_at (heap m) (tr_root_node trie) P N C D" "reachable P p"
  shows "trie_slot_read (slot_for N p) trie m = Some (link P N p)"
proof (cases p rule: rev_cases)
  case Nil
  with trie_atD(1) [OF assms(1)] show ?thesis by (simp add: trie_slot_read_def)
next
  case (snoc q c)
  with assms trie_at_load [OF assms(1), of q] show ?thesis by (simp add: trie_slot_read_def)
qed

text \<open>Changing the count or the data of a node.\<close>

lemma trie_at_store:
  assumes t: "trie_at (heap m) root P N C D" and p: "p \<in> P"
    and e: "e = node_for P N (C(p := i)) (D(p := v)) p"
  shows "store (N p) e m = Some (m\<lparr>heap := (heap m)(N p \<mapsto> e)\<rparr>)"
    "trie_at ((heap m)(N p \<mapsto> e)) root P N (C(p := i)) (D(p := v))"
proof -
  note a = trie_atD [OF t]
  show "store (N p) e m = Some (m\<lparr>heap := (heap m)(N p \<mapsto> e)\<rparr>)" by (rule store_Some [OF a(5) [OF p] a(6) [OF p]])
  have "((heap m)(N p \<mapsto> e)) (N q) = Some (node_for P N (C(p := i)) (D(p := v)) q)" if "q \<in> P" for q
    using trie_at_inj [OF t p that] a(6) [OF that] e by (cases "q = p") (auto simp: node_for_def)
  with t show "trie_at ((heap m)(N p \<mapsto> e)) root P N (C(p := i)) (D(p := v))" by (simp add: trie_at_def)
qed

text \<open>Linking a new node into an empty link.\<close>

lemma trie_at_add:
  assumes t: "trie_at (heap m) (tr_root_node trie) P N C D" and p: "p \<notin> P" "reachable P p"
    and a: "a \<noteq> 0" "heap m a = None"
    and m1: "heap m1 = (heap m)(a \<mapsto> \<lparr>tn_data = 0, tn_use_count = 0, tn_next = (\<lambda>_. 0)\<rparr>)"
  shows "\<exists>trie' m2. trie_slot_write (slot_for N p) a trie m1 = Some (trie', m2) \<and>
    trie_at (heap m2) (tr_root_node trie') (insert p P) (N(p := a)) (C(p := 0)) (D(p := 0)) \<and> answers m2 = answers m1 \<and>
    (\<forall>b. b \<notin> N ` P \<longrightarrow> b \<noteq> a \<longrightarrow> heap m2 b = heap m b)"
proof -
  note t' = trie_atD [OF t]
  let ?N = "N(p := a)" and ?P = "insert p P" and ?C = "C(p := 0)" and ?D = "D(p := 0)"
  have an: "N q \<noteq> a" if "q \<in> P" for q using t'(6) [OF that] a(2) by auto
  have pc: "p @ [c] \<notin> P" for c using t'(4) p(1) by blast
  have inj: "inj_on ?N ?P" using t'(3) an p(1) by (auto simp: inj_on_def)
  have cl: "q \<in> ?P" if "q @ [c] \<in> ?P" for q c
    using that t'(4) p(2) by (auto simp: reachable_def)
  have new: "node_for ?P ?N ?C ?D p = \<lparr>tn_data = 0, tn_use_count = 0, tn_next = (\<lambda>_. 0)\<rparr>"
    using pc by (auto simp: node_for_def link_def fun_eq_iff)
  have old: "node_for ?P ?N ?C ?D q = (node_for P N C D q)\<lparr>tn_next := (\<lambda>c. if q @ [c] = p then a else link P N (q @ [c]))\<rparr>"
    if "q \<in> P" for q
    using that p(1) by (auto simp: node_for_def link_def fun_eq_iff)
  show ?thesis
  proof (cases p rule: rev_cases)
    case Nil
    then have "P = {}" using trie_at_closed [OF t, of "[]"] p(1) by auto
    then have "trie_at (heap m1) a ?P ?N ?C ?D"
      using new a(1) Nil m1 by (simp add: trie_at_def link_def)
    with Nil m1 show ?thesis by (simp add: trie_slot_write_def)
  next
    case (snoc q c)
    then have q: "q \<in> P" using p(2) by simp
    let ?e = "(node_for P N C D q)\<lparr>tn_next := (tn_next (node_for P N C D q))(c := a)\<rparr>"
    let ?m = "m1\<lparr>heap := (heap m1)(N q \<mapsto> ?e)\<rparr>"
    have hq: "heap m1 (N q) = Some (node_for P N C D q)" using t'(6) [OF q] an [OF q] m1 by simp
    have "trie_slot_write (slot_for N p) a trie m1 = Some (trie, ?m)"
      using hq t'(5) [OF q] snoc by (simp add: trie_slot_write_def mem_simps)
    moreover have "heap ?m (?N r) = Some (node_for ?P ?N ?C ?D r)" if "r \<in> ?P" for r
    proof (cases "r = p")
      case True
      with an [OF q] new m1 show ?thesis by auto
    next
      case False
      with that have r: "r \<in> P" by simp
      show ?thesis
      proof (cases "r = q")
        case True
        have "?e = node_for ?P ?N ?C ?D q"
          unfolding old [OF q] by (auto simp: fun_eq_iff node_for_def snoc)
        with True False show ?thesis by auto
      next
        case rq: False
        have "node_for ?P ?N ?C ?D r = node_for P N C D r"
          unfolding old [OF r] using rq by (simp add: node_for_def snoc)
        moreover have "N r \<noteq> N q" using trie_at_inj [OF t r q] rq by simp
        ultimately show ?thesis using False t'(6) [OF r] an [OF r] m1 by simp
      qed
    qed
    moreover have "tr_root_node trie = link ?P ?N []"
      using t'(1) snoc trie_at_closed [OF t, of "[]" q] q by (auto simp: link_def)
    moreover have "\<forall>r \<in> ?P. ?N r \<noteq> 0" using t'(5) a(1) by auto
    moreover have "finite ?P" using t'(2) by simp
    ultimately have "trie_slot_write (slot_for N p) a trie m1 = Some (trie, ?m) \<and>
        trie_at (heap ?m) (tr_root_node trie) ?P ?N ?C ?D"
      unfolding trie_at_def using inj cl by blast
    moreover have "heap ?m b = heap m b" if "b \<notin> N ` P" "b \<noteq> a" for b
      using that q m1 by auto
    ultimately show ?thesis by (intro exI [of _ trie] exI [of _ ?m]) simp
  qed
qed

text \<open>Cutting off the nodes below a path, and unlinking them.\<close>

definition below :: "byte list set \<Rightarrow> byte list \<Rightarrow> byte list set" where
  "below P p = {q \<in> P. prefix p q}"

lemma trie_at_cut:
  assumes t: "trie_at (heap m) (tr_root_node trie) P N C D" and p: "p \<in> P"
    and m1: "\<And>b. b \<notin> N ` below P p \<Longrightarrow> heap m1 b = heap m b"
  shows "\<exists>trie' m2. trie_slot_write (slot_for N p) 0 trie m1 = Some (trie', m2) \<and>
    trie_at (heap m2) (tr_root_node trie') (P - below P p) N C D \<and> answers m2 = answers m1 \<and>
    (\<forall>b. b \<notin> N ` (P - below P p) \<longrightarrow> heap m2 b = heap m1 b)"
proof -
  note t' = trie_atD [OF t]
  let ?P = "P - below P p"
  have pb: "p \<in> below P p" using p by (simp add: below_def)
  have cl: "q \<in> ?P" if "q @ [c] \<in> ?P" for q c using that t'(4) by (auto simp: below_def)
  have nd: "node_for ?P N C D q = (node_for P N C D q)\<lparr>tn_next := (\<lambda>c. if q @ [c] = p then 0 else link P N (q @ [c]))\<rparr>"
    if "q \<in> ?P" for q
  proof -
    have "q @ [c] \<in> below P p \<longleftrightarrow> q @ [c] \<in> P \<and> q @ [c] = p" for c
      using that by (auto simp: below_def prefix_snoc)
    then show ?thesis by (auto simp: node_for_def link_def fun_eq_iff)
  qed
  have keep: "heap m1 (N q) = Some (node_for P N C D q)" if "q \<in> ?P" for q
  proof -
    have "N q \<notin> N ` below P p" using that trie_at_inj [OF t] by (auto simp: below_def)
    with m1 t'(6) that show ?thesis by simp
  qed
  have inj: "inj_on N ?P" using t'(3) by (rule inj_on_subset) blast
  show ?thesis
  proof (cases p rule: rev_cases)
    case Nil
    then have e: "?P = {}" by (auto simp: below_def)
    have "trie_at (heap m1) 0 ?P N C D" unfolding e by (simp add: trie_at_def link_def)
    with Nil show ?thesis by (simp add: trie_slot_write_def)
  next
    case (snoc q c)
    then have "q \<in> P" using t'(4) p by blast
    then have q: "q \<in> ?P" using snoc by (auto simp: below_def)
    let ?e = "(node_for P N C D q)\<lparr>tn_next := (tn_next (node_for P N C D q))(c := 0)\<rparr>"
    let ?m = "m1\<lparr>heap := (heap m1)(N q \<mapsto> ?e)\<rparr>"
    have w: "trie_slot_write (slot_for N p) 0 trie m1 = Some (trie, ?m)"
      using keep [OF q] t'(5) \<open>q \<in> P\<close> snoc by (simp add: trie_slot_write_def mem_simps)
    have "heap ?m (N r) = Some (node_for ?P N C D r)" if r: "r \<in> ?P" for r
    proof (cases "r = q")
      case True
      have "?e = node_for ?P N C D q"
        unfolding nd [OF q] by (auto simp: fun_eq_iff node_for_def snoc)
      with True show ?thesis by simp
    next
      case False
      have "node_for ?P N C D r = node_for P N C D r"
        unfolding nd [OF r] using False by (simp add: node_for_def snoc)
      moreover have "N r \<noteq> N q" using trie_at_inj [OF t, of r q] r \<open>q \<in> P\<close> False by blast
      ultimately show ?thesis using keep [OF r] by simp
    qed
    moreover have "tr_root_node trie = link ?P N []"
      using t'(1) snoc trie_at_closed [OF t, of "[]" q] \<open>q \<in> P\<close> by (auto simp: link_def below_def)
    ultimately have "trie_at (heap ?m) (tr_root_node trie) ?P N C D"
      unfolding trie_at_def using inj cl t'(2,5) by blast
    moreover have "heap ?m b = heap m1 b" if "b \<notin> N ` ?P" for b
      using that q by auto
    ultimately show ?thesis using w by (intro exI [of _ trie] exI [of _ ?m]) simp
  qed
qed

section \<open>Releasing the nodes of a key\<close>

lemma release_dec:
  assumes t: "trie_at (heap m) (tr_root_node trie) P N C D" and p: "p \<in> P" "1 < C p" "C p < 2 ^ 32"
  shows "\<exists>m'. trie_release (N p) prev trie m = Some (False, trie, m') \<and>
    trie_at (heap m') (tr_root_node trie) P N (C(p := C p - 1)) D \<and> answers m' = answers m \<and>
    (\<forall>b. b \<notin> N ` P \<longrightarrow> heap m' b = heap m b)"
proof -
  let ?e = "(node_for P N C D p)\<lparr>tn_use_count := of_nat (C p) - 1\<rparr>"
  have c: "(of_nat (C p) - 1 :: c_uint) = of_nat (C p - 1)" using p(2) by (simp add: of_nat_diff)
  have "(of_nat (C p - 1) :: c_uint) \<noteq> 0"
  proof
    assume "(of_nat (C p - 1) :: c_uint) = 0"
    then have "2 ^ 32 dvd C p - 1" by (simp add: word_of_nat_eq_0_iff)
    with p(2,3) show False by (auto dest: dvd_imp_le)
  qed
  moreover have "?e = node_for P N (C(p := C p - 1)) (D(p := D p)) p" by (simp add: node_for_def c)
  from trie_at_store [OF t p(1) this] have
    "store (N p) ?e m = Some (m\<lparr>heap := (heap m)(N p \<mapsto> ?e)\<rparr>)"
    "trie_at ((heap m)(N p \<mapsto> ?e)) (tr_root_node trie) P N (C(p := C p - 1)) D" by simp_all
  ultimately show ?thesis
    using trie_at_load [OF t p(1)] p(1) c
    by (intro exI [of _ "m\<lparr>heap := (heap m)(N p \<mapsto> ?e)\<rparr>"]) (auto simp: trie_release_def)
qed

lemma release_cut:
  assumes t: "trie_at (heap m) (tr_root_node trie) P N C D" and p: "p \<in> P" "C p = 1"
  shows "\<exists>trie' m'. trie_release (N p) (Some (slot_for N p)) trie m = Some (True, trie', m') \<and>
    trie_at (heap m') (tr_root_node trie') (P - below P p) N C D \<and> answers m' = answers m \<and>
    (\<forall>b. b \<notin> N ` (P - below P p) \<longrightarrow> heap m' b = (if b = N p then None else heap m b))"
proof -
  note h = trie_atD(5,6) [OF t p(1)]
  let ?e = "(node_for P N C D p)\<lparr>tn_use_count := 0\<rparr>"
  let ?m1 = "m\<lparr>heap := (heap m)(N p := None)\<rparr>"
  have "N p \<in> N ` below P p" using p(1) by (simp add: below_def)
  then have "heap ?m1 b = heap m b" if "b \<notin> N ` below P p" for b using that by auto
  from trie_at_cut [OF t p(1) this] obtain trie' m2 where r:
    "trie_slot_write (slot_for N p) 0 trie ?m1 = Some (trie', m2)"
    "trie_at (heap m2) (tr_root_node trie') (P - below P p) N C D" "answers m2 = answers ?m1"
    "\<forall>b. b \<notin> N ` (P - below P p) \<longrightarrow> heap m2 b = heap ?m1 b" by blast
  have "trie_release (N p) (Some (slot_for N p)) trie m = Some (True, trie', m2)"
    using h p(2) r(1) by (simp add: trie_release_def mem_simps)
  with r(2-4) show ?thesis by simp
qed

lemma release_orphan:
  "a \<noteq> 0 \<Longrightarrow> heap m a = Some e \<Longrightarrow> tn_use_count e = 1 \<Longrightarrow>
   trie_release a None trie m = Some (True, trie, m\<lparr>heap := (heap m)(a := None)\<rparr>)"
  by (simp add: trie_release_def mem_simps)

lemma prefix_step: "prefix p q \<and> prefix q (p @ c # k) \<longleftrightarrow> q = p \<or> prefix (p @ [c]) q \<and> prefix q (p @ c # k)"
  by (auto simp: prefix_def append_eq_append_conv2 append_eq_Cons_conv Cons_eq_append_conv) 

lemma below_path:
  assumes t: "trie_at h root P N C D" and p: "p \<in> P" "\<forall>q \<in> below P p. prefix q (p @ c # k)"
  shows "below P p = insert p (below P (p @ [c]))" "p \<notin> below P (p @ [c])"
  using p prefix_step [of p _ c k] by (auto simp: below_def dest: append_prefixD)

text \<open>The nodes that are no longer linked are freed.\<close>

lemma rollback_orphans:
  assumes t: "trie_at h root P N C D"
  shows "(\<And>q. q \<in> below P p \<Longrightarrow> heap m (N q) = h (N q) \<and> C q = 1 \<and> prefix q (p @ k)) \<Longrightarrow> p @ k \<notin> P \<Longrightarrow>
   \<exists>m'. trie_rollback_loop k (link P N p) None trie m = Some (trie, m') \<and> answers m' = answers m \<and>
     heap m' = (\<lambda>b. if b \<in> N ` below P p then None else heap m b)"
proof (induction k arbitrary: p m)
  case Nil
  then have "below P p = {}" using trie_at_closed [OF t] by (auto simp: below_def prefix_def)
  with Nil show ?case by (simp add: link_out)
next
  case (Cons c k)
  show ?case
  proof (cases "p \<in> P")
    case False
    then have "below P p = {}" using trie_at_closed [OF t] by (auto simp: below_def prefix_def)
    with False show ?thesis by (simp add: link_out)
  next
    case True
    then have pb: "p \<in> below P p" by (simp add: below_def)
    have all: "\<forall>q \<in> below P p. prefix q (p @ c # k)" using Cons.prems(1) by blast
    note bp = below_path [OF t True all]
    have e: "heap m (N p) = Some (node_for P N C D p)" "C p = 1" "N p \<noteq> 0"
      using Cons.prems(1) [OF pb] trie_atD [OF t] True by simp_all
    let ?m = "m\<lparr>heap := (heap m)(N p := None)\<rparr>"
    have "\<exists>m'. trie_rollback_loop k (link P N (p @ [c])) None trie ?m = Some (trie, m') \<and> answers m' = answers ?m \<and>
       heap m' = (\<lambda>b. if b \<in> N ` below P (p @ [c]) then None else heap ?m b)"
    proof (rule Cons.IH)
      fix q assume q: "q \<in> below P (p @ [c])"
      then have "q \<in> below P p" "q \<noteq> p" using bp by auto
      moreover from this have "N q \<noteq> N p" using trie_at_inj [OF t] True by (auto simp: below_def)
      ultimately show "heap ?m (N q) = h (N q) \<and> C q = 1 \<and> prefix q ((p @ [c]) @ k)" using Cons.prems(1) [of q] by simp
    qed (use Cons.prems(2) in simp)
    then obtain m' where m': "trie_rollback_loop k (link P N (p @ [c])) None trie ?m = Some (trie, m')"
      "answers m' = answers m" "heap m' = (\<lambda>b. if b \<in> N ` below P (p @ [c]) then None else heap ?m b)" by auto
    have "trie_rollback_loop (c # k) (link P N p) None trie m = Some (trie, m')"
      using True e m'(1) release_orphan [OF e(3,1), of trie] by (simp add: link_in mem_simps Let_def)
    moreover have "heap m' = (\<lambda>b. if b \<in> N ` below P p then None else heap m b)"
      using m'(3) bp by (auto simp: fun_eq_iff)
    ultimately show ?thesis using m'(2) by blast
  qed
qed

primrec key_of :: "(byte \<Rightarrow> nat \<Rightarrow> bool) \<Rightarrow> byte list \<Rightarrow> nat \<Rightarrow> byte list option" where
  "key_of stop [] n = None"
| "key_of stop (c # cs) n = (if stop c n then Some [] else map_option (Cons c) (key_of stop cs (n - 1)))"


text \<open>
  What the release of the path from \<open>p\<close> to \<open>K\<close> does: the counts on the path go down, and the nodes
  with count 1 go away.  It needs that nothing else hangs on such a node.
\<close>

definition spent :: "byte list set \<Rightarrow> (byte list \<Rightarrow> nat) \<Rightarrow> byte list \<Rightarrow> byte list \<Rightarrow> byte list set" where
  "spent P C K p = {q \<in> P. prefix p q \<and> prefix q K \<and> C q = 1}"

definition lowered :: "(byte list \<Rightarrow> nat) \<Rightarrow> byte list \<Rightarrow> byte list \<Rightarrow> byte list \<Rightarrow> nat" where
  "lowered C K p q = (if prefix p q \<and> prefix q K then C q - 1 else C q)"

definition releasable :: "byte list set \<Rightarrow> (byte list \<Rightarrow> nat) \<Rightarrow> byte list \<Rightarrow> byte list \<Rightarrow> bool" where
  "releasable P C K p \<longleftrightarrow> (\<forall>q \<in> P. 0 < C q \<and> C q < 2 ^ 32) \<and>
     (\<forall>q \<in> P. prefix p q \<longrightarrow> prefix q K \<longrightarrow> C q = 1 \<longrightarrow> (\<forall>r \<in> below P q. prefix r K \<and> C r = 1))"

definition released ::
  "tmem \<Rightarrow> byte list set \<Rightarrow> (byte list \<Rightarrow> addr) \<Rightarrow> (byte list \<Rightarrow> nat) \<Rightarrow> (byte list \<Rightarrow> val) \<Rightarrow> byte list \<Rightarrow> byte list \<Rightarrow>
   trie \<times> tmem \<Rightarrow> bool"
where
  "released m P N C D K p s \<longleftrightarrow>
     trie_at (heap (snd s)) (tr_root_node (fst s)) (P - spent P C K p) N (lowered C K p) D \<and>
     answers (snd s) = answers m \<and>
     (\<forall>b. b \<notin> N ` (P - spent P C K p) \<longrightarrow> heap (snd s) b = (if b \<in> N ` spent P C K p then None else heap m b))"

lemma release_step:
  assumes "K = p @ c # k" "p \<in> P" "releasable P C K p" "1 < C p"
  shows "releasable P (C(p := C p - 1)) K (p @ [c])" "spent P (C(p := C p - 1)) K (p @ [c]) = spent P C K p"
    "lowered (C(p := C p - 1)) K (p @ [c]) = lowered C K p"
proof -
  have ps: "prefix p q \<and> prefix q K \<longleftrightarrow> q = p \<or> prefix (p @ [c]) q \<and> prefix q K" for q
    using prefix_step [of p q c k] assms(1) by blast
  have np: "\<not> prefix (p @ [c]) p" by (auto simp: prefix_def)
  show "spent P (C(p := C p - 1)) K (p @ [c]) = spent P C K p"
    using ps np assms(4) by (auto simp: spent_def)
  show "lowered (C(p := C p - 1)) K (p @ [c]) = lowered C K p"
    using ps np assms(1) by (auto simp: lowered_def fun_eq_iff)
  have A: "\<forall>r \<in> below P q. prefix r K \<and> (C(p := C p - 1)) r = 1"
    if "q \<in> P" "prefix (p @ [c]) q" "prefix q K" "(C(p := C p - 1)) q = 1" for q
  proof -
    have "q \<noteq> p" using that(2) np by blast
    with that(4) have "C q = 1" by simp
    moreover have "prefix p q" using that(2) by (rule append_prefixD)
    ultimately have "\<forall>r \<in> below P q. prefix r K \<and> C r = 1" using assms(3) that(1,3) unfolding releasable_def by blast
    moreover have "r \<noteq> p" if "r \<in> below P q" for r
      using that \<open>prefix (p @ [c]) q\<close> np prefix_order.trans unfolding below_def by blast
    ultimately have "prefix r K \<and> (C(p := C p - 1)) r = 1" if "r \<in> below P q" for r
      using that fun_upd_other [of r p C "C p - 1"] by force
    then show ?thesis by blast
  qed
  have B: "\<forall>q \<in> P. 0 < (C(p := C p - 1)) q \<and> (C(p := C p - 1)) q < 2 ^ 32"
  proof
    fix q assume "q \<in> P"
    with assms(3) have "0 < C q" "C q < 2 ^ 32" unfolding releasable_def by blast+
    with assms(4) show "0 < (C(p := C p - 1)) q \<and> (C(p := C p - 1)) q < 2 ^ 32" by (cases "q = p") simp_all
  qed
  show "releasable P (C(p := C p - 1)) K (p @ [c])"
    unfolding releasable_def
  proof (intro conjI)
    show "\<forall>q \<in> P. prefix (p @ [c]) q \<longrightarrow> prefix q K \<longrightarrow> (C(p := C p - 1)) q = 1 \<longrightarrow>
        (\<forall>r \<in> below P q. prefix r K \<and> (C(p := C p - 1)) r = 1)"
      by (intro ballI impI, rule A [rule_format]) assumption+
  qed (rule B)
qed

lemma release_below:
  assumes "p \<in> P" "prefix p K" "releasable P C K p" "C p = 1"
  shows "below P p = spent P C K p" "q \<in> below P p \<Longrightarrow> prefix q K \<and> C q = 1"
proof -
  have *: "\<forall>r \<in> below P p. prefix r K \<and> C r = 1" using assms unfolding releasable_def by blast
  then show "q \<in> below P p \<Longrightarrow> prefix q K \<and> C q = 1" by blast
  from * show "below P p = spent P C K p" by (auto simp: spent_def below_def)
qed

lemma released_cut:
  assumes t: "trie_at (heap m) (tr_root_node trie) P N C D" and p: "p \<in> P" "prefix p K" "releasable P C K p" "C p = 1"
    and m1: "trie_at (heap m1) (tr_root_node trie1) (P - below P p) N C D" "answers m1 = answers m"
      "\<forall>b. b \<notin> N ` (P - below P p) \<longrightarrow> heap m1 b = (if b = N p then None else heap m b)"
    and Q: "below P p = insert p Q"
    and m2: "answers m2 = answers m1" "heap m2 = (\<lambda>b. if b \<in> N ` Q then None else heap m1 b)"
  shows "released m P N C D K p (trie1, m2)"
proof -
  note sb = release_below(1) [OF p]
  have disj: "N q \<notin> N ` Q" if "q \<in> P - below P p" for q
    using that Q trie_at_inj [OF t] by (auto simp: below_def)
  have "trie_at (heap m2) (tr_root_node trie1) (P - below P p) N (lowered C K p) D"
    by (rule trie_at_cong [OF m1(1)]) (use disj m2(2) in \<open>auto simp: lowered_def below_def\<close>)
  moreover have "heap m2 b = (if b \<in> N ` below P p then None else heap m b)" if "b \<notin> N ` (P - below P p)" for b
    using that m1(3) m2(2) Q by auto
  ultimately show ?thesis using m1(2) m2(1) by (simp add: released_def sb)
qed

lemma trie_rollback_ok:
  "trie_at (heap m) (tr_root_node trie) P N C D \<Longrightarrow> releasable P C K p \<Longrightarrow> K = p @ k \<Longrightarrow> K \<notin> P \<Longrightarrow>
   \<exists>s. trie_rollback_loop k (link P N p) (Some (slot_for N p)) trie m = Some s \<and> released m P N C D K p s"
proof (induction k arbitrary: p m C)
  case Nil
  have "below P p = {}" using trie_at_closed [OF Nil.prems(1)] Nil.prems(3,4) by (auto simp: below_def prefix_def)
  then have e: "spent P C K p = {}" "\<And>q. q \<in> P \<Longrightarrow> lowered C K p q = C q"
    by (auto simp: spent_def lowered_def below_def)
  have "trie_at (heap m) (tr_root_node trie) P N (lowered C K p) D"
    by (rule trie_at_cong [OF Nil.prems(1)]) (simp_all add: e(2))
  then have "released m P N C D K p (trie, m)" by (simp add: released_def e(1))
  with Nil show ?case by (simp add: link_out)
next
  case (Cons c k)
  note t = Cons.prems(1)
  show ?case
  proof (cases "p \<in> P")
    case False
    have "below P p = {}" using trie_at_closed [OF t] False by (auto simp: below_def prefix_def)
    then have e: "spent P C K p = {}" "\<And>q. q \<in> P \<Longrightarrow> lowered C K p q = C q"
      by (auto simp: spent_def lowered_def below_def)
    have "trie_at (heap m) (tr_root_node trie) P N (lowered C K p) D"
      by (rule trie_at_cong [OF t]) (simp_all add: e(2))
    then have "released m P N C D K p (trie, m)" by (simp add: released_def e(1))
    with False show ?thesis by (simp add: link_out)
  next
    case True
    note ld = trie_at_load [OF t True] trie_atD(5) [OF t True]
    have pK: "prefix p K" using Cons.prems(3) by simp
    show ?thesis
    proof (cases "C p = 1")
      case one: True
      note rb = release_below [OF True pK Cons.prems(2) one]
      from release_cut [OF t True one] obtain trie1 m1 where m1:
        "trie_release (N p) (Some (slot_for N p)) trie m = Some (True, trie1, m1)"
        "trie_at (heap m1) (tr_root_node trie1) (P - below P p) N C D" "answers m1 = answers m"
        "\<forall>b. b \<notin> N ` (P - below P p) \<longrightarrow> heap m1 b = (if b = N p then None else heap m b)" by blast
      have "\<forall>q \<in> below P p. prefix q (p @ c # k)" using rb(2) Cons.prems(3) by blast
      note bp = below_path [OF t True this]
      have o: "heap m1 (N q) = heap m (N q) \<and> C q = 1 \<and> prefix q ((p @ [c]) @ k)" if "q \<in> below P (p @ [c])" for q
      proof -
        have q: "q \<in> below P p" "q \<noteq> p" using that bp by auto
        then have "N q \<noteq> N p" "N q \<notin> N ` (P - below P p)" using trie_at_inj [OF t] True by (auto simp: below_def)
        with m1(4) rb(2) [OF q(1)] Cons.prems(3) show ?thesis by simp
      qed
      have "(p @ [c]) @ k \<notin> P" using Cons.prems(3,4) by simp
      from rollback_orphans [OF t o this, of trie1] obtain m2 where m2:
        "trie_rollback_loop k (link P N (p @ [c])) None trie1 m1 = Some (trie1, m2)" "answers m2 = answers m1"
        "heap m2 = (\<lambda>b. if b \<in> N ` below P (p @ [c]) then None else heap m1 b)" by blast
      have "released m P N C D K p (trie1, m2)"
        by (rule released_cut [OF t True pK Cons.prems(2) one m1(2,3,4) bp(1) m2(2,3)])
      moreover have "trie_rollback_loop (c # k) (link P N p) (Some (slot_for N p)) trie m = Some (trie1, m2)"
        using True ld m1(1) m2(1) by (simp add: link_in Let_def)
      ultimately show ?thesis by blast
    next
      case False
      with Cons.prems(2) True have c1: "1 < C p" "C p < 2 ^ 32" by (auto simp: releasable_def Suc_lessI)
      from release_dec [where prev = "Some (slot_for N p)", OF t True c1] obtain m1 where m1:
        "trie_release (N p) (Some (slot_for N p)) trie m = Some (False, trie, m1)"
        "trie_at (heap m1) (tr_root_node trie) P N (C(p := C p - 1)) D" "answers m1 = answers m"
        "\<forall>b. b \<notin> N ` P \<longrightarrow> heap m1 b = heap m b" by blast
      note st = release_step [OF Cons.prems(3) True Cons.prems(2) c1(1)]
      have "K = (p @ [c]) @ k" using Cons.prems(3) by simp
      from Cons.IH [OF m1(2) st(1) this Cons.prems(4)] obtain s where s:
        "trie_rollback_loop k (link P N (p @ [c])) (Some (slot_for N (p @ [c]))) trie m1 = Some s"
        "released m1 P N (C(p := C p - 1)) D K (p @ [c]) s" by blast
      have "released m P N C D K p s"
        using s(2) m1(3,4) unfolding released_def st(2,3) by (auto simp: spent_def)
      moreover have "trie_rollback_loop (c # k) (link P N p) (Some (slot_for N p)) trie m = Some s"
        using True ld m1(1) s(1) by (simp add: link_in Let_def)
      ultimately show ?thesis by blast
    qed
  qed
qed


section \<open>Searching and inserting\<close>


lemma find_end_binary_loop_ok:
  assumes t: "trie_at (heap m) root P N C D"
  shows "n \<le> length cs \<Longrightarrow> trie_find_end_binary_loop n cs (link P N p) m = Some (link P N (p @ take n cs))"
proof (induction n arbitrary: p cs)
  case (Suc n)
  then obtain c cs' where cs: "cs = c # cs'" "n \<le> length cs'" by (cases cs) auto
  show ?case
  proof (cases "p \<in> P")
    case True
    with Suc.IH [OF cs(2), of "p @ [c]"] cs trie_at_load [OF t True] trie_atD(5) [OF t True] show ?thesis
      by (simp add: link_in)
  next
    case False
    then have "p @ c # take n cs' \<notin> P" using trie_at_closed [OF t] by blast
    with False cs show ?thesis by (simp add: link_out)
  qed
qed simp


lemma key_of_binary: "n < length cs \<Longrightarrow> key_of binary_stop cs n = Some (take n cs)"
proof (induction cs arbitrary: n)
  case (Cons c cs)
  then show ?case by (cases n) (auto simp: binary_stop_def)
qed simp

lemma key_of_prefix: "key_of stop cs n = Some k \<Longrightarrow> \<exists>r. cs = k @ r"
  by (induction cs arbitrary: n k) (auto split: if_splits)

lemma trie_insert_node_ok:
  assumes t: "trie_at (heap m) (tr_root_node trie) P N C D" and r: "reachable P p"
    and out: "p \<notin> P \<Longrightarrow> C p = 0 \<and> D p = 0"
  shows "\<exists>node trie' m'. trie_insert_node (slot_for N p) trie m = Some (node, trie', m') \<and>
    answers m' = (if p \<in> P then answers m else tl (answers m)) \<and>
    (if node = 0 then p \<notin> P \<and> \<not> can_alloc m \<and> trie' = trie \<and> heap m' = heap m
     else \<exists>N'. node = N' p \<and> trie_at (heap m') (tr_root_node trie') (insert p P) N' (C(p := C p + 1)) D \<and>
       (\<forall>q \<in> P. N' q = N q) \<and> (p \<notin> P \<longrightarrow> heap m (N' p) = None) \<and>
       (\<forall>b. b \<notin> N' ` insert p P \<longrightarrow> heap m' b = heap m b) \<and> (p \<notin> P \<longrightarrow> N' p = hd (answers m)))"
proof -
  note rd = slot_read_for [OF t r]
  have count: "\<exists>m'. (do {
       e \<leftarrow> load (N' p) m1;
       m \<leftarrow> store (N' p) (e\<lparr>tn_use_count := tn_use_count e + 1\<rparr>) m1;
       Some (N' p, trie1, m)
     }) = Some (N' p, trie1, m') \<and> answers m' = answers m1 \<and>
     trie_at (heap m') (tr_root_node trie1) P' N' (C'(p := C' p + 1)) D' \<and>
     (\<forall>b. b \<notin> N' ` P' \<longrightarrow> heap m' b = heap m1 b)"
    if t1: "trie_at (heap m1) (tr_root_node trie1) P' N' C' D'" and p: "p \<in> P'" for m1 trie1 P' N' C' D'
  proof -
    let ?e = "(node_for P' N' C' D' p)\<lparr>tn_use_count := of_nat (C' p) + 1\<rparr>"
    have "?e = node_for P' N' (C'(p := C' p + 1)) (D'(p := D' p)) p" by (simp add: node_for_def add.commute)
    from trie_at_store [OF t1 p this] trie_at_load [OF t1 p] p show ?thesis
      by (intro exI [of _ "m1\<lparr>heap := (heap m1)(N' p \<mapsto> ?e)\<rparr>"]) auto
  qed
  show ?thesis
  proof (cases "p \<in> P")
    case True
    note N0 = trie_atD(5) [OF t True]
    from count [OF t True] obtain m' where m': "(do {
       e \<leftarrow> load (N p) m;
       m \<leftarrow> store (N p) (e\<lparr>tn_use_count := tn_use_count e + 1\<rparr>) m;
       Some (N p, trie, m)
     }) = Some (N p, trie, m')" "answers m' = answers m"
     "trie_at (heap m') (tr_root_node trie) P N (C(p := C p + 1)) D" "\<forall>b. b \<notin> N ` P \<longrightarrow> heap m' b = heap m b" by blast
    have "trie_insert_node (slot_for N p) trie m = Some (N p, trie, m')"
      using rd True N0 m'(1) by (simp add: trie_insert_node_def link_in)
    with True N0 m'(2-4) show ?thesis
      by (intro exI [of _ "N p"] exI [of _ trie] exI [of _ m']) (auto simp: insert_absorb intro!: exI [of _ N])
  next
    case False
    let ?z = "\<lparr>tn_data = 0, tn_use_count = 0, tn_next = (\<lambda>_. 0)\<rparr>"
    note o = out [OF False]
    show ?thesis
    proof (cases rule: malloc_cases [of ?z m])
      case (fail m1)
      then have "trie_insert_node (slot_for N p) trie m = Some (0, trie, m1)"
        using rd False by (simp add: trie_insert_node_def link_out)
      with fail False show ?thesis by (intro exI [of _ 0] exI [of _ trie] exI [of _ m1]) simp
    next
      case (ok a m1)
      let ?N = "N(p := a)" and ?P = "insert p P"
      from trie_at_add [OF t False r ok(4,5,6)] obtain trie2 m2 where m2:
        "trie_slot_write (slot_for N p) a trie m1 = Some (trie2, m2)"
        "trie_at (heap m2) (tr_root_node trie2) ?P ?N (C(p := 0)) (D(p := 0))" "answers m2 = answers m1"
        "\<forall>b. b \<notin> N ` P \<longrightarrow> b \<noteq> a \<longrightarrow> heap m2 b = heap m b" by blast
      have cd: "C(p := 0) = C" "D(p := 0) = D" using o by auto
      have "p \<in> ?P" by simp
      from count [OF m2(2) [unfolded cd] this] obtain m' where m': "(do {
         e \<leftarrow> load (?N p) m2;
         m \<leftarrow> store (?N p) (e\<lparr>tn_use_count := tn_use_count e + 1\<rparr>) m2;
         Some (?N p, trie2, m)
       }) = Some (?N p, trie2, m')" "answers m' = answers m2"
       "trie_at (heap m') (tr_root_node trie2) ?P ?N (C(p := C p + 1)) D" "\<forall>b. b \<notin> ?N ` ?P \<longrightarrow> heap m' b = heap m2 b" by blast
      have "trie_insert_node (slot_for N p) trie m = Some (a, trie2, m')"
        using rd False ok(1,4) m2(1) m'(1) by (simp add: trie_insert_node_def link_out)
      moreover have "\<forall>q \<in> P. ?N q = N q" using False by auto
      moreover have "\<forall>b. b \<notin> ?N ` ?P \<longrightarrow> heap m' b = heap m b"
        using m'(4) m2(4) False by auto
      moreover have "answers m' = tl (answers m)" using m'(2) m2(3) ok(7) by simp
      moreover have "trie_at (heap m') (tr_root_node trie2) ?P ?N (C(p := C p + 1)) D" by (rule m'(3))
      moreover have "?N p = a" by simp
      ultimately obtain N1 P1 where N1: "N1 = ?N" "P1 = ?P" "N1 p = a" "\<forall>q \<in> P. N1 q = N q"
        "trie_insert_node (slot_for N p) trie m = Some (N1 p, trie2, m')" "answers m' = tl (answers m)"
        "trie_at (heap m') (tr_root_node trie2) P1 N1 (C(p := C p + 1)) D" "\<forall>b. b \<notin> N1 ` P1 \<longrightarrow> heap m' b = heap m b"
        by simp
      show ?thesis unfolding N1(2) [symmetric] using N1(3-8) ok(3,4,5) False
        by (intro exI [of _ a] exI [of _ trie2] exI [of _ m']) (simp, intro exI [of _ N1], simp)
    qed
  qed
qed


text \<open>The paths from \<open>p\<close> on that end before \<open>L\<close>.\<close>

definition span :: "byte list \<Rightarrow> byte list \<Rightarrow> byte list set" where
  "span p L = {q. prefix p q \<and> strict_prefix q L}"

lemma span_self [simp]: "span p p = {}"
  by (auto simp: span_def strict_prefix_def dest: prefix_order.antisym)

lemma span_step: "prefix (p @ [c]) L \<Longrightarrow> span p L = insert p (span (p @ [c]) L)"
proof -
  assume "prefix (p @ [c]) L"
  then obtain k where L: "L = p @ c # k" by (auto simp: prefix_def)
  show "span p L = insert p (span (p @ [c]) L)"
    using prefix_step [of p _ c k] by (auto simp: span_def strict_prefix_def L)
qed

lemma span_notin [simp]: "p \<notin> span (p @ [c]) L"
  by (auto simp: span_def prefix_def)

text \<open>
  What a passage of the insertion has done: the nodes of the paths \<open>Q\<close> exist and are counted
  once more, and nothing else has changed.
\<close>

definition raised :: "(byte list \<Rightarrow> nat) \<Rightarrow> byte list set \<Rightarrow> byte list \<Rightarrow> nat" where
  "raised C Q q = (if q \<in> Q then C q + 1 else C q)"

lemma raised_empty [simp]: "raised C {} = C"
  by (simp add: raised_def fun_eq_iff)

lemma raised_insert: "p \<notin> Q \<Longrightarrow> raised (C(p := C p + 1)) Q = raised C (insert p Q)"
  by (auto simp: raised_def fun_eq_iff)

definition grown ::
  "tmem \<Rightarrow> byte list set \<Rightarrow> (byte list \<Rightarrow> addr) \<Rightarrow> (byte list \<Rightarrow> nat) \<Rightarrow> byte list set \<Rightarrow> (byte list \<Rightarrow> val) \<Rightarrow>
   trie \<Rightarrow> tmem \<Rightarrow> (byte list \<Rightarrow> addr) \<Rightarrow> bool"
where
  "grown m P N C Q D trie' m' N' \<longleftrightarrow>
     trie_at (heap m') (tr_root_node trie') (P \<union> Q) N' (raised C Q) D \<and> (\<forall>q \<in> P. N' q = N q) \<and>
     (\<forall>q \<in> Q - P. heap m (N' q) = None) \<and> (\<forall>b. b \<notin> N' ` (P \<union> Q) \<longrightarrow> heap m' b = heap m b)"

lemma grown_step:
  assumes t: "trie_at (heap m1) root (insert p P) N1 C1 D1" and N1: "\<forall>q \<in> P. N1 q = N q"
    and new: "p \<notin> P \<longrightarrow> heap m (N1 p) = None" and fr: "\<forall>b. b \<notin> N1 ` insert p P \<longrightarrow> heap m1 b = heap m b"
    and g: "grown m1 (insert p P) N1 (C(p := C p + 1)) Q D trie' m' N'" and p: "p \<notin> Q"
  shows "grown m P N C (insert p Q) D trie' m' N'"
proof -
  note g' = g [unfolded grown_def raised_insert [OF p]]
  have u: "insert p P \<union> Q = P \<union> insert p Q" by blast
  have N': "N' q = N1 q" if "q \<in> insert p P" for q using g' that by blast
  have im: "N1 ` insert p P \<subseteq> N' ` (P \<union> insert p Q)"
  proof
    fix b assume "b \<in> N1 ` insert p P"
    then obtain q where "b = N1 q" "q \<in> insert p P" by blast
    then show "b \<in> N' ` (P \<union> insert p Q)" using N' by (intro image_eqI [of _ _ q]) auto
  qed
  have new': "heap m (N' q) = None" if "q \<in> insert p Q - P" for q
  proof (cases "q = p")
    case True
    with that new N' show ?thesis by simp
  next
    case False
    with that g' have "heap m1 (N' q) = None" by blast
    moreover from this have "N' q \<notin> N1 ` insert p P" using trie_atD(6) [OF t] by auto
    ultimately show ?thesis using fr by simp
  qed
  have fr': "heap m' b = heap m b" if "b \<notin> N' ` (P \<union> insert p Q)" for b
  proof -
    have "b \<notin> N1 ` insert p P" using that im by blast
    with fr g' that show ?thesis unfolding u by simp
  qed
  have "trie_at (heap m') (tr_root_node trie') (P \<union> insert p Q) N' (raised C (insert p Q)) D"
    using g' unfolding u by (rule conjunct1)
  then show ?thesis
    unfolding grown_def using N' N1 by (intro conjI ballI allI impI new' fr') simp_all
qed


lemma grown_ample:
  assumes a: "ample (Suc n) m" and t: "trie_at (heap m) root P N C D" and t1: "trie_at (heap m1) root1 (insert p P) N1 C1 D1"
    and N1: "\<forall>q \<in> P. N1 q = N q" "p \<notin> P \<longrightarrow> N1 p = hd (answers m)"
    and ans: "answers m1 = (if p \<in> P then answers m else tl (answers m))"
    and fr: "\<forall>b. b \<notin> N1 ` insert p P \<longrightarrow> heap m1 b = heap m b"
  shows "ample n m1"
proof (cases "p \<in> P")
  case True
  have "heap m1 b = None" if "heap m b = None" for b
  proof -
    have "b \<noteq> N q" if "q \<in> P" for q using trie_atD(6) [OF t that] \<open>heap m b = None\<close> by auto
    then have "b \<notin> N1 ` insert p P" using N1(1) True by auto
    with fr that show ?thesis by simp
  qed
  with ample_keep [OF a] ans True ample_le show ?thesis by (metis le_SucI le_refl)
next
  case False
  show ?thesis
  proof (rule ample_alloc [OF a])
    show "answers m1 = tl (answers m)" using ans False by simp
    fix b assume b: "b \<noteq> hd (answers m)" "heap m b = None"
    then have "b \<noteq> N q" if "q \<in> P" for q using trie_atD(6) [OF t that] by auto
    then have "b \<notin> N1 ` insert p P" using N1 b False by auto
    with fr b show "heap m1 b = None" by simp
  qed
qed

text \<open>
  The insertion of the path \<open>K\<close> from \<open>p\<close> on.  Either it gets to its end, or it stops at the first
  missing node \<open>L\<close>, for which there was no memory.
\<close>

definition insert_result ::
  "tmem \<Rightarrow> byte list set \<Rightarrow> (byte list \<Rightarrow> addr) \<Rightarrow> (byte list \<Rightarrow> nat) \<Rightarrow> (byte list \<Rightarrow> val) \<Rightarrow> byte list \<Rightarrow> byte list \<Rightarrow> val \<Rightarrow>
   bool \<Rightarrow> trie \<Rightarrow> tmem \<Rightarrow> bool"
where
  "insert_result m P N C D p K v ok trie' m' \<longleftrightarrow>
     (if ok then \<exists>N'. grown m P N C (insert K (span p K)) (D(K := v)) trie' m' N'
      else \<exists>L N'. L \<notin> P \<and> prefix p L \<and> prefix L K \<and> grown m P N C (span p L) D trie' m' N')"

lemma insert_result_step:
  assumes t: "trie_at (heap m1) root (insert p P) N1 C1 D1" and N1: "\<forall>q \<in> P. N1 q = N q"
    and new: "p \<notin> P \<longrightarrow> heap m (N1 p) = None" and fr: "\<forall>b. b \<notin> N1 ` insert p P \<longrightarrow> heap m1 b = heap m b"
    and r: "insert_result m1 (insert p P) N1 (C(p := C p + 1)) D (p @ [c]) K v ok trie' m'"
    and K: "K = p @ c # k"
  shows "insert_result m P N C D p K v ok trie' m'"
proof -
  note st = grown_step [OF t N1 new fr]
  have pK: "prefix (p @ [c]) K" using K by simp
  show ?thesis
  proof (cases ok)
    case True
    with r obtain N' where "grown m1 (insert p P) N1 (C(p := C p + 1)) (insert K (span (p @ [c]) K)) (D(K := v)) trie' m' N'"
      by (auto simp: insert_result_def)
    from st [OF this] K have "grown m P N C (insert p (insert K (span (p @ [c]) K))) (D(K := v)) trie' m' N'" by simp
    moreover have "insert p (insert K (span (p @ [c]) K)) = insert K (span p K)" using span_step [OF pK] by blast
    ultimately show ?thesis using True by (auto simp: insert_result_def)
  next
    case False
    with r obtain L N' where L: "L \<notin> insert p P" "prefix (p @ [c]) L" "prefix L K"
      and g: "grown m1 (insert p P) N1 (C(p := C p + 1)) (span (p @ [c]) L) D trie' m' N'"
      unfolding insert_result_def by auto
    from st [OF g] have "grown m P N C (span p L) D trie' m' N'" using span_step [OF L(2)] by simp
    with False L append_prefixD [OF L(2)] show ?thesis by (auto simp: insert_result_def)
  qed
qed

lemma trie_insert_loop_ok:
  "trie_at (heap m) (tr_root_node trie) P N C D \<Longrightarrow> reachable P p \<Longrightarrow> (\<forall>q. q \<notin> P \<longrightarrow> C q = 0 \<and> D q = 0) \<Longrightarrow>
   key_of stop cs n = Some k \<Longrightarrow> K = p @ k \<Longrightarrow>
   \<exists>ok trie' m'. trie_insert_loop stop v cs n (slot_for N p) trie m = Some (ok, trie', m') \<and>
     insert_result m P N C D p K v ok trie' m' \<and> (ample (Suc (length k)) m \<longrightarrow> ok)"
proof (induction cs arbitrary: p m trie P N C k n)
  case Nil
  then show ?case by simp
next
  case (Cons c cs)
  note t = Cons.prems(1) and out = Cons.prems(3)
  have "p \<notin> P \<Longrightarrow> C p = 0 \<and> D p = 0" using out by blast
  from trie_insert_node_ok [OF t Cons.prems(2) this] obtain node trie1 m1 where
    nd: "trie_insert_node (slot_for N p) trie m = Some (node, trie1, m1)"
      "answers m1 = (if p \<in> P then answers m else tl (answers m))" and
    rest: "if node = 0 then p \<notin> P \<and> \<not> can_alloc m \<and> trie1 = trie \<and> heap m1 = heap m
     else \<exists>N'. node = N' p \<and> trie_at (heap m1) (tr_root_node trie1) (insert p P) N' (C(p := C p + 1)) D \<and>
       (\<forall>q \<in> P. N' q = N q) \<and> (p \<notin> P \<longrightarrow> heap m (N' p) = None) \<and>
       (\<forall>b. b \<notin> N' ` insert p P \<longrightarrow> heap m1 b = heap m b) \<and> (p \<notin> P \<longrightarrow> N' p = hd (answers m))" by blast
  show ?case
  proof (cases "node = 0")
    case True
    with rest have f: "p \<notin> P" "\<not> can_alloc m" "trie1 = trie" "heap m1 = heap m" by simp_all
    have "grown m P N C (span p p) D trie m1 N" using t f(4) by (simp add: grown_def)
    then have "insert_result m P N C D p K v False trie m1"
      using f(1) Cons.prems(5) unfolding insert_result_def by simp (intro exI [of _ p], auto)
    moreover have "trie_insert_loop stop v (c # cs) n (slot_for N p) trie m = Some (False, trie, m1)"
      using nd(1) True f(3) by simp
    ultimately show ?thesis using f(2) ample_can_alloc by blast
  next
    case False
    from rest [unfolded if_not_P [OF False]] obtain N1 where N1: "node = N1 p" "trie_at (heap m1) (tr_root_node trie1) (insert p P) N1 (C(p := C p + 1)) D"
      "\<forall>q \<in> P. N1 q = N q" "p \<notin> P \<longrightarrow> heap m (N1 p) = None"
      "\<forall>b. b \<notin> N1 ` insert p P \<longrightarrow> heap m1 b = heap m b" "p \<notin> P \<longrightarrow> N1 p = hd (answers m)" by blast
    show ?thesis
    proof (cases "stop c n")
      case stop: True
      then have K: "K = p" using Cons.prems(4,5) by simp
      let ?e = "(node_for (insert p P) N1 (C(p := C p + 1)) D p)\<lparr>tn_data := v\<rparr>"
      let ?m = "m1\<lparr>heap := (heap m1)(N1 p \<mapsto> ?e)\<rparr>"
      have pin: "p \<in> insert p P" by simp
      have "?e = node_for (insert p P) N1 ((C(p := C p + 1))(p := C p + 1)) (D(p := v)) p" by (simp add: node_for_def)
      note st = trie_at_store [OF N1(2) pin this]
      have new: "\<forall>q \<in> {p} - P. heap m (N1 q) = None" using N1(4) by auto
      have "grown m P N C {p} (D(p := v)) trie1 ?m N1"
        using st(2) N1(3,5) new raised_insert [of p "{}" C] unfolding grown_def by simp
      then have "insert_result m P N C D p K v True trie1 ?m" unfolding insert_result_def K by auto
      moreover have "trie_insert_loop stop v (c # cs) n (slot_for N p) trie m = Some (True, trie1, ?m)"
        using nd(1) False N1(1) stop trie_at_load [OF N1(2) pin] st(1) by simp
      ultimately show ?thesis by blast
    next
      case go: False
      then obtain k' where k': "k = c # k'" "key_of stop cs (n - 1) = Some k'" using Cons.prems(4) by auto
      have r1: "reachable (insert p P) (p @ [c])" by simp
      have out1: "\<forall>q. q \<notin> insert p P \<longrightarrow> (C(p := C p + 1)) q = 0 \<and> D q = 0" using out by simp
      have K': "K = (p @ [c]) @ k'" "K = p @ c # k'" using Cons.prems(5) k'(1) by simp_all
      from Cons.IH [OF N1(2) r1 out1 k'(2) K'(1)] obtain ok trie2 m2 where s:
        "trie_insert_loop stop v cs (n - 1) (slot_for N1 (p @ [c])) trie1 m1 = Some (ok, trie2, m2)"
        "insert_result m1 (insert p P) N1 (C(p := C p + 1)) D (p @ [c]) K v ok trie2 m2"
        "ample (Suc (length k')) m1 \<longrightarrow> ok" by blast
      have "insert_result m P N C D p K v ok trie2 m2"
        by (rule insert_result_step [OF N1(2-5) s(2) K'(2)])
      moreover have "trie_insert_loop stop v (c # cs) n (slot_for N p) trie m = Some (ok, trie2, m2)"
        using nd(1) False N1(1) go s(1) by simp
      moreover have "ample (Suc (length k)) m \<longrightarrow> ok"
        using grown_ample [OF _ t N1(2,3,6) nd(2) N1(5), of "Suc (length k')"] s(3) k'(1) by simp
      ultimately show ?thesis by blast
    qed
  qed
qed

lemma trie_rollback_longer:
  "trie_rollback_loop k node prev trie m = Some s \<Longrightarrow> trie_rollback_loop (k @ r) node prev trie m = Some s"
proof (induction k arbitrary: node prev trie m)
  case Nil
  then show ?case by (cases r) (auto split: if_splits)
next
  case (Cons c k)
  then show ?case by (auto simp: Let_def split: if_splits bind_splits)
qed


lemma span_releasable:
  assumes t: "trie_at h root P N C D" and b: "\<forall>q \<in> P. 0 < C q \<and> C q + 1 < 2 ^ 32" and out: "\<forall>q. q \<notin> P \<longrightarrow> C q = 0"
    and L: "L \<notin> P" "prefix L K" and K: "prefix q K"
  shows "q \<in> P \<Longrightarrow> q \<in> span [] L" "q \<in> P \<union> span [] L \<Longrightarrow> raised C (span [] L) q = 1 \<Longrightarrow> q \<notin> P"
proof -
  show A: "q \<in> span [] L" if "q \<in> P"
  proof -
    have "prefix q L \<or> prefix L q" using K L(2) by (rule prefix_same_cases)
    moreover have "\<not> prefix L q" using trie_at_closed [OF t] that L(1) by (auto simp: prefix_def)
    ultimately show ?thesis using that L(1) by (auto simp: span_def strict_prefix_def)
  qed
  show "q \<notin> P" if "q \<in> P \<union> span [] L" "raised C (span [] L) q = 1"
    using A b that(2) by (auto simp: raised_def)
qed

lemma trie_insert_undo:
  assumes t: "trie_at (heap m) (tr_root_node trie) P N C D"
    and b: "\<forall>q \<in> P. 0 < C q \<and> C q + 1 < 2 ^ 32" and out: "\<forall>q. q \<notin> P \<longrightarrow> C q = 0"
    and L: "L \<notin> P" "prefix L K" and g: "grown m P N C (span [] L) D trie' m' N'"
  shows "\<exists>m2. trie_insert_rollback trie' (K @ r) m' = Some (trie, m2) \<and> heap m2 = heap m \<and> answers m2 = answers m'"
proof -
  let ?S = "span [] L" let ?P = "P \<union> ?S" let ?C = "raised C ?S"
  note g' = g [unfolded grown_def] and sr = span_releasable [OF t b out L]
  note t' = conjunct1 [OF g']
  have S: "prefix q K" if "q \<in> ?S" for q using that L(2) by (auto simp: span_def strict_prefix_def intro: prefix_order.trans)
  have "prefix r K \<and> ?C r = 1" if q: "q \<in> ?P" "prefix q K" "?C q = 1" and r: "r \<in> below ?P q" for q r
  proof -
    have "q \<notin> P" using sr(2) q by blast
    then have "r \<notin> P" using trie_at_closed [OF t] r by (auto simp: below_def prefix_def)
    then have "r \<in> ?S" "C r = 0" using r out by (auto simp: below_def)
    then show ?thesis using S by (simp add: raised_def)
  qed
  moreover have "0 < ?C q \<and> ?C q < 2 ^ 32" if "q \<in> ?P" for q
  proof (cases "q \<in> P")
    case True
    with b show ?thesis by (auto simp: raised_def)
  next
    case False
    with that out show ?thesis by (auto simp: raised_def)
  qed
  ultimately have rel: "releasable ?P ?C K []" unfolding releasable_def by blast
  have "K \<notin> ?P"
  proof
    assume "K \<in> ?P"
    moreover have "K \<notin> P" using trie_at_closed [OF t] L by (auto simp: prefix_def)
    ultimately have "strict_prefix K L" by (simp add: span_def)
    with L(2) show False by (auto simp: strict_prefix_def dest: prefix_order.antisym)
  qed
  from trie_rollback_ok [OF t' rel _ this, of K] obtain s where s:
    "trie_rollback_loop K (link ?P N' []) (Some (slot_for N' [])) trie' m' = Some s" "released m' ?P N' ?C D K [] s" by auto
  obtain trie2 m2 where s2: "s = (trie2, m2)" by (cases s)
  have roll: "trie_insert_rollback trie' (K @ r) m' = Some (trie2, m2)"
    using trie_rollback_longer [OF s(1)] trie_atD(1) [OF t'] s2 by (simp add: trie_insert_rollback_def)
  have sp: "spent ?P ?C K [] = ?S - P"
  proof (intro set_eqI iffI)
    fix q assume "q \<in> spent ?P ?C K []"
    then have q: "q \<in> ?P" "prefix q K" "?C q = 1" by (simp_all add: spent_def)
    with sr(2) [of q] show "q \<in> ?S - P" by blast
  next
    fix q assume q: "q \<in> ?S - P"
    then have "?C q = 1" using out by (simp add: raised_def)
    with q S [of q] show "q \<in> spent ?P ?C K []" by (simp add: spent_def)
  qed
  have left: "?P - (?S - P) = P" by blast
  have low: "lowered ?C K [] q = C q" if "q \<in> P" for q
    using sr(1) [OF _ that] S by (auto simp: lowered_def raised_def)
  note rd = s(2) [unfolded released_def sp left s2 fst_conv snd_conv]
  have t2: "trie_at (heap m2) (tr_root_node trie2) P N C D"
  proof -
    have "trie_at (heap m2) (tr_root_node trie2) P N' C D"
      by (rule trie_at_cong [OF conjunct1 [OF rd]]) (use low in auto)
    then show ?thesis using g' unfolding trie_at_def link_def node_for_def inj_on_def by (simp cong: if_cong)
  qed
  have "trie2 = trie" using trie_atD(1) [OF t2] trie_atD(1) [OF t] by (cases trie; cases trie2) simp
  moreover have "heap m2 c = heap m c" for c
  proof (cases "c \<in> N ` P")
    case True
    then show ?thesis using trie_atD(6) [OF t2] trie_atD(6) [OF t] by auto
  next
    case False
    have im: "N' ` P = N ` P" using g' by (intro image_cong) auto
    from False have "c \<notin> N' ` P" unfolding im .
    with rd have h: "heap m2 c = (if c \<in> N' ` (?S - P) then None else heap m' c)" by blast
    show ?thesis
    proof (cases "c \<in> N' ` (?S - P)")
      case True
      then obtain q where "c = N' q" "q \<in> ?S - P" by blast
      with g' have "heap m c = None" by simp
      with h True show ?thesis by simp
    next
      case c: False
      then have "c \<notin> N' ` ?P" using \<open>c \<notin> N' ` P\<close> by blast
      with g' h c show ?thesis by simp
    qed
  qed
  then have "heap m2 = heap m" by (rule ext)
  ultimately show ?thesis using roll rd by blast
qed


section \<open>The trie as a map\<close>

text \<open>
  A trie that holds the map \<open>M\<close> has a node for each prefix of a key; its use count is the number
  of the keys below it.
\<close>

definition trie_paths :: "(byte list \<rightharpoonup> val) \<Rightarrow> byte list set" where
  "trie_paths M = {p. \<exists>k \<in> dom M. prefix p k}"

definition trie_hits :: "(byte list \<rightharpoonup> val) \<Rightarrow> byte list \<Rightarrow> nat" where
  "trie_hits M p = card {k \<in> dom M. prefix p k}"

definition trie_vals :: "(byte list \<rightharpoonup> val) \<Rightarrow> byte list \<Rightarrow> val" where
  "trie_vals M p = (case M p of None \<Rightarrow> 0 | Some v \<Rightarrow> v)"

definition trie_rep_at ::
  "(addr \<rightharpoonup> trie_node) \<Rightarrow> trie \<Rightarrow> tmem \<Rightarrow> (byte list \<rightharpoonup> val) \<Rightarrow> (byte list \<Rightarrow> addr) \<Rightarrow> bool"
where
  "trie_rep_at h trie m M N \<longleftrightarrow> finite (dom M) \<and> card (dom M) < 2 ^ 32 \<and> 0 \<notin> ran M \<and>
     trie_at (heap m) (tr_root_node trie) (trie_paths M) N (trie_hits M) (trie_vals M) \<and>
     owned h m (N ` trie_paths M)"

definition trie_rep :: "(addr \<rightharpoonup> trie_node) \<Rightarrow> trie \<Rightarrow> tmem \<Rightarrow> (byte list \<rightharpoonup> val) \<Rightarrow> bool" where
  "trie_rep h trie m M \<longleftrightarrow> (\<exists>N. trie_rep_at h trie m M N)"

lemma trie_hits_bounds:
  assumes "finite (dom M)"
  shows "p \<in> trie_paths M \<Longrightarrow> 0 < trie_hits M p" "trie_hits M p \<le> card (dom M)"
proof -
  have f: "finite {k \<in> dom M. prefix p k}" using assms by simp
  then show "p \<in> trie_paths M \<Longrightarrow> 0 < trie_hits M p" by (auto simp: trie_hits_def trie_paths_def card_gt_0_iff)
  show "trie_hits M p \<le> card (dom M)" unfolding trie_hits_def by (rule card_mono [OF assms]) blast
qed

lemma trie_outside: "p \<notin> trie_paths M \<Longrightarrow> trie_hits M p = 0 \<and> trie_vals M p = 0"
proof -
  assume p: "p \<notin> trie_paths M"
  then have e: "{k \<in> dom M. prefix p k} = {}" and "M p = None" by (auto simp: trie_paths_def domIff)
  then show ?thesis unfolding trie_hits_def trie_vals_def e by simp
qed

lemma trie_vals_zero: "0 \<notin> ran M \<Longrightarrow> trie_vals M p = 0 \<longleftrightarrow> p \<notin> dom M"
proof (cases "M p")
  case (Some v)
  moreover assume "0 \<notin> ran M"
  ultimately have "v \<noteq> 0" using ranI [of M p v] by metis
  with Some show ?thesis by (simp add: trie_vals_def domIff)
qed (simp add: trie_vals_def domIff)

lemma trie_vals_upd [simp]: "trie_vals (M(K \<mapsto> v)) = (trie_vals M)(K := v)"
  "trie_vals (M(K := None)) = (trie_vals M)(K := 0)"
  by (simp_all add: trie_vals_def fun_eq_iff)

lemma trie_same_dom: "dom M' = dom M \<Longrightarrow> trie_paths M' = trie_paths M \<and> trie_hits M' = trie_hits M"
  by (simp add: trie_paths_def trie_hits_def fun_eq_iff)

lemma span_all: "insert K (span [] K) = {q. prefix q K}"
  by (auto simp: span_def strict_prefix_def)

lemma trie_paths_insert: "trie_paths (M(K \<mapsto> v)) = trie_paths M \<union> {q. prefix q K}"
  by (auto simp: trie_paths_def)

lemma trie_hits_insert:
  assumes "finite (dom M)" "K \<notin> dom M"
  shows "trie_hits (M(K \<mapsto> v)) = raised (trie_hits M) {q. prefix q K}"
proof
  fix q
  have "{k \<in> dom (M(K \<mapsto> v)). prefix q k} =
      (if prefix q K then insert K {k \<in> dom M. prefix q k} else {k \<in> dom M. prefix q k})" by auto
  with assms show "trie_hits (M(K \<mapsto> v)) q = raised (trie_hits M) {q. prefix q K} q"
    unfolding trie_hits_def raised_def by simp
qed





lemma trie_rep_at_node:
  assumes r: "trie_rep_at h trie m M N"
  shows "tr_root_node trie = link (trie_paths M) N []"
    "K \<in> trie_paths M \<Longrightarrow> load (N K) m = Some (node_for (trie_paths M) N (trie_hits M) (trie_vals M) K) \<and> N K \<noteq> 0"
    "trie_vals M K = 0 \<longleftrightarrow> K \<notin> dom M"
proof -
  have t: "trie_at (heap m) (tr_root_node trie) (trie_paths M) N (trie_hits M) (trie_vals M)" and "0 \<notin> ran M"
    using r by (simp_all add: trie_rep_at_def)
  then show "tr_root_node trie = link (trie_paths M) N []" "trie_vals M K = 0 \<longleftrightarrow> K \<notin> dom M"
    by (simp_all add: trie_vals_zero trie_atD(1))
  show "K \<in> trie_paths M \<Longrightarrow> load (N K) m = Some (node_for (trie_paths M) N (trie_hits M) (trie_vals M) K) \<and> N K \<noteq> 0"
    using trie_at_load [OF t] trie_atD(5) [OF t] by blast
qed

lemma trie_paths_dom: "K \<in> dom M \<Longrightarrow> K \<in> trie_paths M"
  by (auto simp: trie_paths_def)

lemma trie_data_at:
  assumes r: "trie_rep_at h trie m M N"
  shows "(if link (trie_paths M) N K \<noteq> 0 then do { e \<leftarrow> load (link (trie_paths M) N K) m; Some (tn_data e) } else Some 0) =
    Some (trie_vals M K)"
    "(if link (trie_paths M) N K \<noteq> 0 then do { e \<leftarrow> load (link (trie_paths M) N K) m; Some (tn_data e \<noteq> 0) } else Some False) =
    Some (K \<in> dom M)"
proof -
  have "(let node = link (trie_paths M) N K in
      (if node \<noteq> 0 then do { e \<leftarrow> load node m; Some (tn_data e) } else Some 0) = Some (trie_vals M K) \<and>
      (if node \<noteq> 0 then do { e \<leftarrow> load node m; Some (tn_data e \<noteq> 0) } else Some False) = Some (K \<in> dom M))"
  proof (cases "K \<in> trie_paths M")
    case True
    then show ?thesis using trie_rep_at_node(2) [OF r True] trie_rep_at_node(3) [OF r, of K]
      by (cases "K \<in> dom M") (simp_all add: link_in Let_def)
  next
    case False
    then have "K \<notin> dom M" "trie_vals M K = 0" using trie_paths_dom [of K M] trie_outside [of K M] by blast+
    with False show ?thesis by (simp add: link_out Let_def)
  qed
  then show "(if link (trie_paths M) N K \<noteq> 0 then do { e \<leftarrow> load (link (trie_paths M) N K) m; Some (tn_data e) } else Some 0) =
    Some (trie_vals M K)"
    "(if link (trie_paths M) N K \<noteq> 0 then do { e \<leftarrow> load (link (trie_paths M) N K) m; Some (tn_data e \<noteq> 0) } else Some False) =
    Some (K \<in> dom M)"
    unfolding Let_def by (rule conjunct1, rule conjunct2)
qed


lemma trie_find_end_binary_ok:
  assumes r: "trie_rep_at h trie m M N" and "n \<le> length cs"
  shows "trie_find_end_binary trie cs n m = Some (link (trie_paths M) N (take n cs))"
proof -
  have "trie_at (heap m) (tr_root_node trie) (trie_paths M) N (trie_hits M) (trie_vals M)" using r by (simp add: trie_rep_at_def)
  from find_end_binary_loop_ok [OF this assms(2), of "[]"] show ?thesis
    by (simp add: trie_find_end_binary_def trie_rep_at_node(1) [OF assms(1)])
qed

lemma trie_rep_store:
  assumes r: "trie_rep_at h trie m M N" and K: "K \<in> dom M"
    and m1: "m1 = m\<lparr>heap := (heap m)(N K \<mapsto> (node_for (trie_paths M) N (trie_hits M) (trie_vals M) K)\<lparr>tn_data := v\<rparr>)\<rparr>"
  shows "store (N K) ((node_for (trie_paths M) N (trie_hits M) (trie_vals M) K)\<lparr>tn_data := v\<rparr>) m = Some m1"
    "trie_at (heap m1) (tr_root_node trie) (trie_paths M) N (trie_hits M) ((trie_vals M)(K := v))"
    "owned h m1 (N ` trie_paths M)"
proof -
  have t: "trie_at (heap m) (tr_root_node trie) (trie_paths M) N (trie_hits M) (trie_vals M)"
    and o: "owned h m (N ` trie_paths M)" using r by (simp_all add: trie_rep_at_def)
  note KP = trie_paths_dom [OF K]
  have "(node_for (trie_paths M) N (trie_hits M) (trie_vals M) K)\<lparr>tn_data := v\<rparr> =
      node_for (trie_paths M) N ((trie_hits M)(K := trie_hits M K)) ((trie_vals M)(K := v)) K" by (simp add: node_for_def)
  from trie_at_store [OF t KP this]
  show "store (N K) ((node_for (trie_paths M) N (trie_hits M) (trie_vals M) K)\<lparr>tn_data := v\<rparr>) m = Some m1"
    "trie_at (heap m1) (tr_root_node trie) (trie_paths M) N (trie_hits M) ((trie_vals M)(K := v))"
    using m1 by simp_all
  show "owned h m1 (N ` trie_paths M)" using o KP by (simp add: owned_def m1)
qed

lemma grown_owned:
  assumes g: "grown m P N C Q D trie' m' N'" and o: "owned h m (N ` P)"
  shows "owned h m' (N' ` (P \<union> Q))"
  unfolding owned_def
proof
  fix b
  have g1: "\<forall>q \<in> P. N' q = N q" and g2: "\<forall>q \<in> Q - P. heap m (N' q) = None"
    and g3: "\<forall>b. b \<notin> N' ` (P \<union> Q) \<longrightarrow> heap m' b = heap m b" using g unfolding grown_def by simp_all
  have im: "N' ` P = N ` P" using g1 by (intro image_cong) simp_all
  have Pm: "h b = None" if "b \<in> N ` P" for b using o that by (simp add: owned_def)
  have all: "h b = None \<or> b \<notin> N ` P \<and> h b = heap m b" for b
    using o unfolding owned_def by (cases "b \<in> N ` P") simp_all
  show "h b = (if b \<in> N' ` (P \<union> Q) then None else heap m' b)"
  proof (cases "b \<in> N' ` (P \<union> Q)")
    case True
    then consider "b \<in> N' ` P" | "b \<in> N' ` (Q - P)" by blast
    then have "h b = None"
    proof cases
      case 1
      then have "b \<in> N ` P" unfolding im .
      then show ?thesis by (rule Pm)
    next
      case 2
      then obtain q where "b = N' q" "q \<in> Q - P" by blast
      then have "heap m b = None" using g2 by simp
      with all [of b] show ?thesis by auto
    qed
    with True show ?thesis by simp
  next
    case False
    then have "b \<notin> N' ` P" by blast
    then have "b \<notin> N ` P" unfolding im .
    with o have "h b = heap m b" by (simp add: owned_def)
    moreover have "heap m' b = heap m b" using g3 False by blast
    ultimately show ?thesis using False by simp
  qed
qed

lemma trie_insert_at_ok:
  assumes r: "trie_rep_at h trie m M N" and k: "key_of stop key n = Some K" and v: "v \<noteq> 0" and c: "card (dom M) + 1 < 2 ^ 32"
  shows "\<exists>ok trie' m'. trie_insert_at stop key n v (link (trie_paths M) N K) trie m = Some (ok, trie', m') \<and>
    (if ok then trie_rep h trie' m' (M(K \<mapsto> v)) else trie' = trie \<and> heap m' = heap m) \<and>
    (K \<in> dom M \<or> ample (Suc (length K)) m \<longrightarrow> ok)"
proof (cases "K \<in> dom M")
  case True
  note KP = trie_paths_dom [OF True]
  obtain m1 where m1: "m1 = m\<lparr>heap := (heap m)(N K \<mapsto> (node_for (trie_paths M) N (trie_hits M) (trie_vals M) K)\<lparr>tn_data := v\<rparr>)\<rparr>"
    by blast
  note st = trie_rep_store [OF r True m1]
  have "trie_insert_at stop key n v (link (trie_paths M) N K) trie m = Some (True, trie, m1)"
    using trie_rep_at_node(2) [OF r KP] trie_rep_at_node(3) [OF r, of K] True st(1) KP
    by (simp add: trie_insert_at_def link_in)
  moreover have "dom (M(K \<mapsto> v)) = dom M" using True by auto
  moreover note trie_same_dom [OF this]
  moreover have "0 \<notin> ran (M(K \<mapsto> v))" using r v by (auto simp: trie_rep_at_def ran_def)
  ultimately have "trie_rep h trie m1 (M(K \<mapsto> v))"
    using st(2,3) r unfolding trie_rep_def trie_rep_at_def by (intro exI [of _ N]) simp
  with \<open>trie_insert_at stop key n v (link (trie_paths M) N K) trie m = _\<close> show ?thesis by auto
next
  case False
  have t: "trie_at (heap m) (tr_root_node trie) (trie_paths M) N (trie_hits M) (trie_vals M)" and fin: "finite (dom M)"
    and o: "owned h m (N ` trie_paths M)" and z: "0 \<notin> ran M" using r by (simp_all add: trie_rep_at_def)
  have out: "\<forall>q. q \<notin> trie_paths M \<longrightarrow> trie_hits M q = 0 \<and> trie_vals M q = 0" using trie_outside by blast
  have "K = [] @ K" by simp
  from trie_insert_loop_ok [OF t reachable_simps(1) out k this, of v] obtain ok trie' m' where l:
    "trie_insert_loop stop v key n Trie_Root trie m = Some (ok, trie', m')"
    "insert_result m (trie_paths M) N (trie_hits M) (trie_vals M) [] K v ok trie' m'"
    "ample (Suc (length K)) m \<longrightarrow> ok" by auto
  have e: "trie_insert_at stop key n v (link (trie_paths M) N K) trie m =
      (if ok then Some (True, trie', m') else do { (trie, m) \<leftarrow> trie_insert_rollback trie' key m'; Some (False, trie, m) })"
    using trie_data_at(2) [OF r, of K] False l(1) by (simp add: trie_insert_at_def)
  show ?thesis
  proof (cases ok)
    case True
    with l(2) obtain N' where g: "grown m (trie_paths M) N (trie_hits M) {q. prefix q K} ((trie_vals M)(K := v)) trie' m' N'"
      unfolding insert_result_def span_all by auto
    have "card (dom (M(K \<mapsto> v))) < 2 ^ 32" using c fin False by simp
    moreover have "0 \<notin> ran (M(K \<mapsto> v))" using z v by (auto simp: ran_def)
    moreover have "trie_at (heap m') (tr_root_node trie') (trie_paths (M(K \<mapsto> v))) N' (trie_hits (M(K \<mapsto> v))) (trie_vals (M(K \<mapsto> v)))"
      using g unfolding grown_def trie_paths_insert trie_hits_insert [OF fin False] trie_vals_upd by blast
    moreover note grown_owned [OF g o, folded trie_paths_insert [of M K v]]
    ultimately have "trie_rep h trie' m' (M(K \<mapsto> v))"
      using fin unfolding trie_rep_def trie_rep_at_def by (intro exI [of _ N']) simp
    with e True show ?thesis by (intro exI [of _ True]) simp
  next
    case nok: False
    with l(2) obtain L N' where L: "L \<notin> trie_paths M" "prefix L K"
      and g: "grown m (trie_paths M) N (trie_hits M) (span [] L) (trie_vals M) trie' m' N'"
      unfolding insert_result_def by auto
    have b: "\<forall>q \<in> trie_paths M. 0 < trie_hits M q \<and> trie_hits M q + 1 < 2 ^ 32"
      using trie_hits_bounds [OF fin] c by (meson add_le_mono1 le_less_trans)
    have out0: "\<forall>q. q \<notin> trie_paths M \<longrightarrow> trie_hits M q = 0" using out by blast
    obtain rest where "key = K @ rest" using key_of_prefix [OF k] by blast
    with trie_insert_undo [OF t b out0 L g, of rest] e nok l(3) False show ?thesis by auto
  qed
qed



section \<open>Freeing a trie\<close>



definition children :: "byte list set \<Rightarrow> byte list \<Rightarrow> nat list \<Rightarrow> byte list list" where
  "children P p is = filter (\<lambda>q. q \<in> P) (map (\<lambda>i. p @ [of_nat i]) is)"

lemma children_simps [simp]: "children P p [] = []"
  "children P p (i # is) = (if p @ [of_nat i] \<in> P then (p @ [of_nat i]) # children P p is else children P p is)"
  by (simp_all add: children_def)














section \<open>The interface\<close>














lemma trie_insert_binary_ok:
  assumes r: "trie_rep h trie m M" and v: "v \<noteq> 0" and c: "card (dom M) + 1 < 2 ^ 32" and n: "n < length cs"
  shows "\<exists>ok trie' m'. trie_insert_binary trie cs n v m = Some (ok, trie', m') \<and>
    (if ok then trie_rep h trie' m' (M(take n cs \<mapsto> v)) else trie' = trie \<and> heap m' = heap m) \<and>
    (take n cs \<in> dom M \<or> ample (Suc n) m \<longrightarrow> ok)"
proof -
  obtain N where N: "trie_rep_at h trie m M N" using r by (auto simp: trie_rep_def)
  from trie_insert_at_ok [OF N key_of_binary [OF n] v c] trie_find_end_binary_ok [OF N, of n cs] v n show ?thesis
    by (simp add: trie_insert_binary_def)
qed






lemma trie_new_rep: "trie_new m = (Some trie, m') \<Longrightarrow> trie_rep (heap m) trie m' Map.empty"
  by (auto simp: trie_new_def malloc_block_def trie_rep_def trie_rep_at_def trie_at_def trie_paths_def link_def
      split: list.splits if_splits)







lemma insert_loop_needs_end:
  "key_of stop cs n = None \<Longrightarrow> trie_insert_loop stop v cs n rover trie m = Some (ok, s) \<Longrightarrow> \<not> ok"
proof (induction cs arbitrary: n rover trie m)
  case Nil
  then show ?case by (auto split: bind_splits if_splits)
next
  case (Cons c cs)
  then show ?case by (auto split: bind_splits if_splits)
qed

lemma key_of_binary_short: "length cs \<le> n \<Longrightarrow> key_of binary_stop cs n = None"
proof (induction cs arbitrary: n)
  case (Cons c cs)
  then show ?case by (cases n) (auto simp: binary_stop_def)
qed simp

lemma insert_at_needs_end:
  assumes "trie_rep_at h trie m M N" "K \<notin> dom M" "key_of stop cs n = None"
  shows "trie_insert_at stop cs n v (link (trie_paths M) N K) trie m \<noteq> Some (True, s)"
  using trie_data_at(2) [OF assms(1), of K] assms(2) insert_loop_needs_end [OF assms(3), of v Trie_Root trie m]
  by (auto simp: trie_insert_at_def split: bind_splits if_splits)




text \<open>\<open>trie_insert_binary\<close> reads the byte behind the key.  For a new key, given with exactly its
  \<open>key_length\<close> bytes, no call succeeds in the model, since the loop evaluates \<open>*p\<close> once more after
  the last byte; with any byte behind the key, and enough memory, the call succeeds.
\<close>

theorem trie_insert_binary_reads_behind_key:
  assumes "trie_rep h trie m M" "cs \<notin> dom M" "v \<noteq> 0" "card (dom M) + 1 < 2 ^ 32" "ample (Suc (length cs)) m"
  shows "trie_insert_binary trie cs (length cs) v m \<noteq> Some (True, s) \<and>
    (\<exists>s. trie_insert_binary trie (cs @ [c]) (length cs) v m = Some (True, s))"
proof
  obtain N where N: "trie_rep_at h trie m M N" using assms(1) by (auto simp: trie_rep_def)
  show "trie_insert_binary trie cs (length cs) v m \<noteq> Some (True, s)"
    using trie_find_end_binary_ok [OF N, of "length cs" cs]
      insert_at_needs_end [OF N assms(2) key_of_binary_short [OF order_refl]] assms(3)
    by (simp add: trie_insert_binary_def)
  show "\<exists>s. trie_insert_binary trie (cs @ [c]) (length cs) v m = Some (True, s)"
    using trie_insert_binary_ok [OF assms(1,3,4), of "length cs" "cs @ [c]"] assms(5) by auto
qed

section \<open>Witnesses\<close>

definition no_keys :: tmem where
  "no_keys = \<lparr>heap = (\<lambda>_. None), answers = [1, 10, 11, 12]\<rparr>"

definition no_keys' :: tmem where
  "no_keys' = \<lparr>heap = (\<lambda>_. None), answers = [10, 11, 12]\<rparr>"

lemma no_keys_new: "trie_new no_keys = (Some \<lparr>tr_root_node = 0\<rparr>, no_keys')"
  by (simp add: trie_new_def no_keys_def no_keys'_def malloc_block_def)

lemma no_keys_rep: "trie_rep (heap no_keys) \<lparr>tr_root_node = 0\<rparr> no_keys' Map.empty"
  using trie_new_rep [OF no_keys_new] .

lemma no_keys_ample: "ample 3 no_keys'"
  by (simp add: ample_def no_keys'_def)



theorem trie_insert_binary_reads_behind_key_witness:
  "trie_insert_binary \<lparr>tr_root_node = 0\<rparr> [1, 2] (length [1, 2 :: byte]) 7 no_keys' \<noteq> Some (True, (\<lparr>tr_root_node = 0\<rparr>, no_keys')) \<and>
    (\<exists>s. trie_insert_binary \<lparr>tr_root_node = 0\<rparr> ([1, 2] @ [3]) (length [1, 2 :: byte]) 7 no_keys' = Some (True, s))"
  by (rule trie_insert_binary_reads_behind_key [OF no_keys_rep]) (use no_keys_ample in \<open>simp_all add: numeral_3_eq_3\<close>)

end
