(* ===== verification/BinomialHeap.thy ===== *)
theory BinomialHeap
  imports PriorityQueue
begin

text \<open>
  The heap of \<open>libcalg/src/binomial-heap.c\<close>, every function of the file.  The trees share their
  subtrees and count the references to them.  The array of the subtrees of a tree is a list in
  its node; the array of the roots is a list of cells.
\<close>

section \<open>The code\<close>

record binomial_tree =
  bt_value :: val
  bt_order :: "16 word"
  bt_refcount :: "16 word"
  bt_subtrees :: "addr list"

record binomial_heap =
  bn_heap_type :: heap_type
  bn_compare_func :: "val \<Rightarrow> val \<Rightarrow> int"
  bn_num_values :: c_uint
  bn_roots :: "addr cells"
  bn_roots_length :: c_uint

type_synonym btmem = "binomial_tree mem"

definition binomial_heap_cmp :: "binomial_heap \<Rightarrow> val \<Rightarrow> val \<Rightarrow> int" where
  "binomial_heap_cmp hp data1 data2 =
     (if bn_heap_type hp = Heap_Min then bn_compare_func hp data1 data2
      else c_neg (bn_compare_func hp data1 data2))"

definition binomial_tree_ref :: "addr \<Rightarrow> btmem \<Rightarrow> btmem option" where
  "binomial_tree_ref tree m =
     (if tree \<noteq> 0
      then do { e \<leftarrow> load tree m; store tree (e\<lparr>bt_refcount := bt_refcount e + 1\<rparr>) m }
      else Some m)"

definition subtree_get :: "addr \<Rightarrow> nat \<Rightarrow> btmem \<Rightarrow> addr option" where
  "subtree_get tree i m = do {
     e \<leftarrow> load tree m;
     if i < length (bt_subtrees e) then Some (bt_subtrees e ! i) else None
   }"

text \<open>
  The loop over the subtrees of \<open>tree\<close>, from \<open>i\<close> on; the call of \<open>binomial_tree_unref\<close> in it is
  written out.
\<close>

partial_function (option) binomial_unref_subtrees :: "addr \<Rightarrow> nat \<Rightarrow> btmem \<Rightarrow> btmem option" where
  "binomial_unref_subtrees tree i m = do {
     e \<leftarrow> load tree m;
     if i < unat (bt_order e) then do {
       s \<leftarrow> subtree_get tree i m;
       m \<leftarrow> (if s = 0 then Some m
             else do {
               e \<leftarrow> load s m;
               m \<leftarrow> store s (e\<lparr>bt_refcount := bt_refcount e - 1\<rparr>) m;
               if bt_refcount e - 1 = 0
               then do { m \<leftarrow> binomial_unref_subtrees s 0 m; free s m }
               else Some m
             });
       binomial_unref_subtrees tree (i + 1) m
     }
     else Some m
   }"

definition binomial_tree_unref :: "addr \<Rightarrow> btmem \<Rightarrow> btmem option" where
  "binomial_tree_unref tree m =
     (if tree = 0 then Some m
      else do {
        e \<leftarrow> load tree m;
        m \<leftarrow> store tree (e\<lparr>bt_refcount := bt_refcount e - 1\<rparr>) m;
        if bt_refcount e - 1 = 0
        then do { m \<leftarrow> binomial_unref_subtrees tree 0 m; free tree m }
        else Some m
      })"

text \<open>A reference for each of the subtrees \<open>is\<close> of a tree.\<close>

primrec binomial_ref_subtrees :: "addr \<Rightarrow> nat list \<Rightarrow> btmem \<Rightarrow> btmem option" where
  "binomial_ref_subtrees tree [] m = Some m"
| "binomial_ref_subtrees tree (i # is) m = do {
     s \<leftarrow> subtree_get tree i m;
     m \<leftarrow> binomial_tree_ref s m;
     binomial_ref_subtrees tree is m
   }"

definition binomial_tree_merge :: "binomial_heap \<Rightarrow> addr \<Rightarrow> addr \<Rightarrow> btmem \<Rightarrow> (addr \<times> btmem) option" where
  "binomial_tree_merge hp tree1 tree2 m = do {
     e1 \<leftarrow> load tree1 m;
     e2 \<leftarrow> load tree2 m;
     let (tree1, tree2) =
       (if binomial_heap_cmp hp (bt_value e1) (bt_value e2) > 0 then (tree2, tree1) else (tree1, tree2));
     e \<leftarrow> load tree1 m;
     let (new_tree, m) =
       malloc \<lparr>bt_value = bt_value e, bt_order = bt_order e + 1, bt_refcount = 0, bt_subtrees = []\<rparr> m;
     if new_tree = 0 then Some (0, m)
     else do {
       let (ok, m) = malloc_block m;
       if \<not> ok then do { m \<leftarrow> free new_tree m; Some (0, m) }
       else if length (bt_subtrees e) < unat (bt_order e) then None
       else do {
         n \<leftarrow> load new_tree m;
         m \<leftarrow> store new_tree (n\<lparr>bt_subtrees := take (unat (bt_order e)) (bt_subtrees e) @ [tree2]\<rparr>) m;
         m \<leftarrow> binomial_ref_subtrees new_tree [0 ..< unat (bt_order n)] m;
         Some (new_tree, m)
       }
     }
   }"

text \<open>Dropping the references in the cells \<open>is\<close> of an array; a cell that is NULL is skipped.\<close>

primrec binomial_unref_cells :: "addr cells \<Rightarrow> nat list \<Rightarrow> btmem \<Rightarrow> btmem option" where
  "binomial_unref_cells roots [] m = Some m"
| "binomial_unref_cells roots (i # is) m = do {
     r \<leftarrow> array_get roots i;
     m \<leftarrow> binomial_tree_unref r m;
     binomial_unref_cells roots is m
   }"

definition binomial_heap_merge_undo :: "addr cells \<Rightarrow> nat \<Rightarrow> btmem \<Rightarrow> btmem option" where
  "binomial_heap_merge_undo new_roots last_index m = binomial_unref_cells new_roots [0 ..< last_index + 1] m"

text \<open>The value a heap contributes in step \<open>i\<close>, if any.\<close>

definition binomial_root :: "binomial_heap \<Rightarrow> nat \<Rightarrow> addr list option" where
  "binomial_root hp i =
     (if i < unat (bn_roots_length hp)
      then do { r \<leftarrow> array_get (bn_roots hp) i; Some (if r \<noteq> 0 then [r] else []) }
      else Some [])"

text \<open>
  The loop of the merge.  The result is the array of the new roots with its length, or none when
  an allocation failed.
\<close>

primrec binomial_merge_loop ::
  "binomial_heap \<Rightarrow> binomial_heap \<Rightarrow> nat list \<Rightarrow> addr cells \<Rightarrow> c_uint \<Rightarrow> addr \<Rightarrow> btmem \<Rightarrow>
   ((addr cells \<times> c_uint) option \<times> btmem) option"
where
  "binomial_merge_loop hp other [] new_roots new_roots_length carry m = Some (Some (new_roots, new_roots_length), m)"
| "binomial_merge_loop hp other (i # is) new_roots new_roots_length carry m = do {
     v1 \<leftarrow> binomial_root hp i;
     v2 \<leftarrow> binomial_root other i;
     let vals = v1 @ v2 @ (if carry \<noteq> 0 then [carry] else []);
     let num_vals = length vals;
     (new_roots, new_roots_length, m) \<leftarrow>
       (if odd num_vals then do {
          new_roots \<leftarrow> array_set new_roots i (vals ! (num_vals - 1));
          m \<leftarrow> binomial_tree_ref (vals ! (num_vals - 1)) m;
          Some (new_roots, of_nat (i + 1), m)
        }
        else do {
          new_roots \<leftarrow> array_set new_roots i 0;
          Some (new_roots, new_roots_length, m)
        });
     (new_carry, failed, m) \<leftarrow>
       (if 2 \<le> num_vals
        then do { (c, m) \<leftarrow> binomial_tree_merge hp (vals ! 0) (vals ! 1) m; Some (c, c = 0, m) }
        else Some (0, False, m));
     if failed then do {
       m \<leftarrow> binomial_heap_merge_undo new_roots i m;
       m \<leftarrow> binomial_tree_unref carry m;
       Some (None, m)
     }
     else do {
       m \<leftarrow> binomial_tree_unref carry m;
       m \<leftarrow> binomial_tree_ref new_carry m;
       binomial_merge_loop hp other is new_roots new_roots_length new_carry m
     }
   }"

definition binomial_heap_merge ::
  "binomial_heap \<Rightarrow> binomial_heap \<Rightarrow> btmem \<Rightarrow> (bool \<times> binomial_heap \<times> btmem) option"
where
  "binomial_heap_merge hp other m = (
     let maxlen = (if bn_roots_length hp > bn_roots_length other then bn_roots_length hp + 1 else bn_roots_length other + 1);
       (ok, m) = malloc_block m
     in if \<not> ok then Some (False, hp, m)
        else do {
          (r, m) \<leftarrow> binomial_merge_loop hp other [0 ..< unat maxlen] (array_new (unat maxlen)) 0 0 m;
          case r of
            None \<Rightarrow> Some (False, hp, m)
          | Some (new_roots, new_roots_length) \<Rightarrow> do {
              m \<leftarrow> binomial_unref_cells (bn_roots hp) [0 ..< unat (bn_roots_length hp)] m;
              Some (True, hp\<lparr>bn_roots := new_roots, bn_roots_length := new_roots_length\<rparr>, m)
            }
        })"



definition binomial_heap_insert ::
  "binomial_heap \<Rightarrow> val \<Rightarrow> btmem \<Rightarrow> (bool \<times> binomial_heap \<times> btmem) option"
where
  "binomial_heap_insert hp v m = (
     let (new_tree, m) = malloc \<lparr>bt_value = v, bt_order = 0, bt_refcount = 1, bt_subtrees = []\<rparr> m
     in if new_tree = 0 then Some (False, hp, m)
        else do {
          (result, hp, m) \<leftarrow>
            binomial_heap_merge hp
              \<lparr>bn_heap_type = bn_heap_type hp, bn_compare_func = bn_compare_func hp, bn_num_values = 1,
               bn_roots = [Some new_tree], bn_roots_length = 1\<rparr> m;
          let hp = (if result then hp\<lparr>bn_num_values := bn_num_values hp + 1\<rparr> else hp);
          m \<leftarrow> binomial_tree_unref new_tree m;
          Some (result, hp, m)
        })"

text \<open>The search for the root with the least value; \<open>least\<close> is \<open>UINT_MAX\<close> before one is found.\<close>

primrec binomial_least ::
  "binomial_heap \<Rightarrow> nat list \<Rightarrow> c_uint \<Rightarrow> btmem \<Rightarrow> c_uint option"
where
  "binomial_least hp [] least m = Some least"
| "binomial_least hp (i # is) least m = do {
     r \<leftarrow> array_get (bn_roots hp) i;
     if r = 0 then binomial_least hp is least m
     else do {
       better \<leftarrow>
         (if least = - 1 then Some True
          else do {
            e \<leftarrow> load r m;
            l \<leftarrow> array_get (bn_roots hp) (unat least);
            f \<leftarrow> load l m;
            Some (binomial_heap_cmp hp (bt_value e) (bt_value f) < 0)
          });
       binomial_least hp is (if better then of_nat i else least) m
     }
   }"

definition binomial_heap_pop :: "binomial_heap \<Rightarrow> btmem \<Rightarrow> (val \<times> binomial_heap \<times> btmem) option" where
  "binomial_heap_pop hp m =
     (if bn_num_values hp = 0 then Some (0, hp, m)
      else do {
        least_index \<leftarrow> binomial_least hp [0 ..< unat (bn_roots_length hp)] (- 1) m;
        least_tree \<leftarrow> array_get (bn_roots hp) (unat least_index);
        roots \<leftarrow> array_set (bn_roots hp) (unat least_index) 0;
        let hp = hp\<lparr>bn_roots := roots\<rparr>;
        t \<leftarrow> load least_tree m;
        (ok, hp, m) \<leftarrow>
          binomial_heap_merge hp
            \<lparr>bn_heap_type = bn_heap_type hp, bn_compare_func = bn_compare_func hp, bn_num_values = 0,
             bn_roots = map Some (bt_subtrees t), bn_roots_length = ucast (bt_order t)\<rparr> m;
        if ok then do {
          t \<leftarrow> load least_tree m;
          m \<leftarrow> binomial_tree_unref least_tree m;
          Some (bt_value t, hp\<lparr>bn_num_values := bn_num_values hp - 1\<rparr>, m)
        }
        else do {
          roots \<leftarrow> array_set (bn_roots hp) (unat least_index) least_tree;
          Some (0, hp\<lparr>bn_roots := roots\<rparr>, m)
        }
      })"


lemma binomial_heap_cmp_eq: "binomial_heap_cmp hp = heap_cmp (bn_heap_type hp) (bn_compare_func hp)"
  by (simp add: binomial_heap_cmp_def heap_cmp_def fun_eq_iff)

lemma binomial_unref_subtrees_eq:
  "binomial_unref_subtrees tree i m = do {
     e \<leftarrow> load tree m;
     if i < unat (bt_order e) then do {
       s \<leftarrow> subtree_get tree i m;
       m \<leftarrow> binomial_tree_unref s m;
       binomial_unref_subtrees tree (i + 1) m
     }
     else Some m
   }"
  unfolding binomial_tree_unref_def by (subst binomial_unref_subtrees.simps) (rule refl)


section \<open>Reference counts\<close>

text \<open>
  The nodes \<open>A\<close> are in use, and their reference counts are right: a node is counted once for
  each occurrence among the references \<open>R\<close> from outside and among the subtrees of the nodes.
\<close>

abbreviation subs :: "(addr \<rightharpoonup> binomial_tree) \<Rightarrow> addr \<Rightarrow> addr list" where
  "subs h a \<equiv> bt_subtrees (the (h a))"

abbreviation order_of :: "(addr \<rightharpoonup> binomial_tree) \<Rightarrow> addr \<Rightarrow> nat" where
  "order_of h a \<equiv> unat (bt_order (the (h a)))"

abbreviation refs_of :: "(addr \<rightharpoonup> binomial_tree) \<Rightarrow> addr \<Rightarrow> nat" where
  "refs_of h a \<equiv> unat (bt_refcount (the (h a)))"

definition edges :: "(addr \<rightharpoonup> binomial_tree) \<Rightarrow> addr set \<Rightarrow> addr multiset" where
  "edges h A = (\<Sum>b \<in> A. mset (subs h b))"

definition node_ok :: "(addr \<rightharpoonup> binomial_tree) \<Rightarrow> addr \<Rightarrow> bool" where
  "node_ok h a \<longleftrightarrow> a \<noteq> 0 \<and> h a \<noteq> None \<and> order_of h a = length (subs h a) \<and>
     (\<forall>i < length (subs h a). order_of h (subs h a ! i) = i)"

definition rc :: "(addr \<rightharpoonup> binomial_tree) \<Rightarrow> addr multiset \<Rightarrow> addr set \<Rightarrow> bool" where
  "rc h R A \<longleftrightarrow> finite A \<and> set_mset R \<subseteq> A \<and> (\<forall>a \<in> A. node_ok h a \<and> set (subs h a) \<subseteq> A) \<and>
     (\<forall>a \<in> A. 0 < refs_of h a \<and> refs_of h a = count (R + edges h A) a)"

lemma rcD:
  assumes "rc h R A"
  shows "finite A" "a \<in># R \<Longrightarrow> a \<in> A" "a \<in> A \<Longrightarrow> a \<noteq> 0" "a \<in> A \<Longrightarrow> \<exists>e. h a = Some e"
    "a \<in> A \<Longrightarrow> order_of h a = length (subs h a)" "a \<in> A \<Longrightarrow> set (subs h a) \<subseteq> A"
    "a \<in> A \<Longrightarrow> i < length (subs h a) \<Longrightarrow> order_of h (subs h a ! i) = i"
    "a \<in> A \<Longrightarrow> 0 < refs_of h a" "a \<in> A \<Longrightarrow> refs_of h a = count (R + edges h A) a"
  using assms by (auto simp: rc_def node_ok_def)

lemma count_edges: "count (edges h A) a = (\<Sum>b \<in> A. count (mset (subs h b)) a)"
  by (simp add: edges_def count_sum)

lemma edges_cong: "(\<And>b. b \<in> A \<Longrightarrow> subs h' b = subs h b) \<Longrightarrow> edges h' A = edges h A"
  by (simp add: edges_def)

lemma edges_insert: "finite A \<Longrightarrow> c \<notin> A \<Longrightarrow> edges h (insert c A) = mset (subs h c) + edges h A"
  by (simp add: edges_def)

lemma in_edges: "finite A \<Longrightarrow> a \<in># edges h A \<longleftrightarrow> (\<exists>b \<in> A. a \<in> set (subs h b))"
proof -
  assume f: "finite A"
  have "a \<in># edges h A \<longleftrightarrow> count (edges h A) a \<noteq> 0" by (simp add: count_eq_zero_iff)
  also have "\<dots> \<longleftrightarrow> (\<exists>b \<in> A. count (mset (subs h b)) a \<noteq> 0)"
    unfolding count_edges using f by (simp add: sum_eq_0_iff)
  finally show ?thesis by (simp add: count_eq_zero_iff)
qed

text \<open>What a node holds besides its reference count.\<close>

definition content :: "binomial_tree \<Rightarrow> val \<times> 16 word \<times> addr list" where
  "content e = (bt_value e, bt_order e, bt_subtrees e)"

definition kept :: "(addr \<rightharpoonup> binomial_tree) \<Rightarrow> (addr \<rightharpoonup> binomial_tree) \<Rightarrow> addr set \<Rightarrow> bool" where
  "kept h h' A \<longleftrightarrow> (\<forall>b \<in> A. map_option content (h' b) = map_option content (h b))"

lemma kept_refl [simp]: "kept h h A"
  by (simp add: kept_def)

lemma kept_trans: "kept h h1 A \<Longrightarrow> kept h1 h2 A \<Longrightarrow> kept h h2 A"
  by (simp add: kept_def)

lemma kept_mono: "kept h h' A \<Longrightarrow> B \<subseteq> A \<Longrightarrow> kept h h' B"
  by (auto simp: kept_def)

lemma keptD:
  assumes "kept h h' A" "b \<in> A" "h b = Some e"
  shows "\<exists>e'. h' b = Some e' \<and> bt_value e' = bt_value e \<and> bt_order e' = bt_order e \<and> bt_subtrees e' = bt_subtrees e"
  using assms by (auto simp: kept_def content_def dest!: bspec [of A _ b])

lemma kept_subs:
  assumes "kept h h' A" "b \<in> A" "h b \<noteq> None"
  shows "subs h' b = subs h b" "order_of h' b = order_of h b" "h' b \<noteq> None"
  using keptD [OF assms(1,2)] assms(3) by auto

lemma kept_upd: "h a = Some e \<Longrightarrow> content e' = content e \<Longrightarrow> kept h (h(a \<mapsto> e')) A"
  by (simp add: kept_def)

text \<open>A memory in which the counts are right and nothing else has changed is right again.\<close>

lemma rc_kept:
  assumes r: "rc h R A" and k: "kept h h' A" and R': "set_mset R' \<subseteq> A"
    and c: "\<And>a. a \<in> A \<Longrightarrow> 0 < refs_of h' a \<and> refs_of h' a = count (R' + edges h A) a"
  shows "rc h' R' A"
proof -
  have e: "edges h' A = edges h A"
    by (rule edges_cong) (use kept_subs(1) [OF k] rcD(4) [OF r] in auto)
  have "node_ok h' a \<and> set (subs h' a) \<subseteq> A" if a: "a \<in> A" for a
  proof -
    have n: "h a \<noteq> None" using rcD(4) [OF r a] by simp
    have "order_of h' (subs h' a ! i) = i" if i: "i < length (subs h a)" for i
    proof -
      have "subs h a ! i \<in> A" using rcD(6) [OF r a] i by (meson nth_mem subsetD)
      moreover from this have "h (subs h a ! i) \<noteq> None" using rcD(4) [OF r] by blast
      ultimately show ?thesis using rcD(7) [OF r a i] kept_subs [OF k] kept_subs(1) [OF k a n] by simp
    qed
    then show ?thesis
      using rcD(3,5,6) [OF r a] kept_subs [OF k a n] by (simp add: node_ok_def)
  qed
  then show ?thesis unfolding rc_def e using rcD(1) [OF r] R' c by blast
qed

text \<open>One more and one less reference to a node.\<close>

lemma binomial_ref_ok:
  assumes r: "rc (heap m) R A" and a: "a \<in> A" and c: "count (R + edges (heap m) A) a < 65535"
  shows "\<exists>m'. binomial_tree_ref a m = Some m' \<and> rc (heap m') (add_mset a R) A \<and> kept (heap m) (heap m') A \<and>
    (\<forall>b. b \<noteq> a \<longrightarrow> heap m' b = heap m b) \<and> answers m' = answers m"
proof -
  obtain e where e: "heap m a = Some e" using rcD(4) [OF r a] by blast
  let ?e = "e\<lparr>bt_refcount := bt_refcount e + 1\<rparr>" let ?m = "m\<lparr>heap := (heap m)(a \<mapsto> ?e)\<rparr>"
  have k: "kept (heap m) (heap ?m) A" by (simp add: kept_upd e content_def)
  have cnt: "unat (bt_refcount e) = count (R + edges (heap m) A) a" using rcD(9) [OF r a] e by simp
  then have "unat (bt_refcount e + 1) = unat (bt_refcount e) + 1" using c by (simp add: unat_word_ariths)
  then have "rc (heap ?m) (add_mset a R) A"
  proof (intro rc_kept [OF r k])
    show "set_mset (add_mset a R) \<subseteq> A" using rcD(2) [OF r] a by auto
    fix b assume b: "b \<in> A"
    assume s: "unat (bt_refcount e + 1) = unat (bt_refcount e) + 1"
    show "0 < refs_of (heap ?m) b \<and> refs_of (heap ?m) b = count (add_mset a R + edges (heap m) A) b"
      using rcD(8,9) [OF r b] cnt s by (cases "b = a") simp_all
  qed
  moreover have "binomial_tree_ref a m = Some ?m"
    using e rcD(3) [OF r a] by (simp add: binomial_tree_ref_def mem_simps)
  ultimately show ?thesis using k by auto
qed

lemma rc_drop:
  assumes r: "rc h (add_mset a R) A" and e: "h a = Some e" and c: "bt_refcount e \<noteq> 1"
  shows "rc (h(a \<mapsto> e\<lparr>bt_refcount := bt_refcount e - 1\<rparr>)) R A" "bt_refcount e - 1 \<noteq> 0"
proof -
  have a: "a \<in> A" using rcD(2) [OF r] by simp
  have pos: "0 < unat (bt_refcount e)" "unat (bt_refcount e) = Suc (count (R + edges h A) a)"
    using rcD(8,9) [OF r a] e by simp_all
  then have u: "unat (bt_refcount e - 1) = unat (bt_refcount e) - 1" by (intro unat_minus_one) auto
  have n1: "unat (bt_refcount e) \<noteq> 1" using c by (metis unat_1 unsigned_word_eqI)
  then show "bt_refcount e - 1 \<noteq> 0" using u pos(1) by auto
  show "rc (h(a \<mapsto> e\<lparr>bt_refcount := bt_refcount e - 1\<rparr>)) R A"
  proof (rule rc_kept [OF r])
    show "kept h (h(a \<mapsto> e\<lparr>bt_refcount := bt_refcount e - 1\<rparr>)) A" by (simp add: kept_upd e content_def)
    show "set_mset R \<subseteq> A" using rcD(2) [OF r] by auto
    fix b assume b: "b \<in> A"
    show "0 < refs_of (h(a \<mapsto> e\<lparr>bt_refcount := bt_refcount e - 1\<rparr>)) b \<and>
        refs_of (h(a \<mapsto> e\<lparr>bt_refcount := bt_refcount e - 1\<rparr>)) b = count (R + edges h A) b"
      using rcD(8,9) [OF r b] pos u n1 by (cases "b = a") auto
  qed
qed


text \<open>
  A node that loses its last reference leaves the nodes in use; the references to its subtrees
  are then references from outside.
\<close>

lemma rc_leave:
  assumes r: "rc h (add_mset a R) A" and e: "h a = Some e" and c: "bt_refcount e = 1"
  shows "rc (h(a \<mapsto> e\<lparr>bt_refcount := 0\<rparr>)) (R + mset (bt_subtrees e)) (A - {a})"
proof -
  let ?h = "h(a \<mapsto> e\<lparr>bt_refcount := 0\<rparr>)" let ?A = "A - {a}"
  have a: "a \<in> A" using rcD(2) [OF r] by simp
  note fin = rcD(1) [OF r]
  have "1 = count (add_mset a R + edges h A) a" using rcD(9) [OF r a] e c by simp
  then have "count R a = 0" "count (edges h A) a = 0" by simp_all
  then have nR: "a \<notin># R" and nE0: "a \<notin># edges h A" by (simp_all only: not_in_iff)
  have nE: "a \<notin> set (subs h b)" if "b \<in> A" for b using nE0 that unfolding in_edges [OF fin] by blast
  have eA: "edges h A = mset (bt_subtrees e) + edges h ?A"
    using edges_insert [of ?A a h] fin a e by (simp add: insert_absorb)
  have eA': "edges ?h ?A = edges h ?A" by (rule edges_cong) simp
  have old: "?h b = h b" if "b \<in> ?A" for b using that by simp
  have sub: "set (subs h b) \<subseteq> ?A" if "b \<in> A" for b using rcD(6) [OF r that] nE [OF that] by blast
  have "node_ok ?h b \<and> set (subs ?h b) \<subseteq> ?A" if b: "b \<in> ?A" for b
  proof -
    have "order_of ?h (subs h b ! i) = i" if i: "i < length (subs h b)" for i
    proof -
      have "subs h b ! i \<in> ?A" using sub b i by (meson DiffD1 nth_mem subsetD)
      with rcD(7) [OF r _ i] b old show ?thesis by simp
    qed
    then show ?thesis using rcD(3,4,5) [OF r, of b] b sub old by (auto simp: node_ok_def)
  qed
  moreover have "set_mset (R + mset (bt_subtrees e)) \<subseteq> ?A"
    using rcD(2) [OF r] nR sub [OF a] e by auto
  moreover have "0 < refs_of ?h b \<and> refs_of ?h b = count (R + mset (bt_subtrees e) + edges ?h ?A) b" if b: "b \<in> ?A" for b
    using rcD(8,9) [OF r, of b] b unfolding eA' eA by (simp add: old)
  ultimately show ?thesis unfolding rc_def using fin by blast
qed

text \<open>The converse: a node outside, whose subtrees are referenced for it, comes into use.\<close>

lemma rc_enter:
  assumes r: "rc h (R + mset (bt_subtrees e)) A" and a: "a \<notin> A" "a \<noteq> 0" and e: "h a = Some e"
    and o: "unat (bt_order e) = length (bt_subtrees e)" "\<forall>i < length (bt_subtrees e). order_of h (bt_subtrees e ! i) = i"
  shows "rc (h(a \<mapsto> e\<lparr>bt_refcount := 1\<rparr>)) (add_mset a R) (insert a A)"
proof -
  let ?h = "h(a \<mapsto> e\<lparr>bt_refcount := 1\<rparr>)" let ?A = "insert a A"
  note fin = rcD(1) [OF r]
  have old: "?h b = h b" if "b \<in> A" for b using that a by auto
  have eA: "edges ?h ?A = mset (bt_subtrees e) + edges h A"
  proof -
    have "edges ?h ?A = mset (subs ?h a) + edges ?h A" by (rule edges_insert [OF fin a(1)])
    moreover have "edges ?h A = edges h A" by (rule edges_cong) (use old in simp)
    ultimately show ?thesis by simp
  qed
  have se: "set (bt_subtrees e) \<subseteq> A" using rcD(2) [OF r] by auto
  have nRE: "a \<notin># R + mset (bt_subtrees e)" using rcD(2) [OF r] a by auto
  have nE: "a \<notin># edges h A" using in_edges [OF fin] rcD(6) [OF r] a(1) by auto
  have "node_ok ?h b \<and> set (subs ?h b) \<subseteq> ?A" if b: "b \<in> ?A" for b
  proof (cases "b = a")
    case True
    have "order_of ?h (bt_subtrees e ! i) = i" if "i < length (bt_subtrees e)" for i
    proof -
      have "bt_subtrees e ! i \<in> A" using se that nth_mem by blast
      then show ?thesis using old o(2) that by simp
    qed
    with True a o(1) se show ?thesis by (auto simp: node_ok_def)
  next
    case False
    with b have bA: "b \<in> A" by simp
    have "order_of ?h (subs h b ! i) = i" if i: "i < length (subs h b)" for i
    proof -
      have "subs h b ! i \<in> A" using rcD(6) [OF r bA] i by (meson nth_mem subsetD)
      with rcD(7) [OF r bA i] old show ?thesis by simp
    qed
    then show ?thesis using rcD(3,4,5,6) [OF r bA] old [OF bA] by (auto simp: node_ok_def)
  qed
  moreover have "set_mset (add_mset a R) \<subseteq> ?A" using rcD(2) [OF r] by auto
  moreover have "0 < refs_of ?h b \<and> refs_of ?h b = count (add_mset a R + edges ?h ?A) b" if b: "b \<in> ?A" for b
  proof (cases "b = a")
    case True
    have "count R a = 0" "count (mset (bt_subtrees e)) a = 0" "count (edges h A) a = 0"
      using nRE nE by (simp_all add: not_in_iff)
    with True show ?thesis unfolding eA by simp
  next
    case False
    with b rcD(8,9) [OF r, of b] show ?thesis unfolding eA by (simp add: old)
  qed
  ultimately show ?thesis unfolding rc_def using fin by blast
qed

section \<open>Dropping a reference\<close>

definition dropped :: "btmem \<Rightarrow> addr set \<Rightarrow> addr multiset \<Rightarrow> btmem \<Rightarrow> addr set \<Rightarrow> bool" where
  "dropped m A R m' A' \<longleftrightarrow> rc (heap m') R A' \<and> A' \<subseteq> A \<and> kept (heap m) (heap m') A' \<and>
     (\<forall>b. b \<notin> A \<longrightarrow> heap m' b = heap m b) \<and> (\<forall>b \<in> A - A'. heap m' b = None) \<and> answers m' = answers m"

lemma droppedD:
  assumes "dropped m A R m' A'"
  shows "rc (heap m') R A'" "A' \<subseteq> A" "kept (heap m) (heap m') A'" "b \<notin> A \<Longrightarrow> heap m' b = heap m b"
    "b \<in> A \<Longrightarrow> b \<notin> A' \<Longrightarrow> heap m' b = None" "answers m' = answers m"
  using assms by (auto simp: dropped_def)

lemma dropped_refl: "rc (heap m) R A \<Longrightarrow> dropped m A R m A"
  by (simp add: dropped_def)

lemma dropped_trans:
  assumes d: "dropped m A R1 m1 A1" "dropped m1 A1 R2 m2 A2"
  shows "dropped m A R2 m2 A2"
proof -
  have "heap m2 b = None" if "b \<in> A - A2" for b
  proof (cases "b \<in> A1")
    case True
    then show ?thesis using droppedD(5) [OF d(2)] that by simp
  next
    case False
    then show ?thesis using droppedD(4) [OF d(2) False] droppedD(5) [OF d(1)] that by simp
  qed
  moreover have "heap m2 b = heap m b" if "b \<notin> A" for b
    using droppedD(2,4) [OF d(1)] droppedD(4) [OF d(2)] that by (metis subsetD)
  moreover have "kept (heap m) (heap m2) A2"
    using kept_trans [OF kept_mono [OF droppedD(3) [OF d(1)] droppedD(2) [OF d(2)]] droppedD(3) [OF d(2)]] .
  ultimately show ?thesis unfolding dropped_def
    using droppedD(1,2,6) [OF d(2)] droppedD(2,6) [OF d(1)] by auto
qed

lemma subtree_get_ok: "a \<noteq> 0 \<Longrightarrow> heap m a = Some e \<Longrightarrow> i < length (bt_subtrees e) \<Longrightarrow> subtree_get a i m = Some (bt_subtrees e ! i)"
  by (simp add: subtree_get_def mem_simps)

text \<open>One reference, when the loop over the subtrees of a node of that order is right.\<close>

lemma unref_step:
  assumes r: "rc (heap m) (add_mset a R) A"
    and loop: "\<And>m R A e. heap m a = Some e \<Longrightarrow> a \<noteq> 0 \<Longrightarrow> a \<notin> A \<Longrightarrow> unat (bt_order e) = length (bt_subtrees e) \<Longrightarrow>
      length (bt_subtrees e) = k \<Longrightarrow>
      \<forall>i < length (bt_subtrees e). order_of (heap m) (bt_subtrees e ! i) = i \<Longrightarrow>
      rc (heap m) (R + mset (bt_subtrees e)) A \<Longrightarrow> \<exists>m' A'. binomial_unref_subtrees a 0 m = Some m' \<and> dropped m A R m' A'"
    and k: "order_of (heap m) a = k"
  shows "\<exists>m' A'. binomial_tree_unref a m = Some m' \<and> dropped m A R m' A'"
proof -
  have a: "a \<in> A" using rcD(2) [OF r] by simp
  then obtain e where e: "heap m a = Some e" "a \<noteq> 0" using rcD(3,4) [OF r] by blast
  let ?e = "e\<lparr>bt_refcount := bt_refcount e - 1\<rparr>" let ?m = "m\<lparr>heap := (heap m)(a \<mapsto> ?e)\<rparr>"
  show ?thesis
  proof (cases "bt_refcount e = 1")
    case False
    note d = rc_drop [OF r e(1) False]
    have "dropped m A R ?m A"
      using d(1) a by (auto simp: dropped_def kept_upd e(1) content_def)
    moreover have "binomial_tree_unref a m = Some ?m" using d(2) e by (simp add: binomial_tree_unref_def mem_simps)
    ultimately show ?thesis by blast
  next
    case True
    then have l: "rc (heap ?m) (R + mset (bt_subtrees ?e)) (A - {a})" using rc_leave [OF r e(1)] by simp
    have se: "set (subs (heap m) a) \<subseteq> A" using rcD(6) [OF r a] .
    have "\<forall>i < length (bt_subtrees ?e). order_of (heap ?m) (bt_subtrees ?e ! i) = i"
    proof -
      have "order_of (heap ?m) b = order_of (heap m) b" for b by (simp add: e(1))
      then show ?thesis using rcD(7) [OF r a] e(1) by simp
    qed
    moreover have "unat (bt_order ?e) = length (bt_subtrees ?e)" "length (bt_subtrees ?e) = k"
      using rcD(5) [OF r a] e(1) k by simp_all
    ultimately obtain m1 A1 where m1: "binomial_unref_subtrees a 0 ?m = Some m1" "dropped ?m (A - {a}) R m1 A1"
      using loop [of ?m ?e "A - {a}" R] l e(2) by auto
    have ha: "heap m1 a = Some ?e" using droppedD(4) [OF m1(2), of a] by simp
    let ?m2 = "m1\<lparr>heap := (heap m1)(a := None)\<rparr>"
    have aA1: "a \<notin> A1" using droppedD(2) [OF m1(2)] by blast
    have "rc (heap ?m2) R A1"
    proof (rule rc_kept [OF droppedD(1) [OF m1(2)]])
      show "kept (heap m1) (heap ?m2) A1" using aA1 by (auto simp: kept_def)
      show "set_mset R \<subseteq> A1" using rcD(2) [OF droppedD(1) [OF m1(2)]] by blast
      fix b assume "b \<in> A1"
      with rcD(8,9) [OF droppedD(1) [OF m1(2)] this] aA1
      show "0 < refs_of (heap ?m2) b \<and> refs_of (heap ?m2) b = count (R + edges (heap m1) A1) b" by auto
    qed
    moreover have "kept (heap m) (heap ?m2) A1"
      using droppedD(3) [OF m1(2)] aA1 by (auto simp: kept_def)
    moreover have "heap ?m2 b = heap m b" if "b \<notin> A" for b
      using droppedD(4) [OF m1(2), of b] that a by auto
    moreover have "heap ?m2 b = None" if "b \<in> A - A1" for b
      using droppedD(5) [OF m1(2), of b] that by auto
    ultimately have "dropped m A R ?m2 A1"
      using droppedD(2,6) [OF m1(2)] by (auto simp: dropped_def)
    moreover have "binomial_tree_unref a m = Some ?m2"
      using e m1(1) True ha by (simp add: binomial_tree_unref_def mem_simps)
    ultimately show ?thesis by blast
  qed
qed


lemma unref_subtrees_ok:
  "heap m a = Some e \<Longrightarrow> a \<noteq> 0 \<Longrightarrow> a \<notin> A \<Longrightarrow> unat (bt_order e) = length (bt_subtrees e) \<Longrightarrow> length (bt_subtrees e) = k \<Longrightarrow>
   \<forall>j < length (bt_subtrees e). i \<le> j \<longrightarrow> order_of (heap m) (bt_subtrees e ! j) = j \<Longrightarrow>
   rc (heap m) (R + mset (drop i (bt_subtrees e))) A \<Longrightarrow>
   \<exists>m' A'. binomial_unref_subtrees a i m = Some m' \<and> dropped m A R m' A'"
proof (induction k arbitrary: a e i m R A rule: less_induct)
  case (less k)
  from less.prems show ?case
  proof (induction "k - i" arbitrary: i m R A)
    case 0
    then have "binomial_unref_subtrees a i m = Some m" "R + mset (drop i (bt_subtrees e)) = R"
      by (simp_all add: binomial_unref_subtrees_eq [of a i] mem_simps)
    with 0 dropped_refl [of m R A] show ?case by auto
  next
    case (Suc d)
    then have i: "i < length (bt_subtrees e)" "i < k" by simp_all
    let ?s = "bt_subtrees e ! i" let ?R = "R + mset (drop (Suc i) (bt_subtrees e))"
    have "drop i (bt_subtrees e) = ?s # drop (Suc i) (bt_subtrees e)" using i(1) by (simp add: Cons_nth_drop_Suc)
    then have r: "rc (heap m) (add_mset ?s ?R) A" using Suc.prems(7) by simp
    have o: "order_of (heap m) ?s = i" using Suc.prems(6) i(1) by simp
    have "\<exists>m' A'. binomial_tree_unref ?s m = Some m' \<and> dropped m A ?R m' A'"
    proof (rule unref_step [OF r _ o])
      fix m :: btmem and R A e
      assume "heap m ?s = Some e" "?s \<noteq> 0" "?s \<notin> A" "unat (bt_order e) = length (bt_subtrees e)" "length (bt_subtrees e) = i"
        "\<forall>i < length (bt_subtrees e). order_of (heap m) (bt_subtrees e ! i) = i" "rc (heap m) (R + mset (bt_subtrees e)) A"
      then show "\<exists>m' A'. binomial_unref_subtrees ?s 0 m = Some m' \<and> dropped m A R m' A'"
        by (intro less.IH [OF i(2)]) simp_all
    qed
    then obtain m1 A1 where m1: "binomial_tree_unref ?s m = Some m1" "dropped m A ?R m1 A1" by blast
    have a1: "heap m1 a = Some e" using droppedD(4) [OF m1(2) Suc.prems(3)] Suc.prems(1) by simp
    have a2: "a \<notin> A1" using droppedD(2) [OF m1(2)] Suc.prems(3) by blast
    have ord: "\<forall>j < length (bt_subtrees e). Suc i \<le> j \<longrightarrow> order_of (heap m1) (bt_subtrees e ! j) = j"
    proof (intro allI impI)
      fix j assume j: "j < length (bt_subtrees e)" "Suc i \<le> j"
      have "bt_subtrees e ! j \<in> set (drop (Suc i) (bt_subtrees e))"
        using j by (auto simp: in_set_conv_nth intro!: exI [of _ "j - Suc i"])
      then have A1: "bt_subtrees e ! j \<in> A1" using rcD(2) [OF droppedD(1) [OF m1(2)]] by auto
      then have "heap m (bt_subtrees e ! j) \<noteq> None" using droppedD(2) [OF m1(2)] rcD(4) [OF r] by blast
      from kept_subs(2) [OF droppedD(3) [OF m1(2)] A1 this] Suc.prems(6) j
      show "order_of (heap m1) (bt_subtrees e ! j) = j" by simp
    qed
    have "d = k - Suc i" using Suc.hyps(2) by simp
    from Suc.hyps(1) [OF this a1 Suc.prems(2) a2 Suc.prems(4,5) ord droppedD(1) [OF m1(2)]] obtain m' A' where
      m': "binomial_unref_subtrees a (Suc i) m1 = Some m'" "dropped m1 A1 R m' A'" by blast
    have "binomial_unref_subtrees a i m = Some m'"
      using Suc.prems(1,2,4) i(1) subtree_get_ok [OF Suc.prems(2,1) i(1)] m1(1) m'(1)
      by (simp add: binomial_unref_subtrees_eq [of a i] mem_simps)
    with dropped_trans [OF m1(2) m'(2)] show ?case by blast
  qed
qed

lemma binomial_tree_unref_ok:
  assumes "rc (heap m) (add_mset a R) A"
  shows "\<exists>m' A'. binomial_tree_unref a m = Some m' \<and> dropped m A R m' A'"
  by (rule unref_step [OF assms _ refl]) (rule unref_subtrees_ok; simp)

lemma unref_null [simp]: "binomial_tree_unref 0 m = Some m"
  by (simp add: binomial_tree_unref_def)

lemma ref_null [simp]: "binomial_tree_ref 0 m = Some m"
  by (simp add: binomial_tree_ref_def)

text \<open>The cells of an array, where NULL stands for no reference.\<close>

definition links :: "addr list \<Rightarrow> addr multiset" where
  "links ps = mset (filter (\<lambda>p. p \<noteq> 0) ps)"

lemma links_simps [simp]: "links [] = {#}" "links (p # ps) = (if p = 0 then links ps else add_mset p (links ps))"
  "links (ps @ qs) = links ps + links qs"
  by (simp_all add: links_def)

lemma binomial_unref_cells_ok:
  "rc (heap m) (R + links (map (\<lambda>i. ps ! i) is)) A \<Longrightarrow> holds arr ps \<Longrightarrow> \<forall>i \<in> set is. i < length ps \<Longrightarrow>
   \<exists>m' A'. binomial_unref_cells arr is m = Some m' \<and> dropped m A R m' A'"
proof (induction "is" arbitrary: m A)
  case Nil
  then show ?case using dropped_refl by auto
next
  case (Cons i "is")
  let ?R = "R + links (map (\<lambda>i. ps ! i) is)"
  have get: "array_get arr i = Some (ps ! i)" using holds_get [OF Cons.prems(2)] Cons.prems(3) by simp
  have "\<exists>m1 A1. binomial_tree_unref (ps ! i) m = Some m1 \<and> dropped m A ?R m1 A1"
  proof (cases "ps ! i = 0")
    case True
    with Cons.prems(1) dropped_refl show ?thesis by auto
  next
    case False
    with Cons.prems(1) binomial_tree_unref_ok show ?thesis by simp
  qed
  then obtain m1 A1 where m1: "binomial_tree_unref (ps ! i) m = Some m1" "dropped m A ?R m1 A1" by blast
  from Cons.IH [OF droppedD(1) [OF m1(2)] Cons.prems(2)] Cons.prems(3) obtain m' A' where
    "binomial_unref_cells arr is m1 = Some m'" "dropped m1 A1 R m' A'" by auto
  with get m1(1) dropped_trans [OF m1(2)] show ?case by auto
qed

lemma map_nth_upt: "n \<le> length ps \<Longrightarrow> map (\<lambda>i. ps ! i) [0 ..< n] = take n ps"
  by (rule nth_equalityI) simp_all



section \<open>Trees\<close>

text \<open>A binomial tree as a value, with the address of each of its nodes.\<close>

datatype btree = Binom (tr_at: addr) (tr_value: val) (tr_kids: "btree list")

fun binom_at :: "(addr \<rightharpoonup> binomial_tree) \<Rightarrow> btree \<Rightarrow> bool" where
  "binom_at h (Binom a v ts) \<longleftrightarrow> a \<noteq> 0 \<and>
     (\<exists>e. h a = Some e \<and> bt_value e = v \<and> bt_subtrees e = map tr_at ts \<and> unat (bt_order e) = length ts) \<and>
     (\<forall>t \<in> set ts. binom_at h t)"

primrec nodes :: "btree \<Rightarrow> addr multiset" where
  "nodes (Binom a v ts) = add_mset a (sum_list (map nodes ts))"

primrec vals :: "btree \<Rightarrow> val multiset" where
  "vals (Binom a v ts) = add_mset v (sum_list (map vals ts))"

fun binom_ok :: "(val \<Rightarrow> val \<Rightarrow> int) \<Rightarrow> btree \<Rightarrow> bool" where
  "binom_ok c (Binom a v ts) \<longleftrightarrow> (\<forall>i < length ts. length (tr_kids (ts ! i)) = i) \<and>
     (\<forall>t \<in> set ts. c v (tr_value t) \<le> 0 \<and> binom_ok c t)"

definition nodes_of :: "btree multiset \<Rightarrow> addr multiset" where
  "nodes_of T = sum_mset (image_mset nodes T)"

lemma nodes_of_simps [simp]: "nodes_of {#} = {#}" "nodes_of (add_mset t T) = nodes t + nodes_of T"
  "nodes_of (S + T) = nodes_of S + nodes_of T" "nodes_of (mset ts) = sum_list (map nodes ts)"
  by (simp_all add: nodes_of_def flip: sum_mset_sum_list)

lemma root_in_nodes: "tr_at t \<in># nodes t"
  by (cases t) simp

lemma binom_at_root: "binom_at h t \<Longrightarrow> tr_at t \<noteq> 0"
  by (cases t) simp

lemma binom_at_node:
  "binom_at h t \<Longrightarrow> \<exists>e. h (tr_at t) = Some e \<and> bt_value e = tr_value t \<and> bt_subtrees e = map tr_at (tr_kids t) \<and>
     unat (bt_order e) = length (tr_kids t)"
  by (cases t) auto

lemma binom_at_kid: "binom_at h t \<Longrightarrow> s \<in> set (tr_kids t) \<Longrightarrow> binom_at h s"
  by (cases t) auto

lemma binom_at_keep:
  "binom_at h t \<Longrightarrow> kept h h' A \<Longrightarrow> rc h' R A \<Longrightarrow> tr_at t \<in> A \<Longrightarrow> binom_at h' t"
proof (induction t)
  case (Binom a v ts)
  then obtain e where e: "h a = Some e" "bt_value e = v" "bt_subtrees e = map tr_at ts" "unat (bt_order e) = length ts" by auto
  have a: "a \<in> A" using Binom.prems(4) by simp
  from keptD [OF Binom.prems(2) a e(1)] obtain e' where e': "h' a = Some e'" "bt_value e' = bt_value e"
    "bt_order e' = bt_order e" "bt_subtrees e' = bt_subtrees e" by blast
  have "set (map tr_at ts) \<subseteq> A" using rcD(6) [OF Binom.prems(3) a] e e' by simp
  then have "\<forall>t \<in> set ts. binom_at h' t" using Binom.IH Binom.prems by auto
  then show ?case using e e' Binom.prems(1) by simp
qed

lemma nodes_in:
  "binom_at h t \<Longrightarrow> rc h R A \<Longrightarrow> tr_at t \<in> A \<Longrightarrow> set_mset (nodes t) \<subseteq> A"
proof (induction t)
  case (Binom a v ts)
  then have "set (map tr_at ts) \<subseteq> A" using rcD(6) [OF Binom.prems(2), of a] by auto
  then have "\<forall>t \<in> set ts. set_mset (nodes t) \<subseteq> A" using Binom.IH Binom.prems(1,2) by auto
  then show ?case using Binom.prems(3) by (auto simp: set_mset_sum_list)
qed

subsection \<open>References are bounded by the paths\<close>

text \<open>How often a node occurs in a tree: once as the root, and once for each of its parents.\<close>

lemma paths_eq:
  assumes "finite A"
  shows "binom_at h t \<Longrightarrow> set_mset (nodes t) \<subseteq> A \<Longrightarrow>
    count (nodes t) a = (if tr_at t = a then 1 else 0) + (\<Sum>b \<in> A. count (nodes t) b * count (mset (subs h b)) a)"
proof (induction t)
  case (Binom r v ts)
  let ?e = "\<lambda>b. count (mset (subs h b)) a"
  have sub: "\<forall>t \<in> set ts. set_mset (nodes t) \<subseteq> A" "r \<in> A" using Binom.prems(2) by (auto simp: set_mset_sum_list)
  have IH: "count (nodes t) a = (if tr_at t = a then 1 else 0) + (\<Sum>b \<in> A. count (nodes t) b * ?e b)" if "t \<in> set ts" for t
    using Binom.IH [OF that] Binom.prems(1) sub that by simp
  have er: "?e r = (\<Sum>t \<leftarrow> ts. if tr_at t = a then 1 else 0)"
  proof -
    have "subs h r = map tr_at ts" using Binom.prems(1) by auto
    moreover have "count (mset (map tr_at ts)) a = (\<Sum>t \<leftarrow> ts. if tr_at t = a then 1 else 0)" by (induction ts) simp_all
    ultimately show ?thesis by simp
  qed
  have cs: "count (sum_list (map nodes ts)) b = (\<Sum>t \<leftarrow> ts. count (nodes t) b)" for b by (induction ts) auto
  have "(\<Sum>b \<in> A. count (nodes (Binom r v ts)) b * ?e b) = (\<Sum>b \<in> A. (if b = r then ?e b else 0) + (\<Sum>t \<leftarrow> ts. count (nodes t) b) * ?e b)"
    by (rule sum.cong) (auto simp: cs algebra_simps)
  also have "\<dots> = ?e r + (\<Sum>b \<in> A. (\<Sum>t \<leftarrow> ts. count (nodes t) b) * ?e b)"
    using assms sub(2) by (simp add: sum.distrib sum.delta)
  also have "(\<Sum>b \<in> A. (\<Sum>t \<leftarrow> ts. count (nodes t) b) * ?e b) = (\<Sum>t \<leftarrow> ts. \<Sum>b \<in> A. count (nodes t) b * ?e b)"
    by (induction ts) (simp_all add: algebra_simps sum.distrib)
  finally have "(\<Sum>b \<in> A. count (nodes (Binom r v ts)) b * ?e b) =
      (\<Sum>t \<leftarrow> ts. if tr_at t = a then 1 else 0) + (\<Sum>t \<leftarrow> ts. \<Sum>b \<in> A. count (nodes t) b * ?e b)" unfolding er .
  also have "\<dots> = (\<Sum>t \<leftarrow> ts. count (nodes t) a)"
    using IH by (simp add: sum_list_addf [symmetric] cong: map_cong)
  finally show ?case by (simp add: cs)
qed

lemma refs_bound:
  assumes r: "rc h (image_mset tr_at T) A" and T: "\<forall>t \<in># T. binom_at h t"
  shows "a \<in> A \<Longrightarrow> refs_of h a \<le> count (nodes_of T) a"
proof -
  let ?N = "\<lambda>a. count (nodes_of T) a"
  have fin: "finite A" using rcD(1) [OF r] .
  have sub: "\<forall>t \<in># T. set_mset (nodes t) \<subseteq> A" using nodes_in [OF _ r] T rcD(2) [OF r] by auto
  have eq: "?N a = count (image_mset tr_at T) a + (\<Sum>b \<in> A. ?N b * count (mset (subs h b)) a)" for a
    using T sub
  proof (induction T)
    case (add t T)
    then show ?case using paths_eq [OF fin, of h t a] by (simp add: algebra_simps sum.distrib)
  qed simp
  have bound: "refs_of h a \<le> ?N a" if "a \<in> A" "\<forall>b \<in> A. a \<in> set (subs h b) \<longrightarrow> 1 \<le> ?N b" for a
  proof -
    have "count (edges h A) a \<le> (\<Sum>b \<in> A. ?N b * count (mset (subs h b)) a)"
      unfolding count_edges
    proof (rule sum_mono)
      fix b assume b: "b \<in> A"
      show "count (mset (subs h b)) a \<le> ?N b * count (mset (subs h b)) a"
      proof (cases "a \<in> set (subs h b)")
        case True
        with that(2) b have "1 \<le> ?N b" by blast
        then show ?thesis by (cases "?N b") simp_all
      next
        case False
        then have "count (mset (subs h b)) a = 0" by (simp add: count_eq_zero_iff)
        then show ?thesis by simp
      qed
    qed
    with rcD(9) [OF r that(1)] eq [of a] show ?thesis by simp
  qed
  let ?K = "Max (order_of h ` A)"
  have pos: "1 \<le> ?N a" if "a \<in> A" for a
    using that
  proof (induction "?K - order_of h a" arbitrary: a rule: less_induct)
    case less
    have "\<forall>b \<in> A. a \<in> set (subs h b) \<longrightarrow> 1 \<le> ?N b"
    proof (intro ballI impI)
      fix b assume b: "b \<in> A" "a \<in> set (subs h b)"
      then obtain i where i: "i < length (subs h b)" "subs h b ! i = a" by (auto simp: in_set_conv_nth)
      have "order_of h a < order_of h b" using rcD(5,7) [OF r b(1)] i by auto
      moreover have "order_of h b \<le> ?K" using fin b(1) by simp
      ultimately show "1 \<le> ?N b" using less.hyps [of b] b(1) by simp
    qed
    from bound [OF less.prems this] rcD(8) [OF r less.prems] show ?case by linarith
  qed
  show "a \<in> A \<Longrightarrow> refs_of h a \<le> count (nodes_of T) a" using bound pos by blast
qed


section \<open>The memory of a heap\<close>

text \<open>
  The references are those to the roots of the trees \<open>T\<close>, the nodes \<open>A\<close> are in use, the cells
  \<open>Z\<close> are allocated but not yet, or no longer, counted, and the rest of the memory is \<open>h\<close>.
\<close>

definition trees ::
  "(addr \<rightharpoonup> binomial_tree) \<Rightarrow> btmem \<Rightarrow> btree multiset \<Rightarrow> addr set \<Rightarrow> addr set \<Rightarrow> bool"
where
  "trees h m T A Z \<longleftrightarrow> rc (heap m) (image_mset tr_at T) A \<and> (\<forall>t \<in># T. binom_at (heap m) t) \<and>
     owned h m (A \<union> Z) \<and> Z \<inter> A = {}"

lemma treesD:
  assumes "trees h m T A Z"
  shows "rc (heap m) (image_mset tr_at T) A" "t \<in># T \<Longrightarrow> binom_at (heap m) t" "owned h m (A \<union> Z)" "Z \<inter> A = {}"
    "t \<in># T \<Longrightarrow> tr_at t \<in> A" "t \<in># T \<Longrightarrow> set_mset (nodes t) \<subseteq> A"
proof -
  show *: "rc (heap m) (image_mset tr_at T) A" and **: "t \<in># T \<Longrightarrow> binom_at (heap m) t"
    and "owned h m (A \<union> Z)" "Z \<inter> A = {}" using assms by (simp_all add: trees_def)
  show ***: "t \<in># T \<Longrightarrow> tr_at t \<in> A" using rcD(2) [OF *] by simp
  then show "t \<in># T \<Longrightarrow> set_mset (nodes t) \<subseteq> A" using nodes_in [OF ** *] by blast
qed

text \<open>An operation that neither allocates nor changes a cell outside \<open>A\<close>.\<close>

definition quiet :: "btmem \<Rightarrow> addr set \<Rightarrow> btmem \<Rightarrow> bool" where
  "quiet m A m' \<longleftrightarrow> answers m' = answers m \<and> (\<forall>b. b \<notin> A \<longrightarrow> heap m' b = heap m b)"

lemma quiet_refl [simp]: "quiet m A m"
  by (simp add: quiet_def)

lemma quiet_trans: "quiet m A m1 \<Longrightarrow> quiet m1 B m2 \<Longrightarrow> B \<subseteq> A \<Longrightarrow> quiet m A m2"
  by (auto simp: quiet_def)

lemma quiet_ample:
  assumes "quiet m A m'" "ample n m" "A \<subseteq> dom (heap m)"
  shows "ample n m'"
proof (rule ample_keep [OF assms(2)])
  show "answers m' = answers m" using assms(1) by (simp add: quiet_def)
  fix b assume "heap m b = None"
  then have "b \<notin> A" using assms(3) by auto
  with assms(1) \<open>heap m b = None\<close> show "heap m' b = None" by (simp add: quiet_def)
qed

lemma rc_dom: "rc h R A \<Longrightarrow> A \<subseteq> dom h"
  using rcD(4) by blast

lemma trees_dom: "trees h m T A Z \<Longrightarrow> A \<subseteq> dom (heap m)"
  using treesD(1) rc_dom by blast

lemma dropped_trees:
  assumes t: "trees h m (S + T) A Z" and d: "dropped m A (image_mset tr_at T) m' A'"
  shows "trees h m' T A' Z" "quiet m A m'" "A' \<subseteq> A"
proof -
  show "quiet m A m'" "A' \<subseteq> A" using droppedD [OF d] by (simp_all add: quiet_def)
  have "owned h m' (A' \<union> Z)"
    unfolding owned_def
  proof
    fix b
    show "h b = (if b \<in> A' \<union> Z then None else heap m' b)"
      using treesD(3) [OF t] droppedD(2) [OF d] droppedD(4,5) [OF d, of b]
        unfolding owned_def by (cases "b \<in> A") auto
  qed
  moreover have "binom_at (heap m') t" if "t \<in># T" for t
  proof (rule binom_at_keep [OF _ droppedD(3,1) [OF d]])
    show "binom_at (heap m) t" using treesD(2) [OF t] that by simp
    show "tr_at t \<in> A'" using rcD(2) [OF droppedD(1) [OF d]] that by simp
  qed
  ultimately show "trees h m' T A' Z"
    using droppedD(1,2) [OF d] treesD(4) [OF t] by (auto simp: trees_def)
qed

lemma unref_trees:
  assumes "trees h m (add_mset t T) A Z"
  shows "\<exists>m' A'. binomial_tree_unref (tr_at t) m = Some m' \<and> trees h m' T A' Z \<and> quiet m A m' \<and> A' \<subseteq> A"
proof -
  have "rc (heap m) (add_mset (tr_at t) (image_mset tr_at T)) A" using treesD(1) [OF assms] by simp
  from binomial_tree_unref_ok [OF this] obtain m' A' where
    "binomial_tree_unref (tr_at t) m = Some m'" "dropped m A (image_mset tr_at T) m' A'" by blast
  with dropped_trees [of h m "{#t#}" T A Z m' A'] assms show ?thesis by auto
qed

text \<open>The trees that are reached from the trees \<open>T\<close>.\<close>

definition reached :: "btree multiset \<Rightarrow> btree \<Rightarrow> bool" where
  "reached T t \<longleftrightarrow> t \<in># T \<or> (\<exists>s \<in># T. t \<in> set (tr_kids s))"

lemma reached_mono: "reached S t \<Longrightarrow> S \<subseteq># T \<Longrightarrow> reached T t"
  unfolding reached_def by (meson mset_subset_eqD)

lemma reached_at:
  assumes t: "trees h m T A Z" and r: "reached T s"
  shows "binom_at (heap m) s" "tr_at s \<in> A" "set_mset (nodes s) \<subseteq> A"
proof -
  show *: "binom_at (heap m) s" using r treesD(2) [OF t] binom_at_kid by (auto simp: reached_def)
  show **: "tr_at s \<in> A"
  proof (cases "s \<in># T")
    case True
    then show ?thesis by (rule treesD(5) [OF t])
  next
    case False
    then obtain u where u: "u \<in># T" "s \<in> set (tr_kids u)" using r by (auto simp: reached_def)
    then have "tr_at s \<in># nodes u" using root_in_nodes [of s] by (cases u) (auto simp: set_mset_sum_list)
    then show ?thesis using treesD(6) [OF t u(1)] by blast
  qed
  show "set_mset (nodes s) \<subseteq> A" by (rule nodes_in [OF * treesD(1) [OF t] **])
qed

definition at_most :: "nat \<Rightarrow> btree multiset \<Rightarrow> bool" where
  "at_most k T \<longleftrightarrow> (\<forall>a. count (nodes_of T) a \<le> k)"

lemma at_most_add: "at_most k S \<Longrightarrow> at_most l T \<Longrightarrow> at_most (k + l) (S + T)"
  by (simp add: at_most_def add_le_mono)

lemma at_most_mono: "at_most k T \<Longrightarrow> k \<le> l \<Longrightarrow> at_most l T"
  unfolding at_most_def by (meson le_trans)

lemma nodes_of_mono: "S \<subseteq># T \<Longrightarrow> nodes_of S \<subseteq># nodes_of T"
  unfolding nodes_of_def by (auto simp: mset_subset_eq_exists_conv)

lemma at_most_sub: "at_most k T \<Longrightarrow> nodes_of S \<subseteq># nodes_of T \<Longrightarrow> at_most k S"
  unfolding at_most_def by (meson le_trans mset_subset_eq_count)

lemma ref_trees:
  assumes t: "trees h m T A Z" and s: "binom_at (heap m) s" "tr_at s \<in> A" and k: "at_most 65534 T"
  shows "\<exists>m'. binomial_tree_ref (tr_at s) m = Some m' \<and> trees h m' (add_mset s T) A Z \<and> quiet m A m' \<and> kept (heap m) (heap m') A"
proof -
  note r = treesD(1) [OF t]
  have "count (image_mset tr_at T + edges (heap m) A) (tr_at s) = refs_of (heap m) (tr_at s)" using rcD(9) [OF r s(2)] by simp
  also have "\<dots> \<le> count (nodes_of T) (tr_at s)" by (rule refs_bound [OF r _ s(2)]) (use treesD(2) [OF t] in blast)
  also have "\<dots> \<le> 65534" using k unfolding at_most_def by (rule spec)
  also have "\<dots> < (65535 :: nat)" by simp
  finally obtain m' where m': "binomial_tree_ref (tr_at s) m = Some m'" "rc (heap m') (add_mset (tr_at s) (image_mset tr_at T)) A"
    "kept (heap m) (heap m') A" "\<forall>b. b \<noteq> tr_at s \<longrightarrow> heap m' b = heap m b" "answers m' = answers m"
    using binomial_ref_ok [OF r s(2)] by blast
  have "owned h m' (A \<union> Z)" using treesD(3) [OF t] m'(4) s(2) unfolding owned_def by (metis UnI1)
  moreover have "binom_at (heap m') u" if "u \<in># add_mset s T" for u
  proof (rule binom_at_keep [OF _ m'(3,2)])
    show "binom_at (heap m) u" "tr_at u \<in> A" using that s treesD(2,5) [OF t] by auto
  qed
  ultimately have "trees h m' (add_mset s T) A Z" using m'(2) treesD(4) [OF t] by (auto simp: trees_def)
  moreover have "quiet m A m'" using m'(4,5) s(2) unfolding quiet_def by metis
  ultimately show ?thesis using m'(1,3) by blast
qed

lemma ref_subtrees_trees:
  assumes c: "c \<noteq> 0" "c \<notin> A" "bt_subtrees e = map tr_at us"
  shows "heap m c = Some e \<Longrightarrow> trees h m T A Z \<Longrightarrow> \<forall>i \<in> set is. i < length us \<and> binom_at (heap m) (us ! i) \<and> tr_at (us ! i) \<in> A \<Longrightarrow>
   at_most 65534 (T + mset (map (\<lambda>i. us ! i) is)) \<Longrightarrow>
   \<exists>m'. binomial_ref_subtrees c is m = Some m' \<and> trees h m' (T + mset (map (\<lambda>i. us ! i) is)) A Z \<and> quiet m A m' \<and>
     kept (heap m) (heap m') A"
proof (induction "is" arbitrary: m T)
  case Nil
  then show ?case by auto
next
  case (Cons i "is")
  have i: "i < length us" "binom_at (heap m) (us ! i)" "tr_at (us ! i) \<in> A" using Cons.prems(3) by simp_all
  have "at_most 65534 T" by (rule at_most_sub [OF Cons.prems(4)]) simp
  from ref_trees [OF Cons.prems(2) i(2,3) this] obtain m1 where m1: "binomial_tree_ref (tr_at (us ! i)) m = Some m1"
    "trees h m1 (add_mset (us ! i) T) A Z" "quiet m A m1" "kept (heap m) (heap m1) A" by blast
  have e1: "heap m1 c = Some e" using m1(3) c(2) Cons.prems(1) by (simp add: quiet_def)
  have at1: "\<forall>i \<in> set is. i < length us \<and> binom_at (heap m1) (us ! i) \<and> tr_at (us ! i) \<in> A"
    using Cons.prems(3) binom_at_keep [OF _ m1(4) treesD(1) [OF m1(2)]] by simp
  have "add_mset (us ! i) T + mset (map (\<lambda>i. us ! i) is) = T + mset (map (\<lambda>i. us ! i) (i # is))" by simp
  with Cons.IH [OF e1 m1(2) at1] Cons.prems(4) obtain m' where m': "binomial_ref_subtrees c is m1 = Some m'"
    "trees h m' (T + mset (map (\<lambda>i. us ! i) (i # is))) A Z" "quiet m1 A m'" "kept (heap m1) (heap m') A" by auto
  have "subtree_get c i m = Some (tr_at (us ! i))" using subtree_get_ok [OF c(1) Cons.prems(1)] c(3) i(1) by simp
  with m1(1) m'(1) have "binomial_ref_subtrees c (i # is) m = Some m'" by simp
  with m'(2) quiet_trans [OF m1(3) m'(3)] kept_trans [OF m1(4) m'(4)] show ?case by blast
qed


section \<open>Linking two trees\<close>

definition winner :: "binomial_heap \<Rightarrow> btree \<Rightarrow> btree \<Rightarrow> btree \<times> btree" where
  "winner hp t1 t2 = (if binomial_heap_cmp hp (tr_value t1) (tr_value t2) > 0 then (t2, t1) else (t1, t2))"

definition linked :: "binomial_heap \<Rightarrow> btree \<Rightarrow> btree \<Rightarrow> btree list" where
  "linked hp t1 t2 = (let (w, l) = winner hp t1 t2 in tr_kids w @ [l])"

text \<open>
  The new node of a merge is not counted yet: its subtrees \<open>us\<close> are references from outside.
\<close>

definition fresh_node :: "btmem \<Rightarrow> addr \<Rightarrow> val \<Rightarrow> btree list \<Rightarrow> bool" where
  "fresh_node m c v us \<longleftrightarrow> c \<noteq> 0 \<and> heap m c =
     Some \<lparr>bt_value = v, bt_order = of_nat (length us), bt_refcount = 0, bt_subtrees = map tr_at us\<rparr>"

lemma alloc_trees:
  assumes t: "trees h m T A {}" and m1: "heap m1 = (heap m)(c \<mapsto> e)" "heap m c = None"
  shows "trees h m1 T A {c}"
proof -
  have c: "c \<notin> A" using trees_dom [OF t] m1(2) by blast
  have k: "kept (heap m) (heap m1) A" using c m1(1) by (auto simp: kept_def)
  have "rc (heap m1) (image_mset tr_at T) A"
  proof (rule rc_kept [OF treesD(1) [OF t] k])
    show "set_mset (image_mset tr_at T) \<subseteq> A" using treesD(5) [OF t] by auto
    fix a assume a: "a \<in> A"
    with c have "heap m1 a = heap m a" using m1(1) by auto
    with rcD(8,9) [OF treesD(1) [OF t] a]
    show "0 < refs_of (heap m1) a \<and> refs_of (heap m1) a = count (image_mset tr_at T + edges (heap m) A) a" by simp
  qed
  moreover from this have "binom_at (heap m1) u" if "u \<in># T" for u
    using binom_at_keep [OF treesD(2) [OF t that] k _ treesD(5) [OF t that]] by blast
  moreover have "owned h m1 (A \<union> {c})"
    unfolding owned_def
  proof
    fix b
    show "h b = (if b \<in> A \<union> {c} then None else heap m1 b)"
      using treesD(3) [OF t] m1 unfolding owned_def by (cases "b = c") auto
  qed
  ultimately show ?thesis using c by (simp add: trees_def)
qed

lemma trees_same_heap: "trees h m T A Z \<Longrightarrow> heap m' = heap m \<Longrightarrow> trees h m' T A Z"
  by (simp add: trees_def owned_def)

lemma malloc_block_heap: "malloc_block m = (ok, m') \<Longrightarrow> heap m' = heap m"
  by (auto simp: malloc_block_def split: list.splits)

lemma malloc_block_ample: "ample (Suc n) m \<Longrightarrow> malloc_block m = (ok, m') \<Longrightarrow> ok \<and> ample n m'"
  by (cases "answers m") (auto simp: malloc_block_def ample_def)

lemma binomial_tree_merge_ok:
  assumes t: "trees h m T A {}" and t1: "binom_at (heap m) t1" "tr_at t1 \<in> A" "length (tr_kids t1) = k"
    and t2: "binom_at (heap m) t2" "tr_at t2 \<in> A" "length (tr_kids t2) = k" and k: "k < 65535"
    and am: "at_most 65534 (T + mset (linked hp t1 t2))"
  shows "\<exists>c m'. binomial_tree_merge hp (tr_at t1) (tr_at t2) m = Some (c, m') \<and>
    (if c = 0 then trees h m' T A {} \<and> quiet m A (m'\<lparr>answers := answers m\<rparr>)
     else trees h m' (T + mset (linked hp t1 t2)) A {c} \<and> fresh_node m' c (tr_value (fst (winner hp t1 t2))) (linked hp t1 t2)) \<and>
    (ample (Suc (Suc n)) m \<longrightarrow> c \<noteq> 0 \<and> ample n m')"
proof -
  obtain w l where wl: "winner hp t1 t2 = (w, l)" by (rule prod.exhaust)
  have w: "binom_at (heap m) w" "tr_at w \<in> A" "length (tr_kids w) = k" and l: "binom_at (heap m) l" "tr_at l \<in> A"
    using wl t1 t2 by (auto simp: winner_def split: if_splits)
  let ?us = "linked hp t1 t2"
  have us: "?us = tr_kids w @ [l]" by (simp add: linked_def wl)
  from binom_at_node [OF t1(1)] obtain e1 where e1: "heap m (tr_at t1) = Some e1" "bt_value e1 = tr_value t1" by blast
  from binom_at_node [OF t2(1)] obtain e2 where e2: "heap m (tr_at t2) = Some e2" "bt_value e2 = tr_value t2" by blast
  from binom_at_node [OF w(1)] obtain e where e: "heap m (tr_at w) = Some e" "bt_value e = tr_value w"
    "bt_subtrees e = map tr_at (tr_kids w)" "unat (bt_order e) = k" using w(3) by blast
  have sw: "(if binomial_heap_cmp hp (bt_value e1) (bt_value e2) > 0 then (tr_at t2, tr_at t1) else (tr_at t1, tr_at t2)) = (tr_at w, tr_at l)"
    using wl e1 e2 by (auto simp: winner_def split: if_splits)
  have nz: "tr_at t1 \<noteq> 0" "tr_at t2 \<noteq> 0" "tr_at w \<noteq> 0" using binom_at_root t1(1) t2(1) w(1) by blast+
  let ?n = "\<lparr>bt_value = bt_value e, bt_order = bt_order e + 1, bt_refcount = 0, bt_subtrees = []\<rparr>"
  note unf = binomial_tree_merge_def Let_def
  show ?thesis
  proof (cases rule: malloc_cases [of ?n m])
    case (fail m1)
    then have "binomial_tree_merge hp (tr_at t1) (tr_at t2) m = Some (0, m1)"
      using e1 e2 e nz sw by (simp add: unf mem_simps)
    moreover have "trees h m1 T A {}" by (rule trees_same_heap [OF t fail(3)])
    moreover have "quiet m A (m1\<lparr>answers := answers m\<rparr>)" using fail(3) by (simp add: quiet_def)
    ultimately show ?thesis using fail(2) ample_can_alloc by auto
  next
    case (ok c m1)
    obtain granted m2 where blk: "malloc_block m1 = (granted, m2)" by (rule prod.exhaust)
    have am1: "ample (Suc n) m1" if "ample (Suc (Suc n)) m"
      by (rule ample_alloc [OF that ok(7)]) (use ok(3,6) in simp)
    note h2 = malloc_block_heap [OF blk]
    have ld: "load c m2 = Some ?n" using ok(4,6) h2 by (simp add: mem_simps)
    show ?thesis
    proof (cases granted)
      case False
      let ?m3 = "m2\<lparr>heap := (heap m2)(c := None)\<rparr>"
      have hm: "heap ?m3 = heap m" using h2 ok(5,6) by (auto simp: fun_eq_iff)
      have "binomial_tree_merge hp (tr_at t1) (tr_at t2) m = Some (0, ?m3)"
        using e1 e2 e nz sw ok(1,4,6) blk False h2 by (simp add: unf mem_simps)
      moreover have "trees h ?m3 T A {}" by (rule trees_same_heap [OF t hm])
      moreover have "quiet m A (?m3\<lparr>answers := answers m\<rparr>)" using hm by (simp add: quiet_def)
      moreover have "\<not> ample (Suc (Suc n)) m" using am1 malloc_block_ample [OF _ blk] False by blast
      ultimately show ?thesis by auto
    next
      case True
      let ?e = "?n\<lparr>bt_subtrees := map tr_at ?us\<rparr>" let ?m3 = "m2\<lparr>heap := (heap m2)(c \<mapsto> ?e)\<rparr>"
      have "heap ?m3 = (heap m)(c \<mapsto> ?e)" using h2 ok(6) by simp
      from alloc_trees [OF t this ok(5)] have t3: "trees h ?m3 T A {c}" .
      have cA: "c \<notin> A" using treesD(4) [OF t3] by simp
      have k3: "kept (heap m) (heap ?m3) A" using h2 ok(6) cA by (auto simp: kept_def)
      have keep: "binom_at (heap ?m3) u" if "binom_at (heap m) u" "tr_at u \<in> A" for u
        by (rule binom_at_keep [OF that(1) k3 treesD(1) [OF t3] that(2)])
      have kidsA: "tr_at u \<in> A" if "u \<in> set (tr_kids w)" for u
      proof -
        have "set_mset (nodes w) \<subseteq> A" by (rule nodes_in [OF w(1) treesD(1) [OF t] w(2)])
        moreover have "tr_at u \<in># nodes w" using that root_in_nodes [of u] by (cases w) (auto simp: set_mset_sum_list)
        ultimately show ?thesis by blast
      qed
      have all: "binom_at (heap ?m3) u \<and> tr_at u \<in> A" if "u \<in> set ?us" for u
        using that keep kidsA binom_at_kid [OF w(1)] l unfolding us by auto
      have len: "length ?us = k + 1" by (simp add: us w(3))
      have upt: "map (\<lambda>i. ?us ! i) [0 ..< k + 1] = ?us" using map_nth [of ?us] unfolding len .
      have ord: "unat (bt_order e + 1) = k + 1" using e(4) k by (simp add: unat_word_ariths)
      have of_order: "bt_order e = of_nat k" by (rule word_unat_eq_iff [THEN iffD2]) (use e(4) k in \<open>simp add: unat_of_nat\<close>)
      have is_ok: "\<forall>i \<in> set [0 ..< k + 1]. i < length ?us \<and> binom_at (heap ?m3) (?us ! i) \<and> tr_at (?us ! i) \<in> A"
        using all nth_mem [of _ ?us] len by simp
      have he: "heap ?m3 c = Some ?e" and se: "bt_subtrees ?e = map tr_at ?us" by simp_all
      from ref_subtrees_trees [OF ok(4) cA se he t3 is_ok] am obtain m4 where m4:
        "binomial_ref_subtrees c [0 ..< k + 1] ?m3 = Some m4" "trees h m4 (T + mset ?us) A {c}" "quiet ?m3 A m4"
        unfolding upt by blast
      have "binomial_tree_merge hp (tr_at t1) (tr_at t2) m = Some (c, m4)"
        using e1 e2 e nz sw ok(1,4,6) blk True ld m4(1) h2 ord
        by (simp add: unf mem_simps us w(3))
      moreover have "heap m4 c = Some ?e" using m4(3) cA by (simp add: quiet_def)
      then have "fresh_node m4 c (tr_value (fst (winner hp t1 t2))) ?us"
        using ok(4) wl e(2) len unfolding fresh_node_def of_order by simp
      moreover have "ample n m4" if a: "ample (Suc (Suc n)) m"
      proof -
        have a2: "ample n m2" using malloc_block_ample [OF am1 [OF a] blk] by simp
        have "ample n ?m3" by (rule ample_keep [OF a2]) (use ok(6) h2 in auto)
        with quiet_ample [OF m4(3)] trees_dom [OF t3] show ?thesis by blast
      qed
      ultimately show ?thesis using m4(2) ok(4) by auto
    qed
  qed
qed


lemma adopt_trees:
  assumes t: "trees h m (T + mset us) A {c}" and f: "fresh_node m c v us" and len: "length us < 65536"
    and r: "\<forall>i < length us. length (tr_kids (us ! i)) = i"
  shows "\<exists>m'. binomial_tree_ref c m = Some m' \<and> trees h m' (add_mset (Binom c v us) T) (insert c A) {} \<and>
    quiet m (insert c A) m'"
proof -
  let ?e = "\<lparr>bt_value = v, bt_order = of_nat (length us), bt_refcount = 0, bt_subtrees = map tr_at us\<rparr>"
  let ?m = "m\<lparr>heap := (heap m)(c \<mapsto> ?e\<lparr>bt_refcount := 1\<rparr>)\<rparr>"
  have c: "c \<noteq> 0" "heap m c = Some ?e" "c \<notin> A" using f treesD(4) [OF t] by (simp_all add: fresh_node_def)
  have us: "binom_at (heap m) u" "tr_at u \<in> A" if "u \<in> set us" for u
    using treesD(2,5) [OF t] that by simp_all
  have ord: "unat (bt_order ?e) = length us" using len by (simp add: unat_of_nat)
  have k: "kept (heap m) (heap ?m) A" using c(3) by (auto simp: kept_def)
  have "rc (heap ?m) (add_mset c (image_mset tr_at T)) (insert c A)"
  proof -
    have "rc (heap m) (image_mset tr_at T + mset (bt_subtrees ?e)) A" using treesD(1) [OF t] by simp
    moreover have "order_of (heap m) (bt_subtrees ?e ! i) = i" if "i < length (bt_subtrees ?e)" for i
      using binom_at_node [OF us(1) [of "us ! i"]] r that by auto
    ultimately have "rc ((heap m)(c \<mapsto> ?e\<lparr>bt_refcount := 1\<rparr>)) (add_mset c (image_mset tr_at T)) (insert c A)"
      using rc_enter [of "heap m" "image_mset tr_at T" ?e A c] c ord by simp
    then show ?thesis by simp
  qed
  moreover have keep: "binom_at (heap ?m) u" if "binom_at (heap m) u" "tr_at u \<in> A" for u
  proof -
    have "rc (heap ?m) (image_mset tr_at (T + mset us)) A"
    proof (rule rc_kept [OF treesD(1) [OF t] k])
      show "set_mset (image_mset tr_at (T + mset us)) \<subseteq> A" using treesD(5) [OF t] by auto
      fix a assume a: "a \<in> A"
      with c(3) have "heap ?m a = heap m a" by auto
      with rcD(8,9) [OF treesD(1) [OF t] a]
      show "0 < refs_of (heap ?m) a \<and> refs_of (heap ?m) a = count (image_mset tr_at (T + mset us) + edges (heap m) A) a" by simp
    qed
    then show ?thesis using binom_at_keep [OF that(1) k _ that(2)] by blast
  qed
  moreover have "binom_at (heap ?m) (Binom c v us)" using c(1) ord keep us by simp
  moreover have "binom_at (heap ?m) u" if "u \<in># T" for u using keep treesD(2,5) [OF t, of u] that by simp
  moreover have "owned h ?m (insert c A)" using treesD(3) [OF t] by (auto simp: owned_def)
  ultimately have "trees h ?m (add_mset (Binom c v us) T) (insert c A) {}" by (auto simp: trees_def)
  moreover have "binomial_tree_ref c m = Some ?m" using c(1,2) by (simp add: binomial_tree_ref_def mem_simps)
  moreover have "quiet m (insert c A) ?m" by (simp add: quiet_def)
  ultimately show ?thesis by blast
qed

section \<open>Merging two heaps\<close>

primrec opt :: "btree option \<Rightarrow> btree list" where
  "opt None = []"
| "opt (Some t) = [t]"

primrec somes :: "btree option list \<Rightarrow> btree multiset" where
  "somes [] = {#}"
| "somes (x # xs) = mset (opt x) + somes xs"

definition link_to :: "btree option \<Rightarrow> addr" where
  "link_to x = (case x of None \<Rightarrow> 0 | Some t \<Rightarrow> tr_at t)"

definition root_at :: "btree option list \<Rightarrow> nat \<Rightarrow> btree option" where
  "root_at xs i = (if i < length xs then xs ! i else None)"

lemma link_to_simps [simp]: "link_to None = 0" "link_to (Some t) = tr_at t"
  by (simp_all add: link_to_def)

lemma somes_append [simp]: "somes (xs @ ys) = somes xs + somes ys"
  by (induction xs) simp_all

lemma somes_drop: "somes (drop i xs) = mset (opt (root_at xs i)) + somes (drop (Suc i) xs)"
proof (cases "i < length xs")
  case True
  then have "drop i xs = xs ! i # drop (Suc i) xs" by (simp add: Cons_nth_drop_Suc)
  with True show ?thesis by (simp add: root_at_def)
qed (simp add: root_at_def)

lemma in_somes: "t \<in># somes xs \<longleftrightarrow> Some t \<in> set xs"
proof (induction xs)
  case (Cons x xs)
  then show ?case by (cases x) auto
qed simp

lemma links_somes: "\<forall>t \<in># somes xs. tr_at t \<noteq> 0 \<Longrightarrow> links (map link_to xs) = image_mset tr_at (somes xs)"
proof (induction xs)
  case (Cons x xs)
  then show ?case by (cases x) auto
qed simp

definition heap_roots :: "binomial_heap \<Rightarrow> btree option list \<Rightarrow> bool" where
  "heap_roots hp xs \<longleftrightarrow> unat (bn_roots_length hp) = length xs \<and> holds (bn_roots hp) (map link_to xs)"

lemma binomial_root_ok:
  assumes "heap_roots hp xs" "\<forall>t \<in># somes xs. tr_at t \<noteq> 0"
  shows "binomial_root hp i = Some (map tr_at (opt (root_at xs i)))"
proof (cases "i < length xs")
  case True
  with assms(1) have "array_get (bn_roots hp) i = Some (link_to (xs ! i))"
    using holds_get [of "bn_roots hp" "map link_to xs" i] by (simp add: heap_roots_def)
  moreover have "tr_at t \<noteq> 0" if "xs ! i = Some t" for t using assms(2) that True nth_mem by (fastforce simp: in_somes)
  ultimately show ?thesis using assms(1) True by (cases "xs ! i") (simp_all add: binomial_root_def heap_roots_def root_at_def)
next
  case False
  with assms(1) show ?thesis by (simp add: binomial_root_def heap_roots_def root_at_def)
qed

definition vals_of :: "btree multiset \<Rightarrow> val multiset" where
  "vals_of T = sum_mset (image_mset vals T)"

lemma vals_of_simps [simp]: "vals_of {#} = {#}" "vals_of (add_mset t T) = vals t + vals_of T"
  "vals_of (S + T) = vals_of S + vals_of T" "vals_of (mset ts) = sum_list (map vals ts)"
  by (simp_all add: vals_of_def flip: sum_mset_sum_list)

definition rank_ok :: "(val \<Rightarrow> val \<Rightarrow> int) \<Rightarrow> nat \<Rightarrow> btree option \<Rightarrow> bool" where
  "rank_ok c i x \<longleftrightarrow> (\<forall>t. x = Some t \<longrightarrow> length (tr_kids t) = i \<and> binom_ok c t)"

lemma rank_ok_simps [simp]: "rank_ok c i None" "rank_ok c i (Some t) \<longleftrightarrow> length (tr_kids t) = i \<and> binom_ok c t"
  by (simp_all add: rank_ok_def)

definition ranked :: "(val \<Rightarrow> val \<Rightarrow> int) \<Rightarrow> btree option list \<Rightarrow> bool" where
  "ranked c xs \<longleftrightarrow> (\<forall>j < length xs. rank_ok c j (xs ! j))"

lemma ranked_snoc: "ranked c (xs @ [x]) \<longleftrightarrow> ranked c xs \<and> rank_ok c (length xs) x"
  by (auto simp: ranked_def nth_append less_Suc_eq)

lemma ranked_root_at: "ranked c xs \<Longrightarrow> rank_ok c i (root_at xs i)"
  by (simp add: ranked_def root_at_def)

text \<open>The tree that results from linking two trees.\<close>

definition joined :: "binomial_heap \<Rightarrow> addr \<Rightarrow> btree \<Rightarrow> btree \<Rightarrow> btree" where
  "joined hp a t1 t2 = Binom a (tr_value (fst (winner hp t1 t2))) (linked hp t1 t2)"

lemma linked_ok:
  assumes c: "comparator (binomial_heap_cmp hp)" and t1: "rank_ok (binomial_heap_cmp hp) k (Some t1)"
    and t2: "rank_ok (binomial_heap_cmp hp) k (Some t2)"
  shows "rank_ok (binomial_heap_cmp hp) (Suc k) (Some (joined hp a t1 t2))" "vals (joined hp a t1 t2) = vals t1 + vals t2"
    "add_mset (tr_at (fst (winner hp t1 t2))) (sum_list (map nodes (linked hp t1 t2))) = nodes t1 + nodes t2"
    "length (linked hp t1 t2) = Suc k" "\<forall>i < length (linked hp t1 t2). length (tr_kids (linked hp t1 t2 ! i)) = i"
proof -
  obtain w l where wl: "winner hp t1 t2 = (w, l)" by (rule prod.exhaust)
  have w: "rank_ok (binomial_heap_cmp hp) k (Some w)" "rank_ok (binomial_heap_cmp hp) k (Some l)"
    and v: "vals w + vals l = vals t1 + vals t2" "nodes w + nodes l = nodes t1 + nodes t2"
    using wl t1 t2 by (auto simp: winner_def split: if_splits)
  have le: "binomial_heap_cmp hp (tr_value w) (tr_value l) \<le> 0"
    using wl comparator.cmp_flip [OF c, of "tr_value t2" "tr_value t1"] by (auto simp: winner_def split: if_splits)
  have us: "linked hp t1 t2 = tr_kids w @ [l]" by (simp add: linked_def wl)
  obtain aw vw kw where cw: "w = Binom aw vw kw" by (cases w)
  show rk: "\<forall>i < length (linked hp t1 t2). length (tr_kids (linked hp t1 t2 ! i)) = i"
    using w cw by (auto simp: us nth_append less_Suc_eq)
  show "length (linked hp t1 t2) = Suc k" using w cw by (simp add: us)
  moreover have "\<forall>u \<in> set (linked hp t1 t2). binomial_heap_cmp hp (tr_value w) (tr_value u) \<le> 0 \<and> binom_ok (binomial_heap_cmp hp) u"
    using w le cw by (auto simp: us)
  ultimately show "rank_ok (binomial_heap_cmp hp) (Suc k) (Some (joined hp a t1 t2))"
    using rk unfolding joined_def wl by simp
  show "vals (joined hp a t1 t2) = vals t1 + vals t2" using v(1) cw by (simp add: joined_def us wl)
  show "add_mset (tr_at (fst (winner hp t1 t2))) (sum_list (map nodes (linked hp t1 t2))) = nodes t1 + nodes t2"
    using v(2) cw by (simp add: us wl)
qed


text \<open>What one round of the merge keeps of the trees \<open>us\<close>, and what it links.\<close>

definition stored :: "btree list \<Rightarrow> btree option" where
  "stored us = (if odd (length us) then Some (last us) else None)"

definition pending :: "binomial_heap \<Rightarrow> btree list \<Rightarrow> btree list" where
  "pending hp us = (if 2 \<le> length us then linked hp (us ! 0) (us ! 1) else [])"

definition carried :: "binomial_heap \<Rightarrow> addr \<Rightarrow> btree list \<Rightarrow> btree option" where
  "carried hp a us = (if 2 \<le> length us then Some (joined hp a (us ! 0) (us ! 1)) else None)"

lemma upto3:
  assumes "length us \<le> 3"
  obtains "us = []" | a where "us = [a]" | a b where "us = [a, b]" | a b c where "us = [a, b, c]"
proof (cases us)
  case (Cons a vs)
  then show ?thesis
  proof (cases vs)
    case c2: (Cons b ws)
    then show ?thesis using assms Cons that by (cases ws) auto
  qed (use Cons that in simp)
qed (use that in simp)

lemma us_split:
  "length us \<le> 3 \<Longrightarrow> mset us = mset (opt (stored us)) + (if 2 \<le> length us then {#us ! 0, us ! 1#} else {#})"
  by (erule upto3) (simp_all add: stored_def)

lemma two_members: "2 \<le> length us \<Longrightarrow> us ! 0 \<in> set us \<and> us ! 1 \<in> set us"
  by (cases us; cases "tl us") auto

lemma us_nodes:
  assumes "length us \<le> 3" "comparator (binomial_heap_cmp hp)" "\<forall>u \<in> set us. rank_ok (binomial_heap_cmp hp) k (Some u)"
  shows "nodes_of (mset (opt (stored us)) + mset (pending hp us)) \<subseteq># nodes_of (mset us)"
proof (cases "2 \<le> length us")
  case True
  then have "us ! 0 \<in> set us" "us ! 1 \<in> set us" using two_members by blast+
  with assms(3) have "rank_ok (binomial_heap_cmp hp) k (Some (us ! 0))" "rank_ok (binomial_heap_cmp hp) k (Some (us ! 1))" by blast+
  note eq = linked_ok(3) [OF assms(2) this]
  have "sum_list (map nodes (linked hp (us ! 0) (us ! 1))) \<subseteq># nodes (us ! 0) + nodes (us ! 1)"
    unfolding eq [symmetric] by simp
  then have "nodes_of (mset (pending hp us)) \<subseteq># nodes_of {#us ! 0, us ! 1#}" using True by (simp add: pending_def)
  then show ?thesis unfolding us_split [OF assms(1)] using True by (simp add: subset_mset.add_left_mono)
next
  case False
  then show ?thesis unfolding us_split [OF assms(1)] by (simp add: pending_def)
qed

lemma store_step:
  assumes t: "trees h m T A {}" and us: "\<forall>u \<in> set us. binom_at (heap m) u \<and> tr_at u \<in> A" and k: "at_most 65534 T"
  shows "\<exists>m1. (if odd (length us) then binomial_tree_ref (tr_at (last us)) m = Some m1 else m1 = m) \<and>
    trees h m1 (T + mset (opt (stored us))) A {} \<and> quiet m A m1 \<and> kept (heap m) (heap m1) A"
proof (cases "odd (length us)")
  case True
  then have "us \<noteq> []" by auto
  then have "last us \<in> set us" by simp
  with us have "binom_at (heap m) (last us)" "tr_at (last us) \<in> A" by blast+
  from ref_trees [OF t this k] True show ?thesis by (auto simp: stored_def)
next
  case False
  with t show ?thesis by (intro exI [of _ m]) (simp add: stored_def)
qed

lemma link_step:
  assumes t: "trees h m T A {}" and us: "\<forall>u \<in> set us. binom_at (heap m) u \<and> tr_at u \<in> A"
    and r: "\<forall>u \<in> set us. rank_ok (binomial_heap_cmp hp) k (Some u)" and k: "k < 65535"
    and am: "at_most 65534 (T + mset (pending hp us))"
  shows "\<exists>nc failed m2. (if 2 \<le> length us
       then do { (c, m) \<leftarrow> binomial_tree_merge hp (map tr_at us ! 0) (map tr_at us ! 1) m; Some (c, c = 0, m) }
       else Some (0, False, m)) = Some (nc, failed, m2) \<and>
     (if failed then trees h m2 T A {}
      else trees h m2 (T + mset (pending hp us)) A (if 2 \<le> length us then {nc} else {}) \<and>
        (if 2 \<le> length us then fresh_node m2 nc (tr_value (fst (winner hp (us ! 0) (us ! 1)))) (pending hp us) else nc = 0)) \<and>
     (ample (Suc (Suc n)) m \<longrightarrow> \<not> failed \<and> ample n m2)"
proof (cases "2 \<le> length us")
  case True
  then have u: "us ! 0 \<in> set us" "us ! 1 \<in> set us" using two_members by blast+
  have eq: "pending hp us = linked hp (us ! 0) (us ! 1)" using True by (simp add: pending_def)
  have a0: "binom_at (heap m) (us ! 0)" "tr_at (us ! 0) \<in> A" "length (tr_kids (us ! 0)) = k"
    and a1: "binom_at (heap m) (us ! 1)" "tr_at (us ! 1) \<in> A" "length (tr_kids (us ! 1)) = k"
    using us r u unfolding rank_ok_simps by blast+
  from binomial_tree_merge_ok [OF t a0 a1 k am [unfolded eq], of n] obtain c m' where
    c: "binomial_tree_merge hp (tr_at (us ! 0)) (tr_at (us ! 1)) m = Some (c, m')"
    "if c = 0 then trees h m' T A {} \<and> quiet m A (m'\<lparr>answers := answers m\<rparr>)
     else trees h m' (T + mset (linked hp (us ! 0) (us ! 1))) A {c} \<and>
       fresh_node m' c (tr_value (fst (winner hp (us ! 0) (us ! 1)))) (linked hp (us ! 0) (us ! 1))"
    "ample (Suc (Suc n)) m \<longrightarrow> c \<noteq> 0 \<and> ample n m'" by blast
  have "0 < length us" "1 < length us" using True by linarith+
  then have nth: "map tr_at us ! 0 = tr_at (us ! 0)" "map tr_at us ! 1 = tr_at (us ! 1)" by (simp_all only: nth_map)
  have run: "(if 2 \<le> length us
       then do { (c, m) \<leftarrow> binomial_tree_merge hp (map tr_at us ! 0) (map tr_at us ! 1) m; Some (c, c = 0, m) }
       else Some (0, False, m)) = Some (c, c = 0, m')" unfolding nth using True c(1) by simp
  show ?thesis unfolding run eq
    by (rule exI [of _ c], rule exI [of _ "c = 0"], rule exI [of _ m']) (use c(2,3) True in \<open>simp split: if_splits\<close>)
next
  case False
  with t show ?thesis by (intro exI [of _ 0] exI [of _ False] exI [of _ m]) (auto simp: pending_def intro: ample_le)
qed

lemma carry_step:
  assumes t: "trees h m (U + mset (opt c) + mset (pending hp us)) A (if 2 \<le> length us then {nc} else {})"
    and f: "if 2 \<le> length us then fresh_node m nc (tr_value (fst (winner hp (us ! 0) (us ! 1)))) (pending hp us) else nc = 0"
    and c: "comparator (binomial_heap_cmp hp)" "\<forall>u \<in> set us. rank_ok (binomial_heap_cmp hp) k (Some u)" "k < 65535"
  shows "\<exists>m3 m4 A'. binomial_tree_unref (link_to c) m = Some m3 \<and> binomial_tree_ref nc m3 = Some m4 \<and>
    trees h m4 (U + mset (opt (carried hp nc us))) A' {} \<and> (ample n m \<longrightarrow> ample n m4) \<and> link_to (carried hp nc us) = nc"
proof -
  let ?Z = "if 2 \<le> length us then {nc} else {}" let ?P = "mset (pending hp us)"
  have "\<exists>m3 A'. binomial_tree_unref (link_to c) m = Some m3 \<and> trees h m3 (U + ?P) A' ?Z \<and> quiet m A m3"
  proof (cases c)
    case None
    with t show ?thesis by auto
  next
    case (Some t1)
    have "U + mset (opt c) + ?P = add_mset t1 (U + ?P)" by (simp add: Some)
    with t unref_trees [of h m t1 "U + ?P" A ?Z] show ?thesis by (auto simp: Some)
  qed
  then obtain m3 A' where m3: "binomial_tree_unref (link_to c) m = Some m3" "trees h m3 (U + ?P) A' ?Z" "quiet m A m3" by blast
  have am3: "ample n m3" if "ample n m" by (rule quiet_ample [OF m3(3) that trees_dom [OF t]])
  show ?thesis
  proof (cases "2 \<le> length us")
    case False
    with f m3 am3 show ?thesis by (intro exI [of _ m3]) (auto simp: pending_def carried_def)
  next
    case True
    then have u: "us ! 0 \<in> set us" "us ! 1 \<in> set us" using two_members by blast+
    with c(2) have rk: "rank_ok (binomial_heap_cmp hp) k (Some (us ! 0))" "rank_ok (binomial_heap_cmp hp) k (Some (us ! 1))" by blast+
    note lk = linked_ok(4,5) [OF c(1) rk]
    have "nc \<notin> A" using treesD(4) [OF t] True by simp
    with m3(3) f True have f3: "fresh_node m3 nc (tr_value (fst (winner hp (us ! 0) (us ! 1)))) (linked hp (us ! 0) (us ! 1))"
      by (simp add: quiet_def fresh_node_def pending_def)
    have t3: "trees h m3 (U + mset (linked hp (us ! 0) (us ! 1))) A' {nc}" using m3(2) True by (simp add: pending_def)
    have "length (linked hp (us ! 0) (us ! 1)) < 65536" using lk(1) c(3) by simp
    from adopt_trees [OF t3 f3 this lk(2)] obtain m4 where m4: "binomial_tree_ref nc m3 = Some m4"
      "trees h m4 (add_mset (joined hp nc (us ! 0) (us ! 1)) U) (insert nc A') {}" "quiet m3 (insert nc A') m4"
      by (auto simp: joined_def)
    have "insert nc A' \<subseteq> dom (heap m3)" using trees_dom [OF t3] f3 by (auto simp: fresh_node_def)
    with am3 quiet_ample [OF m4(3)] m3(1) m4(1,2) True show ?thesis
      by (intro exI [of _ m3] exI [of _ m4] exI [of _ "insert nc A'"]) (auto simp: carried_def joined_def)
  qed
qed


text \<open>The trees a round of the merge finds, and what is left for the rounds after it.\<close>

definition found :: "btree option list \<Rightarrow> btree option list \<Rightarrow> btree option \<Rightarrow> nat \<Rightarrow> btree list" where
  "found xs ys c i = opt (root_at xs i) @ opt (root_at ys i) @ opt c"

definition left :: "btree option list \<Rightarrow> btree option list \<Rightarrow> nat \<Rightarrow> btree multiset" where
  "left xs ys i = somes (drop i xs) + somes (drop i ys)"

lemma found_left: "left xs ys i + mset (opt c) = mset (found xs ys c i) + left xs ys (Suc i)"
  by (simp add: found_def left_def somes_drop [of i])

lemma found_length: "length (found xs ys c i) \<le> 3"
proof -
  have "length (opt x) \<le> 1" for x by (cases x) simp_all
  from add_mono [OF this [of "root_at xs i"] add_mono [OF this [of "root_at ys i"] this [of c]]]
  show ?thesis by (simp add: found_def)
qed

lemma found_two:
  assumes "2 \<le> length (found xs ys c i)"
  shows "i < length xs \<or> i < length ys"
proof (rule ccontr)
  assume "\<not> (i < length xs \<or> i < length ys)"
  then have "found xs ys c i = opt c" by (simp add: found_def root_at_def)
  with assms show False by (cases c) simp_all
qed

definition trimmed :: "nat \<Rightarrow> btree option list \<Rightarrow> bool" where
  "trimmed l zs \<longleftrightarrow> l \<le> length zs \<and> (\<forall>j < length zs. l \<le> j \<longrightarrow> zs ! j = None) \<and> (0 < l \<longrightarrow> zs ! (l - 1) \<noteq> None)"

lemma trimmed_snoc: "trimmed l zs \<Longrightarrow> trimmed (if x = None then l else Suc (length zs)) (zs @ [x])"
  by (auto simp: trimmed_def nth_append less_Suc_eq)

definition merge_ctx ::
  "binomial_heap \<Rightarrow> binomial_heap \<Rightarrow> btree option list \<Rightarrow> btree option list \<Rightarrow> btree multiset \<Rightarrow> nat \<Rightarrow> bool"
where
  "merge_ctx hp other xs ys T0 N \<longleftrightarrow> heap_roots hp xs \<and> heap_roots other ys \<and> comparator (binomial_heap_cmp hp) \<and>
     at_most 1 T0 \<and> (\<forall>t \<in># somes xs + somes ys. reached T0 t \<and> tr_at t \<noteq> 0) \<and>
     ranked (binomial_heap_cmp hp) xs \<and> ranked (binomial_heap_cmp hp) ys \<and> length xs < N \<and> length ys < N \<and> N < 65535"

definition merge_inv ::
  "binomial_heap \<Rightarrow> btree option list \<Rightarrow> btree option list \<Rightarrow> nat \<Rightarrow> val multiset \<Rightarrow> btree option list \<Rightarrow> btree option \<Rightarrow>
   nat \<Rightarrow> bool"
where
  "merge_inv hp xs ys N V zs c l \<longleftrightarrow> length zs \<le> N \<and> at_most 1 (somes zs + mset (opt c) + left xs ys (length zs)) \<and>
     ranked (binomial_heap_cmp hp) zs \<and> rank_ok (binomial_heap_cmp hp) (length zs) c \<and> (c \<noteq> None \<longrightarrow> length zs < N) \<and>
     vals_of (somes zs + mset (opt c) + left xs ys (length zs)) = V \<and> trimmed l zs"

lemma found_ranks:
  assumes "merge_ctx hp other xs ys T0 N" "merge_inv hp xs ys N V zs c l"
  shows "\<forall>u \<in> set (found xs ys c (length zs)). rank_ok (binomial_heap_cmp hp) (length zs) (Some u)"
proof -
  have "rank_ok (binomial_heap_cmp hp) (length zs) (root_at xs (length zs))" "rank_ok (binomial_heap_cmp hp) (length zs) (root_at ys (length zs))"
    "rank_ok (binomial_heap_cmp hp) (length zs) c"
    using assms ranked_root_at by (auto simp: merge_ctx_def merge_inv_def)
  then show ?thesis unfolding found_def by (cases "root_at xs (length zs)"; cases "root_at ys (length zs)"; cases c) simp_all
qed

lemma vals_step:
  assumes c: "comparator (binomial_heap_cmp hp)" and r: "\<forall>u \<in> set us. rank_ok (binomial_heap_cmp hp) k (Some u)"
    and len: "length us \<le> 3"
  shows "vals_of (mset (opt (stored us)) + mset (opt (carried hp a us))) = vals_of (mset us)"
    "rank_ok (binomial_heap_cmp hp) k (stored us)" "rank_ok (binomial_heap_cmp hp) (Suc k) (carried hp a us)"
proof -
  show "rank_ok (binomial_heap_cmp hp) k (stored us)"
    using r last_in_set [of us] by (cases "us = []") (auto simp: stored_def)
  have "vals_of (mset (opt (stored us)) + mset (opt (carried hp a us))) = vals_of (mset us) \<and>
    rank_ok (binomial_heap_cmp hp) (Suc k) (carried hp a us)"
  proof (cases "2 \<le> length us")
    case True
    with r two_members have "rank_ok (binomial_heap_cmp hp) k (Some (us ! 0))" "rank_ok (binomial_heap_cmp hp) k (Some (us ! 1))" by blast+
    note lk = linked_ok(1,2) [OF c this]
    show ?thesis unfolding us_split [OF len] using True lk by (simp add: carried_def add.assoc)
  next
    case False
    show ?thesis unfolding us_split [OF len] using False by (simp add: carried_def)
  qed
  then show "vals_of (mset (opt (stored us)) + mset (opt (carried hp a us))) = vals_of (mset us)"
    "rank_ok (binomial_heap_cmp hp) (Suc k) (carried hp a us)" by (rule conjunct1, rule conjunct2)
qed

lemma merge_inv_step:
  assumes ctx: "merge_ctx hp other xs ys T0 N" and inv: "merge_inv hp xs ys N V zs c l" and i: "length zs < N"
    and us: "us = found xs ys c (length zs)"
    and fresh: "2 \<le> length us \<longrightarrow> nc \<notin># nodes_of (somes zs + mset (opt (stored us)) + mset (pending hp us) + left xs ys (Suc (length zs)))"
  shows "merge_inv hp xs ys N V (zs @ [stored us]) (carried hp nc us) (if stored us = None then l else Suc (length zs))"
proof -
  let ?i = "length zs" and ?rest = "left xs ys (Suc (length zs))"
  have cmp: "comparator (binomial_heap_cmp hp)" using ctx by (simp add: merge_ctx_def)
  note rk = found_ranks [OF ctx inv, folded us]
  have len: "length us \<le> 3" using found_length us by simp
  have all: "somes zs + mset (opt c) + left xs ys ?i = somes zs + (mset us + ?rest)"
    using found_left [of xs ys ?i c] us by (simp add: ac_simps)
  have one: "at_most 1 (somes zs + (mset us + ?rest))" using inv unfolding merge_inv_def all by blast
  have sub: "nodes_of (somes zs + mset (opt (stored us)) + mset (pending hp us) + ?rest) \<subseteq># nodes_of (somes zs + (mset us + ?rest))"
    using us_nodes [OF len cmp rk] by (simp add: add.assoc subset_mset.add_mono subset_mset.add_left_mono subset_mset.add_right_mono)
  have old: "at_most 1 (somes zs + mset (opt (stored us)) + mset (pending hp us) + ?rest)" by (rule at_most_sub [OF one sub])
  have "at_most 1 (somes (zs @ [stored us]) + mset (opt (carried hp nc us)) + ?rest)"
  proof (cases "2 \<le> length us")
    case True
    let ?X = "somes zs + mset (opt (stored us)) + mset (pending hp us) + ?rest"
    have "nodes_of (somes (zs @ [stored us]) + mset (opt (carried hp nc us)) + ?rest) = add_mset nc (nodes_of ?X)"
      using True by (simp add: carried_def joined_def pending_def)
    moreover have "nc \<notin># nodes_of ?X" using fresh True by blast
    then have "count (nodes_of ?X) nc = 0" by (simp only: not_in_iff)
    ultimately show ?thesis using old unfolding at_most_def by (metis (no_types, lifting) add_mset_add_single count_add_mset One_nat_def le_refl)
  next
    case False
    with old show ?thesis by (simp add: carried_def pending_def)
  qed
  moreover have "vals_of (somes (zs @ [stored us]) + mset (opt (carried hp nc us)) + ?rest) = V"
  proof -
    have "V = vals_of (somes zs + (mset us + ?rest))" using inv unfolding merge_inv_def all by blast
    with vals_step(1) [OF cmp rk len, of nc] show ?thesis by (simp add: ac_simps)
  qed
  moreover have "ranked (binomial_heap_cmp hp) (zs @ [stored us])" "rank_ok (binomial_heap_cmp hp) (Suc ?i) (carried hp nc us)"
    using inv vals_step(2,3) [OF cmp rk len] by (simp_all add: merge_inv_def ranked_snoc)
  moreover have "carried hp nc us \<noteq> None \<longrightarrow> Suc ?i < N"
    using found_two [of xs ys c ?i] ctx us by (auto simp: carried_def merge_ctx_def)
  moreover have "trimmed (if stored us = None then l else Suc ?i) (zs @ [stored us])"
    by (rule trimmed_snoc) (use inv in \<open>simp add: merge_inv_def\<close>)
  ultimately show ?thesis using i by (simp add: merge_inv_def)
qed


text \<open>Giving back what the rounds so far have referenced.\<close>

lemma merge_undo_ok:
  assumes t: "trees h m (T0 + somes zs + mset (opt c)) A {}" and arr: "holds arr (map link_to zs)" and len: "length zs = Suc i"
  shows "\<exists>m1 m2 A'. binomial_heap_merge_undo arr i m = Some m1 \<and> binomial_tree_unref (link_to c) m1 = Some m2 \<and>
    trees h m2 T0 A' {}"
proof -
  have nz: "\<forall>t \<in># somes zs. tr_at t \<noteq> 0" using treesD(2) [OF t] binom_at_root by auto
  have "map (\<lambda>j. map link_to zs ! j) [0 ..< i + 1] = map link_to zs" using map_nth [of "map link_to zs"] len by simp
  then have "links (map (\<lambda>j. map link_to zs ! j) [0 ..< i + 1]) = image_mset tr_at (somes zs)"
    by (simp only: links_somes [OF nz])
  then have "rc (heap m) (image_mset tr_at (T0 + mset (opt c)) + links (map (\<lambda>j. map link_to zs ! j) [0 ..< i + 1])) A"
    using treesD(1) [OF t] by (simp add: ac_simps)
  from binomial_unref_cells_ok [OF this arr] len obtain m1 A1 where m1: "binomial_unref_cells arr [0 ..< i + 1] m = Some m1"
    "dropped m A (image_mset tr_at (T0 + mset (opt c))) m1 A1" by auto
  have "T0 + somes zs + mset (opt c) = somes zs + (T0 + mset (opt c))" by (simp add: ac_simps)
  with t have "trees h m (somes zs + (T0 + mset (opt c))) A {}" by simp
  from dropped_trees(1) [OF this m1(2)] have t1: "trees h m1 (T0 + mset (opt c)) A1 {}" .
  have "\<exists>m2 A'. binomial_tree_unref (link_to c) m1 = Some m2 \<and> trees h m2 T0 A' {}"
  proof (cases c)
    case None
    with t1 show ?thesis by auto
  next
    case (Some u)
    with t1 unref_trees [of h m1 u T0 A1 "{}"] show ?thesis by auto
  qed
  with m1(1) show ?thesis unfolding binomial_heap_merge_undo_def by blast
qed

lemma found_links:
  assumes ctx: "merge_ctx hp other xs ys T0 N" and c: "\<forall>t. c = Some t \<longrightarrow> tr_at t \<noteq> 0"
  shows "\<exists>v1 v2. binomial_root hp i = Some v1 \<and> binomial_root other i = Some v2 \<and>
    v1 @ v2 @ (if link_to c \<noteq> 0 then [link_to c] else []) = map tr_at (found xs ys c i)"
proof -
  have "binomial_root hp i = Some (map tr_at (opt (root_at xs i)))" "binomial_root other i = Some (map tr_at (opt (root_at ys i)))"
    using ctx binomial_root_ok [of hp xs i] binomial_root_ok [of other ys i] by (auto simp: merge_ctx_def)
  moreover have "(if link_to c \<noteq> 0 then [link_to c] else []) = map tr_at (opt c)" using c by (cases c) simp_all
  ultimately show ?thesis by (simp add: found_def)
qed

lemma found_reached:
  assumes ctx: "merge_ctx hp other xs ys T0 N"
  shows "\<forall>u \<in> set (found xs ys c i). reached (T0 + S + mset (opt c)) u" "\<forall>u \<in># left xs ys i. reached T0 u"
proof -
  have T0: "T0 \<subseteq># T0 + S + mset (opt c)" by (simp add: add.assoc)
  have r: "reached T0 u" if "u \<in># somes xs + somes ys" for u using ctx that by (simp add: merge_ctx_def)
  have a: "u \<in># somes xs" if "u \<in> set (opt (root_at xs i))" for u xs
  proof -
    have "i < length xs" "xs ! i = Some u" using that by (auto simp: root_at_def split: if_splits option.splits) (cases "xs ! i"; simp)
    then show ?thesis by (metis in_somes nth_mem)
  qed
  show "\<forall>u \<in> set (found xs ys c i). reached (T0 + S + mset (opt c)) u"
  proof
    fix u assume "u \<in> set (found xs ys c i)"
    then consider "u \<in># somes xs + somes ys" | "u \<in># mset (opt c)" using a unfolding found_def by auto
    then show "reached (T0 + S + mset (opt c)) u"
    proof cases
      case 1
      from reached_mono [OF r [OF this] T0] show ?thesis .
    next
      case 2
      then show ?thesis by (simp add: reached_def)
    qed
  qed
  have b: "u \<in># somes xs" if "u \<in># somes (drop i xs)" for u xs using that in_set_dropD by (fastforce simp: in_somes)
  show "\<forall>u \<in># left xs ys i. reached T0 u" using r b unfolding left_def by auto
qed

lemma reached_nodes:
  assumes "trees h m T A Z" "\<forall>u \<in># S. reached T u"
  shows "set_mset (nodes_of S) \<subseteq> A"
  using reached_at(3) [OF assms(1)] assms(2) by (fastforce simp: nodes_of_def)

lemma merge_loop_ok:
  assumes ctx: "merge_ctx hp other xs ys T0 N"
  shows "merge_inv hp xs ys N V zs c (unat l) \<Longrightarrow> trees h m (T0 + somes zs + mset (opt c)) A {} \<Longrightarrow>
   holds arr (map link_to zs) \<Longrightarrow> length arr = N \<Longrightarrow>
   \<exists>r m'. binomial_merge_loop hp other [length zs ..< N] arr l (link_to c) m = Some (r, m') \<and>
     (case r of None \<Rightarrow> \<exists>A'. trees h m' T0 A' {}
      | Some (arr', l') \<Rightarrow> \<exists>zs' A'. length zs' = N \<and> merge_inv hp xs ys N V zs' None (unat l') \<and>
          trees h m' (T0 + somes zs') A' {} \<and> holds arr' (map link_to zs')) \<and>
     (ample (2 * (N - length zs) + n) m \<longrightarrow> r \<noteq> None \<and> ample n m')"
proof (induction "N - length zs" arbitrary: zs c l m A arr)
  case 0
  then have N: "length zs = N" "c = None" by (auto simp: merge_inv_def)
  with 0 have "\<exists>zs' A'. length zs' = N \<and> merge_inv hp xs ys N V zs' None (unat l) \<and>
      trees h m (T0 + somes zs') A' {} \<and> holds arr (map link_to zs')" by (intro exI [of _ zs] exI [of _ A]) simp
  with N show ?case by simp
next
  case (Suc d)
  note inv = Suc.prems(1) and t = Suc.prems(2)
  have i: "length zs < N" using Suc.hyps(2) by simp
  define us where us: "us = found xs ys c (length zs)"
  note rk = found_ranks [OF ctx inv, folded us] and len = found_length [of xs ys c "length zs", folded us]
  have cmp: "comparator (binomial_heap_cmp hp)" and N: "N < 65535" and T0: "at_most 1 T0" using ctx by (simp_all add: merge_ctx_def)
  have one: "at_most 1 (somes zs + mset (opt c) + left xs ys (length zs))" using inv by (simp add: merge_inv_def)
  have zc: "at_most 1 (somes zs + mset (opt c))" and c1: "at_most 1 (mset (opt c))" by (rule at_most_sub [OF one], simp)+
  have at: "\<forall>u \<in> set us. binom_at (heap m) u \<and> tr_at u \<in> A"
    using found_reached(1) [OF ctx, of c "length zs" "somes zs"] reached_at [OF t] us by blast
  have am2: "at_most 65534 (T0 + somes zs + mset (opt c))"
    unfolding add.assoc by (rule at_most_mono [OF at_most_add [OF T0 zc]]) simp
  from store_step [OF t at am2] obtain m1 where m1:
    "if odd (length us) then binomial_tree_ref (tr_at (last us)) m = Some m1 else m1 = m"
    "trees h m1 (T0 + somes zs + mset (opt c) + mset (opt (stored us))) A {}" "quiet m A m1" "kept (heap m) (heap m1) A" by blast
  have at1: "\<forall>u \<in> set us. binom_at (heap m1) u \<and> tr_at u \<in> A"
    using at binom_at_keep [OF _ m1(4) treesD(1) [OF m1(2)]] by blast
  have am3: "at_most 65534 (T0 + somes zs + mset (opt c) + mset (opt (stored us)) + mset (pending hp us))"
  proof -
    have "nodes_of (somes zs + (mset (opt (stored us)) + mset (pending hp us))) \<subseteq># nodes_of (somes zs + mset (opt c) + left xs ys (length zs))"
    proof -
      have "nodes_of (somes zs + mset us) \<subseteq># nodes_of (somes zs + mset (opt c) + left xs ys (length zs))"
        using found_left [of xs ys "length zs" c] us
        by (intro nodes_of_mono) (simp add: add.assoc add.commute [of "mset (opt c)"])
      moreover have "nodes_of (somes zs + (mset (opt (stored us)) + mset (pending hp us))) \<subseteq># nodes_of (somes zs + mset us)"
        using us_nodes [OF len cmp rk] by (simp add: subset_mset.add_left_mono)
      ultimately show ?thesis by (rule subset_mset.order_trans [rotated])
    qed
    then have "at_most 1 (somes zs + (mset (opt (stored us)) + mset (pending hp us)))" by (rule at_most_sub [OF one])
    from at_most_mono [OF at_most_add [OF at_most_add [OF T0 c1] this], of 65534]
    have "at_most 65534 (T0 + mset (opt c) + (somes zs + (mset (opt (stored us)) + mset (pending hp us))))" by simp
    then show ?thesis by (simp add: ac_simps)
  qed
  have k: "length zs < 65535" using i N by simp
  have amp1: "ample (Suc (Suc (2 * d + n))) m1" if "ample (2 * (N - length zs) + n) m"
  proof -
    have "2 * (N - length zs) + n = Suc (Suc (2 * d + n))" unfolding Suc.hyps(2) [symmetric] by simp
    with that quiet_ample [OF m1(3) _ trees_dom [OF t]] show ?thesis by simp
  qed
  from link_step [OF m1(2) at1 rk k am3, of "2 * d + n"] obtain nc failed m2 where m2:
    "(if 2 \<le> length us
       then do { (c, m) \<leftarrow> binomial_tree_merge hp (map tr_at us ! 0) (map tr_at us ! 1) m1; Some (c, c = 0, m) }
       else Some (0, False, m1)) = Some (nc, failed, m2)"
    "if failed then trees h m2 (T0 + somes zs + mset (opt c) + mset (opt (stored us))) A {}
     else trees h m2 (T0 + somes zs + mset (opt c) + mset (opt (stored us)) + mset (pending hp us)) A (if 2 \<le> length us then {nc} else {}) \<and>
       (if 2 \<le> length us then fresh_node m2 nc (tr_value (fst (winner hp (us ! 0) (us ! 1)))) (pending hp us) else nc = 0)"
    "ample (Suc (Suc (2 * d + n))) m1 \<longrightarrow> \<not> failed \<and> ample (2 * d + n) m2" by blast
  define l1 where l1: "l1 = (if odd (length us) then of_nat (length zs + 1) else l)"
  have sl: "stored us = None \<longleftrightarrow> even (length us)" by (simp add: stored_def)
  have ul: "unat l1 = (if stored us = None then unat l else Suc (length zs))"
    using k unfolding l1 sl by (simp add: unat_of_nat flip: of_nat_Suc)
  obtain arr1 where arr1: "array_set arr (length zs) (link_to (stored us)) = Some arr1" "holds arr1 (map link_to (zs @ [stored us]))" "length arr1 = N"
    using holds_push [OF Suc.prems(3), of "link_to (stored us)"] i Suc.prems(4) by auto
  have "\<forall>t. c = Some t \<longrightarrow> tr_at t \<noteq> 0"
  proof (intro allI impI)
    fix u assume "c = Some u"
    then have "u \<in># T0 + somes zs + mset (opt c)" by simp
    from binom_at_root [OF treesD(2) [OF t this]] show "tr_at u \<noteq> 0" .
  qed
  from found_links [OF ctx this, of "length zs", folded us] obtain v1 v2 where v:
    "binomial_root hp (length zs) = Some v1" "binomial_root other (length zs) = Some v2"
    "v1 @ v2 @ (if link_to c \<noteq> 0 then [link_to c] else []) = map tr_at us" by blast
  have store: "(if odd (length (map tr_at us)) then do {
          new_roots \<leftarrow> array_set arr (length zs) (map tr_at us ! (length (map tr_at us) - 1));
          m \<leftarrow> binomial_tree_ref (map tr_at us ! (length (map tr_at us) - 1)) m;
          Some (new_roots, of_nat (length zs + 1), m)
        }
        else do {
          new_roots \<leftarrow> array_set arr (length zs) 0;
          Some (new_roots, l, m)
        }) = Some (arr1, l1, m1)"
  proof (cases "odd (length us)")
    case True
    then have "us \<noteq> []" by auto
    then have "map tr_at us ! (length (map tr_at us) - 1) = tr_at (last us)" by (simp add: last_conv_nth)
    with True arr1(1) m1(1) l1 show ?thesis by (simp add: stored_def)
  next
    case False
    with arr1(1) m1(1) l1 show ?thesis by (simp add: stored_def)
  qed
  have link: "(if 2 \<le> length (map tr_at us)
       then do { (c, m) \<leftarrow> binomial_tree_merge hp (map tr_at us ! 0) (map tr_at us ! 1) m1; Some (c, c = 0, m) }
       else Some (0, False, m1)) = Some (nc, failed, m2)" using m2(1) by (simp only: length_map)
  have upt: "[length zs ..< N] = length zs # [Suc (length zs) ..< N]" using i by (simp add: upt_conv_Cons)
  have unf: "binomial_merge_loop hp other [length zs ..< N] arr l (link_to c) m =
     (if failed then do {
       m \<leftarrow> binomial_heap_merge_undo arr1 (length zs) m2;
       m \<leftarrow> binomial_tree_unref (link_to c) m;
       Some (None, m)
     }
     else do {
       m \<leftarrow> binomial_tree_unref (link_to c) m2;
       m \<leftarrow> binomial_tree_ref nc m;
       binomial_merge_loop hp other [Suc (length zs) ..< N] arr1 l1 nc m
     })"
    by (simp only: upt binomial_merge_loop.simps v(1,2) bind.bind_lunit Let_def v(3) store link prod.case)
  show ?case
  proof (cases failed)
    case True
    have "T0 + somes zs + mset (opt c) + mset (opt (stored us)) = T0 + somes (zs @ [stored us]) + mset (opt c)" by (simp add: ac_simps)
    with m2(2) True have "trees h m2 (T0 + somes (zs @ [stored us]) + mset (opt c)) A {}" by simp
    from merge_undo_ok [OF this arr1(2), of "length zs"] True unf m2(3) amp1 show ?thesis by auto
  next
    case False
    have eq: "T0 + somes zs + mset (opt c) + mset (opt (stored us)) + mset (pending hp us) =
        (T0 + somes (zs @ [stored us])) + mset (opt c) + mset (pending hp us)" by (simp add: ac_simps)
    note m2ok = m2(2) [unfolded if_not_P [OF False] eq]
    have t2: "trees h m2 ((T0 + somes (zs @ [stored us])) + mset (opt c) + mset (pending hp us)) A (if 2 \<le> length us then {nc} else {})"
      and f2: "if 2 \<le> length us then fresh_node m2 nc (tr_value (fst (winner hp (us ! 0) (us ! 1)))) (pending hp us) else nc = 0"
      by (rule conjunct1 [OF m2ok], rule conjunct2 [OF m2ok])
    from carry_step [OF t2 f2 cmp rk k, of "2 * d + n"] obtain m3 m4 A4 where m4: "binomial_tree_unref (link_to c) m2 = Some m3"
      "binomial_tree_ref nc m3 = Some m4" "trees h m4 (T0 + somes (zs @ [stored us]) + mset (opt (carried hp nc us))) A4 {}"
      "ample (2 * d + n) m2 \<longrightarrow> ample (2 * d + n) m4" "link_to (carried hp nc us) = nc" by blast
    have fresh: "2 \<le> length us \<longrightarrow> nc \<notin># nodes_of (somes zs + mset (opt (stored us)) + mset (pending hp us) + left xs ys (Suc (length zs)))"
    proof
      assume two: "2 \<le> length us"
      have "\<forall>u \<in># somes zs + mset (opt (stored us)) + mset (pending hp us) + left xs ys (Suc (length zs)).
          reached ((T0 + somes (zs @ [stored us])) + mset (opt c) + mset (pending hp us)) u"
        using found_reached(2) [OF ctx, of "Suc (length zs)"] by (auto simp: reached_def)
      from reached_nodes [OF t2 this] treesD(4) [OF t2] two
      show "nc \<notin># nodes_of (somes zs + mset (opt (stored us)) + mset (pending hp us) + left xs ys (Suc (length zs)))" by auto
    qed
    note inv1 = merge_inv_step [OF ctx inv i us fresh, folded ul]
    have "d = N - length (zs @ [stored us])" using Suc.hyps(2) by simp
    from Suc.hyps(1) [OF this inv1 m4(3) arr1(2,3)] obtain r m' where r:
      "binomial_merge_loop hp other [Suc (length zs) ..< N] arr1 l1 nc m4 = Some (r, m')"
      "case r of None \<Rightarrow> \<exists>A'. trees h m' T0 A' {}
        | Some (arr', l') \<Rightarrow> \<exists>zs' A'. length zs' = N \<and> merge_inv hp xs ys N V zs' None (unat l') \<and>
            trees h m' (T0 + somes zs') A' {} \<and> holds arr' (map link_to zs')"
      "ample (2 * (N - length (zs @ [stored us])) + n) m4 \<longrightarrow> r \<noteq> None \<and> ample n m'" unfolding m4(5) by auto
    have "2 * (N - length (zs @ [stored us])) + n = 2 * d + n" using Suc.hyps(2) by simp
    with r(3) m4(4) m2(3) amp1 have "ample (2 * (N - length zs) + n) m \<longrightarrow> r \<noteq> None \<and> ample n m'" by simp
    with r(1,2) unf False m4(1,2) show ?thesis by (intro exI [of _ r] exI [of _ m']) simp
  qed
qed


lemma somes_none: "\<forall>j < length xs. xs ! j = None \<Longrightarrow> somes xs = {#}"
  by (induction xs) force+

lemma trimmed_take:
  assumes "trimmed l zs"
  shows "somes (take l zs) = somes zs" "take l zs \<noteq> [] \<longrightarrow> last (take l zs) \<noteq> None" "length (take l zs) = l"
proof -
  have l: "l \<le> length zs" and nn: "\<forall>j < length zs. l \<le> j \<longrightarrow> zs ! j = None" and la: "0 < l \<longrightarrow> zs ! (l - 1) \<noteq> None"
    using assms by (simp_all add: trimmed_def)
  have "somes zs = somes (take l zs) + somes (drop l zs)" by (simp flip: somes_append)
  moreover have "somes (drop l zs) = {#}" by (rule somes_none) (use nn l in simp)
  ultimately show "somes (take l zs) = somes zs" by simp
  show "length (take l zs) = l" using l by simp
  show "take l zs \<noteq> [] \<longrightarrow> last (take l zs) \<noteq> None"
    using l la by (auto simp: last_conv_nth)
qed

lemma unref_roots_ok:
  assumes t: "trees h m (somes xs + T) A {}" and r: "heap_roots hp xs"
  shows "\<exists>m' A'. binomial_unref_cells (bn_roots hp) [0 ..< unat (bn_roots_length hp)] m = Some m' \<and> trees h m' T A' {} \<and> quiet m A m'"
proof -
  have nz: "\<forall>t \<in># somes xs. tr_at t \<noteq> 0" using treesD(2) [OF t] binom_at_root by auto
  have len: "unat (bn_roots_length hp) = length (map link_to xs)" and hl: "holds (bn_roots hp) (map link_to xs)"
    using r by (simp_all add: heap_roots_def)
  have "map (\<lambda>j. map link_to xs ! j) [0 ..< unat (bn_roots_length hp)] = map link_to xs" unfolding len by (rule map_nth)
  then have "links (map (\<lambda>j. map link_to xs ! j) [0 ..< unat (bn_roots_length hp)]) = image_mset tr_at (somes xs)"
    by (simp only: links_somes [OF nz])
  then have "rc (heap m) (image_mset tr_at T + links (map (\<lambda>j. map link_to xs ! j) [0 ..< unat (bn_roots_length hp)])) A"
    using treesD(1) [OF t] by (simp add: ac_simps)
  from binomial_unref_cells_ok [OF this hl] len obtain m1 A1 where m1:
    "binomial_unref_cells (bn_roots hp) [0 ..< unat (bn_roots_length hp)] m = Some m1" "dropped m A (image_mset tr_at T) m1 A1" by auto
  from dropped_trees [OF t m1(2)] m1(1) show ?thesis by blast
qed

definition same_order :: "binomial_heap \<Rightarrow> binomial_heap \<Rightarrow> bool" where
  "same_order hp hp' \<longleftrightarrow> bn_heap_type hp' = bn_heap_type hp \<and> bn_compare_func hp' = bn_compare_func hp"

lemma same_order_cmp: "same_order hp hp' \<Longrightarrow> binomial_heap_cmp hp' = binomial_heap_cmp hp"
  by (simp add: binomial_heap_cmp_eq same_order_def)

lemma binomial_heap_merge_ok:
  assumes roots: "heap_roots hp xs" "heap_roots other ys" and c: "comparator (binomial_heap_cmp hp)"
    and t: "trees h m (somes xs + T) A {}" and one: "at_most 1 (somes xs + T)"
    and ys: "nodes_of (somes xs + somes ys) \<subseteq># nodes_of (somes xs + T)" "\<forall>t \<in># somes ys. reached (somes xs + T) t"
    and rk: "ranked (binomial_heap_cmp hp) xs" "ranked (binomial_heap_cmp hp) ys" and len: "length xs \<le> 40" "length ys \<le> 40"
  shows "\<exists>ok hp' m' A'. binomial_heap_merge hp other m = Some (ok, hp', m') \<and>
    (if ok then \<exists>zs. heap_roots hp' zs \<and> trees h m' (somes zs + T) A' {} \<and> at_most 1 (somes zs) \<and>
        ranked (binomial_heap_cmp hp) zs \<and> vals_of (somes zs) = vals_of (somes xs + somes ys) \<and>
        (zs \<noteq> [] \<longrightarrow> last zs \<noteq> None) \<and>
        same_order hp hp' \<and> bn_num_values hp' = bn_num_values hp
     else hp' = hp \<and> trees h m' (somes xs + T) A' {}) \<and>
    (ample (83 + n) m \<longrightarrow> ok \<and> ample n m')"
proof -
  obtain granted m1 where blk: "malloc_block m = (granted, m1)" by (rule prod.exhaust)
  note t1 = trees_same_heap [OF t malloc_block_heap [OF blk]]
  define mx where mx: "mx = (if bn_roots_length hp > bn_roots_length other then bn_roots_length hp + 1 else bn_roots_length other + 1)"
  define N where N: "N = unat mx"
  have ul: "unat (bn_roots_length hp) = length xs" "unat (bn_roots_length other) = length ys" using roots by (simp_all add: heap_roots_def)
  have u1: "unat (x + 1) = unat x + 1" if "unat x \<le> 40" for x :: c_uint using that by (simp add: unat_word_ariths)
  have Nm: "N = max (length xs) (length ys) + 1"
    unfolding N mx using u1 [of "bn_roots_length hp"] u1 [of "bn_roots_length other"] ul len
    by (auto simp: word_less_nat_alt)
  have "tr_at u \<noteq> 0" if "reached (somes xs + T) u" for u using binom_at_root reached_at(1) [OF t that] by blast
  moreover have "reached (somes xs + T) u" if "u \<in># somes xs" for u using that by (simp add: reached_def)
  ultimately have ctx: "merge_ctx hp other xs ys (somes xs + T) N"
    unfolding merge_ctx_def using roots c one ys(2) rk len Nm by auto
  have "left xs ys 0 = somes xs + somes ys" by (simp add: left_def)
  then have inv: "merge_inv hp xs ys N (vals_of (somes xs + somes ys)) [] None (unat (0 :: c_uint))"
    using at_most_sub [OF one ys(1)] by (simp add: merge_inv_def ranked_def trimmed_def)
  have "trees h m1 (somes xs + T + somes [] + mset (opt None)) A {}" using t1 by simp
  from merge_loop_ok [OF ctx inv this, of "array_new N" n] obtain r m2 where r:
    "binomial_merge_loop hp other [0 ..< N] (array_new N) 0 0 m1 = Some (r, m2)"
    "case r of None \<Rightarrow> \<exists>A'. trees h m2 (somes xs + T) A' {}
      | Some (arr', l') \<Rightarrow> \<exists>zs' A'. length zs' = N \<and> merge_inv hp xs ys N (vals_of (somes xs + somes ys)) zs' None (unat l') \<and>
          trees h m2 (somes xs + T + somes zs') A' {} \<and> holds arr' (map link_to zs')"
    "ample (2 * N + n) m1 \<longrightarrow> r \<noteq> None \<and> ample n m2" by auto
  have amp: "granted \<and> r \<noteq> None \<and> ample n m2" if "ample (83 + n) m"
  proof -
    have "ample (Suc (2 * N + n)) m" by (rule ample_le [OF that]) (use Nm len in simp)
    from malloc_block_ample [OF this blk] r(3) show ?thesis by simp
  qed
  have unf: "binomial_heap_merge hp other m = (if \<not> granted then Some (False, hp, m1)
      else case r of
            None \<Rightarrow> Some (False, hp, m2)
          | Some (new_roots, new_roots_length) \<Rightarrow> do {
              m \<leftarrow> binomial_unref_cells (bn_roots hp) [0 ..< unat (bn_roots_length hp)] m2;
              Some (True, hp\<lparr>bn_roots := new_roots, bn_roots_length := new_roots_length\<rparr>, m)
            })"
    unfolding binomial_heap_merge_def mx [symmetric] Let_def blk prod.case N [symmetric] r(1) by simp
  show ?thesis
  proof (cases "\<not> granted \<or> r = None")
    case True
    then have "\<exists>m' A'. binomial_heap_merge hp other m = Some (False, hp, m') \<and> trees h m' (somes xs + T) A' {}"
      using unf t1 r(2) by (cases granted) auto
    then obtain m' A' where "binomial_heap_merge hp other m = Some (False, hp, m')" "trees h m' (somes xs + T) A' {}" by blast
    with True amp show ?thesis by (intro exI [of _ False] exI [of _ hp] exI [of _ m'] exI [of _ A']) auto
  next
    case False
    then obtain arr l where rs: "r = Some (arr, l)" by auto
    with r(2) obtain zs' A1 where z: "length zs' = N" "merge_inv hp xs ys N (vals_of (somes xs + somes ys)) zs' None (unat l)"
      "trees h m2 (somes xs + T + somes zs') A1 {}" "holds arr (map link_to zs')" by auto
    let ?hp = "hp\<lparr>bn_roots := arr, bn_roots_length := l\<rparr>" and ?zs = "take (unat l) zs'"
    have tr: "trimmed (unat l) zs'" using z(2) by (simp add: merge_inv_def)
    note tt = trimmed_take [OF tr]
    have "somes xs + T + somes zs' = somes xs + (somes ?zs + T)" by (simp add: tt(1) ac_simps)
    with z(3) have "trees h m2 (somes xs + (somes ?zs + T)) A1 {}" by simp
    from unref_roots_ok [OF this roots(1)] obtain m3 A3 where m3:
      "binomial_unref_cells (bn_roots hp) [0 ..< unat (bn_roots_length hp)] m2 = Some m3" "trees h m3 (somes ?zs + T) A3 {}" "quiet m2 A1 m3" by blast
    have "left xs ys N = {#}" using Nm by (simp add: left_def)
    then have "at_most 1 (somes ?zs)" "vals_of (somes ?zs) = vals_of (somes xs + somes ys)" "ranked (binomial_heap_cmp hp) ?zs"
      using z(1,2) tt(1) by (simp_all add: merge_inv_def ranked_def)
    moreover have "same_order hp ?hp" by (simp add: same_order_def)
    moreover have "heap_roots ?hp ?zs" using tt(3) holds_take [OF z(4), of "unat l"] by (simp add: heap_roots_def take_map)
    moreover have "binomial_heap_merge hp other m = Some (True, ?hp, m3)" using unf False rs m3(1) by simp
    moreover have "ample n m3" if "ample (83 + n) m" using amp [OF that] quiet_ample [OF m3(3) _ trees_dom [OF z(3)]] by blast
    ultimately show ?thesis using m3(2) tt(2)
      by (intro exI [of _ True] exI [of _ ?hp] exI [of _ m3] exI [of _ A3]) (auto intro!: exI [of _ ?zs])
  qed
qed


section \<open>The heap as a multiset\<close>

definition binom_rep :: "(addr \<rightharpoonup> binomial_tree) \<Rightarrow> binomial_heap \<Rightarrow> btmem \<Rightarrow> val multiset \<Rightarrow> bool" where
  "binom_rep h hp m V \<longleftrightarrow> size V < 2 ^ 32 \<and> bn_num_values hp = of_nat (size V) \<and>
     (\<exists>xs A. heap_roots hp xs \<and> trees h m (somes xs) A {} \<and> at_most 1 (somes xs) \<and> ranked (binomial_heap_cmp hp) xs \<and>
       vals_of (somes xs) = V \<and> (xs \<noteq> [] \<longrightarrow> last xs \<noteq> None))"

lemma binom_repE:
  assumes "binom_rep h hp m V"
  obtains xs A where "size V < 2 ^ 32" "bn_num_values hp = of_nat (size V)" "heap_roots hp xs" "trees h m (somes xs) A {}"
    "at_most 1 (somes xs)" "ranked (binomial_heap_cmp hp) xs" "vals_of (somes xs) = V" "xs \<noteq> [] \<longrightarrow> last xs \<noteq> None"
  using assms by (auto simp: binom_rep_def)

lemma size_vals: "binom_ok c t \<Longrightarrow> size (vals t) = 2 ^ length (tr_kids t)"
proof (induction t)
  case (Binom a v ts)
  have sz: "size (vals (ts ! i)) = 2 ^ i" if "i < length ts" for i
    using Binom that nth_mem [OF that] by simp
  have "size (sum_list (map vals ts)) = (\<Sum>t \<leftarrow> ts. size (vals t))" by (induction ts) simp_all
  also have "\<dots> = (\<Sum>i \<leftarrow> [0 ..< length ts]. size (vals (ts ! i)))"
    by (rule arg_cong [of _ _ sum_list], rule nth_equalityI) simp_all
  also have "\<dots> = (\<Sum>i \<leftarrow> [0 ..< length ts]. 2 ^ i)" by (rule arg_cong [of _ _ sum_list], rule map_cong) (use sz in auto)
  also have "\<dots> = 2 ^ length ts - 1"
  proof -
    have "(\<Sum>i \<leftarrow> [0 ..< n]. 2 ^ i) = 2 ^ n - (1 :: nat)" for n by (induction n) simp_all
    then show ?thesis .
  qed
  finally show ?case by simp
qed

lemma vals_somes_mono: "xs ! i = Some t \<Longrightarrow> i < length xs \<Longrightarrow> vals t \<subseteq># vals_of (somes xs)"
proof (induction xs arbitrary: i)
  case (Cons x xs)
  show ?case
  proof (cases i)
    case 0
    with Cons.prems show ?thesis by simp
  next
    case (Suc j)
    with Cons have "vals t \<subseteq># vals_of (somes xs)" by simp
    from subset_mset.order_trans [OF this mset_subset_eq_add_right] show ?thesis by simp
  qed
qed simp

lemma roots_length:
  assumes "ranked c xs" "xs \<noteq> [] \<longrightarrow> last xs \<noteq> None" "size (vals_of (somes xs)) < 2 ^ 32"
  shows "length xs \<le> 32"
proof (cases "xs = []")
  case False
  let ?i = "length xs - 1"
  obtain t where t: "xs ! ?i = Some t" using assms(2) False by (auto simp: last_conv_nth)
  have i: "?i < length xs" using False by simp
  have "rank_ok c ?i (xs ! ?i)" using assms(1) i by (simp add: ranked_def)
  then have "size (vals t) = 2 ^ ?i" using size_vals [of c t] t by simp
  moreover have "size (vals t) \<le> size (vals_of (somes xs))" using vals_somes_mono [OF t i] by (rule size_mset_mono)
  ultimately have "(2 :: nat) ^ ?i < 2 ^ 32" using assms(3) by simp
  from power_less_imp_less_exp [OF _ this] show ?thesis by simp
qed simp

text \<open>A new node with its first reference.\<close>

lemma leaf_trees:
  assumes t: "trees h m T A {}" and m1: "heap m1 = (heap m)(a \<mapsto> \<lparr>bt_value = v, bt_order = 0, bt_refcount = 1, bt_subtrees = []\<rparr>)"
    and a: "heap m a = None" "a \<noteq> 0"
  shows "trees h m1 (T + {#Binom a v []#}) (insert a A) {}"
proof -
  let ?e = "\<lparr>bt_value = v, bt_order = 0, bt_refcount = 1, bt_subtrees = []\<rparr>"
  note t1 = alloc_trees [OF t m1 a(1)]
  have h1: "heap m1 a = Some ?e" using m1 by simp
  have aA: "a \<notin> A" using treesD(4) [OF t1] by simp
  have "rc ((heap m1)(a \<mapsto> ?e\<lparr>bt_refcount := 1\<rparr>)) (add_mset a (image_mset tr_at T)) (insert a A)"
    using rc_enter [of "heap m1" "image_mset tr_at T" ?e A a] treesD(1) [OF t1] h1 a(2) aA by simp
  moreover have "(heap m1)(a \<mapsto> ?e\<lparr>bt_refcount := 1\<rparr>) = heap m1" using h1 by (simp add: fun_upd_idem)
  ultimately have "rc (heap m1) (add_mset a (image_mset tr_at T)) (insert a A)" by simp
  moreover have "binom_at (heap m1) (Binom a v [])" using h1 a(2) by simp
  ultimately show ?thesis using treesD(2,3) [OF t1] by (auto simp: trees_def)
qed

lemma leaf_at_most:
  assumes t: "trees h m T A {}" and a: "heap m a = None" and one: "at_most 1 T"
  shows "at_most 1 (T + {#Binom a v []#})"
proof -
  have "a \<notin># nodes_of T"
  proof
    assume "a \<in># nodes_of T"
    then have "a \<in> A" using reached_nodes [OF t, of T] by (auto simp: reached_def)
    with trees_dom [OF t] a show False by blast
  qed
  then have "count (nodes_of T) a = 0" by (simp only: not_in_iff)
  with one show ?thesis by (simp add: at_most_def)
qed

lemma heap_roots_num [simp]: "heap_roots (hp\<lparr>bn_num_values := n\<rparr>) xs \<longleftrightarrow> heap_roots hp xs"
  by (simp add: heap_roots_def)

lemma binomial_heap_insert_ok:
  assumes r: "binom_rep h hp m V" and c: "comparator (binomial_heap_cmp hp)" and sz: "size V + 1 < 2 ^ 32"
  shows "\<exists>ok hp' m'. binomial_heap_insert hp v m = Some (ok, hp', m') \<and> same_order hp hp' \<and>
    (if ok then binom_rep h hp' m' (add_mset v V) else hp' = hp \<and> binom_rep h hp m' V) \<and>
    (ample (84 + n) m \<longrightarrow> ok \<and> ample n m')"
proof -
  let ?leaf = "\<lparr>bt_value = v, bt_order = 0, bt_refcount = 1, bt_subtrees = []\<rparr>"
  obtain xs A where nv: "bn_num_values hp = of_nat (size V)" and roots: "heap_roots hp xs" and t: "trees h m (somes xs) A {}"
    and one: "at_most 1 (somes xs)" and rk: "ranked (binomial_heap_cmp hp) xs" and V: "vals_of (somes xs) = V"
    and la: "xs \<noteq> [] \<longrightarrow> last xs \<noteq> None" and szV: "size V < 2 ^ 32" using r by (rule binom_repE)
  show ?thesis
  proof (cases rule: malloc_cases [of ?leaf m])
    case (fail m1)
    then have "binomial_heap_insert hp v m = Some (False, hp, m1)" by (simp add: binomial_heap_insert_def)
    moreover have "binom_rep h hp m1 V"
      unfolding binom_rep_def using nv roots trees_same_heap [OF t fail(3)] one rk V la szV by blast
    moreover have "\<not> ample (84 + n) m" using fail(2) ample_can_alloc [of "83 + n" m] by auto
    ultimately show ?thesis by (auto simp: same_order_def)
  next
    case (ok a m1)
    let ?t = "Binom a v []"
    let ?other = "\<lparr>bn_heap_type = bn_heap_type hp, bn_compare_func = bn_compare_func hp, bn_num_values = 1,
               bn_roots = [Some a], bn_roots_length = 1\<rparr>"
    note t1 = leaf_trees [OF t ok(6,5,4)] and one1 = leaf_at_most [OF t ok(5) one, of v]
    have or: "heap_roots ?other [Some ?t]" by (simp add: heap_roots_def holds_def)
    have len: "length xs \<le> 40" "length [Some ?t] \<le> 40" using roots_length [OF rk la] V szV by simp_all
    have nd: "nodes_of (somes xs + somes [Some ?t]) \<subseteq># nodes_of (somes xs + {#?t#})" by simp
    have re: "\<forall>u \<in># somes [Some ?t]. reached (somes xs + {#?t#}) u" by (simp add: reached_def)
    have r1: "ranked (binomial_heap_cmp hp) [Some ?t]" by (simp add: ranked_def)
    from binomial_heap_merge_ok [OF roots or c t1 one1 nd re rk r1 len, of n] obtain ok' hp1 m2 A2 where mg:
      "binomial_heap_merge hp ?other m1 = Some (ok', hp1, m2)"
      "if ok' then \<exists>zs. heap_roots hp1 zs \<and> trees h m2 (somes zs + {#?t#}) A2 {} \<and> at_most 1 (somes zs) \<and>
        ranked (binomial_heap_cmp hp) zs \<and> vals_of (somes zs) = vals_of (somes xs + somes [Some ?t]) \<and>
        (zs \<noteq> [] \<longrightarrow> last zs \<noteq> None) \<and>
        same_order hp hp1 \<and> bn_num_values hp1 = bn_num_values hp
       else hp1 = hp \<and> trees h m2 (somes xs + {#?t#}) A2 {}"
      "ample (83 + n) m1 \<longrightarrow> ok' \<and> ample n m2" by blast
    have am1: "ample (83 + n) m1" if "ample (84 + n) m"
      by (rule ample_alloc [of "83 + n" m]) (use that ok(3,6,7) in simp_all)
    obtain zs where z: "trees h m2 (add_mset ?t (somes zs)) A2 {}" "if ok' then heap_roots hp1 zs \<and> at_most 1 (somes zs) \<and>
        ranked (binomial_heap_cmp hp) zs \<and> vals_of (somes zs) = add_mset v V \<and> (zs \<noteq> [] \<longrightarrow> last zs \<noteq> None) \<and>
        same_order hp hp1 \<and> bn_num_values hp1 = bn_num_values hp else hp1 = hp \<and> zs = xs"
    proof (cases ok')
      case True
      with mg(2) obtain zs where "heap_roots hp1 zs" "trees h m2 (somes zs + {#?t#}) A2 {}" "at_most 1 (somes zs)"
        "ranked (binomial_heap_cmp hp) zs" "vals_of (somes zs) = vals_of (somes xs + somes [Some ?t])"
        "zs \<noteq> [] \<longrightarrow> last zs \<noteq> None" "same_order hp hp1" "bn_num_values hp1 = bn_num_values hp" unfolding if_P [OF True] by blast
      with True V that [of zs] show ?thesis by simp
    next
      case False
      with mg(2) that [of xs] show ?thesis by simp
    qed
    from unref_trees [OF z(1)] obtain m3 A3 where m3: "binomial_tree_unref a m2 = Some m3" "trees h m3 (somes zs) A3 {}" "quiet m2 A2 m3" by auto
    let ?hp = "if ok' then hp1\<lparr>bn_num_values := bn_num_values hp1 + 1\<rparr> else hp1"
    have "binomial_heap_insert hp v m = Some (ok', ?hp, m3)"
      using ok(1,4) mg(1) m3(1) by (simp add: binomial_heap_insert_def Let_def)
    moreover have so: "same_order hp ?hp" using z(2) by (cases ok') (simp_all add: same_order_def)
    moreover have "if ok' then binom_rep h ?hp m3 (add_mset v V) else ?hp = hp \<and> binom_rep h hp m3 V"
    proof (cases ok')
      case True
      then have "binom_rep h ?hp m3 (add_mset v V)"
        unfolding binom_rep_def same_order_cmp [OF so] using z(2) m3(2) sz nv
        by (intro conjI exI [of _ zs] exI [of _ A3]) simp_all
      with True show ?thesis by simp
    next
      case False
      then show ?thesis unfolding binom_rep_def using z(2) m3(2) nv roots one rk V la szV by auto
    qed
    moreover have "ok' \<and> ample n m3" if "ample (84 + n) m"
      using mg(3) am1 [OF that] quiet_ample [OF m3(3) _ trees_dom [OF z(1)]] by blast
    ultimately show ?thesis by (intro exI [of _ ok'] exI [of _ ?hp] exI [of _ m3]) blast
  qed
qed


text \<open>The root of a tree is least in it.\<close>

lemma root_least:
  assumes c: "comparator c"
  shows "binom_ok c t \<Longrightarrow> y \<in># vals t \<Longrightarrow> c (tr_value t) y \<le> 0"
proof (induction t)
  case (Binom a v ts)
  show ?case
  proof (cases "y = v")
    case True
    then show ?thesis using comparator.cmp_refl [OF c] by simp
  next
    case False
    then obtain u where u: "u \<in> set ts" "y \<in># vals u" using Binom.prems(2) by (auto simp: set_mset_sum_list)
    with Binom have "c (tr_value u) y \<le> 0" "c v (tr_value u) \<le> 0" by auto
    then show ?thesis using comparator.cmp_trans [OF c] by fastforce
  qed
qed

text \<open>The search for the least root, after the first \<open>k\<close> of them.\<close>

definition least_so_far :: "(val \<Rightarrow> val \<Rightarrow> int) \<Rightarrow> btree option list \<Rightarrow> nat \<Rightarrow> c_uint \<Rightarrow> bool" where
  "least_so_far c xs k least \<longleftrightarrow>
     least = - 1 \<and> (\<forall>j < k. xs ! j = None) \<or>
     (\<exists>j t. least = of_nat j \<and> j < k \<and> xs ! j = Some t \<and> (\<forall>i < k. \<forall>s. xs ! i = Some s \<longrightarrow> c (tr_value t) (tr_value s) \<le> 0))"

lemma binomial_least_ok:
  assumes c: "comparator (binomial_heap_cmp hp)" and roots: "heap_roots hp xs" and len: "length xs \<le> 40"
    and t: "\<forall>t \<in># somes xs. binom_at (heap m) t"
  shows "least_so_far (binomial_heap_cmp hp) xs k least \<Longrightarrow> k \<le> length xs \<Longrightarrow>
   \<exists>l. binomial_least hp [k ..< length xs] least m = Some l \<and> least_so_far (binomial_heap_cmp hp) xs (length xs) l"
proof (induction "length xs - k" arbitrary: k least)
  case 0
  then show ?case by simp
next
  case (Suc d)
  let ?c = "binomial_heap_cmp hp"
  have k: "k < length xs" using Suc.hyps(2) by simp
  then have upt: "[k ..< length xs] = k # [Suc k ..< length xs]" by (simp add: upt_conv_Cons)
  have get: "array_get (bn_roots hp) i = Some (link_to (xs ! i))" if "i < length xs" for i
    using roots holds_get [of "bn_roots hp" "map link_to xs" i] that by (simp add: heap_roots_def)
  have at: "binom_at (heap m) s" if "i < length xs" "xs ! i = Some s" for i s
    using t that by (metis in_somes nth_mem)
  have d: "d = length xs - Suc k" "Suc k \<le> length xs" using Suc.hyps(2) by simp_all
  show ?case
  proof (cases "xs ! k")
    case None
    then have "least_so_far ?c xs (Suc k) least"
      using Suc.prems(1) unfolding least_so_far_def by (fastforce simp: less_Suc_eq)
    from Suc.hyps(1) [OF d(1) this d(2)] show ?thesis unfolding upt using None get [OF k] by simp
  next
    case (Some s)
    obtain e where e: "heap m (tr_at s) = Some e" "bt_value e = tr_value s" "tr_at s \<noteq> 0"
      using binom_at_node [OF at [OF k Some]] binom_at_root [OF at [OF k Some]] by blast
    have "\<exists>better. (if least = - 1 then Some True
          else do {
            e \<leftarrow> load (tr_at s) m;
            l \<leftarrow> array_get (bn_roots hp) (unat least);
            f \<leftarrow> load l m;
            Some (?c (bt_value e) (bt_value f) < 0)
          }) = Some better \<and> least_so_far ?c xs (Suc k) (if better then of_nat k else least)"
    proof (cases "least = - 1")
      case True
      have nm1: "of_nat j \<noteq> (- 1 :: c_uint)" if "j < k" for j
      proof
        assume "of_nat j = (- 1 :: c_uint)"
        then have "unat (of_nat j :: c_uint) = unat (- 1 :: c_uint)" by simp
        moreover have "unat (- 1 :: c_uint) = 2 ^ 32 - 1" by (simp add: unsigned_minus_1_eq_mask mask_eq_exp_minus_1)
        ultimately show False using that k len by (simp add: unat_of_nat)
      qed
      then have "\<forall>j < k. xs ! j = None" using Suc.prems(1) True unfolding least_so_far_def by metis
      then have "\<forall>i < Suc k. \<forall>u. xs ! i = Some u \<longrightarrow> ?c (tr_value s) (tr_value u) \<le> 0"
        using Some comparator.cmp_refl [OF c] by (auto simp: less_Suc_eq)
      then have "least_so_far ?c xs (Suc k) (of_nat k)" using Some unfolding least_so_far_def by blast
      with True show ?thesis by (intro exI [of _ True]) simp
    next
      case False
      with Suc.prems(1) obtain j u where j: "least = of_nat j" "j < k" "xs ! j = Some u"
        "\<forall>i < k. \<forall>s. xs ! i = Some s \<longrightarrow> ?c (tr_value u) (tr_value s) \<le> 0" unfolding least_so_far_def by blast
      have jl: "j < length xs" using j(2) k by simp
      obtain f where f: "heap m (tr_at u) = Some f" "bt_value f = tr_value u" "tr_at u \<noteq> 0"
        using binom_at_node [OF at [OF jl j(3)]] binom_at_root [OF at [OF jl j(3)]] by blast
      have uj: "unat least = j" using j(1,2) k len by (simp add: unat_of_nat)
      have "least_so_far ?c xs (Suc k) (if ?c (tr_value s) (tr_value u) < 0 then of_nat k else least)"
      proof (cases "?c (tr_value s) (tr_value u) < 0")
        case True
        have "?c (tr_value s) (tr_value v) \<le> 0" if "i < Suc k" "xs ! i = Some v" for i v
        proof (cases "i = k")
          case True
          then show ?thesis using that Some comparator.cmp_refl [OF c] by simp
        next
          case False
          then have "?c (tr_value u) (tr_value v) \<le> 0" using that j(4) by (auto simp: less_Suc_eq)
          then show ?thesis using comparator.cmp_trans [OF c, of "tr_value s" "tr_value u" "tr_value v"] True by simp
        qed
        with True Some show ?thesis unfolding least_so_far_def by auto
      next
        case False
        have "?c (tr_value u) (tr_value v) \<le> 0" if "i < Suc k" "xs ! i = Some v" for i v
          using that j(4) Some False comparator.cmp_le_flip [OF c, of "tr_value u" "tr_value s"] by (auto simp: less_Suc_eq)
        with False j(1-3) show ?thesis unfolding least_so_far_def by auto
      qed
      moreover have "link_to (xs ! j) = tr_at u" using j(3) by simp
      ultimately show ?thesis using False e f get [OF jl] uj by (simp add: mem_simps)
    qed
    then obtain better where b: "(if least = - 1 then Some True
          else do {
            e \<leftarrow> load (tr_at s) m;
            l \<leftarrow> array_get (bn_roots hp) (unat least);
            f \<leftarrow> load l m;
            Some (?c (bt_value e) (bt_value f) < 0)
          }) = Some better" "least_so_far ?c xs (Suc k) (if better then of_nat k else least)" by blast
    from Suc.hyps(1) [OF d(1) b(2) d(2)] show ?thesis
      unfolding upt using Some get [OF k] e(3) b(1) by (simp cong: if_cong)
  qed
qed

lemma somes_update: "i < length xs \<Longrightarrow> xs ! i = Some t \<Longrightarrow> somes xs = add_mset t (somes (xs[i := None]))"
proof (induction xs arbitrary: i)
  case (Cons x xs)
  then show ?case by (cases i) auto
qed simp

lemma somes_all: "somes (map Some ts) = mset ts"
  by (induction ts) simp_all


lemma vals_somes: "y \<in># vals_of (somes xs) \<longleftrightarrow> (\<exists>i < length xs. \<exists>s. xs ! i = Some s \<and> y \<in># vals s)"
proof -
  have "y \<in># vals_of (somes xs) \<longleftrightarrow> (\<exists>s. s \<in># somes xs \<and> y \<in># vals s)" by (auto simp: vals_of_def)
  then show ?thesis by (auto simp: in_somes in_set_conv_nth)
qed

lemma binomial_heap_pop_ok:
  assumes r: "binom_rep h hp m V" and c: "comparator (binomial_heap_cmp hp)" and ne: "V \<noteq> {#}"
  shows "\<exists>ok x hp' m'. binomial_heap_pop hp m = Some (if ok then x else 0, hp', m') \<and> same_order hp hp' \<and>
    (if ok then x \<in># V \<and> (\<forall>y \<in># V. binomial_heap_cmp hp x y \<le> 0) \<and> binom_rep h hp' m' (V - {#x#})
     else hp' = hp \<and> binom_rep h hp m' V) \<and>
    (ample (83 + n) m \<longrightarrow> ok \<and> ample n m')"
proof -
  let ?c = "binomial_heap_cmp hp"
  obtain xs A where szV: "size V < 2 ^ 32" and nv: "bn_num_values hp = of_nat (size V)" and roots: "heap_roots hp xs"
    and t: "trees h m (somes xs) A {}" and one: "at_most 1 (somes xs)" and rk: "ranked ?c xs" and V: "vals_of (somes xs) = V"
    and la: "xs \<noteq> [] \<longrightarrow> last xs \<noteq> None" using r by (rule binom_repE)
  have len: "length xs \<le> 32" using roots_length [OF rk la] V szV by simp
  then have len40: "length xs \<le> 40" by simp
  have nz: "bn_num_values hp \<noteq> 0"
  proof -
    have "unat (of_nat (size V) :: c_uint) = size V" using szV by (simp add: unat_of_nat)
    with ne nv show ?thesis by (metis size_eq_0_iff_empty unat_0)
  qed
  have at: "\<forall>t \<in># somes xs. binom_at (heap m) t" using treesD(2) [OF t] by blast
  have "least_so_far ?c xs 0 (- 1)" by (simp add: least_so_far_def)
  from binomial_least_ok [OF c roots len40 at this] obtain l where l: "binomial_least hp [0 ..< length xs] (- 1) m = Some l"
    "least_so_far ?c xs (length xs) l" by auto
  have "\<not> (\<forall>i < length xs. xs ! i = None)"
    using ne V somes_none [of xs] by (metis vals_of_simps(1))
  then have "\<exists>j t. l = of_nat j \<and> j < length xs \<and> xs ! j = Some t \<and>
      (\<forall>i < length xs. \<forall>s. xs ! i = Some s \<longrightarrow> ?c (tr_value t) (tr_value s) \<le> 0)"
    using l(2) unfolding least_so_far_def by (elim disjE) (erule notE, erule conjunct2, assumption)
  then obtain j u where j: "l = of_nat j" "j < length xs" "xs ! j = Some u"
    "\<forall>i < length xs. \<forall>s. xs ! i = Some s \<longrightarrow> ?c (tr_value u) (tr_value s) \<le> 0" by blast
  have uj: "unat l = j" using j(1,2) len by (simp add: unat_of_nat)
  let ?xs = "xs[j := None]" let ?ys = "map Some (tr_kids u)"
  have so: "somes xs = add_mset u (somes ?xs)" by (rule somes_update [OF j(2,3)])
  have arr: "holds (bn_roots hp) (map link_to xs)" and rl: "unat (bn_roots_length hp) = length xs" using roots by (simp_all add: heap_roots_def)
  have get: "array_get (bn_roots hp) j = Some (tr_at u)" using holds_get [OF arr] j(2,3) by simp
  obtain arr' where arr': "array_set (bn_roots hp) j 0 = Some arr'" "holds arr' (map link_to ?xs)"
    using holds_set [OF arr, of j 0] j(2) by (auto simp: map_update)
  have "(bn_roots hp)[j := Some (tr_at u)] = bn_roots hp" using get by (metis array_get_def list_update_id option.distinct(1))
  then have bk: "array_set arr' j (tr_at u) = Some (bn_roots hp)"
    using arr'(1) by (auto simp: array_set_def split: if_splits)
  let ?hp = "hp\<lparr>bn_roots := arr'\<rparr>"
  have uA: "u \<in># somes xs" using so by simp
  note ua = treesD(2) [OF t uA]
  obtain e where e: "heap m (tr_at u) = Some e" "bt_value e = tr_value u" "bt_subtrees e = map tr_at (tr_kids u)"
    "unat (bt_order e) = length (tr_kids u)" "tr_at u \<noteq> 0" using binom_at_node [OF ua] binom_at_root [OF ua] by blast
  have ru: "length (tr_kids u) = j" "binom_ok ?c u" using rk j(2,3) by (auto simp: ranked_def dest!: spec [of _ j])
  let ?other = "\<lparr>bn_heap_type = bn_heap_type ?hp, bn_compare_func = bn_compare_func ?hp, bn_num_values = 0,
     bn_roots = map Some (bt_subtrees e), bn_roots_length = ucast (bt_order e)\<rparr>"
  have hc: "binomial_heap_cmp ?hp = ?c" by (simp add: binomial_heap_cmp_eq)
  have g1: "heap_roots ?hp ?xs" using roots arr'(2) by (simp add: heap_roots_def)
  have "unat (bt_order e) < 2 ^ 16" using unsigned_less [of "bt_order e"] by simp
  then have "unat (ucast (bt_order e) :: c_uint) = unat (bt_order e)" by (simp add: unsigned_ucast_eq take_bit_nat_eq_self)
  then have g2: "heap_roots ?other ?ys" using e(3,4) by (simp add: heap_roots_def holds_def comp_def)
  have g3: "comparator (binomial_heap_cmp ?hp)" using c hc by simp
  have g4: "trees h m (somes ?xs + {#u#}) A {}" and g5: "at_most 1 (somes ?xs + {#u#})" using t one so by simp_all
  have g6: "nodes_of (somes ?xs + somes ?ys) \<subseteq># nodes_of (somes ?xs + {#u#})" unfolding somes_all by (cases u) simp
  have g7: "\<forall>s \<in># somes ?ys. reached (somes ?xs + {#u#}) s" unfolding somes_all by (auto simp: reached_def)
  have g8: "ranked (binomial_heap_cmp ?hp) ?xs" using rk j(2) unfolding hc ranked_def by (simp add: nth_list_update)
  have g9: "ranked (binomial_heap_cmp ?hp) ?ys" using ru unfolding hc ranked_def by (cases u) auto
  have g10: "length ?xs \<le> 40" "length ?ys \<le> 40" using len j(2) ru(1) by simp_all
  from binomial_heap_merge_ok [OF g1 g2 g3 g4 g5 g6 g7 g8 g9 g10, of n] obtain ok hp1 m1 A1 where mg:
    "binomial_heap_merge ?hp ?other m = Some (ok, hp1, m1)"
    "if ok then \<exists>zs. heap_roots hp1 zs \<and> trees h m1 (somes zs + {#u#}) A1 {} \<and> at_most 1 (somes zs) \<and>
        ranked (binomial_heap_cmp ?hp) zs \<and> vals_of (somes zs) = vals_of (somes ?xs + somes ?ys) \<and>
        (zs \<noteq> [] \<longrightarrow> last zs \<noteq> None) \<and> same_order ?hp hp1 \<and> bn_num_values hp1 = bn_num_values ?hp
     else hp1 = ?hp \<and> trees h m1 (somes ?xs + {#u#}) A1 {}"
    "ample (83 + n) m \<longrightarrow> ok \<and> ample n m1" by blast
  have start: "binomial_heap_pop hp m = do {
        (ok, hp, m) \<leftarrow> binomial_heap_merge ?hp ?other m;
        if ok then do {
          t \<leftarrow> load (tr_at u) m;
          m \<leftarrow> binomial_tree_unref (tr_at u) m;
          Some (bt_value t, hp\<lparr>bn_num_values := bn_num_values hp - 1\<rparr>, m)
        }
        else do {
          roots \<leftarrow> array_set (bn_roots hp) (unat l) (tr_at u);
          Some (0, hp\<lparr>bn_roots := roots\<rparr>, m)
        }
      }"
    using nz l(1) get arr'(1) e(1,5) by (simp add: binomial_heap_pop_def rl uj Let_def mem_simps)
  show ?thesis
  proof (cases ok)
    case False
    with mg(2) so have f: "hp1 = ?hp" "trees h m1 (somes xs) A1 {}" by simp_all
    have "hp\<lparr>bn_roots := arr', bn_roots := bn_roots hp\<rparr> = hp" by simp
    then have "binomial_heap_pop hp m = Some (0, hp, m1)" using start mg(1) False f(1) bk uj by simp
    moreover have "binom_rep h hp m1 V" unfolding binom_rep_def using szV nv roots f(2) one rk V la by blast
    ultimately show ?thesis using False mg(3) by (intro exI [of _ False] exI [of _ 0] exI [of _ hp] exI [of _ m1]) (simp add: same_order_def)
  next
    case True
    with mg(2) obtain zs where z: "heap_roots hp1 zs" "trees h m1 (somes zs + {#u#}) A1 {}" "at_most 1 (somes zs)"
      "ranked ?c zs" "vals_of (somes zs) = vals_of (somes ?xs + somes ?ys)"
      "zs \<noteq> [] \<longrightarrow> last zs \<noteq> None" "same_order ?hp hp1" "bn_num_values hp1 = bn_num_values hp" unfolding if_P [OF True] hc by auto
    have z2: "trees h m1 (add_mset u (somes zs)) A1 {}" using z(2) by (simp add: add.commute)
    have "u \<in># add_mset u (somes zs)" by simp
    note u1 = treesD(2) [OF z2 this]
    obtain e1 where e1: "load (tr_at u) m1 = Some e1" "bt_value e1 = tr_value u"
      using binom_at_node [OF u1] e(5) by (auto simp: mem_simps)
    from unref_trees [OF z2] obtain m2 A2 where m2: "binomial_tree_unref (tr_at u) m1 = Some m2" "trees h m2 (somes zs) A2 {}" "quiet m1 A1 m2" by blast
    let ?hp2 = "hp1\<lparr>bn_num_values := bn_num_values hp1 - 1\<rparr>"
    have pop: "binomial_heap_pop hp m = Some (tr_value u, ?hp2, m2)" using start mg(1) True e1 m2(1) by simp
    have so2: "same_order hp ?hp2" using z(7) by (simp add: same_order_def)
    have Vu: "V = add_mset (tr_value u) (vals_of (somes ?xs) + vals_of (mset (tr_kids u)))"
      using V so by (cases u) (simp add: ac_simps)
    have least: "?c (tr_value u) y \<le> 0" if "y \<in># V" for y
    proof -
      from that V obtain i s where s: "i < length xs" "xs ! i = Some s" "y \<in># vals s" using vals_somes by metis
      have "binom_ok ?c s" using rk s(1,2) by (auto simp: ranked_def dest!: spec [of _ i])
      from root_least [OF c this s(3)] j(4) s(1,2) show ?thesis using comparator.cmp_trans [OF c] by blast
    qed
    have V': "vals_of (somes zs) = V - {#tr_value u#}" using z(5) Vu by (simp add: somes_all)
    have uV: "tr_value u \<in># V" using Vu by simp
    have "binom_rep h ?hp2 m2 (V - {#tr_value u#})"
      unfolding binom_rep_def same_order_cmp [OF so2]
    proof (intro conjI exI [of _ zs] exI [of _ A2])
      show "size (V - {#tr_value u#}) < 2 ^ 32" using szV by (simp add: size_Diff_singleton uV)
      have "size V = Suc (size (V - {#tr_value u#}))" using uV by (metis insert_DiffM size_add_mset)
      then show "bn_num_values ?hp2 = of_nat (size (V - {#tr_value u#}))" using nv z(8) by simp
    qed (use z m2(2) V' in simp_all)
    moreover have "ample n m2" if "ample (83 + n) m" using mg(3) that quiet_ample [OF m2(3) _ trees_dom [OF z2]] by blast
    ultimately show ?thesis using pop so2 least uV
      by (intro exI [of _ True] exI [of _ "tr_value u"] exI [of _ ?hp2] exI [of _ m2]) simp
  qed
qed



section \<open>The contract of a priority queue\<close>







section \<open>Properties\<close>


text \<open>C25: Whatever the allocator does, an insertion and a removal return, never touch a freed node and
  never overflow a 16-bit reference count.  If one fails, the partly merged trees are given back,
  the heap is what it was and holds the same values; with enough memory none fails, and a removal
  gives a least value.\<close>

theorem binomial_heap_all_or_nothing:
  assumes "binom_rep h hp m V" "good_cmp (bn_heap_type hp) (bn_compare_func hp)" "size V + 1 < 2 ^ 32" "V \<noteq> {#}"
  shows "(\<exists>ok hp' m'. binomial_heap_insert hp v m = Some (ok, hp', m') \<and>
      (if ok then binom_rep h hp' m' (add_mset v V) else hp' = hp \<and> binom_rep h hp m' V) \<and> (ample 84 m \<longrightarrow> ok)) \<and>
    (\<exists>ok x hp' m'. binomial_heap_pop hp m = Some (if ok then x else 0, hp', m') \<and>
      (if ok then x \<in># V \<and> (\<forall>y \<in># V. binomial_heap_cmp hp x y \<le> 0) \<and> binom_rep h hp' m' (V - {#x#})
       else hp' = hp \<and> binom_rep h hp m' V) \<and> (ample 83 m \<longrightarrow> ok))"
proof -
  have c: "comparator (binomial_heap_cmp hp)" using comparator_heap_cmp [OF assms(2)] by (simp add: binomial_heap_cmp_eq)
  from binomial_heap_insert_ok [OF assms(1) c assms(3), of v 0] binomial_heap_pop_ok [OF assms(1) c assms(4), of 0]
  show ?thesis by (elim exE conjE) (intro conjI exI, (assumption | simp)+)
qed


definition one_value :: "val \<Rightarrow> binomial_heap" where
  "one_value v = \<lparr>bn_heap_type = Heap_Min, bn_compare_func = pointer_compare, bn_num_values = 1, bn_roots = [Some 1], bn_roots_length = 1\<rparr>"

definition one_value_mem :: "val \<Rightarrow> btmem" where
  "one_value_mem v = \<lparr>heap = [1 \<mapsto> \<lparr>bt_value = v, bt_order = 0, bt_refcount = 1, bt_subtrees = []\<rparr>], answers = [2, 3]\<rparr>"

lemma one_value_rep: "binom_rep Map.empty (one_value v) (one_value_mem v) {#v#}"
proof -
  let ?m = "\<lparr>heap = Map.empty, answers = [2, 3]\<rparr> :: btmem"
  have "trees Map.empty ?m {#} {} {}" by (simp add: trees_def rc_def owned_def)
  from leaf_trees [OF this, of "one_value_mem v" 1 v] have "trees Map.empty (one_value_mem v) (somes [Some (Binom 1 v [])]) {1} {}"
    by (simp add: one_value_mem_def)
  then show ?thesis
    unfolding binom_rep_def
    by (intro conjI exI [of _ "[Some (Binom 1 v [])]"] exI [of _ "{1}"])
      (simp_all add: one_value_def heap_roots_def holds_def at_most_def ranked_def)
qed

theorem binomial_heap_all_or_nothing_witness:
  "(\<exists>ok hp' m'. binomial_heap_insert (one_value 4) 6 (one_value_mem 4) = Some (ok, hp', m') \<and>
      (if ok then binom_rep Map.empty hp' m' {#6, 4#} else hp' = one_value 4 \<and> binom_rep Map.empty (one_value 4) m' {#4#}) \<and>
      (ample 84 (one_value_mem 4) \<longrightarrow> ok)) \<and>
    (\<exists>ok x hp' m'. binomial_heap_pop (one_value 4) (one_value_mem 4) = Some (if ok then x else 0, hp', m') \<and>
      (if ok then x \<in># {#4#} \<and> (\<forall>y \<in># {#4#}. binomial_heap_cmp (one_value 4) x y \<le> 0) \<and> binom_rep Map.empty hp' m' ({#4#} - {#x#})
       else hp' = one_value 4 \<and> binom_rep Map.empty (one_value 4) m' {#4#}) \<and> (ample 83 (one_value_mem 4) \<longrightarrow> ok))"
  by (rule binomial_heap_all_or_nothing [OF one_value_rep])
    (use pointer_cmp.comparator_axioms in \<open>simp_all add: good_cmp_def one_value_def\<close>)

end
