(* ===== verification/Tournament.thy ===== *)
theory Tournament
  imports Prelude
begin

text \<open>
  The loser tree of \<open>algorithm/tournament_sort/merge_sort.c\<close>: it merges channels of quotes, each
  sorted by time, into one sequence.  The memory that the channels point to is a partial map from
  addresses to quotes; a static array is a list of its length, and an access outside is undefined.
\<close>

section \<open>The code\<close>








text \<open>The macros compute with the operands they are given, here of 32 bits, and of 64 bits.\<close>

definition encode_tick :: "c_uint \<Rightarrow> c_uint \<Rightarrow> c_uint" where
  "encode_tick a b = push_bit 12 a + b"

definition decode_tick_row :: "64 word \<Rightarrow> c_uint" where
  "decode_tick_row v = ucast (drop_bit 12 (and 0xFFFFF000 v))"

definition decode_tick_col :: "64 word \<Rightarrow> c_uint" where
  "decode_tick_col v = ucast (and 0xFFF v)"

definition REACH_END :: "64 word" where
  "REACH_END = - 1"


text \<open>Access to an array with an index that may be negative.\<close>

definition at_index :: "'a list \<Rightarrow> int \<Rightarrow> 'a option" where
  "at_index xs i = (if 0 \<le> i \<and> nat i < length xs then Some (xs ! nat i) else None)"

definition put_index :: "'a list \<Rightarrow> int \<Rightarrow> 'a \<Rightarrow> 'a list option" where
  "put_index xs i x = (if 0 \<le> i \<and> nat i < length xs then Some (xs[nat i := x]) else None)"













lemma at_index_nat [simp]: "at_index xs (int i) = (if i < length xs then Some (xs ! i) else None)"
  "put_index xs (int i) x = (if i < length xs then Some (xs[i := x]) else None)"
  "at_index xs 0 = (if 0 < length xs then Some (xs ! 0) else None)"
  "put_index xs 0 x = (if 0 < length xs then Some (xs[0 := x]) else None)"
  by (simp_all add: at_index_def put_index_def)


section \<open>The tournament\<close>





definition from_up :: "nat \<Rightarrow> nat \<Rightarrow> bool" where
  "from_up n x \<longleftrightarrow> (\<exists>j. n = x div 2 ^ j)"

lemma from_up_self [simp]: "from_up x x"
  by (auto simp: from_up_def intro: exI [of _ 0])

















section \<open>The state of the merge\<close>



















section \<open>Codes\<close>

lemma drop_high: "drop_bit 12 (and (push_bit 12 (mask 20)) v) = take_bit 20 (drop_bit 12 (v :: 64 word))"
proof (rule bit_word_eqI)
  fix n :: nat
  assume "n < LENGTH(64)"
  have v: "12 + n < 64" if "bit v (12 + n)" using that bit_imp_le_length by fastforce
  show "bit (drop_bit 12 (and (push_bit 12 (mask 20)) v)) n \<longleftrightarrow> bit (take_bit 20 (drop_bit 12 v)) n"
    unfolding bit_drop_bit_eq comp_def bit_and_iff bit_push_bit_iff bit_mask_iff bit_take_bit_iff possible_bit_word
    using v by auto
qed

lemma decode_encode:
  fixes a b :: c_uint
  assumes "a < 2 ^ 20" "b < 2 ^ 12"
  shows "decode_tick_row (ucast (encode_tick a b)) = a \<and> decode_tick_col (ucast (encode_tick a b)) = b"
proof -
  have ab: "unat a < 2 ^ 20" "unat b < 2 ^ 12" using assms by (simp_all add: word_less_nat_alt)
  have u: "unat (encode_tick a b) = unat a * 2 ^ 12 + unat b"
    using ab by (simp add: encode_tick_def push_bit_eq_mult unat_word_ariths)
  let ?v = "ucast (encode_tick a b) :: 64 word"
  have v: "unat ?v = unat a * 2 ^ 12 + unat b" using u ab by (simp add: unsigned_ucast_eq take_bit_nat_eq_self)
  have "unat (and 0xFFF ?v) = unat b"
  proof -
    have "and 0xFFF ?v = take_bit 12 ?v" by (simp add: take_bit_eq_mask mask_eq_exp_minus_1 and.commute)
    moreover have "unat (take_bit 12 ?v) = unat ?v mod 2 ^ 12"
      using take_bit_eq_mod [of 12 "unat ?v"] by (simp only: unsigned_take_bit_eq)
    ultimately show ?thesis using v ab by simp
  qed
  moreover have "unat (drop_bit 12 (and 0xFFFFF000 ?v)) = unat a"
  proof -
    have "(0xFFFFF000 :: 64 word) = push_bit 12 (mask 20)" by (simp add: mask_eq_exp_minus_1)
    then have "drop_bit 12 (and 0xFFFFF000 ?v) = take_bit 20 (drop_bit 12 ?v)" using drop_high [of ?v] by (simp only:)
    moreover have "unat (take_bit 20 (drop_bit 12 ?v)) = unat ?v div 2 ^ 12 mod 2 ^ 20"
      using take_bit_eq_mod [of 20 "drop_bit 12 (unat ?v)"] drop_bit_eq_div [of 12 "unat ?v"]
      by (simp only: unsigned_take_bit_eq unat_drop_bit_eq)
    ultimately show ?thesis using v ab by simp
  qed
  ultimately show ?thesis using ab
    by (simp add: decode_tick_row_def decode_tick_col_def word_unat_eq_iff unsigned_ucast_eq take_bit_nat_eq_self)
qed

lemma encode_tick_wraps: "encode_tick (2 ^ 20) 7 = encode_tick 0 7"
  by (simp add: encode_tick_def)

section \<open>Taking the ticks\<close>










section \<open>The whole merge\<close>









text \<open>The row and the column of a tick come back out of its code, as long as the row is below
  2 to the 20 and the column below 2 to the 12.\<close>

theorem tick_code_roundtrip:
  assumes "row < 2 ^ 20" "col < 2 ^ 12"
  shows "decode_tick_row (ucast (encode_tick row col)) = row \<and>
    decode_tick_col (ucast (encode_tick row col)) = col \<and> ucast (encode_tick row col) \<noteq> REACH_END"
proof -
  have "ucast (encode_tick row col) \<noteq> REACH_END"
  proof
    assume "ucast (encode_tick row col) = REACH_END"
    then have "unat (ucast (encode_tick row col) :: 64 word) = 2 ^ 64 - 1"
      by (simp add: REACH_END_def unsigned_minus_1_eq_mask mask_eq_exp_minus_1)
    moreover have "unat (encode_tick row col) < 2 ^ 32" by (rule less_le_trans [OF unsigned_less]) simp
    then have "unat (ucast (encode_tick row col) :: 64 word) < 2 ^ 32"
      by (simp add: unsigned_ucast_eq take_bit_nat_eq_self)
    ultimately show False by simp
  qed
  then show ?thesis using decode_encode [OF assms] by blast
qed

theorem tick_code_roundtrip_witness:
  "decode_tick_row (ucast (encode_tick 1048575 4095)) = 1048575 \<and>
   decode_tick_col (ucast (encode_tick 1048575 4095)) = 4095 \<and> ucast (encode_tick 1048575 4095) \<noteq> REACH_END"
  by (rule tick_code_roundtrip) simp_all








end
