(* ===== verification/JsonNumber.thy ===== *)
theory JsonNumber
  imports Complex_Main Prelude
begin

text \<open>
  The numbers of the JSON library \<open>cplusplus/jsonbenchmark/parson.c\<close>: the type double of the machine
  and the functions of the C library that the parser and the serializer use on it, \<open>strtod\<close> and
  \<open>sprintf\<close> with the formats \<open>%d\<close> and \<open>%f\<close>.  A finite double is a rational number; the sign of a zero
  is not kept, because no operation of the code can see it.  Text is a list of characters without
  the terminating NUL.
\<close>

section \<open>Doubles\<close>

datatype double = Finite rat | Infinite bool | NaN

text \<open>Rounding to an integer, ties to even, and to the nearest double, by the exponent of its last bit.\<close>

definition round_even :: "rat \<Rightarrow> int" where
  "round_even x =
     (let f = \<lfloor>x\<rfloor>; r = x - of_int f in if r < 1 / 2 \<or> r = 1 / 2 \<and> even f then f else f + 1)"

definition last_bit :: "rat \<Rightarrow> int option" where
  "last_bit x = List.find (\<lambda>e. \<bar>x\<bar> < 2 powi (53 + e)) [- 1074 .. 971]"

definition round_double :: "rat \<Rightarrow> double" where
  "round_double x =
     (case last_bit x of
        None \<Rightarrow> Infinite (x < 0)
      | Some e \<Rightarrow>
          (let y = of_int (round_even (x / 2 powi e)) * 2 powi e
           in if \<bar>y\<bar> < 2 powi 1024 then Finite y else Infinite (x < 0)))"

text \<open>The cast to int is undefined for a number whose integral part is not an int.\<close>

definition double_to_int :: "double \<Rightarrow> int option" where
  "double_to_int d =
     (case d of
        Finite x \<Rightarrow>
          (let i = (if 0 \<le> x then \<lfloor>x\<rfloor> else \<lceil>x\<rceil>) in if - (2 ^ 31) \<le> i \<and> i < 2 ^ 31 then Some i else None)
      | _ \<Rightarrow> None)"

section \<open>Characters\<close>

definition char_code :: "char \<Rightarrow> nat" where
  "char_code c = of_char c"

definition isdigit :: "char \<Rightarrow> bool" where
  "isdigit c \<longleftrightarrow> 48 \<le> char_code c \<and> char_code c \<le> 57"

definition isxdigit :: "char \<Rightarrow> bool" where
  "isxdigit c \<longleftrightarrow> isdigit c \<or> 65 \<le> char_code c \<and> char_code c \<le> 70 \<or> 97 \<le> char_code c \<and> char_code c \<le> 102"

text \<open>The space characters of the C locale: tab to carriage return, and the space.\<close>

definition isspace :: "char \<Rightarrow> bool" where
  "isspace c \<longleftrightarrow> 9 \<le> char_code c \<and> char_code c \<le> 13 \<or> char_code c = 32"

definition isalnum :: "char \<Rightarrow> bool" where
  "isalnum c \<longleftrightarrow> isdigit c \<or> 65 \<le> char_code c \<and> char_code c \<le> 90 \<or> 97 \<le> char_code c \<and> char_code c \<le> 122"

definition lower :: "char \<Rightarrow> char" where
  "lower c = (if 65 \<le> char_code c \<and> char_code c \<le> 90 then char_of (char_code c + 32) else c)"

definition hex_value :: "char \<Rightarrow> nat" where
  "hex_value c =
     (if isdigit c then char_code c - 48
      else if char_code c \<le> 70 then char_code c - 55 else char_code c - 87)"

definition number_value :: "nat \<Rightarrow> string \<Rightarrow> nat" where
  "number_value base ds = foldl (\<lambda>n c. base * n + hex_value c) 0 ds"

section \<open>strtod\<close>

definition starts_with :: "string \<Rightarrow> string \<Rightarrow> bool" where
  "starts_with p s \<longleftrightarrow> take (length p) s = p"

text \<open>An optional sign: whether it is a minus, and what follows.\<close>

definition scan_sign :: "string \<Rightarrow> bool \<times> string" where
  "scan_sign s =
     (case s of
        [] \<Rightarrow> (False, s)
      | c # r \<Rightarrow> if c = CHR ''-'' then (True, r) else if c = CHR ''+'' then (False, r) else (False, s))"

text \<open>The digits on both sides of an optional point; both may not be empty.\<close>

definition scan_mantissa :: "(char \<Rightarrow> bool) \<Rightarrow> string \<Rightarrow> (string \<times> string \<times> string) option" where
  "scan_mantissa digit s =
     (let ip = takeWhile digit s; s1 = dropWhile digit s;
          r = (case s1 of
                 [] \<Rightarrow> ([], s1)
               | c # s2 \<Rightarrow> if c = CHR ''.'' then (takeWhile digit s2, dropWhile digit s2) else ([], s1))
      in if ip = [] \<and> fst r = [] then None else Some (ip, fst r, snd r))"

text \<open>An optional exponent after one of the letters; its digits are decimal.\<close>

definition scan_exponent :: "char set \<Rightarrow> string \<Rightarrow> int \<times> string" where
  "scan_exponent letters s =
     (case s of
        [] \<Rightarrow> (0, s)
      | c # r \<Rightarrow>
          if c \<in> letters \<and> takeWhile isdigit (snd (scan_sign r)) \<noteq> [] then
            (let n = int (number_value 10 (takeWhile isdigit (snd (scan_sign r))))
             in (if fst (scan_sign r) then - n else n, dropWhile isdigit (snd (scan_sign r))))
          else (0, s))"

definition scan_hex :: "string \<Rightarrow> (rat \<times> string) option" where
  "scan_hex s =
     (if starts_with ''0x'' (map lower s) then
        (case scan_mantissa isxdigit (drop 2 s) of
           None \<Rightarrow> None
         | Some (ip, fp, r) \<Rightarrow>
             (let (e, r') = scan_exponent {CHR ''p'', CHR ''P''} r
              in Some (of_nat (number_value 16 (ip @ fp)) * 2 powi (e - 4 * int (length fp)), r')))
      else None)"

definition scan_decimal :: "string \<Rightarrow> (rat \<times> string) option" where
  "scan_decimal s =
     (case scan_mantissa isdigit s of
        None \<Rightarrow> None
      | Some (ip, fp, r) \<Rightarrow>
          (let (e, r') = scan_exponent {CHR ''e'', CHR ''E''} r
           in Some (of_nat (number_value 10 (ip @ fp)) * 10 powi (e - int (length fp)), r')))"

definition scan_special :: "string \<Rightarrow> (double \<times> string) option" where
  "scan_special s =
     (let l = map lower s in
      if starts_with ''infinity'' l then Some (Infinite False, drop 8 s)
      else if starts_with ''inf'' l then Some (Infinite False, drop 3 s)
      else if starts_with ''nan'' l then
        (let r = drop 3 s; t = dropWhile (\<lambda>c. isalnum c \<or> c = CHR ''_'') (tl r)
         in Some (NaN, if starts_with ''('' r \<and> starts_with '')'' t then tl t else r))
      else None)"

definition negate :: "double \<Rightarrow> double" where
  "negate d = (case d of Finite x \<Rightarrow> Finite (- x) | Infinite b \<Rightarrow> Infinite (\<not> b) | NaN \<Rightarrow> NaN)"

text \<open>The number at the start of a text and the text behind it; without a number, 0 and the text.\<close>

definition strtod :: "string \<Rightarrow> double \<times> string" where
  "strtod s =
     (let (neg, t) = scan_sign (dropWhile isspace s);
          r = (case scan_hex t of
                 Some (x, r) \<Rightarrow> Some (round_double x, r)
               | None \<Rightarrow>
                   (case scan_decimal t of
                      Some (x, r) \<Rightarrow> Some (round_double x, r)
                    | None \<Rightarrow> scan_special t))
      in case r of None \<Rightarrow> (Finite 0, s) | Some (d, r) \<Rightarrow> (if neg then negate d else d, r))"

section \<open>sprintf\<close>

definition digit_char :: "nat \<Rightarrow> char" where
  "digit_char n = char_of (48 + n)"

fun show_nat :: "nat \<Rightarrow> string" where
  "show_nat n = (if n < 10 then [digit_char n] else show_nat (n div 10) @ [digit_char (n mod 10)])"

definition sprintf_d :: "int \<Rightarrow> string" where
  "sprintf_d i = (if i < 0 then ''-'' else []) @ show_nat (nat \<bar>i\<bar>)"

text \<open>Six digits behind the point.\<close>

definition sprintf_f :: "double \<Rightarrow> string" where
  "sprintf_f d =
     (case d of
        Finite x \<Rightarrow>
          (let n = nat (round_even (\<bar>x\<bar> * 10 ^ 6)); f = show_nat (n mod 10 ^ 6)
           in (if x < 0 then ''-'' else []) @ show_nat (n div 10 ^ 6) @ ''.'' @ replicate (6 - length f) (CHR ''0'') @ f)
      | Infinite neg \<Rightarrow> if neg then ''-inf'' else ''inf''
      | NaN \<Rightarrow> ''nan'')"

declare show_nat.simps [simp del]

section \<open>Integers are read as they are printed\<close>

lemma char_code_char_of: "n < 256 \<Longrightarrow> char_code (char_of n) = n"
  by (simp add: char_code_def of_char_of)

lemma char_code_inj: "char_code c = char_code d \<longleftrightarrow> c = d"
  by (simp add: char_code_def)

lemma digit_char_code: "n < 10 \<Longrightarrow> char_code (digit_char n) = 48 + n"
  by (simp add: digit_char_def char_code_char_of)

lemma digit_char_facts: "n < 10 \<Longrightarrow> isdigit (digit_char n)" "n < 10 \<Longrightarrow> hex_value (digit_char n) = n"
  by (simp_all add: isdigit_def hex_value_def digit_char_code)

lemma show_nat_digits: "c \<in> set (show_nat n) \<Longrightarrow> isdigit c"
proof (induction n rule: show_nat.induct)
  case (1 n)
  then show ?case by (subst (asm) show_nat.simps) (auto simp: digit_char_facts split: if_splits)
qed

lemma show_nat_nonempty: "show_nat n \<noteq> []"
  by (subst show_nat.simps) simp

lemma number_value_snoc: "number_value b (ds @ [c]) = b * number_value b ds + hex_value c"
  by (simp add: number_value_def)

lemma number_value_show: "number_value 10 (show_nat n) = n"
proof (induction n rule: show_nat.induct)
  case (1 n)
  show ?case
  proof (cases "n < 10")
    case True
    then show ?thesis by (subst show_nat.simps) (simp add: number_value_def digit_char_facts)
  next
    case False
    then show ?thesis
      using 1 by (subst show_nat.simps) (simp add: number_value_snoc digit_char_facts)
  qed
qed

text \<open>What may stand behind a number.\<close>

definition ends_number :: "string \<Rightarrow> bool" where
  "ends_number s \<longleftrightarrow> (case s of [] \<Rightarrow> True | c # _ \<Rightarrow> \<not> isdigit c \<and> c \<notin> set ''.eExX'')"

lemma takeWhile_show: "ends_number r \<Longrightarrow> takeWhile isdigit (show_nat n @ r) = show_nat n"
  "ends_number r \<Longrightarrow> dropWhile isdigit (show_nat n @ r) = r"
  by (cases r; auto simp: ends_number_def takeWhile_append2 dropWhile_append2 show_nat_digits)+

lemma scan_decimal_show:
  assumes r: "ends_number r"
  shows "scan_decimal (show_nat n @ r) = Some (of_nat n, r)"
proof -
  have "scan_mantissa isdigit (show_nat n @ r) = Some (show_nat n, [], r)"
    using r unfolding scan_mantissa_def Let_def takeWhile_show [OF r]
    by (auto simp: show_nat_nonempty ends_number_def split: list.splits)
  moreover have "scan_exponent {CHR ''e'', CHR ''E''} r = (0, r)"
    using r by (cases r) (auto simp: scan_exponent_def ends_number_def)
  ultimately show ?thesis by (simp add: scan_decimal_def number_value_show)
qed

lemma lower_digit: "isdigit c \<Longrightarrow> lower c = c"
  by (simp add: isdigit_def lower_def)

lemma lower_x: "lower c = CHR ''x'' \<Longrightarrow> c = CHR ''x'' \<or> c = CHR ''X''"
proof -
  assume l: "lower c = CHR ''x''"
  show ?thesis
  proof (cases "65 \<le> char_code c \<and> char_code c \<le> 90")
    case True
    then have "char_of (char_code c + 32) = CHR ''x''" using l by (simp add: lower_def)
    from arg_cong [OF this, of char_code] have "char_code c = char_code (CHR ''X'')"
      using True by (simp add: char_code_char_of) (simp add: char_code_def)
    then show ?thesis by (simp add: char_code_inj)
  next
    case False
    with l show ?thesis by (auto simp: lower_def)
  qed
qed

lemma no_hex_show: "ends_number r \<Longrightarrow> scan_hex (show_nat n @ r) = None"
proof -
  assume r: "ends_number r"
  have "\<not> starts_with ''0x'' (map lower (show_nat n @ r))"
  proof
    assume s: "starts_with ''0x'' (map lower (show_nat n @ r))"
    obtain c cs where c: "show_nat n = c # cs" using show_nat_nonempty by (cases "show_nat n") auto
    have "\<exists>d ds. cs @ r = d # ds \<and> lower d = CHR ''x''"
      using s c by (cases "cs @ r") (auto simp: starts_with_def)
    then obtain d ds where d: "cs @ r = d # ds" "d = CHR ''x'' \<or> d = CHR ''X''" using lower_x by blast
    show False
    proof (cases cs)
      case Nil
      with d r show False by (auto simp: ends_number_def)
    next
      case (Cons e es)
      then have "isdigit d" using d(1) c show_nat_digits [of d n] by simp
      with d(2) show False by (auto simp: isdigit_def char_code_def)
    qed
  qed
  then show ?thesis by (simp add: scan_hex_def)
qed

lemma round_even_int: "round_even (of_int i) = i"
  by (simp add: round_even_def)

lemma find_append: "List.find P (xs @ ys) = (case List.find P xs of None \<Rightarrow> List.find P ys | Some x \<Rightarrow> Some x)"
  by (induction xs) simp_all

lemma last_bit_int: "\<bar>i\<bar> < 2 ^ 53 \<Longrightarrow> \<exists>e \<le> 0. last_bit (of_int i) = Some e"
proof -
  assume i: "\<bar>i\<bar> < 2 ^ 53"
  let ?P = "\<lambda>e :: int. \<bar>of_int i :: rat\<bar> < 2 powi (53 + e)"
  have "upto (- 1074) 971 = upto (- 1074) 0 @ upto (0 + 1) 971" by (rule upto_split2) simp_all
  moreover have "\<exists>e \<in> set (upto (- 1074) 0). ?P e"
  proof (rule bexI [of _ 0])
    have "(of_int \<bar>i\<bar> :: rat) < of_int (2 ^ 53)" using i by (subst of_int_less_iff)
    then show "?P 0" by simp
  qed simp
  then obtain e where "List.find ?P (upto (- 1074) 0) = Some e" "e \<in> set (upto (- 1074) 0)"
    by (metis (no_types, lifting) find_None_iff find_Some_iff nth_mem option.exhaust)
  ultimately show ?thesis unfolding last_bit_def by (intro exI [of _ e]) (simp add: find_append)
qed

lemma round_double_int:
  assumes "\<bar>i\<bar> < 2 ^ 53"
  shows "round_double (of_int i) = Finite (of_int i)"
proof -
  obtain e where e: "e \<le> 0" "last_bit (of_int i) = Some e" using last_bit_int [OF assms] by blast
  have p: "(2 :: rat) powi e = 1 / 2 ^ nat (- e)"
    using e(1) by (cases "e = 0") (simp_all add: power_int_def power_one_over)
  then have "(of_int i :: rat) / 2 powi e = of_int (i * 2 ^ nat (- e))" by simp
  then have r1: "round_even (of_int i / 2 powi e) = i * 2 ^ nat (- e)" by (simp only: round_even_int)
  have r2: "of_int (i * 2 ^ nat (- e)) * 2 powi e = (of_int i :: rat)" using p by simp
  have b: "\<bar>of_int i :: rat\<bar> < 2 powi 1024"
  proof -
    have "(of_int \<bar>i\<bar> :: rat) < of_int (2 ^ 53)" using assms by (subst of_int_less_iff)
    also have "\<dots> \<le> of_int (2 ^ 1024)" by (subst of_int_le_iff) simp
    finally show ?thesis by simp
  qed
  show ?thesis by (simp only: round_double_def e(2) option.case r1 r2 Let_def b if_True)
qed

lemma show_nat_head: "\<exists>c cs. show_nat n = c # cs \<and> isdigit c"
  using show_nat_nonempty [of n] show_nat_digits [of _ n] by (cases "show_nat n") auto

lemma strtod_sprintf_d:
  assumes i: "\<bar>i\<bar> < 2 ^ 53" and r: "ends_number r"
  shows "strtod (sprintf_d i @ r) = (Finite (of_int i), r)"
proof -
  let ?t = "show_nat (nat \<bar>i\<bar>) @ r"
  obtain c cs where c: "show_nat (nat \<bar>i\<bar>) = c # cs" "isdigit c" using show_nat_head by blast
  have sp: "\<not> isspace c" and sg: "c \<noteq> CHR ''-''" "c \<noteq> CHR ''+''"
    using c(2) by (auto simp: isspace_def isdigit_def char_code_def)
  have minus: "\<not> isspace (CHR ''-'')" by (simp add: isspace_def char_code_def)
  have "(of_nat (nat \<bar>i\<bar>) :: rat) = of_int \<bar>i\<bar>" by simp
  then have round: "round_double (of_nat (nat \<bar>i\<bar>)) = Finite (of_int \<bar>i\<bar>)" using i by (simp only: round_double_int abs_abs)
  have rest: "scan_hex ?t = None" "scan_decimal ?t = Some (of_nat (nat \<bar>i\<bar>), r)"
    using no_hex_show [OF r] scan_decimal_show [OF r] by blast+
  show ?thesis
  proof (cases "i < 0")
    case True
    then have "scan_sign (dropWhile isspace (sprintf_d i @ r)) = (True, ?t)"
      using minus by (simp add: sprintf_d_def scan_sign_def)
    then show ?thesis using rest round True by (simp add: strtod_def negate_def)
  next
    case False
    then have "scan_sign (dropWhile isspace (sprintf_d i @ r)) = (False, ?t)"
      using c(1) sp sg by (simp add: sprintf_d_def scan_sign_def)
    then show ?thesis using rest round False by (simp add: strtod_def)
  qed
qed

end
