(* ===== verification/JsonValue.thy ===== *)
theory JsonValue
  imports JsonNumber
begin

text \<open>
  The values of the JSON library \<open>cplusplus/jsonbenchmark/parson.c\<close>: objects, arrays, their growth, and
  the allocation and release of values.  A value belongs to the array, the object or the caller that
  holds it, so a pointer to it is the value itself, and an operation that changes a value in place
  returns the changed value.  Strings are C strings: lists of characters without a NUL.

  The allocator is outside the program: \<open>jm_grants n\<close> says whether call number \<open>n\<close> succeeds.  The
  number of blocks in use is counted, so that a leak is visible.  \<open>None\<close> is undefined behaviour.
\<close>

section \<open>Data\<close>

datatype json_status = JSONSuccess | JSONFailure

datatype json_value_type = JSONError | JSONNull | JSONString | JSONNumber | JSONObject | JSONArray | JSONBoolean

text \<open>
  An object has its names and values in two arrays of \<open>capacity\<close> cells, of which the first
  \<open>count\<close> are in use: the members are that prefix.  A capacity of 0 stands for the NULL arrays.
\<close>

datatype json_value = V_Null | V_String string | V_Number double | V_Object json_object | V_Array json_array | V_Boolean int
  and json_object = Json_Object (obj_members: "(string \<times> json_value) list") (obj_capacity: nat)
  and json_array = Json_Array (arr_items: "json_value list") (arr_capacity: nat)

definition STARTING_CAPACITY :: nat where
  "STARTING_CAPACITY = 15"

definition ARRAY_MAX_CAPACITY :: nat where
  "ARRAY_MAX_CAPACITY = 122880"

definition OBJECT_MAX_CAPACITY :: nat where
  "OBJECT_MAX_CAPACITY = 960"

section \<open>Memory\<close>

record jmem =
  jm_grants :: "nat \<Rightarrow> bool"
  jm_calls :: nat
  jm_blocks :: int

definition parson_malloc :: "jmem \<Rightarrow> bool \<times> jmem" where
  "parson_malloc m =
     (jm_grants m (jm_calls m),
      m\<lparr>jm_calls := jm_calls m + 1, jm_blocks := jm_blocks m + (if jm_grants m (jm_calls m) then 1 else 0)\<rparr>)"

text \<open>Giving back \<open>n\<close> blocks; NULL is no block.\<close>

definition parson_free :: "nat \<Rightarrow> jmem \<Rightarrow> jmem" where
  "parson_free n m = m\<lparr>jm_blocks := jm_blocks m - int n\<rparr>"

definition parson_strndup :: "string \<Rightarrow> nat \<Rightarrow> jmem \<Rightarrow> string option \<times> jmem" where
  "parson_strndup s n m = (let (ok, m) = parson_malloc m in (if ok then Some (take n s) else None, m))"

definition parson_strdup :: "string \<Rightarrow> jmem \<Rightarrow> string option \<times> jmem" where
  "parson_strdup s m = parson_strndup s (length s) m"

section \<open>Reading values\<close>

definition json_value_get_type :: "json_value option \<Rightarrow> json_value_type" where
  "json_value_get_type v =
     (case v of
        None \<Rightarrow> JSONError
      | Some V_Null \<Rightarrow> JSONNull
      | Some (V_String _) \<Rightarrow> JSONString
      | Some (V_Number _) \<Rightarrow> JSONNumber
      | Some (V_Object _) \<Rightarrow> JSONObject
      | Some (V_Array _) \<Rightarrow> JSONArray
      | Some (V_Boolean _) \<Rightarrow> JSONBoolean)"

definition json_value_get_object :: "json_value option \<Rightarrow> json_object option" where
  "json_value_get_object v = (case v of Some (V_Object o1) \<Rightarrow> Some o1 | _ \<Rightarrow> None)"

definition json_value_get_array :: "json_value option \<Rightarrow> json_array option" where
  "json_value_get_array v = (case v of Some (V_Array a) \<Rightarrow> Some a | _ \<Rightarrow> None)"

definition json_value_get_string :: "json_value option \<Rightarrow> string option" where
  "json_value_get_string v = (case v of Some (V_String s) \<Rightarrow> Some s | _ \<Rightarrow> None)"

definition json_value_get_number :: "json_value option \<Rightarrow> double" where
  "json_value_get_number v = (case v of Some (V_Number d) \<Rightarrow> d | _ \<Rightarrow> Finite 0)"

definition json_value_get_boolean :: "json_value option \<Rightarrow> int" where
  "json_value_get_boolean v = (case v of Some (V_Boolean b) \<Rightarrow> b | _ \<Rightarrow> - 1)"

definition json_object_get_count :: "json_object option \<Rightarrow> nat" where
  "json_object_get_count ob = (case ob of None \<Rightarrow> 0 | Some ob \<Rightarrow> length (obj_members ob))"

definition json_array_get_count :: "json_array option \<Rightarrow> nat" where
  "json_array_get_count arr = (case arr of None \<Rightarrow> 0 | Some arr \<Rightarrow> length (arr_items arr))"

text \<open>The first member whose name is the first \<open>n\<close> characters of \<open>name\<close>.\<close>

fun find_member :: "(string \<times> json_value) list \<Rightarrow> string \<Rightarrow> nat \<Rightarrow> json_value option" where
  "find_member [] name n = None"
| "find_member ((k, v) # ms) name n =
     (if length k \<noteq> n then find_member ms name n
      else if take n k = take n name then Some v
      else find_member ms name n)"

definition json_object_nget_value :: "json_object option \<Rightarrow> string \<Rightarrow> nat \<Rightarrow> json_value option" where
  "json_object_nget_value ob name n = (case ob of None \<Rightarrow> None | Some ob \<Rightarrow> find_member (obj_members ob) name n)"

definition json_object_get_value :: "json_object option \<Rightarrow> string option \<Rightarrow> json_value option" where
  "json_object_get_value ob name =
     (if ob = None then None
      else (case name of None \<Rightarrow> None | Some name \<Rightarrow> json_object_nget_value ob name (length name)))"

section \<open>Releasing values\<close>

fun json_value_free :: "json_value \<Rightarrow> jmem \<Rightarrow> jmem"
  and json_object_free :: "json_object \<Rightarrow> jmem \<Rightarrow> jmem"
  and json_array_free :: "json_array \<Rightarrow> jmem \<Rightarrow> jmem"
  and free_members :: "(string \<times> json_value) list \<Rightarrow> jmem \<Rightarrow> jmem"
  and free_items :: "json_value list \<Rightarrow> jmem \<Rightarrow> jmem"
where
  "json_value_free v m =
     (let m = (case v of
                 V_Object ob \<Rightarrow> json_object_free ob m
               | V_String s \<Rightarrow> parson_free 1 m
               | V_Array arr \<Rightarrow> json_array_free arr m
               | _ \<Rightarrow> m)
      in parson_free 1 m)"
| "json_object_free (Json_Object ms cap) m =
     parson_free 1 (parson_free (if cap = 0 then 0 else 1) (parson_free (if cap = 0 then 0 else 1) (free_members ms m)))"
| "json_array_free (Json_Array vs cap) m = parson_free 1 (parson_free (if cap = 0 then 0 else 1) (free_items vs m))"
| "free_members [] m = m"
| "free_members ((k, v) # ms) m = json_value_free v (parson_free 1 (free_members ms m))"
| "free_items [] m = m"
| "free_items (v # vs) m = json_value_free v (free_items vs m)"

section \<open>Creating values\<close>

definition json_object_init :: "jmem \<Rightarrow> json_object option \<times> jmem" where
  "json_object_init m = (let (ok, m) = parson_malloc m in (if ok then Some (Json_Object [] 0) else None, m))"

definition json_array_init :: "jmem \<Rightarrow> json_array option \<times> jmem" where
  "json_array_init m = (let (ok, m) = parson_malloc m in (if ok then Some (Json_Array [] 0) else None, m))"

definition json_value_init_object :: "jmem \<Rightarrow> json_value option \<times> jmem" where
  "json_value_init_object m =
     (let (ok, m) = parson_malloc m
      in if \<not> ok then (None, m)
         else (let (ob, m) = json_object_init m
               in case ob of None \<Rightarrow> (None, parson_free 1 m) | Some ob \<Rightarrow> (Some (V_Object ob), m)))"

definition json_value_init_array :: "jmem \<Rightarrow> json_value option \<times> jmem" where
  "json_value_init_array m =
     (let (ok, m) = parson_malloc m
      in if \<not> ok then (None, m)
         else (let (arr, m) = json_array_init m
               in case arr of None \<Rightarrow> (None, parson_free 1 m) | Some arr \<Rightarrow> (Some (V_Array arr), m)))"

definition json_value_init_string_no_copy :: "string \<Rightarrow> jmem \<Rightarrow> json_value option \<times> jmem" where
  "json_value_init_string_no_copy s m =
     (let (ok, m) = parson_malloc m in (if ok then Some (V_String s) else None, m))"

definition json_value_init_number :: "double \<Rightarrow> jmem \<Rightarrow> json_value option \<times> jmem" where
  "json_value_init_number d m = (let (ok, m) = parson_malloc m in (if ok then Some (V_Number d) else None, m))"

definition json_value_init_boolean :: "int \<Rightarrow> jmem \<Rightarrow> json_value option \<times> jmem" where
  "json_value_init_boolean b m =
     (let (ok, m) = parson_malloc m in (if ok then Some (V_Boolean (if b \<noteq> 0 then 1 else 0)) else None, m))"

definition json_value_init_null :: "jmem \<Rightarrow> json_value option \<times> jmem" where
  "json_value_init_null m = (let (ok, m) = parson_malloc m in (if ok then Some V_Null else None, m))"

section \<open>Growing objects and arrays\<close>

text \<open>The members are copied into arrays of the new capacity, so they must fit.\<close>

definition json_object_resize :: "json_object \<Rightarrow> nat \<Rightarrow> jmem \<Rightarrow> (json_status \<times> json_object \<times> jmem) option" where
  "json_object_resize ob new_capacity m =
     (let cap = obj_capacity ob; ms = obj_members ob in
      if new_capacity = 0 then Some (JSONFailure, ob, m)
      else
        (let (ok, m) = parson_malloc m in
         if \<not> ok then Some (JSONFailure, ob, m)
         else
           (let (ok, m) = parson_malloc m in
            if \<not> ok then Some (JSONFailure, ob, parson_free 1 m)
            else if cap \<noteq> 0 \<and> new_capacity < length ms then None
            else
              (let m = parson_free (if cap = 0 then 0 else 1) m; m = parson_free (if cap = 0 then 0 else 1) m
               in Some (JSONSuccess, Json_Object ms new_capacity, m)))))"

definition json_object_add ::
  "json_object \<Rightarrow> string option \<Rightarrow> json_value option \<Rightarrow> jmem \<Rightarrow> (json_status \<times> json_object \<times> jmem) option"
where
  "json_object_add ob name value m =
     (case (name, value) of
        (Some name, Some v) \<Rightarrow>
          if json_object_get_value (Some ob) (Some name) \<noteq> None then Some (JSONFailure, ob, m)
          else do {
            (st, ob, m) \<leftarrow>
              (if obj_capacity ob \<le> length (obj_members ob) then
                 (let new_capacity = max (obj_capacity ob * 2) STARTING_CAPACITY in
                  if OBJECT_MAX_CAPACITY < new_capacity then Some (JSONFailure, ob, m)
                  else json_object_resize ob new_capacity m)
               else Some (JSONSuccess, ob, m));
            if st = JSONFailure then Some (JSONFailure, ob, m)
            else if obj_capacity ob \<le> length (obj_members ob) then None
            else
              (let (copy, m) = parson_strdup name m in
               case copy of
                 None \<Rightarrow> Some (JSONFailure, ob, m)
               | Some copy \<Rightarrow> Some (JSONSuccess, Json_Object (obj_members ob @ [(copy, v)]) (obj_capacity ob), m))
          }
      | _ \<Rightarrow> Some (JSONFailure, ob, m))"

definition json_array_resize :: "json_array \<Rightarrow> nat \<Rightarrow> jmem \<Rightarrow> (json_status \<times> json_array \<times> jmem) option" where
  "json_array_resize arr new_capacity m =
     (let cap = arr_capacity arr; vs = arr_items arr in
      if new_capacity = 0 then Some (JSONFailure, arr, m)
      else
        (let (ok, m) = parson_malloc m in
         if \<not> ok then Some (JSONFailure, arr, m)
         else if cap \<noteq> 0 \<and> new_capacity < length vs then None
         else
           (let m = parson_free (if cap = 0 then 0 else 1) m
            in Some (JSONSuccess, Json_Array vs new_capacity, m))))"

definition json_array_add :: "json_array \<Rightarrow> json_value \<Rightarrow> jmem \<Rightarrow> (json_status \<times> json_array \<times> jmem) option" where
  "json_array_add arr v m = do {
     (st, arr, m) \<leftarrow>
       (if arr_capacity arr \<le> length (arr_items arr) then
          (let new_capacity = max (arr_capacity arr * 2) STARTING_CAPACITY in
           if ARRAY_MAX_CAPACITY < new_capacity then Some (JSONFailure, arr, m)
           else json_array_resize arr new_capacity m)
        else Some (JSONSuccess, arr, m));
     if st = JSONFailure then Some (JSONFailure, arr, m)
     else if arr_capacity arr \<le> length (arr_items arr) then None
     else Some (JSONSuccess, Json_Array (arr_items arr @ [v]) (arr_capacity arr), m)
   }"

section \<open>Accounting of the memory\<close>

definition alloc_ok :: "jmem \<Rightarrow> bool" where
  "alloc_ok m \<longleftrightarrow> (\<forall>n. jm_grants m n)"

text \<open>The same allocator with \<open>d\<close> more blocks in use.\<close>

definition moved :: "int \<Rightarrow> jmem \<Rightarrow> jmem \<Rightarrow> bool" where
  "moved d m m' \<longleftrightarrow> jm_grants m' = jm_grants m \<and> jm_blocks m' = jm_blocks m + d"

lemma moved_trans: "moved a m m1 \<Longrightarrow> moved b m1 m2 \<Longrightarrow> moved (a + b) m m2"
  by (simp add: moved_def)

lemma moved_alloc_ok: "moved d m m' \<Longrightarrow> alloc_ok m \<Longrightarrow> alloc_ok m'"
  by (simp add: moved_def alloc_ok_def)

lemma moved_same: "moved a m m' \<Longrightarrow> a = b \<Longrightarrow> moved b m m'"
  by simp

lemma moved_0 [simp]: "moved 0 m m"
  by (simp add: moved_def)

lemma malloc_ok: "alloc_ok m \<Longrightarrow> \<exists>m'. parson_malloc m = (True, m') \<and> moved 1 m m'"
  by (simp add: alloc_ok_def parson_malloc_def moved_def)

lemma free_moved: "moved (- int n) m (parson_free n m)"
  by (simp add: parson_free_def moved_def)

lemma free_0 [simp]: "parson_free 0 m = m"
  by (simp add: parson_free_def)

lemma free_add: "parson_free a (parson_free b m) = parson_free (a + b) m"
  by (simp add: parson_free_def)

text \<open>The blocks of a value.\<close>

fun value_blocks :: "json_value \<Rightarrow> nat"
  and object_blocks :: "json_object \<Rightarrow> nat"
  and array_blocks :: "json_array \<Rightarrow> nat"
  and member_blocks :: "(string \<times> json_value) list \<Rightarrow> nat"
  and item_blocks :: "json_value list \<Rightarrow> nat"
where
  "value_blocks v =
     1 + (case v of V_Object ob \<Rightarrow> object_blocks ob | V_String s \<Rightarrow> 1 | V_Array arr \<Rightarrow> array_blocks arr | _ \<Rightarrow> 0)"
| "object_blocks (Json_Object ms cap) = 1 + (if cap = 0 then 0 else 2) + member_blocks ms"
| "array_blocks (Json_Array vs cap) = 1 + (if cap = 0 then 0 else 1) + item_blocks vs"
| "member_blocks [] = 0"
| "member_blocks ((k, v) # ms) = 1 + value_blocks v + member_blocks ms"
| "item_blocks [] = 0"
| "item_blocks (v # vs) = value_blocks v + item_blocks vs"

lemma value_free_blocks:
  "json_value_free v m = parson_free (value_blocks v) m"
  "json_object_free ob m = parson_free (object_blocks ob) m"
  "json_array_free arr m = parson_free (array_blocks arr) m"
  "free_members ms m = parson_free (member_blocks ms) m"
  "free_items vs m = parson_free (item_blocks vs) m"
  by (induction v m and ob m and arr m and ms m and vs m
      rule: json_value_free_json_object_free_json_array_free_free_members_free_items.induct)
    (auto simp: free_add split: json_value.splits)

lemma member_blocks_append [simp]: "member_blocks (ms @ ns) = member_blocks ms + member_blocks ns"
  by (induction ms) auto

lemma item_blocks_append [simp]: "item_blocks (vs @ ws) = item_blocks vs + item_blocks ws"
  by (induction vs) auto

declare value_blocks.simps [simp del] json_value_free.simps [simp del]

lemma value_blocks_simps [simp]:
  "value_blocks V_Null = 1" "value_blocks (V_String s) = 2" "value_blocks (V_Number d) = 1" "value_blocks (V_Boolean b) = 1"
  "value_blocks (V_Object ob) = 1 + object_blocks ob" "value_blocks (V_Array arr) = 1 + array_blocks arr"
  by (simp_all add: value_blocks.simps)

lemma value_free_moved: "moved (- int (value_blocks v)) m (json_value_free v m)"
  by (simp add: value_free_blocks free_moved)

section \<open>Objects and arrays\<close>

lemma find_member_map_of: "find_member ms name (length name) = map_of ms name"
  by (induction ms name "length name" rule: find_member.induct) auto

lemma get_value_map_of [simp]: "json_object_get_value (Some ob) (Some name) = map_of (obj_members ob) name"
  by (simp add: json_object_get_value_def json_object_nget_value_def find_member_map_of)

lemma strdup_ok: "alloc_ok m \<Longrightarrow> \<exists>m'. parson_strdup s m = (Some s, m') \<and> moved 1 m m'"
  using malloc_ok [of m] by (auto simp: parson_strdup_def parson_strndup_def)

lemma object_resize_ok:
  assumes "alloc_ok m" "length ms \<le> n" "0 < n"
  shows "\<exists>m'. json_object_resize (Json_Object ms cap) n m = Some (JSONSuccess, Json_Object ms n, m') \<and>
    moved (if cap = 0 then 2 else 0) m m'"
proof -
  obtain m1 where m1: "parson_malloc m = (True, m1)" "moved 1 m m1" using malloc_ok [OF assms(1)] by blast
  obtain m2 where m2: "parson_malloc m1 = (True, m2)" "moved 1 m1 m2"
    using malloc_ok [OF moved_alloc_ok [OF m1(2) assms(1)]] by blast
  show ?thesis using assms(2,3) m1 m2 by (auto simp: json_object_resize_def Let_def free_add moved_def parson_free_def)
qed

lemma array_resize_ok:
  assumes "alloc_ok m" "length vs \<le> n" "0 < n"
  shows "\<exists>m'. json_array_resize (Json_Array vs cap) n m = Some (JSONSuccess, Json_Array vs n, m') \<and>
    moved (if cap = 0 then 1 else 0) m m'"
proof -
  obtain m1 where m1: "parson_malloc m = (True, m1)" "moved 1 m m1" using malloc_ok [OF assms(1)] by blast
  show ?thesis using assms(2,3) m1 by (auto simp: json_array_resize_def Let_def moved_def parson_free_def)
qed

text \<open>The capacity after a member or an item was added, when there is room.\<close>

definition grown :: "nat \<Rightarrow> nat \<Rightarrow> nat" where
  "grown used cap = (if cap \<le> used then max (cap * 2) STARTING_CAPACITY else cap)"

lemma grown_greater: "used \<le> cap \<Longrightarrow> used < grown used cap" "cap \<le> grown used cap" "0 < grown used cap"
  by (auto simp: grown_def STARTING_CAPACITY_def)

lemma object_add_ok:
  assumes m: "alloc_ok m" and cap: "length ms \<le> cap"
  shows "\<exists>st ob m'. json_object_add (Json_Object ms cap) (Some name) (Some v) m = Some (st, ob, m') \<and>
    (if name \<notin> fst ` set ms \<and> (cap \<le> length ms \<longrightarrow> grown (length ms) cap \<le> OBJECT_MAX_CAPACITY)
     then st = JSONSuccess \<and> ob = Json_Object (ms @ [(name, v)]) (grown (length ms) cap) \<and>
       moved (1 + (if cap = 0 then 2 else 0)) m m'
     else st = JSONFailure \<and> ob = Json_Object ms cap \<and> m' = m)"
proof (cases "name \<in> fst ` set ms")
  case True
  then show ?thesis by (auto simp: json_object_add_def map_of_eq_None_iff)
next
  case fresh: False
  then have none: "map_of ms name = None" by (simp add: map_of_eq_None_iff)
  show ?thesis
  proof (cases "cap \<le> length ms")
    case full: True
    show ?thesis
    proof (cases "grown (length ms) cap \<le> OBJECT_MAX_CAPACITY")
      case True
      define n where n: "n = max (cap * 2) STARTING_CAPACITY"
      have g: "grown (length ms) cap = n" "n \<le> OBJECT_MAX_CAPACITY" using full True by (simp_all add: grown_def n)
      have p: "length ms \<le> n" "0 < n" "length ms < n" using cap grown_greater(1) [OF cap] g by (simp_all add: n STARTING_CAPACITY_def max_def)
      obtain m1 where m1: "json_object_resize (Json_Object ms cap) n m = Some (JSONSuccess, Json_Object ms n, m1)"
        "moved (if cap = 0 then 2 else 0) m m1"
        using object_resize_ok [OF m p(1,2), of cap] by blast
      obtain m2 where m2: "parson_strdup name m1 = (Some name, m2)" "moved 1 m1 m2"
        using strdup_ok [OF moved_alloc_ok [OF m1(2) m]] by blast
      have "moved (1 + (if cap = 0 then 2 else 0)) m m2" using moved_trans [OF m1(2) m2(2)] by (simp add: add.commute)
      moreover have "json_object_add (Json_Object ms cap) (Some name) (Some v) m =
          Some (JSONSuccess, Json_Object (ms @ [(name, v)]) n, m2)"
        using none full g p m1(1) m2(1) by (simp add: json_object_add_def Let_def n [symmetric])
      ultimately show ?thesis using fresh g by simp
    next
      case False
      define n where n: "n = max (cap * 2) STARTING_CAPACITY"
      have g: "grown (length ms) cap = n" "OBJECT_MAX_CAPACITY < n" using full False by (auto simp: grown_def n not_le)
      then show ?thesis using none full fresh by (simp add: json_object_add_def Let_def n [symmetric])
    qed
  next
    case False
    obtain m2 where m2: "parson_strdup name m = (Some name, m2)" "moved 1 m m2" using strdup_ok [OF m] by blast
    then show ?thesis using none fresh False by (simp add: json_object_add_def grown_def)
  qed
qed

lemma array_add_ok:
  assumes m: "alloc_ok m" and cap: "length vs \<le> cap"
  shows "\<exists>st arr m'. json_array_add (Json_Array vs cap) v m = Some (st, arr, m') \<and>
    (if cap \<le> length vs \<longrightarrow> grown (length vs) cap \<le> ARRAY_MAX_CAPACITY
     then st = JSONSuccess \<and> arr = Json_Array (vs @ [v]) (grown (length vs) cap) \<and> moved (if cap = 0 then 1 else 0) m m'
     else st = JSONFailure \<and> arr = Json_Array vs cap \<and> m' = m)"
proof (cases "cap \<le> length vs")
  case full: True
  show ?thesis
  proof (cases "grown (length vs) cap \<le> ARRAY_MAX_CAPACITY")
    case True
    define n where n: "n = max (cap * 2) STARTING_CAPACITY"
    have g: "grown (length vs) cap = n" "n \<le> ARRAY_MAX_CAPACITY" using full True by (simp_all add: grown_def n)
    have p: "length vs \<le> n" "0 < n" "length vs < n" using cap grown_greater(1) [OF cap] g by (simp_all add: n STARTING_CAPACITY_def max_def)
    obtain m1 where m1: "json_array_resize (Json_Array vs cap) n m = Some (JSONSuccess, Json_Array vs n, m1)"
      "moved (if cap = 0 then 1 else 0) m m1"
      using array_resize_ok [OF m p(1,2), of cap] by blast
    have "json_array_add (Json_Array vs cap) v m = Some (JSONSuccess, Json_Array (vs @ [v]) n, m1)"
      using full g p m1(1) by (simp add: json_array_add_def Let_def n [symmetric])
    then show ?thesis using m1(2) g by simp
  next
    case False
    define n where n: "n = max (cap * 2) STARTING_CAPACITY"
    have g: "grown (length vs) cap = n" "ARRAY_MAX_CAPACITY < n" using full False by (auto simp: grown_def n not_le)
    then show ?thesis using full by (simp add: json_array_add_def Let_def n [symmetric])
  qed
next
  case False
  then show ?thesis by (simp add: json_array_add_def grown_def)
qed

section \<open>Well-formed values\<close>

text \<open>A value of at most \<open>k\<close> levels, as the operations build it.\<close>

primrec well_formed :: "nat \<Rightarrow> json_value \<Rightarrow> bool" where
  "well_formed 0 v = False"
| "well_formed (Suc k) v =
     (case v of
        V_String s \<Rightarrow> CHR 0x00 \<notin> set s
      | V_Object ob \<Rightarrow>
          distinct (map fst (obj_members ob)) \<and> length (obj_members ob) \<le> obj_capacity ob \<and>
          obj_capacity ob \<le> OBJECT_MAX_CAPACITY \<and>
          (\<forall>(n, w) \<in> set (obj_members ob). CHR 0x00 \<notin> set n \<and> well_formed k w)
      | V_Array arr \<Rightarrow>
          length (arr_items arr) \<le> arr_capacity arr \<and> arr_capacity arr \<le> ARRAY_MAX_CAPACITY \<and>
          (\<forall>w \<in> set (arr_items arr). well_formed k w)
      | V_Boolean b \<Rightarrow> b = 0 \<or> b = 1
      | _ \<Rightarrow> True)"

end
