(* ===== verification/JsonParse.thy ===== *)
theory JsonParse
  imports JsonValue
begin

text \<open>
  The parser of the JSON library \<open>cplusplus/jsonbenchmark/parson.c\<close>.  The pointer into the text is what
  is left of the text; at its end the code reads the terminating NUL.  A parsing function returns the
  value, or nothing for NULL, the text behind it and the memory.
\<close>

section \<open>The code\<close>

definition MAX_NESTING :: nat where
  "MAX_NESTING = 19"

abbreviation (input) NUL :: char where
  "NUL \<equiv> CHR 0x00"

definition peek :: "string \<Rightarrow> char" where
  "peek s = (case s of [] \<Rightarrow> NUL | c # _ \<Rightarrow> c)"

definition skip_whitespaces :: "string \<Rightarrow> string" where
  "skip_whitespaces s = dropWhile isspace s"

definition is_utf16_hex :: "string \<Rightarrow> bool" where
  "is_utf16_hex s \<longleftrightarrow> 4 \<le> length s \<and> list_all isxdigit (take 4 s)"

definition is_decimal :: "string \<Rightarrow> bool" where
  "is_decimal s \<longleftrightarrow>
     \<not> (1 < length s \<and> s ! 0 = CHR ''0'' \<and> s ! 1 \<noteq> CHR ''.'') \<and>
     \<not> (2 < length s \<and> take 2 s = ''-0'' \<and> s ! 2 \<noteq> CHR ''.'') \<and>
     list_all (\<lambda>c. c \<notin> set ''xX'') s"

text \<open>Behind the opening quote: an escaped character is skipped, whatever it is.\<close>

fun quote_loop :: "string \<Rightarrow> json_status \<times> string" where
  "quote_loop [] = (JSONFailure, [])"
| "quote_loop (c # r) =
     (if c = CHR 0x22 then (JSONSuccess, r)
      else if c = CHR 0x5C then (case r of [] \<Rightarrow> (JSONFailure, []) | d # r' \<Rightarrow> quote_loop r')
      else quote_loop r)"

definition skip_quotes :: "string \<Rightarrow> json_status \<times> string" where
  "skip_quotes s = (if peek s \<noteq> CHR 0x22 then (JSONFailure, s) else quote_loop (tl s))"

text \<open>
  From the letter u of an escape: the bytes of the character, and the text from the last digit on.
\<close>

definition parse_utf_16 :: "string \<Rightarrow> (string \<times> string) option" where
  "parse_utf_16 s =
     (let p = tl s; cp = number_value 16 (take 4 p) in
      if \<not> is_utf16_hex p then None
      else if cp < 0x80 then Some ([char_of cp], drop 3 p)
      else if cp < 0x800 then
        Some ([char_of (or (and (drop_bit 6 cp) 0x1F) 0xC0), char_of (or (and cp 0x3F) 0x80)], drop 3 p)
      else if cp < 0xD800 \<or> 0xDFFF < cp then
        Some ([char_of (or (and (drop_bit 12 cp) 0x0F) 0xE0), char_of (or (and (drop_bit 6 cp) 0x3F) 0x80),
               char_of (or (and cp 0x3F) 0x80)], drop 3 p)
      else if cp \<le> 0xDBFF then
        (let q = drop 4 p; trail = number_value 16 (take 4 (drop 2 q)) in
         if peek q \<noteq> CHR 0x5C \<or> peek (tl q) \<noteq> CHR ''u'' \<or> \<not> is_utf16_hex (drop 2 q) \<or> trail < 0xDC00 \<or> 0xDFFF < trail
         then None
         else
           (let cp = or (push_bit 10 (and (cp - 0xD800) 0x3FF)) (and (trail - 0xDC00) 0x3FF) + 0x10000 in
            Some ([char_of (or (and (drop_bit 18 cp) 0x07) 0xF0), char_of (or (and (drop_bit 12 cp) 0x3F) 0x80),
                   char_of (or (and (drop_bit 6 cp) 0x3F) 0x80), char_of (or (and cp 0x3F) 0x80)],
                  drop 3 (drop 2 q))))
      else None)"

text \<open>The bytes written into the buffer of \<open>cap\<close> bytes so far are \<open>out\<close>.\<close>

definition put_bytes :: "nat \<Rightarrow> string \<Rightarrow> string \<Rightarrow> string option" where
  "put_bytes cap out bs = (if length out + length bs \<le> cap then Some (out @ bs) else None)"

definition escape_char :: "char \<Rightarrow> char option" where
  "escape_char c =
     (if c = CHR 0x22 \<or> c = CHR 0x5C \<or> c = CHR ''/'' then Some c
      else if c = CHR ''b'' then Some (CHR 0x08)
      else if c = CHR ''f'' then Some (CHR 0x0C)
      else if c = CHR ''n'' then Some (CHR 0x0A)
      else if c = CHR ''r'' then Some (CHR 0x0D)
      else if c = CHR ''t'' then Some (CHR 0x09)
      else None)"

lemma parse_utf_16_length: "parse_utf_16 s = Some (bs, r) \<Longrightarrow> length r < length s"
  by (auto simp: parse_utf_16_def Let_def is_utf16_hex_def split: if_splits)

text \<open>\<open>len\<close> characters of the text belong to the string; the inner option is the label error.\<close>

function process_loop :: "nat \<Rightarrow> string \<Rightarrow> nat \<Rightarrow> string \<Rightarrow> string option option" where
  "process_loop cap s len out =
     (if peek s = NUL \<or> len = 0 then Some (Some out)
      else if peek s = CHR 0x5C then
        (let e = tl s in
         case escape_char (peek e) of
           Some c \<Rightarrow> do { out \<leftarrow> put_bytes cap out [c]; process_loop cap (tl e) (len - 2) out }
         | None \<Rightarrow>
             if peek e = CHR ''u'' then
               (case parse_utf_16 e of
                  None \<Rightarrow> Some None
                | Some (bs, r) \<Rightarrow> do {
                    out \<leftarrow> put_bytes cap out bs;
                    process_loop cap (tl r) (len - (length s - length (tl r))) out })
             else Some None)
      else if char_code (peek s) < 0x20 then Some None
      else do { out \<leftarrow> put_bytes cap out [peek s]; process_loop cap (tl s) (len - 1) out })"
  by pat_completeness auto
termination
proof (relation "measure (\<lambda>(cap, s, len, out). length s)", goal_cases)
  case (2 cap s len out x x2 bs r a)
  then have "length r < length (tl s)" using parse_utf_16_length [of "tl s" bs r] by simp
  then show ?case by simp
next
  case (3 cap s len out x x2 a)
  then have "s \<noteq> []" by (auto simp: peek_def)
  then show ?case using 3 by simp
next
  case (4 cap s len out a)
  then have "s \<noteq> []" by (auto simp: peek_def)
  then show ?case by simp
qed simp

definition c_string :: "string \<Rightarrow> string" where
  "c_string s = takeWhile (\<lambda>c. c \<noteq> NUL) s"

text \<open>The first \<open>malloc\<close> is not checked: without a buffer every write is undefined.\<close>

definition process_string :: "string \<Rightarrow> nat \<Rightarrow> jmem \<Rightarrow> (string option \<times> jmem) option" where
  "process_string s len m =
     (let (ok, m) = parson_malloc m; cap = (if ok then len + 1 else 0); used = (if ok then 1 else 0) in do {
        r \<leftarrow> process_loop cap s len [];
        case r of
          None \<Rightarrow> Some (None, parson_free used m)
        | Some out \<Rightarrow> do {
            out \<leftarrow> put_bytes cap out [NUL];
            let (ok, m) = parson_malloc m;
            if \<not> ok then Some (None, parson_free used m)
            else Some (Some (c_string out), parson_free used m)
          }
      })"

definition get_quoted_string :: "string \<Rightarrow> jmem \<Rightarrow> (string option \<times> string \<times> jmem) option" where
  "get_quoted_string s m =
     (let (st, r) = skip_quotes s in
      if st \<noteq> JSONSuccess then Some (None, r, m)
      else do {
        (out, m) \<leftarrow> process_string (tl s) (length s - length r - 2) m;
        Some (out, r, m)
      })"

definition parse_string_value :: "string \<Rightarrow> jmem \<Rightarrow> (json_value option \<times> string \<times> jmem) option" where
  "parse_string_value s m = do {
     (new_string, s, m) \<leftarrow> get_quoted_string s m;
     case new_string of
       None \<Rightarrow> Some (None, s, m)
     | Some str \<Rightarrow>
         (let (v, m) = json_value_init_string_no_copy str m
          in if v = None then Some (None, s, parson_free 1 m) else Some (v, s, m))
   }"

definition parse_boolean_value :: "string \<Rightarrow> jmem \<Rightarrow> (json_value option \<times> string \<times> jmem) option" where
  "parse_boolean_value s m =
     (if starts_with ''true'' s then (let (v, m) = json_value_init_boolean 1 m in Some (v, drop 4 s, m))
      else if starts_with ''false'' s then (let (v, m) = json_value_init_boolean 0 m in Some (v, drop 5 s, m))
      else Some (None, s, m))"

definition parse_number_value :: "string \<Rightarrow> jmem \<Rightarrow> (json_value option \<times> string \<times> jmem) option" where
  "parse_number_value s m =
     (let (number, end_ptr) = strtod s in
      if is_decimal (take (length s - length end_ptr) s) then
        (let (v, m) = json_value_init_number number m in Some (v, end_ptr, m))
      else Some (None, s, m))"

definition parse_null_value :: "string \<Rightarrow> jmem \<Rightarrow> (json_value option \<times> string \<times> jmem) option" where
  "parse_null_value s m =
     (if starts_with ''null'' s then (let (v, m) = json_value_init_null m in Some (v, drop 4 s, m))
      else Some (None, s, m))"

type_synonym value_parser = "string \<Rightarrow> jmem \<Rightarrow> (json_value option \<times> string \<times> jmem) option"

text \<open>The loops over the members and the items; the result is the object or array, or nothing after an error.\<close>

partial_function (option) object_loop ::
  "value_parser \<Rightarrow> string \<Rightarrow> json_object \<Rightarrow> jmem \<Rightarrow> (json_object option \<times> string \<times> jmem) option"
where
  "object_loop pv s ob m =
     (if peek s = NUL then Some (Some ob, s, m)
      else do {
        (new_key, s, m) \<leftarrow> get_quoted_string s m;
        let s = skip_whitespaces s;
        if new_key = None \<or> peek s \<noteq> CHR '':'' then Some (None, s, json_value_free (V_Object ob) m)
        else do {
          (v, s, m) \<leftarrow> pv (tl s) m;
          if v = None then Some (None, s, json_value_free (V_Object ob) (parson_free 1 m))
          else do {
            (st, ob, m) \<leftarrow> json_object_add ob new_key v m;
            if st = JSONFailure then
              Some (None, s, json_value_free (V_Object ob) (parson_free 1 (parson_free 1 m)))
            else
              (let m = parson_free 1 m; s = skip_whitespaces s in
               if peek s \<noteq> CHR '','' then Some (Some ob, s, m)
               else object_loop pv (skip_whitespaces (tl s)) ob m)
          }
        }
      })"

partial_function (option) array_loop ::
  "value_parser \<Rightarrow> string \<Rightarrow> json_array \<Rightarrow> jmem \<Rightarrow> (json_array option \<times> string \<times> jmem) option"
where
  "array_loop pv s arr m =
     (if peek s = NUL then Some (Some arr, s, m)
      else do {
        (v, s, m) \<leftarrow> pv s m;
        case v of
          None \<Rightarrow> Some (None, s, json_value_free (V_Array arr) m)
        | Some v \<Rightarrow> do {
            (st, arr, m) \<leftarrow> json_array_add arr v m;
            if st = JSONFailure then Some (None, s, json_value_free (V_Array arr) (parson_free 1 m))
            else
              (let s = skip_whitespaces s in
               if peek s \<noteq> CHR '','' then Some (Some arr, s, m)
               else array_loop pv (skip_whitespaces (tl s)) arr m)
          }
      })"

definition parse_object_value :: "value_parser \<Rightarrow> value_parser" where
  "parse_object_value pv s m =
     (let (v, m) = json_value_init_object m in
      case json_value_get_object v of
        None \<Rightarrow> Some (None, s, m)
      | Some ob \<Rightarrow>
          if peek s \<noteq> CHR ''{'' then Some (None, s, m)
          else
            (let s = skip_whitespaces (tl s) in
             if peek s = CHR ''}'' then Some (v, tl s, m)
             else do {
               (r, s, m) \<leftarrow> object_loop pv s ob m;
               case r of
                 None \<Rightarrow> Some (None, s, m)
               | Some ob \<Rightarrow>
                   (let s = skip_whitespaces s in
                    if peek s \<noteq> CHR ''}'' then Some (None, s, json_value_free (V_Object ob) m)
                    else do {
                      (st, ob, m) \<leftarrow> json_object_resize ob (length (obj_members ob)) m;
                      if st = JSONFailure then Some (None, s, json_value_free (V_Object ob) m)
                      else Some (Some (V_Object ob), tl s, m)
                    })
             }))"

definition parse_array_value :: "value_parser \<Rightarrow> value_parser" where
  "parse_array_value pv s m =
     (let (v, m) = json_value_init_array m in
      case json_value_get_array v of
        None \<Rightarrow> Some (None, s, m)
      | Some arr \<Rightarrow>
          if peek s \<noteq> CHR ''['' then Some (None, s, m)
          else
            (let s = skip_whitespaces (tl s) in
             if peek s = CHR '']'' then Some (v, tl s, m)
             else do {
               (r, s, m) \<leftarrow> array_loop pv s arr m;
               case r of
                 None \<Rightarrow> Some (None, s, m)
               | Some arr \<Rightarrow>
                   (let s = skip_whitespaces s in
                    if peek s \<noteq> CHR '']'' then Some (None, s, json_value_free (V_Array arr) m)
                    else do {
                      (st, arr, m) \<leftarrow> json_array_resize arr (length (arr_items arr)) m;
                      if st = JSONFailure then Some (None, s, json_value_free (V_Array arr) m)
                      else Some (Some (V_Array arr), tl s, m)
                    })
             }))"

function parse_value :: "nat \<Rightarrow> value_parser" where
  "parse_value nesting s m =
     (if MAX_NESTING < nesting then Some (None, s, m)
      else
        (let s = skip_whitespaces s; c = peek s in
         if c = CHR ''{'' then parse_object_value (parse_value (nesting + 1)) s m
         else if c = CHR ''['' then parse_array_value (parse_value (nesting + 1)) s m
         else if c = CHR 0x22 then parse_string_value s m
         else if c = CHR ''f'' \<or> c = CHR ''t'' then parse_boolean_value s m
         else if c = CHR ''-'' \<or> isdigit c then parse_number_value s m
         else if c = CHR ''n'' then parse_null_value s m
         else Some (None, s, m)))"
  by pat_completeness auto
termination
  by (relation "measure (\<lambda>(nesting, s, m). MAX_NESTING + 1 - nesting)") auto

definition json_parse_string :: "string option \<Rightarrow> jmem \<Rightarrow> (json_value option \<times> jmem) option" where
  "json_parse_string s m =
     (case s of
        None \<Rightarrow> Some (None, m)
      | Some s \<Rightarrow> do { (v, s, m) \<leftarrow> parse_value 0 s m; Some (v, m) })"

declare process_loop.simps [simp del] parse_value.simps [simp del]
declare object_loop.simps [code] array_loop.simps [code]

section \<open>Strings\<close>

lemma peek_simps [simp]: "peek [] = NUL" "peek (c # s) = c"
  by (simp_all add: peek_def)

lemma quote_loop_plain: "c \<noteq> CHR 0x22 \<Longrightarrow> c \<noteq> CHR 0x5C \<Longrightarrow> quote_loop (c # s) = quote_loop s"
  by simp

lemma isxdigit_plain: "isxdigit c \<Longrightarrow> c \<noteq> CHR 0x22 \<and> c \<noteq> CHR 0x5C"
  by (auto simp: isxdigit_def isdigit_def char_code_def)

lemma quote_loop_hex: "list_all isxdigit ds \<Longrightarrow> quote_loop (ds @ s) = quote_loop s"
  by (induction ds) (auto dest: isxdigit_plain)

lemma quote_loop_length: "quote_loop s = (JSONSuccess, r) \<Longrightarrow> length r < length s"
proof (induction s rule: quote_loop.induct)
  case (2 c r')
  show ?case
  proof (cases "c = CHR 0x5C")
    case True
    then obtain d t where "r' = d # t" "quote_loop t = (JSONSuccess, r)" using 2(3) by (auto split: list.splits)
    then show ?thesis using 2(1) True by fastforce
  next
    case False
    with 2 show ?thesis by (auto split: if_splits)
  qed
qed simp

text \<open>What a processed escape of a character consumes contains no quote, and it is not shorter than the bytes.\<close>

lemma parse_utf_16_consumes:
  assumes "parse_utf_16 e = Some (bs, r)" "peek e = CHR ''u''"
  obtains ds where "e = CHR ''u'' # ds @ tl r" "\<And>t. quote_loop (ds @ t) = quote_loop t" "length bs \<le> length ds" "4 \<le> length ds"
proof -
  obtain p where e: "e = CHR ''u'' # p" using assms(2) by (cases e) auto
  have hex: "is_utf16_hex p" using assms(1) by (auto simp: parse_utf_16_def e Let_def split: if_splits)
  let ?h = "take 4 p"
  have h: "list_all isxdigit ?h" "length ?h = 4" using hex by (auto simp: is_utf16_hex_def)
  have tl3: "tl (drop 3 p') = drop 4 p'" for p' :: string
  proof -
    have "tl (drop 3 p') = drop 1 (drop 3 p')" by (simp only: One_nat_def drop_Suc drop_0)
    then show ?thesis by simp
  qed
  consider "r = drop 3 p" "length bs \<le> 3"
    | "r = drop 3 (drop 2 (drop 4 p))" "length bs = 4" "peek (drop 4 p) = CHR 0x5C"
      "peek (tl (drop 4 p)) = CHR ''u''" "is_utf16_hex (drop 2 (drop 4 p))"
    using assms(1) by (auto simp: parse_utf_16_def e Let_def split: if_splits)
  then show thesis
  proof cases
    case 1
    then have "e = CHR ''u'' # ?h @ tl r" using e tl3 by simp
    then show thesis using that [of ?h] 1 h quote_loop_hex [OF h(1)] by simp
  next
    case 2
    let ?q = "drop 4 p"
    let ?g = "take 4 (drop 2 ?q)"
    have g: "list_all isxdigit ?g" "length ?g = 4" using 2(5) by (auto simp: is_utf16_hex_def)
    obtain q where q: "?q = CHR 0x5C # CHR ''u'' # q" using 2(3,4)
      by (cases ?q; cases "tl ?q") auto
    have r: "tl r = drop 4 q" using 2(1) q tl3 by simp
    have "p = ?h @ ?q" by simp
    also have "\<dots> = (?h @ [CHR 0x5C, CHR ''u''] @ take 4 q) @ tl r" using q r by simp
    finally have "e = CHR ''u'' # (?h @ [CHR 0x5C, CHR ''u''] @ take 4 q) @ tl r" using e by simp
    moreover have "take 4 q = ?g" using q by simp
    then have "quote_loop ((?h @ [CHR 0x5C, CHR ''u''] @ take 4 q) @ t) = quote_loop t" for t
      using quote_loop_hex [OF h(1)] quote_loop_hex [OF g(1)] by simp
    ultimately show thesis using that [of "?h @ [CHR 0x5C, CHR ''u''] @ take 4 q"] 2(2) h by simp
  qed
qed

lemma process_loop_ok:
  "quote_loop s = (JSONSuccess, r) \<Longrightarrow> len = length s - length r - 1 \<Longrightarrow> length out + len < cap \<Longrightarrow>
   \<exists>x. process_loop cap s len out = Some x \<and> (\<forall>out'. x = Some out' \<longrightarrow> length out' < cap)"
proof (induction cap s len out rule: process_loop.induct)
  case (1 cap s len out)
  note prems = "1.prems"
  show ?case
  proof (cases "peek s = NUL \<or> len = 0")
    case True
    then show ?thesis using prems(3) by (subst process_loop.simps) auto
  next
    case False
    then obtain c t where s: "s = c # t" by (cases s) auto
    have lr: "length r < length s" by (rule quote_loop_length [OF prems(1)])
    have c: "c \<noteq> CHR 0x22" using prems(1,2) False s by (auto split: if_splits)
    show ?thesis
    proof (cases "c = CHR 0x5C")
      case esc: True
      obtain d t' where t: "t = d # t'" "quote_loop t' = (JSONSuccess, r)"
        using prems(1) s esc by (auto split: list.splits)
      have lt': "length r < length t'" by (rule quote_loop_length [OF t(2)])
      show ?thesis
      proof (cases "escape_char d")
        case (Some x)
        have "\<exists>y. process_loop cap t' (len - 2) (out @ [x]) = Some y \<and> (\<forall>out'. y = Some out' \<longrightarrow> length out' < cap)"
          using "1.IH"(2) [of t x "out @ [x]"] False s esc t Some prems lt' by (simp add: put_bytes_def)
        then show ?thesis using False s esc t Some prems by (subst process_loop.simps) (simp add: put_bytes_def)
      next
        case None
        show ?thesis
        proof (cases "d = CHR ''u'' \<and> parse_utf_16 t \<noteq> None")
          case False
          then have "d \<noteq> CHR ''u'' \<or> parse_utf_16 t = None" by blast
          then show ?thesis using \<open>\<not> (peek s = NUL \<or> len = 0)\<close> s esc t None
            by (subst process_loop.simps) auto
        next
          case True
          then obtain bs u where u: "parse_utf_16 t = Some (bs, u)" by auto
          obtain ds where ds: "t = CHR ''u'' # ds @ tl u" "\<And>z. quote_loop (ds @ z) = quote_loop z"
            "length bs \<le> length ds" "4 \<le> length ds"
            using parse_utf_16_consumes [OF u] True t by auto
          have "t' = ds @ tl u" using t(1) ds(1) by simp
          then have q: "quote_loop (tl u) = (JSONSuccess, r)" using t(2) ds(2) [of "tl u"] by metis
          have lu: "length r < length (tl u)" by (rule quote_loop_length [OF q])
          have l: "len - (length s - length (tl u)) = length (tl u) - length r - 1" "length out + length bs \<le> cap"
            "length (out @ bs) + (length (tl u) - length r - 1) < cap"
            using prems(2,3) s ds(1,3) lu by simp_all
          have "\<exists>y. process_loop cap (tl u) (len - (length s - length (tl u))) (out @ bs) = Some y \<and>
              (\<forall>out'. y = Some out' \<longrightarrow> length out' < cap)"
            using "1.IH"(1) [of t "(bs, u)" bs u "out @ bs"] False s esc t None True u q l
            by (simp add: put_bytes_def)
          then show ?thesis using False s esc t None True u l(2) by (subst process_loop.simps) (simp add: put_bytes_def)
        qed
      qed
    next
      case plain: False
      have q: "quote_loop t = (JSONSuccess, r)" using prems(1) s c plain by simp
      show ?thesis
      proof (cases "char_code c < 0x20")
        case True
        then show ?thesis using False s plain by (subst process_loop.simps) simp
      next
        case ge: False
        have l: "len - 1 = length t - length r - 1" "length (out @ [c]) + (len - 1) < cap" "length out + 1 \<le> cap"
          using prems(2,3) s quote_loop_length [OF q] by simp_all
        have "\<exists>y. process_loop cap t (len - 1) (out @ [c]) = Some y \<and> (\<forall>out'. y = Some out' \<longrightarrow> length out' < cap)"
          using "1.IH"(3) [of "out @ [c]"] False s plain ge q l by (simp add: put_bytes_def)
        then show ?thesis using False s plain ge l(3) by (subst process_loop.simps) (simp add: put_bytes_def)
      qed
    qed
  qed
qed

lemma c_string_no_nul [simp]: "NUL \<notin> set (c_string s)"
  by (auto simp: c_string_def dest: set_takeWhileD)

text \<open>The blocks in use after a string or a value was made, or not made.\<close>

definition made :: "nat \<Rightarrow> ('a \<Rightarrow> nat) \<Rightarrow> 'a option \<Rightarrow> jmem \<Rightarrow> jmem \<Rightarrow> bool" where
  "made leak blocks r m m' \<longleftrightarrow> moved (case r of None \<Rightarrow> int leak | Some v \<Rightarrow> int (blocks v)) m m'"

lemma process_string_ok:
  assumes q: "quote_loop s = (JSONSuccess, r)" and m: "alloc_ok m"
  shows "\<exists>res m'. process_string s (length s - length r - 1) m = Some (res, m') \<and> made 0 (\<lambda>_. 1) res m m' \<and>
    (\<forall>str. res = Some str \<longrightarrow> NUL \<notin> set str)"
proof -
  let ?len = "length s - length r - 1"
  obtain m1 where m1: "parson_malloc m = (True, m1)" "moved 1 m m1" using malloc_ok [OF m] by blast
  obtain m2 where m2: "parson_malloc m1 = (True, m2)" "moved 1 m1 m2"
    using malloc_ok [OF moved_alloc_ok [OF m1(2) m]] by blast
  obtain x where x: "process_loop (?len + 1) s ?len [] = Some x" "\<forall>out'. x = Some out' \<longrightarrow> length out' < ?len + 1"
    using process_loop_ok [OF q refl, of "[]" "?len + 1"] by auto
  show ?thesis
  proof (cases x)
    case None
    then show ?thesis using m1 x(1) by (simp add: process_string_def Let_def made_def moved_def parson_free_def)
  next
    case (Some out)
    then have "put_bytes (?len + 1) out [NUL] = Some (out @ [NUL])" using x(2) by (simp add: put_bytes_def)
    then show ?thesis using m1 m2 x(1) Some
      by (simp add: process_string_def Let_def made_def moved_def parson_free_def)
  qed
qed

lemma quote_loop_le: "quote_loop s = (st, r) \<Longrightarrow> length r \<le> length s"
proof (induction s rule: quote_loop.induct)
  case (2 c r')
  then show ?case by (fastforce split: if_splits list.splits)
qed simp

lemma get_quoted_string_ok:
  assumes m: "alloc_ok m"
  shows "\<exists>res r m'. get_quoted_string s m = Some (res, r, m') \<and> length r \<le> length s \<and> made 0 (\<lambda>_. 1) res m m' \<and>
    (\<forall>str. res = Some str \<longrightarrow> NUL \<notin> set str \<and> length r < length s)"
proof -
  obtain st r where sq: "skip_quotes s = (st, r)" by fastforce
  have le: "length r \<le> length s"
    using sq quote_loop_le [of "tl s" st r] by (auto simp: skip_quotes_def split: if_splits)
  show ?thesis
  proof (cases "st = JSONSuccess")
    case False
    then show ?thesis using sq le by (simp add: get_quoted_string_def made_def)
  next
    case True
    then have q: "quote_loop (tl s) = (JSONSuccess, r)" using sq by (auto simp: skip_quotes_def split: if_splits)
    have "s \<noteq> []" using sq True by (auto simp: skip_quotes_def split: if_splits)
    then have len: "length (tl s) - length r - 1 = length s - length r - 2" "length (tl s) < length s" by simp_all
    obtain res m' where p: "process_string (tl s) (length s - length r - 2) m = Some (res, m')"
      "made 0 (\<lambda>_. 1) res m m'" "\<forall>str. res = Some str \<longrightarrow> NUL \<notin> set str"
      using process_string_ok [OF q m] unfolding len by blast
    have "length r < length s" using quote_loop_length [OF q] len(2) by simp
    then show ?thesis using sq True p by (simp add: get_quoted_string_def)
  qed
qed

text \<open>What a parsing function does, for a value of at most \<open>k\<close> levels.\<close>

definition parsed :: "nat \<Rightarrow> string \<Rightarrow> jmem \<Rightarrow> (json_value option \<times> string \<times> jmem) option \<Rightarrow> bool" where
  "parsed k s m res \<longleftrightarrow>
     (\<exists>v r m' leak. res = Some (v, r, m') \<and> length r \<le> length s \<and> made leak value_blocks v m m' \<and>
        (\<forall>w. v = Some w \<longrightarrow> well_formed k w))"

lemma parsedI:
  "res = Some (v, r, m') \<Longrightarrow> length r \<le> length s \<Longrightarrow> made leak value_blocks v m m' \<Longrightarrow>
   (v \<noteq> None \<Longrightarrow> well_formed k (the v)) \<Longrightarrow> parsed k s m res"
  unfolding parsed_def by fastforce

lemma init_ok:
  assumes "alloc_ok m"
  shows "\<exists>m'. json_value_init_null m = (Some V_Null, m') \<and> moved 1 m m'"
    "\<exists>m'. json_value_init_number d m = (Some (V_Number d), m') \<and> moved 1 m m'"
    "\<exists>m'. json_value_init_boolean b m = (Some (V_Boolean (if b \<noteq> 0 then 1 else 0)), m') \<and> moved 1 m m'"
    "\<exists>m'. json_value_init_string_no_copy str m = (Some (V_String str), m') \<and> moved 1 m m'"
    "\<exists>m'. json_value_init_object m = (Some (V_Object (Json_Object [] 0)), m') \<and> moved 2 m m'"
    "\<exists>m'. json_value_init_array m = (Some (V_Array (Json_Array [] 0)), m') \<and> moved 2 m m'"
proof -
  obtain m1 where m1: "parson_malloc m = (True, m1)" "moved 1 m m1" using malloc_ok [OF assms] by blast
  obtain m2 where m2: "parson_malloc m1 = (True, m2)" "moved 1 m1 m2"
    using malloc_ok [OF moved_alloc_ok [OF m1(2) assms]] by blast
  have "moved 2 m m2" using moved_trans [OF m1(2) m2(2)] by simp
  then show "\<exists>m'. json_value_init_null m = (Some V_Null, m') \<and> moved 1 m m'"
    "\<exists>m'. json_value_init_number d m = (Some (V_Number d), m') \<and> moved 1 m m'"
    "\<exists>m'. json_value_init_boolean b m = (Some (V_Boolean (if b \<noteq> 0 then 1 else 0)), m') \<and> moved 1 m m'"
    "\<exists>m'. json_value_init_string_no_copy str m = (Some (V_String str), m') \<and> moved 1 m m'"
    "\<exists>m'. json_value_init_object m = (Some (V_Object (Json_Object [] 0)), m') \<and> moved 2 m m'"
    "\<exists>m'. json_value_init_array m = (Some (V_Array (Json_Array [] 0)), m') \<and> moved 2 m m'"
    using m1 m2 by (simp_all add: json_value_init_null_def json_value_init_number_def json_value_init_boolean_def
        json_value_init_string_no_copy_def json_value_init_object_def json_value_init_array_def json_object_init_def
        json_array_init_def)
qed

lemma strtod_length: "length (snd (strtod s)) \<le> length s"
proof -
  have sign: "length (snd (scan_sign t)) \<le> length t" for t
    by (cases t) (simp_all add: scan_sign_def)
  have mant: "length r \<le> length t" if "scan_mantissa dig t = Some (a, b, r)" for dig t a b r
  proof (cases "dropWhile dig t")
    case Nil
    then show ?thesis using that unfolding scan_mantissa_def Let_def Nil by (auto split: if_splits)
  next
    case (Cons c u)
    then have "length u < length t" by (metis Suc_le_lessD length_Cons length_dropWhile_le)
    then show ?thesis using that length_dropWhile_le [of dig t] length_dropWhile_le [of dig u]
      unfolding scan_mantissa_def Let_def Cons by (auto split: if_splits)
  qed
  have ex: "length r \<le> length t" if "scan_exponent L t = (e, r)" for L t e r
  proof (cases t)
    case (Cons c u)
    have "length (dropWhile isdigit (snd (scan_sign u))) \<le> length u"
      using length_dropWhile_le [of isdigit "snd (scan_sign u)"] sign [of u] by linarith
    then show ?thesis using that Cons by (auto simp: scan_exponent_def Let_def split: if_splits)
  qed (use that in \<open>simp add: scan_exponent_def\<close>)
  have dec: "length r \<le> length t" if "scan_decimal t = Some (x, r)" for t x r
    using that by (auto simp: scan_decimal_def split: option.splits prod.splits dest!: mant ex intro: le_trans)
  have hex: "length r \<le> length t" if "scan_hex t = Some (x, r)" for t x r
    using that by (auto simp: scan_hex_def split: option.splits prod.splits if_splits dest!: mant ex)
  have spec: "length r \<le> length t" if "scan_special t = Some (x, r)" for t x r
  proof -
    have "length (tl (dropWhile P (tl (drop 3 t)))) \<le> length t" for P
      using length_dropWhile_le [of P "tl (drop 3 t)"] by simp
    then show ?thesis using that by (auto simp: scan_special_def Let_def split: if_splits)
  qed
  let ?t = "snd (scan_sign (dropWhile isspace s))"
  have t: "length ?t \<le> length s" using sign [of "dropWhile isspace s"] length_dropWhile_le [of isspace s] by linarith
  show ?thesis
  proof (cases "scan_sign (dropWhile isspace s)")
    case (Pair neg u)
    show ?thesis using t Pair
      by (auto simp: strtod_def dest!: dec hex spec split: option.splits)
  qed
qed

section \<open>The parser returns, and accounts for its memory\<close>

lemma skip_length: "length (skip_whitespaces s) \<le> length s"
  by (simp add: skip_whitespaces_def length_dropWhile_le)

lemma skip_next: "peek s \<noteq> NUL \<Longrightarrow> length (skip_whitespaces (tl s)) < length s"
  using skip_length [of "tl s"] by (cases s) auto

lemma value_blocks_pos: "0 < value_blocks v"
  by (cases v) simp_all

text \<open>What the two loops have done to an array or object that was \<open>old\<close>.\<close>

definition looped :: "('a \<Rightarrow> nat) \<Rightarrow> ('a \<Rightarrow> bool) \<Rightarrow> 'a \<Rightarrow> string \<Rightarrow> jmem \<Rightarrow> ('a option \<times> string \<times> jmem) option \<Rightarrow> bool" where
  "looped blocks ok old s m res \<longleftrightarrow>
     (\<exists>r s' m'. res = Some (r, s', m') \<and> length s' \<le> length s \<and>
        (case r of
           None \<Rightarrow> \<exists>leak. moved (int leak - int (blocks old) - 1) m m'
         | Some new \<Rightarrow> ok new \<and> moved (int (blocks new) - int (blocks old)) m m'))"

lemma looped_later:
  assumes "looped blocks ok new s1 m1 res" "length s1 \<le> length s" "moved (int (blocks new) - int (blocks old)) m m1"
  shows "looped blocks ok old s m res"
proof -
  obtain r s' m' where r: "res = Some (r, s', m')" "length s' \<le> length s1"
    "case r of None \<Rightarrow> \<exists>leak. moved (int leak - int (blocks new) - 1) m1 m'
     | Some v \<Rightarrow> ok v \<and> moved (int (blocks v) - int (blocks new)) m1 m'"
    using assms(1) unfolding looped_def by blast
  have "case r of None \<Rightarrow> \<exists>leak. moved (int leak - int (blocks old) - 1) m m'
     | Some v \<Rightarrow> ok v \<and> moved (int (blocks v) - int (blocks old)) m m'"
  proof (cases r)
    case None
    then obtain leak where "moved (int leak - int (blocks new) - 1) m1 m'" using r(3) by auto
    from moved_trans [OF assms(3) this] show ?thesis using None by (auto simp: moved_def)
  next
    case (Some v)
    then have v: "ok v" "moved (int (blocks v) - int (blocks new)) m1 m'" using r(3) by simp_all
    from moved_trans [OF assms(3) v(2)] show ?thesis using Some v(1) by (simp add: moved_def)
  qed
  with r(1,2) assms(2) show ?thesis unfolding looped_def by force
qed

definition array_ok :: "nat \<Rightarrow> json_array \<Rightarrow> bool" where
  "array_ok k arr \<longleftrightarrow> length (arr_items arr) \<le> arr_capacity arr \<and> arr_capacity arr \<le> ARRAY_MAX_CAPACITY \<and>
     (\<forall>w \<in> set (arr_items arr). well_formed k w)"

lemma array_loop_ok:
  assumes pv: "\<And>s m. alloc_ok m \<Longrightarrow> parsed k s m (pv s m)"
  shows "alloc_ok m \<Longrightarrow> array_ok k arr \<Longrightarrow> looped array_blocks (array_ok k) arr s m (array_loop pv s arr m)"
proof (induction "length s" arbitrary: s arr m rule: less_induct)
  case less
  obtain vs cap where arr: "arr = Json_Array vs cap" by (cases arr)
  have ok: "length vs \<le> cap" "cap \<le> ARRAY_MAX_CAPACITY" "\<forall>w \<in> set vs. well_formed k w"
    using less.prems(2) arr by (simp_all add: array_ok_def)
  show ?case
  proof (cases "peek s = NUL")
    case True
    then show ?thesis using less.prems by (subst array_loop.simps) (simp add: looped_def)
  next
    case False
    obtain v r m1 leak where v: "pv s m = Some (v, r, m1)" "length r \<le> length s" "made leak value_blocks v m m1"
      "\<forall>w. v = Some w \<longrightarrow> well_formed k w"
      using pv [OF less.prems(1), of s] unfolding parsed_def by blast
    show ?thesis
    proof (cases v)
      case None
      have "moved (int leak) m m1" using v(3) None by (simp add: made_def)
      from moved_trans [OF this value_free_moved, of "V_Array arr"]
      have "moved (int leak - int (array_blocks arr) - 1) m (json_value_free (V_Array arr) m1)"
        by (simp add: algebra_simps)
      then show ?thesis using False v None by (subst array_loop.simps) (auto simp: looped_def)
    next
      case (Some w)
      have mv: "moved (int (value_blocks w)) m m1" and ww: "well_formed k w" using v(3,4) Some by (simp_all add: made_def)
      have m1: "alloc_ok m1" by (rule moved_alloc_ok [OF mv less.prems(1)])
      let ?room = "cap \<le> length vs \<longrightarrow> grown (length vs) cap \<le> ARRAY_MAX_CAPACITY"
      obtain st arr' m2 where a: "json_array_add arr w m1 = Some (st, arr', m2)"
        "if ?room then st = JSONSuccess \<and> arr' = Json_Array (vs @ [w]) (grown (length vs) cap) \<and> moved (if cap = 0 then 1 else 0) m1 m2
         else st = JSONFailure \<and> arr' = Json_Array vs cap \<and> m2 = m1"
        using array_add_ok [OF m1 ok(1), of w] arr by blast
      show ?thesis
      proof (cases ?room)
        case True
        then have s2: "st = JSONSuccess" "arr' = Json_Array (vs @ [w]) (grown (length vs) cap)"
          "moved (if cap = 0 then 1 else 0) m1 m2" using a(2) by presburger+
        have ok': "array_ok k arr'"
          using ok ww True grown_greater(1) [OF ok(1)] s2(2) by (auto simp: array_ok_def grown_def split: if_splits)
        have "int (array_blocks arr') - int (array_blocks arr) = int (value_blocks w) + (if cap = 0 then 1 else 0)"
          using s2(2) arr grown_greater(3) [of "length vs" cap] by simp
        then have mv2: "moved (int (array_blocks arr') - int (array_blocks arr)) m m2"
          using moved_trans [OF mv s2(3)] by simp
        let ?r = "skip_whitespaces r"
        have le: "length ?r \<le> length s" using skip_length [of r] v(2) by simp
        show ?thesis
        proof (cases "peek ?r = CHR '',''")
          case comma: True
          let ?n = "skip_whitespaces (tl ?r)"
          have lt: "length ?n < length s" using skip_next [of ?r] comma le by simp
          have "looped array_blocks (array_ok k) arr' ?n m2 (array_loop pv ?n arr' m2)"
            by (rule less.hyps [OF lt moved_alloc_ok [OF mv2 less.prems(1)] ok'])
          from looped_later [OF this _ mv2, of s]
          have "looped array_blocks (array_ok k) arr s m (array_loop pv ?n arr' m2)" using lt by simp
          then show ?thesis using False v(1) Some a(1) s2(1) comma by (subst array_loop.simps) (simp add: Let_def)
        next
          case nc: False
          then show ?thesis using False v(1) Some a(1) s2(1) ok' mv2 le
            by (subst array_loop.simps) (simp add: Let_def looped_def)
        qed
      next
        case full: False
        then have s2: "st = JSONFailure" "arr' = arr" "m2 = m1" using a(2) arr by presburger+
        from moved_trans [OF moved_trans [OF mv free_moved [of 1]] value_free_moved, of "V_Array arr"]
        have "moved (int (value_blocks w - 1) - int (array_blocks arr) - 1) m (json_value_free (V_Array arr) (parson_free 1 m1))"
          using value_blocks_pos [of w] by (simp add: of_nat_diff algebra_simps)
        then show ?thesis using False v(1,2) Some a(1) s2 by (subst array_loop.simps) (auto simp: looped_def)
      qed
    qed
  qed
qed

definition object_ok :: "nat \<Rightarrow> json_object \<Rightarrow> bool" where
  "object_ok k ob \<longleftrightarrow> distinct (map fst (obj_members ob)) \<and> length (obj_members ob) \<le> obj_capacity ob \<and>
     obj_capacity ob \<le> OBJECT_MAX_CAPACITY \<and>
     (\<forall>(n, w) \<in> set (obj_members ob). CHR 0x00 \<notin> set n \<and> well_formed k w)"

lemma looped_fail:
  assumes "length r \<le> length s" "moved (int leak) m m1"
  shows "looped object_blocks ok ob s m (Some (None, r, json_value_free (V_Object ob) m1))"
proof -
  from moved_trans [OF assms(2) value_free_moved, of "V_Object ob"]
  have "moved (int leak - int (object_blocks ob) - 1) m (json_value_free (V_Object ob) m1)"
    by (simp add: algebra_simps)
  then show ?thesis using assms(1) unfolding looped_def by auto
qed

lemma object_loop_ok:
  assumes pv: "\<And>s m. alloc_ok m \<Longrightarrow> parsed k s m (pv s m)"
  shows "alloc_ok m \<Longrightarrow> object_ok k ob \<Longrightarrow> looped object_blocks (object_ok k) ob s m (object_loop pv s ob m)"
proof (induction "length s" arbitrary: s ob m rule: less_induct)
  case less
  obtain ms cap where ob: "ob = Json_Object ms cap" by (cases ob)
  have ok: "length ms \<le> cap" using less.prems(2) ob by (simp add: object_ok_def)
  show ?case
  proof (cases "peek s = NUL")
    case True
    then show ?thesis using less.prems by (subst object_loop.simps) (simp add: looped_def)
  next
    case False
    obtain key s1 m1 where g: "get_quoted_string s m = Some (key, s1, m1)" "length s1 \<le> length s"
      "made 0 (\<lambda>_. 1) key m m1" "\<forall>str. key = Some str \<longrightarrow> NUL \<notin> set str"
      using get_quoted_string_ok [OF less.prems(1), of s] by blast
    let ?s1 = "skip_whitespaces s1"
    have le1: "length ?s1 \<le> length s" using skip_length [of s1] g(2) by simp
    show ?thesis
    proof (cases "key = None \<or> peek ?s1 \<noteq> CHR '':''")
      case True
      have "moved (int (case key of None \<Rightarrow> 0 | Some _ \<Rightarrow> 1)) m m1" using g(3) by (cases key) (simp_all add: made_def)
      from looped_fail [OF le1 this] show ?thesis using False g(1) True
        by (subst object_loop.simps) (simp add: Let_def)
    next
      case kc: False
      then obtain name where name: "key = Some name" and colon: "peek ?s1 = CHR '':''" by auto
      have mk: "moved 1 m m1" using g(3) name by (simp add: made_def)
      have m1: "alloc_ok m1" by (rule moved_alloc_ok [OF mk less.prems(1)])
      obtain v r m2 leak where v: "pv (tl ?s1) m1 = Some (v, r, m2)" "length r \<le> length (tl ?s1)" "made leak value_blocks v m1 m2"
        "\<forall>w. v = Some w \<longrightarrow> well_formed k w"
        using pv [OF m1, of "tl ?s1"] unfolding parsed_def by blast
      have le2: "length r \<le> length s" using v(2) le1 by simp
      show ?thesis
      proof (cases v)
        case None
        have "moved (int leak) m1 m2" using v(3) None by (simp add: made_def)
        from moved_trans [OF mk moved_trans [OF this free_moved [of 1]]]
        have "moved (int leak) m (parson_free 1 m2)" by simp
        from looped_fail [OF le2 this] show ?thesis using False g(1) name colon v(1) None
          by (subst object_loop.simps) (simp add: Let_def)
      next
        case (Some w)
        have mv: "moved (int (value_blocks w)) m1 m2" and ww: "well_formed k w" using v(3,4) Some by (simp_all add: made_def)
        have m2: "alloc_ok m2" by (rule moved_alloc_ok [OF mv m1])
        let ?room = "name \<notin> fst ` set ms \<and> (cap \<le> length ms \<longrightarrow> grown (length ms) cap \<le> OBJECT_MAX_CAPACITY)"
        obtain st ob' m3 where a: "json_object_add ob key v m2 = Some (st, ob', m3)"
          "if ?room then st = JSONSuccess \<and> ob' = Json_Object (ms @ [(name, w)]) (grown (length ms) cap) \<and>
             moved (1 + (if cap = 0 then 2 else 0)) m2 m3
           else st = JSONFailure \<and> ob' = Json_Object ms cap \<and> m3 = m2"
          using object_add_ok [OF m2 ok, of name w] ob name Some by blast
        show ?thesis
        proof (cases ?room)
          case True
          then have s2: "st = JSONSuccess" "ob' = Json_Object (ms @ [(name, w)]) (grown (length ms) cap)"
            "moved (1 + (if cap = 0 then 2 else 0)) m2 m3" using a(2) by presburger+
          have fresh: "name \<notin> fst ` set ms" using True by blast
          have ok': "object_ok k ob'"
            using less.prems(2) ww True grown_greater(1) [OF ok] s2(2) ob g(4) name
            by (auto simp: object_ok_def grown_def split: if_splits)
          let ?m = "parson_free 1 m3"
          have "int (object_blocks ob') - int (object_blocks ob) = 1 + int (value_blocks w) + (if cap = 0 then 2 else 0)"
            using s2(2) ob grown_greater(3) [of "length ms" cap] by simp
          then have mv2: "moved (int (object_blocks ob') - int (object_blocks ob)) m ?m"
            using moved_trans [OF mk moved_trans [OF mv moved_trans [OF s2(3) free_moved [of 1]]]]
            by (simp add: algebra_simps)
          let ?r = "skip_whitespaces r"
          have le: "length ?r \<le> length s" using skip_length [of r] le2 by simp
          show ?thesis
          proof (cases "peek ?r = CHR '',''")
            case comma: True
            let ?n = "skip_whitespaces (tl ?r)"
            have lt: "length ?n < length s" using skip_next [of ?r] comma le by simp
            have "looped object_blocks (object_ok k) ob' ?n ?m (object_loop pv ?n ob' ?m)"
              by (rule less.hyps [OF lt moved_alloc_ok [OF mv2 less.prems(1)] ok'])
            from looped_later [OF this _ mv2, of s]
            have "looped object_blocks (object_ok k) ob s m (object_loop pv ?n ob' ?m)" using lt by simp
            then show ?thesis using False g(1) name colon v(1) Some a(1) s2(1) comma
              by (subst object_loop.simps) (simp add: Let_def)
          next
            case nc: False
            then show ?thesis using False g(1) name colon v(1) Some a(1) s2(1) ok' mv2 le
              by (subst object_loop.simps) (simp add: Let_def looped_def)
          qed
        next
          case full: False
          then have s2: "st = JSONFailure" "ob' = ob" "m3 = m2" using a(2) ob by presburger+
          from moved_trans [OF mk moved_trans [OF mv free_moved [of "2"]]]
          have "moved (int (value_blocks w - 1)) m (parson_free 2 m2)"
            using value_blocks_pos [of w] by (simp add: of_nat_diff algebra_simps)
          from looped_fail [OF le2 this] show ?thesis using False g(1) name colon v(1) Some a(1) s2
            by (subst object_loop.simps) (simp add: Let_def free_add numeral_2_eq_2)
        qed
      qed
    qed
  qed
qed

lemma object_resize_0: "json_object_resize ob 0 m = Some (JSONFailure, ob, m)"
  by (simp add: json_object_resize_def)

lemma array_resize_0: "json_array_resize arr 0 m = Some (JSONFailure, arr, m)"
  by (simp add: json_array_resize_def)

lemma parse_array_value_ok:
  assumes pv: "\<And>s m. alloc_ok m \<Longrightarrow> parsed k s m (pv s m)" and m: "alloc_ok m"
  shows "parsed (Suc k) s m (parse_array_value pv s m)"
proof -
  obtain m1 where m1: "json_value_init_array m = (Some (V_Array (Json_Array [] 0)), m1)" "moved 2 m m1"
    using init_ok(6) [OF m] by blast
  show ?thesis
  proof (cases "peek s = CHR ''[''")
    case False
    have "made 2 value_blocks None m m1" using m1(2) by (simp add: made_def)
    then show ?thesis using m1(1) False
      by (intro parsedI [where leak = 2 and v = None and r = s and m' = m1]) (simp_all add: parse_array_value_def json_value_get_array_def)
  next
    case open_br: True
    let ?s = "skip_whitespaces (tl s)"
    have ls: "length ?s < length s" using skip_next [of s] open_br by simp
    show ?thesis
    proof (cases "peek ?s = CHR '']''")
      case True
      then show ?thesis using m1 open_br ls
        by (intro parsedI [where leak = 0 and v = "Some (V_Array (Json_Array [] 0))" and r = "tl ?s" and m' = m1])
          (simp_all add: parse_array_value_def json_value_get_array_def made_def array_ok_def)
    next
      case False
      have e: "array_ok k (Json_Array [] 0)" by (simp add: array_ok_def)
      obtain r s2 m2 where l: "array_loop pv ?s (Json_Array [] 0) m1 = Some (r, s2, m2)" "length s2 \<le> length ?s"
        "case r of None \<Rightarrow> \<exists>leak. moved (int leak - int (array_blocks (Json_Array [] 0)) - 1) m1 m2
         | Some arr \<Rightarrow> array_ok k arr \<and> moved (int (array_blocks arr) - int (array_blocks (Json_Array [] 0))) m1 m2"
        using array_loop_ok [OF pv moved_alloc_ok [OF m1(2) m] e, of ?s] unfolding looped_def by blast
      show ?thesis
      proof (cases r)
        case None
        then obtain leak where "moved (int leak - 2) m1 m2" using l(3) by auto
        then have "moved (int leak) m m2" using moved_trans [OF m1(2)] by fastforce
        then show ?thesis using m1(1) open_br False l(1,2) None ls
          by (intro parsedI [where leak = leak and v = None and r = s2 and m' = m2])
            (simp_all add: parse_array_value_def json_value_get_array_def Let_def made_def)
      next
        case (Some arr)
        have ok: "array_ok k arr" and mv: "moved (int (value_blocks (V_Array arr))) m m2"
          using l(3) Some moved_trans [OF m1(2)] by fastforce+
        obtain vs cap where arr: "arr = Json_Array vs cap" by (cases arr)
        let ?r = "skip_whitespaces s2"
        have le: "length ?r \<le> length s" using skip_length [of s2] l(2) ls by simp
        have fail: "moved 0 m (json_value_free (V_Array arr) m2)"
          using moved_trans [OF mv value_free_moved, of "V_Array arr"] by simp
        show ?thesis
        proof (cases "peek ?r = CHR '']'' \<and> vs \<noteq> []")
          case True
          have "0 < length vs" "length vs \<le> cap" using True ok arr by (simp_all add: array_ok_def)
          then have n: "0 < length vs" "cap \<noteq> 0" by linarith+
          obtain m3 where z: "json_array_resize (Json_Array vs cap) (length vs) m2 = Some (JSONSuccess, Json_Array vs (length vs), m3)"
            "moved 0 m2 m3"
            using array_resize_ok [OF moved_alloc_ok [OF mv m] le_refl n(1), of cap] n(2) by auto
          have "well_formed (Suc k) (V_Array (Json_Array vs (length vs)))" using ok arr by (simp add: array_ok_def)
          moreover have "moved (int (value_blocks (V_Array (Json_Array vs (length vs))))) m m3"
            using moved_trans [OF mv z(2)] arr n by simp
          ultimately show ?thesis using m1(1) open_br False l(1) Some True le z(1) arr
            by (intro parsedI [where leak = 0 and v = "Some (V_Array (Json_Array vs (length vs)))" and r = "tl ?r" and m' = m3])
            (simp_all add: parse_array_value_def json_value_get_array_def Let_def made_def del: well_formed.simps)
        next
          case bad: False
          have "parse_array_value pv s m = Some (None, ?r, json_value_free (V_Array arr) m2)"
            using m1(1) open_br False l(1) Some bad arr
            by (auto simp: parse_array_value_def json_value_get_array_def Let_def array_resize_0)
          then show ?thesis using fail le
            by (intro parsedI [where leak = 0 and v = None and r = ?r and m' = "json_value_free (V_Array arr) m2"])
              (simp_all add: made_def)
        qed
      qed
    qed
  qed
qed

lemma parse_object_value_ok:
  assumes pv: "\<And>s m. alloc_ok m \<Longrightarrow> parsed k s m (pv s m)" and m: "alloc_ok m"
  shows "parsed (Suc k) s m (parse_object_value pv s m)"
proof -
  obtain m1 where m1: "json_value_init_object m = (Some (V_Object (Json_Object [] 0)), m1)" "moved 2 m m1"
    using init_ok(5) [OF m] by blast
  show ?thesis
  proof (cases "peek s = CHR ''{''")
    case False
    have "made 2 value_blocks None m m1" using m1(2) by (simp add: made_def)
    then show ?thesis using m1(1) False
      by (intro parsedI [where leak = 2 and v = None and r = s and m' = m1]) (simp_all add: parse_object_value_def json_value_get_object_def)
  next
    case open_br: True
    let ?s = "skip_whitespaces (tl s)"
    have ls: "length ?s < length s" using skip_next [of s] open_br by simp
    show ?thesis
    proof (cases "peek ?s = CHR ''}''")
      case True
      then show ?thesis using m1 open_br ls
        by (intro parsedI [where leak = 0 and v = "Some (V_Object (Json_Object [] 0))" and r = "tl ?s" and m' = m1])
          (simp_all add: parse_object_value_def json_value_get_object_def made_def object_ok_def)
    next
      case False
      have e: "object_ok k (Json_Object [] 0)" by (simp add: object_ok_def)
      obtain r s2 m2 where l: "object_loop pv ?s (Json_Object [] 0) m1 = Some (r, s2, m2)" "length s2 \<le> length ?s"
        "case r of None \<Rightarrow> \<exists>leak. moved (int leak - int (object_blocks (Json_Object [] 0)) - 1) m1 m2
         | Some ob \<Rightarrow> object_ok k ob \<and> moved (int (object_blocks ob) - int (object_blocks (Json_Object [] 0))) m1 m2"
        using object_loop_ok [OF pv moved_alloc_ok [OF m1(2) m] e, of ?s] unfolding looped_def by blast
      show ?thesis
      proof (cases r)
        case None
        then obtain leak where "moved (int leak - 2) m1 m2" using l(3) by auto
        then have "moved (int leak) m m2" using moved_trans [OF m1(2)] by fastforce
        then show ?thesis using m1(1) open_br False l(1,2) None ls
          by (intro parsedI [where leak = leak and v = None and r = s2 and m' = m2])
            (simp_all add: parse_object_value_def json_value_get_object_def Let_def made_def)
      next
        case (Some ob)
        have ok: "object_ok k ob" and mv: "moved (int (value_blocks (V_Object ob))) m m2"
          using l(3) Some moved_trans [OF m1(2)] by fastforce+
        obtain ms cap where ob: "ob = Json_Object ms cap" by (cases ob)
        let ?r = "skip_whitespaces s2"
        have le: "length ?r \<le> length s" using skip_length [of s2] l(2) ls by simp
        have fail: "moved 0 m (json_value_free (V_Object ob) m2)"
          using moved_trans [OF mv value_free_moved, of "V_Object ob"] by simp
        show ?thesis
        proof (cases "peek ?r = CHR ''}'' \<and> ms \<noteq> []")
          case True
          have "0 < length ms" "length ms \<le> cap" using True ok ob by (simp_all add: object_ok_def)
          then have n: "0 < length ms" "cap \<noteq> 0" by linarith+
          obtain m3 where z: "json_object_resize (Json_Object ms cap) (length ms) m2 = Some (JSONSuccess, Json_Object ms (length ms), m3)"
            "moved 0 m2 m3"
            using object_resize_ok [OF moved_alloc_ok [OF mv m] le_refl n(1), of cap] n(2) by auto
          have "well_formed (Suc k) (V_Object (Json_Object ms (length ms)))" using ok ob by (simp add: object_ok_def)
          moreover have "moved (int (value_blocks (V_Object (Json_Object ms (length ms))))) m m3"
            using moved_trans [OF mv z(2)] ob n by simp
          ultimately show ?thesis using m1(1) open_br False l(1) Some True le z(1) ob
            by (intro parsedI [where leak = 0 and v = "Some (V_Object (Json_Object ms (length ms)))" and r = "tl ?r" and m' = m3])
            (simp_all add: parse_object_value_def json_value_get_object_def Let_def made_def del: well_formed.simps)
        next
          case bad: False
          have "parse_object_value pv s m = Some (None, ?r, json_value_free (V_Object ob) m2)"
            using m1(1) open_br False l(1) Some bad ob
            by (auto simp: parse_object_value_def json_value_get_object_def Let_def object_resize_0)
          then show ?thesis using fail le
            by (intro parsedI [where leak = 0 and v = None and r = ?r and m' = "json_value_free (V_Object ob) m2"])
              (simp_all add: made_def)
        qed
      qed
    qed
  qed
qed


lemma parse_string_value_ok: "alloc_ok m \<Longrightarrow> parsed (Suc k) s m (parse_string_value s m)"
proof -
  assume m: "alloc_ok m"
  obtain res r m1 where g: "get_quoted_string s m = Some (res, r, m1)" "length r \<le> length s" "made 0 (\<lambda>_. 1) res m m1"
    "\<forall>str. res = Some str \<longrightarrow> NUL \<notin> set str"
    using get_quoted_string_ok [OF m, of s] by blast
  show ?thesis
  proof (cases res)
    case None
    then show ?thesis using g by (intro parsedI [where leak = 0 and v = None and r = r and m' = m1])
        (simp_all add: parse_string_value_def made_def)
  next
    case (Some str)
    have m1: "moved 1 m m1" using g(3) Some by (simp add: made_def)
    obtain m2 where m2: "json_value_init_string_no_copy str m1 = (Some (V_String str), m2)" "moved 1 m1 m2"
      using init_ok(4) [OF moved_alloc_ok [OF m1 m]] by blast
    have "moved 2 m m2" using moved_trans [OF m1 m2(2)] by simp
    then show ?thesis using g Some m2(1)
      by (intro parsedI [where leak = 0 and v = "Some (V_String str)" and r = r and m' = m2])
        (simp_all add: parse_string_value_def made_def)
  qed
qed

lemma parse_boolean_value_ok: "alloc_ok m \<Longrightarrow> parsed (Suc k) s m (parse_boolean_value s m)"
proof -
  assume m: "alloc_ok m"
  obtain m1 where t: "json_value_init_boolean 1 m = (Some (V_Boolean 1), m1)" "moved 1 m m1" using init_ok(3) [OF m, of 1] by auto
  obtain m2 where f: "json_value_init_boolean 0 m = (Some (V_Boolean 0), m2)" "moved 1 m m2" using init_ok(3) [OF m, of 0] by auto
  consider "starts_with ''true'' s" | "\<not> starts_with ''true'' s" "starts_with ''false'' s"
    | "\<not> starts_with ''true'' s" "\<not> starts_with ''false'' s" by blast
  then show ?thesis
  proof cases
    case 1
    then show ?thesis using t by (intro parsedI [where leak = 0 and v = "Some (V_Boolean 1)" and r = "drop 4 s" and m' = m1])
        (simp_all add: parse_boolean_value_def made_def)
  next
    case 2
    then show ?thesis using f by (intro parsedI [where leak = 0 and v = "Some (V_Boolean 0)" and r = "drop 5 s" and m' = m2])
        (simp_all add: parse_boolean_value_def made_def)
  next
    case 3
    then show ?thesis by (intro parsedI [where leak = 0 and v = None and r = s and m' = m])
        (simp_all add: parse_boolean_value_def made_def)
  qed
qed

lemma parse_null_value_ok: "alloc_ok m \<Longrightarrow> parsed (Suc k) s m (parse_null_value s m)"
proof -
  assume m: "alloc_ok m"
  obtain m1 where t: "json_value_init_null m = (Some V_Null, m1)" "moved 1 m m1" using init_ok(1) [OF m] by blast
  show ?thesis
  proof (cases "starts_with ''null'' s")
    case True
    then show ?thesis using t by (intro parsedI [where leak = 0 and v = "Some V_Null" and r = "drop 4 s" and m' = m1])
        (simp_all add: parse_null_value_def made_def)
  next
    case False
    then show ?thesis by (intro parsedI [where leak = 0 and v = None and r = s and m' = m])
        (simp_all add: parse_null_value_def made_def)
  qed
qed

lemma parse_number_value_ok: "alloc_ok m \<Longrightarrow> parsed (Suc k) s m (parse_number_value s m)"
proof -
  assume m: "alloc_ok m"
  obtain d r where d: "strtod s = (d, r)" by fastforce
  then have le: "length r \<le> length s" using strtod_length [of s] by simp
  obtain m1 where t: "json_value_init_number d m = (Some (V_Number d), m1)" "moved 1 m m1" using init_ok(2) [OF m] by blast
  show ?thesis
  proof (cases "is_decimal (take (length s - length r) s)")
    case True
    then show ?thesis using t d le by (intro parsedI [where leak = 0 and v = "Some (V_Number d)" and r = r and m' = m1])
        (simp_all add: parse_number_value_def made_def)
  next
    case False
    then show ?thesis using d by (intro parsedI [where leak = 0 and v = None and r = s and m' = m])
        (simp_all add: parse_number_value_def made_def)
  qed
qed

lemma parsed_longer: "parsed k s m res \<Longrightarrow> length s \<le> length s' \<Longrightarrow> parsed k s' m res"
proof -
  assume a: "parsed k s m res" "length s \<le> length s'"
  then obtain v r m' leak where "res = Some (v, r, m')" "length r \<le> length s" "made leak value_blocks v m m'"
    "\<forall>w. v = Some w \<longrightarrow> well_formed k w" unfolding parsed_def by blast
  then show ?thesis using a(2) by (intro parsedI [where leak = leak and v = v and r = r and m' = m']) auto
qed

lemma parse_value_ok: "alloc_ok m \<Longrightarrow> parsed (MAX_NESTING + 1 - nesting) s m (parse_value nesting s m)"
proof (induction "MAX_NESTING + 1 - nesting" arbitrary: nesting s m)
  case 0
  then show ?case by (subst parse_value.simps) (auto intro!: parsedI [where leak = 0] simp: made_def)
next
  case (Suc k)
  then have n: "nesting \<le> MAX_NESTING" "k = MAX_NESTING + 1 - (nesting + 1)" by simp_all
  have pv: "parsed k s m (parse_value (nesting + 1) s m)" if "alloc_ok m" for s m
    using Suc.hyps(1) [OF n(2) that] n(2) by simp
  let ?s = "skip_whitespaces s"
  have "parsed (Suc k) ?s m (parse_value nesting s m)"
  proof -
    consider "peek ?s = CHR ''{''" | "peek ?s = CHR ''[''" | "peek ?s = CHR 0x22" | "peek ?s = CHR ''f'' \<or> peek ?s = CHR ''t''"
      | "peek ?s = CHR ''-'' \<or> isdigit (peek ?s)" | "peek ?s = CHR ''n''"
      | "peek ?s \<noteq> CHR ''{''" "peek ?s \<noteq> CHR ''[''" "peek ?s \<noteq> CHR 0x22" "peek ?s \<noteq> CHR ''f''" "peek ?s \<noteq> CHR ''t''"
        "peek ?s \<noteq> CHR ''-''" "\<not> isdigit (peek ?s)" "peek ?s \<noteq> CHR ''n''" by blast
    then show ?thesis
    proof cases
      case 1
      then have "parse_value nesting s m = parse_object_value (parse_value (nesting + 1)) ?s m"
        using n(1) by (subst parse_value.simps) (simp add: Let_def)
      then show ?thesis using parse_object_value_ok [OF pv Suc.prems] by simp
    next
      case 2
      then have "parse_value nesting s m = parse_array_value (parse_value (nesting + 1)) ?s m"
        using n(1) by (subst parse_value.simps) (simp add: Let_def)
      then show ?thesis using parse_array_value_ok [OF pv Suc.prems] by simp
    next
      case 3
      then have "parse_value nesting s m = parse_string_value ?s m"
        using n(1) by (subst parse_value.simps) (simp add: Let_def)
      then show ?thesis using parse_string_value_ok [OF Suc.prems] by simp
    next
      case 4
      then have "parse_value nesting s m = parse_boolean_value ?s m"
        using n(1) by (subst parse_value.simps) (auto simp: Let_def)
      then show ?thesis using parse_boolean_value_ok [OF Suc.prems] by simp
    next
      case 5
      then have "parse_value nesting s m = parse_number_value ?s m"
        using n(1) by (subst parse_value.simps) (auto simp: Let_def isdigit_def char_code_def)
      then show ?thesis using parse_number_value_ok [OF Suc.prems] by simp
    next
      case 6
      then have "parse_value nesting s m = parse_null_value ?s m"
        using n(1) by (subst parse_value.simps) (simp add: Let_def isdigit_def char_code_def)
      then show ?thesis using parse_null_value_ok [OF Suc.prems] by simp
    next
      case 7
      then have "parse_value nesting s m = Some (None, ?s, m)"
        using n(1) by (subst parse_value.simps) (simp add: Let_def)
      then show ?thesis by (intro parsedI [where leak = 0 and v = None and r = ?s and m' = m]) (simp_all add: made_def)
    qed
  qed
  from parsed_longer [OF this skip_length] show ?case unfolding Suc.hyps(2) .
qed

definition fresh_mem :: "(nat \<Rightarrow> bool) \<Rightarrow> jmem" where
  "fresh_mem f = \<lparr>jm_grants = f, jm_calls = 0, jm_blocks = 0\<rparr>"

text \<open>A name that occurs twice, here with an empty array, loses the blocks below the second value.\<close>

lemma duplicate_name_leaks:
  "map_option (\<lambda>(v, m). (v, jm_blocks m))
     (json_parse_string (Some (''{'' @ [CHR 0x22] @ ''a'' @ [CHR 0x22] @ '':[],'' @ [CHR 0x22] @ ''a'' @ [CHR 0x22] @ '':[]}''))
        (fresh_mem (\<lambda>_. True))) = Some (None, 1)"
  by code_simp

text \<open>A failed allocation of the buffer of a string is not noticed.\<close>

lemma process_string_unchecked:
  "json_parse_string (Some [CHR 0x22, CHR ''a'', CHR 0x22]) (fresh_mem (\<lambda>_. False)) = None"
  by code_simp

text \<open>C28: on every text the parser returns, within all buffers, when the allocator never fails; a value
  it returns has at most \<open>MAX_NESTING + 1\<close> levels, distinct names and the capacities allowed, and
  accounts for every block that was allocated.\<close>

theorem json_parse_string_returns:
  assumes "alloc_ok m"
  shows "\<exists>v m'. json_parse_string (Some s) m = Some (v, m') \<and> alloc_ok m' \<and>
    (case v of
       None \<Rightarrow> jm_blocks m \<le> jm_blocks m'
     | Some w \<Rightarrow> well_formed (MAX_NESTING + 1) w \<and> jm_blocks (json_value_free w m') = jm_blocks m)"
proof -
  obtain v r m' leak where p: "parse_value 0 s m = Some (v, r, m')" "made leak value_blocks v m m'"
    "\<forall>w. v = Some w \<longrightarrow> well_formed (MAX_NESTING + 1) w"
    using parse_value_ok [OF assms, of 0 s] unfolding parsed_def by auto
  have "alloc_ok m'" using p(2) assms moved_alloc_ok unfolding made_def by blast
  moreover have "jm_blocks (json_value_free w m') = jm_blocks m" if "v = Some w" for w
    using p(2) value_free_moved [of w m'] that by (simp add: made_def moved_def)
  moreover have "jm_blocks m \<le> jm_blocks m'" if "v = None"
    using p(2) that by (simp add: made_def moved_def)
  ultimately show ?thesis using p(1,3) by (cases v) (simp_all add: json_parse_string_def del: well_formed.simps)
qed

theorem json_parse_string_returns_witness:
  "\<exists>v m'. json_parse_string (Some ''[true, [nul]]'') (fresh_mem (\<lambda>_. True)) = Some (v, m') \<and> alloc_ok m' \<and>
    (case v of
       None \<Rightarrow> jm_blocks (fresh_mem (\<lambda>_. True)) \<le> jm_blocks m'
     | Some w \<Rightarrow> well_formed (MAX_NESTING + 1) w \<and> jm_blocks (json_value_free w m') = jm_blocks (fresh_mem (\<lambda>_. True)))"
  by (rule json_parse_string_returns) (simp add: alloc_ok_def fresh_mem_def)

end
