(* ===== verification/JsonSerialize.thy ===== *)
theory JsonSerialize
  imports JsonParse
begin

text \<open>
  The serializer of the JSON library \<open>cplusplus/jsonbenchmark/parson.c\<close>.  The output is the buffer, or
  nothing for NULL, and the offset that was reached; without a buffer the characters are only counted.
  A write outside the buffer is undefined.  The result -1 of the code is the inner \<open>None\<close>.
\<close>

section \<open>The code\<close>

type_synonym outbuf = "string option \<times> nat"

text \<open>\<open>sprintf\<close> with the format \<open>%s\<close> writes the characters and a NUL.\<close>

definition write_string :: "string \<Rightarrow> nat \<Rightarrow> string \<Rightarrow> string option" where
  "write_string b off str =
     (if off + length str < length b
      then Some (take off b @ str @ [NUL] @ drop (off + length str + 1) b) else None)"

definition append_string :: "string \<Rightarrow> outbuf \<Rightarrow> outbuf option" where
  "append_string str out =
     (case fst out of
        None \<Rightarrow> Some (None, snd out + length str)
      | Some b \<Rightarrow> do { b \<leftarrow> write_string b (snd out) str; Some (Some b, snd out + length str) })"

primrec append_indent :: "nat \<Rightarrow> outbuf \<Rightarrow> outbuf option" where
  "append_indent 0 out = Some out"
| "append_indent (Suc level) out = do { out \<leftarrow> append_string ''    '' out; append_indent level out }"

definition append_char :: "char \<Rightarrow> outbuf \<Rightarrow> outbuf option" where
  "append_char c out =
     (case fst out of
        None \<Rightarrow> Some (None, snd out + 1)
      | Some b \<Rightarrow> if snd out < length b then Some (Some (b[snd out := c]), snd out + 1) else None)"

definition hex_digit :: "nat \<Rightarrow> char" where
  "hex_digit n = char_of (if n < 10 then 48 + n else 87 + n)"

definition escape_text :: "char \<Rightarrow> string option" where
  "escape_text c =
     (if c = CHR 0x22 then Some [CHR 0x5C, CHR 0x22]
      else if c = CHR 0x5C then Some [CHR 0x5C, CHR 0x5C]
      else if c = CHR ''/'' then Some [CHR 0x5C, CHR ''/'']
      else if c = CHR 0x08 then Some [CHR 0x5C, CHR ''b'']
      else if c = CHR 0x0C then Some [CHR 0x5C, CHR ''f'']
      else if c = CHR 0x0A then Some [CHR 0x5C, CHR ''n'']
      else if c = CHR 0x0D then Some [CHR 0x5C, CHR ''r'']
      else if c = CHR 0x09 then Some [CHR 0x5C, CHR ''t'']
      else if char_code c < 0x20 then
        Some ([CHR 0x5C] @ ''u00'' @ [hex_digit (char_code c div 16), hex_digit (char_code c mod 16)])
      else None)"

primrec serialize_chars :: "string \<Rightarrow> outbuf \<Rightarrow> outbuf option" where
  "serialize_chars [] out = Some out"
| "serialize_chars (c # cs) out = do {
     out \<leftarrow> (case escape_text c of Some t \<Rightarrow> append_string t out | None \<Rightarrow> append_char c out);
     serialize_chars cs out
   }"

definition json_serialize_string :: "string \<Rightarrow> outbuf \<Rightarrow> outbuf option" where
  "json_serialize_string str out = do {
     out \<leftarrow> append_string [CHR 0x22] out;
     out \<leftarrow> serialize_chars str out;
     append_string [CHR 0x22] out
   }"

text \<open>The cast to int is undefined outside the range of int; \<open>num_buf\<close> has 1100 bytes.\<close>

definition number_text :: "double \<Rightarrow> string option" where
  "number_text num = do {
     i \<leftarrow> double_to_int num;
     Some (if num = Finite (of_int i) then sprintf_d i else sprintf_f num)
   }"

definition append_number :: "double \<Rightarrow> outbuf \<Rightarrow> outbuf option" where
  "append_number num out = do {
     t \<leftarrow> number_text num;
     if fst out = None \<and> 1100 \<le> length t then None else append_string t out
   }"

text \<open>Go on with the output, unless the result is -1.\<close>

definition and_then :: "outbuf option option \<Rightarrow> (outbuf \<Rightarrow> outbuf option option) \<Rightarrow> outbuf option option" where
  "and_then r f = do { out \<leftarrow> r; case out of None \<Rightarrow> Some None | Some out \<Rightarrow> f out }"

definition done_with :: "outbuf option \<Rightarrow> outbuf option option" where
  "done_with r = map_option Some r"

definition newline_if :: "bool \<Rightarrow> string" where
  "newline_if b = (if b then [CHR 0x0A] else [])"

lemma map_of_smaller: "map_of ms k = Some v \<Longrightarrow> size v < size (Json_Object ms cap)"
proof (induction ms)
  case (Cons m ms)
  then show ?case by (cases m) (auto split: if_splits)
qed simp

function (sequential)
  serialize_value :: "json_value option \<Rightarrow> nat \<Rightarrow> bool \<Rightarrow> outbuf \<Rightarrow> outbuf option option"
  and serialize_items :: "json_value list \<Rightarrow> nat \<Rightarrow> bool \<Rightarrow> outbuf \<Rightarrow> outbuf option option"
  and serialize_members :: "json_object \<Rightarrow> (string \<times> json_value) list \<Rightarrow> nat \<Rightarrow> bool \<Rightarrow> outbuf \<Rightarrow> outbuf option option"
where
  "serialize_value (Some (V_Array (Json_Array vs cap))) level pretty out =
     (let some = vs \<noteq> [] \<and> pretty in
      and_then (done_with (append_string ''['' out)) (\<lambda>out.
      and_then (done_with (if some then append_string [CHR 0x0A] out else Some out)) (\<lambda>out.
      and_then (serialize_items vs level pretty out) (\<lambda>out.
      and_then (done_with (if some then append_indent level out else Some out)) (\<lambda>out.
      done_with (append_string '']'' out))))))"
| "serialize_value (Some (V_Object (Json_Object ms cap))) level pretty out =
     (let some = ms \<noteq> [] \<and> pretty in
      and_then (done_with (append_string ''{'' out)) (\<lambda>out.
      and_then (done_with (if some then append_string [CHR 0x0A] out else Some out)) (\<lambda>out.
      and_then (serialize_members (Json_Object ms cap) ms level pretty out) (\<lambda>out.
      and_then (done_with (if some then append_indent level out else Some out)) (\<lambda>out.
      done_with (append_string ''}'' out))))))"
| "serialize_value (Some (V_String s)) level pretty out = done_with (json_serialize_string s out)"
| "serialize_value (Some (V_Boolean b)) level pretty out =
     done_with (append_string (if b \<noteq> 0 then ''true'' else ''false'') out)"
| "serialize_value (Some (V_Number num)) level pretty out = done_with (append_number num out)"
| "serialize_value (Some V_Null) level pretty out = done_with (append_string ''null'' out)"
| "serialize_value None level pretty out = Some None"
| "serialize_items [] level pretty out = Some (Some out)"
| "serialize_items (v # vs) level pretty out =
     and_then (done_with (if pretty then append_indent (level + 1) out else Some out)) (\<lambda>out.
     and_then (serialize_value (Some v) (level + 1) pretty out) (\<lambda>out.
     and_then (done_with (if vs \<noteq> [] then append_string '','' out else Some out)) (\<lambda>out.
     and_then (done_with (if pretty then append_string [CHR 0x0A] out else Some out)) (\<lambda>out.
     serialize_items vs level pretty out))))"
| "serialize_members ob [] level pretty out = Some (Some out)"
| "serialize_members ob ((key, v) # ms) level pretty out =
     and_then (done_with (if pretty then append_indent (level + 1) out else Some out)) (\<lambda>out.
     and_then (done_with (json_serialize_string key out)) (\<lambda>out.
     and_then (done_with (append_string '':'' out)) (\<lambda>out.
     and_then (done_with (if pretty then append_string '' '' out else Some out)) (\<lambda>out.
     and_then (serialize_value (json_object_get_value (Some ob) (Some key)) (level + 1) pretty out) (\<lambda>out.
     and_then (done_with (if ms \<noteq> [] then append_string '','' out else Some out)) (\<lambda>out.
     and_then (done_with (if pretty then append_string [CHR 0x0A] out else Some out)) (\<lambda>out.
     serialize_members ob ms level pretty out)))))))"
  by pat_completeness auto
termination
proof (relation "measures [\<lambda>x. case x of
      Inl (v, _) \<Rightarrow> (case v of None \<Rightarrow> 0 | Some v \<Rightarrow> size v)
    | Inr (Inl (vs, _)) \<Rightarrow> size_list size vs
    | Inr (Inr (ob, _)) \<Rightarrow> size ob, \<lambda>x. case x of Inr (Inr (_, ms, _)) \<Rightarrow> length ms | _ \<Rightarrow> 0]", goal_cases)
  case (6 ob key v ms level pretty out x y z w)
  show ?case
  proof (cases "json_object_get_value (Some ob) (Some key)")
    case (Some u)
    then have "size u < size ob" using map_of_smaller by (cases ob) simp
    then show ?thesis using Some by simp
  qed (cases ob, simp)
qed auto

text \<open>The size with the terminating NUL, 0 after an error.\<close>

definition json_serialization_size :: "bool \<Rightarrow> json_value option \<Rightarrow> nat option" where
  "json_serialization_size pretty v = do {
     r \<leftarrow> serialize_value v 0 pretty (None, 0);
     Some (case r of None \<Rightarrow> 0 | Some (b, n) \<Rightarrow> n + 1)
   }"

definition json_serialize_to_buffer :: "bool \<Rightarrow> json_value option \<Rightarrow> string \<Rightarrow> (json_status \<times> string) option" where
  "json_serialize_to_buffer pretty v buf = do {
     needed \<leftarrow> json_serialization_size pretty v;
     if needed = 0 \<or> length buf < needed then Some (JSONFailure, buf)
     else do {
       r \<leftarrow> serialize_value v 0 pretty (Some buf, 0);
       case r of
         Some (Some b, n) \<Rightarrow> Some (JSONSuccess, b)
       | _ \<Rightarrow> Some (JSONFailure, buf)
     }
   }"

text \<open>The new block of memory holds anything, here \<open>junk\<close>.\<close>

definition json_serialize_to_string ::
  "bool \<Rightarrow> (nat \<Rightarrow> char) \<Rightarrow> json_value option \<Rightarrow> jmem \<Rightarrow> (string option \<times> jmem) option"
where
  "json_serialize_to_string pretty junk v m = do {
     n \<leftarrow> json_serialization_size pretty v;
     if n = 0 then Some (None, m)
     else
       (let (ok, m) = parson_malloc m in
        if \<not> ok then Some (None, m)
        else do {
          (st, buf) \<leftarrow> json_serialize_to_buffer pretty v (map junk [0 ..< n]);
          if st = JSONFailure then Some (None, parson_free 1 m) else Some (Some buf, m)
        })
   }"

text \<open>The second copy of each function.\<close>

definition json_serialization_size_pretty :: "json_value option \<Rightarrow> nat option" where
  "json_serialization_size_pretty v = json_serialization_size True v"

definition json_serialize_to_buffer_pretty :: "json_value option \<Rightarrow> string \<Rightarrow> (json_status \<times> string) option" where
  "json_serialize_to_buffer_pretty v buf = json_serialize_to_buffer True v buf"

definition json_serialize_to_string_pretty ::
  "(nat \<Rightarrow> char) \<Rightarrow> json_value option \<Rightarrow> jmem \<Rightarrow> (string option \<times> jmem) option"
where
  "json_serialize_to_string_pretty junk v m = json_serialize_to_string True junk v m"

definition json_free_serialized_string :: "jmem \<Rightarrow> jmem" where
  "json_free_serialized_string m = parson_free 1 m"

section \<open>The text of a value\<close>

definition indent :: "bool \<Rightarrow> nat \<Rightarrow> string" where
  "indent pretty level = (if pretty then concat (replicate level ''    '') else [])"

definition escaped :: "char \<Rightarrow> string" where
  "escaped c = (case escape_text c of None \<Rightarrow> [c] | Some t \<Rightarrow> t)"

definition string_text :: "string \<Rightarrow> string" where
  "string_text str = [CHR 0x22] @ concat (map escaped str) @ [CHR 0x22]"

fun value_text :: "bool \<Rightarrow> nat \<Rightarrow> json_value \<Rightarrow> string"
  and items_text :: "bool \<Rightarrow> nat \<Rightarrow> json_value list \<Rightarrow> string"
  and members_text :: "bool \<Rightarrow> nat \<Rightarrow> (string \<times> json_value) list \<Rightarrow> string"
where
  "value_text p l V_Null = ''null''"
| "value_text p l (V_Boolean b) = (if b \<noteq> 0 then ''true'' else ''false'')"
| "value_text p l (V_Number d) = the (number_text d)"
| "value_text p l (V_String s) = string_text s"
| "value_text p l (V_Array (Json_Array vs cap)) =
     ''['' @ newline_if (vs \<noteq> [] \<and> p) @ items_text p l vs @ indent (vs \<noteq> [] \<and> p) l @ '']''"
| "value_text p l (V_Object (Json_Object ms cap)) =
     ''{'' @ newline_if (ms \<noteq> [] \<and> p) @ members_text p l ms @ indent (ms \<noteq> [] \<and> p) l @ ''}''"
| "items_text p l [] = []"
| "items_text p l (v # vs) =
     indent p (l + 1) @ value_text p (l + 1) v @ (if vs \<noteq> [] then '','' else []) @ newline_if p @ items_text p l vs"
| "members_text p l [] = []"
| "members_text p l ((k, v) # ms) =
     indent p (l + 1) @ string_text k @ '':'' @ (if p then '' '' else []) @ value_text p (l + 1) v @
     (if ms \<noteq> [] then '','' else []) @ newline_if p @ members_text p l ms"

text \<open>All numbers of a value can be cast to int.\<close>

lemma member_smaller [termination_simp]: "(k, v) \<in> set ms \<Longrightarrow> size v < Suc (size_list (size_prod (\<lambda>_. 0) size) ms)"
  by (induction ms) auto

fun castable :: "json_value \<Rightarrow> bool" where
  "castable (V_Number d) \<longleftrightarrow> double_to_int d \<noteq> None"
| "castable (V_Array (Json_Array vs cap)) \<longleftrightarrow> (\<forall>v \<in> set vs. castable v)"
| "castable (V_Object (Json_Object ms cap)) \<longleftrightarrow> (\<forall>(k, v) \<in> set ms. castable v)"
| "castable _ \<longleftrightarrow> True"

section \<open>What is written\<close>

definition room :: "string \<Rightarrow> outbuf \<Rightarrow> bool" where
  "room str out \<longleftrightarrow> (case fst out of None \<Rightarrow> True | Some b \<Rightarrow> snd out + length str < length b)"

definition wrote :: "string \<Rightarrow> outbuf \<Rightarrow> outbuf \<Rightarrow> bool" where
  "wrote str out out' \<longleftrightarrow> snd out' = snd out + length str \<and>
     (case fst out of
        None \<Rightarrow> fst out' = None
      | Some b \<Rightarrow> \<exists>b'. fst out' = Some b' \<and> length b' = length b \<and> take (snd out') b' = take (snd out) b @ str)"

definition ended :: "outbuf \<Rightarrow> bool" where
  "ended out \<longleftrightarrow> (case fst out of None \<Rightarrow> True | Some b \<Rightarrow> snd out < length b \<and> b ! snd out = NUL)"

lemma wrote_refl [simp]: "wrote [] out out"
  by (cases out) (auto simp: wrote_def split: option.splits)

lemma wrote_trans: "wrote s a b \<Longrightarrow> wrote t b c \<Longrightarrow> wrote (s @ t) a c"
  by (auto simp: wrote_def split: option.splits)

lemma room_left: "room (s @ t) out \<Longrightarrow> room s out"
  by (auto simp: room_def split: option.splits)

lemma room_right: "room (s @ t) out \<Longrightarrow> wrote s out out' \<Longrightarrow> room t out'"
  by (auto simp: room_def wrote_def split: option.splits)

text \<open>An operation writes a text whenever there is room for it and a NUL.\<close>

definition writes :: "string \<Rightarrow> (outbuf \<Rightarrow> outbuf option) \<Rightarrow> bool" where
  "writes str f \<longleftrightarrow> (\<forall>out. room str out \<longrightarrow> (\<exists>out'. f out = Some out' \<and> wrote str out out'))"

lemma writes_bind: "writes s f \<Longrightarrow> writes t g \<Longrightarrow> writes (s @ t) (\<lambda>out. do { out \<leftarrow> f out; g out })"
  unfolding writes_def
proof (intro allI impI)
  fix out
  assume f: "\<forall>out. room s out \<longrightarrow> (\<exists>out'. f out = Some out' \<and> wrote s out out')"
    and g: "\<forall>out. room t out \<longrightarrow> (\<exists>out'. g out = Some out' \<and> wrote t out out')" and r: "room (s @ t) out"
  obtain a where a: "f out = Some a" "wrote s out a" using f room_left [OF r] by blast
  obtain b where b: "g a = Some b" "wrote t a b" using g room_right [OF r a(2)] by blast
  show "\<exists>out'. f out \<bind> g = Some out' \<and> wrote (s @ t) out out'"
    using a b wrote_trans [OF a(2) b(2)] by simp
qed

lemma writes_nothing: "writes [] Some"
  by (simp add: writes_def)

lemma append_string_ends: "room str out \<Longrightarrow> \<exists>out'. append_string str out = Some out' \<and> wrote str out out' \<and> ended out'"
  by (cases out) (auto simp: room_def append_string_def write_string_def wrote_def ended_def nth_append split: option.splits)

lemma append_string_writes: "writes str (append_string str)"
  using append_string_ends unfolding writes_def by blast

lemma append_char_writes: "writes [c] (append_char c)"
  by (auto simp: writes_def room_def append_char_def wrote_def take_Suc_conv_app_nth split: option.splits)

lemma append_indent_writes: "writes (indent True level) (append_indent level)"
proof (induction level)
  case 0
  then show ?case using writes_nothing by (simp add: indent_def writes_def)
next
  case (Suc level)
  from writes_bind [OF append_string_writes [of "''    ''"] this] show ?case by (simp add: indent_def)
qed

lemma serialize_chars_writes: "writes (concat (map escaped str)) (serialize_chars str)"
proof (induction str)
  case Nil
  then show ?case using writes_nothing by (simp add: writes_def)
next
  case (Cons c cs)
  have "writes (escaped c) (\<lambda>out. case escape_text c of Some t \<Rightarrow> append_string t out | None \<Rightarrow> append_char c out)"
    using append_string_writes append_char_writes by (cases "escape_text c") (simp_all add: escaped_def)
  from writes_bind [OF this Cons] show ?case by simp
qed

text \<open>The same for what may fail with -1; \<open>e\<close> says that a NUL follows.\<close>

definition puts :: "bool \<Rightarrow> string \<Rightarrow> (outbuf \<Rightarrow> outbuf option option) \<Rightarrow> bool" where
  "puts e str f \<longleftrightarrow> (\<forall>out. room str out \<longrightarrow> (\<exists>out'. f out = Some (Some out') \<and> wrote str out out' \<and> (e \<longrightarrow> ended out')))"

lemma puts_then: "puts e' s f \<Longrightarrow> puts e t g \<Longrightarrow> puts e (s @ t) (\<lambda>out. and_then (f out) g)"
  unfolding puts_def
proof (intro allI impI)
  fix out
  assume f: "\<forall>out. room s out \<longrightarrow> (\<exists>out'. f out = Some (Some out') \<and> wrote s out out' \<and> (e' \<longrightarrow> ended out'))"
    and g: "\<forall>out. room t out \<longrightarrow> (\<exists>out'. g out = Some (Some out') \<and> wrote t out out' \<and> (e \<longrightarrow> ended out'))"
    and r: "room (s @ t) out"
  obtain a where a: "f out = Some (Some a)" "wrote s out a" using f room_left [OF r] by blast
  obtain b where b: "g a = Some (Some b)" "wrote t a b" "e \<longrightarrow> ended b" using g room_right [OF r a(2)] by blast
  show "\<exists>out'. and_then (f out) g = Some (Some out') \<and> wrote (s @ t) out out' \<and> (e \<longrightarrow> ended out')"
    using a b wrote_trans [OF a(2) b(2)] by (simp add: and_then_def)
qed

lemma puts_done: "writes str f \<Longrightarrow> puts False str (\<lambda>out. done_with (f out))"
  unfolding puts_def writes_def done_with_def by fastforce

lemma puts_end: "puts True str (\<lambda>out. done_with (append_string str out))"
  unfolding puts_def done_with_def using append_string_ends by fastforce

lemma puts_if: "puts False (if b then str else []) (\<lambda>out. done_with (if b then append_string str out else Some out))"
  using puts_done [OF append_string_writes] puts_done [OF writes_nothing] by (cases b) simp_all

lemma puts_indent: "puts False (indent b level) (\<lambda>out. done_with (if b then append_indent level out else Some out))"
  using puts_done [OF append_indent_writes] puts_done [OF writes_nothing] by (cases b) (simp_all add: indent_def)

lemma puts_string: "puts True (string_text str) (\<lambda>out. done_with (json_serialize_string str out))"
  unfolding puts_def
proof (intro allI impI)
  fix out
  assume r: "room (string_text str) out"
  have w: "writes ([CHR 0x22] @ concat (map escaped str)) (\<lambda>out. do { out \<leftarrow> append_string [CHR 0x22] out; serialize_chars str out })"
    by (rule writes_bind [OF append_string_writes serialize_chars_writes])
  have r': "room (([CHR 0x22] @ concat (map escaped str)) @ [CHR 0x22]) out" using r by (simp add: string_text_def)
  obtain a where a: "append_string [CHR 0x22] out \<bind> serialize_chars str = Some a"
    "wrote ([CHR 0x22] @ concat (map escaped str)) out a"
    using w room_left [OF r'] unfolding writes_def by blast
  obtain b where b: "append_string [CHR 0x22] a = Some b" "wrote [CHR 0x22] a b" "ended b"
    using append_string_ends [OF room_right [OF r' a(2)]] by blast
  have "json_serialize_string str out = (append_string [CHR 0x22] out \<bind> serialize_chars str) \<bind> append_string [CHR 0x22]"
    by (simp add: json_serialize_string_def)
  then have "json_serialize_string str out = Some b" using a(1) b(1) by simp
  then show "\<exists>out'. done_with (json_serialize_string str out) = Some (Some out') \<and> wrote (string_text str) out out' \<and> (True \<longrightarrow> ended out')"
    using b(3) wrote_trans [OF a(2) b(2)] by (simp add: done_with_def string_text_def)
qed

lemma puts_weaken: "puts e str f \<Longrightarrow> puts False str f"
  unfolding puts_def by blast

lemma length_show_nat: "n < 10 ^ k \<Longrightarrow> 0 < k \<Longrightarrow> length (show_nat n) \<le> k"
proof (induction n arbitrary: k rule: show_nat.induct)
  case (1 n)
  show ?case
  proof (cases "n < 10")
    case True
    then show ?thesis using "1.prems" by (subst show_nat.simps) simp
  next
    case False
    then obtain j where k: "k = Suc j" "0 < j" using "1.prems" by (cases k; cases "k - 1") auto
    have "n div 10 < 10 ^ j" using "1.prems" k by (simp add: less_mult_imp_div_less mult.commute)
    then have "length (show_nat (n div 10)) \<le> j" using "1.IH" False k by blast
    then show ?thesis using False k by (subst show_nat.simps) simp
  qed
qed

text \<open>A number that can be cast to int is short, so \<open>num_buf\<close> has room for it.\<close>

lemma castable_bound:
  assumes "double_to_int (Finite x) = Some i"
  shows "\<bar>x\<bar> < 2 ^ 31 + 1" "\<bar>i\<bar> \<le> 2 ^ 31" "- (2 ^ 31) \<le> i" "i < 2 ^ 31"
proof -
  have i: "i = (if 0 \<le> x then \<lfloor>x\<rfloor> else \<lceil>x\<rceil>)" "- (2 ^ 31) \<le> i" "i < 2 ^ 31"
    using assms by (auto simp: double_to_int_def Let_def split: if_splits)
  then show "- (2 ^ 31) \<le> i" "i < 2 ^ 31" "\<bar>i\<bar> \<le> 2 ^ 31" by linarith+
  show "\<bar>x\<bar> < 2 ^ 31 + 1"
  proof (cases "0 \<le> x")
    case True
    then have "\<lfloor>x\<rfloor> < 2 ^ 31" using i by simp
    then show ?thesis using True by (simp add: floor_less_iff)
  next
    case False
    then have "- (2 ^ 31) \<le> \<lceil>x\<rceil>" using i by simp
    then have "- (2 ^ 31) - 1 < \<lceil>x\<rceil>" by simp
    then show ?thesis using False by (simp add: less_ceiling_iff)
  qed
qed

lemma round_even_near: "of_int (round_even x) \<le> x + 1" "0 \<le> x \<Longrightarrow> 0 \<le> round_even x"
  using of_int_floor_le [of x] by (auto simp: round_even_def Let_def) linarith+

lemma sprintf_f_parts:
  assumes "\<bar>x\<bar> < 2 ^ 31 + 1"
  shows "\<exists>a b. sprintf_f (Finite x) = (if x < 0 then ''-'' else []) @ show_nat a @ ''.'' @ replicate (6 - length (show_nat b)) (CHR ''0'') @ show_nat b \<and>
    length (show_nat b) \<le> 6 \<and> length (show_nat a) \<le> 10 \<and> a * 10 ^ 6 + b = nat (round_even (\<bar>x\<bar> * 10 ^ 6))"
proof -
  let ?n = "nat (round_even (\<bar>x\<bar> * 10 ^ 6))"
  have "of_int (round_even (\<bar>x\<bar> * 10 ^ 6)) \<le> \<bar>x\<bar> * 10 ^ 6 + 1" by (rule round_even_near)
  also have "\<dots> < (2 ^ 31 + 1) * 10 ^ 6 + 1" using assms by simp
  also have "\<dots> < of_int (10 ^ 16)" by simp
  finally have "round_even (\<bar>x\<bar> * 10 ^ 6) < 10 ^ 16" by (simp only: of_int_less_iff)
  then have "?n < 10 ^ 16" by (simp add: nat_less_iff)
  then have "?n div 10 ^ 6 < 10 ^ 10" by (simp add: less_mult_imp_div_less)
  then have "length (show_nat (?n div 10 ^ 6)) \<le> 10" "length (show_nat (?n mod 10 ^ 6)) \<le> 6"
    by (intro length_show_nat; simp)+
  then show ?thesis
    by (intro exI [of _ "?n div 10 ^ 6"] exI [of _ "?n mod 10 ^ 6"]) (simp add: sprintf_f_def Let_def del: power_Suc)
qed

lemma number_text_short: "number_text d = Some t \<Longrightarrow> length t < 1100"
proof -
  assume t: "number_text d = Some t"
  then obtain x i where x: "d = Finite x" "double_to_int (Finite x) = Some i"
    by (cases d) (auto simp: number_text_def double_to_int_def split: bind_splits)
  show ?thesis
  proof (cases "x = of_int i")
    case True
    have "nat \<bar>i\<bar> < 10 ^ 10" using castable_bound(2) [OF x(2)] by (simp add: nat_less_iff)
    then have "length (show_nat (nat \<bar>i\<bar>)) \<le> 10" by (intro length_show_nat) simp_all
    then show ?thesis using t x True by (auto simp: number_text_def sprintf_d_def)
  next
    case False
    obtain a b where ab: "sprintf_f (Finite x) = (if x < 0 then ''-'' else []) @ show_nat a @ ''.'' @ replicate (6 - length (show_nat b)) (CHR ''0'') @ show_nat b"
      "length (show_nat b) \<le> 6" "length (show_nat a) \<le> 10"
      using sprintf_f_parts [OF castable_bound(1) [OF x(2)]] by blast
    then have "length (sprintf_f (Finite x)) \<le> 20" by simp
    then show ?thesis using t x False by (simp add: number_text_def)
  qed
qed

lemma puts_number: "double_to_int d \<noteq> None \<Longrightarrow> puts True (the (number_text d)) (\<lambda>out. done_with (append_number d out))"
proof -
  assume "double_to_int d \<noteq> None"
  then obtain t where t: "number_text d = Some t" by (auto simp: number_text_def)
  then have "append_number d = append_string t" using number_text_short [OF t] by (auto simp: append_number_def fun_eq_iff)
  then show ?thesis using puts_end t by simp
qed

section \<open>The serializer writes the text of the value\<close>

lemma well_formed_parts:
  "well_formed k (V_Array (Json_Array vs cap)) \<Longrightarrow> \<exists>j. k = Suc j \<and> (\<forall>v \<in> set vs. well_formed j v)"
  "well_formed k (V_Object (Json_Object ms cap)) \<Longrightarrow>
     \<exists>j. k = Suc j \<and> distinct (map fst ms) \<and> (\<forall>(n, v) \<in> set ms. CHR 0x00 \<notin> set n \<and> well_formed j v)"
  by (cases k; auto)+

lemma newline_if_if: "newline_if b = (if b then [CHR 0x0A] else [])"
  by (simp add: newline_if_def)

lemma serialize_eqs:
  "serialize_value (Some V_Null) l p = (\<lambda>out. done_with (append_string ''null'' out))"
  "serialize_value (Some (V_Boolean b)) l p = (\<lambda>out. done_with (append_string (if b \<noteq> 0 then ''true'' else ''false'') out))"
  "serialize_value (Some (V_Number d)) l p = (\<lambda>out. done_with (append_number d out))"
  "serialize_value (Some (V_String str)) l p = (\<lambda>out. done_with (json_serialize_string str out))"
  "serialize_value (Some (V_Array (Json_Array vs cap))) l p = (\<lambda>out.
      and_then (done_with (append_string ''['' out)) (\<lambda>out.
      and_then (done_with (if vs \<noteq> [] \<and> p then append_string [CHR 0x0A] out else Some out)) (\<lambda>out.
      and_then (serialize_items vs l p out) (\<lambda>out.
      and_then (done_with (if vs \<noteq> [] \<and> p then append_indent l out else Some out)) (\<lambda>out.
      done_with (append_string '']'' out))))))"
  "serialize_value (Some (V_Object (Json_Object ms cap))) l p = (\<lambda>out.
      and_then (done_with (append_string ''{'' out)) (\<lambda>out.
      and_then (done_with (if ms \<noteq> [] \<and> p then append_string [CHR 0x0A] out else Some out)) (\<lambda>out.
      and_then (serialize_members (Json_Object ms cap) ms l p out) (\<lambda>out.
      and_then (done_with (if ms \<noteq> [] \<and> p then append_indent l out else Some out)) (\<lambda>out.
      done_with (append_string ''}'' out))))))"
  "serialize_items [] l p = (\<lambda>out. done_with (Some out))"
  "serialize_members ob [] l p = (\<lambda>out. done_with (Some out))"
  by (rule ext, simp add: Let_def done_with_def)+

lemma serialize_puts:
  "(\<exists>k. well_formed k v) \<Longrightarrow> castable v \<Longrightarrow> puts True (value_text p l v) (serialize_value (Some v) l p)"
  "(\<forall>v \<in> set vs. (\<exists>k. well_formed k v) \<and> castable v) \<Longrightarrow> puts False (items_text p l vs) (serialize_items vs l p)"
  "(\<forall>(k, v) \<in> set ms. map_of (obj_members ob) k = Some v \<and> (\<exists>k. well_formed k v) \<and> castable v) \<Longrightarrow>
     puts False (members_text p l ms) (serialize_members ob ms l p)"
proof (induction p l v and p l vs and p l ms arbitrary: and and ob rule: value_text_items_text_members_text.induct)
  case (5 p l vs cap)
  have "\<forall>v \<in> set vs. (\<exists>k. well_formed k v) \<and> castable v" using 5(2,3) well_formed_parts(1) by fastforce
  then have i: "puts False (items_text p l vs) (serialize_items vs l p)" by (rule 5(1))
  show ?case unfolding value_text.simps serialize_eqs newline_if_if
    by (intro puts_then [OF puts_end] puts_then [OF puts_if] puts_then [OF i] puts_then [OF puts_indent] puts_end)
next
  case (6 p l ms cap)
  obtain j where j: "distinct (map fst ms)" "\<forall>(n, v) \<in> set ms. well_formed j v"
    using 6(2) well_formed_parts(2) by fastforce
  have "\<forall>(k, v) \<in> set ms. map_of (obj_members (Json_Object ms cap)) k = Some v \<and> (\<exists>k. well_formed k v) \<and> castable v"
    using j 6(3) by (auto intro: map_of_is_SomeI)
  then have i: "puts False (members_text p l ms) (serialize_members (Json_Object ms cap) ms l p)" by (rule 6(1))
  show ?case unfolding value_text.simps serialize_eqs newline_if_if
    by (intro puts_then [OF puts_end] puts_then [OF puts_if] puts_then [OF i] puts_then [OF puts_indent] puts_end)
next
  case (8 p l v vs)
  have v: "puts True (value_text p (l + 1) v) (serialize_value (Some v) (l + 1) p)" by (rule 8(1)) (use 8(3) in simp_all)
  have vs: "puts False (items_text p l vs) (serialize_items vs l p)" by (rule 8(2)) (use 8(3) in simp)
  have eq: "serialize_items (v # vs) l p = (\<lambda>out.
     and_then (done_with (if p then append_indent (l + 1) out else Some out)) (\<lambda>out.
     and_then (serialize_value (Some v) (l + 1) p out) (\<lambda>out.
     and_then (done_with (if vs \<noteq> [] then append_string '','' out else Some out)) (\<lambda>out.
     and_then (done_with (if p then append_string [CHR 0x0A] out else Some out)) (\<lambda>out.
     serialize_items vs l p out)))))" by (rule ext) simp
  show ?case unfolding items_text.simps eq newline_if_if
    by (intro puts_then [OF puts_indent] puts_then [OF v] puts_then [OF puts_if] vs)
next
  case (10 p l k v ms)
  have v: "puts True (value_text p (l + 1) v) (serialize_value (json_object_get_value (Some ob) (Some k)) (l + 1) p)"
    using 10(1,3) by simp
  have ms: "puts False (members_text p l ms) (serialize_members ob ms l p)" by (rule 10(2)) (use 10(3) in simp)
  have eq: "serialize_members ob ((k, v) # ms) l p = (\<lambda>out.
     and_then (done_with (if p then append_indent (l + 1) out else Some out)) (\<lambda>out.
     and_then (done_with (json_serialize_string k out)) (\<lambda>out.
     and_then (done_with (append_string '':'' out)) (\<lambda>out.
     and_then (done_with (if p then append_string '' '' out else Some out)) (\<lambda>out.
     and_then (serialize_value (json_object_get_value (Some ob) (Some k)) (l + 1) p out) (\<lambda>out.
     and_then (done_with (if ms \<noteq> [] then append_string '','' out else Some out)) (\<lambda>out.
     and_then (done_with (if p then append_string [CHR 0x0A] out else Some out)) (\<lambda>out.
     serialize_members ob ms l p out))))))))" by (rule ext) simp
  show ?case unfolding members_text.simps eq newline_if_if
    by (intro puts_then [OF puts_indent] puts_then [OF puts_string] puts_then [OF puts_end] puts_then [OF puts_if] puts_then [OF v] ms)
qed (use puts_end puts_number puts_string puts_done [OF writes_nothing] in \<open>simp_all only: value_text.simps items_text.simps members_text.simps serialize_eqs castable.simps\<close>)

lemma serialization_size_ok:
  assumes "well_formed k v" "castable v"
  shows "json_serialization_size p (Some v) = Some (length (value_text p 0 v) + 1)"
proof -
  have "room (value_text p 0 v) (None, 0)" by (simp add: room_def)
  then obtain out' where o: "serialize_value (Some v) 0 p (None, 0) = Some (Some out')" "wrote (value_text p 0 v) (None, 0) out'"
    using serialize_puts(1) [of v p 0] assms unfolding puts_def by blast
  then have "snd out' = length (value_text p 0 v)" by (simp add: wrote_def)
  then show ?thesis using o(1) by (cases out') (simp add: json_serialization_size_def)
qed

lemma serialize_to_buffer_ok:
  assumes "well_formed k v" "castable v" "length (value_text p 0 v) < length buf"
  shows "\<exists>b. json_serialize_to_buffer p (Some v) buf = Some (JSONSuccess, b) \<and> length b = length buf \<and>
    take (length (value_text p 0 v) + 1) b = value_text p 0 v @ [NUL]"
proof -
  let ?t = "value_text p 0 v"
  have "room ?t (Some buf, 0)" using assms(3) by (simp add: room_def)
  then obtain out' where o: "serialize_value (Some v) 0 p (Some buf, 0) = Some (Some out')" "wrote ?t (Some buf, 0) out'" "ended out'"
    using serialize_puts(1) [of v p 0] assms unfolding puts_def by blast
  then obtain b where b: "out' = (Some b, length ?t)" "length b = length buf" "take (length ?t) b = ?t"
    by (cases out') (auto simp: wrote_def)
  then have "b ! length ?t = NUL" using o(3) by (simp add: ended_def)
  then have "take (length ?t + 1) b = ?t @ [NUL]" using b(2,3) assms(3) by (simp add: take_Suc_conv_app_nth)
  then show ?thesis using o(1) b serialization_size_ok [OF assms(1,2), of p] assms(3)
    by (simp add: json_serialize_to_buffer_def)
qed

lemma serialize_to_string_ok:
  assumes "well_formed k v" "castable v" "alloc_ok m"
  shows "\<exists>m'. json_serialize_to_string p junk (Some v) m = Some (Some (value_text p 0 v @ [NUL]), m') \<and> moved 1 m m'"
proof -
  let ?n = "length (value_text p 0 v) + 1"
  obtain m1 where m1: "parson_malloc m = (True, m1)" "moved 1 m m1" using malloc_ok [OF assms(3)] by blast
  obtain b where b: "json_serialize_to_buffer p (Some v) (map junk [0 ..< ?n]) = Some (JSONSuccess, b)"
    "length b = ?n" "take ?n b = value_text p 0 v @ [NUL]"
    using serialize_to_buffer_ok [OF assms(1,2), of p "map junk [0 ..< ?n]"] by auto
  then have "b = value_text p 0 v @ [NUL]" by simp
  then show ?thesis using m1 b(1) serialization_size_ok [OF assms(1,2), of p]
    by (simp add: json_serialize_to_string_def del: upt_Suc)
qed

end
