(* ===== verification/JsonRoundtrip.thy ===== *)
theory JsonRoundtrip
  imports JsonSerialize
begin

text \<open>
  What the serializer of \<open>cplusplus/jsonbenchmark/parson.c\<close> writes, its parser reads back.
\<close>

section \<open>Strings\<close>

lemma hex_digit_facts:
  assumes "n < 16"
  shows "isxdigit (hex_digit n)" "hex_value (hex_digit n) = n"
proof -
  have "char_code (hex_digit n) = (if n < 10 then 48 + n else 87 + n)"
    using assms by (simp add: hex_digit_def char_code_char_of)
  then show "isxdigit (hex_digit n)" "hex_value (hex_digit n) = n"
    using assms by (auto simp: isxdigit_def isdigit_def hex_value_def)
qed

lemma zero_facts: "isxdigit (CHR ''0'')" "hex_value (CHR ''0'') = 0"
  by (simp_all add: isxdigit_def isdigit_def hex_value_def char_code_def)

lemma char_of_code: "char_of (char_code c) = c"
  by (simp add: char_code_def)

lemma parse_control:
  assumes "char_code c < 0x20"
  shows "parse_utf_16 (CHR ''u'' # CHR ''0'' # CHR ''0'' # hex_digit (char_code c div 16) # hex_digit (char_code c mod 16) # t) =
    Some ([c], hex_digit (char_code c mod 16) # t)"
proof -
  have h: "char_code c div 16 < 16" "char_code c mod 16 < 16" using assms by simp_all
  have v: "number_value 16 [CHR ''0'', CHR ''0'', hex_digit (char_code c div 16), hex_digit (char_code c mod 16)] = char_code c"
    using h by (simp add: number_value_def zero_facts hex_digit_facts)
  have "is_utf16_hex (CHR ''0'' # CHR ''0'' # hex_digit (char_code c div 16) # hex_digit (char_code c mod 16) # t)"
    using h by (simp add: is_utf16_hex_def zero_facts hex_digit_facts)
  then show ?thesis using v assms by (simp add: parse_utf_16_def Let_def char_of_code)
qed

lemma escape_char_simps:
  "escape_char (CHR 0x22) = Some (CHR 0x22)" "escape_char (CHR 0x5C) = Some (CHR 0x5C)" "escape_char (CHR ''/'') = Some (CHR ''/'')"
  "escape_char (CHR ''b'') = Some (CHR 0x08)" "escape_char (CHR ''f'') = Some (CHR 0x0C)" "escape_char (CHR ''n'') = Some (CHR 0x0A)"
  "escape_char (CHR ''r'') = Some (CHR 0x0D)" "escape_char (CHR ''t'') = Some (CHR 0x09)"
  by (simp_all add: escape_char_def)

definition simple_escapes :: "char set" where
  "simple_escapes = {CHR 0x22, CHR 0x5C, CHR ''/'', CHR 0x08, CHR 0x0C, CHR 0x0A, CHR 0x0D, CHR 0x09}"

lemma escape_text_simple: "c \<in> simple_escapes \<Longrightarrow> \<exists>x. escape_text c = Some [CHR 0x5C, x] \<and> escape_char x = Some c"
  unfolding simple_escapes_def insert_iff empty_iff
  by (elim disjE FalseE) (simp_all add: escape_text_def escape_char_simps)

lemma escape_text_other: "c \<notin> simple_escapes \<Longrightarrow> escape_text c =
    (if char_code c < 0x20
     then Some ([CHR 0x5C] @ ''u00'' @ [hex_digit (char_code c div 16), hex_digit (char_code c mod 16)]) else None)"
  by (simp add: escape_text_def simple_escapes_def)

lemma escaped_cases:
  obtains (simple) x where "escaped c = [CHR 0x5C, x]" "escape_char x = Some c"
  | (control) "escaped c = [CHR 0x5C, CHR ''u'', CHR ''0'', CHR ''0'', hex_digit (char_code c div 16), hex_digit (char_code c mod 16)]"
      "char_code c < 0x20"
  | (plain) "escaped c = [c]" "c \<noteq> CHR 0x22" "c \<noteq> CHR 0x5C" "\<not> char_code c < 0x20"
proof (cases "c \<in> simple_escapes")
  case True
  then show thesis using escape_text_simple [OF True] simple by (auto simp: escaped_def)
next
  case False
  then have "c \<noteq> CHR 0x22" "c \<noteq> CHR 0x5C" by (auto simp: simple_escapes_def)
  then show thesis using escape_text_other [OF False] control plain by (cases "char_code c < 0x20") (simp_all add: escaped_def)
qed

lemma escape_char_u: "escape_char (CHR ''u'') = None"
  by (simp add: escape_char_def)

lemma quote_loop_escaped: "quote_loop (escaped c @ t) = quote_loop t"
proof (cases c rule: escaped_cases)
  case control
  then have h: "char_code c div 16 < 16" "char_code c mod 16 < 16" by simp_all
  show ?thesis using control(1) isxdigit_plain [OF hex_digit_facts(1) [OF h(1)]] isxdigit_plain [OF hex_digit_facts(1) [OF h(2)]]
    by simp
qed simp_all

lemma quote_loop_string: "quote_loop (concat (map escaped str) @ CHR 0x22 # t) = (JSONSuccess, t)"
  by (induction str) (simp_all add: quote_loop_escaped)

lemma process_loop_escaped:
  assumes "c \<noteq> NUL" "length out < cap"
  shows "process_loop cap (escaped c @ t) (length (escaped c) + n) out = process_loop cap t n (out @ [c])"
proof (cases c rule: escaped_cases)
  case (simple x)
  then show ?thesis using assms by (subst process_loop.simps) (simp add: put_bytes_def)
next
  case control
  then show ?thesis using assms
    by (subst process_loop.simps) (simp add: put_bytes_def escape_char_u parse_control)
next
  case plain
  then show ?thesis using assms by (subst process_loop.simps) (simp add: put_bytes_def)
qed

lemma escaped_nonempty: "0 < length (escaped c)"
  by (cases c rule: escaped_cases) simp_all

lemma process_loop_string:
  "NUL \<notin> set str \<Longrightarrow> length out + length (concat (map escaped str)) < cap \<Longrightarrow>
   process_loop cap (concat (map escaped str) @ t) (length (concat (map escaped str))) out = Some (Some (out @ str))"
proof (induction str arbitrary: out)
  case Nil
  then show ?case by (subst process_loop.simps) simp
next
  case (Cons c cs)
  have "process_loop cap (escaped c @ (concat (map escaped cs) @ t)) (length (escaped c) + length (concat (map escaped cs))) out =
      process_loop cap (concat (map escaped cs) @ t) (length (concat (map escaped cs))) (out @ [c])"
    using Cons.prems by (intro process_loop_escaped) auto
  also have "\<dots> = Some (Some ((out @ [c]) @ cs))"
    using Cons.prems escaped_nonempty [of c] by (intro Cons.IH) (auto simp del: length_greater_0_conv)
  finally show ?case by simp
qed

lemma c_string_id: "NUL \<notin> set str \<Longrightarrow> c_string str = str"
  by (auto simp: c_string_def takeWhile_eq_all_conv)

lemma get_quoted_string_text:
  assumes "NUL \<notin> set str" "alloc_ok m"
  shows "\<exists>m'. get_quoted_string (string_text str @ r) m = Some (Some str, r, m') \<and> alloc_ok m'"
proof -
  let ?t = "concat (map escaped str)"
  have q: "skip_quotes (string_text str @ r) = (JSONSuccess, r)"
    using quote_loop_string [of str r] by (simp add: skip_quotes_def string_text_def)
  have len: "length (string_text str @ r) - length r - 2 = length ?t" by (simp add: string_text_def)
  obtain m1 where m1: "parson_malloc m = (True, m1)" "moved 1 m m1" using malloc_ok [OF assms(2)] by blast
  obtain m2 where m2: "parson_malloc m1 = (True, m2)" "moved 1 m1 m2"
    using malloc_ok [OF moved_alloc_ok [OF m1(2) assms(2)]] by blast
  have tl: "tl (string_text str @ r) = ?t @ CHR 0x22 # r" by (simp add: string_text_def)
  have "length str \<le> length ?t"
  proof (induction str)
    case (Cons c cs)
    then show ?case using escaped_nonempty [of c] by (simp del: length_greater_0_conv)
  qed simp
  then have "put_bytes (length ?t + 1) str [NUL] = Some (str @ [NUL])" by (simp add: put_bytes_def)
  moreover have "process_loop (length ?t + 1) (?t @ CHR 0x22 # r) (length ?t) [] = Some (Some str)"
    using process_loop_string [OF assms(1), of "[]" "length ?t + 1" "CHR 0x22 # r"] by simp
  ultimately have "process_string (?t @ CHR 0x22 # r) (length ?t) m = Some (Some str, parson_free 1 m2)"
    using m1(1) m2(1) assms(1) by (simp add: process_string_def Let_def c_string_def takeWhile_append c_string_id [unfolded c_string_def])
  moreover have "alloc_ok (parson_free 1 m2)"
    using moved_alloc_ok [OF moved_trans [OF moved_trans [OF m1(2) m2(2)] free_moved] assms(2)] by blast
  ultimately show ?thesis unfolding get_quoted_string_def q Let_def prod.case len tl by simp
qed

section \<open>Numbers\<close>

lemma number_value_append: "number_value 10 (xs @ ys) = number_value 10 xs * 10 ^ length ys + number_value 10 ys"
proof -
  have "foldl (\<lambda>n c. 10 * n + hex_value c) a ys = a * 10 ^ length ys + foldl (\<lambda>n c. 10 * n + hex_value c) 0 ys" for a
  proof (induction ys arbitrary: a)
    case (Cons c cs)
    show ?case using Cons [of "10 * a + hex_value c"] Cons [of "hex_value c"] by (simp add: algebra_simps)
  qed simp
  from this [of "number_value 10 xs"] show ?thesis by (simp add: number_value_def)
qed

lemma number_value_zeros: "number_value 10 (replicate n (CHR ''0'')) = 0"
proof (induction n)
  case (Suc n)
  have "number_value 10 (replicate (Suc n) (CHR ''0'')) = number_value 10 (replicate n (CHR ''0'') @ [CHR ''0''])"
    by (simp add: replicate_append_same)
  then show ?case using Suc by (simp add: number_value_snoc zero_facts)
qed (simp add: number_value_def)

text \<open>The number that is read back from the text of a double.\<close>

definition reread :: "double \<Rightarrow> double" where
  "reread d = (case number_text d of None \<Rightarrow> d | Some t \<Rightarrow> fst (strtod t))"

text \<open>A text as the two formats write it.\<close>

definition decimal_text :: "string \<Rightarrow> bool" where
  "decimal_text t \<longleftrightarrow> (\<exists>neg a f. t = (if neg then ''-'' else []) @ show_nat a @ (if f = [] then [] else ''.'' @ f) \<and>
     (\<forall>c \<in> set f. isdigit c))"

lemma digit_not: "isdigit c \<Longrightarrow> \<not> isspace c \<and> c \<noteq> CHR ''-'' \<and> c \<noteq> CHR ''+'' \<and> c \<noteq> CHR ''.'' \<and> c \<notin> set ''xX'' \<and> c \<notin> set '',]}:eE'' \<and> c \<noteq> NUL"
  by (auto simp: isspace_def isdigit_def char_code_def)

lemma show_nat_zero_head: "show_nat n = CHR ''0'' # cs \<Longrightarrow> cs = []"
proof -
  assume z: "show_nat n = CHR ''0'' # cs"
  have "show_nat n = [digit_char n] \<or> n \<ge> 10" by (subst show_nat.simps) simp
  moreover have "n \<ge> 10 \<Longrightarrow> hd (show_nat n) \<noteq> CHR ''0''"
  proof (induction n rule: show_nat.induct)
    case (1 n)
    have "hd (show_nat n) = hd (show_nat (n div 10))"
      using 1(2) show_nat_nonempty by (subst show_nat.simps) simp
    moreover have "hd (show_nat (n div 10)) \<noteq> CHR ''0''"
    proof (cases "10 \<le> n div 10")
      case False
      then have "hd (show_nat (n div 10)) = digit_char (n div 10)" by (subst show_nat.simps) simp
      moreover have "digit_char (n div 10) \<noteq> CHR ''0''"
      proof
        assume "digit_char (n div 10) = CHR ''0''"
        from arg_cong [OF this, of hex_value] have "n div 10 = 0" using False by (simp add: digit_char_facts zero_facts)
        with 1(2) show False by simp
      qed
      ultimately show ?thesis by simp
    qed (use 1 in simp)
    ultimately show ?case by simp
  qed
  ultimately show ?thesis using z by auto
qed

lemma decimal_text_is_decimal: "decimal_text t \<Longrightarrow> is_decimal t"
proof -
  assume "decimal_text t"
  then obtain neg a f where t: "t = (if neg then ''-'' else []) @ show_nat a @ (if f = [] then [] else ''.'' @ f)"
    "\<forall>c \<in> set f. isdigit c" unfolding decimal_text_def by blast
  obtain c cs where a: "show_nat a = c # cs" "isdigit c" using show_nat_head by blast
  have z: "c = CHR ''0'' \<Longrightarrow> cs = []" using a(1) show_nat_zero_head by blast
  have "d \<notin> set ''xX''" if "d \<in> set t" for d
  proof -
    have "d = CHR ''-'' \<or> d = CHR ''.'' \<or> isdigit d"
      using that t show_nat_digits [of d a] by (auto split: if_splits)
    then show ?thesis using digit_not [of d] by auto
  qed
  then have x: "list_all (\<lambda>c. c \<notin> set ''xX'') t" by (simp add: list_all_iff)
  have "c \<noteq> CHR ''-''" using digit_not [OF a(2)] by simp
  then show ?thesis using x z t(1) a(1) unfolding is_decimal_def
    by (cases neg; cases "c = CHR ''0''"; cases "f = []") (auto simp: nth_Cons')
qed

lemma strtod_decimal_text:
  assumes t: "decimal_text t" and r: "ends_number r"
  shows "strtod (t @ r) = (fst (strtod t), r)"
proof -
  obtain neg a f where t: "t = (if neg then ''-'' else []) @ show_nat a @ (if f = [] then [] else ''.'' @ f)"
    "\<forall>c \<in> set f. isdigit c" using t unfolding decimal_text_def by blast
  let ?f = "if f = [] then [] else ''.'' @ f"
  obtain c cs where a: "show_nat a = c # cs" "isdigit c" using show_nat_head by blast
  have eq: "strtod (t @ r) = (let x = round_double (of_nat (number_value 10 (show_nat a @ f)) * 10 powi (- int (length f)))
      in (if neg then negate x else x, r))" if r: "ends_number r" for r
  proof -
    have sign: "scan_sign (dropWhile isspace (t @ r)) = (neg, show_nat a @ ?f @ r)"
      using t(1) a digit_not [OF a(2)] by (auto simp: scan_sign_def isspace_def char_code_def)
    have tw: "takeWhile isdigit (f @ r) = f" "dropWhile isdigit (f @ r) = r"
      using t(2) r by (cases r; auto simp: ends_number_def takeWhile_append2 dropWhile_append2)+
    have tw0: "takeWhile isdigit (show_nat a @ ?f @ r) = show_nat a" "dropWhile isdigit (show_nat a @ ?f @ r) = ?f @ r"
      using show_nat_digits [of _ a] r
      by (cases r; auto simp: takeWhile_append2 dropWhile_append2 ends_number_def isdigit_def char_code_def)+
    have m: "scan_mantissa isdigit (show_nat a @ ?f @ r) = Some (show_nat a, f, r)"
      using r tw unfolding scan_mantissa_def Let_def tw0
      by (cases "f = []"; cases r) (auto simp: show_nat_nonempty ends_number_def)
    have ex: "scan_exponent {CHR ''e'', CHR ''E''} r = (0, r)"
      using r by (cases r) (auto simp: scan_exponent_def ends_number_def)
    have hex: "scan_hex (show_nat a @ ?f @ r) = None"
    proof (cases "f = []")
      case True
      then show ?thesis using no_hex_show [OF r] by simp
    next
      case False
      have l: "lower (CHR ''.'') = CHR ''.''" by (simp add: lower_def char_code_def)
      show ?thesis
      proof (cases cs)
        case Nil
        then show ?thesis using False a(1) l by (simp add: scan_hex_def starts_with_def)
      next
        case (Cons d ds)
        then have "isdigit d" using a(1) show_nat_digits [of d a] by simp
        then have "lower d = d" "d \<noteq> CHR ''x''" using lower_digit digit_not [of d] by auto
        then show ?thesis using False a(1) Cons by (simp add: scan_hex_def starts_with_def)
      qed
    qed
    show ?thesis using sign m ex hex by (simp add: strtod_def scan_decimal_def Let_def)
  qed
  have "ends_number []" by (simp add: ends_number_def)
  from eq [OF this] eq [OF r] show ?thesis by (simp add: Let_def)
qed

lemma number_text_decimal: "number_text d = Some t \<Longrightarrow> decimal_text t"
proof -
  assume t: "number_text d = Some t"
  then obtain x i where x: "d = Finite x" "double_to_int (Finite x) = Some i"
    by (cases d) (auto simp: number_text_def double_to_int_def split: bind_splits)
  show ?thesis
  proof (cases "x = of_int i")
    case True
    then have "t = (if i < 0 then ''-'' else []) @ show_nat (nat \<bar>i\<bar>) @ (if [] = ([] :: string) then [] else ''.'' @ [])"
      using t x by (simp add: number_text_def sprintf_d_def)
    then show ?thesis unfolding decimal_text_def
      by (intro exI [of _ "i < 0"] exI [of _ "nat \<bar>i\<bar>"] exI [of _ "[]"]) simp
  next
    case False
    obtain a b where ab: "sprintf_f (Finite x) = (if x < 0 then ''-'' else []) @ show_nat a @ ''.'' @ replicate (6 - length (show_nat b)) (CHR ''0'') @ show_nat b"
      using sprintf_f_parts [OF castable_bound(1) [OF x(2)]] by blast
    let ?f = "replicate (6 - length (show_nat b)) (CHR ''0'') @ show_nat b"
    have "t = (if x < 0 then ''-'' else []) @ show_nat a @ (if ?f = [] then [] else ''.'' @ ?f)"
      using t x False ab show_nat_nonempty [of b] by (simp add: number_text_def)
    moreover have "\<forall>c \<in> set ?f. isdigit c" using show_nat_digits [of _ b] by (auto simp: isdigit_def char_code_def)
    ultimately show ?thesis unfolding decimal_text_def by blast
  qed
qed

lemma reread_int: "- (2 ^ 31) \<le> i \<Longrightarrow> i < 2 ^ 31 \<Longrightarrow> reread (Finite (of_int i)) = Finite (of_int i)"
proof -
  assume i: "- (2 ^ 31) \<le> i" "i < 2 ^ 31"
  then have "double_to_int (Finite (of_int i)) = Some i" by (simp add: double_to_int_def)
  then have t: "number_text (Finite (of_int i)) = Some (sprintf_d i)" by (simp add: number_text_def)
  have "strtod (sprintf_d i @ []) = (Finite (of_int i), [])"
    using i by (intro strtod_sprintf_d) (auto simp: ends_number_def)
  then show ?thesis using t by (simp add: reread_def)
qed

section \<open>Values\<close>

text \<open>A value after it is written and read: the arrays are trimmed, and numbers have six decimals.\<close>

fun reparsed :: "json_value \<Rightarrow> json_value" where
  "reparsed (V_Array (Json_Array vs cap)) = V_Array (Json_Array (map reparsed vs) (length vs))"
| "reparsed (V_Object (Json_Object ms cap)) = V_Object (Json_Object (map (\<lambda>(k, v). (k, reparsed v)) ms) (length ms))"
| "reparsed (V_Number d) = V_Number (reread d)"
| "reparsed v = v"

definition value_start :: "char \<Rightarrow> bool" where
  "value_start c \<longleftrightarrow> \<not> isspace c \<and> c \<noteq> NUL \<and> c \<notin> set '',]}:''"

lemma value_start_chars: "value_start (CHR ''['')" "value_start (CHR ''{'')" "value_start (CHR 0x22)" "value_start (CHR ''t'')"
  "value_start (CHR ''f'')" "value_start (CHR ''n'')" "value_start (CHR ''-'')"
  by (simp_all add: value_start_def isspace_def char_code_def)

lemma value_text_head: "castable v \<Longrightarrow> \<exists>c cs. value_text p l v = c # cs \<and> value_start c"
proof (cases v)
  case (V_Number d)
  assume "castable v"
  then obtain t where t: "number_text d = Some t" using V_Number by (auto simp: number_text_def)
  obtain neg a f where d: "t = (if neg then ''-'' else []) @ show_nat a @ (if f = [] then [] else ''.'' @ f)"
    using number_text_decimal [OF t] unfolding decimal_text_def by blast
  obtain c cs where a: "show_nat a = c # cs" "isdigit c" using show_nat_head by blast
  have "value_start c" using digit_not [OF a(2)] by (auto simp: value_start_def)
  then show ?thesis using V_Number t d a value_start_chars by (cases neg) simp_all
next
  case (V_Object ob)
  then show ?thesis using value_start_chars by (cases ob) simp
next
  case (V_Array arr)
  then show ?thesis using value_start_chars by (cases arr) simp
qed (use value_start_chars in \<open>auto simp: string_text_def\<close>)

lemma skip_spaces: "list_all isspace w \<Longrightarrow> skip_whitespaces (w @ s) = skip_whitespaces s"
  by (auto simp: skip_whitespaces_def list_all_iff dropWhile_append2)

lemma skip_start: "\<not> isspace c \<Longrightarrow> skip_whitespaces (c # s) = c # s"
  by (simp add: skip_whitespaces_def)

lemma space_lists: "list_all isspace (indent p l)" "list_all isspace (newline_if p)" "list_all isspace '' ''"
  by (auto simp: indent_def newline_if_def list_all_iff isspace_def char_code_def)

text \<open>A parser reads the text of a value back, with spaces in front.\<close>

definition reads :: "value_parser \<Rightarrow> bool \<Rightarrow> nat \<Rightarrow> json_value \<Rightarrow> bool" where
  "reads pv p l v \<longleftrightarrow> (\<forall>w r m. list_all isspace w \<longrightarrow> ends_number r \<longrightarrow> alloc_ok m \<longrightarrow>
     (\<exists>m'. pv (w @ value_text p l v @ r) m = Some (Some (reparsed v), r, m') \<and> alloc_ok m'))"

lemma readsD: "reads pv p l v \<Longrightarrow> list_all isspace w \<Longrightarrow> ends_number r \<Longrightarrow> alloc_ok m \<Longrightarrow>
    \<exists>m'. pv (w @ value_text p l v @ r) m = Some (Some (reparsed v), r, m') \<and> alloc_ok m'"
  unfolding reads_def by blast

text \<open>The capacities of a growing array, and room for one more.\<close>

definition growing :: "nat \<Rightarrow> nat \<Rightarrow> bool" where
  "growing J cap \<longleftrightarrow> cap = 0 \<or> (\<exists>j \<le> J. cap = 15 * 2 ^ j)"

lemma growing_grown:
  assumes "growing J cap" "n \<le> cap" "n < 15 * 2 ^ J"
  shows "growing J (grown n cap)" "grown n cap \<le> 15 * 2 ^ J"
proof -
  have "growing J (grown n cap) \<and> grown n cap \<le> 15 * 2 ^ J"
  proof (cases "cap \<le> n")
    case False
    then have "grown n cap = cap" by (simp add: grown_def)
    then show ?thesis using assms(1) by (auto simp: growing_def)
  next
    case True
    show ?thesis
    proof (cases "cap = 0")
      case True
      then have "grown n cap = 15 * 2 ^ 0" using assms(2) by (simp add: grown_def STARTING_CAPACITY_def)
      then show ?thesis unfolding growing_def by fastforce
    next
      case False
      then obtain j where j: "j \<le> J" "cap = 15 * 2 ^ j" using assms(1) by (auto simp: growing_def)
      have "j \<noteq> J" using True assms(3) j(2) by auto
      then have J: "Suc j \<le> J" using j(1) by simp
      have "(1 :: nat) \<le> 2 ^ j" by simp
      then have "15 \<le> cap * 2" using j(2) by linarith
      then have "grown n cap = cap * 2" using True by (simp add: grown_def STARTING_CAPACITY_def)
      then have g: "grown n cap = 15 * 2 ^ Suc j" using j(2) by simp
      have "(2 :: nat) ^ Suc j \<le> 2 ^ J" using J by (intro power_increasing) simp_all
      then show ?thesis using g J unfolding growing_def by auto
    qed
  qed
  then show "growing J (grown n cap)" "grown n cap \<le> 15 * 2 ^ J" by blast+
qed

section \<open>Arrays and objects\<close>

lemma skip_to_value:
  assumes "castable v" "list_all isspace w"
  shows "skip_whitespaces (w @ value_text p l v @ t) = value_text p l v @ t"
    "peek (value_text p l v @ t) \<noteq> NUL" "peek (value_text p l v @ t) \<notin> set '',]}:''" "\<not> isspace (peek (value_text p l v @ t))"
  using value_text_head [OF assms(1), of p l] assms(2) by (auto simp: skip_spaces skip_start value_start_def)

lemma comma_plain: "\<not> isspace (CHR '','')" "ends_number (CHR '','' # t)" "\<not> isspace (CHR 0x22)" "\<not> isspace (CHR '':'')"
  by (simp_all add: isspace_def char_code_def ends_number_def isdigit_def)

lemma ends_newline: "ends_number r \<Longrightarrow> ends_number (newline_if p @ r)"
  by (auto simp: newline_if_def ends_number_def isdigit_def char_code_def)

lemma array_max: "ARRAY_MAX_CAPACITY = 15 * 2 ^ 13"
  by (simp add: ARRAY_MAX_CAPACITY_def)

lemma object_max: "OBJECT_MAX_CAPACITY = 15 * 2 ^ 6"
  by (simp add: OBJECT_MAX_CAPACITY_def)

lemma array_loop_text:
  assumes r: "ends_number r" "peek (skip_whitespaces r) \<noteq> CHR '',''"
  shows "vs \<noteq> [] \<Longrightarrow> \<forall>v \<in> set vs. reads pv p (l + 1) v \<and> castable v \<Longrightarrow> growing 13 cap \<Longrightarrow> length ds \<le> cap \<Longrightarrow>
    length ds + length vs \<le> ARRAY_MAX_CAPACITY \<Longrightarrow> alloc_ok m \<Longrightarrow>
    \<exists>cap' m'. array_loop pv (skip_whitespaces (items_text p l vs @ r)) (Json_Array ds cap) m =
        Some (Some (Json_Array (ds @ map reparsed vs) cap'), skip_whitespaces r, m') \<and>
      alloc_ok m' \<and> length ds + length vs \<le> cap'"
proof (induction vs arbitrary: ds cap m)
  case (Cons v vs)
  have v: "reads pv p (l + 1) v" "castable v" using Cons.prems(2) by simp_all
  let ?tail = "(if vs \<noteq> [] then '','' else []) @ newline_if p @ items_text p l vs @ r"
  let ?s = "value_text p (l + 1) v @ ?tail"
  have start: "skip_whitespaces (items_text p l (v # vs) @ r) = ?s" "peek ?s \<noteq> NUL"
    using skip_to_value(1) [OF v(2) space_lists(1), of p "l + 1" p "l + 1" ?tail] skip_to_value(2) [OF v(2) space_lists(1)] by simp_all
  have tail: "ends_number ?tail"
    using comma_plain(2) ends_newline [OF r(1)] by (cases "vs = []") simp_all
  obtain m1 where m1: "pv ?s m = Some (Some (reparsed v), ?tail, m1)" "alloc_ok m1"
    using readsD [OF v(1), of "[]" ?tail m] tail Cons.prems(6) by auto
  have room: "length ds < 15 * 2 ^ 13" using Cons.prems(5) by (simp add: array_max)
  note g = growing_grown [OF Cons.prems(3,4) room]
  let ?cap = "grown (length ds) cap"
  obtain m2 where m2: "json_array_add (Json_Array ds cap) (reparsed v) m1 = Some (JSONSuccess, Json_Array (ds @ [reparsed v]) ?cap, m2)"
    "alloc_ok m2"
    using array_add_ok [OF m1(2) Cons.prems(4), of "reparsed v"] g(2) moved_alloc_ok [OF _ m1(2)]
    unfolding array_max [symmetric] by auto
  have len: "length (ds @ [reparsed v]) \<le> ?cap" using grown_greater(1) [OF Cons.prems(4)] by simp
  show ?case
  proof (cases "vs = []")
    case True
    have "skip_whitespaces ?tail = skip_whitespaces r" using True skip_spaces [OF space_lists(2)] by simp
    then show ?thesis using start m1(1) m2 r(2) True len
      by (subst array_loop.simps) (simp add: Let_def)
  next
    case False
    let ?next = "skip_whitespaces (items_text p l vs @ r)"
    have t: "skip_whitespaces ?tail = ?tail" "peek ?tail = CHR '',''" "skip_whitespaces (tl ?tail) = ?next"
      using False comma_plain(1) skip_spaces [OF space_lists(2)] by (simp_all add: skip_start)
    have "\<exists>cap' m'. array_loop pv ?next (Json_Array (ds @ [reparsed v]) ?cap) m2 =
        Some (Some (Json_Array ((ds @ [reparsed v]) @ map reparsed vs) cap'), skip_whitespaces r, m') \<and>
      alloc_ok m' \<and> length (ds @ [reparsed v]) + length vs \<le> cap'"
      by (rule Cons.IH [OF False _ g(1) len _ m2(2)]) (use Cons.prems in simp_all)
    moreover have "array_loop pv (skip_whitespaces (items_text p l (v # vs) @ r)) (Json_Array ds cap) m =
        array_loop pv ?next (Json_Array (ds @ [reparsed v]) ?cap) m2"
      unfolding start(1) using start(2) m1(1) m2(1) t by (subst array_loop.simps) (simp add: Let_def)
    ultimately show ?thesis by simp
  qed
qed simp

lemma object_loop_text:
  assumes r: "ends_number r" "peek (skip_whitespaces r) \<noteq> CHR '',''"
  shows "ms \<noteq> [] \<Longrightarrow> \<forall>(k, v) \<in> set ms. NUL \<notin> set k \<and> reads pv p (l + 1) v \<and> castable v \<Longrightarrow> growing 6 cap \<Longrightarrow> length ds \<le> cap \<Longrightarrow>
    length ds + length ms \<le> OBJECT_MAX_CAPACITY \<Longrightarrow> distinct (map fst ds @ map fst ms) \<Longrightarrow> alloc_ok m \<Longrightarrow>
    \<exists>cap' m'. object_loop pv (skip_whitespaces (members_text p l ms @ r)) (Json_Object ds cap) m =
        Some (Some (Json_Object (ds @ map (\<lambda>(k, v). (k, reparsed v)) ms) cap'), skip_whitespaces r, m') \<and>
      alloc_ok m' \<and> length ds + length ms \<le> cap'"
proof (induction ms arbitrary: ds cap m)
  case (Cons kv ms)
  obtain k v where kv: "kv = (k, v)" by (cases kv)
  have v: "reads pv p (l + 1) v" "castable v" "NUL \<notin> set k" using Cons.prems(2) kv by simp_all
  let ?tail = "(if ms \<noteq> [] then '','' else []) @ newline_if p @ members_text p l ms @ r"
  let ?sp = "if p then '' '' else []"
  let ?v = "?sp @ value_text p (l + 1) v @ ?tail"
  let ?s = "string_text k @ CHR '':'' # ?v"
  have start: "skip_whitespaces (members_text p l (kv # ms) @ r) = ?s" "peek ?s \<noteq> NUL"
    using skip_spaces [OF space_lists(1)] comma_plain(3) by (simp_all add: kv string_text_def skip_start)
  have tail: "ends_number ?tail"
    using comma_plain(2) ends_newline [OF r(1)] by (cases "ms = []") simp_all
  obtain m0 where m0: "get_quoted_string ?s m = Some (Some k, CHR '':'' # ?v, m0)" "alloc_ok m0"
    using get_quoted_string_text [OF v(3) Cons.prems(7)] by blast
  have colon: "skip_whitespaces (CHR '':'' # ?v) = CHR '':'' # ?v" using comma_plain(4) by (rule skip_start)
  have "list_all isspace ?sp" using space_lists(3) by simp
  then obtain m1 where m1: "pv ?v m0 = Some (Some (reparsed v), ?tail, m1)" "alloc_ok m1"
    using readsD [OF v(1) _ tail m0(2)] by blast
  have room: "length ds < 15 * 2 ^ 6" using Cons.prems(5) by (simp add: object_max)
  note g = growing_grown [OF Cons.prems(3,4) room]
  let ?cap = "grown (length ds) cap"
  have fresh: "k \<notin> fst ` set ds" using Cons.prems(6) kv by auto
  obtain m2 where m2: "json_object_add (Json_Object ds cap) (Some k) (Some (reparsed v)) m1 =
      Some (JSONSuccess, Json_Object (ds @ [(k, reparsed v)]) ?cap, m2)" "alloc_ok m2"
    using object_add_ok [OF m1(2) Cons.prems(4), of k "reparsed v"] g(2) fresh moved_alloc_ok [OF _ m1(2)]
    unfolding object_max [symmetric] by auto
  let ?m = "parson_free 1 m2"
  have m3: "alloc_ok ?m" using moved_alloc_ok [OF free_moved m2(2)] .
  have len: "length (ds @ [(k, reparsed v)]) \<le> ?cap" using grown_greater(1) [OF Cons.prems(4)] by simp
  show ?case
  proof (cases "ms = []")
    case True
    have "skip_whitespaces ?tail = skip_whitespaces r" using True skip_spaces [OF space_lists(2)] by simp
    moreover have "object_loop pv ?s (Json_Object ds cap) m =
        Some (Some (Json_Object (ds @ [(k, reparsed v)]) ?cap), skip_whitespaces ?tail, ?m)"
      using start(2) m0(1) colon m1(1) m2(1) r(2) calculation by (subst object_loop.simps) (simp add: Let_def)
    ultimately show ?thesis unfolding start(1) using True m3 len kv by simp
  next
    case False
    let ?next = "skip_whitespaces (members_text p l ms @ r)"
    have t: "skip_whitespaces ?tail = ?tail" "peek ?tail = CHR '',''" "skip_whitespaces (tl ?tail) = ?next"
      using False comma_plain(1) skip_spaces [OF space_lists(2)] by (simp_all add: skip_start)
    have "\<exists>cap' m'. object_loop pv ?next (Json_Object (ds @ [(k, reparsed v)]) ?cap) ?m =
        Some (Some (Json_Object ((ds @ [(k, reparsed v)]) @ map (\<lambda>(k, v). (k, reparsed v)) ms) cap'), skip_whitespaces r, m') \<and>
      alloc_ok m' \<and> length (ds @ [(k, reparsed v)]) + length ms \<le> cap'"
      by (rule Cons.IH [OF False _ g(1) len _ _ m3]) (use Cons.prems kv in auto)
    moreover have "object_loop pv ?s (Json_Object ds cap) m = object_loop pv ?next (Json_Object (ds @ [(k, reparsed v)]) ?cap) ?m"
      using start(2) m0(1) colon m1(1) m2(1) t by (subst object_loop.simps) (simp add: Let_def)
    ultimately show ?thesis unfolding start(1) using kv by simp
  qed
qed simp

section \<open>The parser reads what the serializer writes\<close>

lemma close_facts:
  assumes "c = CHR '']'' \<or> c = CHR ''}''"
  shows "ends_number (indent p l @ c # r)" "skip_whitespaces (indent p l @ c # r) = c # r"
proof -
  have c: "\<not> isspace c" "ends_number (c # r)" using assms by (auto simp: isspace_def char_code_def ends_number_def isdigit_def)
  then show "skip_whitespaces (indent p l @ c # r) = c # r" using skip_spaces [OF space_lists(1)] skip_start by simp
  show "ends_number (indent p l @ c # r)"
    using c(2) by (cases l) (auto simp: indent_def ends_number_def isdigit_def char_code_def)
qed

lemma parse_array_text:
  assumes vs: "\<forall>v \<in> set vs. reads pv p (l + 1) v \<and> castable v" and len: "length vs \<le> ARRAY_MAX_CAPACITY" and m: "alloc_ok m"
  shows "\<exists>m'. parse_array_value pv (value_text p l (V_Array (Json_Array vs cap)) @ r) m =
    Some (Some (reparsed (V_Array (Json_Array vs cap))), r, m') \<and> alloc_ok m'"
proof -
  obtain m1 where m1: "json_value_init_array m = (Some (V_Array (Json_Array [] 0)), m1)" "moved 2 m m1"
    using init_ok(6) [OF m] by blast
  have m1': "alloc_ok m1" by (rule moved_alloc_ok [OF m1(2) m])
  have close: "\<not> isspace (CHR '']'')" by (simp add: isspace_def char_code_def)
  show ?thesis
  proof (cases vs)
    case Nil
    then show ?thesis using m1(1) m1' skip_start [OF close]
      by (simp add: parse_array_value_def json_value_get_array_def Let_def newline_if_def indent_def)
  next
    case (Cons v ws)
    let ?r = "indent p l @ CHR '']'' # r"
    have c: "ends_number ?r" "skip_whitespaces ?r = CHR '']'' # r" using close_facts [of "CHR '']''"] by simp_all
    have v: "castable v" using vs Cons by simp
    have peek: "peek (skip_whitespaces (items_text p l vs @ ?r)) \<noteq> CHR '']''"
      using skip_to_value(1,3) [OF v space_lists(1)] Cons by simp
    obtain cap' m2 where l: "array_loop pv (skip_whitespaces (items_text p l vs @ ?r)) (Json_Array [] 0) m1 =
        Some (Some (Json_Array (map reparsed vs) cap'), CHR '']'' # r, m2)" "alloc_ok m2" "length vs \<le> cap'"
      using array_loop_text [OF c(1), of vs pv p l 0 "[]" m1] c(2) vs len m1' Cons by (auto simp: growing_def)
    obtain m3 where z: "json_array_resize (Json_Array (map reparsed vs) cap') (length vs) m2 =
        Some (JSONSuccess, Json_Array (map reparsed vs) (length vs), m3)" "alloc_ok m3"
      using array_resize_ok [OF l(2), of "map reparsed vs" "length vs" cap'] Cons moved_alloc_ok [OF _ l(2)] by auto
    have t: "value_text p l (V_Array (Json_Array vs cap)) @ r = CHR ''['' # newline_if p @ items_text p l vs @ ?r"
      using Cons by simp
    have skip: "skip_whitespaces (newline_if p @ items_text p l vs @ ?r) = skip_whitespaces (items_text p l vs @ ?r)"
      by (rule skip_spaces [OF space_lists(2)])
    show ?thesis unfolding t
      using m1(1) peek l(1) z close skip_start [OF close, of r] skip
      by (simp add: parse_array_value_def json_value_get_array_def Let_def)
  qed
qed

lemma parse_object_text:
  assumes ms: "\<forall>(k, v) \<in> set ms. NUL \<notin> set k \<and> reads pv p (l + 1) v \<and> castable v" and len: "length ms \<le> OBJECT_MAX_CAPACITY"
    and dist: "distinct (map fst ms)" and m: "alloc_ok m"
  shows "\<exists>m'. parse_object_value pv (value_text p l (V_Object (Json_Object ms cap)) @ r) m =
    Some (Some (reparsed (V_Object (Json_Object ms cap))), r, m') \<and> alloc_ok m'"
proof -
  obtain m1 where m1: "json_value_init_object m = (Some (V_Object (Json_Object [] 0)), m1)" "moved 2 m m1"
    using init_ok(5) [OF m] by blast
  have m1': "alloc_ok m1" by (rule moved_alloc_ok [OF m1(2) m])
  have close: "\<not> isspace (CHR ''}'')" by (simp add: isspace_def char_code_def)
  let ?f = "\<lambda>(k, v). (k, reparsed v)"
  show ?thesis
  proof (cases ms)
    case Nil
    then show ?thesis using m1(1) m1' skip_start [OF close]
      by (simp add: parse_object_value_def json_value_get_object_def Let_def newline_if_def indent_def)
  next
    case (Cons kv ws)
    let ?r = "indent p l @ CHR ''}'' # r"
    have c: "ends_number ?r" "skip_whitespaces ?r = CHR ''}'' # r" using close_facts [of "CHR ''}''"] by simp_all
    have peek: "peek (skip_whitespaces (members_text p l ms @ ?r)) \<noteq> CHR ''}''"
      using Cons skip_spaces [OF space_lists(1)] comma_plain(3) by (cases kv) (simp add: string_text_def skip_start)
    obtain cap' m2 where l: "object_loop pv (skip_whitespaces (members_text p l ms @ ?r)) (Json_Object [] 0) m1 =
        Some (Some (Json_Object (map ?f ms) cap'), CHR ''}'' # r, m2)" "alloc_ok m2" "length ms \<le> cap'"
      using object_loop_text [OF c(1), of ms pv p l 0 "[]" m1] c(2) ms len dist m1' Cons by (auto simp: growing_def)
    obtain m3 where z: "json_object_resize (Json_Object (map ?f ms) cap') (length ms) m2 =
        Some (JSONSuccess, Json_Object (map ?f ms) (length ms), m3)" "alloc_ok m3"
      using object_resize_ok [OF l(2), of "map ?f ms" "length ms" cap'] Cons moved_alloc_ok [OF _ l(2)] by auto
    have t: "value_text p l (V_Object (Json_Object ms cap)) @ r = CHR ''{'' # newline_if p @ members_text p l ms @ ?r"
      using Cons by simp
    have skip: "skip_whitespaces (newline_if p @ members_text p l ms @ ?r) = skip_whitespaces (members_text p l ms @ ?r)"
      by (rule skip_spaces [OF space_lists(2)])
    show ?thesis unfolding t
      using m1(1) peek l(1) z close skip_start [OF close, of r] skip
      by (simp add: parse_object_value_def json_value_get_object_def Let_def)
  qed
qed

lemma parse_number_text:
  assumes t: "number_text d = Some t" and r: "ends_number r" and m: "alloc_ok m"
  shows "\<exists>m'. parse_number_value (t @ r) m = Some (Some (V_Number (reread d)), r, m') \<and> alloc_ok m'"
proof -
  have d: "decimal_text t" by (rule number_text_decimal [OF t])
  obtain m1 where m1: "json_value_init_number (reread d) m = (Some (V_Number (reread d)), m1)" "moved 1 m m1"
    using init_ok(2) [OF m] by blast
  have "strtod (t @ r) = (reread d, r)" using strtod_decimal_text [OF d r] t by (simp add: reread_def)
  then show ?thesis using decimal_text_is_decimal [OF d] m1(1) moved_alloc_ok [OF m1(2) m] by (simp add: parse_number_value_def)
qed

lemma parse_string_text:
  assumes "NUL \<notin> set str" "alloc_ok m"
  shows "\<exists>m'. parse_string_value (string_text str @ r) m = Some (Some (V_String str), r, m') \<and> alloc_ok m'"
proof -
  obtain m1 where g: "get_quoted_string (string_text str @ r) m = Some (Some str, r, m1)" "alloc_ok m1"
    using get_quoted_string_text [OF assms] by blast
  obtain m2 where m2: "json_value_init_string_no_copy str m1 = (Some (V_String str), m2)" "moved 1 m1 m2"
    using init_ok(4) [OF g(2)] by blast
  then show ?thesis using g moved_alloc_ok [OF m2(2) g(2)] by (simp add: parse_string_value_def)
qed

lemma parse_text: "well_formed k v \<Longrightarrow> castable v \<Longrightarrow> n + k \<le> MAX_NESTING + 1 \<Longrightarrow> reads (parse_value n) p l v"
proof (induction k arbitrary: v n l)
  case (Suc k)
  have n: "\<not> MAX_NESTING < n" using Suc.prems(3) by simp
  have sub: "reads (parse_value (n + 1)) p (l + 1) w" if "well_formed k w" "castable w" for w
    using Suc.IH [OF that] Suc.prems(3) by simp
  show ?case unfolding reads_def
  proof (intro allI impI)
    fix w r m
    assume w: "list_all isspace w" and r: "ends_number r" and m: "alloc_ok m"
    let ?s = "value_text p l v @ r"
    have skip: "skip_whitespaces (w @ ?s) = ?s" by (rule skip_to_value(1) [OF Suc.prems(2) w])
    show "\<exists>m'. parse_value n (w @ ?s) m = Some (Some (reparsed v), r, m') \<and> alloc_ok m'"
    proof (cases v)
      case V_Null
      then have "parse_value n (w @ ?s) m = parse_null_value ?s m"
        using n skip by (subst parse_value.simps) (simp add: Let_def isdigit_def char_code_def)
      then show ?thesis using V_Null init_ok(1) [OF m] m moved_alloc_ok by (fastforce simp: parse_null_value_def starts_with_def)
    next
      case (V_Boolean b)
      then have b: "b = 0 \<or> b = 1" using Suc.prems(1) by simp
      have "parse_value n (w @ ?s) m = parse_boolean_value ?s m"
        using n skip V_Boolean by (subst parse_value.simps) (simp add: Let_def)
      then show ?thesis using V_Boolean b init_ok(3) [OF m, of b] m moved_alloc_ok
        by (fastforce simp: parse_boolean_value_def starts_with_def)
    next
      case (V_String str)
      then have "parse_value n (w @ ?s) m = parse_string_value ?s m"
        using n skip by (subst parse_value.simps) (simp add: Let_def string_text_def)
      then show ?thesis using V_String parse_string_text [OF _ m, of str r] Suc.prems(1) by simp
    next
      case (V_Number d)
      then obtain t where t: "number_text d = Some t" using Suc.prems(2) by (auto simp: number_text_def)
      obtain neg a f where d: "t = (if neg then ''-'' else []) @ show_nat a @ (if f = [] then [] else ''.'' @ f)"
        using number_text_decimal [OF t] unfolding decimal_text_def by blast
      obtain c cs where a: "show_nat a = c # cs" "isdigit c" using show_nat_head by blast
      have p: "peek ?s = CHR ''-'' \<or> isdigit (peek ?s)" using V_Number t d a by (cases neg) simp_all
      have "parse_value n (w @ ?s) m = parse_number_value ?s m"
        using n skip p by (subst parse_value.simps) (auto simp: Let_def isdigit_def char_code_def)
      then show ?thesis using V_Number t parse_number_text [OF t r m] by simp
    next
      case (V_Array arr)
      obtain vs cap where arr: "arr = Json_Array vs cap" by (cases arr)
      have "parse_value n (w @ ?s) m = parse_array_value (parse_value (n + 1)) ?s m"
        using n skip V_Array arr by (subst parse_value.simps) (simp add: Let_def)
      moreover have "length vs \<le> ARRAY_MAX_CAPACITY" "\<forall>v \<in> set vs. reads (parse_value (n + 1)) p (l + 1) v \<and> castable v"
        using Suc.prems(1,2) V_Array arr sub by auto
      ultimately show ?thesis using parse_array_text [OF _ _ m] V_Array arr by simp
    next
      case (V_Object ob)
      obtain ms cap where ob: "ob = Json_Object ms cap" by (cases ob)
      have "parse_value n (w @ ?s) m = parse_object_value (parse_value (n + 1)) ?s m"
        using n skip V_Object ob by (subst parse_value.simps) (simp add: Let_def)
      moreover have "length ms \<le> OBJECT_MAX_CAPACITY" "distinct (map fst ms)"
        using Suc.prems(1) V_Object ob by auto
      moreover have "NUL \<notin> set a \<and> reads (parse_value (n + 1)) p (l + 1) b \<and> castable b" if "(a, b) \<in> set ms" for a b
      proof -
        have "NUL \<notin> set a" "well_formed k b" "castable b" using Suc.prems(1,2) that unfolding V_Object ob by auto
        then show ?thesis using sub by blast
      qed
      then have "\<forall>(k, v) \<in> set ms. NUL \<notin> set k \<and> reads (parse_value (n + 1)) p (l + 1) v \<and> castable v" by blast
      ultimately show ?thesis using parse_object_text [OF _ _ _ m] V_Object ob by simp
    qed
  qed
qed simp

section \<open>The whole library\<close>

lemma hex_digit_plain: "n < 16 \<Longrightarrow> hex_digit n \<noteq> NUL"
proof
  assume n: "n < 16" and "hex_digit n = NUL"
  from arg_cong [OF this(2), of char_code] show False using n
    by (simp add: hex_digit_def char_code_char_of split: if_splits) (simp_all add: char_code_def)
qed

lemma escaped_plain: "NUL \<notin> set (escaped c)"
proof (cases c rule: escaped_cases)
  case (simple x)
  then have "x \<noteq> NUL" by (auto simp: escape_char_def)
  then show ?thesis using simple(1) by simp
next
  case control
  then have "char_code c div 16 < 16" "char_code c mod 16 < 16" by simp_all
  then show ?thesis using control(1) hex_digit_plain [of "char_code c div 16"] hex_digit_plain [of "char_code c mod 16"] by auto
next
  case plain
  then show ?thesis by (auto simp: char_code_def)
qed

lemma string_text_plain: "NUL \<notin> set (string_text str)"
  using escaped_plain by (auto simp: string_text_def)

lemma number_text_plain: "number_text d = Some t \<Longrightarrow> NUL \<notin> set t"
proof -
  assume "number_text d = Some t"
  then obtain neg a f where t: "t = (if neg then ''-'' else []) @ show_nat a @ (if f = [] then [] else ''.'' @ f)"
    "\<forall>c \<in> set f. isdigit c" using number_text_decimal unfolding decimal_text_def by blast
  then show ?thesis using show_nat_digits [of NUL a] digit_not [of NUL] by auto
qed

lemma layout_plain: "NUL \<notin> set (indent p l)" "NUL \<notin> set (newline_if p)"
  by (auto simp: indent_def newline_if_def)

lemma value_text_plain:
  "castable v \<Longrightarrow> NUL \<notin> set (value_text p l v)"
  "\<forall>v \<in> set vs. castable v \<Longrightarrow> NUL \<notin> set (items_text p l vs)"
  "\<forall>(k, v) \<in> set ms. castable v \<Longrightarrow> NUL \<notin> set (members_text p l ms)"
proof (induction p l v and p l vs and p l ms rule: value_text_items_text_members_text.induct)
  case (3 p l d)
  then obtain t where "number_text d = Some t" by (auto simp: number_text_def)
  then show ?case using number_text_plain by simp
qed (auto simp: layout_plain string_text_plain)

lemma c_string_text: "castable v \<Longrightarrow> c_string (value_text p 0 v @ NUL # r) = value_text p 0 v"
proof -
  assume "castable v"
  then have "\<forall>c \<in> set (value_text p 0 v). c \<noteq> NUL" using value_text_plain(1) [of v p 0] by blast
  then show ?thesis by (simp add: c_string_def takeWhile_append2)
qed

lemma parse_whole_text:
  assumes "well_formed (MAX_NESTING + 1) v" "castable v" "alloc_ok m"
  shows "\<exists>m'. json_parse_string (Some (value_text p 0 v)) m = Some (Some (reparsed v), m') \<and> alloc_ok m'"
proof -
  have "reads (parse_value 0) p 0 v" using parse_text [OF assms(1,2), of 0] by simp
  from readsD [OF this, of "[]" "[]" m] assms(3)
  obtain m' where "parse_value 0 (value_text p 0 v) m = Some (Some (reparsed v), [], m')" "alloc_ok m'"
    by (auto simp: ends_number_def)
  then show ?thesis by (simp add: json_parse_string_def)
qed

text \<open>C27: a value that is written and read again, with layout or without, is the same value with its
  arrays trimmed and its numbers rounded to what the format keeps; integers are kept exactly
  (\<open>reread_int\<close>).\<close>

theorem json_serialize_parse:
  assumes "well_formed (MAX_NESTING + 1) v" "castable v" "alloc_ok m"
  shows "\<exists>buf m1 m2. json_serialize_to_string p junk (Some v) m = Some (Some buf, m1) \<and>
    json_parse_string (Some (c_string buf)) m1 = Some (Some (reparsed v), m2)"
proof -
  obtain m1 where m1: "json_serialize_to_string p junk (Some v) m = Some (Some (value_text p 0 v @ [NUL]), m1)" "moved 1 m m1"
    using serialize_to_string_ok [OF assms] by blast
  obtain m2 where "json_parse_string (Some (value_text p 0 v)) m1 = Some (Some (reparsed v), m2)"
    using parse_whole_text [OF assms(1,2) moved_alloc_ok [OF m1(2) assms(3)]] by blast
  then show ?thesis using m1(1) c_string_text [OF assms(2)] by simp
qed

definition sample :: json_value where
  "sample = V_Array (Json_Array
     [V_Number (Finite 7), V_Number (Finite (1 / 4)), V_String [CHR ''a'', CHR 0x22, CHR 0x0A],
      V_Object (Json_Object [(''k'', V_Null), (''e'', V_Array (Json_Array [] 0))] 15)] 15)"

lemma sample_facts: "well_formed (Suc (Suc (Suc k))) sample" "castable sample"
  by (simp_all add: sample_def double_to_int_def ARRAY_MAX_CAPACITY_def OBJECT_MAX_CAPACITY_def)

theorem json_serialize_parse_witness:
  "\<exists>buf m1 m2. json_serialize_to_string True (\<lambda>_. CHR ''?'') (Some sample) (fresh_mem (\<lambda>_. True)) = Some (Some buf, m1) \<and>
    json_parse_string (Some (c_string buf)) m1 = Some (Some (reparsed sample), m2)"
proof (rule json_serialize_parse)
  have "MAX_NESTING + 1 = Suc (Suc (Suc 17))" by (simp add: MAX_NESTING_def)
  then show "well_formed (MAX_NESTING + 1) sample" by (simp only: sample_facts)
qed (simp_all add: sample_facts alloc_ok_def fresh_mem_def)

text \<open>C29: the serializer writes exactly the number of bytes that the size function announces, into a
  buffer of any greater size, and nothing past its end; a smaller buffer is refused untouched.\<close>

theorem json_serialize_to_buffer_fits:
  assumes "well_formed k v" "castable v"
  shows "\<exists>n. json_serialization_size p (Some v) = Some n \<and> 0 < n \<and>
    (if length buf < n then json_serialize_to_buffer p (Some v) buf = Some (JSONFailure, buf)
     else \<exists>b. json_serialize_to_buffer p (Some v) buf = Some (JSONSuccess, b) \<and> length b = length buf \<and>
       c_string b = value_text p 0 v \<and> take n b = value_text p 0 v @ [NUL])"
proof (cases "length buf < length (value_text p 0 v) + 1")
  case True
  then show ?thesis using serialization_size_ok [OF assms, of p] by (simp add: json_serialize_to_buffer_def)
next
  case False
  obtain b where b: "json_serialize_to_buffer p (Some v) buf = Some (JSONSuccess, b)" "length b = length buf"
    "take (length (value_text p 0 v) + 1) b = value_text p 0 v @ [NUL]"
    using serialize_to_buffer_ok [OF assms, of p buf] False by auto
  have "b = value_text p 0 v @ NUL # drop (length (value_text p 0 v) + 1) b"
    using arg_cong [OF b(3), of "\<lambda>x. x @ drop (length (value_text p 0 v) + 1) b"] by (simp del: take_Suc)
  then have "c_string b = value_text p 0 v" by (metis c_string_text [OF assms(2)])
  then show ?thesis using serialization_size_ok [OF assms, of p] b False by simp
qed

theorem json_serialize_to_buffer_fits_witness:
  "\<exists>n. json_serialization_size False (Some sample) = Some n \<and> 0 < n \<and>
    (if length (replicate 9 CHR ''?'') < n then
       json_serialize_to_buffer False (Some sample) (replicate 9 CHR ''?'') = Some (JSONFailure, replicate 9 CHR ''?'')
     else \<exists>b. json_serialize_to_buffer False (Some sample) (replicate 9 CHR ''?'') = Some (JSONSuccess, b) \<and>
       length b = length (replicate 9 CHR ''?'') \<and>
       c_string b = value_text False 0 sample \<and> take n b = value_text False 0 sample @ [NUL])"
  by (rule json_serialize_to_buffer_fits [OF sample_facts(1) [of 0] sample_facts(2)])

end
