(* ===== verification/JsonUtf8.thy ===== *)
theory JsonUtf8
  imports JsonParse
begin

text \<open>
  UTF-8 in the JSON library \<open>cplusplus/jsonbenchmark/parson.c\<close>: the check of the strings of the caller,
  compared with the encoding of Unicode scalar values, and the strings the parser creates.
\<close>

section \<open>The code\<close>

text \<open>The unsigned char at a position; the byte behind the text is the terminating NUL.\<close>

definition byte_at :: "string \<Rightarrow> nat \<Rightarrow> nat" where
  "byte_at s i = (if i < length s then char_code (s ! i) else 0)"

definition IS_CONT :: "nat \<Rightarrow> bool" where
  "IS_CONT b \<longleftrightarrow> and b 0xC0 = 0x80"

definition num_bytes_in_utf8_sequence :: "nat \<Rightarrow> nat" where
  "num_bytes_in_utf8_sequence c =
     (if c = 0xC0 \<or> c = 0xC1 \<or> 0xF4 < c \<or> IS_CONT c then 0
      else if and c 0x80 = 0 then 1
      else if and c 0xE0 = 0xC0 then 2
      else if and c 0xF0 = 0xE0 then 3
      else if and c 0xF8 = 0xF0 then 4
      else 0)"

text \<open>One continuation byte more: \<open>(cp << 6) | (b & 0x3F)\<close>.\<close>

definition cont_bits :: "nat \<Rightarrow> nat \<Rightarrow> nat" where
  "cont_bits cp b = or (push_bit 6 cp) (and b 0x3F)"

text \<open>The result of the check and the length it stores.\<close>

definition verify_utf8_sequence :: "string \<Rightarrow> bool \<times> nat" where
  "verify_utf8_sequence s =
     (let b = byte_at s; n = num_bytes_in_utf8_sequence (b 0);
          cp = (if n = 1 then Some (b 0)
                else if n = 2 \<and> IS_CONT (b 1) then Some (cont_bits (and (b 0) 0x1F) (b 1))
                else if n = 3 \<and> IS_CONT (b 1) \<and> IS_CONT (b 2) then
                  Some (cont_bits (cont_bits (and (b 0) 0xF) (b 1)) (b 2))
                else if n = 4 \<and> IS_CONT (b 1) \<and> IS_CONT (b 2) \<and> IS_CONT (b 3) then
                  Some (cont_bits (cont_bits (cont_bits (and (b 0) 0x7) (b 1)) (b 2)) (b 3))
                else None)
      in (case cp of
            None \<Rightarrow> False
          | Some cp \<Rightarrow>
              \<not> (cp < 0x80 \<and> 1 < n \<or> cp < 0x800 \<and> 2 < n \<or> cp < 0x10000 \<and> 3 < n) \<and>
              cp \<le> 0x10FFFF \<and>
              \<not> (0xD800 \<le> cp \<and> cp \<le> 0xDFFF), n))"

lemma verify_positive: "verify_utf8_sequence s = (True, n) \<Longrightarrow> 0 < n"
  by (auto simp: verify_utf8_sequence_def Let_def split: if_splits)

text \<open>\<open>n\<close> bytes are left to check.\<close>

function is_valid_utf8 :: "string \<Rightarrow> nat \<Rightarrow> bool" where
  "is_valid_utf8 s n =
     (if n = 0 then True
      else (let r = verify_utf8_sequence s in if fst r then is_valid_utf8 (drop (snd r) s) (n - snd r) else False))"
  by pat_completeness auto
termination
proof (relation "measure snd", goal_cases)
  case (2 s n r)
  then have "0 < snd r" using verify_positive [of s "snd r"] by (metis prod.collapse)
  then show ?case using 2(1) by simp
qed simp

definition json_value_init_string :: "string option \<Rightarrow> jmem \<Rightarrow> json_value option \<times> jmem" where
  "json_value_init_string s m =
     (case s of
        None \<Rightarrow> (None, m)
      | Some s \<Rightarrow>
          if \<not> is_valid_utf8 s (length s) then (None, m)
          else
            (let (copy, m) = parson_strndup s (length s) m in
             case copy of
               None \<Rightarrow> (None, m)
             | Some copy \<Rightarrow>
                 (let (v, m) = json_value_init_string_no_copy copy m
                  in if v = None then (None, parson_free 1 m) else (v, m))))"

declare is_valid_utf8.simps [simp del]

section \<open>The encoding of Unicode scalar values\<close>

definition scalar :: "nat \<Rightarrow> bool" where
  "scalar cp \<longleftrightarrow> cp < 0x110000 \<and> \<not> (0xD800 \<le> cp \<and> cp < 0xE000)"

definition utf8_encode :: "nat \<Rightarrow> string" where
  "utf8_encode cp =
     (let digit = \<lambda>n. 0x80 + n mod 0x40 in
      map char_of
        (if cp < 0x80 then [cp]
         else if cp < 0x800 then [0xC0 + cp div 0x40, digit cp]
         else if cp < 0x10000 then [0xE0 + cp div 0x40 div 0x40, digit (cp div 0x40), digit cp]
         else [0xF0 + cp div 0x40 div 0x40 div 0x40, digit (cp div 0x40 div 0x40), digit (cp div 0x40), digit cp]))"

definition utf8 :: "string \<Rightarrow> bool" where
  "utf8 s \<longleftrightarrow> (\<exists>cps. list_all scalar cps \<and> s = concat (map utf8_encode cps))"

section \<open>Bits and bytes\<close>

lemma cont_bits_eq: "cont_bits cp b = cp * 0x40 + b mod 0x40"
proof -
  have m: "and b 0x3F = take_bit 6 b" by (simp add: take_bit_eq_mask mask_eq_exp_minus_1)
  have "and (push_bit 6 cp) (take_bit 6 b) = 0" by (auto simp: bit_eq_iff bit_simps)
  from disjunctive_add_eq_or [OF this] show ?thesis
    unfolding cont_bits_def m by (simp add: push_bit_eq_mult take_bit_eq_mod)
qed

lemma and_masks: "and b 0x1F = b mod 0x20" "and b 0xF = b mod 0x10" "and b 0x7 = b mod 0x8" for b :: nat
  using take_bit_eq_mask [of 5 b] take_bit_eq_mask [of 4 b] take_bit_eq_mask [of 3 b]
  by (simp_all add: mask_eq_exp_minus_1 take_bit_eq_mod)

lemma and_field: "mask j * p = m \<Longrightarrow> 2 ^ k = p \<Longrightarrow> 2 ^ j = q \<Longrightarrow> and b m = b div p mod q * p" for b :: nat
proof -
  assume a: "mask j * p = m" "2 ^ k = p" "2 ^ j = q"
  have "and b (push_bit k (mask j)) = push_bit k (take_bit j (drop_bit k b))" by (auto simp: bit_eq_iff bit_simps)
  then show ?thesis unfolding a [symmetric] by (simp only: push_bit_eq_mult take_bit_eq_mod drop_bit_eq_div)
qed

lemma and_fields:
  "and b 0xC0 = b div 64 mod 4 * 64" "and b 0x80 = b div 128 mod 2 * 128" "and b 0xE0 = b div 32 mod 8 * 32"
  "and b 0xF0 = b div 16 mod 16 * 16" "and b 0xF8 = b div 8 mod 32 * 8" for b :: nat
  by (rule and_field [of 2 64 _ 6] and_field [of 1 128 _ 7] and_field [of 3 32 _ 5] and_field [of 4 16 _ 4] and_field [of 5 8 _ 3];
      simp add: mask_eq_exp_minus_1)+

text \<open>The highest bits of a byte.\<close>

lemma quotient_field: "0 < k \<Longrightarrow> b div k * k = q * k \<longleftrightarrow> q * k \<le> b \<and> b < q * k + k" for b :: nat
proof -
  assume k: "0 < k"
  have "b div k = q \<longleftrightarrow> q \<le> b div k \<and> b div k < Suc q" by auto
  also have "\<dots> \<longleftrightarrow> q * k \<le> b \<and> b < Suc q * k" using k by (simp only: less_eq_div_iff_mult_less_eq div_less_iff_less_mult)
  finally show ?thesis using k by (simp add: add.commute)
qed

lemma high_bits:
  fixes b :: nat
  assumes "b < 256"
  shows "b div 64 mod 4 * 64 = 128 \<longleftrightarrow> 128 \<le> b \<and> b < 192" "b div 128 mod 2 * 128 = 0 \<longleftrightarrow> b < 128"
    "b div 32 mod 8 * 32 = 192 \<longleftrightarrow> 192 \<le> b \<and> b < 224" "b div 16 mod 16 * 16 = 224 \<longleftrightarrow> 224 \<le> b \<and> b < 240"
    "b div 8 mod 32 * 8 = 240 \<longleftrightarrow> 240 \<le> b \<and> b < 248"
proof -
  have m: "b div 64 mod 4 = b div 64" "b div 128 mod 2 = b div 128" "b div 32 mod 8 = b div 32" "b div 16 mod 16 = b div 16"
    "b div 8 mod 32 = b div 8" using assms by simp_all
  show "b div 64 mod 4 * 64 = 128 \<longleftrightarrow> 128 \<le> b \<and> b < 192" using quotient_field [of 64 b 2] unfolding m by simp
  show "b div 128 mod 2 * 128 = 0 \<longleftrightarrow> b < 128" using quotient_field [of 128 b 0] unfolding m by simp
  show "b div 32 mod 8 * 32 = 192 \<longleftrightarrow> 192 \<le> b \<and> b < 224" using quotient_field [of 32 b 6] unfolding m by simp
  show "b div 16 mod 16 * 16 = 224 \<longleftrightarrow> 224 \<le> b \<and> b < 240" using quotient_field [of 16 b 14] unfolding m by simp
  show "b div 8 mod 32 * 8 = 240 \<longleftrightarrow> 240 \<le> b \<and> b < 248" using quotient_field [of 8 b 30] unfolding m by simp
qed

lemma IS_CONT_iff: "b < 256 \<Longrightarrow> IS_CONT b \<longleftrightarrow> 128 \<le> b \<and> b < 192"
  unfolding IS_CONT_def and_fields by (rule high_bits(1))

lemma num_bytes_eq:
  "c < 256 \<Longrightarrow> num_bytes_in_utf8_sequence c =
    (if c < 0x80 then 1 else if c < 0xC2 then 0 else if c < 0xE0 then 2 else if c < 0xF0 then 3 else if c < 0xF5 then 4 else 0)"
  unfolding num_bytes_in_utf8_sequence_def and_fields by (auto simp: high_bits IS_CONT_iff)

lemma byte_at_small: "byte_at s i < 256"
  by (simp add: byte_at_def char_code_def)

section \<open>The check accepts the encodings, and nothing else\<close>

lemma byte_at_encoded: "byte_at (map char_of bs @ r) i = (if i < length bs then bs ! i mod 256 else byte_at r (i - length bs))"
  by (auto simp: byte_at_def char_code_def nth_append of_char_of)

lemma cont_digit: "b < 64 \<Longrightarrow> IS_CONT (128 + b)" "b < 64 \<Longrightarrow> cont_bits cp (128 + b) = cp * 64 + b"
  using mod_mult_self3 [of 2 64 b] by (simp_all add: IS_CONT_iff cont_bits_eq)

text \<open>The digits in base 64 of a code point, as the bytes have them.\<close>

lemma verify_1: "byte_at s 0 < 128 \<Longrightarrow> verify_utf8_sequence s = (True, 1)"
  by (simp add: verify_utf8_sequence_def num_bytes_eq Let_def)

lemma verify_2:
  assumes "byte_at s 0 = 192 + a" "byte_at s 1 = 128 + b" "2 \<le> a" "a < 32" "b < 64"
  shows "verify_utf8_sequence s = (True, 2)"
proof -
  have n: "num_bytes_in_utf8_sequence (192 + a) = 2" "(192 + a) mod 32 = a"
    using assms(3,4) mod_mult_self3 [of 6 32 a] by (simp_all add: num_bytes_eq)
  show ?thesis using assms cont_digit [OF assms(5)]
    by (simp add: verify_utf8_sequence_def n and_masks Let_def del: One_nat_def)
qed

lemma digits_less: "a < m \<Longrightarrow> b < 64 \<Longrightarrow> a * 64 + b < m * 64" for a b :: nat
  by linarith

lemma verify_3:
  assumes "byte_at s 0 = 224 + a" "byte_at s 1 = 128 + b" "byte_at s 2 = 128 + c" "a < 16" "b < 64" "c < 64"
    and cp: "cp = (a * 64 + b) * 64 + c"
  shows "verify_utf8_sequence s = (0x800 \<le> cp \<and> scalar cp, 3)"
proof -
  have n: "num_bytes_in_utf8_sequence (224 + a) = 3" "(224 + a) mod 16 = a"
    using assms(4) mod_mult_self3 [of 14 16 a] by (simp_all add: num_bytes_eq)
  have "cp < 0x10000" using digits_less [OF digits_less [OF assms(4,5)] assms(6)] cp by simp
  moreover have "verify_utf8_sequence s =
      (\<not> (cp < 128 \<and> 1 < (3 :: nat) \<or> cp < 2048 \<and> 2 < (3 :: nat) \<or> cp < 65536 \<and> 3 < (3 :: nat)) \<and> cp \<le> 1114111 \<and>
       \<not> (55296 \<le> cp \<and> cp \<le> 57343), 3)"
    using assms(1-3) cont_digit [OF assms(5)] cont_digit [OF assms(6)]
    unfolding cp by (simp only: verify_utf8_sequence_def n and_masks Let_def) simp
  ultimately show ?thesis by (auto simp: scalar_def)
qed

lemma verify_4:
  assumes "byte_at s 0 = 240 + a" "byte_at s 1 = 128 + b" "byte_at s 2 = 128 + c" "byte_at s 3 = 128 + d"
    and less: "a < 5" "b < 64" "c < 64" "d < 64" and cp: "cp = ((a * 64 + b) * 64 + c) * 64 + d"
  shows "verify_utf8_sequence s = (0x10000 \<le> cp \<and> scalar cp, 4)"
proof -
  have n: "num_bytes_in_utf8_sequence (240 + a) = 4" "(240 + a) mod 8 = a"
    using less(1) mod_mult_self3 [of 30 8 a] by (simp_all add: num_bytes_eq)
  have "verify_utf8_sequence s =
      (\<not> (cp < 128 \<and> 1 < (4 :: nat) \<or> cp < 2048 \<and> 2 < (4 :: nat) \<or> cp < 65536 \<and> 3 < (4 :: nat)) \<and> cp \<le> 1114111 \<and>
       \<not> (55296 \<le> cp \<and> cp \<le> 57343), 4)"
    using assms(1-4) cont_digit [OF less(2)] cont_digit [OF less(3)] cont_digit [OF less(4)]
    unfolding cp by (simp only: verify_utf8_sequence_def n and_masks Let_def) simp
  then show ?thesis by (auto simp: scalar_def)
qed


lemma digit_parts: "b < 64 \<Longrightarrow> (a * 64 + b) div 64 = a" "b < 64 \<Longrightarrow> (a * 64 + b) mod 64 = b" for a b :: nat
  by simp_all

lemma encode_2: "2 \<le> a \<Longrightarrow> a < 32 \<Longrightarrow> b < 64 \<Longrightarrow> utf8_encode (a * 64 + b) = map char_of [192 + a, 128 + b]"
  using digits_less [of a 32 b] by (simp add: utf8_encode_def)

lemma encode_3:
  assumes "a < 16" "b < 64" "c < 64" "0x800 \<le> (a * 64 + b) * 64 + c"
  shows "utf8_encode ((a * 64 + b) * 64 + c) = map char_of [224 + a, 128 + b, 128 + c]"
proof -
  let ?cp = "(a * 64 + b) * 64 + c"
  have "?cp < 0x10000" using digits_less [OF digits_less [OF assms(1,2)] assms(3)] by simp
  then have "utf8_encode ?cp = map char_of [224 + ?cp div 64 div 64, 128 + ?cp div 64 mod 64, 128 + ?cp mod 64]"
    using assms(4) unfolding utf8_encode_def Let_def by simp
  then show ?thesis by (simp only: digit_parts assms(2,3))
qed

lemma encode_4:
  assumes "b < 64" "c < 64" "d < 64" "0x10000 \<le> ((a * 64 + b) * 64 + c) * 64 + d"
  shows "utf8_encode (((a * 64 + b) * 64 + c) * 64 + d) = map char_of [240 + a, 128 + b, 128 + c, 128 + d]"
proof -
  let ?cp = "((a * 64 + b) * 64 + c) * 64 + d"
  have "utf8_encode ?cp = map char_of [240 + ?cp div 64 div 64 div 64, 128 + ?cp div 64 div 64 mod 64, 128 + ?cp div 64 mod 64, 128 + ?cp mod 64]"
    using assms(4) unfolding utf8_encode_def Let_def by simp
  then show ?thesis by (simp only: digit_parts assms(1-3))
qed

lemma digit_split: "\<exists>a b. (n :: nat) = a * 64 + b \<and> b < 64"
  by (intro exI [of _ "n div 64"] exI [of _ "n mod 64"]) simp

lemma encode_cases:
  assumes "scalar cp"
  obtains (one) "cp < 128" "utf8_encode cp = [char_of cp]"
  | (two) a b where "cp = a * 64 + b" "2 \<le> a" "a < 32" "b < 64" "utf8_encode cp = map char_of [192 + a, 128 + b]"
  | (three) a b c where "cp = (a * 64 + b) * 64 + c" "a < 16" "b < 64" "c < 64" "0x800 \<le> cp"
      "utf8_encode cp = map char_of [224 + a, 128 + b, 128 + c]"
  | (four) a b c d where "cp = ((a * 64 + b) * 64 + c) * 64 + d" "a < 5" "b < 64" "c < 64" "d < 64" "0x10000 \<le> cp"
      "utf8_encode cp = map char_of [240 + a, 128 + b, 128 + c, 128 + d]"
proof -
  obtain x d where x: "cp = x * 64 + d" "d < 64" using digit_split by blast
  obtain y c where y: "x = y * 64 + c" "c < 64" using digit_split by blast
  obtain z b where z: "y = z * 64 + b" "b < 64" using digit_split by blast
  consider "cp < 128" | "128 \<le> cp" "cp < 0x800" | "0x800 \<le> cp" "cp < 0x10000" | "0x10000 \<le> cp" "cp < 0x110000"
    using assms by (force simp: scalar_def)
  then show thesis
  proof cases
    case 1
    then show thesis by (intro one) (simp_all add: utf8_encode_def)
  next
    case 2
    then have "2 \<le> x" "x < 32" using x by linarith+
    then show thesis using two x encode_2 by blast
  next
    case 3
    then have "y < 16" using x y by linarith
    then show thesis using three [of y c d] 3(1) encode_3 [of y c d] x y by blast
  next
    case 4
    then have "z < 5" using x y z by linarith
    then show thesis using four [of z b c d] 4(1) encode_4 [of b c d z] x y z by blast
  qed
qed

lemma verify_encode:
  assumes "scalar cp"
  shows "verify_utf8_sequence (utf8_encode cp @ r) = (True, length (utf8_encode cp))"
  using assms
proof (cases cp rule: encode_cases)
  case one
  then show ?thesis using verify_1 [of "utf8_encode cp @ r"] by (simp add: byte_at_encoded [of "[cp]", simplified])
next
  case (two a b)
  then show ?thesis using verify_2 [of "utf8_encode cp @ r" a b] by (simp only: byte_at_encoded) simp
next
  case (three a b c)
  then show ?thesis using verify_3 [of "utf8_encode cp @ r" a b c cp] assms by (simp only: byte_at_encoded) simp
next
  case (four a b c d)
  then show ?thesis using verify_4 [of "utf8_encode cp @ r" a b c d cp] assms by (simp only: byte_at_encoded) simp
qed

text \<open>A sequence that starts with the given bytes.\<close>

lemma starts_bytes: "(\<forall>i < length bs. byte_at s i = bs ! i \<and> 0 < bs ! i) \<Longrightarrow> \<exists>r. s = map char_of bs @ r"
proof (induction bs arbitrary: s)
  case (Cons b bs)
  have b: "byte_at s 0 = b" "0 < b" using Cons.prems [rule_format, of 0] by simp_all
  then obtain c t where s: "s = c # t" by (cases s) (auto simp: byte_at_def)
  then have "\<forall>i < length bs. byte_at t i = bs ! i \<and> 0 < bs ! i" using Cons.prems by (auto simp: byte_at_def)
  then obtain r where "t = map char_of bs @ r" using Cons.IH by blast
  moreover have "c = char_of b" using b s by (auto simp: byte_at_def char_code_def)
  ultimately show ?case using s by simp
qed simp

lemma verify_parts:
  assumes "verify_utf8_sequence s = (True, n)"
  shows "n = 1 \<or> n = 2 \<and> IS_CONT (byte_at s 1) \<or> n = 3 \<and> IS_CONT (byte_at s 1) \<and> IS_CONT (byte_at s 2) \<or>
    n = 4 \<and> IS_CONT (byte_at s 1) \<and> IS_CONT (byte_at s 2) \<and> IS_CONT (byte_at s 3)"
  using assms unfolding verify_utf8_sequence_def Let_def prod.inject by (simp split: if_splits)

lemma verify_conts:
  assumes "verify_utf8_sequence s = (True, n)" "i < n" "0 < i"
  shows "\<exists>b < 64. byte_at s i = 128 + b"
proof -
  have "i = 1 \<or> i = 2 \<or> i = 3" using verify_parts [OF assms(1)] assms(2,3) by linarith
  then have "IS_CONT (byte_at s i)" using verify_parts [OF assms(1)] assms(2) by auto
  then have "128 \<le> byte_at s i" "byte_at s i < 192" using IS_CONT_iff [OF byte_at_small] by blast+
  then show ?thesis by (intro exI [of _ "byte_at s i - 128"]) linarith
qed

lemma verify_length: "verify_utf8_sequence s = (True, n) \<Longrightarrow> n = num_bytes_in_utf8_sequence (byte_at s 0)"
  by (simp add: verify_utf8_sequence_def Let_def)

lemma verify_decode:
  assumes v: "verify_utf8_sequence s = (True, n)" and s: "s \<noteq> []"
  shows "\<exists>cp r. scalar cp \<and> s = utf8_encode cp @ r \<and> n = length (utf8_encode cp)"
proof -
  let ?c = "byte_at s 0"
  have n: "n = (if ?c < 0x80 then 1 else if ?c < 0xC2 then 0 else if ?c < 0xE0 then 2 else if ?c < 0xF0 then 3 else if ?c < 0xF5 then 4 else 0)"
    using verify_length [OF v] num_bytes_eq [OF byte_at_small] by simp
  have pos: "0 < n" by (rule verify_positive [OF v])
  consider "?c < 0x80" "n = 1" | "0xC2 \<le> ?c" "?c < 0xE0" "n = 2" | "0xE0 \<le> ?c" "?c < 0xF0" "n = 3" | "0xF0 \<le> ?c" "?c < 0xF5" "n = 4"
    using n pos by (simp split: if_splits)
  then show ?thesis
  proof cases
    case 1
    obtain c r where c: "s = c # r" using s by (cases s) auto
    then have "utf8_encode ?c = [c]" "scalar ?c" using 1 by (simp_all add: utf8_encode_def byte_at_def char_code_def scalar_def)
    then show ?thesis using c 1 by (intro exI [of _ ?c] exI [of _ r]) simp
  next
    case 2
    obtain b where b: "b < 64" "byte_at s 1 = 128 + b" using verify_conts [OF v, of 1] 2 by auto
    obtain a where a: "?c = 192 + a" "2 \<le> a" "a < 32" using 2 by (intro that [of "?c - 192"]) linarith+
    obtain r where "s = map char_of [192 + a, 128 + b] @ r"
      using starts_bytes [of "[192 + a, 128 + b]" s] a(1) b(2) by (auto simp: less_Suc_eq)
    then have "s = utf8_encode (a * 64 + b) @ r" "length (utf8_encode (a * 64 + b)) = 2" using encode_2 [OF a(2,3) b(1)] by simp_all
    moreover have "scalar (a * 64 + b)" using a b by (simp add: scalar_def)
    ultimately show ?thesis using 2 by metis
  next
    case 3
    obtain b c where b: "b < 64" "byte_at s 1 = 128 + b" and c: "c < 64" "byte_at s 2 = 128 + c"
      using verify_conts [OF v, of 1] verify_conts [OF v, of 2] 3 by auto
    obtain a where a: "?c = 224 + a" "a < 16" using 3 by (intro that [of "?c - 224"]) linarith+
    let ?cp = "(a * 64 + b) * 64 + c"
    have cp: "0x800 \<le> ?cp" "scalar ?cp" using verify_3 [OF a(1) b(2) c(2) a(2) b(1) c(1) refl] v by simp_all
    obtain r where "s = map char_of [224 + a, 128 + b, 128 + c] @ r"
      using starts_bytes [of "[224 + a, 128 + b, 128 + c]" s] a(1) b(2) c(2) by (auto simp: less_Suc_eq numeral_eq_Suc)
    then have "s = utf8_encode ?cp @ r" "length (utf8_encode ?cp) = 3" using encode_3 [OF a(2) b(1) c(1) cp(1)] by simp_all
    then show ?thesis using 3 cp(2) by metis
  next
    case 4
    obtain b c d where b: "b < 64" "byte_at s 1 = 128 + b" and c: "c < 64" "byte_at s 2 = 128 + c" and d: "d < 64" "byte_at s 3 = 128 + d"
      using verify_conts [OF v, of 1] verify_conts [OF v, of 2] verify_conts [OF v, of 3] 4 by auto
    obtain a where a: "?c = 240 + a" "a < 5" using 4 by (intro that [of "?c - 240"]) linarith+
    let ?cp = "((a * 64 + b) * 64 + c) * 64 + d"
    have cp: "0x10000 \<le> ?cp" "scalar ?cp" using verify_4 [OF a(1) b(2) c(2) d(2) a(2) b(1) c(1) d(1) refl] v by simp_all
    obtain r where "s = map char_of [240 + a, 128 + b, 128 + c, 128 + d] @ r"
      using starts_bytes [of "[240 + a, 128 + b, 128 + c, 128 + d]" s] a(1) b(2) c(2) d(2) by (auto simp: less_Suc_eq numeral_eq_Suc)
    then have "s = utf8_encode ?cp @ r" "length (utf8_encode ?cp) = 4" using encode_4 [OF b(1) c(1) d(1) cp(1)] by simp_all
    then show ?thesis using 4 cp(2) by metis
  qed
qed

lemma utf8_nil [simp]: "utf8 []"
  by (simp add: utf8_def exI [of _ "[]"])

lemma utf8_cons: "scalar cp \<Longrightarrow> utf8 r \<Longrightarrow> utf8 (utf8_encode cp @ r)"
proof -
  assume c: "scalar cp" "utf8 r"
  then obtain cps where "list_all scalar cps" "r = concat (map utf8_encode cps)" unfolding utf8_def by blast
  then show ?thesis using c(1) unfolding utf8_def by (intro exI [of _ "cp # cps"]) simp
qed

lemma utf8_cases: "utf8 s \<Longrightarrow> s \<noteq> [] \<Longrightarrow> \<exists>cp r. scalar cp \<and> s = utf8_encode cp @ r \<and> utf8 r"
proof -
  assume "utf8 s" "s \<noteq> []"
  then obtain cps where c: "list_all scalar cps" "s = concat (map utf8_encode cps)" unfolding utf8_def by blast
  then have "cps \<noteq> []" using \<open>s \<noteq> []\<close> by auto
  then obtain cp cs where "cps = cp # cs" by (cases cps) auto
  then have "scalar cp" "s = utf8_encode cp @ concat (map utf8_encode cs)" "list_all scalar cs" using c by simp_all
  then show ?thesis unfolding utf8_def by blast
qed

lemma encode_nonempty: "scalar cp \<Longrightarrow> 0 < length (utf8_encode cp)"
  using verify_positive [OF verify_encode [of cp "[]"]] by simp

lemma encode_unique: "scalar a \<Longrightarrow> scalar b \<Longrightarrow> utf8_encode a @ r = utf8_encode b @ t \<Longrightarrow> utf8_encode a = utf8_encode b \<and> r = t"
  using verify_encode [of a r] verify_encode [of b t] by simp

lemma is_valid_utf8_iff: "is_valid_utf8 s (length s) \<longleftrightarrow> utf8 s"
proof (induction "length s" arbitrary: s rule: less_induct)
  case less
  show ?case
  proof (cases "s = []")
    case True
    then show ?thesis by (simp add: is_valid_utf8.simps)
  next
    case s: False
    obtain ok n where v: "verify_utf8_sequence s = (ok, n)" by fastforce
    show ?thesis
    proof (cases ok)
      case False
      have "\<not> utf8 s"
      proof
        assume "utf8 s"
        then obtain cp r where "scalar cp" "s = utf8_encode cp @ r" using utf8_cases s by blast
        then show False using verify_encode v False by simp
      qed
      then show ?thesis using s v False by (simp add: is_valid_utf8.simps [of s])
    next
      case True
      then obtain cp r where d: "scalar cp" "s = utf8_encode cp @ r" "n = length (utf8_encode cp)"
        using verify_decode [of s n] s v by auto
      have "is_valid_utf8 s (length s) \<longleftrightarrow> is_valid_utf8 r (length r)"
        using s v True d encode_nonempty [OF d(1)] by (subst is_valid_utf8.simps) (simp add: Let_def)
      moreover have "is_valid_utf8 r (length r) \<longleftrightarrow> utf8 r" using less d encode_nonempty [OF d(1)] by simp
      moreover have "utf8 s \<longleftrightarrow> utf8 r" using utf8_cons [OF d(1)] utf8_cases s encode_unique [OF d(1)] d(2) by metis
      ultimately show ?thesis by simp
    qed
  qed
qed

text \<open>C36: the check of UTF-8 accepts exactly the texts that are a sequence of encodings of Unicode scalar
  values, with neither overlong forms, surrogates nor code points beyond the range; then, with enough
  memory, \<open>json_value_init_string\<close> makes a string value of it, and otherwise nothing is allocated.\<close>

theorem json_init_string_utf8:
  "is_valid_utf8 s (length s) = utf8 s \<and>
   (if utf8 s \<and> jm_grants m (jm_calls m) \<and> jm_grants m (jm_calls m + 1)
    then \<exists>m'. json_value_init_string (Some s) m = (Some (V_String s), m') \<and> moved 2 m m'
    else \<exists>m'. json_value_init_string (Some s) m = (None, m') \<and> moved 0 m m')"
  by (simp add: is_valid_utf8_iff json_value_init_string_def parson_strndup_def parson_malloc_def
      json_value_init_string_no_copy_def parson_free_def moved_def)

end
