(* ===== verification/JsonObject.thy ===== *)
theory JsonObject
  imports JsonUtf8
begin

text \<open>
  The functions of the JSON library \<open>cplusplus/jsonbenchmark/parson.c\<close> that read and change arrays and
  objects.  A pointer to an array or an object that may be NULL is an option; an operation returns
  its status, the changed array or object and the memory, and \<open>None\<close> is undefined behaviour.
\<close>

section \<open>Reading arrays and objects\<close>

definition json_array_get_value :: "json_array option \<Rightarrow> nat \<Rightarrow> json_value option" where
  "json_array_get_value arr index =
     (case arr of
        None \<Rightarrow> None
      | Some a \<Rightarrow> if json_array_get_count arr \<le> index then None else Some (arr_items a ! index))"

definition json_array_get_string :: "json_array option \<Rightarrow> nat \<Rightarrow> string option" where
  "json_array_get_string arr index = json_value_get_string (json_array_get_value arr index)"

definition json_array_get_number :: "json_array option \<Rightarrow> nat \<Rightarrow> double" where
  "json_array_get_number arr index = json_value_get_number (json_array_get_value arr index)"

definition json_array_get_object :: "json_array option \<Rightarrow> nat \<Rightarrow> json_object option" where
  "json_array_get_object arr index = json_value_get_object (json_array_get_value arr index)"

definition json_array_get_array :: "json_array option \<Rightarrow> nat \<Rightarrow> json_array option" where
  "json_array_get_array arr index = json_value_get_array (json_array_get_value arr index)"

definition json_array_get_boolean :: "json_array option \<Rightarrow> nat \<Rightarrow> int" where
  "json_array_get_boolean arr index = json_value_get_boolean (json_array_get_value arr index)"

definition json_object_get_string :: "json_object option \<Rightarrow> string option \<Rightarrow> string option" where
  "json_object_get_string ob name = json_value_get_string (json_object_get_value ob name)"

definition json_object_get_number :: "json_object option \<Rightarrow> string option \<Rightarrow> double" where
  "json_object_get_number ob name = json_value_get_number (json_object_get_value ob name)"

definition json_object_get_object :: "json_object option \<Rightarrow> string option \<Rightarrow> json_object option" where
  "json_object_get_object ob name = json_value_get_object (json_object_get_value ob name)"

definition json_object_get_array :: "json_object option \<Rightarrow> string option \<Rightarrow> json_array option" where
  "json_object_get_array ob name = json_value_get_array (json_object_get_value ob name)"

definition json_object_get_boolean :: "json_object option \<Rightarrow> string option \<Rightarrow> int" where
  "json_object_get_boolean ob name = json_value_get_boolean (json_object_get_value ob name)"

definition json_object_get_name :: "json_object option \<Rightarrow> nat \<Rightarrow> string option" where
  "json_object_get_name ob index =
     (case ob of
        None \<Rightarrow> None
      | Some x \<Rightarrow> if json_object_get_count ob \<le> index then None else Some (fst (obj_members x ! index)))"

definition json_object_get_value_at :: "json_object option \<Rightarrow> nat \<Rightarrow> json_value option" where
  "json_object_get_value_at ob index =
     (case ob of
        None \<Rightarrow> None
      | Some x \<Rightarrow> if json_object_get_count ob \<le> index then None else Some (snd (obj_members x ! index)))"

definition json_object_has_value :: "json_object option \<Rightarrow> string option \<Rightarrow> bool" where
  "json_object_has_value ob name \<longleftrightarrow> json_object_get_value ob name \<noteq> None"

definition json_object_has_value_of_type :: "json_object option \<Rightarrow> string option \<Rightarrow> json_value_type \<Rightarrow> bool" where
  "json_object_has_value_of_type ob name type \<longleftrightarrow>
     (let val = json_object_get_value ob name in val \<noteq> None \<and> json_value_get_type val = type)"

text \<open>The short names.\<close>

definition json_type :: "json_value option \<Rightarrow> json_value_type" where
  "json_type v = json_value_get_type v"

definition json_object :: "json_value option \<Rightarrow> json_object option" where
  "json_object v = json_value_get_object v"

definition json_array :: "json_value option \<Rightarrow> json_array option" where
  "json_array v = json_value_get_array v"

definition json_string :: "json_value option \<Rightarrow> string option" where
  "json_string v = json_value_get_string v"

definition json_number :: "json_value option \<Rightarrow> double" where
  "json_number v = json_value_get_number v"

definition json_boolean :: "json_value option \<Rightarrow> int" where
  "json_boolean v = json_value_get_boolean v"

section \<open>Names with dots\<close>

text \<open>The position of the first dot.\<close>

definition dot_position :: "string \<Rightarrow> nat option" where
  "dot_position name = (if CHR ''.'' \<in> set name then Some (length (takeWhile (\<lambda>c. c \<noteq> CHR ''.'') name)) else None)"

lemma takeWhile_other: "c \<in> set s \<Longrightarrow> length (takeWhile (\<lambda>d. d \<noteq> c) s) < length s"
  by (induction s) auto

lemma dot_position_less: "dot_position name = Some n \<Longrightarrow> n < length name"
  using takeWhile_other by (auto simp: dot_position_def split: if_splits)

function json_object_dotget_value :: "json_object option \<Rightarrow> string \<Rightarrow> json_value option" where
  "json_object_dotget_value ob name =
     (case dot_position name of
        None \<Rightarrow> json_object_get_value ob (Some name)
      | Some n \<Rightarrow> json_object_dotget_value (json_value_get_object (json_object_nget_value ob name n)) (drop (n + 1) name))"
  by pat_completeness auto
termination
  by (relation "measure (\<lambda>(ob, name). length name)") (auto dest: dot_position_less)

definition json_object_dotget_string :: "json_object option \<Rightarrow> string \<Rightarrow> string option" where
  "json_object_dotget_string ob name = json_value_get_string (json_object_dotget_value ob name)"

definition json_object_dotget_number :: "json_object option \<Rightarrow> string \<Rightarrow> double" where
  "json_object_dotget_number ob name = json_value_get_number (json_object_dotget_value ob name)"

definition json_object_dotget_object :: "json_object option \<Rightarrow> string \<Rightarrow> json_object option" where
  "json_object_dotget_object ob name = json_value_get_object (json_object_dotget_value ob name)"

definition json_object_dotget_array :: "json_object option \<Rightarrow> string \<Rightarrow> json_array option" where
  "json_object_dotget_array ob name = json_value_get_array (json_object_dotget_value ob name)"

definition json_object_dotget_boolean :: "json_object option \<Rightarrow> string \<Rightarrow> int" where
  "json_object_dotget_boolean ob name = json_value_get_boolean (json_object_dotget_value ob name)"

definition json_object_dothas_value :: "json_object option \<Rightarrow> string \<Rightarrow> bool" where
  "json_object_dothas_value ob name \<longleftrightarrow> json_object_dotget_value ob name \<noteq> None"

definition json_object_dothas_value_of_type :: "json_object option \<Rightarrow> string \<Rightarrow> json_value_type \<Rightarrow> bool" where
  "json_object_dothas_value_of_type ob name type \<longleftrightarrow>
     (let val = json_object_dotget_value ob name in val \<noteq> None \<and> json_value_get_type val = type)"

section \<open>Changing arrays\<close>

type_synonym array_result = "json_status \<times> json_array option \<times> jmem"

text \<open>The last item takes the place of the removed one.\<close>

definition json_array_remove :: "json_array option \<Rightarrow> nat \<Rightarrow> jmem \<Rightarrow> array_result" where
  "json_array_remove arr ix m =
     (case arr of
        None \<Rightarrow> (JSONFailure, arr, m)
      | Some a \<Rightarrow>
          if json_array_get_count arr \<le> ix then (JSONFailure, arr, m)
          else
            (let last_element_ix = json_array_get_count arr - 1; vs = arr_items a; m = json_value_free (vs ! ix) m in
             if ix \<noteq> last_element_ix then
               (case json_array_get_value arr last_element_ix of
                  None \<Rightarrow> (JSONFailure, arr, m)
                | Some temp_value \<Rightarrow>
                    (JSONSuccess, Some (Json_Array (take last_element_ix (vs[ix := temp_value])) (arr_capacity a)), m))
             else (JSONSuccess, Some (Json_Array (take last_element_ix vs) (arr_capacity a)), m)))"

definition json_array_replace_value :: "json_array option \<Rightarrow> nat \<Rightarrow> json_value option \<Rightarrow> jmem \<Rightarrow> array_result" where
  "json_array_replace_value arr ix v m =
     (case (arr, v) of
        (Some a, Some v) \<Rightarrow>
          if json_array_get_count arr \<le> ix then (JSONFailure, arr, m)
          else
            (let m = json_value_free (arr_items a ! ix) m
             in (JSONSuccess, Some (Json_Array ((arr_items a)[ix := v]) (arr_capacity a)), m))
      | _ \<Rightarrow> (JSONFailure, arr, m))"

text \<open>A new value takes the place of an item, or is released when there is no such item.\<close>

definition replace_new :: "json_array option \<Rightarrow> nat \<Rightarrow> json_value option \<times> jmem \<Rightarrow> array_result" where
  "replace_new arr i r =
     (case r of
        (None, m) \<Rightarrow> (JSONFailure, arr, m)
      | (Some v, m) \<Rightarrow>
          (let (st, arr, m) = json_array_replace_value arr i (Some v) m
           in if st = JSONFailure then (JSONFailure, arr, json_value_free v m) else (JSONSuccess, arr, m)))"

definition json_array_replace_string :: "json_array option \<Rightarrow> nat \<Rightarrow> string option \<Rightarrow> jmem \<Rightarrow> array_result" where
  "json_array_replace_string arr i str m = replace_new arr i (json_value_init_string str m)"

definition json_array_replace_number :: "json_array option \<Rightarrow> nat \<Rightarrow> double \<Rightarrow> jmem \<Rightarrow> array_result" where
  "json_array_replace_number arr i num m = replace_new arr i (json_value_init_number num m)"

definition json_array_replace_boolean :: "json_array option \<Rightarrow> nat \<Rightarrow> int \<Rightarrow> jmem \<Rightarrow> array_result" where
  "json_array_replace_boolean arr i b m = replace_new arr i (json_value_init_boolean b m)"

definition json_array_replace_null :: "json_array option \<Rightarrow> nat \<Rightarrow> jmem \<Rightarrow> array_result" where
  "json_array_replace_null arr i m = replace_new arr i (json_value_init_null m)"

definition json_array_clear :: "json_array option \<Rightarrow> jmem \<Rightarrow> array_result" where
  "json_array_clear arr m =
     (case arr of
        None \<Rightarrow> (JSONFailure, arr, m)
      | Some a \<Rightarrow> (JSONSuccess, Some (Json_Array [] (arr_capacity a)), fold json_value_free (arr_items a) m))"

definition json_array_append_value :: "json_array option \<Rightarrow> json_value option \<Rightarrow> jmem \<Rightarrow> array_result option" where
  "json_array_append_value arr v m =
     (case (arr, v) of
        (Some a, Some v) \<Rightarrow> do { (st, a, m) \<leftarrow> json_array_add a v m; Some (st, Some a, m) }
      | _ \<Rightarrow> Some (JSONFailure, arr, m))"

definition append_new :: "json_array option \<Rightarrow> json_value option \<times> jmem \<Rightarrow> array_result option" where
  "append_new arr r =
     (case r of
        (None, m) \<Rightarrow> Some (JSONFailure, arr, m)
      | (Some v, m) \<Rightarrow> do {
          (st, arr, m) \<leftarrow> json_array_append_value arr (Some v) m;
          if st = JSONFailure then Some (JSONFailure, arr, json_value_free v m) else Some (JSONSuccess, arr, m)
        })"

definition json_array_append_string :: "json_array option \<Rightarrow> string option \<Rightarrow> jmem \<Rightarrow> array_result option" where
  "json_array_append_string arr str m = append_new arr (json_value_init_string str m)"

definition json_array_append_number :: "json_array option \<Rightarrow> double \<Rightarrow> jmem \<Rightarrow> array_result option" where
  "json_array_append_number arr num m = append_new arr (json_value_init_number num m)"

definition json_array_append_boolean :: "json_array option \<Rightarrow> int \<Rightarrow> jmem \<Rightarrow> array_result option" where
  "json_array_append_boolean arr b m = append_new arr (json_value_init_boolean b m)"

definition json_array_append_null :: "json_array option \<Rightarrow> jmem \<Rightarrow> array_result option" where
  "json_array_append_null arr m = append_new arr (json_value_init_null m)"

section \<open>Changing objects\<close>

type_synonym object_result = "json_status \<times> json_object option \<times> jmem"

text \<open>The first member with the name gets the value.\<close>

fun put_member :: "(string \<times> json_value) list \<Rightarrow> string \<Rightarrow> json_value \<Rightarrow> (string \<times> json_value) list option" where
  "put_member [] name v = None"
| "put_member ((k, w) # ms) name v =
     (if k = name then Some ((k, v) # ms) else map_option ((#) (k, w)) (put_member ms name v))"

definition json_object_set_value ::
  "json_object option \<Rightarrow> string option \<Rightarrow> json_value option \<Rightarrow> jmem \<Rightarrow> object_result option"
where
  "json_object_set_value ob name v m =
     (case (ob, name, v) of
        (Some x, Some name, Some v) \<Rightarrow>
          (let add = (\<lambda>m. do { (st, x, m) \<leftarrow> json_object_add x (Some name) (Some v) m; Some (st, Some x, m) })
           in case json_object_get_value ob (Some name) of
                None \<Rightarrow> add m
              | Some old_value \<Rightarrow>
                  (let m = json_value_free old_value m
                   in case put_member (obj_members x) name v of
                        Some ms \<Rightarrow> Some (JSONSuccess, Some (Json_Object ms (obj_capacity x)), m)
                      | None \<Rightarrow> add m))
      | _ \<Rightarrow> Some (JSONFailure, ob, m))"

definition json_object_set_string :: "json_object option \<Rightarrow> string option \<Rightarrow> string option \<Rightarrow> jmem \<Rightarrow> object_result option" where
  "json_object_set_string ob name str m = (let (v, m) = json_value_init_string str m in json_object_set_value ob name v m)"

definition json_object_set_number :: "json_object option \<Rightarrow> string option \<Rightarrow> double \<Rightarrow> jmem \<Rightarrow> object_result option" where
  "json_object_set_number ob name num m = (let (v, m) = json_value_init_number num m in json_object_set_value ob name v m)"

definition json_object_set_boolean :: "json_object option \<Rightarrow> string option \<Rightarrow> int \<Rightarrow> jmem \<Rightarrow> object_result option" where
  "json_object_set_boolean ob name b m = (let (v, m) = json_value_init_boolean b m in json_object_set_value ob name v m)"

definition json_object_set_null :: "json_object option \<Rightarrow> string option \<Rightarrow> jmem \<Rightarrow> object_result option" where
  "json_object_set_null ob name m = (let (v, m) = json_value_init_null m in json_object_set_value ob name v m)"

text \<open>The object below a name is changed in place.\<close>

definition put_object :: "json_object \<Rightarrow> string \<Rightarrow> json_object option \<Rightarrow> json_object" where
  "put_object x name sub =
     (case sub of
        None \<Rightarrow> x
      | Some sub \<Rightarrow>
          (case put_member (obj_members x) name (V_Object sub) of
             None \<Rightarrow> x
           | Some ms \<Rightarrow> Json_Object ms (obj_capacity x)))"

definition blocks_of :: "'a option \<Rightarrow> nat" where
  "blocks_of p = (if p = None then 0 else 1)"

function dotset :: "json_object option \<Rightarrow> string \<Rightarrow> json_value \<Rightarrow> jmem \<Rightarrow> object_result option" where
  "dotset ob name v m =
     (case dot_position name of
        None \<Rightarrow> json_object_set_value ob (Some name) (Some v) m
      | Some n \<Rightarrow>
          (let (current_name, m) = parson_strndup name n m in do {
             (st, ob, m) \<leftarrow>
               (if json_object_get_object ob current_name = None then
                  (let (new_value, m) = json_value_init_object m in
                   case new_value of
                     None \<Rightarrow> Some (JSONFailure, ob, parson_free (blocks_of current_name) m)
                   | Some new_value \<Rightarrow> do {
                       (st, ob, m) \<leftarrow>
                         (case ob of
                            None \<Rightarrow> Some (JSONFailure, ob, m)
                          | Some x \<Rightarrow> do {
                              (st, x, m) \<leftarrow> json_object_add x current_name (Some new_value) m;
                              Some (st, Some x, m) });
                       if st = JSONFailure then
                         Some (JSONFailure, ob, parson_free (blocks_of current_name) (json_value_free new_value m))
                       else Some (JSONSuccess, ob, m) })
                else Some (JSONSuccess, ob, m));
             if st = JSONFailure then Some (JSONFailure, ob, m)
             else do {
               let temp_obj = json_object_get_object ob current_name;
               (st, temp_obj, m) \<leftarrow> dotset temp_obj (drop (n + 1) name) v (parson_free (blocks_of current_name) m);
               Some (st, map_option (\<lambda>x. put_object x (take n name) temp_obj) ob, m)
             }
           }))"
  by pat_completeness auto
termination
  by (relation "measure (\<lambda>(ob, name, v, m). length name)") (auto dest: dot_position_less)

definition json_object_dotset_value ::
  "json_object option \<Rightarrow> string option \<Rightarrow> json_value option \<Rightarrow> jmem \<Rightarrow> object_result option"
where
  "json_object_dotset_value ob name v m =
     (case (name, v) of (Some name, Some v) \<Rightarrow> dotset ob name v m | _ \<Rightarrow> Some (JSONFailure, ob, m))"

definition dotset_new :: "json_object option \<Rightarrow> string option \<Rightarrow> json_value option \<times> jmem \<Rightarrow> object_result option" where
  "dotset_new ob name r =
     (case r of
        (None, m) \<Rightarrow> Some (JSONFailure, ob, m)
      | (Some v, m) \<Rightarrow> do {
          (st, ob, m) \<leftarrow> json_object_dotset_value ob name (Some v) m;
          if st = JSONFailure then Some (JSONFailure, ob, json_value_free v m) else Some (JSONSuccess, ob, m)
        })"

definition json_object_dotset_string :: "json_object option \<Rightarrow> string option \<Rightarrow> string option \<Rightarrow> jmem \<Rightarrow> object_result option" where
  "json_object_dotset_string ob name str m = dotset_new ob name (json_value_init_string str m)"

definition json_object_dotset_number :: "json_object option \<Rightarrow> string option \<Rightarrow> double \<Rightarrow> jmem \<Rightarrow> object_result option" where
  "json_object_dotset_number ob name num m = dotset_new ob name (json_value_init_number num m)"

definition json_object_dotset_boolean :: "json_object option \<Rightarrow> string option \<Rightarrow> int \<Rightarrow> jmem \<Rightarrow> object_result option" where
  "json_object_dotset_boolean ob name b m = dotset_new ob name (json_value_init_boolean b m)"

definition json_object_dotset_null :: "json_object option \<Rightarrow> string option \<Rightarrow> jmem \<Rightarrow> object_result option" where
  "json_object_dotset_null ob name m = dotset_new ob name (json_value_init_null m)"

text \<open>The position of the first member with a name.\<close>

fun member_index :: "(string \<times> json_value) list \<Rightarrow> string \<Rightarrow> nat option" where
  "member_index [] name = None"
| "member_index ((k, v) # ms) name = (if k = name then Some 0 else map_option Suc (member_index ms name))"

text \<open>The last member takes the place of the removed one.\<close>

definition json_object_remove :: "json_object option \<Rightarrow> string option \<Rightarrow> jmem \<Rightarrow> object_result" where
  "json_object_remove ob name m =
     (case (ob, name) of
        (Some x, Some name) \<Rightarrow>
          if json_object_get_value ob (Some name) = None then (JSONFailure, ob, m)
          else
            (let last_item_index = json_object_get_count ob - 1; ms = obj_members x in
             case member_index ms name of
               None \<Rightarrow> (JSONFailure, ob, m)
             | Some i \<Rightarrow>
                 (let m = json_value_free (snd (ms ! i)) (parson_free 1 m);
                      ms = (if i \<noteq> last_item_index then ms[i := ms ! last_item_index] else ms)
                  in (JSONSuccess, Some (Json_Object (take last_item_index ms) (obj_capacity x)), m)))
      | _ \<Rightarrow> (JSONFailure, ob, m))"

function json_object_dotremove :: "json_object option \<Rightarrow> string \<Rightarrow> jmem \<Rightarrow> object_result" where
  "json_object_dotremove ob name m =
     (case dot_position name of
        None \<Rightarrow> json_object_remove ob (Some name) m
      | Some n \<Rightarrow>
          (let (current_name, m) = parson_strndup name n m; temp_obj = json_object_get_object ob current_name in
           if temp_obj = None then (JSONFailure, ob, parson_free (blocks_of current_name) m)
           else
             (let (st, temp_obj, m) = json_object_dotremove temp_obj (drop (n + 1) name) (parson_free (blocks_of current_name) m)
              in (st, map_option (\<lambda>x. put_object x (take n name) temp_obj) ob, m))))"
  by pat_completeness auto
termination
  by (relation "measure (\<lambda>(ob, name, m). length name)") (auto dest: dot_position_less)

definition json_object_clear :: "json_object option \<Rightarrow> jmem \<Rightarrow> object_result" where
  "json_object_clear ob m =
     (case ob of
        None \<Rightarrow> (JSONFailure, ob, m)
      | Some x \<Rightarrow>
          (JSONSuccess, Some (Json_Object [] (obj_capacity x)),
           fold (\<lambda>(k, v) m. json_value_free v (parson_free 1 m)) (obj_members x) m))"

declare json_object_dotget_value.simps [simp del] dotset.simps [simp del] json_object_dotremove.simps [simp del]

section \<open>Adding with any allocator\<close>

lemma malloc_any: "parson_malloc m = (ok, m') \<Longrightarrow> moved (if ok then 1 else 0) m m'"
  by (auto simp: parson_malloc_def moved_def)

lemma strdup_any: "\<exists>m'. parson_strdup s m = (Some s, m') \<and> moved 1 m m' \<or> parson_strdup s m = (None, m') \<and> moved 0 m m'"
  by (auto simp: parson_strdup_def parson_strndup_def parson_malloc_def moved_def)

lemma object_resize_any:
  assumes "length ms \<le> n" "0 < n"
  shows "\<exists>st m'. json_object_resize (Json_Object ms cap) n m = Some (st, Json_Object ms (if st = JSONSuccess then n else cap), m') \<and>
    moved (if st = JSONSuccess \<and> cap = 0 then 2 else 0) m m'"
  using assms by (auto simp: json_object_resize_def Let_def parson_malloc_def parson_free_def moved_def)

lemma array_resize_any:
  assumes "length vs \<le> n" "0 < n"
  shows "\<exists>st m'. json_array_resize (Json_Array vs cap) n m = Some (st, Json_Array vs (if st = JSONSuccess then n else cap), m') \<and>
    moved (if st = JSONSuccess \<and> cap = 0 then 1 else 0) m m'"
  using assms by (auto simp: json_array_resize_def Let_def parson_malloc_def parson_free_def moved_def)

text \<open>The blocks of an object, an array: what changes with the capacity.\<close>

definition obj_cells :: "nat \<Rightarrow> int" where
  "obj_cells cap = (if cap = 0 then 0 else 2)"

definition arr_cells :: "nat \<Rightarrow> int" where
  "arr_cells cap = (if cap = 0 then 0 else 1)"

lemma blocks_cells:
  "int (object_blocks (Json_Object ms cap)) = 1 + obj_cells cap + int (member_blocks ms)"
  "int (array_blocks (Json_Array vs cap)) = 1 + arr_cells cap + int (item_blocks vs)"
  by (simp_all add: obj_cells_def arr_cells_def)

text \<open>The first half of \<open>json_object_add\<close>: room for one member more.\<close>

definition reserve :: "json_object \<Rightarrow> jmem \<Rightarrow> (json_status \<times> json_object \<times> jmem) option" where
  "reserve ob m =
     (if obj_capacity ob \<le> length (obj_members ob) then
        (let new_capacity = max (obj_capacity ob * 2) STARTING_CAPACITY in
         if OBJECT_MAX_CAPACITY < new_capacity then Some (JSONFailure, ob, m)
         else json_object_resize ob new_capacity m)
      else Some (JSONSuccess, ob, m))"

lemma json_object_add_reserve:
  "map_of (obj_members ob) name = None \<Longrightarrow> json_object_add ob (Some name) (Some v) m = do {
     (st, ob, m) \<leftarrow> reserve ob m;
     if st = JSONFailure then Some (JSONFailure, ob, m)
     else if obj_capacity ob \<le> length (obj_members ob) then None
     else
       (let (copy, m) = parson_strdup name m in
        case copy of
          None \<Rightarrow> Some (JSONFailure, ob, m)
        | Some copy \<Rightarrow> Some (JSONSuccess, Json_Object (obj_members ob @ [(copy, v)]) (obj_capacity ob), m))
   }"
  by (simp only: json_object_add_def reserve_def get_value_map_of) simp

lemma grow_object_any:
  assumes len: "length ms \<le> cap" and cap: "cap \<le> OBJECT_MAX_CAPACITY"
  shows "\<exists>st cap' m'.
    reserve (Json_Object ms cap) m = Some (st, Json_Object ms cap', m') \<and>
    cap' \<le> OBJECT_MAX_CAPACITY \<and> length ms \<le> cap' \<and> (st = JSONSuccess \<longrightarrow> length ms < cap') \<and>
    moved (obj_cells cap' - obj_cells cap) m m' \<and> (cap' = cap \<or> cap' = grown (length ms) cap)"
proof (cases "cap \<le> length ms")
  case True
  define n where n: "n = max (cap * 2) STARTING_CAPACITY"
  have g: "length ms < n" "0 < n" using True len by (auto simp: n STARTING_CAPACITY_def)
  have n': "max (length ms * 2) STARTING_CAPACITY = n" using n True len by simp
  show ?thesis
  proof (cases "OBJECT_MAX_CAPACITY < n")
    case False
    obtain st m' where r: "json_object_resize (Json_Object ms cap) n m = Some (st, Json_Object ms (if st = JSONSuccess then n else cap), m')"
      "moved (if st = JSONSuccess \<and> cap = 0 then 2 else 0) m m'"
      using object_resize_any [of ms n] g by (meson less_imp_le)
    have "moved (obj_cells (if st = JSONSuccess then n else cap) - obj_cells cap) m m'"
      using r(2) g by (auto simp: obj_cells_def split: if_splits)
    then show ?thesis using r(1) g False True len cap
      by (intro exI [of _ st] exI [of _ "if st = JSONSuccess then n else cap"] exI [of _ m']) (simp add: reserve_def n' grown_def)
  qed (use True len cap in \<open>simp add: reserve_def n'\<close>)
qed (use len cap in \<open>simp add: reserve_def\<close>)

lemma object_add_any:
  assumes len: "length ms \<le> cap" and cap: "cap \<le> OBJECT_MAX_CAPACITY"
  shows "\<exists>st cap' m'. json_object_add (Json_Object ms cap) (Some name) (Some v) m =
      Some (st, Json_Object (if st = JSONSuccess then ms @ [(name, v)] else ms) cap', m') \<and>
    (st = JSONSuccess \<longrightarrow> map_of ms name = None \<and> length ms < cap') \<and> length ms \<le> cap' \<and> cap' \<le> OBJECT_MAX_CAPACITY \<and>
    moved (obj_cells cap' - obj_cells cap + (if st = JSONSuccess then 1 else 0)) m m' \<and>
    (cap' = cap \<or> cap' = grown (length ms) cap)"
proof (cases "map_of ms name")
  case (Some w)
  then show ?thesis using len cap by (simp add: json_object_add_def)
next
  case None
  obtain st cap' m1 where g: "reserve (Json_Object ms cap) m = Some (st, Json_Object ms cap', m1)"
    "cap' \<le> OBJECT_MAX_CAPACITY" "length ms \<le> cap'" "st = JSONSuccess \<longrightarrow> length ms < cap'"
    "moved (obj_cells cap' - obj_cells cap) m m1" "cap' = cap \<or> cap' = grown (length ms) cap"
    using grow_object_any [OF len cap] by blast
  show ?thesis
  proof (cases st)
    case JSONFailure
    then show ?thesis using None g by (simp add: json_object_add_reserve)
  next
    case JSONSuccess
    obtain m2 where d: "parson_strdup name m1 = (Some name, m2) \<and> moved 1 m1 m2 \<or> parson_strdup name m1 = (None, m2) \<and> moved 0 m1 m2"
      using strdup_any by blast
    then show ?thesis
    proof (elim disjE conjE)
      assume "parson_strdup name m1 = (Some name, m2)" "moved 1 m1 m2"
      then show ?thesis using None g JSONSuccess moved_trans [OF g(5)]
        by (intro exI [of _ JSONSuccess] exI [of _ cap'] exI [of _ m2]) (simp add: json_object_add_reserve)
    next
      assume "parson_strdup name m1 = (None, m2)" "moved 0 m1 m2"
      then show ?thesis using None g JSONSuccess moved_trans [OF g(5)]
        by (intro exI [of _ JSONFailure] exI [of _ cap'] exI [of _ m2]) (fastforce simp add: json_object_add_reserve)
    qed
  qed
qed

lemma array_add_any:
  assumes len: "length vs \<le> cap" and cap: "cap \<le> ARRAY_MAX_CAPACITY"
  shows "\<exists>st cap' m'. json_array_add (Json_Array vs cap) v m =
      Some (st, Json_Array (if st = JSONSuccess then vs @ [v] else vs) cap', m') \<and>
    (st = JSONSuccess \<longrightarrow> length vs < cap') \<and> length vs \<le> cap' \<and> cap' \<le> ARRAY_MAX_CAPACITY \<and>
    moved (arr_cells cap' - arr_cells cap) m m' \<and> (cap' = cap \<or> cap' = grown (length vs) cap)"
proof (cases "cap \<le> length vs")
  case True
  define n where n: "n = max (cap * 2) STARTING_CAPACITY"
  have g: "length vs < n" "0 < n" using True len by (auto simp: n STARTING_CAPACITY_def)
  have n': "max (length vs * 2) STARTING_CAPACITY = n" using n True len by simp
  show ?thesis
  proof (cases "ARRAY_MAX_CAPACITY < n")
    case False
    obtain st m' where r: "json_array_resize (Json_Array vs cap) n m = Some (st, Json_Array vs (if st = JSONSuccess then n else cap), m')"
      "moved (if st = JSONSuccess \<and> cap = 0 then 1 else 0) m m'"
      using array_resize_any [of vs n] g by (meson less_imp_le)
    have "moved (arr_cells (if st = JSONSuccess then n else cap) - arr_cells cap) m m'"
      using r(2) g by (auto simp: arr_cells_def split: if_splits)
    then show ?thesis using r(1) g False True len cap
      by (intro exI [of _ st] exI [of _ "if st = JSONSuccess then n else cap"] exI [of _ m'])
        (cases st, simp_all add: json_array_add_def n' grown_def)
  qed (use True len cap in \<open>simp add: json_array_add_def n'\<close>)
qed (use len cap in \<open>simp add: json_array_add_def\<close>)

section \<open>Members and items\<close>

lemma put_member_none: "put_member ms name v = None \<longleftrightarrow> map_of ms name = None"
  by (induction ms name v rule: put_member.induct) auto

lemma put_member_some:
  "put_member ms name v = Some ns \<Longrightarrow>
    map fst ns = map fst ms \<and> map_of ns = (map_of ms)(name \<mapsto> v) \<and> set ns \<subseteq> insert (name, v) (set ms) \<and>
    (\<exists>w. map_of ms name = Some w \<and> member_blocks ns + value_blocks w = member_blocks ms + value_blocks v)"
proof (induction ms arbitrary: ns)
  case (Cons p ms)
  obtain k w where p: "p = (k, w)" by (cases p)
  show ?case
  proof (cases "k = name")
    case True
    then show ?thesis using Cons.prems p by auto
  next
    case False
    then obtain ns' where ns': "put_member ms name v = Some ns'" "ns = (k, w) # ns'" using Cons.prems p by auto
    then show ?thesis using Cons.IH [OF ns'(1)] False p by (auto simp: fun_upd_twist)
  qed
qed simp

lemma member_index_none: "member_index ms name = None \<longleftrightarrow> map_of ms name = None"
  by (induction ms name rule: member_index.induct) auto

lemma member_index_some: "member_index ms name = Some i \<Longrightarrow> i < length ms \<and> fst (ms ! i) = name \<and> map_of ms name = Some (snd (ms ! i))"
  by (induction ms name arbitrary: i rule: member_index.induct) (auto split: if_splits)

text \<open>The last element takes the place of another one.\<close>

lemma swap_out_mset:
  assumes "i < length xs"
  shows "add_mset (xs ! i) (mset (take (length xs - 1) (if i \<noteq> length xs - 1 then xs[i := xs ! (length xs - 1)] else xs))) = mset xs"
proof -
  obtain ys z where xs: "xs = ys @ [z]" using assms by (cases xs rule: rev_cases) auto
  show ?thesis
  proof (cases "i = length ys")
    case False
    then have "i < length ys" using assms xs by simp
    then show ?thesis using False xs by (simp add: list_update_append nth_append mset_update)
  qed (simp add: xs)
qed

lemma member_blocks_mset: "member_blocks ms = (\<Sum>(k, v) \<in># mset ms. 1 + value_blocks v)"
  by (induction ms) auto

lemma item_blocks_mset: "item_blocks vs = (\<Sum>v \<in># mset vs. value_blocks v)"
  by (induction vs) auto

lemma map_of_same: "distinct (map fst ms) \<Longrightarrow> mset ms = mset ns \<Longrightarrow> map_of ms = map_of ns \<and> distinct (map fst ns)"
proof -
  assume d: "distinct (map fst ms)" and m: "mset ms = mset ns"
  have "mset (map fst ms) = mset (map fst ns)" using m by simp
  then have dn: "distinct (map fst ns)" using d mset_eq_imp_distinct_iff by blast
  have "map_of ms k = map_of ns k" for k
  proof (cases "map_of ms k")
    case None
    then have "map_of ns k = None" using mset_eq_setD [OF m] by (simp add: map_of_eq_None_iff)
    then show ?thesis using None by simp
  next
    case (Some v)
    then have "(k, v) \<in> set ns" using mset_eq_setD [OF m] map_of_SomeD by metis
    then show ?thesis using Some dn by simp
  qed
  then show ?thesis using dn by blast
qed

lemma remove_member:
  assumes "distinct (map fst ms)" "member_index ms name = Some i"
    and ns: "ns = take (length ms - 1) (if i \<noteq> length ms - 1 then ms[i := ms ! (length ms - 1)] else ms)"
  shows "distinct (map fst ns) \<and> map_of ns = (map_of ms)(name := None) \<and> set ns \<subseteq> set ms \<and> length ns = length ms - 1 \<and>
    member_blocks ms = member_blocks ns + 1 + value_blocks (snd (ms ! i))"
proof -
  have i: "i < length ms" "fst (ms ! i) = name" using member_index_some [OF assms(2)] by blast+
  have m: "mset (ms ! i # ns) = mset ms" using swap_out_mset [OF i(1)] ns by simp
  have d: "map_of (ms ! i # ns) = map_of ms" "distinct (map fst (ms ! i # ns))" using map_of_same [OF assms(1) m [symmetric]] by simp_all
  obtain w where w: "ms ! i = (name, w)" using i(2) by (cases "ms ! i") simp
  have "map_of ns name = None" using d(2) w by (simp add: map_of_eq_None_iff)
  then have "map_of ns = (map_of ms)(name := None)" using d(1) w by (auto simp: fun_eq_iff split: if_splits)
  moreover have "set ns \<subseteq> set ms" using mset_eq_setD [OF m] by auto
  moreover have "member_blocks ms = member_blocks ns + 1 + value_blocks (snd (ms ! i))"
    unfolding member_blocks_mset m [symmetric] using w by simp
  moreover have "length ns = length ms - 1" by (simp add: ns)
  ultimately show ?thesis using d(2) by simp
qed

lemma free_fold:
  "moved (- int (item_blocks vs)) m (fold json_value_free vs m)"
  "moved (- int (member_blocks ms)) m (fold (\<lambda>(k, v) m. json_value_free v (parson_free 1 m)) ms m)"
proof -
  show "moved (- int (item_blocks vs)) m (fold json_value_free vs m)"
  proof (induction vs arbitrary: m)
    case (Cons v vs)
    from moved_trans [OF value_free_moved Cons.IH, of v m] show ?case by simp
  qed simp
  show "moved (- int (member_blocks ms)) m (fold (\<lambda>(k, v) m. json_value_free v (parson_free 1 m)) ms m)"
  proof (induction ms arbitrary: m)
    case (Cons p ms)
    have "moved (- int 1 + - int (value_blocks (snd p)) + - int (member_blocks ms)) m
        (fold (\<lambda>(k, v) m. json_value_free v (parson_free 1 m)) ms (json_value_free (snd p) (parson_free 1 m)))"
      by (rule moved_trans [OF moved_trans [OF free_moved value_free_moved] Cons.IH])
    then show ?case by (cases p) (simp add: algebra_simps)
  qed simp
qed

section \<open>The operations on objects\<close>

text \<open>An object in a state that all operations accept and keep.\<close>

definition object_fits :: "json_object \<Rightarrow> bool" where
  "object_fits ob \<longleftrightarrow> distinct (map fst (obj_members ob)) \<and> length (obj_members ob) \<le> obj_capacity ob \<and>
     obj_capacity ob \<le> OBJECT_MAX_CAPACITY"

text \<open>What the memory gains by the change of an object.\<close>

definition object_gain :: "json_object \<Rightarrow> json_object \<Rightarrow> int" where
  "object_gain x y = int (object_blocks y) - int (object_blocks x)"

lemma object_gain_simps [simp]: "object_gain x x = 0" "object_gain x y + object_gain y z = object_gain x z"
  by (simp_all add: object_gain_def)

lemma object_add_fits:
  assumes "object_fits x"
  shows "\<exists>st y m'. json_object_add x (Some name) (Some v) m = Some (st, y, m') \<and> object_fits y \<and>
    (if st = JSONSuccess
     then map_of (obj_members x) name = None \<and> obj_members y = obj_members x @ [(name, v)] \<and>
       moved (object_gain x y - int (value_blocks v)) m m'
     else obj_members y = obj_members x \<and> moved (object_gain x y) m m')"
proof -
  obtain ms cap where x: "x = Json_Object ms cap" by (cases x)
  obtain st cap' m' where a: "json_object_add (Json_Object ms cap) (Some name) (Some v) m =
      Some (st, Json_Object (if st = JSONSuccess then ms @ [(name, v)] else ms) cap', m')"
    "st = JSONSuccess \<longrightarrow> map_of ms name = None \<and> length ms < cap'" "length ms \<le> cap'" "cap' \<le> OBJECT_MAX_CAPACITY"
    "moved (obj_cells cap' - obj_cells cap + (if st = JSONSuccess then 1 else 0)) m m'"
    using object_add_any [of ms cap name v m] assms x by (auto simp: object_fits_def)
  let ?y = "Json_Object (if st = JSONSuccess then ms @ [(name, v)] else ms) cap'"
  have gain: "object_gain x ?y = obj_cells cap' - obj_cells cap + (if st = JSONSuccess then 1 + int (value_blocks v) else 0)"
    unfolding object_gain_def x blocks_cells by simp
  have "object_fits ?y" using a(2-4) assms x by (auto simp: object_fits_def map_of_eq_None_iff)
  moreover have "moved (object_gain x ?y - (if st = JSONSuccess then int (value_blocks v) else 0)) m m'"
    by (rule moved_same [OF a(5)]) (simp add: gain)
  ultimately show ?thesis using a(1,2) x by (intro exI [of _ st] exI [of _ ?y] exI [of _ m']) (auto split: if_splits)
qed

lemma set_value_any:
  assumes x: "object_fits x"
  shows "\<exists>st y m'. json_object_set_value (Some x) (Some name) (Some v) m = Some (st, Some y, m') \<and> object_fits y \<and>
    set (obj_members y) \<subseteq> insert (name, v) (set (obj_members x)) \<and>
    (if st = JSONSuccess
     then map_of (obj_members y) = (map_of (obj_members x))(name \<mapsto> v) \<and> moved (object_gain x y - int (value_blocks v)) m m'
     else map_of (obj_members x) name = None \<and> obj_members y = obj_members x \<and> moved (object_gain x y) m m')"
proof (cases "map_of (obj_members x) name")
  case None
  obtain st y m' where a: "json_object_add x (Some name) (Some v) m = Some (st, y, m')" "object_fits y"
    "if st = JSONSuccess
     then map_of (obj_members x) name = None \<and> obj_members y = obj_members x @ [(name, v)] \<and>
       moved (object_gain x y - int (value_blocks v)) m m'
     else obj_members y = obj_members x \<and> moved (object_gain x y) m m'"
    using object_add_fits [OF x] by blast
  have "map_of (obj_members x @ [(name, v)]) = (map_of (obj_members x))(name \<mapsto> v)"
    using None by (auto simp: fun_eq_iff map_add_def split: option.split)
  then have "st = JSONSuccess \<longrightarrow> map_of (obj_members y) = (map_of (obj_members x))(name \<mapsto> v)" using a(3) by presburger
  moreover have "set (obj_members y) \<subseteq> insert (name, v) (set (obj_members x))" using a(3) by (auto split: if_splits)
  ultimately show ?thesis using None a
    by (intro exI [of _ st] exI [of _ y] exI [of _ m']) (auto simp: json_object_set_value_def split: if_splits)
next
  case (Some old)
  obtain ms cap where xs: "x = Json_Object ms cap" by (cases x)
  obtain ns where ns: "put_member ms name v = Some ns" using put_member_none [of ms name v] Some xs by fastforce
  from put_member_some [OF ns] have p: "map fst ns = map fst ms" "map_of ns = (map_of ms)(name \<mapsto> v)"
    "set ns \<subseteq> insert (name, v) (set ms)" "member_blocks ns + value_blocks old = member_blocks ms + value_blocks v"
    using Some xs by auto
  let ?y = "Json_Object ns cap"
  have "length ns = length ms" using p(1) map_eq_imp_length_eq by blast
  then have fits: "object_fits ?y" using x p(1) xs by (simp add: object_fits_def)
  have "object_gain x ?y - int (value_blocks v) = - int (value_blocks old)" using p(4) unfolding object_gain_def xs by simp
  then have "moved (object_gain x ?y - int (value_blocks v)) m (json_value_free old m)" using value_free_moved by simp
  then show ?thesis using Some ns xs fits p
    by (intro exI [of _ JSONSuccess] exI [of _ ?y] exI [of _ "json_value_free old m"]) (simp add: json_object_set_value_def)
qed

lemma remove_any:
  assumes x: "object_fits x"
  shows "\<exists>st y m'. json_object_remove (Some x) (Some name) m = (st, Some y, m') \<and> object_fits y \<and>
    set (obj_members y) \<subseteq> set (obj_members x) \<and> map_of (obj_members y) = (map_of (obj_members x))(name := None) \<and>
    (st = JSONSuccess \<longleftrightarrow> map_of (obj_members x) name \<noteq> None) \<and> (st = JSONFailure \<longrightarrow> y = x) \<and> moved (object_gain x y) m m'"
proof (cases "map_of (obj_members x) name")
  case None
  then show ?thesis using x by (auto simp: json_object_remove_def fun_upd_idem)
next
  case (Some old)
  obtain ms cap where xs: "x = Json_Object ms cap" by (cases x)
  obtain i where i: "member_index ms name = Some i" using member_index_none [of ms name] Some xs by fastforce
  let ?ns = "take (length ms - 1) (if i \<noteq> length ms - 1 then ms[i := ms ! (length ms - 1)] else ms)"
  have d: "distinct (map fst ms)" using x xs by (simp add: object_fits_def)
  note r = remove_member [OF d i refl]
  let ?y = "Json_Object ?ns cap"
  let ?m = "json_value_free (snd (ms ! i)) (parson_free 1 m)"
  have "json_object_remove (Some x) (Some name) m = (JSONSuccess, Some ?y, ?m)"
    using Some xs i by (simp add: json_object_remove_def Let_def json_object_get_count_def)
  moreover have "length ms \<le> cap" using x xs by (simp add: object_fits_def)
  then have "length ?ns \<le> cap" by simp
  then have "object_fits ?y" using x r xs by (simp add: object_fits_def)
  moreover have "moved (object_gain x ?y) m ?m"
  proof (rule moved_same [OF moved_trans [OF free_moved value_free_moved]])
    have "int (member_blocks ms) = int (member_blocks ?ns) + 1 + int (value_blocks (snd (ms ! i)))" using r by simp
    then show "- int 1 + - int (value_blocks (snd (ms ! i))) = object_gain x ?y" unfolding object_gain_def xs blocks_cells by simp
  qed
  ultimately show ?thesis using r Some xs
    by (intro exI [of _ JSONSuccess] exI [of _ ?y] exI [of _ ?m]) simp
qed

lemma clear_any:
  assumes x: "object_fits x"
  shows "\<exists>y m'. json_object_clear (Some x) m = (JSONSuccess, Some y, m') \<and> object_fits y \<and> obj_members y = [] \<and>
    moved (object_gain x y) m m'"
proof -
  obtain ms cap where xs: "x = Json_Object ms cap" by (cases x)
  have "object_gain x (Json_Object [] cap) = - int (member_blocks ms)" unfolding object_gain_def xs by simp
  then show ?thesis using free_fold(2) x xs by (simp add: json_object_clear_def object_fits_def)
qed

section \<open>An object is a map\<close>

datatype object_op =
  Obj_Set string json_value | Obj_Remove string | Obj_Get string | Obj_Has string | Obj_Count | Obj_Clear

datatype object_answer =
  Obj_Status json_status | Obj_Value "json_value option" | Obj_Yes bool | Obj_Number nat

text \<open>
  The caller makes the value it sets, and releases it when the call fails, as the functions of the
  library itself do.
\<close>

definition caller_makes :: "json_value \<Rightarrow> jmem \<Rightarrow> jmem" where
  "caller_makes v m = m\<lparr>jm_blocks := jm_blocks m + int (value_blocks v)\<rparr>"

fun object_step :: "object_op \<Rightarrow> json_object option \<times> jmem \<Rightarrow> (object_answer \<times> json_object option \<times> jmem) option" where
  "object_step (Obj_Set k v) (ob, m) = do {
     (st, ob, m) \<leftarrow> json_object_set_value ob (Some k) (Some v) (caller_makes v m);
     Some (Obj_Status st, ob, if st = JSONFailure then json_value_free v m else m)
   }"
| "object_step (Obj_Remove k) (ob, m) = (let (st, ob, m) = json_object_remove ob (Some k) m in Some (Obj_Status st, ob, m))"
| "object_step (Obj_Get k) (ob, m) = Some (Obj_Value (json_object_get_value ob (Some k)), ob, m)"
| "object_step (Obj_Has k) (ob, m) = Some (Obj_Yes (json_object_has_value ob (Some k)), ob, m)"
| "object_step Obj_Count (ob, m) = Some (Obj_Number (json_object_get_count ob), ob, m)"
| "object_step Obj_Clear (ob, m) = (let (st, ob, m) = json_object_clear ob m in Some (Obj_Status st, ob, m))"

fun object_spec :: "object_op \<Rightarrow> (string \<rightharpoonup> json_value) \<Rightarrow> object_answer \<Rightarrow> (string \<rightharpoonup> json_value) \<Rightarrow> bool" where
  "object_spec (Obj_Set k v) M r M' \<longleftrightarrow>
     r = Obj_Status JSONSuccess \<and> M' = M(k \<mapsto> v) \<or> r = Obj_Status JSONFailure \<and> k \<notin> dom M \<and> M' = M"
| "object_spec (Obj_Remove k) M r M' \<longleftrightarrow>
     r = Obj_Status (if k \<in> dom M then JSONSuccess else JSONFailure) \<and> M' = M(k := None)"
| "object_spec (Obj_Get k) M r M' \<longleftrightarrow> r = Obj_Value (M k) \<and> M' = M"
| "object_spec (Obj_Has k) M r M' \<longleftrightarrow> r = Obj_Yes (k \<in> dom M) \<and> M' = M"
| "object_spec Obj_Count M r M' \<longleftrightarrow> r = Obj_Number (card (dom M)) \<and> M' = M"
| "object_spec Obj_Clear M r M' \<longleftrightarrow> r = Obj_Status JSONSuccess \<and> M' = Map.empty"

text \<open>The memory has \<open>h\<close> blocks besides those of the object.\<close>

definition object_in :: "int \<Rightarrow> nat \<Rightarrow> json_object option \<times> jmem \<Rightarrow> (string \<rightharpoonup> json_value) \<Rightarrow> bool" where
  "object_in h n s M \<longleftrightarrow>
     (\<exists>x. fst s = Some x \<and> object_fits x \<and> map_of (obj_members x) = M \<and> jm_blocks (snd s) = h + int (object_blocks x))"

lemma object_step_refines:
  assumes "object_in h (Suc n) s M"
  shows "\<exists>r s' M'. object_step op s = Some (r, s') \<and> object_spec op M r M' \<and> object_in h n s' M'"
proof -
  obtain x m where s: "s = (Some x, m)" and x: "object_fits x" "map_of (obj_members x) = M"
    and b: "jm_blocks m = h + int (object_blocks x)" using assms by (cases s) (auto simp: object_in_def)
  have in_after: "object_in h n (Some y, m') (map_of (obj_members y))" if "object_fits y" "moved (object_gain x y) m m'" for y m'
    using that b by (simp add: object_in_def moved_def object_gain_def)
  show ?thesis
  proof (cases op)
    case (Obj_Set k v)
    have made: "moved (int (value_blocks v)) m (caller_makes v m)" by (simp add: caller_makes_def moved_def)
    obtain st y m' where a: "json_object_set_value (Some x) (Some k) (Some v) (caller_makes v m) = Some (st, Some y, m')" "object_fits y"
      "if st = JSONSuccess
       then map_of (obj_members y) = (map_of (obj_members x))(k \<mapsto> v) \<and>
         moved (object_gain x y - int (value_blocks v)) (caller_makes v m) m'
       else map_of (obj_members x) k = None \<and> obj_members y = obj_members x \<and> moved (object_gain x y) (caller_makes v m) m'"
      using set_value_any [OF x(1), of k v "caller_makes v m"] by blast
    show ?thesis
    proof (cases st)
      case JSONSuccess
      then have "moved (object_gain x y) m m'" using moved_trans [OF made] a(3) by fastforce
      then show ?thesis using in_after a JSONSuccess x(2) Obj_Set s by force
    next
      case JSONFailure
      then have g: "moved (object_gain x y) (caller_makes v m) m'" using a(3) by simp
      have "moved (int (value_blocks v) + object_gain x y + - int (value_blocks v)) m (json_value_free v m')"
        by (rule moved_trans [OF moved_trans [OF made g] value_free_moved])
      then have "moved (object_gain x y) m (json_value_free v m')" by simp
      then show ?thesis using in_after [OF a(2)] a JSONFailure x(2) Obj_Set s by force
    qed
  next
    case (Obj_Remove k)
    obtain st y m' where a: "json_object_remove (Some x) (Some k) m = (st, Some y, m')" "object_fits y"
      "map_of (obj_members y) = M(k := None)" "st = JSONSuccess \<longleftrightarrow> M k \<noteq> None" "moved (object_gain x y) m m'"
      using remove_any [OF x(1), of k m] x(2) by blast
    have "st = (if k \<in> dom M then JSONSuccess else JSONFailure)" using a(4) by (cases st) auto
    then show ?thesis using in_after [OF a(2,5)] a(1,3) Obj_Remove s by simp
  next
    case Obj_Clear
    obtain y m' where a: "json_object_clear (Some x) m = (JSONSuccess, Some y, m')" "object_fits y" "obj_members y = []"
      "moved (object_gain x y) m m'" using clear_any [OF x(1)] by blast
    then show ?thesis using in_after [OF a(2,4)] Obj_Clear s by simp
  next
    case Obj_Count
    have "distinct (map fst (obj_members x))" using x(1) by (simp add: object_fits_def)
    then have "length (obj_members x) = card (dom M)"
      using x(2) by (metis distinct_card dom_map_of_conv_image_fst length_map set_map)
    then show ?thesis using in_after [OF x(1), of m] x(2) Obj_Count s by (simp add: json_object_get_count_def)
  qed (use in_after [OF x(1), of m] x(2) s in \<open>auto simp: json_object_has_value_def\<close>)
qed

interpretation json_object_adt: relational_refinement object_step object_spec "object_in h" for h
  by unfold_locales (rule object_step_refines)

text \<open>C30: a JSON object is a finite map from names to values: after any sequence of calls, with any
  allocator, every answer is one the map allows (setting a value fails only under a new name, and
  then changes nothing), and freeing the object gives back exactly the blocks it still has.\<close>

theorem json_object_is_map:
  "case json_value_init_object m of
     (None, m1) \<Rightarrow> jm_blocks m1 = jm_blocks m
   | (Some v, m1) \<Rightarrow>
       \<exists>rs x m' M. run object_step ops (json_value_get_object (Some v), m1) = Some (rs, Some x, m') \<and>
         spec_runs object_spec ops Map.empty rs M \<and> json_object_get_value (Some x) = case_option None M \<and>
         jm_blocks (json_value_free (V_Object x) m') = jm_blocks m"
proof (cases "json_value_init_object m")
  case (Pair r m1)
  show ?thesis
  proof (cases r)
    case None
    then show ?thesis using Pair
      by (auto simp: json_value_init_object_def json_object_init_def parson_malloc_def parson_free_def split: if_splits prod.splits option.splits)
  next
    case (Some v)
    then have v: "v = V_Object (Json_Object [] 0)" "jm_blocks m1 = jm_blocks m + 2" using Pair
      by (auto simp: json_value_init_object_def json_object_init_def parson_malloc_def split: if_splits)
    have "object_in (jm_blocks m + 1) (length ops + 0) (Some (Json_Object [] 0), m1) Map.empty"
      using v(2) by (simp add: object_in_def object_fits_def)
    from json_object_adt.related_run [OF this] obtain rs s' M where r:
      "run object_step ops (Some (Json_Object [] 0), m1) = Some (rs, s')" "spec_runs object_spec ops Map.empty rs M"
      "object_in (jm_blocks m + 1) 0 s' M" by blast
    obtain x m' where s': "s' = (Some x, m')" "map_of (obj_members x) = M" "jm_blocks m' = jm_blocks m + 1 + int (object_blocks x)"
      using r(3) by (cases s') (auto simp: object_in_def)
    have "json_object_get_value (Some x) = case_option None M"
      using s'(2) by (auto simp: fun_eq_iff json_object_get_value_def json_object_nget_value_def find_member_map_of split: option.split)
    moreover have "jm_blocks (json_value_free (V_Object x) m') = jm_blocks m"
      using value_free_moved [of "V_Object x" m'] s'(3) by (simp add: moved_def)
    ultimately have "\<exists>rs x m' M. run object_step ops (Some (Json_Object [] 0), m1) = Some (rs, Some x, m') \<and>
        spec_runs object_spec ops Map.empty rs M \<and> json_object_get_value (Some x) = case_option None M \<and>
        jm_blocks (json_value_free (V_Object x) m') = jm_blocks m"
      using r(1,2) s'(1) by blast
    then show ?thesis using Pair Some v(1) by (simp add: json_value_get_object_def)
  qed
qed

section \<open>An array is a list\<close>

definition array_fits :: "json_array \<Rightarrow> bool" where
  "array_fits a \<longleftrightarrow> length (arr_items a) \<le> arr_capacity a \<and> arr_capacity a \<le> ARRAY_MAX_CAPACITY"

definition array_gain :: "json_array \<Rightarrow> json_array \<Rightarrow> int" where
  "array_gain x y = int (array_blocks y) - int (array_blocks x)"

lemma array_gain_same [simp]: "array_gain x x = 0"
  by (simp add: array_gain_def)

lemma append_any:
  assumes "array_fits x"
  shows "\<exists>st y m'. json_array_append_value (Some x) (Some v) m = Some (st, Some y, m') \<and> array_fits y \<and>
    (if st = JSONSuccess then arr_items y = arr_items x @ [v] \<and> moved (array_gain x y - int (value_blocks v)) m m'
     else arr_items y = arr_items x \<and> moved (array_gain x y) m m')"
proof -
  obtain vs cap where x: "x = Json_Array vs cap" by (cases x)
  obtain st cap' m' where a: "json_array_add (Json_Array vs cap) v m =
      Some (st, Json_Array (if st = JSONSuccess then vs @ [v] else vs) cap', m')"
    "st = JSONSuccess \<longrightarrow> length vs < cap'" "length vs \<le> cap'" "cap' \<le> ARRAY_MAX_CAPACITY"
    "moved (arr_cells cap' - arr_cells cap) m m'"
    using array_add_any [of vs cap v m] assms x by (auto simp: array_fits_def)
  let ?y = "Json_Array (if st = JSONSuccess then vs @ [v] else vs) cap'"
  have "moved (array_gain x ?y - (if st = JSONSuccess then int (value_blocks v) else 0)) m m'"
    by (rule moved_same [OF a(5)]) (simp add: array_gain_def x blocks_cells del: array_blocks.simps)
  moreover have "array_fits ?y" using a(2-4) by (auto simp: array_fits_def)
  ultimately show ?thesis using a(1) x
    by (intro exI [of _ st] exI [of _ ?y] exI [of _ m']) (auto simp: json_array_append_value_def split: if_splits)
qed

lemma array_remove_any:
  assumes "array_fits x"
  shows "\<exists>st y m'. json_array_remove (Some x) i m = (st, Some y, m') \<and> array_fits y \<and> moved (array_gain x y) m m' \<and>
    (if i < length (arr_items x)
     then st = JSONSuccess \<and> arr_items y = butlast ((arr_items x)[i := last (arr_items x)])
     else st = JSONFailure \<and> y = x)"
proof (cases "i < length (arr_items x)")
  case False
  then show ?thesis using assms by (simp add: json_array_remove_def json_array_get_count_def)
next
  case True
  obtain vs cap where x: "x = Json_Array vs cap" by (cases x)
  then have i: "i < length vs" "vs \<noteq> []" using True by auto
  let ?ws = "take (length vs - 1) (if i \<noteq> length vs - 1 then vs[i := vs ! (length vs - 1)] else vs)"
  let ?m = "json_value_free (vs ! i) m"
  have l: "\<not> length vs \<le> length vs - Suc 0" using i(1) by simp
  have r: "json_array_remove (Some x) i m = (JSONSuccess, Some (Json_Array ?ws cap), ?m)"
    using i(1) l x by (simp add: json_array_remove_def json_array_get_count_def json_array_get_value_def Let_def)
  have "?ws = butlast (vs[i := last vs])" using i
    by (cases "i = length vs - 1") (simp_all add: butlast_conv_take last_conv_nth)
  moreover have "add_mset (vs ! i) (mset ?ws) = mset vs" by (rule swap_out_mset [OF i(1)])
  then have "item_blocks vs = value_blocks (vs ! i) + item_blocks ?ws"
    unfolding item_blocks_mset by (metis image_mset_add_mset sum_mset.insert)
  then have "moved (array_gain x (Json_Array ?ws cap)) m ?m"
    by (intro moved_same [OF value_free_moved]) (simp add: array_gain_def x blocks_cells del: array_blocks.simps)
  moreover have "length vs \<le> cap" "cap \<le> ARRAY_MAX_CAPACITY" using assms x by (simp_all add: array_fits_def)
  then have "array_fits (Json_Array ?ws cap)" by (simp add: array_fits_def)
  ultimately show ?thesis using r True x by simp
qed

lemma array_replace_any:
  assumes "array_fits x"
  shows "\<exists>st y m'. json_array_replace_value (Some x) i (Some v) m = (st, Some y, m') \<and> array_fits y \<and>
    (if i < length (arr_items x)
     then st = JSONSuccess \<and> arr_items y = (arr_items x)[i := v] \<and> moved (array_gain x y - int (value_blocks v)) m m'
     else st = JSONFailure \<and> y = x \<and> m' = m)"
proof (cases "i < length (arr_items x)")
  case False
  then show ?thesis using assms by (simp add: json_array_replace_value_def json_array_get_count_def)
next
  case True
  obtain vs cap where x: "x = Json_Array vs cap" by (cases x)
  then have i: "i < length vs" using True by simp
  have "mset (vs[i := v]) = add_mset v (mset vs - {#vs ! i#})" by (rule mset_update [OF i])
  then have "add_mset (vs ! i) (mset (vs[i := v])) = add_mset v (mset vs)" using i by simp
  then have "value_blocks (vs ! i) + item_blocks (vs[i := v]) = value_blocks v + item_blocks vs"
    unfolding item_blocks_mset by (metis image_mset_add_mset sum_mset.insert)
  then have "array_gain x (Json_Array (vs[i := v]) cap) - int (value_blocks v) = - int (value_blocks (vs ! i))"
    unfolding array_gain_def x blocks_cells by linarith
  then have "moved (array_gain x (Json_Array (vs[i := v]) cap) - int (value_blocks v)) m (json_value_free (vs ! i) m)"
    using value_free_moved by simp
  then show ?thesis using i x assms by (simp add: json_array_replace_value_def json_array_get_count_def array_fits_def)
qed

lemma array_clear_any:
  assumes "array_fits x"
  shows "\<exists>y m'. json_array_clear (Some x) m = (JSONSuccess, Some y, m') \<and> array_fits y \<and> arr_items y = [] \<and> moved (array_gain x y) m m'"
proof -
  obtain vs cap where x: "x = Json_Array vs cap" by (cases x)
  have "array_gain x (Json_Array [] cap) = - int (item_blocks vs)" unfolding array_gain_def x by simp
  then show ?thesis using free_fold(1) assms x by (simp add: json_array_clear_def array_fits_def)
qed

datatype array_op =
  Arr_Append json_value | Arr_Remove nat | Arr_Replace nat json_value | Arr_Get nat | Arr_Count | Arr_Clear

fun array_step :: "array_op \<Rightarrow> json_array option \<times> jmem \<Rightarrow> (object_answer \<times> json_array option \<times> jmem) option" where
  "array_step (Arr_Append v) (a, m) = do {
     (st, a, m) \<leftarrow> json_array_append_value a (Some v) (caller_makes v m);
     Some (Obj_Status st, a, if st = JSONFailure then json_value_free v m else m)
   }"
| "array_step (Arr_Remove i) (a, m) = (let (st, a, m) = json_array_remove a i m in Some (Obj_Status st, a, m))"
| "array_step (Arr_Replace i v) (a, m) =
     (let (st, a, m) = json_array_replace_value a i (Some v) (caller_makes v m)
      in Some (Obj_Status st, a, if st = JSONFailure then json_value_free v m else m))"
| "array_step (Arr_Get i) (a, m) = Some (Obj_Value (json_array_get_value a i), a, m)"
| "array_step Arr_Count (a, m) = Some (Obj_Number (json_array_get_count a), a, m)"
| "array_step Arr_Clear (a, m) = (let (st, a, m) = json_array_clear a m in Some (Obj_Status st, a, m))"

fun array_spec :: "array_op \<Rightarrow> json_value list \<Rightarrow> object_answer \<Rightarrow> json_value list \<Rightarrow> bool" where
  "array_spec (Arr_Append v) vs r ws \<longleftrightarrow>
     r = Obj_Status JSONSuccess \<and> ws = vs @ [v] \<or> r = Obj_Status JSONFailure \<and> ws = vs"
| "array_spec (Arr_Remove i) vs r ws \<longleftrightarrow>
     (if i < length vs then r = Obj_Status JSONSuccess \<and> ws = butlast (vs[i := last vs])
      else r = Obj_Status JSONFailure \<and> ws = vs)"
| "array_spec (Arr_Replace i v) vs r ws \<longleftrightarrow>
     r = Obj_Status (if i < length vs then JSONSuccess else JSONFailure) \<and> ws = vs[i := v]"
| "array_spec (Arr_Get i) vs r ws \<longleftrightarrow> r = Obj_Value (if i < length vs then Some (vs ! i) else None) \<and> ws = vs"
| "array_spec Arr_Count vs r ws \<longleftrightarrow> r = Obj_Number (length vs) \<and> ws = vs"
| "array_spec Arr_Clear vs r ws \<longleftrightarrow> r = Obj_Status JSONSuccess \<and> ws = []"

definition array_in :: "int \<Rightarrow> nat \<Rightarrow> json_array option \<times> jmem \<Rightarrow> json_value list \<Rightarrow> bool" where
  "array_in h n s vs \<longleftrightarrow>
     (\<exists>x. fst s = Some x \<and> array_fits x \<and> arr_items x = vs \<and> jm_blocks (snd s) = h + int (array_blocks x))"

lemma array_step_refines:
  assumes "array_in h (Suc n) s vs"
  shows "\<exists>r s' ws. array_step op s = Some (r, s') \<and> array_spec op vs r ws \<and> array_in h n s' ws"
proof -
  obtain x m where s: "s = (Some x, m)" and x: "array_fits x" "arr_items x = vs"
    and b: "jm_blocks m = h + int (array_blocks x)" using assms by (cases s) (auto simp: array_in_def)
  have in_after: "array_in h n (Some y, m') (arr_items y)" if "array_fits y" "moved (array_gain x y) m m'" for y m'
    using that b by (simp add: array_in_def moved_def array_gain_def)
  have made: "moved (int (value_blocks v)) m (caller_makes v m)" for v by (simp add: caller_makes_def moved_def)
  show ?thesis
  proof (cases op)
    case (Arr_Append v)
    obtain st y m' where a: "json_array_append_value (Some x) (Some v) (caller_makes v m) = Some (st, Some y, m')" "array_fits y"
      "if st = JSONSuccess then arr_items y = arr_items x @ [v] \<and> moved (array_gain x y - int (value_blocks v)) (caller_makes v m) m'
       else arr_items y = arr_items x \<and> moved (array_gain x y) (caller_makes v m) m'"
      using append_any [OF x(1), of v "caller_makes v m"] by blast
    show ?thesis
    proof (cases st)
      case JSONSuccess
      then have "moved (array_gain x y) m m'" using moved_trans [OF made] a(3) by fastforce
      then show ?thesis using in_after a JSONSuccess x(2) Arr_Append s by force
    next
      case JSONFailure
      then have g: "moved (array_gain x y) (caller_makes v m) m'" using a(3) by simp
      have "moved (int (value_blocks v) + array_gain x y + - int (value_blocks v)) m (json_value_free v m')"
        by (rule moved_trans [OF moved_trans [OF made g] value_free_moved])
      then have "moved (array_gain x y) m (json_value_free v m')" by simp
      then show ?thesis using in_after [OF a(2)] a JSONFailure x(2) Arr_Append s by force
    qed
  next
    case (Arr_Remove i)
    obtain st y m' where a: "json_array_remove (Some x) i m = (st, Some y, m')" "array_fits y" "moved (array_gain x y) m m'"
      "if i < length (arr_items x) then st = JSONSuccess \<and> arr_items y = butlast ((arr_items x)[i := last (arr_items x)])
       else st = JSONFailure \<and> y = x"
      using array_remove_any [OF x(1), of i m] by blast
    then show ?thesis using in_after [OF a(2,3)] x(2) Arr_Remove s by (cases "i < length vs") auto
  next
    case (Arr_Replace i v)
    obtain st y m' where a: "json_array_replace_value (Some x) i (Some v) (caller_makes v m) = (st, Some y, m')" "array_fits y"
      "if i < length (arr_items x)
       then st = JSONSuccess \<and> arr_items y = (arr_items x)[i := v] \<and> moved (array_gain x y - int (value_blocks v)) (caller_makes v m) m'
       else st = JSONFailure \<and> y = x \<and> m' = caller_makes v m"
      using array_replace_any [OF x(1), of i v "caller_makes v m"] by blast
    show ?thesis
    proof (cases "i < length vs")
      case True
      then have "moved (array_gain x y) m m'" using moved_trans [OF made] a(3) x(2) by fastforce
      then show ?thesis using in_after a True x(2) Arr_Replace s by force
    next
      case False
      have "moved (int (value_blocks v) + - int (value_blocks v)) m (json_value_free v (caller_makes v m))"
        by (rule moved_trans [OF made value_free_moved])
      then have "moved (array_gain x y) m (json_value_free v m')" using False a(3) x(2) by simp
      then show ?thesis using in_after [OF a(2)] a False x(2) Arr_Replace s by (auto simp: list_update_beyond)
    qed
  next
    case Arr_Clear
    obtain y m' where a: "json_array_clear (Some x) m = (JSONSuccess, Some y, m')" "array_fits y" "arr_items y = []"
      "moved (array_gain x y) m m'" using array_clear_any [OF x(1)] by blast
    then show ?thesis using in_after [OF a(2,4)] Arr_Clear s by simp
  qed (use in_after [OF x(1), of m] x(2) s in \<open>auto simp: json_array_get_value_def json_array_get_count_def\<close>)
qed

interpretation json_array_adt: relational_refinement array_step array_spec "array_in h" for h
  by unfold_locales (rule array_step_refines)

text \<open>C31: a JSON array is a list: after any sequence of calls, with any allocator, every answer is one the
  list allows (only an append can fail within the bounds, and then changes nothing; a removed item
  is replaced by the last one), and freeing the array gives back exactly the blocks it still has.\<close>

theorem json_array_is_list:
  "case json_value_init_array m of
     (None, m1) \<Rightarrow> jm_blocks m1 = jm_blocks m
   | (Some v, m1) \<Rightarrow>
       \<exists>rs x m' vs. run array_step ops (json_value_get_array (Some v), m1) = Some (rs, Some x, m') \<and>
         spec_runs array_spec ops [] rs vs \<and> arr_items x = vs \<and> length vs \<le> ARRAY_MAX_CAPACITY \<and>
         jm_blocks (json_value_free (V_Array x) m') = jm_blocks m"
proof (cases "json_value_init_array m")
  case (Pair r m1)
  show ?thesis
  proof (cases r)
    case None
    then show ?thesis using Pair
      by (auto simp: json_value_init_array_def json_array_init_def parson_malloc_def parson_free_def split: if_splits prod.splits option.splits)
  next
    case (Some v)
    then have v: "v = V_Array (Json_Array [] 0)" "jm_blocks m1 = jm_blocks m + 2" using Pair
      by (auto simp: json_value_init_array_def json_array_init_def parson_malloc_def split: if_splits)
    have "array_in (jm_blocks m + 1) (length ops + 0) (Some (Json_Array [] 0), m1) []"
      using v(2) by (simp add: array_in_def array_fits_def)
    from json_array_adt.related_run [OF this] obtain rs s' vs where r:
      "run array_step ops (Some (Json_Array [] 0), m1) = Some (rs, s')" "spec_runs array_spec ops [] rs vs"
      "array_in (jm_blocks m + 1) 0 s' vs" by blast
    obtain x m' where s': "s' = (Some x, m')" "arr_items x = vs" "array_fits x" "jm_blocks m' = jm_blocks m + 1 + int (array_blocks x)"
      using r(3) by (cases s') (auto simp: array_in_def)
    have "length vs \<le> ARRAY_MAX_CAPACITY" using s'(2,3) by (auto simp: array_fits_def)
    moreover have "jm_blocks (json_value_free (V_Array x) m') = jm_blocks m"
      using value_free_moved [of "V_Array x" m'] s'(4) by (simp add: moved_def)
    ultimately have "\<exists>rs x m' vs. run array_step ops (Some (Json_Array [] 0), m1) = Some (rs, Some x, m') \<and>
        spec_runs array_spec ops [] rs vs \<and> arr_items x = vs \<and> length vs \<le> ARRAY_MAX_CAPACITY \<and>
        jm_blocks (json_value_free (V_Array x) m') = jm_blocks m"
      using r(1,2) s'(1,2) by blast
    then show ?thesis using Pair Some v(1) by (simp add: json_value_get_array_def)
  qed
qed

end
