(* ===== verification/JsonPath.thy ===== *)
theory JsonPath
  imports JsonObject JsonSerialize
begin

text \<open>
  Names with dots in the JSON library \<open>cplusplus/jsonbenchmark/parson.c\<close>: a name is a path through
  nested objects, and the functions that read, set and remove along a path fit together.
\<close>

section \<open>Paths\<close>

text \<open>Names that part ways at some component.\<close>

function apart :: "string \<Rightarrow> string \<Rightarrow> bool" where
  "apart a b \<longleftrightarrow>
     (case (dot_position a, dot_position b) of
        (None, None) \<Rightarrow> a \<noteq> b
      | (Some i, None) \<Rightarrow> take i a \<noteq> b
      | (None, Some j) \<Rightarrow> a \<noteq> take j b
      | (Some i, Some j) \<Rightarrow> take i a \<noteq> take j b \<or> apart (drop (i + 1) a) (drop (j + 1) b))"
  by pat_completeness auto
termination
proof (relation "measure (\<lambda>(a, b). length a)", goal_cases)
  case (2 a b x y i j)
  then have "i < length a" using dot_position_less [of a i] by simp
  then show ?case by simp
qed simp

text \<open>A value whose arrays and objects are all in a state the operations accept.\<close>

fun deep_fits :: "json_value \<Rightarrow> bool" where
  "deep_fits (V_Object (Json_Object ms cap)) \<longleftrightarrow> object_fits (Json_Object ms cap) \<and> (\<forall>(k, v) \<in> set ms. deep_fits v)"
| "deep_fits (V_Array (Json_Array vs cap)) \<longleftrightarrow> array_fits (Json_Array vs cap) \<and> (\<forall>v \<in> set vs. deep_fits v)"
| "deep_fits _ \<longleftrightarrow> True"

declare apart.simps [simp del]

lemma deep_fits_object: "deep_fits (V_Object x) \<longleftrightarrow> object_fits x \<and> (\<forall>p \<in> set (obj_members x). deep_fits (snd p))"
  by (cases x) (auto simp: split_beta)

lemma deep_fits_member: "deep_fits (V_Object x) \<Longrightarrow> map_of (obj_members x) k = Some w \<Longrightarrow> deep_fits w"
  unfolding deep_fits_object by (metis map_of_SomeD snd_conv)

lemma nget_map_of: "n \<le> length name \<Longrightarrow> json_object_nget_value (Some x) name n = map_of (obj_members x) (take n name)"
proof -
  assume n: "n \<le> length name"
  have "find_member ms name n = find_member ms (take n name) (length (take n name))" for ms
    using n by (induction ms name n rule: find_member.induct) auto
  from this [of "obj_members x"] find_member_map_of [of "obj_members x" "take n name"]
  show ?thesis by (simp only: json_object_nget_value_def option.case)
qed

lemma dotget_plain: "dot_position name = None \<Longrightarrow> json_object_dotget_value (Some x) name = map_of (obj_members x) name"
  by (simp add: json_object_dotget_value.simps)

lemma dotget_dot: "dot_position name = Some n \<Longrightarrow> json_object_dotget_value (Some x) name =
    json_object_dotget_value (json_value_get_object (map_of (obj_members x) (take n name))) (drop (n + 1) name)"
  using dot_position_less [of name n] by (simp add: json_object_dotget_value.simps [of "Some x"] nget_map_of)

lemma get_object_simps [simp]:
  "json_value_get_object None = None" "json_value_get_object (Some (V_Object x)) = Some x"
  by (simp_all add: json_value_get_object_def)

lemma get_object_some: "json_value_get_object w = Some x \<longleftrightarrow> w = Some (V_Object x)"
  by (auto simp: json_value_get_object_def split: option.splits json_value.splits)

lemma dotget_none: "json_object_dotget_value None name = None"
proof (induction "length name" arbitrary: name rule: less_induct)
  case less
  show ?case
  proof (cases "dot_position name")
    case None
    then show ?thesis by (simp add: json_object_dotget_value.simps json_object_get_value_def)
  next
    case (Some n)
    then have "length (drop (n + 1) name) < length name" using dot_position_less [OF Some] by simp
    from less [OF this] show ?thesis using Some by (simp add: json_object_dotget_value.simps [of None name] json_object_nget_value_def)
  qed
qed

lemma dotget_empty: "obj_members x = [] \<Longrightarrow> json_object_dotget_value (Some x) name = None"
  by (cases "dot_position name") (simp_all add: dotget_plain dotget_dot dotget_none)

section \<open>One object below another\<close>

lemma put_object_ok:
  assumes x: "object_fits x" and head: "map_of (obj_members x) k = Some (V_Object sub)"
  shows "object_fits (put_object x k (Some sub'))"
    "map_of (obj_members (put_object x k (Some sub'))) = (map_of (obj_members x))(k \<mapsto> V_Object sub')"
    "set (obj_members (put_object x k (Some sub'))) \<subseteq> insert (k, V_Object sub') (set (obj_members x))"
    "object_gain x (put_object x k (Some sub')) = object_gain sub sub'"
proof -
  obtain ms cap where xs: "x = Json_Object ms cap" by (cases x)
  obtain ns where ns: "put_member ms k (V_Object sub') = Some ns"
    using put_member_none [of ms k "V_Object sub'"] head xs by fastforce
  from put_member_some [OF ns] have p: "map fst ns = map fst ms" "map_of ns = (map_of ms)(k \<mapsto> V_Object sub')"
    "set ns \<subseteq> insert (k, V_Object sub') (set ms)"
    "member_blocks ns + value_blocks (V_Object sub) = member_blocks ms + value_blocks (V_Object sub')"
    using head xs by auto
  have y: "put_object (Json_Object ms cap) k (Some sub') = Json_Object ns cap" using ns by (simp add: put_object_def)
  have "length ns = length ms" using p(1) map_eq_imp_length_eq by blast
  then show "object_fits (put_object x k (Some sub'))" using x p(1) unfolding y xs by (simp add: object_fits_def)
  show "map_of (obj_members (put_object x k (Some sub'))) = (map_of (obj_members x))(k \<mapsto> V_Object sub')"
    "set (obj_members (put_object x k (Some sub'))) \<subseteq> insert (k, V_Object sub') (set (obj_members x))"
    using p(2,3) unfolding y xs by simp_all
  show "object_gain x (put_object x k (Some sub')) = object_gain sub sub'"
    using p(4) unfolding y xs object_gain_def blocks_cells by simp
qed

lemma put_member_same: "map_of ms k = Some v \<Longrightarrow> put_member ms k v = Some ms"
  by (induction ms) auto

lemma put_object_same: "map_of (obj_members x) k = Some (V_Object sub) \<Longrightarrow> put_object x k (Some sub) = x"
  by (cases x) (simp add: put_object_def put_member_same)

lemma put_object_deep:
  assumes "deep_fits (V_Object x)" "map_of (obj_members x) k = Some (V_Object sub)" "deep_fits (V_Object sub')"
  shows "deep_fits (V_Object (put_object x k (Some sub')))"
proof -
  have x: "object_fits x" "\<forall>p \<in> set (obj_members x). deep_fits (snd p)" using assms(1) deep_fits_object by blast+
  note p = put_object_ok(1,3) [OF x(1) assms(2), of sub']
  have "deep_fits (snd q)" if "q \<in> set (obj_members (put_object x k (Some sub')))" for q
    using that p(2) x(2) assms(3) by auto
  then show ?thesis using p(1) deep_fits_object by blast
qed

text \<open>What a change below the first component leaves alone.\<close>

lemma apart_below:
  assumes dot: "dot_position name = Some n"
    and y: "map_of (obj_members y) = (map_of (obj_members x))(take n name \<mapsto> V_Object sub')"
    and sub: "\<And>t. apart (drop (n + 1) name) t \<Longrightarrow> json_object_dotget_value (Some sub') t =
      json_object_dotget_value (json_value_get_object (map_of (obj_members x) (take n name))) t"
    and a: "apart name name'"
  shows "json_object_dotget_value (Some y) name' = json_object_dotget_value (Some x) name'"
proof (cases "dot_position name'")
  case None
  then show ?thesis using a dot y by (simp add: apart.simps [of name] dotget_plain)
next
  case (Some j)
  then have "take n name \<noteq> take j name' \<or> apart (drop (n + 1) name) (drop (j + 1) name')"
    using a dot by (simp add: apart.simps [of name])
  then show ?thesis
  proof (cases "take n name = take j name'")
    case True
    then have "apart (drop (n + 1) name) (drop (j + 1) name')" using a dot Some by (simp add: apart.simps [of name])
    then show ?thesis using sub y Some True by (simp add: dotget_dot)
  next
    case False
    then show ?thesis using y Some by (simp add: dotget_dot)
  qed
qed

lemma apart_plain:
  assumes "dot_position name = None" "map_of (obj_members y) = (map_of (obj_members x))(name := w)" "apart name name'"
  shows "json_object_dotget_value (Some y) name' = json_object_dotget_value (Some x) name'"
  using assms by (cases "dot_position name'") (auto simp: apart.simps [of name] dotget_plain dotget_dot)

section \<open>Setting along a path\<close>

text \<open>What \<open>json_object_dotset_value\<close> does to an object, with any allocator.\<close>

definition path_set :: "string \<Rightarrow> json_value \<Rightarrow> json_object \<Rightarrow> jmem \<Rightarrow> json_status \<Rightarrow> json_object \<Rightarrow> jmem \<Rightarrow> bool" where
  "path_set name v x m st y m' \<longleftrightarrow>
     deep_fits (V_Object y) \<and>
     (\<forall>t. apart name t \<longrightarrow> json_object_dotget_value (Some y) t = json_object_dotget_value (Some x) t) \<and>
     json_object_dotget_value (Some y) name = (if st = JSONSuccess then Some v else json_object_dotget_value (Some x) name) \<and>
     moved (object_gain x y - (if st = JSONSuccess then int (value_blocks v) else 0)) m m'"

lemma path_set_same: "deep_fits (V_Object x) \<Longrightarrow> moved 0 m m' \<Longrightarrow> path_set name v x m JSONFailure x m'"
  by (simp add: path_set_def)

lemma path_set_plain:
  assumes x: "deep_fits (V_Object x)" and v: "deep_fits v" and dot: "dot_position name = None"
  shows "\<exists>st y m'. json_object_set_value (Some x) (Some name) (Some v) m = Some (st, Some y, m') \<and> path_set name v x m st y m'"
proof -
  have fits: "object_fits x" "\<forall>p \<in> set (obj_members x). deep_fits (snd p)" using x deep_fits_object by blast+
  obtain st y m' where s: "json_object_set_value (Some x) (Some name) (Some v) m = Some (st, Some y, m')" "object_fits y"
    "set (obj_members y) \<subseteq> insert (name, v) (set (obj_members x))"
    "if st = JSONSuccess
     then map_of (obj_members y) = (map_of (obj_members x))(name \<mapsto> v) \<and> moved (object_gain x y - int (value_blocks v)) m m'
     else map_of (obj_members x) name = None \<and> obj_members y = obj_members x \<and> moved (object_gain x y) m m'"
    using set_value_any [OF fits(1), of name v m] by blast
  have deep: "deep_fits (V_Object y)" using s(2,3) fits(2) v unfolding deep_fits_object by auto
  have "path_set name v x m st y m'"
  proof (cases st)
    case JSONSuccess
    then show ?thesis using s(4) deep dot apart_plain [OF dot, of y x "Some v"] by (simp add: path_set_def dotget_plain)
  next
    case JSONFailure
    then have "map_of (obj_members y) = (map_of (obj_members x))(name := map_of (obj_members x) name)"
      using s(4) by (simp add: fun_upd_idem)
    then show ?thesis using JSONFailure s(4) deep dot apart_plain [OF dot, of y x "map_of (obj_members x) name"]
      by (simp add: path_set_def dotget_plain)
  qed
  then show ?thesis using s(1) by blast
qed

text \<open>A change of the object below the first component is a change of the whole.\<close>

lemma path_set_below:
  assumes dot: "dot_position name = Some n" and x: "deep_fits (V_Object x)"
    and head: "map_of (obj_members x) (take n name) = Some (V_Object sub)"
    and sub: "path_set (drop (n + 1) name) v sub m st sub' m'"
  shows "path_set name v x m st (put_object x (take n name) (Some sub')) m'"
proof -
  let ?y = "put_object x (take n name) (Some sub')"
  have fits: "object_fits x" using x deep_fits_object by blast
  note p = put_object_ok [OF fits head, of sub']
  have d: "deep_fits (V_Object sub')" "\<And>t. apart (drop (n + 1) name) t \<Longrightarrow>
      json_object_dotget_value (Some sub') t = json_object_dotget_value (Some sub) t"
    "json_object_dotget_value (Some sub') (drop (n + 1) name) =
      (if st = JSONSuccess then Some v else json_object_dotget_value (Some sub) (drop (n + 1) name))"
    "moved (object_gain sub sub' - (if st = JSONSuccess then int (value_blocks v) else 0)) m m'"
    using sub unfolding path_set_def by blast+
  have "json_object_dotget_value (Some ?y) t = json_object_dotget_value (Some x) t" if "apart name t" for t
    by (rule apart_below [OF dot p(2) _ that]) (use d(2) head in simp)
  moreover have "json_object_dotget_value (Some ?y) name =
      (if st = JSONSuccess then Some v else json_object_dotget_value (Some x) name)"
    using d(3) head p(2) by (simp add: dotget_dot [OF dot])
  ultimately show ?thesis using put_object_deep [OF x head d(1)] p(4) d(4) unfolding path_set_def by simp
qed

lemma strndup_any: "\<exists>m'. parson_strndup s n m = (Some (take n s), m') \<and> moved 1 m m' \<or> parson_strndup s n m = (None, m') \<and> moved 0 m m'"
  by (auto simp: parson_strndup_def parson_malloc_def moved_def)

lemma init_object_any: "\<exists>m'. json_value_init_object m = (Some (V_Object (Json_Object [] 0)), m') \<and> moved 2 m m' \<or>
    json_value_init_object m = (None, m') \<and> moved 0 m m'"
  by (auto simp: json_value_init_object_def json_object_init_def parson_malloc_def parson_free_def moved_def)

text \<open>A new empty object below a new name.\<close>

lemma add_object_deep:
  assumes x: "deep_fits (V_Object x)" and a: "json_object_add x (Some k) (Some (V_Object (Json_Object [] 0))) m = Some (st, y, m')"
  shows "deep_fits (V_Object y) \<and>
    (if st = JSONSuccess
     then map_of (obj_members x) k = None \<and> map_of (obj_members y) = (map_of (obj_members x))(k \<mapsto> V_Object (Json_Object [] 0)) \<and>
       moved (object_gain x y - 2) m m'
     else obj_members y = obj_members x \<and> moved (object_gain x y) m m')"
proof -
  let ?e = "V_Object (Json_Object [] 0)"
  have fits: "object_fits x" "\<forall>p \<in> set (obj_members x). deep_fits (snd p)" using x deep_fits_object by blast+
  have r: "object_fits y" "if st = JSONSuccess
     then map_of (obj_members x) k = None \<and> obj_members y = obj_members x @ [(k, ?e)] \<and> moved (object_gain x y - int (value_blocks ?e)) m m'
     else obj_members y = obj_members x \<and> moved (object_gain x y) m m'"
    using object_add_fits [OF fits(1), of k ?e m] a by auto
  have "deep_fits ?e" by (simp add: object_fits_def)
  then have "deep_fits (V_Object y)" using r fits(2) unfolding deep_fits_object by (auto split: if_splits)
  moreover have "map_of (obj_members x @ [(k, ?e)]) = (map_of (obj_members x))(k \<mapsto> ?e)" if "map_of (obj_members x) k = None"
    using that by (auto simp: fun_eq_iff map_add_def split: option.split)
  ultimately show ?thesis using r(2) by (simp split: if_splits)
qed

lemma moved_0_eq: "moved a m m1 \<Longrightarrow> moved b m1 m2 \<Longrightarrow> a + b = c \<Longrightarrow> moved c m m2"
  using moved_trans by blast

lemma dotset_new_object:
  assumes dot: "dot_position name = Some n" and x: "deep_fits (V_Object x)"
    and name: "parson_strndup name n m = (Some (take n name), m1)" "moved 1 m m1"
    and no_sub: "json_value_get_object (map_of (obj_members x) (take n name)) = None"
    and i: "json_value_init_object m1 = (Some (V_Object (Json_Object [] 0)), m2)" "moved 2 m1 m2"
    and rec: "\<And>sub m. deep_fits (V_Object sub) \<Longrightarrow> \<exists>st sub' m'. dotset (Some sub) (drop (n + 1) name) v m = Some (st, Some sub', m') \<and>
      path_set (drop (n + 1) name) v sub m st sub' m'"
  shows "\<exists>st y m'. dotset (Some x) name v m = Some (st, Some y, m') \<and> path_set name v x m st y m'"
proof -
  let ?k = "take n name" and ?t = "drop (n + 1) name" and ?e = "Json_Object [] 0"
  have get: "json_object_get_object (Some z) (Some ?k) = json_value_get_object (map_of (obj_members z) ?k)" for z
    by (simp add: json_object_get_object_def)
  have free: "moved (- 1) m2 (parson_free 1 m2)" for m2 using free_moved [of 1 m2] by simp
  have fits: "object_fits x" using x deep_fits_object by blast
  obtain st y m3 where a: "json_object_add x (Some ?k) (Some (V_Object ?e)) m2 = Some (st, y, m3)"
    using object_add_fits [OF fits] by blast
  note y = add_object_deep [OF x a]
  show ?thesis
  proof (cases st)
    case JSONFailure
    let ?m = "parson_free 1 (json_value_free (V_Object ?e) m3)"
    have r: "dotset (Some x) name v m = Some (JSONFailure, Some y, ?m)"
      using dot name(1) get no_sub i(1) a JSONFailure by (subst dotset.simps) (simp add: blocks_of_def)
    have g: "moved (object_gain x y) m2 m3" "obj_members y = obj_members x" using y JSONFailure by simp_all
    have "moved (1 + 2 + object_gain x y + - int (value_blocks (V_Object ?e)) + - 1) m ?m"
      by (rule moved_trans [OF moved_trans [OF moved_trans [OF moved_trans [OF name(2) i(2)] g(1)] value_free_moved] free])
    moreover have "json_object_dotget_value (Some y) t = json_object_dotget_value (Some x) t" for t
      using g(2) by (cases "dot_position t") (simp_all add: dotget_plain dotget_dot)
    ultimately have "path_set name v x m JSONFailure y ?m" using y by (simp add: path_set_def)
    then show ?thesis using r by blast
  next
    case JSONSuccess
    have g: "map_of (obj_members x) ?k = None" "map_of (obj_members y) = (map_of (obj_members x))(?k \<mapsto> V_Object ?e)"
      "moved (object_gain x y - 2) m2 m3" "deep_fits (V_Object y)" using y JSONSuccess by simp_all
    have m: "moved (object_gain x y) m (parson_free 1 m3)"
    proof -
      have "moved (1 + 2 + (object_gain x y - 2) + - 1) m (parson_free 1 m3)"
        by (rule moved_trans [OF moved_trans [OF moved_trans [OF name(2) i(2)] g(3)] free])
      then show ?thesis by simp
    qed
    have head: "map_of (obj_members y) ?k = Some (V_Object ?e)" using g(2) by simp
    have "deep_fits (V_Object ?e)" by (simp add: object_fits_def)
    then obtain st' sub' m' where r: "dotset (Some ?e) ?t v (parson_free 1 m3) = Some (st', Some sub', m')"
      "path_set ?t v ?e (parson_free 1 m3) st' sub' m'" using rec by blast
    let ?y = "put_object y ?k (Some sub')"
    have run: "dotset (Some x) name v m = Some (st', Some ?y, m')"
      using dot name(1) get no_sub i(1) a JSONSuccess head r(1) by (subst dotset.simps) (simp add: blocks_of_def Let_def)
    from path_set_below [OF dot g(4) head r(2)] have below: "path_set name v y (parson_free 1 m3) st' ?y m'" .
    have same: "json_object_dotget_value (Some y) t = json_object_dotget_value (Some x) t" if t: "apart name t \<or> t = name" for t
    proof (cases "dot_position t")
      case None
      then have "t \<noteq> ?k" using t dot by (auto simp: apart.simps [of name t])
      then show ?thesis using None g(2) by (simp add: dotget_plain)
    next
      case (Some j)
      then show ?thesis using g(1,2) by (cases "take j t = ?k") (simp_all add: dotget_dot dotget_none dotget_empty)
    qed
    have d: "deep_fits (V_Object ?y)" "\<And>t. apart name t \<Longrightarrow> json_object_dotget_value (Some ?y) t = json_object_dotget_value (Some y) t"
      "json_object_dotget_value (Some ?y) name = (if st' = JSONSuccess then Some v else json_object_dotget_value (Some y) name)"
      "moved (object_gain y ?y - (if st' = JSONSuccess then int (value_blocks v) else 0)) (parson_free 1 m3) m'"
      using below unfolding path_set_def by blast+
    have "moved (object_gain x ?y - (if st' = JSONSuccess then int (value_blocks v) else 0)) m m'"
      by (rule moved_same [OF moved_trans [OF m d(4)]]) (simp add: object_gain_def)
    then have "path_set name v x m st' ?y m'" using d(1-3) same unfolding path_set_def by simp
    then show ?thesis using run by blast
  qed
qed

lemma dotset_ok:
  "deep_fits (V_Object x) \<Longrightarrow> deep_fits v \<Longrightarrow> \<exists>st y m'. dotset (Some x) name v m = Some (st, Some y, m') \<and> path_set name v x m st y m'"
proof (induction "length name" arbitrary: name x m rule: less_induct)
  case less
  note x = less.prems(1)
  show ?case
  proof (cases "dot_position name")
    case None
    then show ?thesis using path_set_plain [OF less.prems None] by (simp add: dotset.simps)
  next
    case (Some n)
    let ?k = "take n name" and ?t = "drop (n + 1) name"
    have shorter: "length ?t < length name" using dot_position_less [OF Some] by simp
    obtain m1 where d: "parson_strndup name n m = (Some ?k, m1) \<and> moved 1 m m1 \<or> parson_strndup name n m = (None, m1) \<and> moved 0 m m1"
      using strndup_any by blast
    then consider (name) "parson_strndup name n m = (Some ?k, m1)" "moved 1 m m1"
      | (no_name) "parson_strndup name n m = (None, m1)" "moved 0 m m1" by blast
    then show ?thesis
    proof cases
      case no_name
      have get: "json_object_get_object (Some x) None = None" by (simp add: json_object_get_object_def json_object_get_value_def)
      obtain m2 where "json_value_init_object m1 = (Some (V_Object (Json_Object [] 0)), m2) \<and> moved 2 m1 m2 \<or>
        json_value_init_object m1 = (None, m2) \<and> moved 0 m1 m2" using init_object_any by blast
      then show ?thesis
      proof (elim disjE conjE)
        assume i: "json_value_init_object m1 = (Some (V_Object (Json_Object [] 0)), m2)" "moved 2 m1 m2"
        have "moved 0 m (json_value_free (V_Object (Json_Object [] 0)) m2)"
          using moved_trans [OF moved_trans [OF no_name(2) i(2)] value_free_moved, of "V_Object (Json_Object [] 0)"] by simp
        moreover have "dotset (Some x) name v m = Some (JSONFailure, Some x, json_value_free (V_Object (Json_Object [] 0)) m2)"
          using Some no_name(1) get i(1) by (subst dotset.simps) (simp add: json_object_add_def blocks_of_def)
        ultimately show ?thesis using path_set_same [OF x] by blast
      next
        assume i: "json_value_init_object m1 = (None, m2)" "moved 0 m1 m2"
        have "moved 0 m m2" using moved_trans [OF no_name(2) i(2)] by simp
        moreover have "dotset (Some x) name v m = Some (JSONFailure, Some x, m2)"
          using Some no_name(1) get i(1) by (subst dotset.simps) (simp add: blocks_of_def)
        ultimately show ?thesis using path_set_same [OF x] by blast
      qed
    next
      case name
      have get: "json_object_get_object (Some z) (Some ?k) = json_value_get_object (map_of (obj_members z) ?k)" for z
        by (simp add: json_object_get_object_def)
      have free: "moved (- 1) m2 (parson_free 1 m2)" for m2 using free_moved [of 1 m2] by simp
      show ?thesis
      proof (cases "json_value_get_object (map_of (obj_members x) ?k)")
        case sub: (Some sub)
        then have head: "map_of (obj_members x) ?k = Some (V_Object sub)" using get_object_some by blast
        have m: "moved 0 m (parson_free 1 m1)" using moved_trans [OF name(2) free] by simp
        obtain st sub' m' where r: "dotset (Some sub) ?t v (parson_free 1 m1) = Some (st, Some sub', m')"
          "path_set ?t v sub (parson_free 1 m1) st sub' m'"
          using less.hyps [OF shorter deep_fits_member [OF x head] less.prems(2)] by blast
        have "dotset (Some x) name v m = Some (st, Some (put_object x ?k (Some sub')), m')"
          using Some name(1) get sub r(1) by (subst dotset.simps) (simp add: blocks_of_def Let_def)
        moreover have "path_set ?t v sub m st sub' m'" using r(2) moved_trans [OF m] unfolding path_set_def by fastforce
        ultimately show ?thesis using path_set_below [OF Some x head] by blast
      next
        case no_sub: None
        obtain m2 where "json_value_init_object m1 = (Some (V_Object (Json_Object [] 0)), m2) \<and> moved 2 m1 m2 \<or>
          json_value_init_object m1 = (None, m2) \<and> moved 0 m1 m2" using init_object_any by blast
        then show ?thesis
        proof (elim disjE conjE)
          assume i: "json_value_init_object m1 = (None, m2)" "moved 0 m1 m2"
          have "moved 0 m (parson_free 1 m2)" using moved_trans [OF moved_trans [OF name(2) i(2)] free] by simp
          moreover have "dotset (Some x) name v m = Some (JSONFailure, Some x, parson_free 1 m2)"
            using Some name(1) get no_sub i(1) by (subst dotset.simps) (simp add: blocks_of_def)
          ultimately show ?thesis using path_set_same [OF x] by blast
        next
          assume i: "json_value_init_object m1 = (Some (V_Object (Json_Object [] 0)), m2)" "moved 2 m1 m2"
          show ?thesis using dotset_new_object [OF Some x name no_sub i less.hyps [OF shorter _ less.prems(2)]] .
        qed
      qed
    qed
  qed
qed

text \<open>C32: setting a number along a path of names either succeeds, and then it is found under the same
  path, or leaves what is there; every path that parts ways with it keeps its value, and in every
  case, whatever the allocator answers, the memory in use is the memory of the object.\<close>

theorem json_dotset_dotget:
  assumes "deep_fits (V_Object x)"
  shows "\<exists>st y m'. json_object_dotset_number (Some x) (Some name) d m = Some (st, Some y, m') \<and>
    deep_fits (V_Object y) \<and>
    json_object_dotget_value (Some y) name =
      (if st = JSONSuccess then Some (V_Number d) else json_object_dotget_value (Some x) name) \<and>
    (\<forall>t. apart name t \<longrightarrow> json_object_dotget_value (Some y) t = json_object_dotget_value (Some x) t) \<and>
    jm_blocks m' - int (object_blocks y) = jm_blocks m - int (object_blocks x)"
proof -
  let ?v = "V_Number d"
  have "\<exists>m1. json_value_init_number d m = (Some ?v, m1) \<and> moved 1 m m1 \<or> json_value_init_number d m = (None, m1) \<and> moved 0 m m1"
    by (auto simp: json_value_init_number_def parson_malloc_def moved_def)
  then obtain m1 where "json_value_init_number d m = (Some ?v, m1) \<and> moved 1 m m1 \<or> json_value_init_number d m = (None, m1) \<and> moved 0 m m1"
    by blast
  then show ?thesis
  proof (elim disjE conjE)
    assume "json_value_init_number d m = (None, m1)" "moved 0 m m1"
    then show ?thesis using assms by (simp add: json_object_dotset_number_def dotset_new_def moved_def)
  next
    assume i: "json_value_init_number d m = (Some ?v, m1)" "moved 1 m m1"
    obtain st y m2 where s: "dotset (Some x) name ?v m1 = Some (st, Some y, m2)" "path_set name ?v x m1 st y m2"
      using dotset_ok [OF assms, of ?v name m1] by auto
    let ?m = "if st = JSONFailure then json_value_free ?v m2 else m2"
    have r: "json_object_dotset_number (Some x) (Some name) d m = Some (st, Some y, ?m)"
      using i(1) s(1) by (cases st) (simp_all add: json_object_dotset_number_def dotset_new_def json_object_dotset_value_def)
    have p: "deep_fits (V_Object y)" "json_object_dotget_value (Some y) name =
        (if st = JSONSuccess then Some ?v else json_object_dotget_value (Some x) name)"
      "\<forall>t. apart name t \<longrightarrow> json_object_dotget_value (Some y) t = json_object_dotget_value (Some x) t"
      "moved (object_gain x y - (if st = JSONSuccess then 1 else 0)) m1 m2"
      using s(2) unfolding path_set_def value_blocks_simps of_nat_1 by blast+
    have "moved (if st = JSONSuccess then object_gain x y else object_gain x y + 1) m m2"
      by (rule moved_same [OF moved_trans [OF i(2) p(4)]]) simp
    then have "jm_blocks ?m - int (object_blocks y) = jm_blocks m - int (object_blocks x)"
      using value_free_moved [of ?v m2] by (cases st) (simp_all add: moved_def object_gain_def)
    then show ?thesis using r p(1-3) by blast
  qed
qed

definition small_object :: json_object where
  "small_object = Json_Object [(''a'', V_Object (Json_Object [(''b'', V_Null)] 15)), (''c'', V_Boolean 1)] 15"

theorem json_dotset_dotget_witness:
  "\<exists>st y m'. json_object_dotset_number (Some small_object) (Some ''a.x.y'') (Finite 3) (fresh_mem (\<lambda>_. True)) = Some (st, Some y, m') \<and>
    deep_fits (V_Object y) \<and>
    json_object_dotget_value (Some y) ''a.x.y'' =
      (if st = JSONSuccess then Some (V_Number (Finite 3)) else json_object_dotget_value (Some small_object) ''a.x.y'') \<and>
    (\<forall>t. apart ''a.x.y'' t \<longrightarrow> json_object_dotget_value (Some y) t = json_object_dotget_value (Some small_object) t) \<and>
    jm_blocks m' - int (object_blocks y) = jm_blocks (fresh_mem (\<lambda>_. True)) - int (object_blocks small_object)"
  by (rule json_dotset_dotget) (simp add: small_object_def object_fits_def OBJECT_MAX_CAPACITY_def)

section \<open>Removing along a path\<close>

definition path_removed :: "string \<Rightarrow> json_object \<Rightarrow> jmem \<Rightarrow> json_status \<Rightarrow> json_object \<Rightarrow> jmem \<Rightarrow> bool" where
  "path_removed name x m st y m' \<longleftrightarrow>
     deep_fits (V_Object y) \<and>
     (\<forall>t. apart name t \<longrightarrow> json_object_dotget_value (Some y) t = json_object_dotget_value (Some x) t) \<and>
     (if st = JSONSuccess
      then json_object_dotget_value (Some x) name \<noteq> None \<and> json_object_dotget_value (Some y) name = None
      else y = x) \<and>
     moved (object_gain x y) m m'"

lemma dotremove_ok:
  "deep_fits (V_Object x) \<Longrightarrow> \<exists>st y m'. json_object_dotremove (Some x) name m = (st, Some y, m') \<and> path_removed name x m st y m'"
proof (induction "length name" arbitrary: name x m rule: less_induct)
  case less
  note x = less.prems
  have fits: "object_fits x" "\<forall>p \<in> set (obj_members x). deep_fits (snd p)" using x deep_fits_object by blast+
  show ?case
  proof (cases "dot_position name")
    case None
    obtain st y m' where r: "json_object_remove (Some x) (Some name) m = (st, Some y, m')" "object_fits y"
      "set (obj_members y) \<subseteq> set (obj_members x)" "map_of (obj_members y) = (map_of (obj_members x))(name := None)"
      "st = JSONSuccess \<longleftrightarrow> map_of (obj_members x) name \<noteq> None" "st = JSONFailure \<longrightarrow> y = x" "moved (object_gain x y) m m'"
      using remove_any [OF fits(1), of name m] by blast
    have "deep_fits (V_Object y)" using r(2,3) fits(2) unfolding deep_fits_object by auto
    then have "path_removed name x m st y m'" using r(4-7) apart_plain [OF None r(4)]
      by (cases st) (simp_all add: path_removed_def dotget_plain [OF None])
    then show ?thesis using r(1) None by (simp add: json_object_dotremove.simps)
  next
    case (Some n)
    let ?k = "take n name" and ?t = "drop (n + 1) name"
    have shorter: "length ?t < length name" using dot_position_less [OF Some] by simp
    have free: "moved (- 1) m2 (parson_free 1 m2)" for m2 using free_moved [of 1 m2] by simp
    have none: "json_object_get_object (Some x) None = None" by (simp add: json_object_get_object_def json_object_get_value_def)
    obtain m1 where d: "parson_strndup name n m = (Some ?k, m1) \<and> moved 1 m m1 \<or> parson_strndup name n m = (None, m1) \<and> moved 0 m m1"
      using strndup_any by blast
    show ?thesis
    proof (cases "fst (parson_strndup name n m) = None \<or> json_value_get_object (map_of (obj_members x) ?k) = None")
      case True
      then have "\<exists>m'. json_object_dotremove (Some x) name m = (JSONFailure, Some x, m') \<and> moved 0 m m'"
        using d Some none moved_trans [OF _ free, of 1 m m1]
        by (subst json_object_dotremove.simps) (auto simp: json_object_get_object_def blocks_of_def Let_def)
      then show ?thesis using x by (auto simp: path_removed_def)
    next
      case False
      then have name: "parson_strndup name n m = (Some ?k, m1)" "moved 1 m m1" using d by auto
      obtain sub where sub: "json_value_get_object (map_of (obj_members x) ?k) = Some sub" using False by blast
      then have head: "map_of (obj_members x) ?k = Some (V_Object sub)" using get_object_some by blast
      have m: "moved 0 m (parson_free 1 m1)" using moved_trans [OF name(2) free] by simp
      obtain st sub' m' where r: "json_object_dotremove (Some sub) ?t (parson_free 1 m1) = (st, Some sub', m')"
        "path_removed ?t sub (parson_free 1 m1) st sub' m'"
        using less.hyps [OF shorter deep_fits_member [OF x head]] by blast
      let ?y = "put_object x ?k (Some sub')"
      have run: "json_object_dotremove (Some x) name m = (st, Some ?y, m')"
        using Some name(1) sub r(1) by (subst json_object_dotremove.simps) (simp add: json_object_get_object_def blocks_of_def Let_def)
      note p = put_object_ok [OF fits(1) head, of sub']
      have q: "deep_fits (V_Object sub')" "\<And>t. apart ?t t \<Longrightarrow> json_object_dotget_value (Some sub') t = json_object_dotget_value (Some sub) t"
        "if st = JSONSuccess then json_object_dotget_value (Some sub) ?t \<noteq> None \<and> json_object_dotget_value (Some sub') ?t = None
         else sub' = sub"
        "moved (object_gain sub sub') (parson_free 1 m1) m'" using r(2) unfolding path_removed_def by blast+
      have "json_object_dotget_value (Some ?y) t = json_object_dotget_value (Some x) t" if "apart name t" for t
        by (rule apart_below [OF Some p(2) _ that]) (use q(2) head in simp)
      moreover have "?y = x" if "sub' = sub" using put_object_same [OF head] that by simp
      moreover have "moved (object_gain x ?y) m m'" using moved_trans [OF m q(4)] p(4) by simp
      ultimately have "path_removed name x m st ?y m'"
        using put_object_deep [OF x head q(1)] q(3) head p(2) by (cases st) (simp_all add: path_removed_def dotget_dot [OF Some])
      then show ?thesis using run by blast
    qed
  qed
qed

text \<open>C: removing along a path takes away exactly what is found there, and says so; a failure changes
  nothing, every path that parts ways with it keeps its value, and the blocks of what is removed,
  and only those, are given back.\<close>

theorem json_dotremove_removes:
  assumes "deep_fits (V_Object x)"
  shows "\<exists>st y m'. json_object_dotremove (Some x) name m = (st, Some y, m') \<and>
    (if st = JSONSuccess
     then json_object_dotget_value (Some x) name \<noteq> None \<and> json_object_dotget_value (Some y) name = None
     else y = x) \<and>
    (\<forall>t. apart name t \<longrightarrow> json_object_dotget_value (Some y) t = json_object_dotget_value (Some x) t) \<and>
    jm_blocks m' - int (object_blocks y) = jm_blocks m - int (object_blocks x)"
  using dotremove_ok [OF assms, of name m] unfolding path_removed_def moved_def object_gain_def by fastforce

theorem json_dotremove_removes_witness:
  "\<exists>st y m'. json_object_dotremove (Some small_object) ''a.b'' (fresh_mem (\<lambda>_. True)) = (st, Some y, m') \<and>
    (if st = JSONSuccess
     then json_object_dotget_value (Some small_object) ''a.b'' \<noteq> None \<and> json_object_dotget_value (Some y) ''a.b'' = None
     else y = small_object) \<and>
    (\<forall>t. apart ''a.b'' t \<longrightarrow> json_object_dotget_value (Some y) t = json_object_dotget_value (Some small_object) t) \<and>
    jm_blocks m' - int (object_blocks y) = jm_blocks (fresh_mem (\<lambda>_. True)) - int (object_blocks small_object)"
  by (rule json_dotremove_removes) (simp add: small_object_def object_fits_def OBJECT_MAX_CAPACITY_def)

end
