(* ===== verification/JsonCompare.thy ===== *)
theory JsonCompare
  imports JsonPath JsonRoundtrip
begin

text \<open>
  Whole values of the JSON library \<open>cplusplus/jsonbenchmark/parson.c\<close>: copies, equality, and the check
  of a value against a schema.
\<close>

section \<open>The code\<close>

definition minus_double :: "double \<Rightarrow> double \<Rightarrow> double" where
  "minus_double a b =
     (case a of
        Finite x \<Rightarrow> (case b of Finite y \<Rightarrow> round_double (x - y) | Infinite s \<Rightarrow> Infinite (\<not> s) | NaN \<Rightarrow> NaN)
      | Infinite r \<Rightarrow> (case b of Finite y \<Rightarrow> Infinite r | Infinite s \<Rightarrow> if r = s then NaN else Infinite r | NaN \<Rightarrow> NaN)
      | NaN \<Rightarrow> NaN)"

text \<open>\<open>fabs(a - b) < 0.000001\<close>; a comparison with NaN or an infinity fails.\<close>

definition near :: "double \<Rightarrow> double \<Rightarrow> bool" where
  "near a b \<longleftrightarrow>
     (case (minus_double a b, round_double (1 / 10 ^ 6)) of (Finite x, Finite e) \<Rightarrow> \<bar>x\<bar> < e | _ \<Rightarrow> False)"

definition value_size :: "json_value option \<Rightarrow> nat" where
  "value_size v = (case v of None \<Rightarrow> 0 | Some v \<Rightarrow> size v)"

lemma value_size_simps [simp]: "value_size None = 0" "value_size (Some v) = size v"
  by (simp_all add: value_size_def)

lemma get_smaller [simp]: "value_size (json_object_get_value (Some x) (Some k)) < size x"
proof (cases x)
  case (Json_Object ms cap)
  then show ?thesis using map_of_smaller [of ms k _ cap] by (cases "map_of ms k") auto
qed

lemma items_smaller [simp]: "size_list size (arr_items x) < Suc (size x)"
  by (cases x) simp

lemma first_smaller [simp]: "value_size (json_array_get_value (Some x) 0) < Suc (size x)"
proof (cases x)
  case (Json_Array vs cap)
  then show ?thesis by (cases vs) (auto simp: json_array_get_value_def json_array_get_count_def)
qed

function json_value_equals :: "json_value option \<Rightarrow> json_value option \<Rightarrow> bool"
  and equal_items :: "json_value list \<Rightarrow> json_value list \<Rightarrow> bool"
  and equal_members :: "json_object \<Rightarrow> json_object option \<Rightarrow> (string \<times> json_value) list \<Rightarrow> bool"
where
  "json_value_equals a b =
     (if json_value_get_type a \<noteq> json_value_get_type b then False
      else
        (case a of
           None \<Rightarrow> True
         | Some V_Null \<Rightarrow> True
         | Some (V_Array x) \<Rightarrow>
             (let b_array = json_value_get_array b in
              if json_array_get_count (Some x) \<noteq> json_array_get_count b_array then False
              else equal_items (arr_items x) (case b_array of None \<Rightarrow> [] | Some y \<Rightarrow> arr_items y))
         | Some (V_Object x) \<Rightarrow>
             (let b_object = json_value_get_object b in
              if json_object_get_count (Some x) \<noteq> json_object_get_count b_object then False
              else equal_members x b_object (obj_members x))
         | Some (V_String s) \<Rightarrow> Some s = json_value_get_string b
         | Some (V_Boolean i) \<Rightarrow> i = json_value_get_boolean b
         | Some (V_Number d) \<Rightarrow> near d (json_value_get_number b)))"
| "equal_items [] ws = True"
| "equal_items (v # vs) ws =
     (if json_value_equals (Some v) (case ws of [] \<Rightarrow> None | w # _ \<Rightarrow> Some w) then equal_items vs (tl ws) else False)"
| "equal_members x y [] = True"
| "equal_members x y ((key, v) # ms) =
     (if json_value_equals (json_object_get_value (Some x) (Some key)) (json_object_get_value y (Some key))
      then equal_members x y ms else False)"
  by pat_completeness auto
termination
  by (relation "measures [\<lambda>z. case z of
      Inl (v, _) \<Rightarrow> value_size v
    | Inr (Inl (vs, _)) \<Rightarrow> size_list size vs
    | Inr (Inr (x, _)) \<Rightarrow> size x, \<lambda>z. case z of Inr (Inr (_, _, ms)) \<Rightarrow> length ms | _ \<Rightarrow> 0]")
    (auto simp del: get_value_map_of)

function json_validate :: "json_value option \<Rightarrow> json_value option \<Rightarrow> json_status"
  and validate_items :: "json_value option \<Rightarrow> json_value list \<Rightarrow> json_status"
  and validate_members :: "json_object \<Rightarrow> json_object option \<Rightarrow> (string \<times> json_value) list \<Rightarrow> json_status"
where
  "json_validate schema v =
     (if schema = None \<or> v = None then JSONFailure
      else if json_value_get_type schema \<noteq> json_value_get_type v \<and> json_value_get_type schema \<noteq> JSONNull then JSONFailure
      else
        (case schema of
           Some (V_Array s) \<Rightarrow>
             if json_array_get_count (Some s) = 0 then JSONSuccess
             else validate_items (json_array_get_value (Some s) 0)
               (case json_value_get_array v of None \<Rightarrow> [] | Some a \<Rightarrow> arr_items a)
         | Some (V_Object s) \<Rightarrow>
             if json_object_get_count (Some s) = 0 then JSONSuccess
             else if json_object_get_count (json_value_get_object v) < json_object_get_count (Some s) then JSONFailure
             else validate_members s (json_value_get_object v) (obj_members s)
         | Some _ \<Rightarrow> JSONSuccess
         | None \<Rightarrow> JSONFailure))"
| "validate_items s [] = JSONSuccess"
| "validate_items s (w # ws) = (if json_validate s (Some w) = JSONFailure then JSONFailure else validate_items s ws)"
| "validate_members s x [] = JSONSuccess"
| "validate_members s x ((key, v) # ms) =
     (if json_object_get_value x (Some key) = None then JSONFailure
      else if json_validate (json_object_get_value (Some s) (Some key)) (json_object_get_value x (Some key)) = JSONFailure
      then JSONFailure else validate_members s x ms)"
  by pat_completeness auto
termination
  by (relation "measures [\<lambda>z. case z of
      Inl (s, _) \<Rightarrow> value_size s
    | Inr (Inl (s, _)) \<Rightarrow> value_size s
    | Inr (Inr (x, _)) \<Rightarrow> size x, \<lambda>z. case z of Inl _ \<Rightarrow> 0 | Inr (Inl (_, ws)) \<Rightarrow> Suc (length ws) | Inr (Inr (_, _, ms)) \<Rightarrow> Suc (length ms)]")
    (auto simp del: get_value_map_of)

function json_value_deep_copy :: "json_value option \<Rightarrow> jmem \<Rightarrow> (json_value option \<times> jmem) option"
  and copy_items :: "json_value list \<Rightarrow> json_array \<Rightarrow> jmem \<Rightarrow> (json_value option \<times> jmem) option"
  and copy_members :: "json_object \<Rightarrow> (string \<times> json_value) list \<Rightarrow> json_object \<Rightarrow> jmem \<Rightarrow> (json_value option \<times> jmem) option"
where
  "json_value_deep_copy v m =
     (case v of
        None \<Rightarrow> Some (None, m)
      | Some (V_Array x) \<Rightarrow>
          (let (return_value, m) = json_value_init_array m in
           case json_value_get_array return_value of
             None \<Rightarrow> Some (None, m)
           | Some a \<Rightarrow> copy_items (arr_items x) a m)
      | Some (V_Object x) \<Rightarrow>
          (let (return_value, m) = json_value_init_object m in
           case json_value_get_object return_value of
             None \<Rightarrow> Some (None, m)
           | Some ob \<Rightarrow> copy_members x (obj_members x) ob m)
      | Some (V_Boolean b) \<Rightarrow> Some (json_value_init_boolean b m)
      | Some (V_Number d) \<Rightarrow> Some (json_value_init_number d m)
      | Some (V_String s) \<Rightarrow>
          (let (copy, m) = parson_strdup s m in
           case copy of
             None \<Rightarrow> Some (None, m)
           | Some copy \<Rightarrow>
               (let (return_value, m) = json_value_init_string_no_copy copy m
                in if return_value = None then Some (None, parson_free 1 m) else Some (return_value, m)))
      | Some V_Null \<Rightarrow> Some (json_value_init_null m))"
| "copy_items [] a m = Some (Some (V_Array a), m)"
| "copy_items (v # vs) a m = do {
     (copy, m) \<leftarrow> json_value_deep_copy (Some v) m;
     case copy of
       None \<Rightarrow> Some (None, json_value_free (V_Array a) m)
     | Some copy \<Rightarrow> do {
         (st, a, m) \<leftarrow> json_array_add a copy m;
         if st = JSONFailure then Some (None, json_value_free copy (json_value_free (V_Array a) m))
         else copy_items vs a m
       }
   }"
| "copy_members x [] ob m = Some (Some (V_Object ob), m)"
| "copy_members x ((key, v) # ms) ob m = do {
     (copy, m) \<leftarrow> json_value_deep_copy (json_object_get_value (Some x) (Some key)) m;
     case copy of
       None \<Rightarrow> Some (None, json_value_free (V_Object ob) m)
     | Some copy \<Rightarrow> do {
         (st, ob, m) \<leftarrow> json_object_add ob (Some key) (Some copy) m;
         if st = JSONFailure then Some (None, json_value_free copy (json_value_free (V_Object ob) m))
         else copy_members x ms ob m
       }
   }"
  by pat_completeness auto
termination
  by (relation "measures [\<lambda>z. case z of
      Inl (v, _) \<Rightarrow> value_size v
    | Inr (Inl (vs, _)) \<Rightarrow> size_list size vs
    | Inr (Inr (x, _)) \<Rightarrow> size x, \<lambda>z. case z of Inr (Inr (_, ms, _)) \<Rightarrow> length ms | _ \<Rightarrow> 0]")
    (auto simp del: get_value_map_of)

declare json_value_equals.simps [simp del] json_validate.simps [simp del] json_value_deep_copy.simps [simp del]

section \<open>Copies\<close>

text \<open>A value without its capacities.\<close>

fun bare :: "json_value \<Rightarrow> json_value" where
  "bare (V_Array (Json_Array vs cap)) = V_Array (Json_Array (map bare vs) 0)"
| "bare (V_Object (Json_Object ms cap)) = V_Object (Json_Object (map (\<lambda>(k, v). (k, bare v)) ms) 0)"
| "bare v = v"

definition copied :: "nat \<Rightarrow> json_value \<Rightarrow> jmem \<Rightarrow> (json_value option \<times> jmem) option \<Rightarrow> bool" where
  "copied k v m res \<longleftrightarrow>
     (\<exists>r m'. res = Some (r, m') \<and>
       (case r of
          None \<Rightarrow> \<not> alloc_ok m \<and> moved 0 m m'
        | Some w \<Rightarrow> bare w = bare v \<and> well_formed k w \<and> moved (int (value_blocks w)) m m'))"

lemma copiedI:
  "res = Some (r, m') \<Longrightarrow> (r = None \<Longrightarrow> \<not> alloc_ok m \<and> moved 0 m m') \<Longrightarrow>
    (\<And>w. r = Some w \<Longrightarrow> bare w = bare v \<and> well_formed k w \<and> moved (int (value_blocks w)) m m') \<Longrightarrow> copied k v m res"
  by (cases r) (simp_all add: copied_def)

lemma moved_alloc_iff: "moved d m m' \<Longrightarrow> alloc_ok m' \<longleftrightarrow> alloc_ok m"
  by (simp add: moved_def alloc_ok_def)

lemma copy_items_ok:
  assumes copy: "\<forall>v \<in> set vs. \<forall>m. copied k v m (json_value_deep_copy (Some v) m)"
  shows "array_ok k (Json_Array ds cap) \<Longrightarrow> growing 13 cap \<Longrightarrow> length ds + length vs \<le> ARRAY_MAX_CAPACITY \<Longrightarrow>
    \<exists>r m'. copy_items vs (Json_Array ds cap) m = Some (r, m') \<and>
      (case r of
         None \<Rightarrow> \<not> alloc_ok m \<and> moved (- int (value_blocks (V_Array (Json_Array ds cap)))) m m'
       | Some w \<Rightarrow> \<exists>ws cap'. w = V_Array (Json_Array (ds @ ws) cap') \<and> map bare ws = map bare vs \<and>
           array_ok k (Json_Array (ds @ ws) cap') \<and>
           moved (int (value_blocks w) - int (value_blocks (V_Array (Json_Array ds cap)))) m m')"
  using copy
proof (induction vs arbitrary: ds cap m)
  case Nil
  then show ?case by (intro exI [of _ "Some (V_Array (Json_Array ds cap))"] exI [of _ m]) simp
next
  case (Cons v vs)
  let ?a = "V_Array (Json_Array ds cap)"
  have ok: "length ds \<le> cap" "cap \<le> ARRAY_MAX_CAPACITY" "\<forall>w \<in> set ds. well_formed k w"
    using Cons.prems(1) by (simp_all add: array_ok_def)
  obtain r m1 where c: "json_value_deep_copy (Some v) m = Some (r, m1)"
    "case r of None \<Rightarrow> \<not> alloc_ok m \<and> moved 0 m m1
     | Some w \<Rightarrow> bare w = bare v \<and> well_formed k w \<and> moved (int (value_blocks w)) m m1"
    using Cons.prems(4) unfolding copied_def by fastforce
  show ?case
  proof (cases r)
    case None
    have "moved (0 + - int (value_blocks ?a)) m (json_value_free ?a m1)"
      by (rule moved_trans [OF _ value_free_moved]) (use c(2) None in simp)
    then show ?thesis using c None by (intro exI [of _ None] exI [of _ "json_value_free ?a m1"]) simp
  next
    case (Some w)
    then have w: "bare w = bare v" "well_formed k w" "moved (int (value_blocks w)) m m1" using c(2) by simp_all
    obtain st cap' m2 where a: "json_array_add (Json_Array ds cap) w m1 =
        Some (st, Json_Array (if st = JSONSuccess then ds @ [w] else ds) cap', m2)"
      "st = JSONSuccess \<longrightarrow> length ds < cap'" "length ds \<le> cap'" "cap' \<le> ARRAY_MAX_CAPACITY"
      "moved (arr_cells cap' - arr_cells cap) m1 m2" "cap' = cap \<or> cap' = grown (length ds) cap"
      using array_add_any [OF ok(1,2), of w m1] by blast
    have less: "length ds < 15 * 2 ^ 13" using Cons.prems(3) by (simp add: array_max)
    note g = growing_grown [OF Cons.prems(2) ok(1) less]
    show ?thesis
    proof (cases st)
      case JSONFailure
      have "\<not> alloc_ok m"
      proof
        assume "alloc_ok m"
        then have "alloc_ok m1" using moved_alloc_ok w(3) by blast
        from array_add_ok [OF this ok(1), of w] show False using a(1) JSONFailure g(2) unfolding array_max [symmetric] by auto
      qed
      moreover have "moved (int (value_blocks w) + (arr_cells cap' - arr_cells cap) + - int (value_blocks (V_Array (Json_Array ds cap'))) +
          - int (value_blocks w)) m (json_value_free w (json_value_free (V_Array (Json_Array ds cap')) m2))"
        by (rule moved_trans [OF moved_trans [OF moved_trans [OF w(3) a(5)] value_free_moved] value_free_moved])
      then have "moved (- int (value_blocks ?a)) m (json_value_free w (json_value_free (V_Array (Json_Array ds cap')) m2))"
        by (rule moved_same) (simp add: arr_cells_def)
      ultimately show ?thesis using c(1) Some a(1) JSONFailure
        by (intro exI [of _ None] exI [of _ "json_value_free w (json_value_free (V_Array (Json_Array ds cap')) m2)"]) simp
    next
      case JSONSuccess
      let ?b = "V_Array (Json_Array (ds @ [w]) cap')"
      have "moved (int (value_blocks w) + (arr_cells cap' - arr_cells cap)) m m2" by (rule moved_trans [OF w(3) a(5)])
      then have m2: "moved (int (value_blocks ?b) - int (value_blocks ?a)) m m2" by (rule moved_same) (simp add: arr_cells_def)
      have ok': "array_ok k (Json_Array (ds @ [w]) cap')" using ok w a(2-4) JSONSuccess by (simp add: array_ok_def)
      have grow: "growing 13 cap'" using a(6) g(1) Cons.prems(2) by blast
      obtain r' m' where l: "copy_items vs (Json_Array (ds @ [w]) cap') m2 = Some (r', m')"
        "case r' of
           None \<Rightarrow> \<not> alloc_ok m2 \<and> moved (- int (value_blocks ?b)) m2 m'
         | Some u \<Rightarrow> \<exists>ws cap''. u = V_Array (Json_Array ((ds @ [w]) @ ws) cap'') \<and> map bare ws = map bare vs \<and>
             array_ok k (Json_Array ((ds @ [w]) @ ws) cap'') \<and> moved (int (value_blocks u) - int (value_blocks ?b)) m2 m'"
        using Cons.IH [OF ok' grow, of m2] Cons.prems(3,4) by fastforce
      have run: "copy_items (v # vs) (Json_Array ds cap) m = Some (r', m')" using c(1) Some a(1) JSONSuccess l(1) by simp
      show ?thesis
      proof (cases r')
        case None
        then have "\<not> alloc_ok m2" "moved (- int (value_blocks ?b)) m2 m'" using l(2) by simp_all
        then have "\<not> alloc_ok m" "moved (- int (value_blocks ?a)) m m'"
          using moved_alloc_iff [OF m2] moved_0_eq [OF m2] by auto
        then show ?thesis using run None by (intro exI [of _ None] exI [of _ m']) simp
      next
        case (Some u)
        then obtain ws cap'' where u: "u = V_Array (Json_Array ((ds @ [w]) @ ws) cap'')" "map bare ws = map bare vs"
          "array_ok k (Json_Array ((ds @ [w]) @ ws) cap'')" "moved (int (value_blocks u) - int (value_blocks ?b)) m2 m'"
          using l(2) by auto
        have "moved (int (value_blocks u) - int (value_blocks ?a)) m m'" by (rule moved_0_eq [OF m2 u(4)]) simp
        moreover have "u = V_Array (Json_Array (ds @ w # ws) cap'')" "map bare (w # ws) = map bare (v # vs)"
          "array_ok k (Json_Array (ds @ w # ws) cap'')" using u(1-3) w(1) by simp_all
        ultimately show ?thesis using run Some by (intro exI [of _ "Some u"] exI [of _ m']) fastforce
      qed
    qed
  qed
qed

lemma copy_members_ok:
  assumes copy: "\<forall>(n, v) \<in> set ms. CHR 0x00 \<notin> set n \<and> map_of (obj_members x) n = Some v \<and>
    (\<forall>m. copied k v m (json_value_deep_copy (Some v) m))"
  shows "object_ok k (Json_Object ds cap) \<Longrightarrow> growing 6 cap \<Longrightarrow> length ds + length ms \<le> OBJECT_MAX_CAPACITY \<Longrightarrow>
    distinct (map fst ds @ map fst ms) \<Longrightarrow>
    \<exists>r m'. copy_members x ms (Json_Object ds cap) m = Some (r, m') \<and>
      (case r of
         None \<Rightarrow> \<not> alloc_ok m \<and> moved (- int (value_blocks (V_Object (Json_Object ds cap)))) m m'
       | Some w \<Rightarrow> \<exists>ws cap'. w = V_Object (Json_Object (ds @ ws) cap') \<and>
           map (\<lambda>(n, v). (n, bare v)) ws = map (\<lambda>(n, v). (n, bare v)) ms \<and> object_ok k (Json_Object (ds @ ws) cap') \<and>
           moved (int (value_blocks w) - int (value_blocks (V_Object (Json_Object ds cap)))) m m')"
  using copy
proof (induction ms arbitrary: ds cap m)
  case Nil
  then show ?case by (intro exI [of _ "Some (V_Object (Json_Object ds cap))"] exI [of _ m]) simp
next
  case (Cons p ms)
  obtain n v where p: "p = (n, v)" by (cases p)
  let ?a = "V_Object (Json_Object ds cap)"
  have ok: "length ds \<le> cap" "cap \<le> OBJECT_MAX_CAPACITY" "\<forall>(n, w) \<in> set ds. CHR 0x00 \<notin> set n \<and> well_formed k w" "distinct (map fst ds)"
    using Cons.prems(1) by (simp_all add: object_ok_def)
  have v: "CHR 0x00 \<notin> set n" "map_of (obj_members x) n = Some v" "copied k v m (json_value_deep_copy (Some v) m)"
    using Cons.prems(5) p by auto
  have fresh: "n \<notin> fst ` set ds" using Cons.prems(4) p by auto
  obtain r m1 where c: "json_value_deep_copy (Some v) m = Some (r, m1)"
    "case r of None \<Rightarrow> \<not> alloc_ok m \<and> moved 0 m m1
     | Some w \<Rightarrow> bare w = bare v \<and> well_formed k w \<and> moved (int (value_blocks w)) m m1"
    using v(3) unfolding copied_def by blast
  show ?case
  proof (cases r)
    case None
    have "moved (0 + - int (value_blocks ?a)) m (json_value_free ?a m1)"
      by (rule moved_trans [OF _ value_free_moved]) (use c(2) None in simp)
    then show ?thesis using c None p v(2) by (intro exI [of _ None] exI [of _ "json_value_free ?a m1"]) simp
  next
    case (Some w)
    then have w: "bare w = bare v" "well_formed k w" "moved (int (value_blocks w)) m m1" using c(2) by simp_all
    obtain st cap' m2 where a: "json_object_add (Json_Object ds cap) (Some n) (Some w) m1 =
        Some (st, Json_Object (if st = JSONSuccess then ds @ [(n, w)] else ds) cap', m2)"
      "st = JSONSuccess \<longrightarrow> map_of ds n = None \<and> length ds < cap'" "length ds \<le> cap'" "cap' \<le> OBJECT_MAX_CAPACITY"
      "moved (obj_cells cap' - obj_cells cap + (if st = JSONSuccess then 1 else 0)) m1 m2" "cap' = cap \<or> cap' = grown (length ds) cap"
      using object_add_any [OF ok(1,2), of n w m1] by blast
    have less: "length ds < 15 * 2 ^ 6" using Cons.prems(3) by (simp add: object_max)
    note g = growing_grown [OF Cons.prems(2) ok(1) less]
    show ?thesis
    proof (cases st)
      case JSONFailure
      have "\<not> alloc_ok m"
      proof
        assume "alloc_ok m"
        then have "alloc_ok m1" using moved_alloc_ok w(3) by blast
        from object_add_ok [OF this ok(1), of n w] show False
          using a(1) JSONFailure g(2) fresh unfolding object_max [symmetric] by auto
      qed
      moreover have "moved (int (value_blocks w) + (obj_cells cap' - obj_cells cap + (if st = JSONSuccess then 1 else 0)) +
          - int (value_blocks (V_Object (Json_Object ds cap'))) + - int (value_blocks w)) m
          (json_value_free w (json_value_free (V_Object (Json_Object ds cap')) m2))"
        by (rule moved_trans [OF moved_trans [OF moved_trans [OF w(3) a(5)] value_free_moved] value_free_moved])
      then have "moved (- int (value_blocks ?a)) m (json_value_free w (json_value_free (V_Object (Json_Object ds cap')) m2))"
        by (rule moved_same) (simp add: obj_cells_def JSONFailure)
      ultimately show ?thesis using c(1) Some a(1) JSONFailure p v(2)
        by (intro exI [of _ None] exI [of _ "json_value_free w (json_value_free (V_Object (Json_Object ds cap')) m2)"]) simp
    next
      case JSONSuccess
      let ?b = "V_Object (Json_Object (ds @ [(n, w)]) cap')"
      have "moved (int (value_blocks w) + (obj_cells cap' - obj_cells cap + (if st = JSONSuccess then 1 else 0))) m m2"
        by (rule moved_trans [OF w(3) a(5)])
      then have m2: "moved (int (value_blocks ?b) - int (value_blocks ?a)) m m2"
        by (rule moved_same) (simp add: obj_cells_def JSONSuccess)
      have ok': "object_ok k (Json_Object (ds @ [(n, w)]) cap')" using ok w v(1) a(2-4) JSONSuccess fresh by (auto simp: object_ok_def)
      have grow: "growing 6 cap'" using a(6) g(1) Cons.prems(2) by blast
      obtain r' m' where l: "copy_members x ms (Json_Object (ds @ [(n, w)]) cap') m2 = Some (r', m')"
        "case r' of
           None \<Rightarrow> \<not> alloc_ok m2 \<and> moved (- int (value_blocks ?b)) m2 m'
         | Some u \<Rightarrow> \<exists>ws cap''. u = V_Object (Json_Object ((ds @ [(n, w)]) @ ws) cap'') \<and>
             map (\<lambda>(n, v). (n, bare v)) ws = map (\<lambda>(n, v). (n, bare v)) ms \<and>
             object_ok k (Json_Object ((ds @ [(n, w)]) @ ws) cap'') \<and> moved (int (value_blocks u) - int (value_blocks ?b)) m2 m'"
        using Cons.IH [OF ok' grow, of m2] Cons.prems(3,4,5) p by fastforce
      have run: "copy_members x (p # ms) (Json_Object ds cap) m = Some (r', m')" using c(1) Some a(1) JSONSuccess l(1) p v(2) by simp
      show ?thesis
      proof (cases r')
        case None
        then have "\<not> alloc_ok m2" "moved (- int (value_blocks ?b)) m2 m'" using l(2) by simp_all
        then have "\<not> alloc_ok m" "moved (- int (value_blocks ?a)) m m'"
          using moved_alloc_iff [OF m2] moved_0_eq [OF m2] by auto
        then show ?thesis using run None by (intro exI [of _ None] exI [of _ m']) simp
      next
        case (Some u)
        then obtain ws cap'' where u: "u = V_Object (Json_Object ((ds @ [(n, w)]) @ ws) cap'')"
          "map (\<lambda>(n, v). (n, bare v)) ws = map (\<lambda>(n, v). (n, bare v)) ms"
          "object_ok k (Json_Object ((ds @ [(n, w)]) @ ws) cap'')" "moved (int (value_blocks u) - int (value_blocks ?b)) m2 m'"
          using l(2) by auto
        have "moved (int (value_blocks u) - int (value_blocks ?a)) m m'" by (rule moved_0_eq [OF m2 u(4)]) simp
        moreover have "u = V_Object (Json_Object (ds @ (n, w) # ws) cap'')"
          "map (\<lambda>(n, v). (n, bare v)) ((n, w) # ws) = map (\<lambda>(n, v). (n, bare v)) (p # ms)"
          "object_ok k (Json_Object (ds @ (n, w) # ws) cap'')" using u(1-3) w(1) p by simp_all
        ultimately show ?thesis using run Some by (intro exI [of _ "Some u"] exI [of _ m']) fastforce
      qed
    qed
  qed
qed

lemma init_array_any: "\<exists>m'. json_value_init_array m = (Some (V_Array (Json_Array [] 0)), m') \<and> moved 2 m m' \<or>
    json_value_init_array m = (None, m') \<and> moved 0 m m' \<and> \<not> alloc_ok m"
  by (auto simp: json_value_init_array_def json_array_init_def parson_malloc_def parson_free_def moved_def alloc_ok_def)

lemma init_object_fails: "\<exists>m'. json_value_init_object m = (Some (V_Object (Json_Object [] 0)), m') \<and> moved 2 m m' \<or>
    json_value_init_object m = (None, m') \<and> moved 0 m m' \<and> \<not> alloc_ok m"
  by (auto simp: json_value_init_object_def json_object_init_def parson_malloc_def parson_free_def moved_def alloc_ok_def)

lemma deep_copy_ok: "well_formed k v \<Longrightarrow> copied k v m (json_value_deep_copy (Some v) m)"
proof (induction k arbitrary: v m)
  case (Suc k)
  show ?case
  proof (cases v)
    case V_Null
    then show ?thesis
      by (auto simp: copied_def json_value_deep_copy.simps json_value_init_null_def parson_malloc_def moved_def alloc_ok_def)
  next
    case (V_Boolean b)
    then have "b = 0 \<or> b = 1" using Suc.prems by simp
    then show ?thesis using V_Boolean
      by (auto simp: copied_def json_value_deep_copy.simps json_value_init_boolean_def parson_malloc_def moved_def alloc_ok_def)
  next
    case (V_Number d)
    then show ?thesis
      by (auto simp: copied_def json_value_deep_copy.simps json_value_init_number_def parson_malloc_def moved_def alloc_ok_def)
  next
    case (V_String s)
    then show ?thesis using Suc.prems
      by (auto simp: copied_def json_value_deep_copy.simps parson_strdup_def parson_strndup_def json_value_init_string_no_copy_def
          parson_malloc_def parson_free_def moved_def alloc_ok_def)
  next
    case (V_Array a)
    obtain vs cap where a: "a = Json_Array vs cap" by (cases a)
    obtain m1 where i: "json_value_init_array m = (Some (V_Array (Json_Array [] 0)), m1) \<and> moved 2 m m1 \<or>
      json_value_init_array m = (None, m1) \<and> moved 0 m m1 \<and> \<not> alloc_ok m"
      using init_array_any by blast
    then show ?thesis
    proof (elim disjE conjE)
      assume "json_value_init_array m = (None, m1)" "moved 0 m m1" "\<not> alloc_ok m"
      then show ?thesis using V_Array by (simp add: copied_def json_value_deep_copy.simps json_value_get_array_def)
    next
      assume i: "json_value_init_array m = (Some (V_Array (Json_Array [] 0)), m1)" "moved 2 m m1"
      have vs: "\<forall>v \<in> set vs. \<forall>m. copied k v m (json_value_deep_copy (Some v) m)" "length vs \<le> ARRAY_MAX_CAPACITY"
        using Suc V_Array a by auto
      have start: "array_ok k (Json_Array [] 0)" "growing 13 0" "length ([] :: json_value list) + length vs \<le> ARRAY_MAX_CAPACITY"
        "int (value_blocks (V_Array (Json_Array [] 0))) = 2" using vs(2) by (simp_all add: array_ok_def growing_def)
      obtain r m' where c: "copy_items vs (Json_Array [] 0) m1 = Some (r, m')"
        "case r of None \<Rightarrow> \<not> alloc_ok m1 \<and> moved (- 2) m1 m'
         | Some w \<Rightarrow> \<exists>ws cap'. w = V_Array (Json_Array ws cap') \<and> map bare ws = map bare vs \<and> array_ok k (Json_Array ws cap') \<and>
             moved (int (value_blocks w) - 2) m1 m'"
        using copy_items_ok [OF vs(1) start(1,2), of m1, unfolded start(4) append_Nil] start(3) by blast
      show ?thesis
      proof (rule copiedI)
        show "json_value_deep_copy (Some v) m = Some (r, m')"
          using V_Array a i(1) c(1) by (simp add: json_value_deep_copy.simps json_value_get_array_def)
        show "\<not> alloc_ok m \<and> moved 0 m m'" if "r = None"
          using c(2) that moved_alloc_iff [OF i(2)] moved_0_eq [OF i(2)] by auto
        show "bare w = bare v \<and> well_formed (Suc k) w \<and> moved (int (value_blocks w)) m m'" if r: "r = Some w" for w
        proof -
          obtain ws cap' where w: "w = V_Array (Json_Array ws cap')" "map bare ws = map bare vs" "array_ok k (Json_Array ws cap')"
            "moved (int (value_blocks w) - 2) m1 m'"
            using c(2) unfolding r by auto
          have "moved (int (value_blocks w)) m m'" by (rule moved_0_eq [OF i(2) w(4)]) simp
          then show ?thesis using w(1-3) V_Array a by (simp add: array_ok_def)
        qed
      qed
    qed
  next
    case (V_Object x)
    obtain ms cap where x: "x = Json_Object ms cap" by (cases x)
    obtain m1 where i: "json_value_init_object m = (Some (V_Object (Json_Object [] 0)), m1) \<and> moved 2 m m1 \<or>
      json_value_init_object m = (None, m1) \<and> moved 0 m m1 \<and> \<not> alloc_ok m"
      using init_object_fails by blast
    then show ?thesis
    proof (elim disjE conjE)
      assume "json_value_init_object m = (None, m1)" "moved 0 m m1" "\<not> alloc_ok m"
      then show ?thesis using V_Object by (simp add: copied_def json_value_deep_copy.simps)
    next
      assume i: "json_value_init_object m = (Some (V_Object (Json_Object [] 0)), m1)" "moved 2 m m1"
      have d: "distinct (map fst ms)" "length ms \<le> OBJECT_MAX_CAPACITY" using Suc.prems V_Object x by auto
      have ms: "\<forall>(n, v) \<in> set ms. CHR 0x00 \<notin> set n \<and> map_of (obj_members x) n = Some v \<and>
          (\<forall>m. copied k v m (json_value_deep_copy (Some v) m))"
        using Suc V_Object x d(1) by fastforce
      have start: "object_ok k (Json_Object [] 0)" "growing 6 0"
        "length ([] :: (string \<times> json_value) list) + length ms \<le> OBJECT_MAX_CAPACITY"
        "int (value_blocks (V_Object (Json_Object [] 0))) = 2" using d(2) by (simp_all add: object_ok_def growing_def)
      obtain r m' where c: "copy_members x ms (Json_Object [] 0) m1 = Some (r, m')"
        "case r of None \<Rightarrow> \<not> alloc_ok m1 \<and> moved (- 2) m1 m'
         | Some w \<Rightarrow> \<exists>ws cap'. w = V_Object (Json_Object ws cap') \<and> map (\<lambda>(n, v). (n, bare v)) ws = map (\<lambda>(n, v). (n, bare v)) ms \<and>
             object_ok k (Json_Object ws cap') \<and> moved (int (value_blocks w) - 2) m1 m'"
        using copy_members_ok [OF ms start(1,2), of m1, unfolded start(4) append_Nil] start(3) d(1) by auto
      show ?thesis
      proof (rule copiedI)
        show "json_value_deep_copy (Some v) m = Some (r, m')"
          using V_Object x i(1) c(1) by (simp add: json_value_deep_copy.simps)
        show "\<not> alloc_ok m \<and> moved 0 m m'" if "r = None"
          using c(2) that moved_alloc_iff [OF i(2)] moved_0_eq [OF i(2)] by auto
        show "bare w = bare v \<and> well_formed (Suc k) w \<and> moved (int (value_blocks w)) m m'" if r: "r = Some w" for w
        proof -
          obtain ws cap' where w: "w = V_Object (Json_Object ws cap')" "map (\<lambda>(n, v). (n, bare v)) ws = map (\<lambda>(n, v). (n, bare v)) ms"
            "object_ok k (Json_Object ws cap')" "moved (int (value_blocks w) - 2) m1 m'"
            using c(2) unfolding r by auto
          have "moved (int (value_blocks w)) m m'" by (rule moved_0_eq [OF i(2) w(4)]) simp
          then show ?thesis using w(1-3) V_Object x by (simp add: object_ok_def)
        qed
      qed
    qed
  qed
qed simp

text \<open>C33: whatever the allocator answers, a copy either has the same content as the original, in blocks of
  its own, or it is NULL because memory ran out, and then everything that was allocated on the way is
  given back.\<close>

theorem json_deep_copy_all_or_nothing:
  assumes "well_formed k v"
  shows "\<exists>r m'. json_value_deep_copy (Some v) m = Some (r, m') \<and>
    (case r of
       None \<Rightarrow> jm_blocks m' = jm_blocks m \<and> (\<exists>n. \<not> jm_grants m n)
     | Some w \<Rightarrow> bare w = bare v \<and> well_formed k w \<and> jm_blocks (json_value_free w m') = jm_blocks m)"
proof -
  obtain r m' where c: "json_value_deep_copy (Some v) m = Some (r, m')"
    "case r of None \<Rightarrow> \<not> alloc_ok m \<and> moved 0 m m'
     | Some w \<Rightarrow> bare w = bare v \<and> well_formed k w \<and> moved (int (value_blocks w)) m m'"
    using deep_copy_ok [OF assms, of m] unfolding copied_def by blast
  show ?thesis
  proof (cases r)
    case None
    then show ?thesis using c by (simp add: moved_def alloc_ok_def)
  next
    case (Some w)
    have "moved (int (value_blocks w) + - int (value_blocks w)) m (json_value_free w m')"
      by (rule moved_trans [OF _ value_free_moved]) (use c(2) Some in simp)
    then show ?thesis using c Some by (simp add: moved_def)
  qed
qed

theorem json_deep_copy_all_or_nothing_witness:
  "\<exists>r m'. json_value_deep_copy (Some sample) (fresh_mem (\<lambda>n. n < 7)) = Some (r, m') \<and>
    (case r of
       None \<Rightarrow> jm_blocks m' = jm_blocks (fresh_mem (\<lambda>n. n < 7)) \<and> (\<exists>n. \<not> jm_grants (fresh_mem (\<lambda>n. n < 7)) n)
     | Some w \<Rightarrow> bare w = bare sample \<and> well_formed (Suc (Suc (Suc 0))) w \<and>
         jm_blocks (json_value_free w m') = jm_blocks (fresh_mem (\<lambda>n. n < 7)))"
  by (rule json_deep_copy_all_or_nothing [OF sample_facts(1)])

section \<open>Equality of numbers\<close>

lemma round_even_minus: "round_even (- x) = - round_even x"
proof (cases "x = of_int \<lfloor>x\<rfloor>")
  case True
  then obtain i where "x = of_int i" by blast
  then show ?thesis using round_even_int [of i] round_even_int [of "- i"] by simp
next
  case False
  then have c: "\<lfloor>- x\<rfloor> = - \<lfloor>x\<rfloor> - 1" using ceiling_altdef [of x] floor_minus [of x] by auto
  define f where "f = \<lfloor>x\<rfloor>"
  have "even (- f - 1) \<longleftrightarrow> odd f" by simp
  then show ?thesis using c unfolding round_even_def f_def [symmetric] Let_def
    by (simp add: f_def [symmetric]) (auto simp: field_simps)
qed

lemma round_double_minus: "round_double (- x) = negate (round_double x)"
proof (cases "last_bit x")
  case None
  then have n: "last_bit (- x) = None" by (simp add: last_bit_def)
  have "x \<noteq> 0"
  proof
    assume "x = 0"
    then have "last_bit (of_int 0) = None" using None by simp
    then show False using last_bit_int [of 0] by auto
  qed
  then show ?thesis using None n by (auto simp: round_double_def negate_def)
next
  case (Some e)
  then have n: "last_bit (- x) = Some e" by (simp add: last_bit_def)
  have m: "round_even (- x / 2 powi e) = - round_even (x / 2 powi e)"
    using round_even_minus [of "x / 2 powi e"] by simp
  define y where "y = of_int (round_even (x / 2 powi e)) * (2 :: rat) powi e"
  have z: "x \<noteq> 0" if "\<not> \<bar>y\<bar> < 2 powi 1024"
  proof
    assume "x = 0"
    then have "y = 0" using round_even_int [of 0] by (simp add: y_def)
    then show False using that by simp
  qed
  have "of_int (round_even (- x / 2 powi e)) * 2 powi e = - y" unfolding m y_def by simp
  then show ?thesis using Some n z unfolding round_double_def
    by (auto simp: Let_def y_def [symmetric] negate_def)
qed

lemma near_commute: "near a b \<longleftrightarrow> near b a"
proof (cases a; cases b)
  fix x y
  assume ab: "a = Finite x" "b = Finite y"
  have "round_double (y - x) = negate (round_double (x - y))" using round_double_minus [of "x - y"] by simp
  then show ?thesis using ab by (auto simp: near_def minus_double_def negate_def split: double.split)
qed (auto simp: near_def minus_double_def)

lemma find_upto:
  assumes "lo \<le> e" "e \<le> hi" "P e" "\<And>d. d < e \<Longrightarrow> \<not> P d"
  shows "List.find P [lo..hi] = Some e"
proof -
  have "[lo..hi] = [lo..e - 1] @ [e..hi]" by (rule upto_split1 [OF assms(1,2)])
  moreover have "List.find P [lo..e - 1] = None" using assms(4) by (auto simp: find_None_iff)
  moreover have "[e..hi] = e # [e + 1..hi]" using assms(2) by (simp add: upto.simps)
  ultimately show ?thesis using assms(3) by (simp add: find_append)
qed

lemma last_bit_eq:
  assumes "- 1074 \<le> e" "e \<le> 971" "\<bar>x\<bar> < 2 powi (53 + e)" "2 powi (52 + e) \<le> \<bar>x\<bar>"
  shows "last_bit x = Some e"
  unfolding last_bit_def
proof (rule find_upto [of _ e _ "\<lambda>e. \<bar>x\<bar> < 2 powi (53 + e)", OF assms(1-3)])
  fix d :: int
  assume "d < e"
  then have "(2 :: rat) powi (53 + d) \<le> 2 powi (52 + e)" by (intro power_int_increasing) simp_all
  then show "\<not> \<bar>x\<bar> < 2 powi (53 + d)" using assms(4) by linarith
qed

lemma epsilon_positive: "\<exists>e. round_double (1 / 10 ^ 6) = Finite e \<and> 0 < e"
proof -
  let ?x = "1 / 10 ^ 6 :: rat"
  have p: "(2 :: rat) powi (- 72) = 1 / 2 ^ 72" "(2 :: rat) powi (53 + - 72) = 1 / 2 ^ 19" "(2 :: rat) powi (52 + - 72) = 1 / 2 ^ 20"
    by (simp_all add: power_int_def power_one_over)
  have b: "last_bit ?x = Some (- 72)"
    by (rule last_bit_eq) (simp_all only: p abs_of_nonneg, simp_all)
  define r where "r = round_even (?x / 2 powi (- 72))"
  have r: "r = round_even (2 ^ 72 / 10 ^ 6)" unfolding r_def p by simp
  have "1 \<le> (\<lfloor>2 ^ 72 / 10 ^ 6 :: rat\<rfloor>)" by (simp add: le_floor_iff)
  then have pos: "1 \<le> r" unfolding r round_even_def Let_def by simp
  have up: "of_int r \<le> (2 ^ 72 / 10 ^ 6 :: rat) + 1" unfolding r by (rule round_even_near(1))
  have "(2 ^ 72 / 10 ^ 6 :: rat) + 1 \<le> 2 ^ 72" by simp
  then have "of_int r \<le> (2 ^ 72 :: rat)" using up by linarith
  then have "of_int r * (1 / 2 ^ 72 :: rat) \<le> 1" by (simp add: field_simps)
  then have y: "\<bar>of_int r * (2 :: rat) powi (- 72)\<bar> < 2 powi 1024" using pos unfolding p by simp
  have "round_double ?x = Finite (of_int r * 2 powi (- 72))"
    by (simp only: round_double_def b option.case r_def [symmetric] Let_def y if_True)
  moreover have "0 < of_int r * (2 :: rat) powi (- 72)" using pos unfolding p by simp
  ultimately show ?thesis by blast
qed

lemma near_refl: "near (Finite x) (Finite x)"
proof -
  obtain e where "round_double (1 / 10 ^ 6) = Finite e" "0 < e" using epsilon_positive by blast
  then show ?thesis using round_double_int [of 0] by (simp add: near_def minus_double_def)
qed

section \<open>Equality of values\<close>

text \<open>
  What equality means: objects are compared as maps and arrays item by item.
\<close>

inductive same_json :: "json_value \<Rightarrow> json_value \<Rightarrow> bool" where
  same_null: "same_json V_Null V_Null"
| same_boolean: "same_json (V_Boolean b) (V_Boolean b)"
| same_string: "same_json (V_String s) (V_String s)"
| same_number: "near d e \<Longrightarrow> same_json (V_Number d) (V_Number e)"
| same_array: "list_all2 same_json vs ws \<Longrightarrow> same_json (V_Array (Json_Array vs c)) (V_Array (Json_Array ws d))"
| same_object: "dom (map_of ms) = dom (map_of ns) \<Longrightarrow>
    (\<forall>k v w. map_of ms k = Some v \<longrightarrow> map_of ns k = Some w \<longrightarrow> same_json v w) \<Longrightarrow>
    same_json (V_Object (Json_Object ms c)) (V_Object (Json_Object ns d))"

inductive_simps same_json_simps [simp]:
  "same_json V_Null v" "same_json (V_Boolean b) v" "same_json (V_String s) v" "same_json (V_Number e) v"
  "same_json (V_Array (Json_Array vs c)) v" "same_json (V_Object (Json_Object ms c)) v"

lemma equal_items_all: "length vs = length ws \<Longrightarrow>
    equal_items vs ws \<longleftrightarrow> list_all2 (\<lambda>v w. json_value_equals (Some v) (Some w)) vs ws"
  by (induction vs ws rule: list_induct2) simp_all

lemma equal_members_all: "equal_members x (Some y) ms \<longleftrightarrow>
    (\<forall>k \<in> fst ` set ms. json_value_equals (map_of (obj_members x) k) (map_of (obj_members y) k))"
  by (induction ms) (auto split: if_splits)

lemma equals_type: "json_value_equals a b \<Longrightarrow> json_value_get_type a = json_value_get_type b"
  by (simp add: json_value_equals.simps split: if_splits)

lemma get_type_none [simp]: "json_value_get_type v = JSONError \<longleftrightarrow> v = None" "JSONError = json_value_get_type v \<longleftrightarrow> v = None"
  by (auto simp: json_value_get_type_def split: option.splits json_value.splits)

text \<open>As many names on both sides, and every name of the one on the other, are the same names.\<close>

lemma same_names:
  assumes "distinct (map fst ms)" "distinct (map fst ns)" "length ms = length ns" "fst ` set ms \<subseteq> fst ` set ns"
  shows "fst ` set ms = fst ` set ns"
proof (rule card_subset_eq [OF _ assms(4)])
  have "card (fst ` set ms) = length ms" "card (fst ` set ns) = length ns"
    using distinct_card [OF assms(1)] distinct_card [OF assms(2)] by simp_all
  then show "card (fst ` set ms) = card (fst ` set ns)" using assms(3) by simp
qed simp

lemma equals_object:
  assumes d: "distinct (map fst ms)" "distinct (map fst ns)"
  shows "json_value_equals (Some (V_Object (Json_Object ms c))) (Some (V_Object (Json_Object ns e))) \<longleftrightarrow>
    dom (map_of ms) = dom (map_of ns) \<and>
    (\<forall>k v w. map_of ms k = Some v \<longrightarrow> map_of ns k = Some w \<longrightarrow> json_value_equals (Some v) (Some w))" (is "?l \<longleftrightarrow> ?r")
proof -
  have l: "?l \<longleftrightarrow> length ms = length ns \<and> (\<forall>k \<in> fst ` set ms. json_value_equals (map_of ms k) (map_of ns k))"
    by (simp add: json_value_equals.simps json_object_get_count_def json_value_get_type_def equal_members_all)
  show ?thesis
  proof
    assume ?l
    with l have e: "length ms = length ns" "\<And>k. k \<in> fst ` set ms \<Longrightarrow> json_value_equals (map_of ms k) (map_of ns k)" by blast+
    have "fst ` set ms \<subseteq> fst ` set ns"
    proof
      fix k
      assume k: "k \<in> fst ` set ms"
      then have "map_of ms k \<noteq> None" by (simp add: map_of_eq_None_iff)
      then obtain v where "map_of ms k = Some v" by blast
      then have "map_of ns k \<noteq> None" using equals_type [OF e(2) [OF k]] get_type_none(1) by (metis option.distinct(1))
      then show "k \<in> fst ` set ns" by (simp add: map_of_eq_None_iff)
    qed
    from same_names [OF d e(1) this] have "dom (map_of ms) = dom (map_of ns)" by (simp add: dom_map_of_conv_image_fst)
    moreover have "json_value_equals (Some v) (Some w)" if "map_of ms k = Some v" "map_of ns k = Some w" for k v w
    proof -
      have "k \<in> fst ` set ms" using that(1) by (metis domI dom_map_of_conv_image_fst)
      from e(2) [OF this] show ?thesis using that by simp
    qed
    ultimately show ?r by blast
  next
    assume r: ?r
    then have f: "fst ` set ms = fst ` set ns" by (simp add: dom_map_of_conv_image_fst)
    have "length ms = length ns" using distinct_card [OF d(1)] distinct_card [OF d(2)] f by simp
    moreover have "json_value_equals (map_of ms k) (map_of ns k)" if "k \<in> fst ` set ms" for k
    proof -
      have "map_of ms k \<noteq> None" "map_of ns k \<noteq> None" using that f by (simp_all add: map_of_eq_None_iff)
      then obtain v w where "map_of ms k = Some v" "map_of ns k = Some w" by blast
      then show ?thesis using r by simp
    qed
    ultimately show ?l using l by blast
  qed
qed

lemma equals_array: "json_value_equals (Some (V_Array (Json_Array vs c))) (Some (V_Array (Json_Array ws d))) \<longleftrightarrow>
    list_all2 (\<lambda>v w. json_value_equals (Some v) (Some w)) vs ws"
  using equal_items_all [of vs ws]
  by (auto simp: json_value_equals.simps [of "Some (V_Array x)" for x] json_array_get_count_def json_value_get_type_def
      json_value_get_array_def dest: list_all2_lengthD)

lemma member_size: "map_of ms k = Some v \<Longrightarrow> size v < size (V_Object (Json_Object ms c))"
  using map_of_smaller [of ms k v c] by simp

lemma item_size: "v \<in> set vs \<Longrightarrow> size v < size (V_Array (Json_Array vs c))"
  by (induction vs) auto

lemma deep_fits_parts:
  "deep_fits (V_Object (Json_Object ms c)) \<Longrightarrow> distinct (map fst ms)"
  "deep_fits (V_Object (Json_Object ms c)) \<Longrightarrow> map_of ms k = Some v \<Longrightarrow> deep_fits v"
  "deep_fits (V_Array (Json_Array vs c)) \<Longrightarrow> v \<in> set vs \<Longrightarrow> deep_fits v"
  using deep_fits_member [of "Json_Object ms c" k v] by (auto simp: object_fits_def)

lemma equals_same: "deep_fits a \<Longrightarrow> deep_fits b \<Longrightarrow> json_value_equals (Some a) (Some b) \<longleftrightarrow> same_json a b"
proof (induction "size a" arbitrary: a b rule: less_induct)
  case less
  show ?case
  proof (cases "json_value_get_type (Some a) = json_value_get_type (Some b)")
    case False
    then have "\<not> same_json a b" by (auto simp: json_value_get_type_def elim!: same_json.cases)
    then show ?thesis using False by (simp add: json_value_equals.simps)
  next
    case True
    show ?thesis
    proof (cases a)
      case (V_Array x)
      then obtain vs c ws d where ab: "a = V_Array (Json_Array vs c)" "b = V_Array (Json_Array ws d)"
        using True by (cases b; cases x) (auto simp: json_value_get_type_def intro: json_array.exhaust)
      have "list_all2 (\<lambda>v w. json_value_equals (Some v) (Some w)) vs ws \<longleftrightarrow> list_all2 same_json vs ws"
        using less ab item_size deep_fits_parts(3) by (intro list.rel_cong) blast+
      then show ?thesis using ab by (simp add: equals_array)
    next
      case (V_Object x)
      then obtain ms c ns d where ab: "a = V_Object (Json_Object ms c)" "b = V_Object (Json_Object ns d)"
        using True by (cases b; cases x) (auto simp: json_value_get_type_def intro: json_object.exhaust)
      have d: "distinct (map fst ms)" "distinct (map fst ns)" using less.prems ab deep_fits_parts(1) by blast+
      have "json_value_equals (Some v) (Some w) \<longleftrightarrow> same_json v w" if "map_of ms k = Some v" "map_of ns k = Some w" for k v w
        using less.hyps [of v w] member_size [OF that(1)] deep_fits_parts(2) less.prems that ab by blast
      then show ?thesis unfolding ab equals_object [OF d] by auto
    qed (use True in \<open>cases b; auto simp: json_value_equals.simps json_value_get_type_def json_value_get_string_def
        json_value_get_boolean_def json_value_get_number_def\<close>)+
  qed
qed

lemma same_commute: "same_json a b \<Longrightarrow> same_json b a"
proof (induction rule: same_json.induct)
  case (same_array vs ws c d)
  then show ?case by (auto simp: list_all2_conv_all_nth)
qed (auto simp: near_commute)

text \<open>C34: equality compares objects as maps, whatever the order of their members, arrays item by item and
  numbers up to the tolerance, and it does not depend on the order of its arguments.\<close>

theorem json_value_equals_correct:
  assumes "deep_fits a" "deep_fits b"
  shows "json_value_equals (Some a) (Some b) = same_json a b \<and>
    json_value_equals (Some b) (Some a) = json_value_equals (Some a) (Some b)"
  using equals_same [OF assms] equals_same [OF assms(2,1)] same_commute by blast

theorem json_value_equals_correct_witness:
  "json_value_equals (Some (V_Object small_object)) (Some sample) = same_json (V_Object small_object) sample \<and>
    json_value_equals (Some sample) (Some (V_Object small_object)) = json_value_equals (Some (V_Object small_object)) (Some sample)"
  by (rule json_value_equals_correct)
    (simp_all add: small_object_def sample_def object_fits_def array_fits_def OBJECT_MAX_CAPACITY_def ARRAY_MAX_CAPACITY_def)

section \<open>Schemas\<close>

text \<open>
  The rules that \<open>parson.h\<close> gives: null accepts every value, an empty array every array, an empty object
  every object; of an array the first value counts, of an object every name.
\<close>

inductive conforms :: "json_value \<Rightarrow> json_value \<Rightarrow> bool" where
  conforms_null: "conforms V_Null v"
| conforms_boolean: "conforms (V_Boolean b) (V_Boolean c)"
| conforms_string: "conforms (V_String s) (V_String t)"
| conforms_number: "conforms (V_Number d) (V_Number e)"
| conforms_any: "conforms (V_Array (Json_Array [] c)) (V_Array a)"
| conforms_array: "(\<forall>w \<in> set ws. conforms s w) \<Longrightarrow> conforms (V_Array (Json_Array (s # ss) c)) (V_Array (Json_Array ws d))"
| conforms_object: "(\<forall>k s. map_of ms k = Some s \<longrightarrow> (\<exists>w. map_of ns k = Some w \<and> conforms s w)) \<Longrightarrow>
    conforms (V_Object (Json_Object ms c)) (V_Object (Json_Object ns d))"

inductive_simps conforms_simps [simp]:
  "conforms V_Null v" "conforms (V_Boolean b) v" "conforms (V_String s) v" "conforms (V_Number e) v"
  "conforms (V_Array (Json_Array vs c)) v" "conforms (V_Object (Json_Object ms c)) v"

lemma failure_iff: "st = JSONFailure \<longleftrightarrow> st \<noteq> JSONSuccess"
  by (cases st) simp_all

lemma validate_items_all: "validate_items s ws = JSONSuccess \<longleftrightarrow> (\<forall>w \<in> set ws. json_validate s (Some w) = JSONSuccess)"
  by (induction ws) (simp_all add: failure_iff)

lemma validate_members_all: "validate_members x (Some y) ms = JSONSuccess \<longleftrightarrow>
    (\<forall>k \<in> fst ` set ms. map_of (obj_members y) k \<noteq> None \<and>
      json_validate (map_of (obj_members x) k) (map_of (obj_members y) k) = JSONSuccess)"
proof (induction ms)
  case (Cons p ms)
  then show ?case by (cases p) (simp add: failure_iff)
qed simp

lemma validate_object:
  assumes d: "distinct (map fst ms)" "distinct (map fst ns)"
  shows "json_validate (Some (V_Object (Json_Object ms c))) (Some (V_Object (Json_Object ns e))) = JSONSuccess \<longleftrightarrow>
    (\<forall>k s. map_of ms k = Some s \<longrightarrow> (\<exists>w. map_of ns k = Some w \<and> json_validate (Some s) (Some w) = JSONSuccess))" (is "?l \<longleftrightarrow> ?r")
proof -
  have "ms = [] \<or> length ms \<le> length ns \<and> (\<forall>k \<in> fst ` set ms. map_of ns k \<noteq> None \<and>
      json_validate (map_of ms k) (map_of ns k) = JSONSuccess) \<longleftrightarrow> ?l"
    by (cases "ms = []"; cases "length ns < length ms")
      (simp_all add: json_validate.simps json_object_get_count_def json_value_get_type_def validate_members_all)
  moreover have r: "?r \<longleftrightarrow> (\<forall>k \<in> fst ` set ms. map_of ns k \<noteq> None \<and> json_validate (map_of ms k) (map_of ns k) = JSONSuccess)"
  proof
    assume r: ?r
    show "\<forall>k \<in> fst ` set ms. map_of ns k \<noteq> None \<and> json_validate (map_of ms k) (map_of ns k) = JSONSuccess"
    proof
      fix k
      assume "k \<in> fst ` set ms"
      then have "map_of ms k \<noteq> None" by (simp add: map_of_eq_None_iff)
      then obtain s where "map_of ms k = Some s" by blast
      with r obtain w where "map_of ns k = Some w" "json_validate (Some s) (Some w) = JSONSuccess" by blast
      with \<open>map_of ms k = Some s\<close> show "map_of ns k \<noteq> None \<and> json_validate (map_of ms k) (map_of ns k) = JSONSuccess" by simp
    qed
  next
    assume a: "\<forall>k \<in> fst ` set ms. map_of ns k \<noteq> None \<and> json_validate (map_of ms k) (map_of ns k) = JSONSuccess"
    show ?r
    proof (intro allI impI)
      fix k s
      assume s: "map_of ms k = Some s"
      then have "k \<in> fst ` set ms" by (metis domI dom_map_of_conv_image_fst)
      with a s show "\<exists>w. map_of ns k = Some w \<and> json_validate (Some s) (Some w) = JSONSuccess" by fastforce
    qed
  qed
  moreover have "length ms \<le> length ns" if ?r
  proof -
    have "fst ` set ms \<subseteq> fst ` set ns"
    proof
      fix k
      assume "k \<in> fst ` set ms"
      then have "map_of ns k \<noteq> None" using that r by blast
      then show "k \<in> fst ` set ns" by (simp add: map_of_eq_None_iff)
    qed
    then have "card (fst ` set ms) \<le> card (fst ` set ns)" by (intro card_mono) simp_all
    then show ?thesis using distinct_card [OF d(1)] distinct_card [OF d(2)] by simp
  qed
  ultimately show ?thesis by fastforce
qed

lemma validate_array: "json_validate (Some (V_Array (Json_Array vs c))) (Some (V_Array (Json_Array ws d))) = JSONSuccess \<longleftrightarrow>
    (case vs of [] \<Rightarrow> True | s # _ \<Rightarrow> \<forall>w \<in> set ws. json_validate (Some s) (Some w) = JSONSuccess)"
  by (cases vs) (simp_all add: json_validate.simps [of "Some (V_Array x)" for x] json_array_get_count_def json_value_get_type_def
      json_value_get_array_def json_array_get_value_def validate_items_all)

lemma validate_conforms: "deep_fits s \<Longrightarrow> deep_fits v \<Longrightarrow> json_validate (Some s) (Some v) = JSONSuccess \<longleftrightarrow> conforms s v"
proof (induction "size s" arbitrary: s v rule: less_induct)
  case less
  show ?case
  proof (cases "json_value_get_type (Some s) = json_value_get_type (Some v) \<or> s = V_Null")
    case False
    then have "\<not> conforms s v" by (auto simp: json_value_get_type_def elim!: conforms.cases)
    moreover have "json_value_get_type (Some s) \<noteq> JSONNull" using False
      by (auto simp: json_value_get_type_def split: json_value.splits)
    ultimately show ?thesis using False by (simp add: json_validate.simps)
  next
    case True
    show ?thesis
    proof (cases s)
      case (V_Array x)
      then obtain vs c ws d where sv: "s = V_Array (Json_Array vs c)" "v = V_Array (Json_Array ws d)"
        using True by (cases v; cases x) (auto simp: json_value_get_type_def intro: json_array.exhaust)
      show ?thesis
      proof (cases vs)
        case Nil
        then show ?thesis using sv validate_array [of vs c ws d] by simp
      next
        case (Cons t ts)
        have "deep_fits t" using less.prems(1) unfolding sv Cons by simp
        moreover have "size t < size s" unfolding sv Cons by simp
        ultimately have "json_validate (Some t) (Some w) = JSONSuccess \<longleftrightarrow> conforms t w" if "w \<in> set ws" for w
          using less.hyps deep_fits_parts(3) less.prems(2) that sv(2) by blast
        then show ?thesis unfolding sv validate_array Cons by auto
      qed
    next
      case (V_Object x)
      then obtain ms c ns d where sv: "s = V_Object (Json_Object ms c)" "v = V_Object (Json_Object ns d)"
        using True by (cases v; cases x) (auto simp: json_value_get_type_def intro: json_object.exhaust)
      have d: "distinct (map fst ms)" "distinct (map fst ns)" using less.prems sv deep_fits_parts(1) by blast+
      have "json_validate (Some t) (Some w) = JSONSuccess \<longleftrightarrow> conforms t w" if "map_of ms k = Some t" "map_of ns k = Some w" for k t w
        using less.hyps [of t w] member_size [OF that(1)] deep_fits_parts(2) less.prems that sv by blast
      then have "(\<exists>w. map_of ns k = Some w \<and> json_validate (Some t) (Some w) = JSONSuccess) \<longleftrightarrow>
          (\<exists>w. map_of ns k = Some w \<and> conforms t w)" if "map_of ms k = Some t" for k t using that by blast
      then show ?thesis unfolding sv validate_object [OF d] by simp
    qed (use True in \<open>cases v; simp add: json_validate.simps json_value_get_type_def\<close>)+
  qed
qed

text \<open>C35: a value is accepted exactly when it conforms to the schema by the rules of the header; that the value
  has no fewer names than the schema follows from them.\<close>

theorem json_validate_correct:
  assumes "deep_fits s" "deep_fits v"
  shows "json_validate (Some s) (Some v) = (if conforms s v then JSONSuccess else JSONFailure)"
  using validate_conforms [OF assms] by (cases "json_validate (Some s) (Some v)") auto

theorem json_validate_correct_witness:
  "json_validate (Some (V_Object small_object)) (Some sample) =
    (if conforms (V_Object small_object) sample then JSONSuccess else JSONFailure)"
  by (rule json_validate_correct)
    (simp_all add: small_object_def sample_def object_fits_def array_fits_def OBJECT_MAX_CAPACITY_def ARRAY_MAX_CAPACITY_def)

end
