(* ===== verification/JsonComment.thy ===== *)
theory JsonComment
  imports JsonRoundtrip
begin

text \<open>
  Comments in the JSON library \<open>cplusplus/jsonbenchmark/parson.c\<close>: they are overwritten with spaces in a
  copy of the text, in two passes, before it is parsed.
\<close>

section \<open>The code\<close>

text \<open>The position of the first occurrence, as \<open>strstr\<close> of the C library finds it.\<close>

fun strstr :: "string \<Rightarrow> string \<Rightarrow> nat option" where
  "strstr [] e = (if e = [] then Some 0 else None)"
| "strstr (c # s) e = (if starts_with e (c # s) then Some 0 else map_option Suc (strstr s e))"

definition blanks :: "nat \<Rightarrow> string" where
  "blanks n = replicate n (CHR '' '')"

text \<open>The loop from the position where the rest of the text is left.\<close>

function remove_loop :: "string \<Rightarrow> string \<Rightarrow> bool \<Rightarrow> bool \<Rightarrow> string \<Rightarrow> string" where
  "remove_loop start_token end_token in_string esc [] = []"
| "remove_loop start_token end_token in_string esc (c # s) =
     (if c = CHR 0x5C \<and> \<not> esc then c # remove_loop start_token end_token in_string True s
      else if c = CHR 0x22 \<and> \<not> esc then c # remove_loop start_token end_token (\<not> in_string) False s
      else if \<not> in_string \<and> starts_with start_token (c # s) then
        (let r = drop (length start_token) (c # s) in
         case strstr r end_token of
           None \<Rightarrow> blanks (length start_token) @ r
         | Some n \<Rightarrow>
             blanks (length start_token) @ blanks (n + length end_token) @
             remove_loop start_token end_token in_string False (tl (drop (n + length end_token - 1) r)))
      else c # remove_loop start_token end_token in_string False s)"
  by pat_completeness auto
termination
  by (relation "measure (\<lambda>(a, b, i, e, s). length s)") auto

definition remove_comments :: "string \<Rightarrow> string \<Rightarrow> string \<Rightarrow> string" where
  "remove_comments s start_token end_token =
     (if start_token = [] \<or> end_token = [] then s else remove_loop start_token end_token False False s)"


section \<open>Pieces of a text\<close>








section \<open>The two passes\<close>

declare remove_loop.simps(2) [simp del]












section \<open>The text of a value in pieces\<close>














text \<open>
  A quote in a line comment is taken for the start of a string by the first pass: the block comment
  behind it stays, and the text is rejected.
\<close>

lemma quote_in_line_comment:
  "remove_comments (remove_comments (''//'' @ [CHR 0x22, CHR 0x0A] @ ''/**/1'') ''/*'' ''*/'') ''//'' [CHR 0x0A] = ''    /**/1''"
  by (simp add: remove_comments_def remove_loop.simps(2) starts_with_def blanks_def Let_def numeral_eq_Suc)

end
