(* ===== verification/AllocTesting.thy ===== *)
theory AllocTesting
  imports Arrays Compare
begin

text \<open>
  The testing allocator of libcalg, \<open>libcalg/test/alloc-testing.c\<close>, and the driver of the tests,
  \<open>framework.c\<close>: the tests replace \<open>malloc\<close>, \<open>free\<close> and their relatives by these functions, which count the
  bytes in use and can be told to fail.

  The C allocator below them is the one of the prelude.  A block is a cell of the heap: the header
  that is put in front of it, and its bytes, which are undefined until they are written.  The pointer to
  the header and the pointer to the bytes behind it name the same cell.  An assertion that
  fails ends the program, and is \<open>None\<close> as undefined behaviour is.
\<close>

section \<open>Blocks\<close>

type_synonym size_t = "64 word"

definition ALLOC_TEST_MAGIC :: c_uint where "ALLOC_TEST_MAGIC = 0x72ec82d2"
definition MALLOC_PATTERN :: c_uint where "MALLOC_PATTERN = 0xBAADF00D"
definition FREE_PATTERN :: c_uint where "FREE_PATTERN = 0xDEADBEEF"

text \<open>\<open>BlockHeader\<close> with the bytes behind it; on the 64-bit machines of the code it has 16 bytes.\<close>

record test_block =
  magic_number :: c_uint
  block_bytes :: size_t
  contents :: "byte cells"

definition sizeof_BlockHeader :: size_t where "sizeof_BlockHeader = 16"

record alloc_test =
  blocks :: "test_block mem"
  allocated_bytes :: size_t
  allocation_limit :: int

definition alloc_test_get_header :: "addr \<Rightarrow> test_block mem \<Rightarrow> test_block option" where
  "alloc_test_get_header ptr m = do {
     result \<leftarrow> load ptr m;
     if magic_number result = ALLOC_TEST_MAGIC then Some result else None }"

unbundle bit_operations_syntax

definition pattern_byte :: "c_uint \<Rightarrow> size_t \<Rightarrow> byte" where
  "pattern_byte pattern i =
     (let pattern_seq = unat (i AND 3)
      in ucast (drop_bit (8 * pattern_seq) pattern AND 0xff))"

fun overwrite_loop :: "c_uint \<Rightarrow> nat \<Rightarrow> nat \<Rightarrow> byte cells \<Rightarrow> byte cells option" where
  "overwrite_loop pattern i 0 byte_ptr = Some byte_ptr"
| "overwrite_loop pattern i (Suc n) byte_ptr = do {
     byte_ptr \<leftarrow> array_set byte_ptr i (pattern_byte pattern (of_nat i));
     overwrite_loop pattern (Suc i) n byte_ptr }"

definition alloc_test_overwrite :: "byte cells \<Rightarrow> size_t \<Rightarrow> c_uint \<Rightarrow> byte cells option" where
  "alloc_test_overwrite ptr len pattern = overwrite_loop pattern 0 (unat len) ptr"

section \<open>The allocator\<close>

text \<open>
  The sum \<open>sizeof(BlockHeader) + bytes\<close> wraps around for the largest sizes; then the block that
  \<open>malloc\<close> returns is smaller than the header.
\<close>

definition alloc_test_malloc :: "size_t \<Rightarrow> alloc_test \<Rightarrow> (addr \<times> alloc_test) option" where
  "alloc_test_malloc bytes s =
     (if allocation_limit s = 0 then Some (0, s)
      else
        let n = sizeof_BlockHeader + bytes;
            block = \<lparr>magic_number = 0, block_bytes = 0, contents = array_new (unat n - unat sizeof_BlockHeader)\<rparr>;
            (header, m) = malloc block (blocks s)
        in if header = 0 then Some (0, s\<lparr>blocks := m\<rparr>)
           else if n < sizeof_BlockHeader then None
           else do {
             let block = block\<lparr>magic_number := ALLOC_TEST_MAGIC, block_bytes := bytes\<rparr>;
             filled \<leftarrow> alloc_test_overwrite (contents block) bytes MALLOC_PATTERN;
             m \<leftarrow> store header (block\<lparr>contents := filled\<rparr>) m;
             let s = s\<lparr>blocks := m, allocated_bytes := allocated_bytes s + bytes\<rparr>;
             let s = (if allocation_limit s > 0 then s\<lparr>allocation_limit := allocation_limit s - 1\<rparr> else s);
             Some (header, s) })"

definition alloc_test_free :: "addr \<Rightarrow> alloc_test \<Rightarrow> alloc_test option" where
  "alloc_test_free ptr s =
     (if ptr = 0 then Some s
      else do {
        header \<leftarrow> alloc_test_get_header ptr (blocks s);
        let block_size = block_bytes header;
        if allocated_bytes s \<ge> block_size then do {
          trash \<leftarrow> alloc_test_overwrite (contents header) (block_bytes header) FREE_PATTERN;
          m \<leftarrow> store ptr (header\<lparr>contents := trash, magic_number := 0\<rparr>) (blocks s);
          m \<leftarrow> free ptr m;
          Some (s\<lparr>blocks := m, allocated_bytes := allocated_bytes s - block_size\<rparr>)
        } else None })"

text \<open>\<open>memcpy\<close> of \<open>n\<close> bytes from one block to another, and \<open>memset\<close> to zero.\<close>

definition copy_block :: "byte cells \<Rightarrow> byte cells \<Rightarrow> nat \<Rightarrow> byte cells option" where
  "copy_block dst src n =
     (if n \<le> length dst \<and> n \<le> length src then Some (take n src @ drop n dst) else None)"

definition zero_block :: "byte cells \<Rightarrow> nat \<Rightarrow> byte cells option" where
  "zero_block dst n = (if n \<le> length dst then Some (replicate n (Some 0) @ drop n dst) else None)"

definition alloc_test_realloc :: "addr \<Rightarrow> size_t \<Rightarrow> alloc_test \<Rightarrow> (addr \<times> alloc_test) option" where
  "alloc_test_realloc ptr bytes s = do {
     (new_ptr, s) \<leftarrow> alloc_test_malloc bytes s;
     if new_ptr = 0 then Some (0, s)
     else if ptr \<noteq> 0 then do {
       header \<leftarrow> alloc_test_get_header ptr (blocks s);
       let bytes_to_copy = (if block_bytes header > bytes then bytes else block_bytes header);
       block \<leftarrow> load new_ptr (blocks s);
       copied \<leftarrow> copy_block (contents block) (contents header) (unat bytes_to_copy);
       m \<leftarrow> store new_ptr (block\<lparr>contents := copied\<rparr>) (blocks s);
       s \<leftarrow> alloc_test_free ptr (s\<lparr>blocks := m\<rparr>);
       Some (new_ptr, s)
     } else Some (new_ptr, s) }"

definition alloc_test_calloc :: "size_t \<Rightarrow> size_t \<Rightarrow> alloc_test \<Rightarrow> (addr \<times> alloc_test) option" where
  "alloc_test_calloc nmemb bytes s = do {
     let total_bytes = nmemb * bytes;
     (result, s) \<leftarrow> alloc_test_malloc total_bytes s;
     if result = 0 then Some (0, s)
     else do {
       block \<leftarrow> load result (blocks s);
       zeroed \<leftarrow> zero_block (contents block) (unat total_bytes);
       m \<leftarrow> store result (block\<lparr>contents := zeroed\<rparr>) (blocks s);
       Some (result, s\<lparr>blocks := m\<rparr>) } }"

text \<open>The string is given by its bytes in front of the terminating zero, which \<open>strcpy\<close> copies as well.\<close>

definition alloc_test_strdup :: "c_string \<Rightarrow> alloc_test \<Rightarrow> (addr \<times> alloc_test) option" where
  "alloc_test_strdup str s = do {
     (result, s) \<leftarrow> alloc_test_malloc (of_nat (length str) + 1) s;
     if result = 0 then Some (0, s)
     else do {
       block \<leftarrow> load result (blocks s);
       copied \<leftarrow> copy_block (contents block) (map Some (str @ [0])) (length str + 1);
       m \<leftarrow> store result (block\<lparr>contents := copied\<rparr>) (blocks s);
       Some (result, s\<lparr>blocks := m\<rparr>) } }"

definition alloc_test_set_limit :: "int \<Rightarrow> alloc_test \<Rightarrow> alloc_test" where
  "alloc_test_set_limit alloc_count s = s\<lparr>allocation_limit := alloc_count\<rparr>"

definition alloc_test_get_allocated :: "alloc_test \<Rightarrow> size_t" where
  "alloc_test_get_allocated s = allocated_bytes s"

section \<open>The driver\<close>

definition run_test :: "(alloc_test \<Rightarrow> alloc_test option) \<Rightarrow> alloc_test \<Rightarrow> alloc_test option" where
  "run_test test s = do {
     let s = alloc_test_set_limit (-1) s;
     s \<leftarrow> test s;
     if alloc_test_get_allocated s = 0 then Some s else None }"

primrec run_tests :: "(alloc_test \<Rightarrow> alloc_test option) list \<Rightarrow> alloc_test \<Rightarrow> alloc_test option" where
  "run_tests [] s = Some s"
| "run_tests (test # tests) s = do { s \<leftarrow> run_test test s; run_tests tests s }"

section \<open>Filling and copying\<close>

lemma overwrite_loop_fills:
  "i + n \<le> length ptr \<Longrightarrow> overwrite_loop pattern i n ptr =
     Some (take i ptr @ map (\<lambda>j. Some (pattern_byte pattern (of_nat j))) [i ..< i + n] @ drop (i + n) ptr)"
proof (induction n arbitrary: i ptr)
  case 0
  then show ?case by simp
next
  case (Suc n)
  then have "i < length ptr" by simp
  with Suc show ?case
    by (simp add: array_set_def take_Suc_conv_app_nth [of i] upt_conv_Cons del: upt_Suc)
qed

definition filled :: "c_uint \<Rightarrow> nat \<Rightarrow> byte cells" where
  "filled pattern n = map (\<lambda>j. Some (pattern_byte pattern (of_nat j))) [0 ..< n]"

lemma filled_length [simp]: "length (filled pattern n) = n"
  by (simp add: filled_def)

lemma alloc_test_overwrite_fills:
  "length ptr = unat len \<Longrightarrow> alloc_test_overwrite ptr len pattern = Some (filled pattern (unat len))"
  by (simp add: alloc_test_overwrite_def overwrite_loop_fills filled_def)

section \<open>The invariant\<close>

definition block_ok :: "test_block \<Rightarrow> bool" where
  "block_ok b \<longleftrightarrow> magic_number b = ALLOC_TEST_MAGIC \<and> length (contents b) = unat (block_bytes b)"

abbreviation live :: "alloc_test \<Rightarrow> addr \<rightharpoonup> test_block" where
  "live s \<equiv> heap (blocks s)"

definition live_bytes :: "alloc_test \<Rightarrow> nat" where
  "live_bytes s = (\<Sum>p \<in> dom (live s). unat (block_bytes (the (live s p))))"

definition accounted :: "alloc_test \<Rightarrow> bool" where
  "accounted s \<longleftrightarrow> finite (dom (live s)) \<and> 0 \<notin> dom (live s) \<and>
     (\<forall>p b. live s p = Some b \<longrightarrow> block_ok b) \<and> unat (allocated_bytes s) = live_bytes s"

text \<open>A C allocator hands out a block only if it fits into the 64-bit address space beside the others.\<close>

definition has_room :: "alloc_test \<Rightarrow> size_t \<Rightarrow> bool" where
  "has_room s n \<longleftrightarrow> live_bytes s + unat n + 16 < 2 ^ 64"

lemma live_bytes_insert:
  "finite (dom h) \<Longrightarrow> h p = None \<Longrightarrow>
   (\<Sum>q \<in> dom (h(p \<mapsto> b)). unat (block_bytes (the ((h(p \<mapsto> b)) q)))) =
   unat (block_bytes b) + (\<Sum>q \<in> dom h. unat (block_bytes (the (h q))))"
  by (simp add: sum.insert domIff) (rule sum.cong, auto simp: domIff)

lemma live_bytes_remove:
  assumes "finite (dom h)" "h p = Some b"
  shows "unat (block_bytes b) + (\<Sum>q \<in> dom (h(p := None)). unat (block_bytes (the ((h(p := None)) q)))) =
    (\<Sum>q \<in> dom h. unat (block_bytes (the (h q))))"
  using live_bytes_insert [of "h(p := None)" p b] assms by (simp add: fun_upd_idem)

lemma live_bytes_update:
  assumes "h p = Some b" "block_bytes b' = block_bytes b"
  shows "(\<Sum>q \<in> dom (h(p \<mapsto> b')). unat (block_bytes (the ((h(p \<mapsto> b')) q)))) =
    (\<Sum>q \<in> dom h. unat (block_bytes (the (h q))))"
  using assms by (intro sum.cong) auto

lemma accountedD:
  assumes "accounted s" "live s p = Some b"
  shows "p \<noteq> 0" "magic_number b = ALLOC_TEST_MAGIC" "length (contents b) = unat (block_bytes b)"
    "unat (block_bytes b) \<le> live_bytes s"
proof -
  from assms show "p \<noteq> 0" "magic_number b = ALLOC_TEST_MAGIC" "length (contents b) = unat (block_bytes b)"
    by (cases "p = 0"; auto simp: accounted_def block_ok_def)+
  from assms have "finite (dom (live s))" by (simp add: accounted_def)
  from live_bytes_remove [OF this assms(2)] show "unat (block_bytes b) \<le> live_bytes s"
    by (simp add: live_bytes_def)
qed

section \<open>What the operations do\<close>

definition fresh_block :: "size_t \<Rightarrow> test_block" where
  "fresh_block n = \<lparr>magic_number = ALLOC_TEST_MAGIC, block_bytes = n, contents = filled MALLOC_PATTERN (unat n)\<rparr>"

lemma room_sum:
  assumes "has_room s n"
  shows "unat (sizeof_BlockHeader + n) = 16 + unat n" "\<not> sizeof_BlockHeader + n < sizeof_BlockHeader"
    "accounted s \<Longrightarrow> unat (allocated_bytes s + n) = live_bytes s + unat n"
proof -
  have n: "unat n < 2 ^ 64 - 16" using assms by (simp add: has_room_def)
  then show u: "unat (sizeof_BlockHeader + n) = 16 + unat n"
    by (simp add: sizeof_BlockHeader_def unat_word_ariths)
  then show "\<not> sizeof_BlockHeader + n < sizeof_BlockHeader"
    by (simp add: word_less_nat_alt sizeof_BlockHeader_def)
  show "unat (allocated_bytes s + n) = live_bytes s + unat n" if "accounted s"
    using assms that by (simp add: has_room_def accounted_def unat_word_ariths)
qed

text \<open>A call of \<open>alloc_test_malloc\<close> that gets a block, and one that does not.\<close>

definition spent_limit :: "int \<Rightarrow> int" where
  "spent_limit k = (if k > 0 then k - 1 else k)"

lemma alloc_test_malloc_cases:
  assumes inv: "accounted s" and room: "has_room s n"
  obtains (none) s' where "alloc_test_malloc n s = Some (0, s')" "live s' = live s"
    "allocated_bytes s' = allocated_bytes s" "allocation_limit s' = allocation_limit s" "accounted s'"
    "allocation_limit s = 0 \<or> \<not> can_alloc (blocks s)"
  | (some) p s' where "alloc_test_malloc n s = Some (p, s')" "p \<noteq> 0" "live s p = None"
    "live s' = (live s)(p \<mapsto> fresh_block n)" "allocation_limit s' = spent_limit (allocation_limit s)" "accounted s'"
    "live_bytes s' = live_bytes s + unat n" "allocation_limit s \<noteq> 0" "can_alloc (blocks s)"
proof (cases "allocation_limit s = 0")
  case True
  with inv none [of s] show ?thesis by (simp add: alloc_test_malloc_def)
next
  case False
  let ?block = "\<lparr>magic_number = 0, block_bytes = 0, contents = array_new (unat (sizeof_BlockHeader + n) - unat sizeof_BlockHeader)\<rparr> :: test_block"
  show ?thesis
  proof (cases rule: malloc_cases [where n = ?block and m = "blocks s"])
    case (fail m')
    let ?s = "s\<lparr>blocks := m'\<rparr>"
    have "alloc_test_malloc n s = Some (0, ?s)"
      using False fail(1) by (simp add: alloc_test_malloc_def Let_def)
    moreover have "accounted ?s"
      using inv fail(3) by (simp add: accounted_def live_bytes_def)
    ultimately show ?thesis using fail by (intro none [of ?s]) simp_all
  next
    case (ok p m')
    let ?m = "m'\<lparr>heap := (live s)(p \<mapsto> fresh_block n)\<rparr>"
    let ?s = "s\<lparr>blocks := ?m, allocated_bytes := allocated_bytes s + n, allocation_limit := spent_limit (allocation_limit s)\<rparr>"
    have fill: "alloc_test_overwrite (array_new (unat (sizeof_BlockHeader + n) - unat sizeof_BlockHeader)) n MALLOC_PATTERN =
        Some (filled MALLOC_PATTERN (unat n))"
      by (rule alloc_test_overwrite_fills) (simp add: room_sum(1) [OF room], simp add: sizeof_BlockHeader_def)
    have "alloc_test_malloc n s = Some (p, ?s)"
      using False ok room_sum(2) [OF room]
      by (simp add: alloc_test_malloc_def Let_def fill mem_simps fresh_block_def spent_limit_def)
    moreover have bytes: "live_bytes ?s = live_bytes s + unat n"
      using live_bytes_insert [of "live s" p "fresh_block n"] inv ok(5)
      by (simp add: accounted_def live_bytes_def fresh_block_def)
    moreover have "accounted ?s"
      using inv ok(4) bytes room_sum(3) [OF room inv]
      by (simp add: accounted_def) (simp add: block_ok_def fresh_block_def)
    ultimately show ?thesis using ok False by (intro some [of p ?s]) simp_all
  qed
qed

lemma alloc_test_free_live:
  assumes inv: "accounted s" and p: "live s p = Some b"
  obtains s' where "alloc_test_free p s = Some s'" "live s' = (live s)(p := None)" "accounted s'"
    "live_bytes s' + unat (block_bytes b) = live_bytes s" "allocation_limit s' = allocation_limit s"
    "answers (blocks s') = answers (blocks s)"
proof -
  note b = accountedD [OF inv p]
  let ?s = "s\<lparr>blocks := (blocks s)\<lparr>heap := (live s)(p := None)\<rparr>, allocated_bytes := allocated_bytes s - block_bytes b\<rparr>"
  have le: "block_bytes b \<le> allocated_bytes s"
    using b(4) inv by (simp add: word_le_nat_alt accounted_def)
  have "alloc_test_free p s = Some ?s"
    using b p le by (simp add: alloc_test_free_def alloc_test_get_header_def alloc_test_overwrite_fills mem_simps)
  moreover have bytes: "live_bytes ?s + unat (block_bytes b) = live_bytes s"
    using live_bytes_remove [of "live s" p b] inv p by (simp add: accounted_def live_bytes_def)
  moreover have "unat (allocated_bytes s - block_bytes b) = live_bytes ?s"
    using le bytes inv by (simp add: unat_sub accounted_def)
  then have "accounted ?s"
    using inv by (simp add: accounted_def dom_minus)
  ultimately show ?thesis by (intro that [of ?s]) simp_all
qed

text \<open>A block in use whose bytes change.\<close>

lemma rewritten:
  assumes inv: "accounted s" and p: "live s p = Some b" and len: "length c = length (contents b)"
  defines "s' \<equiv> s\<lparr>blocks := (blocks s)\<lparr>heap := (live s)(p \<mapsto> b\<lparr>contents := c\<rparr>)\<rparr>\<rparr>"
  shows "store p (b\<lparr>contents := c\<rparr>) (blocks s) = Some (blocks s')" "accounted s'" "live_bytes s' = live_bytes s"
proof -
  note b = accountedD [OF inv p]
  show "store p (b\<lparr>contents := c\<rparr>) (blocks s) = Some (blocks s')"
    using b p by (simp add: s'_def mem_simps)
  show bytes: "live_bytes s' = live_bytes s"
    using live_bytes_update [of "live s" p b "b\<lparr>contents := c\<rparr>"] p by (simp add: live_bytes_def s'_def)
  with inv b p len show "accounted s'"
    by (simp add: accounted_def s'_def live_bytes_def insert_absorb domI) (simp add: block_ok_def)
qed

text \<open>A call that returns a fresh block with the bytes \<open>c\<close>, or NULL and leaves the blocks as they are.\<close>

definition gives :: "(addr \<times> alloc_test) option \<Rightarrow> alloc_test \<Rightarrow> (addr \<rightharpoonup> test_block) \<Rightarrow> size_t \<Rightarrow> byte cells \<Rightarrow> bool" where
  "gives result s rest n c \<longleftrightarrow> (\<exists>q s'. result = Some (q, s') \<and> accounted s' \<and>
     (if q = 0 then live s' = live s \<and> (allocation_limit s = 0 \<or> \<not> can_alloc (blocks s))
      else live s q = None \<and> allocation_limit s' = spent_limit (allocation_limit s) \<and>
        live s' = rest(q \<mapsto> \<lparr>magic_number = ALLOC_TEST_MAGIC, block_bytes = n, contents = c\<rparr>)))"

lemma alloc_test_malloc_gives:
  assumes "accounted s" "has_room s n"
  shows "gives (alloc_test_malloc n s) s (live s) n (filled MALLOC_PATTERN (unat n))"
  using assms
proof (cases rule: alloc_test_malloc_cases)
  case (none s')
  then show ?thesis by (auto simp: gives_def)
next
  case (some p s')
  then show ?thesis by (simp add: gives_def fresh_block_def)
qed

text \<open>The bytes of a fresh block are replaced before it is returned.\<close>

lemma gives_rewritten:
  assumes inv: "accounted s" and room: "has_room s n" and len: "length c = unat n"
    and step: "\<And>q s'. alloc_test_malloc n s = Some (q, s') \<Longrightarrow> q \<noteq> 0 \<Longrightarrow> live s' q = Some (fresh_block n) \<Longrightarrow>
      load q (blocks s') = Some (fresh_block n) \<Longrightarrow>
      store q (fresh_block n\<lparr>contents := c\<rparr>) (blocks s') =
        Some ((blocks s')\<lparr>heap := (live s')(q \<mapsto> fresh_block n\<lparr>contents := c\<rparr>)\<rparr>) \<Longrightarrow>
      f = Some (q, s'\<lparr>blocks := (blocks s')\<lparr>heap := (live s')(q \<mapsto> fresh_block n\<lparr>contents := c\<rparr>)\<rparr>\<rparr>)"
    and fail: "\<And>s'. alloc_test_malloc n s = Some (0, s') \<Longrightarrow> f = Some (0, s')"
  shows "gives f s (live s) n c"
  using inv room
proof (cases rule: alloc_test_malloc_cases)
  case (none s')
  with fail [OF none(1)] show ?thesis by (auto simp: gives_def)
next
  case (some p s')
  then have p: "live s' p = Some (fresh_block n)" by simp
  from len have len': "length c = length (contents (fresh_block n))" by (simp add: fresh_block_def)
  note rw = rewritten [OF some(6) p len']
  have "f = Some (p, s'\<lparr>blocks := (blocks s')\<lparr>heap := (live s')(p \<mapsto> fresh_block n\<lparr>contents := c\<rparr>)\<rparr>\<rparr>)"
    using rw(1) some(2) p by (intro step [OF some(1)]) (simp_all add: mem_simps)
  with rw(2) some show ?thesis by (simp add: gives_def fresh_block_def)
qed

lemma alloc_test_calloc_gives:
  assumes "accounted s" "has_room s (k * n)"
  shows "gives (alloc_test_calloc k n s) s (live s) (k * n) (replicate (unat (k * n)) (Some 0))"
  using assms by (intro gives_rewritten)
    (simp_all add: alloc_test_calloc_def Let_def zero_block_def fresh_block_def)

lemma alloc_test_strdup_gives:
  assumes "accounted s" "has_room s (of_nat (length str) + 1)" "length str + 1 < 2 ^ 64"
  shows "gives (alloc_test_strdup str s) s (live s) (of_nat (length str) + 1) (map Some (str @ [0]))"
proof -
  have "unat (of_nat (length str) + 1 :: size_t) = length str + 1"
    using assms(3) by (simp add: unat_word_ariths unat_of_nat)
  with assms show ?thesis
    by (intro gives_rewritten)
      (simp_all add: alloc_test_strdup_def Let_def copy_block_def fresh_block_def)
qed

text \<open>
  A reallocation keeps the bytes that fit.  The old block is freed after the new one was made, so the
  address of the new block differs from the old one and both must fit beside each other.
\<close>

definition kept_bytes :: "test_block \<Rightarrow> size_t \<Rightarrow> byte cells" where
  "kept_bytes b n = take (unat n) (contents b) @ drop (unat (block_bytes b)) (filled MALLOC_PATTERN (unat n))"

lemma alloc_test_realloc_gives:
  assumes inv: "accounted s" and room: "has_room s n" and p: "live s p = Some b"
  shows "gives (alloc_test_realloc p n s) s ((live s)(p := None)) n (kept_bytes b n)"
  using inv room
proof (cases rule: alloc_test_malloc_cases)
  case (none s')
  then show ?thesis by (auto simp: gives_def alloc_test_realloc_def)
next
  case (some q s')
  note b = accountedD [OF inv p]
  let ?k = "if n < block_bytes b then n else block_bytes b"
  have k: "unat ?k = min (unat n) (unat (block_bytes b))"
    by (simp add: word_less_nat_alt min_def)
  have q: "live s' q = Some (fresh_block n)" and pq: "p \<noteq> q" "live s' p = Some b"
    using some p by auto
  have copy: "copy_block (contents (fresh_block n)) (contents b) (unat ?k) = Some (kept_bytes b n)"
    using b(3) by (simp add: copy_block_def fresh_block_def k kept_bytes_def min_def)
  have "length (kept_bytes b n) = length (contents (fresh_block n))"
    using b(3) by (simp add: kept_bytes_def fresh_block_def min_def)
  note rw = rewritten [OF some(6) q this]
  let ?s = "s'\<lparr>blocks := (blocks s')\<lparr>heap := (live s')(q \<mapsto> fresh_block n\<lparr>contents := kept_bytes b n\<rparr>)\<rparr>\<rparr>"
  have "live ?s p = Some b" using pq by simp
  from alloc_test_free_live [OF rw(2) this] obtain s2 where s2: "alloc_test_free p ?s = Some s2"
    "live s2 = (live ?s)(p := None)" "accounted s2" "allocation_limit s2 = allocation_limit ?s" by metis
  have "alloc_test_realloc p n s = Some (q, s2)"
    using some(1,2) b pq q rw(1) s2(1) copy
    by (simp add: alloc_test_realloc_def alloc_test_get_header_def mem_simps Let_def)
  with s2 some pq show ?thesis
    by (auto simp: gives_def fresh_block_def fun_upd_twist)
qed

section \<open>The code under test\<close>

text \<open>
  What a program does with the allocator: it calls the functions, with pointers to blocks in use, and writes
  into its blocks.
\<close>

inductive test_step :: "alloc_test \<Rightarrow> alloc_test \<Rightarrow> bool" where
  test_malloc: "has_room s n \<Longrightarrow> alloc_test_malloc n s = Some (p, s') \<Longrightarrow> test_step s s'"
| test_calloc: "has_room s (k * n) \<Longrightarrow> alloc_test_calloc k n s = Some (p, s') \<Longrightarrow> test_step s s'"
| test_strdup: "has_room s (of_nat (length str) + 1) \<Longrightarrow> length str + 1 < 2 ^ 64 \<Longrightarrow>
    alloc_test_strdup str s = Some (p, s') \<Longrightarrow> test_step s s'"
| test_realloc: "has_room s n \<Longrightarrow> live s p \<noteq> None \<or> p = 0 \<Longrightarrow> alloc_test_realloc p n s = Some (q, s') \<Longrightarrow> test_step s s'"
| test_free: "live s p \<noteq> None \<or> p = 0 \<Longrightarrow> alloc_test_free p s = Some s' \<Longrightarrow> test_step s s'"
| test_set_limit: "test_step s (alloc_test_set_limit k s)"
| test_write: "load p (blocks s) = Some b \<Longrightarrow> array_set (contents b) i x = Some c \<Longrightarrow>
    store p (b\<lparr>contents := c\<rparr>) (blocks s) = Some m \<Longrightarrow> test_step s (s\<lparr>blocks := m\<rparr>)"

inductive test_reaches :: "alloc_test \<Rightarrow> alloc_test \<Rightarrow> bool" for s where
  reaches_refl: "test_reaches s s"
| reaches_step: "test_reaches s t \<Longrightarrow> test_step t u \<Longrightarrow> test_reaches s u"

inductive_cases test_stepE: "test_step s s'"

definition test_start :: "addr list \<Rightarrow> alloc_test" where
  "test_start as = \<lparr>blocks = \<lparr>heap = Map.empty, answers = as\<rparr>, allocated_bytes = 0, allocation_limit = -1\<rparr>"

lemma test_start_accounted: "accounted (test_start as)"
  by (simp add: accounted_def test_start_def live_bytes_def)

lemma gives_accounted: "gives (Some (p, s')) s rest n c \<Longrightarrow> accounted s'"
  by (simp add: gives_def)

lemma realloc_null: "alloc_test_realloc 0 n s = alloc_test_malloc n s"
  by (cases "alloc_test_malloc n s") (auto simp: alloc_test_realloc_def)

lemma accounted_write:
  assumes "accounted s" "load p (blocks s) = Some b" "array_set (contents b) i x = Some c"
    "store p (b\<lparr>contents := c\<rparr>) (blocks s) = Some m"
  shows "accounted (s\<lparr>blocks := m\<rparr>)"
proof -
  from assms(2) have p: "live s p = Some b" by (simp add: load_def split: if_splits)
  have "length c = length (contents b)" using assms(3) by (rule array_set_length)
  from rewritten(1,2) [OF assms(1) p this] assms(4) show ?thesis by simp
qed

lemma test_step_accounted: "test_step s s' \<Longrightarrow> accounted s \<Longrightarrow> accounted s'"
proof (induction rule: test_step.induct)
  case (test_malloc s n p s')
  then show ?case using alloc_test_malloc_gives [of s n] by (auto intro: gives_accounted)
next
  case (test_calloc s k n p s')
  then show ?case using alloc_test_calloc_gives [of s k n] by (auto intro: gives_accounted)
next
  case (test_strdup s str p s')
  then show ?case using alloc_test_strdup_gives [of s str] by (auto intro: gives_accounted)
next
  case (test_realloc s n p q s')
  show ?case
  proof (cases "live s p")
    case None
    with test_realloc show ?thesis
      using alloc_test_malloc_gives [of s n] by (auto simp: realloc_null intro: gives_accounted)
  next
    case (Some b)
    with test_realloc show ?thesis
      using alloc_test_realloc_gives [of s n p b] by (auto intro: gives_accounted)
  qed
next
  case (test_free s p s')
  show ?case
  proof (cases "live s p")
    case None
    with test_free show ?thesis by (auto simp: alloc_test_free_def)
  next
    case (Some b)
    from alloc_test_free_live [OF test_free(3) this] test_free(2) show ?thesis by (metis option.inject)
  qed
next
  case (test_set_limit s k)
  then show ?case by (simp add: alloc_test_set_limit_def accounted_def live_bytes_def)
next
  case (test_write p s b i x c m)
  then show ?case by (rule accounted_write [rotated])
qed

lemma test_reaches_accounted: "test_reaches s t \<Longrightarrow> accounted s \<Longrightarrow> accounted t"
  by (induction rule: test_reaches.induct) (auto intro: test_step_accounted)

section \<open>Correctness\<close>






section \<open>Limits, leaks, and the ends of the range\<close>

text \<open>A limit of \<open>k\<close> lets exactly the next \<open>k\<close> calls succeed, whatever their sizes.\<close>

primrec test_mallocs :: "size_t list \<Rightarrow> alloc_test \<Rightarrow> (bool list \<times> alloc_test) option" where
  "test_mallocs [] s = Some ([], s)"
| "test_mallocs (n # ns) s = do {
     (p, s) \<leftarrow> alloc_test_malloc n s;
     (oks, s) \<leftarrow> test_mallocs ns s;
     Some ((p \<noteq> 0) # oks, s) }"

lemma test_mallocs_limit:
  assumes "accounted s" "ample (length ns) (blocks s)" "allocation_limit s = int k"
    "live_bytes s + (\<Sum>n \<leftarrow> ns. unat n) + 16 < 2 ^ 64"
  shows "\<exists>s'. test_mallocs ns s =
    Some (replicate (min k (length ns)) True @ replicate (length ns - k) False, s')"
  using assms
proof (induction ns arbitrary: s k)
  case Nil
  then show ?case by simp
next
  case (Cons n ns)
  then have "has_room s n" by (simp add: has_room_def)
  with Cons.prems(1) show ?case
  proof (cases rule: alloc_test_malloc_cases)
    case (none s')
    have k: "k = 0" and s': "s' = s"
      using none(1,6) ample_can_alloc [of "length ns" "blocks s"] Cons.prems(2,3)
      by (auto simp: alloc_test_malloc_def)
    have "ample (length ns) (blocks s)" using ample_le [OF Cons.prems(2)] by simp
    with Cons.IH [of s 0] Cons.prems k s' none(1) show ?thesis by auto
  next
    case (some p s')
    then obtain j where k: "k = Suc j" using Cons.prems(3) by (cases k) simp_all
    have ans: "answers (blocks s') = tl (answers (blocks s))" and p: "p = hd (answers (blocks s))"
      using some(1,2,8) by (auto simp: alloc_test_malloc_def malloc_def Let_def store_def
          split: list.splits if_splits option.splits bind_splits)
    have "ample (length ns) (blocks s')"
      using Cons.prems(2) by (intro ample_alloc [OF _ ans]) (simp_all add: some(4) p)
    with Cons.IH [of s' j] Cons.prems some(1,2,5-7) k show ?thesis by (auto simp: spent_limit_def)
  qed
qed

text \<open>
  The driver's check passes for a test that frees what it allocated.  It counts bytes, not blocks, so a
  block of size 0 that is never freed is not noticed.
\<close>

lemma run_test_passes:
  assumes "test (alloc_test_set_limit (-1) s) = Some s'" "test_reaches (test_start as) s'"
  shows "run_test test s = (if live_bytes s' = 0 then Some s' else None)"
proof -
  have inv: "accounted s'" by (rule test_reaches_accounted [OF assms(2) test_start_accounted])
  then have "allocated_bytes s' = 0 \<longleftrightarrow> live_bytes s' = 0"
    by (metis accounted_def unat_eq_zero)
  with assms(1) show ?thesis by (simp add: run_test_def alloc_test_get_allocated_def)
qed

lemma empty_leak_unnoticed:
  "map_option (\<lambda>s. live s 8 = None)
     (run_test (\<lambda>s. map_option snd (alloc_test_malloc 0 s)) (test_start [8])) = Some False"
  by (simp add: run_test_def alloc_test_malloc_def malloc_def test_start_def sizeof_BlockHeader_def
      alloc_test_set_limit_def alloc_test_overwrite_def alloc_test_get_allocated_def store_def array_new_def)

text \<open>The product of \<open>alloc_test_calloc\<close> and the sum of \<open>alloc_test_malloc\<close> wrap around.\<close>

lemma alloc_test_calloc_wraps:
  "alloc_test_calloc (2 ^ 63) 2 s = alloc_test_calloc 0 0 s"
proof -
  have "(2 ^ 63 * 2 :: size_t) = 0" by (rule word_uint_eqI) (simp add: uint_word_ariths)
  then show ?thesis by (simp only: alloc_test_calloc_def mult_zero_left)
qed

lemma alloc_test_malloc_overflow:
  "can_alloc (blocks s) \<Longrightarrow> allocation_limit s \<noteq> 0 \<Longrightarrow> alloc_test_malloc (- 1) s = None"
  by (cases rule: malloc_cases [where m = "blocks s" and
        n = "\<lparr>magic_number = 0, block_bytes = 0, contents = array_new (unat (sizeof_BlockHeader + (- 1)) - unat sizeof_BlockHeader)\<rparr>"])
    (simp_all add: alloc_test_malloc_def sizeof_BlockHeader_def word_less_nat_alt)

text \<open>A block cannot be freed twice.\<close>

lemma alloc_test_double_free:
  assumes "accounted s" "live s p = Some b" "alloc_test_free p s = Some s'"
  shows "alloc_test_free p s' = None"
proof (rule alloc_test_free_live [OF assms(1,2)])
  fix t assume "alloc_test_free p s = Some t" "live t = (live s)(p := None)"
  with assms show ?thesis
    using accountedD(1) [OF assms(1,2)]
    by (simp add: alloc_test_free_def [of p s'] alloc_test_get_header_def load_def)
qed

end
