(* ===== verification/CInt.thy ===== *)
theory CInt
  imports Prelude
begin

text \<open>
  Signed arithmetic and arrays for the small programs of \<open>cplusplus/leetcode\<close> and \<open>algorithm/min_heap\<close>.  A value
  of type int is an integer; an operation whose result is not in the range of 32 bits is undefined, as in C,
  and so is an access outside an array.
\<close>

section \<open>Arithmetic\<close>

definition int_ok :: "int \<Rightarrow> bool" where
  "int_ok x \<longleftrightarrow> - (2 ^ 31) \<le> x \<and> x < 2 ^ 31"

definition INT_MIN :: int where "INT_MIN = - (2 ^ 31)"

definition c_add :: "int \<Rightarrow> int \<Rightarrow> int option" where
  "c_add a b = (if int_ok (a + b) then Some (a + b) else None)"

definition c_sub :: "int \<Rightarrow> int \<Rightarrow> int option" where
  "c_sub a b = (if int_ok (a - b) then Some (a - b) else None)"

definition c_mul :: "int \<Rightarrow> int \<Rightarrow> int option" where
  "c_mul a b = (if int_ok (a * b) then Some (a * b) else None)"

lemma c_arith [simp]:
  "int_ok (a + b) \<Longrightarrow> c_add a b = Some (a + b)"
  "int_ok (a - b) \<Longrightarrow> c_sub a b = Some (a - b)"
  "int_ok (a * b) \<Longrightarrow> c_mul a b = Some (a * b)"
  by (simp_all add: c_add_def c_sub_def c_mul_def)

section \<open>Arrays\<close>

definition at :: "'a list \<Rightarrow> nat \<Rightarrow> 'a option" where
  "at a i = (if i < length a then Some (a ! i) else None)"

definition put :: "'a list \<Rightarrow> nat \<Rightarrow> 'a \<Rightarrow> 'a list option" where
  "put a i x = (if i < length a then Some (a[i := x]) else None)"

lemma at_in [simp]: "i < length a \<Longrightarrow> at a i = Some (a ! i)"
  by (simp add: at_def)

lemma at_out [simp]: "length a \<le> i \<Longrightarrow> at a i = None"
  by (simp add: at_def)

lemma put_in [simp]: "i < length a \<Longrightarrow> put a i x = Some (a[i := x])"
  by (simp add: put_def)

lemma put_out [simp]: "length a \<le> i \<Longrightarrow> put a i x = None"
  by (simp add: put_def)

text \<open>\<open>swap\<close> of two elements.\<close>

definition swap_at :: "'a list \<Rightarrow> nat \<Rightarrow> nat \<Rightarrow> 'a list option" where
  "swap_at a i j = do { x \<leftarrow> at a i; y \<leftarrow> at a j; a \<leftarrow> put a i y; put a j x }"

lemma swap_at_in [simp]:
  "i < length a \<Longrightarrow> j < length a \<Longrightarrow> swap_at a i j = Some (a[i := a ! j, j := a ! i])"
  by (simp add: swap_at_def)

lemma mset_swap_at: "swap_at a i j = Some b \<Longrightarrow> mset b = mset a \<and> length b = length a"
  by (auto simp: swap_at_def at_def put_def mset_swap split: if_splits)

end
