(* ===== verification/Permute.thy ===== *)
theory Permute
  imports CInt
begin

text \<open>
  The program \<open>cplusplus/leetcode/permute.c\<close>, which prints all permutations of an array by swapping its elements
  in place.  What it prints is the list of the arrays given to \<open>print_array\<close>.
\<close>

section \<open>The code\<close>

definition print_array :: "int list \<Rightarrow> nat \<Rightarrow> int list option" where
  "print_array num len = (if len \<le> length num then Some (take len num) else None)"

text \<open>The loop variable of \<open>permute\<close> is \<open>j = i + k\<close>.\<close>

function (sequential) permute :: "int list \<Rightarrow> nat \<Rightarrow> nat \<Rightarrow> (int list list \<times> int list) option"
  and permute_loop :: "int list \<Rightarrow> nat \<Rightarrow> nat \<Rightarrow> nat \<Rightarrow> (int list list \<times> int list) option"
where
  "permute num i len =
     (if i = len then do { p \<leftarrow> print_array num len; Some ([p], num) }
      else permute_loop num i 0 len)"
| "permute_loop num i k len =
     (if i + k < len then do {
        num \<leftarrow> swap_at num i (i + k);
        (printed, num) \<leftarrow> permute num (i + 1) len;
        num \<leftarrow> swap_at num i (i + k);
        (printed', num) \<leftarrow> permute_loop num i (k + 1) len;
        Some (printed @ printed', num)
      } else Some ([], num))"
  by pat_completeness auto
termination
  by (relation "measures [
      \<lambda>c. case c of Inl (num, i, len) \<Rightarrow> len - i | Inr (num, i, k, len) \<Rightarrow> len - i,
      \<lambda>c. case c of Inl (num, i, len) \<Rightarrow> len + 1 | Inr (num, i, k, len) \<Rightarrow> len - (i + k)]") auto

declare permute.simps [simp del] permute_loop.simps [simp del]

section \<open>The arrays that agree with a prefix\<close>

definition arrangements :: "nat \<Rightarrow> 'a list \<Rightarrow> 'a list set" where
  "arrangements i xs = {ys. mset ys = mset xs \<and> take i ys = take i xs}"

abbreviation swapped :: "'a list \<Rightarrow> nat \<Rightarrow> nat \<Rightarrow> 'a list" where
  "swapped xs i j \<equiv> xs[i := xs ! j, j := xs ! i]"

lemma swapped_twice: "i < length xs \<Longrightarrow> j < length xs \<Longrightarrow> swapped (swapped xs i j) i j = xs"
  by (rule nth_equalityI) (auto simp: nth_list_update)

lemma arrangements_all: "arrangements (length xs) xs = {xs}"
proof -
  have "ys = xs" if "mset ys = mset xs" "take (length xs) ys = xs" for ys
    using mset_eq_length [OF that(1)] that(2) by simp
  then show ?thesis by (auto simp: arrangements_def)
qed

lemma arrangements_swap:
  assumes "i \<le> j" "j < length xs" "ys \<in> arrangements (Suc i) (swapped xs i j)"
  shows "ys \<in> arrangements i xs" "ys ! i = xs ! j"
proof -
  from assms(3) have ys: "mset ys = mset xs" "take (Suc i) ys = take (Suc i) (swapped xs i j)"
    using assms(1,2) by (auto simp: arrangements_def mset_swap)
  have len: "length ys = length xs" by (rule mset_eq_length [OF ys(1)])
  have "take i ys = take i (take (Suc i) ys)" by simp
  also have "\<dots> = take i xs" unfolding ys(2) using assms(1) by simp
  finally show "ys \<in> arrangements i xs" using ys(1) by (simp add: arrangements_def)
  have "ys ! i = take (Suc i) ys ! i" by simp
  also have "\<dots> = xs ! j" unfolding ys(2) using assms(1,2) by (auto simp: nth_list_update)
  finally show "ys ! i = xs ! j" .
qed

lemma arrangements_split:
  assumes "i < length xs"
  shows "arrangements i xs = (\<Union>j \<in> {i ..< length xs}. arrangements (Suc i) (swapped xs i j))"
proof
  show "(\<Union>j \<in> {i ..< length xs}. arrangements (Suc i) (swapped xs i j)) \<subseteq> arrangements i xs"
    by (auto intro: arrangements_swap(1))
  show "arrangements i xs \<subseteq> (\<Union>j \<in> {i ..< length xs}. arrangements (Suc i) (swapped xs i j))"
  proof
    fix ys assume "ys \<in> arrangements i xs"
    then have ys: "mset ys = mset xs" "take i ys = take i xs" by (auto simp: arrangements_def)
    have len: "length ys = length xs" by (rule mset_eq_length [OF ys(1)])
    have "mset (take i ys) + mset (drop i ys) = mset (take i xs) + mset (drop i xs)"
      using ys(1) by (simp flip: mset_append)
    with ys(2) have "mset (drop i ys) = mset (drop i xs)" by simp
    then have "set (drop i ys) = set (drop i xs)" by (rule mset_eq_setD)
    moreover have "ys ! i \<in> set (drop i ys)"
      using assms len by (metis Cons_nth_drop_Suc list.set_intros(1))
    ultimately obtain k where k: "k < length (drop i xs)" "drop i xs ! k = ys ! i"
      by (auto simp: in_set_conv_nth)
    let ?j = "i + k"
    have j: "?j < length xs" "xs ! ?j = ys ! i" using k by auto
    have "take (Suc i) ys = take i xs @ [xs ! ?j]"
      using assms len ys(2) j by (simp add: take_Suc_conv_app_nth)
    also have "\<dots> = take (Suc i) (swapped xs i ?j)"
      using assms j by (cases k) (simp_all add: take_Suc_conv_app_nth nth_list_update)
    finally have "take (Suc i) ys = take (Suc i) (swapped xs i ?j)" .
    moreover have "mset (swapped xs i ?j) = mset xs" using j(1) assms by (rule mset_swap)
    ultimately have "ys \<in> arrangements (Suc i) (swapped xs i ?j)"
      using ys(1) by (simp add: arrangements_def)
    with j show "ys \<in> (\<Union>j \<in> {i ..< length xs}. arrangements (Suc i) (swapped xs i j))"
      by (intro UN_I [of ?j]) auto
  qed
qed

section \<open>Correctness\<close>

text \<open>What a call prints: all arrangements of the rest of the array, each once if the elements are distinct.\<close>

definition prints :: "int list list \<Rightarrow> nat \<Rightarrow> int list \<Rightarrow> bool" where
  "prints ps i num \<longleftrightarrow> set ps = arrangements i num \<and> length ps = fact (length num - i) \<and>
     (distinct num \<longrightarrow> distinct ps)"

lemma permute_loop_prints:
  assumes calls: "\<And>xs. length xs = length num \<Longrightarrow> \<exists>ps. permute xs (Suc i) (length num) = Some (ps, xs) \<and> prints ps (Suc i) xs"
    and "i + k + n = length num"
  shows "\<exists>ps. permute_loop num i k (length num) = Some (ps, num) \<and>
    set ps = (\<Union>j \<in> {i + k ..< length num}. arrangements (Suc i) (swapped num i j)) \<and>
    length ps = n * fact (length num - Suc i) \<and> (distinct num \<longrightarrow> distinct ps)"
  using assms(2)
proof (induction n arbitrary: k)
  case 0
  then show ?case by (simp add: permute_loop.simps [of num])
next
  case (Suc n)
  let ?j = "i + k" and ?s = "swapped num i (i + k)"
  have j: "i < length num" "?j < length num" using Suc.prems by auto
  from calls [of ?s] obtain ps where ps: "permute ?s (Suc i) (length num) = Some (ps, ?s)" "prints ps (Suc i) ?s"
    by auto
  from Suc.IH [of "k + 1"] Suc.prems obtain qs where
    qs: "permute_loop num i (k + 1) (length num) = Some (qs, num)"
    "set qs = (\<Union>j \<in> {i + (k + 1) ..< length num}. arrangements (Suc i) (swapped num i j))"
    "length qs = n * fact (length num - Suc i)" "distinct num \<longrightarrow> distinct qs" by auto
  have "permute_loop num i k (length num) = Some (ps @ qs, num)"
    using j ps(1) qs(1) swapped_twice [OF j] by (simp add: permute_loop.simps [of num i k])
  moreover have "set (ps @ qs) = (\<Union>j \<in> {?j ..< length num}. arrangements (Suc i) (swapped num i j))"
  proof -
    have "{?j ..< length num} = insert ?j {i + (k + 1) ..< length num}" using j by auto
    with ps(2) qs(2) show ?thesis by (simp add: prints_def)
  qed
  moreover have "length (ps @ qs) = Suc n * fact (length num - Suc i)"
    using ps(2) qs(3) by (simp add: prints_def)
  moreover have "distinct (ps @ qs)" if num: "distinct num"
  proof -
    have "ys ! i = num ! ?j" if "ys \<in> set ps" for ys
      using arrangements_swap(2) [of i ?j num ys] that ps(2) j by (simp add: prints_def)
    moreover have "ys ! i \<noteq> num ! ?j" if ys: "ys \<in> set qs" for ys
    proof -
      from ys qs(2) obtain x where x: "?j < x" "x < length num" "ys \<in> arrangements (Suc i) (swapped num i x)"
        by (auto simp: Suc_le_eq)
      then have "ys ! i = num ! x" by (intro arrangements_swap(2)) simp_all
      with x num j show ?thesis by (simp add: nth_eq_iff_index_eq)
    qed
    ultimately have "set ps \<inter> set qs = {}" by blast
    then show ?thesis using num ps(2) qs(4) j by (simp add: prints_def distinct_swap)
  qed
  ultimately show ?case by (intro exI [of _ "ps @ qs"]) simp
qed

lemma permute_prints:
  "i + n = length num \<Longrightarrow> \<exists>ps. permute num i (length num) = Some (ps, num) \<and> prints ps i num"
proof (induction n arbitrary: i num)
  case 0
  then show ?case by (simp add: permute.simps print_array_def prints_def arrangements_all)
next
  case (Suc n)
  have "\<exists>ps. permute xs (Suc i) (length num) = Some (ps, xs) \<and> prints ps (Suc i) xs" if "length xs = length num" for xs
    using Suc.IH [of "Suc i" xs] Suc.prems that by simp
  from permute_loop_prints [OF this, of 0 "Suc n"] Suc.prems obtain ps where
    "permute_loop num i 0 (length num) = Some (ps, num)"
    "set ps = (\<Union>j \<in> {i ..< length num}. arrangements (Suc i) (swapped num i j))"
    "length ps = Suc n * fact (length num - Suc i)" "distinct num \<longrightarrow> distinct ps" by auto
  moreover have "length num - i = Suc n" "length num - Suc i = n" "i < length num" using Suc.prems by auto
  ultimately show ?case by (simp add: permute.simps [of num] prints_def arrangements_split)
qed

text \<open>C40: permute prints every arrangement of the array, as many lines as the factorial of its length, so each arrangement once when the elements are distinct, and leaves the array as it was.\<close>

theorem permute_prints_all:
  "\<exists>ps. permute num 0 (length num) = Some (ps, num) \<and> set ps = {ys. mset ys = mset num} \<and>
     length ps = fact (length num) \<and> (distinct num \<longrightarrow> distinct ps)"
  using permute_prints [of 0 "length num" num] by (simp add: prints_def arrangements_def)

theorem permute_prints_all_witness:
  "\<exists>ps. permute [1, 2, 3] 0 3 = Some (ps, [1, 2, 3]) \<and> distinct ps \<and> length ps = 6 \<and> [3, 1, 2] \<in> set ps"
proof -
  have "length [1, 2, 3 :: int] = 3" by simp
  from permute_prints_all [of "[1, 2, 3]", unfolded this] show ?thesis
    by (auto simp: eval_nat_numeral)
qed

end
