(* ===== verification/MinHeap.thy ===== *)
theory MinHeap
  imports CInt
begin

text \<open>
  The heap of \<open>algorithm/min_heap/main.c\<close>.  The children of the node \<open>i\<close> are \<open>2 * i\<close> and \<open>2 * i + 1\<close>, also for arrays
  that start at 0, so the node 0 has the node 1 as its only child besides itself.
\<close>

unbundle bit_operations_syntax

section \<open>The code\<close>

text \<open>The exchange of two elements with three exclusive ors; of an element with itself, it would leave 0.\<close>

definition xor_swap :: "int list \<Rightarrow> nat \<Rightarrow> nat \<Rightarrow> int list option" where
  "xor_swap A i j = do {
     a \<leftarrow> at A i; b \<leftarrow> at A j; A \<leftarrow> put A i (a XOR b);
     a \<leftarrow> at A i; b \<leftarrow> at A j; A \<leftarrow> put A j (a XOR b);
     a \<leftarrow> at A i; b \<leftarrow> at A j; put A i (a XOR b) }"

text \<open>The two conditions of the code: \<open>A[c] < A[i]\<close>, and \<open>A[c] < A[d]\<close> only if the first holds.\<close>

definition less_at :: "int list \<Rightarrow> nat \<Rightarrow> nat \<Rightarrow> bool option" where
  "less_at A i j = do { a \<leftarrow> at A i; b \<leftarrow> at A j; Some (a < b) }"

definition less_than_both :: "int list \<Rightarrow> nat \<Rightarrow> nat \<Rightarrow> nat \<Rightarrow> bool option" where
  "less_than_both A c i d = do { t \<leftarrow> less_at A c i; if t then less_at A c d else Some False }"

partial_function (option) build_min_heap :: "int list \<Rightarrow> nat \<Rightarrow> nat \<Rightarrow> int list option" where
  "build_min_heap A i N = do {
     let l = 2 * i;
     let r = 2 * i + 1;
     A \<leftarrow> (if l < N \<and> r > N - 1 then do {
            t \<leftarrow> less_at A l i;
            if t then do { A \<leftarrow> xor_swap A i l; build_min_heap A l N } else Some A
          } else Some A);
     if l < N \<and> r < N then do {
       t \<leftarrow> less_than_both A l i r;
       A \<leftarrow> (if t then do { A \<leftarrow> xor_swap A i l; build_min_heap A l N } else Some A);
       t \<leftarrow> less_than_both A r i l;
       if t then do { A \<leftarrow> xor_swap A i r; build_min_heap A r N } else Some A
     } else Some A }"

text \<open>The loop of \<open>main\<close>: the nodes from \<open>(n - 1) / 2\<close> down to 0.\<close>

primrec build_from :: "nat \<Rightarrow> int list \<Rightarrow> nat \<Rightarrow> int list option" where
  "build_from 0 A n = Some A"
| "build_from (Suc i) A n = do { A \<leftarrow> build_min_heap A i n; build_from i A n }"

definition min_heap_main :: "int list \<Rightarrow> int list option" where
  "min_heap_main A = build_from (Suc ((length A - 1) div 2)) A (length A)"

section \<open>Order\<close>

lemma xor_swap_in:
  assumes "i < length A" "j < length A" "i \<noteq> j"
  shows "xor_swap A i j = Some (A[i := A ! j, j := A ! i])"
proof -
  have "(A ! i XOR A ! j) XOR A ! j = A ! i" "(A ! i XOR A ! j) XOR A ! i = A ! j" for i j
    by (simp_all add: ac_simps flip: xor.assoc)
  with assms show ?thesis
    by (simp add: xor_swap_def nth_list_update list_update_swap)
qed

lemma less_at_in: "i < length A \<Longrightarrow> j < length A \<Longrightarrow> less_at A i j = Some (A ! i < A ! j)"
  by (simp add: less_at_def)

lemma less_than_both_in:
  "c < length A \<Longrightarrow> i < length A \<Longrightarrow> d < length A \<Longrightarrow>
   less_than_both A c i d = Some (A ! c < A ! i \<and> A ! c < A ! d)"
  by (simp add: less_than_both_def less_at_in)

text \<open>Every node from the node \<open>j\<close> on is at most as large as its children.\<close>

definition heap_from :: "nat \<Rightarrow> int list \<Rightarrow> bool" where
  "heap_from j A \<longleftrightarrow> (\<forall>k < length A. 1 \<le> k \<longrightarrow> j \<le> k div 2 \<longrightarrow> A ! (k div 2) \<le> A ! k)"

text \<open>The same but for the children of \<open>i\<close>, which are at least as large as the parent of \<open>i\<close>.\<close>

definition heap_but :: "nat \<Rightarrow> nat \<Rightarrow> int list \<Rightarrow> bool" where
  "heap_but i j A \<longleftrightarrow>
     (\<forall>k < length A. 1 \<le> k \<longrightarrow> j \<le> k div 2 \<longrightarrow> k div 2 \<noteq> i \<longrightarrow> A ! (k div 2) \<le> A ! k) \<and>
     (1 \<le> i \<longrightarrow> j \<le> i div 2 \<longrightarrow> (\<forall>k < length A. 1 \<le> k \<longrightarrow> k div 2 = i \<longrightarrow> A ! (i div 2) \<le> A ! k))"

lemma heap_but_done:
  "heap_but i j A \<Longrightarrow> (\<And>k. k < length A \<Longrightarrow> 1 \<le> k \<Longrightarrow> k div 2 = i \<Longrightarrow> A ! i \<le> A ! k) \<Longrightarrow> heap_from j A"
  unfolding heap_but_def heap_from_def by metis

lemma heap_from_but: "heap_from (Suc i) A \<Longrightarrow> heap_but i i A"
  by (auto simp: heap_from_def heap_but_def)

text \<open>The exchange of a node with its least child moves the broken place down.\<close>

lemma heap_but_swap:
  assumes heap: "heap_but i j A" and ij: "j \<le> i" and c: "c < length A" "1 \<le> c" "c div 2 = i" "c \<noteq> i"
    and less: "A ! c \<le> A ! i" and least: "\<And>k. k < length A \<Longrightarrow> 1 \<le> k \<Longrightarrow> k div 2 = i \<Longrightarrow> A ! c \<le> A ! k"
  shows "heap_but c j (A[i := A ! c, c := A ! i])"
proof -
  let ?B = "A[i := A ! c, c := A ! i]"
  have i: "i < length A" using c by simp
  have B: "?B ! i = A ! c" "?B ! c = A ! i" "\<And>k. k \<noteq> i \<Longrightarrow> k \<noteq> c \<Longrightarrow> ?B ! k = A ! k"
    using c i by (simp_all add: nth_list_update)
  have self: "k div 2 \<noteq> k" if "1 \<le> k" for k :: nat using that by linarith
  have "?B ! (k div 2) \<le> ?B ! k" if k: "k < length A" "1 \<le> k" "j \<le> k div 2" "k div 2 \<noteq> c" for k
  proof (cases "k div 2 = i")
    case True
    then have "k \<noteq> i" using self [OF k(2)] by auto
    then show ?thesis using True less least [OF k(1,2) True] B by (cases "k = c") simp_all
  next
    case False
    show ?thesis
    proof (cases "k = i")
      case True
      with heap k c have "A ! (i div 2) \<le> A ! c" by (auto simp: heap_but_def)
      with True False k(4) B show ?thesis by simp
    next
      case neq: False
      then have "k \<noteq> c" using False c(3) by auto
      moreover have "A ! (k div 2) \<le> A ! k" using heap k(1-3) False by (simp add: heap_but_def)
      ultimately show ?thesis using neq False k(4) B by simp
    qed
  qed
  moreover have "?B ! (c div 2) \<le> ?B ! k" if k: "k < length A" "1 \<le> k" "k div 2 = c" for k
  proof -
    have "k \<noteq> c" using self [OF k(2)] k(3) by auto
    moreover have "k \<noteq> i" using k(3) c self [OF c(2)] by (metis c(3) div_le_dividend le_antisym)
    moreover have "j \<le> c" using ij c(3) by linarith
    then have "A ! c \<le> A ! k"
      using heap [unfolded heap_but_def, THEN conjunct1, rule_format, of k] k c(4) by simp
    ultimately show ?thesis using B c(3) by simp
  qed
  ultimately show ?thesis unfolding heap_but_def length_list_update by blast
qed


section \<open>One call\<close>

lemma build_leaf: "\<not> 2 * i < N \<Longrightarrow> build_min_heap A i N = Some A"
  by (subst build_min_heap.simps) simp

lemma build_one_child:
  assumes "2 * i < length A" "\<not> 2 * i + 1 < length A"
  shows "build_min_heap A i (length A) =
    (if A ! (2 * i) < A ! i then build_min_heap (A[i := A ! (2 * i), 2 * i := A ! i]) (2 * i) (length A) else Some A)"
proof -
  have one: "length A - 1 < 2 * i + 1" "(2 * i < length A \<and> 2 * i + 1 < length A) = False" "i < length A"
    using assms by auto
  show ?thesis
  proof (cases "A ! (2 * i) < A ! i")
    case True
    then have neq: "i \<noteq> 2 * i" by (cases "i = 0") auto
    show ?thesis
      by (subst build_min_heap.simps) (simp only: Let_def one True xor_swap_in [OF one(3) assms(1) neq]
          less_at_in [OF assms(1) one(3)] assms bind.bind_lunit if_True if_False simp_thms bind_runit)
  next
    case False
    show ?thesis
      by (subst build_min_heap.simps) (simp only: Let_def one False
          less_at_in [OF assms(1) one(3)] assms bind.bind_lunit if_True if_False simp_thms)
  qed
qed

lemma build_two_children:
  assumes "2 * i + 1 < N" and N: "N = length A"
  shows "build_min_heap A i N = do {
     A \<leftarrow> (if A ! (2 * i) < A ! i \<and> A ! (2 * i) < A ! (2 * i + 1)
          then build_min_heap (A[i := A ! (2 * i), 2 * i := A ! i]) (2 * i) N else Some A);
     t \<leftarrow> less_than_both A (2 * i + 1) i (2 * i);
     if t then do { A \<leftarrow> xor_swap A i (2 * i + 1); build_min_heap A (2 * i + 1) N } else Some A }"
proof -
  have two: "(2 * i + 1 > N - 1) = False" "2 * i < N" "i < N" using assms(1) by auto
  note in_A = two(2,3) assms(1)
  note in_A' = in_A [unfolded N]
  show ?thesis
  proof (cases "A ! (2 * i) < A ! i \<and> A ! (2 * i) < A ! (2 * i + 1)")
    case True
    then have neq: "i \<noteq> 2 * i" by (cases "i = 0") auto
    show ?thesis
      by (subst build_min_heap.simps) (simp only: Let_def two True xor_swap_in [OF in_A'(2,1) neq] assms(1)
          less_than_both_in [OF in_A'] bind.bind_lunit if_True if_False simp_thms refl)
  next
    case False
    show ?thesis
      by (subst build_min_heap.simps) (simp only: Let_def two False assms(1)
          less_than_both_in [OF in_A'] bind.bind_lunit if_True if_False simp_thms refl)
  qed
qed

section \<open>Correctness\<close>

text \<open>The code takes a child only when it is less than its sibling, so it needs distinct elements.\<close>

definition sifted :: "nat \<Rightarrow> int list \<Rightarrow> int list \<Rightarrow> bool" where
  "sifted j A B \<longleftrightarrow> mset B = mset A \<and> heap_from j B"

lemma sifted_facts: "sifted j A B \<Longrightarrow> length B = length A \<and> (distinct A \<longrightarrow> distinct B)"
  unfolding sifted_def by (metis mset_eq_imp_distinct_iff mset_eq_length)

lemma children: "1 \<le> k \<Longrightarrow> k div 2 = i \<Longrightarrow> k = 2 * i \<or> k = 2 * i + 1" for k i :: nat
  by linarith

lemma build_min_heap_sifts:
  "length A - i \<le> n \<Longrightarrow> i < length A \<Longrightarrow> distinct A \<Longrightarrow> j \<le> i \<Longrightarrow> heap_but i j A \<Longrightarrow>
   \<exists>B. build_min_heap A i (length A) = Some B \<and> sifted j A B"
proof (induction n arbitrary: A i)
  case 0
  then show ?case by simp
next
  case (Suc n)
  let ?N = "length A" and ?l = "2 * i" and ?r = "2 * i + 1"
  note ord = Suc.prems(2-5)
  have step: "\<exists>B. build_min_heap (A[i := A ! c, c := A ! i]) c ?N = Some B \<and> sifted j A B \<and> B ! i \<le> B ! c"
    if c: "c < ?N" "1 \<le> c" "c div 2 = i" "c \<noteq> i" "A ! c < A ! i"
      and least: "\<And>k. k < ?N \<Longrightarrow> 1 \<le> k \<Longrightarrow> k div 2 = i \<Longrightarrow> A ! c \<le> A ! k" for c
  proof -
    let ?S = "A[i := A ! c, c := A ! i]"
    have "i < c" using c(3,4) by linarith
    then have m: "mset ?S = mset A" and d: "distinct ?S" and n: "length A - c \<le> n"
      using c ord(1,2) Suc.prems(1) by (simp_all add: mset_swap distinct_swap)
    have "heap_but c j ?S"
      using c least ord(3,4) by (intro heap_but_swap) simp_all
    moreover have "length ?S = ?N" "j \<le> c" using ord(3) \<open>i < c\<close> by simp_all
    ultimately obtain B where B: "build_min_heap ?S c ?N = Some B" "sifted j ?S B"
      using Suc.IH [of ?S c] n d c(1) by metis
    then have len: "length B = ?N" using sifted_facts [OF B(2)] by simp
    have "B ! i \<le> B ! c"
      using B(2) c(1-3) ord(3) len unfolding sifted_def heap_from_def by metis
    moreover have "sifted j A B" using B(2) unfolding sifted_def m .
    ultimately show ?thesis using B(1) by blast
  qed
  have stop: "sifted j A A" if "\<And>k. k < ?N \<Longrightarrow> 1 \<le> k \<Longrightarrow> k div 2 = i \<Longrightarrow> A ! i \<le> A ! k"
    unfolding sifted_def by (rule conjI [OF refl heap_but_done [OF ord(4) that]])
  consider (leaf) "\<not> ?l < ?N" | (one) "?l < ?N" "\<not> ?r < ?N" | (two) "?r < ?N" by blast
  then show ?case
  proof cases
    case leaf
    have "A ! i \<le> A ! k" if "k < ?N" "1 \<le> k" "k div 2 = i" for k
      using children [OF that(2,3)] that(1) leaf by auto
    then have "sifted j A A" by (rule stop)
    with build_leaf [OF leaf, of A] show ?thesis by blast
  next
    case one
    have only: "k = ?l" if "k < ?N" "1 \<le> k" "k div 2 = i" for k
      using children [OF that(2,3)] that(1) one(2) by auto
    show ?thesis
    proof (cases "A ! ?l < A ! i")
      case True
      then have neq: "?l \<noteq> i" by (cases "i = 0") auto
      have least: "A ! ?l \<le> A ! k" if "k < ?N" "1 \<le> k" "k div 2 = i" for k
        using only [OF that] by simp
      have "1 \<le> ?l" "?l div 2 = i" using neq by auto
      from step [OF one(1) this neq True least] obtain B where
        "build_min_heap (A[i := A ! ?l, ?l := A ! i]) ?l ?N = Some B" "sifted j A B" by blast
      with build_one_child [OF one] True show ?thesis by simp
    next
      case False
      have "A ! i \<le> A ! k" if "k < ?N" "1 \<le> k" "k div 2 = i" for k
        using only [OF that] False by simp
      then have "sifted j A A" by (rule stop)
      with build_one_child [OF one] False show ?thesis by simp
    qed
  next
    case two
    have l: "?l < ?N" using two by simp
    have differ: "A ! ?l \<noteq> A ! ?r" using ord(2) l two by (simp add: nth_eq_iff_index_eq)
    consider (left) "A ! ?l < A ! i" "A ! ?l < A ! ?r" | (right) "A ! ?r < A ! i" "A ! ?r < A ! ?l"
      | (stay) "A ! i \<le> A ! ?l" "A ! i \<le> A ! ?r" using differ by linarith
    then show ?thesis
    proof cases
      case left
      then have neq: "?l \<noteq> i" by (cases "i = 0") auto
      have least: "A ! ?l \<le> A ! k" if "k < ?N" "1 \<le> k" "k div 2 = i" for k
        using children [OF that(2,3)] left(2) by (elim disjE) simp_all
      have l1: "1 \<le> ?l" "?l div 2 = i" using neq by auto
      obtain B where B: "build_min_heap (A[i := A ! ?l, ?l := A ! i]) ?l ?N = Some B" "sifted j A B"
        using step [OF l l1 neq left(1) least] by blast
      then have len: "length B = ?N" using sifted_facts by blast
      then have "B ! i \<le> B ! ?r"
        using B(2) [unfolded sifted_def heap_from_def, THEN conjunct2, rule_format, of ?r] two ord(3) by simp
      then have "less_than_both B ?r i ?l = Some False"
        using len two l ord(1) by (simp add: less_than_both_in)
      with B left show ?thesis by (simp add: build_two_children [OF two refl])
    next
      case right
      have least: "A ! ?r \<le> A ! k" if "k < ?N" "1 \<le> k" "k div 2 = i" for k
        using children [OF that(2,3)] right(2) by (elim disjE) simp_all
      have "less_than_both A ?r i ?l = Some True" "xor_swap A i ?r = Some (A[i := A ! ?r, ?r := A ! i])"
        using right two l ord(1) by (simp_all add: less_than_both_in xor_swap_in)
      moreover have "1 \<le> ?r" "?r div 2 = i" "?r \<noteq> i" by auto
      from step [OF two this right(1) least] obtain B where
        "build_min_heap (A[i := A ! ?r, ?r := A ! i]) ?r ?N = Some B" "sifted j A B" by blast
      ultimately show ?thesis using right build_two_children [OF two refl] by simp
    next
      case stay
      have "A ! i \<le> A ! k" if "k < ?N" "1 \<le> k" "k div 2 = i" for k
        using children [OF that(2,3)] stay by (elim disjE) simp_all
      then have "sifted j A A" by (rule stop)
      moreover have "less_than_both A ?r i ?l = Some False"
        using stay two l ord(1) by (simp add: less_than_both_in)
      ultimately show ?thesis using build_two_children [OF two refl] stay by simp
    qed
  qed
qed

lemma build_from_heap:
  "i \<le> length A \<Longrightarrow> distinct A \<Longrightarrow> heap_from i A \<Longrightarrow>
   \<exists>B. build_from i A (length A) = Some B \<and> sifted 0 A B"
proof (induction i arbitrary: A)
  case 0
  then show ?case by (simp add: sifted_def)
next
  case (Suc i)
  from build_min_heap_sifts [OF le_refl, of i A i] Suc.prems heap_from_but [of i A] obtain B where
    B: "build_min_heap A i (length A) = Some B" "sifted i A B" by auto
  then have "length B = length A" "distinct B" "heap_from i B"
    using sifted_facts [OF B(2)] Suc.prems(2) by (auto simp: sifted_def)
  with Suc.IH [of B] Suc.prems(1) B show ?case by (auto simp: sifted_def)
qed

text \<open>For distinct elements the program ends with the same elements in heap order, every element from the second on at least as large as the one at half its index, so that the first is the least.\<close>

theorem min_heap_main_correct:
  assumes "distinct A" "A \<noteq> []"
  shows "\<exists>B. min_heap_main A = Some B \<and> mset B = mset A \<and>
    (\<forall>k < length B. 1 \<le> k \<longrightarrow> B ! (k div 2) \<le> B ! k) \<and> (\<forall>x \<in> set A. B ! 0 \<le> x)"
proof -
  let ?n = "length A"
  have n: "Suc ((?n - 1) div 2) \<le> ?n" using assms(2) by (cases A) simp_all
  have "heap_from (Suc ((?n - 1) div 2)) A"
    by (auto simp: heap_from_def)
  from build_from_heap [OF n assms(1) this] obtain B where B: "min_heap_main A = Some B" "sifted 0 A B"
    by (auto simp: min_heap_main_def simp del: build_from.simps)
  then have heap: "\<forall>k < length B. 1 \<le> k \<longrightarrow> B ! (k div 2) \<le> B ! k"
    by (simp add: sifted_def heap_from_def)
  have "B ! 0 \<le> B ! k" if "k < length B" for k
    using that
  proof (induction k rule: less_induct)
    case (less k)
    show ?case
    proof (cases "k = 0")
      case False
      with less have "B ! 0 \<le> B ! (k div 2)" by (intro less.IH) auto
      also have "\<dots> \<le> B ! k" using heap less False by simp
      finally show ?thesis .
    qed simp
  qed
  moreover have "set A = set B" using B(2) by (auto simp: sifted_def dest: mset_eq_setD)
  ultimately have "\<forall>x \<in> set A. B ! 0 \<le> x" by (auto simp: in_set_conv_nth)
  with B heap show ?thesis by (auto simp: sifted_def)
qed

theorem min_heap_main_correct_witness:
  "\<exists>B. min_heap_main [3, 4, 10, 20, 1, -1] = Some B \<and> B ! 0 \<le> -1"
  using min_heap_main_correct [of "[3, 4, 10, 20, 1, -1]"] by auto

text \<open>With equal children that are both less, neither is taken, and the order is broken.\<close>

lemma min_heap_main_ties: "min_heap_main [5, 1, 0, 0] = Some [1, 5, 0, 0]"
proof -
  have "build_min_heap [5, 1, 0, 0] (Suc 0) 4 = Some [5, 1, 0, 0]" "build_min_heap [1, 5, 0, 0] (Suc 0) 4 = Some [1, 5, 0, 0]"
    by (subst build_min_heap.simps, simp add: less_than_both_def less_at_def at_def)+
  moreover from this have "build_min_heap [5, 1, 0, 0] 0 4 = Some [1, 5, 0, 0]"
    by (subst build_min_heap.simps) (simp add: less_than_both_def less_at_def at_def xor_swap_in)
  moreover have "(length [5, 1, 0, 0 :: int] - 1) div 2 = Suc 0" "length [5, 1, 0, 0 :: int] = 4" by simp_all
  then have "min_heap_main [5, 1, 0, 0] = build_from (Suc (Suc 0)) [5, 1, 0, 0] 4"
    by (simp only: min_heap_main_def)
  ultimately show ?thesis by simp
qed

end
