(* ===== verification/OddEven.thy ===== *)
theory OddEven
  imports CInt
begin

text \<open>
  The reordering of a linked list in \<open>cplusplus/leetcode/odd_even_link_list.c\<close>: the nodes at odd places come first, then those
  at even places.  \<open>array_to_link\<close>, which builds the list of the example, and the printing are not modelled.
\<close>

section \<open>The code\<close>

record list_node =
  ln_val :: int
  ln_next :: addr

text \<open>Both branches of the loop append a node to a list that is given by its first and its last node.\<close>

definition append_node :: "addr \<Rightarrow> addr \<Rightarrow> addr \<Rightarrow> list_node mem \<Rightarrow> (addr \<times> addr \<times> list_node mem) option" where
  "append_node start last_node head m =
     (if last_node = 0 then Some (head, head, m)
      else do {
        e \<leftarrow> load last_node m;
        m \<leftarrow> store last_node (e\<lparr>ln_next := head\<rparr>) m;
        e \<leftarrow> load last_node m;
        Some (start, ln_next e, m) })"

partial_function (option) odd_even_loop ::
  "addr \<Rightarrow> addr \<Rightarrow> addr \<times> addr \<Rightarrow> addr \<times> addr \<Rightarrow> int \<Rightarrow> list_node mem \<Rightarrow>
   ((addr \<times> addr) \<times> (addr \<times> addr) \<times> list_node mem) option"
where
  "odd_even_loop head thead odds evens i m =
     (if head = 0 then Some (odds, evens, m)
      else do {
        t \<leftarrow> load thead m;
        let thead = ln_next t;
        h \<leftarrow> load head m;
        m \<leftarrow> store head (h\<lparr>ln_next := 0\<rparr>) m;
        i' \<leftarrow> c_add i 1;
        if i mod 2 = 0 then do {
          (start_even, last_even, m) \<leftarrow> append_node (fst evens) (snd evens) head m;
          odd_even_loop thead thead odds (start_even, last_even) i' m
        } else do {
          (start_odd, last_odd, m) \<leftarrow> append_node (fst odds) (snd odds) head m;
          odd_even_loop thead thead (start_odd, last_odd) evens i' m } })"

definition oddEvenList :: "addr \<Rightarrow> list_node mem \<Rightarrow> (addr \<times> list_node mem) option" where
  "oddEvenList head m = do {
     ((start_odd, last_odd), (start_even, last_even), m) \<leftarrow> odd_even_loop head head (0, 0) (0, 0) 1 m;
     if start_odd \<noteq> 0 then do {
       n \<leftarrow> load last_odd m;
       m \<leftarrow> store last_odd (n\<lparr>ln_next := start_even\<rparr>) m;
       Some (start_odd, m)
     } else Some (start_even, m) }"

section \<open>Lists with a last node\<close>

definition tailed :: "(addr \<rightharpoonup> list_node) \<Rightarrow> addr \<times> addr \<Rightarrow> addr list \<Rightarrow> bool" where
  "tailed h e as \<longleftrightarrow> chain ln_next h (fst e) as 0 \<and> snd e = (if as = [] then 0 else last as)"

lemma tailed_Nil [simp]: "tailed h (0, 0) []"
  by (simp add: tailed_def)

lemma tailed_upd: "a \<notin> set as \<Longrightarrow> tailed (h(a := v)) e as = tailed h e as"
  by (simp add: tailed_def)

lemma append_node_tailed:
  assumes "tailed (heap m) e as" "heap m a = Some n" "a \<noteq> 0" "ln_next n = 0" "a \<notin> set as"
  obtains e' m' where "append_node (fst e) (snd e) a m = Some (fst e', snd e', m')" "tailed (heap m') e' (as @ [a])"
    "relinked ln_val (set as) m m'"
proof (cases as rule: rev_cases)
  case Nil
  show ?thesis
  proof (rule that)
    show "append_node (fst e) (snd e) a m = Some (fst (a, a), snd (a, a), m)"
      using assms(1) Nil by (simp add: append_node_def tailed_def)
  qed (use assms Nil in \<open>simp_all add: tailed_def chain_Cons\<close>)
next
  case (snoc bs b)
  from assms(1) snoc have b: "snd e = b" and chain: "chain ln_next (heap m) (fst e) (bs @ [b]) 0"
    by (simp_all add: tailed_def)
  from chain obtain k where k: "heap m b = Some k" "b \<noteq> 0" by (auto simp: chain_Cons)
  have "distinct (bs @ [b])" using chain by (rule chain_distinct)
  let ?m = "m\<lparr>heap := (heap m)(b \<mapsto> k\<lparr>ln_next := a\<rparr>)\<rparr>"
  have ab: "a \<noteq> b" using assms(5) snoc by auto
  have "chain ln_next (heap ?m) (fst e) (bs @ [b]) a"
    using chain_upd_last [OF chain, of "k\<lparr>ln_next := a\<rparr>" a] \<open>distinct (bs @ [b])\<close> by simp
  then have "chain ln_next (heap ?m) (fst e) ((bs @ [b]) @ [a]) 0"
    using assms(2-4) ab unfolding chain_append [of _ _ _ "bs @ [b]"] by (auto simp: chain_Cons)
  then have "tailed (heap ?m) (fst e, a) (as @ [a])"
    by (simp add: tailed_def snoc)
  moreover have "append_node (fst e) (snd e) a m = Some (fst e, a, ?m)"
    using k b by (simp add: append_node_def mem_simps)
  moreover have "relinked ln_val (set as) m ?m"
    using k snoc by (intro relinked_store) simp_all
  ultimately show ?thesis by (intro that [of "(fst e, a)" ?m]) simp_all
qed

lemma tailed_relinked: "relinked ln_val A m m' \<Longrightarrow> set as \<inter> A = {} \<Longrightarrow> tailed (heap m) e as \<Longrightarrow> tailed (heap m') e as"
  by (auto simp: tailed_def intro: relinked_chain)

section \<open>The loop\<close>

lemma nths_Cons_parity:
  "nths (a # as) {k. even k} = a # nths as {k. odd k}"
  "nths (a # as) {k. odd k} = nths as {k. even k}"
  by (simp_all add: nths_Cons)

lemma odd_even_loop_splits:
  assumes "chain ln_next (heap m) head as 0" "tailed (heap m) od os" "tailed (heap m) e es"
    "distinct (os @ es @ as)" "0 \<le> i" "i + int (length as) < 2 ^ 31"
  shows "\<exists>od' e' m'. odd_even_loop head head od e i m = Some (od', e', m') \<and>
    tailed (heap m') od' (os @ nths as {k. even k \<noteq> even i}) \<and> tailed (heap m') e' (es @ nths as {k. even k = even i}) \<and>
    relinked ln_val (set os \<union> set es \<union> set as) m m'"
  using assms
proof (induction as arbitrary: head od os e es i m)
  case Nil
  then show ?case by (subst odd_even_loop.simps) simp
next
  case (Cons a as)
  from Cons.prems(1) obtain n where a: "head = a" "a \<noteq> 0" "heap m a = Some n" and rest: "chain ln_next (heap m) (ln_next n) as 0"
    by (auto simp: chain_Cons)
  let ?n = "n\<lparr>ln_next := 0\<rparr>"
  let ?m = "m\<lparr>heap := (heap m)(a \<mapsto> ?n)\<rparr>"
  have new: "a \<notin> set os" "a \<notin> set es" "a \<notin> set as" using Cons.prems(4) by auto
  have re: "relinked ln_val (set os \<union> set es \<union> set (a # as)) m ?m"
    using a(3) by (intro relinked_store) simp_all
  have i: "c_add i 1 = Some (i + 1)"
    using Cons.prems(5,6) by (simp add: c_add_def int_ok_def)
  have keep: "chain ln_next (heap ?m) (ln_next n) as 0" "tailed (heap ?m) od os" "tailed (heap ?m) e es"
    using rest Cons.prems(2,3) new by (simp_all add: tailed_upd)
  have unfold: "odd_even_loop head head od e i m = (if even i then do {
      (start_even, last_even, m) \<leftarrow> append_node (fst e) (snd e) a ?m;
      odd_even_loop (ln_next n) (ln_next n) od (start_even, last_even) (i + 1) m
    } else do {
      (start_odd, last_odd, m) \<leftarrow> append_node (fst od) (snd od) a ?m;
      odd_even_loop (ln_next n) (ln_next n) (start_odd, last_odd) e (i + 1) m })"
    using a by (subst odd_even_loop.simps) (simp add: mem_simps i even_iff_mod_2_eq_zero Let_def)
  show ?case
  proof (cases "even i")
    case True
    obtain e' m1 where e': "append_node (fst e) (snd e) a ?m = Some (fst e', snd e', m1)" "tailed (heap m1) e' (es @ [a])"
      "relinked ln_val (set es) ?m m1"
      by (rule append_node_tailed [OF keep(3), of a ?n]) (use a new in simp_all)
    have "chain ln_next (heap m1) (ln_next n) as 0" "tailed (heap m1) od os"
      using e'(3) keep(1,2) Cons.prems(4) by (auto intro: relinked_chain tailed_relinked)
    from Cons.IH [OF this e'(2), of "i + 1"] Cons.prems(4-6) obtain o2 e2 m2 where
      r: "odd_even_loop (ln_next n) (ln_next n) od e' (i + 1) m1 = Some (o2, e2, m2)"
      "tailed (heap m2) o2 (os @ nths as {k. even k \<noteq> even (i + 1)})"
      "tailed (heap m2) e2 ((es @ [a]) @ nths as {k. even k = even (i + 1)})"
      "relinked ln_val (set os \<union> set (es @ [a]) \<union> set as) m1 m2" by auto
    have "relinked ln_val (set os \<union> set es \<union> set (a # as)) ?m m2"
      by (rule relinked_trans [OF e'(3) r(4)]) auto
    with re have "relinked ln_val (set os \<union> set es \<union> set (a # as)) m m2"
      by (rule relinked_trans) auto
    with True r(1-3) e'(1) unfold show ?thesis by (auto simp: nths_Cons_parity)
  next
    case False
    obtain od' m1 where od': "append_node (fst od) (snd od) a ?m = Some (fst od', snd od', m1)" "tailed (heap m1) od' (os @ [a])"
      "relinked ln_val (set os) ?m m1"
      by (rule append_node_tailed [OF keep(2), of a ?n]) (use a new in simp_all)
    have "chain ln_next (heap m1) (ln_next n) as 0" "tailed (heap m1) e es"
      using od'(3) keep(1,3) Cons.prems(4) by (auto intro: relinked_chain tailed_relinked)
    from Cons.IH [OF this(1) od'(2) this(2), of "i + 1"] Cons.prems(4-6) obtain o2 e2 m2 where
      r: "odd_even_loop (ln_next n) (ln_next n) od' e (i + 1) m1 = Some (o2, e2, m2)"
      "tailed (heap m2) o2 ((os @ [a]) @ nths as {k. even k \<noteq> even (i + 1)})"
      "tailed (heap m2) e2 (es @ nths as {k. even k = even (i + 1)})"
      "relinked ln_val (set (os @ [a]) \<union> set es \<union> set as) m1 m2" by auto
    have "relinked ln_val (set os \<union> set es \<union> set (a # as)) ?m m2"
      by (rule relinked_trans [OF od'(3) r(4)]) auto
    with re have "relinked ln_val (set os \<union> set es \<union> set (a # as)) m m2"
      by (rule relinked_trans) auto
    with False r(1-3) od'(1) unfold show ?thesis by (auto simp: nths_Cons_parity)
  qed
qed

section \<open>Correctness\<close>

text \<open>oddEvenList returns the list of the same nodes, those at the first, third, fifth place first, then the others, each group in its order; only links of these nodes change.\<close>

theorem oddEvenList_correct:
  assumes "chain ln_next (heap m) head as 0" "length as < 2 ^ 31 - 1"
  shows "\<exists>p m'. oddEvenList head m = Some (p, m') \<and>
    chain ln_next (heap m') p (nths as {k. even k} @ nths as {k. odd k}) 0 \<and> relinked ln_val (set as) m m'"
proof -
  let ?os = "nths as {k. even k}" and ?es = "nths as {k. odd k}"
  have "distinct as" using assms(1) by (rule chain_distinct)
  with odd_even_loop_splits [OF assms(1) tailed_Nil tailed_Nil, of 1] assms(2) obtain od' e' m1 where
    r: "odd_even_loop head head (0, 0) (0, 0) 1 m = Some (od', e', m1)"
      "tailed (heap m1) od' ?os" "tailed (heap m1) e' ?es" "relinked ln_val (set as) m m1" by auto
  show ?thesis
  proof (cases as)
    case Nil
    with r show ?thesis by (cases od'; cases e') (simp add: oddEvenList_def tailed_def)
  next
    case (Cons a as')
    then obtain bs b where os: "?os = bs @ [b]" by (metis neq_Nil_conv nths_Cons_parity(1) rev_exhaust)
    with r(2) have chain: "chain ln_next (heap m1) (fst od') (bs @ [b]) 0" and last: "snd od' = b"
      by (simp_all add: tailed_def)
    from chain obtain n where n: "heap m1 b = Some n" "b \<noteq> 0" by (auto simp: chain_Cons)
    have "fst od' \<noteq> 0"
    proof
      assume "fst od' = 0"
      with chain have "bs @ [b] = []" by (simp only: chain_null)
      then show False by simp
    qed
    have "distinct (bs @ [b])" using chain by (rule chain_distinct)
    let ?m = "m1\<lparr>heap := (heap m1)(b \<mapsto> n\<lparr>ln_next := fst e'\<rparr>)\<rparr>"
    have "b \<in> set ?os" using os by simp
    then have "b \<in> set as" "b \<notin> set ?es"
      using \<open>distinct as\<close> by (auto simp: set_nths nth_eq_iff_index_eq)
    have "chain ln_next (heap ?m) (fst od') (bs @ [b]) (fst e')"
      using chain_upd_last [OF chain, of "n\<lparr>ln_next := fst e'\<rparr>" "fst e'"] \<open>distinct (bs @ [b])\<close> by simp
    moreover have "chain ln_next (heap ?m) (fst e') ?es 0"
      using r(3) \<open>b \<notin> set ?es\<close> by (simp add: tailed_def)
    ultimately have "chain ln_next (heap ?m) (fst od') (?os @ ?es) 0"
      unfolding os chain_append [of _ _ _ "bs @ [b]"] by blast
    moreover have "oddEvenList head m = Some (fst od', ?m)"
      using r(1) n last \<open>fst od' \<noteq> 0\<close> by (cases od'; cases e') (simp add: oddEvenList_def mem_simps)
    moreover have "relinked ln_val (set as) m1 ?m"
      using n \<open>b \<in> set as\<close> by (intro relinked_store) simp_all
    with r(4) have "relinked ln_val (set as) m ?m" by (rule relinked_trans) simp_all
    ultimately show ?thesis by blast
  qed
qed

end
