(* ===== verification/AddStrings.thy ===== *)
theory AddStrings
  imports CInt Arrays
begin

text \<open>
  The sum of two decimal numbers given as strings, \<open>cplusplus/leetcode/add-string.c\<close>.  A character is an integer
  in the range of \<open>signed char\<close>, a string an array that ends with 0.  The digits of the shorter number are
  added into the longer one, then the carries are moved from the right to the left into a buffer of 5102
  characters that is filled from its end.  The two arguments are different arrays, since one is written
  while the other is read; the printing of the digits is not modelled.
\<close>

section \<open>The code\<close>

text \<open>The conversion of an int that is stored in a char.\<close>

definition to_char :: "int \<Rightarrow> int" where
  "to_char x = (x + 128) mod 256 - 128"

fun c_strlen :: "int list \<Rightarrow> nat option" where
  "c_strlen [] = None"
| "c_strlen (c # cs) = (if c = 0 then Some 0 else map_option Suc (c_strlen cs))"

text \<open>The first loop, from \<open>i\<close> down to 0; here the argument is the number of rounds left, \<open>i + 1\<close>.\<close>

fun add_loop :: "int list \<Rightarrow> nat \<Rightarrow> nat \<Rightarrow> int list \<Rightarrow> int list option" where
  "add_loop num1 0 j num2 = Some num2"
| "add_loop num1 (Suc i) j num2 = do {
     x \<leftarrow> at num2 j;
     y \<leftarrow> at num1 i;
     num2 \<leftarrow> put num2 j (to_char (x + (y - 48)));
     add_loop num1 i (j - 1) num2 }"

text \<open>
  The second loop, with the number of rounds left and the number of free cells in front of \<open>tmp\<close>, which are
  \<open>j + 1\<close> and \<open>i + 1\<close>.
\<close>

fun carry_loop :: "int list \<Rightarrow> nat \<Rightarrow> nat \<Rightarrow> int \<Rightarrow> int cells \<Rightarrow> (nat \<times> int \<times> int cells) option" where
  "carry_loop num2 0 room up tmp = Some (room, up, tmp)"
| "carry_loop num2 (Suc j) room up tmp = do {
     x \<leftarrow> at num2 j;
     if room = 0 then None
     else if x + up > 57 then do {
       tmp \<leftarrow> array_set tmp (room - 1) (to_char (x + up - 10));
       carry_loop num2 j (room - 1) 1 tmp
     } else do {
       tmp \<leftarrow> array_set tmp (room - 1) (to_char (x + up));
       carry_loop num2 j (room - 1) 0 tmp } }"

text \<open>\<open>strncpy\<close> of \<open>n\<close> characters into a buffer of that size: what is read, then zeros.\<close>

fun read_text :: "int cells \<Rightarrow> int list option" where
  "read_text [] = None"
| "read_text (None # cs) = None"
| "read_text (Some c # cs) = (if c = 0 then Some [] else map_option (Cons c) (read_text cs))"

definition c_strncpy :: "int cells \<Rightarrow> nat \<Rightarrow> int list option" where
  "c_strncpy src n = map_option (\<lambda>s. take n s @ replicate (n - length s) 0) (read_text src)"

text \<open>The body for \<open>len1 <= len2\<close>; the flag is the answer of \<open>malloc\<close>, whose result is not checked.\<close>

definition add_ordered :: "int list \<Rightarrow> int list \<Rightarrow> nat \<Rightarrow> nat \<Rightarrow> bool \<Rightarrow> int list option" where
  "add_ordered num1 num2 len1 len2 granted = do {
     num2 \<leftarrow> add_loop num1 (len1 + 1) len2 num2;
     tmp \<leftarrow> array_set (array_new 5102) 5101 0;
     (room, up, tmp) \<leftarrow> carry_loop num2 len2 5101 0 tmp;
     (i, tmp) \<leftarrow> (if up = 1 then
         (if room = 0 then None else do { tmp \<leftarrow> array_set tmp (room - 1) 49; Some (room - 1, tmp) })
       else Some (room, tmp));
     if granted then c_strncpy (drop i tmp) 5101 else None }"

definition addStrings :: "int list \<Rightarrow> int list \<Rightarrow> bool \<Rightarrow> int list option" where
  "addStrings num1 num2 granted = do {
     len1 \<leftarrow> c_strlen num1;
     len2 \<leftarrow> c_strlen num2;
     if len1 > len2 then add_ordered num2 num1 len2 len1 granted
     else add_ordered num1 num2 len1 len2 granted }"

section \<open>Numbers\<close>

definition digit :: "int \<Rightarrow> bool" where
  "digit c \<longleftrightarrow> 48 \<le> c \<and> c \<le> 57"

definition number :: "int list \<Rightarrow> int" where
  "number cs = foldl (\<lambda>v c. 10 * v + (c - 48)) 0 cs"

lemma number_simps [simp]: "number [] = 0" "number (cs @ [c]) = 10 * number cs + (c - 48)"
  by (simp_all add: number_def)

lemma number_append: "number (as @ bs) = number as * 10 ^ length bs + number bs"
proof (induction bs rule: rev_induct)
  case (snoc b bs)
  then show ?case by (simp add: algebra_simps flip: append_assoc)
qed simp

lemma to_char_id: "-128 \<le> x \<Longrightarrow> x < 128 \<Longrightarrow> to_char x = x"
  by (simp add: to_char_def)

lemma c_strlen_digits: "\<forall>c \<in> set xs. digit c \<Longrightarrow> c_strlen (xs @ [0]) = Some (length xs)"
  by (induction xs) (auto simp: digit_def)

section \<open>The loops\<close>

lemma add_loop_adds:
  "length bs = length xs \<Longrightarrow> j = length as + length xs - 1 \<Longrightarrow>
   add_loop (xs @ r) (length xs) j (as @ bs @ s) = Some (as @ map2 (\<lambda>x b. to_char (b + (x - 48))) xs bs @ s)"
proof (induction xs arbitrary: bs j r s rule: rev_induct)
  case Nil
  then show ?case by simp
next
  case (snoc x xs)
  then obtain b bs' where bs: "bs = bs' @ [b]" "length bs' = length xs" by (cases bs rule: rev_cases) auto
  have j: "j = length as + length bs'" using snoc.prems bs by simp
  have "add_loop (xs @ x # r) (length xs) (j - 1) (as @ bs' @ to_char (b + (x - 48)) # s) =
      Some (as @ map2 (\<lambda>x b. to_char (b + (x - 48))) xs bs' @ to_char (b + (x - 48)) # s)"
    using snoc.IH [of bs' "j - 1" "x # r" "to_char (b + (x - 48)) # s"] bs(2) j by simp
  then show ?case using bs j by (simp add: nth_append list_update_append)
qed

lemma number_map2:
  "length bs = length xs \<Longrightarrow> \<forall>c \<in> set xs. digit c \<Longrightarrow> \<forall>c \<in> set bs. digit c \<Longrightarrow>
   number (map2 (\<lambda>x b. to_char (b + (x - 48))) xs bs) = number xs + number bs \<and>
   (\<forall>c \<in> set (map2 (\<lambda>x b. to_char (b + (x - 48))) xs bs). 48 \<le> c \<and> c \<le> 66)"
proof (induction xs arbitrary: bs rule: rev_induct)
  case Nil
  then show ?case by simp
next
  case (snoc x xs)
  then obtain b bs' where bs: "bs = bs' @ [b]" "length bs' = length xs" by (cases bs rule: rev_cases) auto
  have "digit x" "digit b" using snoc.prems bs by simp_all
  then have c: "to_char (b + (x - 48)) = b + (x - 48)" "48 \<le> b + (x - 48)" "b + (x - 48) \<le> 66"
    by (simp_all add: to_char_id digit_def)
  from snoc.IH [OF bs(2)] snoc.prems bs c show ?case by auto
qed

lemma carry_loop_carries:
  assumes "\<forall>c \<in> set cs. 48 \<le> c \<and> c \<le> 66" "length cs \<le> length us" "up = 0 \<or> up = 1"
  shows "\<exists>ds up'. carry_loop (cs @ r) (length cs) (length us) up (us @ vs) =
      Some (length us - length cs, up', take (length us - length cs) us @ map Some ds @ vs) \<and>
    length ds = length cs \<and> (\<forall>d \<in> set ds. digit d) \<and> (up' = 0 \<or> up' = 1) \<and>
    number ds + up' * 10 ^ length cs = number cs + up"
  using assms
proof (induction cs arbitrary: r us up vs rule: rev_induct)
  case Nil
  then show ?case by simp
next
  case (snoc c cs)
  then obtain us' u where us: "us = us' @ [u]" by (cases us rule: rev_cases) auto
  define d where "d = (if c + up > 57 then c + up - 10 else c + up)"
  define up1 :: int where "up1 = (if c + up > 57 then 1 else 0)"
  have d: "digit d" "to_char d = d" "d + 10 * up1 = c + up" "up1 = 0 \<or> up1 = 1"
    using snoc.prems by (auto simp: d_def up1_def digit_def to_char_id)
  from snoc.IH [of us' up1 "c # r" "Some d # vs"] snoc.prems us d(4) obtain ds up' where
    r: "carry_loop (cs @ c # r) (length cs) (length us') up1 (us' @ Some d # vs) =
      Some (length us' - length cs, up', take (length us' - length cs) us' @ map Some ds @ Some d # vs)"
    "length ds = length cs" "\<forall>d \<in> set ds. digit d" "up' = 0 \<or> up' = 1"
    "number ds + up' * 10 ^ length cs = number cs + up1" by auto
  have "carry_loop ((cs @ [c]) @ r) (length (cs @ [c])) (length us) up (us @ vs) =
      carry_loop (cs @ c # r) (length cs) (length us') up1 (us' @ Some d # vs)"
    using us d(2) by (auto simp: array_set_def list_update_append nth_append d_def up1_def)
  moreover have "number (ds @ [d]) + up' * 10 ^ length (cs @ [c]) = number (cs @ [c]) + up"
    using r(5) d(3) by (simp add: algebra_simps)
  ultimately show ?case
    using r us d(1) by (intro exI [of _ "ds @ [d]"] exI [of _ up']) simp
qed

lemma read_text_digits: "\<forall>d \<in> set ds. digit d \<Longrightarrow> read_text (map Some ds @ Some 0 # cs) = Some ds"
  by (induction ds) (auto simp: digit_def)

section \<open>Correctness\<close>

text \<open>What the code returns: a buffer that holds the digits of the sum, and zeros behind them.\<close>

definition holds_sum :: "int list option \<Rightarrow> int list \<Rightarrow> int list \<Rightarrow> bool" where
  "holds_sum ret xs ys \<longleftrightarrow> (\<exists>ds. ret = Some (ds @ replicate (5101 - length ds) 0) \<and> length ds \<le> 5101 \<and>
     (\<forall>d \<in> set ds. digit d) \<and> number ds = number xs + number ys)"

lemma add_ordered_sum:
  assumes xs: "\<forall>c \<in> set xs. digit c" and ys: "\<forall>c \<in> set ys. digit c"
    and len: "length xs \<le> length ys" "length ys \<le> 5100"
  shows "holds_sum (add_ordered (xs @ [0]) (ys @ [0]) (length xs) (length ys) True) xs ys"
proof -
  let ?k = "length ys - length xs"
  let ?as = "take ?k ys" and ?bs = "drop ?k ys"
  let ?f = "\<lambda>x b. to_char (b + (x - 48))"
  define cs where "cs = ?as @ map2 ?f xs ?bs"
  have bs: "length ?bs = length xs" "ys = ?as @ ?bs" using len by simp_all
  have "\<forall>c \<in> set ?bs. digit c" "\<forall>c \<in> set ?as. digit c"
    using ys by (auto dest: in_set_dropD in_set_takeD)
  with number_map2 [OF bs(1) xs] have m: "number (map2 ?f xs ?bs) = number xs + number ?bs"
    "\<forall>c \<in> set cs. 48 \<le> c \<and> c \<le> 66"
    by (auto simp: cs_def digit_def)
  have "number ys = number ?as * 10 ^ length xs + number ?bs"
    by (subst bs(2), subst number_append) (use bs(1) in simp)
  then have sum: "number cs = number xs + number ys"
    using m(1) len by (simp add: cs_def number_append)
  have lcs: "length cs = length ys" using len by (simp add: cs_def)
  have "add_loop ((xs @ [0]) @ []) (length (xs @ [0])) (length ys) (?as @ (?bs @ [0]) @ []) =
      Some (?as @ map2 ?f (xs @ [0]) (?bs @ [0]) @ [])"
    by (rule add_loop_adds) (use len in simp_all)
  then have 1: "add_loop (xs @ [0]) (length xs + 1) (length ys) (ys @ [0]) = Some (cs @ [to_char (- 48)])"
    using len by (simp add: cs_def flip: append_assoc)
  have 2: "array_set (array_new 5102) 5101 0 = Some (replicate 5101 None @ [Some (0 :: int)])"
  proof -
    have "array_new 5102 = replicate 5101 None @ [None :: int option]"
      using replicate_add [of 5101 1 "None :: int option"] by (simp add: array_new_def)
    then show ?thesis by (simp add: array_set_at)
  qed
  from carry_loop_carries [OF m(2), of "replicate 5101 None" 0 "[to_char (- 48)]" "[Some 0]"] len lcs obtain ds up where
    3: "carry_loop (cs @ [to_char (- 48)]) (length ys) 5101 0 (replicate 5101 None @ [Some 0]) =
      Some (5101 - length ys, up, replicate (5101 - length ys) None @ map Some ds @ [Some 0])"
    and ds: "length ds = length ys" "\<forall>d \<in> set ds. digit d" "up = 0 \<or> up = 1"
      "number ds + up * 10 ^ length ys = number cs" by (auto simp: min_def)
  show ?thesis
  proof (cases "up = 1")
    case False
    then have "up = 0" using ds(3) by simp
    with 1 2 3 have "add_ordered (xs @ [0]) (ys @ [0]) (length xs) (length ys) True =
        c_strncpy (map Some ds @ [Some 0]) 5101"
      by (simp add: add_ordered_def)
    with ds len sum \<open>up = 0\<close> show ?thesis
      by (auto simp: holds_sum_def c_strncpy_def read_text_digits intro!: exI [of _ ds])
  next
    case True
    let ?n = "5100 - length ys"
    have n: "5101 - length ys = Suc ?n" using len by simp
    have "array_set (replicate (Suc ?n) None @ map Some ds @ [Some 0]) ?n 49 =
        Some (replicate ?n None @ map Some (49 # ds) @ [Some (0 :: int)])"
      using array_set_at [of ?n "replicate ?n None" None "map Some ds @ [Some 0]" 49]
      by (simp add: replicate_app_Cons_same)
    with 1 2 3 True have "add_ordered (xs @ [0]) (ys @ [0]) (length xs) (length ys) True =
        c_strncpy (map Some (49 # ds) @ [Some 0]) 5101"
      unfolding n by (simp add: add_ordered_def del: replicate_Suc)
    moreover have "read_text (map Some (49 # ds) @ [Some 0]) = Some (49 # ds)"
      by (rule read_text_digits) (use ds(2) in \<open>simp add: digit_def\<close>)
    moreover have "number (49 # ds) = number xs + number ys"
      using number_append [of "[49]" ds] ds(1,4) True sum by (simp add: number_def)
    ultimately show ?thesis
      using ds(1,2) len unfolding holds_sum_def
      by (intro exI [of _ "49 # ds"]) (simp add: c_strncpy_def digit_def)
  qed
qed

text \<open>addStrings returns the digits of the sum of two numbers of at most 5100 digits each, when memory is left.\<close>

theorem addStrings_correct:
  assumes "\<forall>c \<in> set xs. digit c" "\<forall>c \<in> set ys. digit c" "length xs \<le> 5100" "length ys \<le> 5100"
  shows "holds_sum (addStrings (xs @ [0]) (ys @ [0]) True) xs ys"
proof (cases "length xs > length ys")
  case True
  with add_ordered_sum [OF assms(2,1)] assms show ?thesis
    by (simp add: addStrings_def c_strlen_digits holds_sum_def add.commute)
next
  case False
  with add_ordered_sum [OF assms(1,2)] assms show ?thesis
    by (simp add: addStrings_def c_strlen_digits)
qed

end
