(* ===== verification/TreeText.thy ===== *)
theory TreeText
  imports "HOL-Library.Tree" CInt JsonNumber
begin

text \<open>
  The program \<open>cplusplus/leetcode/construct_string.c\<close>, which writes a binary tree as a string: a node is its value, then
  its subtrees in parentheses, where an empty right subtree is left out and an empty left one only if the
  right one is empty as well.  A tree of nodes is a value of the library's type of trees, and NULL is its leaf; the
  position \<open>gidx\<close> is passed along with the buffer.  The number is printed by \<open>sprintf\<close>, which \<open>JsonNumber\<close> has.
\<close>

section \<open>The code\<close>

definition NUL :: char where "NUL = char_of (0 :: nat)"

type_synonym text_state = "string \<times> nat"

text \<open>\<open>strcat\<close> to the string that starts at \<open>pos\<close>.\<close>

definition strcat_at :: "string \<Rightarrow> nat \<Rightarrow> string \<Rightarrow> string option" where
  "strcat_at abc pos s =
     (let p = pos + length (takeWhile (\<lambda>c. c \<noteq> NUL) (drop pos abc))
      in if p + length s < length abc then Some (take p abc @ s @ [NUL] @ drop (p + length s + 1) abc) else None)"

definition write_val :: "int \<Rightarrow> text_state \<Rightarrow> text_state option" where
  "write_val val st = (case st of (abc, gidx) \<Rightarrow>
     let tmp = sprintf_d val
     in if 15 \<le> length tmp then None
        else do { abc \<leftarrow> strcat_at abc gidx tmp; Some (abc, gidx + length tmp) })"

definition write_char :: "char \<Rightarrow> text_state \<Rightarrow> text_state option" where
  "write_char c st = (case st of (abc, gidx) \<Rightarrow> do { abc \<leftarrow> put abc gidx c; Some (abc, gidx + 1) })"

fun dfs_write :: "int tree \<Rightarrow> text_state \<Rightarrow> text_state option" where
  "dfs_write Leaf st = Some st"
| "dfs_write (Node l v r) st = do {
     st \<leftarrow> write_val v st;
     if l \<noteq> Leaf \<or> r \<noteq> Leaf then do {
       st \<leftarrow> (if l \<noteq> Leaf then do {
                st \<leftarrow> write_char (CHR ''('') st;
                st \<leftarrow> dfs_write l st;
                write_char (CHR '')'') st
              } else Some st);
       if r \<noteq> Leaf then do {
         st \<leftarrow> (if l = Leaf then do {
                  st \<leftarrow> write_char (CHR ''('') st;
                  write_char (CHR '')'') st
                } else Some st);
         st \<leftarrow> write_char (CHR ''('') st;
         st \<leftarrow> dfs_write r st;
         write_char (CHR '')'') st
       } else Some st
     } else Some st }"

text \<open>The flag is the answer of \<open>malloc\<close>, whose result is not checked.\<close>

definition tree2str :: "int tree \<Rightarrow> bool \<Rightarrow> string option" where
  "tree2str t granted =
     (if granted then map_option fst (dfs_write t (replicate 1000 NUL, 0)) else None)"

section \<open>What is written\<close>

fun tree_text :: "int tree \<Rightarrow> string" where
  "tree_text Leaf = []"
| "tree_text (Node l v r) = sprintf_d v @
     (if l = Leaf \<and> r = Leaf then []
      else ''('' @ tree_text l @ '')'' @ (if r = Leaf then [] else ''('' @ tree_text r @ '')''))"

definition padded :: "string \<Rightarrow> text_state" where
  "padded s = (s @ replicate (1000 - length s) NUL, length s)"

lemma takeWhile_NUL: "takeWhile (\<lambda>c. c \<noteq> NUL) (replicate n NUL) = []"
  by (cases n) simp_all

lemma write_char_padded: "length s < 1000 \<Longrightarrow> write_char c (padded s) = Some (padded (s @ [c]))"
proof -
  assume s: "length s < 1000"
  then obtain k where "1000 - length s = Suc k" "1000 - Suc (length s) = k" by (metis Suc_diff_Suc)
  with s show ?thesis by (simp add: write_char_def padded_def list_update_append)
qed

lemma write_val_padded:
  assumes "length (sprintf_d v) < 15" "length s + length (sprintf_d v) < 1000"
  shows "write_val v (padded s) = Some (padded (s @ sprintf_d v))"
proof -
  let ?k = "length (sprintf_d v)"
  have "strcat_at (s @ replicate (1000 - length s) NUL) (length s) (sprintf_d v) =
      Some (s @ sprintf_d v @ [NUL] @ replicate (1000 - length s - (?k + 1)) NUL)"
    using assms(2) by (simp add: strcat_at_def takeWhile_NUL)
  also have "[NUL] @ replicate (1000 - length s - (?k + 1)) NUL = replicate (1000 - (length s + ?k)) NUL"
    using assms(2) by (simp flip: replicate_Suc)
  finally show ?thesis using assms(1) by (simp add: write_val_def padded_def Let_def)
qed

definition int_tree :: "int tree \<Rightarrow> bool" where
  "int_tree t \<longleftrightarrow> (\<forall>v \<in> set_tree t. int_ok v)"

lemma show_nat_length: "n < 10 ^ k \<Longrightarrow> 0 < k \<Longrightarrow> length (show_nat n) \<le> k"
proof (induction k arbitrary: n)
  case (Suc k)
  show ?case
  proof (cases "n < 10")
    case False
    then have "0 < k" using Suc.prems(1) by (cases k) simp_all
    moreover have "n div 10 < 10 ^ k" using Suc.prems(1) by (simp add: less_mult_imp_div_less mult.commute)
    ultimately have "length (show_nat (n div 10)) \<le> k" by (rule Suc.IH [rotated])
    with False show ?thesis by (subst show_nat.simps) simp
  qed (subst show_nat.simps, simp)
qed simp

lemma sprintf_d_length: "int_ok v \<Longrightarrow> length (sprintf_d v) < 15"
proof -
  assume "int_ok v"
  then have "nat \<bar>v\<bar> < 10 ^ 10" by (auto simp: int_ok_def)
  from show_nat_length [OF this] have "length (show_nat (nat \<bar>v\<bar>)) \<le> 10" by simp
  moreover have "length (sprintf_d v) \<le> 1 + length (show_nat (nat \<bar>v\<bar>))"
    by (simp add: sprintf_d_def)
  ultimately show ?thesis by linarith
qed

lemma dfs_write_text:
  "int_tree t \<Longrightarrow> length s + length (tree_text t) < 1000 \<Longrightarrow> dfs_write t (padded s) = Some (padded (s @ tree_text t))"
proof (induction t arbitrary: s)
  case Leaf
  then show ?case by simp
next
  case (Node l v r)
  have "int_tree l" "int_tree r" "int_ok v" using Node.prems(1) by (auto simp: int_tree_def)
  note IH = Node.IH(1) [OF this(1)] Node.IH(2) [OF this(2)] and v = sprintf_d_length [OF this(3)]
  show ?case
    using Node.prems(2) v
    by (cases "l = Leaf"; cases "r = Leaf") (simp_all add: write_val_padded write_char_padded IH)
qed

section \<open>The text determines the tree\<close>

text \<open>What may stand behind the text of a tree.\<close>

definition closes :: "string \<Rightarrow> bool" where
  "closes s \<longleftrightarrow> s = [] \<or> hd s = CHR '')''"

lemma sprintf_d_head: "\<exists>c cs. sprintf_d v = c # cs \<and> (isdigit c \<or> c = CHR ''-'')"
  using show_nat_head [of "nat \<bar>v\<bar>"] by (auto simp: sprintf_d_def)

lemma no_digit: "\<not> isdigit (CHR ''('')" "\<not> isdigit (CHR '')'')" "\<not> isdigit (CHR ''-'')"
  by (simp_all add: isdigit_def char_code_def)

lemma show_nat_unique:
  assumes "show_nat m @ s = show_nat n @ t" "s = [] \<or> \<not> isdigit (hd s)" "t = [] \<or> \<not> isdigit (hd t)"
  shows "m = n" "s = t"
proof -
  have tw: "takeWhile isdigit (show_nat k @ u) = show_nat k" if "u = [] \<or> \<not> isdigit (hd u)" for k u
    using that by (cases u) (auto simp: takeWhile_append2 show_nat_digits)
  have eq: "show_nat m = show_nat n" using tw [OF assms(2), of m] tw [OF assms(3), of n] assms(1) by simp
  then show "m = n" by (metis number_value_show)
  show "s = t" using eq assms(1) by simp
qed

lemma sprintf_d_unique:
  assumes "sprintf_d v @ s = sprintf_d w @ t" "s = [] \<or> \<not> isdigit (hd s)" "t = [] \<or> \<not> isdigit (hd t)"
  shows "v = w \<and> s = t"
proof -
  have sign: "hd (show_nat n @ u) \<noteq> CHR ''-''" for n u
    using show_nat_head [of n] no_digit(3) by auto
  have same: "v < 0 \<longleftrightarrow> w < 0"
    using assms(1) sign [of "nat \<bar>v\<bar>" s] sign [of "nat \<bar>w\<bar>" t]
    by (auto simp: sprintf_d_def split: if_splits) (metis list.sel(1))+
  then have "show_nat (nat \<bar>v\<bar>) @ s = show_nat (nat \<bar>w\<bar>) @ t"
    using assms(1) by (auto simp: sprintf_d_def split: if_splits)
  from show_nat_unique [OF this assms(2,3)] same show ?thesis by auto
qed

lemma closes_Leaf: "closes s \<Longrightarrow> closes s' \<Longrightarrow> s = tree_text t @ s' \<Longrightarrow> t = Leaf"
proof (cases t)
  case (Node l v r)
  assume s: "closes s" "s = tree_text t @ s'"
  obtain c cs where c: "sprintf_d v = c # cs" "isdigit c \<or> c = CHR ''-''" using sprintf_d_head by blast
  then have "c \<noteq> CHR '')''" using no_digit(2) by auto
  with s Node c(1) show ?thesis by (simp add: closes_def)
qed

lemma tree_text_unique:
  "tree_text t @ s = tree_text u @ s' \<Longrightarrow> closes s \<Longrightarrow> closes s' \<Longrightarrow> t = u \<and> s = s'"
proof (induction t arbitrary: u s s')
  case Leaf
  with closes_Leaf [of s s' u] show ?case by auto
next
  case (Node l v r)
  have "u \<noteq> Leaf"
  proof
    assume "u = Leaf"
    then have "s' = tree_text (Node l v r) @ s" using Node.prems(1) by (simp only: tree_text.simps append_Nil)
    from closes_Leaf [OF Node.prems(3,2) this] show False by simp
  qed
  then obtain l' v' r' where u: "u = Node l' v' r'" by (cases u) simp_all
  define rest where "rest = (\<lambda>l r s. (if l = Leaf \<and> r = Leaf then s
      else ''('' @ tree_text l @ '')'' @ (if r = Leaf then s else ''('' @ tree_text r @ '')'' @ s)))"
  have written: "tree_text (Node l v r) @ s = sprintf_d v @ rest l r s" for l v r s
    by (simp add: rest_def)
  have "rest l r s = [] \<or> \<not> isdigit (hd (rest l r s))" if "closes s" for l r s
    using that no_digit by (auto simp: rest_def closes_def)
  with sprintf_d_unique [of v "rest l r s" v' "rest l' r' s'"] Node.prems
  have v: "v = v'" and rest: "rest l r s = rest l' r' s'" unfolding u written by blast+
  have no_open: "a \<noteq> CHR ''('' # b" if "closes a" for a b using that by (auto simp: closes_def)
  note s = no_open [OF Node.prems(2)] and s' = no_open [OF Node.prems(3)]
  define tail where "tail = (\<lambda>r s. if r = Leaf then s else CHR ''('' # tree_text r @ CHR '')'' # s)"
  have rest_cases: "rest l r s = (if l = Leaf \<and> r = Leaf then s else CHR ''('' # tree_text l @ CHR '')'' # tail r s)" for l r s
    by (simp add: rest_def tail_def)
  have empty: "l = Leaf \<and> r = Leaf \<longleftrightarrow> l' = Leaf \<and> r' = Leaf"
    using rest s s' unfolding rest_cases by metis
  show ?case
  proof (cases "l = Leaf \<and> r = Leaf")
    case True
    with empty rest u v show ?thesis by (simp add: rest_cases)
  next
    case False
    then have False': "\<not> (l' = Leaf \<and> r' = Leaf)" using empty by simp
    have "tree_text l @ CHR '')'' # tail r s = tree_text l' @ CHR '')'' # tail r' s'"
      using rest unfolding rest_cases if_not_P [OF False] if_not_P [OF False'] list.inject by (rule conjunct2)
    from Node.IH(1) [OF this] have l: "l = l'" and t: "tail r s = tail r' s'" by (simp_all add: closes_def)
    have "r = Leaf \<longleftrightarrow> r' = Leaf" using t s s' unfolding tail_def by metis
    moreover have "r = r' \<and> s = s'" if "r \<noteq> Leaf" "r' \<noteq> Leaf"
    proof -
      have "tree_text r @ CHR '')'' # s = tree_text r' @ CHR '')'' # s'" using t that by (simp add: tail_def)
      from Node.IH(2) [OF this] show ?thesis by (simp add: closes_def)
    qed
    ultimately show ?thesis using t l u v by (cases "r = Leaf") (simp_all add: tail_def)
  qed
qed

section \<open>Correctness\<close>

lemma tree2str_text:
  "int_tree t \<Longrightarrow> length (tree_text t) < 1000 \<Longrightarrow> tree2str t True = Some (fst (padded (tree_text t)))"
  using dfs_write_text [of t "[]"] by (simp add: tree2str_def padded_def)

lemma NUL_differs: "NUL \<noteq> CHR ''-''" "NUL \<noteq> CHR ''(''" "NUL \<noteq> CHR '')''"
  by (simp_all add: NUL_def char_code_char_of flip: char_code_inj) (simp_all add: char_code_def)

lemma text_no_NUL: "NUL \<notin> set (tree_text t)"
proof (induction t)
  case (Node l v r)
  have "NUL \<notin> set (show_nat n)" for n using show_nat_digits [of NUL n] by (auto simp: isdigit_def char_code_def NUL_def)
  then have "NUL \<notin> set (sprintf_d v)" using NUL_differs by (auto simp: sprintf_d_def)
  with Node show ?case using NUL_differs by auto
qed simp

text \<open>For a tree of ints whose text has less than 1000 characters tree2str stays within its buffers and returns that text, and two trees with the same text are the same, although empty right subtrees are left out.\<close>

theorem tree2str_injective:
  assumes "int_tree t" "length (tree_text t) < 1000" "int_tree u" "length (tree_text u) < 1000"
  shows "\<exists>s. tree2str t True = Some s \<and> length s = 1000 \<and> takeWhile (\<lambda>c. c \<noteq> NUL) s = tree_text t \<and>
    (tree2str u True = Some s \<longrightarrow> u = t)"
proof -
  have tw: "takeWhile (\<lambda>c. c \<noteq> NUL) (fst (padded (tree_text t))) = tree_text t" for t
  proof -
    have "takeWhile (\<lambda>c. c \<noteq> NUL) (tree_text t @ replicate n NUL) = tree_text t @ takeWhile (\<lambda>c. c \<noteq> NUL) (replicate n NUL)" for n
      by (rule takeWhile_append2) (use text_no_NUL [of t] in blast)
    then show ?thesis by (simp add: padded_def takeWhile_NUL)
  qed
  have "u = t" if "fst (padded (tree_text u)) = fst (padded (tree_text t))"
  proof -
    have "tree_text u = tree_text t" using tw [of u] tw [of t] that by metis
    then show ?thesis using tree_text_unique [of u "[]" t "[]"] by (simp add: closes_def)
  qed
  with tw [of t] tree2str_text [OF assms(1,2)] tree2str_text [OF assms(3,4)] assms(2) show ?thesis
    by (auto simp: padded_def)
qed

end
