(* ===== verification/Puzzles.thy ===== *)
theory Puzzles
  imports CInt
begin

text \<open>
  Three programs of \<open>cplusplus/leetcode\<close>: \<open>wlen_max_product.c\<close>, which is right, and \<open>coin_change.c\<close> and \<open>reverse_str2.c\<close>, which
  are proved to compute something else than they mean to.  Printing is not modelled.
\<close>

unbundle bit_operations_syntax

section \<open>The greatest product of the lengths of two words without a common letter\<close>

text \<open>A word is given by its characters in front of the terminating zero.\<close>

fun hashstring :: "int list \<Rightarrow> 32 word \<Rightarrow> nat \<Rightarrow> (32 word \<times> nat) option" where
  "hashstring [] v c = Some (v, c)"
| "hashstring (t # ts) v c =
     (let n = t - 97
      in if 0 \<le> n \<and> n < 31 then hashstring ts (v OR push_bit (nat n) 1) (c + 1) else None)"

fun hash_words :: "int list list \<Rightarrow> nat \<Rightarrow> 32 word list \<Rightarrow> nat list \<Rightarrow> (32 word list \<times> nat list) option" where
  "hash_words [] i hashval lensval = Some (hashval, lensval)"
| "hash_words (w # ws) i hashval lensval = do {
     (v, l) \<leftarrow> hashstring w 0 0;
     hashval \<leftarrow> put hashval i v;
     lensval \<leftarrow> put lensval i l;
     hash_words ws (i + 1) hashval lensval }"

fun product_inner :: "32 word list \<Rightarrow> nat list \<Rightarrow> nat \<Rightarrow> nat \<Rightarrow> nat \<Rightarrow> int \<Rightarrow> int option" where
  "product_inner hashval lensval i j 0 best = Some best"
| "product_inner hashval lensval i j (Suc n) best = do {
     a \<leftarrow> at hashval i;
     b \<leftarrow> at hashval j;
     best \<leftarrow> (if a AND b = 0 then do {
         x \<leftarrow> at lensval i;
         y \<leftarrow> at lensval j;
         tpro \<leftarrow> c_mul (int x) (int y);
         Some (if best > tpro then best else tpro)
       } else Some best);
     product_inner hashval lensval i (j + 1) n best }"

fun product_outer :: "32 word list \<Rightarrow> nat list \<Rightarrow> nat \<Rightarrow> nat \<Rightarrow> int \<Rightarrow> int option" where
  "product_outer hashval lensval i 0 best = Some best"
| "product_outer hashval lensval i (Suc n) best = do {
     best \<leftarrow> product_inner hashval lensval i (i + 1) n best;
     product_outer hashval lensval (i + 1) n best }"

text \<open>The static arrays have 10000 elements; what they hold before the call does not matter.\<close>

definition maxProduct :: "int list list \<Rightarrow> 32 word list \<Rightarrow> nat list \<Rightarrow> int option" where
  "maxProduct ws hashval lensval = do {
     (hashval, lensval) \<leftarrow> hash_words ws 0 hashval lensval;
     product_outer hashval lensval 0 (length ws) 0 }"

definition letters :: "int list \<Rightarrow> bool" where
  "letters w \<longleftrightarrow> (\<forall>c \<in> set w. 97 \<le> c \<and> c \<le> 122)"

lemma hashstring_bits:
  "letters w \<Longrightarrow> \<exists>v'. hashstring w v c = Some (v', c + length w) \<and>
     (\<forall>k < 32. bit v' k \<longleftrightarrow> bit v k \<or> 97 + int k \<in> set w)"
proof (induction w arbitrary: v c)
  case Nil
  then show ?case by simp
next
  case (Cons t w)
  then have t: "0 \<le> t - 97" "t - 97 < 31" and w: "letters w" by (auto simp: letters_def)
  from Cons.IH [OF w, of "v OR push_bit (nat (t - 97)) 1" "c + 1"] obtain v' where
    v': "hashstring w (v OR push_bit (nat (t - 97)) 1) (c + 1) = Some (v', c + 1 + length w)"
    "\<forall>k < 32. bit v' k \<longleftrightarrow> bit (v OR push_bit (nat (t - 97)) 1) k \<or> 97 + int k \<in> set w" by auto
  have "bit (push_bit (nat (t - 97)) 1 :: 32 word) k \<longleftrightarrow> 97 + int k = t" if "k < 32" for k
    using that t by (auto simp: bit_simps)
  with v' t show ?case by (auto simp: bit_or_iff Let_def)
qed

text \<open>The hash of a word has the bits of its letters.\<close>

definition word_hash :: "int list \<Rightarrow> 32 word" where
  "word_hash w = fst (the (hashstring w 0 0))"

lemma word_hash_bits:
  assumes "letters w"
  shows "hashstring w 0 0 = Some (word_hash w, length w)"
    "k < 32 \<Longrightarrow> bit (word_hash w) k \<longleftrightarrow> 97 + int k \<in> set w"
  using hashstring_bits [OF assms, of 0 0] by (auto simp: word_hash_def)

lemma word_hash_disjoint:
  assumes "letters u" "letters w"
  shows "word_hash u AND word_hash w = 0 \<longleftrightarrow> set u \<inter> set w = {}"
proof
  assume eq: "word_hash u AND word_hash w = 0"
  show "set u \<inter> set w = {}"
  proof (rule equals0I)
    fix c assume c: "c \<in> set u \<inter> set w"
    then obtain k where k: "c = 97 + int k" "k < 32"
      using assms(1) by (auto simp: letters_def intro!: that [of "nat (c - 97)"])
    have "bit (word_hash u AND word_hash w) k"
      using c k word_hash_bits(2) [OF assms(1), of k] word_hash_bits(2) [OF assms(2), of k] by (simp add: bit_and_iff)
    with eq show False by simp
  qed
next
  assume dis: "set u \<inter> set w = {}"
  show "word_hash u AND word_hash w = 0"
  proof (rule bit_word_eqI)
    fix k assume "k < LENGTH(32)"
    then show "bit (word_hash u AND word_hash w) k = bit (0 :: 32 word) k"
      using dis word_hash_bits(2) [OF assms(1), of k] word_hash_bits(2) [OF assms(2), of k]
      by (auto simp: bit_and_iff)
  qed
qed

lemma hash_words_fills:
  "list_all letters ws \<Longrightarrow> i + length ws \<le> length hv \<Longrightarrow> i + length ws \<le> length lv \<Longrightarrow>
   \<exists>hv' lv'. hash_words ws i hv lv = Some (hv', lv') \<and> length hv' = length hv \<and> length lv' = length lv \<and>
     (\<forall>k < i. hv' ! k = hv ! k \<and> lv' ! k = lv ! k) \<and>
     (\<forall>k < length ws. hv' ! (i + k) = word_hash (ws ! k) \<and> lv' ! (i + k) = length (ws ! k))"
proof (induction ws arbitrary: i hv lv)
  case Nil
  then show ?case by simp
next
  case (Cons w ws)
  let ?hv = "hv[i := word_hash w]" and ?lv = "lv[i := length w]"
  from Cons.IH [of "i + 1" ?hv ?lv] Cons.prems obtain hv' lv' where
    r: "hash_words ws (i + 1) ?hv ?lv = Some (hv', lv')" "length hv' = length hv" "length lv' = length lv"
    "\<And>k. k < i + 1 \<Longrightarrow> hv' ! k = ?hv ! k \<and> lv' ! k = ?lv ! k"
    "\<And>k. k < length ws \<Longrightarrow> hv' ! (i + 1 + k) = word_hash (ws ! k) \<and> lv' ! (i + 1 + k) = length (ws ! k)" by auto
  have "hash_words (w # ws) i hv lv = Some (hv', lv')"
    using Cons.prems r(1) word_hash_bits(1) [of w] by simp
  moreover have "hv' ! (i + k) = word_hash ((w # ws) ! k) \<and> lv' ! (i + k) = length ((w # ws) ! k)"
    if "k < length (w # ws)" for k
  proof (cases k)
    case 0
    then show ?thesis using r(4) [of i] Cons.prems by simp
  next
    case (Suc j)
    then show ?thesis using r(5) [of j] that by simp
  qed
  moreover have "hv' ! k = hv ! k \<and> lv' ! k = lv ! k" if "k < i" for k
    using r(4) [of k] that by simp
  ultimately show ?case using r(2,3) by blast
qed

text \<open>The products of the pairs that the loops have seen.\<close>

definition pair_product :: "int list list \<Rightarrow> nat \<Rightarrow> nat \<Rightarrow> int \<Rightarrow> bool" where
  "pair_product ws i j p \<longleftrightarrow> set (ws ! i) \<inter> set (ws ! j) = {} \<and> p = int (length (ws ! i)) * int (length (ws ! j))"

definition greatest :: "(int \<Rightarrow> bool) \<Rightarrow> int \<Rightarrow> bool" where
  "greatest P b \<longleftrightarrow> (b = 0 \<or> P b) \<and> 0 \<le> b \<and> (\<forall>p. P p \<longrightarrow> p \<le> b)"

definition stored :: "int list list \<Rightarrow> 32 word list \<Rightarrow> nat list \<Rightarrow> bool" where
  "stored ws hv lv \<longleftrightarrow> list_all letters ws \<and> (\<forall>w \<in> set ws. length w < 2 ^ 15) \<and>
     length ws \<le> length hv \<and> length ws \<le> length lv \<and>
     (\<forall>k < length ws. hv ! k = word_hash (ws ! k) \<and> lv ! k = length (ws ! k))"

lemma product_inner_greatest:
  "stored ws hv lv \<Longrightarrow> i < length ws \<Longrightarrow> j + n = length ws \<Longrightarrow> greatest P best \<Longrightarrow>
   \<exists>b. product_inner hv lv i j n best = Some b \<and>
     greatest (\<lambda>p. P p \<or> (\<exists>k \<in> {j ..< length ws}. pair_product ws i k p)) b"
proof (induction n arbitrary: j best P)
  case 0
  then show ?case by simp
next
  case (Suc n)
  let ?u = "ws ! i" and ?w = "ws ! j"
  have ij: "i < length ws" "j < length ws" using Suc.prems by simp_all
  then have let': "letters ?u" "letters ?w" and len: "length ?u < 2 ^ 15" "length ?w < 2 ^ 15"
    using Suc.prems(1) by (simp_all add: stored_def list_all_length)
  have read: "at hv i = Some (word_hash ?u)" "at hv j = Some (word_hash ?w)"
    "at lv i = Some (length ?u)" "at lv j = Some (length ?w)"
    using Suc.prems(1) ij by (auto simp: stored_def)
  have "int (length ?u) * int (length ?w) \<le> 2 ^ 15 * 2 ^ 15"
    using len by (intro mult_mono) simp_all
  moreover have "0 \<le> int (length ?u) * int (length ?w)" by simp
  moreover have "int_ok p" if "0 \<le> p" "p \<le> 2 ^ 15 * 2 ^ 15" for p using that by (simp add: int_ok_def)
  ultimately have "int_ok (int (length ?u) * int (length ?w))" by blast
  then have mul: "c_mul (int (length ?u)) (int (length ?w)) = Some (int (length ?u) * int (length ?w))"
    by (simp only: c_arith)
  define best' where "best' = (if set ?u \<inter> set ?w = {}
    then if best > int (length ?u) * int (length ?w) then best else int (length ?u) * int (length ?w) else best)"
  have "greatest (\<lambda>p. P p \<or> pair_product ws i j p) best'"
    using Suc.prems(4) by (auto simp: greatest_def pair_product_def best'_def)
  from Suc.IH [OF Suc.prems(1,2) _ this, of "j + 1"] Suc.prems(3) obtain b where
    b: "product_inner hv lv i (j + 1) n best' = Some b"
    "greatest (\<lambda>p. (P p \<or> pair_product ws i j p) \<or> (\<exists>k \<in> {j + 1 ..< length ws}. pair_product ws i k p)) b" by auto
  have "{j ..< length ws} = insert j {j + 1 ..< length ws}" using ij by auto
  moreover have "product_inner hv lv i j (Suc n) best = Some b"
    using read mul b(1) word_hash_disjoint [OF let']
    by (cases "set ?u \<inter> set ?w = {}") (simp_all add: best'_def)
  ultimately show ?case using b(2) by (simp add: disj_assoc)
qed

lemma product_outer_greatest:
  "stored ws hv lv \<Longrightarrow> i + n = length ws \<Longrightarrow> greatest P best \<Longrightarrow>
   \<exists>b. product_outer hv lv i n best = Some b \<and>
     greatest (\<lambda>p. P p \<or> (\<exists>k l. i \<le> k \<and> k < l \<and> l < length ws \<and> pair_product ws k l p)) b"
proof (induction n arbitrary: i best P)
  case 0
  then show ?case by (auto simp: greatest_def)
next
  case (Suc n)
  from product_inner_greatest [OF Suc.prems(1) _ _ Suc.prems(3), of i "i + 1" n] Suc.prems(2) obtain b where
    b: "product_inner hv lv i (i + 1) n best = Some b"
    "greatest (\<lambda>p. P p \<or> (\<exists>k \<in> {i + 1 ..< length ws}. pair_product ws i k p)) b" by auto
  from Suc.IH [OF Suc.prems(1) _ b(2), of "i + 1"] Suc.prems(2) obtain c where
    c: "product_outer hv lv (i + 1) n b = Some c"
    "greatest (\<lambda>p. (P p \<or> (\<exists>k \<in> {i + 1 ..< length ws}. pair_product ws i k p)) \<or>
      (\<exists>k l. i + 1 \<le> k \<and> k < l \<and> l < length ws \<and> pair_product ws k l p)) c" by auto
  have "((P p \<or> (\<exists>k \<in> {i + 1 ..< length ws}. pair_product ws i k p)) \<or>
      (\<exists>k l. i + 1 \<le> k \<and> k < l \<and> l < length ws \<and> pair_product ws k l p)) =
    (P p \<or> (\<exists>k l. i \<le> k \<and> k < l \<and> l < length ws \<and> pair_product ws k l p))" for p
    by (auto simp: Suc_le_eq) (metis atLeastLessThan_iff Suc_leI le_neq_implies_less)
  with b(1) c show ?case by (simp only: product_outer.simps bind.bind_lunit) blast
qed

text \<open>For words of small letters that are not too long maxProduct returns the greatest product of the lengths of two words without a common letter, and 0 if there are none.\<close>

theorem maxProduct_correct:
  assumes "list_all letters ws" "\<forall>w \<in> set ws. length w < 2 ^ 15" "length ws \<le> 10000" "length hv = 10000" "length lv = 10000"
  shows "\<exists>b. maxProduct ws hv lv = Some b \<and>
    greatest (\<lambda>p. \<exists>k l. k < l \<and> l < length ws \<and> pair_product ws k l p) b"
proof -
  from hash_words_fills [OF assms(1), of 0 hv lv] assms obtain hv' lv' where
    h: "hash_words ws 0 hv lv = Some (hv', lv')" "stored ws hv' lv'" by (auto simp: stored_def)
  have "greatest (\<lambda>p. False) 0" by (simp add: greatest_def)
  from product_outer_greatest [OF h(2) _ this, of 0] h(1) show ?thesis
    by (auto simp: maxProduct_def)
qed

section \<open>The fewest coins\<close>

text \<open>The static table \<open>dp[1000]\<close> starts with -1 for the amounts that cannot be paid.\<close>

fun coin_clear :: "nat \<Rightarrow> nat \<Rightarrow> int list \<Rightarrow> int list option" where
  "coin_clear i 0 dp = Some dp"
| "coin_clear i (Suc n) dp = do { dp \<leftarrow> put dp i (- 1); coin_clear (i + 1) n dp }"

fun coin_inner :: "int list \<Rightarrow> nat \<Rightarrow> int list \<Rightarrow> int list option" where
  "coin_inner [] i dp = Some dp"
| "coin_inner (c # coins) i dp = do {
     x \<leftarrow> c_sub (int i) c;
     dp \<leftarrow> (if x \<ge> 0 then do {
         a \<leftarrow> at dp i;
         b \<leftarrow> at dp (nat x);
         b \<leftarrow> c_add b 1;
         put dp i (if a > b then b else a)
       } else Some dp);
     coin_inner coins i dp }"

fun coin_outer :: "int list \<Rightarrow> nat \<Rightarrow> nat \<Rightarrow> int list \<Rightarrow> int list option" where
  "coin_outer coins i 0 dp = Some dp"
| "coin_outer coins i (Suc n) dp = do { dp \<leftarrow> coin_inner coins i dp; coin_outer coins (i + 1) n dp }"

definition coinChange :: "int list \<Rightarrow> nat \<Rightarrow> int list \<Rightarrow> int option" where
  "coinChange coins amount dp = do {
     dp \<leftarrow> coin_clear 0 (amount + 1) dp;
     dp \<leftarrow> put dp 0 0;
     dp \<leftarrow> coin_outer coins 0 (amount + 1) dp;
     at dp amount }"

text \<open>The table is never changed: an entry of -1 is not greater than what it is compared with.\<close>

definition coin_table :: "nat \<Rightarrow> int list \<Rightarrow> bool" where
  "coin_table m dp \<longleftrightarrow> m < length dp \<and> (\<forall>k \<le> m. dp ! k = (if k = 0 then 0 else -1))"

lemma coin_clear_clears:
  "i + n \<le> length dp \<Longrightarrow> \<exists>dp'. coin_clear i n dp = Some dp' \<and> length dp' = length dp \<and>
     (\<forall>k < i. dp' ! k = dp ! k) \<and> (\<forall>k. i \<le> k \<and> k < i + n \<longrightarrow> dp' ! k = -1)"
proof (induction n arbitrary: i dp)
  case 0
  then show ?case by simp
next
  case (Suc n)
  then have i: "i < length dp" by simp
  from Suc.IH [of "i + 1" "dp[i := -1]"] Suc.prems obtain dp' where
    r: "coin_clear (i + 1) n (dp[i := -1]) = Some dp'" "length dp' = length dp"
    "\<And>k. k < i + 1 \<Longrightarrow> dp' ! k = dp[i := -1] ! k" "\<And>k. i + 1 \<le> k \<Longrightarrow> k < i + 1 + n \<Longrightarrow> dp' ! k = -1" by auto
  have "dp' ! k = -1" if "i \<le> k" "k < i + Suc n" for k
    using r(3) [of k] r(4) [of k] that i by (cases "k = i") simp_all
  moreover have "dp' ! k = dp ! k" if "k < i" for k using r(3) [of k] that by simp
  ultimately show ?case using r(1,2) i by auto
qed

lemma coin_inner_idle:
  "coin_table m dp \<Longrightarrow> i \<le> m \<Longrightarrow> int m < 2 ^ 31 \<Longrightarrow> \<forall>c \<in> set coins. 0 \<le> c \<and> int_ok c \<Longrightarrow> coin_inner coins i dp = Some dp"
proof (induction coins)
  case (Cons c coins)
  have sub: "c_sub (int i) c = Some (int i - c)"
    using Cons.prems by (simp add: c_sub_def int_ok_def)
  show ?case
  proof (cases "int i - c \<ge> 0")
    case True
    let ?x = "nat (int i - c)"
    have x: "?x \<le> i" "?x < length dp" "i < length dp" "?x = 0 \<longrightarrow> i = 0 \<or> 0 < i"
      using Cons.prems True by (auto simp: coin_table_def)
    then have vals: "dp ! i = (if i = 0 then 0 else -1)" "dp ! ?x = (if ?x = 0 then 0 else -1)"
      using Cons.prems(1,2) by (simp_all add: coin_table_def)
    then have "c_add (dp ! ?x) 1 = Some (dp ! ?x + 1)" "\<not> dp ! i > dp ! ?x + 1"
      using x(1) by (simp_all add: c_add_def int_ok_def)
    with True x Cons sub show ?thesis by simp
  next
    case False
    with Cons sub show ?thesis by simp
  qed
qed simp

lemma coin_outer_idle:
  "coin_table m dp \<Longrightarrow> i + n \<le> m + 1 \<Longrightarrow> int m < 2 ^ 31 \<Longrightarrow> \<forall>c \<in> set coins. 0 \<le> c \<and> int_ok c \<Longrightarrow>
   coin_outer coins i n dp = Some dp"
  by (induction n arbitrary: i) (simp_all add: coin_inner_idle)

theorem coinChange_never_pays:
  assumes "amount < 1000" "length dp = 1000" "\<forall>c \<in> set coins. 0 \<le> c \<and> int_ok c"
  shows "coinChange coins amount dp = Some (if amount = 0 then 0 else -1)"
proof -
  from coin_clear_clears [of 0 "amount + 1" dp] assms(1,2) obtain dp1 where
    dp1: "coin_clear 0 (amount + 1) dp = Some dp1" "length dp1 = 1000" "\<forall>k. k < amount + 1 \<longrightarrow> dp1 ! k = -1" by auto
  then have t: "coin_table amount (dp1[0 := 0])" using assms(1) by (simp add: coin_table_def nth_list_update)
  from coin_outer_idle [OF t, of 0 "amount + 1" coins] assms(1,3)
  have "coin_outer coins 0 (amount + 1) (dp1[0 := 0]) = Some (dp1[0 := 0])" by simp
  with dp1 assms(1) t show ?thesis
    by (simp only: coinChange_def bind.bind_lunit put_in) (simp add: coin_table_def)
qed

section \<open>Reversing parts of a string\<close>

text \<open>The loop of \<open>reverseWorker\<close> on the \<open>len\<close> characters from \<open>off\<close> on; it runs over all of them.\<close>

fun reverse_loop :: "int list \<Rightarrow> nat \<Rightarrow> nat \<Rightarrow> nat \<Rightarrow> nat \<Rightarrow> int list option" where
  "reverse_loop s off len i 0 = Some s"
| "reverse_loop s off len i (Suc n) = do {
     s \<leftarrow> swap_at s (off + i) (off + (len - i - 1));
     reverse_loop s off len (i + 1) n }"

definition reverseWorker :: "int list \<Rightarrow> nat \<Rightarrow> nat \<Rightarrow> int list option" where
  "reverseWorker s off len = reverse_loop s off len 0 len"

fun reverse_parts :: "int list \<Rightarrow> nat \<Rightarrow> nat \<Rightarrow> nat \<Rightarrow> int list option" where
  "reverse_parts s k i 0 = Some s"
| "reverse_parts s k i (Suc n) = do { s \<leftarrow> reverseWorker s (i * k) k; reverse_parts s k (i + 1) n }"

text \<open>The string is an array of which the first \<open>len\<close> elements are not zero; a division by zero is undefined.\<close>

definition reverseStr :: "int list \<Rightarrow> nat \<Rightarrow> int list option" where
  "reverseStr s k =
     (let len = length (takeWhile (\<lambda>c. c \<noteq> 0) s)
      in if len = length s \<or> k = 0 then None else reverse_parts s k 0 (len div k))"

text \<open>After \<open>i\<close> rounds a pair of opposite places is exchanged if exactly one of the two was reached.\<close>

lemma reverse_loop_twice:
  "i + n = len \<Longrightarrow> off + len \<le> length s \<Longrightarrow> length t = length s \<Longrightarrow>
   (\<And>p. p < length s \<Longrightarrow> p < off \<or> off + len \<le> p \<Longrightarrow> t ! p = s ! p) \<Longrightarrow>
   (\<And>p. p < len \<Longrightarrow> t ! (off + p) = (if (p < i) = (len - 1 - p < i) then s ! (off + p) else s ! (off + (len - 1 - p)))) \<Longrightarrow>
   reverse_loop t off len i n = Some s"
proof (induction n arbitrary: i t)
  case 0
  have "t ! q = s ! q" if q: "q < length s" for q
  proof (cases "off \<le> q \<and> q < off + len")
    case True
    then obtain p where p: "q = off + p" "p < len" by (metis add_less_cancel_left le_iff_add)
    with 0(5) [of p] 0(1) show ?thesis by simp
  next
    case False
    with 0(4) q show ?thesis by auto
  qed
  with 0(3) have "t = s" by (intro nth_equalityI) simp_all
  then show ?case by simp
next
  case (Suc n)
  let ?o = "len - i - 1"
  let ?t = "t[off + i := t ! (off + ?o), off + ?o := t ! (off + i)]"
  have i: "off + i < length t" "off + ?o < length t" "i < len" "?o < len" using Suc.prems(1-3) by auto
  have oi: "len - 1 - ?o = i" "len - 1 - i = ?o" using i by auto
  have "reverse_loop ?t off len (i + 1) n = Some s"
  proof (rule Suc.IH)
    fix p assume p: "p < len"
    have old: "t ! (off + p) = (if (p < i) = (len - 1 - p < i) then s ! (off + p) else s ! (off + (len - 1 - p)))"
      by (rule Suc.prems(5) [OF p])
    show "?t ! (off + p) =
        (if (p < i + 1) = (len - 1 - p < i + 1) then s ! (off + p) else s ! (off + (len - 1 - p)))"
    proof (cases "p = i \<or> p = ?o")
      case False
      then have "(p < i + 1) = (p < i)" "(len - 1 - p < i + 1) = (len - 1 - p < i)" using p i by auto
      moreover have "?t ! (off + p) = t ! (off + p)" using False by (intro trans [OF nth_list_update_neq nth_list_update_neq]) auto
      ultimately show ?thesis using old by simp
    next
      case True
      have ti: "t ! (off + i) = (if ?o < i then s ! (off + ?o) else s ! (off + i))"
        and to: "t ! (off + ?o) = (if ?o < i then s ! (off + i) else s ! (off + ?o))"
        using Suc.prems(5) [OF i(3)] Suc.prems(5) [OF i(4)] oi by auto
      from True show ?thesis
      proof
        assume "p = i"
        with i oi ti to show ?thesis by (cases "?o = i") (auto simp: nth_list_update)
      next
        assume "p = ?o"
        with i oi ti to show ?thesis by (cases "?o = i") (auto simp: nth_list_update)
      qed
    qed
  next
    fix p assume "p < length s" "p < off \<or> off + len \<le> p"
    with Suc.prems(4) [of p] i show "?t ! p = s ! p" by (auto simp: nth_list_update)
  qed (use Suc.prems in simp_all)
  then show ?case using i by simp
qed

lemma reverseWorker_idle: "off + len \<le> length s \<Longrightarrow> reverseWorker s off len = Some s"
  unfolding reverseWorker_def by (rule reverse_loop_twice) simp_all

lemma reverse_parts_idle: "(i + n) * k \<le> length s \<Longrightarrow> reverse_parts s k i n = Some s"
proof (induction n arbitrary: i)
  case (Suc n)
  have "i * k + k \<le> (i + Suc n) * k" by (simp add: algebra_simps)
  then have "reverseWorker s (i * k) k = Some s"
    by (rule reverseWorker_idle [OF order_trans [OF _ Suc.prems]])
  moreover have "reverse_parts s k (i + 1) n = Some s" using Suc.prems by (intro Suc.IH) simp
  ultimately show ?case by simp
qed simp

theorem reverseStr_does_nothing:
  assumes "0 \<in> set s" "0 < k"
  shows "reverseStr s k = Some s"
proof -
  let ?n = "length (takeWhile (\<lambda>c. c \<noteq> 0) s)"
  obtain as bs where "s = as @ 0 # bs" "0 \<notin> set as" using split_list_first [OF assms(1)] by blast
  then have "?n \<noteq> length s" by (simp add: takeWhile_append)
  moreover have "?n div k * k \<le> length s"
    using length_takeWhile_le [of "\<lambda>c. c \<noteq> 0" s] div_times_less_eq_dividend [of ?n k] by linarith
  ultimately show ?thesis
    using assms(2) reverse_parts_idle [of 0 "?n div k" k s] by (simp add: reverseStr_def)
qed

end
